(* ===== verification/Quic_Prelude.thy ===== *)
theory Quic_Prelude
  imports Main "HOL-Library.Word"
begin

text \<open>
  Shared vocabulary of the development: the fixed-width integer types of the C code, the
  collections of lemmas the component theories feed to the simplifier, and the generic facts on
  unsigned words and lists that several components use.

  Conventions. A C struct is a \<^theory_text>\<open>record\<close> (or a one-constructor datatype), a
  C function on a struct pointer takes the struct and returns the updated one. A C \<open>int\<close>
  used as a truth value is \<^typ>\<open>bool\<close>. An allocation that the code checks for failure is a boolean
  argument (\<^verbatim>\<open>mem\<close>: does \<^verbatim>\<open>OPENSSL_malloc\<close> succeed), so both branches are in the model.
  \<^verbatim>\<open>assert\<close> is absent from release builds, so it is not a branch of the model; where an asserted
  fact matters it is a lemma. \<^verbatim>\<open>ossl_assert\<close> returns the truth value of its argument in release
  builds and is modelled as the test it is.
\<close>

unbundle bit_operations_syntax

type_synonym u8 = "8 word"
type_synonym u32 = "32 word"
type_synonym u64 = "64 word"
type_synonym bytes = "8 word list"

named_theorems word_nat "facts that turn statements on unsigned words into statements on nat"

section \<open>Unsigned words as natural numbers\<close>

lemmas word_order_nat [word_nat] = word_le_nat_alt word_less_nat_alt

lemma word_eq_nat [word_nat]: "(x = y) \<longleftrightarrow> unat x = unat y" for x y :: "'a::len word"
  by (simp add: word_unat_eq_iff)

lemma unat_le_max: "unat x \<le> 2 ^ LENGTH('a) - 1" for x :: "'a::len word"
  using unsigned_less [where 'a = nat and w = x] by linarith

lemma unat_u64_bound [simp]: "unat (x :: u64) < 18446744073709551616"
  using unsigned_less [where 'a = nat and w = x] by simp

lemma unat_max_word [simp]: "unat (- 1 :: 'a::len word) = 2 ^ LENGTH('a) - 1"
  by (simp add: unsigned_minus_1_eq_mask mask_eq_exp_minus_1)

lemma unat_eqD: "unat x = n \<Longrightarrow> x = of_nat n" for x :: "'a::len word"
  by (metis of_nat_unat ucast_id)

lemma unat_add_no_overflow:
  "unat x + unat y < 2 ^ LENGTH('a) \<Longrightarrow> unat (x + y) = unat x + unat y"
  for x y :: "'a::len word"
  by (simp add: unat_word_ariths)

lemma unat_add_le: "unat x + unat y \<le> unat z \<Longrightarrow> unat (x + y) = unat x + unat y"
  for x y z :: "'a::len word"
  by (rule unat_add_no_overflow) (rule le_less_trans, assumption, rule unsigned_less)

lemma unat_sub_no_underflow: "y \<le> x \<Longrightarrow> unat (x - y) = unat x - unat y"
  for x y :: "'a::len word"
  by (rule unat_sub)

lemma unat_mult_no_overflow:
  "unat x * unat y < 2 ^ LENGTH('a) \<Longrightarrow> unat (x * y) = unat x * unat y"
  for x y :: "'a::len word"
  by (simp add: unat_word_ariths)

lemma unat_succ: "x < y \<Longrightarrow> unat (x + 1) = unat x + 1"
  for x y :: "'a::len word"
  by (simp add: unat_word_ariths word_less_nat_alt,
      use unsigned_less [where 'a = nat and w = y] in \<open>simp only: mod_less\<close>)

lemma unat_pred: "x < y \<Longrightarrow> unat (y - 1) = unat y - 1"
  for x y :: "'a::len word"
proof -
  assume "x < y"
  then have "1 \<le> y"
    by (metis linorder_not_le word_less_1 word_not_simps(1))
  then show ?thesis
    by (simp add: unat_sub_no_underflow)
qed

section \<open>Sizes\<close>

text \<open>\<^verbatim>\<open>size_t\<close> is 64 bits wide.\<close>

definition SIZE_MAX :: u64 where
  "SIZE_MAX = - 1"

definition u64_len :: "bytes \<Rightarrow> u64" where
  "u64_len bs = of_nat (length bs)"

lemma u64_len_nat: "length bs < 2 ^ 64 \<Longrightarrow> unat (u64_len bs) = length bs"
  by (simp add: u64_len_def unat_of_nat)

lemma unat_SIZE_MAX [simp]: "unat SIZE_MAX = 2 ^ 64 - 1"
  by (simp add: SIZE_MAX_def)

lemma le_SIZE_MAX [simp]: "x \<le> SIZE_MAX" "\<not> SIZE_MAX < x"
  by (simp_all add: SIZE_MAX_def)

section \<open>Faults and memory\<close>

text \<open>
  What C leaves undefined is a value of \<open>c_fault\<close>: an operation that could reach it returns a sum
  whose left side is the fault. \<open>memcpy_at\<close> and \<open>memset_at\<close> write to a block of memory (a byte list of the
  block's length) from an index on, and fault when they would leave the block.
\<close>

datatype c_fault = NullDeref | DivByZero | OutOfBounds | ShiftTooFar | NoReturn | UseAfterFree

definition res_bind :: "'e + 'a \<Rightarrow> ('a \<Rightarrow> 'e + 'b) \<Rightarrow> 'e + 'b" where
  "res_bind m f = (case m of Inl e \<Rightarrow> Inl e | Inr x \<Rightarrow> f x)"

lemma res_bind_simps [simp]: "res_bind (Inl e) f = Inl e" "res_bind (Inr x) f = f x"
  by (simp_all add: res_bind_def)

lemma res_bind_Inr: "res_bind m f = Inr y \<longleftrightarrow> (\<exists>x. m = Inr x \<and> f x = Inr y)"
  by (cases m) auto

definition memcpy_at :: "bytes \<Rightarrow> nat \<Rightarrow> bytes \<Rightarrow> c_fault + bytes" where
  "memcpy_at mem idx bs =
     (if idx + length bs \<le> length mem then Inr (take idx mem @ bs @ drop (idx + length bs) mem)
      else Inl OutOfBounds)"

definition memset_at :: "bytes \<Rightarrow> nat \<Rightarrow> u8 \<Rightarrow> nat \<Rightarrow> c_fault + bytes" where
  "memset_at mem idx c l = memcpy_at mem idx (replicate l c)"

lemma nth_overwrite:
  assumes "idx + length bs \<le> length mem" and "i < length mem"
  shows "(take idx mem @ bs @ drop (idx + length bs) mem) ! i
    = (if idx \<le> i \<and> i < idx + length bs then bs ! (i - idx) else mem ! i)"
  using assms by (auto simp: nth_append min_def)

section \<open>Windows of a circular index\<close>

lemma mod_window_neq:
  fixes i j a :: nat
  assumes "i < j" and "j < i + a"
  shows "i mod a \<noteq> j mod a"
  using assms by (metis add_diff_cancel_left' less_imp_add_positive mod_eq_dvd_iff_nat
      nat_dvd_not_less nat_less_le nless_le add_less_cancel_left)

lemma mod_run:
  fixes k j a :: nat
  assumes "k \<le> j" and "k mod a + (j - k) < a"
  shows "j mod a = k mod a + (j - k)"
  using assms by (metis add_diff_cancel_left' le_iff_add mod_add_left_eq mod_less)

end
