(* ===== verification/Uint_Set.thy ===== *)
theory Uint_Set
  imports Quic_Prelude
begin

text \<open>
  \<^verbatim>\<open>ssl/quic/uint_set.c\<close>: sets of \<^verbatim>\<open>uint64_t\<close> kept as an ascending doubly linked list of inclusive
  ranges. The list (\<^verbatim>\<open>include/internal/list.h\<close>) is a HOL list from head to tail. A loop that walks
  backwards with a cursor \<^verbatim>\<open>z\<close> carries the zipper of that list: the items before \<^verbatim>\<open>z\<close> in reverse
  order (so that \<^verbatim>\<open>prev(z)\<close> is the first of them), \<^verbatim>\<open>z\<close> itself, and the items after it.
\<close>

section \<open>Data and operations\<close>

record uint_range =
  rstart :: u64
  rend :: u64

type_synonym uint_set = "uint_range list"

definition ossl_uint_set_init :: uint_set where
  "ossl_uint_set_init = []"

definition uint_set_merge_adjacent ::
    "uint_range list \<Rightarrow> uint_range \<Rightarrow> uint_range list \<times> uint_range" where
  "uint_set_merge_adjacent lefts x =
     (case lefts of
        [] \<Rightarrow> (lefts, x)
      | xprev # ls \<Rightarrow>
          if rstart x - 1 \<noteq> rend xprev then (lefts, x)
          else (ls, x\<lparr>rstart := rstart xprev\<rparr>))"

definition u64_min :: "u64 \<Rightarrow> u64 \<Rightarrow> u64" where
  "u64_min x y = (if x < y then x else y)"

definition u64_max :: "u64 \<Rightarrow> u64 \<Rightarrow> u64" where
  "u64_max x y = (if x > y then x else y)"

definition uint_range_overlaps :: "uint_range \<Rightarrow> uint_range \<Rightarrow> bool" where
  "uint_range_overlaps a b \<longleftrightarrow> u64_min (rend a) (rend b) \<ge> u64_max (rstart a) (rstart b)"

definition create_set_item :: "bool \<Rightarrow> u64 \<Rightarrow> u64 \<Rightarrow> uint_range option" where
  "create_set_item mem s e = (if mem then Some \<lparr>rstart = s, rend = e\<rparr> else None)"

text \<open>The inner loop of the overlap case: the earliest overlapping item and the items before it.\<close>

fun earliest_overlapping ::
    "uint_range \<Rightarrow> uint_range \<Rightarrow> uint_range list \<Rightarrow> uint_range \<times> uint_range list" where
  "earliest_overlapping rg z [] = (z, [])"
| "earliest_overlapping rg z (zprev # ls) =
     (if uint_range_overlaps zprev rg then earliest_overlapping rg zprev ls
      else (z, zprev # ls))"

text \<open>The backward walk of the insertion, from the cursor \<open>z\<close>.\<close>

fun uint_set_insert_walk ::
    "bool \<Rightarrow> uint_range \<Rightarrow> uint_range list \<Rightarrow> uint_range \<Rightarrow> uint_range list \<Rightarrow> uint_set \<times> bool" where
  "uint_set_insert_walk mem rg lefts z rights =
     (if rstart z \<le> rstart rg \<and> rend z \<ge> rend rg then (rev lefts @ z # rights, True)
      else if uint_range_overlaps z rg then
        let ovend_end = u64_max (rend rg) (rend z);
            (zfirst, ls) = earliest_overlapping rg z lefts
        in (rev ls @ \<lparr>rstart = u64_min (rstart rg) (rstart zfirst), rend = ovend_end\<rparr> # rights, True)
      else if rend rg < rstart z \<and> (lefts = [] \<or> rstart rg > rend (hd lefts)) then
        (if rstart z = rend rg + 1 then
           let (ls, z') = uint_set_merge_adjacent lefts (z\<lparr>rstart := rstart rg\<rparr>)
           in (rev ls @ z' # rights, True)
         else if lefts \<noteq> [] \<and> rend (hd lefts) + 1 = rstart rg then
           let (ls, z') =
             uint_set_merge_adjacent ((hd lefts)\<lparr>rend := rend rg\<rparr> # tl lefts) z
           in (rev ls @ z' # rights, True)
         else
           case create_set_item mem (rstart rg) (rend rg) of
             None \<Rightarrow> (rev lefts @ z # rights, False)
           | Some x \<Rightarrow> (rev lefts @ x # z # rights, True))
      else
        case lefts of
          [] \<Rightarrow> (z # rights, True)
        | zprev # ls \<Rightarrow> uint_set_insert_walk mem rg ls zprev (z # rights))"

declare uint_set_insert_walk.simps [simp del]

definition ossl_uint_set_insert :: "bool \<Rightarrow> uint_set \<Rightarrow> uint_range \<Rightarrow> uint_set \<times> bool" where
  "ossl_uint_set_insert mem s rg =
     (let start = rstart rg; end' = rend rg in
      if \<not> start \<le> end' then (s, False)
      else if s = [] then
        (case create_set_item mem start end' of None \<Rightarrow> (s, False) | Some x \<Rightarrow> ([x], True))
      else
        let z = last s; f = hd s in
        if start > rend z then
          (if rend z + 1 = start then (butlast s @ [z\<lparr>rend := end'\<rparr>], True)
           else case create_set_item mem start end' of
                  None \<Rightarrow> (s, False)
                | Some x \<Rightarrow> (s @ [x], True))
        else if start \<le> rstart f \<and> end' \<ge> rend z then
          ([f\<lparr>rstart := start, rend := end'\<rparr>], True)
        else if end' < rstart f then uint_set_insert_walk mem rg [] f (tl s)
        else uint_set_insert_walk mem rg (rev (butlast s)) z [])"

text \<open>
  The removal does not check the allocation it makes when it splits a range; the failure is a
  null-pointer write in \<^verbatim>\<open>ossl_list_uint_set_insert_after\<close>.
\<close>

fun uint_set_remove_walk ::
    "bool \<Rightarrow> uint_range \<Rightarrow> uint_range list \<Rightarrow> uint_range list \<Rightarrow> c_fault + uint_set" where
  "uint_set_remove_walk mem rg [] rights = Inr rights"
| "uint_set_remove_walk mem rg (z # ls) rights =
     (if rstart rg > rend z then Inr (rev (z # ls) @ rights)
      else if rstart rg \<le> rstart z \<and> rend rg \<ge> rend z then
        uint_set_remove_walk mem rg ls rights
      else if rstart rg \<le> rstart z \<and> rend rg \<ge> rstart z then
        uint_set_remove_walk mem rg ls (z\<lparr>rstart := rend rg + 1\<rparr> # rights)
      else if rend rg \<ge> rend z then
        Inr (rev ls @ z\<lparr>rend := rstart rg - 1\<rparr> # rights)
      else if rstart rg > rstart z \<and> rend rg < rend z then
        (case create_set_item mem (rend rg + 1) (rend z) of
           None \<Rightarrow> Inl NullDeref
         | Some y \<Rightarrow> Inr (rev ls @ z\<lparr>rend := rstart rg - 1\<rparr> # y # rights))
      else uint_set_remove_walk mem rg ls (z # rights))"

definition ossl_uint_set_remove :: "bool \<Rightarrow> uint_set \<Rightarrow> uint_range \<Rightarrow> c_fault + uint_set \<times> bool" where
  "ossl_uint_set_remove mem s rg =
     (if \<not> rstart rg \<le> rend rg then Inr (s, False)
      else case uint_set_remove_walk mem rg (rev s) [] of
             Inl f \<Rightarrow> Inl f
           | Inr s' \<Rightarrow> Inr (s', True))"

fun uint_set_query_walk :: "uint_range list \<Rightarrow> u64 \<Rightarrow> bool" where
  "uint_set_query_walk [] v = False"
| "uint_set_query_walk (x # prevs) v =
     (if rstart x \<le> v \<and> rend x \<ge> v then True
      else if rend x < v then False
      else uint_set_query_walk prevs v)"

definition ossl_uint_set_query :: "uint_set \<Rightarrow> u64 \<Rightarrow> bool" where
  "ossl_uint_set_query s v = (if s = [] then False else uint_set_query_walk (rev s) v)"

section \<open>Abstraction and invariants\<close>

abbreviation range_ints :: "uint_range \<Rightarrow> u64 set" where
  "range_ints r \<equiv> {rstart r .. rend r}"

definition uint_set_ints :: "uint_set \<Rightarrow> u64 set" where
  "uint_set_ints s = (\<Union>r \<in> set s. range_ints r)"

text \<open>
  \<open>uint_set_ok\<close>: every range is non-empty, and the ranges ascend without overlap.
  \<open>uint_set_merged\<close> adds what \<^verbatim>\<open>uint_set.c\<close> documents further: no two ranges border one another.
\<close>

definition uint_set_ok :: "uint_set \<Rightarrow> bool" where
  "uint_set_ok s \<longleftrightarrow> (\<forall>r \<in> set s. rstart r \<le> rend r) \<and> sorted_wrt (\<lambda>x y. rend x < rstart y) s"

definition uint_set_merged :: "uint_set \<Rightarrow> bool" where
  "uint_set_merged s \<longleftrightarrow>
     (\<forall>r \<in> set s. rstart r \<le> rend r) \<and> sorted_wrt (\<lambda>x y. unat (rend x) + 1 < unat (rstart y)) s"

lemma uint_set_merged_ok: "uint_set_merged s \<Longrightarrow> uint_set_ok s"
  by (auto simp: uint_set_merged_def uint_set_ok_def word_less_nat_alt elim: sorted_wrt_mono_rel [rotated])

lemma uint_set_ints_simps [simp]:
  "uint_set_ints [] = {}"
  "uint_set_ints (r # s) = range_ints r \<union> uint_set_ints s"
  "uint_set_ints (s @ t) = uint_set_ints s \<union> uint_set_ints t"
  "uint_set_ints (rev s) = uint_set_ints s"
  by (auto simp: uint_set_ints_def)

lemma uint_set_ok_simps [simp]:
  "uint_set_ok []"
  "uint_set_ok (r # s) \<longleftrightarrow> rstart r \<le> rend r \<and> (\<forall>y \<in> set s. rend r < rstart y) \<and> uint_set_ok s"
  "uint_set_ok (s @ t) \<longleftrightarrow> uint_set_ok s \<and> uint_set_ok t \<and> (\<forall>x \<in> set s. \<forall>y \<in> set t. rend x < rstart y)"
  by (auto simp: uint_set_ok_def sorted_wrt_append)

lemma overlaps_iff: "uint_range_overlaps a b \<longleftrightarrow>
    rstart a \<le> rend a \<and> rstart b \<le> rend b \<and> rstart a \<le> rend b \<and> rstart b \<le> rend a"
  by (auto simp: uint_range_overlaps_def u64_min_def u64_max_def)

lemma u64_min_max [simp]: "u64_min x y = min x y" "u64_max x y = max x y"
  by (auto simp: u64_min_def u64_max_def min_def max_def)

section \<open>Insertion\<close>

lemma Icc_union_overlap:
  fixes a b c d :: "'a::linorder"
  assumes "c \<le> b" and "a \<le> d" and "a \<le> b" and "c \<le> d"
  shows "{a..b} \<union> {c..d} = {min a c..max b d}"
  using assms by (auto simp: min_def max_def)

lemma succ_le_iff: "x < y \<Longrightarrow> x + 1 \<le> z \<longleftrightarrow> x < z" for x y z :: u64
  by (metis inc_less_eq_iff word_order.extremum_strict)

lemma Icc_union_border:
  fixes a b d :: u64
  assumes "a \<le> b" and "b < d"
  shows "{a..b} \<union> {b + 1..d} = {a..d}"
  using assms by (auto simp: succ_le_iff)

lemma earliest_overlapping_spec:
  assumes "uint_set_ok (rev lefts @ [z])" and "uint_range_overlaps z rg"
    and "earliest_overlapping rg z lefts = (zf, ls)"
  shows "uint_set_ok (rev ls) \<and> set ls \<subseteq> set lefts \<and> rstart zf \<le> rstart z
    \<and> (\<forall>x \<in> set ls. rend x < min (rstart rg) (rstart zf))
    \<and> {min (rstart rg) (rstart zf)..max (rend rg) (rend z)} \<union> uint_set_ints ls
        = uint_set_ints lefts \<union> range_ints z \<union> range_ints rg"
  using assms
proof (induction lefts arbitrary: z)
  case Nil
  then show ?case
    by (auto simp: overlaps_iff min_def max_def)
next
  case (Cons zp lefts)
  have ord: "rend zp < rstart z" "rstart zp \<le> rend zp" "rstart z \<le> rend rg" "rstart rg \<le> rend rg"
    using Cons.prems by (auto simp: overlaps_iff)
  show ?case
  proof (cases "uint_range_overlaps zp rg")
    case True
    have "uint_set_ok (rev lefts @ [zp])"
      using Cons.prems(1) by auto
    with True Cons.prems(3) Cons.IH [of zp] have IH: "uint_set_ok (rev ls)" "set ls \<subseteq> set lefts"
      "rstart zf \<le> rstart zp"
      "\<forall>x \<in> set ls. rend x < min (rstart rg) (rstart zf)"
      "{min (rstart rg) (rstart zf)..max (rend rg) (rend zp)} \<union> uint_set_ints ls
        = uint_set_ints lefts \<union> range_ints zp \<union> range_ints rg"
      by auto
    have "max (rend rg) (rend zp) = rend rg"
      using ord by (auto simp: max_def)
    moreover have "min (rstart rg) (rstart zf) \<le> rstart rg"
      by simp
    moreover have "{min (rstart rg) (rstart zf)..rend rg} \<union> range_ints z
        = {min (rstart rg) (rstart zf)..max (rend rg) (rend z)}"
      using IH(3) Cons.prems(1,2) ord by (subst Icc_union_overlap) (auto simp: overlaps_iff min_def)
    moreover have "rstart zf \<le> rstart z"
      using IH(3) ord by auto
    ultimately show ?thesis
      using IH by auto
  next
    case False
    then have lt: "rend zp < rstart rg"
      using ord by (auto simp: overlaps_iff)
    moreover have "rend x < rstart rg" if "x \<in> set lefts" for x
    proof -
      have "rend x < rstart zp"
        using Cons.prems(1) that by auto
      with ord(2) lt show ?thesis
        by order
    qed
    moreover have "range_ints z \<union> range_ints rg = {min (rstart rg) (rstart z)..max (rend rg) (rend z)}"
      using Cons.prems by (subst Un_commute, subst Icc_union_overlap) (auto simp: overlaps_iff)
    ultimately show ?thesis
      using False Cons.prems by (auto simp: overlaps_iff)
  qed
qed

text \<open>What a completed insertion step promises of the list it returns.\<close>

definition insert_post :: "bool \<Rightarrow> uint_set \<Rightarrow> uint_range \<Rightarrow> uint_set \<times> bool \<Rightarrow> bool" where
  "insert_post mem s rg res \<longleftrightarrow>
     (if snd res then uint_set_ok (fst res) \<and> uint_set_ints (fst res) = uint_set_ints s \<union> range_ints rg
      else \<not> mem \<and> fst res = s)"

lemma insert_walk_overlap:
  assumes ok: "uint_set_ok (rev lefts @ z # rights)" and ov: "uint_range_overlaps z rg"
    and rights: "\<forall>r \<in> set rights. rend rg < rstart r"
    and eq: "earliest_overlapping rg z lefts = (zf, ls)"
  shows "insert_post mem (rev lefts @ z # rights) rg
    (rev ls @ \<lparr>rstart = min (rstart rg) (rstart zf), rend = max (rend rg) (rend z)\<rparr> # rights, True)"
proof -
  have "uint_set_ok (rev lefts @ [z])"
    using ok by auto
  from earliest_overlapping_spec [OF this ov eq] have ls: "uint_set_ok (rev ls)" "set ls \<subseteq> set lefts"
    "\<forall>x \<in> set ls. rend x < min (rstart rg) (rstart zf)"
    and un: "{min (rstart rg) (rstart zf)..max (rend rg) (rend z)} \<union> uint_set_ints ls
        = uint_set_ints lefts \<union> range_ints z \<union> range_ints rg"
    by auto
  have "min (rstart rg) (rstart zf) \<le> max (rend rg) (rend z)"
    using ov by (auto simp: overlaps_iff min_def max_def)
  then show ?thesis
    using ok ls rights un by (auto simp: insert_post_def)
qed

lemma insert_post_True:
  "insert_post mem s rg (s', True) \<longleftrightarrow> uint_set_ok s' \<and> uint_set_ints s' = uint_set_ints s \<union> range_ints rg"
  by (simp add: insert_post_def)

lemma insert_walk_extend_next:
  assumes ok: "uint_set_ok (rev lefts @ z # rights)" and rg: "rstart rg \<le> rend rg"
    and before: "rend rg < rstart z" and after: "lefts = [] \<or> rend (hd lefts) < rstart rg"
    and border: "rstart z = rend rg + 1"
    and eq: "uint_set_merge_adjacent lefts (z\<lparr>rstart := rstart rg\<rparr>) = (ls, z')"
  shows "insert_post mem (rev lefts @ z # rights) rg (rev ls @ z' # rights, True)"
proof -
  have "rend rg < rend z"
    using ok before by auto
  with rg border have join: "range_ints rg \<union> range_ints z = {rstart rg..rend z}"
    using Icc_union_border [of "rstart rg" "rend rg" "rend z"] by simp
  show ?thesis
  proof (cases "\<exists>zp ls'. lefts = zp # ls' \<and> rstart rg - 1 = rend zp")
    case True
    then obtain zp ls' where lefts: "lefts = zp # ls'" "rstart rg - 1 = rend zp"
      by blast
    then have res: "ls = ls'" "z' = z\<lparr>rstart := rstart zp\<rparr>"
      using eq by (auto simp: uint_set_merge_adjacent_def)
    have "rend zp + 1 = rstart rg"
      using lefts(2) by (metis diff_add_cancel)
    moreover have "rstart zp \<le> rend zp" "rend zp < rend z"
      using ok lefts(1) by auto
    ultimately have "range_ints zp \<union> {rstart rg..rend z} = {rstart zp..rend z}"
      using Icc_union_border [of "rstart zp" "rend zp" "rend z"] by simp
    with join have "uint_set_ints (rev ls @ z' # rights) = uint_set_ints (rev lefts @ z # rights) \<union> range_ints rg"
      using res lefts by auto
    then show ?thesis
      using ok res lefts rg before after unfolding insert_post_True by auto
  next
    case False
    then have res: "ls = lefts" "z' = z\<lparr>rstart := rstart rg\<rparr>"
      using eq by (auto simp: uint_set_merge_adjacent_def split: list.splits if_splits)
    with join have "uint_set_ints (rev ls @ z' # rights) = uint_set_ints (rev lefts @ z # rights) \<union> range_ints rg"
      by auto
    then show ?thesis
      using ok res rg before after unfolding insert_post_True by (cases lefts) auto
  qed
qed

lemma insert_walk_extend_prev:
  assumes ok: "uint_set_ok (rev (zp # lefts) @ z # rights)" and rg: "rstart rg \<le> rend rg"
    and before: "rend rg < rstart z" and noborder: "rstart z \<noteq> rend rg + 1"
    and after: "rend zp < rstart rg" and border: "rend zp + 1 = rstart rg"
    and eq: "uint_set_merge_adjacent (zp\<lparr>rend := rend rg\<rparr> # lefts) z = (ls, z')"
  shows "insert_post mem (rev (zp # lefts) @ z # rights) rg (rev ls @ z' # rights, True)"
proof -
  have "rstart z - 1 \<noteq> rend rg"
    using noborder by (metis diff_add_cancel)
  with eq have res: "ls = zp\<lparr>rend := rend rg\<rparr> # lefts" "z' = z"
    by (simp_all add: uint_set_merge_adjacent_def)
  have "range_ints zp \<union> range_ints rg = {rstart zp..rend rg}"
    using Icc_union_border [of "rstart zp" "rend zp" "rend rg"] ok after rg border by auto
  then have "uint_set_ints (rev ls @ z' # rights)
      = uint_set_ints (rev (zp # lefts) @ z # rights) \<union> range_ints rg"
    using res by auto
  then show ?thesis
    using ok res rg before after unfolding insert_post_True by auto
qed

lemma insert_walk_between:
  assumes "uint_set_ok (rev lefts @ z # rights)" and "rstart rg \<le> rend rg"
    and "rend rg < rstart z" and "lefts = [] \<or> rend (hd lefts) < rstart rg"
  shows "insert_post mem (rev lefts @ z # rights) rg
      (case create_set_item mem (rstart rg) (rend rg) of
         None \<Rightarrow> (rev lefts @ z # rights, False)
       | Some x \<Rightarrow> (rev lefts @ x # z # rights, True))"
  using assms by (cases lefts) (auto simp: create_set_item_def insert_post_def)

lemma insert_walk_skip:
  assumes "uint_set_ok (rev lefts @ z # rights)" and "rstart rg \<le> rend rg" and "rstart rg \<le> rend z"
    and "\<not> uint_range_overlaps z rg" and "\<not> (rend rg < rstart z \<and> (lefts = [] \<or> rend (hd lefts) < rstart rg))"
  obtains zp ls where "lefts = zp # ls" "rstart rg \<le> rend zp" "rend rg < rstart z"
  using assms by (cases lefts) (auto simp: overlaps_iff not_le)

lemma uint_set_insert_walk_post:
  assumes "uint_set_ok (rev lefts @ z # rights)" and "rstart rg \<le> rend rg" and "rstart rg \<le> rend z"
    and "\<forall>r \<in> set rights. rend rg < rstart r"
  shows "insert_post mem (rev lefts @ z # rights) rg (uint_set_insert_walk mem rg lefts z rights)"
  using assms
proof (induction mem rg lefts z rights rule: uint_set_insert_walk.induct)
  case (1 mem rg lefts z rights)
  note unfold = uint_set_insert_walk.simps [of mem rg lefts z rights]
  consider (dwarfed) "rstart z \<le> rstart rg \<and> rend rg \<le> rend z"
    | (overlap) "\<not> (rstart z \<le> rstart rg \<and> rend rg \<le> rend z)" "uint_range_overlaps z rg"
    | (gap) "\<not> (rstart z \<le> rstart rg \<and> rend rg \<le> rend z)" "\<not> uint_range_overlaps z rg"
        "rend rg < rstart z" "lefts = [] \<or> rend (hd lefts) < rstart rg"
    | (skip) "\<not> (rstart z \<le> rstart rg \<and> rend rg \<le> rend z)" "\<not> uint_range_overlaps z rg"
        "\<not> (rend rg < rstart z \<and> (lefts = [] \<or> rend (hd lefts) < rstart rg))"
    by blast
  then show ?case
  proof cases
    case dwarfed
    then show ?thesis
      using "1.prems" unfolding unfold by (auto simp: insert_post_True)
  next
    case overlap
    then show ?thesis
      using insert_walk_overlap [OF "1.prems"(1) overlap(2) "1.prems"(4)]
      unfolding unfold by (auto simp: case_prod_unfold Let_def)
  next
    case gap
    note between = insert_walk_between [OF "1.prems"(1,2) gap(3,4), of mem]
    note extend = insert_walk_extend_next [OF "1.prems"(1,2) gap(3,4)]
    show ?thesis
    proof (cases lefts)
      case Nil
      with gap between extend show ?thesis
        unfolding unfold by (auto simp: case_prod_unfold Let_def)
    next
      case (Cons zp ls)
      with gap between extend insert_walk_extend_prev [of zp ls z rights rg] "1.prems"(1,2)
      show ?thesis
        unfolding unfold by (auto simp: case_prod_unfold Let_def)
    qed
  next
    case skip
    from insert_walk_skip [OF "1.prems"(1-3) skip(2,3)] obtain zp ls
      where lefts: "lefts = zp # ls" "rstart rg \<le> rend zp" "rend rg < rstart z" .
    have "insert_post mem (rev ls @ zp # z # rights) rg (uint_set_insert_walk mem rg ls zp (z # rights))"
      using "1.IH" [OF skip lefts(1)] "1.prems" lefts by auto
    with skip lefts show ?thesis
      unfolding unfold by auto
  qed
qed

lemma uint_set_ok_nonempty: "uint_set_ok s \<Longrightarrow> x \<in> set s \<Longrightarrow> rstart x \<le> rend x"
  by (auto simp: uint_set_ok_def)

lemma uint_set_ok_hd_last:
  "uint_set_ok s \<Longrightarrow> x \<in> set s \<Longrightarrow> rstart (hd s) \<le> rstart x \<and> rend x \<le> rend (last s)"
proof (induction s)
  case (Cons a s)
  have a: "rstart a \<le> rend a" and above: "\<And>y. y \<in> set s \<Longrightarrow> rend a < rstart y \<and> rstart y \<le> rend y"
    using Cons.prems(1) uint_set_ok_nonempty by auto
  show ?case
  proof (cases "x = a")
    case True
    then show ?thesis
      using above [of "last s"] by (cases "s = []") auto
  next
    case False
    with Cons.prems(2) have "x \<in> set s"
      by simp
    with a above [of x] Cons show ?thesis
      by auto
  qed
qed simp

lemma insert_append:
  assumes "uint_set_ok s" and "s \<noteq> []" and "rstart rg \<le> rend rg" and "rend (last s) < rstart rg"
  shows "rend (last s) + 1 = rstart rg \<Longrightarrow>
      insert_post mem s rg (butlast s @ [(last s)\<lparr>rend := rend rg\<rparr>], True)"
    and "insert_post mem s rg (case create_set_item mem (rstart rg) (rend rg) of
                  None \<Rightarrow> (s, False) | Some x \<Rightarrow> (s @ [x], True))"
proof -
  obtain p z where s: "s = p @ [z]"
    using assms(2) by (metis append_butlast_last_id)
  show "insert_post mem s rg (butlast s @ [(last s)\<lparr>rend := rend rg\<rparr>], True)"
    if "rend (last s) + 1 = rstart rg"
  proof -
    have "range_ints z \<union> range_ints rg = {rstart z..rend rg}"
      using Icc_union_border [of "rstart z" "rend z" "rend rg"] assms s that by auto
    with assms s show ?thesis
      by (auto simp: insert_post_True)
  qed
  show "insert_post mem s rg (case create_set_item mem (rstart rg) (rend rg) of
                  None \<Rightarrow> (s, False) | Some x \<Rightarrow> (s @ [x], True))"
  proof -
    have "rend x < rstart rg" if "x \<in> set s" for x
      using uint_set_ok_hd_last [OF assms(1) that] assms(4) by auto
    with assms show ?thesis
      by (auto simp: create_set_item_def insert_post_def)
  qed
qed

lemma insert_dwarf:
  assumes "uint_set_ok s" and "s \<noteq> []" and "rstart rg \<le> rend rg"
    and "rstart rg \<le> rstart (hd s)" and "rend (last s) \<le> rend rg"
  shows "insert_post mem s rg ([(hd s)\<lparr>rstart := rstart rg, rend := rend rg\<rparr>], True)"
proof -
  have "range_ints r \<subseteq> range_ints rg" if "r \<in> set s" for r
    using uint_set_ok_hd_last [OF assms(1) that] assms(4,5) by (auto intro: order_trans)
  then have "uint_set_ints s \<subseteq> range_ints rg"
    unfolding uint_set_ints_def by blast
  with assms(3) show ?thesis
    by (auto simp: insert_post_True)
qed

theorem ossl_uint_set_insert_post:
  assumes "uint_set_ok s" and "rstart rg \<le> rend rg"
  shows "insert_post mem s rg (ossl_uint_set_insert mem s rg)"
proof (cases "s = []")
  case True
  with assms show ?thesis
    by (simp add: ossl_uint_set_insert_def insert_post_def create_set_item_def)
next
  case False
  have first: "insert_post mem s rg (uint_set_insert_walk mem rg [] (hd s) (tl s))"
    if before: "rend rg < rstart (hd s)"
  proof -
    obtain f t where s: "s = f # t"
      using False by (cases s) auto
    have "rend rg < rstart r" if "r \<in> set t" for r
      using uint_set_ok_hd_last [OF assms(1), of r] that before s by auto
    moreover have "rstart rg \<le> rend f"
      using assms before s by auto
    ultimately show ?thesis
      using assms s uint_set_insert_walk_post [of "[]" f t rg mem] by simp
  qed
  have last: "insert_post mem s rg (uint_set_insert_walk mem rg (rev (butlast s)) (last s) [])"
    if "rstart rg \<le> rend (last s)"
    using that assms False uint_set_insert_walk_post [of "rev (butlast s)" "last s" "[]" rg mem] by simp
  show ?thesis
    using assms False first last insert_append [OF assms(1) False assms(2)] insert_dwarf [OF assms(1) False assms(2)]
    by (auto simp: ossl_uint_set_insert_def Let_def not_less)
qed

section \<open>Removal and query\<close>

lemma Icc_diff_low:
  "a \<le> s \<Longrightarrow> e < t \<Longrightarrow> s \<le> e \<Longrightarrow> {s..t} - {a..e} = {e + 1..t}" for a s e t :: u64
  by (auto simp: succ_le_iff)

lemma le_pred_iff: "y < x \<Longrightarrow> z \<le> x - 1 \<longleftrightarrow> z < x" for x y z :: u64
  by (metis less_eq_dec_iff linorder_not_less word_zero_le order_le_less_trans less_irrefl)

lemma Icc_diff_high:
  "s < a \<Longrightarrow> a \<le> t \<Longrightarrow> t \<le> e \<Longrightarrow> {s..t} - {a..e} = {s..a - 1}" for a s e t :: u64
  by (auto simp: le_pred_iff)

lemma Icc_diff_split:
  "s < a \<Longrightarrow> a \<le> e \<Longrightarrow> e < t \<Longrightarrow> {s..t} - {a..e} = {s..a - 1} \<union> {e + 1..t}" for a s e t :: u64
  by (auto simp: le_pred_iff succ_le_iff)

definition remove_post :: "bool \<Rightarrow> uint_set \<Rightarrow> uint_range \<Rightarrow> c_fault + uint_set \<Rightarrow> bool" where
  "remove_post mem s rg res \<longleftrightarrow>
     (case res of
        Inl f \<Rightarrow> \<not> mem
      | Inr s' \<Rightarrow> uint_set_ok s' \<and> uint_set_ints s' = uint_set_ints s - range_ints rg)"

lemma remove_post_cong:
  "uint_set_ints s - range_ints rg = uint_set_ints t - range_ints rg \<Longrightarrow>
    remove_post mem s rg res \<longleftrightarrow> remove_post mem t rg res"
  by (cases res) (simp_all add: remove_post_def)

lemma ints_above: "\<forall>r \<in> set s. rend rg < rstart r \<Longrightarrow> uint_set_ints s \<inter> range_ints rg = {}"
  by (fastforce simp: uint_set_ints_def)

lemma ints_below: "\<forall>r \<in> set s. rend r < rstart rg \<Longrightarrow> uint_set_ints s \<inter> range_ints rg = {}"
  by (fastforce simp: uint_set_ints_def)

lemma pred_less: "y < x \<Longrightarrow> x - 1 < x" for x y :: u64
  using le_pred_iff [of y x "x - 1"] by simp

lemma less_succ: "x < y \<Longrightarrow> x < x + 1" for x y :: u64
  using succ_le_iff [of x y "x + 1"] by simp

lemma remove_below:
  assumes ok: "uint_set_ok (rev (z # ls) @ rights)" and lt: "rstart z \<le> rstart rg"
    and above: "\<forall>r \<in> set rights. rend rg < rstart r"
  shows "(uint_set_ints ls \<union> uint_set_ints rights) \<inter> range_ints rg = {}"
proof -
  have "rend x < rstart rg" if "x \<in> set ls" for x
    using ok that lt by auto
  then show ?thesis
    using ints_below [of ls rg] ints_above [OF above] by blast
qed

lemma remove_stop:
  assumes "uint_set_ok (rev (z # ls) @ rights)" and "\<forall>r \<in> set rights. rend rg < rstart r"
    and "rend z < rstart rg"
  shows "remove_post mem (rev (z # ls) @ rights) rg (Inr (rev (z # ls) @ rights))"
proof -
  have "rstart z \<le> rstart rg"
    using assms(1,3) by auto
  with remove_below [OF assms(1) this assms(2)] assms(1,3) show ?thesis
    by (auto simp: remove_post_def)
qed

lemma remove_truncate:
  assumes ok: "uint_set_ok (rev (z # ls) @ rights)" and above: "\<forall>r \<in> set rights. rend rg < rstart r"
    and z: "rstart z < rstart rg" "rstart rg \<le> rend z" "rend z \<le> rend rg"
  shows "remove_post mem (rev (z # ls) @ rights) rg (Inr (rev ls @ z\<lparr>rend := rstart rg - 1\<rparr> # rights))"
proof -
  have "range_ints z - range_ints rg = {rstart z..rstart rg - 1}"
    using z by (rule Icc_diff_high)
  moreover have "rstart z \<le> rstart rg - 1" "rstart rg - 1 < rend z"
    using z le_pred_iff [OF z(1)] pred_less [OF z(1)] by auto
  moreover note remove_below [OF ok less_imp_le [OF z(1)] above]
  ultimately show ?thesis
    using ok by (auto simp: remove_post_def)
qed

lemma remove_split:
  assumes ok: "uint_set_ok (rev (z # ls) @ rights)" and above: "\<forall>r \<in> set rights. rend rg < rstart r"
    and rg: "rstart rg \<le> rend rg" and z: "rstart z < rstart rg" "rend rg < rend z"
  shows "remove_post mem (rev (z # ls) @ rights) rg
      (case create_set_item mem (rend rg + 1) (rend z) of
         None \<Rightarrow> Inl NullDeref
       | Some y \<Rightarrow> Inr (rev ls @ z\<lparr>rend := rstart rg - 1\<rparr> # y # rights))"
proof -
  have "range_ints z - range_ints rg = {rstart z..rstart rg - 1} \<union> {rend rg + 1..rend z}"
    using z rg by (intro Icc_diff_split) auto
  moreover have "rstart z \<le> rstart rg - 1" "rend rg + 1 \<le> rend z"
    using z le_pred_iff [OF z(1)] succ_le_iff [OF z(2)] by auto
  moreover have "rstart rg - 1 < rend rg + 1"
    using pred_less [OF z(1)] less_succ [OF z(2)] rg by order
  moreover have "rend x < rend rg + 1" if "x \<in> set ls" for x
    using ok that z rg less_succ [OF z(2)] by (auto intro: less_trans [of _ "rstart z"])
  moreover have "rstart rg - 1 < rend z"
    using pred_less [OF z(1)] rg z(2) by order
  moreover note remove_below [OF ok less_imp_le [OF z(1)] above]
  ultimately show ?thesis
    using ok by (auto simp: remove_post_def create_set_item_def)
qed

lemma remove_front:
  assumes ok: "uint_set_ok (rev (z # ls) @ rights)" and above: "\<forall>r \<in> set rights. rend rg < rstart r"
    and z: "rstart rg \<le> rstart z" "rstart z \<le> rend rg" "rend rg < rend z"
  shows "uint_set_ok (rev ls @ z\<lparr>rstart := rend rg + 1\<rparr> # rights)"
    and "\<forall>r \<in> set (z\<lparr>rstart := rend rg + 1\<rparr> # rights). rend rg < rstart r"
    and "uint_set_ints (rev ls @ z\<lparr>rstart := rend rg + 1\<rparr> # rights) - range_ints rg
      = uint_set_ints (rev (z # ls) @ rights) - range_ints rg"
proof -
  have "rend x < rend rg + 1" if "x \<in> set ls" for x
    using ok that z(2) less_succ [OF z(3)] by (auto intro: less_trans [of _ "rstart z"])
  then show "uint_set_ok (rev ls @ z\<lparr>rstart := rend rg + 1\<rparr> # rights)"
    using ok succ_le_iff [OF z(3), of "rend z"] z(3) by simp
  show "\<forall>r \<in> set (z\<lparr>rstart := rend rg + 1\<rparr> # rights). rend rg < rstart r"
    using above less_succ [OF z(3)] by simp
  have "range_ints z - range_ints rg = {rend rg + 1..rend z}"
    using z by (intro Icc_diff_low) auto
  moreover have "{rend rg + 1..rend z} - range_ints rg = {rend rg + 1..rend z}"
    using less_succ [OF z(3)] by auto
  ultimately show "uint_set_ints (rev ls @ z\<lparr>rstart := rend rg + 1\<rparr> # rights) - range_ints rg
      = uint_set_ints (rev (z # ls) @ rights) - range_ints rg"
    by (simp add: Un_Diff)
qed

lemma uint_set_remove_walk_post:
  assumes "uint_set_ok (rev ls @ rights)" and "rstart rg \<le> rend rg"
    and "\<forall>r \<in> set rights. rend rg < rstart r"
  shows "remove_post mem (rev ls @ rights) rg (uint_set_remove_walk mem rg ls rights)"
  using assms
proof (induction mem rg ls rights rule: uint_set_remove_walk.induct)
  case (1 mem rg rights)
  then show ?case
    using ints_above [of rights rg] by (auto simp: remove_post_def)
next
  case (2 mem rg z ls rights)
  note ok = "2.prems"(1) and above = "2.prems"(3)
  have z: "rstart z \<le> rend z"
    using ok by simp
  show ?case
  proof (cases "rend z < rstart rg")
    case True
    then show ?thesis
      using remove_stop [OF ok above] by simp
  next
    case reach: False
    show ?thesis
    proof (cases "rstart rg \<le> rstart z")
      case low: True
      consider (covered) "rend z \<le> rend rg" | (front) "\<not> rend z \<le> rend rg" "rstart z \<le> rend rg"
        | (skip) "\<not> rend z \<le> rend rg" "\<not> rstart z \<le> rend rg"
        by blast
      then show ?thesis
      proof cases
        case covered
        have post: "remove_post mem (rev ls @ rights) rg (uint_set_remove_walk mem rg ls rights)"
          using "2.IH"(1) [OF reach] covered low "2.prems" by simp
        have empty: "range_ints z - range_ints rg = {}"
          using covered low by simp
        have eq: "uint_set_ints (rev ls @ rights) - range_ints rg
            = uint_set_ints (rev (z # ls) @ rights) - range_ints rg"
          unfolding uint_set_ints_simps Un_Diff empty by simp
        from remove_post_cong [OF eq, THEN iffD1, OF post] covered low reach show ?thesis
          by simp
      next
        case front
        note f = remove_front [OF ok above low front(2) front(1) [unfolded not_le]]
        have post: "remove_post mem (rev ls @ z\<lparr>rstart := rend rg + 1\<rparr> # rights) rg
            (uint_set_remove_walk mem rg ls (z\<lparr>rstart := rend rg + 1\<rparr> # rights))"
          using "2.IH"(2) [OF reach] front low "2.prems"(2) f(1,2) by simp
        from remove_post_cong [OF f(3), THEN iffD1, OF post] front low reach show ?thesis
          by auto
      next
        case skip
        moreover from low have "\<not> rstart z < rstart rg"
          by simp
        moreover have "remove_post mem (rev ls @ z # rights) rg (uint_set_remove_walk mem rg ls (z # rights))"
          using "2.IH"(3) [OF reach] "2.prems" skip \<open>\<not> rstart z < rstart rg\<close> by (simp add: not_le)
        ultimately show ?thesis
          using reach by simp
      qed
    next
      case high: False
      then have lt: "rstart z < rstart rg"
        by simp
      show ?thesis
      proof (cases "rend z \<le> rend rg")
        case True
        with remove_truncate [OF ok above lt reach [unfolded not_less] True] high reach show ?thesis
          by simp
      next
        case False
        then have gt: "rend rg < rend z"
          by simp
        with remove_split [OF ok above "2.prems"(2) lt gt] high reach lt False show ?thesis
          by simp
      qed
    qed
  qed
qed

lemma ossl_uint_set_remove_post:
  assumes "uint_set_ok s" and "rstart rg \<le> rend rg"
  shows "case ossl_uint_set_remove mem s rg of
      Inl f \<Rightarrow> \<not> mem
    | Inr (s', ret) \<Rightarrow> ret \<and> uint_set_ok s' \<and> uint_set_ints s' = uint_set_ints s - range_ints rg"
  using uint_set_remove_walk_post [of "rev s" "[]" rg mem] assms
  by (simp add: ossl_uint_set_remove_def remove_post_def split: sum.splits)

lemma uint_set_query_walk_iff:
  "uint_set_ok (rev prevs) \<Longrightarrow> uint_set_query_walk prevs v \<longleftrightarrow> v \<in> uint_set_ints prevs"
proof (induction prevs)
  case (Cons x prevs)
  have "v \<notin> uint_set_ints prevs" if "rend x < v"
    using Cons.prems that by (fastforce simp: uint_set_ints_def)
  with Cons show ?case
    by auto
qed simp

lemma ossl_uint_set_query_iff: "uint_set_ok s \<Longrightarrow> ossl_uint_set_query s v \<longleftrightarrow> v \<in> uint_set_ints s"
  using uint_set_query_walk_iff [of "rev s" v] by (simp add: ossl_uint_set_query_def)

section \<open>The interface of the integer set\<close>

text \<open>
  What a client may rely on: the operations against the set of integers \<open>ints s\<close> that a state
  stands for. \<open>ok\<close> is the invariant the operations keep.
\<close>

locale int_range_set =
  fixes empty :: 's
    and ins :: "bool \<Rightarrow> 's \<Rightarrow> uint_range \<Rightarrow> 's \<times> bool"
    and rem :: "bool \<Rightarrow> 's \<Rightarrow> uint_range \<Rightarrow> c_fault + 's \<times> bool"
    and query :: "'s \<Rightarrow> u64 \<Rightarrow> bool"
    and ints :: "'s \<Rightarrow> u64 set"
    and ok :: "'s \<Rightarrow> bool"
  assumes ok_empty: "ok empty" and ints_empty: "ints empty = {}"
    and ins_ok: "ok s \<Longrightarrow> rstart r \<le> rend r \<Longrightarrow> ins mem s r = (s', True) \<Longrightarrow>
      ok s' \<and> ints s' = ints s \<union> {rstart r..rend r}"
    and ins_fail: "ok s \<Longrightarrow> rstart r \<le> rend r \<Longrightarrow> ins mem s r = (s', False) \<Longrightarrow> \<not> mem \<and> s' = s"
    and ins_invalid: "\<not> rstart r \<le> rend r \<Longrightarrow> ins mem s r = (s, False)"
    and rem_ok: "ok s \<Longrightarrow> rstart r \<le> rend r \<Longrightarrow> rem mem s r = Inr (s', b) \<Longrightarrow>
      b \<and> ok s' \<and> ints s' = ints s - {rstart r..rend r}"
    and rem_fault: "ok s \<Longrightarrow> rstart r \<le> rend r \<Longrightarrow> rem mem s r = Inl f \<Longrightarrow> \<not> mem"
    and rem_invalid: "\<not> rstart r \<le> rend r \<Longrightarrow> rem mem s r = Inr (s, False)"
    and query_iff: "ok s \<Longrightarrow> query s v \<longleftrightarrow> v \<in> ints s"
begin

lemma ins_with_memory:
  assumes "ok s" and "rstart r \<le> rend r"
  obtains s' where "ins True s r = (s', True)" "ok s'" "ints s' = ints s \<union> {rstart r..rend r}"
proof (cases "ins True s r")
  case (Pair s' b)
  with assms ins_fail [of s r True s'] ins_ok [of s r True s'] that show ?thesis
    by (cases b) auto
qed

lemma rem_with_memory:
  assumes "ok s" and "rstart r \<le> rend r"
  obtains s' where "rem True s r = Inr (s', True)" "ok s'" "ints s' = ints s - {rstart r..rend r}"
proof (cases "rem True s r")
  case (Inl f)
  with assms rem_fault [of s r True f] show ?thesis
    by simp
next
  case (Inr p)
  with assms rem_ok [of s r True "fst p" "snd p"] that show ?thesis
    by (cases p) auto
qed

lemma ins_keeps_ok: "ok s \<Longrightarrow> ok (fst (ins mem s r))"
  using ins_ok [of s r mem "fst (ins mem s r)"] ins_fail [of s r mem "fst (ins mem s r)"]
    ins_invalid [of r mem s]
  by (cases "ins mem s r"; cases "rstart r \<le> rend r"; cases "snd (ins mem s r)") auto

lemma ins_monotone: "ok s \<Longrightarrow> ints s \<subseteq> ints (fst (ins mem s r))"
  using ins_ok [of s r mem "fst (ins mem s r)"] ins_fail [of s r mem "fst (ins mem s r)"]
    ins_invalid [of r mem s]
  by (cases "ins mem s r"; cases "rstart r \<le> rend r"; cases "snd (ins mem s r)") auto

lemma rem_keeps_ok: "ok s \<Longrightarrow> rem mem s r = Inr (s', b) \<Longrightarrow> ok s' \<and> ints s' \<subseteq> ints s"
  using rem_ok [of s r mem s' b] rem_invalid [of r mem s] by (cases "rstart r \<le> rend r") auto

end

interpretation uset: int_range_set
  ossl_uint_set_init ossl_uint_set_insert ossl_uint_set_remove ossl_uint_set_query uint_set_ints uint_set_ok
proof (unfold_locales, goal_cases)
  case (3 s r mem s')
  then show ?case
    using ossl_uint_set_insert_post [of s r mem] by (simp add: insert_post_def)
next
  case (4 s r mem s')
  then show ?case
    using ossl_uint_set_insert_post [of s r mem] by (simp add: insert_post_def)
next
  case (6 s r mem s' b)
  then show ?case
    using ossl_uint_set_remove_post [of s r mem] by simp
next
  case (7 s r mem f)
  then show ?case
    using ossl_uint_set_remove_post [of s r mem] by simp
qed (simp_all add: ossl_uint_set_init_def ossl_uint_set_insert_def ossl_uint_set_remove_def
    ossl_uint_set_query_iff)

section \<open>Insertion only coarsens\<close>

text \<open>No insertion splits a range: every range of the old set lies within one range of the new set.\<close>

definition coarsens :: "uint_set \<Rightarrow> uint_set \<Rightarrow> bool" where
  "coarsens s s' \<longleftrightarrow> (\<forall>x \<in> set s. \<exists>y \<in> set s'. rstart y \<le> rstart x \<and> rend x \<le> rend y)"

lemma coarsens_refl [simp]: "coarsens s s"
  by (auto simp: coarsens_def)

lemma earliest_overlapping_absorbs:
  "uint_set_ok (rev lefts @ [z]) \<Longrightarrow> earliest_overlapping rg z lefts = (zf, ls) \<Longrightarrow>
    rstart zf \<le> rstart z \<and> (\<forall>x \<in> set lefts. x \<in> set ls \<or> rstart zf \<le> rstart x \<and> rend x \<le> rend z)"
proof (induction lefts arbitrary: z)
  case (Cons zp lefts)
  show ?case
  proof (cases "uint_range_overlaps zp rg")
    case True
    with Cons.IH [of zp] Cons.prems
    have IH: "rstart zf \<le> rstart zp" "\<forall>x \<in> set lefts. x \<in> set ls \<or> rstart zf \<le> rstart x \<and> rend x \<le> rend zp"
      by auto
    moreover have "rend zp < rstart z" "rstart z \<le> rend z" "rstart zp \<le> rend zp"
      using Cons.prems(1) by auto
    ultimately show ?thesis
      by fastforce
  next
    case False
    with Cons.prems show ?thesis
      by auto
  qed
qed auto

lemma merge_adjacent_coarsens:
  assumes "uint_set_merge_adjacent lefts x = (ls, y)" and "\<forall>p \<in> set lefts. rstart p \<le> rend p \<and> rend p < rend x \<and> rstart p \<le> rstart x"
  shows "coarsens (rev lefts @ x # rights) (rev ls @ y # rights)"
  using assms by (auto simp: uint_set_merge_adjacent_def coarsens_def split: list.splits if_splits)

lemma coarsens_trans: "coarsens s t \<Longrightarrow> coarsens t u \<Longrightarrow> coarsens s u"
  unfolding coarsens_def by (meson order_trans)

lemma insert_gap_coarsens:
  assumes ok: "uint_set_ok (rev lefts @ z # rights)" and rg: "rstart rg \<le> rend rg"
    and gap: "rend rg < rstart z" "lefts = [] \<or> rend (hd lefts) < rstart rg"
  shows "coarsens (rev lefts @ z # rights) (fst
    (if rstart z = rend rg + 1 then
       let (ls, z') = uint_set_merge_adjacent lefts (z\<lparr>rstart := rstart rg\<rparr>)
       in (rev ls @ z' # rights, True)
     else if lefts \<noteq> [] \<and> rend (hd lefts) + 1 = rstart rg then
       let (ls, z') = uint_set_merge_adjacent ((hd lefts)\<lparr>rend := rend rg\<rparr> # tl lefts) z
       in (rev ls @ z' # rights, True)
     else
       case create_set_item mem (rstart rg) (rend rg) of
         None \<Rightarrow> (rev lefts @ z # rights, False)
       | Some x \<Rightarrow> (rev lefts @ x # z # rights, True)))" (is "coarsens ?s (fst ?res)")
proof -
  have low: "rstart p \<le> rend p \<and> rend p < rstart rg" if "p \<in> set lefts" for p
    using ok gap(2) that uint_set_ok_nonempty [OF ok, of p]
    by (cases lefts) (auto dest: order.strict_trans1)
  have zz: "rstart z \<le> rend z"
    using ok by simp
  let ?x = "z\<lparr>rstart := rstart rg\<rparr>" and ?w = "(hd lefts)\<lparr>rend := rend rg\<rparr> # tl lefts"
  have "coarsens ?s (rev lefts @ ?x # rights)"
    using rg gap(1) by (auto simp: coarsens_def)
  moreover have "coarsens (rev lefts @ ?x # rights) (rev ls @ y # rights)"
    if "uint_set_merge_adjacent lefts ?x = (ls, y)" for ls y
    using that by (rule merge_adjacent_coarsens) (use low zz gap(1) rg in fastforce)
  moreover have "coarsens ?s (rev ?w @ z # rights)" if "lefts \<noteq> []"
  proof -
    have "rend (hd lefts) \<le> rend rg"
      using low [OF hd_in_set [OF that]] rg by auto
    with that show ?thesis
      by (cases lefts) (auto simp: coarsens_def)
  qed
  moreover have "coarsens (rev ?w @ z # rights) (rev ls @ y # rights)"
    if "lefts \<noteq> []" "uint_set_merge_adjacent ?w z = (ls, y)" for ls y
    using that(2) by (rule merge_adjacent_coarsens) (use that(1) low zz gap(1) rg in \<open>cases lefts; fastforce\<close>)
  moreover have "coarsens ?s (rev lefts @ x # z # rights)" for x
    by (auto simp: coarsens_def)
  ultimately show ?thesis
    by (auto simp: create_set_item_def Let_def intro: coarsens_trans split: prod.splits)
qed

lemma insert_walk_coarsens:
  assumes "uint_set_ok (rev lefts @ z # rights)" and "rstart rg \<le> rend rg"
  shows "coarsens (rev lefts @ z # rights) (fst (uint_set_insert_walk mem rg lefts z rights))"
  using assms
proof (induction mem rg lefts z rights rule: uint_set_insert_walk.induct)
  case (1 mem rg lefts z rights)
  note unfold = uint_set_insert_walk.simps [of mem rg lefts z rights]
  have ok: "uint_set_ok (rev lefts @ [z])"
    using "1.prems"(1) by auto
  show ?case
  proof (cases "rstart z \<le> rstart rg \<and> rend rg \<le> rend z")
    case True
    then show ?thesis
      unfolding unfold by simp
  next
    case dw: False
    show ?thesis
    proof (cases "uint_range_overlaps z rg")
      case True
      obtain zf ls where e: "earliest_overlapping rg z lefts = (zf, ls)"
        by fastforce
      show ?thesis
        unfolding unfold if_not_P [OF dw] if_P [OF True]
        using earliest_overlapping_absorbs [OF ok e] by (auto simp: e coarsens_def min_le_iff_disj le_max_iff_disj)
    next
      case ov: False
      show ?thesis
      proof (cases "rend rg < rstart z \<and> (lefts = [] \<or> rend (hd lefts) < rstart rg)")
        case True
        show ?thesis
          unfolding unfold if_not_P [OF dw] if_not_P [OF ov] if_P [OF True]
          by (rule insert_gap_coarsens [OF "1.prems" conjunct1 [OF True] conjunct2 [OF True]])
      next
        case False
        show ?thesis
        proof (cases lefts)
          case Nil
          then show ?thesis
            unfolding unfold if_not_P [OF dw] if_not_P [OF ov] if_not_P [OF False] by simp
        next
          case (Cons zp ls)
          from "1.IH" [OF dw ov False Cons] "1.prems" Cons show ?thesis
            unfolding unfold if_not_P [OF dw] if_not_P [OF ov] if_not_P [OF False] by simp
        qed
      qed
    qed
  qed
qed

lemma insert_coarsens:
  assumes "uint_set_ok s"
  shows "coarsens s (fst (ossl_uint_set_insert mem s r))"
proof (cases "s = [] \<or> \<not> rstart r \<le> rend r")
  case True
  then show ?thesis
    by (auto simp: ossl_uint_set_insert_def coarsens_def)
next
  case False
  then have ne: "s \<noteq> []" and r: "rstart r \<le> rend r"
    by auto
  note parts = append_butlast_last_id [OF ne]
  have walks: "coarsens s (fst (uint_set_insert_walk mem r [] (hd s) (tl s)))"
    "coarsens s (fst (uint_set_insert_walk mem r (rev (butlast s)) (last s) []))"
    using insert_walk_coarsens [of "[]" "hd s" "tl s" r mem] assms r ne
      insert_walk_coarsens [of "rev (butlast s)" "last s" "[]" r mem] by simp_all
  have ends: "rstart (hd s) \<le> rstart x \<and> rend x \<le> rend (last s)" if "x \<in> set s" for x
    using uint_set_ok_hd_last [OF assms] that by simp
  have "coarsens s (butlast s @ [(last s)\<lparr>rend := rend r\<rparr>])" if "rend (last s) < rstart r"
    using that r ends [OF last_in_set [OF ne]]
    by (subst parts [symmetric], unfold coarsens_def) (auto 4 4)
  moreover have "coarsens s (s @ [x])" for x
    by (auto simp: coarsens_def)
  moreover have "coarsens s [(hd s)\<lparr>rstart := rstart r, rend := rend r\<rparr>]"
    if "rstart r \<le> rstart (hd s)" "rend (last s) \<le> rend r"
    using that ends by (fastforce simp: coarsens_def)
  ultimately show ?thesis
    using ne r walks by (simp add: ossl_uint_set_insert_def create_set_item_def Let_def)
qed

text \<open>So the range that holds 0, once there is one, only grows.\<close>

lemma insert_keeps_front:
  assumes "uint_set_ok s" and "s \<noteq> []" and "rstart (hd s) = 0" and "ossl_uint_set_insert mem s r = (s', b)"
  shows "s' \<noteq> [] \<and> rstart (hd s') = 0 \<and> rend (hd s) \<le> rend (hd s')"
proof -
  have "coarsens s s'" "uint_set_ok s'"
    using insert_coarsens [OF assms(1), of mem r] uset.ins_keeps_ok [OF assms(1), of mem r] assms(4) by simp_all
  moreover have "hd s \<in> set s"
    using assms(2) by simp
  ultimately obtain y where y: "y \<in> set s'" "rstart y \<le> 0" "rend (hd s) \<le> rend y"
    using assms(3) unfolding coarsens_def by metis
  then have "y = hd s'"
    using \<open>uint_set_ok s'\<close> by (cases s') auto
  with y show ?thesis
    by auto
qed

section \<open>Runs of set operations\<close>

datatype uint_set_op = Insert uint_range | Remove uint_range

fun uint_set_run :: "uint_set \<Rightarrow> uint_set_op list \<Rightarrow> c_fault + uint_set" where
  "uint_set_run s [] = Inr s"
| "uint_set_run s (Insert r # ops) = uint_set_run (fst (ossl_uint_set_insert True s r)) ops"
| "uint_set_run s (Remove r # ops) =
     (case ossl_uint_set_remove True s r of
        Inl f \<Rightarrow> Inl f
      | Inr (s', _) \<Rightarrow> uint_set_run s' ops)"

fun int_set_spec :: "u64 set \<Rightarrow> uint_set_op list \<Rightarrow> u64 set" where
  "int_set_spec S [] = S"
| "int_set_spec S (Insert r # ops) = int_set_spec (S \<union> range_ints r) ops"
| "int_set_spec S (Remove r # ops) = int_set_spec (S - range_ints r) ops"

lemma insert_ints:
  assumes "uint_set_ok s"
  shows "uint_set_ints (fst (ossl_uint_set_insert True s r)) = uint_set_ints s \<union> range_ints r"
proof (cases "rstart r \<le> rend r")
  case True
  from uset.ins_with_memory [OF assms True] show ?thesis
    by (metis fst_conv)
next
  case False
  from uset.ins_invalid [OF False] False show ?thesis
    by simp
qed

lemma remove_ints:
  assumes "uint_set_ok s"
  obtains s' b where "ossl_uint_set_remove True s r = Inr (s', b)" "uint_set_ok s'"
    "uint_set_ints s' = uint_set_ints s - range_ints r"
proof (cases "rstart r \<le> rend r")
  case True
  from uset.rem_with_memory [OF assms True] that show ?thesis
    by metis
next
  case False
  from uset.rem_invalid [OF False] False assms that show ?thesis
    by simp
qed

lemma uint_set_run_spec:
  "uint_set_ok s \<Longrightarrow>
    \<exists>t. uint_set_run s ops = Inr t \<and> uint_set_ok t \<and> uint_set_ints t = int_set_spec (uint_set_ints s) ops"
proof (induction ops arbitrary: s)
  case (Cons x ops)
  show ?case
  proof (cases x)
    case (Insert r)
    with Cons.IH [OF uset.ins_keeps_ok [OF Cons.prems, of True r]] show ?thesis
      by (simp add: insert_ints [OF Cons.prems])
  next
    case (Remove r)
    obtain s' b where "ossl_uint_set_remove True s r = Inr (s', b)" "uint_set_ok s'"
      "uint_set_ints s' = uint_set_ints s - range_ints r"
      using Cons.prems by (rule remove_ints)
    with Remove Cons.IH [of s'] show ?thesis
      by simp
  qed
qed simp

text \<open>
  Property C12. From the empty set, any sequence of range insertions and removals (with memory
  available) completes without a fault, keeps the ranges non-empty, ascending and disjoint, and
  \<^verbatim>\<open>ossl_uint_set_query\<close> then answers membership in exactly the set of integers that the same
  sequence builds by union and difference.
\<close>

theorem uint_set_refines_int_set:
  "\<exists>s. uint_set_run ossl_uint_set_init ops = Inr s \<and> uint_set_ok s
     \<and> (\<forall>v. ossl_uint_set_query s v \<longleftrightarrow> v \<in> int_set_spec {} ops)"
  using uint_set_run_spec [OF uset.ok_empty, of ops]
  by (auto simp: uset.query_iff uset.ints_empty)

lemma insert_walk_out_of_memory:
  "uint_set_insert_walk False rg lefts z rights = (rev lefts @ z # rights, False)
    \<or> uint_set_insert_walk False rg lefts z rights = uint_set_insert_walk True rg lefts z rights
       \<and> snd (uint_set_insert_walk False rg lefts z rights)"
proof (induction lefts arbitrary: z rights)
  case Nil
  show ?case
    by (simp add: uint_set_insert_walk.simps [of _ _ "[]"] create_set_item_def case_prod_unfold Let_def)
next
  case (Cons zp ls)
  from Cons [of zp "z # rights"] show ?case
    by (auto simp: uint_set_insert_walk.simps [of _ _ "zp # ls"] create_set_item_def case_prod_unfold Let_def)
qed

text \<open>
  When an allocation fails, \<^verbatim>\<open>ossl_uint_set_insert\<close> either did not need it (and has the
  full effect of the insertion) or returns 0 and leaves the set as it was.
\<close>

theorem uint_set_insert_out_of_memory:
  assumes "uint_set_ok s" and "rstart r \<le> rend r"
  shows "ossl_uint_set_insert False s r = (s, False)
    \<or> ossl_uint_set_insert False s r = ossl_uint_set_insert True s r
       \<and> snd (ossl_uint_set_insert False s r)"
  using assms insert_walk_out_of_memory [of r "[]" "hd s" "tl s"]
    insert_walk_out_of_memory [of r "rev (butlast s)" "last s" "[]"]
  by (auto simp: ossl_uint_set_insert_def create_set_item_def Let_def)

theorem uint_set_insert_out_of_memory_witness:
  "ossl_uint_set_insert False [\<lparr>rstart = 3, rend = 4\<rparr>] \<lparr>rstart = 9, rend = 9\<rparr> = ([\<lparr>rstart = 3, rend = 4\<rparr>], False)"
  using uint_set_insert_out_of_memory [of "[\<lparr>rstart = 3, rend = 4\<rparr>]" "\<lparr>rstart = 9, rend = 9\<rparr>"]
  by (simp add: ossl_uint_set_insert_def create_set_item_def)

section \<open>The documented merge invariant\<close>

text \<open>
  The invariant that \<^verbatim>\<open>uint_set.c\<close> documents ("no two adjacent ranges ever border one
  another") is broken by an insertion that overlaps one range and touches another: from the empty
  set, inserting [0,4], [10,20] and [5,12] leaves the two bordering ranges [0,4] and [5,20].
\<close>

theorem uint_set_insert_leaves_bordering_ranges:
  "uint_set_run ossl_uint_set_init
      [Insert \<lparr>rstart = 0, rend = 4\<rparr>, Insert \<lparr>rstart = 10, rend = 20\<rparr>, Insert \<lparr>rstart = 5, rend = 12\<rparr>]
    = Inr [\<lparr>rstart = 0, rend = 4\<rparr>, \<lparr>rstart = 5, rend = 20\<rparr>]
   \<and> \<not> uint_set_merged [\<lparr>rstart = 0, rend = 4\<rparr>, \<lparr>rstart = 5, rend = 20\<rparr>]"
  by (simp add: ossl_uint_set_init_def ossl_uint_set_insert_def create_set_item_def
      uint_set_insert_walk.simps uint_range_overlaps_def uint_set_merged_def Let_def)

text \<open>
  Where no range is overlapped partially (in particular when a single integer is inserted, as the
  ACK manager does with packet numbers) the documented invariant is kept.
\<close>

lemma uint_set_merged_simps [simp]:
  "uint_set_merged []"
  "uint_set_merged (r # s) \<longleftrightarrow>
     rstart r \<le> rend r \<and> (\<forall>y \<in> set s. unat (rend r) + 1 < unat (rstart y)) \<and> uint_set_merged s"
  "uint_set_merged (s @ t) \<longleftrightarrow>
     uint_set_merged s \<and> uint_set_merged t \<and> (\<forall>x \<in> set s. \<forall>y \<in> set t. unat (rend x) + 1 < unat (rstart y))"
  by (auto simp: uint_set_merged_def sorted_wrt_append)

definition no_partial_overlap :: "uint_range \<Rightarrow> uint_set \<Rightarrow> bool" where
  "no_partial_overlap rg s \<longleftrightarrow>
     (\<forall>x \<in> set s. uint_range_overlaps x rg \<longrightarrow> rstart x \<le> rstart rg \<and> rend rg \<le> rend x)"

lemma gap_iff:
  "x < y \<Longrightarrow> unat x + 1 < unat y \<longleftrightarrow> x + 1 \<noteq> y" for x y :: u64
  using unat_succ [of x y] by (auto simp: word_less_nat_alt word_unat_eq_iff)

lemma merged_gap_step:
  assumes "uint_set_merged (rev lefts @ z # rights)" and rg: "rstart rg \<le> rend rg"
    and before: "rend rg < rstart z" and after: "lefts = [] \<or> rend (hd lefts) < rstart rg"
    and above: "\<forall>r \<in> set rights. unat (rend rg) + 1 < unat (rstart r)"
  shows "rstart z = rend rg + 1 \<Longrightarrow> uint_set_merge_adjacent lefts (z\<lparr>rstart := rstart rg\<rparr>) = (ls, z') \<Longrightarrow>
      uint_set_merged (rev ls @ z' # rights)"
    and "lefts \<noteq> [] \<Longrightarrow> rstart z \<noteq> rend rg + 1 \<Longrightarrow>
      uint_set_merge_adjacent ((hd lefts)\<lparr>rend := rend rg\<rparr> # tl lefts) z = (ls, z') \<Longrightarrow>
      uint_set_merged (rev ls @ z' # rights)"
    and "rstart z \<noteq> rend rg + 1 \<Longrightarrow> lefts = [] \<or> rend (hd lefts) + 1 \<noteq> rstart rg \<Longrightarrow>
      uint_set_merged (rev lefts @ \<lparr>rstart = rstart rg, rend = rend rg\<rparr> # z # rights)"
proof -
  have low: "unat (rend x) + 1 < unat (rstart rg)" if "x \<in> set lefts" "rend (hd lefts) + 1 \<noteq> rstart rg" for x
    using assms(1) that after gap_iff [of "rend (hd lefts)" "rstart rg"]
    by (cases lefts) (auto simp: word_le_nat_alt)
  have high: "unat (rend rg) + 1 < unat (rstart z)" if "rstart z \<noteq> rend rg + 1"
    using gap_iff [OF before] that by auto
  have pred: "rstart rg - 1 \<noteq> rend (hd lefts) \<Longrightarrow> rend (hd lefts) + 1 \<noteq> rstart rg"
    and pred': "rstart z \<noteq> rend rg + 1 \<Longrightarrow> rstart z - 1 \<noteq> rend rg"
    by (metis add_diff_cancel, metis diff_add_cancel)
  have z: "rstart rg \<le> rend z"
    using assms(1) rg before by auto
  show "uint_set_merged (rev ls @ z' # rights)"
    if "rstart z = rend rg + 1" "uint_set_merge_adjacent lefts (z\<lparr>rstart := rstart rg\<rparr>) = (ls, z')"
  proof (cases lefts)
    case Nil
    with assms(1) z that(2) show ?thesis
      by (auto simp: uint_set_merge_adjacent_def)
  next
    case (Cons a as)
    have "rstart a \<le> rend z"
      using assms(1) Cons by (auto simp: word_le_nat_alt)
    with Cons assms(1) z that(2) low pred show ?thesis
      by (auto simp: uint_set_merge_adjacent_def split: if_splits)
  qed
  show "uint_set_merged (rev ls @ z' # rights)"
    if "lefts \<noteq> []" "rstart z \<noteq> rend rg + 1"
      "uint_set_merge_adjacent ((hd lefts)\<lparr>rend := rend rg\<rparr> # tl lefts) z = (ls, z')"
    using assms(1) that(3) pred' [OF that(2)] high [OF that(2)] above after rg that(1)
    by (cases lefts) (auto simp: uint_set_merge_adjacent_def)
  show "uint_set_merged (rev lefts @ \<lparr>rstart = rstart rg, rend = rend rg\<rparr> # z # rights)"
    if "rstart z \<noteq> rend rg + 1" "lefts = [] \<or> rend (hd lefts) + 1 \<noteq> rstart rg"
    using assms(1) that low high [OF that(1)] above rg by auto
qed

lemma merged_skip:
  assumes "uint_set_merged (rev (zp # ls) @ z # rights)" and "rstart rg \<le> rend zp"
    and "rstart rg \<le> rend rg" and "no_partial_overlap rg (zp # ls)"
  shows "unat (rend rg) + 1 < unat (rstart z)"
proof -
  have "rend rg \<le> rend zp"
    using assms by (cases "rstart zp \<le> rend rg") (auto simp: no_partial_overlap_def overlaps_iff)
  with assms(1) show ?thesis
    by (auto simp: word_le_nat_alt)
qed

lemma insert_walk_keeps_merged:
  assumes "uint_set_merged (rev lefts @ z # rights)" and "rstart rg \<le> rend rg" and "rstart rg \<le> rend z"
    and "\<forall>r \<in> set rights. unat (rend rg) + 1 < unat (rstart r)" and "no_partial_overlap rg (z # lefts)"
  shows "uint_set_merged (fst (uint_set_insert_walk mem rg lefts z rights))"
  using assms
proof (induction mem rg lefts z rights rule: uint_set_insert_walk.induct)
  case (1 mem rg lefts z rights)
  note unfold = uint_set_insert_walk.simps [of mem rg lefts z rights]
  show ?case
  proof (cases "rstart z \<le> rstart rg \<and> rend rg \<le> rend z")
    case True
    with "1.prems"(1) show ?thesis
      unfolding unfold by auto
  next
    case dw: False
    then have ov: "\<not> uint_range_overlaps z rg"
      using "1.prems"(5) by (auto simp: no_partial_overlap_def)
    show ?thesis
    proof (cases "rend rg < rstart z \<and> (lefts = [] \<or> rend (hd lefts) < rstart rg)")
      case True
      note step = merged_gap_step [OF "1.prems"(1,2) conjunct1 [OF True] conjunct2 [OF True] "1.prems"(4)]
      consider (right) "rstart z = rend rg + 1"
        | (left) "rstart z \<noteq> rend rg + 1" "lefts \<noteq> []" "rend (hd lefts) + 1 = rstart rg"
        | (new) "rstart z \<noteq> rend rg + 1" "lefts = [] \<or> rend (hd lefts) + 1 \<noteq> rstart rg"
        by auto
      then show ?thesis
      proof cases
        case right
        then show ?thesis
          unfolding unfold if_not_P [OF dw] if_not_P [OF ov] if_P [OF True] if_P [OF right]
          using step(1) [OF right prod.collapse [symmetric]] by (simp only: case_prod_unfold Let_def fst_conv)
      next
        case left
        then show ?thesis
          unfolding unfold if_not_P [OF dw] if_not_P [OF ov] if_P [OF True] if_not_P [OF left(1)]
          using step(2) [OF left(2,1) prod.collapse [symmetric]]
          by (simp only: case_prod_unfold Let_def fst_conv if_True simp_thms)
      next
        case new
        then have "\<not> (lefts \<noteq> [] \<and> rend (hd lefts) + 1 = rstart rg)"
          by auto
        then show ?thesis
          unfolding unfold if_not_P [OF dw] if_not_P [OF ov] if_P [OF True] if_not_P [OF new(1)]
          using step(3) [OF new] "1.prems"(1)
          by (cases mem) (simp_all only: create_set_item_def if_False if_True option.case fst_conv)
      qed
    next
      case False
      from insert_walk_skip [OF uint_set_merged_ok [OF "1.prems"(1)] "1.prems"(2,3) ov False]
      obtain zp ls where lefts: "lefts = zp # ls" "rstart rg \<le> rend zp" .
      have "no_partial_overlap rg (zp # ls)"
        using "1.prems"(5) lefts by (auto simp: no_partial_overlap_def)
      with "1.IH" [OF dw ov False lefts(1)] "1.prems" lefts merged_skip [of zp ls z rights rg]
      have "uint_set_merged (fst (uint_set_insert_walk mem rg ls zp (z # rights)))"
        by simp
      then show ?thesis
        unfolding unfold if_not_P [OF dw] if_not_P [OF ov] if_not_P [OF False]
        by (simp only: lefts(1) list.case)
    qed
  qed
qed

lemma insert_keeps_merged:
  assumes "uint_set_merged s" and "rstart r \<le> rend r" and "no_partial_overlap r s"
  shows "uint_set_merged (fst (ossl_uint_set_insert mem s r))"
proof (cases "s = []")
  case True
  with assms(2) show ?thesis
    by (simp add: ossl_uint_set_insert_def create_set_item_def Let_def)
next
  case False
  note parts = append_butlast_last_id [OF False]
  have m: "uint_set_merged (butlast s @ [last s])" "uint_set_merged (hd s # tl s)"
    using assms(1) False by simp_all
  have "uint_set_merged (fst (uint_set_insert_walk mem r (rev (butlast s)) (last s) []))"
    if "rstart r \<le> rend (last s)"
    using that assms(2,3) m(1) last_in_set [OF False] by (intro insert_walk_keeps_merged)
      (auto simp: no_partial_overlap_def dest: in_set_butlastD split: if_splits)
  moreover have "uint_set_merged (fst (uint_set_insert_walk mem r [] (hd s) (tl s)))"
    if "rend r < rstart (hd s)"
  proof (rule insert_walk_keeps_merged)
    show "rstart r \<le> rend (hd s)"
      using that assms(2) m(2) by auto
    show "\<forall>y \<in> set (tl s). unat (rend r) + 1 < unat (rstart y)"
      using that m(2) by (auto simp: word_less_nat_alt word_le_nat_alt)
    show "no_partial_overlap r [hd s]"
      using assms(3) False by (auto simp: no_partial_overlap_def)
  qed (use assms(2) m(2) in auto)
  moreover have "uint_set_merged (s @ [\<lparr>rstart = rstart r, rend = rend r\<rparr>])"
    if "rend (last s) < rstart r" "rend (last s) + 1 \<noteq> rstart r"
    using gap_iff [OF that(1)] that(2) m(1) assms(2)
    by (subst parts [symmetric], simp) (fastforce simp: word_le_nat_alt)
  moreover have "uint_set_merged (butlast s @ [(last s)\<lparr>rend := rend r\<rparr>])"
    if "rend (last s) < rstart r"
    using that m(1) assms(2) by auto
  moreover have "uint_set_merged [(hd s)\<lparr>rstart := rstart r, rend := rend r\<rparr>]"
    using assms(2) by simp
  ultimately show ?thesis
    using False assms(1,2) by (simp add: ossl_uint_set_insert_def create_set_item_def Let_def not_less)
qed

text \<open>
  Inserting a single integer, which is how the ACK manager records packet numbers, keeps
  the documented form of the set: after any number of such insertions no two ranges overlap or
  border one another, and exactly the inserted integers are in the set.
\<close>

theorem uint_set_single_insertions_stay_merged:
  "\<exists>s. uint_set_run ossl_uint_set_init (map (\<lambda>n. Insert \<lparr>rstart = n, rend = n\<rparr>) ns) = Inr s
     \<and> uint_set_merged s \<and> (\<forall>v. ossl_uint_set_query s v \<longleftrightarrow> v \<in> set ns)"
proof -
  have "\<exists>t. uint_set_run s (map (\<lambda>n. Insert \<lparr>rstart = n, rend = n\<rparr>) ns) = Inr t
      \<and> uint_set_merged t \<and> uint_set_ints t = uint_set_ints s \<union> set ns" if "uint_set_merged s" for s
    using that
  proof (induction ns arbitrary: s)
    case (Cons n ns)
    define t where "t = fst (ossl_uint_set_insert True s \<lparr>rstart = n, rend = n\<rparr>)"
    have "uint_set_merged t"
      unfolding t_def
      by (rule insert_keeps_merged [OF Cons.prems]) (auto simp: no_partial_overlap_def overlaps_iff)
    moreover have "uint_set_ints t = insert n (uint_set_ints s)"
      unfolding t_def using insert_ints [OF uint_set_merged_ok [OF Cons.prems]] by simp
    ultimately show ?case
      using Cons.IH [of t] by (simp add: t_def)
  qed simp
  from this [of ossl_uint_set_init] show ?thesis
    by (auto simp: ossl_uint_set_init_def uset.query_iff uint_set_merged_ok)
qed

text \<open>
  \<^verbatim>\<open>ossl_uint_set_remove\<close> dereferences a null pointer when the allocation made to split a
  range fails: removing [5,6] from a set holding [0,9]. (The header promises a return value of 0
  and an unchanged set.)
\<close>

theorem uint_set_remove_split_out_of_memory:
  "ossl_uint_set_remove False [\<lparr>rstart = 0, rend = 9\<rparr>] \<lparr>rstart = 5, rend = 6\<rparr> = Inl NullDeref"
  by (simp add: ossl_uint_set_remove_def create_set_item_def)

end
