(* ===== verification/Safe_Math.thy ===== *)
theory Safe_Math
  imports Quic_Prelude
begin

text \<open>
  \<^verbatim>\<open>include/internal/safe_math.h\<close>: the overflow-checked unsigned operations that the macro
  \<^verbatim>\<open>OSSL_SAFE_MATH_UNSIGNED(type_name, type)\<close> generates. The macros are generic in the C type, the
  definitions are generic in the word length. The C functions return the (possibly wrapped) value
  and set \<^verbatim>\<open>*err |= 1\<close>; here a function returns the value and the bit it ors into \<^verbatim>\<open>*err\<close>.
\<close>

section \<open>Operations\<close>

definition safe_maxu :: "'a::len word" where
  "safe_maxu = NOT 0"

definition safe_add :: "'a::len word \<Rightarrow> 'a word \<Rightarrow> 'a word \<times> bool" where
  "safe_add a b = (a + b, b > safe_maxu - a)"

definition safe_sub :: "'a::len word \<Rightarrow> 'a word \<Rightarrow> 'a word \<times> bool" where
  "safe_sub a b = (a - b, b > a)"

definition safe_mul :: "'a::len word \<Rightarrow> 'a word \<Rightarrow> 'a word \<times> bool" where
  "safe_mul a b = (a * b, b \<noteq> 0 \<and> a > safe_maxu div b)"

definition safe_div :: "'a::len word \<Rightarrow> 'a word \<Rightarrow> 'a word \<times> bool" where
  "safe_div a b = (if b \<noteq> 0 then (a div b, False) else (safe_maxu, True))"

definition safe_mod :: "'a::len word \<Rightarrow> 'a word \<Rightarrow> 'a word \<times> bool" where
  "safe_mod a b = (if b \<noteq> 0 then (a mod b, False) else (0, True))"

definition safe_muldiv :: "'a::len word \<Rightarrow> 'a word \<Rightarrow> 'a word \<Rightarrow> 'a word \<times> bool" where
  "safe_muldiv a b c =
     (if c = 0 then (if a = 0 \<or> b = 0 then 0 else safe_maxu, True)
      else case safe_mul a b of
        (x, e2) \<Rightarrow>
          if \<not> e2 then (x div c, False)
          else
            let (a', b') = (if b > a then (b, a) else (a, b));
                (x, e3) = safe_mul (a' mod c) b';
                (y, e4) = safe_mul (a' div c) b';
                (r, e5) = safe_add y (x div c)
            in (r, e3 \<or> e4 \<or> e5))"

definition safe_div_round_up :: "'a::len word \<Rightarrow> 'a word \<Rightarrow> 'a word \<times> bool" where
  "safe_div_round_up a b =
     (if b > 0 \<and> a > 0 then
        (if a < safe_maxu - b then ((a + b - 1) div b, False)
         else (a div b + (if a mod b \<noteq> 0 then 1 else 0), False))
      else if b = 0 then (if a = 0 then 0 else safe_maxu, True)
      else if a = 0 then (0, False)
      else
        let (x, e1) = safe_mod a b;
            (q, e2) = safe_div a b;
            (r, e3) = safe_add q (if x \<noteq> 0 then 1 else 0)
        in (r, e1 \<or> e2 \<or> e3))"

section \<open>The error flag is exact\<close>

lemma safe_maxu_eq [simp]: "safe_maxu = (- 1 :: 'a::len word)"
  by (simp add: safe_maxu_def)

lemma snd_safe_add:
  "snd (safe_add a b) \<longleftrightarrow> 2 ^ LENGTH('a) \<le> unat a + unat b" for a b :: "'a::len word"
proof -
  have "unat (- 1 - a) = 2 ^ LENGTH('a) - 1 - unat a"
    by (simp add: unat_sub_no_underflow)
  then show ?thesis
    by (simp add: safe_add_def word_less_nat_alt,
        use unsigned_less [where 'a = nat and w = a] in linarith)
qed

lemma fst_safe_add:
  "\<not> snd (safe_add a b) \<Longrightarrow> unat (fst (safe_add a b)) = unat a + unat b" for a b :: "'a::len word"
  by (simp add: snd_safe_add) (simp add: safe_add_def unat_add_no_overflow)

lemma snd_safe_sub: "snd (safe_sub a b) \<longleftrightarrow> unat a < unat b" for a b :: "'a::len word"
  by (simp add: safe_sub_def word_less_nat_alt)

lemma fst_safe_sub:
  "\<not> snd (safe_sub a b) \<Longrightarrow> unat (fst (safe_sub a b)) = unat a - unat b" for a b :: "'a::len word"
  by (simp add: safe_sub_def unat_sub_no_underflow)

lemma mul_overflow_div:
  fixes a b n :: nat
  assumes "0 < b" and "0 < n"
  shows "(n - 1) div b < a \<longleftrightarrow> n \<le> a * b"
  using assms by (metis div_less_iff_less_mult le_less_Suc_eq less_Suc_eq_le less_diff_conv2
      linorder_not_le Suc_pred' One_nat_def nat_less_le not_less_eq_eq diff_is_0_eq)

lemma snd_safe_mul:
  "snd (safe_mul a b) \<longleftrightarrow> 2 ^ LENGTH('a) \<le> unat a * unat b" for a b :: "'a::len word"
proof (cases "b = 0")
  case False
  then have "0 < unat b"
    by (simp add: unat_gt_0)
  then show ?thesis
    using False mul_overflow_div [of "unat b" "2 ^ LENGTH('a)" "unat a"]
    by (simp add: safe_mul_def word_less_nat_alt unat_div)
qed (simp add: safe_mul_def)

lemma fst_safe_mul:
  "\<not> snd (safe_mul a b) \<Longrightarrow> unat (fst (safe_mul a b)) = unat a * unat b" for a b :: "'a::len word"
  by (simp add: snd_safe_mul) (simp add: safe_mul_def unat_mult_no_overflow)

section \<open>Fused multiply and divide\<close>

lemma muldiv_split:
  fixes a b c :: nat
  assumes "0 < c"
  shows "a div c * b + a mod c * b div c = a * b div c"
proof -
  have "a * b = a div c * b * c + a mod c * b"
    by (metis div_mult_mod_eq distrib_right mult.assoc mult.commute)
  with assms show ?thesis
    by simp
qed

lemma muldiv_slow_exact:
  fixes a b c :: "'a::len word"
  assumes c: "c \<noteq> 0"
    and ok: "\<not> snd (safe_mul (a mod c) b)" "\<not> snd (safe_mul (a div c) b)"
      "\<not> snd (safe_add (fst (safe_mul (a div c) b)) (fst (safe_mul (a mod c) b) div c))"
  shows "unat (fst (safe_add (fst (safe_mul (a div c) b)) (fst (safe_mul (a mod c) b) div c)))
    = unat a * unat b div unat c"
proof -
  from c have "0 < unat c"
    by (simp add: unat_gt_0)
  then show ?thesis
    by (simp add: fst_safe_add [OF ok(3)] fst_safe_mul [OF ok(2)] unat_div fst_safe_mul [OF ok(1)]
        unat_mod muldiv_split)
qed

lemma safe_muldiv_cases:
  assumes "\<not> snd (safe_muldiv a b c)"
  obtains (fast) "c \<noteq> 0" "\<not> snd (safe_mul a b)" "fst (safe_muldiv a b c) = fst (safe_mul a b) div c"
  | (slow) "c \<noteq> 0" "snd (safe_mul a b)"
      "\<not> snd (safe_mul (max a b mod c) (min a b))" "\<not> snd (safe_mul (max a b div c) (min a b))"
      "\<not> snd (safe_add (fst (safe_mul (max a b div c) (min a b)))
           (fst (safe_mul (max a b mod c) (min a b)) div c))"
      "fst (safe_muldiv a b c) = fst (safe_add (fst (safe_mul (max a b div c) (min a b)))
           (fst (safe_mul (max a b mod c) (min a b)) div c))"
proof -
  have mm: "(if b > a then (b, a) else (a, b)) = (max a b, min a b)"
    by (auto simp: max_def min_def)
  show ?thesis
    using assms that
    by (cases "snd (safe_mul a b)")
      (simp_all add: safe_muldiv_def mm case_prod_unfold Let_def split: if_splits)
qed

lemma unat_max_min: "unat (max a b) * unat (min a b) = unat a * unat b" for a b :: "'a::len word"
  by (cases "a \<le> b") (simp_all add: max_def min_def mult.commute)

lemma safe_muldiv_exact:
  "\<not> snd (safe_muldiv a b c) \<Longrightarrow> unat (fst (safe_muldiv a b c)) = unat a * unat b div unat c"
  for a b c :: "'a::len word"
  by (erule safe_muldiv_cases)
    (simp_all add: fst_safe_mul unat_div muldiv_slow_exact unat_max_min)

lemma safe_muldiv_no_error:
  "c \<noteq> 0 \<Longrightarrow> unat a * unat b < 2 ^ LENGTH('a) \<Longrightarrow> \<not> snd (safe_muldiv a b c)"
  for a b c :: "'a::len word"
proof -
  assume "c \<noteq> 0" "unat a * unat b < 2 ^ LENGTH('a)"
  moreover from this have "\<not> snd (safe_mul a b)"
    by (simp add: snd_safe_mul)
  ultimately show ?thesis
    by (simp add: safe_muldiv_def case_prod_unfold)
qed

section \<open>Division rounding up\<close>

lemma ceil_div_alt:
  fixes a b :: nat
  assumes "0 < b" and "0 < a"
  shows "(a + b - Suc 0) div b = a div b + (if a mod b \<noteq> 0 then 1 else 0)"
proof -
  have eq: "a + b - Suc 0 = (a mod b + b - Suc 0) + a div b * b"
    using assms div_mult_mod_eq [of a b] by linarith
  have "(a + b - Suc 0) div b = a div b + (a mod b + b - Suc 0) div b"
    unfolding eq by (rule div_mult_self1) (use assms in simp)
  moreover have "(a mod b + b - Suc 0) div b = (if a mod b \<noteq> 0 then 1 else 0)"
    using assms
    by (auto simp: div_eq_0_iff intro!: div_nat_eqI)
      (use mod_less_divisor [OF assms(1), of a] in linarith)
  ultimately show ?thesis
    by simp
qed

lemma word_div_succ_no_overflow:
  fixes a b :: "'a::len word"
  assumes "b \<noteq> 0" and "a mod b \<noteq> 0"
  shows "unat (a div b + 1) = unat a div unat b + 1"
proof -
  from assms have "b \<noteq> 1"
    by auto
  with assms(1) have "2 \<le> unat b"
    by (metis One_nat_def Suc_leI le_neq_implies_less one_add_one plus_1_eq_Suc unat_1
        unat_gt_0 word_unat_eq_iff)
  moreover have "unat a mod unat b \<noteq> 0"
    using assms(2) by (simp add: word_unat_eq_iff unat_mod)
  ultimately have "unat a div unat b < unat a"
    by (intro div_less_dividend) (auto intro: gr0I)
  then have "unat (a div b) + unat (1 :: 'a word) < 2 ^ LENGTH('a)"
    by (simp add: unat_div, use unsigned_less [where 'a = nat and w = a] in linarith)
  then show ?thesis
    by (simp add: unat_add_no_overflow unat_div)
qed

lemma safe_div_round_up_exact:
  fixes a b :: "'a::len word"
  assumes "b \<noteq> 0"
  shows "\<not> snd (safe_div_round_up a b)
    \<and> unat (fst (safe_div_round_up a b)) = (unat a + unat b - 1) div unat b"
proof (cases "a = 0")
  case True
  with assms show ?thesis
    by (simp add: safe_div_round_up_def word_gt_0 unat_gt_0)
next
  case False
  then have pos: "0 < unat a" "0 < unat b"
    using assms by (simp_all add: unat_gt_0)
  show ?thesis
  proof (cases "a < safe_maxu - b")
    case True
    then have lt: "unat a + unat b < 2 ^ LENGTH('a)"
      by (simp add: word_less_nat_alt unat_sub_no_underflow)
    then have "unat (a + b - 1) = unat a + unat b - 1"
      using pos by (simp add: unat_add_no_overflow unat_minus_one word_unat_eq_iff)
    with False assms True show ?thesis
      by (simp add: safe_div_round_up_def word_gt_0 unat_div)
  next
    case slow: False
    then show ?thesis
      using False assms pos
      by (simp add: safe_div_round_up_def word_gt_0 word_div_succ_no_overflow ceil_div_alt
          unat_div word_unat_eq_iff [of "a mod b"] unat_mod)
  qed
qed

section \<open>Properties\<close>

text \<open>
  \<^verbatim>\<open>safe_muldiv\<close> never misreports: whenever it does not flag an error its result is the
  exact quotient of the full product, even where the product itself does not fit the type; and it
  flags no error when the product fits and the divisor is not zero.
\<close>

theorem safe_muldiv_correct:
  fixes a b c :: "'a::len word"
  shows "(\<not> snd (safe_muldiv a b c) \<longrightarrow> unat (fst (safe_muldiv a b c)) = unat a * unat b div unat c)
    \<and> (c \<noteq> 0 \<and> unat a * unat b < 2 ^ LENGTH('a) \<longrightarrow> \<not> snd (safe_muldiv a b c))"
  using safe_muldiv_exact safe_muldiv_no_error by blast

theorem safe_muldiv_correct_witness:
  "unat (fst (safe_muldiv (200 :: 8 word) 3 6)) = 100"
proof -
  have "\<not> snd (safe_muldiv (200 :: 8 word) 3 6)"
    by code_simp
  with safe_muldiv_correct [of "200 :: 8 word" 3 6] show ?thesis
    by simp
qed

text \<open>
  \<^verbatim>\<open>safe_div_round_up\<close> by a non-zero divisor is the exact ceiling of the quotient, at the top
  of the range too, and flags no error.
\<close>

theorem safe_div_round_up_is_ceiling:
  fixes a b :: "'a::len word"
  assumes "b \<noteq> 0"
  shows "\<not> snd (safe_div_round_up a b) \<and> unat (fst (safe_div_round_up a b)) = (unat a + unat b - 1) div unat b"
  using safe_div_round_up_exact [OF assms] .

theorem safe_div_round_up_is_ceiling_witness:
  "unat (fst (safe_div_round_up (255 :: 8 word) 2)) = 128"
  using safe_div_round_up_is_ceiling [of "2 :: 8 word" 255] by simp

end
