(* ===== verification/Ring_Buf.thy ===== *)
theory Ring_Buf
  imports Safe_Math
begin

text \<open>
  \<^verbatim>\<open>include/internal/ring_buf.h\<close>: the byte ring buffer behind QUIC send and receive streams, which
  tracks the logical stream offset of each byte. The allocation is a byte list (\<^verbatim>\<open>NULL\<close> is the empty
  one); a pointer into it that a function hands out is the span of bytes it points to. A fresh
  allocation is an argument: \<^term>\<open>None\<close> where \<^verbatim>\<open>OPENSSL_malloc\<close> fails, otherwise the block with
  whatever bytes it holds. \<^verbatim>\<open>size_t\<close> is 64 bits wide.
\<close>

section \<open>Operations\<close>

record ring_buf =
  rb_start :: bytes
  rb_alloc :: u64
  head_offset :: u64
  ctail_offset :: u64

definition MAX_OFFSET :: u64 where
  "MAX_OFFSET = push_bit 62 1"

definition ring_buf_init :: ring_buf where
  "ring_buf_init = \<lparr>rb_start = [], rb_alloc = 0, head_offset = 0, ctail_offset = 0\<rparr>"

definition ring_buf_destroy :: "ring_buf \<Rightarrow> ring_buf" where
  "ring_buf_destroy r = r\<lparr>rb_start := [], rb_alloc := 0\<rparr>"

definition ring_buf_used :: "ring_buf \<Rightarrow> u64" where
  "ring_buf_used r = head_offset r - ctail_offset r"

definition ring_buf_avail :: "ring_buf \<Rightarrow> u64" where
  "ring_buf_avail r = rb_alloc r - ring_buf_used r"

fun ring_buf_write_loop :: "nat \<Rightarrow> ring_buf \<Rightarrow> u64 \<Rightarrow> bytes \<Rightarrow> c_fault + ring_buf" where
  "ring_buf_write_loop 0 r logical_offset buf = Inr r"
| "ring_buf_write_loop (Suc n) r logical_offset buf =
     (if \<not> u64_len buf > 0 then Inr r
      else if rb_alloc r = 0 then Inl DivByZero
      else
        let idx = logical_offset mod rb_alloc r;
            l = rb_alloc r - idx;
            l = (if u64_len buf < l then u64_len buf else l)
        in res_bind (memcpy_at (rb_start r) (unat idx) (take (unat l) buf)) (\<lambda>mem.
             let r' = r\<lparr>rb_start := mem\<rparr>;
                 r' = (if head_offset r' < logical_offset + l
                       then r'\<lparr>head_offset := logical_offset + l\<rparr> else r')
             in ring_buf_write_loop n r' (logical_offset + l) (drop (unat l) buf)))"

definition ring_buf_write_at :: "ring_buf \<Rightarrow> u64 \<Rightarrow> bytes \<Rightarrow> c_fault + ring_buf \<times> bool" where
  "ring_buf_write_at r logical_offset buf =
     (let avail = ring_buf_avail r;
          (e1, err1) = safe_add logical_offset (u64_len buf);
          (e2, err2) = safe_add (head_offset r) avail;
          (e3, err3) = safe_add (head_offset r) (u64_len buf)
      in if logical_offset < ctail_offset r \<or> e1 > e2 \<or> e3 > MAX_OFFSET \<or> (err1 \<or> err2 \<or> err3)
         then Inr (r, False)
         else res_bind (ring_buf_write_loop 2 r logical_offset buf) (\<lambda>r'. Inr (r', True)))"

definition ring_buf_push_len :: "ring_buf \<Rightarrow> u64 \<Rightarrow> u64" where
  "ring_buf_push_len r buf_len =
     (let avail = ring_buf_avail r;
          buf_len = (if buf_len > avail then avail else buf_len)
      in if buf_len > MAX_OFFSET - head_offset r then MAX_OFFSET - head_offset r else buf_len)"

function ring_buf_push_loop :: "ring_buf \<Rightarrow> bytes \<Rightarrow> u64 \<Rightarrow> c_fault + ring_buf \<times> u64" where
  "ring_buf_push_loop r buf pushed =
     (let buf_len = ring_buf_push_len r (u64_len buf) in
      if buf_len = 0 then Inr (r, pushed)
      else if rb_alloc r = 0 then Inl DivByZero
      else
        let idx = head_offset r mod rb_alloc r;
            l = rb_alloc r - idx;
            l = (if buf_len < l then buf_len else l)
        in res_bind (memcpy_at (rb_start r) (unat idx) (take (unat l) buf)) (\<lambda>mem.
             ring_buf_push_loop (r\<lparr>rb_start := mem, head_offset := head_offset r + l\<rparr>)
               (drop (unat l) (take (unat buf_len) buf)) (pushed + l)))"
  by auto

lemma push_len_le: "ring_buf_push_len r n \<le> n"
  by (auto simp: ring_buf_push_len_def Let_def)

lemma u64_len_nonzero: "u64_len bs \<noteq> 0 \<Longrightarrow> bs \<noteq> []"
  by (auto simp: u64_len_def)

lemma chunk_pos: "a \<noteq> 0 \<Longrightarrow> k \<noteq> 0 \<Longrightarrow> 0 < unat (if k < a - h mod a then k else a - h mod a)"
  for a h k :: "'a::len word"
  by (metis diff_gt_0_iff_gt right_minus_eq unat_gt_0 word_gt_0 word_mod_less_divisor less_irrefl)

termination ring_buf_push_loop
proof (relation "measure (\<lambda>(r, buf, pushed). length buf)", goal_cases)
  case (2 r buf pushed x idx l0 l mem)
  have "0 < unat l"
    unfolding 2(4-6) by (rule chunk_pos [OF 2(3,2)])
  moreover have "buf \<noteq> []"
    using 2(1,2) push_len_le [of r "u64_len buf"] by (cases buf) (auto simp: u64_len_def)
  ultimately show ?case
    by (cases buf) auto
qed simp

declare ring_buf_push_loop.simps [simp del]

definition ring_buf_push :: "ring_buf \<Rightarrow> bytes \<Rightarrow> c_fault + ring_buf \<times> u64" where
  "ring_buf_push r buf = ring_buf_push_loop r buf 0"

text \<open>\<open>ring_buf_get_ptr\<close> hands out the bytes from the offset to the end of the allocation.\<close>

definition ring_buf_get_ptr :: "ring_buf \<Rightarrow> u64 \<Rightarrow> c_fault + bytes option" where
  "ring_buf_get_ptr r logical_offset =
     (if logical_offset \<ge> head_offset r \<or> logical_offset < ctail_offset r then Inr None
      else if rb_alloc r = 0 then Inl DivByZero
      else
        let idx = logical_offset mod rb_alloc r
        in Inr (Some (take (unat (rb_alloc r - idx)) (drop (unat idx) (rb_start r)))))"

definition ring_buf_get_buf_at :: "ring_buf \<Rightarrow> u64 \<Rightarrow> (bytes \<times> u64) option" where
  "ring_buf_get_buf_at r logical_offset =
     (if logical_offset > head_offset r \<or> logical_offset < ctail_offset r then None
      else if rb_alloc r = 0 then Some ([], 0)
      else
        let idx = logical_offset mod rb_alloc r;
            l = head_offset r - logical_offset;
            l = (if l > rb_alloc r - idx then rb_alloc r - idx else l)
        in Some (take (unat l) (drop (unat idx) (rb_start r)), l))"

definition ring_buf_cleanse :: "ring_buf \<Rightarrow> u64 \<Rightarrow> c_fault + bytes" where
  "ring_buf_cleanse r end' =
     (let idx = ctail_offset r mod rb_alloc r;
          cleanse_end = end' + 1;
          cleanse_end = (if cleanse_end > head_offset r then head_offset r else cleanse_end);
          l = cleanse_end - ctail_offset r
      in if l > rb_alloc r - idx then
           res_bind (memset_at (rb_start r) (unat idx) 0 (unat (rb_alloc r - idx))) (\<lambda>mem.
             let l = l - (rb_alloc r - idx)
             in if l > 0 then memset_at mem 0 0 (unat l) else Inr mem)
         else if l > 0 then memset_at (rb_start r) (unat idx) 0 (unat l)
         else Inr (rb_start r))"

definition ring_buf_cpop_range :: "ring_buf \<Rightarrow> u64 \<Rightarrow> u64 \<Rightarrow> bool \<Rightarrow> c_fault + ring_buf" where
  "ring_buf_cpop_range r start end' cleanse =
     (if start > ctail_offset r \<or> end' \<ge> MAX_OFFSET then Inr r
      else
        res_bind
          (if cleanse \<and> rb_alloc r > 0 \<and> end' > ctail_offset r then ring_buf_cleanse r end'
           else Inr (rb_start r))
          (\<lambda>mem.
            let r' = r\<lparr>rb_start := mem, ctail_offset := end' + 1\<rparr>
            in Inr (if head_offset r' < ctail_offset r' then r'\<lparr>head_offset := ctail_offset r'\<rparr> else r')))"

lemma get_buf_at_bounds:
  assumes "ring_buf_get_buf_at r off = Some (src, l)" and "l \<noteq> 0"
  shows "off \<le> head_offset r" and "l \<le> head_offset r - off"
  using assms by (auto simp: ring_buf_get_buf_at_def Let_def split: if_splits)

function ring_buf_copy_loop ::
    "ring_buf \<Rightarrow> ring_buf \<Rightarrow> u64 \<Rightarrow> c_fault + ring_buf option" where
  "ring_buf_copy_loop r rnew copied =
     (case ring_buf_get_buf_at r (ctail_offset r + copied) of
        None \<Rightarrow> Inr None
      | Some (src, src_len) \<Rightarrow>
          if src_len = 0 then Inr (Some rnew)
          else
            res_bind (ring_buf_push rnew src) (\<lambda>(rnew', n).
              if n \<noteq> src_len then Inr None
              else ring_buf_copy_loop r rnew' (copied + src_len)))"
  by pat_completeness auto

termination ring_buf_copy_loop
proof (relation "measure (\<lambda>(r, rnew, copied). unat (head_offset r - (ctail_offset r + copied)))", goal_cases)
  case (2 r rnew copied x src l)
  then have b: "ctail_offset r + copied \<le> head_offset r"
      "l \<le> head_offset r - (ctail_offset r + copied)" "l \<noteq> 0"
    using get_buf_at_bounds by auto
  then have "unat (head_offset r - (ctail_offset r + copied) - l)
      = unat (head_offset r - (ctail_offset r + copied)) - unat l"
    by (simp add: unat_sub_no_underflow)
  moreover have "0 < unat l" "unat l \<le> unat (head_offset r - (ctail_offset r + copied))"
    using b by (simp_all add: unat_gt_0 word_le_nat_alt)
  moreover have "head_offset r - (ctail_offset r + (copied + l)) = head_offset r - (ctail_offset r + copied) - l"
    by simp
  ultimately show ?case
    by (simp only: in_measure case_prod_conv)
qed simp

declare ring_buf_copy_loop.simps [simp del]

definition ring_buf_resize :: "bytes option \<Rightarrow> ring_buf \<Rightarrow> u64 \<Rightarrow> bool \<Rightarrow> c_fault + ring_buf \<times> bool" where
  "ring_buf_resize blk r num_bytes cleanse =
     (if num_bytes = rb_alloc r then Inr (r, True)
      else if num_bytes < ring_buf_used r then Inr (r, False)
      else
        case (if num_bytes = 0 then None else blk) of
          None \<Rightarrow> Inr (r, False)
        | Some start \<Rightarrow>
            let base = head_offset r - ring_buf_used r;
                rnew = \<lparr>rb_start = start, rb_alloc = num_bytes, head_offset = base, ctail_offset = base\<rparr>
            in res_bind (ring_buf_copy_loop r rnew 0) (\<lambda>res.
                 case res of
                   None \<Rightarrow> Inr (r, False)
                 | Some rnew' \<Rightarrow> Inr (rnew'\<lparr>ctail_offset := ctail_offset r\<rparr>, True)))"

section \<open>Invariant and contents\<close>

abbreviation rb_head :: "ring_buf \<Rightarrow> nat" where "rb_head r \<equiv> unat (head_offset r)"
abbreviation rb_tail :: "ring_buf \<Rightarrow> nat" where "rb_tail r \<equiv> unat (ctail_offset r)"
abbreviation rb_size :: "ring_buf \<Rightarrow> nat" where "rb_size r \<equiv> unat (rb_alloc r)"

text \<open>
  The allocation is as large as recorded (and no larger than an object can be), the tail is not past
  the head, the head stays below QUIC's limit on offsets, and what is retained fits.
\<close>

definition ring_ok :: "ring_buf \<Rightarrow> bool" where
  "ring_ok r \<longleftrightarrow> length (rb_start r) = rb_size r \<and> rb_size r < 2 ^ 63
     \<and> rb_tail r \<le> rb_head r \<and> rb_head r \<le> rb_tail r + rb_size r \<and> rb_head r \<le> 2 ^ 62"

text \<open>The byte kept for logical offset \<open>j\<close>, and the stream bytes retained, tail first.\<close>

definition ring_at :: "ring_buf \<Rightarrow> nat \<Rightarrow> u8" where
  "ring_at r j = rb_start r ! (j mod rb_size r)"

definition ring_bytes :: "ring_buf \<Rightarrow> bytes" where
  "ring_bytes r = map (ring_at r) [rb_tail r..<rb_head r]"

text \<open>How many more bytes can be pushed.\<close>

definition ring_room :: "ring_buf \<Rightarrow> nat" where
  "ring_room r = min (rb_tail r + rb_size r - rb_head r) (2 ^ 62 - rb_head r)"

lemma MAX_OFFSET_nat [simp]: "unat MAX_OFFSET = 2 ^ 62"
  by (simp add: MAX_OFFSET_def push_bit_of_1)

lemma ring_ok_init [simp]: "ring_ok ring_buf_init"
  by (simp add: ring_ok_def ring_buf_init_def)

lemma length_ring_bytes [simp]: "length (ring_bytes r) = rb_head r - rb_tail r"
  by (simp add: ring_bytes_def)

lemma nth_ring_bytes: "i < rb_head r - rb_tail r \<Longrightarrow> ring_bytes r ! i = ring_at r (rb_tail r + i)"
  by (simp add: ring_bytes_def)

lemma ring_used_nat: "ring_ok r \<Longrightarrow> unat (ring_buf_used r) = rb_head r - rb_tail r"
  by (simp add: ring_ok_def ring_buf_used_def unat_sub_no_underflow word_le_nat_alt)

lemma ring_avail_nat: "ring_ok r \<Longrightarrow> unat (ring_buf_avail r) = rb_tail r + rb_size r - rb_head r"
proof -
  assume ok: "ring_ok r"
  then have "ring_buf_used r \<le> rb_alloc r"
    by (simp add: word_le_nat_alt ring_used_nat) (auto simp: ring_ok_def)
  then show ?thesis
    using ok by (simp add: ring_buf_avail_def unat_sub_no_underflow ring_used_nat) (auto simp: ring_ok_def)
qed

lemma push_len_nat:
  assumes "ring_ok r"
  shows "unat (ring_buf_push_len r n) = min (unat n) (ring_room r)"
proof -
  have "unat (MAX_OFFSET - head_offset r) = 2 ^ 62 - rb_head r"
    using assms by (simp add: ring_ok_def unat_sub_no_underflow word_le_nat_alt)
  with ring_avail_nat [OF assms] show ?thesis
    by (auto simp: ring_buf_push_len_def ring_room_def Let_def word_less_nat_alt)
qed

section \<open>Writing a contiguous chunk\<close>

lemma memcpy_chunk:
  assumes "0 < a" and "length mem = a" and "k mod a + length bs \<le> a"
  obtains mem' where "memcpy_at mem (k mod a) bs = Inr mem'" "length mem' = a"
    "\<And>j. k \<le> j \<Longrightarrow> j < k + length bs \<Longrightarrow> mem' ! (j mod a) = bs ! (j - k)"
    "\<And>j. j < k \<Longrightarrow> k + length bs \<le> j + a \<Longrightarrow> mem' ! (j mod a) = mem ! (j mod a)"
    "\<And>j. k + length bs \<le> j \<Longrightarrow> j < k + a \<Longrightarrow> mem' ! (j mod a) = mem ! (j mod a)"
proof -
  define mem' where "mem' = take (k mod a) mem @ bs @ drop (k mod a + length bs) mem"
  have nth: "mem' ! (j mod a) = (if k mod a \<le> j mod a \<and> j mod a < k mod a + length bs
      then bs ! (j mod a - k mod a) else mem ! (j mod a))" for j
    unfolding mem'_def by (rule nth_overwrite) (use assms in auto)
  have hit: "\<exists>i. k \<le> i \<and> i < k + length bs \<and> i mod a = j mod a"
    if "k mod a \<le> j mod a" "j mod a < k mod a + length bs" for j
  proof (intro exI conjI)
    show "(k + (j mod a - k mod a)) mod a = j mod a"
      using that assms mod_run [of k "k + (j mod a - k mod a)" a] by simp
  qed (use that in auto)
  have miss: "mem' ! (j mod a) = mem ! (j mod a)" if "\<And>i. k \<le> i \<Longrightarrow> i < k + length bs \<Longrightarrow> i mod a \<noteq> j mod a" for j
    using hit [of j] that unfolding nth by metis
  show ?thesis
  proof
    show "memcpy_at mem (k mod a) bs = Inr mem'"
      using assms by (simp add: memcpy_at_def mem'_def)
    show "length mem' = a"
      using assms by (simp add: mem'_def)
    show "mem' ! (j mod a) = bs ! (j - k)" if "k \<le> j" "j < k + length bs" for j
    proof -
      have "j mod a = k mod a + (j - k)"
        using that assms by (intro mod_run) auto
      then have "k mod a \<le> j mod a \<and> j mod a < k mod a + length bs" "j mod a - k mod a = j - k"
        using that by auto
      with nth [of j] show ?thesis
        by simp
    qed
    show "mem' ! (j mod a) = mem ! (j mod a)" if j: "j < k" "k + length bs \<le> j + a" for j
      using j mod_window_neq [of j _ a] by (intro miss) (metis less_le_trans order_less_le_trans)
    show "mem' ! (j mod a) = mem ! (j mod a)" if j: "k + length bs \<le> j" "j < k + a" for j
      using j mod_window_neq [of _ j a] by (intro miss) (metis add_le_cancel_right order_less_le_trans)
  qed
qed

lemma chunk_fits: "0 < a \<Longrightarrow> unat (h mod a) + unat (a - h mod a) = unat a" for a h :: u64
proof -
  assume "0 < a"
  then have "h mod a < a"
    using word_mod_less_divisor by blast
  then show ?thesis
    by (simp add: unat_sub_no_underflow word_less_nat_alt order_less_imp_le)
qed

lemma push_chunk:
  assumes ok: "ring_ok r" and bs: "length bs \<le> ring_room r" "0 < length bs"
    "rb_head r mod rb_size r + length bs \<le> rb_size r"
  obtains mem where "memcpy_at (rb_start r) (rb_head r mod rb_size r) bs = Inr mem"
    "ring_ok (r\<lparr>rb_start := mem, head_offset := head_offset r + of_nat (length bs)\<rparr>)"
    "rb_head (r\<lparr>rb_start := mem, head_offset := head_offset r + of_nat (length bs)\<rparr>) = rb_head r + length bs"
    "ring_bytes (r\<lparr>rb_start := mem, head_offset := head_offset r + of_nat (length bs)\<rparr>) = ring_bytes r @ bs"
proof -
  have sz: "0 < rb_size r" "length (rb_start r) = rb_size r"
    using ok bs(2,3) by (linarith, simp add: ring_ok_def)
  from memcpy_chunk [OF sz bs(3)] obtain mem where mem:
    "memcpy_at (rb_start r) (rb_head r mod rb_size r) bs = Inr mem" "length mem = rb_size r"
    "\<And>j. rb_head r \<le> j \<Longrightarrow> j < rb_head r + length bs \<Longrightarrow> mem ! (j mod rb_size r) = bs ! (j - rb_head r)"
    "\<And>j. j < rb_head r \<Longrightarrow> rb_head r + length bs \<le> j + rb_size r \<Longrightarrow>
        mem ! (j mod rb_size r) = rb_start r ! (j mod rb_size r)"
    by metis
  let ?r = "r\<lparr>rb_start := mem, head_offset := head_offset r + of_nat (length bs)\<rparr>"
  have n: "unat (of_nat (length bs) :: u64) = length bs"
    using bs(1) by (auto simp: unat_of_nat ring_room_def)
  have head: "rb_head ?r = rb_head r + length bs"
    using bs ok n by (simp add: ring_ok_def ring_room_def unat_add_no_overflow)
  have "ring_bytes ?r = ring_bytes r @ bs"
  proof (rule nth_equalityI)
    fix i assume i: "i < length (ring_bytes ?r)"
    then show "ring_bytes ?r ! i = (ring_bytes r @ bs) ! i"
      using mem(3) [of "rb_tail r + i"] mem(4) [of "rb_tail r + i"] head ok bs
      by (auto simp: nth_append nth_ring_bytes ring_at_def ring_ok_def ring_room_def add.commute)
  qed (use head ok bs in \<open>auto simp: ring_ok_def\<close>)
  moreover have "ring_ok ?r"
    using ok bs head mem(2) by (auto simp: ring_ok_def ring_room_def)
  ultimately show ?thesis
    using that mem(1) head by blast
qed

section \<open>Pushing, reading, culling\<close>

lemma push_loop_spec:
  assumes "ring_ok r" and "length buf < 2 ^ 64"
  shows "\<exists>r'. ring_buf_push_loop r buf p = Inr (r', p + of_nat (min (length buf) (ring_room r)))
    \<and> ring_ok r' \<and> ring_bytes r' = ring_bytes r @ take (ring_room r) buf
    \<and> ctail_offset r' = ctail_offset r \<and> rb_alloc r' = rb_alloc r"
  using assms
proof (induction r buf p rule: ring_buf_push_loop.induct)
  case (1 r buf p)
  define n where "n = min (length buf) (ring_room r)"
  define m where "m = min n (rb_size r - rb_head r mod rb_size r)"
  let ?l = "if ring_buf_push_len r (u64_len buf) < rb_alloc r - head_offset r mod rb_alloc r
    then ring_buf_push_len r (u64_len buf) else rb_alloc r - head_offset r mod rb_alloc r"
  have len: "unat (ring_buf_push_len r (u64_len buf)) = n"
    using push_len_nat [OF "1.prems"(1)] "1.prems"(2) by (simp add: u64_len_nat n_def)
  show ?case
  proof (cases "n = 0")
    case True
    with len show ?thesis
      using "1.prems" by (subst ring_buf_push_loop.simps) (auto simp: n_def min_def unsigned_eq_0_iff split: if_splits)
  next
    case False
    have sz: "0 < rb_size r"
      using False "1.prems"(1) by (auto simp: n_def ring_room_def ring_ok_def)
    then have mod: "rb_head r mod rb_size r < rb_size r" "0 < rb_alloc r"
      by (simp_all add: word_less_nat_alt)
    have l: "unat ?l = m"
      using chunk_fits [OF mod(2), of "head_offset r"] mod(1) len
      by (auto simp: word_less_nat_alt m_def unat_mod)
    note lw = unat_eqD [OF l]
    have lm: "unat (of_nat m :: u64) = m"
      using l unfolding lw .
    have ne: "ring_buf_push_len r (u64_len buf) \<noteq> 0" "rb_alloc r \<noteq> 0"
      using len False mod(2) by auto
    have m: "0 < m" "m \<le> n" "m \<le> length buf" "rb_head r mod rb_size r + m \<le> rb_size r" "m \<le> ring_room r"
      using False mod(1) by (auto simp: m_def n_def)
    from push_chunk [OF "1.prems"(1), of "take m buf"] m obtain mem where mem:
      "memcpy_at (rb_start r) (rb_head r mod rb_size r) (take m buf) = Inr mem"
      "ring_ok (r\<lparr>rb_start := mem, head_offset := head_offset r + of_nat m\<rparr>)"
      "unat (head_offset r + of_nat m) = rb_head r + m"
      "ring_bytes (r\<lparr>rb_start := mem, head_offset := head_offset r + of_nat m\<rparr>) = ring_bytes r @ take m buf"
      by (auto simp: min_absorb2)
    let ?r = "r\<lparr>rb_start := mem, head_offset := head_offset r + of_nat m\<rparr>"
    have room: "ring_room ?r = ring_room r - m"
      using mem(3) by (auto simp: ring_room_def)
    have step: "ring_buf_push_loop r buf p = ring_buf_push_loop ?r (drop m (take n buf)) (p + of_nat m)"
      by (subst ring_buf_push_loop.simps)
        (simp only: Let_def lw lm unat_mod len mem(1) res_bind_simps if_not_P [OF ne(1)] if_not_P [OF ne(2)])
    have IH: "\<exists>r'. ring_buf_push_loop ?r (drop m (take n buf)) (p + of_nat m)
        = Inr (r', p + of_nat m + of_nat (min (length (drop m (take n buf))) (ring_room ?r)))
      \<and> ring_ok r' \<and> ring_bytes r' = ring_bytes ?r @ take (ring_room ?r) (drop m (take n buf))
      \<and> ctail_offset r' = ctail_offset ?r \<and> rb_alloc r' = rb_alloc ?r"
      using "1.IH" [OF refl ne refl refl refl, of mem] mem(2) "1.prems"(2)
      unfolding lw lm len by simp
    have "take m buf = take m (take n buf)" "take n buf = take (ring_room r) buf"
      using m(2) by (simp_all add: n_def min_def)
    then have "take m buf @ drop m (take n buf) = take (ring_room r) buf"
      by (metis append_take_drop_id)
    then show ?thesis
      unfolding step using IH mem(4) m room
      by (auto simp: n_def)
  qed
qed

lemma ring_buf_push_spec:
  assumes "ring_ok r" and "length buf < 2 ^ 64"
  obtains r' where "ring_buf_push r buf = Inr (r', of_nat (min (length buf) (ring_room r)))"
    "ring_ok r'" "ring_bytes r' = ring_bytes r @ take (ring_room r) buf"
    "ctail_offset r' = ctail_offset r" "rb_alloc r' = rb_alloc r"
  using push_loop_spec [OF assms, of 0] by (auto simp: ring_buf_push_def)

lemma ring_head_from_bytes:
  "ring_ok r \<Longrightarrow> rb_head r = rb_tail r + length (ring_bytes r)"
  by (simp add: ring_ok_def)

lemma ring_slice:
  assumes "ring_ok r" and "rb_tail r \<le> k" and "k + n \<le> rb_head r" and "k mod rb_size r + n \<le> rb_size r"
  shows "take n (drop (k mod rb_size r) (rb_start r)) = take n (drop (k - rb_tail r) (ring_bytes r))"
proof (rule nth_equalityI)
  show "length (take n (drop (k mod rb_size r) (rb_start r))) = length (take n (drop (k - rb_tail r) (ring_bytes r)))"
    using assms by (auto simp: ring_ok_def)
  fix i assume "i < length (take n (drop (k mod rb_size r) (rb_start r)))"
  then have i: "i < n" "k mod rb_size r + i < rb_size r"
    using assms by (auto simp: ring_ok_def)
  then have "(k + i) mod rb_size r = k mod rb_size r + i"
    using mod_run [of k "k + i" "rb_size r"] by simp
  with i assms show "take n (drop (k mod rb_size r) (rb_start r)) ! i = take n (drop (k - rb_tail r) (ring_bytes r)) ! i"
    by (simp add: nth_ring_bytes ring_at_def ring_ok_def)
qed

lemma get_buf_at_spec:
  assumes "ring_ok r" and "rb_tail r \<le> unat off" and "unat off \<le> rb_head r"
  obtains src l where "ring_buf_get_buf_at r off = Some (src, l)" "unat l = length src"
    "length src = min (rb_head r - unat off) (rb_size r - unat off mod rb_size r)"
    "src = take (length src) (drop (unat off - rb_tail r) (ring_bytes r))"
proof (cases "rb_alloc r = 0")
  case True
  with assms that [of "[]" 0] show ?thesis
    by (auto simp: ring_buf_get_buf_at_def ring_ok_def word_less_nat_alt)
next
  case False
  define l where "l = (if head_offset r - off > rb_alloc r - off mod rb_alloc r
      then rb_alloc r - off mod rb_alloc r else head_offset r - off)"
  have sz: "unat off mod rb_size r < rb_size r"
    using False by (simp add: unat_gt_0)
  have "unat l = min (rb_head r - unat off) (rb_size r - unat off mod rb_size r)"
    using chunk_fits [of "rb_alloc r" off] False assms(3) sz
    by (auto simp: l_def unat_sub_no_underflow word_le_nat_alt word_less_nat_alt unat_mod word_gt_0)
  moreover have "unat off mod rb_size r + unat l \<le> rb_size r" "unat off + unat l \<le> rb_head r"
    using calculation sz assms(3) by auto
  moreover have "take (unat l) (drop (unat off mod rb_size r) (rb_start r))
      = take (unat l) (drop (unat off - rb_tail r) (ring_bytes r))"
    using ring_slice [OF assms(1,2)] calculation by blast
  moreover have "ring_buf_get_buf_at r off = Some (take (unat l) (drop (unat off mod rb_size r) (rb_start r)), l)"
    using assms False by (simp add: ring_buf_get_buf_at_def l_def Let_def unat_mod word_less_nat_alt not_less)
  moreover have "length (take (unat l) (drop (unat off mod rb_size r) (rb_start r))) = unat l"
    using calculation assms(1,2) by (auto simp: ring_ok_def)
  ultimately show ?thesis
    using that by metis
qed

lemma get_buf_at_outside:
  "unat off < rb_tail r \<or> rb_head r < unat off \<Longrightarrow> ring_buf_get_buf_at r off = None"
  by (auto simp: ring_buf_get_buf_at_def word_less_nat_alt)

section \<open>Resizing\<close>

lemma copy_loop_spec:
  assumes "ring_ok r" and "ring_ok rnew" and "ctail_offset rnew = ctail_offset r"
    and "ring_bytes rnew = take (unat copied) (ring_bytes r)" and "rb_tail r + unat copied \<le> rb_head r"
    and "rb_head r \<le> rb_tail r + rb_size rnew"
  shows "\<exists>rn. ring_buf_copy_loop r rnew copied = Inr (Some rn) \<and> ring_ok rn
    \<and> ring_bytes rn = ring_bytes r \<and> ctail_offset rn = ctail_offset r \<and> rb_alloc rn = rb_alloc rnew"
  using assms
proof (induction r rnew copied rule: ring_buf_copy_loop.induct)
  case (1 r rnew copied)
  have bound: "rb_head r \<le> 2 ^ 62"
    using "1.prems"(1) by (simp add: ring_ok_def)
  have off: "unat (ctail_offset r + copied) = rb_tail r + unat copied"
    using "1.prems"(5) bound by (simp add: unat_add_no_overflow)
  from get_buf_at_spec [OF "1.prems"(1), of "ctail_offset r + copied"] "1.prems"(5)
  obtain src l where src: "ring_buf_get_buf_at r (ctail_offset r + copied) = Some (src, l)"
    "unat l = length src"
    "length src = min (rb_head r - (rb_tail r + unat copied)) (rb_size r - (rb_tail r + unat copied) mod rb_size r)"
    "src = take (length src) (drop (unat copied) (ring_bytes r))"
    by (auto simp: off)
  have head: "rb_head rnew = rb_tail r + unat copied"
    using ring_head_from_bytes [OF "1.prems"(2)] "1.prems"(3,4,5) by simp
  show ?case
  proof (cases "l = 0")
    case True
    have "rb_head r = rb_tail r + unat copied"
    proof (cases "rb_size r = 0")
      case True
      with "1.prems"(1,5) show ?thesis
        by (auto simp: ring_ok_def)
    next
      case False
      then have "(rb_tail r + unat copied) mod rb_size r < rb_size r"
        by simp
      with True src(2,3) "1.prems"(5) show ?thesis
        by auto
    qed
    with True src(1) "1.prems" show ?thesis
      by (subst ring_buf_copy_loop.simps) simp
  next
    case False
    have fits: "length src \<le> ring_room rnew" "rb_tail r + unat copied + length src \<le> rb_head r"
      using src(3) head "1.prems"(1,3,6) "1.prems"(5) bound by (auto simp: ring_room_def)
    then have "length src < 2 ^ 64"
      using bound by simp
    from ring_buf_push_spec [OF "1.prems"(2) this] obtain rn where rn:
      "ring_buf_push rnew src = Inr (rn, of_nat (length src))" "ring_ok rn"
      "ring_bytes rn = ring_bytes rnew @ src" "ctail_offset rn = ctail_offset r" "rb_alloc rn = rb_alloc rnew"
      using fits(1) "1.prems"(3) by (auto simp: min_absorb1)
    have l: "of_nat (length src) = l"
      using unat_eqD [OF src(2)] by simp
    have copied: "unat (copied + l) = unat copied + length src"
      using fits(2) bound src(2) by (simp add: unat_add_no_overflow)
    have "ring_bytes rn = take (unat (copied + l)) (ring_bytes r)"
      unfolding copied rn(3) "1.prems"(4) using src(4) by (metis take_add)
    then have "\<exists>rn'. ring_buf_copy_loop r rn (copied + l) = Inr (Some rn') \<and> ring_ok rn'
        \<and> ring_bytes rn' = ring_bytes r \<and> ctail_offset rn' = ctail_offset r \<and> rb_alloc rn' = rb_alloc rn"
      using "1.IH" [OF src(1) refl False, of l rn] "1.prems" rn copied fits by simp
    then show ?thesis
      using src(1) False rn(1,5) l by (subst ring_buf_copy_loop.simps) simp
  qed
qed

lemma ring_buf_resize_spec:
  assumes ok: "ring_ok r" and n: "unat n < 2 ^ 63" and blk: "\<And>b. blk = Some b \<Longrightarrow> length b = unat n"
  obtains "ring_buf_resize blk r n cleanse = Inr (r, False)"
      "blk = None \<or> n = 0 \<or> unat n < rb_head r - rb_tail r"
  | r' where "ring_buf_resize blk r n cleanse = Inr (r', True)" "ring_ok r'" "rb_alloc r' = n"
      "ring_bytes r' = ring_bytes r" "ctail_offset r' = ctail_offset r"
proof -
  consider "n = rb_alloc r" | "n \<noteq> rb_alloc r" "n < ring_buf_used r \<or> n = 0 \<or> blk = None"
    | b where "n \<noteq> rb_alloc r" "\<not> n < ring_buf_used r" "n \<noteq> 0" "blk = Some b"
    by (cases blk) auto
  then show ?thesis
  proof cases
    case 1
    then have "ring_buf_resize blk r n cleanse = Inr (r, True)"
      by (simp add: ring_buf_resize_def)
    from that(2) [OF this ok] 1 show ?thesis
      by blast
  next
    case 2
    then have "ring_buf_resize blk r n cleanse = Inr (r, False)"
      by (auto simp: ring_buf_resize_def)
    moreover have "blk = None \<or> n = 0 \<or> unat n < rb_head r - rb_tail r"
      using 2 ok by (auto simp: word_less_nat_alt ring_used_nat)
    ultimately show ?thesis
      using that(1) by blast
  next
    case (3 b)
    define rnew where "rnew = \<lparr>rb_start = b, rb_alloc = n, head_offset = head_offset r - ring_buf_used r,
      ctail_offset = head_offset r - ring_buf_used r\<rparr>"
    have base: "head_offset r - ring_buf_used r = ctail_offset r"
      by (simp add: ring_buf_used_def)
    have "ring_ok rnew" "ctail_offset rnew = ctail_offset r" "ring_bytes rnew = []" "rb_alloc rnew = n"
      using ok n blk [OF 3(4)] by (auto simp: rnew_def base ring_ok_def ring_bytes_def)
    moreover have "rb_head r \<le> rb_tail r + unat n" "rb_tail r \<le> rb_head r"
      using 3(2) ok by (auto simp: word_less_nat_alt ring_used_nat ring_ok_def)
    ultimately obtain rn where rn: "ring_buf_copy_loop r rnew 0 = Inr (Some rn)" "ring_ok rn"
      "ring_bytes rn = ring_bytes r" "ctail_offset rn = ctail_offset r" "rb_alloc rn = n"
      using copy_loop_spec [OF ok, of rnew 0] by auto
    then have "rn\<lparr>ctail_offset := ctail_offset r\<rparr> = rn"
      by simp
    with 3 rn that(2) [of rn] show ?thesis
      by (auto simp: ring_buf_resize_def rnew_def Let_def)
  qed
qed

section \<open>Writes that wrap around\<close>

lemma wrap_point: "0 < a \<Longrightarrow> (k + (a - k mod a)) mod a = 0" for a k :: nat
  by (metis mod_add_left_eq mod_self le_add_diff_inverse mod_le_divisor)

lemma wrapped_write:
  assumes "0 < a" and "length mem = a" and "length bs \<le> a" and "a - k mod a < length bs"
  obtains mem1 mem2 where "memcpy_at mem (k mod a) (take (a - k mod a) bs) = Inr mem1"
    "memcpy_at mem1 0 (drop (a - k mod a) bs) = Inr mem2" "length mem1 = a" "length mem2 = a"
    "\<forall>j. k \<le> j \<longrightarrow> j < k + length bs \<longrightarrow> mem2 ! (j mod a) = bs ! (j - k)"
    "\<forall>j. j < k \<longrightarrow> k + length bs \<le> j + a \<longrightarrow> mem2 ! (j mod a) = mem ! (j mod a)"
    "\<forall>j. k + length bs \<le> j \<longrightarrow> j < k + a \<longrightarrow> mem2 ! (j mod a) = mem ! (j mod a)"
proof -
  define n where "n = a - k mod a"
  have lt: "k mod a < a"
    using assms(1) by simp
  have n: "k mod a + length (take n bs) = a" "length (take n bs) = n" "(k + n) mod a = 0" "n < length bs" "n \<le> a"
    using assms lt wrap_point [OF assms(1)] by (auto simp: n_def min_def)
  have "k mod a + length (take n bs) \<le> a"
    using n by simp
  from memcpy_chunk [OF assms(1,2) this] obtain mem1 where m1:
    "memcpy_at mem (k mod a) (take n bs) = Inr mem1" "length mem1 = a"
    "\<And>j. k \<le> j \<Longrightarrow> j < k + n \<Longrightarrow> mem1 ! (j mod a) = take n bs ! (j - k)"
    "\<And>j. j < k \<Longrightarrow> k + n \<le> j + a \<Longrightarrow> mem1 ! (j mod a) = mem ! (j mod a)"
    "\<And>j. k + n \<le> j \<Longrightarrow> j < k + a \<Longrightarrow> mem1 ! (j mod a) = mem ! (j mod a)"
    unfolding n(2) by blast
  have "(k + n) mod a + length (drop n bs) \<le> a"
    using assms(3) n by simp
  from memcpy_chunk [OF assms(1) m1(2) this] obtain mem2 where m2:
    "memcpy_at mem1 0 (drop n bs) = Inr mem2" "length mem2 = a"
    "\<And>j. k + n \<le> j \<Longrightarrow> j < k + length bs \<Longrightarrow> mem2 ! (j mod a) = drop n bs ! (j - (k + n))"
    "\<And>j. j < k + n \<Longrightarrow> k + length bs \<le> j + a \<Longrightarrow> mem2 ! (j mod a) = mem1 ! (j mod a)"
    "\<And>j. k + length bs \<le> j \<Longrightarrow> j < k + n + a \<Longrightarrow> mem2 ! (j mod a) = mem1 ! (j mod a)"
    unfolding n(3) using n(4) by (auto simp: add.assoc)
  show ?thesis
  proof (rule that; (intro allI impI)?)
    show "memcpy_at mem (k mod a) (take (a - k mod a) bs) = Inr mem1"
      "memcpy_at mem1 0 (drop (a - k mod a) bs) = Inr mem2" "length mem1 = a" "length mem2 = a"
      using m1 m2 unfolding n_def by simp_all
    show "mem2 ! (j mod a) = bs ! (j - k)" if j: "k \<le> j" "j < k + length bs" for j
    proof (cases "j < k + n")
      case True
      then show ?thesis
        using m2(4) [of j] m1(3) [of j] j assms(3) by simp
    next
      case False
      then have "n + (j - (k + n)) = j - k"
        by simp
      then show ?thesis
        using m2(3) [of j] j False n(4) by simp
    qed
    show "mem2 ! (j mod a) = mem ! (j mod a)" if j: "j < k" "k + length bs \<le> j + a" for j
      using m2(4) [of j] m1(4) [of j] j n(4) by simp
    show "mem2 ! (j mod a) = mem ! (j mod a)" if j: "k + length bs \<le> j" "j < k + a" for j
      using m2(5) [of j] m1(5) [of j] j n(4) by simp
  qed
qed

lemma ring_buf_cleanse_spec:
  assumes ok: "ring_ok r" and sz: "0 < rb_size r" and e: "rb_tail r < unat e" "unat e < 2 ^ 62"
  obtains mem where "ring_buf_cleanse r e = Inr mem" "length mem = rb_size r"
    "\<And>j. rb_tail r \<le> j \<Longrightarrow> j < min (unat e + 1) (rb_head r) \<Longrightarrow> mem ! (j mod rb_size r) = 0"
    "\<And>j. min (unat e + 1) (rb_head r) \<le> j \<Longrightarrow> j < rb_tail r + rb_size r \<Longrightarrow>
      mem ! (j mod rb_size r) = rb_start r ! (j mod rb_size r)"
proof -
  define l where "l = (if e + 1 > head_offset r then head_offset r else e + 1) - ctail_offset r"
  define n where "n = min (unat e + 1) (rb_head r) - rb_tail r"
  let ?idx = "ctail_offset r mod rb_alloc r" and ?k = "rb_tail r mod rb_size r"
  have e1: "unat (e + 1) = unat e + 1"
    using e(2) by (simp add: unat_add_no_overflow)
  have tail: "rb_tail r \<le> rb_head r" "rb_head r \<le> rb_tail r + rb_size r" "length (rb_start r) = rb_size r"
    using ok by (auto simp: ring_ok_def)
  have l: "unat l = n" and n: "n \<le> rb_size r" "rb_tail r + n = min (unat e + 1) (rb_head r)"
    using e tail e1 by (auto simp: l_def n_def unat_sub_no_underflow word_le_nat_alt word_less_nat_alt)
  have idx: "unat ?idx = ?k" "unat (rb_alloc r - ?idx) = rb_size r - ?k"
    using chunk_fits [of "rb_alloc r" "ctail_offset r"] sz by (auto simp: unat_mod word_less_nat_alt)
  have lt: "?k < rb_size r"
    using sz by simp
  have def: "ring_buf_cleanse r e =
      (if l > rb_alloc r - ?idx then
         res_bind (memset_at (rb_start r) (unat ?idx) 0 (unat (rb_alloc r - ?idx))) (\<lambda>mem.
           if l - (rb_alloc r - ?idx) > 0 then memset_at mem 0 0 (unat (l - (rb_alloc r - ?idx))) else Inr mem)
       else if l > 0 then memset_at (rb_start r) (unat ?idx) 0 (unat l)
       else Inr (rb_start r))"
    unfolding ring_buf_cleanse_def l_def Let_def by (rule refl)
  show ?thesis
  proof (cases "rb_size r - ?k < n")
    case True
    then have wl: "l > rb_alloc r - ?idx" "unat (l - (rb_alloc r - ?idx)) = n - (rb_size r - ?k)"
      by (simp_all add: word_less_nat_alt l idx unat_sub_no_underflow word_le_nat_alt)
    have "length (replicate n (0 :: u8)) \<le> rb_size r" "rb_size r - ?k < length (replicate n (0 :: u8))"
      using n True by simp_all
    note wrapped = wrapped_write [OF sz tail(3) this, unfolded length_replicate]
    obtain mem1 mem2 where
      "memcpy_at (rb_start r) ?k (take (rb_size r - ?k) (replicate n 0)) = Inr mem1"
      "memcpy_at mem1 0 (drop (rb_size r - ?k) (replicate n 0)) = Inr mem2"
      "length mem1 = rb_size r" "length mem2 = rb_size r"
      "\<forall>j. rb_tail r \<le> j \<longrightarrow> j < rb_tail r + n \<longrightarrow> mem2 ! (j mod rb_size r) = replicate n 0 ! (j - rb_tail r)"
      "\<forall>j. j < rb_tail r \<longrightarrow> rb_tail r + n \<le> j + rb_size r \<longrightarrow> mem2 ! (j mod rb_size r) = rb_start r ! (j mod rb_size r)"
      "\<forall>j. rb_tail r + n \<le> j \<longrightarrow> j < rb_tail r + rb_size r \<longrightarrow> mem2 ! (j mod rb_size r) = rb_start r ! (j mod rb_size r)"
      by (rule wrapped)
    moreover from this wl True have "ring_buf_cleanse r e = Inr mem2"
      unfolding def by (simp add: memset_at_def idx min_def word_less_nat_alt)
    ultimately show ?thesis
      using that [of mem2] unfolding n(2) [symmetric] by simp
  next
    case False
    then have "?k + length (replicate n (0 :: u8)) \<le> rb_size r" "\<not> l > rb_alloc r - ?idx"
      using lt by (auto simp: word_less_nat_alt l idx)
    note fits = this(2) and chunk = memcpy_chunk [OF sz tail(3) this(1), unfolded length_replicate]
    obtain mem where
      "memcpy_at (rb_start r) ?k (replicate n 0) = Inr mem" "length mem = rb_size r"
      "\<forall>j. rb_tail r \<le> j \<longrightarrow> j < rb_tail r + n \<longrightarrow> mem ! (j mod rb_size r) = replicate n 0 ! (j - rb_tail r)"
      "\<forall>j. rb_tail r + n \<le> j \<longrightarrow> j < rb_tail r + rb_size r \<longrightarrow> mem ! (j mod rb_size r) = rb_start r ! (j mod rb_size r)"
      by (rule chunk) simp
    moreover from this fits have "ring_buf_cleanse r e = Inr mem"
      unfolding def using l by (auto simp: memset_at_def idx word_less_nat_alt memcpy_at_def split: if_splits)
    ultimately show ?thesis
      using that [of mem] unfolding n(2) [symmetric] by simp
  qed
qed

lemma cpop_range_spec:
  assumes ok: "ring_ok r" and s: "start \<le> ctail_offset r" and e: "rb_tail r \<le> unat e + 1" "unat e < 2 ^ 62"
  obtains r' where "ring_buf_cpop_range r start e cleanse = Inr r'" "ring_ok r'"
    "rb_tail r' = unat e + 1" "rb_head r' = max (rb_head r) (unat e + 1)" "rb_alloc r' = rb_alloc r"
    "ring_bytes r' = drop (unat e + 1 - rb_tail r) (ring_bytes r)"
    "\<And>j. cleanse \<Longrightarrow> rb_tail r < unat e \<Longrightarrow> rb_tail r \<le> j \<Longrightarrow> j < min (unat e + 1) (rb_head r) \<Longrightarrow> ring_at r' j = 0"
proof -
  let ?c = "cleanse \<and> rb_alloc r > 0 \<and> e > ctail_offset r"
  have bounds: "rb_tail r \<le> rb_head r" "rb_head r \<le> rb_tail r + rb_size r" "length (rb_start r) = rb_size r"
    "rb_size r < 2 ^ 63" "rb_head r \<le> 2 ^ 62"
    using ok by (auto simp: ring_ok_def)
  obtain mem where mem: "(if ?c then ring_buf_cleanse r e else Inr (rb_start r)) = Inr mem" "length mem = rb_size r"
    "\<And>j. min (unat e + 1) (rb_head r) \<le> j \<Longrightarrow> j < rb_head r \<Longrightarrow>
      mem ! (j mod rb_size r) = rb_start r ! (j mod rb_size r)"
    "\<And>j. ?c \<Longrightarrow> rb_tail r \<le> j \<Longrightarrow> j < min (unat e + 1) (rb_head r) \<Longrightarrow> mem ! (j mod rb_size r) = 0"
  proof (cases ?c)
    case True
    then have "0 < rb_size r" "rb_tail r < unat e"
      by (auto simp: word_less_nat_alt)
    from ring_buf_cleanse_spec [OF ok this e(2)] obtain mem where
      "ring_buf_cleanse r e = Inr mem" "length mem = rb_size r"
      "\<And>j. rb_tail r \<le> j \<Longrightarrow> j < min (unat e + 1) (rb_head r) \<Longrightarrow> mem ! (j mod rb_size r) = 0"
      "\<And>j. min (unat e + 1) (rb_head r) \<le> j \<Longrightarrow> j < rb_tail r + rb_size r \<Longrightarrow>
        mem ! (j mod rb_size r) = rb_start r ! (j mod rb_size r)"
      by blast
    with that [of mem] True bounds(2) show ?thesis
      by simp
  next
    case False
    with that [of "rb_start r"] bounds(3) show ?thesis
      by auto
  qed
  define r' where "r' = r\<lparr>rb_start := mem, ctail_offset := e + 1,
    head_offset := (if head_offset r < e + 1 then e + 1 else head_offset r)\<rparr>"
  have e1: "unat (e + 1) = unat e + 1"
    using e(2) by (simp add: unat_add_no_overflow)
  have res: "ring_buf_cpop_range r start e cleanse = Inr r'"
    using s e(2) mem(1) by (auto simp: ring_buf_cpop_range_def r'_def not_le word_less_nat_alt word_le_nat_alt)
  have dims: "rb_tail r' = unat e + 1" "rb_head r' = max (rb_head r) (unat e + 1)" "rb_alloc r' = rb_alloc r"
    by (auto simp: r'_def e1 word_less_nat_alt)
  have ok': "ring_ok r'"
    using e(1,2) bounds mem(2) dims by (auto simp: ring_ok_def) (simp add: r'_def)
  have "ring_bytes r' = drop (unat e + 1 - rb_tail r) (ring_bytes r)"
  proof (rule nth_equalityI)
    fix i assume "i < length (ring_bytes r')"
    then show "ring_bytes r' ! i = drop (unat e + 1 - rb_tail r) (ring_bytes r) ! i"
      using mem(3) [of "unat e + 1 + i"] dims e bounds(1)
      by (auto simp: nth_ring_bytes ring_at_def) (simp add: r'_def)
  qed (use dims e bounds(1) in auto)
  moreover have "ring_at r' j = 0" if "cleanse" "rb_tail r < unat e" "rb_tail r \<le> j" "j < min (unat e + 1) (rb_head r)" for j
  proof -
    have "rb_alloc r > 0"
      using that bounds(2) by (auto simp: word_gt_0 intro: ccontr)
    with that mem(4) [of j] show ?thesis
      by (simp add: ring_at_def r'_def word_less_nat_alt)
  qed
  ultimately show ?thesis
    using that [of r'] res ok' dims by blast
qed

section \<open>Writing at an offset\<close>

text \<open>What a write of \<open>buf\<close> at logical offset \<open>k\<close> makes of \<open>r\<close>.\<close>

definition ring_written :: "ring_buf \<Rightarrow> nat \<Rightarrow> bytes \<Rightarrow> ring_buf \<Rightarrow> bool" where
  "ring_written r k buf r' \<longleftrightarrow>
     rb_alloc r' = rb_alloc r \<and> ctail_offset r' = ctail_offset r \<and> length (rb_start r') = rb_size r
     \<and> rb_head r' = (if buf = [] then rb_head r else max (rb_head r) (k + length buf))
     \<and> (\<forall>j. rb_tail r \<le> j \<longrightarrow> j < rb_tail r + rb_size r \<longrightarrow>
          ring_at r' j = (if k \<le> j \<and> j < k + length buf then buf ! (j - k) else ring_at r j))"

lemma ring_written_ok:
  assumes "ring_ok r" and "ring_written r k buf r'"
    and "k + length buf \<le> rb_tail r + rb_size r" and "k + length buf \<le> 2 ^ 62"
  shows "ring_ok r'"
  using assms by (auto simp: ring_ok_def ring_written_def)

lemma write_loop_unfold:
  assumes "rb_alloc r \<noteq> 0" and "buf \<noteq> []" and "length buf < 2 ^ 64"
    and n: "n = min (length buf) (rb_size r - unat off mod rb_size r)"
  shows "ring_buf_write_loop (Suc k) r off buf =
    res_bind (memcpy_at (rb_start r) (unat off mod rb_size r) (take n buf)) (\<lambda>mem.
      ring_buf_write_loop k
        (r\<lparr>rb_start := mem, head_offset := max (head_offset r) (off + of_nat n)\<rparr>)
        (off + of_nat n) (drop n buf))"
proof -
  let ?l = "if u64_len buf < rb_alloc r - off mod rb_alloc r then u64_len buf else rb_alloc r - off mod rb_alloc r"
  have l: "unat ?l = n"
    using chunk_fits [of "rb_alloc r" off] assms
    by (auto simp: word_less_nat_alt u64_len_nat unat_mod unat_gt_0 min_def)
  note lw = unat_eqD [OF l]
  have lm: "unat (of_nat n :: u64) = n"
    using l unfolding lw .
  have pos: "u64_len buf > 0"
    using assms(2,3) by (simp add: word_less_nat_alt u64_len_nat)
  have upd: "(if head_offset (r\<lparr>rb_start := mem\<rparr>) < off + of_nat n
      then r\<lparr>rb_start := mem, head_offset := off + of_nat n\<rparr> else r\<lparr>rb_start := mem\<rparr>)
    = r\<lparr>rb_start := mem, head_offset := max (head_offset r) (off + of_nat n)\<rparr>" for mem
    by (auto simp: max_def)
  show ?thesis
    using assms(1) pos upd by (simp only: ring_buf_write_loop.simps Let_def lw lm unat_mod
      simp_thms if_True if_False)
qed

lemma write_loop_done: "ring_buf_write_loop k r off [] = Inr r"
  by (cases k) (simp_all add: u64_len_def)

lemma write_loop_spec:
  assumes ok: "ring_ok r" and lo: "rb_tail r \<le> unat off" and hi: "unat off + length buf \<le> rb_tail r + rb_size r"
    and max: "unat off + length buf \<le> 2 ^ 62"
  obtains r' where "ring_buf_write_loop 2 r off buf = Inr r'" "ring_written r (unat off) buf r'"
proof (cases "buf = []")
  case True
  then show ?thesis
    using ok by (intro that [of r]) (auto simp: write_loop_done ring_written_def ring_ok_def)
next
  case False
  then have "0 < length buf"
    by simp
  then have sz: "0 < rb_size r" "length (rb_start r) = rb_size r" "length buf \<le> rb_size r"
    using lo hi ok by (linarith, simp add: ring_ok_def, linarith)
  then have nz: "rb_alloc r \<noteq> 0"
    by auto
  let ?k = "unat off mod rb_size r"
  define n where "n = min (length buf) (rb_size r - ?k)"
  have len: "length buf < 2 ^ 64"
    using max by simp
  have k: "?k < rb_size r"
    using sz by simp
  have adv: "unat (off + of_nat (length buf)) = unat off + length buf" "unat (off + of_nat n) = unat off + n"
    using max by (simp_all add: unat_add_no_overflow unat_of_nat n_def)
  note step = write_loop_unfold [OF nz False len n_def]
  show ?thesis
  proof (cases "length buf \<le> rb_size r - ?k")
    case True
    then have n: "n = length buf" "?k + length buf \<le> rb_size r"
      using k by (auto simp: n_def)
    obtain mem where mem: "memcpy_at (rb_start r) ?k buf = Inr mem" "length mem = rb_size r"
      "\<forall>j. unat off \<le> j \<longrightarrow> j < unat off + length buf \<longrightarrow> mem ! (j mod rb_size r) = buf ! (j - unat off)"
      "\<forall>j. j < unat off \<longrightarrow> unat off + length buf \<le> j + rb_size r \<longrightarrow> mem ! (j mod rb_size r) = rb_start r ! (j mod rb_size r)"
      "\<forall>j. unat off + length buf \<le> j \<longrightarrow> j < unat off + rb_size r \<longrightarrow> mem ! (j mod rb_size r) = rb_start r ! (j mod rb_size r)"
      by (rule memcpy_chunk [OF sz(1,2) n(2)]) simp
    let ?r = "r\<lparr>rb_start := mem, head_offset := max (head_offset r) (off + of_nat n)\<rparr>"
    have "ring_buf_write_loop 2 r off buf = Inr ?r"
      unfolding numeral_2_eq_2 step by (simp add: n mem(1) write_loop_done)
    moreover have "ring_written r (unat off) buf ?r"
      using mem lo hi adv False by (auto simp: ring_written_def ring_at_def n(1) max_def word_le_nat_alt)
    ultimately show ?thesis
      by (rule that)
  next
    case wrap: False
    then have n: "n = rb_size r - ?k" "rb_size r - ?k < length buf" "(unat off + n) mod rb_size r = 0"
      using wrap_point [OF sz(1)] by (auto simp: n_def)
    obtain mem1 mem where mem: "memcpy_at (rb_start r) ?k (take n buf) = Inr mem1"
      "memcpy_at mem1 0 (drop n buf) = Inr mem" "length mem1 = rb_size r" "length mem = rb_size r"
      "\<forall>j. unat off \<le> j \<longrightarrow> j < unat off + length buf \<longrightarrow> mem ! (j mod rb_size r) = buf ! (j - unat off)"
      "\<forall>j. j < unat off \<longrightarrow> unat off + length buf \<le> j + rb_size r \<longrightarrow> mem ! (j mod rb_size r) = rb_start r ! (j mod rb_size r)"
      "\<forall>j. unat off + length buf \<le> j \<longrightarrow> j < unat off + rb_size r \<longrightarrow> mem ! (j mod rb_size r) = rb_start r ! (j mod rb_size r)"
      unfolding n(1) by (rule wrapped_write [OF sz n(2)])
    let ?r1 = "r\<lparr>rb_start := mem1, head_offset := max (head_offset r) (off + of_nat n)\<rparr>"
    let ?r = "r\<lparr>rb_start := mem, head_offset := max (max (head_offset r) (off + of_nat n)) (off + of_nat (length buf))\<rparr>"
    have rest: "drop n buf \<noteq> []" "length (drop n buf) < 2 ^ 64"
      using n len by auto
    have n2: "length (drop n buf) = min (length (drop n buf)) (rb_size ?r1 - unat (off + of_nat n) mod rb_size ?r1)"
      using n(3) sz(3) by (simp add: adv)
    have off2: "off + of_nat n + of_nat (length (drop n buf)) = off + of_nat (length buf)"
      using n by (simp add: of_nat_diff)
    have "ring_buf_write_loop (Suc 0) ?r1 (off + of_nat n) (drop n buf) = Inr ?r"
      using write_loop_unfold [OF _ rest n2, of 0] nz mem(2) n(3)
      by (simp add: adv off2 [simplified] write_loop_done add.assoc)
    then have "ring_buf_write_loop 2 r off buf = Inr ?r"
      unfolding numeral_2_eq_2 step by (simp add: mem(1))
    moreover have "ring_written r (unat off) buf ?r"
      using mem lo hi adv False n by (auto simp: ring_written_def ring_at_def max_def word_le_nat_alt)
    ultimately show ?thesis
      by (rule that)
  qed
qed

lemma ring_buf_write_at_spec:
  assumes ok: "ring_ok r" and max: "unat off + length buf \<le> 2 ^ 62"
  obtains "rb_tail r \<le> unat off" "unat off + length buf \<le> rb_tail r + rb_size r" "rb_head r + length buf \<le> 2 ^ 62"
      "\<exists>r'. ring_buf_write_at r off buf = Inr (r', True) \<and> ring_ok r' \<and> ring_written r (unat off) buf r'"
  | "unat off < rb_tail r \<or> rb_tail r + rb_size r < unat off + length buf \<or> 2 ^ 62 < rb_head r + length buf"
      "ring_buf_write_at r off buf = Inr (r, False)"
proof -
  have b: "rb_head r \<le> 2 ^ 62" "rb_size r < 2 ^ 63" "rb_head r \<le> rb_tail r + rb_size r" "rb_tail r \<le> rb_head r"
    using ok by (auto simp: ring_ok_def)
  have len: "unat (u64_len buf) = length buf"
    using max by (intro u64_len_nat) simp
  have adds: "\<not> snd (safe_add off (u64_len buf))" "\<not> snd (safe_add (head_offset r) (ring_buf_avail r))"
    "\<not> snd (safe_add (head_offset r) (u64_len buf))"
    using max b by (auto simp: snd_safe_add len ring_avail_nat [OF ok])
  have fsts: "unat (fst (safe_add off (u64_len buf))) = unat off + length buf"
    "unat (fst (safe_add (head_offset r) (ring_buf_avail r))) = rb_tail r + rb_size r"
    "unat (fst (safe_add (head_offset r) (u64_len buf))) = rb_head r + length buf"
    using b by (auto simp: fst_safe_add adds len ring_avail_nat [OF ok])
  have def: "ring_buf_write_at r off buf =
      (if unat off < rb_tail r \<or> rb_tail r + rb_size r < unat off + length buf \<or> 2 ^ 62 < rb_head r + length buf
       then Inr (r, False) else res_bind (ring_buf_write_loop 2 r off buf) (\<lambda>r'. Inr (r', True)))"
    using adds fsts by (simp add: ring_buf_write_at_def case_prod_unfold word_less_nat_alt)
  show ?thesis
  proof (cases "unat off < rb_tail r \<or> rb_tail r + rb_size r < unat off + length buf \<or> 2 ^ 62 < rb_head r + length buf")
    case True
    with def that(2) show ?thesis
      by simp
  next
    case False
    then have c: "rb_tail r \<le> unat off" "unat off + length buf \<le> rb_tail r + rb_size r" "rb_head r + length buf \<le> 2 ^ 62"
      by auto
    from write_loop_spec [OF ok c(1,2) max] obtain r' where "ring_buf_write_loop 2 r off buf = Inr r'"
      "ring_written r (unat off) buf r'" .
    with def False that(1) [OF c] ring_written_ok [OF ok _ c(2) max] show ?thesis
      by auto
  qed
qed

section \<open>The interface to stream code\<close>

text \<open>
  A store of a byte stream that grows at one end and is culled at the other: the retained bytes are
  \<open>content\<close>, the first of them has the logical offset \<open>base\<close>. Its clients rely on these laws only.
\<close>

locale byte_stream_store =
  fixes ok :: "'r \<Rightarrow> bool" and base :: "'r \<Rightarrow> nat" and content :: "'r \<Rightarrow> bytes" and room :: "'r \<Rightarrow> nat"
    and push :: "'r \<Rightarrow> bytes \<Rightarrow> c_fault + 'r \<times> u64"
    and get :: "'r \<Rightarrow> u64 \<Rightarrow> (bytes \<times> u64) option"
    and cull :: "'r \<Rightarrow> u64 \<Rightarrow> u64 \<Rightarrow> bool \<Rightarrow> c_fault + 'r"
  assumes push_law: "ok r \<Longrightarrow> length buf < 2 ^ 64 \<Longrightarrow>
      \<exists>r'. push r buf = Inr (r', of_nat (min (length buf) (room r))) \<and> ok r' \<and> base r' = base r
        \<and> content r' = content r @ take (room r) buf"
    and get_law: "ok r \<Longrightarrow> base r \<le> unat off \<Longrightarrow> unat off \<le> base r + length (content r) \<Longrightarrow>
      \<exists>src l. get r off = Some (src, l) \<and> unat l = length src
        \<and> src = take (length src) (drop (unat off - base r) (content r))
        \<and> (src = [] \<longrightarrow> unat off = base r + length (content r))"
    and get_outside: "ok r \<Longrightarrow> unat off < base r \<or> base r + length (content r) < unat off \<Longrightarrow> get r off = None"
    and cull_law: "ok r \<Longrightarrow> unat s \<le> base r \<Longrightarrow> base r \<le> unat e + 1 \<Longrightarrow> unat e < base r + length (content r) \<Longrightarrow>
      \<exists>r'. cull r s e c = Inr r' \<and> ok r' \<and> base r' = unat e + 1
        \<and> content r' = drop (unat e + 1 - base r) (content r)"
    and room_bound: "ok r \<Longrightarrow> room r < 2 ^ 64"
begin

text \<open>The store retains a suffix of the stream \<open>S\<close> accepted so far, at its own offsets.\<close>

definition retains :: "'r \<Rightarrow> bytes \<Rightarrow> bool" where
  "retains r S \<longleftrightarrow> ok r \<and> base r + length (content r) = length S \<and> content r = drop (base r) S"

lemma push_retains:
  assumes "retains r S" and "length buf < 2 ^ 64" and "push r buf = Inr (r', n)"
  shows "retains r' (S @ take (unat n) buf)"
proof -
  from assms(1) have ok: "ok r" and S: "base r + length (content r) = length S" "content r = drop (base r) S"
    by (auto simp: retains_def)
  from push_law [OF ok assms(2)] assms(3) have r': "n = of_nat (min (length buf) (room r))" "ok r'"
    "base r' = base r" "content r' = content r @ take (room r) buf"
    by auto
  from room_bound [OF ok] have "unat n = min (length buf) (room r)"
    unfolding r'(1) by (simp add: unat_of_nat)
  with r' S show ?thesis
    by (auto simp: retains_def min_def)
qed

lemma cull_retains:
  assumes "retains r S" and "unat s \<le> base r" and "base r \<le> unat e + 1" and "unat e < length S"
    and "cull r s e c = Inr r'"
  shows "retains r' S"
  using assms cull_law [of r s e c] by (auto simp: retains_def)

lemma get_retained:
  assumes "retains r S" and "get r off = Some (src, l)"
  shows "src = take (length src) (drop (unat off) S) \<and> unat l = length src
    \<and> (src = [] \<longrightarrow> unat off = length S)"
proof -
  from assms(1) have ok: "ok r" and S: "base r + length (content r) = length S" "content r = drop (base r) S"
    by (auto simp: retains_def)
  from get_outside [OF ok, of off] assms(2) have in_range: "base r \<le> unat off" "unat off \<le> base r + length (content r)"
    by force+
  from get_law [OF ok this] assms(2) have "src = take (length src) (drop (unat off - base r) (content r))"
    "unat l = length src" "src = [] \<longrightarrow> unat off = base r + length (content r)"
    by auto
  with S in_range show ?thesis
    by simp
qed

end

lemma get_buf_at_nonempty:
  "min a (b - k mod b) = 0 \<Longrightarrow> a \<le> b \<Longrightarrow> a = 0" for a b k :: nat
  by (metis diff_is_0_eq le_zero_eq min_def mod_less_divisor not_gr_zero not_less zero_less_diff)

interpretation rbs: byte_stream_store ring_ok rb_tail ring_bytes ring_room ring_buf_push ring_buf_get_buf_at
  ring_buf_cpop_range
proof (unfold_locales, goal_cases)
  case (1 r buf)
  show ?case
    by (rule ring_buf_push_spec [OF 1]) simp
next
  case (2 r off)
  then have "unat off \<le> rb_head r"
    by (simp add: ring_ok_def)
  note spec = get_buf_at_spec [OF 2(1,2) this]
  obtain src l where *: "ring_buf_get_buf_at r off = Some (src, l)" "unat l = length src"
    "length src = min (rb_head r - unat off) (rb_size r - unat off mod rb_size r)"
    "src = take (length src) (drop (unat off - rb_tail r) (ring_bytes r))"
    by (rule spec)
  have b: "rb_head r - unat off \<le> rb_size r" "rb_tail r + length (ring_bytes r) = rb_head r"
    using 2 by (auto simp: ring_ok_def)
  have "src = [] \<longrightarrow> unat off = rb_tail r + length (ring_bytes r)"
  proof
    assume "src = []"
    then have "min (rb_head r - unat off) (rb_size r - unat off mod rb_size r) = 0"
      using *(3) by (metis list.size(3))
    from get_buf_at_nonempty [OF this b(1)] b(2) 2(3) show "unat off = rb_tail r + length (ring_bytes r)"
      by linarith
  qed
  with *(1,2,4) show ?case
    by blast
next
  case (3 r off)
  then show ?case
    by (intro get_buf_at_outside) (auto simp: ring_ok_def)
next
  case (4 r s e c)
  then have "s \<le> ctail_offset r" "unat e < 2 ^ 62"
    by (auto simp: word_le_nat_alt ring_ok_def)
  note spec = cpop_range_spec [OF 4(1) this(1) 4(3) this(2)]
  show ?case
    by (rule spec [of c]) simp
next
  case (5 r)
  then show ?case
    by (simp add: ring_room_def)
qed

section \<open>Properties\<close>

text \<open>
  The states of a ring buffer and the stream of bytes it has accepted, as pushes, culls of retained
  bytes and resizes are applied in any order.
\<close>

inductive ring_stream :: "ring_buf \<Rightarrow> bytes \<Rightarrow> bool" where
  init: "ring_stream ring_buf_init []"
| push: "ring_stream r S \<Longrightarrow> length buf < 2 ^ 64 \<Longrightarrow> ring_buf_push r buf = Inr (r', n) \<Longrightarrow>
    ring_stream r' (S @ take (unat n) buf)"
| cull: "ring_stream r S \<Longrightarrow> start \<le> ctail_offset r \<Longrightarrow> ctail_offset r \<le> e + 1 \<Longrightarrow> e < head_offset r \<Longrightarrow>
    ring_buf_cpop_range r start e c = Inr r' \<Longrightarrow> ring_stream r' S"
| resize: "ring_stream r S \<Longrightarrow> n < 2 ^ 63 \<Longrightarrow> (case blk of None \<Rightarrow> True | Some b \<Rightarrow> length b = unat n) \<Longrightarrow>
    ring_buf_resize blk r n c = Inr (r', ok) \<Longrightarrow> ring_stream r' S"

lemma ring_retains_iff:
  "rbs.retains r S \<longleftrightarrow> ring_ok r \<and> rb_head r = length S \<and> ring_bytes r = drop (rb_tail r) S"
  unfolding rbs.retains_def by (auto simp: ring_ok_def)

lemma ring_stream_retains: "ring_stream r S \<Longrightarrow> rbs.retains r S"
proof (induction rule: ring_stream.induct)
  case init
  show ?case
    unfolding ring_retains_iff by (simp add: ring_bytes_def) (simp add: ring_buf_init_def)
next
  case push
  then show ?case
    by (rule_tac rbs.push_retains)
next
  case (cull r S start e c r')
  then have "rb_head r = length S" "rb_head r \<le> 2 ^ 62"
    unfolding ring_retains_iff by (auto simp: ring_ok_def)
  moreover have "unat (e + 1) = unat e + 1"
    using cull.hyps(4) by (rule unat_succ)
  ultimately show ?case
    using cull by (intro rbs.cull_retains [OF cull.IH _ _ _ cull.hyps(5)]) (auto simp: word_le_nat_alt word_less_nat_alt)
next
  case (resize r S n blk c r' b)
  have n: "unat n < 2 ^ 63" and blk: "\<And>b. blk = Some b \<Longrightarrow> length b = unat n"
    using resize.hyps(2,3) by (auto simp: word_less_nat_alt)
  from resize.IH have r: "ring_ok r"
    by (simp add: rbs.retains_def)
  have same: "rbs.retains x S" if "ring_ok x" "ring_bytes x = ring_bytes r" "ctail_offset x = ctail_offset r" for x
    using that resize.IH unfolding rbs.retains_def by simp
  from r show ?case
    by (rule ring_buf_resize_spec [OF _ n blk, where cleanse = c]) (use resize.hyps(4) r same in auto)
qed

text \<open>
  Property C13. In every state a ring buffer reaches, reading at a retained stream offset returns the
  bytes the stream has at that offset, at least one of them unless the offset is the end of the
  stream, across wrap-around, culling and resizing; the number of bytes accepted is the head offset.
\<close>

theorem ring_buf_reads_the_stream:
  assumes "ring_stream r S"
  shows "ring_ok r \<and> rb_head r = length S
    \<and> (rb_tail r \<le> unat off \<and> unat off \<le> length S \<longrightarrow>
        (\<exists>src l. ring_buf_get_buf_at r off = Some (src, l) \<and> unat l = length src
          \<and> src = take (length src) (drop (unat off) S) \<and> (src = [] \<longrightarrow> unat off = length S)))"
proof -
  have ret: "rbs.retains r S"
    using assms by (rule ring_stream_retains)
  then have "ring_ok r" "rb_head r = length S" "rb_tail r + length (ring_bytes r) = length S"
    unfolding ring_retains_iff by (auto simp: ring_ok_def)
  moreover from this rbs.get_law [of r off] rbs.get_retained [OF ret, of off]
  have "\<exists>src l. ring_buf_get_buf_at r off = Some (src, l) \<and> unat l = length src
          \<and> src = take (length src) (drop (unat off) S) \<and> (src = [] \<longrightarrow> unat off = length S)"
    if "rb_tail r \<le> unat off" "unat off \<le> length S"
    using that by metis
  ultimately show ?thesis
    by blast
qed

lemma wrapped_ring_example:
  "ring_stream \<lparr>rb_start = [5, 2, 3, 4], rb_alloc = 4, head_offset = 5, ctail_offset = 2\<rparr> [1, 2, 3, 4, 5]"
proof -
  let ?r = "\<lambda>m h t. \<lparr>rb_start = m, rb_alloc = 4, head_offset = h, ctail_offset = t\<rparr>"
  have "ring_buf_resize (Some [0, 0, 0, 0]) ring_buf_init 4 False = Inr (?r [0, 0, 0, 0] 0 0, True)"
    by code_simp
  from ring_stream.resize [OF ring_stream.init _ _ this] have "ring_stream (?r [0, 0, 0, 0] 0 0) []"
    by simp
  moreover have "ring_buf_push (?r [0, 0, 0, 0] 0 0) [1, 2, 3] = Inr (?r [1, 2, 3, 0] 3 0, 3)"
    by code_simp
  ultimately have "ring_stream (?r [1, 2, 3, 0] 3 0) ([] @ take (unat (3 :: u64)) [1, 2, 3])"
    by (rule_tac ring_stream.push) simp_all
  then have "ring_stream (?r [1, 2, 3, 0] 3 0) [1, 2, 3]"
    by simp
  moreover have "ring_buf_cpop_range (?r [1, 2, 3, 0] 3 0) 0 1 False = Inr (?r [1, 2, 3, 0] 3 2)"
    by code_simp
  ultimately have "ring_stream (?r [1, 2, 3, 0] 3 2) [1, 2, 3]"
    by (rule_tac ring_stream.cull) simp_all
  moreover have "ring_buf_push (?r [1, 2, 3, 0] 3 2) [4, 5] = Inr (?r [5, 2, 3, 4] 5 2, 2)"
    by code_simp
  ultimately have "ring_stream (?r [5, 2, 3, 4] 5 2) ([1, 2, 3] @ take (unat (2 :: u64)) [4, 5])"
    by (rule_tac ring_stream.push) simp_all
  then show ?thesis
    by simp
qed

theorem ring_buf_reads_the_stream_witness:
  "\<exists>src l. ring_buf_get_buf_at \<lparr>rb_start = [5, 2, 3, 4], rb_alloc = 4, head_offset = 5, ctail_offset = 2\<rparr> 2 = Some (src, l)
     \<and> src = take (length src) [3, 4, 5] \<and> src \<noteq> []"
  using ring_buf_reads_the_stream [OF wrapped_ring_example, of 2] by auto

text \<open>
  A push never leaves the allocation, accepts as many bytes as there is room for (in the
  buffer and below the offset limit), reports that number and appends exactly those bytes.
\<close>

theorem ring_buf_push_appends:
  assumes "ring_ok r" and "length buf < 2 ^ 64"
  shows "\<exists>r'. ring_buf_push r buf = Inr (r', of_nat (min (length buf) (ring_room r))) \<and> ring_ok r'
    \<and> ring_bytes r' = ring_bytes r @ take (ring_room r) buf \<and> ctail_offset r' = ctail_offset r"
  by (rule ring_buf_push_spec [OF assms]) simp

theorem ring_buf_push_appends_witness:
  "\<exists>r'. ring_buf_push \<lparr>rb_start = [1, 2, 3, 0], rb_alloc = 4, head_offset = 3, ctail_offset = 2\<rparr> [4, 5, 6, 7] = Inr (r', 3)
     \<and> ring_ok r' \<and> ring_bytes r' = [3, 4, 5, 6]"
  using ring_buf_push_appends [of "\<lparr>rb_start = [1, 2, 3, 0], rb_alloc = 4, head_offset = 3, ctail_offset = 2\<rparr>" "[4, 5, 6, 7]"]
  by (auto simp: ring_ok_def ring_room_def ring_bytes_def ring_at_def)

text \<open>
  A write at a logical offset succeeds exactly when the range lies between the cull tail
  and the end of the allocation's window and the head has room below the offset limit; it then
  changes the bytes of that range only, and a refused write changes nothing. No write leaves the
  allocation.
\<close>

theorem ring_buf_write_at_exact:
  assumes "ring_ok r" and "unat off + length buf \<le> 2 ^ 62"
  shows "if rb_tail r \<le> unat off \<and> unat off + length buf \<le> rb_tail r + rb_size r \<and> rb_head r + length buf \<le> 2 ^ 62
    then \<exists>r'. ring_buf_write_at r off buf = Inr (r', True) \<and> ring_ok r' \<and> ring_written r (unat off) buf r'
    else ring_buf_write_at r off buf = Inr (r, False)"
  by (rule ring_buf_write_at_spec [OF assms]) auto

theorem ring_buf_write_at_exact_witness:
  "ring_buf_write_at \<lparr>rb_start = [1, 2, 3, 0], rb_alloc = 4, head_offset = 3, ctail_offset = 2\<rparr> 5 [7, 8]
    = Inr (\<lparr>rb_start = [1, 2, 3, 0], rb_alloc = 4, head_offset = 3, ctail_offset = 2\<rparr>, False)"
  using ring_buf_write_at_exact [of "\<lparr>rb_start = [1, 2, 3, 0], rb_alloc = 4, head_offset = 3, ctail_offset = 2\<rparr>" 5 "[7, 8]"]
  by (simp add: ring_ok_def)

text \<open>
  A cull that is asked to cleanse zeroes what it releases, except when it releases a
  single byte: culling offset 0 of a buffer whose first byte is 7 leaves the 7 in memory, while
  culling offsets 0 and 1 clears both.
\<close>

theorem ring_buf_cpop_single_byte_not_cleansed:
  "ring_buf_cpop_range \<lparr>rb_start = [7, 8, 9], rb_alloc = 3, head_offset = 3, ctail_offset = 0\<rparr> 0 0 True
     = Inr \<lparr>rb_start = [7, 8, 9], rb_alloc = 3, head_offset = 3, ctail_offset = 1\<rparr>
   \<and> ring_buf_cpop_range \<lparr>rb_start = [7, 8, 9], rb_alloc = 3, head_offset = 3, ctail_offset = 0\<rparr> 0 1 True
     = Inr \<lparr>rb_start = [0, 0, 9], rb_alloc = 3, head_offset = 3, ctail_offset = 2\<rparr>"
  by (rule conjI; code_simp)

end
