(* ===== verification/Sstream.thy ===== *)
theory Sstream
  imports Uint_Set Ring_Buf
begin

text \<open>
  \<^verbatim>\<open>ssl/quic/quic_sstream.c\<close>: the QUIC send stream. A send stream buffers the bytes the application
  wrote in a ring buffer until the peer has acknowledged them, and keeps two integer sets: the bytes
  to be sent (\<^verbatim>\<open>new_set\<close>) and the bytes acknowledged (\<^verbatim>\<open>acked_set\<close>). An iovec is the span of bytes it
  points to. A boolean \<^verbatim>\<open>mem\<close> argument says whether the allocation a set insertion or removal may
  need succeeds.
\<close>

section \<open>The stream object\<close>

record quic_sstream =
  ss_ring :: ring_buf
  new_set :: uint_set
  acked_set :: uint_set
  have_final_size :: bool
  sent_final_size :: bool
  acked_final_size :: bool
  ss_cleanse :: bool

record stream_frame_hdr =
  fr_offset :: u64
  fr_len :: u64
  fr_is_fin :: bool

definition ossl_quic_sstream_new :: "bool \<Rightarrow> bytes option \<Rightarrow> u64 \<Rightarrow> c_fault + quic_sstream option" where
  "ossl_quic_sstream_new mem blk init_buf_size =
     (if \<not> mem then Inr None
      else
        res_bind (ring_buf_resize blk ring_buf_init init_buf_size False) (\<lambda>(r, ok).
          if \<not> ok then Inr None
          else Inr (Some \<lparr>ss_ring = r, new_set = ossl_uint_set_init, acked_set = ossl_uint_set_init,
            have_final_size = False, sent_final_size = False, acked_final_size = False,
            ss_cleanse = False\<rparr>)))"

text \<open>
  The loop of \<^verbatim>\<open>ossl_quic_sstream_get_stream_frame\<close> over the ring buffer's contiguous spans; writing
  past the caller's \<^verbatim>\<open>num_iov\<close> iovecs is a fault. \<^term>\<open>None\<close> is a return value of 0.
\<close>

function sstream_frame_loop ::
    "ring_buf \<Rightarrow> u64 \<Rightarrow> u64 \<Rightarrow> nat \<Rightarrow> u64 \<Rightarrow> bytes list \<Rightarrow> c_fault + (u64 \<times> bytes list) option" where
  "sstream_frame_loop r start max_len num_iov total_len iov =
     (if total_len \<ge> max_len then Inr (Some (total_len, iov))
      else
        case ring_buf_get_buf_at r (start + total_len) of
          None \<Rightarrow> Inr None
        | Some (src, src_len) \<Rightarrow>
            if src_len = 0 then Inr (Some (total_len, iov))
            else if length iov \<ge> num_iov then Inl OutOfBounds
            else
              let src_len = (if total_len + src_len > max_len then max_len - total_len else src_len)
              in sstream_frame_loop r start max_len num_iov (total_len + src_len) (iov @ [take (unat src_len) src]))"
  by pat_completeness auto
termination
  by (relation "measure (\<lambda>(r, s, m, num_iov, t, iov). num_iov - length iov)") auto

declare sstream_frame_loop.simps [simp del]

definition ossl_quic_sstream_get_stream_frame ::
    "quic_sstream \<Rightarrow> nat \<Rightarrow> nat \<Rightarrow> c_fault + (stream_frame_hdr \<times> bytes list) option" where
  "ossl_quic_sstream_get_stream_frame qss skip num_iov =
     (if num_iov < 2 then Inr None
      else
        case drop skip (new_set qss) of
          [] \<Rightarrow>
            if length (new_set qss) < skip then Inr None
            else if \<not> have_final_size qss \<or> sent_final_size qss then Inr None
            else Inr (Some (\<lparr>fr_offset = head_offset (ss_ring qss), fr_len = 0, fr_is_fin = True\<rparr>, []))
        | rg # _ \<Rightarrow>
            let max_len = rend rg - rstart rg + 1
            in res_bind (sstream_frame_loop (ss_ring qss) (rstart rg) max_len num_iov 0 []) (\<lambda>res.
                 case res of
                   None \<Rightarrow> Inr None
                 | Some (total_len, iov) \<Rightarrow>
                     Inr (Some
                       (\<lparr>fr_offset = rstart rg, fr_len = total_len,
                         fr_is_fin = (have_final_size qss \<and> rstart rg + total_len = head_offset (ss_ring qss))\<rparr>,
                        iov))))"

definition ossl_quic_sstream_has_pending :: "quic_sstream \<Rightarrow> c_fault + bool" where
  "ossl_quic_sstream_has_pending qss =
     res_bind (ossl_quic_sstream_get_stream_frame qss 0 2) (\<lambda>res. Inr (res \<noteq> None))"

definition ossl_quic_sstream_get_cur_size :: "quic_sstream \<Rightarrow> u64" where
  "ossl_quic_sstream_get_cur_size qss = head_offset (ss_ring qss)"

definition ossl_quic_sstream_mark_transmitted ::
    "bool \<Rightarrow> quic_sstream \<Rightarrow> u64 \<Rightarrow> u64 \<Rightarrow> c_fault + quic_sstream \<times> bool" where
  "ossl_quic_sstream_mark_transmitted mem qss start end' =
     res_bind (ossl_uint_set_remove mem (new_set qss) \<lparr>rstart = start, rend = end'\<rparr>) (\<lambda>(s, ok).
       if \<not> ok then Inr (qss\<lparr>new_set := s\<rparr>, False) else Inr (qss\<lparr>new_set := s\<rparr>, True))"

definition ossl_quic_sstream_mark_transmitted_fin :: "quic_sstream \<Rightarrow> u64 \<Rightarrow> quic_sstream \<times> bool" where
  "ossl_quic_sstream_mark_transmitted_fin qss final_size =
     (if \<not> have_final_size qss \<or> final_size \<noteq> head_offset (ss_ring qss) then (qss, False)
      else (qss\<lparr>sent_final_size := True\<rparr>, True))"

definition ossl_quic_sstream_mark_lost ::
    "bool \<Rightarrow> quic_sstream \<Rightarrow> u64 \<Rightarrow> u64 \<Rightarrow> quic_sstream \<times> bool" where
  "ossl_quic_sstream_mark_lost mem qss start end' =
     (let (s, ok) = ossl_uint_set_insert mem (new_set qss) \<lparr>rstart = start, rend = end'\<rparr>
      in if \<not> ok then (qss\<lparr>new_set := s\<rparr>, False) else (qss\<lparr>new_set := s\<rparr>, True))"

definition ossl_quic_sstream_mark_lost_fin :: "quic_sstream \<Rightarrow> quic_sstream \<times> bool" where
  "ossl_quic_sstream_mark_lost_fin qss =
     (if acked_final_size qss then (qss, False) else (qss\<lparr>sent_final_size := False\<rparr>, True))"

definition qss_cull :: "quic_sstream \<Rightarrow> c_fault + quic_sstream" where
  "qss_cull qss =
     (case acked_set qss of
        [] \<Rightarrow> Inr qss
      | h # _ \<Rightarrow>
          res_bind (ring_buf_cpop_range (ss_ring qss) (rstart h) (rend h) (ss_cleanse qss)) (\<lambda>r.
            Inr (qss\<lparr>ss_ring := r\<rparr>)))"

definition ossl_quic_sstream_mark_acked ::
    "bool \<Rightarrow> quic_sstream \<Rightarrow> u64 \<Rightarrow> u64 \<Rightarrow> c_fault + quic_sstream \<times> bool" where
  "ossl_quic_sstream_mark_acked mem qss start end' =
     (let (s, ok) = ossl_uint_set_insert mem (acked_set qss) \<lparr>rstart = start, rend = end'\<rparr>
      in if \<not> ok then Inr (qss\<lparr>acked_set := s\<rparr>, False)
         else res_bind (qss_cull (qss\<lparr>acked_set := s\<rparr>)) (\<lambda>qss'. Inr (qss', True)))"

definition ossl_quic_sstream_mark_acked_fin :: "quic_sstream \<Rightarrow> quic_sstream \<times> bool" where
  "ossl_quic_sstream_mark_acked_fin qss =
     (if \<not> have_final_size qss then (qss, False) else (qss\<lparr>acked_final_size := True\<rparr>, True))"

definition ossl_quic_sstream_fin :: "quic_sstream \<Rightarrow> quic_sstream" where
  "ossl_quic_sstream_fin qss =
     (if have_final_size qss then qss else qss\<lparr>have_final_size := True\<rparr>)"

definition ossl_quic_sstream_get_final_size :: "quic_sstream \<Rightarrow> u64 option" where
  "ossl_quic_sstream_get_final_size qss =
     (if \<not> have_final_size qss then None else Some (head_offset (ss_ring qss)))"

function sstream_append_loop :: "ring_buf \<Rightarrow> bytes \<Rightarrow> u64 \<Rightarrow> c_fault + ring_buf \<times> u64" where
  "sstream_append_loop r buf consumed =
     (if buf = [] then Inr (r, consumed)
      else
        res_bind (ring_buf_push r buf) (\<lambda>(r', l).
          if l = 0 then Inr (r', consumed)
          else sstream_append_loop r' (drop (unat l) buf) (consumed + l)))"
  by pat_completeness auto
termination
  by (relation "measure (\<lambda>(r, buf, c). length buf)") (auto simp: unat_gt_0)

declare sstream_append_loop.simps [simp del]

text \<open>
  When the set insertion fails the ring buffer's header is restored; the bytes already copied into
  the allocation stay there.
\<close>

definition ossl_quic_sstream_append ::
    "bool \<Rightarrow> quic_sstream \<Rightarrow> bytes \<Rightarrow> c_fault + quic_sstream \<times> u64 \<times> bool" where
  "ossl_quic_sstream_append mem qss buf =
     (let old_ring_buf = ss_ring qss in
      if have_final_size qss then Inr (qss, 0, False)
      else
        res_bind (sstream_append_loop (ss_ring qss) buf 0) (\<lambda>(r, consumed).
          if consumed > 0 then
            let start = head_offset old_ring_buf;
                (s, ok) = ossl_uint_set_insert mem (new_set qss)
                  \<lparr>rstart = start, rend = start + consumed - 1\<rparr>
            in if \<not> ok
               then Inr (qss\<lparr>new_set := s, ss_ring := old_ring_buf\<lparr>rb_start := rb_start r\<rparr>\<rparr>, 0, False)
               else Inr (qss\<lparr>new_set := s, ss_ring := r\<rparr>, consumed, True)
          else Inr (qss\<lparr>ss_ring := r\<rparr>, consumed, True)))"

definition ossl_quic_sstream_set_buffer_size ::
    "bytes option \<Rightarrow> quic_sstream \<Rightarrow> u64 \<Rightarrow> c_fault + quic_sstream \<times> bool" where
  "ossl_quic_sstream_set_buffer_size blk qss num_bytes =
     res_bind (ring_buf_resize blk (ss_ring qss) num_bytes (ss_cleanse qss)) (\<lambda>(r, ok).
       Inr (qss\<lparr>ss_ring := r\<rparr>, ok))"

definition ossl_quic_sstream_get_buffer_size :: "quic_sstream \<Rightarrow> u64" where
  "ossl_quic_sstream_get_buffer_size qss = rb_alloc (ss_ring qss)"

definition ossl_quic_sstream_get_buffer_used :: "quic_sstream \<Rightarrow> u64" where
  "ossl_quic_sstream_get_buffer_used qss = ring_buf_used (ss_ring qss)"

definition ossl_quic_sstream_get_buffer_avail :: "quic_sstream \<Rightarrow> u64" where
  "ossl_quic_sstream_get_buffer_avail qss = ring_buf_avail (ss_ring qss)"

definition ossl_quic_sstream_is_totally_acked :: "quic_sstream \<Rightarrow> bool" where
  "ossl_quic_sstream_is_totally_acked qss =
     (if have_final_size qss \<and> \<not> acked_final_size qss then False
      else if ossl_quic_sstream_get_cur_size qss = 0 then True
      else
        case acked_set qss of
          [r] \<Rightarrow> rstart r = 0 \<and> rend r + 1 = head_offset (ss_ring qss)
        | _ \<Rightarrow> False)"

fun sstream_adjust_iov_loop :: "nat \<Rightarrow> nat \<Rightarrow> bytes list \<Rightarrow> bytes list" where
  "sstream_adjust_iov_loop len running [] = []"
| "sstream_adjust_iov_loop len running (v # iov) =
     (if running \<ge> len then take 0 v
      else if running + length v > len then take (len - running) v
      else v) # sstream_adjust_iov_loop len (running + length v) iov"

definition ossl_quic_sstream_adjust_iov :: "nat \<Rightarrow> bytes list \<Rightarrow> bytes list" where
  "ossl_quic_sstream_adjust_iov len iov = sstream_adjust_iov_loop len 0 iov"

definition ossl_quic_sstream_set_cleanse :: "quic_sstream \<Rightarrow> bool \<Rightarrow> quic_sstream" where
  "ossl_quic_sstream_set_cleanse qss cleanse = qss\<lparr>ss_cleanse := cleanse\<rparr>"

section \<open>Appending\<close>

lemma ring_head_grows:
  assumes "ring_ok r" and "ring_ok r'" and "ctail_offset r' = ctail_offset r" and "ring_bytes r' = ring_bytes r @ bs"
  shows "rb_head r' = rb_head r + length bs"
proof -
  have "rb_head r' - rb_tail r' = rb_head r - rb_tail r + length bs"
    using arg_cong [OF assms(4), of length] by simp
  moreover have "rb_tail r \<le> rb_head r" "rb_tail r' \<le> rb_head r'"
    using assms(1,2) by (auto simp: ring_ok_def)
  ultimately show ?thesis
    using assms(3) by simp
qed

lemma ring_room_after_push:
  assumes "ring_ok r" and "ring_ok r'" and "ctail_offset r' = ctail_offset r" and "rb_alloc r' = rb_alloc r"
    and "ring_bytes r' = ring_bytes r @ take (ring_room r) buf"
  shows "ring_room r' = ring_room r - min (length buf) (ring_room r)"
  using ring_head_grows [OF assms(1,2,3,5)] assms(3,4)
  by (auto simp: ring_room_def min_def)

lemma append_loop_spec:
  assumes "ring_ok r" and "length buf < 2 ^ 64"
  obtains r' where "sstream_append_loop r buf c = Inr (r', c + of_nat (min (length buf) (ring_room r)))"
    "ring_ok r'" "ring_bytes r' = ring_bytes r @ take (ring_room r) buf"
    "ctail_offset r' = ctail_offset r" "rb_alloc r' = rb_alloc r"
proof -
  have full: "sstream_append_loop x b c = Inr (if b = [] then x else y, c)"
    if "ring_buf_push x b = Inr (y, 0)" for x b y c
    using that by (subst sstream_append_loop.simps) simp
  obtain r1 where r1: "ring_buf_push r buf = Inr (r1, of_nat (min (length buf) (ring_room r)))"
    "ring_ok r1" "ring_bytes r1 = ring_bytes r @ take (ring_room r) buf"
    "ctail_offset r1 = ctail_offset r" "rb_alloc r1 = rb_alloc r"
    by (rule ring_buf_push_spec [OF assms])
  let ?n = "min (length buf) (ring_room r)"
  show ?thesis
  proof (cases "?n = 0")
    case True
    then have "sstream_append_loop r buf c = Inr (if buf = [] then r else r1, c)"
      using r1(1) by (subst sstream_append_loop.simps) auto
    moreover have "buf = [] \<or> ring_room r = 0"
      using True by (auto simp: min_def split: if_splits)
    ultimately show ?thesis
      using True r1 assms(1) that [of "if buf = [] then r else r1"] by (auto split: if_splits)
  next
    case False
    have n: "unat (of_nat ?n :: u64) = ?n"
      using rbs.room_bound [OF assms(1)] by (simp add: unat_of_nat)
    with False have nz: "(of_nat ?n :: u64) \<noteq> 0"
      by (metis unat_0)
    have step: "sstream_append_loop r buf c = sstream_append_loop r1 (drop ?n buf) (c + of_nat ?n)"
      using False r1(1) nz n by (subst sstream_append_loop.simps) auto
    have "length (drop ?n buf) < 2 ^ 64"
      using assms(2) by simp
    from ring_buf_push_spec [OF r1(2) this] obtain r2 where r2:
      "ring_buf_push r1 (drop ?n buf) = Inr (r2, of_nat (min (length (drop ?n buf)) (ring_room r1)))"
      "ring_ok r2" "ring_bytes r2 = ring_bytes r1 @ take (ring_room r1) (drop ?n buf)"
      "ctail_offset r2 = ctail_offset r1" "rb_alloc r2 = rb_alloc r1" .
    have zero: "min (length (drop ?n buf)) (ring_room r1) = 0"
      unfolding ring_room_after_push [OF assms(1) r1(2,4,5,3)] by auto
    then have "take (ring_room r1) (drop ?n buf) = []"
      by (auto simp: min_def split: if_splits)
    with r2 zero r1 have "ring_bytes r2 = ring_bytes r @ take (ring_room r) buf"
      "ctail_offset r2 = ctail_offset r" "rb_alloc r2 = rb_alloc r"
      by simp_all
    moreover have "sstream_append_loop r buf c = Inr (if drop ?n buf = [] then r1 else r2, c + of_nat ?n)"
      unfolding step by (rule full) (use r2(1) zero in simp)
    ultimately show ?thesis
      using r1 r2(2) that [of "if drop ?n buf = [] then r1 else r2"] by (simp split: if_splits)
  qed
qed

lemma ring_restore:
  assumes "ring_ok r" and "ring_ok r'" and "ring_bytes r' = ring_bytes r @ bs"
    and "ctail_offset r' = ctail_offset r" and "rb_alloc r' = rb_alloc r"
  shows "ring_ok (r\<lparr>rb_start := rb_start r'\<rparr>) \<and> ring_bytes (r\<lparr>rb_start := rb_start r'\<rparr>) = ring_bytes r"
proof
  show "ring_ok (r\<lparr>rb_start := rb_start r'\<rparr>)"
    using assms(1,2,5) by (simp add: ring_ok_def)
  have head: "rb_head r' = rb_head r + length bs" "rb_tail r \<le> rb_head r"
    using ring_head_grows [OF assms(1,2,4,3)] assms(1) by (auto simp: ring_ok_def)
  have "ring_bytes (r\<lparr>rb_start := rb_start r'\<rparr>) = take (rb_head r - rb_tail r) (ring_bytes r')"
    using head assms(4,5) by (simp add: ring_bytes_def ring_at_def take_map)
  with assms(3) head(2) show "ring_bytes (r\<lparr>rb_start := rb_start r'\<rparr>) = ring_bytes r"
    by simp
qed

section \<open>Building a frame\<close>

lemma frame_loop_step:
  assumes ok: "ring_ok r" and lo: "rb_tail r \<le> unat s" and hi: "unat s + unat m \<le> rb_head r"
    and t: "unat t < unat m" and iov: "length iov < k"
    and n: "n = min (unat m - unat t) (rb_size r - (unat s + unat t) mod rb_size r)"
  shows "sstream_frame_loop r s m k t iov = sstream_frame_loop r s m k (t + of_nat n)
      (iov @ [take n (drop (unat s + unat t - rb_tail r) (ring_bytes r))])"
    and "0 < n" and "unat (t + of_nat n) = unat t + n"
proof -
  have H: "rb_head r \<le> 2 ^ 62" "rb_head r \<le> rb_tail r + rb_size r"
    using ok by (auto simp: ring_ok_def)
  have off: "unat (s + t) = unat s + unat t"
    using hi t H(1) by (simp add: unat_add_no_overflow)
  have r: "rb_tail r \<le> unat (s + t)" "unat (s + t) \<le> rb_head r"
    using lo hi t unfolding off by auto
  obtain src l where src: "ring_buf_get_buf_at r (s + t) = Some (src, l)" "unat l = length src"
    "length src = min (rb_head r - unat (s + t)) (rb_size r - unat (s + t) mod rb_size r)"
    "src = take (length src) (drop (unat (s + t) - rb_tail r) (ring_bytes r))"
    by (rule get_buf_at_spec [OF ok r])
  have sz: "(unat s + unat t) mod rb_size r < rb_size r"
    using lo hi t H(2) by (intro mod_less_divisor) linarith
  then show n0: "0 < n"
    using t n by simp
  have "unat t + n < 2 ^ 64"
    using n t hi H(1) by simp
  then show tn: "unat (t + of_nat n) = unat t + n"
    by (simp add: unat_add_no_overflow unat_of_nat)
  have n_le: "n \<le> length src" "0 < length src"
    using src(3) n hi t n0 unfolding off by (simp add: min_def split: if_splits; linarith)+
  have lim: "unat (t + l) = unat t + length src"
    using src(2,3) H(1) r(2) hi t unfolding off by (simp add: unat_add_no_overflow)
  let ?l = "if t + l > m then m - t else l"
  have "unat ?l = n"
  proof (cases "t + l > m")
    case True
    then have "unat m < unat t + length src" "unat ?l = unat m - unat t"
      using t lim by (simp_all add: word_less_nat_alt unat_sub_no_underflow word_le_nat_alt)
    then show ?thesis
      using src(3) n unfolding off by linarith
  next
    case False
    then have "unat t + length src \<le> unat m" "unat ?l = length src"
      using lim src(2) by (simp_all add: word_less_nat_alt)
    then show ?thesis
      using src(3) n hi t unfolding off by linarith
  qed
  note lw = unat_eqD [OF this] and ln = this
  have lm: "unat (of_nat n :: u64) = n"
    using ln unfolding lw .
  have slice: "take n src = take n (drop (unat s + unat t - rb_tail r) (ring_bytes r))"
    using arg_cong [OF src(4), of "take n"] n_le(1) unfolding take_take off by (simp only: min.absorb1)
  have "\<not> t \<ge> m" "l \<noteq> 0" "\<not> k \<le> length iov"
    using t src(2) n_le(2) iov by (auto simp: word_le_nat_alt)
  then show "sstream_frame_loop r s m k t iov = sstream_frame_loop r s m k (t + of_nat n)
      (iov @ [take n (drop (unat s + unat t - rb_tail r) (ring_bytes r))])"
    by (subst sstream_frame_loop.simps)
      (simp only: src(1) option.case prod.case Let_def lw lm slice if_False)
qed

lemma frame_loop_done: "unat m \<le> unat t \<Longrightarrow> sstream_frame_loop r s m k t iov = Inr (Some (t, iov))"
  by (subst sstream_frame_loop.simps) (simp add: word_le_nat_alt)

lemma frame_loop_spec:
  assumes ok: "ring_ok r" and lo: "rb_tail r \<le> unat s" and hi: "unat s + unat m \<le> rb_head r"
    and m: "0 < unat m" and k: "2 \<le> k"
  obtains iov where "sstream_frame_loop r s m k 0 [] = Inr (Some (m, iov))" "length iov \<le> 2"
    "concat iov = take (unat m) (drop (unat s - rb_tail r) (ring_bytes r))"
proof -
  define n where "n = min (unat m) (rb_size r - unat s mod rb_size r)"
  have n_m: "n \<le> unat m"
    by (simp add: n_def)
  let ?b = "drop (unat s - rb_tail r) (ring_bytes r)"
  have H: "rb_head r \<le> rb_tail r + rb_size r"
    using ok by (simp add: ring_ok_def)
  have s1: "sstream_frame_loop r s m k 0 [] = sstream_frame_loop r s m k (of_nat n) [take n ?b]"
    "0 < n" "unat (of_nat n :: u64) = n"
    using frame_loop_step [OF ok lo hi, of 0 "[]" k n] m k by (simp_all add: n_def)
  show ?thesis
  proof (cases "n = unat m")
    case True
    with s1 frame_loop_done [of m "of_nat n"] that [of "[take n ?b]"] show ?thesis
      by simp
  next
    case False
    then have n: "n < unat m" "n = rb_size r - unat s mod rb_size r"
      by (auto simp: n_def)
    have "0 < rb_size r"
      using lo hi m H by linarith
    from wrap_point [OF this, of "unat s"] have "(unat s + n) mod rb_size r = 0"
      unfolding n(2) .
    then have n2: "unat m - n = min (unat m - unat (of_nat n :: u64)) (rb_size r - (unat s + unat (of_nat n :: u64)) mod rb_size r)"
      using lo hi H unfolding s1(3) by simp
    have "sstream_frame_loop r s m k (of_nat n) [take n ?b]
        = sstream_frame_loop r s m k (of_nat n + of_nat (unat m - n))
            [take n ?b, take (unat m - n) (drop (unat s + n - rb_tail r) (ring_bytes r))]"
      using frame_loop_step(1) [OF ok lo hi _ _ n2, of "[take n ?b]" k] n(1) k unfolding s1(3) by simp
    moreover have sum: "of_nat n + of_nat (unat m - n) = m"
      using n(1) unat_eqD [of m "unat m"] by (simp add: of_nat_diff)
    moreover have "take n ?b @ take (unat m - n) (drop (unat s + n - rb_tail r) (ring_bytes r)) = take (unat m) ?b"
      using lo n(1) take_add [of n "unat m - n" ?b] by (simp add: add.commute)
    ultimately show ?thesis
      using s1(1) frame_loop_done [of m m]
        that [of "[take n ?b, take (unat m - n) (drop (unat s + n - rb_tail r) (ring_bytes r))]"] by simp
  qed
qed

section \<open>Invariant\<close>

text \<open>
  \<open>sstream_ok qss S\<close>: the ring buffer retains a suffix of the stream \<open>S\<close> written so far, both sets are
  well formed and hold offsets of \<open>S\<close> only, no byte is both new and acknowledged (the invariant the
  source states), and what was culled lies in the first acknowledged range.
\<close>

definition culled_acked :: "ring_buf \<Rightarrow> uint_set \<Rightarrow> bool" where
  "culled_acked r acked \<longleftrightarrow>
     (0 < rb_tail r \<longrightarrow> acked \<noteq> [] \<and> rstart (hd acked) = 0 \<and> rb_tail r \<le> unat (rend (hd acked)) + 1)"

definition sstream_ok :: "quic_sstream \<Rightarrow> bytes \<Rightarrow> bool" where
  "sstream_ok qss S \<longleftrightarrow>
     rbs.retains (ss_ring qss) S
     \<and> uint_set_ok (new_set qss) \<and> uint_set_ok (acked_set qss)
     \<and> (\<forall>v \<in> uint_set_ints (new_set qss) \<union> uint_set_ints (acked_set qss). unat v < length S)
     \<and> uint_set_ints (new_set qss) \<inter> uint_set_ints (acked_set qss) = {}
     \<and> culled_acked (ss_ring qss) (acked_set qss)"

lemma sstream_okD:
  assumes "sstream_ok qss S"
  shows "rbs.retains (ss_ring qss) S" "uint_set_ok (new_set qss)" "uint_set_ok (acked_set qss)"
    "\<And>v. v \<in> uint_set_ints (new_set qss) \<Longrightarrow> unat v < length S"
    "\<And>v. v \<in> uint_set_ints (acked_set qss) \<Longrightarrow> unat v < length S"
    "uint_set_ints (new_set qss) \<inter> uint_set_ints (acked_set qss) = {}"
    "culled_acked (ss_ring qss) (acked_set qss)" "ring_ok (ss_ring qss)"
    "rb_head (ss_ring qss) = length S" "ring_bytes (ss_ring qss) = drop (rb_tail (ss_ring qss)) S"
  using assms by (simp_all add: sstream_ok_def ring_retains_iff)

lemma new_is_retained:
  assumes "sstream_ok qss S" and "v \<in> uint_set_ints (new_set qss)"
  shows "rb_tail (ss_ring qss) \<le> unat v"
proof (rule ccontr)
  assume "\<not> ?thesis"
  then have v: "unat v < rb_tail (ss_ring qss)"
    by simp
  with sstream_okD(7) [OF assms(1)] have "acked_set qss \<noteq> []" "rstart (hd (acked_set qss)) = 0"
    "unat v \<le> unat (rend (hd (acked_set qss)))"
    by (auto simp: culled_acked_def)
  then have "v \<in> uint_set_ints (acked_set qss)"
    unfolding uint_set_ints_def by (intro UN_I [of "hd (acked_set qss)"]) (auto simp: word_le_nat_alt)
  with sstream_okD(6) [OF assms(1)] assms(2) show False
    by auto
qed

lemma range_in_ints: "r \<in> set s \<Longrightarrow> uint_set_ok s \<Longrightarrow> rstart r \<in> uint_set_ints s \<and> rend r \<in> uint_set_ints s"
  unfolding uint_set_ints_def using uint_set_ok_nonempty [of s r] by force

lemma sstream_new_ok:
  assumes "ossl_quic_sstream_new mem blk n = Inr (Some qss)" and "n < 2 ^ 63"
    and "case blk of None \<Rightarrow> True | Some b \<Rightarrow> length b = unat n"
  shows "sstream_ok qss []"
proof -
  obtain r where r: "ring_buf_resize blk ring_buf_init n False = Inr (r, True)"
    "ss_ring qss = r" "new_set qss = []" "acked_set qss = []"
    using assms(1) by (cases "ring_buf_resize blk ring_buf_init n False")
      (auto simp: ossl_quic_sstream_new_def ossl_uint_set_init_def split: if_splits prod.splits)
  have "ring_stream r []"
    by (rule ring_stream.resize [OF ring_stream.init assms(2,3) r(1)])
  then have ret: "rbs.retains r []"
    by (rule ring_stream_retains)
  moreover have "rb_tail r = 0"
    using ret unfolding ring_retains_iff by (simp add: ring_ok_def)
  ultimately show ?thesis
    using r by (simp add: sstream_ok_def culled_acked_def)
qed

lemma sstream_append_ok:
  assumes ok: "sstream_ok qss S" and len: "length buf < 2 ^ 64"
  obtains qss' n b where "ossl_quic_sstream_append mem qss buf = Inr (qss', n, b)"
    "sstream_ok qss' (S @ take (unat n) buf)"
    "b \<Longrightarrow> unat n = min (length buf) (ring_room (ss_ring qss))" "\<not> b \<Longrightarrow> n = 0"
proof (cases "have_final_size qss")
  case True
  with ok that [of qss 0 False] show ?thesis
    by (simp add: ossl_quic_sstream_append_def Let_def)
next
  case False
  let ?r = "ss_ring qss"
  define n where "n = min (length buf) (ring_room ?r)"
  note okD = sstream_okD [OF ok]
  obtain r where r: "sstream_append_loop ?r buf 0 = Inr (r, 0 + of_nat n)" "ring_ok r"
    "ring_bytes r = ring_bytes ?r @ take (ring_room ?r) buf" "ctail_offset r = ctail_offset ?r" "rb_alloc r = rb_alloc ?r"
    unfolding n_def by (rule append_loop_spec [OF okD(8) len])
  have take_n: "take (ring_room ?r) buf = take n buf"
    by (simp add: n_def min_def)
  have head: "rb_head r = length S + n"
    using ring_head_grows [OF okD(8) r(2,4,3)] okD(9) by (simp add: n_def)
  have bound: "length S + n \<le> 2 ^ 62"
    using r(2) head by (simp add: ring_ok_def)
  have tail: "rb_tail ?r \<le> length S"
    using okD(8,9) by (simp add: ring_ok_def)
  have ret: "rbs.retains r (S @ take n buf)"
    unfolding ring_retains_iff using r head take_n okD(10) tail by (simp add: n_def)
  have nw: "unat (of_nat n :: u64) = n"
    using bound by (simp add: unat_of_nat)
  have culled: "culled_acked r (acked_set qss)"
    using okD(7) r(4) by (simp add: culled_acked_def)
  show ?thesis
  proof (cases "n = 0")
    case True
    with r(1) False have "ossl_quic_sstream_append mem qss buf = Inr (qss\<lparr>ss_ring := r\<rparr>, 0, True)"
      by (simp add: ossl_quic_sstream_append_def Let_def)
    moreover have "sstream_ok (qss\<lparr>ss_ring := r\<rparr>) S"
      using okD ret True culled by (auto simp: sstream_ok_def)
    ultimately show ?thesis
      using that [of "qss\<lparr>ss_ring := r\<rparr>" 0 True] True n_def by simp
  next
    case n: False
    let ?rg = "\<lparr>rstart = head_offset ?r, rend = head_offset ?r + of_nat n - 1\<rparr>"
    have h: "unat (head_offset ?r + of_nat n) = length S + n"
      using bound nw okD(9) by (simp add: unat_add_no_overflow)
    have e: "unat (rend ?rg) = length S + n - 1"
      using h n unat_minus_one [of "head_offset ?r + of_nat n"] by (auto simp: word_unat_eq_iff)
    have valid: "rstart ?rg \<le> rend ?rg"
      unfolding word_le_nat_alt e using n okD(9) by simp
    have pos: "(0 :: u64) < of_nat n"
      using n nw by (simp add: word_less_nat_alt)
    obtain s b where s: "ossl_uint_set_insert mem (new_set qss) ?rg = (s, b)"
      by fastforce
    show ?thesis
    proof (cases b)
      case True
      have s': "uint_set_ok s" "uint_set_ints s = uint_set_ints (new_set qss) \<union> {rstart ?rg..rend ?rg}"
        using uset.ins_ok [OF okD(2) valid] s True by auto
      have fresh: "length S \<le> unat v \<and> unat v < length S + n" if "v \<in> {rstart ?rg..rend ?rg}" for v
        using that okD(9) e n by (auto simp: word_le_nat_alt)
      have "sstream_ok (qss\<lparr>new_set := s, ss_ring := r\<rparr>) (S @ take n buf)"
        using okD(3-6) ret culled s' fresh n_def by (fastforce simp: sstream_ok_def)
      moreover have "ossl_quic_sstream_append mem qss buf = Inr (qss\<lparr>new_set := s, ss_ring := r\<rparr>, of_nat n, True)"
        using False pos r(1) s True by (simp add: ossl_quic_sstream_append_def Let_def)
      ultimately show ?thesis
        using that nw n_def by simp
    next
      case nb: False
      have "s = new_set qss"
        using uset.ins_fail [OF okD(2) valid] s nb by auto
      moreover have "rbs.retains (?r\<lparr>rb_start := rb_start r\<rparr>) S"
        using ring_restore [OF okD(8) r(2,3,4,5)] okD(9,10) unfolding ring_retains_iff by simp
      ultimately have "sstream_ok (qss\<lparr>new_set := s, ss_ring := ?r\<lparr>rb_start := rb_start r\<rparr>\<rparr>) S"
        using ok by (simp add: sstream_ok_def culled_acked_def)
      moreover have "ossl_quic_sstream_append mem qss buf
          = Inr (qss\<lparr>new_set := s, ss_ring := ?r\<lparr>rb_start := rb_start r\<rparr>\<rparr>, 0, False)"
        using False pos r(1) s nb by (simp add: ossl_quic_sstream_append_def Let_def)
      ultimately show ?thesis
        using that [of "qss\<lparr>new_set := s, ss_ring := ?r\<lparr>rb_start := rb_start r\<rparr>\<rparr>" 0 False] by simp
    qed
  qed
qed

lemma sstream_transmitted_ok:
  assumes ok: "sstream_ok qss S" and "ossl_quic_sstream_mark_transmitted mem qss a e = Inr (qss', b)"
  shows "sstream_ok qss' S"
proof -
  obtain s b' where s: "ossl_uint_set_remove mem (new_set qss) \<lparr>rstart = a, rend = e\<rparr> = Inr (s, b')"
    "qss' = qss\<lparr>new_set := s\<rparr>"
    using assms(2) by (cases "ossl_uint_set_remove mem (new_set qss) \<lparr>rstart = a, rend = e\<rparr>")
      (auto simp: ossl_quic_sstream_mark_transmitted_def split: if_splits prod.splits)
  have "uint_set_ok s \<and> uint_set_ints s \<subseteq> uint_set_ints (new_set qss)"
    using uset.rem_keeps_ok [OF sstream_okD(2) [OF ok] s(1)] .
  with ok s(2) show ?thesis
    by (auto simp: sstream_ok_def)
qed

lemma sstream_lost_ok:
  assumes ok: "sstream_ok qss S" and res: "ossl_quic_sstream_mark_lost mem qss a e = (qss', b)"
    and "\<forall>v \<in> {a..e}. unat v < length S" and "{a..e} \<inter> uint_set_ints (acked_set qss) = {}"
  shows "sstream_ok qss' S"
proof -
  obtain s b' where s: "ossl_uint_set_insert mem (new_set qss) \<lparr>rstart = a, rend = e\<rparr> = (s, b')"
    by fastforce
  then have q: "qss' = qss\<lparr>new_set := s\<rparr>"
    using res by (auto simp: ossl_quic_sstream_mark_lost_def split: if_splits)
  have "uint_set_ok s \<and> uint_set_ints s \<subseteq> uint_set_ints (new_set qss) \<union> {a..e}"
    using uset.ins_ok [OF sstream_okD(2) [OF ok], of "\<lparr>rstart = a, rend = e\<rparr>" mem s]
      uset.ins_fail [OF sstream_okD(2) [OF ok], of "\<lparr>rstart = a, rend = e\<rparr>" mem s]
      uset.ins_invalid [of "\<lparr>rstart = a, rend = e\<rparr>" mem "new_set qss"] s sstream_okD(2) [OF ok]
    by (cases "a \<le> e"; cases b') auto
  with ok assms(3,4) q show ?thesis
    unfolding sstream_ok_def by (simp, blast)
qed

lemma front_is_culled:
  assumes ok: "sstream_ok qss S" and ins: "ossl_uint_set_insert mem (acked_set qss) r = (s, b)"
  shows "culled_acked (ss_ring qss) s"
proof (cases "0 < rb_tail (ss_ring qss)")
  case True
  with sstream_okD(7) [OF ok] have "acked_set qss \<noteq> []" "rstart (hd (acked_set qss)) = 0"
    "rb_tail (ss_ring qss) \<le> unat (rend (hd (acked_set qss))) + 1"
    by (auto simp: culled_acked_def)
  with insert_keeps_front [OF sstream_okD(3) [OF ok] this(1,2) ins] show ?thesis
    by (auto simp: culled_acked_def word_le_nat_alt)
qed (simp add: culled_acked_def)

lemma qss_cull_ok:
  assumes ok: "sstream_ok qss S"
  obtains qss' where "qss_cull qss = Inr qss'" "sstream_ok qss' S" "acked_set qss' = acked_set qss"
    "new_set qss' = new_set qss"
proof (cases "acked_set qss")
  case Nil
  with ok that [of qss] show ?thesis
    by (simp add: qss_cull_def)
next
  case (Cons h t)
  let ?r = "ss_ring qss"
  note okD = sstream_okD [OF ok]
  have h: "rend h \<in> uint_set_ints (acked_set qss)"
    using range_in_ints [of h "acked_set qss"] Cons okD(3) by simp
  have e: "unat (rend h) < length S" "length S \<le> 2 ^ 62"
    using okD(5) [OF h] okD(8,9) by (auto simp: ring_ok_def)
  show ?thesis
  proof (cases "rstart h \<le> ctail_offset ?r")
    case False
    then have "qss_cull qss = Inr qss"
      using Cons by (simp add: qss_cull_def ring_buf_cpop_range_def not_le)
    with ok that show ?thesis
      by simp
  next
    case True
    have tail: "rb_tail ?r \<le> unat (rend h) + 1"
      using okD(7) Cons by (auto simp: culled_acked_def)
    have "unat (rstart h) \<le> rb_tail ?r" "unat (rend h) < rb_tail ?r + length (ring_bytes ?r)"
      using True e(1) okD(1) by (auto simp: word_le_nat_alt rbs.retains_def)
    from rbs.cull_law [OF okD(8) this(1) tail this(2), of "ss_cleanse qss"] obtain r' where r':
      "ring_buf_cpop_range ?r (rstart h) (rend h) (ss_cleanse qss) = Inr r'" "rb_tail r' = unat (rend h) + 1"
      by blast
    have "rbs.retains r' S"
      by (rule rbs.cull_retains [OF okD(1) _ tail e(1) r'(1)]) (use True in \<open>simp add: word_le_nat_alt\<close>)
    moreover have "rstart h = 0" if "0 < rb_tail ?r"
      using that okD(7) Cons by (simp add: culled_acked_def)
    then have "rstart h = 0"
      using True by (cases "0 < rb_tail ?r") (auto simp: word_le_nat_alt word_unat_eq_iff)
    then have "culled_acked r' (acked_set qss)"
      using r'(2) Cons by (simp add: culled_acked_def)
    ultimately have "sstream_ok (qss\<lparr>ss_ring := r'\<rparr>) S"
      using ok by (simp add: sstream_ok_def)
    with r'(1) Cons that [of "qss\<lparr>ss_ring := r'\<rparr>"] show ?thesis
      by (simp add: qss_cull_def)
  qed
qed

lemma sstream_acked_ok:
  assumes ok: "sstream_ok qss S" and range: "\<forall>v \<in> {a..e}. unat v < length S"
    and disj: "{a..e} \<inter> uint_set_ints (new_set qss) = {}"
  obtains qss' b where "ossl_quic_sstream_mark_acked mem qss a e = Inr (qss', b)" "sstream_ok qss' S"
    "b \<Longrightarrow> uint_set_ints (acked_set qss') = uint_set_ints (acked_set qss) \<union> {a..e}"
    "\<not> b \<Longrightarrow> qss' = qss"
proof -
  note okD = sstream_okD [OF ok]
  let ?rg = "\<lparr>rstart = a, rend = e\<rparr>"
  obtain s b where s: "ossl_uint_set_insert mem (acked_set qss) ?rg = (s, b)"
    by fastforce
  show ?thesis
  proof (cases b)
    case True
    have le: "a \<le> e"
      using s True uset.ins_invalid [of ?rg mem "acked_set qss"] by (cases "a \<le> e") auto
    then have s': "uint_set_ok s" "uint_set_ints s = uint_set_ints (acked_set qss) \<union> {a..e}"
      using uset.ins_ok [OF okD(3), of ?rg mem s] s True by auto
    have "sstream_ok (qss\<lparr>acked_set := s\<rparr>) S"
      unfolding sstream_ok_def using okD(1-6) s' front_is_culled [OF ok s] range disj by (simp, blast)
    from qss_cull_ok [OF this] obtain q where q: "qss_cull (qss\<lparr>acked_set := s\<rparr>) = Inr q" "sstream_ok q S" "acked_set q = s"
      by auto
    then have "ossl_quic_sstream_mark_acked mem qss a e = Inr (q, True)"
      using s True by (simp add: ossl_quic_sstream_mark_acked_def)
    then show ?thesis
      using q s'(2) that [of q True] by simp
  next
    case False
    have "s = acked_set qss"
      using s False uset.ins_fail [OF okD(3), of ?rg mem s] uset.ins_invalid [of ?rg mem "acked_set qss"]
      by (cases "a \<le> e") auto
    then have "ossl_quic_sstream_mark_acked mem qss a e = Inr (qss, False)"
      using s False by (simp add: ossl_quic_sstream_mark_acked_def)
    with ok that [of qss False] show ?thesis
      by simp
  qed
qed

lemma sstream_resize_ok:
  assumes ok: "sstream_ok qss S" and "ossl_quic_sstream_set_buffer_size blk qss n = Inr (qss', b)"
    and n: "n < 2 ^ 63" and blk: "case blk of None \<Rightarrow> True | Some b \<Rightarrow> length b = unat n"
  shows "sstream_ok qss' S"
proof -
  note okD = sstream_okD [OF ok]
  obtain r where r: "ring_buf_resize blk (ss_ring qss) n (ss_cleanse qss) = Inr (r, b)" "qss' = qss\<lparr>ss_ring := r\<rparr>"
    using assms(2) by (cases "ring_buf_resize blk (ss_ring qss) n (ss_cleanse qss)")
      (auto simp: ossl_quic_sstream_set_buffer_size_def)
  have n': "unat n < 2 ^ 63" and blk': "\<And>b. blk = Some b \<Longrightarrow> length b = unat n"
    using n blk by (auto simp: word_less_nat_alt)
  have "ring_ok r \<and> ring_bytes r = ring_bytes (ss_ring qss) \<and> ctail_offset r = ctail_offset (ss_ring qss)"
    by (rule ring_buf_resize_spec [OF okD(8) n' blk', where cleanse = "ss_cleanse qss"]) (use r(1) okD(8) in auto)
  with ok r(2) show ?thesis
    unfolding sstream_ok_def rbs.retains_def culled_acked_def by simp
qed

section \<open>Reachable streams\<close>

text \<open>
  A send stream under any order of operations, with the bytes accepted so far. Bytes are reported
  lost or acknowledged only when they were written; bytes still to be sent are not acknowledged, and
  acknowledged bytes are not reported lost (the acknowledgement manager reports each packet once).
\<close>

inductive sstream_step :: "quic_sstream \<Rightarrow> bytes \<Rightarrow> quic_sstream \<Rightarrow> bytes \<Rightarrow> bool" where
  append: "length buf < 2 ^ 64 \<Longrightarrow> ossl_quic_sstream_append mem q buf = Inr (q', n, b) \<Longrightarrow>
    sstream_step q S q' (S @ take (unat n) buf)"
| transmitted: "ossl_quic_sstream_mark_transmitted mem q a e = Inr (q', b) \<Longrightarrow> sstream_step q S q' S"
| lost: "\<forall>v \<in> {a..e}. unat v < length S \<Longrightarrow> {a..e} \<inter> uint_set_ints (acked_set q) = {} \<Longrightarrow>
    ossl_quic_sstream_mark_lost mem q a e = (q', b) \<Longrightarrow> sstream_step q S q' S"
| acked: "\<forall>v \<in> {a..e}. unat v < length S \<Longrightarrow> {a..e} \<inter> uint_set_ints (new_set q) = {} \<Longrightarrow>
    ossl_quic_sstream_mark_acked mem q a e = Inr (q', b) \<Longrightarrow> sstream_step q S q' S"
| fin: "sstream_step q S (ossl_quic_sstream_fin q) S"
| transmitted_fin: "sstream_step q S (fst (ossl_quic_sstream_mark_transmitted_fin q n)) S"
| lost_fin: "sstream_step q S (fst (ossl_quic_sstream_mark_lost_fin q)) S"
| acked_fin: "sstream_step q S (fst (ossl_quic_sstream_mark_acked_fin q)) S"
| resize: "n < 2 ^ 63 \<Longrightarrow> (case blk of None \<Rightarrow> True | Some b \<Rightarrow> length b = unat n) \<Longrightarrow>
    ossl_quic_sstream_set_buffer_size blk q n = Inr (q', b) \<Longrightarrow> sstream_step q S q' S"
| cleanse: "sstream_step q S (ossl_quic_sstream_set_cleanse q c) S"

inductive sstream_reach :: "quic_sstream \<Rightarrow> bytes \<Rightarrow> bool" where
  new: "ossl_quic_sstream_new mem blk n = Inr (Some q) \<Longrightarrow> n < 2 ^ 63 \<Longrightarrow>
    (case blk of None \<Rightarrow> True | Some b \<Rightarrow> length b = unat n) \<Longrightarrow> sstream_reach q []"
| step: "sstream_reach q S \<Longrightarrow> sstream_step q S q' S' \<Longrightarrow> sstream_reach q' S'"

lemma sstream_step_ok: "sstream_step q S q' S' \<Longrightarrow> sstream_ok q S \<Longrightarrow> sstream_ok q' S'"
proof (induction rule: sstream_step.induct)
  case (append buf mem q q' n b S)
  from sstream_append_ok [OF append.prems append.hyps(1), of mem] append.hyps(2) show ?case
    by auto
next
  case (transmitted mem q a e q' b S)
  then show ?case
    by (rule_tac sstream_transmitted_ok)
next
  case (lost a e S q mem q' b)
  then show ?case
    by (rule_tac sstream_lost_ok)
next
  case (acked a e S q mem q' b)
  from sstream_acked_ok [OF acked.prems acked.hyps(1,2), of mem] acked.hyps(3) show ?case
    by auto
next
  case (resize n blk q q' b S)
  then show ?case
    by (rule_tac sstream_resize_ok)
qed (simp_all add: sstream_ok_def ossl_quic_sstream_fin_def ossl_quic_sstream_mark_transmitted_fin_def
    ossl_quic_sstream_mark_lost_fin_def ossl_quic_sstream_mark_acked_fin_def ossl_quic_sstream_set_cleanse_def)

lemma sstream_reach_ok: "sstream_reach q S \<Longrightarrow> sstream_ok q S"
  by (induction rule: sstream_reach.induct) (auto intro: sstream_new_ok sstream_step_ok)

text \<open>What a frame carries is what the application wrote at the frame's offset.\<close>

definition frame_of_stream :: "quic_sstream \<Rightarrow> bytes \<Rightarrow> stream_frame_hdr \<Rightarrow> bytes list \<Rightarrow> bool" where
  "frame_of_stream q S hdr iov \<longleftrightarrow>
     concat iov = take (unat (fr_len hdr)) (drop (unat (fr_offset hdr)) S)
     \<and> unat (fr_offset hdr) + unat (fr_len hdr) \<le> length S \<and> length iov \<le> 2
     \<and> (fr_is_fin hdr \<longleftrightarrow> have_final_size q \<and> unat (fr_offset hdr) + unat (fr_len hdr) = length S)
     \<and> (fr_len hdr = 0 \<longrightarrow> fr_is_fin hdr)
     \<and> (\<forall>v. unat (fr_offset hdr) \<le> unat v \<and> unat v < unat (fr_offset hdr) + unat (fr_len hdr) \<longrightarrow>
          v \<in> uint_set_ints (new_set q))"

lemma frame_of_range:
  assumes ok: "sstream_ok q S" and rg: "rg \<in> set (new_set q)" and k: "2 \<le> k"
  obtains iov where
    "sstream_frame_loop (ss_ring q) (rstart rg) (rend rg - rstart rg + 1) k 0 [] = Inr (Some (rend rg - rstart rg + 1, iov))"
    "frame_of_stream q S \<lparr>fr_offset = rstart rg, fr_len = rend rg - rstart rg + 1,
       fr_is_fin = (have_final_size q \<and> rstart rg + (rend rg - rstart rg + 1) = head_offset (ss_ring q))\<rparr> iov"
proof -
  note okD = sstream_okD [OF ok]
  let ?m = "rend rg - rstart rg + 1"
  have le: "rstart rg \<le> rend rg" and ins: "rstart rg \<in> uint_set_ints (new_set q)" "rend rg \<in> uint_set_ints (new_set q)"
    using uint_set_ok_nonempty [OF okD(2) rg] range_in_ints [OF rg okD(2)] by auto
  have S: "length S \<le> 2 ^ 62" "unat (rend rg) < length S"
    using okD(4) [OF ins(2)] okD(8,9) by (auto simp: ring_ok_def)
  have m: "unat ?m = unat (rend rg) - unat (rstart rg) + 1"
    using le S by (simp add: unat_add_no_overflow unat_sub_no_underflow)
  then have sum: "unat (rstart rg) + unat ?m = unat (rend rg) + 1"
    using le by (simp add: word_le_nat_alt)
  have tail: "rb_tail (ss_ring q) \<le> unat (rstart rg)"
    using new_is_retained [OF ok ins(1)] .
  have "unat (rstart rg) + unat ?m \<le> rb_head (ss_ring q)" "0 < unat ?m"
    using sum S okD(9) m by auto
  from frame_loop_spec [OF okD(8) tail this k] obtain iov where iov:
    "sstream_frame_loop (ss_ring q) (rstart rg) ?m k 0 [] = Inr (Some (?m, iov))" "length iov \<le> 2"
    "concat iov = take (unat ?m) (drop (unat (rstart rg) - rb_tail (ss_ring q)) (ring_bytes (ss_ring q)))" .
  have fin: "rstart rg + ?m = head_offset (ss_ring q) \<longleftrightarrow> unat (rend rg) + 1 = length S"
    using sum S okD(9) by (simp add: word_unat_eq_iff unat_add_no_overflow)
  have new: "v \<in> uint_set_ints (new_set q)" if "unat (rstart rg) \<le> unat v" "unat v < unat (rend rg) + 1" for v
    unfolding uint_set_ints_def using rg that by (intro UN_I [of rg]) (auto simp: word_le_nat_alt)
  have nz: "?m \<noteq> 0"
    using m by auto
  have "frame_of_stream q S \<lparr>fr_offset = rstart rg, fr_len = ?m,
       fr_is_fin = (have_final_size q \<and> rstart rg + ?m = head_offset (ss_ring q))\<rparr> iov"
    unfolding frame_of_stream_def stream_frame_hdr.simps sum fin
    using iov(2,3) tail S(2) okD(10) new nz by simp
  with iov(1) show ?thesis
    by (rule that)
qed

text \<open>The stream only grows, and not at all once it is finished.\<close>

lemma sstream_step_extends:
  assumes "sstream_step q S q' S'"
  shows "(\<exists>T. S' = S @ T) \<and> (have_final_size q \<longrightarrow> S' = S \<and> have_final_size q')"
  using assms
proof cases
  case (append buf mem n b)
  then show ?thesis
    by (auto simp: ossl_quic_sstream_append_def)
next
  case (transmitted mem a e b)
  then show ?thesis
    by (auto simp: ossl_quic_sstream_mark_transmitted_def res_bind_def split: sum.splits prod.splits if_splits)
next
  case (lost a e mem b)
  then show ?thesis
    by (auto simp: ossl_quic_sstream_mark_lost_def split: prod.splits if_splits)
next
  case (acked a e mem b)
  then show ?thesis
    by (auto simp: ossl_quic_sstream_mark_acked_def qss_cull_def res_bind_def
        split: prod.splits if_splits sum.splits list.splits)
next
  case (resize n blk b)
  then show ?thesis
    by (cases "ring_buf_resize blk (ss_ring q) n (ss_cleanse q)") (auto simp: ossl_quic_sstream_set_buffer_size_def)
qed (simp_all add: ossl_quic_sstream_fin_def ossl_quic_sstream_mark_transmitted_fin_def
    ossl_quic_sstream_mark_lost_fin_def ossl_quic_sstream_mark_acked_fin_def ossl_quic_sstream_set_cleanse_def)

lemma get_stream_frame_carries:
  assumes ok: "sstream_ok q S" and k: "2 \<le> k" and get: "ossl_quic_sstream_get_stream_frame q skip k = Inr (Some (hdr, iov))"
  shows "concat iov = take (unat (fr_len hdr)) (drop (unat (fr_offset hdr)) S)
    \<and> unat (fr_offset hdr) + unat (fr_len hdr) \<le> length S \<and> length S \<le> 2 ^ 62
    \<and> (fr_is_fin hdr \<longrightarrow> have_final_size q \<and> unat (fr_offset hdr) + unat (fr_len hdr) = length S)
    \<and> (fr_len hdr = 0 \<longrightarrow> fr_is_fin hdr)"
proof -
  note okD = sstream_okD [OF ok]
  have S: "length S \<le> 2 ^ 62" "unat (head_offset (ss_ring q)) = length S"
    using okD(8,9) by (auto simp: ring_ok_def)
  show ?thesis
  proof (cases "drop skip (new_set q)")
    case Nil
    with get k S show ?thesis
      by (auto simp: ossl_quic_sstream_get_stream_frame_def split: if_splits)
  next
    case (Cons rg rest)
    then have "rg \<in> set (new_set q)"
      by (metis in_set_dropD list.set_intros(1))
    then show ?thesis
    proof (rule frame_of_range [OF ok _ k])
      fix iov' assume "sstream_frame_loop (ss_ring q) (rstart rg) (rend rg - rstart rg + 1) k 0 []
          = Inr (Some (rend rg - rstart rg + 1, iov'))"
        and fr: "frame_of_stream q S \<lparr>fr_offset = rstart rg, fr_len = rend rg - rstart rg + 1,
          fr_is_fin = (have_final_size q \<and> rstart rg + (rend rg - rstart rg + 1) = head_offset (ss_ring q))\<rparr> iov'"
      then have "hdr = \<lparr>fr_offset = rstart rg, fr_len = rend rg - rstart rg + 1,
          fr_is_fin = (have_final_size q \<and> rstart rg + (rend rg - rstart rg + 1) = head_offset (ss_ring q))\<rparr>" "iov = iov'"
        using get k Cons by (simp_all add: ossl_quic_sstream_get_stream_frame_def Let_def)
      with fr have "frame_of_stream q S hdr iov"
        by (simp only:)
      with S(1) show ?thesis
        unfolding frame_of_stream_def by blast
    qed
  qed
qed

text \<open>
  Property C7. In every reachable state a request for the frame after \<open>skip\<close> pending ranges completes
  without a fault. Where there is such a range it returns a frame: at most two iovecs that carry
  exactly the bytes the application wrote at the frame's offset, all of them still to be sent, with
  FIN exactly when the stream is finished and the frame reaches its end. Otherwise it returns a frame
  only for a FIN that is still to be sent, and that frame is empty.
\<close>

theorem sstream_frames_carry_the_stream:
  assumes "sstream_reach q S" and "2 \<le> k"
  shows "if skip < length (new_set q) then
      \<exists>hdr iov. ossl_quic_sstream_get_stream_frame q skip k = Inr (Some (hdr, iov))
        \<and> frame_of_stream q S hdr iov \<and> fr_offset hdr = rstart (new_set q ! skip)
    else
      ossl_quic_sstream_get_stream_frame q skip k =
        (if skip = length (new_set q) \<and> have_final_size q \<and> \<not> sent_final_size q
         then Inr (Some (\<lparr>fr_offset = head_offset (ss_ring q), fr_len = 0, fr_is_fin = True\<rparr>, []))
         else Inr None)"
proof (cases "skip < length (new_set q)")
  case True
  then obtain rest where d: "drop skip (new_set q) = new_set q ! skip # rest"
    using Cons_nth_drop_Suc by metis
  from True have "new_set q ! skip \<in> set (new_set q)"
    by simp
  from frame_of_range [OF sstream_reach_ok [OF assms(1)] this assms(2)] show ?thesis
    using True assms(2) d by (fastforce simp: ossl_quic_sstream_get_stream_frame_def Let_def)
next
  case False
  then have "drop skip (new_set q) = []"
    by simp
  with False assms(2) show ?thesis
    by (auto simp: ossl_quic_sstream_get_stream_frame_def)
qed

abbreviation sstream_state :: "bytes \<Rightarrow> u64 \<Rightarrow> u64 \<Rightarrow> u64 \<Rightarrow> uint_set \<Rightarrow> uint_set \<Rightarrow> quic_sstream" where
  "sstream_state m a h t new acked \<equiv>
     \<lparr>ss_ring = \<lparr>rb_start = m, rb_alloc = a, head_offset = h, ctail_offset = t\<rparr>, new_set = new, acked_set = acked,
      have_final_size = False, sent_final_size = False, acked_final_size = False, ss_cleanse = False\<rparr>"

lemma sstream_example:
  "sstream_reach (sstream_state [1, 2, 3, 0] 4 3 0 [\<lparr>rstart = 0, rend = 2\<rparr>] []) [1, 2, 3]"
proof -
  have "ossl_quic_sstream_new True (Some [0, 0, 0, 0]) 4 = Inr (Some (sstream_state [0, 0, 0, 0] 4 0 0 [] []))"
    by code_simp
  from sstream_reach.new [OF this] have "sstream_reach (sstream_state [0, 0, 0, 0] 4 0 0 [] []) []"
    by simp
  moreover have "ossl_quic_sstream_append True (sstream_state [0, 0, 0, 0] 4 0 0 [] []) [1, 2, 3]
    = Inr (sstream_state [1, 2, 3, 0] 4 3 0 [\<lparr>rstart = 0, rend = 2\<rparr>] [], 3, True)"
    by code_simp
  ultimately have "sstream_reach (sstream_state [1, 2, 3, 0] 4 3 0 [\<lparr>rstart = 0, rend = 2\<rparr>] []) ([] @ take (unat (3 :: u64)) [1, 2, 3])"
    by (intro sstream_reach.step [OF _ sstream_step.append]) simp_all
  then show ?thesis
    by simp
qed

theorem sstream_frames_carry_the_stream_witness:
  "\<exists>hdr iov. ossl_quic_sstream_get_stream_frame (sstream_state [1, 2, 3, 0] 4 3 0 [\<lparr>rstart = 0, rend = 2\<rparr>] []) 0 2 = Inr (Some (hdr, iov))
     \<and> frame_of_stream (sstream_state [1, 2, 3, 0] 4 3 0 [\<lparr>rstart = 0, rend = 2\<rparr>] []) [1, 2, 3] hdr iov \<and> fr_offset hdr = 0"
  using sstream_frames_carry_the_stream [OF sstream_example, of 2 0] by simp

text \<open>
  Whether or not memory is available, in every reachable state appending to the stream
  and acknowledging sent bytes complete without a fault. An append reports failure only with nothing
  accepted; otherwise it accepts as much as the buffer has room for. The invariant of the stream is
  kept: in particular no byte becomes both new and acknowledged.
\<close>

theorem sstream_append_and_ack_are_safe:
  assumes "sstream_reach q S" and "length buf < 2 ^ 64"
    and "\<forall>v \<in> {a..e}. unat v < length S" and "{a..e} \<inter> uint_set_ints (new_set q) = {}"
  shows "(\<exists>q' n b. ossl_quic_sstream_append mem q buf = Inr (q', n, b) \<and> sstream_ok q' (S @ take (unat n) buf)
      \<and> (if b then unat n = min (length buf) (ring_room (ss_ring q)) else n = 0))
    \<and> (\<exists>q' b. ossl_quic_sstream_mark_acked mem q a e = Inr (q', b) \<and> sstream_ok q' S
      \<and> (if b then uint_set_ints (acked_set q') = uint_set_ints (acked_set q) \<union> {a..e} else q' = q))"
proof
  note ok = sstream_reach_ok [OF assms(1)]
  show "\<exists>q' n b. ossl_quic_sstream_append mem q buf = Inr (q', n, b) \<and> sstream_ok q' (S @ take (unat n) buf)
      \<and> (if b then unat n = min (length buf) (ring_room (ss_ring q)) else n = 0)"
    by (rule sstream_append_ok [OF ok assms(2), of mem]) (metis (full_types))
  show "\<exists>q' b. ossl_quic_sstream_mark_acked mem q a e = Inr (q', b) \<and> sstream_ok q' S
      \<and> (if b then uint_set_ints (acked_set q') = uint_set_ints (acked_set q) \<union> {a..e} else q' = q)"
    by (rule sstream_acked_ok [OF ok assms(3,4), of mem]) (metis (full_types))
qed

theorem sstream_append_and_ack_are_safe_witness:
  "\<exists>q' n b. ossl_quic_sstream_append False (sstream_state [1, 2, 3, 0] 4 3 0 [\<lparr>rstart = 0, rend = 2\<rparr>] []) [9, 9] = Inr (q', n, b)
     \<and> sstream_ok q' ([1, 2, 3] @ take (unat n) [9, 9])"
proof -
  have "{1..0 :: u64} = {}"
    by simp
  with sstream_append_and_ack_are_safe [OF sstream_example, of "[9, 9]" 1 0 False] show ?thesis
    by fastforce
qed

lemma merged_covers_one_range:
  assumes "uint_set_merged s" and "\<And>v. unat v < n \<Longrightarrow> v \<in> uint_set_ints s" and "\<And>v. v \<in> uint_set_ints s \<Longrightarrow> unat v < n"
    and "0 < n" and "n \<le> 2 ^ 62"
  shows "\<exists>r. s = [r] \<and> rstart r = 0 \<and> unat (rend r) + 1 = n"
proof -
  obtain r t where s: "s = r # t"
    using assms(2) [of 0] assms(4) by (cases s) auto
  have r: "rstart r \<le> rend r" and gap: "\<And>y. y \<in> set t \<Longrightarrow> unat (rend r) + 1 < unat (rstart y) \<and> rstart y \<le> rend y"
    using assms(1) s by (auto simp: uint_set_merged_def)
  have inside: "unat (rend r) < n"
    using assms(3) [of "rend r"] s r by simp
  have hit: "unat v \<le> unat (rend r)" if "unat v < n" "unat v \<le> unat (rend r) + 1" for v :: u64
    using assms(2) [OF that(1)] that(2) s by (fastforce simp: uint_set_ints_def word_le_nat_alt dest: gap)
  have "unat (rend r + 1) = unat (rend r) + 1"
    using inside assms(5) by (simp add: unat_add_no_overflow)
  with hit [of "rend r + 1"] inside have n: "unat (rend r) + 1 = n"
    by (cases "unat (rend r) + 1 < n") auto
  have "t = []"
  proof (rule ccontr)
    assume "t \<noteq> []"
    then have "rstart (hd t) \<in> uint_set_ints s" "unat (rend r) + 1 < unat (rstart (hd t))"
      using gap [of "hd t"] s by (auto simp: uint_set_ints_def)
    with assms(3) [of "rstart (hd t)"] n show False
      by simp
  qed
  moreover have "rstart r = 0"
    using assms(2) [of 0] assms(4) s \<open>t = []\<close> by auto
  ultimately show ?thesis
    using s n by simp
qed

text \<open>
  \<^verbatim>\<open>ossl_quic_sstream_is_totally_acked\<close> answers yes only when every byte written and, if the
  stream is finished, its FIN are acknowledged; and it does answer yes then if the acknowledged set
  is in merged form.
\<close>

theorem sstream_totally_acked_correct:
  assumes "sstream_reach q S"
  shows "(ossl_quic_sstream_is_totally_acked q \<longrightarrow>
      (\<forall>v. unat v < length S \<longrightarrow> v \<in> uint_set_ints (acked_set q)) \<and> (have_final_size q \<longrightarrow> acked_final_size q))
    \<and> (uint_set_merged (acked_set q) \<and> (\<forall>v. unat v < length S \<longrightarrow> v \<in> uint_set_ints (acked_set q))
        \<and> (have_final_size q \<longrightarrow> acked_final_size q) \<longrightarrow> ossl_quic_sstream_is_totally_acked q)"
proof -
  note okD = sstream_okD [OF sstream_reach_ok [OF assms]]
  have S: "length S \<le> 2 ^ 62" "head_offset (ss_ring q) = 0 \<longleftrightarrow> length S = 0"
    using okD(8,9) by (auto simp: ring_ok_def word_unat_eq_iff)
  have succ: "rend r + 1 = head_offset (ss_ring q) \<longleftrightarrow> unat (rend r) + 1 = length S" if "acked_set q = [r]" for r
  proof -
    have "unat (rend r) < length S"
      using okD(5) range_in_ints [of r "acked_set q"] okD(3) that by simp
    with S(1) have "unat (rend r + 1) = unat (rend r) + 1"
      by (simp add: unat_add_no_overflow)
    with okD(9) show ?thesis
      by (simp add: word_unat_eq_iff)
  qed
  have "v \<in> uint_set_ints (acked_set q)"
    if "ossl_quic_sstream_is_totally_acked q" "unat v < length S" for v
    using that S(2) succ
    by (auto simp: ossl_quic_sstream_is_totally_acked_def ossl_quic_sstream_get_cur_size_def word_le_nat_alt
        split: if_splits list.splits)
  moreover have "have_final_size q \<longrightarrow> acked_final_size q" if "ossl_quic_sstream_is_totally_acked q"
    using that by (auto simp: ossl_quic_sstream_is_totally_acked_def split: if_splits)
  moreover have "ossl_quic_sstream_is_totally_acked q"
    if "uint_set_merged (acked_set q)" "\<forall>v. unat v < length S \<longrightarrow> v \<in> uint_set_ints (acked_set q)"
      "have_final_size q \<longrightarrow> acked_final_size q" "0 < length S"
    using merged_covers_one_range [OF that(1) _ okD(5) that(4) S(1)] that succ
    by (auto simp: ossl_quic_sstream_is_totally_acked_def)
  moreover have "ossl_quic_sstream_is_totally_acked q" if "have_final_size q \<longrightarrow> acked_final_size q" "length S = 0"
    using that S(2) by (auto simp: ossl_quic_sstream_is_totally_acked_def ossl_quic_sstream_get_cur_size_def)
  ultimately show ?thesis
    by blast
qed

theorem sstream_totally_acked_correct_witness:
  "\<not> ossl_quic_sstream_is_totally_acked (sstream_state [1, 2, 3, 0] 4 3 0 [\<lparr>rstart = 0, rend = 2\<rparr>] [])"
  using sstream_totally_acked_correct [OF sstream_example] by (auto dest!: spec [of _ "0 :: u64"])

text \<open>
  When three acknowledgements arrive for bytes 0-4, 10-20 and 5-12 of a stream of 21 bytes,
  every byte is acknowledged, yet the stream is not reported as totally acknowledged, and only the
  first five bytes are released from the send buffer.
\<close>

theorem sstream_overlapping_acks_stall:
  "\<exists>q1 q2 q3. ossl_quic_sstream_mark_acked True (sstream_state (replicate 21 7) 21 21 0 [] []) 0 4 = Inr (q1, True)
     \<and> ossl_quic_sstream_mark_acked True q1 10 20 = Inr (q2, True)
     \<and> ossl_quic_sstream_mark_acked True q2 5 12 = Inr (q3, True)
     \<and> list_all (\<lambda>n. ossl_uint_set_query (acked_set q3) (of_nat n)) [0..<21]
     \<and> \<not> ossl_quic_sstream_is_totally_acked q3
     \<and> ossl_quic_sstream_get_buffer_used q3 = 16"
proof (intro exI conjI)
  let ?m = "replicate 21 7 :: bytes"
  show "ossl_quic_sstream_mark_acked True (sstream_state (replicate 21 7) 21 21 0 [] []) 0 4
    = Inr (sstream_state ?m 21 21 5 [] [\<lparr>rstart = 0, rend = 4\<rparr>], True)"
    by code_simp
  show "ossl_quic_sstream_mark_acked True (sstream_state ?m 21 21 5 [] [\<lparr>rstart = 0, rend = 4\<rparr>]) 10 20
    = Inr (sstream_state ?m 21 21 5 [] [\<lparr>rstart = 0, rend = 4\<rparr>, \<lparr>rstart = 10, rend = 20\<rparr>], True)"
    by code_simp
  show "ossl_quic_sstream_mark_acked True (sstream_state ?m 21 21 5 [] [\<lparr>rstart = 0, rend = 4\<rparr>, \<lparr>rstart = 10, rend = 20\<rparr>]) 5 12
    = Inr (sstream_state ?m 21 21 5 [] [\<lparr>rstart = 0, rend = 4\<rparr>, \<lparr>rstart = 5, rend = 20\<rparr>], True)"
    by code_simp
qed code_simp+

lemma adjust_iov_loop_concat:
  "concat (sstream_adjust_iov_loop len running iov) = take (len - running) (concat iov)"
proof (induction iov arbitrary: running)
  case (Cons v iov)
  then show ?case
    by (auto simp: take_append)
qed simp

text \<open>
  Trimming the iovecs of a frame to a length keeps exactly that many leading bytes, and
  leaves the number of iovecs as it was.
\<close>

theorem sstream_adjust_iov_truncates:
  "concat (ossl_quic_sstream_adjust_iov len iov) = take len (concat iov)
    \<and> length (ossl_quic_sstream_adjust_iov len iov) = length iov"
proof -
  have "length (sstream_adjust_iov_loop len running iov) = length iov" for running
    by (induction iov arbitrary: running) simp_all
  then show ?thesis
    by (simp add: ossl_quic_sstream_adjust_iov_def adjust_iov_loop_concat)
qed

end
