(* ===== verification/Sframe_List.thy ===== *)
theory Sframe_List
  imports Uint_Set
begin

text \<open>
  \<^verbatim>\<open>ssl/quic/quic_sf_list.c\<close>: the list of received STREAM frames not yet read by the application. The
  doubly linked list is a HOL list from head to tail; an iterator is the frame it points to with the
  frames after it. A data pointer is the span of bytes it points to (\<^term>\<open>None\<close> for \<^verbatim>\<open>NULL\<close>: the frame's
  bytes were moved to the ring buffer). Packets are numbers with a reference count. The ranges here
  are half-open: \<^const>\<open>rend\<close> is the offset after the last byte. Cleansing of released packet data is a
  write to memory that is not read again and is not modelled.
\<close>

section \<open>Data\<close>

record stream_frame =
  sf_range :: uint_range
  sf_pkt :: "nat option"
  sf_data :: "bytes option"

record sframe_list =
  frames :: "stream_frame list"
  fl_fin :: bool
  num_frames :: nat
  fl_offset :: u64
  head_locked :: bool
  fl_cleanse :: bool

type_synonym pkt_refs = "nat \<Rightarrow> nat"

abbreviation sf_start :: "stream_frame \<Rightarrow> u64" where "sf_start sf \<equiv> rstart (sf_range sf)"
abbreviation sf_end :: "stream_frame \<Rightarrow> u64" where "sf_end sf \<equiv> rend (sf_range sf)"

section \<open>Operations\<close>

definition ossl_qrx_pkt_up_ref :: "pkt_refs \<Rightarrow> nat option \<Rightarrow> pkt_refs" where
  "ossl_qrx_pkt_up_ref refs pkt = (case pkt of None \<Rightarrow> refs | Some p \<Rightarrow> refs(p := refs p + 1))"

definition ossl_qrx_pkt_release :: "pkt_refs \<Rightarrow> nat option \<Rightarrow> pkt_refs" where
  "ossl_qrx_pkt_release refs pkt = (case pkt of None \<Rightarrow> refs | Some p \<Rightarrow> refs(p := refs p - 1))"

definition stream_frame_free :: "pkt_refs \<Rightarrow> stream_frame \<Rightarrow> pkt_refs" where
  "stream_frame_free refs sf = ossl_qrx_pkt_release refs (sf_pkt sf)"

definition stream_frame_new ::
    "bool \<Rightarrow> pkt_refs \<Rightarrow> uint_range \<Rightarrow> nat option \<Rightarrow> bytes option \<Rightarrow> (stream_frame \<times> pkt_refs) option" where
  "stream_frame_new mem refs rg pkt data =
     (if \<not> mem then None
      else Some (\<lparr>sf_range = rg, sf_pkt = pkt, sf_data = data\<rparr>, ossl_qrx_pkt_up_ref refs pkt))"

definition ossl_sframe_list_init :: sframe_list where
  "ossl_sframe_list_init =
     \<lparr>frames = [], fl_fin = False, num_frames = 0, fl_offset = 0, head_locked = False, fl_cleanse = False\<rparr>"

definition ossl_sframe_list_destroy :: "pkt_refs \<Rightarrow> sframe_list \<Rightarrow> pkt_refs" where
  "ossl_sframe_list_destroy refs fl = foldl stream_frame_free refs (frames fl)"

definition append_frame ::
    "bool \<Rightarrow> pkt_refs \<Rightarrow> sframe_list \<Rightarrow> uint_range \<Rightarrow> nat option \<Rightarrow> bytes option \<Rightarrow> (sframe_list \<times> pkt_refs) option" where
  "append_frame mem refs fl rg pkt data =
     (case stream_frame_new mem refs rg pkt data of
        None \<Rightarrow> None
      | Some (new_frame, refs') \<Rightarrow>
          Some (fl\<lparr>frames := frames fl @ [new_frame], num_frames := num_frames fl + 1\<rparr>, refs'))"

definition ossl_sframe_list_insert ::
    "bool \<Rightarrow> pkt_refs \<Rightarrow> sframe_list \<Rightarrow> uint_range \<Rightarrow> nat option \<Rightarrow> bytes option \<Rightarrow> bool \<Rightarrow> sframe_list \<times> pkt_refs \<times> bool" where
  "ossl_sframe_list_insert mem refs fl rg pkt data fin =
     (let finish = (\<lambda>fl refs. (fl\<lparr>fl_fin := fin \<or> fl_fin fl\<rparr>, refs, True)) in
      if fl_offset fl \<ge> rend rg then finish fl refs
      else if frames fl = [] then
        (case stream_frame_new mem refs rg pkt data of
           None \<Rightarrow> (fl, refs, False)
         | Some (sf, refs') \<Rightarrow> finish (fl\<lparr>frames := [sf], num_frames := num_frames fl + 1\<rparr>) refs')
      else if sf_start (last (frames fl)) < rstart rg then
        (if sf_end (last (frames fl)) \<ge> rend rg then finish fl refs
         else
           case append_frame mem refs fl rg pkt data of
             None \<Rightarrow> (fl, refs, False)
           | Some (fl', refs') \<Rightarrow> finish fl' refs')
      else
        let prevs = takeWhile (\<lambda>sf. sf_start sf < rstart rg) (frames fl);
            sfs = dropWhile (\<lambda>sf. sf_start sf < rstart rg) (frames fl)
        in if sfs = [] then (fl, refs, False)
           else if prevs \<noteq> [] \<and> sf_end (last prevs) \<ge> rend rg then finish fl refs
           else
             case stream_frame_new mem refs rg pkt data of
               None \<Rightarrow> (fl, refs, False)
             | Some (new_frame, refs') \<Rightarrow>
                 let drops = takeWhile (\<lambda>sf. sf_end sf \<le> rend rg) sfs;
                     nexts = dropWhile (\<lambda>sf. sf_end sf \<le> rend rg) sfs;
                     refs'' = foldl stream_frame_free refs' drops;
                     fl' = fl\<lparr>frames := prevs @ nexts, num_frames := num_frames fl - length drops\<rparr>
                 in if nexts \<noteq> [] \<and> prevs \<noteq> [] \<and> sf_start (hd nexts) \<le> sf_end (last prevs)
                    then finish fl' (stream_frame_free refs'' new_frame)
                    else finish (fl'\<lparr>frames := prevs @ new_frame # nexts, num_frames := num_frames fl' + 1\<rparr>) refs'')"

type_synonym sf_iter = "(stream_frame \<times> stream_frame list) option"

record peek_result =
  pk_range :: uint_range
  pk_data :: "bytes option"
  pk_fin :: bool
  pk_iter :: sf_iter

definition ossl_sframe_list_peek :: "sframe_list \<Rightarrow> sf_iter \<Rightarrow> peek_result \<times> bool" where
  "ossl_sframe_list_peek fl iter =
     (let (start, sfs) = (case iter of None \<Rightarrow> (fl_offset fl, frames fl) | Some (sf, nexts) \<Rightarrow> (sf_end sf, nexts))
      in case sfs of
           [] \<Rightarrow> (\<lparr>pk_range = \<lparr>rstart = start, rend = start\<rparr>, pk_data = None, pk_fin = fl_fin fl, pk_iter = None\<rparr>, False)
         | sf # nexts \<Rightarrow>
             if sf_start sf > start \<or> \<not> start < sf_end sf then
               (\<lparr>pk_range = \<lparr>rstart = start, rend = start\<rparr>, pk_data = None, pk_fin = False, pk_iter = None\<rparr>, False)
             else
               (\<lparr>pk_range = \<lparr>rstart = start, rend = sf_end sf\<rparr>,
                 pk_data = map_option (drop (unat (start - sf_start sf))) (sf_data sf),
                 pk_fin = (if nexts = [] then fl_fin fl else False), pk_iter = Some (sf, nexts)\<rparr>, True))"

definition ossl_sframe_list_drop_frames :: "pkt_refs \<Rightarrow> sframe_list \<Rightarrow> u64 \<Rightarrow> sframe_list \<times> pkt_refs \<times> bool" where
  "ossl_sframe_list_drop_frames refs fl limit =
     (if \<not> limit \<ge> fl_offset fl
         \<or> \<not> (frames fl = [] \<or> limit \<le> sf_end (last (frames fl)))
         \<or> \<not> (frames fl \<noteq> [] \<or> limit = fl_offset fl)
      then (fl, refs, False)
      else
        let drops = takeWhile (\<lambda>sf. sf_end sf \<le> limit) (frames fl)
        in (fl\<lparr>fl_offset := limit, frames := dropWhile (\<lambda>sf. sf_end sf \<le> limit) (frames fl),
              num_frames := num_frames fl - length drops, head_locked := False\<rparr>,
            foldl stream_frame_free refs drops, True))"

text \<open>The result is \<^term>\<open>None\<close> when the lock is held already: nothing is written then.\<close>

definition ossl_sframe_list_lock_head :: "sframe_list \<Rightarrow> sframe_list \<times> peek_result option \<times> bool" where
  "ossl_sframe_list_lock_head fl =
     (if head_locked fl then (fl, None, False)
      else
        let (res, ok) = ossl_sframe_list_peek fl None
        in (if ok then fl\<lparr>head_locked := True\<rparr> else fl, Some res, ok))"

definition ossl_sframe_list_is_head_locked :: "sframe_list \<Rightarrow> bool" where
  "ossl_sframe_list_is_head_locked fl = head_locked fl"

text \<open>
  The loop of \<^verbatim>\<open>ossl_sframe_list_move_data\<close>: \<open>prevs\<close> are the frames already passed, last first, and
  \<open>has_prev\<close> says whether \<^verbatim>\<open>prev_frame\<close> is set (it is not while only a locked head was passed). The
  callback may fault; \<open>'r\<close> is the state behind its argument.
\<close>

fun sframe_move_loop ::
    "('r \<Rightarrow> u64 \<Rightarrow> bytes \<Rightarrow> c_fault + 'r \<times> bool) \<Rightarrow> 'r \<Rightarrow> pkt_refs \<Rightarrow> u64 \<Rightarrow> bool \<Rightarrow> stream_frame list
      \<Rightarrow> stream_frame list \<Rightarrow> c_fault + (stream_frame list \<times> 'r \<times> pkt_refs \<times> bool)" where
  "sframe_move_loop cb arg refs limit has_prev prevs [] = Inr (rev prevs, arg, refs, True)"
| "sframe_move_loop cb arg refs limit has_prev prevs (sf # sfs) =
     (let limit = (if limit < sf_start sf then sf_start sf else limit) in
      res_bind
        (case sf_data sf of
           None \<Rightarrow> Inr (sf, arg, refs, True)
         | Some data \<Rightarrow>
             let data = (if limit > sf_start sf then drop (unat (limit - sf_start sf)) data else data)
             in res_bind (cb arg limit (take (unat (sf_end sf - limit)) data)) (\<lambda>(arg', ok).
                  if \<not> ok then Inr (sf, arg', refs, False)
                  else Inr (sf\<lparr>sf_data := None, sf_pkt := None\<rparr>, arg', ossl_qrx_pkt_release refs (sf_pkt sf), True)))
        (\<lambda>(sf, arg, refs, ok).
          if \<not> ok then Inr (rev prevs @ sf # sfs, arg, refs, False)
          else if has_prev \<and> sf_end (hd prevs) \<ge> sf_start sf then
            sframe_move_loop cb arg (stream_frame_free refs sf) (sf_end sf) True
              ((hd prevs)\<lparr>sf_range := (sf_range (hd prevs))\<lparr>rend := sf_end sf\<rparr>\<rparr> # tl prevs) sfs
          else sframe_move_loop cb arg refs (sf_end sf) True (sf # prevs) sfs))"

definition ossl_sframe_list_move_data ::
    "('r \<Rightarrow> u64 \<Rightarrow> bytes \<Rightarrow> c_fault + 'r \<times> bool) \<Rightarrow> 'r \<Rightarrow> pkt_refs \<Rightarrow> sframe_list
      \<Rightarrow> c_fault + (sframe_list \<times> 'r \<times> pkt_refs \<times> bool)" where
  "ossl_sframe_list_move_data write_at_cb arg refs fl =
     (case frames fl of
        [] \<Rightarrow> Inr (fl, arg, refs, True)
      | h # sfs \<Rightarrow>
          res_bind
            (if head_locked fl then sframe_move_loop write_at_cb arg refs (fl_offset fl) False [h] sfs
             else sframe_move_loop write_at_cb arg refs (fl_offset fl) False [] (h # sfs))
            (\<lambda>(fs, arg', refs', ok).
              Inr (fl\<lparr>frames := fs, num_frames := num_frames fl - (length (frames fl) - length fs)\<rparr>, arg', refs', ok)))"

section \<open>Invariant\<close>

text \<open>
  Frames ascend by end, and weakly by start; each ends past the offset already read, and its data, if
  still held, is as long as its range.
\<close>

definition sf_ok :: "stream_frame \<Rightarrow> bool" where
  "sf_ok sf \<longleftrightarrow> sf_start sf \<le> sf_end sf \<and>
     (case sf_data sf of None \<Rightarrow> True | Some d \<Rightarrow> length d = unat (sf_end sf) - unat (sf_start sf))"

definition sf_before :: "stream_frame \<Rightarrow> stream_frame \<Rightarrow> bool" where
  "sf_before x y \<longleftrightarrow> sf_start x \<le> sf_start y \<and> sf_end x < sf_end y"

definition sframes_ok :: "u64 \<Rightarrow> stream_frame list \<Rightarrow> bool" where
  "sframes_ok off fs \<longleftrightarrow> sorted_wrt sf_before fs \<and> (\<forall>sf \<in> set fs. sf_ok sf \<and> off < sf_end sf)"

definition sfl_ok :: "sframe_list \<Rightarrow> bool" where
  "sfl_ok fl \<longleftrightarrow> sframes_ok (fl_offset fl) (frames fl) \<and> num_frames fl = length (frames fl)"

text \<open>The stream offsets the frames hold.\<close>

definition sf_covers :: "stream_frame list \<Rightarrow> nat \<Rightarrow> bool" where
  "sf_covers fs k \<longleftrightarrow> (\<exists>sf \<in> set fs. unat (sf_start sf) \<le> k \<and> k < unat (sf_end sf))"

lemma sframes_ok_simps [simp]:
  "sframes_ok off []"
  "sframes_ok off (sf # fs) \<longleftrightarrow> sf_ok sf \<and> off < sf_end sf \<and> (\<forall>y \<in> set fs. sf_before sf y) \<and> sframes_ok off fs"
  "sframes_ok off (fs @ gs) \<longleftrightarrow> sframes_ok off fs \<and> sframes_ok off gs \<and> (\<forall>x \<in> set fs. \<forall>y \<in> set gs. sf_before x y)"
  by (auto simp: sframes_ok_def sorted_wrt_append)

lemma sf_covers_simps [simp]:
  "\<not> sf_covers [] k"
  "sf_covers (sf # fs) k \<longleftrightarrow> unat (sf_start sf) \<le> k \<and> k < unat (sf_end sf) \<or> sf_covers fs k"
  "sf_covers (fs @ gs) k \<longleftrightarrow> sf_covers fs k \<or> sf_covers gs k"
  by (auto simp: sf_covers_def)

lemma sframes_last:
  assumes "sframes_ok off fs" and "sf \<in> set fs"
  shows "sf = last fs \<or> sf_before sf (last fs)"
  using assms by (induction fs) auto

lemma sframes_ok_takeWhile [simp]: "sframes_ok off fs \<Longrightarrow> sframes_ok off (takeWhile P fs)"
  and sframes_ok_dropWhile [simp]: "sframes_ok off fs \<Longrightarrow> sframes_ok off (dropWhile P fs)"
  using sframes_ok_simps(3) [of off "takeWhile P fs" "dropWhile P fs"] by simp_all

lemma takeWhile_ends:
  assumes "sframes_ok off fs"
  shows "sf \<in> set (takeWhile (\<lambda>sf. sf_end sf \<le> e) fs) \<Longrightarrow> sf_end sf \<le> e"
    and "sf \<in> set (dropWhile (\<lambda>sf. sf_end sf \<le> e) fs) \<Longrightarrow> e < sf_end sf"
proof -
  show "sf \<in> set (takeWhile (\<lambda>sf. sf_end sf \<le> e) fs) \<Longrightarrow> sf_end sf \<le> e"
    by (auto dest: set_takeWhileD)
  show "sf \<in> set (dropWhile (\<lambda>sf. sf_end sf \<le> e) fs) \<Longrightarrow> e < sf_end sf"
    using assms by (induction fs) (auto simp: sf_before_def split: if_splits)
qed

lemma dropWhile_starts:
  assumes "sframes_ok off fs" and "sf \<in> set (dropWhile (\<lambda>sf. sf_start sf < s) fs)"
  shows "s \<le> sf_start sf"
  using assms by (induction fs) (auto simp: sf_before_def split: if_splits)

section \<open>Inserting\<close>

text \<open>
  What an insertion promises: the invariant, the read offset and the lock are kept, the offsets held
  are the old ones and the frame's (as far as not read yet), and on failure (which only a failed
  allocation causes) nothing changes.
\<close>

definition sf_insert_post ::
    "bool \<Rightarrow> sframe_list \<Rightarrow> stream_frame \<Rightarrow> bool \<Rightarrow> pkt_refs \<Rightarrow> sframe_list \<times> pkt_refs \<times> bool \<Rightarrow> bool" where
  "sf_insert_post mem fl new fin refs res \<longleftrightarrow>
     (case res of (fl', refs', ok) \<Rightarrow>
        sfl_ok fl' \<and> fl_offset fl' = fl_offset fl \<and> head_locked fl' = head_locked fl \<and> fl_cleanse fl' = fl_cleanse fl
        \<and> set (frames fl') \<subseteq> insert new (set (frames fl))
        \<and> (if ok then
             fl_fin fl' = (fin \<or> fl_fin fl)
             \<and> (\<forall>k \<ge> unat (fl_offset fl). sf_covers (frames fl') k \<longleftrightarrow>
                  sf_covers (frames fl) k \<or> unat (sf_start new) \<le> k \<and> k < unat (sf_end new))
           else \<not> mem \<and> fl' = fl \<and> refs' = refs))"

lemma insert_middle:
  assumes ok: "sframes_ok off (prevs @ sfs)" and new: "sf_ok new" "off < sf_end new"
    and lo: "\<forall>x \<in> set prevs. sf_start x < sf_start new" and hi: "\<forall>x \<in> set sfs. sf_start new \<le> sf_start x"
    and gap: "prevs \<noteq> [] \<longrightarrow> sf_end (last prevs) < sf_end new"
  defines "nexts \<equiv> dropWhile (\<lambda>sf. sf_end sf \<le> sf_end new) sfs"
  shows "sframes_ok off (prevs @ new # nexts)" and "sframes_ok off (prevs @ nexts)"
    and "sf_covers (prevs @ new # nexts) k \<longleftrightarrow>
      sf_covers (prevs @ sfs) k \<or> unat (sf_start new) \<le> k \<and> k < unat (sf_end new)"
    and "nexts \<noteq> [] \<Longrightarrow> prevs \<noteq> [] \<Longrightarrow> sf_start (hd nexts) \<le> sf_end (last prevs) \<Longrightarrow>
      sf_covers (prevs @ nexts) k \<longleftrightarrow> sf_covers (prevs @ sfs) k \<or> unat (sf_start new) \<le> k \<and> k < unat (sf_end new)"
proof -
  have parts: "sframes_ok off prevs" "sframes_ok off sfs" and cross: "\<forall>x \<in> set prevs. \<forall>y \<in> set sfs. sf_before x y"
    using ok by auto
  have nexts: "set nexts \<subseteq> set sfs"
    by (auto simp: nexts_def dest: set_dropWhileD)
  have ends: "sf_end new < sf_end y" if "y \<in> set nexts" for y
    using takeWhile_ends(2) [OF parts(2)] that by (simp add: nexts_def)
  have low: "sf_end x < sf_end new" if x: "x \<in> set prevs" for x
  proof -
    have "prevs \<noteq> []"
      using x by auto
    with sframes_last [OF parts(1) x] gap show ?thesis
      by (auto simp: sf_before_def)
  qed
  show "sframes_ok off (prevs @ nexts)"
    using parts cross nexts by (auto simp: nexts_def)
  then show "sframes_ok off (prevs @ new # nexts)"
    using new lo hi low ends nexts by (auto simp: sf_before_def)
  define drops where "drops = takeWhile (\<lambda>sf. sf_end sf \<le> sf_end new) sfs"
  have split: "sfs = drops @ nexts"
    by (simp add: drops_def nexts_def)
  have "sf_start new \<le> sf_start x \<and> sf_end x \<le> sf_end new" if "x \<in> set drops" for x
    using that hi unfolding drops_def by (auto dest: set_takeWhileD)
  then have in_drops: "sf_covers drops k \<Longrightarrow> unat (sf_start new) \<le> k \<and> k < unat (sf_end new)"
    unfolding sf_covers_def word_le_nat_alt by (meson less_le_trans order_trans)
  then show "sf_covers (prevs @ new # nexts) k \<longleftrightarrow>
      sf_covers (prevs @ sfs) k \<or> unat (sf_start new) \<le> k \<and> k < unat (sf_end new)"
    unfolding split by auto
  assume ne: "nexts \<noteq> []" "prevs \<noteq> []" "sf_start (hd nexts) \<le> sf_end (last prevs)"
  have a: "sf_start (last prevs) < sf_start new" "sf_end new < sf_end (hd nexts)"
    using lo ends ne by simp_all
  have "sf_covers (prevs @ nexts) k" if k: "unat (sf_start new) \<le> k" "k < unat (sf_end new)"
  proof (cases "k < unat (sf_end (last prevs))")
    case True
    with k a(1) have "unat (sf_start (last prevs)) \<le> k \<and> k < unat (sf_end (last prevs))"
      by (simp add: word_less_nat_alt)
    then show ?thesis
      using last_in_set [OF ne(2)] by (auto simp: sf_covers_def)
  next
    case False
    with k a(2) ne(3) have "unat (sf_start (hd nexts)) \<le> k \<and> k < unat (sf_end (hd nexts))"
      by (simp add: word_less_nat_alt word_le_nat_alt)
    then show ?thesis
      using hd_in_set [OF ne(1)] by (auto simp: sf_covers_def)
  qed
  with in_drops show "sf_covers (prevs @ nexts) k \<longleftrightarrow>
      sf_covers (prevs @ sfs) k \<or> unat (sf_start new) \<le> k \<and> k < unat (sf_end new)"
    unfolding split by auto
qed

lemma covers_subset:
  assumes "x \<in> set fs" and "sf_start x \<le> sf_start new" and "sf_end new \<le> sf_end x"
  shows "unat (sf_start new) \<le> k \<and> k < unat (sf_end new) \<Longrightarrow> sf_covers fs k"
  using assms unfolding sf_covers_def word_le_nat_alt by (meson less_le_trans order_trans)

lemma insert_redundant_post:
  assumes "sfl_ok fl" and "\<And>k. unat (fl_offset fl) \<le> k \<Longrightarrow> unat (sf_start new) \<le> k \<and> k < unat (sf_end new) \<Longrightarrow> sf_covers (frames fl) k"
  shows "sf_insert_post mem fl new fin refs (fl\<lparr>fl_fin := fin \<or> fl_fin fl\<rparr>, refs', True)"
  using assms by (auto simp: sf_insert_post_def sfl_ok_def)

lemma insert_failed_post:
  "sfl_ok fl \<Longrightarrow> \<not> mem \<Longrightarrow> sf_insert_post mem fl new fin refs (fl, refs, False)"
  by (auto simp: sf_insert_post_def)

lemma insert_changed_post:
  assumes "sfl_ok fl" and "sframes_ok (fl_offset fl) fs" and "n = length fs" and "set fs \<subseteq> insert new (set (frames fl))"
    and "\<And>k. sf_covers fs k \<longleftrightarrow> sf_covers (frames fl) k \<or> unat (sf_start new) \<le> k \<and> k < unat (sf_end new)"
  shows "sf_insert_post mem fl new fin refs (fl\<lparr>frames := fs, num_frames := n, fl_fin := fin \<or> fl_fin fl\<rparr>, refs', True)"
  using assms by (auto simp: sf_insert_post_def sfl_ok_def)

lemma insert_middle_post:
  assumes ok: "sfl_ok fl" and fs: "frames fl = prevs @ sfs" and sfs: "sfs = drops @ nexts"
  shows "sframes_ok (fl_offset fl) (prevs @ nexts) \<Longrightarrow>
      (\<And>k. sf_covers (prevs @ nexts) k \<longleftrightarrow> sf_covers (prevs @ sfs) k \<or> unat (sf_start new) \<le> k \<and> k < unat (sf_end new)) \<Longrightarrow>
      sf_insert_post mem fl new fin refs
        (fl\<lparr>frames := prevs @ nexts, num_frames := num_frames fl - length drops, fl_fin := fin \<or> fl_fin fl\<rparr>, r, True)"
    and "sframes_ok (fl_offset fl) (prevs @ new # nexts) \<Longrightarrow>
      (\<And>k. sf_covers (prevs @ new # nexts) k \<longleftrightarrow> sf_covers (prevs @ sfs) k \<or> unat (sf_start new) \<le> k \<and> k < unat (sf_end new)) \<Longrightarrow>
      sf_insert_post mem fl new fin refs
        (fl\<lparr>frames := prevs @ new # nexts, num_frames := num_frames fl - length drops + 1, fl_fin := fin \<or> fl_fin fl\<rparr>, r, True)"
proof -
  have num: "num_frames fl = length prevs + length drops + length nexts"
    using ok fs sfs by (simp add: sfl_ok_def)
  have sub: "set (prevs @ nexts) \<subseteq> set (frames fl)"
    using fs sfs by auto
  show "sf_insert_post mem fl new fin refs
      (fl\<lparr>frames := prevs @ nexts, num_frames := num_frames fl - length drops, fl_fin := fin \<or> fl_fin fl\<rparr>, r, True)"
    if "sframes_ok (fl_offset fl) (prevs @ nexts)"
      "\<And>k. sf_covers (prevs @ nexts) k \<longleftrightarrow> sf_covers (prevs @ sfs) k \<or> unat (sf_start new) \<le> k \<and> k < unat (sf_end new)"
    by (rule insert_changed_post [OF ok that(1)]) (use num sub that(2) fs in auto)
  show "sf_insert_post mem fl new fin refs
      (fl\<lparr>frames := prevs @ new # nexts, num_frames := num_frames fl - length drops + 1, fl_fin := fin \<or> fl_fin fl\<rparr>, r, True)"
    if "sframes_ok (fl_offset fl) (prevs @ new # nexts)"
      "\<And>k. sf_covers (prevs @ new # nexts) k \<longleftrightarrow> sf_covers (prevs @ sfs) k \<or> unat (sf_start new) \<le> k \<and> k < unat (sf_end new)"
    by (rule insert_changed_post [OF ok that(1)]) (use num sub that(2) fs in auto)
qed

lemma sframe_list_insert_post:
  assumes ok: "sfl_ok fl" and rg: "rstart rg \<le> rend rg"
    and data: "case data of None \<Rightarrow> True | Some d \<Rightarrow> length d = unat (rend rg) - unat (rstart rg)"
  shows "sf_insert_post mem fl \<lparr>sf_range = rg, sf_pkt = pkt, sf_data = data\<rparr> fin refs
    (ossl_sframe_list_insert mem refs fl rg pkt data fin)"
proof -
  let ?new = "\<lparr>sf_range = rg, sf_pkt = pkt, sf_data = data\<rparr>"
  let ?prevs = "takeWhile (\<lambda>sf. sf_start sf < rstart rg) (frames fl)"
    and ?sfs = "dropWhile (\<lambda>sf. sf_start sf < rstart rg) (frames fl)"
  let ?drops = "takeWhile (\<lambda>sf. sf_end sf \<le> rend rg) ?sfs" and ?nexts = "dropWhile (\<lambda>sf. sf_end sf \<le> rend rg) ?sfs"
  have fs: "sframes_ok (fl_offset fl) (frames fl)" and num: "num_frames fl = length (frames fl)"
    using ok by (auto simp: sfl_ok_def)
  have new: "sf_ok ?new"
    using rg data by (simp add: sf_ok_def split: option.splits)
  note def = ossl_sframe_list_insert_def [of mem refs fl rg pkt data fin, unfolded Let_def append_frame_def stream_frame_new_def]
  show ?thesis
  proof (cases "fl_offset fl \<ge> rend rg")
    case True
    then show ?thesis
      unfolding def if_P [OF True] by (intro insert_redundant_post [OF ok]) (auto simp: word_le_nat_alt)
  next
    case unread: False
    then have off: "fl_offset fl < sf_end ?new"
      by simp
    show ?thesis
    proof (cases "frames fl = []")
      case True
      have "sf_insert_post mem fl ?new fin refs
          (fl\<lparr>frames := [?new], num_frames := num_frames fl + 1, fl_fin := fin \<or> fl_fin fl\<rparr>, ossl_qrx_pkt_up_ref refs pkt, True)"
        using True num new off by (intro insert_changed_post [OF ok]) simp_all
      then show ?thesis
        unfolding def if_not_P [OF unread] if_P [OF True] using insert_failed_post [OF ok] by (cases mem) simp_all
    next
      case ne: False
      show ?thesis
      proof (cases "sf_start (last (frames fl)) < rstart rg")
        case tail: True
        have "sf_insert_post mem fl ?new fin refs (fl\<lparr>fl_fin := fin \<or> fl_fin fl\<rparr>, refs, True)"
          if "sf_end (last (frames fl)) \<ge> rend rg"
          using that tail covers_subset [of "last (frames fl)" "frames fl" ?new] ne
          by (intro insert_redundant_post [OF ok]) (simp add: order_less_imp_le)
        moreover have "sf_insert_post mem fl ?new fin refs
            (fl\<lparr>frames := frames fl @ [?new], num_frames := num_frames fl + 1, fl_fin := fin \<or> fl_fin fl\<rparr>,
             ossl_qrx_pkt_up_ref refs pkt, True)" if "\<not> sf_end (last (frames fl)) \<ge> rend rg"
          using that tail fs num new off sframes_last [OF fs]
          by (intro insert_changed_post [OF ok]) (fastforce simp: sf_before_def)+
        ultimately show ?thesis
          unfolding def if_not_P [OF unread] if_not_P [OF ne] if_P [OF tail]
          using insert_failed_post [OF ok] by (cases mem) simp_all
      next
        case middle: False
        then have sfs: "?sfs \<noteq> []"
          using ne by (metis dropWhile_eq_Nil_conv last_in_set)
        show ?thesis
        proof (cases "?prevs \<noteq> [] \<and> sf_end (last ?prevs) \<ge> rend rg")
          case True
          then have "last ?prevs \<in> set (frames fl)" "sf_start (last ?prevs) < rstart rg"
            by (meson last_in_set set_takeWhileD)+
          with True show ?thesis
            unfolding def if_not_P [OF unread] if_not_P [OF ne] if_not_P [OF middle] if_not_P [OF sfs] if_P [OF True]
            using covers_subset [of "last ?prevs" "frames fl" ?new]
            by (intro insert_redundant_post [OF ok]) (simp add: order_less_imp_le)
        next
          case gap: False
          have fs': "sframes_ok (fl_offset fl) (?prevs @ ?sfs)" "frames fl = ?prevs @ ?sfs"
            using fs by simp_all
          have lo: "\<forall>x \<in> set ?prevs. sf_start x < sf_start ?new"
            by (auto dest: set_takeWhileD)
          have hi: "\<forall>x \<in> set ?sfs. sf_start ?new \<le> sf_start x"
            using dropWhile_starts [OF fs] by simp
          have last: "?prevs \<noteq> [] \<longrightarrow> sf_end (last ?prevs) < sf_end ?new"
            using gap by auto
          note mid = insert_middle [OF fs'(1) new off lo hi last, unfolded stream_frame.select_convs]
          let ?cond = "?nexts \<noteq> [] \<and> ?prevs \<noteq> [] \<and> sf_start (hd ?nexts) \<le> sf_end (last ?prevs)"
          have split: "?sfs = ?drops @ ?nexts"
            by (simp only: takeWhile_dropWhile_id)
          have "sf_insert_post mem fl ?new fin refs
              (fl\<lparr>frames := ?prevs @ ?nexts, num_frames := num_frames fl - length ?drops, fl_fin := fin \<or> fl_fin fl\<rparr>, r, True)"
            if c: ?cond for r
            by (rule insert_middle_post(1) [OF ok fs'(2) split mid(2)], unfold stream_frame.select_convs,
                rule mid(4) [OF conjunct1 [OF c] conjunct1 [OF conjunct2 [OF c]] conjunct2 [OF conjunct2 [OF c]]])
          moreover have "sf_insert_post mem fl ?new fin refs
              (fl\<lparr>frames := ?prevs @ ?new # ?nexts, num_frames := num_frames fl - length ?drops + 1, fl_fin := fin \<or> fl_fin fl\<rparr>, r, True)"
            for r
            by (rule insert_middle_post(2) [OF ok fs'(2) split mid(1)], unfold stream_frame.select_convs, rule mid(3))
          ultimately show ?thesis
            unfolding def if_not_P [OF unread] if_not_P [OF ne] if_not_P [OF middle] if_not_P [OF sfs] if_not_P [OF gap]
            using insert_failed_post [OF ok] by (cases mem; cases ?cond) simp_all
        qed
      qed
    qed
  qed
qed

section \<open>Dropping\<close>

text \<open>How far the list reaches: no insertion, and no move of data, brings the end of its last frame back.\<close>

definition reaches :: "u64 \<Rightarrow> stream_frame list \<Rightarrow> bool" where
  "reaches e fs \<longleftrightarrow> fs \<noteq> [] \<and> e \<le> sf_end (last fs)"

lemma reaches_if: "sframes_ok off fs \<Longrightarrow> x \<in> set fs \<Longrightarrow> e \<le> sf_end x \<Longrightarrow> reaches e fs"
  using sframes_last [of off fs x] unfolding reaches_def sf_before_def by fastforce

lemma insert_reaches:
  assumes ok: "sfl_ok fl" and ins: "ossl_sframe_list_insert mem refs fl rg pkt data fin = (fl', refs', True)"
  shows "reaches e (frames fl) \<Longrightarrow> reaches e (frames fl')" and "fl_offset fl < rend rg \<Longrightarrow> reaches (rend rg) (frames fl')"
proof -
  let ?prevs = "takeWhile (\<lambda>sf. sf_start sf < rstart rg) (frames fl)"
    and ?sfs = "dropWhile (\<lambda>sf. sf_start sf < rstart rg) (frames fl)"
  let ?nexts = "dropWhile (\<lambda>sf. sf_end sf \<le> rend rg) ?sfs"
  note def = ossl_sframe_list_insert_def [of mem refs fl rg pkt data fin, unfolded Let_def append_frame_def stream_frame_new_def]
  have fs: "sframes_ok (fl_offset fl) (frames fl)"
    using ok by (simp add: sfl_ok_def)
  have split: "frames fl = ?prevs @ ?sfs"
    by simp
  have kept: "reaches (rend rg) (frames fl)" if "?prevs \<noteq> []" "sf_end (last ?prevs) \<ge> rend rg"
    using that(2) set_takeWhileD [OF last_in_set [OF that(1)]] by (intro reaches_if [OF fs]) simp_all
  have tail: "sf_end (last (frames fl)) = sf_end (last ?nexts) \<and> rend rg < sf_end (last ?nexts)" if "?nexts \<noteq> []"
  proof -
    have "?sfs = takeWhile (\<lambda>sf. sf_end sf \<le> rend rg) ?sfs @ ?nexts"
      by simp
    then have "last (frames fl) = last ?nexts"
      using that split by (metis last_appendR append_is_Nil_conv)
    moreover have "rend rg < sf_end (last ?nexts)"
      using takeWhile_ends(2) [OF sframes_ok_dropWhile [OF fs] last_in_set [OF that]] .
    ultimately show ?thesis
      by simp
  qed
  have no_tail: "sf_end x \<le> rend rg" if "?nexts = []" "x \<in> set ?sfs" for x
    using that by (simp add: dropWhile_eq_Nil_conv)
  have "(reaches e (frames fl) \<longrightarrow> reaches e (frames fl')) \<and> (fl_offset fl < rend rg \<longrightarrow> reaches (rend rg) (frames fl'))"
  proof (cases "fl_offset fl \<ge> rend rg \<or> frames fl = [] \<or> sf_start (last (frames fl)) < rstart rg
      \<or> ?prevs \<noteq> [] \<and> sf_end (last ?prevs) \<ge> rend rg")
    case True
    then show ?thesis
      using ins kept unfolding def by (auto simp: reaches_def split: if_splits)
  next
    case False
    then have fl': "frames fl' = ?prevs @ ?nexts \<and> ?nexts \<noteq> []
        \<or> (\<exists>d. frames fl' = ?prevs @ \<lparr>sf_range = rg, sf_pkt = pkt, sf_data = d\<rparr> # ?nexts)"
      using ins unfolding def by (auto split: if_splits)
    show ?thesis
    proof (cases "?nexts = []")
      case True
      have "sf_end x \<le> rend rg" if "x \<in> set (frames fl)" for x
      proof (cases "x \<in> set ?sfs")
        case False
        then have "x \<in> set ?prevs"
          using that split by (metis Un_iff set_append)
        then have "?prevs \<noteq> []" "x = last ?prevs \<or> sf_before x (last ?prevs)"
          using sframes_last [OF sframes_ok_takeWhile [OF fs]] by auto
        with \<open>\<not> (fl_offset fl \<ge> rend rg \<or> frames fl = [] \<or> sf_start (last (frames fl)) < rstart rg
          \<or> ?prevs \<noteq> [] \<and> sf_end (last ?prevs) \<ge> rend rg)\<close> show ?thesis
          by (auto simp: sf_before_def)
      qed (use no_tail [OF True] in simp)
      with fl' True show ?thesis
        by (auto simp: reaches_def intro: order_trans)
    next
      case nexts: False
      from fl' have "\<exists>pre. frames fl' = pre @ ?nexts"
        by (metis append_Cons append_Nil append_assoc)
      then obtain pre where "frames fl' = pre @ ?nexts" ..
      then have "frames fl' \<noteq> []" "last (frames fl') = last ?nexts"
        unfolding last_appendR [OF nexts, of pre, symmetric] using nexts by (metis append_is_Nil_conv)+
      then show ?thesis
        using tail [OF nexts] by (simp add: reaches_def order_less_imp_le)
    qed
  qed
  then show "reaches e (frames fl) \<Longrightarrow> reaches e (frames fl')" and "fl_offset fl < rend rg \<Longrightarrow> reaches (rend rg) (frames fl')"
    by blast+
qed

lemma move_loop_reaches:
  assumes "sframe_move_loop cb arg refs limit has_prev prevs sfs = Inr (fs, arg', refs', ok)"
    and "rev prevs @ sfs \<noteq> []" and "has_prev \<Longrightarrow> prevs \<noteq> []"
  shows "fs \<noteq> [] \<and> sf_end (last fs) = sf_end (last (rev prevs @ sfs))"
  using assms
proof (induction sfs arbitrary: arg refs limit has_prev prevs)
  case Nil
  then show ?case
    by auto
next
  case (Cons sf sfs)
  have step: "fs \<noteq> [] \<and> sf_end (last fs) = sf_end (last (rev prevs @ sf # sfs))"
    if run: "(if has_prev \<and> sf_end (hd prevs) \<ge> sf_start sf'
       then sframe_move_loop cb a (stream_frame_free r sf') (sf_end sf') True
         ((hd prevs)\<lparr>sf_range := (sf_range (hd prevs))\<lparr>rend := sf_end sf'\<rparr>\<rparr> # tl prevs) sfs
       else sframe_move_loop cb a r (sf_end sf') True (sf' # prevs) sfs) = Inr (fs, arg', refs', ok)"
      and sf': "sf_end sf' = sf_end sf" for sf' a r
  proof (cases "has_prev \<and> sf_end (hd prevs) \<ge> sf_start sf'")
    case True
    from Cons.IH [OF run [unfolded if_P [OF True]]] sf' show ?thesis
      by (cases sfs) simp_all
  next
    case False
    from Cons.IH [OF run [unfolded if_not_P [OF False]]] sf' show ?thesis
      by (cases sfs) simp_all
  qed
  show ?case
  proof (cases "sf_data sf")
    case None
    with Cons.prems(1) step [where sf' = sf] show ?thesis
      by (simp add: Let_def)
  next
    case (Some d)
    with Cons.prems(1) step [where sf' = "sf\<lparr>sf_data := None, sf_pkt := None\<rparr>"] show ?thesis
      by (auto simp: Let_def res_bind_def split: sum.splits if_splits)
  qed
qed

lemma drop_frames_covers:
  assumes "sframes_ok off fs" and "unat limit \<le> k"
  shows "sf_covers (dropWhile (\<lambda>sf. sf_end sf \<le> limit) fs) k \<longleftrightarrow> sf_covers fs k"
proof -
  have "\<not> sf_covers (takeWhile (\<lambda>sf. sf_end sf \<le> limit) fs) k"
    using assms(2) by (auto simp: sf_covers_def word_le_nat_alt dest: set_takeWhileD)
  then show ?thesis
    using sf_covers_simps(3) [of "takeWhile (\<lambda>sf. sf_end sf \<le> limit) fs" "dropWhile (\<lambda>sf. sf_end sf \<le> limit) fs" k] by simp
qed

lemma drop_frames_spec:
  assumes ok: "sfl_ok fl" and res: "ossl_sframe_list_drop_frames refs fl limit = (fl', refs', b)"
  shows "sfl_ok fl'"
    and "\<not> b \<Longrightarrow> fl' = fl \<and> refs' = refs"
    and "b \<longleftrightarrow> fl_offset fl \<le> limit \<and> (if frames fl = [] then limit = fl_offset fl else limit \<le> sf_end (last (frames fl)))"
    and "b \<Longrightarrow> fl_offset fl' = limit \<and> frames fl' = dropWhile (\<lambda>sf. sf_end sf \<le> limit) (frames fl)
      \<and> \<not> head_locked fl' \<and> fl_fin fl' = fl_fin fl \<and> fl_cleanse fl' = fl_cleanse fl
      \<and> refs' = foldl stream_frame_free refs (takeWhile (\<lambda>sf. sf_end sf \<le> limit) (frames fl))"
proof -
  let ?fs = "frames fl"
  have fs: "sframes_ok (fl_offset fl) ?fs"
    using ok by (simp add: sfl_ok_def)
  have "sframes_ok limit (dropWhile (\<lambda>sf. sf_end sf \<le> limit) ?fs)"
    using sframes_ok_dropWhile [OF fs, of "\<lambda>sf. sf_end sf \<le> limit"] takeWhile_ends(2) [OF fs]
    by (simp add: sframes_ok_def)
  moreover have "length ?fs - length (takeWhile (\<lambda>sf. sf_end sf \<le> limit) ?fs) = length (dropWhile (\<lambda>sf. sf_end sf \<le> limit) ?fs)"
    by (metis add_diff_cancel_left' length_append takeWhile_dropWhile_id)
  ultimately show "sfl_ok fl'"
    using res ok by (auto simp: ossl_sframe_list_drop_frames_def sfl_ok_def Let_def split: if_splits)
  show "b \<longleftrightarrow> fl_offset fl \<le> limit \<and> (if ?fs = [] then limit = fl_offset fl else limit \<le> sf_end (last ?fs))"
    using res by (auto simp: ossl_sframe_list_drop_frames_def Let_def split: if_splits)
qed (use res in \<open>auto simp: ossl_sframe_list_drop_frames_def Let_def split: if_splits\<close>)

section \<open>Packet references\<close>

definition held :: "stream_frame list \<Rightarrow> nat \<Rightarrow> nat" where
  "held fs p = length (filter (\<lambda>sf. sf_pkt sf = Some p) fs)"

text \<open>Every frame in the list holds one reference on its packet, on top of the \<open>base\<close> references of others.\<close>

definition refs_ok :: "pkt_refs \<Rightarrow> pkt_refs \<Rightarrow> stream_frame list \<Rightarrow> bool" where
  "refs_ok base refs fs \<longleftrightarrow> (\<forall>p. refs p = base p + held fs p)"

lemma held_simps [simp]:
  "held [] p = 0" "held (sf # fs) p = (if sf_pkt sf = Some p then 1 else 0) + held fs p"
  "held (fs @ gs) p = held fs p + held gs p"
  by (simp_all add: held_def)

lemma free_refs: "refs_ok base refs (sf # fs) \<Longrightarrow> refs_ok base (stream_frame_free refs sf) fs"
  by (auto simp: refs_ok_def stream_frame_free_def ossl_qrx_pkt_release_def split: option.splits)

lemma free_all_refs: "refs_ok base refs (ds @ fs) \<Longrightarrow> refs_ok base (foldl stream_frame_free refs ds) fs"
  by (induction ds arbitrary: refs) (auto dest: free_refs)

lemma up_ref_refs:
  "refs_ok base refs fs \<Longrightarrow> refs_ok base (ossl_qrx_pkt_up_ref refs pkt) (\<lparr>sf_range = rg, sf_pkt = pkt, sf_data = data\<rparr> # fs)"
  by (auto simp: refs_ok_def ossl_qrx_pkt_up_ref_def split: option.splits)

lemma refs_ok_cong: "refs_ok base refs fs \<Longrightarrow> (\<And>p. held fs p = held gs p) \<Longrightarrow> refs_ok base refs gs"
  by (simp add: refs_ok_def)

lemma insert_refs:
  assumes "refs_ok base refs (frames fl)" and "ossl_sframe_list_insert mem refs fl rg pkt data fin = (fl', refs', b)"
  shows "refs_ok base refs' (frames fl')"
proof -
  let ?new = "\<lparr>sf_range = rg, sf_pkt = pkt, sf_data = data\<rparr>"
  define prevs where "prevs = takeWhile (\<lambda>sf. sf_start sf < rstart rg) (frames fl)"
  define sfs where "sfs = dropWhile (\<lambda>sf. sf_start sf < rstart rg) (frames fl)"
  define drops where "drops = takeWhile (\<lambda>sf. sf_end sf \<le> rend rg) sfs"
  define nexts where "nexts = dropWhile (\<lambda>sf. sf_end sf \<le> rend rg) sfs"
  have fs: "frames fl = prevs @ drops @ nexts"
    by (simp add: prevs_def sfs_def drops_def nexts_def)
  have up: "refs_ok base (ossl_qrx_pkt_up_ref refs pkt) (?new # frames fl)"
    using assms(1) by (rule up_ref_refs)
  then have dropped: "refs_ok base (foldl stream_frame_free (ossl_qrx_pkt_up_ref refs pkt) drops) (?new # prevs @ nexts)"
    by (intro free_all_refs) (erule refs_ok_cong, simp add: fs)
  have freed: "refs_ok base (stream_frame_free (foldl stream_frame_free (ossl_qrx_pkt_up_ref refs pkt) drops) ?new) (prevs @ nexts)"
    using dropped by (rule free_refs)
  have inserted: "refs_ok base (foldl stream_frame_free (ossl_qrx_pkt_up_ref refs pkt) drops) (prevs @ ?new # nexts)"
    using dropped by (rule refs_ok_cong) simp
  have appended: "refs_ok base (ossl_qrx_pkt_up_ref refs pkt) (frames fl @ [?new])"
    using up by (rule refs_ok_cong) simp
  show ?thesis
    using assms(2) assms(1) freed inserted appended up
    unfolding ossl_sframe_list_insert_def append_frame_def stream_frame_new_def Let_def
      prevs_def [symmetric] sfs_def [symmetric] drops_def [symmetric] nexts_def [symmetric]
    by (auto split: if_splits)
qed

section \<open>Reachable frame lists\<close>

text \<open>
  A frame list that receives frames of the peer's stream \<open>S\<close> in any order, with overlaps and repetitions,
  while the reader drops what it has read; \<open>R\<close> are the offsets received so far. Packets carry the
  bytes of \<open>S\<close> at their offset, as QUIC requires of the sender.
\<close>

inductive sframe_reach :: "(nat \<Rightarrow> u8) \<Rightarrow> pkt_refs \<Rightarrow> sframe_list \<Rightarrow> pkt_refs \<Rightarrow> nat set \<Rightarrow> bool" for S base where
  init: "sframe_reach S base ossl_sframe_list_init base {}"
| insert: "sframe_reach S base fl refs R \<Longrightarrow> rstart rg \<le> rend rg \<Longrightarrow>
    data = map S [unat (rstart rg)..<unat (rend rg)] \<Longrightarrow>
    ossl_sframe_list_insert mem refs fl rg pkt (Some data) fin = (fl', refs', b) \<Longrightarrow>
    sframe_reach S base fl' refs' (if b then R \<union> {unat (rstart rg)..<unat (rend rg)} else R)"
| drop: "sframe_reach S base fl refs R \<Longrightarrow> ossl_sframe_list_drop_frames refs fl limit = (fl', refs', b) \<Longrightarrow>
    sframe_reach S base fl' refs' R"
| lock: "sframe_reach S base fl refs R \<Longrightarrow> sframe_reach S base (fst (ossl_sframe_list_lock_head fl)) refs R"

definition holds_stream :: "(nat \<Rightarrow> u8) \<Rightarrow> stream_frame \<Rightarrow> bool" where
  "holds_stream S sf \<longleftrightarrow> sf_data sf = Some (map S [unat (sf_start sf)..<unat (sf_end sf)])"

lemma lock_head_frames [simp]:
  "frames (fst (ossl_sframe_list_lock_head fl)) = frames fl" "fl_offset (fst (ossl_sframe_list_lock_head fl)) = fl_offset fl"
  "num_frames (fst (ossl_sframe_list_lock_head fl)) = num_frames fl"
  by (simp_all add: ossl_sframe_list_lock_head_def case_prod_unfold Let_def)

lemma sframe_reach_ok:
  "sframe_reach S base fl refs R \<Longrightarrow> sfl_ok fl \<and> (\<forall>sf \<in> set (frames fl). holds_stream S sf)
    \<and> (\<forall>k \<ge> unat (fl_offset fl). sf_covers (frames fl) k \<longleftrightarrow> k \<in> R) \<and> refs_ok base refs (frames fl)"
proof (induction rule: sframe_reach.induct)
  case init
  show ?case
    by (simp add: sfl_ok_def ossl_sframe_list_init_def refs_ok_def)
next
  case (insert fl refs R rg data mem pkt fin fl' refs' b)
  let ?new = "\<lparr>sf_range = rg, sf_pkt = pkt, sf_data = Some data\<rparr>"
  have "sf_insert_post mem fl ?new fin refs (fl', refs', b)"
    using sframe_list_insert_post [of fl rg "Some data" mem pkt fin refs] insert by simp
  moreover have "holds_stream S ?new"
    using insert.hyps(3) by (simp add: holds_stream_def)
  moreover have "refs_ok base refs' (frames fl')"
    using insert_refs insert.IH insert.hyps(4) by blast
  ultimately show ?case
    using insert.IH unfolding sf_insert_post_def by (cases b) auto
next
  case (drop fl refs R limit fl' refs' b)
  note spec = drop_frames_spec [OF conjunct1 [OF drop.IH] drop.hyps(2)]
  show ?case
  proof (cases b)
    case True
    note s = spec(4) [OF True]
    have le: "unat (fl_offset fl) \<le> unat limit"
      using spec(3) True by (simp add: word_le_nat_alt)
    have fs: "sframes_ok (fl_offset fl) (frames fl)"
      using drop.IH by (simp add: sfl_ok_def)
    have "sf_covers (frames fl') k \<longleftrightarrow> k \<in> R" if "unat (fl_offset fl') \<le> k" for k
      using drop.IH that s le drop_frames_covers [OF fs, of limit k] by simp
    moreover have "refs_ok base refs' (frames fl')"
      using drop.IH s free_all_refs [of base refs "takeWhile (\<lambda>sf. sf_end sf \<le> limit) (frames fl)"] by simp
    ultimately show ?thesis
      using spec(1) drop.IH s by (auto dest: set_dropWhileD)
  next
    case False
    with spec(2) drop.IH show ?thesis
      by simp
  qed
next
  case (lock fl refs R)
  then show ?case
    by (simp add: sfl_ok_def)
qed

text \<open>
  Property C22. Whatever the order in which frames arrive and however they overlap, the list holds
  exactly the received offsets that were not yet dropped, each with the byte of the peer's stream at
  that offset; frames stay sorted, the frame count is right, and every held frame accounts for one
  packet reference: destroying the list gives all of them back.
\<close>

theorem sframe_list_holds_received:
  assumes "sframe_reach S base fl refs R"
  shows "sfl_ok fl \<and> (\<forall>k \<ge> unat (fl_offset fl). sf_covers (frames fl) k \<longleftrightarrow> k \<in> R)
    \<and> (\<forall>sf \<in> set (frames fl). holds_stream S sf) \<and> ossl_sframe_list_destroy refs fl = base"
proof -
  have "refs_ok base (foldl stream_frame_free refs (frames fl)) []"
    using sframe_reach_ok [OF assms] by (intro free_all_refs) simp
  then have "ossl_sframe_list_destroy refs fl = base"
    by (auto simp: refs_ok_def ossl_sframe_list_destroy_def)
  with sframe_reach_ok [OF assms] show ?thesis
    by blast
qed

definition sframe_example :: sframe_list where
  "sframe_example = \<lparr>frames = [\<lparr>sf_range = \<lparr>rstart = 3, rend = 5\<rparr>, sf_pkt = Some 9, sf_data = Some [7, 7]\<rparr>],
     fl_fin = False, num_frames = 1, fl_offset = 0, head_locked = False, fl_cleanse = False\<rparr>"

lemma sframe_reach_example: "sframe_reach (\<lambda>_. 7) (\<lambda>_. 1) sframe_example ((\<lambda>_. 1)(9 := 1 + 1)) {3, 4}"
proof -
  have "ossl_sframe_list_insert True (\<lambda>_. 1) ossl_sframe_list_init \<lparr>rstart = 3, rend = 5\<rparr> (Some 9) (Some [7, 7]) False
      = (sframe_example, (\<lambda>_. 1)(9 := 1 + 1), True)"
    by (simp add: ossl_sframe_list_insert_def ossl_sframe_list_init_def stream_frame_new_def ossl_qrx_pkt_up_ref_def
        sframe_example_def Let_def)
  then have "sframe_reach (\<lambda>_. 7) (\<lambda>_. 1) sframe_example ((\<lambda>_. 1)(9 := 1 + 1))
      (if True then {} \<union> {unat (rstart \<lparr>rstart = 3 :: u64, rend = 5\<rparr>)..<unat (rend \<lparr>rstart = 3, rend = 5\<rparr>)} else {})"
    by (intro sframe_reach.insert [OF sframe_reach.init]) (simp_all add: upt_rec)
  moreover have "{3..<5} = {3, 4 :: nat}"
    by auto
  ultimately show ?thesis
    by simp
qed

theorem sframe_list_holds_received_witness:
  "sf_covers (frames sframe_example) 4 \<and> ossl_sframe_list_destroy ((\<lambda>_. 1)(9 := 1 + 1)) sframe_example = (\<lambda>_. 1)"
  using sframe_list_holds_received [OF sframe_reach_example] by (simp add: sframe_example_def)

text \<open>
  A retransmission of the beginning of a frame that is still held is inserted although it
  lies within that frame, against the header's invariant that no frame is encompassed by another:
  after [0,10) and then [0,5) the list holds both.
\<close>

theorem sframe_list_keeps_encompassed_frame:
  "map sf_range (frames (fst (ossl_sframe_list_insert True (\<lambda>_. 1)
      (fst (ossl_sframe_list_insert True (\<lambda>_. 1) ossl_sframe_list_init \<lparr>rstart = 0, rend = 10\<rparr> (Some 1) (Some (replicate 10 7)) False))
      \<lparr>rstart = 0, rend = 5\<rparr> (Some 2) (Some (replicate 5 7)) False)))
    = [\<lparr>rstart = 0, rend = 5\<rparr>, \<lparr>rstart = 0, rend = 10\<rparr>]"
  by (simp add: ossl_sframe_list_insert_def ossl_sframe_list_init_def stream_frame_new_def Let_def)

text \<open>
  The lock on the head frame does not protect it: when a frame arrives that covers the
  locked frame, the locked frame is freed and its packet reference released, while the caller still
  has a pointer into that packet.
\<close>

theorem sframe_list_frees_locked_head:
  "\<exists>fl1 refs1 fl2 res fl3 refs3.
     ossl_sframe_list_insert True (\<lambda>_. 0) ossl_sframe_list_init \<lparr>rstart = 0, rend = 2\<rparr> (Some 1) (Some [7, 7]) False = (fl1, refs1, True)
     \<and> refs1 1 = 1 \<and> ossl_sframe_list_lock_head fl1 = (fl2, Some res, True) \<and> pk_data res = Some [7, 7]
     \<and> ossl_sframe_list_insert True refs1 fl2 \<lparr>rstart = 0, rend = 4\<rparr> (Some 2) (Some [7, 7, 7, 7]) False = (fl3, refs3, True)
     \<and> head_locked fl3 \<and> refs3 1 = 0"
  by (simp add: ossl_sframe_list_insert_def ossl_sframe_list_init_def stream_frame_new_def Let_def
      ossl_sframe_list_lock_head_def ossl_sframe_list_peek_def ossl_qrx_pkt_up_ref_def stream_frame_free_def
      ossl_qrx_pkt_release_def)

end
