(* ===== verification/Ossl_Time.thy ===== *)
theory Ossl_Time
  imports Safe_Math
begin

text \<open>
  \<^verbatim>\<open>include/internal/time.h\<close>: \<^verbatim>\<open>OSSL_TIME\<close>, a count of nanosecond ticks in a \<^verbatim>\<open>uint64_t\<close>, and its
  saturating arithmetic. The type is made a linear order, so that the comparisons of the code
  (\<^verbatim>\<open>ossl_time_compare(a, b) < 0\<close> and the like) are the order's.
\<close>

section \<open>The type and its operations\<close>

datatype ossl_time = Ticks (ossl_time2ticks: u64)

definition ossl_ticks2time :: "u64 \<Rightarrow> ossl_time" where
  "ossl_ticks2time ticks = Ticks ticks"

definition OSSL_TIME_SECOND :: u64 where
  "OSSL_TIME_SECOND = 1000000000"

definition OSSL_TIME_MS :: u64 where
  "OSSL_TIME_MS = OSSL_TIME_SECOND div 1000"

definition OSSL_TIME_US :: u64 where
  "OSSL_TIME_US = OSSL_TIME_MS div 1000"

definition ossl_ms2time :: "u64 \<Rightarrow> ossl_time" where
  "ossl_ms2time ms = ossl_ticks2time (ms * OSSL_TIME_MS)"

definition ossl_time_zero :: ossl_time where
  "ossl_time_zero = ossl_ticks2time 0"

definition ossl_time_infinite :: ossl_time where
  "ossl_time_infinite = ossl_ticks2time (NOT 0)"

definition ossl_time_compare :: "ossl_time \<Rightarrow> ossl_time \<Rightarrow> int" where
  "ossl_time_compare a b =
     (if ossl_time2ticks a > ossl_time2ticks b then 1
      else if ossl_time2ticks a < ossl_time2ticks b then - 1
      else 0)"

definition ossl_time_is_zero :: "ossl_time \<Rightarrow> bool" where
  "ossl_time_is_zero t \<longleftrightarrow> ossl_time_compare t ossl_time_zero = 0"

definition ossl_time_is_infinite :: "ossl_time \<Rightarrow> bool" where
  "ossl_time_is_infinite t \<longleftrightarrow> ossl_time_compare t ossl_time_infinite = 0"

definition ossl_time_add :: "ossl_time \<Rightarrow> ossl_time \<Rightarrow> ossl_time" where
  "ossl_time_add a b =
     (let (r, err) = safe_add (ossl_time2ticks a) (ossl_time2ticks b)
      in if err then ossl_time_infinite else Ticks r)"

definition ossl_time_subtract :: "ossl_time \<Rightarrow> ossl_time \<Rightarrow> ossl_time" where
  "ossl_time_subtract a b =
     (let (r, err) = safe_sub (ossl_time2ticks a) (ossl_time2ticks b)
      in if err then ossl_time_zero else Ticks r)"

definition ossl_time_abs_difference :: "ossl_time \<Rightarrow> ossl_time \<Rightarrow> ossl_time" where
  "ossl_time_abs_difference a b =
     (if ossl_time2ticks a > ossl_time2ticks b then ossl_time_subtract a b
      else ossl_time_subtract b a)"

definition ossl_time_multiply :: "ossl_time \<Rightarrow> u64 \<Rightarrow> ossl_time" where
  "ossl_time_multiply a b =
     (let (r, err) = safe_mul (ossl_time2ticks a) b
      in if err then ossl_time_infinite else Ticks r)"

definition ossl_time_divide :: "ossl_time \<Rightarrow> u64 \<Rightarrow> ossl_time" where
  "ossl_time_divide a b =
     (let (r, err) = safe_div (ossl_time2ticks a) b
      in if err then ossl_time_zero else Ticks r)"

definition ossl_time_muldiv :: "ossl_time \<Rightarrow> u64 \<Rightarrow> u64 \<Rightarrow> ossl_time" where
  "ossl_time_muldiv a b c =
     (let (r, err) = safe_muldiv (ossl_time2ticks a) b c
      in if err then ossl_time_zero else Ticks r)"

definition ossl_time_max :: "ossl_time \<Rightarrow> ossl_time \<Rightarrow> ossl_time" where
  "ossl_time_max a b = (if ossl_time2ticks a > ossl_time2ticks b then a else b)"

definition ossl_time_min :: "ossl_time \<Rightarrow> ossl_time \<Rightarrow> ossl_time" where
  "ossl_time_min a b = (if ossl_time2ticks a < ossl_time2ticks b then a else b)"

section \<open>Times as a linear order\<close>

instantiation ossl_time :: linorder
begin

definition less_eq_ossl_time :: "ossl_time \<Rightarrow> ossl_time \<Rightarrow> bool" where
  "less_eq_ossl_time a b \<longleftrightarrow> ossl_time2ticks a \<le> ossl_time2ticks b"

definition less_ossl_time :: "ossl_time \<Rightarrow> ossl_time \<Rightarrow> bool" where
  "less_ossl_time a b \<longleftrightarrow> ossl_time2ticks a < ossl_time2ticks b"

instance
  by standard (auto simp: less_eq_ossl_time_def less_ossl_time_def ossl_time.expand)

end

named_theorems ossl_time_simps "how the OSSL_TIME operations read on the order and on nat ticks"

lemma ossl_time_compare_simps [ossl_time_simps]:
  "ossl_time_compare a b < 0 \<longleftrightarrow> a < b"
  "ossl_time_compare a b \<le> 0 \<longleftrightarrow> a \<le> b"
  "0 \<le> ossl_time_compare a b \<longleftrightarrow> b \<le> a"
  "ossl_time_compare a b = 0 \<longleftrightarrow> a = b"
  by (auto simp: ossl_time_compare_def less_ossl_time_def less_eq_ossl_time_def ossl_time.expand)

lemma ossl_time_is_zero_iff [ossl_time_simps]: "ossl_time_is_zero t \<longleftrightarrow> t = ossl_time_zero"
  by (simp add: ossl_time_is_zero_def ossl_time_simps)

lemma ossl_time_max_eq [ossl_time_simps]: "ossl_time_max a b = max a b"
  by (auto simp: ossl_time_max_def max_def less_eq_ossl_time_def ossl_time.expand)

lemma ossl_time_min_eq [ossl_time_simps]: "ossl_time_min a b = min a b"
  by (auto simp: ossl_time_min_def min_def less_eq_ossl_time_def ossl_time.expand)

abbreviation time_nat :: "ossl_time \<Rightarrow> nat" where
  "time_nat t \<equiv> unat (ossl_time2ticks t)"

lemma time_nat_zero [simp]: "time_nat ossl_time_zero = 0"
  by (simp add: ossl_time_zero_def ossl_ticks2time_def)

lemma time_nat_infinite [simp]: "time_nat ossl_time_infinite = 2 ^ 64 - 1"
  by (simp add: ossl_time_infinite_def ossl_ticks2time_def)

lemma time_le_nat: "a \<le> b \<longleftrightarrow> time_nat a \<le> time_nat b"
  by (simp add: less_eq_ossl_time_def word_le_nat_alt)

lemma time_less_nat: "a < b \<longleftrightarrow> time_nat a < time_nat b"
  by (simp add: less_ossl_time_def word_less_nat_alt)

lemma time_eq_nat: "a = b \<longleftrightarrow> time_nat a = time_nat b"
  by (metis nle_le time_le_nat)

section \<open>The arithmetic saturates\<close>

lemma time_nat_add: "time_nat (ossl_time_add a b) = min (time_nat a + time_nat b) (2 ^ 64 - 1)"
  using snd_safe_add [of "ossl_time2ticks a" "ossl_time2ticks b"]
    fst_safe_add [of "ossl_time2ticks a" "ossl_time2ticks b"]
  by (auto simp: ossl_time_add_def case_prod_unfold Let_def)

lemma time_nat_subtract: "time_nat (ossl_time_subtract a b) = time_nat a - time_nat b"
  using snd_safe_sub [of "ossl_time2ticks a" "ossl_time2ticks b"]
    fst_safe_sub [of "ossl_time2ticks a" "ossl_time2ticks b"]
  by (auto simp: ossl_time_subtract_def case_prod_unfold Let_def)

lemma time_nat_abs_difference:
  "time_nat (ossl_time_abs_difference a b)
    = max (time_nat a) (time_nat b) - min (time_nat a) (time_nat b)"
  by (auto simp: ossl_time_abs_difference_def time_nat_subtract word_less_nat_alt)

lemma time_nat_multiply:
  "time_nat (ossl_time_multiply a k) = min (time_nat a * unat k) (2 ^ 64 - 1)"
  using snd_safe_mul [of "ossl_time2ticks a" k] fst_safe_mul [of "ossl_time2ticks a" k]
  by (auto simp: ossl_time_multiply_def case_prod_unfold Let_def)

lemma time_nat_divide: "time_nat (ossl_time_divide a k) = time_nat a div unat k"
  by (simp add: ossl_time_divide_def safe_div_def unat_div)

lemmas time_nat_simps =
  time_nat_add time_nat_subtract time_nat_abs_difference time_nat_multiply time_nat_divide

section \<open>Properties\<close>

text \<open>
  Addition, subtraction and multiplication of times saturate: they return the exact result
  where it is representable and otherwise the end of the range it left. \<^verbatim>\<open>ossl_time_muldiv\<close> does not: a
  quotient that is too large becomes the zero time.
\<close>

theorem ossl_time_saturation:
  "time_nat (ossl_time_add a b) = min (time_nat a + time_nat b) (2 ^ 64 - 1)
   \<and> time_nat (ossl_time_subtract a b) = time_nat a - time_nat b
   \<and> time_nat (ossl_time_multiply a k) = min (time_nat a * unat k) (2 ^ 64 - 1)
   \<and> ossl_time_muldiv ossl_time_infinite 2 1 = ossl_time_zero"
proof (intro conjI time_nat_add time_nat_subtract time_nat_multiply)
  show "ossl_time_muldiv ossl_time_infinite 2 1 = ossl_time_zero"
    by code_simp
qed

end
