(* ===== verification/Flow_Control.thy ===== *)
theory Flow_Control
  imports Ossl_Time
begin

text \<open>
  \<^verbatim>\<open>ssl/quic/quic_fc.c\<close>: QUIC flow control. A stream's controller points to the controller of its
  connection, which all streams of the connection share; so controllers live in a store, a function
  from addresses to controllers, and a parent pointer is an optional address. The \<^verbatim>\<open>now\<close> callback of a
  receive controller is the time it returns, an argument of the operations that call it.
\<close>

type_synonym addr = nat

section \<open>Sending\<close>

record txfc =
  tx_swm :: u64
  tx_cwm :: u64
  tx_parent :: "addr option"
  has_become_blocked :: bool

type_synonym txfc_store = "addr \<Rightarrow> txfc"

definition ossl_quic_txfc_init :: "txfc_store \<Rightarrow> addr \<Rightarrow> addr option \<Rightarrow> txfc_store \<times> bool" where
  "ossl_quic_txfc_init h txfc conn_txfc =
     (if (case conn_txfc of None \<Rightarrow> False | Some c \<Rightarrow> tx_parent (h c) \<noteq> None) then (h, False)
      else (h(txfc := \<lparr>tx_swm = 0, tx_cwm = 0, tx_parent = conn_txfc, has_become_blocked = False\<rparr>), True))"

definition ossl_quic_txfc_get_parent :: "txfc_store \<Rightarrow> addr \<Rightarrow> addr option" where
  "ossl_quic_txfc_get_parent h txfc = tx_parent (h txfc)"

definition ossl_quic_txfc_bump_cwm :: "txfc_store \<Rightarrow> addr \<Rightarrow> u64 \<Rightarrow> txfc_store \<times> bool" where
  "ossl_quic_txfc_bump_cwm h txfc cwm =
     (if cwm \<le> tx_cwm (h txfc) then (h, False)
      else (h(txfc := (h txfc)\<lparr>tx_cwm := cwm\<rparr>), True))"

definition ossl_quic_txfc_get_credit_local :: "txfc_store \<Rightarrow> addr \<Rightarrow> u64 \<Rightarrow> u64" where
  "ossl_quic_txfc_get_credit_local h txfc consumed = tx_cwm (h txfc) - (consumed + tx_swm (h txfc))"

definition ossl_quic_txfc_get_credit :: "txfc_store \<Rightarrow> addr \<Rightarrow> u64 \<Rightarrow> u64" where
  "ossl_quic_txfc_get_credit h txfc consumed =
     (let r = ossl_quic_txfc_get_credit_local h txfc 0
      in case tx_parent (h txfc) of
           None \<Rightarrow> r
         | Some c \<Rightarrow>
             let conn_r = ossl_quic_txfc_get_credit_local h c consumed
             in if conn_r < r then conn_r else r)"

definition ossl_quic_txfc_consume_credit_local :: "txfc_store \<Rightarrow> addr \<Rightarrow> u64 \<Rightarrow> txfc_store \<times> bool" where
  "ossl_quic_txfc_consume_credit_local h txfc num_bytes =
     (let credit = ossl_quic_txfc_get_credit_local h txfc 0;
          (ok, num_bytes) = (if num_bytes > credit then (False, credit) else (True, num_bytes));
          t = h txfc;
          t = (if num_bytes > 0 \<and> num_bytes = credit then t\<lparr>has_become_blocked := True\<rparr> else t)
      in (h(txfc := t\<lparr>tx_swm := tx_swm t + num_bytes\<rparr>), ok))"

definition ossl_quic_txfc_consume_credit :: "txfc_store \<Rightarrow> addr \<Rightarrow> u64 \<Rightarrow> txfc_store \<times> bool" where
  "ossl_quic_txfc_consume_credit h txfc num_bytes =
     (let (h', ok) = ossl_quic_txfc_consume_credit_local h txfc num_bytes
      in case tx_parent (h' txfc) of
           None \<Rightarrow> (h', ok)
         | Some c \<Rightarrow>
             let (h'', ok') = ossl_quic_txfc_consume_credit_local h' c num_bytes
             in if \<not> ok' then (h'', False) else (h'', ok))"

definition ossl_quic_txfc_has_become_blocked :: "txfc_store \<Rightarrow> addr \<Rightarrow> bool \<Rightarrow> txfc_store \<times> bool" where
  "ossl_quic_txfc_has_become_blocked h txfc clear =
     (let r = has_become_blocked (h txfc)
      in (if clear then h(txfc := (h txfc)\<lparr>has_become_blocked := False\<rparr>) else h, r))"

definition ossl_quic_txfc_get_cwm :: "txfc_store \<Rightarrow> addr \<Rightarrow> u64" where
  "ossl_quic_txfc_get_cwm h txfc = tx_cwm (h txfc)"

definition ossl_quic_txfc_get_swm :: "txfc_store \<Rightarrow> addr \<Rightarrow> u64" where
  "ossl_quic_txfc_get_swm h txfc = tx_swm (h txfc)"

section \<open>Receiving\<close>

record rxfc =
  rx_cwm :: u64
  rx_swm :: u64
  rx_rwm :: u64
  rx_esrwm :: u64
  rx_hwm :: u64
  cur_window_size :: u64
  max_window_size :: u64
  epoch_start :: ossl_time
  rx_parent :: "addr option"
  error_code :: nat
  has_cwm_changed :: bool
  rx_is_fin :: bool
  standalone :: bool

type_synonym rxfc_store = "addr \<Rightarrow> rxfc"

definition OSSL_QUIC_ERR_FLOW_CONTROL_ERROR :: nat where
  "OSSL_QUIC_ERR_FLOW_CONTROL_ERROR = 3"

definition OSSL_QUIC_ERR_FINAL_SIZE_ERROR :: nat where
  "OSSL_QUIC_ERR_FINAL_SIZE_ERROR = 6"

definition ossl_quic_rxfc_init ::
    "rxfc_store \<Rightarrow> addr \<Rightarrow> addr option \<Rightarrow> u64 \<Rightarrow> u64 \<Rightarrow> rxfc_store \<times> bool" where
  "ossl_quic_rxfc_init h rxfc conn_rxfc initial_window_size max_window =
     (if (case conn_rxfc of None \<Rightarrow> False | Some c \<Rightarrow> rx_parent (h c) \<noteq> None) then (h, False)
      else
        (h(rxfc := \<lparr>rx_cwm = initial_window_size, rx_swm = 0, rx_rwm = 0, rx_esrwm = 0, rx_hwm = 0,
            cur_window_size = initial_window_size, max_window_size = max_window,
            epoch_start = ossl_time_zero, rx_parent = conn_rxfc, error_code = 0,
            has_cwm_changed = False, rx_is_fin = False, standalone = False\<rparr>), True))"

definition ossl_quic_rxfc_init_standalone :: "rxfc_store \<Rightarrow> addr \<Rightarrow> u64 \<Rightarrow> rxfc_store \<times> bool" where
  "ossl_quic_rxfc_init_standalone h rxfc initial_window_size =
     (let (h', ok) = ossl_quic_rxfc_init h rxfc None initial_window_size initial_window_size
      in if \<not> ok then (h', False) else (h'(rxfc := (h' rxfc)\<lparr>standalone := True\<rparr>), True))"

definition ossl_quic_rxfc_get_parent :: "rxfc_store \<Rightarrow> addr \<Rightarrow> addr option" where
  "ossl_quic_rxfc_get_parent h rxfc = rx_parent (h rxfc)"

definition ossl_quic_rxfc_set_max_window_size :: "rxfc_store \<Rightarrow> addr \<Rightarrow> u64 \<Rightarrow> rxfc_store" where
  "ossl_quic_rxfc_set_max_window_size h rxfc w = h(rxfc := (h rxfc)\<lparr>max_window_size := w\<rparr>)"

definition rxfc_start_epoch :: "ossl_time \<Rightarrow> rxfc \<Rightarrow> rxfc" where
  "rxfc_start_epoch now r = r\<lparr>epoch_start := now, rx_esrwm := rx_rwm r\<rparr>"

definition on_rx_controlled_bytes :: "rxfc \<Rightarrow> u64 \<Rightarrow> rxfc \<times> bool" where
  "on_rx_controlled_bytes r num_bytes =
     (let credit = rx_cwm r - rx_swm r in
      if num_bytes > credit
      then (r\<lparr>error_code := OSSL_QUIC_ERR_FLOW_CONTROL_ERROR, rx_swm := rx_swm r + credit\<rparr>, False)
      else (r\<lparr>rx_swm := rx_swm r + num_bytes\<rparr>, True))"

definition ossl_quic_rxfc_on_rx_stream_frame ::
    "rxfc_store \<Rightarrow> addr \<Rightarrow> u64 \<Rightarrow> bool \<Rightarrow> rxfc_store \<times> bool" where
  "ossl_quic_rxfc_on_rx_stream_frame h rxfc end' is_fin =
     (let r = h rxfc in
      if \<not> standalone r \<and> rx_parent r = None then (h, False)
      else if rx_is_fin r \<and> (is_fin \<and> rx_hwm r \<noteq> end' \<or> end' > rx_hwm r) then
        (h(rxfc := r\<lparr>error_code := OSSL_QUIC_ERR_FINAL_SIZE_ERROR\<rparr>), True)
      else
        let r = (if is_fin then r\<lparr>rx_is_fin := True\<rparr> else r) in
        if end' > rx_hwm r then
          let delta = end' - rx_hwm r;
              h' = h(rxfc := fst (on_rx_controlled_bytes (r\<lparr>rx_hwm := end'\<rparr>) delta))
          in (case rx_parent r of
                None \<Rightarrow> h'
              | Some c \<Rightarrow> h'(c := fst (on_rx_controlled_bytes (h' c) delta)), True)
        else if end' < rx_hwm r \<and> is_fin then
          (h(rxfc := r\<lparr>error_code := OSSL_QUIC_ERR_FINAL_SIZE_ERROR\<rparr>), True)
        else (h(rxfc := r), True))"

definition WINDOW_THRESHOLD_NUM :: u64 where "WINDOW_THRESHOLD_NUM = 3"
definition WINDOW_THRESHOLD_DEN :: u64 where "WINDOW_THRESHOLD_DEN = 4"

definition rxfc_cwm_bump_desired :: "rxfc \<Rightarrow> bool" where
  "rxfc_cwm_bump_desired r =
     (let window_rem = rx_cwm r - rx_rwm r;
          (threshold, err) = safe_muldiv (cur_window_size r) WINDOW_THRESHOLD_NUM WINDOW_THRESHOLD_DEN;
          threshold = (if err then cur_window_size r div 2 else threshold)
      in \<not> rx_is_fin r \<and> window_rem \<le> threshold)"

definition rxfc_should_bump_window_size :: "ossl_time \<Rightarrow> rxfc \<Rightarrow> ossl_time \<Rightarrow> bool" where
  "rxfc_should_bump_window_size now r rtt =
     (let b = rx_rwm r - rx_esrwm r in
      if b = 0 then False
      else
        let dt = ossl_time_subtract now (epoch_start r);
            t_window = ossl_time_muldiv dt (cur_window_size r) b
        in ossl_time_compare t_window (ossl_time_multiply rtt 4) < 0)"

definition rxfc_adjust_window_size :: "ossl_time \<Rightarrow> rxfc \<Rightarrow> u64 \<Rightarrow> ossl_time \<Rightarrow> rxfc" where
  "rxfc_adjust_window_size now r min_window_size rtt =
     (let w = cur_window_size r;
          w = (if rxfc_should_bump_window_size now r rtt then w * 2 else w);
          w = (if w < min_window_size then min_window_size else w);
          w = (if w > max_window_size r then max_window_size r else w)
      in rxfc_start_epoch now (r\<lparr>cur_window_size := w\<rparr>))"

definition rxfc_update_cwm :: "ossl_time \<Rightarrow> rxfc \<Rightarrow> u64 \<Rightarrow> ossl_time \<Rightarrow> rxfc" where
  "rxfc_update_cwm now r min_window_size rtt =
     (if \<not> rxfc_cwm_bump_desired r then r
      else
        let r = rxfc_adjust_window_size now r min_window_size rtt;
            new_cwm = rx_rwm r + cur_window_size r
        in if new_cwm > rx_cwm r then r\<lparr>rx_cwm := new_cwm, has_cwm_changed := True\<rparr> else r)"

definition rxfc_on_retire :: "ossl_time \<Rightarrow> rxfc \<Rightarrow> u64 \<Rightarrow> u64 \<Rightarrow> ossl_time \<Rightarrow> rxfc" where
  "rxfc_on_retire now r num_bytes min_window_size rtt =
     (let r = (if ossl_time_is_zero (epoch_start r) then rxfc_start_epoch now r else r);
          r = r\<lparr>rx_rwm := rx_rwm r + num_bytes\<rparr>
      in rxfc_update_cwm now r min_window_size rtt)"

definition ossl_quic_rxfc_on_retire ::
    "ossl_time \<Rightarrow> rxfc_store \<Rightarrow> addr \<Rightarrow> u64 \<Rightarrow> ossl_time \<Rightarrow> c_fault + rxfc_store \<times> bool" where
  "ossl_quic_rxfc_on_retire now h rxfc num_bytes rtt =
     (if rx_parent (h rxfc) = None \<and> \<not> standalone (h rxfc) then Inr (h, False)
      else if num_bytes = 0 then Inr (h, True)
      else if rx_rwm (h rxfc) + num_bytes > rx_swm (h rxfc) then Inr (h, False)
      else
        let h' = h(rxfc := rxfc_on_retire now (h rxfc) num_bytes 0 rtt) in
        if standalone (h' rxfc) then Inr (h', True)
        else
          case rx_parent (h' rxfc) of
            None \<Rightarrow> Inl NullDeref
          | Some c \<Rightarrow>
              Inr (h'(c := rxfc_on_retire now (h' c) num_bytes (cur_window_size (h' rxfc)) rtt), True))"

definition ossl_quic_rxfc_get_cwm :: "rxfc_store \<Rightarrow> addr \<Rightarrow> u64" where
  "ossl_quic_rxfc_get_cwm h rxfc = rx_cwm (h rxfc)"

definition ossl_quic_rxfc_get_swm :: "rxfc_store \<Rightarrow> addr \<Rightarrow> u64" where
  "ossl_quic_rxfc_get_swm h rxfc = rx_swm (h rxfc)"

definition ossl_quic_rxfc_get_rwm :: "rxfc_store \<Rightarrow> addr \<Rightarrow> u64" where
  "ossl_quic_rxfc_get_rwm h rxfc = rx_rwm (h rxfc)"

definition ossl_quic_rxfc_get_credit :: "rxfc_store \<Rightarrow> addr \<Rightarrow> u64" where
  "ossl_quic_rxfc_get_credit h rxfc = ossl_quic_rxfc_get_cwm h rxfc - ossl_quic_rxfc_get_swm h rxfc"

definition ossl_quic_rxfc_has_cwm_changed :: "rxfc_store \<Rightarrow> addr \<Rightarrow> bool \<Rightarrow> rxfc_store \<times> bool" where
  "ossl_quic_rxfc_has_cwm_changed h rxfc clear =
     (let r = has_cwm_changed (h rxfc)
      in (if clear then h(rxfc := (h rxfc)\<lparr>has_cwm_changed := False\<rparr>) else h, r))"

definition ossl_quic_rxfc_get_error :: "rxfc_store \<Rightarrow> addr \<Rightarrow> bool \<Rightarrow> rxfc_store \<times> nat" where
  "ossl_quic_rxfc_get_error h rxfc clear =
     (let r = error_code (h rxfc)
      in (if clear then h(rxfc := (h rxfc)\<lparr>error_code := 0\<rparr>) else h, r))"

definition ossl_quic_rxfc_get_final_size :: "rxfc_store \<Rightarrow> addr \<Rightarrow> u64 option" where
  "ossl_quic_rxfc_get_final_size h rxfc =
     (if \<not> rx_is_fin (h rxfc) then None else Some (rx_hwm (h rxfc)))"

section \<open>Credit accounts\<close>

text \<open>
  What both kinds of controller do with one watermark: credit is spent up to a limit, a request that
  exceeds the credit spends what is left and fails.
\<close>

locale credit_account =
  fixes spend :: "'s \<Rightarrow> u64 \<Rightarrow> 's \<times> bool" and used :: "'s \<Rightarrow> nat" and limit :: "'s \<Rightarrow> nat"
  assumes spend_used: "used s \<le> limit s \<Longrightarrow> used (fst (spend s n)) = min (used s + unat n) (limit s)"
    and spend_limit: "limit (fst (spend s n)) = limit s"
    and spend_ok: "used s \<le> limit s \<Longrightarrow> snd (spend s n) \<longleftrightarrow> used s + unat n \<le> limit s"
begin

lemma spend_stays_within: "used s \<le> limit s \<Longrightarrow> used (fst (spend s n)) \<le> limit (fst (spend s n))"
  by (simp add: spend_used spend_limit)

lemma spend_exact: "used s \<le> limit s \<Longrightarrow> snd (spend s n) \<Longrightarrow> used (fst (spend s n)) = used s + unat n"
  by (simp add: spend_used spend_ok)

definition spend_all :: "'s \<Rightarrow> u64 list \<Rightarrow> 's" where
  "spend_all = foldl (\<lambda>s n. fst (spend s n))"

lemma spend_all_used:
  "used s \<le> limit s \<Longrightarrow> used (spend_all s ns) = min (used s + sum_list (map unat ns)) (limit s)
    \<and> limit (spend_all s ns) = limit s"
proof (induction ns arbitrary: s)
  case (Cons n ns)
  from Cons.IH [OF spend_stays_within [OF Cons.prems, of n]] show ?case
    by (simp add: spend_all_def spend_used [OF Cons.prems] spend_limit min_def)
qed (simp add: spend_all_def)

end

lemma unat_credit: "swm \<le> cwm \<Longrightarrow> unat (cwm - swm) = unat cwm - unat swm" for swm cwm :: u64
  by (rule unat_sub_no_underflow)

lemma unat_spend:
  fixes swm cwm n :: u64
  assumes "swm \<le> cwm" and "n \<le> cwm - swm"
  shows "unat (swm + n) = unat swm + unat n" and "unat swm + unat n \<le> unat cwm"
proof -
  show le: "unat swm + unat n \<le> unat cwm"
    using assms by (simp add: word_le_nat_alt unat_credit)
  then show "unat (swm + n) = unat swm + unat n"
    by (intro unat_add_no_overflow, use unsigned_less [where 'a = nat and w = cwm] in linarith)
qed

lemma spend_nat:
  fixes swm cwm n :: u64
  assumes "swm \<le> cwm"
  shows "unat (swm + (if n > cwm - swm then cwm - swm else n)) = min (unat swm + unat n) (unat cwm)"
    and "n > cwm - swm \<longleftrightarrow> unat cwm < unat swm + unat n"
proof -
  show gt: "n > cwm - swm \<longleftrightarrow> unat cwm < unat swm + unat n"
    using assms by (auto simp: word_less_nat_alt unat_credit word_le_nat_alt)
  show "unat (swm + (if n > cwm - swm then cwm - swm else n)) = min (unat swm + unat n) (unat cwm)"
    using unat_spend(1) [OF assms, of n] gt by auto
qed

abbreviation "tx_used h p \<equiv> unat (tx_swm (h p))"
abbreviation "tx_limit h p \<equiv> unat (tx_cwm (h p))"

lemma consume_local_eq:
  "fst (ossl_quic_txfc_consume_credit_local h p n) p
    = (h p)\<lparr>tx_swm := tx_swm (h p) + (if n > tx_cwm (h p) - tx_swm (h p) then tx_cwm (h p) - tx_swm (h p) else n),
       has_become_blocked := has_become_blocked (h p)
         \<or> (let m = (if n > tx_cwm (h p) - tx_swm (h p) then tx_cwm (h p) - tx_swm (h p) else n)
            in m > 0 \<and> m = tx_cwm (h p) - tx_swm (h p))\<rparr>"
  "q \<noteq> p \<Longrightarrow> fst (ossl_quic_txfc_consume_credit_local h p n) q = h q"
  "snd (ossl_quic_txfc_consume_credit_local h p n) \<longleftrightarrow> \<not> n > tx_cwm (h p) - tx_swm (h p)"
  by (auto simp: ossl_quic_txfc_consume_credit_local_def ossl_quic_txfc_get_credit_local_def Let_def)

interpretation txl: credit_account "\<lambda>h n. ossl_quic_txfc_consume_credit_local h p n"
  "\<lambda>h. tx_used h p" "\<lambda>h. tx_limit h p" for p
proof (unfold_locales, goal_cases)
  case (1 h n)
  then have "tx_swm (h p) \<le> tx_cwm (h p)"
    by (simp add: word_le_nat_alt)
  from spend_nat(1) [OF this, of n] show ?case
    by (simp add: consume_local_eq)
next
  case (2 h n)
  then show ?case
    by (simp add: consume_local_eq)
next
  case (3 h n)
  then have "tx_swm (h p) \<le> tx_cwm (h p)"
    by (simp add: word_le_nat_alt)
  from spend_nat(2) [OF this, of n] show ?case
    by (simp add: consume_local_eq not_less)
qed

interpretation rxl: credit_account on_rx_controlled_bytes "\<lambda>r. unat (rx_swm r)" "\<lambda>r. unat (rx_cwm r)"
proof (unfold_locales, goal_cases)
  case (1 r n)
  then have "rx_swm r \<le> rx_cwm r"
    by (simp add: word_le_nat_alt)
  from spend_nat(1) [OF this, of n] show ?case
    by (simp add: on_rx_controlled_bytes_def Let_def split: if_splits)
next
  case (2 r n)
  then show ?case
    by (simp add: on_rx_controlled_bytes_def Let_def)
next
  case (3 r n)
  then have "rx_swm r \<le> rx_cwm r"
    by (simp add: word_le_nat_alt)
  from spend_nat(2) [OF this, of n] show ?case
    by (simp add: on_rx_controlled_bytes_def Let_def not_less)
qed

section \<open>The send controllers of a connection\<close>

text \<open>
  A connection's controller at \<open>c\<close> with its streams' controllers at \<open>ps\<close>: nobody has sent past a limit,
  and the connection has sent what its streams have sent together.
\<close>

definition tx_conn_ok :: "txfc_store \<Rightarrow> addr \<Rightarrow> addr set \<Rightarrow> bool" where
  "tx_conn_ok h c ps \<longleftrightarrow> finite ps \<and> c \<notin> ps \<and> tx_parent (h c) = None \<and> (\<forall>p \<in> ps. tx_parent (h p) = Some c)
     \<and> (\<forall>p \<in> insert c ps. tx_used h p \<le> tx_limit h p) \<and> (\<Sum>p \<in> ps. tx_used h p) = tx_used h c"

text \<open>
  The life of the send controllers: the connection's is set up first, then streams are opened, limits
  are raised by the peer, and credit is consumed within what \<^verbatim>\<open>ossl_quic_txfc_get_credit\<close> reports.
\<close>

inductive tx_conn_reach :: "addr \<Rightarrow> txfc_store \<Rightarrow> addr set \<Rightarrow> bool" for c where
  conn: "ossl_quic_txfc_init h c None = (h', True) \<Longrightarrow> tx_conn_reach c h' {}"
| stream: "tx_conn_reach c h ps \<Longrightarrow> p \<noteq> c \<Longrightarrow> p \<notin> ps \<Longrightarrow> ossl_quic_txfc_init h p (Some c) = (h', True) \<Longrightarrow>
    tx_conn_reach c h' (insert p ps)"
| bump: "tx_conn_reach c h ps \<Longrightarrow> p \<in> insert c ps \<Longrightarrow> tx_conn_reach c (fst (ossl_quic_txfc_bump_cwm h p cwm)) ps"
| consume: "tx_conn_reach c h ps \<Longrightarrow> p \<in> ps \<Longrightarrow> n \<le> ossl_quic_txfc_get_credit h p 0 \<Longrightarrow>
    tx_conn_reach c (fst (ossl_quic_txfc_consume_credit h p n)) ps"
| blocked: "tx_conn_reach c h ps \<Longrightarrow> p \<in> insert c ps \<Longrightarrow>
    tx_conn_reach c (fst (ossl_quic_txfc_has_become_blocked h p clear)) ps"

lemma credit_bounds:
  assumes ok: "tx_conn_ok h c ps" and p: "p \<in> ps" and n: "n \<le> ossl_quic_txfc_get_credit h p 0"
  shows "n \<le> tx_cwm (h p) - tx_swm (h p)" and "n \<le> tx_cwm (h c) - tx_swm (h c)"
  using assms by (auto simp: tx_conn_ok_def ossl_quic_txfc_get_credit_def ossl_quic_txfc_get_credit_local_def Let_def
      split: if_splits)

lemma consume_conn:
  assumes ok: "tx_conn_ok h c ps" and p: "p \<in> ps" and n: "n \<le> ossl_quic_txfc_get_credit h p 0"
  defines "h' \<equiv> fst (ossl_quic_txfc_consume_credit h p n)"
  shows "snd (ossl_quic_txfc_consume_credit h p n)"
    and "tx_used h' p = tx_used h p + unat n" and "tx_used h' c = tx_used h c + unat n"
    and "tx_limit h' q = tx_limit h q" and "tx_parent (h' q) = tx_parent (h q)"
    and "q \<noteq> p \<Longrightarrow> q \<noteq> c \<Longrightarrow> h' q = h q" and "tx_conn_ok h' c ps"
proof -
  note b = credit_bounds [OF ok p n]
  have pc: "p \<noteq> c" "tx_parent (h p) = Some c" and fin: "finite ps" "c \<notin> ps"
    and le: "\<And>q. q \<in> insert c ps \<Longrightarrow> tx_swm (h q) \<le> tx_cwm (h q)"
    using ok p by (auto simp: tx_conn_ok_def word_le_nat_alt)
  define h1 where "h1 = fst (ossl_quic_txfc_consume_credit_local h p n)"
  have h1: "h1 c = h c" "tx_parent (h1 p) = Some c"
    using pc consume_local_eq(1) [of h p n] consume_local_eq(2) [of c p h n] by (simp_all add: h1_def)
  have h': "h' = fst (ossl_quic_txfc_consume_credit_local h1 c n)"
    using h1 by (simp add: h'_def h1_def ossl_quic_txfc_consume_credit_def case_prod_unfold Let_def)
  show "snd (ossl_quic_txfc_consume_credit h p n)"
    using b h1 consume_local_eq(3) [of h p n] consume_local_eq(3) [of h1 c n]
    by (simp add: h1_def ossl_quic_txfc_consume_credit_def case_prod_unfold Let_def not_less)
  have hp: "h' p = h1 p" and hc: "h' c = fst (ossl_quic_txfc_consume_credit_local h1 c n) c"
    using pc(1) by (simp_all add: h' consume_local_eq(2))
  show used_p: "tx_used h' p = tx_used h p + unat n"
    unfolding hp h1_def consume_local_eq(1) using unat_spend(1) [OF le b(1)] p leD [OF b(1)] by simp
  show used_c: "tx_used h' c = tx_used h c + unat n"
    unfolding hc consume_local_eq(1) h1(1) using unat_spend(1) [OF le b(2)] leD [OF b(2)] by simp
  show other: "h' q = h q" if "q \<noteq> p" "q \<noteq> c" for q
    using that by (simp add: h' h1_def consume_local_eq(2))
  show lim: "tx_limit h' q = tx_limit h q" and par: "tx_parent (h' q) = tx_parent (h q)" for q
    using other [of q] hp hc h1(1) consume_local_eq(1) [of h p n] consume_local_eq(1) [of h1 c n]
    by (cases "q = p"; cases "q = c"; simp add: h1_def)+
  have "(\<Sum>q \<in> ps. tx_used h' q) = (\<Sum>q \<in> ps. tx_used h q) + unat n"
  proof -
    have "(\<Sum>q \<in> ps - {p}. tx_used h' q) = (\<Sum>q \<in> ps - {p}. tx_used h q)"
    proof (rule sum.cong [OF refl])
      fix x assume "x \<in> ps - {p}"
      with fin have "x \<noteq> p" "x \<noteq> c"
        by auto
      then show "tx_used h' x = tx_used h x"
        by (simp add: other)
    qed
    then show ?thesis
      using sum.remove [OF fin(1) p, of "tx_used h'"] sum.remove [OF fin(1) p, of "tx_used h"] used_p by simp
  qed
  moreover have "tx_used h' q \<le> tx_limit h' q" if "q \<in> insert c ps" for q
    using that used_p used_c other [of q] lim [of q] unat_spend(2) [OF le b(1)] unat_spend(2) [OF le b(2)] p
      le [OF that] by (cases "q = p"; cases "q = c") (auto simp: word_le_nat_alt)
  ultimately show "tx_conn_ok h' c ps"
    using ok used_c par by (simp add: tx_conn_ok_def)
qed

lemma tx_conn_reach_ok: "tx_conn_reach c h ps \<Longrightarrow> tx_conn_ok h c ps"
proof (induction rule: tx_conn_reach.induct)
  case (stream h ps p h')
  then have "h' = h(p := \<lparr>tx_swm = 0, tx_cwm = 0, tx_parent = Some c, has_become_blocked = False\<rparr>)"
    by (auto simp: ossl_quic_txfc_init_def tx_conn_ok_def)
  moreover from this stream.hyps(3) have "(\<Sum>q \<in> ps. tx_used h' q) = (\<Sum>q \<in> ps. tx_used h q)"
    by (intro sum.cong) auto
  ultimately show ?case
    using stream by (simp add: tx_conn_ok_def)
next
  case (bump h ps p cwm)
  then have "(\<Sum>q \<in> ps. tx_used (fst (ossl_quic_txfc_bump_cwm h p cwm)) q) = (\<Sum>q \<in> ps. tx_used h q)"
    by (intro sum.cong) (auto simp: ossl_quic_txfc_bump_cwm_def)
  with bump show ?case
    by (auto simp: tx_conn_ok_def ossl_quic_txfc_bump_cwm_def word_le_nat_alt)
next
  case (consume h ps p n)
  then show ?case
    by (rule_tac consume_conn(7))
next
  case (blocked h ps p clear)
  have "(\<Sum>q \<in> ps. tx_used (fst (ossl_quic_txfc_has_become_blocked h p clear)) q) = (\<Sum>q \<in> ps. tx_used h q)"
    by (intro sum.cong) (auto simp: ossl_quic_txfc_has_become_blocked_def Let_def)
  with blocked show ?case
    by (auto simp: tx_conn_ok_def ossl_quic_txfc_has_become_blocked_def Let_def)
qed (auto simp: tx_conn_ok_def ossl_quic_txfc_init_def)

text \<open>
  Property C18. Whatever the order in which streams are opened, limits are raised and credit is
  consumed, no stream sends past its own limit, and the streams of a connection together never send
  past the connection's limit; the connection's count is the sum of the streams' counts.
\<close>

theorem txfc_connection_limit_respected:
  assumes "tx_conn_reach c h ps"
  shows "(\<forall>p \<in> ps. unat (ossl_quic_txfc_get_swm h p) \<le> unat (ossl_quic_txfc_get_cwm h p))
    \<and> (\<Sum>p \<in> ps. unat (ossl_quic_txfc_get_swm h p)) = unat (ossl_quic_txfc_get_swm h c)
    \<and> unat (ossl_quic_txfc_get_swm h c) \<le> unat (ossl_quic_txfc_get_cwm h c)"
  using tx_conn_reach_ok [OF assms]
  by (simp add: tx_conn_ok_def ossl_quic_txfc_get_swm_def ossl_quic_txfc_get_cwm_def)

lemma tx_example:
  "tx_conn_reach 0 ((\<lambda>_. \<lparr>tx_swm = 0, tx_cwm = 0, tx_parent = None, has_become_blocked = False\<rparr>)
     (0 := \<lparr>tx_swm = 0, tx_cwm = 0, tx_parent = None, has_become_blocked = False\<rparr>,
      1 := \<lparr>tx_swm = 0, tx_cwm = 0, tx_parent = Some 0, has_become_blocked = False\<rparr>)) {1}"
proof -
  let ?t = "\<lparr>tx_swm = 0, tx_cwm = 0, tx_parent = None, has_become_blocked = False\<rparr>"
  have "ossl_quic_txfc_init (\<lambda>_. ?t) 0 None = ((\<lambda>_. ?t)(0 := ?t), True)"
    by (simp add: ossl_quic_txfc_init_def)
  then have conn: "tx_conn_reach 0 ((\<lambda>_. ?t)(0 := ?t)) {}"
    by (rule tx_conn_reach.conn)
  have "ossl_quic_txfc_init ((\<lambda>_. ?t)(0 := ?t)) 1 (Some 0)
      = ((\<lambda>_. ?t)(0 := ?t, 1 := ?t\<lparr>tx_parent := Some 0\<rparr>), True)"
    by (simp add: ossl_quic_txfc_init_def)
  from tx_conn_reach.stream [OF conn _ _ this] show ?thesis
    by simp
qed

theorem txfc_connection_limit_respected_witness:
  "\<exists>h. tx_conn_reach 0 h {1} \<and> (\<Sum>p \<in> {1}. unat (ossl_quic_txfc_get_swm h p)) \<le> unat (ossl_quic_txfc_get_cwm h 0)"
  using txfc_connection_limit_respected [OF tx_example] tx_example by (intro exI conjI) (assumption, linarith)

text \<open>
  Consuming within the reported credit succeeds and charges the stream and its connection
  with exactly the bytes consumed; no other controller and no limit changes.
\<close>

theorem txfc_consume_within_credit:
  assumes "tx_conn_reach c h ps" and "p \<in> ps" and "n \<le> ossl_quic_txfc_get_credit h p 0"
  shows "\<exists>h'. ossl_quic_txfc_consume_credit h p n = (h', True)
    \<and> tx_used h' p = tx_used h p + unat n \<and> tx_used h' c = tx_used h c + unat n
    \<and> (\<forall>q. tx_limit h' q = tx_limit h q) \<and> (\<forall>q. q \<noteq> p \<and> q \<noteq> c \<longrightarrow> h' q = h q)"
proof (intro exI conjI)
  note step = consume_conn [OF tx_conn_reach_ok [OF assms(1)] assms(2,3)]
  show "ossl_quic_txfc_consume_credit h p n = (fst (ossl_quic_txfc_consume_credit h p n), True)"
    using step(1) by (metis prod.collapse)
qed (use consume_conn [OF tx_conn_reach_ok [OF assms(1)] assms(2,3)] in auto)

lemma tx_example_credit:
  defines "h \<equiv> (\<lambda>_. \<lparr>tx_swm = 0, tx_cwm = 0, tx_parent = None, has_become_blocked = False\<rparr>)
     (0 := \<lparr>tx_swm = 0, tx_cwm = 50, tx_parent = None, has_become_blocked = False\<rparr>,
      1 := \<lparr>tx_swm = 0, tx_cwm = 70, tx_parent = Some 0, has_become_blocked = False\<rparr>)"
  shows "tx_conn_reach 0 h {1}" and "ossl_quic_txfc_get_credit h 1 0 = 50"
proof -
  let ?h = "(\<lambda>_. \<lparr>tx_swm = 0, tx_cwm = 0, tx_parent = None, has_become_blocked = False\<rparr>)
     (0 := \<lparr>tx_swm = 0, tx_cwm = 0, tx_parent = None, has_become_blocked = False\<rparr>,
      1 := \<lparr>tx_swm = 0, tx_cwm = 0, tx_parent = Some 0, has_become_blocked = False\<rparr>)"
  have "fst (ossl_quic_txfc_bump_cwm (fst (ossl_quic_txfc_bump_cwm ?h 0 50)) 1 70) = h"
    by (auto simp: ossl_quic_txfc_bump_cwm_def h_def)
  with tx_conn_reach.bump [OF tx_conn_reach.bump [OF tx_example, of 0 50], of 1 70] show "tx_conn_reach 0 h {1}"
    by simp
  show "ossl_quic_txfc_get_credit h 1 0 = 50"
    by (simp add: h_def ossl_quic_txfc_get_credit_def ossl_quic_txfc_get_credit_local_def)
qed

theorem txfc_consume_within_credit_witness:
  "\<exists>h h' :: txfc_store. ossl_quic_txfc_consume_credit h 1 20 = (h', True) \<and> tx_used h' 0 = tx_used h 0 + 20"
  using txfc_consume_within_credit [OF tx_example_credit(1), of 1 20] tx_example_credit(2) by fastforce

section \<open>The receive controller of a stream\<close>

lemma start_epoch_simps [simp]:
  "rx_cwm (rxfc_start_epoch now r) = rx_cwm r" "rx_swm (rxfc_start_epoch now r) = rx_swm r"
  "rx_rwm (rxfc_start_epoch now r) = rx_rwm r" "rx_hwm (rxfc_start_epoch now r) = rx_hwm r"
  "cur_window_size (rxfc_start_epoch now r) = cur_window_size r"
  "max_window_size (rxfc_start_epoch now r) = max_window_size r"
  "rx_parent (rxfc_start_epoch now r) = rx_parent r" "error_code (rxfc_start_epoch now r) = error_code r"
  "rx_is_fin (rxfc_start_epoch now r) = rx_is_fin r" "standalone (rxfc_start_epoch now r) = standalone r"
  by (simp_all add: rxfc_start_epoch_def)

lemma adjust_window_simps [simp]:
  "rx_cwm (rxfc_adjust_window_size now r m rtt) = rx_cwm r" "rx_swm (rxfc_adjust_window_size now r m rtt) = rx_swm r"
  "rx_rwm (rxfc_adjust_window_size now r m rtt) = rx_rwm r" "rx_hwm (rxfc_adjust_window_size now r m rtt) = rx_hwm r"
  "max_window_size (rxfc_adjust_window_size now r m rtt) = max_window_size r"
  "rx_parent (rxfc_adjust_window_size now r m rtt) = rx_parent r"
  "error_code (rxfc_adjust_window_size now r m rtt) = error_code r"
  "rx_is_fin (rxfc_adjust_window_size now r m rtt) = rx_is_fin r"
  "standalone (rxfc_adjust_window_size now r m rtt) = standalone r"
  "cur_window_size (rxfc_adjust_window_size now r m rtt) \<le> max_window_size r"
  by (simp_all add: rxfc_adjust_window_size_def Let_def not_less)

lemma on_retire_simps [simp]:
  "rx_rwm (rxfc_on_retire now r n m rtt) = rx_rwm r + n" "rx_swm (rxfc_on_retire now r n m rtt) = rx_swm r"
  "rx_hwm (rxfc_on_retire now r n m rtt) = rx_hwm r" "error_code (rxfc_on_retire now r n m rtt) = error_code r"
  "rx_parent (rxfc_on_retire now r n m rtt) = rx_parent r" "standalone (rxfc_on_retire now r n m rtt) = standalone r"
  "rx_is_fin (rxfc_on_retire now r n m rtt) = rx_is_fin r"
  "max_window_size (rxfc_on_retire now r n m rtt) = max_window_size r"
  "rx_cwm r \<le> rx_cwm (rxfc_on_retire now r n m rtt)"
  by (simp_all add: rxfc_on_retire_def rxfc_update_cwm_def Let_def order_less_imp_le)

lemma bump_desired_iff:
  assumes "3 * unat (cur_window_size r) < 2 ^ 64" and "rx_rwm r \<le> rx_cwm r"
  shows "rxfc_cwm_bump_desired r \<longleftrightarrow>
    \<not> rx_is_fin r \<and> unat (rx_cwm r) - unat (rx_rwm r) \<le> 3 * unat (cur_window_size r) div 4"
proof -
  have "\<not> snd (safe_muldiv (cur_window_size r) WINDOW_THRESHOLD_NUM WINDOW_THRESHOLD_DEN)"
    using assms(1) by (intro safe_muldiv_no_error) (simp_all add: WINDOW_THRESHOLD_NUM_def WINDOW_THRESHOLD_DEN_def mult.commute)
  with safe_muldiv_exact [OF this] assms(2) show ?thesis
    by (simp add: rxfc_cwm_bump_desired_def case_prod_unfold Let_def word_le_nat_alt unat_credit
        WINDOW_THRESHOLD_NUM_def WINDOW_THRESHOLD_DEN_def mult.commute)
qed

lemma on_retire_window:
  fixes now rtt :: ossl_time and m :: u64
  assumes "\<not> rx_is_fin r" and "unat (rx_rwm r) + unat n \<le> unat (rx_cwm r)" and "3 * unat (cur_window_size r) < 2 ^ 64"
    and "unat (rx_rwm r) + unat n + unat (max_window_size r) < 2 ^ 64"
  defines "r' \<equiv> rxfc_on_retire now r n m rtt"
  shows "unat (rx_rwm r) + unat n + 3 * unat (cur_window_size r') div 4 \<le> unat (rx_cwm r')"
proof -
  define r1 where "r1 = (if ossl_time_is_zero (epoch_start r) then rxfc_start_epoch now r else r)\<lparr>rx_rwm := rx_rwm r + n\<rparr>"
  have r1: "cur_window_size r1 = cur_window_size r" "rx_cwm r1 = rx_cwm r" "rx_rwm r1 = rx_rwm r + n"
    "max_window_size r1 = max_window_size r" "rx_is_fin r1 = rx_is_fin r"
    by (simp_all add: r1_def)
  have r': "r' = rxfc_update_cwm now r1 m rtt"
    by (simp add: r'_def rxfc_on_retire_def r1_def Let_def)
  have rwm: "unat (rx_rwm r + n) = unat (rx_rwm r) + unat n"
    using assms(4) by (simp add: unat_add_no_overflow)
  have desired: "rxfc_cwm_bump_desired r1 \<longleftrightarrow> unat (rx_cwm r) - unat (rx_rwm r + n) \<le> 3 * unat (cur_window_size r) div 4"
    using bump_desired_iff [of r1] assms(1,2,3) r1 rwm by (simp add: word_le_nat_alt)
  show ?thesis
  proof (cases "rxfc_cwm_bump_desired r1")
    case False
    then show ?thesis
      using desired assms(2) r1 rwm by (auto simp: r' rxfc_update_cwm_def)
  next
    case True
    let ?a = "rxfc_adjust_window_size now r1 m rtt"
    have w: "unat (cur_window_size ?a) \<le> unat (max_window_size r)"
      using adjust_window_simps(10) [of now r1 m rtt] r1(4) by (simp add: word_le_nat_alt)
    have "unat (rx_rwm r + n + cur_window_size ?a) = unat (rx_rwm r) + unat n + unat (cur_window_size ?a)"
      using w assms(4) rwm by (simp add: unat_add_no_overflow)
    then show ?thesis
      using True r1 by (auto simp: r' rxfc_update_cwm_def Let_def word_less_nat_alt)
  qed
qed

text \<open>
  \<open>rx_ok\<close>: bytes are retired only after they were received, counted only within the advertised credit,
  and unless an error was recorded everything received was within the credit.
\<close>

definition rx_ok :: "rxfc \<Rightarrow> bool" where
  "rx_ok r \<longleftrightarrow> rx_rwm r \<le> rx_swm r \<and> rx_swm r \<le> rx_cwm r \<and> rx_swm r \<le> rx_hwm r
     \<and> (error_code r = 0 \<longrightarrow> rx_swm r = rx_hwm r)"

lemma controlled_bytes_simps [simp]:
  "rx_cwm (fst (on_rx_controlled_bytes r n)) = rx_cwm r" "rx_rwm (fst (on_rx_controlled_bytes r n)) = rx_rwm r"
  "rx_hwm (fst (on_rx_controlled_bytes r n)) = rx_hwm r" "rx_parent (fst (on_rx_controlled_bytes r n)) = rx_parent r"
  "standalone (fst (on_rx_controlled_bytes r n)) = standalone r" "rx_is_fin (fst (on_rx_controlled_bytes r n)) = rx_is_fin r"
  by (simp_all add: on_rx_controlled_bytes_def Let_def)

lemma controlled_bytes_error:
  "rx_swm r \<le> rx_cwm r \<Longrightarrow> error_code (fst (on_rx_controlled_bytes r n)) =
    (if unat (rx_cwm r) < unat (rx_swm r) + unat n then OSSL_QUIC_ERR_FLOW_CONTROL_ERROR else error_code r)"
  using spend_nat(2) [of "rx_swm r" "rx_cwm r" n] by (simp add: on_rx_controlled_bytes_def Let_def)

lemma controlled_bytes_ok:
  assumes "rx_ok r" and "rx_hwm r < e"
  shows "rx_ok (fst (on_rx_controlled_bytes (r\<lparr>rx_is_fin := f, rx_hwm := e\<rparr>) (e - rx_hwm r)))" (is "rx_ok ?r")
proof -
  let ?s = "r\<lparr>rx_is_fin := f, rx_hwm := e\<rparr>"
  have ord: "rx_rwm r \<le> rx_swm r" "rx_swm r \<le> rx_cwm r" "rx_swm r \<le> rx_hwm r"
    using assms(1) by (auto simp: rx_ok_def)
  have d: "unat (e - rx_hwm r) = unat e - unat (rx_hwm r)" "unat (rx_hwm r) < unat e"
    using assms(2) by (simp_all add: unat_sub_no_underflow order_less_imp_le) (simp add: word_less_nat_alt)
  have used: "unat (rx_swm ?r) = min (unat (rx_swm r) + (unat e - unat (rx_hwm r))) (unat (rx_cwm r))"
    using rxl.spend_used [of ?s "e - rx_hwm r"] ord d by (simp add: word_le_nat_alt)
  have err: "error_code ?r = 0 \<longleftrightarrow> error_code r = 0 \<and> \<not> unat (rx_cwm r) < unat (rx_swm r) + (unat e - unat (rx_hwm r))"
    using controlled_bytes_error [of ?s "e - rx_hwm r"] ord d by (simp add: OSSL_QUIC_ERR_FLOW_CONTROL_ERROR_def)
  show ?thesis
    unfolding rx_ok_def using used err ord d assms(1)
    by (auto simp: word_le_nat_alt word_unat_eq_iff rx_ok_def)
qed

lemma on_rx_stream_frame_ok:
  assumes ok: "rx_ok (h p)" and par: "rx_parent (h p) \<noteq> Some p"
    and res: "ossl_quic_rxfc_on_rx_stream_frame h p e fin = (h', b)"
  shows "rx_ok (h' p) \<and> rx_parent (h' p) = rx_parent (h p) \<and> standalone (h' p) = standalone (h p)"
proof -
  have fin_upd: "(if fin then h p\<lparr>rx_is_fin := True\<rparr> else h p) = h p\<lparr>rx_is_fin := fin \<or> rx_is_fin (h p)\<rparr>"
    by (cases "fin \<or> rx_is_fin (h p)") auto
  show ?thesis
    using res ok par controlled_bytes_ok [OF ok, of e "fin \<or> rx_is_fin (h p)"]
    unfolding ossl_quic_rxfc_on_rx_stream_frame_def Let_def fin_upd
    by (auto simp: rx_ok_def OSSL_QUIC_ERR_FINAL_SIZE_ERROR_def split: if_splits option.splits)
qed

lemma on_retire_ok:
  assumes ok: "rx_ok (h p)" and par: "rx_parent (h p) \<noteq> Some p" "rx_parent (h p) \<noteq> None \<or> standalone (h p)"
    and n: "unat (rx_rwm (h p)) + unat n < 2 ^ 64"
  obtains h' b where "ossl_quic_rxfc_on_retire now h p n rtt = Inr (h', b)" "rx_ok (h' p)"
    "b \<longleftrightarrow> unat (rx_rwm (h p)) + unat n \<le> unat (rx_swm (h p))"
    "h' p = (if b \<and> n \<noteq> 0 then rxfc_on_retire now (h p) n 0 rtt else h p)"
proof -
  let ?r = "rxfc_on_retire now (h p) n 0 rtt"
  have rwm: "unat (rx_rwm (h p) + n) = unat (rx_rwm (h p)) + unat n"
    using n by (simp add: unat_add_no_overflow)
  have base: "unat (rx_rwm (h p)) \<le> unat (rx_swm (h p))"
    using ok by (simp add: rx_ok_def word_le_nat_alt)
  consider "n = 0" | "n \<noteq> 0" "rx_rwm (h p) + n > rx_swm (h p)" | "n \<noteq> 0" "\<not> rx_rwm (h p) + n > rx_swm (h p)"
    by blast
  then show ?thesis
  proof cases
    case 1
    then show ?thesis
      using par(2) ok base that [of h True] by (auto simp: ossl_quic_rxfc_on_retire_def)
  next
    case 2
    then show ?thesis
      using par(2) ok rwm that [of h False] by (auto simp: ossl_quic_rxfc_on_retire_def word_less_nat_alt)
  next
    case 3
    have r: "rx_ok ?r"
      using ok 3(2) order_trans [OF _ on_retire_simps(9) [of "h p" now n 0 rtt], of "rx_swm (h p)"]
      unfolding rx_ok_def by auto
    have le: "unat (rx_rwm (h p)) + unat n \<le> unat (rx_swm (h p))"
      using 3(2) rwm by (simp add: word_less_nat_alt)
    show ?thesis
    proof (cases "standalone (h p)")
      case True
      then have "ossl_quic_rxfc_on_retire now h p n rtt = Inr (h(p := ?r), True)"
        using 3 by (simp add: ossl_quic_rxfc_on_retire_def Let_def)
      then show ?thesis
        by (rule that) (use r le 3 in simp_all)
    next
      case False
      then obtain c where c: "rx_parent (h p) = Some c" "c \<noteq> p"
        using par by auto
      let ?h = "(h(p := ?r))(c := rxfc_on_retire now (h c) n (cur_window_size ?r) rtt)"
      have "ossl_quic_rxfc_on_retire now h p n rtt = Inr (?h, True)"
        using 3 c False by (simp add: ossl_quic_rxfc_on_retire_def Let_def)
      then show ?thesis
        by (rule that) (use r le 3 c in simp_all)
    qed
  qed
qed

text \<open>
  The life of one stream's controller. The controllers of other streams and the shared parent may
  change at any time (\<open>other\<close>).
\<close>

inductive rx_reach :: "addr \<Rightarrow> rxfc_store \<Rightarrow> bool" for p where
  stream: "c \<noteq> p \<Longrightarrow> ossl_quic_rxfc_init h p (Some c) iw mw = (h', True) \<Longrightarrow> rx_reach p h'"
| alone: "ossl_quic_rxfc_init_standalone h p iw = (h', True) \<Longrightarrow> rx_reach p h'"
| frame: "rx_reach p h \<Longrightarrow> ossl_quic_rxfc_on_rx_stream_frame h p e fin = (h', b) \<Longrightarrow> rx_reach p h'"
| retire: "rx_reach p h \<Longrightarrow> unat (rx_rwm (h p)) + unat n < 2 ^ 64 \<Longrightarrow>
    ossl_quic_rxfc_on_retire now h p n rtt = Inr (h', b) \<Longrightarrow> rx_reach p h'"
| max_window: "rx_reach p h \<Longrightarrow> rx_reach p (ossl_quic_rxfc_set_max_window_size h p w)"
| cwm_changed: "rx_reach p h \<Longrightarrow> rx_reach p (fst (ossl_quic_rxfc_has_cwm_changed h p clear))"
| other: "rx_reach p h \<Longrightarrow> h' p = h p \<Longrightarrow> rx_reach p h'"

lemma rx_reach_ok:
  "rx_reach p h \<Longrightarrow> rx_ok (h p) \<and> rx_parent (h p) \<noteq> Some p \<and> (rx_parent (h p) \<noteq> None \<or> standalone (h p))"
proof (induction rule: rx_reach.induct)
  case (stream c h iw mw h')
  then show ?case
    by (auto simp: ossl_quic_rxfc_init_def rx_ok_def split: if_splits)
next
  case (alone h iw h')
  then show ?case
    by (auto simp: ossl_quic_rxfc_init_standalone_def ossl_quic_rxfc_init_def rx_ok_def)
next
  case (frame h e fin h' b)
  with on_rx_stream_frame_ok [of h p e fin h' b] show ?case
    by auto
next
  case (retire h n now rtt h' b)
  then have IH: "rx_ok (h p)" "rx_parent (h p) \<noteq> Some p" "rx_parent (h p) \<noteq> None \<or> standalone (h p)"
    by auto
  show ?case
    by (rule on_retire_ok [where h = h and p = p, OF IH retire.hyps(2), of now rtt]) (use retire.hyps(3) IH in auto)
qed (auto simp: ossl_quic_rxfc_set_max_window_size_def ossl_quic_rxfc_has_cwm_changed_def rx_ok_def Let_def)

text \<open>
  Property C21. Under any interleaving of received frames, retirements and limit changes, and whatever
  happens to other streams, a stream's receive controller keeps retired \<open>\<le>\<close> received \<open>\<le>\<close> credit, and
  as long as no error has been recorded the highest offset received lies within the credit advertised.
\<close>

theorem rxfc_stays_within_credit:
  assumes "rx_reach p h"
  shows "ossl_quic_rxfc_get_rwm h p \<le> ossl_quic_rxfc_get_swm h p
    \<and> ossl_quic_rxfc_get_swm h p \<le> ossl_quic_rxfc_get_cwm h p
    \<and> (snd (ossl_quic_rxfc_get_error h p False) = 0 \<longrightarrow>
        rx_hwm (h p) = ossl_quic_rxfc_get_swm h p \<and> rx_hwm (h p) \<le> ossl_quic_rxfc_get_cwm h p)"
  using rx_reach_ok [OF assms]
  by (auto simp: rx_ok_def ossl_quic_rxfc_get_rwm_def ossl_quic_rxfc_get_swm_def ossl_quic_rxfc_get_cwm_def
      ossl_quic_rxfc_get_error_def)

lemma rx_example:
  "rx_reach 0 (fst (ossl_quic_rxfc_init_standalone (\<lambda>_. undefined) 0 100))"
  by (rule rx_reach.alone [of "\<lambda>_. undefined" 0 100])
    (simp add: ossl_quic_rxfc_init_standalone_def ossl_quic_rxfc_init_def)

theorem rxfc_stays_within_credit_witness:
  "rx_hwm (fst (ossl_quic_rxfc_init_standalone (\<lambda>_. undefined) 0 100) 0) \<le> 100"
  using rxfc_stays_within_credit [OF rx_example]
  by (simp add: ossl_quic_rxfc_init_standalone_def ossl_quic_rxfc_init_def ossl_quic_rxfc_get_error_def
      ossl_quic_rxfc_get_cwm_def)

text \<open>
  Property C39. The error a received frame records on a healthy stream, on every branch: a final-size
  error exactly when the frame contradicts the known final size or finishes the stream below what was
  already received, otherwise a flow-control error exactly when the frame ends past the credit, and
  otherwise none.
\<close>

theorem rxfc_frame_errors_exact:
  assumes "rx_reach p h" and "error_code (h p) = 0"
  shows "\<exists>h'. ossl_quic_rxfc_on_rx_stream_frame h p e fin = (h', True)
    \<and> error_code (h' p) =
      (if rx_is_fin (h p) \<and> (fin \<and> e \<noteq> rx_hwm (h p) \<or> rx_hwm (h p) < e) \<or> fin \<and> e < rx_hwm (h p)
       then OSSL_QUIC_ERR_FINAL_SIZE_ERROR
       else if rx_cwm (h p) < e then OSSL_QUIC_ERR_FLOW_CONTROL_ERROR else 0)
    \<and> rx_hwm (h' p) = (if rx_is_fin (h p) then rx_hwm (h p) else max e (rx_hwm (h p)))"
proof -
  have inv: "rx_ok (h p)" "rx_parent (h p) \<noteq> Some p" "rx_parent (h p) \<noteq> None \<or> standalone (h p)"
    using rx_reach_ok [OF assms(1)] by auto
  then have ord: "rx_swm (h p) = rx_hwm (h p)" "rx_hwm (h p) \<le> rx_cwm (h p)"
    using assms(2) by (auto simp: rx_ok_def)
  have err: "error_code (fst (on_rx_controlled_bytes (h p\<lparr>rx_is_fin := f, rx_hwm := e\<rparr>) (e - rx_hwm (h p))))
      = (if rx_cwm (h p) < e then OSSL_QUIC_ERR_FLOW_CONTROL_ERROR else 0)" if "rx_hwm (h p) < e" for f
    using controlled_bytes_error [of "h p\<lparr>rx_is_fin := f, rx_hwm := e\<rparr>" "e - rx_hwm (h p)"] ord assms(2) that
    by (simp add: unat_sub_no_underflow word_less_nat_alt)
  have fin_upd: "(if fin then h p\<lparr>rx_is_fin := True\<rparr> else h p) = h p\<lparr>rx_is_fin := fin \<or> rx_is_fin (h p)\<rparr>"
    by (cases "fin \<or> rx_is_fin (h p)") auto
  have res: "\<exists>h'. ossl_quic_rxfc_on_rx_stream_frame h p e fin = (h', True)"
    using inv(3) by (auto simp: ossl_quic_rxfc_on_rx_stream_frame_def Let_def split: option.splits)
  then obtain h' where h': "ossl_quic_rxfc_on_rx_stream_frame h p e fin = (h', True)" ..
  show ?thesis
  proof (intro exI conjI, rule h')
    show "error_code (h' p) =
      (if rx_is_fin (h p) \<and> (fin \<and> e \<noteq> rx_hwm (h p) \<or> rx_hwm (h p) < e) \<or> fin \<and> e < rx_hwm (h p)
       then OSSL_QUIC_ERR_FINAL_SIZE_ERROR
       else if rx_cwm (h p) < e then OSSL_QUIC_ERR_FLOW_CONTROL_ERROR else 0)"
      using h' inv(2,3) ord assms(2) err unfolding ossl_quic_rxfc_on_rx_stream_frame_def Let_def fin_upd
      by (auto split: if_splits option.splits)
    show "rx_hwm (h' p) = (if rx_is_fin (h p) then rx_hwm (h p) else max e (rx_hwm (h p)))"
      using h' inv(2,3) unfolding ossl_quic_rxfc_on_rx_stream_frame_def Let_def fin_upd
      by (auto simp: max_def split: if_splits option.splits)
  qed
qed

theorem rxfc_frame_errors_exact_witness:
  "\<exists>h'. ossl_quic_rxfc_on_rx_stream_frame (fst (ossl_quic_rxfc_init_standalone (\<lambda>_. undefined) 0 100)) 0 101 False = (h', True)
     \<and> error_code (h' 0) = OSSL_QUIC_ERR_FLOW_CONTROL_ERROR"
  using rxfc_frame_errors_exact [OF rx_example, of 101 False]
  by (auto simp: ossl_quic_rxfc_init_standalone_def ossl_quic_rxfc_init_def)

text \<open>
  Retiring bytes succeeds exactly when they were received, advances the retired count by
  them, and never withdraws credit; while the stream is not finished at least three quarters of the
  current window remain usable by the peer afterwards.
\<close>

theorem rxfc_retire_keeps_window_open:
  assumes "rx_reach p h" and "\<not> rx_is_fin (h p)" and "n \<noteq> 0"
    and "unat (rx_rwm (h p)) + unat n + unat (max_window_size (h p)) < 2 ^ 64" and "3 * unat (cur_window_size (h p)) < 2 ^ 64"
  shows "\<exists>h' b. ossl_quic_rxfc_on_retire now h p n rtt = Inr (h', b)
    \<and> (b \<longleftrightarrow> unat (rx_rwm (h p)) + unat n \<le> unat (rx_swm (h p)))
    \<and> (b \<longrightarrow> unat (rx_rwm (h' p)) = unat (rx_rwm (h p)) + unat n \<and> rx_cwm (h p) \<le> rx_cwm (h' p)
         \<and> 3 * unat (cur_window_size (h' p)) div 4 \<le> unat (rx_cwm (h' p)) - unat (rx_rwm (h' p)))"
proof -
  have inv: "rx_ok (h p)" "rx_parent (h p) \<noteq> Some p" "rx_parent (h p) \<noteq> None \<or> standalone (h p)"
    using rx_reach_ok [OF assms(1)] by auto
  have n: "unat (rx_rwm (h p)) + unat n < 2 ^ 64"
    using assms(4) by simp
  have rwm: "unat (rx_rwm (h p) + n) = unat (rx_rwm (h p)) + unat n"
    using n by (simp add: unat_add_no_overflow)
  have win: "unat (rx_rwm (h p)) + unat n + 3 * unat (cur_window_size (rxfc_on_retire now (h p) n 0 rtt)) div 4
      \<le> unat (rx_cwm (rxfc_on_retire now (h p) n 0 rtt))" if "unat (rx_rwm (h p)) + unat n \<le> unat (rx_swm (h p))"
    using that inv(1) by (intro on_retire_window assms) (auto simp: rx_ok_def word_le_nat_alt)
  obtain h' b where h': "ossl_quic_rxfc_on_retire now h p n rtt = Inr (h', b)" "rx_ok (h' p)"
    "b \<longleftrightarrow> unat (rx_rwm (h p)) + unat n \<le> unat (rx_swm (h p))"
    "h' p = (if b \<and> n \<noteq> 0 then rxfc_on_retire now (h p) n 0 rtt else h p)"
    by (rule on_retire_ok [where h = h and p = p, OF inv n])
  show ?thesis
    using h' win assms(3) rwm by (intro exI [of _ h'] exI [of _ b]) auto
qed

theorem rxfc_retire_keeps_window_open_witness:
  "\<exists>h' b. ossl_quic_rxfc_on_retire ossl_time_zero (fst (ossl_quic_rxfc_init_standalone (\<lambda>_. undefined) 0 100)) 0 5 ossl_time_zero = Inr (h', b)
     \<and> \<not> b"
  using rxfc_retire_keeps_window_open [OF rx_example, of 5 ossl_time_zero ossl_time_zero]
  by (auto simp: ossl_quic_rxfc_init_standalone_def ossl_quic_rxfc_init_def)

end
