(* ===== verification/Statm.thy ===== *)
theory Statm
  imports Ossl_Time
begin

text \<open>
  \<^verbatim>\<open>ssl/quic/quic_statm.c\<close>: the QUIC statistics manager, which keeps the round-trip time estimates of
  RFC 9002.
\<close>

section \<open>Operations\<close>

record statm =
  smoothed_rtt :: ossl_time
  latest_rtt :: ossl_time
  rtt_variance :: ossl_time
  min_rtt :: ossl_time
  have_first_sample :: bool

definition ossl_statm_update_rtt :: "statm \<Rightarrow> ossl_time \<Rightarrow> ossl_time \<Rightarrow> statm" where
  "ossl_statm_update_rtt statm ack_delay override_latest_rtt =
     (let (statm, latest) =
        (if ossl_time_is_zero override_latest_rtt then (statm, latest_rtt statm)
         else (statm\<lparr>latest_rtt := override_latest_rtt\<rparr>, override_latest_rtt))
      in if \<not> have_first_sample statm then
           statm\<lparr>min_rtt := latest, smoothed_rtt := latest, rtt_variance := ossl_time_divide latest 2,
             have_first_sample := True\<rparr>
         else
           let statm = (if ossl_time_compare latest (min_rtt statm) < 0 then statm\<lparr>min_rtt := latest\<rparr> else statm);
               adjusted_rtt =
                 (if ossl_time_compare latest (ossl_time_add (min_rtt statm) ack_delay) \<ge> 0
                  then ossl_time_subtract latest ack_delay else latest);
               statm = statm\<lparr>rtt_variance :=
                 ossl_time_divide (ossl_time_add (ossl_time_multiply (rtt_variance statm) 3)
                   (ossl_time_abs_difference (smoothed_rtt statm) adjusted_rtt)) 4\<rparr>
           in statm\<lparr>smoothed_rtt :=
                ossl_time_divide (ossl_time_add (ossl_time_multiply (smoothed_rtt statm) 7) adjusted_rtt) 8\<rparr>)"

definition K_INITIAL_RTT :: ossl_time where
  "K_INITIAL_RTT = ossl_ms2time 333"

definition ossl_statm_init :: statm where
  "ossl_statm_init =
     \<lparr>smoothed_rtt = K_INITIAL_RTT, latest_rtt = ossl_time_zero,
      rtt_variance = ossl_time_divide K_INITIAL_RTT 2, min_rtt = ossl_time_infinite,
      have_first_sample = False\<rparr>"

record rtt_info =
  ri_smoothed_rtt :: ossl_time
  ri_latest_rtt :: ossl_time
  ri_rtt_variance :: ossl_time
  ri_min_rtt :: ossl_time

definition ossl_statm_get_rtt_info :: "statm \<Rightarrow> rtt_info" where
  "ossl_statm_get_rtt_info statm =
     \<lparr>ri_smoothed_rtt = smoothed_rtt statm, ri_latest_rtt = latest_rtt statm,
      ri_rtt_variance = rtt_variance statm, ri_min_rtt = min_rtt statm\<rparr>"

section \<open>The estimates stay within the samples\<close>

text \<open>Samples are pairs of acknowledgement delay and measured round-trip time.\<close>

definition statm_run :: "(ossl_time \<times> ossl_time) list \<Rightarrow> statm" where
  "statm_run = foldl (\<lambda>s (d, x). ossl_statm_update_rtt s d x) ossl_statm_init"

definition statm_within :: "statm \<Rightarrow> ossl_time set \<Rightarrow> bool" where
  "statm_within s X \<longleftrightarrow> have_first_sample s \<and> finite X \<and> X \<noteq> {} \<and> min_rtt s = Min X
     \<and> min_rtt s \<le> smoothed_rtt s \<and> smoothed_rtt s \<le> Max X \<and> rtt_variance s \<le> Max X"

lemma weighted_mean_bounds:
  fixes s a lo hi k :: nat
  assumes "lo \<le> s" and "s \<le> hi" and "lo \<le> a" and "a \<le> hi" and "0 < k"
  shows "lo \<le> ((k - 1) * s + a) div k" and "((k - 1) * s + a) div k \<le> hi"
proof -
  have k: "(k - 1) * x + x = x * k" for x
    using assms(5) by (cases k) (simp_all add: algebra_simps)
  have "lo * k \<le> (k - 1) * s + a" "(k - 1) * s + a \<le> hi * k"
    using assms k [of lo] k [of hi] mult_le_mono2 [of lo s "k - 1"] mult_le_mono2 [of s hi "k - 1"] by linarith+
  then show "lo \<le> ((k - 1) * s + a) div k" "((k - 1) * s + a) div k \<le> hi"
    using div_le_mono [of "lo * k" _ k] div_le_mono [of _ "hi * k" k] assms(5) by simp_all
qed

lemma update_first:
  assumes "\<not> have_first_sample s" and "x \<noteq> ossl_time_zero"
  shows "statm_within (ossl_statm_update_rtt s d x) {x}"
  using assms
  by (auto simp: statm_within_def ossl_statm_update_rtt_def ossl_time_simps time_le_nat time_nat_divide Let_def)

lemma update_next:
  assumes w: "statm_within s X" and x: "x \<noteq> ossl_time_zero" and small: "\<forall>y \<in> insert x X. time_nat y < 2 ^ 61"
  shows "statm_within (ossl_statm_update_rtt s d x) (insert x X)"
proof -
  define m where "m = min x (min_rtt s)"
  define a where "a = (if ossl_time_add m d \<le> x then ossl_time_subtract x d else x)"
  have X: "finite X" "X \<noteq> {}" and s: "min_rtt s = Min X" "min_rtt s \<le> smoothed_rtt s" "smoothed_rtt s \<le> Max X"
    "rtt_variance s \<le> Max X" "have_first_sample s"
    using w by (auto simp: statm_within_def)
  have m: "m = Min (insert x X)" "m \<le> x"
    using X s(1) by (simp_all add: m_def)
  let ?M = "Max (insert x X)"
  have M: "x \<le> ?M" "Max X \<le> ?M"
    using X by simp_all
  have "?M \<in> insert x X"
    using X by (intro Max_in) simp_all
  with small have M3: "time_nat ?M < 2 ^ 61"
    by blast
  have a: "time_nat m \<le> time_nat a" "time_nat a \<le> time_nat ?M"
    using M(1) m(2) small by (auto simp: a_def time_le_nat time_nat_add time_nat_subtract min_def split: if_splits)
  have sm: "time_nat m \<le> time_nat (smoothed_rtt s)" "time_nat (smoothed_rtt s) \<le> time_nat ?M"
    "time_nat (rtt_variance s) \<le> time_nat ?M"
    using s M m_def by (auto simp: time_le_nat min_def)
  have diff: "time_nat (ossl_time_abs_difference (smoothed_rtt s) a) \<le> time_nat ?M"
    using sm a by (auto simp: time_nat_abs_difference)
  define sm' where "sm' = ossl_time_divide (ossl_time_add (ossl_time_multiply (smoothed_rtt s) 7) a) 8"
  define var' where "var' = ossl_time_divide (ossl_time_add (ossl_time_multiply (rtt_variance s) 3)
      (ossl_time_abs_difference (smoothed_rtt s) a)) 4"
  have "time_nat sm' = ((8 - 1) * time_nat (smoothed_rtt s) + time_nat a) div 8"
    using sm(2) a(2) M3 by (simp add: sm'_def time_nat_divide time_nat_add time_nat_multiply mult.commute)
  then have 1: "m \<le> sm'" "sm' \<le> ?M"
    using weighted_mean_bounds [of "time_nat m" "time_nat (smoothed_rtt s)" "time_nat ?M" "time_nat a" 8] sm a
    by (simp_all add: time_le_nat)
  have "time_nat var' = ((4 - 1) * time_nat (rtt_variance s) + time_nat (ossl_time_abs_difference (smoothed_rtt s) a)) div 4"
    using sm(3) diff M3 by (simp add: var'_def time_nat_divide time_nat_add time_nat_multiply mult.commute)
  then have 2: "var' \<le> ?M"
    using weighted_mean_bounds(2) [of 0 "time_nat (rtt_variance s)" "time_nat ?M" _ 4] sm(3) diff
    by (simp add: time_le_nat)
  have "ossl_statm_update_rtt s d x = s\<lparr>latest_rtt := x, min_rtt := m, rtt_variance := var', smoothed_rtt := sm'\<rparr>"
    using x s(5) by (auto simp: ossl_statm_update_rtt_def ossl_time_simps Let_def m_def a_def sm'_def var'_def
        min_def ossl_time_compare_simps)
  with 1 2 m X s(5) show ?thesis
    by (simp add: statm_within_def)
qed

lemma statm_run_within:
  assumes "xs \<noteq> []" and "\<forall>(d, x) \<in> set xs. x \<noteq> ossl_time_zero \<and> time_nat x < 2 ^ 61"
  shows "statm_within (statm_run xs) (snd ` set xs) \<and> latest_rtt (statm_run xs) = snd (last xs)"
  using assms
proof (induction xs rule: rev_induct)
  case (snoc p xs)
  obtain d x where p: "p = (d, x)"
    by fastforce
  have x: "x \<noteq> ossl_time_zero" "time_nat x < 2 ^ 61"
    using snoc.prems(2) p by auto
  have latest: "latest_rtt (ossl_statm_update_rtt s d x) = x" for s
    using x(1) by (simp add: ossl_statm_update_rtt_def ossl_time_simps Let_def)
  have run: "statm_run (xs @ [p]) = ossl_statm_update_rtt (statm_run xs) d x"
    by (simp add: statm_run_def p)
  show ?case
  proof (cases "xs = []")
    case True
    then show ?thesis
      using update_first [of ossl_statm_init x d] x latest run p
      by (simp add: statm_run_def ossl_statm_init_def)
  next
    case False
    with snoc.IH snoc.prems(2) have "statm_within (statm_run xs) (snd ` set xs)"
      by auto
    moreover have "\<forall>y \<in> insert x (snd ` set xs). time_nat y < 2 ^ 61"
      using snoc.prems(2) x by force
    ultimately show ?thesis
      using update_next [of "statm_run xs" "snd ` set xs" x d] x latest run p by simp
  qed
qed simp

text \<open>
  After any non-empty sequence of round-trip samples, whatever the acknowledgement delays
  reported by the peer, the minimum RTT is the least sample, the smoothed RTT lies between the least
  and the greatest sample, the variance does not exceed the greatest sample, and the latest RTT is
  the last sample (samples below 2^61 ns, about 73 years, so that the weighted sums do not saturate).
\<close>

theorem statm_estimates_within_samples:
  assumes "xs \<noteq> []" and "\<forall>(d, x) \<in> set xs. x \<noteq> ossl_time_zero \<and> time_nat x < 2 ^ 61"
  defines "i \<equiv> ossl_statm_get_rtt_info (statm_run xs)"
  shows "ri_min_rtt i = Min (snd ` set xs) \<and> Min (snd ` set xs) \<le> ri_smoothed_rtt i
    \<and> ri_smoothed_rtt i \<le> Max (snd ` set xs) \<and> ri_rtt_variance i \<le> Max (snd ` set xs)
    \<and> ri_latest_rtt i = snd (last xs)"
  using statm_run_within [OF assms(1,2)]
  by (auto simp: i_def ossl_statm_get_rtt_info_def statm_within_def)

theorem statm_estimates_within_samples_witness:
  "ri_min_rtt (ossl_statm_get_rtt_info (statm_run [(Ticks 0, Ticks 80), (Ticks 9, Ticks 40)])) = Ticks 40"
  using statm_estimates_within_samples [of "[(Ticks 0, Ticks 80), (Ticks 9, Ticks 40)]"]
  by (simp add: ossl_time_zero_def ossl_ticks2time_def less_eq_ossl_time_def min_def)

end
