(* ===== verification/Rstream.thy ===== *)
theory Rstream
  imports Sframe_List Ring_Buf Flow_Control Statm
begin

text \<open>
  \<^verbatim>\<open>ssl/quic/quic_rstream.c\<close>: a QUIC receive stream. Received frames wait in a frame list, either with
  their bytes in the packet they came in or, once moved, in a ring buffer; reading takes bytes from
  both, drops what was read and tells the stream's flow controller. Flow controllers live in the store
  of \<^verbatim>\<open>Flow_Control\<close>, packets are reference counts as in \<^verbatim>\<open>Sframe_List\<close>, and the statistics manager, which
  is only read here, is a value. The caller's buffer is the list of bytes copied to it.
\<close>

section \<open>Operations\<close>

record quic_rstream =
  rs_fl :: sframe_list
  rs_rxfc :: "addr option"
  rs_statm :: "statm option"
  head_range :: uint_range
  rs_rbuf :: ring_buf

definition ossl_quic_rstream_new ::
    "bool \<Rightarrow> bytes option \<Rightarrow> addr option \<Rightarrow> statm option \<Rightarrow> u64 \<Rightarrow> c_fault + quic_rstream option" where
  "ossl_quic_rstream_new mem blk rxfc statm rbuf_size =
     (if \<not> mem then Inr None
      else res_bind (ring_buf_resize blk ring_buf_init rbuf_size False) (\<lambda>(rbuf, ok).
        if \<not> ok then Inr None
        else Inr (Some \<lparr>rs_fl = ossl_sframe_list_init, rs_rxfc = rxfc, rs_statm = statm,
               head_range = \<lparr>rstart = 0, rend = 0\<rparr>, rs_rbuf = rbuf\<rparr>)))"

definition ossl_quic_rstream_free :: "pkt_refs \<Rightarrow> quic_rstream option \<Rightarrow> pkt_refs" where
  "ossl_quic_rstream_free refs qrs =
     (case qrs of None \<Rightarrow> refs | Some q \<Rightarrow> ossl_sframe_list_destroy refs (rs_fl q))"

definition ossl_quic_rstream_queue_data ::
    "bool \<Rightarrow> pkt_refs \<Rightarrow> quic_rstream \<Rightarrow> nat option \<Rightarrow> u64 \<Rightarrow> bytes option \<Rightarrow> u64 \<Rightarrow> bool
      \<Rightarrow> quic_rstream \<times> pkt_refs \<times> bool" where
  "ossl_quic_rstream_queue_data mem refs q pkt offset data data_len fin =
     (if data = None \<and> data_len \<noteq> 0 \<or> data_len = 0 \<and> \<not> fin then (q, refs, False)
      else
        let (fl, refs, ok) = ossl_sframe_list_insert mem refs (rs_fl q) \<lparr>rstart = offset, rend = offset + data_len\<rparr> pkt data fin
        in (q\<lparr>rs_fl := fl\<rparr>, refs, ok))"

definition memcpy_from :: "bytes \<Rightarrow> u64 \<Rightarrow> c_fault + bytes" where
  "memcpy_from data l = (if unat l \<le> length data then Inr (take (unat l) data) else Inl OutOfBounds)"

text \<open>
  The copying of one frame in \<^verbatim>\<open>read_internal\<close>: from the packet, or from the ring buffer in one or two
  pieces; \<^term>\<open>None\<close> where an \<^verbatim>\<open>ossl_assert\<close> fails.
\<close>

definition rstream_copy :: "ring_buf \<Rightarrow> uint_range \<Rightarrow> bytes option \<Rightarrow> u64 \<Rightarrow> c_fault + bytes option" where
  "rstream_copy rbuf rg data l =
     (case data of
        Some d \<Rightarrow> res_bind (memcpy_from d l) (\<lambda>bs. Inr (Some bs))
      | None \<Rightarrow>
          res_bind (ring_buf_get_ptr rbuf (rstart rg)) (\<lambda>p.
            case p of
              None \<Rightarrow> Inr None
            | Some d \<Rightarrow>
                let max_len = u64_len d in
                if max_len < l then
                  res_bind (ring_buf_get_ptr rbuf (rstart rg + max_len)) (\<lambda>p.
                    case p of
                      None \<Rightarrow> Inr None
                    | Some d' \<Rightarrow>
                        if \<not> u64_len d' > l - max_len then Inr None
                        else res_bind (memcpy_from d' (l - max_len)) (\<lambda>bs. Inr (Some (d @ bs))))
                else res_bind (memcpy_from d l) (\<lambda>bs. Inr (Some bs))))"

abbreviation iter_left :: "sframe_list \<Rightarrow> sf_iter \<Rightarrow> nat" where
  "iter_left fl iter \<equiv> (case iter of None \<Rightarrow> Suc (length (frames fl)) | Some (sf, nexts) \<Rightarrow> length nexts)"

lemma peek_decreases:
  "ossl_sframe_list_peek fl iter = (res, True) \<Longrightarrow> iter_left fl (pk_iter res) < iter_left fl iter"
  by (auto simp: ossl_sframe_list_peek_def Let_def split: option.splits list.splits if_splits prod.splits)

function rstream_read_loop :: "quic_rstream \<Rightarrow> sf_iter \<Rightarrow> u64 \<Rightarrow> bytes \<Rightarrow> u64 \<Rightarrow> c_fault + (bytes \<times> u64 \<times> bool) option" where
  "rstream_read_loop q iter sz buf offset =
     (let (res, ok) = ossl_sframe_list_peek (rs_fl q) iter in
      if \<not> ok then Inr (Some (buf, offset, pk_fin res))
      else
        let rg = pk_range res;
            l = rend rg - rstart rg;
            (l, fin) = (if l > sz then (sz, False) else (l, pk_fin res));
            offset = rstart rg + l
        in if l = 0 then Inr (Some (buf, offset, fin))
           else res_bind (rstream_copy (rs_rbuf q) rg (pk_data res) l) (\<lambda>r.
             case r of
               None \<Rightarrow> Inr None
             | Some bs \<Rightarrow>
                 let sz' = sz - u64_len bs
                 in if sz' = 0 then Inr (Some (buf @ bs, offset, fin))
                    else rstream_read_loop q (pk_iter res) sz' (buf @ bs) offset))"
  by auto

termination rstream_read_loop
  by (relation "measure (\<lambda>(q, iter, sz, buf, offset). iter_left (rs_fl q) iter)")
    (auto dest: sym intro!: peek_decreases)

declare rstream_read_loop.simps [simp del]

definition read_internal ::
    "pkt_refs \<Rightarrow> quic_rstream \<Rightarrow> u64 \<Rightarrow> bool \<Rightarrow> c_fault + (quic_rstream \<times> pkt_refs \<times> (bytes \<times> bool) option)" where
  "read_internal refs q sz drop' =
     res_bind (rstream_read_loop q None sz [] 0) (\<lambda>r.
       case r of
         None \<Rightarrow> Inr (q, refs, None)
       | Some (buf, offset, fin) \<Rightarrow>
           if drop' \<and> offset \<noteq> 0 then
             let (fl, refs, ret) = ossl_sframe_list_drop_frames refs (rs_fl q) offset
             in res_bind (ring_buf_cpop_range (rs_rbuf q) 0 (offset - 1) (fl_cleanse fl)) (\<lambda>rbuf.
                  Inr (q\<lparr>rs_fl := fl, rs_rbuf := rbuf\<rparr>, refs, if ret then Some (buf, fin) else None))
           else Inr (q, refs, Some (buf, fin)))"

definition get_rtt :: "quic_rstream \<Rightarrow> ossl_time" where
  "get_rtt q =
     (case rs_statm q of
        Some statm \<Rightarrow> ri_smoothed_rtt (ossl_statm_get_rtt_info statm)
      | None \<Rightarrow> ossl_time_zero)"

text \<open>
  The results of the operations below are the stream, the packet references, the flow controllers, the
  values written through the pointer arguments (if any), and the return value.
\<close>

definition ossl_quic_rstream_read ::
    "ossl_time \<Rightarrow> rxfc_store \<Rightarrow> pkt_refs \<Rightarrow> quic_rstream \<Rightarrow> u64
      \<Rightarrow> c_fault + (quic_rstream \<times> pkt_refs \<times> rxfc_store \<times> (bytes \<times> bool) option \<times> bool)" where
  "ossl_quic_rstream_read now h refs q sz =
     (let rtt = get_rtt q in
      res_bind (read_internal refs q sz True) (\<lambda>(q, refs, r).
        case r of
          None \<Rightarrow> Inr (q, refs, h, None, False)
        | Some (buf, fin) \<Rightarrow>
            case rs_rxfc q of
              None \<Rightarrow> Inr (q, refs, h, r, True)
            | Some rxfc \<Rightarrow>
                res_bind (ossl_quic_rxfc_on_retire now h rxfc (u64_len buf) rtt) (\<lambda>(h, ok).
                  Inr (q, refs, h, r, ok))))"

definition ossl_quic_rstream_peek ::
    "pkt_refs \<Rightarrow> quic_rstream \<Rightarrow> u64 \<Rightarrow> c_fault + (quic_rstream \<times> pkt_refs \<times> (bytes \<times> bool) option)" where
  "ossl_quic_rstream_peek refs q sz = read_internal refs q sz False"

function rstream_available_loop :: "sframe_list \<Rightarrow> sf_iter \<Rightarrow> u64 \<Rightarrow> u64 \<times> bool" where
  "rstream_available_loop fl iter avail =
     (let (res, ok) = ossl_sframe_list_peek fl iter in
      if ok then rstream_available_loop fl (pk_iter res) (avail + (rend (pk_range res) - rstart (pk_range res)))
      else (avail, pk_fin res))"
  by auto

termination rstream_available_loop
  by (relation "measure (\<lambda>(fl, iter, avail). iter_left fl iter)") (auto dest: sym intro!: peek_decreases)

declare rstream_available_loop.simps [simp del]

definition ossl_quic_rstream_available :: "quic_rstream \<Rightarrow> u64 \<times> bool" where
  "ossl_quic_rstream_available q = rstream_available_loop (rs_fl q) None 0"

text \<open>
  \<^verbatim>\<open>fin\<close> is not written when the head is locked already. The record is the span of bytes its pointer
  points to, its first \<^verbatim>\<open>rec_len\<close> bytes are the record.
\<close>

definition ossl_quic_rstream_get_record ::
    "pkt_refs \<Rightarrow> quic_rstream \<Rightarrow> c_fault + (quic_rstream \<times> pkt_refs \<times> (bytes option \<times> u64 \<times> bool option) option)" where
  "ossl_quic_rstream_get_record refs q =
     (case ossl_sframe_list_lock_head (rs_fl q) of
        (fl, None, ok) \<Rightarrow> Inr (q\<lparr>rs_fl := fl\<rparr>, refs, Some (None, 0, None))
      | (fl, Some res, ok) \<Rightarrow>
          let rg = pk_range res;
              q = q\<lparr>rs_fl := fl, head_range := rg\<rparr>
          in if \<not> ok then Inr (q, refs, Some (None, 0, Some (pk_fin res)))
             else
               let (q, refs, ok) =
                 (if rend rg = rstart rg then
                    if \<not> pk_fin res then (q, refs, False)
                    else
                      let (fl, refs, ok) = ossl_sframe_list_drop_frames refs (rs_fl q) (rend rg)
                      in (q\<lparr>rs_fl := fl\<rparr>, refs, ok)
                  else (q, refs, True));
                 rec_len = rend rg - rstart rg
               in if \<not> ok then Inr (q, refs, None)
                  else if pk_data res = None \<and> rec_len \<noteq> 0 then
                    res_bind (ring_buf_get_ptr (rs_rbuf q) (rstart rg)) (\<lambda>p.
                      case p of
                        None \<Rightarrow> Inr (q, refs, None)
                      | Some d \<Rightarrow>
                          if u64_len d < rec_len then
                            Inr (q\<lparr>head_range := rg\<lparr>rend := rstart rg + u64_len d\<rparr>\<rparr>, refs,
                                 Some (Some d, u64_len d, Some (pk_fin res)))
                          else Inr (q, refs, Some (Some d, rec_len, Some (pk_fin res))))
                  else Inr (q, refs, Some (pk_data res, rec_len, Some (pk_fin res))))"

definition ossl_quic_rstream_release_record ::
    "ossl_time \<Rightarrow> rxfc_store \<Rightarrow> pkt_refs \<Rightarrow> quic_rstream \<Rightarrow> u64
      \<Rightarrow> c_fault + (quic_rstream \<times> pkt_refs \<times> rxfc_store \<times> bool)" where
  "ossl_quic_rstream_release_record now h refs q read_len =
     (if \<not> ossl_sframe_list_is_head_locked (rs_fl q) then Inr (q, refs, h, False)
      else if read_len > rend (head_range q) - rstart (head_range q) \<and> read_len \<noteq> SIZE_MAX then Inr (q, refs, h, False)
      else
        let offset = (if read_len > rend (head_range q) - rstart (head_range q) then rend (head_range q)
                      else rstart (head_range q) + read_len);
            (fl, refs', ok) = ossl_sframe_list_drop_frames refs (rs_fl q) offset
        in if \<not> ok then Inr (q\<lparr>rs_fl := fl\<rparr>, refs', h, False)
           else
             res_bind
               (if offset > 0 then ring_buf_cpop_range (rs_rbuf q) 0 (offset - 1) (fl_cleanse fl) else Inr (rs_rbuf q))
               (\<lambda>rbuf.
                 let q = q\<lparr>rs_fl := fl, rs_rbuf := rbuf\<rparr>
                 in case rs_rxfc q of
                      None \<Rightarrow> Inr (q, refs', h, True)
                    | Some rxfc \<Rightarrow>
                        res_bind (ossl_quic_rxfc_on_retire now h rxfc offset (get_rtt q)) (\<lambda>(h, ok).
                          Inr (q, refs', h, ok))))"

definition write_at_ring_buf_cb :: "ring_buf \<Rightarrow> u64 \<Rightarrow> bytes \<Rightarrow> c_fault + ring_buf \<times> bool" where
  "write_at_ring_buf_cb rbuf logical_offset buf = ring_buf_write_at rbuf logical_offset buf"

definition ossl_quic_rstream_move_to_rbuf :: "pkt_refs \<Rightarrow> quic_rstream \<Rightarrow> c_fault + (quic_rstream \<times> pkt_refs \<times> bool)" where
  "ossl_quic_rstream_move_to_rbuf refs q =
     (if ring_buf_avail (rs_rbuf q) = 0 then Inr (q, refs, False)
      else res_bind (ossl_sframe_list_move_data write_at_ring_buf_cb (rs_rbuf q) refs (rs_fl q)) (\<lambda>(fl, rbuf, refs, ok).
        Inr (q\<lparr>rs_fl := fl, rs_rbuf := rbuf\<rparr>, refs, ok)))"

definition ossl_quic_rstream_resize_rbuf :: "bytes option \<Rightarrow> quic_rstream \<Rightarrow> u64 \<Rightarrow> c_fault + (quic_rstream \<times> bool)" where
  "ossl_quic_rstream_resize_rbuf blk q rbuf_size =
     (if ossl_sframe_list_is_head_locked (rs_fl q) then Inr (q, False)
      else res_bind (ring_buf_resize blk (rs_rbuf q) rbuf_size (fl_cleanse (rs_fl q))) (\<lambda>(rbuf, ok).
        Inr (q\<lparr>rs_rbuf := rbuf\<rparr>, ok)))"

definition ossl_quic_rstream_set_cleanse :: "quic_rstream \<Rightarrow> bool \<Rightarrow> quic_rstream" where
  "ossl_quic_rstream_set_cleanse q cleanse = q\<lparr>rs_fl := (rs_fl q)\<lparr>fl_cleanse := cleanse\<rparr>\<rparr>"

section \<open>Copying a frame\<close>

lemma get_ptr_spec:
  assumes ok: "ring_ok r" and off: "rb_tail r \<le> unat off" "unat off < rb_head r"
  obtains d where "ring_buf_get_ptr r off = Inr (Some d)" "length d = rb_size r - unat off mod rb_size r"
    "0 < length d" "\<forall>i < length d. d ! i = ring_at r (unat off + i)" "unat (u64_len d) = length d"
proof -
  have sz: "0 < rb_size r" "length (rb_start r) = rb_size r" "rb_size r < 2 ^ 63"
    using ok off by (auto simp: ring_ok_def)
  then have nz: "rb_alloc r \<noteq> 0" "0 < rb_alloc r"
    by (auto simp: word_less_nat_alt)
  let ?k = "unat off mod rb_size r"
  have k: "?k < rb_size r"
    using sz(1) by simp
  have len: "unat (rb_alloc r - off mod rb_alloc r) = rb_size r - ?k"
    using chunk_fits [OF nz(2), of off] by (simp add: unat_mod)
  define d where "d = take (rb_size r - ?k) (drop ?k (rb_start r))"
  have d: "length d = rb_size r - ?k"
    using sz(2) by (simp add: d_def)
  have "d ! i = ring_at r (unat off + i)" if "i < length d" for i
  proof -
    have "(unat off + i) mod rb_size r = ?k + i"
      using mod_run [of "unat off" "unat off + i" "rb_size r"] that d k by simp
    with that d sz(2) show ?thesis
      by (simp add: d_def ring_at_def)
  qed
  moreover have "ring_buf_get_ptr r off = Inr (Some d)"
    using off nz by (simp add: ring_buf_get_ptr_def d_def len unat_mod Let_def word_le_nat_alt word_less_nat_alt)
  ultimately show ?thesis
    using that d k sz(3) by (simp add: u64_len_nat)
qed

lemma map_upt_split: "i \<le> j \<Longrightarrow> j \<le> k \<Longrightarrow> map S [i..<k] = map S [i..<j] @ map S [j..<k]"
  by (metis le_iff_add map_append upt_add_eq_append)

lemma ring_span:
  assumes "\<forall>i < length d. d ! i = ring_at r (s + i)" and "n \<le> length d" and "\<forall>k. s \<le> k \<and> k < s + n \<longrightarrow> ring_at r k = S k"
  shows "take n d = map S [s..<s + n]"
  using assms by (intro nth_equalityI) auto

lemma rstream_copy_ring:
  assumes ok: "ring_ok r" and s: "s = unat (rstart rg)" "rb_tail r \<le> s" "s + unat l \<le> rb_head r" and l: "l \<noteq> 0"
    and S: "\<forall>k. s \<le> k \<and> k < s + unat l \<longrightarrow> ring_at r k = S k"
  shows "rstream_copy r rg None l = Inr (Some (map S [s..<s + unat l]))"
proof -
  have pos: "0 < unat l"
    using l by (simp add: unat_gt_0)
  obtain d where d: "ring_buf_get_ptr r (rstart rg) = Inr (Some d)" "length d = rb_size r - s mod rb_size r"
    "0 < length d" "\<forall>i < length d. d ! i = ring_at r (s + i)" "unat (u64_len d) = length d"
    by (rule get_ptr_spec [OF ok, of "rstart rg"]) (use s pos in auto)
  show ?thesis
  proof (cases "u64_len d < l")
    case False
    then have "unat l \<le> length d"
      using d(5) by (simp add: word_less_nat_alt)
    then show ?thesis
      using ring_span [OF d(4), of "unat l" S] S d(1) False by (simp add: rstream_copy_def memcpy_from_def)
  next
    case True
    then have lt: "length d < unat l"
      using d(5) by (simp add: word_less_nat_alt)
    have bound: "rb_head r \<le> 2 ^ 62" "rb_head r \<le> rb_tail r + rb_size r" "0 < rb_size r"
      using ok d(2,3) by (auto simp: ring_ok_def)
    have off: "unat (rstart rg + u64_len d) = s + length d"
      using s lt bound(1) d(5) by (subst unat_add_no_overflow) auto
    have rest: "unat (l - u64_len d) = unat l - length d"
      using True d(5) by (simp add: unat_sub_no_underflow order_less_imp_le)
    obtain d' where d': "ring_buf_get_ptr r (rstart rg + u64_len d) = Inr (Some d')"
      "length d' = rb_size r - (s + length d) mod rb_size r"
      "\<forall>i < length d'. d' ! i = ring_at r (s + length d + i)" "unat (u64_len d') = length d'"
      by (rule get_ptr_spec [OF ok, of "rstart rg + u64_len d"]) (use s lt off in auto)
    have wrap: "length d' = rb_size r"
      using wrap_point [OF bound(3), of s] d(2) d'(2) by simp
    have lt': "unat l - length d < length d'"
      using s(2,3) bound(2) d(3) lt unfolding wrap by linarith
    have "take (length d) d = map S [s..<s + length d]" "take (unat l - length d) d' = map S [s + length d..<s + unat l]"
      using ring_span [OF d(4), of "length d" S] ring_span [OF d'(3), of "unat l - length d" S] S lt lt' by auto
    then have "d @ take (unat l - length d) d' = map S [s..<s + unat l]"
      using lt map_upt_split [of s "s + length d" "s + unat l" S] by simp
    then show ?thesis
      using d(1) d'(1,4) True lt' rest
      by (simp add: rstream_copy_def memcpy_from_def Let_def word_less_nat_alt)
  qed
qed

lemma rstream_copy_packet:
  "unat l \<le> length d \<Longrightarrow> rstream_copy r rg (Some d) l = Inr (Some (take (unat l) d))"
  by (simp add: rstream_copy_def memcpy_from_def)

section \<open>Reading\<close>

text \<open>
  A frame's bytes are those of the stream \<open>S\<close>: in its packet, or, as far as not read yet, in the ring buffer.
\<close>

definition frame_holds :: "(nat \<Rightarrow> u8) \<Rightarrow> ring_buf \<Rightarrow> stream_frame \<Rightarrow> bool" where
  "frame_holds S rb sf \<longleftrightarrow>
     (case sf_data sf of
        Some d \<Rightarrow> d = map S [unat (sf_start sf)..<unat (sf_end sf)]
      | None \<Rightarrow> \<forall>k. rb_tail rb \<le> k \<and> unat (sf_start sf) \<le> k \<and> k < unat (sf_end sf) \<longrightarrow> k < rb_head rb \<and> ring_at rb k = S k)"

text \<open>Where an iterator stands: the offset reached and the frames still to come.\<close>

definition iter_pos :: "sframe_list \<Rightarrow> sf_iter \<Rightarrow> u64 \<times> stream_frame list" where
  "iter_pos fl iter = (case iter of None \<Rightarrow> (fl_offset fl, frames fl) | Some (sf, nexts) \<Rightarrow> (sf_end sf, nexts))"

lemma iter_pos_simps [simp]:
  "iter_pos fl None = (fl_offset fl, frames fl)" "iter_pos fl (Some (sf, nexts)) = (sf_end sf, nexts)"
  by (simp_all add: iter_pos_def)

text \<open>The end of the data that follows \<open>s\<close> without a gap.\<close>

fun contig_end :: "nat \<Rightarrow> stream_frame list \<Rightarrow> nat" where
  "contig_end s [] = s"
| "contig_end s (sf # fs) = (if s < unat (sf_start sf) then s else contig_end (unat (sf_end sf)) fs)"

lemma sframes_ok_advance: "sframes_ok off (sf # fs) \<Longrightarrow> sframes_ok (sf_end sf) fs"
  by (auto simp: sframes_ok_def sf_before_def)

lemma contig_end_ge: "sframes_ok off fs \<Longrightarrow> unat off \<le> contig_end (unat off) fs"
proof (induction fs arbitrary: off)
  case (Cons sf fs)
  then show ?case
    using Cons.IH [OF sframes_ok_advance [OF Cons.prems]] by (auto simp: word_less_nat_alt)
qed simp

lemma contig_end_covered:
  "sframes_ok off fs \<Longrightarrow> unat off \<le> k \<Longrightarrow> k < contig_end (unat off) fs \<Longrightarrow> sf_covers fs k"
proof (induction fs arbitrary: off)
  case (Cons sf fs)
  then show ?case
    using Cons.IH [OF sframes_ok_advance [OF Cons.prems(1)]] by (cases "k < unat (sf_end sf)") (auto split: if_splits)
qed simp

lemma contig_end_gap: "sframes_ok off fs \<Longrightarrow> \<not> sf_covers fs (contig_end (unat off) fs)"
proof (induction fs arbitrary: off)
  case (Cons sf fs)
  show ?case
  proof (cases "unat off < unat (sf_start sf)")
    case True
    then have "\<forall>x \<in> set (sf # fs). unat off < unat (sf_start x)"
      using Cons.prems by (auto simp: sf_before_def word_le_nat_alt)
    with True show ?thesis
      by (auto simp: sf_covers_def)
  next
    case False
    then show ?thesis
      using Cons.IH [OF sframes_ok_advance [OF Cons.prems]] contig_end_ge [OF sframes_ok_advance [OF Cons.prems]] by simp
  qed
qed simp

lemma peek_at:
  assumes "iter_pos fl iter = (start, sfs)" and "sframes_ok start sfs"
  shows "ossl_sframe_list_peek fl iter =
    (case sfs of
       [] \<Rightarrow> (\<lparr>pk_range = \<lparr>rstart = start, rend = start\<rparr>, pk_data = None, pk_fin = fl_fin fl, pk_iter = None\<rparr>, False)
     | sf # nexts \<Rightarrow>
         if start < sf_start sf
         then (\<lparr>pk_range = \<lparr>rstart = start, rend = start\<rparr>, pk_data = None, pk_fin = False, pk_iter = None\<rparr>, False)
         else (\<lparr>pk_range = \<lparr>rstart = start, rend = sf_end sf\<rparr>,
                pk_data = map_option (drop (unat start - unat (sf_start sf))) (sf_data sf),
                pk_fin = (nexts = [] \<and> fl_fin fl), pk_iter = Some (sf, nexts)\<rparr>, True))"
  using assms
  by (auto simp: ossl_sframe_list_peek_def iter_pos_def unat_sub_no_underflow not_less
      split: list.splits option.splits prod.splits)

lemma frame_copy:
  assumes sf: "frame_holds S rb sf" and rb: "ring_ok rb" "rb_tail rb \<le> unat start"
    and s: "sf_start sf \<le> start" and l: "l \<noteq> 0" "unat start + unat l \<le> unat (sf_end sf)"
  shows "rstream_copy rb \<lparr>rstart = start, rend = e\<rparr> (map_option (drop (unat start - unat (sf_start sf))) (sf_data sf)) l
    = Inr (Some (map S [unat start..<unat start + unat l]))"
proof (cases "sf_data sf")
  case None
  have "0 < unat l"
    using l by (simp add: unat_gt_0)
  moreover have in_ring: "\<forall>k. unat start \<le> k \<and> k < unat start + unat l \<longrightarrow> k < rb_head rb \<and> ring_at rb k = S k"
    using sf rb(2) s l(2) None by (auto simp: frame_holds_def word_le_nat_alt)
  ultimately have "unat start + unat l \<le> rb_head rb"
    using in_ring [rule_format, of "unat start + unat l - 1"] by linarith
  then show ?thesis
    using None in_ring rstream_copy_ring [OF rb(1) _ rb(2), of "\<lparr>rstart = start, rend = e\<rparr>" l S] l(1) by simp
next
  case (Some d)
  then have "d = map S [unat (sf_start sf)..<unat (sf_end sf)]"
    using sf by (simp add: frame_holds_def)
  moreover have "unat (sf_start sf) \<le> unat start"
    using s by (simp add: word_le_nat_alt)
  ultimately have "drop (unat start - unat (sf_start sf)) d = map S [unat start..<unat (sf_end sf)]"
    by (simp add: drop_map drop_upt)
  then show ?thesis
    using Some l(2) rstream_copy_packet [of l "map S [unat start..<unat (sf_end sf)]" rb]
    by (simp add: take_map take_upt)
qed

lemma sframes_last_end:
  "sframes_ok off (sf # fs) \<Longrightarrow> unat (sf_end sf) \<le> unat (sf_end (last (sf # fs)))
    \<and> (fs \<noteq> [] \<longrightarrow> unat (sf_end sf) < unat (sf_end (last (sf # fs))))"
  using last_in_set [of fs] by (auto simp: sf_before_def word_less_nat_alt order_less_imp_le)

lemma read_loop_spec:
  assumes "iter_pos (rs_fl q) iter = (start, sfs)" and "sframes_ok start sfs"
    and "\<forall>sf \<in> set sfs. frame_holds S (rs_rbuf q) sf" and "ring_ok (rs_rbuf q)" and "rb_tail (rs_rbuf q) \<le> unat start"
    and "n = min (unat sz) (contig_end (unat start) sfs - unat start)"
  shows "rstream_read_loop q iter sz buf offset =
    Inr (Some (buf @ map S [unat start..<unat start + n],
               if sfs = [] \<or> start < sf_start (hd sfs) then offset else start + of_nat n,
               fl_fin (rs_fl q) \<and> (sfs = [] \<or> unat (sf_end (last sfs)) \<le> unat start + n)))"
  using assms
proof (induction sfs arbitrary: iter start sz buf offset n)
  case Nil
  then show ?case
    by (subst rstream_read_loop.simps) (simp add: peek_at [OF Nil.prems(1,2)])
next
  case (Cons sf nexts)
  note peek = peek_at [OF Cons.prems(1,2)]
  have fs: "sf_ok sf" "unat start < unat (sf_end sf)" "sframes_ok (sf_end sf) nexts"
    using Cons.prems(2) sframes_ok_advance by (auto simp: word_less_nat_alt)
  note last = sframes_last_end [OF Cons.prems(2)]
  show ?case
  proof (cases "start < sf_start sf")
    case True
    then show ?thesis
      using Cons.prems(6) fs(2) last by (subst rstream_read_loop.simps) (simp add: peek word_less_nat_alt)
  next
    case False
    let ?l = "sf_end sf - start"
    have l: "unat ?l = unat (sf_end sf) - unat start"
      using fs(2) by (simp add: unat_sub_no_underflow word_le_nat_alt)
    have ce: "contig_end (unat start) (sf # nexts) = contig_end (unat (sf_end sf)) nexts"
      using False by (simp add: word_less_nat_alt)
    note ge = contig_end_ge [OF fs(3)]
    note copy = frame_copy [OF _ Cons.prems(4,5), of S sf]
    show ?thesis
    proof (cases "?l > sz")
      case short: True
      then have n: "n = unat sz" "unat start + n < unat (sf_end sf)"
        using Cons.prems(6) ge ce l by (auto simp: word_less_nat_alt)
      then have "rstream_copy (rs_rbuf q) \<lparr>rstart = start, rend = sf_end sf\<rparr>
          (map_option (drop (unat start - unat (sf_start sf))) (sf_data sf)) sz
        = Inr (Some (map S [unat start..<unat start + unat sz]))" if "sz \<noteq> 0"
        using Cons.prems(3) False that by (intro copy) auto
      then show ?thesis
        using False short n last
        by (subst rstream_read_loop.simps) (simp add: peek u64_len_def word_less_nat_alt Let_def)
    next
      case fits: False
      then have le: "unat (sf_end sf) - unat start \<le> unat sz"
        using l by (simp add: word_less_nat_alt not_less)
      have nz: "?l \<noteq> 0"
        using fs(2) by auto
      have bs: "rstream_copy (rs_rbuf q) \<lparr>rstart = start, rend = sf_end sf\<rparr>
          (map_option (drop (unat start - unat (sf_start sf))) (sf_data sf)) ?l
        = Inr (Some (map S [unat start..<unat (sf_end sf)]))"
        using copy [of ?l "sf_end sf"] Cons.prems(3) False nz l fs(2) by simp
      have len: "u64_len (map S [unat start..<unat (sf_end sf)]) = ?l"
        using l by (simp add: u64_len_def) (metis of_nat_unat ucast_id)
      have sz': "unat (sz - ?l) = unat sz - unat ?l"
        using fits by (simp add: unat_sub_no_underflow not_less)
      show ?thesis
      proof (cases "sz = ?l")
        case True
        then have "n = unat ?l"
          using Cons.prems(6) ge ce l by simp
        with True show ?thesis
          using False bs last nz l fs(2) by (subst rstream_read_loop.simps) (auto simp: peek len)
      next
        case more: False
        define n' where "n' = min (unat (sz - ?l)) (contig_end (unat (sf_end sf)) nexts - unat (sf_end sf))"
        have n: "unat start + n = unat (sf_end sf) + n'"
          using Cons.prems(6) ge ce le sz' l fs(2) unfolding n'_def by linarith
        have tail: "rb_tail (rs_rbuf q) \<le> unat (sf_end sf)" "iter_pos (rs_fl q) (Some (sf, nexts)) = (sf_end sf, nexts)"
          using Cons.prems(5) fs(2) by auto
        note IH = Cons.IH [OF tail(2) fs(3) _ Cons.prems(4) tail(1) n'_def]
        have adv: "start + of_nat n = sf_end sf + of_nat n'"
          using n by (metis of_nat_add of_nat_unat ucast_id)
        have gap: "n' = 0" if "nexts = [] \<or> sf_end sf < sf_start (hd nexts)"
          using that by (cases nexts) (auto simp: n'_def word_less_nat_alt)
        have "map S [unat start..<unat (sf_end sf) + n'] = map S [unat start..<unat (sf_end sf)] @ map S [unat (sf_end sf)..<unat (sf_end sf) + n']"
          using fs(2) by (intro map_upt_split) auto
        moreover have "rstream_read_loop q iter sz buf offset
            = rstream_read_loop q (Some (sf, nexts)) (sz - ?l) (buf @ map S [unat start..<unat (sf_end sf)]) (sf_end sf)"
          using False bs fits more nz by (subst rstream_read_loop.simps) (simp add: peek len)
        ultimately show ?thesis
          using Cons.prems(3) False gap last fs(2) unfolding adv n by (auto simp: IH)
      qed
    qed
  qed
qed

section \<open>Invariant\<close>

text \<open>
  The frames from the read offset \<open>off\<close> on, their ring buffer and the packet references, for a stream \<open>S\<close>
  whose offsets stay within QUIC's limit.
\<close>

definition frames_inv ::
    "(nat \<Rightarrow> u8) \<Rightarrow> pkt_refs \<Rightarrow> u64 \<Rightarrow> stream_frame list \<Rightarrow> ring_buf \<Rightarrow> pkt_refs \<Rightarrow> bool" where
  "frames_inv S base off fs rb refs \<longleftrightarrow>
     sframes_ok off fs \<and> (\<forall>sf \<in> set fs. frame_holds S rb sf \<and> unat (sf_end sf) \<le> 2 ^ 62)
     \<and> refs_ok base refs fs \<and> ring_ok rb \<and> rb_tail rb = unat off"

definition rstream_ok :: "(nat \<Rightarrow> u8) \<Rightarrow> pkt_refs \<Rightarrow> quic_rstream \<Rightarrow> pkt_refs \<Rightarrow> bool" where
  "rstream_ok S base q refs \<longleftrightarrow> num_frames (rs_fl q) = length (frames (rs_fl q))
     \<and> frames_inv S base (fl_offset (rs_fl q)) (frames (rs_fl q)) (rs_rbuf q) refs"

abbreviation rs_pos :: "quic_rstream \<Rightarrow> nat" where
  "rs_pos q \<equiv> unat (fl_offset (rs_fl q))"

lemma rstream_ok_sfl: "rstream_ok S base q refs \<Longrightarrow> sfl_ok (rs_fl q)"
  by (simp add: rstream_ok_def frames_inv_def sfl_ok_def)

lemma frame_holds_transfer:
  assumes "frame_holds S rb sf" and "rb_tail rb \<le> rb_tail rb'"
    and "\<forall>k. rb_tail rb' \<le> k \<and> k < rb_head rb \<longrightarrow> k < rb_head rb' \<and> ring_at rb' k = ring_at rb k"
  shows "frame_holds S rb' sf"
  using assms by (auto simp: frame_holds_def split: option.splits)

lemma ring_at_suffix:
  assumes "ring_bytes r' = drop m (ring_bytes r)" and "rb_tail r' = rb_tail r + m" and "rb_tail r' \<le> rb_head r'"
  shows "\<forall>k. rb_tail r' \<le> k \<and> k < rb_head r \<longrightarrow> k < rb_head r' \<and> ring_at r' k = ring_at r k"
proof (intro allI impI)
  fix k assume k: "rb_tail r' \<le> k \<and> k < rb_head r"
  have len: "rb_head r' - rb_tail r' = rb_head r - rb_tail r - m"
    using arg_cong [OF assms(1), of length] by simp
  then have h: "k < rb_head r'"
    using k assms(2,3) by linarith
  have "ring_at r' k = ring_bytes r' ! (k - rb_tail r')"
    using h k nth_ring_bytes [of "k - rb_tail r'" r'] by (simp add: diff_less_mono)
  also have "\<dots> = ring_bytes r ! (k - rb_tail r)"
    using k assms(1,2) nth_drop [of m "ring_bytes r" "k - rb_tail r'"] by auto
  also have "\<dots> = ring_at r k"
    using k assms(2) nth_ring_bytes [of "k - rb_tail r" r] by (simp add: diff_less_mono)
  finally show "k < rb_head r' \<and> ring_at r' k = ring_at r k"
    using h by simp
qed

lemma contig_end_le_last:
  "sframes_ok off fs \<Longrightarrow> fs \<noteq> [] \<Longrightarrow> contig_end (unat off) fs \<le> unat (sf_end (last fs))"
proof (induction fs arbitrary: off)
  case (Cons sf fs)
  note adv = sframes_ok_advance [OF Cons.prems(1)] and last = sframes_last_end [OF Cons.prems(1)]
  have "unat off < unat (sf_end sf)"
    using Cons.prems(1) by (simp add: word_less_nat_alt)
  then show ?case
    using Cons.IH [OF adv] last by (cases "fs = []") auto
qed simp

lemma drop_to:
  assumes ok: "rstream_ok S base q refs" and lim: "rs_pos q \<le> unat limit" "limit \<noteq> 0"
    and fs: "frames (rs_fl q) \<noteq> []" "unat limit \<le> unat (sf_end (last (frames (rs_fl q))))"
  obtains fl' refs' rb' where "ossl_sframe_list_drop_frames refs (rs_fl q) limit = (fl', refs', True)"
    "ring_buf_cpop_range (rs_rbuf q) 0 (limit - 1) (fl_cleanse fl') = Inr rb'"
    "rstream_ok S base (q\<lparr>rs_fl := fl', rs_rbuf := rb'\<rparr>) refs'" "fl_offset fl' = limit"
    "frames fl' = dropWhile (\<lambda>sf. sf_end sf \<le> limit) (frames (rs_fl q))" "fl_fin fl' = fl_fin (rs_fl q)" "\<not> head_locked fl'"
proof -
  let ?fs = "frames (rs_fl q)"
  have inv: "frames_inv S base (fl_offset (rs_fl q)) ?fs (rs_rbuf q) refs" and sfl: "sfl_ok (rs_fl q)"
    using ok rstream_ok_sfl by (auto simp: rstream_ok_def)
  obtain fl' refs' b where drop: "ossl_sframe_list_drop_frames refs (rs_fl q) limit = (fl', refs', b)"
    using prod_cases3 by blast
  note spec = drop_frames_spec [OF sfl drop]
  have b
    using spec(3) lim fs by (simp add: word_le_nat_alt)
  note s = spec(4) [OF this]
  have e: "unat (limit - 1) = unat limit - 1" "0 < unat limit"
    using lim(2) by (simp_all add: unat_gt_0 unat_pred [of 0] word_gt_0)
  have max: "unat limit \<le> 2 ^ 62"
    using inv le_trans [OF fs(2)] last_in_set [OF fs(1)] by (simp add: frames_inv_def)
  obtain rb' where rb: "ring_buf_cpop_range (rs_rbuf q) 0 (limit - 1) (fl_cleanse fl') = Inr rb'" "ring_ok rb'" "rb_tail rb' = unat limit"
    "ring_bytes rb' = drop (unat limit - rb_tail (rs_rbuf q)) (ring_bytes (rs_rbuf q))"
    by (rule cpop_range_spec [of "rs_rbuf q" 0 "limit - 1" "fl_cleanse fl'"]) (use inv e lim(1) max in \<open>auto simp: frames_inv_def\<close>)
  have "rb_tail rb' \<le> rb_head rb'"
    using rb(2) by (simp add: ring_ok_def)
  then have at: "\<forall>k. rb_tail rb' \<le> k \<and> k < rb_head (rs_rbuf q) \<longrightarrow> k < rb_head rb' \<and> ring_at rb' k = ring_at (rs_rbuf q) k"
    using inv lim(1) rb(3) by (intro ring_at_suffix [OF rb(4)]) (auto simp: frames_inv_def)
  have "refs_ok base refs' (frames fl')"
    using inv s free_all_refs [of base refs "takeWhile (\<lambda>sf. sf_end sf \<le> limit) ?fs" "frames fl'"] by (simp add: frames_inv_def)
  moreover have "\<forall>sf \<in> set (frames fl'). frame_holds S rb' sf \<and> unat (sf_end sf) \<le> 2 ^ 62"
    using inv s at lim(1) rb(3)
    by (auto simp: frames_inv_def dest!: set_dropWhileD intro: frame_holds_transfer [of S "rs_rbuf q"])
  moreover have "sframes_ok limit (frames fl')" "num_frames fl' = length (frames fl')"
    using spec(1) s by (auto simp: sfl_ok_def)
  ultimately have "rstream_ok S base (q\<lparr>rs_fl := fl', rs_rbuf := rb'\<rparr>) refs'"
    using rb s by (simp add: rstream_ok_def frames_inv_def)
  then show ?thesis
    using that [of fl' refs' rb'] drop \<open>b\<close> rb(1) s by simp
qed

definition rs_read_len :: "quic_rstream \<Rightarrow> u64 \<Rightarrow> nat" where
  "rs_read_len q sz = min (unat sz) (contig_end (rs_pos q) (frames (rs_fl q)) - rs_pos q)"

lemma read_internal_peek:
  assumes ok: "rstream_ok S base q refs"
  shows "read_internal refs q sz False = Inr (q, refs, Some (map S [rs_pos q..<rs_pos q + rs_read_len q sz],
    fl_fin (rs_fl q) \<and> (\<forall>sf \<in> set (frames (rs_fl q)). unat (sf_end sf) \<le> rs_pos q + rs_read_len q sz)))"
    (is "_ = Inr (q, refs, Some (?bs, fl_fin (rs_fl q) \<and> ?all))")
proof -
  let ?fs = "frames (rs_fl q)"
  have inv: "sframes_ok (fl_offset (rs_fl q)) ?fs"
    using ok by (simp add: rstream_ok_def frames_inv_def)
  have all: "?all \<longleftrightarrow> ?fs = [] \<or> unat (sf_end (last ?fs)) \<le> rs_pos q + rs_read_len q sz"
  proof (cases "?fs = []")
    case False
    have "unat (sf_end sf) \<le> unat (sf_end (last ?fs))" if "sf \<in> set ?fs" for sf
      using sframes_last [OF inv that] by (auto simp: sf_before_def word_less_nat_alt)
    with False show ?thesis
      using last_in_set [OF False] by (meson le_trans)
  qed simp
  have "rstream_read_loop q None sz [] 0 = Inr (Some (?bs, x, fl_fin (rs_fl q) \<and> ?all))"
    if "x = (if ?fs = [] \<or> fl_offset (rs_fl q) < sf_start (hd ?fs) then 0 else fl_offset (rs_fl q) + of_nat (rs_read_len q sz))" for x
    unfolding all that using ok
    by (subst read_loop_spec [of q None "fl_offset (rs_fl q)" ?fs S "rs_read_len q sz"])
      (auto simp: rstream_ok_def frames_inv_def rs_read_len_def)
  then show ?thesis
    by (simp add: read_internal_def)
qed

lemma read_internal_drop:
  assumes ok: "rstream_ok S base q refs"
  obtains q' refs' where "read_internal refs q sz True =
      Inr (q', refs', Some (map S [rs_pos q..<rs_pos q + rs_read_len q sz], fl_fin (rs_fl q) \<and> frames (rs_fl q') = []))"
    "rstream_ok S base q' refs'" "rs_pos q' = rs_pos q + rs_read_len q sz"
    "frames (rs_fl q') = dropWhile (\<lambda>sf. unat (sf_end sf) \<le> rs_pos q + rs_read_len q sz) (frames (rs_fl q))"
    "rs_rxfc q' = rs_rxfc q" "fl_fin (rs_fl q') = fl_fin (rs_fl q)" "q' = q \<or> \<not> head_locked (rs_fl q')"
proof -
  let ?fs = "frames (rs_fl q)" and ?n = "rs_read_len q sz" and ?off = "fl_offset (rs_fl q)"
  let ?bs = "map S [rs_pos q..<rs_pos q + ?n]" and ?rest = "dropWhile (\<lambda>sf. unat (sf_end sf) \<le> rs_pos q + ?n) ?fs"
  have inv: "sframes_ok ?off ?fs" "\<forall>sf \<in> set ?fs. unat (sf_end sf) \<le> 2 ^ 62" "rs_pos q \<le> 2 ^ 62"
    using ok by (auto simp: rstream_ok_def frames_inv_def ring_ok_def)
  define limit where "limit = (if ?fs = [] \<or> ?off < sf_start (hd ?fs) then 0 else ?off + of_nat ?n)"
  have all: "?rest = [] \<longleftrightarrow> ?fs = [] \<or> unat (sf_end (last ?fs)) \<le> rs_pos q + ?n"
  proof (cases "?fs = []")
    case False
    have "unat (sf_end sf) \<le> unat (sf_end (last ?fs))" if "sf \<in> set ?fs" for sf
      using sframes_last [OF inv(1) that] by (auto simp: sf_before_def word_less_nat_alt)
    with False show ?thesis
      using last_in_set [OF False] unfolding dropWhile_eq_Nil_conv by (meson le_trans)
  qed simp
  have loop: "rstream_read_loop q None sz [] 0 = Inr (Some (?bs, limit, fl_fin (rs_fl q) \<and> ?rest = []))"
    unfolding all limit_def using ok
    by (subst read_loop_spec [of q None ?off ?fs S ?n]) (auto simp: rstream_ok_def frames_inv_def rs_read_len_def)
  show ?thesis
  proof (cases "limit = 0")
    case True
    have len: "unat (?off + of_nat ?n) = rs_pos q + ?n" if "?fs \<noteq> []"
    proof -
      have "rs_pos q + ?n \<le> 2 ^ 62"
        using contig_end_le_last [OF inv(1) that] inv(2,3) last_in_set [OF that] contig_end_ge [OF inv(1)]
        unfolding rs_read_len_def by fastforce
      then show ?thesis
        by (simp add: unat_add_no_overflow unat_of_nat)
    qed
    have "?n = 0"
    proof (cases "?fs = [] \<or> ?off < sf_start (hd ?fs)")
      case True
      then show ?thesis
        by (cases ?fs) (auto simp: rs_read_len_def word_less_nat_alt)
    next
      case False
      then show ?thesis
        using True len unfolding limit_def by simp
    qed
    then have "?rest = ?fs"
      using inv(1) by (cases ?fs) (auto simp: word_less_nat_alt)
    with loop have "rstream_read_loop q None sz [] 0 = Inr (Some (?bs, limit, fl_fin (rs_fl q) \<and> ?fs = []))"
      by (simp only:)
    with True \<open>?rest = ?fs\<close> \<open>?n = 0\<close> ok that [of q refs] show ?thesis
      by (simp add: read_internal_def)
  next
    case False
    then have fs: "?fs \<noteq> []" and lim: "limit = ?off + of_nat ?n"
      by (auto simp: limit_def split: if_splits)
    have last: "rs_pos q + ?n \<le> unat (sf_end (last ?fs))" "unat (sf_end (last ?fs)) \<le> 2 ^ 62"
      using contig_end_le_last [OF inv(1) fs] inv(2) last_in_set [OF fs] contig_end_ge [OF inv(1)]
      by (auto simp: rs_read_len_def)
    then have l: "unat limit = rs_pos q + ?n"
      unfolding lim by (simp add: unat_add_no_overflow unat_of_nat)
    obtain fl' refs' rb' where "ossl_sframe_list_drop_frames refs (rs_fl q) limit = (fl', refs', True)"
      "ring_buf_cpop_range (rs_rbuf q) 0 (limit - 1) (fl_cleanse fl') = Inr rb'"
      "rstream_ok S base (q\<lparr>rs_fl := fl', rs_rbuf := rb'\<rparr>) refs'" "fl_offset fl' = limit"
      "frames fl' = ?rest" "fl_fin fl' = fl_fin (rs_fl q)" "\<not> head_locked fl'"
      by (rule drop_to [OF ok _ False fs]) (use l last in \<open>auto simp: word_le_nat_alt\<close>)
    then show ?thesis
      using that [of "q\<lparr>rs_fl := fl', rs_rbuf := rb'\<rparr>" refs'] loop False l by (simp add: read_internal_def)
  qed
qed

section \<open>Moving frames to the ring buffer\<close>

lemma frames_inv_mid:
  "frames_inv S base off (ps @ sf # fs) rb refs \<Longrightarrow>
    sf_ok sf \<and> off < sf_end sf \<and> frame_holds S rb sf \<and> unat (sf_end sf) \<le> 2 ^ 62 \<and> ring_ok rb \<and> rb_tail rb = unat off"
  by (simp add: frames_inv_def)

lemma move_one:
  assumes inv: "frames_inv S base off (ps @ sf # fs) rb refs" and d: "sf_data sf = Some d"
    and lim: "sf_start sf \<le> limit" "limit \<le> sf_end sf"
    and prev: "\<forall>k. unat off \<le> k \<and> unat (sf_start sf) \<le> k \<and> k < unat limit \<longrightarrow> k < rb_head rb \<and> ring_at rb k = S k"
  obtains "write_at_ring_buf_cb rb limit (take (unat (sf_end sf - limit)) (drop (unat (limit - sf_start sf)) d)) = Inr (rb, False)"
  | rb' where "write_at_ring_buf_cb rb limit (take (unat (sf_end sf - limit)) (drop (unat (limit - sf_start sf)) d)) = Inr (rb', True)"
    "frames_inv S base off (ps @ sf\<lparr>sf_data := None, sf_pkt := None\<rparr> # fs) rb' (ossl_qrx_pkt_release refs (sf_pkt sf))"
proof -
  note mid = frames_inv_mid [OF inv]
  let ?buf = "take (unat (sf_end sf - limit)) (drop (unat (limit - sf_start sf)) d)"
  have l: "unat (sf_start sf) \<le> unat limit" "unat limit \<le> unat (sf_end sf)"
    using lim by (simp_all add: word_le_nat_alt)
  have "d = map S [unat (sf_start sf)..<unat (sf_end sf)]"
    using mid d by (simp add: frame_holds_def)
  then have buf: "?buf = map S [unat limit..<unat (sf_end sf)]"
    using l lim by (simp add: unat_sub_no_underflow drop_map drop_upt take_map take_upt)
  have max: "unat limit + length ?buf \<le> 2 ^ 62" "ring_ok rb"
    using mid l unfolding buf by auto
  show ?thesis
  proof (cases rule: ring_buf_write_at_spec [OF max(2) max(1)])
    case 2
    then show ?thesis
      using that(1) by (simp add: write_at_ring_buf_cb_def)
  next
    case 1
    then obtain rb' where rb': "ring_buf_write_at rb limit ?buf = Inr (rb', True)" "ring_ok rb'" "ring_written rb (unat limit) ?buf rb'"
      by blast
    have head: "rb_head rb' = (if ?buf = [] then rb_head rb else max (rb_head rb) (unat (sf_end sf)))" "rb_tail rb' = unat off"
      and size: "rb_head rb \<le> unat off + rb_size rb" "unat (sf_end sf) \<le> unat off + rb_size rb"
      using rb'(3) mid l 1(2) unfolding buf by (auto simp: ring_written_def ring_ok_def)
    have at: "ring_at rb' k = (if unat limit \<le> k \<and> k < unat (sf_end sf) then S k else ring_at rb k)"
      if "unat off \<le> k" "k < unat off + rb_size rb" for k
      using rb'(3) that mid l nth_map_upt [of "k - unat limit" "unat (sf_end sf)" "unat limit" S]
      unfolding buf ring_written_def by (simp add: diff_less_mono)
    have holds: "frame_holds S rb' x" if "frame_holds S rb x" for x
      using that mid head at size by (fastforce simp: frame_holds_def split: option.splits)
    have "k < rb_head rb' \<and> ring_at rb' k = S k" if k: "unat off \<le> k" "unat (sf_start sf) \<le> k" "k < unat (sf_end sf)" for k
    proof (cases "k < unat limit")
      case True
      then show ?thesis
        using prev k head(1) at [of k] size by auto
    next
      case False
      then have "?buf \<noteq> []"
        using k unfolding buf by simp
      then show ?thesis
        using False k head(1) at [of k] size by auto
    qed
    then have "frame_holds S rb' (sf\<lparr>sf_data := None, sf_pkt := None\<rparr>)"
      using head(2) by (simp add: frame_holds_def)
    moreover have "sf_before x (sf\<lparr>sf_data := None, sf_pkt := None\<rparr>) \<longleftrightarrow> sf_before x sf"
      "sf_before (sf\<lparr>sf_data := None, sf_pkt := None\<rparr>) x \<longleftrightarrow> sf_before sf x" for x
      by (simp_all add: sf_before_def)
    moreover have "refs_ok base (ossl_qrx_pkt_release refs (sf_pkt sf)) (ps @ sf\<lparr>sf_data := None, sf_pkt := None\<rparr> # fs)"
      using inv by (auto simp: frames_inv_def refs_ok_def ossl_qrx_pkt_release_def split: option.splits)
    ultimately have "frames_inv S base off (ps @ sf\<lparr>sf_data := None, sf_pkt := None\<rparr> # fs) rb' (ossl_qrx_pkt_release refs (sf_pkt sf))"
      using inv holds rb'(2) head(2) by (simp add: frames_inv_def sf_ok_def)
    with that(2) rb'(1) show ?thesis
      by (simp add: write_at_ring_buf_cb_def)
  qed
qed

lemma merge_frames:
  assumes inv: "frames_inv S base off (ps @ p # sf # fs) rb refs" and none: "sf_data p = None" "sf_data sf = None"
    and adj: "sf_start sf \<le> sf_end p"
  defines "p' \<equiv> p\<lparr>sf_range := (sf_range p)\<lparr>rend := sf_end sf\<rparr>\<rparr>"
  shows "frames_inv S base off (ps @ p' # fs) rb (stream_frame_free refs sf)"
    and "sf_covers (ps @ p' # fs) k \<longleftrightarrow> sf_covers (ps @ p # sf # fs) k"
proof -
  have before: "sf_before p sf"
    using inv by (auto simp: frames_inv_def)
  have p': "sf_start p' = sf_start p" "sf_end p' = sf_end sf" "sf_data p' = None" "sf_pkt p' = sf_pkt p"
    using none by (simp_all add: p'_def)
  have n: "unat (sf_start p) \<le> unat (sf_start sf)" "unat (sf_end p) < unat (sf_end sf)" "unat (sf_start sf) \<le> unat (sf_end p)"
    using before adj by (simp_all add: sf_before_def word_le_nat_alt word_less_nat_alt)
  then show "sf_covers (ps @ p' # fs) k \<longleftrightarrow> sf_covers (ps @ p # sf # fs) k"
    by (auto simp: p')
  have "refs_ok base refs (sf # ps @ p' # fs)"
    using inv p'(4) unfolding frames_inv_def by (auto elim!: refs_ok_cong)
  then have "refs_ok base (stream_frame_free refs sf) (ps @ p' # fs)"
    by (rule free_refs)
  moreover have "k < rb_head rb \<and> ring_at rb k = S k"
    if "rb_tail rb \<le> k" "unat (sf_start p) \<le> k" "k < unat (sf_end sf)" for k
    using inv none that n by (cases "k < unat (sf_end p)") (simp_all add: frames_inv_def frame_holds_def)
  then have "frame_holds S rb p'"
    by (simp add: frame_holds_def p')
  moreover have "sf_ok p'"
    using n p' by (simp add: sf_ok_def word_le_nat_alt)
  ultimately show "frames_inv S base off (ps @ p' # fs) rb (stream_frame_free refs sf)"
    using inv p' n unfolding frames_inv_def by (auto simp: sf_before_def word_less_nat_alt word_le_nat_alt)
qed

text \<open>What the loop keeps: the invariant and the offsets held, in no more frames.\<close>

definition move_post ::
    "(nat \<Rightarrow> u8) \<Rightarrow> pkt_refs \<Rightarrow> u64 \<Rightarrow> stream_frame list \<Rightarrow> c_fault + (stream_frame list \<times> ring_buf \<times> pkt_refs \<times> bool) \<Rightarrow> bool" where
  "move_post S base off fs0 res \<longleftrightarrow>
     (case res of
        Inl _ \<Rightarrow> False
      | Inr (fs, rb, refs, ok) \<Rightarrow> frames_inv S base off fs rb refs \<and> length fs \<le> length fs0
          \<and> (\<forall>k. sf_covers fs k \<longleftrightarrow> sf_covers fs0 k))"

lemma move_post_trans:
  assumes "move_post S base off fs1 res" and "length fs1 \<le> length fs0" and "\<forall>k. sf_covers fs1 k \<longleftrightarrow> sf_covers fs0 k"
  shows "move_post S base off fs0 res"
  using assms by (auto simp: move_post_def split: sum.splits)

lemma move_loop_post:
  assumes "frames_inv S base off (rev prevs @ sfs) rb refs"
    and "if has_prev then prevs \<noteq> [] \<and> sf_data (hd prevs) = None \<and> limit = sf_end (hd prevs) else limit = off"
  shows "move_post S base off (rev prevs @ sfs) (sframe_move_loop write_at_ring_buf_cb rb refs limit has_prev prevs sfs)"
  using assms
proof (induction sfs arbitrary: rb refs limit has_prev prevs)
  case Nil
  then show ?case
    by (simp add: move_post_def)
next
  case (Cons sf sfs)
  let ?lim = "if limit < sf_start sf then sf_start sf else limit" and ?ps = "rev prevs"
  note mid = frames_inv_mid [OF Cons.prems(1)]
  have prev_before: "sf_before (hd prevs) sf" if "has_prev"
  proof -
    have "hd prevs \<in> set ?ps"
      using Cons.prems(2) that by simp
    then show ?thesis
      using Cons.prems(1) by (simp add: frames_inv_def)
  qed
  have lim: "sf_start sf \<le> ?lim" "?lim \<le> sf_end sf"
    using mid Cons.prems(2) prev_before by (auto simp: sf_ok_def sf_before_def split: if_splits)
  have merge_step: "move_post S base off (?ps @ sf # sfs)
      (if has_prev \<and> sf_end (hd prevs) \<ge> sf_start sf'
       then sframe_move_loop write_at_ring_buf_cb rb' (stream_frame_free refs' sf') (sf_end sf') True
         ((hd prevs)\<lparr>sf_range := (sf_range (hd prevs))\<lparr>rend := sf_end sf'\<rparr>\<rparr> # tl prevs) sfs
       else sframe_move_loop write_at_ring_buf_cb rb' refs' (sf_end sf') True (sf' # prevs) sfs)"
    if inv: "frames_inv S base off (?ps @ sf' # sfs) rb' refs'" and sf': "sf_range sf' = sf_range sf" "sf_data sf' = None"
    for sf' rb' refs'
  proof (cases "has_prev \<and> sf_end (hd prevs) \<ge> sf_start sf'")
    case True
    let ?p = "(hd prevs)\<lparr>sf_range := (sf_range (hd prevs))\<lparr>rend := sf_end sf'\<rparr>\<rparr>"
    have ps: "?ps = rev (tl prevs) @ [hd prevs]" "sf_data (hd prevs) = None"
      using True Cons.prems(2) by (cases prevs; simp)+
    have inv': "frames_inv S base off (rev (tl prevs) @ hd prevs # sf' # sfs) rb' refs'"
      using inv unfolding ps(1) by simp
    note m = merge_frames [OF inv' ps(2) sf'(2) conjunct2 [OF True]]
    have "move_post S base off (rev (?p # tl prevs) @ sfs)
        (sframe_move_loop write_at_ring_buf_cb rb' (stream_frame_free refs' sf') (sf_end sf') True (?p # tl prevs) sfs)"
      using m(1) ps(2) by (intro Cons.IH) simp_all
    then have "move_post S base off (?ps @ sf # sfs)
        (sframe_move_loop write_at_ring_buf_cb rb' (stream_frame_free refs' sf') (sf_end sf') True (?p # tl prevs) sfs)"
      by (rule move_post_trans) (use m(2) sf' ps(1) in simp_all)
    with True show ?thesis
      by simp
  next
    case False
    have "move_post S base off (rev (sf' # prevs) @ sfs) (sframe_move_loop write_at_ring_buf_cb rb' refs' (sf_end sf') True (sf' # prevs) sfs)"
      using inv sf' by (intro Cons.IH) simp_all
    then have "move_post S base off (?ps @ sf # sfs) (sframe_move_loop write_at_ring_buf_cb rb' refs' (sf_end sf') True (sf' # prevs) sfs)"
      by (rule move_post_trans) (use sf' in simp_all)
    then show ?thesis
      unfolding if_not_P [OF False] .
  qed
  show ?case
  proof (cases "sf_data sf")
    case None
    then show ?thesis
      using merge_step [OF Cons.prems(1) refl None] by (simp add: Let_def)
  next
    case (Some d)
    have data: "(if sf_start sf < ?lim then drop (unat (?lim - sf_start sf)) d else d) = drop (unat (?lim - sf_start sf)) d"
      using lim(1) by (auto simp: not_less)
    have before: "\<forall>k. unat off \<le> k \<and> unat (sf_start sf) \<le> k \<and> k < unat ?lim \<longrightarrow> k < rb_head rb \<and> ring_at rb k = S k"
    proof (cases has_prev)
      case True
      then have "frame_holds S rb (hd prevs)" "sf_data (hd prevs) = None" "limit = sf_end (hd prevs)" "sf_start (hd prevs) \<le> sf_start sf"
        using Cons.prems prev_before by (auto simp: frames_inv_def sf_before_def)
      with mid show ?thesis
        by (auto simp: frame_holds_def word_le_nat_alt split: if_splits)
    qed (use Cons.prems(2) in auto)
    show ?thesis
    proof (cases rule: move_one [OF Cons.prems(1) Some lim before])
      case 1
      then show ?thesis
        using Cons.prems(1) Some unfolding sframe_move_loop.simps Let_def data by (simp add: data move_post_def)
    next
      case (2 rb')
      then show ?thesis
        using merge_step [OF 2(2)] Some unfolding sframe_move_loop.simps Let_def data by (simp add: data)
    qed
  qed
qed

lemma move_to_rbuf_spec:
  assumes ok: "rstream_ok S base q refs"
  obtains fl' rb' refs' b where
    "ossl_quic_rstream_move_to_rbuf refs q = Inr (q\<lparr>rs_fl := fl', rs_rbuf := rb'\<rparr>, refs', b)"
    "rstream_ok S base (q\<lparr>rs_fl := fl', rs_rbuf := rb'\<rparr>) refs'" "fl_offset fl' = fl_offset (rs_fl q)"
    "\<forall>k. sf_covers (frames fl') k \<longleftrightarrow> sf_covers (frames (rs_fl q)) k"
    "fl_fin fl' = fl_fin (rs_fl q)" "head_locked fl' = head_locked (rs_fl q)"
proof (cases "ring_buf_avail (rs_rbuf q) = 0 \<or> frames (rs_fl q) = []")
  case True
  then show ?thesis
    using ok that [where fl' = "rs_fl q" and rb' = "rs_rbuf q" and refs' = refs
        and b = "ring_buf_avail (rs_rbuf q) \<noteq> 0"]
    by (cases "ring_buf_avail (rs_rbuf q) = 0")
      (simp_all add: ossl_quic_rstream_move_to_rbuf_def ossl_sframe_list_move_data_def)
next
  case False
  let ?fl = "rs_fl q"
  from False obtain f fs where fs: "frames ?fl = f # fs" "ring_buf_avail (rs_rbuf q) \<noteq> 0"
    by (cases "frames ?fl") auto
  have inv: "frames_inv S base (fl_offset ?fl) (rev [f] @ fs) (rs_rbuf q) refs" "num_frames ?fl = length (frames ?fl)"
    using ok fs by (simp_all add: rstream_ok_def)
  let ?res = "if head_locked ?fl then sframe_move_loop write_at_ring_buf_cb (rs_rbuf q) refs (fl_offset ?fl) False [f] fs
    else sframe_move_loop write_at_ring_buf_cb (rs_rbuf q) refs (fl_offset ?fl) False [] (f # fs)"
  have "move_post S base (fl_offset ?fl) (f # fs) ?res"
    using move_loop_post [OF inv(1), of False] move_loop_post [of S base "fl_offset ?fl" "[]" "f # fs" "rs_rbuf q" refs False] inv(1)
    by simp
  then obtain fs' rb' refs' b where res: "?res = Inr (fs', rb', refs', b)" "frames_inv S base (fl_offset ?fl) fs' rb' refs'"
    "length fs' \<le> length (f # fs)" "\<forall>k. sf_covers fs' k \<longleftrightarrow> sf_covers (f # fs) k"
    unfolding move_post_def by (auto split: sum.splits)
  show ?thesis
    using that [where fl' = "?fl\<lparr>frames := fs', num_frames := num_frames ?fl - (length (frames ?fl) - length fs')\<rparr>"
        and rb' = rb' and refs' = refs' and b = b] fs inv(2) res
    by (simp add: ossl_quic_rstream_move_to_rbuf_def ossl_sframe_list_move_data_def rstream_ok_def)
qed

section \<open>The other operations\<close>

text \<open>A frame carries the bytes of the stream at its offset; an empty one may come without a data pointer.\<close>

definition stream_data :: "(nat \<Rightarrow> u8) \<Rightarrow> u64 \<Rightarrow> bytes option \<Rightarrow> u64 \<Rightarrow> bool" where
  "stream_data S off data len \<longleftrightarrow> unat off + unat len \<le> 2 ^ 62
     \<and> (data = Some (map S [unat off..<unat off + unat len]) \<or> data = None \<and> len = 0)"

lemma queue_data_spec:
  assumes ok: "rstream_ok S base q refs" and data: "stream_data S off data len"
    and res: "ossl_quic_rstream_queue_data mem refs q pkt off data len fin = (q', refs', b)"
  shows "rstream_ok S base q' refs' \<and> fl_offset (rs_fl q') = fl_offset (rs_fl q)
    \<and> head_locked (rs_fl q') = head_locked (rs_fl q) \<and> head_range q' = head_range q
    \<and> (if b then \<forall>k \<ge> rs_pos q. sf_covers (frames (rs_fl q')) k \<longleftrightarrow>
           sf_covers (frames (rs_fl q)) k \<or> unat off \<le> k \<and> k < unat off + unat len
       else q' = q \<and> refs' = refs)"
proof (cases "data = None \<and> len \<noteq> 0 \<or> len = 0 \<and> \<not> fin")
  case True
  then show ?thesis
    using res ok by (auto simp: ossl_quic_rstream_queue_data_def)
next
  case False
  let ?rg = "\<lparr>rstart = off, rend = off + len\<rparr>"
  let ?new = "\<lparr>sf_range = ?rg, sf_pkt = pkt, sf_data = data\<rparr>"
  obtain fl' where ins: "ossl_sframe_list_insert mem refs (rs_fl q) ?rg pkt data fin = (fl', refs', b)" "q' = q\<lparr>rs_fl := fl'\<rparr>"
    using res False by (auto simp: ossl_quic_rstream_queue_data_def split: prod.splits)
  have e: "unat (off + len) = unat off + unat len"
    using data by (simp add: stream_data_def unat_add_no_overflow)
  have "sf_insert_post mem (rs_fl q) ?new fin refs (fl', refs', b)"
    using sframe_list_insert_post [OF rstream_ok_sfl [OF ok], of ?rg data mem pkt fin refs] data e ins(1)
    by (auto simp: stream_data_def word_le_nat_alt split: option.splits)
  moreover have "frame_holds S (rs_rbuf q) ?new" "unat (sf_end ?new) \<le> 2 ^ 62"
    using data e by (auto simp: stream_data_def frame_holds_def)
  moreover have "refs_ok base refs' (frames fl')"
    using insert_refs [OF _ ins(1)] ok by (simp add: rstream_ok_def frames_inv_def)
  ultimately show ?thesis
    using ok e unfolding ins(2) by (auto simp: sf_insert_post_def rstream_ok_def frames_inv_def sfl_ok_def)
qed

lemma resize_rbuf_spec:
  assumes ok: "rstream_ok S base q refs" and n: "unat n < 2 ^ 63" and blk: "\<And>b. blk = Some b \<Longrightarrow> length b = unat n"
  obtains rb' b where "ossl_quic_rstream_resize_rbuf blk q n = Inr (q\<lparr>rs_rbuf := rb'\<rparr>, b)"
    "rstream_ok S base (q\<lparr>rs_rbuf := rb'\<rparr>) refs"
proof (cases "head_locked (rs_fl q)")
  case True
  then show ?thesis
    using ok that [where rb' = "rs_rbuf q" and b = False] by (simp add: ossl_quic_rstream_resize_rbuf_def ossl_sframe_list_is_head_locked_def)
next
  case False
  have rb: "ring_ok (rs_rbuf q)"
    using ok by (simp add: rstream_ok_def frames_inv_def)
  show ?thesis
  proof (cases rule: ring_buf_resize_spec [OF rb n blk, of blk "fl_cleanse (rs_fl q)", case_names _ failed resized])
    case failed
    then show ?thesis
      using ok False that [where rb' = "rs_rbuf q" and b = False]
      by (simp add: ossl_quic_rstream_resize_rbuf_def ossl_sframe_list_is_head_locked_def)
  next
    case (resized rb')
    have "\<forall>k. rb_tail rb' \<le> k \<and> k < rb_head (rs_rbuf q) \<longrightarrow> k < rb_head rb' \<and> ring_at rb' k = ring_at (rs_rbuf q) k"
      using resized(2,4,5) by (intro ring_at_suffix [of rb' 0]) (simp_all add: ring_ok_def)
    then have "frame_holds S rb' sf" if "frame_holds S (rs_rbuf q) sf" for sf
      using that resized(5) by (auto intro: frame_holds_transfer)
    then have "rstream_ok S base (q\<lparr>rs_rbuf := rb'\<rparr>) refs"
      using ok resized(2,5) by (simp add: rstream_ok_def frames_inv_def)
    then show ?thesis
      using False resized(1) that by (simp add: ossl_quic_rstream_resize_rbuf_def ossl_sframe_list_is_head_locked_def)
  qed simp
qed

text \<open>
  The record given out lies at the read offset; \<^const>\<open>head_range\<close> remembers it while the head is locked.
\<close>

definition record_ok :: "quic_rstream \<Rightarrow> bool" where
  "record_ok q \<longleftrightarrow> (head_locked (rs_fl q) \<longrightarrow>
     rstart (head_range q) = fl_offset (rs_fl q) \<and> rstart (head_range q) < rend (head_range q)
     \<and> (\<forall>k. rs_pos q \<le> k \<and> k < unat (rend (head_range q)) \<longrightarrow> sf_covers (frames (rs_fl q)) k))"

lemma sf_covers_last:
  assumes "sframes_ok off fs" and "sf_covers fs k"
  shows "fs \<noteq> []" and "k < unat (sf_end (last fs))"
proof -
  obtain sf where sf: "sf \<in> set fs" "k < unat (sf_end sf)"
    using assms(2) by (auto simp: sf_covers_def)
  then show "fs \<noteq> []"
    by auto
  show "k < unat (sf_end (last fs))"
    using sframes_last [OF assms(1) sf(1)] sf(2) by (auto simp: sf_before_def word_less_nat_alt)
qed

lemma record_held:
  assumes "rstream_ok S base q refs" and "record_ok q" and "head_locked (rs_fl q)"
  shows "rstart (head_range q) = fl_offset (rs_fl q)" and "fl_offset (rs_fl q) \<le> rend (head_range q)"
    and "frames (rs_fl q) \<noteq> []" and "unat (rend (head_range q)) \<le> unat (sf_end (last (frames (rs_fl q))))"
proof -
  have r: "rstart (head_range q) = fl_offset (rs_fl q)" "rs_pos q < unat (rend (head_range q))"
    and c: "sf_covers (frames (rs_fl q)) (unat (rend (head_range q)) - 1)"
    using assms(2,3) by (auto simp: record_ok_def word_less_nat_alt)
  then show "rstart (head_range q) = fl_offset (rs_fl q)" "fl_offset (rs_fl q) \<le> rend (head_range q)"
    by (simp_all add: word_le_nat_alt)
  show "frames (rs_fl q) \<noteq> []" "unat (rend (head_range q)) \<le> unat (sf_end (last (frames (rs_fl q))))"
    using sf_covers_last [OF _ c, of "fl_offset (rs_fl q)"] assms(1) by (auto simp: rstream_ok_def frames_inv_def)
qed

lemma get_record_head:
  assumes ok: "rstream_ok S base q refs" and unlocked: "\<not> head_locked (rs_fl q)"
    and fs: "frames (rs_fl q) = sf # nexts" "sf_start sf \<le> fl_offset (rs_fl q)"
  obtains d len fin where "ossl_quic_rstream_get_record refs q =
      Inr (q\<lparr>rs_fl := (rs_fl q)\<lparr>head_locked := True\<rparr>,
             head_range := \<lparr>rstart = fl_offset (rs_fl q), rend = fl_offset (rs_fl q) + len\<rparr>\<rparr>, refs, Some (Some d, len, Some fin))"
    "0 < unat len" "unat len \<le> unat (sf_end sf) - rs_pos q" "unat len \<le> length d"
    "take (unat len) d = map S [rs_pos q..<rs_pos q + unat len]"
proof -
  let ?fl = "rs_fl q" and ?off = "fl_offset (rs_fl q)"
  have inv: "sframes_ok ?off (sf # nexts)" "ring_ok (rs_rbuf q)" "rb_tail (rs_rbuf q) = rs_pos q" "frame_holds S (rs_rbuf q) sf"
    using ok fs by (auto simp: rstream_ok_def frames_inv_def)
  have lt: "rs_pos q < unat (sf_end sf)"
    using inv(1) by (simp add: word_less_nat_alt)
  define l where "l = sf_end sf - ?off"
  have l: "unat l = unat (sf_end sf) - rs_pos q" "l \<noteq> 0" "?off + l = sf_end sf"
    using lt by (auto simp: l_def unat_sub_no_underflow word_le_nat_alt)
  have peek: "ossl_sframe_list_peek ?fl None =
      (\<lparr>pk_range = \<lparr>rstart = ?off, rend = sf_end sf\<rparr>,
        pk_data = map_option (drop (rs_pos q - unat (sf_start sf))) (sf_data sf),
        pk_fin = (nexts = [] \<and> fl_fin ?fl), pk_iter = Some (sf, nexts)\<rparr>, True)"
    using peek_at [of ?fl None, OF iter_pos_simps(1)] inv(1) fs by (simp add: not_less [symmetric])
  have neq: "sf_end sf \<noteq> ?off"
    using lt by auto
  note def = ossl_quic_rstream_get_record_def ossl_sframe_list_lock_head_def peek neq Let_def
  show ?thesis
  proof (cases "sf_data sf")
    case (Some d)
    let ?d = "drop (rs_pos q - unat (sf_start sf)) d"
    have "d = map S [unat (sf_start sf)..<unat (sf_end sf)]" "unat (sf_start sf) \<le> rs_pos q"
      using inv(4) Some fs(2) by (simp_all add: frame_holds_def word_le_nat_alt)
    then have "?d = map S [rs_pos q..<unat (sf_end sf)]"
      by (simp add: drop_map drop_upt)
    then show ?thesis
      using that [of l ?d] unlocked Some l lt by (simp add: def l_def unat_gt_0)
  next
    case None
    have head: "\<forall>k. rs_pos q \<le> k \<and> k < unat (sf_end sf) \<longrightarrow> k < rb_head (rs_rbuf q) \<and> ring_at (rs_rbuf q) k = S k"
      using inv(3,4) None fs(2) by (auto simp: frame_holds_def word_le_nat_alt)
    have in_ring: "rb_tail (rs_rbuf q) \<le> rs_pos q" "rs_pos q < rb_head (rs_rbuf q)"
      using inv(3) head lt by auto
    obtain d where d: "ring_buf_get_ptr (rs_rbuf q) ?off = Inr (Some d)" "0 < length d"
      "\<forall>i < length d. d ! i = ring_at (rs_rbuf q) (rs_pos q + i)" "unat (u64_len d) = length d"
      using get_ptr_spec [OF inv(2) in_ring] by blast
    define len where "len = (if u64_len d < l then u64_len d else l)"
    have len: "0 < unat len" "unat len \<le> unat (sf_end sf) - rs_pos q" "unat len \<le> length d"
      using d(2,4) l by (auto simp: len_def word_less_nat_alt unat_gt_0)
    have "take (unat len) d = map S [rs_pos q..<rs_pos q + unat len]"
      by (rule ring_span [OF d(3) len(3)]) (use head len(2) in auto)
    then show ?thesis
      using that [of len d] unlocked None l len d(1) by (simp add: def l_def [symmetric] len_def)
  qed
qed

lemma get_record_spec:
  assumes ok: "rstream_ok S base q refs" and rec: "record_ok q"
  obtains q' r len fin where "ossl_quic_rstream_get_record refs q = Inr (q', refs, Some (r, len, fin))"
    "rstream_ok S base q' refs" "record_ok q'" "rs_pos q' = rs_pos q" "frames (rs_fl q') = frames (rs_fl q)"
    "rs_rxfc q' = rs_rxfc q"
    "case r of None \<Rightarrow> len = 0 \<and> (head_locked (rs_fl q) \<or> \<not> sf_covers (frames (rs_fl q)) (rs_pos q))
       | Some d \<Rightarrow> len \<noteq> 0 \<and> head_locked (rs_fl q') \<and> rend (head_range q') - rstart (head_range q') = len \<and> unat len \<le> length d \<and> take (unat len) d = map S [rs_pos q..<rs_pos q + unat len]"
proof (cases "head_locked (rs_fl q)")
  case True
  then show ?thesis
    using ok rec that [of q None 0 None] by (simp add: ossl_quic_rstream_get_record_def ossl_sframe_list_lock_head_def)
next
  case unlocked: False
  let ?fl = "rs_fl q" and ?fs = "frames (rs_fl q)"
  have inv: "sframes_ok (fl_offset ?fl) ?fs"
    using ok by (auto simp: rstream_ok_def frames_inv_def)
  show ?thesis
  proof (cases "?fs = [] \<or> fl_offset ?fl < sf_start (hd ?fs)")
    case True
    have "\<not> sf_covers ?fs (rs_pos q)"
      using contig_end_gap [OF inv] True by (cases ?fs) (auto simp: word_less_nat_alt)
    with True show ?thesis
      using ok rec unlocked peek_at [of ?fl None, OF iter_pos_simps(1) inv]
        that [of "q\<lparr>head_range := \<lparr>rstart = fl_offset ?fl, rend = fl_offset ?fl\<rparr>\<rparr>" None 0]
      by (cases ?fs) (auto simp: ossl_quic_rstream_get_record_def ossl_sframe_list_lock_head_def record_ok_def
          rstream_ok_def Let_def)
  next
    case False
    then obtain sf nexts where fs: "?fs = sf # nexts" "sf_start sf \<le> fl_offset ?fl"
      by (cases ?fs) auto
    obtain d len fin where r: "ossl_quic_rstream_get_record refs q =
        Inr (q\<lparr>rs_fl := ?fl\<lparr>head_locked := True\<rparr>,
               head_range := \<lparr>rstart = fl_offset ?fl, rend = fl_offset ?fl + len\<rparr>\<rparr>, refs, Some (Some d, len, Some fin))"
      "0 < unat len" "unat len \<le> unat (sf_end sf) - rs_pos q" "unat len \<le> length d"
      "take (unat len) d = map S [rs_pos q..<rs_pos q + unat len]"
      by (rule get_record_head [OF ok unlocked fs])
    have "rs_pos q + unat len \<le> unat (sf_end sf)"
      using r(2,3) by linarith
    then have "unat (fl_offset ?fl + len) = rs_pos q + unat len"
      by (rule unat_add_le)
    then have "record_ok (q\<lparr>rs_fl := ?fl\<lparr>head_locked := True\<rparr>,
        head_range := \<lparr>rstart = fl_offset ?fl, rend = fl_offset ?fl + len\<rparr>\<rparr>)"
      using r(2,3) fs by (auto simp: record_ok_def word_le_nat_alt word_less_nat_alt)
    with r ok show ?thesis
      by (intro that [OF r(1)]) (auto simp: rstream_ok_def)
  qed
qed

lemma on_retire_no_fault: "\<exists>h' ok. ossl_quic_rxfc_on_retire now h p n rtt = Inr (h', ok)"
  by (auto simp: ossl_quic_rxfc_on_retire_def Let_def split: option.splits)

lemma drop_nothing:
  assumes ok: "rstream_ok S base q refs"
  shows "ossl_sframe_list_drop_frames refs (rs_fl q) (fl_offset (rs_fl q)) = ((rs_fl q)\<lparr>head_locked := False\<rparr>, refs, True)"
proof -
  have "sframes_ok (fl_offset (rs_fl q)) (frames (rs_fl q))"
    using ok by (simp add: rstream_ok_def frames_inv_def)
  then have "frames (rs_fl q) = [] \<or> fl_offset (rs_fl q) < sf_end (last (frames (rs_fl q)))"
    "takeWhile (\<lambda>sf. sf_end sf \<le> fl_offset (rs_fl q)) (frames (rs_fl q)) = []"
    "dropWhile (\<lambda>sf. sf_end sf \<le> fl_offset (rs_fl q)) (frames (rs_fl q)) = frames (rs_fl q)"
    using last_in_set [of "frames (rs_fl q)"] hd_in_set [of "frames (rs_fl q)"]
    by (cases "frames (rs_fl q) = []", simp_all add: sframes_ok_def takeWhile_eq_Nil_iff dropWhile_eq_self_iff not_le)+
  then show ?thesis
    by (auto simp: ossl_sframe_list_drop_frames_def)
qed

text \<open>Releasing a record drops as many bytes as asked for, at most the record.\<close>

lemma release_drop:
  assumes ok: "rstream_ok S base q refs" and rec: "record_ok q" "head_locked (rs_fl q)"
    and m: "m \<le> rend (head_range q) - rstart (head_range q)"
  obtains fl' refs' rb' where
    "ossl_sframe_list_drop_frames refs (rs_fl q) (rstart (head_range q) + m) = (fl', refs', True)"
    "(if rstart (head_range q) + m > 0
      then ring_buf_cpop_range (rs_rbuf q) 0 (rstart (head_range q) + m - 1) (fl_cleanse fl') else Inr (rs_rbuf q)) = Inr rb'"
    "rstream_ok S base (q\<lparr>rs_fl := fl', rs_rbuf := rb'\<rparr>) refs'" "\<not> head_locked fl'" "unat (fl_offset fl') = rs_pos q + unat m"
    "\<forall>k \<ge> rs_pos q + unat m. sf_covers (frames fl') k \<longleftrightarrow> sf_covers (frames (rs_fl q)) k" "fl_fin fl' = fl_fin (rs_fl q)"
proof -
  let ?fl = "rs_fl q"
  define limit where "limit = fl_offset ?fl + m"
  note hr = record_held [OF ok rec]
  have fs: "sframes_ok (fl_offset ?fl) (frames ?fl)"
    using ok by (simp add: rstream_ok_def frames_inv_def)
  have le: "rs_pos q + unat m \<le> unat (rend (head_range q))"
    using m hr(1,2) by (simp add: word_le_nat_alt unat_sub_no_underflow)
  then have l: "unat limit = rs_pos q + unat m"
    unfolding limit_def by (rule unat_add_le)
  show ?thesis
  proof (cases "limit = 0")
    case True
    then have "fl_offset ?fl = 0" "m = 0"
      using l by (simp_all add: unat_eq_zero)
    with drop_nothing [OF ok] ok hr(1) show ?thesis
      by (intro that [of "?fl\<lparr>head_locked := False\<rparr>" refs "rs_rbuf q"]) (auto simp: rstream_ok_def)
  next
    case False
    obtain fl' refs' rb' where d: "ossl_sframe_list_drop_frames refs ?fl limit = (fl', refs', True)"
      "ring_buf_cpop_range (rs_rbuf q) 0 (limit - 1) (fl_cleanse fl') = Inr rb'"
      "rstream_ok S base (q\<lparr>rs_fl := fl', rs_rbuf := rb'\<rparr>) refs'" "fl_offset fl' = limit"
      "frames fl' = dropWhile (\<lambda>sf. sf_end sf \<le> limit) (frames ?fl)" "fl_fin fl' = fl_fin ?fl" "\<not> head_locked fl'"
      by (rule drop_to [OF ok _ False hr(3)]) (use l le hr(4) in auto)
    show ?thesis
      using d False l drop_frames_covers [OF fs, of limit] hr(1)
      by (intro that [of fl' refs' rb']) (auto simp: limit_def word_gt_0)
  qed
qed

lemma record_ok_mono:
  assumes "record_ok q" and "\<forall>k \<ge> rs_pos q. sf_covers (frames (rs_fl q)) k \<longrightarrow> sf_covers (frames (rs_fl q')) k"
    and "fl_offset (rs_fl q') = fl_offset (rs_fl q)" "head_locked (rs_fl q') = head_locked (rs_fl q)" "head_range q' = head_range q"
  shows "record_ok q'"
  using assms by (auto simp: record_ok_def)

lemma release_record_spec:
  assumes ok: "rstream_ok S base q refs" and rec: "record_ok q"
  obtains q' refs' h' b where "ossl_quic_rstream_release_record now h refs q read_len = Inr (q', refs', h', b)"
    "rstream_ok S base q' refs'" "record_ok q'" "rs_pos q \<le> rs_pos q'"
    "\<forall>k \<ge> rs_pos q'. sf_covers (frames (rs_fl q')) k \<longleftrightarrow> sf_covers (frames (rs_fl q)) k"
    "b \<longrightarrow> rs_pos q' = rs_pos q + unat (min read_len (rend (head_range q) - rstart (head_range q)))"
    "rs_rxfc q = None \<longrightarrow> (b \<longleftrightarrow> head_locked (rs_fl q)
       \<and> (read_len \<le> rend (head_range q) - rstart (head_range q) \<or> read_len = SIZE_MAX))"
proof (cases "head_locked (rs_fl q) \<and> (read_len \<le> rend (head_range q) - rstart (head_range q) \<or> read_len = SIZE_MAX)")
  case False
  then show ?thesis
    using ok rec by (intro that [of q refs h False])
      (auto simp: ossl_quic_rstream_release_record_def ossl_sframe_list_is_head_locked_def not_le)
next
  case True
  let ?m = "min read_len (rend (head_range q) - rstart (head_range q))"
  have off: "(if read_len > rend (head_range q) - rstart (head_range q) then rend (head_range q)
      else rstart (head_range q) + read_len) = rstart (head_range q) + ?m"
    by (auto simp: min_def)
  obtain fl' refs' rb' where d: "ossl_sframe_list_drop_frames refs (rs_fl q) (rstart (head_range q) + ?m) = (fl', refs', True)"
    "(if rstart (head_range q) + ?m > 0
      then ring_buf_cpop_range (rs_rbuf q) 0 (rstart (head_range q) + ?m - 1) (fl_cleanse fl') else Inr (rs_rbuf q)) = Inr rb'"
    "rstream_ok S base (q\<lparr>rs_fl := fl', rs_rbuf := rb'\<rparr>) refs'" "\<not> head_locked fl'" "unat (fl_offset fl') = rs_pos q + unat ?m"
    "\<forall>k \<ge> rs_pos q + unat ?m. sf_covers (frames fl') k \<longleftrightarrow> sf_covers (frames (rs_fl q)) k" "fl_fin fl' = fl_fin (rs_fl q)"
    by (rule release_drop [OF ok rec conjunct1 [OF True] min.cobounded2])
  let ?q = "q\<lparr>rs_fl := fl', rs_rbuf := rb'\<rparr>"
  have "\<exists>h' b. ossl_quic_rstream_release_record now h refs q read_len = Inr (?q, refs', h', b) \<and> (rs_rxfc q = None \<longrightarrow> b)"
  proof (cases "rs_rxfc q")
    case None
    then show ?thesis
      using True d(1,2) off by (auto simp: ossl_quic_rstream_release_record_def ossl_sframe_list_is_head_locked_def Let_def)
  next
    case (Some p)
    then show ?thesis
      using True d(1,2) off on_retire_no_fault [of now h p "rstart (head_range q) + ?m" "get_rtt ?q"]
      by (auto simp: ossl_quic_rstream_release_record_def ossl_sframe_list_is_head_locked_def Let_def)
  qed
  then obtain h' b where "ossl_quic_rstream_release_record now h refs q read_len = Inr (?q, refs', h', b)" "rs_rxfc q = None \<longrightarrow> b"
    by (elim exE conjE)
  then show ?thesis
    by (intro that [of ?q refs' h' b]) (use d True in \<open>auto simp: record_ok_def\<close>)
qed

section \<open>Reachable receive streams\<close>

text \<open>
  A receive stream of the peer's stream \<open>S\<close>: frames arrive in any order, overlapping and repeated, with
  memory or without, while the application reads, takes records, moves data to the ring buffer and
  resizes it; \<open>R\<close> are the offsets received.
\<close>

inductive rstream_reach :: "(nat \<Rightarrow> u8) \<Rightarrow> pkt_refs \<Rightarrow> quic_rstream \<Rightarrow> pkt_refs \<Rightarrow> nat set \<Rightarrow> bool" for S base where
  new: "ossl_quic_rstream_new mem blk rxfc statm n = Inr (Some q) \<Longrightarrow> unat n < 2 ^ 63 \<Longrightarrow>
    (\<And>b. blk = Some b \<Longrightarrow> length b = unat n) \<Longrightarrow> rstream_reach S base q base {}"
| queue: "rstream_reach S base q refs R \<Longrightarrow> stream_data S off data len \<Longrightarrow>
    ossl_quic_rstream_queue_data mem refs q pkt off data len fin = (q', refs', b) \<Longrightarrow>
    rstream_reach S base q' refs' (if b then R \<union> {unat off..<unat off + unat len} else R)"
| read: "rstream_reach S base q refs R \<Longrightarrow> ossl_quic_rstream_read now h refs q sz = Inr (q', refs', h', r, b) \<Longrightarrow>
    rstream_reach S base q' refs' R"
| get_record: "rstream_reach S base q refs R \<Longrightarrow> ossl_quic_rstream_get_record refs q = Inr (q', refs', r) \<Longrightarrow>
    rstream_reach S base q' refs' R"
| release_record: "rstream_reach S base q refs R \<Longrightarrow>
    ossl_quic_rstream_release_record now h refs q read_len = Inr (q', refs', h', b) \<Longrightarrow> rstream_reach S base q' refs' R"
| move: "rstream_reach S base q refs R \<Longrightarrow> ossl_quic_rstream_move_to_rbuf refs q = Inr (q', refs', b) \<Longrightarrow>
    rstream_reach S base q' refs' R"
| resize: "rstream_reach S base q refs R \<Longrightarrow> unat n < 2 ^ 63 \<Longrightarrow> (\<And>b. blk = Some b \<Longrightarrow> length b = unat n) \<Longrightarrow>
    ossl_quic_rstream_resize_rbuf blk q n = Inr (q', b) \<Longrightarrow> rstream_reach S base q' refs R"
| cleanse: "rstream_reach S base q refs R \<Longrightarrow> rstream_reach S base (ossl_quic_rstream_set_cleanse q c) refs R"

lemma read_spec:
  assumes ok: "rstream_ok S base q refs"
  obtains q' refs' h' b where "ossl_quic_rstream_read now h refs q sz =
      Inr (q', refs', h', Some (map S [rs_pos q..<rs_pos q + rs_read_len q sz], fl_fin (rs_fl q) \<and> frames (rs_fl q') = []), b)"
    "rstream_ok S base q' refs'" "rs_pos q' = rs_pos q + rs_read_len q sz"
    "frames (rs_fl q') = dropWhile (\<lambda>sf. unat (sf_end sf) \<le> rs_pos q + rs_read_len q sz) (frames (rs_fl q))"
    "q' = q \<or> \<not> head_locked (rs_fl q')" "rs_rxfc q = None \<longrightarrow> b" "fl_fin (rs_fl q') = fl_fin (rs_fl q)"
proof -
  obtain q' refs' where r: "read_internal refs q sz True =
      Inr (q', refs', Some (map S [rs_pos q..<rs_pos q + rs_read_len q sz], fl_fin (rs_fl q) \<and> frames (rs_fl q') = []))"
    "rstream_ok S base q' refs'" "rs_pos q' = rs_pos q + rs_read_len q sz"
    "frames (rs_fl q') = dropWhile (\<lambda>sf. unat (sf_end sf) \<le> rs_pos q + rs_read_len q sz) (frames (rs_fl q))"
    "rs_rxfc q' = rs_rxfc q" "fl_fin (rs_fl q') = fl_fin (rs_fl q)" "q' = q \<or> \<not> head_locked (rs_fl q')"
    by (rule read_internal_drop [OF ok])
  show ?thesis
  proof (cases "rs_rxfc q")
    case None
    with r show ?thesis
      by (intro that [of q' refs' h True]) (simp_all add: ossl_quic_rstream_read_def Let_def)
  next
    case (Some p)
    obtain h' b where "ossl_quic_rxfc_on_retire now h p
        (u64_len (map S [rs_pos q..<rs_pos q + rs_read_len q sz])) (get_rtt q) = Inr (h', b)"
      using on_retire_no_fault by blast
    with r Some show ?thesis
      by (intro that [of q' refs' h' b]) (simp_all add: ossl_quic_rstream_read_def Let_def)
  qed
qed

lemma drop_frames_covers_nat:
  assumes "sframes_ok off fs" and "n \<le> k"
  shows "sf_covers (dropWhile (\<lambda>sf. unat (sf_end sf) \<le> n) fs) k \<longleftrightarrow> sf_covers fs k"
proof -
  have "\<not> sf_covers (takeWhile (\<lambda>sf. unat (sf_end sf) \<le> n) fs) k"
    using assms(2) by (auto simp: sf_covers_def dest: set_takeWhileD)
  then show ?thesis
    using sf_covers_simps(3) [of "takeWhile (\<lambda>sf. unat (sf_end sf) \<le> n) fs" "dropWhile (\<lambda>sf. unat (sf_end sf) \<le> n) fs" k]
    by simp
qed

lemma rstream_reach_ok:
  "rstream_reach S base q refs R \<Longrightarrow> rstream_ok S base q refs \<and> record_ok q
    \<and> (\<forall>k \<ge> rs_pos q. sf_covers (frames (rs_fl q)) k \<longleftrightarrow> k \<in> R)"
proof (induction rule: rstream_reach.induct)
  case (new mem blk rxfc statm n q)
  obtain rb where rb: "ring_buf_resize blk ring_buf_init n False = Inr (rb, True)"
    "q = \<lparr>rs_fl = ossl_sframe_list_init, rs_rxfc = rxfc, rs_statm = statm, head_range = \<lparr>rstart = 0, rend = 0\<rparr>, rs_rbuf = rb\<rparr>"
    using new(1) by (auto simp: ossl_quic_rstream_new_def res_bind_def split: if_splits sum.splits)
  have "ring_ok rb \<and> ctail_offset rb = 0"
    by (rule ring_buf_resize_spec [OF ring_ok_init new(2,3), of blk False]) (use rb(1) in \<open>auto simp: ring_buf_init_def\<close>)
  then show ?case
    unfolding rb(2)
    by (simp add: rstream_ok_def frames_inv_def record_ok_def ossl_sframe_list_init_def refs_ok_def)
next
  case (queue q refs R off data len mem pkt fin q' refs' b)
  note spec = queue_data_spec [OF conjunct1 [OF queue.IH] queue.hyps(2,3)]
  then have "\<forall>k \<ge> rs_pos q. sf_covers (frames (rs_fl q)) k \<longrightarrow> sf_covers (frames (rs_fl q')) k"
    by (cases b) simp_all
  then have "record_ok q'"
    using record_ok_mono [of q q'] queue.IH spec by blast
  with spec queue.IH show ?case
    by (cases b) auto
next
  case (read q refs R now h sz q' refs' h' r b)
  have "sframes_ok (fl_offset (rs_fl q)) (frames (rs_fl q))"
    using read.IH by (simp add: rstream_ok_def frames_inv_def)
  note covers = drop_frames_covers_nat [OF this]
  show ?case
    by (rule read_spec [OF conjunct1 [OF read.IH], of now h sz])
      (use read.hyps(2) read.IH covers in \<open>auto simp: record_ok_def\<close>)
next
  case (get_record q refs R q' refs' r)
  then show ?case
    by (elim conjE) (erule (1) get_record_spec, auto)
next
  case (release_record q refs R now h read_len q' refs' h' b)
  show ?case
    by (rule release_record_spec [OF conjunct1 [OF release_record.IH], of now h read_len])
      (use release_record.hyps(2) release_record.IH in auto)
next
  case (move q refs R q' refs' b)
  have spec: "rstream_ok S base q' refs' \<and> fl_offset (rs_fl q') = fl_offset (rs_fl q) \<and> head_range q' = head_range q
      \<and> head_locked (rs_fl q') = head_locked (rs_fl q) \<and> (\<forall>k. sf_covers (frames (rs_fl q')) k \<longleftrightarrow> sf_covers (frames (rs_fl q)) k)"
    by (rule move_to_rbuf_spec [OF conjunct1 [OF move.IH]]) (use move.hyps(2) in auto)
  then have "record_ok q'"
    using record_ok_mono [of q q'] move.IH by blast
  with spec move.IH show ?case
    by simp
next
  case (resize q refs R n blk q' b)
  have "rstream_ok S base q' refs \<and> rs_fl q' = rs_fl q \<and> head_range q' = head_range q"
    by (rule resize_rbuf_spec [OF conjunct1 [OF resize.IH] resize.hyps(2,3)]) (use resize.hyps(4) in auto)
  with resize.IH show ?case
    by (auto simp: record_ok_def)
next
  case (cleanse q refs R c)
  then show ?case
    by (auto simp: ossl_quic_rstream_set_cleanse_def rstream_ok_def record_ok_def)
qed

lemma read_delivers:
  assumes "rstream_reach S base q refs R"
  shows "\<exists>q' refs' h' bs fin ok.
    ossl_quic_rstream_read now h refs q sz = Inr (q', refs', h', Some (bs, fin), ok)
    \<and> bs = map S [rs_pos q..<rs_pos q + length bs] \<and> rs_pos q' = rs_pos q + length bs \<and> length bs \<le> unat sz
    \<and> {rs_pos q..<rs_pos q + length bs} \<subseteq> R \<and> (length bs < unat sz \<longrightarrow> rs_pos q + length bs \<notin> R)
    \<and> (fin \<longleftrightarrow> fl_fin (rs_fl q) \<and> frames (rs_fl q') = [])
    \<and> ossl_quic_rstream_free refs' (Some q') = base"
proof -
  let ?n = "rs_read_len q sz"
  have ok: "rstream_ok S base q refs" and R: "\<forall>k \<ge> rs_pos q. sf_covers (frames (rs_fl q)) k \<longleftrightarrow> k \<in> R"
    using rstream_reach_ok [OF assms] by auto
  have fs: "sframes_ok (fl_offset (rs_fl q)) (frames (rs_fl q))"
    using ok by (simp add: rstream_ok_def frames_inv_def)
  obtain q' refs' h' b where r: "ossl_quic_rstream_read now h refs q sz =
      Inr (q', refs', h', Some (map S [rs_pos q..<rs_pos q + ?n], fl_fin (rs_fl q) \<and> frames (rs_fl q') = []), b)"
    "rstream_ok S base q' refs'" "rs_pos q' = rs_pos q + ?n"
    using read_spec [OF ok] by metis
  have "rs_pos q + ?n \<le> contig_end (rs_pos q) (frames (rs_fl q))"
    using contig_end_ge [OF fs] by (simp add: rs_read_len_def)
  then have "{rs_pos q..<rs_pos q + ?n} \<subseteq> R"
    using contig_end_covered [OF fs] R by force
  moreover have "rs_pos q + ?n \<notin> R" if "?n < unat sz"
  proof -
    have "rs_pos q + ?n = contig_end (rs_pos q) (frames (rs_fl q))"
      using that contig_end_ge [OF fs] by (simp add: rs_read_len_def)
    then show ?thesis
      using contig_end_gap [OF fs] contig_end_ge [OF fs] R by metis
  qed
  moreover have "refs_ok base (foldl stream_frame_free refs' (frames (rs_fl q'))) []"
    using r(2) by (intro free_all_refs) (simp add: rstream_ok_def frames_inv_def)
  then have "ossl_quic_rstream_free refs' (Some q') = base"
    by (auto simp: refs_ok_def ossl_quic_rstream_free_def ossl_sframe_list_destroy_def)
  moreover have "?n \<le> unat sz"
    by (simp add: rs_read_len_def)
  ultimately show ?thesis
    using r by (intro exI [of _ q'] exI [of _ refs'] exI [of _ h']
        exI [of _ "map S [rs_pos q..<rs_pos q + ?n]"] exI conjI) simp_all
qed

lemma reach_queue:
  assumes "rstream_reach S base q refs R" and "stream_data S off data len"
    and "ossl_quic_rstream_queue_data mem refs q pkt off data len fin = (q', refs', True)"
    and "R' = R \<union> {unat off..<unat off + unat len}"
  shows "rstream_reach S base q' refs' R'"
  using rstream_reach.queue [OF assms(1-3)] assms(4) by simp

text \<open>A stream that received the offset 6 and then the offsets 0 to 2.\<close>

definition rs_example :: quic_rstream where
  "rs_example =
     \<lparr>rs_fl = ossl_sframe_list_init\<lparr>
        frames := [\<lparr>sf_range = \<lparr>rstart = 0, rend = 3\<rparr>, sf_pkt = Some 6, sf_data = Some [0, 1, 2]\<rparr>,
                   \<lparr>sf_range = \<lparr>rstart = 6, rend = 7\<rparr>, sf_pkt = Some 5, sf_data = Some [6]\<rparr>],
        num_frames := 2\<rparr>,
      rs_rxfc = None, rs_statm = None, head_range = \<lparr>rstart = 0, rend = 0\<rparr>,
      rs_rbuf = \<lparr>rb_start = [0, 0, 0, 0], rb_alloc = 4, head_offset = 0, ctail_offset = 0\<rparr>\<rparr>"

lemma rstream_example: "rstream_reach of_nat (\<lambda>_. 0) rs_example ((\<lambda>_. 0)(5 := 1, 6 := 1)) {0, 1, 2, 6}"
proof -
  let ?q0 = "rs_example\<lparr>rs_fl := ossl_sframe_list_init\<rparr>"
  let ?q1 = "?q0\<lparr>rs_fl := (rs_fl ?q0)\<lparr>frames := tl (frames (rs_fl rs_example)), num_frames := 1\<rparr>\<rparr>"
  note defs = rs_example_def ossl_quic_rstream_queue_data_def ossl_sframe_list_insert_def ossl_sframe_list_init_def
    stream_frame_new_def ossl_qrx_pkt_up_ref_def
  have "ossl_quic_rstream_new True (Some [0, 0, 0, 0]) None None 4 = Inr (Some ?q0)"
    by (simp add: ossl_quic_rstream_new_def rs_example_def ring_buf_resize_def ring_buf_init_def ring_buf_used_def
        ring_buf_copy_loop.simps ring_buf_get_buf_at_def Let_def)
  then have q0: "rstream_reach of_nat (\<lambda>_. 0) ?q0 (\<lambda>_. 0) {}"
    by (rule rstream_reach.new) auto
  have q1: "rstream_reach of_nat (\<lambda>_. 0) ?q1 ((\<lambda>_. 0)(5 := 1)) {6}"
    by (rule reach_queue [OF q0, of 6 "Some [6]" 1 True "Some 5" False])
      (auto simp: stream_data_def defs Let_def)
  show ?thesis
    by (rule reach_queue [OF q1, of 0 "Some [0, 1, 2]" 3 True "Some 6" False])
      (auto simp: stream_data_def defs Let_def upt_rec)
qed

lemma peek_is_read:
  assumes "rstream_reach S base q refs R"
  shows "\<exists>q' refs' h' bs ok. ossl_quic_rstream_read now h refs q sz =
      Inr (q', refs', h', Some (bs, fl_fin (rs_fl q) \<and> frames (rs_fl q') = []), ok)
    \<and> ossl_quic_rstream_peek refs q sz = Inr (q, refs, Some (bs, fl_fin (rs_fl q) \<and> frames (rs_fl q') = []))"
proof -
  have ok: "rstream_ok S base q refs"
    using rstream_reach_ok [OF assms] by auto
  obtain q' refs' h' b where r: "ossl_quic_rstream_read now h refs q sz =
      Inr (q', refs', h', Some (map S [rs_pos q..<rs_pos q + rs_read_len q sz], fl_fin (rs_fl q) \<and> frames (rs_fl q') = []), b)"
    "frames (rs_fl q') = dropWhile (\<lambda>sf. unat (sf_end sf) \<le> rs_pos q + rs_read_len q sz) (frames (rs_fl q))"
    by (rule read_spec [OF ok])
  then show ?thesis
    using read_internal_peek [OF ok, of sz] by (auto simp: ossl_quic_rstream_peek_def)
qed

text \<open>
  Property C6. A read delivers the bytes of the peer's stream in order, whatever order the frames arrived in
  and however they overlapped, whether they still lie in packets or in the ring buffer: it completes
  without a fault, returns the stream's bytes from the read position on, as many as were received
  without a gap and fit the buffer, and moves the position past them. FIN is reported exactly when a
  frame with FIN was received and nothing is left to read. Freeing the stream gives all packet
  references back. A peek returns exactly the bytes and the FIN that this read returns, and changes
  neither the stream nor the packet references.
\<close>

theorem rstream_reads_the_stream:
  assumes "rstream_reach S base q refs R"
  shows "\<exists>q' refs' h' bs fin ok.
    ossl_quic_rstream_read now h refs q sz = Inr (q', refs', h', Some (bs, fin), ok)
    \<and> bs = map S [rs_pos q..<rs_pos q + length bs] \<and> rs_pos q' = rs_pos q + length bs \<and> length bs \<le> unat sz
    \<and> {rs_pos q..<rs_pos q + length bs} \<subseteq> R \<and> (length bs < unat sz \<longrightarrow> rs_pos q + length bs \<notin> R)
    \<and> (fin \<longleftrightarrow> fl_fin (rs_fl q) \<and> frames (rs_fl q') = [])
    \<and> ossl_quic_rstream_peek refs q sz = Inr (q, refs, Some (bs, fin))
    \<and> ossl_quic_rstream_free refs' (Some q') = base"
  using read_delivers [OF assms, of now h sz] peek_is_read [OF assms, of now h sz] by auto

theorem rstream_reads_the_stream_witness:
  "\<exists>q' refs' h' fin ok. ossl_quic_rstream_read ossl_time_zero (\<lambda>_. undefined) ((\<lambda>_. 0)(5 := 1, 6 := 1)) rs_example 10
     = Inr (q', refs', h', Some ([0, 1, 2], fin), ok)
   \<and> ossl_quic_rstream_peek ((\<lambda>_. 0)(5 := 1, 6 := 1)) rs_example 10 = Inr (rs_example, (\<lambda>_. 0)(5 := 1, 6 := 1), Some ([0, 1, 2], fin))"
proof -
  have pos: "rs_pos rs_example = 0"
    by (simp add: rs_example_def ossl_sframe_list_init_def)
  from rstream_reads_the_stream [OF rstream_example, of ossl_time_zero "\<lambda>_. undefined" 10] obtain q' refs' h' bs fin ok where
    r: "ossl_quic_rstream_read ossl_time_zero (\<lambda>_. undefined) ((\<lambda>_. 0)(5 := 1, 6 := 1)) rs_example 10
      = Inr (q', refs', h', Some (bs, fin), ok)"
    "bs = map of_nat [0..<length bs]"
    "ossl_quic_rstream_peek ((\<lambda>_. 0)(5 := 1, 6 := 1)) rs_example 10 = Inr (rs_example, (\<lambda>_. 0)(5 := 1, 6 := 1), Some (bs, fin))"
    "{0..<length bs} \<subseteq> {0, 1, 2, 6}" "length bs < 10 \<longrightarrow> length bs \<notin> {0, 1, 2, 6}"
    unfolding pos by auto
  have "\<not> 3 < length bs"
    using subsetD [OF r(4), of 3] by auto
  moreover from this have "length bs \<noteq> 0" "length bs \<noteq> 1" "length bs \<noteq> 2"
    using r(5) by auto
  ultimately have "length bs = 3"
    by linarith
  with r(1-3) show ?thesis
    by (simp add: upt_rec)
qed

text \<open>
  A record handed out to the application is a non-empty piece of the peer's stream at the read
  position, and none is handed out only when nothing is available there or one is already out.
  Releasing any part of it moves the position by exactly that many bytes.
\<close>

theorem rstream_records_are_the_stream:
  assumes "rstream_reach S base q refs R"
  shows "\<exists>q' r len fin. ossl_quic_rstream_get_record refs q = Inr (q', refs, Some (r, len, fin))
    \<and> (case r of
         None \<Rightarrow> len = 0 \<and> (ossl_sframe_list_is_head_locked (rs_fl q) \<or> rs_pos q \<notin> R)
       | Some d \<Rightarrow> len \<noteq> 0 \<and> unat len \<le> length d \<and> take (unat len) d = map S [rs_pos q..<rs_pos q + unat len]
           \<and> (rs_rxfc q = None \<longrightarrow> (\<forall>m \<le> len. \<exists>q'' refs'' h'.
                ossl_quic_rstream_release_record now h refs q' m = Inr (q'', refs'', h', True)
                \<and> rs_pos q'' = rs_pos q + unat m)))"
proof -
  have ok: "rstream_ok S base q refs" "record_ok q" and R: "\<forall>k \<ge> rs_pos q. sf_covers (frames (rs_fl q)) k \<longleftrightarrow> k \<in> R"
    using rstream_reach_ok [OF assms] by auto
  obtain q' r len fin where g: "ossl_quic_rstream_get_record refs q = Inr (q', refs, Some (r, len, fin))"
    "rstream_ok S base q' refs" "record_ok q'" "rs_pos q' = rs_pos q" "frames (rs_fl q') = frames (rs_fl q)"
    "rs_rxfc q' = rs_rxfc q"
    "case r of None \<Rightarrow> len = 0 \<and> (head_locked (rs_fl q) \<or> \<not> sf_covers (frames (rs_fl q)) (rs_pos q))
       | Some d \<Rightarrow> len \<noteq> 0 \<and> head_locked (rs_fl q') \<and> rend (head_range q') - rstart (head_range q') = len \<and> unat len \<le> length d \<and> take (unat len) d = map S [rs_pos q..<rs_pos q + unat len]"
    by (rule get_record_spec [OF ok])
  have "\<exists>q'' refs'' h'. ossl_quic_rstream_release_record now h refs q' m = Inr (q'', refs'', h', True) \<and> rs_pos q'' = rs_pos q + unat m"
    if "r = Some d" "m \<le> len" "rs_rxfc q = None" for d m
    by (rule release_record_spec [OF g(2,3), of now h m]) (use g(4,6,7) that in \<open>auto simp: min_def\<close>)
  with g(1,7) R show ?thesis
    by (intro exI conjI) (assumption, auto simp: ossl_sframe_list_is_head_locked_def split: option.splits)
qed

theorem rstream_records_are_the_stream_witness:
  "\<exists>q' d len fin. ossl_quic_rstream_get_record ((\<lambda>_. 0)(5 := 1, 6 := 1)) rs_example = Inr (q', (\<lambda>_. 0)(5 := 1, 6 := 1), Some (Some d, len, fin))
     \<and> len \<noteq> 0 \<and> take (unat len) d = map of_nat [0..<unat len]"
proof -
  have "rs_pos rs_example = 0" "\<not> ossl_sframe_list_is_head_locked (rs_fl rs_example)"
    by (simp_all add: rs_example_def ossl_sframe_list_init_def ossl_sframe_list_is_head_locked_def)
  with rstream_records_are_the_stream [OF rstream_example, of ossl_time_zero "\<lambda>_. undefined"] show ?thesis
    by (fastforce split: option.splits)
qed

text \<open>
  Releasing a record tells the flow controller the absolute stream offset instead of the number of
  bytes released. After four received bytes are taken as two records of two bytes, both are gone from
  the stream, but the second release fails and the controller counts two bytes as retired.
\<close>

definition rs_flow_example :: "rxfc_store \<times> quic_rstream" where
  "rs_flow_example =
     (fst (ossl_quic_rxfc_on_rx_stream_frame (fst (ossl_quic_rxfc_init_standalone (\<lambda>_. undefined) 0 100)) 0 4 False),
      fst (ossl_quic_rstream_queue_data True (\<lambda>_. 0) (rs_example\<lparr>rs_fl := ossl_sframe_list_init, rs_rxfc := Some 0\<rparr>)
        (Some 5) 0 (Some [1, 2, 3, 4]) 4 False))"

theorem rstream_release_retires_offset:
  "\<exists>q1 q2 q3 q4 refs2 refs4 h2 h4 r1 r3.
     ossl_quic_rstream_get_record ((\<lambda>_. 0)(5 := 1)) (snd rs_flow_example) = Inr (q1, (\<lambda>_. 0)(5 := 1), r1)
     \<and> ossl_quic_rstream_release_record (Ticks 7) (fst rs_flow_example) ((\<lambda>_. 0)(5 := 1)) q1 2 = Inr (q2, refs2, h2, True)
     \<and> ossl_quic_rstream_get_record refs2 q2 = Inr (q3, refs2, r3)
     \<and> ossl_quic_rstream_release_record (Ticks 7) h2 refs2 q3 2 = Inr (q4, refs4, h4, False)
     \<and> frames (rs_fl q4) = [] \<and> ossl_quic_rxfc_get_swm h4 0 = 4 \<and> ossl_quic_rxfc_get_rwm h4 0 = 2"
  by (simp add: rs_flow_example_def rs_example_def ossl_quic_rstream_queue_data_def ossl_sframe_list_insert_def
      ossl_sframe_list_init_def stream_frame_new_def ossl_quic_rstream_get_record_def ossl_sframe_list_lock_head_def
      ossl_sframe_list_peek_def ossl_quic_rstream_release_record_def ossl_sframe_list_is_head_locked_def
      ossl_sframe_list_drop_frames_def ring_buf_cpop_range_def MAX_OFFSET_def SIZE_MAX_def get_rtt_def
      ossl_quic_rxfc_on_rx_stream_frame_def ossl_quic_rxfc_init_standalone_def ossl_quic_rxfc_init_def
      on_rx_controlled_bytes_def ossl_quic_rxfc_on_retire_def rxfc_on_retire_def rxfc_update_cwm_def
      rxfc_cwm_bump_desired_def safe_muldiv_def safe_mul_def rxfc_start_epoch_def ossl_time_simps ossl_time_zero_def
      WINDOW_THRESHOLD_NUM_def WINDOW_THRESHOLD_DEN_def ossl_quic_rxfc_get_swm_def ossl_quic_rxfc_get_rwm_def Let_def)

section \<open>The available data\<close>

lemma available_loop_spec:
  assumes "iter_pos fl iter = (start, sfs)" and "sframes_ok start sfs"
  shows "rstream_available_loop fl iter avail =
    (avail + of_nat (contig_end (unat start) sfs - unat start),
     fl_fin fl \<and> (sfs = [] \<or> unat (sf_end (last sfs)) \<le> contig_end (unat start) sfs))"
  using assms
proof (induction sfs arbitrary: iter start avail)
  case Nil
  then show ?case
    by (subst rstream_available_loop.simps) (simp add: peek_at [OF Nil.prems])
next
  case (Cons sf nexts)
  note peek = peek_at [OF Cons.prems] and last = sframes_last_end [OF Cons.prems(2)]
  have fs: "unat start < unat (sf_end sf)" "sframes_ok (sf_end sf) nexts"
    using Cons.prems(2) sframes_ok_advance by (auto simp: word_less_nat_alt)
  show ?case
  proof (cases "start < sf_start sf")
    case True
    then show ?thesis
      using fs(1) last by (subst rstream_available_loop.simps) (simp add: peek word_less_nat_alt)
  next
    case False
    have "contig_end (unat start) (sf # nexts) = contig_end (unat (sf_end sf)) nexts"
      using False by (simp add: word_less_nat_alt)
    moreover have "sf_end sf - start + of_nat (contig_end (unat (sf_end sf)) nexts - unat (sf_end sf))
        = of_nat (contig_end (unat (sf_end sf)) nexts - unat start)"
      using contig_end_ge [OF fs(2)] fs(1) by (simp add: of_nat_diff)
    moreover have "contig_end (unat (sf_end sf)) nexts = unat (sf_end sf)" if "nexts = []"
      using that by simp
    ultimately show ?thesis
      using Cons.IH [OF iter_pos_simps(2) fs(2)] False
      by (subst rstream_available_loop.simps) (auto simp: peek add.assoc)
  qed
qed

text \<open>
  The number of available bytes is exact: that many bytes from the read position on were received
  and the next one was not, and FIN is announced exactly when reading them would deliver it.
\<close>

theorem rstream_available_exact:
  assumes "rstream_reach S base q refs R"
  shows "\<exists>n fin. ossl_quic_rstream_available q = (of_nat n, fin) \<and> rs_pos q + n \<le> 2 ^ 62
    \<and> {rs_pos q..<rs_pos q + n} \<subseteq> R \<and> rs_pos q + n \<notin> R
    \<and> (fin \<longleftrightarrow> fl_fin (rs_fl q) \<and> (\<forall>sf \<in> set (frames (rs_fl q)). unat (sf_end sf) \<le> rs_pos q + n))"
proof -
  let ?fs = "frames (rs_fl q)"
  have ok: "rstream_ok S base q refs" and R: "\<forall>k \<ge> rs_pos q. sf_covers ?fs k \<longleftrightarrow> k \<in> R"
    using rstream_reach_ok [OF assms] by auto
  have fs: "sframes_ok (fl_offset (rs_fl q)) ?fs" "rs_pos q \<le> 2 ^ 62" "\<forall>sf \<in> set ?fs. unat (sf_end sf) \<le> 2 ^ 62"
    using ok by (auto simp: rstream_ok_def frames_inv_def ring_ok_def)
  let ?e = "contig_end (rs_pos q) ?fs"
  note ge = contig_end_ge [OF fs(1)]
  have "unat (sf_end sf) \<le> unat (sf_end (last ?fs))" if "sf \<in> set ?fs" for sf
    using sframes_last [OF fs(1) that] by (auto simp: sf_before_def word_less_nat_alt)
  then have all: "(?fs = [] \<or> unat (sf_end (last ?fs)) \<le> ?e) \<longleftrightarrow> (\<forall>sf \<in> set ?fs. unat (sf_end sf) \<le> ?e)"
    using last_in_set [of ?fs] by (cases "?fs = []") (auto intro: le_trans)
  have "?e \<le> 2 ^ 62"
    using contig_end_le_last [OF fs(1)] fs(2,3) last_in_set [of ?fs] by (cases "?fs = []") fastforce+
  moreover have "{rs_pos q..<?e} \<subseteq> R" "?e \<notin> R"
    using contig_end_covered [OF fs(1)] contig_end_gap [OF fs(1)] ge R by auto
  ultimately show ?thesis
    using available_loop_spec [OF iter_pos_simps(1) fs(1), of 0] ge all
    by (intro exI [of _ "?e - rs_pos q"] exI conjI) (simp_all add: ossl_quic_rstream_available_def)
qed

theorem rstream_available_exact_witness:
  "\<exists>n fin. ossl_quic_rstream_available rs_example = (of_nat n, fin) \<and> n \<notin> {0, 1, 2, 6}"
proof -
  have pos: "rs_pos rs_example = 0"
    by (simp add: rs_example_def ossl_sframe_list_init_def)
  show ?thesis
    using rstream_available_exact [OF rstream_example] unfolding pos add_0 by (elim exE conjE, intro exI conjI)
qed

end
