(* ===== verification/Quic_Vlint.thy ===== *)
theory Quic_Vlint
  imports Quic_Prelude
begin

text \<open>
  \<^verbatim>\<open>crypto/quic_vlint.c\<close> and \<^verbatim>\<open>include/internal/quic_vlint.h\<close>: the QUIC variable-length integer
  encoding. The encoder writes to a caller-supplied buffer; the model returns the bytes it writes.
  The decoder reads from a buffer of known length; \<^term>\<open>None\<close> is its return value 0.
\<close>

section \<open>Encoding and decoding\<close>

definition OSSL_QUIC_VLINT_2B_MIN :: u64 where "OSSL_QUIC_VLINT_2B_MIN = 64"
definition OSSL_QUIC_VLINT_4B_MIN :: u64 where "OSSL_QUIC_VLINT_4B_MIN = 16384"
definition OSSL_QUIC_VLINT_8B_MIN :: u64 where "OSSL_QUIC_VLINT_8B_MIN = 1073741824"

definition OSSL_QUIC_VLINT_MAX :: u64 where
  "OSSL_QUIC_VLINT_MAX = push_bit 62 1 - 1"

definition ossl_quic_vlint_encode_len :: "u64 \<Rightarrow> nat" where
  "ossl_quic_vlint_encode_len v =
     (if v < OSSL_QUIC_VLINT_2B_MIN then 1
      else if v < OSSL_QUIC_VLINT_4B_MIN then 2
      else if v < OSSL_QUIC_VLINT_8B_MIN then 4
      else if v \<le> OSSL_QUIC_VLINT_MAX then 8
      else 0)"

definition byte_of :: "u64 \<Rightarrow> u8" where
  "byte_of v = ucast v"

definition ossl_quic_vlint_encode_n :: "u64 \<Rightarrow> nat \<Rightarrow> bytes" where
  "ossl_quic_vlint_encode_n v n =
     (if n = 1 then [byte_of v]
      else if n = 2 then
        [byte_of (0x40 OR (drop_bit 8 v AND 0x3F)), byte_of v]
      else if n = 4 then
        [byte_of (0x80 OR (drop_bit 24 v AND 0x3F)), byte_of (drop_bit 16 v),
         byte_of (drop_bit 8 v), byte_of v]
      else
        [byte_of (0xC0 OR (drop_bit 56 v AND 0x3F)), byte_of (drop_bit 48 v),
         byte_of (drop_bit 40 v), byte_of (drop_bit 32 v), byte_of (drop_bit 24 v),
         byte_of (drop_bit 16 v), byte_of (drop_bit 8 v), byte_of v])"

definition ossl_quic_vlint_encode :: "u64 \<Rightarrow> bytes" where
  "ossl_quic_vlint_encode v = ossl_quic_vlint_encode_n v (ossl_quic_vlint_encode_len v)"

definition ossl_quic_vlint_decode_len :: "u8 \<Rightarrow> nat" where
  "ossl_quic_vlint_decode_len first_byte =
     unat (push_bit (unat (drop_bit 6 (first_byte AND 0xC0))) (1 :: u32))"

definition wide :: "u8 \<Rightarrow> u64" where
  "wide b = ucast b"

definition ossl_quic_vlint_decode_unchecked :: "bytes \<Rightarrow> u64" where
  "ossl_quic_vlint_decode_unchecked buf =
     (let first_byte = buf ! 0; sz = ossl_quic_vlint_decode_len first_byte in
      if sz = 1 then wide (first_byte AND 0x3F)
      else if sz = 2 then push_bit 8 (wide (first_byte AND 0x3F)) OR wide (buf ! 1)
      else if sz = 4 then
        push_bit 24 (wide (first_byte AND 0x3F)) OR push_bit 16 (wide (buf ! 1))
          OR push_bit 8 (wide (buf ! 2)) OR wide (buf ! 3)
      else
        push_bit 56 (wide (first_byte AND 0x3F)) OR push_bit 48 (wide (buf ! 1))
          OR push_bit 40 (wide (buf ! 2)) OR push_bit 32 (wide (buf ! 3))
          OR push_bit 24 (wide (buf ! 4)) OR push_bit 16 (wide (buf ! 5))
          OR push_bit 8 (wide (buf ! 6)) OR wide (buf ! 7))"

definition ossl_quic_vlint_decode :: "bytes \<Rightarrow> (u64 \<times> nat) option" where
  "ossl_quic_vlint_decode buf =
     (if length buf < 1 then None
      else
        let dec_len = ossl_quic_vlint_decode_len (buf ! 0) in
        if length buf < dec_len then None
        else Some (ossl_quic_vlint_decode_unchecked buf, dec_len))"

section \<open>The length prefix\<close>

lemma bit_mask_numerals:
  "bit (0x3F :: int) n \<longleftrightarrow> n < 6"
  "bit (0xC0 :: int) n \<longleftrightarrow> n = 6 \<or> n = 7"
  "bit (0x80 :: int) n \<longleftrightarrow> n = 7"
  "bit (0x40 :: int) n \<longleftrightarrow> n = 6"
  "bit (3 :: int) n \<longleftrightarrow> n = 0 \<or> n = 1"
  "bit (2 :: int) n \<longleftrightarrow> n = 1"
proof -
  have eqs: "(0x3F :: int) = mask 6" "(0xC0 :: int) = push_bit 6 (mask 2)"
    "(0x80 :: int) = push_bit 7 1" "(0x40 :: int) = push_bit 6 1"
    "(3 :: int) = mask 2" "(2 :: int) = push_bit 1 1"
    by (simp_all add: mask_eq_exp_minus_1 push_bit_eq_mult)
  show "bit (0x3F :: int) n \<longleftrightarrow> n < 6" "bit (0xC0 :: int) n \<longleftrightarrow> n = 6 \<or> n = 7"
    "bit (0x80 :: int) n \<longleftrightarrow> n = 7" "bit (0x40 :: int) n \<longleftrightarrow> n = 6"
    "bit (3 :: int) n \<longleftrightarrow> n = 0 \<or> n = 1" "bit (2 :: int) n \<longleftrightarrow> n = 1"
    by (auto simp only: eqs bit_simps bit_1_iff possible_bit_int)
qed

lemmas vlint_bits = bit_mask_numerals bit_simps bit_1_iff

lemma u8_two_bits: "drop_bit 6 (b AND 0xC0) = (drop_bit 6 b :: u8)"
  by (rule bit_word_eqI) (auto simp: vlint_bits dest: bit_imp_le_length)

lemma unat_drop_6: "unat (drop_bit 6 b) = unat b div 64" for b :: u8
  by (simp add: drop_bit_eq_div unat_div)

lemma unat_exp_below: "n < LENGTH('a) \<Longrightarrow> unat (2 ^ n :: 'a::len word) = 2 ^ n"
  by (metis unat_of_nat mod_less of_nat_numeral of_nat_power power_strict_increasing_iff
      one_less_numeral_iff semiring_norm(76))

lemma decode_len_alt: "ossl_quic_vlint_decode_len b = 2 ^ unat (drop_bit 6 b)"
proof -
  have "unat (drop_bit 6 b) < 32"
    unfolding unat_drop_6 using unsigned_less [where 'a = nat and w = b] by simp
  then show ?thesis
    unfolding ossl_quic_vlint_decode_len_def u8_two_bits by (simp add: push_bit_of_1 unat_exp_below)
qed

lemma decode_len_cases:
  obtains "drop_bit 6 b = (0 :: u8)" "ossl_quic_vlint_decode_len b = 1"
  | "drop_bit 6 b = (1 :: u8)" "ossl_quic_vlint_decode_len b = 2"
  | "drop_bit 6 b = (2 :: u8)" "ossl_quic_vlint_decode_len b = 4"
  | "drop_bit 6 b = (3 :: u8)" "ossl_quic_vlint_decode_len b = 8"
proof -
  have "unat (drop_bit 6 b) < 4"
    unfolding unat_drop_6 using unsigned_less [where 'a = nat and w = b] by simp
  then have "unat (drop_bit 6 b) \<in> {0, 1, 2, 3}"
    by auto
  then show ?thesis
    using that by (auto simp: decode_len_alt word_unat_eq_iff)
qed

lemma decode_len_prefix:
  "ossl_quic_vlint_decode_len (byte_of (0x40 OR (x AND 0x3F))) = 2"
  "ossl_quic_vlint_decode_len (byte_of (0x80 OR (x AND 0x3F))) = 4"
  "ossl_quic_vlint_decode_len (byte_of (0xC0 OR (x AND 0x3F))) = 8"
proof -
  have "drop_bit 6 (byte_of (0x40 OR (x AND 0x3F))) = 1"
    "drop_bit 6 (byte_of (0x80 OR (x AND 0x3F))) = 2"
    "drop_bit 6 (byte_of (0xC0 OR (x AND 0x3F))) = 3"
    by (rule bit_word_eqI; auto simp: byte_of_def vlint_bits)+
  then show "ossl_quic_vlint_decode_len (byte_of (0x40 OR (x AND 0x3F))) = 2"
    "ossl_quic_vlint_decode_len (byte_of (0x80 OR (x AND 0x3F))) = 4"
    "ossl_quic_vlint_decode_len (byte_of (0xC0 OR (x AND 0x3F))) = 8"
    by (simp_all add: decode_len_alt)
qed

section \<open>Round trips\<close>

lemma bit_below: "v < 2 ^ k \<Longrightarrow> k < 64 \<Longrightarrow> bit v m \<Longrightarrow> m < k" for v :: u64
proof (rule ccontr)
  assume v: "v < 2 ^ k" "k < 64" "bit v m" and "\<not> m < k"
  then have "unat v < 2 ^ k"
    by (simp add: word_less_nat_alt unat_exp_below)
  also have "\<dots> \<le> 2 ^ m"
    using \<open>\<not> m < k\<close> by simp
  finally have "\<not> bit (unat v) m"
    by (simp add: bit_iff_odd)
  with v(3) show False
    by (simp add: bit_unsigned_iff)
qed

lemma bit_byte_field:
  "bit (push_bit k (wide (byte_of (drop_bit k v)))) n \<longleftrightarrow> n < 64 \<and> k \<le> n \<and> n < k + 8 \<and> bit v n"
  by (auto simp: wide_def byte_of_def bit_simps)

lemma bit_low_byte: "bit (wide (byte_of v)) n \<longleftrightarrow> n < 8 \<and> bit v n"
  by (auto simp: wide_def byte_of_def bit_simps)

lemma bit_first_field:
  "bit (push_bit k (wide (byte_of (p OR (drop_bit k v AND 0x3F)) AND 0x3F))) n
    \<longleftrightarrow> n < 64 \<and> k \<le> n \<and> n < k + 6 \<and> (bit v n \<or> bit p (n - k))"
  by (auto simp: wide_def byte_of_def vlint_bits)

lemmas vlint_field_bits = bit_or_iff bit_byte_field bit_low_byte bit_first_field

lemma prefix_low_bits:
  "bit (0x40 :: u64) n \<Longrightarrow> 6 \<le> n" "bit (0x80 :: u64) n \<Longrightarrow> 6 \<le> n" "bit (0xC0 :: u64) n \<Longrightarrow> 6 \<le> n"
  by (auto simp: vlint_bits)

lemma decode_1: "v < 64 \<Longrightarrow> ossl_quic_vlint_decode (ossl_quic_vlint_encode_n v 1 @ r) = Some (v, 1)"
proof -
  assume "v < 64"
  then have v: "bit v n \<Longrightarrow> n < 6" for n
    using bit_below [of v 6 n] by simp
  have "drop_bit 6 (byte_of v) = 0"
    by (rule bit_word_eqI) (auto simp: byte_of_def bit_simps dest: v)
  moreover have "wide (byte_of v AND 0x3F) = v"
    by (rule bit_word_eqI) (auto simp: wide_def byte_of_def vlint_bits dest: v)
  ultimately show ?thesis
    by (simp add: ossl_quic_vlint_decode_def ossl_quic_vlint_encode_n_def decode_len_alt
        ossl_quic_vlint_decode_unchecked_def)
qed

lemma decode_2:
  "v < 2 ^ 14 \<Longrightarrow> ossl_quic_vlint_decode (ossl_quic_vlint_encode_n v 2 @ r) = Some (v, 2)"
proof -
  assume "v < 2 ^ 14"
  then have v: "bit v n \<Longrightarrow> n < 14" for n
    using bit_below [of v 14 n] by simp
  have "push_bit 8 (wide (byte_of (0x40 OR (drop_bit 8 v AND 0x3F)) AND 0x3F)) OR wide (byte_of v) = v"
    by (rule bit_word_eqI) (auto simp only: vlint_field_bits dest: v prefix_low_bits)
  then show ?thesis
    by (simp add: ossl_quic_vlint_decode_def ossl_quic_vlint_encode_n_def decode_len_prefix
        ossl_quic_vlint_decode_unchecked_def)
qed

lemma decode_4:
  "v < 2 ^ 30 \<Longrightarrow> ossl_quic_vlint_decode (ossl_quic_vlint_encode_n v 4 @ r) = Some (v, 4)"
proof -
  assume "v < 2 ^ 30"
  then have v: "bit v n \<Longrightarrow> n < 30" for n
    using bit_below [of v 30 n] by simp
  have "push_bit 24 (wide (byte_of (0x80 OR (drop_bit 24 v AND 0x3F)) AND 0x3F))
      OR push_bit 16 (wide (byte_of (drop_bit 16 v))) OR push_bit 8 (wide (byte_of (drop_bit 8 v)))
      OR wide (byte_of v) = v"
    by (rule bit_word_eqI) (auto simp only: vlint_field_bits dest: v prefix_low_bits)
  then show ?thesis
    by (simp add: ossl_quic_vlint_decode_def ossl_quic_vlint_encode_n_def decode_len_prefix
        ossl_quic_vlint_decode_unchecked_def)
qed

lemma decode_8:
  "v < 2 ^ 62 \<Longrightarrow> ossl_quic_vlint_decode (ossl_quic_vlint_encode_n v 8 @ r) = Some (v, 8)"
proof -
  assume "v < 2 ^ 62"
  then have v: "bit v n \<Longrightarrow> n < 62" for n
    using bit_below [of v 62 n] by simp
  have "push_bit 56 (wide (byte_of (0xC0 OR (drop_bit 56 v AND 0x3F)) AND 0x3F))
      OR push_bit 48 (wide (byte_of (drop_bit 48 v))) OR push_bit 40 (wide (byte_of (drop_bit 40 v)))
      OR push_bit 32 (wide (byte_of (drop_bit 32 v))) OR push_bit 24 (wide (byte_of (drop_bit 24 v)))
      OR push_bit 16 (wide (byte_of (drop_bit 16 v))) OR push_bit 8 (wide (byte_of (drop_bit 8 v)))
      OR wide (byte_of v) = v"
  proof (rule bit_word_eqI)
    fix n assume "n < LENGTH(64)"
    then show "bit (push_bit 56 (wide (byte_of (0xC0 OR (drop_bit 56 v AND 0x3F)) AND 0x3F))
      OR push_bit 48 (wide (byte_of (drop_bit 48 v))) OR push_bit 40 (wide (byte_of (drop_bit 40 v)))
      OR push_bit 32 (wide (byte_of (drop_bit 32 v))) OR push_bit 24 (wide (byte_of (drop_bit 24 v)))
      OR push_bit 16 (wide (byte_of (drop_bit 16 v))) OR push_bit 8 (wide (byte_of (drop_bit 8 v)))
      OR wide (byte_of v)) n \<longleftrightarrow> bit v n"
      unfolding vlint_field_bits
      using prefix_low_bits(3) [of "n - 56"] v [of n]
      by (cases "bit v n") (simp_all, linarith+)
  qed
  then show ?thesis
    by (simp add: ossl_quic_vlint_decode_def ossl_quic_vlint_encode_n_def decode_len_prefix
        ossl_quic_vlint_decode_unchecked_def)
qed

text \<open>The representable range of an \<open>n\<close>-byte encoding, as the header documents it.\<close>

definition vlint_fits :: "u64 \<Rightarrow> nat \<Rightarrow> bool" where
  "vlint_fits v n \<longleftrightarrow> n \<in> {1, 2, 4, 8} \<and> v < 2 ^ (8 * n - 2)"

lemma decode_encode_n:
  "vlint_fits v n \<Longrightarrow> ossl_quic_vlint_decode (ossl_quic_vlint_encode_n v n @ r) = Some (v, n)"
  using decode_1 [of v r] decode_2 [of v r] decode_4 [of v r] decode_8 [of v r]
  by (auto simp: vlint_fits_def)

lemma vlint_fits_encode_len:
  "v \<le> OSSL_QUIC_VLINT_MAX \<Longrightarrow> vlint_fits v (ossl_quic_vlint_encode_len v)"
  by (auto simp: vlint_fits_def ossl_quic_vlint_encode_len_def OSSL_QUIC_VLINT_2B_MIN_def
      OSSL_QUIC_VLINT_4B_MIN_def OSSL_QUIC_VLINT_8B_MIN_def OSSL_QUIC_VLINT_MAX_def
      word_le_nat_alt word_less_nat_alt)

lemma encode_len_least: "vlint_fits v n \<Longrightarrow> ossl_quic_vlint_encode_len v \<le> n"
  by (auto simp: vlint_fits_def ossl_quic_vlint_encode_len_def OSSL_QUIC_VLINT_2B_MIN_def
      OSSL_QUIC_VLINT_4B_MIN_def OSSL_QUIC_VLINT_8B_MIN_def OSSL_QUIC_VLINT_MAX_def
      word_le_nat_alt word_less_nat_alt)

section \<open>Properties\<close>

text \<open>
  The interface a variable-length integer codec offers to frame and packet code: what was encoded is
  read back, whatever follows it in the buffer, together with the number of bytes it took.
\<close>

locale varint_codec =
  fixes valid :: "'v \<Rightarrow> bool" and enc :: "'v \<Rightarrow> bytes" and dec :: "bytes \<Rightarrow> ('v \<times> nat) option"
  assumes dec_enc: "valid v \<Longrightarrow> dec (enc v @ rest) = Some (v, length (enc v))"
    and enc_nonempty: "valid v \<Longrightarrow> enc v \<noteq> []"
begin

lemma enc_prefix_free:
  assumes "valid v" and "valid w" and "enc v @ r = enc w @ s"
  shows "v = w \<and> r = s"
  using dec_enc [OF assms(1), of r] dec_enc [OF assms(2), of s] assms(3) by auto

fun dec_all :: "nat \<Rightarrow> bytes \<Rightarrow> 'v list option" where
  "dec_all 0 bs = (if bs = [] then Some [] else None)"
| "dec_all (Suc k) bs =
     (case dec bs of
        None \<Rightarrow> None
      | Some (v, n) \<Rightarrow> map_option (Cons v) (dec_all k (drop n bs)))"

lemma dec_all_enc: "\<forall>v \<in> set vs. valid v \<Longrightarrow> dec_all (length vs) (concat (map enc vs)) = Some vs"
  by (induction vs) (simp_all add: dec_enc)

end

lemma length_encode_n: "n \<in> {1, 2, 4, 8} \<Longrightarrow> length (ossl_quic_vlint_encode_n v n) = n"
  by (auto simp: ossl_quic_vlint_encode_n_def)

lemma length_encode: "v \<le> OSSL_QUIC_VLINT_MAX \<Longrightarrow> length (ossl_quic_vlint_encode v) = ossl_quic_vlint_encode_len v"
  using vlint_fits_encode_len [of v] length_encode_n [of "ossl_quic_vlint_encode_len v" v]
  by (simp add: vlint_fits_def ossl_quic_vlint_encode_def)

interpretation vlint: varint_codec "\<lambda>v. v \<le> OSSL_QUIC_VLINT_MAX" ossl_quic_vlint_encode ossl_quic_vlint_decode
proof (unfold_locales, goal_cases)
  case (1 v rest)
  then show ?case
    using decode_encode_n [OF vlint_fits_encode_len [OF 1], of rest] length_encode [OF 1]
    by (simp add: ossl_quic_vlint_encode_def)
next
  case (2 v)
  then show ?case
    using length_encode [OF 2] vlint_fits_encode_len [OF 2] by (auto simp: vlint_fits_def)
qed

text \<open>
  Every integer up to the QUIC limit is encoded in the least number of bytes that can hold
  it, and decoding the encoding, followed by anything, gives back the integer and that length.
\<close>

theorem vlint_round_trip:
  assumes "v \<le> OSSL_QUIC_VLINT_MAX"
  shows "ossl_quic_vlint_decode (ossl_quic_vlint_encode v @ rest) = Some (v, ossl_quic_vlint_encode_len v)
    \<and> length (ossl_quic_vlint_encode v) = ossl_quic_vlint_encode_len v
    \<and> vlint_fits v (ossl_quic_vlint_encode_len v) \<and> (\<forall>n. vlint_fits v n \<longrightarrow> ossl_quic_vlint_encode_len v \<le> n)"
  using vlint.dec_enc [OF assms] length_encode [OF assms] vlint_fits_encode_len [OF assms] encode_len_least by auto

theorem vlint_round_trip_witness:
  "ossl_quic_vlint_decode (ossl_quic_vlint_encode 15293 @ [7]) = Some (15293, 2)"
  using vlint_round_trip [of 15293 "[7]"]
  by (simp add: OSSL_QUIC_VLINT_MAX_def ossl_quic_vlint_encode_len_def OSSL_QUIC_VLINT_2B_MIN_def
      OSSL_QUIC_VLINT_4B_MIN_def push_bit_of_1)

text \<open>
  Encodings are prefix-free, so a concatenation of encoded integers can be split in one way
  only.
\<close>

theorem vlint_prefix_free:
  assumes "v \<le> OSSL_QUIC_VLINT_MAX" and "w \<le> OSSL_QUIC_VLINT_MAX"
    and "ossl_quic_vlint_encode v @ r = ossl_quic_vlint_encode w @ s"
  shows "v = w \<and> r = s"
  using vlint.enc_prefix_free [OF assms] .

theorem vlint_prefix_free_witness:
  "ossl_quic_vlint_encode 63 @ [1] \<noteq> ossl_quic_vlint_encode 62 @ [1]"
  using vlint_prefix_free [of 63 62 "[1]" "[1]"] by (auto simp: OSSL_QUIC_VLINT_MAX_def push_bit_of_1)

end
