(* ===== verification/Packet_Reader.thy ===== *)
theory Packet_Reader
  imports Quic_Vlint
begin

text \<open>
  \<^verbatim>\<open>include/internal/packet.h\<close> and \<^verbatim>\<open>include/internal/packet_quic.h\<close>: readable packets. A \<^verbatim>\<open>PACKET\<close> is a
  pointer and the number of bytes that remain: here the list of those bytes. A reader returns the
  value it stores through its pointer argument with the rest of the packet, or \<^term>\<open>None\<close> for its return
  value 0. A pointer into the packet that a function hands out is the span of bytes it points to.
\<close>

type_synonym packet = bytes

section \<open>Operations\<close>

definition packet_forward :: "packet \<Rightarrow> nat \<Rightarrow> packet" where
  "packet_forward pkt len = drop len pkt"

definition PACKET_remaining :: "packet \<Rightarrow> nat" where
  "PACKET_remaining pkt = length pkt"

definition PACKET_data :: "packet \<Rightarrow> bytes" where
  "PACKET_data pkt = pkt"

definition PACKET_buf_init :: "bytes \<Rightarrow> nat \<Rightarrow> packet option" where
  "PACKET_buf_init buf len = (if len > unat (SIZE_MAX div 2) then None else Some (take len buf))"

definition PACKET_null_init :: packet where
  "PACKET_null_init = []"

definition PACKET_equal :: "packet \<Rightarrow> bytes \<Rightarrow> nat \<Rightarrow> bool" where
  "PACKET_equal pkt ptr num = (if PACKET_remaining pkt \<noteq> num then False else take num pkt = take num ptr)"

definition PACKET_peek_sub_packet :: "packet \<Rightarrow> nat \<Rightarrow> packet option" where
  "PACKET_peek_sub_packet pkt len =
     (if PACKET_remaining pkt < len then None else PACKET_buf_init pkt len)"

definition PACKET_get_sub_packet :: "packet \<Rightarrow> nat \<Rightarrow> (packet \<times> packet) option" where
  "PACKET_get_sub_packet pkt len =
     (case PACKET_peek_sub_packet pkt len of
        None \<Rightarrow> None
      | Some subpkt \<Rightarrow> Some (subpkt, packet_forward pkt len))"

definition PACKET_peek_net_2 :: "packet \<Rightarrow> u32 option" where
  "PACKET_peek_net_2 pkt =
     (if PACKET_remaining pkt < 2 then None
      else Some (push_bit 8 (ucast (pkt ! 0)) OR ucast (pkt ! 1)))"

definition PACKET_get_net_2 :: "packet \<Rightarrow> (u32 \<times> packet) option" where
  "PACKET_get_net_2 pkt = map_option (\<lambda>d. (d, packet_forward pkt 2)) (PACKET_peek_net_2 pkt)"

definition PACKET_get_net_2_len :: "packet \<Rightarrow> (u64 \<times> packet) option" where
  "PACKET_get_net_2_len pkt = map_option (map_prod ucast id) (PACKET_get_net_2 pkt)"

definition PACKET_peek_net_3 :: "packet \<Rightarrow> u64 option" where
  "PACKET_peek_net_3 pkt =
     (if PACKET_remaining pkt < 3 then None
      else Some (push_bit 16 (wide (pkt ! 0)) OR push_bit 8 (wide (pkt ! 1)) OR wide (pkt ! 2)))"

definition PACKET_get_net_3 :: "packet \<Rightarrow> (u64 \<times> packet) option" where
  "PACKET_get_net_3 pkt = map_option (\<lambda>d. (d, packet_forward pkt 3)) (PACKET_peek_net_3 pkt)"

definition PACKET_get_net_3_len :: "packet \<Rightarrow> (u64 \<times> packet) option" where
  "PACKET_get_net_3_len pkt = PACKET_get_net_3 pkt"

definition PACKET_peek_net_4 :: "packet \<Rightarrow> u64 option" where
  "PACKET_peek_net_4 pkt =
     (if PACKET_remaining pkt < 4 then None
      else Some (push_bit 24 (wide (pkt ! 0)) OR push_bit 16 (wide (pkt ! 1))
             OR push_bit 8 (wide (pkt ! 2)) OR wide (pkt ! 3)))"

definition PACKET_peek_net_8 :: "packet \<Rightarrow> u64 option" where
  "PACKET_peek_net_8 pkt =
     (if PACKET_remaining pkt < 8 then None
      else Some (push_bit 56 (wide (pkt ! 0)) OR push_bit 48 (wide (pkt ! 1))
             OR push_bit 40 (wide (pkt ! 2)) OR push_bit 32 (wide (pkt ! 3))
             OR push_bit 24 (wide (pkt ! 4)) OR push_bit 16 (wide (pkt ! 5))
             OR push_bit 8 (wide (pkt ! 6)) OR wide (pkt ! 7)))"

definition PACKET_get_net_4 :: "packet \<Rightarrow> (u64 \<times> packet) option" where
  "PACKET_get_net_4 pkt = map_option (\<lambda>d. (d, packet_forward pkt 4)) (PACKET_peek_net_4 pkt)"

definition PACKET_get_net_4_len :: "packet \<Rightarrow> (u64 \<times> packet) option" where
  "PACKET_get_net_4_len pkt = PACKET_get_net_4 pkt"

definition PACKET_get_net_4_len_u32 :: "packet \<Rightarrow> (u32 \<times> packet) option" where
  "PACKET_get_net_4_len_u32 pkt = map_option (map_prod ucast id) (PACKET_get_net_4_len pkt)"

definition PACKET_get_net_8 :: "packet \<Rightarrow> (u64 \<times> packet) option" where
  "PACKET_get_net_8 pkt = map_option (\<lambda>d. (d, packet_forward pkt 8)) (PACKET_peek_net_8 pkt)"

definition PACKET_peek_1 :: "packet \<Rightarrow> u32 option" where
  "PACKET_peek_1 pkt = (if PACKET_remaining pkt = 0 then None else Some (ucast (pkt ! 0)))"

definition PACKET_get_1 :: "packet \<Rightarrow> (u32 \<times> packet) option" where
  "PACKET_get_1 pkt = map_option (\<lambda>d. (d, packet_forward pkt 1)) (PACKET_peek_1 pkt)"

definition PACKET_get_1_len :: "packet \<Rightarrow> (u64 \<times> packet) option" where
  "PACKET_get_1_len pkt = map_option (map_prod ucast id) (PACKET_get_1 pkt)"

definition PACKET_peek_4 :: "packet \<Rightarrow> u64 option" where
  "PACKET_peek_4 pkt =
     (if PACKET_remaining pkt < 4 then None
      else Some (wide (pkt ! 0) OR push_bit 8 (wide (pkt ! 1))
             OR push_bit 16 (wide (pkt ! 2)) OR push_bit 24 (wide (pkt ! 3))))"

definition PACKET_get_4 :: "packet \<Rightarrow> (u64 \<times> packet) option" where
  "PACKET_get_4 pkt = map_option (\<lambda>d. (d, packet_forward pkt 4)) (PACKET_peek_4 pkt)"

definition PACKET_peek_bytes :: "packet \<Rightarrow> nat \<Rightarrow> bytes option" where
  "PACKET_peek_bytes pkt len = (if PACKET_remaining pkt < len then None else Some (take len pkt))"

definition PACKET_get_bytes :: "packet \<Rightarrow> nat \<Rightarrow> (bytes \<times> packet) option" where
  "PACKET_get_bytes pkt len = map_option (\<lambda>d. (d, packet_forward pkt len)) (PACKET_peek_bytes pkt len)"

definition PACKET_peek_copy_bytes :: "packet \<Rightarrow> nat \<Rightarrow> bytes option" where
  "PACKET_peek_copy_bytes pkt len = (if PACKET_remaining pkt < len then None else Some (take len pkt))"

definition PACKET_copy_bytes :: "packet \<Rightarrow> nat \<Rightarrow> (bytes \<times> packet) option" where
  "PACKET_copy_bytes pkt len = map_option (\<lambda>d. (d, packet_forward pkt len)) (PACKET_peek_copy_bytes pkt len)"

definition PACKET_copy_all :: "packet \<Rightarrow> nat \<Rightarrow> bytes option" where
  "PACKET_copy_all pkt dest_len = (if PACKET_remaining pkt > dest_len then None else Some pkt)"

text \<open>\<^verbatim>\<open>PACKET_memdup\<close> stores \<^verbatim>\<open>NULL\<close> (the inner \<^term>\<open>None\<close>) for an empty packet.\<close>

definition PACKET_memdup :: "bool \<Rightarrow> packet \<Rightarrow> bytes option option" where
  "PACKET_memdup mem pkt =
     (if PACKET_remaining pkt = 0 then Some None else if \<not> mem then None else Some (Some pkt))"

definition PACKET_contains_zero_byte :: "packet \<Rightarrow> bool" where
  "PACKET_contains_zero_byte pkt = List.member pkt 0"

definition PACKET_forward :: "packet \<Rightarrow> nat \<Rightarrow> packet option" where
  "PACKET_forward pkt len = (if PACKET_remaining pkt < len then None else Some (packet_forward pkt len))"

definition PACKET_get_length_prefixed_1 :: "packet \<Rightarrow> (packet \<times> packet) option" where
  "PACKET_get_length_prefixed_1 pkt =
     (case PACKET_get_1 pkt of
        None \<Rightarrow> None
      | Some (len, tmp) \<Rightarrow> PACKET_get_bytes tmp (unat len))"

definition PACKET_as_length_prefixed_1 :: "packet \<Rightarrow> (packet \<times> packet) option" where
  "PACKET_as_length_prefixed_1 pkt =
     (case PACKET_get_1 pkt of
        None \<Rightarrow> None
      | Some (len, tmp) \<Rightarrow>
          (case PACKET_get_bytes tmp (unat len) of
             None \<Rightarrow> None
           | Some (data, tmp) \<Rightarrow> if PACKET_remaining tmp \<noteq> 0 then None else Some (data, tmp)))"

definition PACKET_get_length_prefixed_2 :: "packet \<Rightarrow> (packet \<times> packet) option" where
  "PACKET_get_length_prefixed_2 pkt =
     (case PACKET_get_net_2 pkt of
        None \<Rightarrow> None
      | Some (len, tmp) \<Rightarrow> PACKET_get_bytes tmp (unat len))"

definition PACKET_as_length_prefixed_2 :: "packet \<Rightarrow> (packet \<times> packet) option" where
  "PACKET_as_length_prefixed_2 pkt =
     (case PACKET_get_net_2 pkt of
        None \<Rightarrow> None
      | Some (len, tmp) \<Rightarrow>
          (case PACKET_get_bytes tmp (unat len) of
             None \<Rightarrow> None
           | Some (data, tmp) \<Rightarrow> if PACKET_remaining tmp \<noteq> 0 then None else Some (data, tmp)))"

definition PACKET_get_length_prefixed_3 :: "packet \<Rightarrow> (packet \<times> packet) option" where
  "PACKET_get_length_prefixed_3 pkt =
     (case PACKET_get_net_3 pkt of
        None \<Rightarrow> None
      | Some (len, tmp) \<Rightarrow> PACKET_get_bytes tmp (unat len))"

subsection \<open>QUIC readers\<close>

definition PACKET_get_quic_vlint :: "packet \<Rightarrow> (u64 \<times> packet) option" where
  "PACKET_get_quic_vlint pkt =
     (if PACKET_remaining pkt < 1 then None
      else
        let enclen = ossl_quic_vlint_decode_len (pkt ! 0) in
        if PACKET_remaining pkt < enclen then None
        else Some (ossl_quic_vlint_decode_unchecked pkt, packet_forward pkt enclen))"

definition PACKET_peek_quic_vlint_ex :: "packet \<Rightarrow> (u64 \<times> bool) option" where
  "PACKET_peek_quic_vlint_ex pkt =
     (if PACKET_remaining pkt < 1 then None
      else
        let enclen = ossl_quic_vlint_decode_len (pkt ! 0) in
        if PACKET_remaining pkt < enclen then None
        else
          let data = ossl_quic_vlint_decode_unchecked pkt
          in Some (data, enclen = ossl_quic_vlint_encode_len data))"

definition PACKET_peek_quic_vlint :: "packet \<Rightarrow> u64 option" where
  "PACKET_peek_quic_vlint pkt = map_option fst (PACKET_peek_quic_vlint_ex pkt)"

definition PACKET_skip_quic_vlint :: "packet \<Rightarrow> packet option" where
  "PACKET_skip_quic_vlint pkt =
     (if PACKET_remaining pkt < 1 then None
      else
        let enclen = ossl_quic_vlint_decode_len (pkt ! 0) in
        if PACKET_remaining pkt < enclen then None else Some (packet_forward pkt enclen))"

definition PACKET_get_quic_length_prefixed :: "packet \<Rightarrow> (packet \<times> packet) option" where
  "PACKET_get_quic_length_prefixed pkt =
     (case PACKET_get_quic_vlint pkt of
        None \<Rightarrow> None
      | Some (len, tmp) \<Rightarrow> if len > SIZE_MAX then None else PACKET_get_bytes tmp (unat len))"

section \<open>What the readers read\<close>

named_theorems packet_read "the value a reader returns on a packet that starts with an encoding of it"

lemma forward_append [simp]: "length x = n \<Longrightarrow> packet_forward (x @ r) n = r"
  by (simp add: packet_forward_def)

lemma get_bytes_append [packet_read]:
  "length d = n \<Longrightarrow> PACKET_get_bytes (d @ r) n = Some (d, r)"
  "length d = n \<Longrightarrow> PACKET_copy_bytes (d @ r) n = Some (d, r)"
  "length d = n \<Longrightarrow> PACKET_forward (d @ r) n = Some r"
  by (simp_all add: PACKET_get_bytes_def PACKET_peek_bytes_def PACKET_copy_bytes_def PACKET_peek_copy_bytes_def
      PACKET_forward_def PACKET_remaining_def)

lemma vlint_decode_reads:
  assumes "ossl_quic_vlint_decode pkt = Some (v, n)"
  shows "PACKET_get_quic_vlint pkt = Some (v, packet_forward pkt n)"
    and "PACKET_skip_quic_vlint pkt = Some (packet_forward pkt n)"
    and "PACKET_peek_quic_vlint_ex pkt = Some (v, n = ossl_quic_vlint_encode_len v)"
  using assms
  by (auto simp: ossl_quic_vlint_decode_def PACKET_get_quic_vlint_def PACKET_skip_quic_vlint_def
      PACKET_peek_quic_vlint_ex_def PACKET_remaining_def Let_def split: if_splits)

lemma get_vlint_append [packet_read]:
  assumes "v \<le> OSSL_QUIC_VLINT_MAX"
  shows "PACKET_get_quic_vlint (ossl_quic_vlint_encode v @ r) = Some (v, r)"
    and "PACKET_skip_quic_vlint (ossl_quic_vlint_encode v @ r) = Some r"
    and "PACKET_peek_quic_vlint_ex (ossl_quic_vlint_encode v @ r) = Some (v, True)"
    and "PACKET_peek_quic_vlint (ossl_quic_vlint_encode v @ r) = Some v"
  using vlint_decode_reads [OF vlint.dec_enc [OF assms, of r]] length_encode [OF assms]
  by (simp_all add: PACKET_peek_quic_vlint_def)

text \<open>Big-endian fields of 1, 2, 3 and 8 bytes.\<close>

definition be_bytes :: "nat \<Rightarrow> u64 \<Rightarrow> bytes" where
  "be_bytes n v = map (\<lambda>i. byte_of (drop_bit (8 * (n - 1 - i)) v)) [0..<n]"

lemma length_be_bytes [simp]: "length (be_bytes n v) = n"
  by (simp add: be_bytes_def)

lemma be_bytes_unfold:
  "be_bytes 1 v = [byte_of v]" "be_bytes 2 v = [byte_of (drop_bit 8 v), byte_of v]"
  "be_bytes 3 v = [byte_of (drop_bit 16 v), byte_of (drop_bit 8 v), byte_of v]"
  "be_bytes 4 v = [byte_of (drop_bit 24 v), byte_of (drop_bit 16 v), byte_of (drop_bit 8 v), byte_of v]"
  "be_bytes 8 v = [byte_of (drop_bit 56 v), byte_of (drop_bit 48 v), byte_of (drop_bit 40 v), byte_of (drop_bit 32 v),
     byte_of (drop_bit 24 v), byte_of (drop_bit 16 v), byte_of (drop_bit 8 v), byte_of v]"
  by (simp_all add: be_bytes_def upt_rec)

lemma get_net_8_append [packet_read]: "PACKET_get_net_8 (be_bytes 8 v @ r) = Some (v, r)"
proof -
  have "push_bit 56 (wide (byte_of (drop_bit 56 v))) OR push_bit 48 (wide (byte_of (drop_bit 48 v)))
      OR push_bit 40 (wide (byte_of (drop_bit 40 v))) OR push_bit 32 (wide (byte_of (drop_bit 32 v)))
      OR push_bit 24 (wide (byte_of (drop_bit 24 v))) OR push_bit 16 (wide (byte_of (drop_bit 16 v)))
      OR push_bit 8 (wide (byte_of (drop_bit 8 v))) OR wide (byte_of v) = v" (is "?x = v")
  proof (rule bit_word_eqI)
    fix n assume "n < LENGTH(64)"
    then show "bit ?x n \<longleftrightarrow> bit v n"
      unfolding bit_or_iff bit_byte_field bit_low_byte by (cases "bit v n") (simp_all, linarith+)
  qed
  then show ?thesis
    by (simp add: be_bytes_unfold PACKET_get_net_8_def PACKET_peek_net_8_def PACKET_remaining_def packet_forward_def)
qed

lemma get_1_append [packet_read]:
  assumes "unat v < 2 ^ 8"
  shows "PACKET_get_1 (be_bytes 1 v @ r) = Some (ucast v, r)"
proof -
  have "v < 2 ^ 8"
    using assms by (simp add: word_less_nat_alt)
  then have v: "bit v n \<Longrightarrow> n < 8" for n
    using bit_below [of v 8 n] by simp
  have "ucast (byte_of v) = (ucast v :: u32)"
    by (rule bit_word_eqI) (auto simp: byte_of_def bit_simps dest: v)
  then show ?thesis
    unfolding be_bytes_unfold by (simp add: PACKET_get_1_def PACKET_peek_1_def PACKET_remaining_def packet_forward_def)
qed

lemma get_net_2_append [packet_read]:
  assumes "unat v < 2 ^ 16"
  shows "PACKET_get_net_2 (be_bytes 2 v @ r) = Some (ucast v, r)"
proof -
  have "v < 2 ^ 16"
    using assms by (simp add: word_less_nat_alt)
  then have v: "bit v n \<Longrightarrow> n < 16" for n
    using bit_below [of v 16 n] by simp
  have "push_bit 8 (ucast (byte_of (drop_bit 8 v))) OR ucast (byte_of v) = (ucast v :: u32)"
    by (rule bit_word_eqI) (auto simp: byte_of_def bit_simps dest: v)
  then show ?thesis
    by (simp add: be_bytes_unfold PACKET_get_net_2_def PACKET_peek_net_2_def PACKET_remaining_def packet_forward_def)
qed

lemma get_net_3_append [packet_read]:
  assumes "unat v < 2 ^ 24"
  shows "PACKET_get_net_3 (be_bytes 3 v @ r) = Some (v, r)"
proof -
  have "v < 2 ^ 24"
    using assms by (simp add: word_less_nat_alt)
  then have v: "bit v n \<Longrightarrow> n < 24" for n
    using bit_below [of v 24 n] by simp
  have "push_bit 16 (wide (byte_of (drop_bit 16 v))) OR push_bit 8 (wide (byte_of (drop_bit 8 v))) OR wide (byte_of v) = v"
    by (rule bit_word_eqI) (auto simp: bit_or_iff bit_byte_field bit_low_byte dest: v)
  then show ?thesis
    by (simp add: be_bytes_unfold PACKET_get_net_3_def PACKET_peek_net_3_def PACKET_remaining_def packet_forward_def)
qed

lemma unat_ucast_u32: "unat v < 2 ^ 32 \<Longrightarrow> unat (ucast v :: u32) = unat v" for v :: u64
  by (simp add: unsigned_ucast_eq take_bit_nat_eq_self)

lemma get_length_prefixed:
  assumes "unat v = length d"
  shows "length d < 2 ^ 8 \<Longrightarrow> PACKET_get_length_prefixed_1 (be_bytes 1 v @ d @ r) = Some (d, r)"
    and "length d < 2 ^ 16 \<Longrightarrow> PACKET_get_length_prefixed_2 (be_bytes 2 v @ d @ r) = Some (d, r)"
    and "length d < 2 ^ 24 \<Longrightarrow> PACKET_get_length_prefixed_3 (be_bytes 3 v @ d @ r) = Some (d, r)"
  using assms
  by (simp_all add: PACKET_get_length_prefixed_1_def PACKET_get_length_prefixed_2_def PACKET_get_length_prefixed_3_def
      packet_read unat_ucast_u32 del: One_nat_def)

lemma get_quic_length_prefixed:
  assumes "unat v = length d" and "v \<le> OSSL_QUIC_VLINT_MAX"
  shows "PACKET_get_quic_length_prefixed (ossl_quic_vlint_encode v @ d @ r) = Some (d, r)"
  using assms by (simp add: PACKET_get_quic_length_prefixed_def packet_read)

text \<open>Readers never read past the packet: what they leave is a suffix of it.\<close>

lemma bits_below: "(\<And>n. bit v n \<Longrightarrow> n < k) \<Longrightarrow> unat v < 2 ^ k" for v :: u64
proof -
  assume "\<And>n. bit v n \<Longrightarrow> n < k"
  then have "take_bit k v = v"
    by (intro bit_word_eqI) (auto simp: bit_simps)
  then have "unat v = take_bit k (unat v)"
    by (metis unsigned_take_bit_eq)
  then show ?thesis
    by (metis take_bit_nat_less_exp)
qed

lemma decode_unchecked_bound: "unat (ossl_quic_vlint_decode_unchecked pkt) < 2 ^ 62"
proof -
  have f: "bit (push_bit k (wide (b AND 0x3F))) n \<Longrightarrow> n < k + 6" for k n b
    by (auto simp: wide_def vlint_bits)
  have g: "bit (push_bit k (wide b)) n \<Longrightarrow> n < k + 8" for k n b
    by (auto simp: wide_def bit_simps dest!: bit_imp_le_length)
  have w: "bit (wide (b AND 0x3F)) n \<Longrightarrow> n < 6" "bit (wide b) n \<Longrightarrow> n < 8" for n b
    by (auto simp: wide_def vlint_bits dest: bit_imp_le_length)
  show ?thesis
    by (rule bits_below)
      (auto simp: ossl_quic_vlint_decode_unchecked_def Let_def bit_or_iff split: if_splits
        dest!: f [where k = 56] g [where k = 48] g [where k = 40] g [where k = 32] g [where k = 24] g [where k = 16]
          g [where k = 8] w)
qed

lemma get_vlint_suffix:
  assumes "PACKET_get_quic_vlint pkt = Some (v, r)"
  shows "\<exists>e. pkt = e @ r \<and> 0 < length e \<and> length e \<le> 8" and "unat v < 2 ^ 62"
proof -
  let ?n = "ossl_quic_vlint_decode_len (pkt ! 0)"
  have r: "r = drop ?n pkt" "?n \<le> length pkt" "v = ossl_quic_vlint_decode_unchecked pkt"
    using assms by (auto simp: PACKET_get_quic_vlint_def PACKET_remaining_def packet_forward_def Let_def split: if_splits)
  have "0 < ?n \<and> ?n \<le> 8"
    by (cases rule: decode_len_cases [of "pkt ! 0"]) simp_all
  with r show "\<exists>e. pkt = e @ r \<and> 0 < length e \<and> length e \<le> 8"
    by (intro exI [of _ "take ?n pkt"]) auto
  show "unat v < 2 ^ 62"
    unfolding r(3) by (rule decode_unchecked_bound)
qed

lemma get_vlint_shorter: "PACKET_get_quic_vlint pkt = Some (v, r) \<Longrightarrow> length r < length pkt"
  using get_vlint_suffix(1) by fastforce

end
