(* ===== verification/Wpacket.thy ===== *)
theory Wpacket
  imports Packet_Reader "HOL-Library.Sublist"
begin

text \<open>
  \<^verbatim>\<open>crypto/packet.c\<close>: writable packets, with the growing buffer of \<^verbatim>\<open>crypto/buffer/buffer.c\<close> under them. A packet
  writes to a caller's buffer, to a growing one, or to none at all (then it only counts); forwards, or from
  the end backwards for DER. A pointer into the buffer is an index, \<^term>\<open>None\<close> for \<^verbatim>\<open>NULL\<close>. The
  sub-packets are a list, innermost first. Whether allocations succeed is the field \<open>wp_mem\<close>, an input
  of every run. The bytes of a growing buffer past its length are not modelled: growing clears them.
\<close>

section \<open>The growing buffer\<close>

record buf_mem =
  bm_data :: bytes
  bm_max :: u64

definition LIMIT_BEFORE_EXPANSION :: u64 where
  "LIMIT_BEFORE_EXPANSION = 0x5ffffffc"

definition BUF_MEM_new :: "bool \<Rightarrow> buf_mem option" where
  "BUF_MEM_new mem = (if \<not> mem then None else Some \<lparr>bm_data = [], bm_max = 0\<rparr>)"

definition BUF_MEM_grow :: "bool \<Rightarrow> buf_mem \<Rightarrow> u64 \<Rightarrow> buf_mem \<times> u64" where
  "BUF_MEM_grow mem str len =
     (if u64_len (bm_data str) \<ge> len then (str\<lparr>bm_data := take (unat len) (bm_data str)\<rparr>, len)
      else
        let grown = bm_data str @ replicate (unat (len - u64_len (bm_data str))) 0 in
        if bm_max str \<ge> len then (str\<lparr>bm_data := grown\<rparr>, len)
        else if len > LIMIT_BEFORE_EXPANSION then (str, 0)
        else
          let n = (len + 3) div 3 * 4
          in if \<not> mem then (str, 0) else (str\<lparr>bm_data := grown, bm_max := n\<rparr>, len))"

section \<open>Writable packets\<close>

record wpacket_sub =
  packet_len :: u64
  lenbytes :: u64
  pwritten :: u64
  sub_flags :: u32

record wpacket =
  wp_buf :: "buf_mem option"
  staticbuf :: "bytes option"
  wp_curr :: u64
  wp_written :: u64
  wp_maxsize :: u64
  wp_subs :: "wpacket_sub list"
  endfirst :: bool
  wp_mem :: bool

definition WPACKET_FLAGS_NON_ZERO_LENGTH :: u32 where "WPACKET_FLAGS_NON_ZERO_LENGTH = 1"
definition WPACKET_FLAGS_ABANDON_ON_ZERO_LENGTH :: u32 where "WPACKET_FLAGS_ABANDON_ON_ZERO_LENGTH = 2"
definition WPACKET_FLAGS_QUIC_VLINT :: u32 where "WPACKET_FLAGS_QUIC_VLINT = 4"

definition DEFAULT_BUF_SIZE :: u64 where
  "DEFAULT_BUF_SIZE = 256"

text \<open>A growing buffer that was never grown has no memory: its size is 0 and its data pointer \<^verbatim>\<open>NULL\<close>.\<close>

definition GETBUF :: "wpacket \<Rightarrow> bytes option" where
  "GETBUF p =
     (case staticbuf p of
        Some b \<Rightarrow> Some b
      | None \<Rightarrow> (case wp_buf p of Some str \<Rightarrow> if bm_max str = 0 then None else Some (bm_data str) | None \<Rightarrow> None))"

definition WPACKET_get_curr :: "wpacket \<Rightarrow> u64 option" where
  "WPACKET_get_curr p =
     (case GETBUF p of
        None \<Rightarrow> None
      | Some _ \<Rightarrow> Some (if endfirst p then wp_maxsize p - wp_curr p else wp_curr p))"

text \<open>Writing bytes through a pointer into the buffer.\<close>

definition wp_store :: "wpacket \<Rightarrow> u64 \<Rightarrow> bytes \<Rightarrow> c_fault + wpacket" where
  "wp_store p i bs =
     (case staticbuf p of
        Some b \<Rightarrow> res_bind (memcpy_at b (unat i) bs) (\<lambda>b'. Inr (p\<lparr>staticbuf := Some b'\<rparr>))
      | None \<Rightarrow>
          (case wp_buf p of
             Some str \<Rightarrow> res_bind (memcpy_at (bm_data str) (unat i) bs) (\<lambda>b'. Inr (p\<lparr>wp_buf := Some (str\<lparr>bm_data := b'\<rparr>)\<rparr>))
           | None \<Rightarrow> Inl NullDeref))"

text \<open>The result is the pointer stored through \<^verbatim>\<open>allocbytes\<close>, or \<^term>\<open>None\<close> for the return value 0.\<close>

definition WPACKET_reserve_bytes :: "wpacket \<Rightarrow> u64 \<Rightarrow> wpacket \<times> u64 option option" where
  "WPACKET_reserve_bytes p len =
     (if \<not> (wp_subs p \<noteq> [] \<and> len \<noteq> 0) then (p, None)
      else if wp_maxsize p - wp_written p < len then (p, None)
      else
        let (p, ok) =
          (case wp_buf p of
             None \<Rightarrow> (p, True)
           | Some str \<Rightarrow>
               if u64_len (bm_data str) - wp_written p < len then
                 let reflen = (if len > u64_len (bm_data str) then len else u64_len (bm_data str));
                     newlen = (if reflen > SIZE_MAX div 2 then SIZE_MAX
                               else if reflen * 2 < DEFAULT_BUF_SIZE then DEFAULT_BUF_SIZE else reflen * 2);
                     (str', r) = BUF_MEM_grow (wp_mem p) str newlen
                 in (p\<lparr>wp_buf := Some str'\<rparr>, r \<noteq> 0)
               else (p, True))
        in if \<not> ok then (p, None)
           else (p, Some (map_option (\<lambda>i. if endfirst p then i - len else i) (WPACKET_get_curr p))))"

definition WPACKET_allocate_bytes :: "wpacket \<Rightarrow> u64 \<Rightarrow> wpacket \<times> u64 option option" where
  "WPACKET_allocate_bytes p len =
     (case WPACKET_reserve_bytes p len of
        (p, None) \<Rightarrow> (p, None)
      | (p, Some ptr) \<Rightarrow> (p\<lparr>wp_written := wp_written p + len, wp_curr := wp_curr p + len\<rparr>, Some ptr))"

text \<open>The calls chained by \<^verbatim>\<open>||\<close> in conditions: the first that returns 0 ends the chain.\<close>

type_synonym wres = "c_fault + wpacket \<times> bool"

definition wp_then :: "c_fault + 's \<times> bool \<Rightarrow> ('s \<Rightarrow> c_fault + 's \<times> bool) \<Rightarrow> c_fault + 's \<times> bool" where
  "wp_then m f = res_bind m (\<lambda>(p, ok). if ok then f p else Inr (p, False))"

definition maxmaxsize :: "u64 \<Rightarrow> u64" where
  "maxmaxsize n = (if n \<ge> 8 \<or> n = 0 then SIZE_MAX else push_bit (unat n * 8) 1 - 1 + n)"

definition wpacket_intern_init_len :: "wpacket \<Rightarrow> u64 \<Rightarrow> wpacket \<times> bool" where
  "wpacket_intern_init_len p n =
     (let p = p\<lparr>wp_curr := 0, wp_written := 0\<rparr> in
      if \<not> wp_mem p then (p\<lparr>wp_subs := []\<rparr>, False)
      else if n = 0 then (p\<lparr>wp_subs := [\<lparr>packet_len = 0, lenbytes = 0, pwritten = 0, sub_flags = 0\<rparr>]\<rparr>, True)
      else
        case WPACKET_allocate_bytes (p\<lparr>wp_subs := [\<lparr>packet_len = 0, lenbytes = n, pwritten = n, sub_flags = 0\<rparr>]\<rparr>) n of
          (p, None) \<Rightarrow> (p\<lparr>wp_subs := []\<rparr>, False)
        | (p, Some _) \<Rightarrow> (p, True))"

text \<open>The packet an initialisation starts from: its fields are all set, given the memory's behaviour.\<close>

definition wp_fresh :: "bool \<Rightarrow> wpacket" where
  "wp_fresh mem = \<lparr>wp_buf = None, staticbuf = None, wp_curr = 0, wp_written = 0, wp_maxsize = 0, wp_subs = [],
     endfirst = False, wp_mem = mem\<rparr>"

definition WPACKET_init_static_len :: "bool \<Rightarrow> bytes option \<Rightarrow> u64 \<Rightarrow> u64 \<Rightarrow> wpacket \<times> bool" where
  "WPACKET_init_static_len mem buf len n =
     (let mx = maxmaxsize n in
      if \<not> (buf \<noteq> None \<and> len > 0) then (wp_fresh mem, False)
      else wpacket_intern_init_len
        ((wp_fresh mem)\<lparr>staticbuf := buf, wp_buf := None, wp_maxsize := (if mx < len then mx else len), endfirst := False\<rparr>) n)"

definition WPACKET_init_der :: "bool \<Rightarrow> bytes option \<Rightarrow> u64 \<Rightarrow> wpacket \<times> bool" where
  "WPACKET_init_der mem buf len =
     (if \<not> (buf \<noteq> None \<and> len > 0) then (wp_fresh mem, False)
      else wpacket_intern_init_len
        ((wp_fresh mem)\<lparr>staticbuf := buf, wp_buf := None, wp_maxsize := len, endfirst := True\<rparr>) 0)"

definition WPACKET_init_len :: "bool \<Rightarrow> buf_mem option \<Rightarrow> u64 \<Rightarrow> wpacket \<times> bool" where
  "WPACKET_init_len mem buf n =
     (if buf = None then (wp_fresh mem, False)
      else wpacket_intern_init_len
        ((wp_fresh mem)\<lparr>staticbuf := None, wp_buf := buf, wp_maxsize := maxmaxsize n, endfirst := False\<rparr>) n)"

definition WPACKET_init :: "bool \<Rightarrow> buf_mem option \<Rightarrow> wpacket \<times> bool" where
  "WPACKET_init mem buf = WPACKET_init_len mem buf 0"

definition WPACKET_init_null :: "bool \<Rightarrow> u64 \<Rightarrow> wpacket \<times> bool" where
  "WPACKET_init_null mem n =
     wpacket_intern_init_len
       ((wp_fresh mem)\<lparr>staticbuf := None, wp_buf := None, wp_maxsize := maxmaxsize n, endfirst := False\<rparr>) 0"

definition WPACKET_init_null_der :: "bool \<Rightarrow> wpacket \<times> bool" where
  "WPACKET_init_null_der mem =
     wpacket_intern_init_len
       ((wp_fresh mem)\<lparr>staticbuf := None, wp_buf := None, wp_maxsize := SIZE_MAX, endfirst := True\<rparr>) 0"

definition WPACKET_set_flags :: "wpacket \<Rightarrow> u32 \<Rightarrow> wpacket \<times> bool" where
  "WPACKET_set_flags p flags =
     (case wp_subs p of
        [] \<Rightarrow> (p, False)
      | sub # parents \<Rightarrow> (p\<lparr>wp_subs := sub\<lparr>sub_flags := flags\<rparr> # parents\<rparr>, True))"

text \<open>The bytes the loop of \<^verbatim>\<open>put_value\<close> stores, last byte first, and what is left of the value.\<close>

fun put_value_loop :: "u64 \<Rightarrow> nat \<Rightarrow> bytes \<times> u64" where
  "put_value_loop v 0 = ([], v)"
| "put_value_loop v (Suc n) = (let (bs, r) = put_value_loop (drop_bit 8 v) n in (bs @ [ucast (v AND 0xff)], r))"

definition put_value :: "wpacket \<Rightarrow> u64 option \<Rightarrow> u64 \<Rightarrow> u64 \<Rightarrow> wres" where
  "put_value p data val len =
     (case data of
        None \<Rightarrow> Inr (p, True)
      | Some i \<Rightarrow>
          let (bs, r) = put_value_loop val (unat len)
          in res_bind (wp_store p i bs) (\<lambda>p. Inr (p, \<not> r > 0)))"

definition put_quic_value :: "wpacket \<Rightarrow> u64 option \<Rightarrow> u64 \<Rightarrow> u64 \<Rightarrow> wres" where
  "put_quic_value p data val len =
     (case data of
        None \<Rightarrow> Inr (p, True)
      | Some i \<Rightarrow>
          if ossl_quic_vlint_encode_len val > unat len then Inr (p, False)
          else res_bind (wp_store p i (ossl_quic_vlint_encode_n val (unat len))) (\<lambda>p. Inr (p, True)))"

definition WPACKET_put_bytes :: "wpacket \<Rightarrow> u64 \<Rightarrow> u64 \<Rightarrow> wres" where
  "WPACKET_put_bytes p val sz =
     (if \<not> sz \<le> 8 then Inr (p, False)
      else
        case WPACKET_allocate_bytes p sz of
          (p, None) \<Rightarrow> Inr (p, False)
        | (p, Some data) \<Rightarrow> put_value p data val sz)"

abbreviation WPACKET_put_bytes_u8 :: "wpacket \<Rightarrow> u64 \<Rightarrow> wres" where
  "WPACKET_put_bytes_u8 p val \<equiv> WPACKET_put_bytes p val 1"

abbreviation WPACKET_put_bytes_u64 :: "wpacket \<Rightarrow> u64 \<Rightarrow> wres" where
  "WPACKET_put_bytes_u64 p val \<equiv> WPACKET_put_bytes p val 8"

text \<open>The number of bytes of a DER length.\<close>

function num_len_bytes :: "u64 \<Rightarrow> u64 \<Rightarrow> u64" where
  "num_len_bytes tmplen n = (if drop_bit 8 tmplen > 0 then num_len_bytes (drop_bit 8 tmplen) (n + 1) else n)"
  by auto

termination num_len_bytes
proof (relation "measure (\<lambda>(l, n). unat l)", goal_cases)
  case (2 l n)
  then have "0 < unat (drop_bit 8 l)"
    by (simp add: word_less_nat_alt)
  then show ?case
    by (simp add: drop_bit_eq_div unat_div)
qed simp

declare num_len_bytes.simps [simp del]

definition wpacket_intern_close :: "wpacket \<Rightarrow> wpacket_sub \<Rightarrow> wpacket_sub list \<Rightarrow> bool \<Rightarrow> wres" where
  "wpacket_intern_close p sub parents doclose =
     (let packlen = wp_written p - pwritten sub;
          abandon = (sub_flags sub AND WPACKET_FLAGS_ABANDON_ON_ZERO_LENGTH \<noteq> 0)
      in if packlen = 0 \<and> sub_flags sub AND WPACKET_FLAGS_NON_ZERO_LENGTH \<noteq> 0 then Inr (p, False)
         else if packlen = 0 \<and> abandon \<and> \<not> doclose then Inr (p, False)
         else
           let (p, sub) =
             (if packlen = 0 \<and> abandon then
                (if wp_curr p - lenbytes sub = packet_len sub
                 then p\<lparr>wp_written := wp_written p - lenbytes sub, wp_curr := wp_curr p - lenbytes sub\<rparr> else p,
                 sub\<lparr>packet_len := 0, lenbytes := 0\<rparr>)
              else (p, sub))
           in wp_then
                (if lenbytes sub > 0 then
                   if GETBUF p \<noteq> None then
                     if sub_flags sub AND WPACKET_FLAGS_QUIC_VLINT = 0
                     then put_value p (Some (packet_len sub)) packlen (lenbytes sub)
                     else put_quic_value p (Some (packet_len sub)) packlen (lenbytes sub)
                   else Inr (p, True)
                 else if endfirst p \<and> parents \<noteq> [] \<and> (packlen \<noteq> 0 \<or> \<not> abandon) then
                   let numlenbytes = num_len_bytes packlen 1 in
                   wp_then (WPACKET_put_bytes p packlen numlenbytes) (\<lambda>p.
                     if packlen > 0x7f then WPACKET_put_bytes_u8 p (numlenbytes OR 0x80) else Inr (p, True))
                 else Inr (p, True))
                (\<lambda>p. Inr (if doclose then p\<lparr>wp_subs := parents\<rparr> else p, True)))"

fun fill_lengths_loop :: "wpacket \<Rightarrow> wpacket_sub list \<Rightarrow> wres" where
  "fill_lengths_loop p [] = Inr (p, True)"
| "fill_lengths_loop p (sub # parents) =
     wp_then (wpacket_intern_close p sub parents False) (\<lambda>p. fill_lengths_loop p parents)"

definition WPACKET_fill_lengths :: "wpacket \<Rightarrow> wres" where
  "WPACKET_fill_lengths p = (if wp_subs p = [] then Inr (p, False) else fill_lengths_loop p (wp_subs p))"

definition WPACKET_close :: "wpacket \<Rightarrow> wres" where
  "WPACKET_close p =
     (case wp_subs p of
        sub # parent # parents \<Rightarrow> wpacket_intern_close p sub (parent # parents) True
      | _ \<Rightarrow> Inr (p, False))"

definition WPACKET_finish :: "wpacket \<Rightarrow> wres" where
  "WPACKET_finish p =
     (case wp_subs p of
        [sub] \<Rightarrow> wp_then (wpacket_intern_close p sub [] True) (\<lambda>p. Inr (p\<lparr>wp_subs := []\<rparr>, True))
      | _ \<Rightarrow> Inr (p, False))"

definition WPACKET_start_sub_packet_len :: "wpacket \<Rightarrow> u64 \<Rightarrow> wpacket \<times> bool" where
  "WPACKET_start_sub_packet_len p n =
     (if wp_subs p = [] then (p, False)
      else if n > 0 \<and> endfirst p then (p, False)
      else if \<not> wp_mem p then (p, False)
      else if n = 0 then
        (p\<lparr>wp_subs := \<lparr>packet_len = 0, lenbytes = 0, pwritten = wp_written p, sub_flags = 0\<rparr> # wp_subs p\<rparr>, True)
      else
        case WPACKET_allocate_bytes
            (p\<lparr>wp_subs := \<lparr>packet_len = wp_written p, lenbytes = n, pwritten = wp_written p + n, sub_flags = 0\<rparr> # wp_subs p\<rparr>) n of
          (p, None) \<Rightarrow> (p, False)
        | (p, Some _) \<Rightarrow> (p, True))"

definition WPACKET_start_sub_packet :: "wpacket \<Rightarrow> wpacket \<times> bool" where
  "WPACKET_start_sub_packet p = WPACKET_start_sub_packet_len p 0"

definition WPACKET_sub_allocate_bytes :: "wpacket \<Rightarrow> u64 \<Rightarrow> u64 \<Rightarrow> c_fault + wpacket \<times> u64 option option" where
  "WPACKET_sub_allocate_bytes p len n =
     (let (p, ok) = WPACKET_start_sub_packet_len p n in
      if \<not> ok then Inr (p, None)
      else
        case WPACKET_allocate_bytes p len of
          (p, None) \<Rightarrow> Inr (p, None)
        | (p, Some ptr) \<Rightarrow> res_bind (WPACKET_close p) (\<lambda>(p, ok). Inr (p, if ok then Some ptr else None)))"

definition WPACKET_sub_reserve_bytes :: "wpacket \<Rightarrow> u64 \<Rightarrow> u64 \<Rightarrow> wpacket \<times> u64 option option" where
  "WPACKET_sub_reserve_bytes p len n =
     (if endfirst p \<and> n > 0 then (p, None)
      else
        case WPACKET_reserve_bytes p (n + len) of
          (p, None) \<Rightarrow> (p, None)
        | (p, Some ptr) \<Rightarrow> (p, Some (map_option (\<lambda>i. i + n) ptr)))"

definition WPACKET_set_max_size :: "wpacket \<Rightarrow> u64 \<Rightarrow> wpacket \<times> bool" where
  "WPACKET_set_max_size p maxsize =
     (if wp_subs p = [] then (p, False)
      else
        let n = (if lenbytes (last (wp_subs p)) = 0 then 8 else lenbytes (last (wp_subs p)))
        in if maxmaxsize n < maxsize \<or> maxsize < wp_written p then (p, False)
           else (p\<lparr>wp_maxsize := maxsize\<rparr>, True))"

definition WPACKET_memset :: "wpacket \<Rightarrow> u8 \<Rightarrow> u64 \<Rightarrow> wres" where
  "WPACKET_memset p ch len =
     (if len = 0 then Inr (p, True)
      else
        case WPACKET_allocate_bytes p len of
          (p, None) \<Rightarrow> Inr (p, False)
        | (p, Some None) \<Rightarrow> Inr (p, True)
        | (p, Some (Some i)) \<Rightarrow> res_bind (wp_store p i (replicate (unat len) ch)) (\<lambda>p. Inr (p, True)))"

text \<open>The source is given by the bytes it points to: fewer than \<^verbatim>\<open>len\<close> of them is a fault.\<close>

definition WPACKET_memcpy :: "wpacket \<Rightarrow> bytes \<Rightarrow> u64 \<Rightarrow> wres" where
  "WPACKET_memcpy p src len =
     (if len = 0 then Inr (p, True)
      else
        case WPACKET_allocate_bytes p len of
          (p, None) \<Rightarrow> Inr (p, False)
        | (p, Some None) \<Rightarrow> Inr (p, True)
        | (p, Some (Some i)) \<Rightarrow>
            if length src < unat len then Inl OutOfBounds
            else res_bind (wp_store p i (take (unat len) src)) (\<lambda>p. Inr (p, True)))"

definition WPACKET_sub_memcpy :: "wpacket \<Rightarrow> bytes \<Rightarrow> u64 \<Rightarrow> u64 \<Rightarrow> wres" where
  "WPACKET_sub_memcpy p src len n =
     wp_then (Inr (WPACKET_start_sub_packet_len p n)) (\<lambda>p.
       wp_then (WPACKET_memcpy p src len) WPACKET_close)"

definition WPACKET_get_total_written :: "wpacket \<Rightarrow> u64" where
  "WPACKET_get_total_written p = wp_written p"

definition WPACKET_get_length :: "wpacket \<Rightarrow> u64 option" where
  "WPACKET_get_length p =
     (case wp_subs p of [] \<Rightarrow> None | sub # _ \<Rightarrow> Some (wp_written p - pwritten sub))"

definition WPACKET_is_null_buf :: "wpacket \<Rightarrow> bool" where
  "WPACKET_is_null_buf p \<longleftrightarrow> wp_buf p = None \<and> staticbuf p = None"

definition WPACKET_cleanup :: "wpacket \<Rightarrow> wpacket" where
  "WPACKET_cleanup p = p\<lparr>wp_subs := []\<rparr>"

definition WPACKET_start_quic_sub_packet_bound :: "wpacket \<Rightarrow> u64 \<Rightarrow> wpacket \<times> bool" where
  "WPACKET_start_quic_sub_packet_bound p max_len =
     (let enclen = ossl_quic_vlint_encode_len max_len in
      if enclen = 0 then (p, False)
      else
        let (p, ok) = WPACKET_start_sub_packet_len p (of_nat enclen) in
        if \<not> ok then (p, False)
        else
          case wp_subs p of
            [] \<Rightarrow> (p, True)
          | sub # parents \<Rightarrow> (p\<lparr>wp_subs := sub\<lparr>sub_flags := sub_flags sub OR WPACKET_FLAGS_QUIC_VLINT\<rparr> # parents\<rparr>, True))"

definition WPACKET_start_quic_sub_packet :: "wpacket \<Rightarrow> wpacket \<times> bool" where
  "WPACKET_start_quic_sub_packet p = WPACKET_start_quic_sub_packet_bound p OSSL_QUIC_VLINT_4B_MIN"

definition WPACKET_quic_sub_allocate_bytes :: "wpacket \<Rightarrow> u64 \<Rightarrow> c_fault + wpacket \<times> u64 option option" where
  "WPACKET_quic_sub_allocate_bytes p len =
     (let (p, ok) = WPACKET_start_quic_sub_packet_bound p len in
      if \<not> ok then Inr (p, None)
      else
        case WPACKET_allocate_bytes p len of
          (p, None) \<Rightarrow> Inr (p, None)
        | (p, Some ptr) \<Rightarrow> res_bind (WPACKET_close p) (\<lambda>(p, ok). Inr (p, if ok then Some ptr else None)))"

definition WPACKET_quic_write_vlint :: "wpacket \<Rightarrow> u64 \<Rightarrow> wres" where
  "WPACKET_quic_write_vlint p v =
     (let enclen = ossl_quic_vlint_encode_len v in
      if enclen = 0 then Inr (p, False)
      else
        case WPACKET_allocate_bytes p (of_nat enclen) of
          (p, None) \<Rightarrow> Inr (p, False)
        | (p, Some None) \<Rightarrow> Inl NullDeref
        | (p, Some (Some i)) \<Rightarrow> res_bind (wp_store p i (ossl_quic_vlint_encode v)) (\<lambda>p. Inr (p, True)))"

section \<open>Forward packets\<close>

text \<open>
  A packet written forwards to a caller's buffer, or to a growing one whose size limit stays clear of the
  limit on expansion. \<open>wp_bytes\<close> is what was written, \<open>wp_room\<close> how much more may be.
\<close>

definition wp_ok :: "wpacket \<Rightarrow> bool" where
  "wp_ok p \<longleftrightarrow> \<not> endfirst p \<and> wp_subs p \<noteq> [] \<and> wp_curr p = wp_written p \<and> wp_written p \<le> wp_maxsize p
     \<and> (case staticbuf p of
          Some b \<Rightarrow> wp_buf p = None \<and> unat (wp_maxsize p) \<le> length b
        | None \<Rightarrow>
            (case wp_buf p of
               None \<Rightarrow> False
             | Some str \<Rightarrow> wp_mem p \<and> bm_max str \<noteq> 0 \<and> length (bm_data str) < 2 ^ 64 \<and> unat (wp_written p) \<le> length (bm_data str)
                 \<and> unat (wp_maxsize p) \<le> 2 ^ 28))"

definition wp_bytes :: "wpacket \<Rightarrow> bytes" where
  "wp_bytes p = (case GETBUF p of None \<Rightarrow> [] | Some b \<Rightarrow> take (unat (wp_written p)) b)"

definition wp_room :: "wpacket \<Rightarrow> nat" where
  "wp_room p = unat (wp_maxsize p) - unat (wp_written p)"

definition wp_meta :: "wpacket \<Rightarrow> wpacket_sub list \<times> u64 \<times> bool" where
  "wp_meta p = (wp_subs p, wp_maxsize p, wp_mem p)"

lemma grow_spec:
  assumes "length (bm_data str) < unat n" and "n \<le> LIMIT_BEFORE_EXPANSION"
  obtains str' where "BUF_MEM_grow True str n = (str', n)" "length (bm_data str') = unat n"
    "take (length (bm_data str)) (bm_data str') = bm_data str" "bm_max str' \<noteq> 0"
proof -
  have "unat n \<le> 0x5ffffffc"
    using assms(2) by (simp add: LIMIT_BEFORE_EXPANSION_def word_le_nat_alt)
  moreover from this have "unat (n + 3) = unat n + 3"
    by (subst unat_add_no_overflow) simp_all
  ultimately have "unat ((n + 3) div 3 * 4) = (unat n + 3) div 3 * 4"
    by (subst unat_mult_no_overflow) (simp_all add: unat_div)
  moreover have "0 < (unat n + 3) div 3 * 4"
    by simp
  ultimately have max: "(n + 3) div 3 * 4 \<noteq> 0"
    by (metis less_irrefl unat_0)
  have len: "unat (u64_len (bm_data str)) = length (bm_data str)"
    using less_trans [OF assms(1), of "2 ^ 64"] by (intro u64_len_nat) simp
  have lt: "u64_len (bm_data str) < n"
    using assms(1) len by (simp add: word_less_nat_alt)
  have diff: "unat (n - u64_len (bm_data str)) = unat n - length (bm_data str)"
    using lt len by (simp add: unat_sub_no_underflow order_less_imp_le)
  show ?thesis
    using lt assms max
    by (intro that [of "fst (BUF_MEM_grow True str n)"]) (auto simp: BUF_MEM_grow_def Let_def diff not_le)
qed

text \<open>Reserving room: it is there exactly when the size limit allows it, and nothing written is lost.\<close>

lemma reserve_spec:
  assumes ok: "wp_ok p" and len: "len \<noteq> 0"
  obtains "wp_room p < unat len" "WPACKET_reserve_bytes p len = (p, None)"
  | p' b where "unat len \<le> wp_room p" "WPACKET_reserve_bytes p len = (p', Some (Some (wp_written p)))"
    "wp_ok p'" "wp_bytes p' = wp_bytes p" "wp_meta p' = wp_meta p" "wp_written p' = wp_written p"
    "GETBUF p' = Some b" "unat (wp_written p) + unat len \<le> length b"
proof -
  have base: "\<not> endfirst p" "wp_subs p \<noteq> []" "wp_curr p = wp_written p" "wp_written p \<le> wp_maxsize p"
    using ok by (auto simp: wp_ok_def)
  have room: "unat (wp_maxsize p - wp_written p) = wp_room p"
    using base(4) by (simp add: wp_room_def unat_sub_no_underflow)
  show ?thesis
  proof (cases "wp_room p < unat len")
    case True
    then show ?thesis
      using that(1) room base(2) by (simp add: WPACKET_reserve_bytes_def word_less_nat_alt)
  next
    case False
    then have fits: "\<not> wp_maxsize p - wp_written p < len" "unat (wp_written p) + unat len \<le> unat (wp_maxsize p)"
      using room base(4) by (auto simp: word_less_nat_alt wp_room_def word_le_nat_alt)
    show ?thesis
    proof (cases "staticbuf p")
      case (Some b)
      then have "wp_buf p = None" "unat (wp_maxsize p) \<le> length b"
        using ok by (auto simp: wp_ok_def)
      then show ?thesis
        using that(2) [of p b] False fits ok base len Some
        by (simp add: WPACKET_reserve_bytes_def WPACKET_get_curr_def GETBUF_def)
    next
      case None
      then obtain str where str: "wp_buf p = Some str" "wp_mem p" "length (bm_data str) < 2 ^ 64"
        "unat (wp_written p) \<le> length (bm_data str)" "unat (wp_maxsize p) \<le> 2 ^ 28" "bm_max str \<noteq> 0"
        using ok by (auto simp: wp_ok_def split: option.splits)
      have dl: "unat (u64_len (bm_data str)) = length (bm_data str)"
        using str(3) by (rule u64_len_nat)
      have avail: "unat (u64_len (bm_data str) - wp_written p) = length (bm_data str) - unat (wp_written p)"
        using str(4) dl by (simp add: unat_sub_no_underflow word_le_nat_alt)
      show ?thesis
      proof (cases "u64_len (bm_data str) - wp_written p < len")
        case enough: False
        then have "unat (wp_written p) + unat len \<le> length (bm_data str)"
          using avail str(4) by (simp add: word_less_nat_alt)
        then show ?thesis
          using that(2) [of p "bm_data str"] False fits ok base len None str enough
          by (simp add: WPACKET_reserve_bytes_def WPACKET_get_curr_def GETBUF_def)
      next
        case grow: True
        then have small: "length (bm_data str) < 2 ^ 28" "unat len \<le> 2 ^ 28"
          using avail fits(2) str(5) by (auto simp: word_less_nat_alt)
        define reflen where "reflen = (if len > u64_len (bm_data str) then len else u64_len (bm_data str))"
        have rl: "unat reflen = max (unat len) (length (bm_data str))"
          using dl by (auto simp: reflen_def word_less_nat_alt)
        then have rl2: "unat (reflen * 2) = 2 * unat reflen"
          using small by (subst unat_mult_no_overflow) auto
        define newlen where "newlen = (if reflen * 2 < DEFAULT_BUF_SIZE then DEFAULT_BUF_SIZE else reflen * 2)"
        have nl: "unat newlen = max 256 (2 * unat reflen)"
          using rl2 by (auto simp: newlen_def DEFAULT_BUF_SIZE_def word_less_nat_alt)
        have big: "\<not> reflen > SIZE_MAX div 2"
          using rl small by (simp add: word_less_nat_alt unat_div)
        have bounds: "length (bm_data str) < unat newlen" "newlen \<le> LIMIT_BEFORE_EXPANSION" "newlen \<noteq> 0"
          using nl rl small by (auto simp: LIMIT_BEFORE_EXPANSION_def word_le_nat_alt)
        obtain str' where str': "BUF_MEM_grow True str newlen = (str', newlen)" "length (bm_data str') = unat newlen"
          "take (length (bm_data str)) (bm_data str') = bm_data str" "bm_max str' \<noteq> 0"
          by (rule grow_spec [OF bounds(1,2)])
        have room': "unat (wp_written p) + unat len \<le> length (bm_data str')"
          using str'(2) nl rl str(4) by linarith
        have same: "take (unat (wp_written p)) (bm_data str') = take (unat (wp_written p)) (bm_data str)"
          using str'(3) str(4) by (metis min.absorb1 take_take)
        have "WPACKET_reserve_bytes p len = (p\<lparr>wp_buf := Some str'\<rparr>, Some (Some (wp_written p)))"
          using fits(1) base len None str grow big str'(1,4) bounds(3)
          by (simp add: WPACKET_reserve_bytes_def WPACKET_get_curr_def GETBUF_def Let_def reflen_def [symmetric]
              newlen_def [symmetric])
        then show ?thesis
          using that(2) [of "p\<lparr>wp_buf := Some str'\<rparr>" "bm_data str'"] False ok None str room' str'(2,4) same
          by (simp add: wp_ok_def wp_bytes_def wp_meta_def GETBUF_def)
      qed
    qed
  qed
qed

lemma wp_ok_GETBUF:
  "wp_ok p \<longleftrightarrow> \<not> endfirst p \<and> wp_subs p \<noteq> [] \<and> wp_curr p = wp_written p \<and> wp_written p \<le> wp_maxsize p
    \<and> (\<exists>b. GETBUF p = Some b \<and> unat (wp_written p) \<le> length b
        \<and> (if staticbuf p = None then wp_mem p \<and> length b < 2 ^ 64 \<and> unat (wp_maxsize p) \<le> 2 ^ 28
           else wp_buf p = None \<and> unat (wp_maxsize p) \<le> length b))"
  by (auto simp: wp_ok_def GETBUF_def word_le_nat_alt split: option.splits)

lemma wp_bytes_length: "wp_ok p \<Longrightarrow> length (wp_bytes p) = unat (wp_written p)"
  unfolding wp_ok_GETBUF by (auto simp: wp_bytes_def)

text \<open>Allocating: the new bytes are there, with unknown values, after those already written.\<close>

lemma alloc_spec:
  assumes ok: "wp_ok p" and len: "len \<noteq> 0"
  obtains "wp_room p < unat len" "WPACKET_allocate_bytes p len = (p, None)"
  | p1 where "unat len \<le> wp_room p" "WPACKET_allocate_bytes p len = (p1, Some (Some (wp_written p)))"
    "wp_ok p1" "wp_meta p1 = wp_meta p" "unat (wp_written p1) = unat (wp_written p) + unat len"
    "take (unat (wp_written p)) (wp_bytes p1) = wp_bytes p" "GETBUF p1 \<noteq> None"
proof (cases rule: reserve_spec [OF ok len])
  case 1
  then show ?thesis
    using that(1) by (simp add: WPACKET_allocate_bytes_def)
next
  case fits: (2 p' b)
  define p1 where "p1 = p'\<lparr>wp_written := wp_written p' + len, wp_curr := wp_curr p' + len\<rparr>"
  have alloc: "WPACKET_allocate_bytes p len = (p1, Some (Some (wp_written p)))"
    using fits(2) by (simp add: WPACKET_allocate_bytes_def p1_def)
  have le: "unat (wp_written p) + unat len \<le> unat (wp_maxsize p)"
    using fits(1) ok by (auto simp: wp_ok_def wp_room_def word_le_nat_alt)
  have w: "unat (wp_written p1) = unat (wp_written p) + unat len"
    using unat_add_le [OF le] fits(6) by (simp add: p1_def)
  have buf: "GETBUF p1 = Some b"
    using fits(7) by (auto simp: p1_def GETBUF_def split: option.splits)
  have same: "wp_subs p1 = wp_subs p" "wp_maxsize p1 = wp_maxsize p" "wp_mem p1 = wp_mem p"
    using fits(5) by (simp_all add: wp_meta_def p1_def)
  have ok1: "wp_ok p1"
    using fits(3,7,8) w buf le same unfolding wp_ok_GETBUF by (auto simp: p1_def word_le_nat_alt split: if_splits)
  have "take (unat (wp_written p)) (wp_bytes p1) = wp_bytes p"
    using fits(4,6,7) buf w by (simp add: wp_bytes_def min_def)
  with that(2) [of p1] fits(1) alloc ok1 same w buf show ?thesis
    by (simp add: wp_meta_def)
qed

text \<open>Storing through a pointer to bytes already written overwrites just those.\<close>

lemma store_spec:
  assumes ok: "wp_ok p" and i: "unat i + length bs \<le> unat (wp_written p)"
  obtains p' where "wp_store p i bs = Inr p'" "wp_ok p'" "wp_meta p' = wp_meta p" "wp_written p' = wp_written p"
    "wp_bytes p' = take (unat i) (wp_bytes p) @ bs @ drop (unat i + length bs) (wp_bytes p)"
proof -
  obtain b where b: "GETBUF p = Some b" "unat (wp_written p) \<le> length b"
    using ok unfolding wp_ok_GETBUF by blast
  let ?b = "take (unat i) b @ bs @ drop (unat i + length bs) b"
  have len: "length ?b = length b"
    using i b(2) by simp
  have take: "take (unat (wp_written p)) ?b = take (unat i) (wp_bytes p) @ bs @ drop (unat i + length bs) (wp_bytes p)"
    using i b by (cases "unat i = unat (wp_written p)") (auto simp: wp_bytes_def min_def drop_take)
  show ?thesis
  proof (cases "staticbuf p")
    case (Some b')
    with b have "b' = b"
      by (simp add: GETBUF_def)
    with Some i b len take ok show ?thesis
      by (intro that [of "p\<lparr>staticbuf := Some ?b\<rparr>"])
        (auto simp: wp_store_def memcpy_at_def wp_ok_def wp_meta_def wp_bytes_def [of "p\<lparr>staticbuf := Some ?b\<rparr>"] GETBUF_def)
  next
    case None
    with b obtain str where str: "wp_buf p = Some str" "bm_data str = b" "bm_max str \<noteq> 0"
      by (auto simp: GETBUF_def split: option.splits if_splits)
    with None i b len take ok show ?thesis
      by (intro that [of "p\<lparr>wp_buf := Some (str\<lparr>bm_data := ?b\<rparr>)\<rparr>"])
        (auto simp: wp_store_def memcpy_at_def wp_ok_def wp_meta_def
          wp_bytes_def [of "p\<lparr>wp_buf := Some (str\<lparr>bm_data := ?b\<rparr>)\<rparr>"] GETBUF_def)
  qed
qed

lemma append_spec:
  assumes ok: "wp_ok p" and bs: "bs \<noteq> []" "length bs < 2 ^ 64"
  obtains "wp_room p < length bs" "WPACKET_allocate_bytes p (of_nat (length bs)) = (p, None)"
  | p1 p2 where "length bs \<le> wp_room p"
    "WPACKET_allocate_bytes p (of_nat (length bs)) = (p1, Some (Some (wp_written p)))"
    "wp_store p1 (wp_written p) bs = Inr p2" "wp_ok p2" "wp_bytes p2 = wp_bytes p @ bs" "wp_meta p2 = wp_meta p"
    "GETBUF p1 \<noteq> None"
proof -
  have len: "unat (of_nat (length bs) :: u64) = length bs"
    using bs(2) by (simp add: unat_of_nat)
  then have nz: "of_nat (length bs) \<noteq> (0 :: u64)"
    using bs(1) by auto
  show ?thesis
  proof (cases rule: alloc_spec [OF ok nz])
    case 1
    then show ?thesis
      using that(1) len by simp
  next
    case fits: (2 p1)
    then have i: "unat (wp_written p) + length bs \<le> unat (wp_written p1)"
      using len by simp
    show ?thesis
    proof (rule store_spec [OF fits(3) i])
      fix p2 assume p2: "wp_store p1 (wp_written p) bs = Inr p2" "wp_ok p2" "wp_meta p2 = wp_meta p1"
        "wp_bytes p2 = take (unat (wp_written p)) (wp_bytes p1) @ bs @ drop (unat (wp_written p) + length bs) (wp_bytes p1)"
      with fits len wp_bytes_length [OF fits(3)] show ?thesis
        by (intro that(2) [of p1 p2]) simp_all
    qed
  qed
qed

section \<open>The interface to the packet formats\<close>

text \<open>
  What a writer of a format needs to know of the packet it writes to: it has some content, room for some
  more, and the two make up a capacity that writing does not change. A format is a byte string, or \<^term>\<open>None\<close>
  when the value has no encoding. An operation \<open>writes\<close> a format when it never faults, succeeds exactly
  when the format exists and fits, and then appends just that; when it fails, what was written before is
  still there.
\<close>

fun fmt_fits :: "nat \<Rightarrow> bytes option \<Rightarrow> bool" where
  "fmt_fits n None = False"
| "fmt_fits n (Some bs) = (length bs \<le> n)"

fun fmt_seq :: "bytes option \<Rightarrow> bytes option \<Rightarrow> bytes option" where
  "fmt_seq (Some a) (Some b) = Some (a @ b)"
| "fmt_seq _ _ = None"

definition vlint_fmt :: "u64 \<Rightarrow> bytes option" where
  "vlint_fmt v = (if v \<le> OSSL_QUIC_VLINT_MAX then Some (ossl_quic_vlint_encode v) else None)"

definition fixed_fmt :: "nat \<Rightarrow> u64 \<Rightarrow> bytes option" where
  "fixed_fmt n v = (if 0 < n \<and> n \<le> 8 \<and> unat v < 2 ^ (8 * n) then Some (be_bytes n v) else None)"

lemma fmt_fits_seq: "fmt_fits n (fmt_seq a b) \<longleftrightarrow> (\<exists>x. a = Some x \<and> length x \<le> n \<and> fmt_fits (n - length x) b)"
  by (cases a; cases b) auto

lemma fmt_fits_Some: "fmt_fits n a \<longleftrightarrow> (\<exists>x. a = Some x \<and> length x \<le> n)"
  by (cases a) auto

lemma fmt_seq_Some [simp]: "fmt_seq a b = Some z \<longleftrightarrow> (\<exists>x y. a = Some x \<and> b = Some y \<and> z = x @ y)"
  by (cases a; cases b) auto

locale sink_state =
  fixes ok :: "'s \<Rightarrow> bool" and content :: "'s \<Rightarrow> bytes" and room :: "'s \<Rightarrow> nat" and meta :: "'s \<Rightarrow> 'm"
    and cap :: "'m \<Rightarrow> nat"
  assumes capacity: "ok s \<Longrightarrow> length (content s) + room s = cap (meta s)"
begin

definition writes :: "('s \<Rightarrow> c_fault + 's \<times> bool) \<Rightarrow> bytes option \<Rightarrow> bool" where
  "writes f fmt \<longleftrightarrow> (\<forall>s. ok s \<longrightarrow>
     (\<exists>s' b. f s = Inr (s', b) \<and> ok s' \<and> meta s' = meta s \<and> b = fmt_fits (room s) fmt
       \<and> (if b then content s' = content s @ the fmt else prefix (content s) (content s'))))"

lemma writesI:
  assumes "\<And>s. ok s \<Longrightarrow> fmt_fits (room s) fmt \<Longrightarrow>
      \<exists>s'. f s = Inr (s', True) \<and> ok s' \<and> meta s' = meta s \<and> content s' = content s @ the fmt"
    and "\<And>s. ok s \<Longrightarrow> \<not> fmt_fits (room s) fmt \<Longrightarrow>
      \<exists>s'. f s = Inr (s', False) \<and> ok s' \<and> meta s' = meta s \<and> prefix (content s) (content s')"
  shows "writes f fmt"
  unfolding writes_def
proof (intro allI impI, goal_cases)
  case (1 s)
  with assms [of s] show ?case
    by (cases "fmt_fits (room s) fmt") auto
qed

lemma writes_fits:
  assumes "writes f fmt" and "ok s" and "fmt_fits (room s) fmt"
  obtains s' where "f s = Inr (s', True)" "ok s'" "meta s' = meta s" "content s' = content s @ the fmt"
    "room s' = room s - length (the fmt)"
proof -
  from assms obtain s' where s': "f s = Inr (s', True)" "ok s'" "meta s' = meta s" "content s' = content s @ the fmt"
    unfolding writes_def by auto
  with capacity [OF assms(2)] capacity [OF s'(2)] show ?thesis
    by (intro that [OF s']) simp
qed

lemma writes_full:
  assumes "writes f fmt" and "ok s" and "\<not> fmt_fits (room s) fmt"
  obtains s' where "f s = Inr (s', False)" "ok s'" "meta s' = meta s" "prefix (content s) (content s')"
  using assms unfolding writes_def by auto

lemma writes_skip: "writes (\<lambda>s. Inr (s, True)) (Some [])"
  by (rule writesI) auto

lemma writes_fail: "writes (\<lambda>s. Inr (s, False)) None"
  by (rule writesI) auto

lemma writes_if: "(c \<Longrightarrow> writes f a) \<Longrightarrow> (\<not> c \<Longrightarrow> writes g b) \<Longrightarrow> writes (\<lambda>s. if c then f s else g s) (if c then a else b)"
  by (cases c) auto

lemma writes_then:
  assumes f: "writes f a" and g: "writes g b"
  shows "writes (\<lambda>s. wp_then (f s) g) (fmt_seq a b)"
proof (rule writesI)
  fix s assume s: "ok s" "fmt_fits (room s) (fmt_seq a b)"
  then have fa: "fmt_fits (room s) a" and fb: "fmt_fits (room s - length (the a)) b"
    by (auto simp: fmt_fits_seq)
  show "\<exists>s'. wp_then (f s) g = Inr (s', True) \<and> ok s' \<and> meta s' = meta s \<and> content s' = content s @ the (fmt_seq a b)"
  proof (rule writes_fits [OF f s(1) fa])
    fix s' assume s': "f s = Inr (s', True)" "ok s'" "meta s' = meta s" "content s' = content s @ the a"
      "room s' = room s - length (the a)"
    then have "fmt_fits (room s') b"
      using fb by simp
    then show ?thesis
      by (rule writes_fits [OF g s'(2)]) (use s' fa fb in \<open>auto simp: wp_then_def fmt_fits_Some\<close>)
  qed
next
  fix s assume s: "ok s" "\<not> fmt_fits (room s) (fmt_seq a b)"
  show "\<exists>s'. wp_then (f s) g = Inr (s', False) \<and> ok s' \<and> meta s' = meta s \<and> prefix (content s) (content s')"
  proof (cases "fmt_fits (room s) a")
    case False
    show ?thesis
      by (rule writes_full [OF f s(1) False]) (simp add: wp_then_def)
  next
    case True
    show ?thesis
    proof (rule writes_fits [OF f s(1) True])
      fix s' assume s': "f s = Inr (s', True)" "ok s'" "meta s' = meta s" "content s' = content s @ the a"
        "room s' = room s - length (the a)"
      then have "\<not> fmt_fits (room s') b"
        using s(2) True by (auto simp: fmt_fits_seq fmt_fits_Some)
      then show ?thesis
        by (rule writes_full [OF g s'(2)]) (use s' in \<open>auto simp: wp_then_def prefix_def\<close>)
    qed
  qed
qed

end

locale byte_sink = sink_state ok content room meta cap
  for ok :: "'s \<Rightarrow> bool" and content :: "'s \<Rightarrow> bytes" and room :: "'s \<Rightarrow> nat" and meta :: "'s \<Rightarrow> 'm"
    and cap :: "'m \<Rightarrow> nat" +
  fixes vlint :: "'s \<Rightarrow> u64 \<Rightarrow> c_fault + 's \<times> bool" and put :: "'s \<Rightarrow> u64 \<Rightarrow> u64 \<Rightarrow> c_fault + 's \<times> bool"
    and copy :: "'s \<Rightarrow> bytes \<Rightarrow> u64 \<Rightarrow> c_fault + 's \<times> bool" and fill :: "'s \<Rightarrow> u8 \<Rightarrow> u64 \<Rightarrow> c_fault + 's \<times> bool"
  assumes vlint_writes: "writes (\<lambda>s. vlint s v) (vlint_fmt v)"
    and put_writes: "writes (\<lambda>s. put s v n) (fixed_fmt (unat n) v)"
    and copy_writes: "unat n \<le> length src \<Longrightarrow> writes (\<lambda>s. copy s src n) (Some (take (unat n) src))"
    and fill_writes: "writes (\<lambda>s. fill s c n) (Some (replicate (unat n) c))"
begin

lemmas field_writes = vlint_writes put_writes copy_writes fill_writes writes_then

end

section \<open>Writable packets implement it\<close>

lemma wp_capacity: "wp_ok p \<Longrightarrow> length (wp_bytes p) + wp_room p = (\<lambda>(subs, mx, mem). unat mx) (wp_meta p)"
  using wp_bytes_length [of p] by (simp add: wp_room_def wp_meta_def wp_ok_def word_le_nat_alt)

interpretation wps: sink_state wp_ok wp_bytes wp_room wp_meta "\<lambda>(subs, mx, mem). unat mx"
  by unfold_locales (rule wp_capacity)

text \<open>The pattern of the primitive writers: get the room, then store the bytes through the pointer.\<close>

lemma store_writes:
  assumes bs: "bs \<noteq> []" "length bs < 2 ^ 64"
    and f: "\<And>p. f p = (case WPACKET_allocate_bytes p (of_nat (length bs)) of (p, None) \<Rightarrow> Inr (p, False) | (p, Some i) \<Rightarrow> g p i)"
    and g: "\<And>p i. GETBUF p \<noteq> None \<Longrightarrow> g p (Some i) = res_bind (wp_store p i bs) (\<lambda>p. Inr (p, r))"
  shows "wps.writes f (if r then Some bs else None)"
proof (rule wps.writesI)
  fix p assume p: "wp_ok p" "fmt_fits (wp_room p) (if r then Some bs else None)"
  then have r: "r" "\<not> wp_room p < length bs"
    by (auto split: if_splits)
  show "\<exists>p'. f p = Inr (p', True) \<and> wp_ok p' \<and> wp_meta p' = wp_meta p
    \<and> wp_bytes p' = wp_bytes p @ the (if r then Some bs else None)"
    by (rule append_spec [OF p(1) bs]) (use r in \<open>auto simp: f g\<close>)
next
  fix p assume p: "wp_ok p" "\<not> fmt_fits (wp_room p) (if r then Some bs else None)"
  show "\<exists>p'. f p = Inr (p', False) \<and> wp_ok p' \<and> wp_meta p' = wp_meta p \<and> prefix (wp_bytes p) (wp_bytes p')"
    by (rule append_spec [OF p(1) bs]) (use p in \<open>auto simp: f g split: if_splits\<close>)
qed

lemma put_value_loop_bytes: "put_value_loop v n = (be_bytes n v, drop_bit (8 * n) v)"
proof (induction n arbitrary: v)
  case (Suc n)
  have low: "ucast (v AND 0xff) = byte_of v"
  proof -
    have ff: "(0xff :: u64) = mask 8"
      by (simp add: mask_eq_exp_minus_1)
    show ?thesis
      unfolding ff by (rule bit_word_eqI) (simp add: byte_of_def bit_simps)
  qed
  have "be_bytes (Suc n) v = be_bytes n (drop_bit 8 v) @ [byte_of v]"
  proof -
    have "drop_bit (8 * (n - i)) v = drop_bit (8 * (n - 1 - i)) (drop_bit 8 v)" if "i < n" for i
    proof -
      have "8 * (n - i) = 8 * (n - 1 - i) + 8"
        using that by simp
      then show ?thesis
        by (simp only: drop_bit_drop_bit)
    qed
    then show ?thesis
      by (simp add: be_bytes_def)
  qed
  then show ?case
    using Suc low by (simp add: drop_bit_drop_bit add.commute)
qed (simp add: be_bytes_def)

lemma vlint_writes: "wps.writes (\<lambda>p. WPACKET_quic_write_vlint p v) (vlint_fmt v)"
proof (cases "v \<le> OSSL_QUIC_VLINT_MAX")
  case True
  have len: "length (ossl_quic_vlint_encode v) = ossl_quic_vlint_encode_len v" "ossl_quic_vlint_encode_len v \<in> {1, 2, 4, 8}"
    using length_encode [OF True] vlint_fits_encode_len [OF True] by (auto simp: vlint_fits_def)
  have "wps.writes (\<lambda>p. WPACKET_quic_write_vlint p v) (if True then Some (ossl_quic_vlint_encode v) else None)"
    by (rule store_writes [where g = "\<lambda>p i. case i of None \<Rightarrow> Inl NullDeref
          | Some i \<Rightarrow> res_bind (wp_store p i (ossl_quic_vlint_encode v)) (\<lambda>p. Inr (p, True))"])
      (use len in \<open>auto simp: WPACKET_quic_write_vlint_def Let_def split: option.splits prod.splits\<close>)
  with True show ?thesis
    by (simp add: vlint_fmt_def)
next
  case False
  then have "ossl_quic_vlint_encode_len v = 0"
    by (auto simp: ossl_quic_vlint_encode_len_def OSSL_QUIC_VLINT_2B_MIN_def OSSL_QUIC_VLINT_4B_MIN_def
        OSSL_QUIC_VLINT_8B_MIN_def OSSL_QUIC_VLINT_MAX_def word_le_nat_alt word_less_nat_alt)
  with False show ?thesis
    using wps.writes_fail by (simp add: vlint_fmt_def WPACKET_quic_write_vlint_def)
qed

lemma put_bytes_writes: "wps.writes (\<lambda>p. WPACKET_put_bytes p v n) (fixed_fmt (unat n) v)"
proof (cases "0 < unat n \<and> unat n \<le> 8")
  case True
  then have n: "n \<le> 8" "of_nat (length (be_bytes (unat n) v)) = n"
    by (simp_all add: word_le_nat_alt)
  have fits: "\<not> drop_bit (8 * unat n) v > 0 \<longleftrightarrow> unat v < 2 ^ (8 * unat n)"
  proof -
    have "unat (drop_bit (8 * unat n) v) = unat v div 2 ^ (8 * unat n)"
      by (simp add: unat_drop_bit_eq drop_bit_eq_div [where 'a = nat])
    then show ?thesis
      by (simp add: word_gt_0 word_unat_eq_iff div_eq_0_iff)
  qed
  have "wps.writes (\<lambda>p. WPACKET_put_bytes p v n)
      (if \<not> drop_bit (8 * unat n) v > 0 then Some (be_bytes (unat n) v) else None)"
    by (rule store_writes) (use True n in \<open>auto simp: WPACKET_put_bytes_def put_value_def put_value_loop_bytes
        simp flip: length_0_conv split: option.splits prod.splits\<close>)
  with True show ?thesis
    unfolding fits by (simp add: fixed_fmt_def)
next
  case False
  then have "n = 0 \<or> \<not> n \<le> 8"
    by (auto simp: word_le_nat_alt unat_eq_zero)
  then have "WPACKET_put_bytes p v n = Inr (p, False)" for p
    by (auto simp: WPACKET_put_bytes_def WPACKET_allocate_bytes_def WPACKET_reserve_bytes_def)
  with False show ?thesis
    using wps.writes_fail by (auto simp: fixed_fmt_def)
qed

lemma memcpy_writes:
  assumes "unat n \<le> length src"
  shows "wps.writes (\<lambda>p. WPACKET_memcpy p src n) (Some (take (unat n) src))"
proof (cases "n = 0")
  case True
  then show ?thesis
    using wps.writes_skip by (simp add: WPACKET_memcpy_def)
next
  case False
  then have "0 < unat n"
    by (simp add: word_neq_0_conv word_less_nat_alt)
  then have "wps.writes (\<lambda>p. WPACKET_memcpy p src n) (if True then Some (take (unat n) src) else None)"
    by (intro store_writes) (use assms False in \<open>auto simp: WPACKET_memcpy_def split: option.splits prod.splits\<close>)
  then show ?thesis
    by simp
qed

lemma memset_writes: "wps.writes (\<lambda>p. WPACKET_memset p c n) (Some (replicate (unat n) c))"
proof (cases "n = 0")
  case True
  then show ?thesis
    using wps.writes_skip by (simp add: WPACKET_memset_def)
next
  case False
  then have "0 < unat n"
    by (simp add: word_neq_0_conv word_less_nat_alt)
  then have "wps.writes (\<lambda>p. WPACKET_memset p c n) (if True then Some (replicate (unat n) c) else None)"
    by (intro store_writes) (use False in \<open>auto simp: WPACKET_memset_def split: option.splits prod.splits\<close>)
  then show ?thesis
    by simp
qed

interpretation wps: byte_sink wp_ok wp_bytes wp_room wp_meta "\<lambda>(subs, mx, mem). unat mx"
  WPACKET_quic_write_vlint WPACKET_put_bytes WPACKET_memcpy WPACKET_memset
  by unfold_locales (simp_all add: vlint_writes put_bytes_writes memcpy_writes memset_writes)

section \<open>Sub-packets\<close>

lemma wp_ok_subs:
  "wp_ok p \<Longrightarrow> wp_ok (p\<lparr>wp_subs := s # ss\<rparr>)"
  "wp_bytes (p\<lparr>wp_subs := ss\<rparr>) = wp_bytes p" "wp_room (p\<lparr>wp_subs := ss\<rparr>) = wp_room p"
  by (auto simp: wp_ok_def wp_bytes_def wp_room_def GETBUF_def split: option.splits)

lemma start_sub_spec:
  assumes ok: "wp_ok p" "wp_mem p" and n: "n \<noteq> 0" "unat n \<le> wp_room p"
  obtains p1 where "WPACKET_start_sub_packet_len p n = (p1, True)" "wp_ok p1"
    "take (unat (wp_written p)) (wp_bytes p1) = wp_bytes p" "length (wp_bytes p1) = unat (wp_written p) + unat n"
    "wp_meta p1 = (\<lparr>packet_len = wp_written p, lenbytes = n, pwritten = wp_written p + n, sub_flags = 0\<rparr> # wp_subs p,
      wp_maxsize p, wp_mem p)"
proof -
  let ?p = "p\<lparr>wp_subs := \<lparr>packet_len = wp_written p, lenbytes = n, pwritten = wp_written p + n, sub_flags = 0\<rparr> # wp_subs p\<rparr>"
  have ok': "wp_ok ?p"
    using ok(1) by (rule wp_ok_subs)
  show ?thesis
  proof (cases rule: alloc_spec [OF ok' n(1)])
    case 1
    with n(2) show ?thesis
      by (simp add: wp_ok_subs)
  next
    case fits: (2 p1)
    then show ?thesis
      using ok n(1) wp_bytes_length [OF fits(3)]
      by (intro that [of p1]) (auto simp: WPACKET_start_sub_packet_len_def wp_ok_def wp_ok_subs wp_meta_def)
  qed
qed

text \<open>Closing writes the number of bytes since the sub-packet was opened into the place kept for it.\<close>

lemma close_spec:
  assumes ok: "wp_ok p" and subs: "wp_subs p = sub # parents" "parents \<noteq> []" "sub_flags sub = 0" "lenbytes sub \<noteq> 0"
    and at: "unat (packet_len sub) + unat (lenbytes sub) = unat (pwritten sub)" "pwritten sub \<le> wp_written p"
    and len: "unat (wp_written p) - unat (pwritten sub) < 2 ^ (8 * unat (lenbytes sub))" "unat (lenbytes sub) \<le> 8"
  obtains p' where "WPACKET_close p = Inr (p', True)" "wp_ok p'" "wp_subs p' = parents" "wp_maxsize p' = wp_maxsize p"
    "wp_bytes p' = take (unat (packet_len sub)) (wp_bytes p)
       @ be_bytes (unat (lenbytes sub)) (wp_written p - pwritten sub) @ drop (unat (pwritten sub)) (wp_bytes p)"
proof -
  let ?bs = "be_bytes (unat (lenbytes sub)) (wp_written p - pwritten sub)"
  have buf: "GETBUF p \<noteq> None"
    using ok unfolding wp_ok_GETBUF by auto
  have room: "unat (packet_len sub) + length ?bs \<le> unat (wp_written p)"
    using at by (simp add: word_le_nat_alt)
  have "unat (wp_written p - pwritten sub) < 2 ^ (8 * unat (lenbytes sub))"
    using len(1) at(2) by (simp add: unat_sub_no_underflow)
  then have fits: "drop_bit (8 * unat (lenbytes sub)) (wp_written p - pwritten sub) = 0"
    by (simp add: word_unat_eq_iff unat_drop_bit_eq drop_bit_eq_div [where 'a = nat])
  obtain parent ps where ps: "parents = parent # ps"
    using subs(2) by (cases parents) auto
  show ?thesis
  proof (rule store_spec [OF ok room])
    fix p2 assume p2: "wp_store p (packet_len sub) ?bs = Inr p2" "wp_ok p2" "wp_meta p2 = wp_meta p"
      "wp_bytes p2 = take (unat (packet_len sub)) (wp_bytes p) @ ?bs @ drop (unat (packet_len sub) + length ?bs) (wp_bytes p)"
    have "WPACKET_close p = Inr (p2\<lparr>wp_subs := parents\<rparr>, True)"
      using subs buf p2(1) fits
      by (simp add: ps WPACKET_close_def wpacket_intern_close_def Let_def wp_then_def put_value_def put_value_loop_bytes
          word_gt_0)
    then show ?thesis
      using p2 at(1) ps by (intro that [of "p2\<lparr>wp_subs := parents\<rparr>"]) (simp_all add: wp_ok_subs wp_meta_def)
  qed
qed

text \<open>Whatever writes the body, the sub-packet comes out as the body's length followed by the body.\<close>

lemma sub_packet_writes:
  assumes ok: "wp_ok p" "wp_mem p" and n: "n \<noteq> 0" "unat n \<le> 8"
    and body: "wps.writes f (Some bs)" and len: "length bs < 2 ^ (8 * unat n)" and room: "unat n + length bs \<le> wp_room p"
  shows "\<exists>p'. wp_then (Inr (WPACKET_start_sub_packet_len p n)) (\<lambda>p. wp_then (f p) WPACKET_close) = Inr (p', True)
    \<and> wp_ok p' \<and> wp_subs p' = wp_subs p \<and> wp_bytes p' = wp_bytes p @ be_bytes (unat n) (of_nat (length bs)) @ bs"
proof (rule start_sub_spec [OF ok n(1)])
  show "unat n \<le> wp_room p"
    using room by simp
  fix p1 assume p1: "WPACKET_start_sub_packet_len p n = (p1, True)" "wp_ok p1"
    "take (unat (wp_written p)) (wp_bytes p1) = wp_bytes p" "length (wp_bytes p1) = unat (wp_written p) + unat n"
    "wp_meta p1 = (\<lparr>packet_len = wp_written p, lenbytes = n, pwritten = wp_written p + n, sub_flags = 0\<rparr> # wp_subs p,
      wp_maxsize p, wp_mem p)"
  have "fmt_fits (wp_room p1) (Some bs)"
    using room p1(4,5) wp_bytes_length [OF p1(2)] by (simp add: wp_room_def wp_meta_def)
  then show ?thesis
  proof (rule wps.writes_fits [OF body p1(2)])
    fix p2 assume p2: "f p1 = Inr (p2, True)" "wp_ok p2" "wp_meta p2 = wp_meta p1" "wp_bytes p2 = wp_bytes p1 @ the (Some bs)"
    let ?sub = "\<lparr>packet_len = wp_written p, lenbytes = n, pwritten = wp_written p + n, sub_flags = 0\<rparr>"
    have w: "unat (wp_written p + n) = unat (wp_written p) + unat n"
      using room ok(1) by (intro unat_add_le [of _ _ "wp_maxsize p"]) (auto simp: wp_room_def wp_ok_def word_le_nat_alt)
    have w2: "unat (wp_written p2) = unat (wp_written p) + unat n + length bs"
      using wp_bytes_length [OF p2(2)] p2(4) p1(4) by simp
    have le: "wp_written p + n \<le> wp_written p2"
      using w w2 by (simp add: word_le_nat_alt)
    have diff: "wp_written p2 - (wp_written p + n) = of_nat (length bs)"
      using w w2 unat_sub_no_underflow [OF le] by (intro unat_eqD) simp
    show ?thesis
    proof (rule close_spec [of p2 ?sub "wp_subs p"])
      show "wp_subs p2 = ?sub # wp_subs p"
        using p2(3) p1(5) by (simp add: wp_meta_def)
      fix p3 assume "WPACKET_close p2 = Inr (p3, True)" "wp_ok p3" "wp_subs p3 = wp_subs p"
        "wp_bytes p3 = take (unat (packet_len ?sub)) (wp_bytes p2)
          @ be_bytes (unat (lenbytes ?sub)) (wp_written p2 - pwritten ?sub) @ drop (unat (pwritten ?sub)) (wp_bytes p2)"
      then show ?thesis
        using p1 p2 w diff by (auto simp: wp_then_def wp_ok_def)
    qed (use n len w w2 le p2(2) ok in \<open>simp_all add: wp_ok_def\<close>)
  qed
qed

section \<open>Properties\<close>

lemma init_static_spec:
  assumes "0 < len" and "unat len \<le> length buf"
  shows "\<exists>p. WPACKET_init_static_len True (Some buf) len 0 = (p, True) \<and> wp_ok p \<and> wp_bytes p = []
    \<and> wp_room p = unat len \<and> wp_mem p"
proof -
  have "(if SIZE_MAX < len then SIZE_MAX else len) = len"
    by simp
  then show ?thesis
    using assms
    by (simp add: WPACKET_init_static_len_def wpacket_intern_init_len_def maxmaxsize_def wp_fresh_def Let_def
        wp_ok_def wp_bytes_def wp_room_def GETBUF_def)
qed

text \<open>
  Property C26. A sub-packet with a length prefix of one, two or three bytes, copied into a packet that has room for
  it, is written behind what was there and closed again without a fault; the matching reader then gets exactly the
  bytes that were copied, and leaves what follows them.
\<close>

theorem wpacket_sub_packet_round_trip:
  assumes "wp_ok p" and "wp_mem p" and "n \<in> {1, 2, 3}" and "length src < 2 ^ (8 * n)" and "n + length src \<le> wp_room p"
  shows "\<exists>p' enc. WPACKET_sub_memcpy p src (u64_len src) (of_nat n) = Inr (p', True)
    \<and> wp_ok p' \<and> wp_subs p' = wp_subs p \<and> wp_bytes p' = wp_bytes p @ enc
    \<and> (if n = 1 then PACKET_get_length_prefixed_1 else if n = 2 then PACKET_get_length_prefixed_2
        else PACKET_get_length_prefixed_3) (enc @ rest) = Some (src, rest)"
proof -
  have n: "unat (of_nat n :: u64) = n" "of_nat n \<noteq> (0 :: u64)"
    using assms(3) by auto
  have "length src < 2 ^ 64"
    using assms(3,4) by auto
  then have len: "unat (u64_len src) = length src"
    by (rule u64_len_nat)
  have "wps.writes (\<lambda>p. WPACKET_memcpy p src (u64_len src)) (Some src)"
    using memcpy_writes [of "u64_len src" src] by (simp add: len)
  from sub_packet_writes [OF assms(1,2) n(2) _ this] assms(3,4,5) obtain p' where
    p': "WPACKET_sub_memcpy p src (u64_len src) (of_nat n) = Inr (p', True)" "wp_ok p'" "wp_subs p' = wp_subs p"
      "wp_bytes p' = wp_bytes p @ be_bytes n (of_nat (length src)) @ src"
    unfolding WPACKET_sub_memcpy_def n(1) by auto
  have "(if n = 1 then PACKET_get_length_prefixed_1 else if n = 2 then PACKET_get_length_prefixed_2
      else PACKET_get_length_prefixed_3) ((be_bytes n (of_nat (length src)) @ src) @ rest) = Some (src, rest)"
    using get_length_prefixed [OF len, of rest] assms(3,4) by (auto simp: u64_len_def)
  with p' show ?thesis
    by (intro exI [of _ p'] exI [of _ "be_bytes n (of_nat (length src)) @ src"]) simp
qed

definition wp_example :: wpacket where
  "wp_example = fst (WPACKET_init_static_len True (Some (replicate 32 0)) 32 0)"

lemma wp_example_ok: "wp_ok wp_example" "wp_bytes wp_example = []" "wp_room wp_example = 32" "wp_mem wp_example"
  using init_static_spec [of 32 "replicate 32 0"] by (auto simp: wp_example_def)

theorem wpacket_sub_packet_round_trip_witness:
  "\<exists>p' enc. WPACKET_sub_memcpy wp_example [7, 8, 9] 3 2 = Inr (p', True) \<and> wp_bytes p' = enc
    \<and> PACKET_get_length_prefixed_2 (enc @ [1]) = Some ([7, 8, 9], [1])"
  using wpacket_sub_packet_round_trip [of wp_example 2 "[7, 8, 9]" "[1]"] wp_example_ok by (auto simp: u64_len_def)

text \<open>
  On a packet with no buffer, which is only there to count bytes, every writer but one counts without
  storing: the writer of QUIC integers stores its bytes through the null pointer it was handed.
\<close>

theorem wpacket_null_quic_vlint_faults:
  assumes "v \<le> OSSL_QUIC_VLINT_MAX"
  shows "WPACKET_quic_write_vlint (fst (WPACKET_init_null True 0)) v = Inl NullDeref
    \<and> (\<exists>p. WPACKET_put_bytes (fst (WPACKET_init_null True 0)) v 8 = Inr (p, True) \<and> WPACKET_get_total_written p = 8)"
proof -
  have "ossl_quic_vlint_encode_len v \<in> {1, 2, 4, 8}"
    using vlint_fits_encode_len [OF assms] by (auto simp: vlint_fits_def)
  then show ?thesis
    by (auto simp: WPACKET_init_null_def wpacket_intern_init_len_def wp_fresh_def maxmaxsize_def WPACKET_quic_write_vlint_def
        WPACKET_allocate_bytes_def WPACKET_reserve_bytes_def WPACKET_get_curr_def GETBUF_def WPACKET_put_bytes_def
        put_value_def WPACKET_get_total_written_def SIZE_MAX_def)
qed

theorem wpacket_null_quic_vlint_faults_witness:
  "WPACKET_quic_write_vlint (fst (WPACKET_init_null True 0)) 5 = Inl NullDeref"
  using wpacket_null_quic_vlint_faults [of 5] by (simp add: OSSL_QUIC_VLINT_MAX_def push_bit_of_1)

end
