(* ===== verification/Quic_Wire.thy ===== *)
theory Quic_Wire
  imports Wpacket Ossl_Time "HOL-Library.Monad_Syntax"
begin

text \<open>
  \<^verbatim>\<open>ssl/quic/quic_wire.c\<close> with the types of \<^verbatim>\<open>include/internal/quic_wire.h\<close> and
  \<^verbatim>\<open>include/internal/quic_types.h\<close>: the QUIC frames and transport parameters, written to a \<^verbatim>\<open>WPACKET\<close> and read
  from a \<^verbatim>\<open>PACKET\<close>. An encoder returns the packet and whether it succeeded, or a fault; a decoder returns the
  frame and the rest of the packet, or \<^term>\<open>None\<close> for the return value 0, after which the code leaves its
  output arguments without meaning. A data pointer of a frame is the bytes it points to, \<^term>\<open>None\<close> for \<^verbatim>\<open>NULL\<close>.
  The array of ranges of an ACK frame and its \<^verbatim>\<open>num_ack_ranges\<close> are one list: on decoding its length is the
  capacity, and afterwards the number of ranges the frame has.
\<close>

section \<open>Frame types and frames\<close>

definition OSSL_QUIC_FRAME_TYPE_PADDING :: u64 where "OSSL_QUIC_FRAME_TYPE_PADDING = 0x00"
definition OSSL_QUIC_FRAME_TYPE_PING :: u64 where "OSSL_QUIC_FRAME_TYPE_PING = 0x01"
definition OSSL_QUIC_FRAME_TYPE_ACK_WITHOUT_ECN :: u64 where "OSSL_QUIC_FRAME_TYPE_ACK_WITHOUT_ECN = 0x02"
definition OSSL_QUIC_FRAME_TYPE_ACK_WITH_ECN :: u64 where "OSSL_QUIC_FRAME_TYPE_ACK_WITH_ECN = 0x03"
definition OSSL_QUIC_FRAME_TYPE_RESET_STREAM :: u64 where "OSSL_QUIC_FRAME_TYPE_RESET_STREAM = 0x04"
definition OSSL_QUIC_FRAME_TYPE_STOP_SENDING :: u64 where "OSSL_QUIC_FRAME_TYPE_STOP_SENDING = 0x05"
definition OSSL_QUIC_FRAME_TYPE_CRYPTO :: u64 where "OSSL_QUIC_FRAME_TYPE_CRYPTO = 0x06"
definition OSSL_QUIC_FRAME_TYPE_NEW_TOKEN :: u64 where "OSSL_QUIC_FRAME_TYPE_NEW_TOKEN = 0x07"
definition OSSL_QUIC_FRAME_TYPE_MAX_DATA :: u64 where "OSSL_QUIC_FRAME_TYPE_MAX_DATA = 0x10"
definition OSSL_QUIC_FRAME_TYPE_MAX_STREAM_DATA :: u64 where "OSSL_QUIC_FRAME_TYPE_MAX_STREAM_DATA = 0x11"
definition OSSL_QUIC_FRAME_TYPE_MAX_STREAMS_BIDI :: u64 where "OSSL_QUIC_FRAME_TYPE_MAX_STREAMS_BIDI = 0x12"
definition OSSL_QUIC_FRAME_TYPE_MAX_STREAMS_UNI :: u64 where "OSSL_QUIC_FRAME_TYPE_MAX_STREAMS_UNI = 0x13"
definition OSSL_QUIC_FRAME_TYPE_DATA_BLOCKED :: u64 where "OSSL_QUIC_FRAME_TYPE_DATA_BLOCKED = 0x14"
definition OSSL_QUIC_FRAME_TYPE_STREAM_DATA_BLOCKED :: u64 where "OSSL_QUIC_FRAME_TYPE_STREAM_DATA_BLOCKED = 0x15"
definition OSSL_QUIC_FRAME_TYPE_STREAMS_BLOCKED_BIDI :: u64 where "OSSL_QUIC_FRAME_TYPE_STREAMS_BLOCKED_BIDI = 0x16"
definition OSSL_QUIC_FRAME_TYPE_STREAMS_BLOCKED_UNI :: u64 where "OSSL_QUIC_FRAME_TYPE_STREAMS_BLOCKED_UNI = 0x17"
definition OSSL_QUIC_FRAME_TYPE_NEW_CONN_ID :: u64 where "OSSL_QUIC_FRAME_TYPE_NEW_CONN_ID = 0x18"
definition OSSL_QUIC_FRAME_TYPE_RETIRE_CONN_ID :: u64 where "OSSL_QUIC_FRAME_TYPE_RETIRE_CONN_ID = 0x19"
definition OSSL_QUIC_FRAME_TYPE_PATH_CHALLENGE :: u64 where "OSSL_QUIC_FRAME_TYPE_PATH_CHALLENGE = 0x1A"
definition OSSL_QUIC_FRAME_TYPE_PATH_RESPONSE :: u64 where "OSSL_QUIC_FRAME_TYPE_PATH_RESPONSE = 0x1B"
definition OSSL_QUIC_FRAME_TYPE_CONN_CLOSE_TRANSPORT :: u64 where "OSSL_QUIC_FRAME_TYPE_CONN_CLOSE_TRANSPORT = 0x1C"
definition OSSL_QUIC_FRAME_TYPE_CONN_CLOSE_APP :: u64 where "OSSL_QUIC_FRAME_TYPE_CONN_CLOSE_APP = 0x1D"
definition OSSL_QUIC_FRAME_TYPE_HANDSHAKE_DONE :: u64 where "OSSL_QUIC_FRAME_TYPE_HANDSHAKE_DONE = 0x1E"
definition OSSL_QUIC_FRAME_TYPE_STREAM :: u64 where "OSSL_QUIC_FRAME_TYPE_STREAM = 0x08"

definition OSSL_QUIC_FRAME_FLAG_STREAM_FIN :: u64 where "OSSL_QUIC_FRAME_FLAG_STREAM_FIN = 0x01"
definition OSSL_QUIC_FRAME_FLAG_STREAM_LEN :: u64 where "OSSL_QUIC_FRAME_FLAG_STREAM_LEN = 0x02"
definition OSSL_QUIC_FRAME_FLAG_STREAM_OFF :: u64 where "OSSL_QUIC_FRAME_FLAG_STREAM_OFF = 0x04"
definition OSSL_QUIC_FRAME_FLAG_STREAM_MASK :: u64 where "OSSL_QUIC_FRAME_FLAG_STREAM_MASK = 0x07"

definition QUIC_MAX_CONN_ID_LEN :: nat where "QUIC_MAX_CONN_ID_LEN = 20"
definition QUIC_STATELESS_RESET_TOKEN_LEN :: nat where "QUIC_STATELESS_RESET_TOKEN_LEN = 16"
definition QUIC_MIN_ENCODED_PREFERRED_ADDR_LEN :: nat where "QUIC_MIN_ENCODED_PREFERRED_ADDR_LEN = 41"
definition QUIC_MAX_ENCODED_PREFERRED_ADDR_LEN :: nat where "QUIC_MAX_ENCODED_PREFERRED_ADDR_LEN = 61"
definition QUIC_TPARAM_PREFERRED_ADDR :: u64 where "QUIC_TPARAM_PREFERRED_ADDR = 0x0D"

lemmas frame_type_defs =
  OSSL_QUIC_FRAME_TYPE_PADDING_def OSSL_QUIC_FRAME_TYPE_PING_def
  OSSL_QUIC_FRAME_TYPE_ACK_WITHOUT_ECN_def OSSL_QUIC_FRAME_TYPE_ACK_WITH_ECN_def
  OSSL_QUIC_FRAME_TYPE_RESET_STREAM_def OSSL_QUIC_FRAME_TYPE_STOP_SENDING_def
  OSSL_QUIC_FRAME_TYPE_CRYPTO_def OSSL_QUIC_FRAME_TYPE_NEW_TOKEN_def
  OSSL_QUIC_FRAME_TYPE_MAX_DATA_def OSSL_QUIC_FRAME_TYPE_MAX_STREAM_DATA_def
  OSSL_QUIC_FRAME_TYPE_MAX_STREAMS_BIDI_def OSSL_QUIC_FRAME_TYPE_MAX_STREAMS_UNI_def
  OSSL_QUIC_FRAME_TYPE_DATA_BLOCKED_def OSSL_QUIC_FRAME_TYPE_STREAM_DATA_BLOCKED_def
  OSSL_QUIC_FRAME_TYPE_STREAMS_BLOCKED_BIDI_def OSSL_QUIC_FRAME_TYPE_STREAMS_BLOCKED_UNI_def
  OSSL_QUIC_FRAME_TYPE_NEW_CONN_ID_def OSSL_QUIC_FRAME_TYPE_RETIRE_CONN_ID_def
  OSSL_QUIC_FRAME_TYPE_PATH_CHALLENGE_def OSSL_QUIC_FRAME_TYPE_PATH_RESPONSE_def
  OSSL_QUIC_FRAME_TYPE_CONN_CLOSE_TRANSPORT_def OSSL_QUIC_FRAME_TYPE_CONN_CLOSE_APP_def
  OSSL_QUIC_FRAME_TYPE_HANDSHAKE_DONE_def OSSL_QUIC_FRAME_TYPE_STREAM_def
  OSSL_QUIC_FRAME_FLAG_STREAM_FIN_def OSSL_QUIC_FRAME_FLAG_STREAM_LEN_def
  OSSL_QUIC_FRAME_FLAG_STREAM_OFF_def OSSL_QUIC_FRAME_FLAG_STREAM_MASK_def

record ossl_quic_ack_range =
  ar_start :: u64
  ar_end :: u64

record ossl_quic_frame_ack =
  ack_ranges :: "ossl_quic_ack_range list"
  delay_time :: ossl_time
  ect0 :: u64
  ect1 :: u64
  ecnce :: u64
  ecn_present :: bool

record ossl_quic_frame_stream =
  fs_stream_id :: u64
  fs_offset :: u64
  fs_len :: u64
  fs_data :: "bytes option"
  has_explicit_len :: bool
  fs_is_fin :: bool

record ossl_quic_frame_crypto =
  cf_offset :: u64
  cf_len :: u64
  cf_data :: "bytes option"

record ossl_quic_frame_reset_stream =
  rs_stream_id :: u64
  rs_app_error_code :: u64
  final_size :: u64

record ossl_quic_frame_stop_sending =
  ss_stream_id :: u64
  ss_app_error_code :: u64

record quic_conn_id =
  id_len :: u8
  cid :: bytes

record ossl_quic_frame_new_conn_id =
  seq_num :: u64
  retire_prior_to :: u64
  conn_id :: quic_conn_id
  stateless_reset :: bytes

record ossl_quic_frame_conn_close =
  is_app :: bool
  cc_error_code :: u64
  cc_frame_type :: u64
  reason :: bytes
  reason_len :: u64

record quic_preferred_addr =
  ipv4_port :: "16 word"
  ipv6_port :: "16 word"
  ipv4 :: bytes
  ipv6 :: bytes
  pa_stateless_reset :: bytes
  pa_cid :: quic_conn_id

section \<open>Encoding\<close>

fun ack_ranges_contain :: "ossl_quic_ack_range list \<Rightarrow> u64 \<Rightarrow> bool" where
  "ack_ranges_contain [] pn = False"
| "ack_ranges_contain (r # rs) pn = (if pn \<ge> ar_start r \<and> pn \<le> ar_end r then True else ack_ranges_contain rs pn)"

definition ossl_quic_frame_ack_contains_pn :: "ossl_quic_frame_ack \<Rightarrow> u64 \<Rightarrow> bool" where
  "ossl_quic_frame_ack_contains_pn ack pn = ack_ranges_contain (ack_ranges ack) pn"

definition ossl_quic_wire_encode_padding :: "wpacket \<Rightarrow> u64 \<Rightarrow> wres" where
  "ossl_quic_wire_encode_padding p num_bytes = WPACKET_memset p 0 num_bytes"

definition encode_frame_hdr :: "wpacket \<Rightarrow> u64 \<Rightarrow> wres" where
  "encode_frame_hdr p frame_type = WPACKET_quic_write_vlint p frame_type"

definition ossl_quic_wire_encode_frame_ping :: "wpacket \<Rightarrow> wres" where
  "ossl_quic_wire_encode_frame_ping p = encode_frame_hdr p OSSL_QUIC_FRAME_TYPE_PING"

text \<open>The loop over the ranges after the first; \<open>prev\<close> is the range before.\<close>

fun encode_ack_ranges :: "wpacket \<Rightarrow> ossl_quic_ack_range \<Rightarrow> ossl_quic_ack_range list \<Rightarrow> wres" where
  "encode_ack_ranges p prev [] = Inr (p, True)"
| "encode_ack_ranges p prev (r # rs) =
     (let gap = ar_start prev - ar_end r - 2; range_len = ar_end r - ar_start r in
      wp_then (WPACKET_quic_write_vlint p gap) (\<lambda>p.
      wp_then (WPACKET_quic_write_vlint p range_len) (\<lambda>p. encode_ack_ranges p r rs)))"

definition ossl_quic_wire_encode_frame_ack :: "wpacket \<Rightarrow> u32 \<Rightarrow> ossl_quic_frame_ack \<Rightarrow> wres" where
  "ossl_quic_wire_encode_frame_ack p ack_delay_exponent ack =
     (case ack_ranges ack of
        [] \<Rightarrow> Inr (p, False)
      | r # rs \<Rightarrow>
          if unat ack_delay_exponent \<ge> 64 then Inl ShiftTooFar
          else
            let frame_type = (if ecn_present ack then OSSL_QUIC_FRAME_TYPE_ACK_WITH_ECN
                              else OSSL_QUIC_FRAME_TYPE_ACK_WITHOUT_ECN);
                delay = ossl_time_divide (ossl_time_divide (delay_time ack) OSSL_TIME_US)
                          (push_bit (unat ack_delay_exponent) 1);
                ack_delay_enc = ossl_time2ticks delay;
                largest_ackd = ar_end r;
                first_ack_range = ar_end r - ar_start r
            in wp_then (encode_frame_hdr p frame_type) (\<lambda>p.
               wp_then (WPACKET_quic_write_vlint p largest_ackd) (\<lambda>p.
               wp_then (WPACKET_quic_write_vlint p ack_delay_enc) (\<lambda>p.
               wp_then (WPACKET_quic_write_vlint p (of_nat (length (ack_ranges ack)) - 1)) (\<lambda>p.
               wp_then (WPACKET_quic_write_vlint p first_ack_range) (\<lambda>p.
               wp_then (encode_ack_ranges p r rs) (\<lambda>p.
               if ecn_present ack then
                 wp_then (WPACKET_quic_write_vlint p (ect0 ack)) (\<lambda>p.
                 wp_then (WPACKET_quic_write_vlint p (ect1 ack)) (\<lambda>p.
                 WPACKET_quic_write_vlint p (ecnce ack)))
               else Inr (p, True))))))))"

definition ossl_quic_wire_encode_frame_reset_stream :: "wpacket \<Rightarrow> ossl_quic_frame_reset_stream \<Rightarrow> wres" where
  "ossl_quic_wire_encode_frame_reset_stream p f =
     wp_then (encode_frame_hdr p OSSL_QUIC_FRAME_TYPE_RESET_STREAM) (\<lambda>p.
     wp_then (WPACKET_quic_write_vlint p (rs_stream_id f)) (\<lambda>p.
     wp_then (WPACKET_quic_write_vlint p (rs_app_error_code f)) (\<lambda>p.
     WPACKET_quic_write_vlint p (final_size f))))"

definition ossl_quic_wire_encode_frame_stop_sending :: "wpacket \<Rightarrow> ossl_quic_frame_stop_sending \<Rightarrow> wres" where
  "ossl_quic_wire_encode_frame_stop_sending p f =
     wp_then (encode_frame_hdr p OSSL_QUIC_FRAME_TYPE_STOP_SENDING) (\<lambda>p.
     wp_then (WPACKET_quic_write_vlint p (ss_stream_id f)) (\<lambda>p.
     WPACKET_quic_write_vlint p (ss_app_error_code f)))"

definition ossl_quic_wire_encode_frame_crypto_hdr :: "wpacket \<Rightarrow> ossl_quic_frame_crypto \<Rightarrow> wres" where
  "ossl_quic_wire_encode_frame_crypto_hdr p f =
     wp_then (encode_frame_hdr p OSSL_QUIC_FRAME_TYPE_CRYPTO) (\<lambda>p.
     wp_then (WPACKET_quic_write_vlint p (cf_offset f)) (\<lambda>p.
     WPACKET_quic_write_vlint p (cf_len f)))"

definition ossl_quic_wire_get_encoded_frame_len_crypto_hdr :: "ossl_quic_frame_crypto \<Rightarrow> nat" where
  "ossl_quic_wire_get_encoded_frame_len_crypto_hdr f =
     (let a = ossl_quic_vlint_encode_len OSSL_QUIC_FRAME_TYPE_CRYPTO;
          b = ossl_quic_vlint_encode_len (cf_offset f);
          c = ossl_quic_vlint_encode_len (cf_len f)
      in if a = 0 \<or> b = 0 \<or> c = 0 then 0 else a + b + c)"

text \<open>
  What the encoders with a payload do once its room is asked for: copy the data, if there is any, through the
  pointer, and return the pointer.
\<close>

definition copy_payload :: "wpacket \<times> u64 option option \<Rightarrow> bytes option \<Rightarrow> u64 \<Rightarrow> c_fault + wpacket \<times> u64 option" where
  "copy_payload r data len =
     (case r of
        (p, None) \<Rightarrow> Inr (p, None)
      | (p, Some ptr) \<Rightarrow>
          (case data of
             None \<Rightarrow> Inr (p, ptr)
           | Some d \<Rightarrow>
               (case ptr of
                  None \<Rightarrow> Inl NullDeref
                | Some i \<Rightarrow>
                    if length d < unat len then Inl OutOfBounds
                    else res_bind (wp_store p i (take (unat len) d)) (\<lambda>p. Inr (p, ptr)))))"

definition ossl_quic_wire_encode_frame_crypto :: "wpacket \<Rightarrow> ossl_quic_frame_crypto \<Rightarrow> c_fault + wpacket \<times> u64 option" where
  "ossl_quic_wire_encode_frame_crypto p f =
     res_bind (ossl_quic_wire_encode_frame_crypto_hdr p f) (\<lambda>(p, ok).
       if \<not> ok \<or> cf_len f > SIZE_MAX then Inr (p, None)
       else copy_payload (WPACKET_allocate_bytes p (cf_len f)) (cf_data f) (cf_len f))"

definition ossl_quic_wire_encode_frame_new_token :: "wpacket \<Rightarrow> bytes \<Rightarrow> u64 \<Rightarrow> wres" where
  "ossl_quic_wire_encode_frame_new_token p token token_len =
     wp_then (encode_frame_hdr p OSSL_QUIC_FRAME_TYPE_NEW_TOKEN) (\<lambda>p.
     wp_then (WPACKET_quic_write_vlint p token_len) (\<lambda>p.
     WPACKET_memcpy p token token_len))"

definition stream_frame_type :: "ossl_quic_frame_stream \<Rightarrow> u64" where
  "stream_frame_type f =
     (let frame_type = OSSL_QUIC_FRAME_TYPE_STREAM;
          frame_type = (if fs_offset f \<noteq> 0 then frame_type OR OSSL_QUIC_FRAME_FLAG_STREAM_OFF else frame_type);
          frame_type = (if has_explicit_len f then frame_type OR OSSL_QUIC_FRAME_FLAG_STREAM_LEN else frame_type)
      in if fs_is_fin f then frame_type OR OSSL_QUIC_FRAME_FLAG_STREAM_FIN else frame_type)"

definition ossl_quic_wire_encode_frame_stream_hdr :: "wpacket \<Rightarrow> ossl_quic_frame_stream \<Rightarrow> wres" where
  "ossl_quic_wire_encode_frame_stream_hdr p f =
     wp_then (encode_frame_hdr p (stream_frame_type f)) (\<lambda>p.
     wp_then (WPACKET_quic_write_vlint p (fs_stream_id f)) (\<lambda>p.
     wp_then (if fs_offset f \<noteq> 0 then WPACKET_quic_write_vlint p (fs_offset f) else Inr (p, True)) (\<lambda>p.
     if has_explicit_len f then WPACKET_quic_write_vlint p (fs_len f) else Inr (p, True))))"

definition ossl_quic_wire_get_encoded_frame_len_stream_hdr :: "ossl_quic_frame_stream \<Rightarrow> nat" where
  "ossl_quic_wire_get_encoded_frame_len_stream_hdr f =
     (let a = ossl_quic_vlint_encode_len OSSL_QUIC_FRAME_TYPE_STREAM;
          b = ossl_quic_vlint_encode_len (fs_stream_id f);
          c = (if fs_offset f > 0 then ossl_quic_vlint_encode_len (fs_offset f) else 0);
          d = (if has_explicit_len f then ossl_quic_vlint_encode_len (fs_len f) else 0)
      in if a = 0 \<or> b = 0 then 0
         else if fs_offset f > 0 \<and> c = 0 then 0
         else if has_explicit_len f \<and> d = 0 then 0
         else a + b + c + d)"

definition ossl_quic_wire_encode_frame_stream :: "wpacket \<Rightarrow> ossl_quic_frame_stream \<Rightarrow> c_fault + wpacket \<times> u64 option" where
  "ossl_quic_wire_encode_frame_stream p f =
     res_bind (ossl_quic_wire_encode_frame_stream_hdr p f) (\<lambda>(p, ok).
       if \<not> ok \<or> fs_len f > SIZE_MAX then Inr (p, None)
       else copy_payload (WPACKET_allocate_bytes p (fs_len f)) (fs_data f) (fs_len f))"

definition ossl_quic_wire_encode_frame_max_data :: "wpacket \<Rightarrow> u64 \<Rightarrow> wres" where
  "ossl_quic_wire_encode_frame_max_data p max_data =
     wp_then (encode_frame_hdr p OSSL_QUIC_FRAME_TYPE_MAX_DATA) (\<lambda>p. WPACKET_quic_write_vlint p max_data)"

definition ossl_quic_wire_encode_frame_max_stream_data :: "wpacket \<Rightarrow> u64 \<Rightarrow> u64 \<Rightarrow> wres" where
  "ossl_quic_wire_encode_frame_max_stream_data p stream_id max_data =
     wp_then (encode_frame_hdr p OSSL_QUIC_FRAME_TYPE_MAX_STREAM_DATA) (\<lambda>p.
     wp_then (WPACKET_quic_write_vlint p stream_id) (\<lambda>p. WPACKET_quic_write_vlint p max_data))"

definition ossl_quic_wire_encode_frame_max_streams :: "wpacket \<Rightarrow> bool \<Rightarrow> u64 \<Rightarrow> wres" where
  "ossl_quic_wire_encode_frame_max_streams p is_uni max_streams =
     wp_then (encode_frame_hdr p (if is_uni then OSSL_QUIC_FRAME_TYPE_MAX_STREAMS_UNI
                                  else OSSL_QUIC_FRAME_TYPE_MAX_STREAMS_BIDI)) (\<lambda>p.
     WPACKET_quic_write_vlint p max_streams)"

definition ossl_quic_wire_encode_frame_data_blocked :: "wpacket \<Rightarrow> u64 \<Rightarrow> wres" where
  "ossl_quic_wire_encode_frame_data_blocked p max_data =
     wp_then (encode_frame_hdr p OSSL_QUIC_FRAME_TYPE_DATA_BLOCKED) (\<lambda>p. WPACKET_quic_write_vlint p max_data)"

definition ossl_quic_wire_encode_frame_stream_data_blocked :: "wpacket \<Rightarrow> u64 \<Rightarrow> u64 \<Rightarrow> wres" where
  "ossl_quic_wire_encode_frame_stream_data_blocked p stream_id max_stream_data =
     wp_then (encode_frame_hdr p OSSL_QUIC_FRAME_TYPE_STREAM_DATA_BLOCKED) (\<lambda>p.
     wp_then (WPACKET_quic_write_vlint p stream_id) (\<lambda>p. WPACKET_quic_write_vlint p max_stream_data))"

definition ossl_quic_wire_encode_frame_streams_blocked :: "wpacket \<Rightarrow> bool \<Rightarrow> u64 \<Rightarrow> wres" where
  "ossl_quic_wire_encode_frame_streams_blocked p is_uni max_streams =
     wp_then (encode_frame_hdr p (if is_uni then OSSL_QUIC_FRAME_TYPE_STREAMS_BLOCKED_UNI
                                  else OSSL_QUIC_FRAME_TYPE_STREAMS_BLOCKED_BIDI)) (\<lambda>p.
     WPACKET_quic_write_vlint p max_streams)"

definition ossl_quic_wire_encode_frame_new_conn_id :: "wpacket \<Rightarrow> ossl_quic_frame_new_conn_id \<Rightarrow> wres" where
  "ossl_quic_wire_encode_frame_new_conn_id p f =
     (if unat (id_len (conn_id f)) < 1 \<or> unat (id_len (conn_id f)) > QUIC_MAX_CONN_ID_LEN then Inr (p, False)
      else
        wp_then (encode_frame_hdr p OSSL_QUIC_FRAME_TYPE_NEW_CONN_ID) (\<lambda>p.
        wp_then (WPACKET_quic_write_vlint p (seq_num f)) (\<lambda>p.
        wp_then (WPACKET_quic_write_vlint p (retire_prior_to f)) (\<lambda>p.
        wp_then (WPACKET_put_bytes_u8 p (ucast (id_len (conn_id f)))) (\<lambda>p.
        wp_then (WPACKET_memcpy p (cid (conn_id f)) (ucast (id_len (conn_id f)))) (\<lambda>p.
        WPACKET_memcpy p (stateless_reset f) (of_nat QUIC_STATELESS_RESET_TOKEN_LEN)))))))"

definition ossl_quic_wire_encode_frame_retire_conn_id :: "wpacket \<Rightarrow> u64 \<Rightarrow> wres" where
  "ossl_quic_wire_encode_frame_retire_conn_id p seq =
     wp_then (encode_frame_hdr p OSSL_QUIC_FRAME_TYPE_RETIRE_CONN_ID) (\<lambda>p. WPACKET_quic_write_vlint p seq)"

definition ossl_quic_wire_encode_frame_path_challenge :: "wpacket \<Rightarrow> u64 \<Rightarrow> wres" where
  "ossl_quic_wire_encode_frame_path_challenge p data =
     wp_then (encode_frame_hdr p OSSL_QUIC_FRAME_TYPE_PATH_CHALLENGE) (\<lambda>p. WPACKET_put_bytes_u64 p data)"

definition ossl_quic_wire_encode_frame_path_response :: "wpacket \<Rightarrow> u64 \<Rightarrow> wres" where
  "ossl_quic_wire_encode_frame_path_response p data =
     wp_then (encode_frame_hdr p OSSL_QUIC_FRAME_TYPE_PATH_RESPONSE) (\<lambda>p. WPACKET_put_bytes_u64 p data)"

definition ossl_quic_wire_encode_frame_conn_close :: "wpacket \<Rightarrow> ossl_quic_frame_conn_close \<Rightarrow> wres" where
  "ossl_quic_wire_encode_frame_conn_close p f =
     wp_then (encode_frame_hdr p (if is_app f then OSSL_QUIC_FRAME_TYPE_CONN_CLOSE_APP
                                  else OSSL_QUIC_FRAME_TYPE_CONN_CLOSE_TRANSPORT)) (\<lambda>p.
     wp_then (WPACKET_quic_write_vlint p (cc_error_code f)) (\<lambda>p.
     wp_then (if \<not> is_app f then WPACKET_quic_write_vlint p (cc_frame_type f) else Inr (p, True)) (\<lambda>p.
     wp_then (WPACKET_quic_write_vlint p (reason_len f)) (\<lambda>p.
     WPACKET_memcpy p (reason f) (reason_len f)))))"

definition ossl_quic_wire_encode_frame_handshake_done :: "wpacket \<Rightarrow> wres" where
  "ossl_quic_wire_encode_frame_handshake_done p = encode_frame_hdr p OSSL_QUIC_FRAME_TYPE_HANDSHAKE_DONE"

text \<open>Transport parameters. An empty value is copied to the current position, of which no byte is written.\<close>

definition ossl_quic_wire_encode_transport_param_bytes ::
    "wpacket \<Rightarrow> u64 \<Rightarrow> bytes option \<Rightarrow> u64 \<Rightarrow> c_fault + wpacket \<times> u64 option" where
  "ossl_quic_wire_encode_transport_param_bytes p tid val value_len =
     res_bind (wp_then (WPACKET_quic_write_vlint p tid) (\<lambda>p. WPACKET_quic_write_vlint p value_len)) (\<lambda>(p, ok).
       if \<not> ok then Inr (p, None)
       else if value_len = 0 then Inr (p, WPACKET_get_curr p)
       else copy_payload (WPACKET_allocate_bytes p value_len) val value_len)"

definition ossl_quic_wire_encode_transport_param_int :: "wpacket \<Rightarrow> u64 \<Rightarrow> u64 \<Rightarrow> wres" where
  "ossl_quic_wire_encode_transport_param_int p tid val =
     wp_then (WPACKET_quic_write_vlint p tid) (\<lambda>p.
     wp_then (WPACKET_quic_write_vlint p (of_nat (ossl_quic_vlint_encode_len val))) (\<lambda>p.
     WPACKET_quic_write_vlint p val))"

definition ossl_quic_wire_encode_transport_param_cid :: "wpacket \<Rightarrow> u64 \<Rightarrow> quic_conn_id \<Rightarrow> wres" where
  "ossl_quic_wire_encode_transport_param_cid p tid c =
     (if unat (id_len c) > QUIC_MAX_CONN_ID_LEN then Inr (p, False)
      else res_bind (ossl_quic_wire_encode_transport_param_bytes p tid (Some (cid c)) (ucast (id_len c)))
             (\<lambda>(p, ptr). Inr (p, ptr \<noteq> None)))"

section \<open>Decoding\<close>

definition ossl_quic_wire_peek_frame_header :: "packet \<Rightarrow> (u64 \<times> bool) option" where
  "ossl_quic_wire_peek_frame_header pkt = PACKET_peek_quic_vlint_ex pkt"

definition ossl_quic_wire_skip_frame_header :: "packet \<Rightarrow> (u64 \<times> packet) option" where
  "ossl_quic_wire_skip_frame_header pkt = PACKET_get_quic_vlint pkt"

definition expect_frame_header_mask :: "packet \<Rightarrow> u64 \<Rightarrow> u64 \<Rightarrow> (u64 \<times> packet) option" where
  "expect_frame_header_mask pkt expected_frame_type mask_bits =
     do { (actual_frame_type, pkt) \<leftarrow> ossl_quic_wire_skip_frame_header pkt;
          if actual_frame_type AND NOT mask_bits \<noteq> expected_frame_type then None else Some (actual_frame_type, pkt) }"

definition expect_frame_header :: "packet \<Rightarrow> u64 \<Rightarrow> packet option" where
  "expect_frame_header pkt expected_frame_type =
     do { (actual_frame_type, pkt) \<leftarrow> ossl_quic_wire_skip_frame_header pkt;
          if actual_frame_type \<noteq> expected_frame_type then None else Some pkt }"

fun skip_ack_ranges :: "packet \<Rightarrow> nat \<Rightarrow> packet option" where
  "skip_ack_ranges pkt 0 = Some pkt"
| "skip_ack_ranges pkt (Suc n) =
     do { pkt \<leftarrow> PACKET_skip_quic_vlint pkt; pkt \<leftarrow> PACKET_skip_quic_vlint pkt; skip_ack_ranges pkt n }"

definition ossl_quic_wire_peek_frame_ack_num_ranges :: "packet \<Rightarrow> u64 option" where
  "ossl_quic_wire_peek_frame_ack_num_ranges pkt =
     do { (_, pkt) \<leftarrow> expect_frame_header_mask pkt OSSL_QUIC_FRAME_TYPE_ACK_WITHOUT_ECN 1;
          pkt \<leftarrow> PACKET_skip_quic_vlint pkt;
          pkt \<leftarrow> PACKET_skip_quic_vlint pkt;
          (ack_range_count, pkt) \<leftarrow> PACKET_get_quic_vlint pkt;
          _ \<leftarrow> skip_ack_ranges pkt (unat ack_range_count);
          Some (ack_range_count + 1) }"

text \<open>
  The loop over the ranges after the first, \<open>n\<close> of them left. \<open>start\<close> moves on only when the range is stored.
\<close>

fun decode_ack_ranges :: "packet \<Rightarrow> u64 \<Rightarrow> nat \<Rightarrow> nat \<Rightarrow> ossl_quic_ack_range list option
    \<Rightarrow> (ossl_quic_ack_range list option \<times> packet) option" where
  "decode_ack_ranges pkt start i 0 ranges = Some (ranges, pkt)"
| "decode_ack_ranges pkt start i (Suc n) ranges =
     do { (gap, pkt) \<leftarrow> PACKET_get_quic_vlint pkt;
          (len, pkt) \<leftarrow> PACKET_get_quic_vlint pkt;
          let ende = start - gap - 2;
          if start < gap + 2 \<or> len > ende then None
          else
            (case ranges of
               None \<Rightarrow> decode_ack_ranges pkt start (i + 1) n None
             | Some rs \<Rightarrow>
                 if i + 1 < length rs
                 then decode_ack_ranges pkt (ende - len) (i + 1) n
                        (Some (rs[i + 1 := \<lparr>ar_start = ende - len, ar_end = ende\<rparr>]))
                 else decode_ack_ranges pkt start (i + 1) n (Some rs)) }"

definition ack_delay_decode :: "u64 \<Rightarrow> u32 \<Rightarrow> ossl_time" where
  "ack_delay_decode ack_delay_raw ack_delay_exponent =
     (let (m, err) = safe_mul ack_delay_raw (push_bit (unat ack_delay_exponent) 1)
      in if err then ossl_time_infinite else ossl_time_multiply (ossl_ticks2time OSSL_TIME_US) m)"

definition ack_set_ecn :: "packet \<Rightarrow> u64 \<Rightarrow> ossl_quic_frame_ack option \<Rightarrow> (ossl_quic_frame_ack option \<times> packet) option" where
  "ack_set_ecn pkt frame_type ack =
     (if frame_type = OSSL_QUIC_FRAME_TYPE_ACK_WITH_ECN then
        do { (e0, pkt) \<leftarrow> PACKET_get_quic_vlint pkt;
             (e1, pkt) \<leftarrow> PACKET_get_quic_vlint pkt;
             (ce, pkt) \<leftarrow> PACKET_get_quic_vlint pkt;
             Some (map_option (\<lambda>a. a\<lparr>ect0 := e0, ect1 := e1, ecnce := ce, ecn_present := True\<rparr>) ack, pkt) }
      else Some (map_option (\<lambda>a. a\<lparr>ecn_present := False\<rparr>) ack, pkt))"

text \<open>The fields before the ranges: type, largest packet, raw delay, number of further ranges, first range.\<close>

definition decode_ack_header :: "packet \<Rightarrow> ((u64 \<times> u64 \<times> u64 \<times> u64 \<times> u64) \<times> packet) option" where
  "decode_ack_header pkt =
     do { (frame_type, pkt) \<leftarrow> expect_frame_header_mask pkt OSSL_QUIC_FRAME_TYPE_ACK_WITHOUT_ECN 1;
          (largest_ackd, pkt) \<leftarrow> PACKET_get_quic_vlint pkt;
          (ack_delay_raw, pkt) \<leftarrow> PACKET_get_quic_vlint pkt;
          (ack_range_count, pkt) \<leftarrow> PACKET_get_quic_vlint pkt;
          (first_ack_range, pkt) \<leftarrow> PACKET_get_quic_vlint pkt;
          if first_ack_range > largest_ackd then None
          else if ack_range_count > SIZE_MAX then None
          else Some ((frame_type, largest_ackd, ack_delay_raw, ack_range_count, first_ack_range), pkt) }"

definition ossl_quic_wire_decode_frame_ack :: "packet \<Rightarrow> u32 \<Rightarrow> ossl_quic_frame_ack option
    \<Rightarrow> c_fault + (ossl_quic_frame_ack option \<times> u64 \<times> packet) option" where
  "ossl_quic_wire_decode_frame_ack pkt ack_delay_exponent ack =
     (case decode_ack_header pkt of
        None \<Rightarrow> Inr None
      | Some ((frame_type, largest_ackd, ack_delay_raw, ack_range_count, first_ack_range), pkt) \<Rightarrow>
          if ack \<noteq> None \<and> unat ack_delay_exponent \<ge> 64 then Inl ShiftTooFar
          else
            let start = largest_ackd - first_ack_range;
                ack = map_option (\<lambda>a. a\<lparr>delay_time := ack_delay_decode ack_delay_raw ack_delay_exponent,
                                        ack_ranges := (ack_ranges a)[0 := \<lparr>ar_start = start, ar_end = largest_ackd\<rparr>]\<rparr>) ack
            in Inr (do {
                 (ranges, pkt) \<leftarrow> decode_ack_ranges pkt start 0 (unat ack_range_count) (map_option ack_ranges ack);
                 let ack = map_option (\<lambda>a. a\<lparr>ack_ranges := take (unat (ack_range_count + 1)) (the ranges)\<rparr>) ack;
                 (ack, pkt) \<leftarrow> ack_set_ecn pkt frame_type ack;
                 Some (ack, ack_range_count + 1, pkt) }))"

definition ossl_quic_wire_decode_frame_reset_stream :: "packet \<Rightarrow> (ossl_quic_frame_reset_stream \<times> packet) option" where
  "ossl_quic_wire_decode_frame_reset_stream pkt =
     do { pkt \<leftarrow> expect_frame_header pkt OSSL_QUIC_FRAME_TYPE_RESET_STREAM;
          (sid, pkt) \<leftarrow> PACKET_get_quic_vlint pkt;
          (err, pkt) \<leftarrow> PACKET_get_quic_vlint pkt;
          (sz, pkt) \<leftarrow> PACKET_get_quic_vlint pkt;
          Some (\<lparr>rs_stream_id = sid, rs_app_error_code = err, final_size = sz\<rparr>, pkt) }"

definition ossl_quic_wire_decode_frame_stop_sending :: "packet \<Rightarrow> (ossl_quic_frame_stop_sending \<times> packet) option" where
  "ossl_quic_wire_decode_frame_stop_sending pkt =
     do { pkt \<leftarrow> expect_frame_header pkt OSSL_QUIC_FRAME_TYPE_STOP_SENDING;
          (sid, pkt) \<leftarrow> PACKET_get_quic_vlint pkt;
          (err, pkt) \<leftarrow> PACKET_get_quic_vlint pkt;
          Some (\<lparr>ss_stream_id = sid, ss_app_error_code = err\<rparr>, pkt) }"

definition ossl_quic_wire_decode_frame_crypto :: "packet \<Rightarrow> bool \<Rightarrow> (ossl_quic_frame_crypto \<times> packet) option" where
  "ossl_quic_wire_decode_frame_crypto pkt nodata =
     do { pkt \<leftarrow> expect_frame_header pkt OSSL_QUIC_FRAME_TYPE_CRYPTO;
          (off, pkt) \<leftarrow> PACKET_get_quic_vlint pkt;
          (len, pkt) \<leftarrow> PACKET_get_quic_vlint pkt;
          if len > SIZE_MAX then None
          else if off + len > push_bit 62 1 - 1 then None
          else if nodata then Some (\<lparr>cf_offset = off, cf_len = len, cf_data = None\<rparr>, pkt)
          else if PACKET_remaining pkt < unat len then None
          else
            let data = take (unat len) (PACKET_data pkt)
            in do { pkt \<leftarrow> PACKET_forward pkt (unat len);
                    Some (\<lparr>cf_offset = off, cf_len = len, cf_data = Some data\<rparr>, pkt) } }"

definition ossl_quic_wire_decode_frame_new_token :: "packet \<Rightarrow> ((bytes \<times> u64) \<times> packet) option" where
  "ossl_quic_wire_decode_frame_new_token pkt =
     do { pkt \<leftarrow> expect_frame_header pkt OSSL_QUIC_FRAME_TYPE_NEW_TOKEN;
          (token_len, pkt) \<leftarrow> PACKET_get_quic_vlint pkt;
          if token_len > SIZE_MAX then None
          else
            let token = take (unat token_len) (PACKET_data pkt)
            in do { pkt \<leftarrow> PACKET_forward pkt (unat token_len); Some ((token, token_len), pkt) } }"

definition ossl_quic_wire_decode_frame_stream :: "packet \<Rightarrow> bool \<Rightarrow> (ossl_quic_frame_stream \<times> packet) option" where
  "ossl_quic_wire_decode_frame_stream pkt nodata =
     do { (frame_type, pkt) \<leftarrow> expect_frame_header_mask pkt OSSL_QUIC_FRAME_TYPE_STREAM OSSL_QUIC_FRAME_FLAG_STREAM_MASK;
          (sid, pkt) \<leftarrow> PACKET_get_quic_vlint pkt;
          (off, pkt) \<leftarrow> (if frame_type AND OSSL_QUIC_FRAME_FLAG_STREAM_OFF \<noteq> 0 then PACKET_get_quic_vlint pkt
                        else Some (0, pkt));
          let explicit_len = (frame_type AND OSSL_QUIC_FRAME_FLAG_STREAM_LEN \<noteq> 0);
          let fin = (frame_type AND OSSL_QUIC_FRAME_FLAG_STREAM_FIN \<noteq> 0);
          (len, pkt) \<leftarrow> (if explicit_len then PACKET_get_quic_vlint pkt
                        else Some (if nodata then 0 else of_nat (PACKET_remaining pkt), pkt));
          let f = \<lparr>fs_stream_id = sid, fs_offset = off, fs_len = len, fs_data = None, has_explicit_len = explicit_len,
                   fs_is_fin = fin\<rparr>;
          if off + len > push_bit 62 1 - 1 then None
          else if nodata then Some (f, pkt)
          else
            let data = take (unat len) (PACKET_data pkt)
            in if len > SIZE_MAX then None
               else do { pkt \<leftarrow> PACKET_forward pkt (unat len); Some (f\<lparr>fs_data := Some data\<rparr>, pkt) } }"

definition ossl_quic_wire_decode_frame_max_data :: "packet \<Rightarrow> (u64 \<times> packet) option" where
  "ossl_quic_wire_decode_frame_max_data pkt =
     do { pkt \<leftarrow> expect_frame_header pkt OSSL_QUIC_FRAME_TYPE_MAX_DATA; PACKET_get_quic_vlint pkt }"

definition ossl_quic_wire_decode_frame_max_stream_data :: "packet \<Rightarrow> ((u64 \<times> u64) \<times> packet) option" where
  "ossl_quic_wire_decode_frame_max_stream_data pkt =
     do { pkt \<leftarrow> expect_frame_header pkt OSSL_QUIC_FRAME_TYPE_MAX_STREAM_DATA;
          (sid, pkt) \<leftarrow> PACKET_get_quic_vlint pkt;
          (mx, pkt) \<leftarrow> PACKET_get_quic_vlint pkt;
          Some ((sid, mx), pkt) }"

definition ossl_quic_wire_decode_frame_max_streams :: "packet \<Rightarrow> (u64 \<times> packet) option" where
  "ossl_quic_wire_decode_frame_max_streams pkt =
     do { (_, pkt) \<leftarrow> expect_frame_header_mask pkt OSSL_QUIC_FRAME_TYPE_MAX_STREAMS_BIDI 1; PACKET_get_quic_vlint pkt }"

definition ossl_quic_wire_decode_frame_data_blocked :: "packet \<Rightarrow> (u64 \<times> packet) option" where
  "ossl_quic_wire_decode_frame_data_blocked pkt =
     do { pkt \<leftarrow> expect_frame_header pkt OSSL_QUIC_FRAME_TYPE_DATA_BLOCKED; PACKET_get_quic_vlint pkt }"

definition ossl_quic_wire_decode_frame_stream_data_blocked :: "packet \<Rightarrow> ((u64 \<times> u64) \<times> packet) option" where
  "ossl_quic_wire_decode_frame_stream_data_blocked pkt =
     do { pkt \<leftarrow> expect_frame_header pkt OSSL_QUIC_FRAME_TYPE_STREAM_DATA_BLOCKED;
          (sid, pkt) \<leftarrow> PACKET_get_quic_vlint pkt;
          (mx, pkt) \<leftarrow> PACKET_get_quic_vlint pkt;
          Some ((sid, mx), pkt) }"

definition ossl_quic_wire_decode_frame_streams_blocked :: "packet \<Rightarrow> (u64 \<times> packet) option" where
  "ossl_quic_wire_decode_frame_streams_blocked pkt =
     do { (_, pkt) \<leftarrow> expect_frame_header_mask pkt OSSL_QUIC_FRAME_TYPE_STREAMS_BLOCKED_BIDI 1; PACKET_get_quic_vlint pkt }"

definition ossl_quic_wire_decode_frame_new_conn_id :: "packet \<Rightarrow> (ossl_quic_frame_new_conn_id \<times> packet) option" where
  "ossl_quic_wire_decode_frame_new_conn_id pkt =
     do { pkt \<leftarrow> expect_frame_header pkt OSSL_QUIC_FRAME_TYPE_NEW_CONN_ID;
          (seq, pkt) \<leftarrow> PACKET_get_quic_vlint pkt;
          (retire, pkt) \<leftarrow> PACKET_get_quic_vlint pkt;
          if seq < retire then None
          else do {
            (len, pkt) \<leftarrow> PACKET_get_1 pkt;
            if unat len < 1 \<or> unat len > QUIC_MAX_CONN_ID_LEN then None
            else do {
              (c, pkt) \<leftarrow> PACKET_copy_bytes pkt (unat len);
              (token, pkt) \<leftarrow> PACKET_copy_bytes pkt QUIC_STATELESS_RESET_TOKEN_LEN;
              Some (\<lparr>seq_num = seq, retire_prior_to = retire,
                     conn_id = \<lparr>id_len = ucast len, cid = c @ replicate (QUIC_MAX_CONN_ID_LEN - unat len) 0\<rparr>,
                     stateless_reset = token\<rparr>, pkt) } } }"

definition ossl_quic_wire_decode_frame_retire_conn_id :: "packet \<Rightarrow> (u64 \<times> packet) option" where
  "ossl_quic_wire_decode_frame_retire_conn_id pkt =
     do { pkt \<leftarrow> expect_frame_header pkt OSSL_QUIC_FRAME_TYPE_RETIRE_CONN_ID; PACKET_get_quic_vlint pkt }"

definition ossl_quic_wire_decode_frame_path_challenge :: "packet \<Rightarrow> (u64 \<times> packet) option" where
  "ossl_quic_wire_decode_frame_path_challenge pkt =
     do { pkt \<leftarrow> expect_frame_header pkt OSSL_QUIC_FRAME_TYPE_PATH_CHALLENGE; PACKET_get_net_8 pkt }"

definition ossl_quic_wire_decode_frame_path_response :: "packet \<Rightarrow> (u64 \<times> packet) option" where
  "ossl_quic_wire_decode_frame_path_response pkt =
     do { pkt \<leftarrow> expect_frame_header pkt OSSL_QUIC_FRAME_TYPE_PATH_RESPONSE; PACKET_get_net_8 pkt }"

definition ossl_quic_wire_decode_frame_conn_close :: "packet \<Rightarrow> (ossl_quic_frame_conn_close \<times> packet) option" where
  "ossl_quic_wire_decode_frame_conn_close pkt =
     do { (frame_type, pkt) \<leftarrow> expect_frame_header_mask pkt OSSL_QUIC_FRAME_TYPE_CONN_CLOSE_TRANSPORT 1;
          (err, pkt) \<leftarrow> PACKET_get_quic_vlint pkt;
          let app = (frame_type AND 1 \<noteq> 0);
          (ft, pkt) \<leftarrow> (if \<not> app then PACKET_get_quic_vlint pkt else Some (0, pkt));
          (rlen, pkt) \<leftarrow> PACKET_get_quic_vlint pkt;
          if rlen > SIZE_MAX then None
          else do {
            (why, pkt) \<leftarrow> PACKET_get_bytes pkt (unat rlen);
            Some (\<lparr>is_app = app, cc_error_code = err, cc_frame_type = ft, reason = why, reason_len = rlen\<rparr>, pkt) } }"

definition ossl_quic_wire_decode_padding :: "packet \<Rightarrow> u64 \<times> packet" where
  "ossl_quic_wire_decode_padding pkt =
     (let n = length (takeWhile (\<lambda>b. b = 0) (PACKET_data pkt)) in
      case PACKET_forward pkt n of
        None \<Rightarrow> (0, pkt)
      | Some pkt \<Rightarrow> (of_nat n, pkt))"

definition ossl_quic_wire_decode_frame_ping :: "packet \<Rightarrow> packet option" where
  "ossl_quic_wire_decode_frame_ping pkt = expect_frame_header pkt OSSL_QUIC_FRAME_TYPE_PING"

definition ossl_quic_wire_decode_frame_handshake_done :: "packet \<Rightarrow> packet option" where
  "ossl_quic_wire_decode_frame_handshake_done pkt = expect_frame_header pkt OSSL_QUIC_FRAME_TYPE_HANDSHAKE_DONE"

definition ossl_quic_wire_peek_transport_param :: "packet \<Rightarrow> u64 option" where
  "ossl_quic_wire_peek_transport_param pkt = PACKET_peek_quic_vlint pkt"

text \<open>A transport parameter's bytes come with its identifier; their number is the length that is written.\<close>

definition ossl_quic_wire_decode_transport_param_bytes :: "packet \<Rightarrow> ((u64 \<times> bytes) \<times> packet) option" where
  "ossl_quic_wire_decode_transport_param_bytes pkt =
     do { (tid, pkt) \<leftarrow> PACKET_get_quic_vlint pkt;
          (len, pkt) \<leftarrow> PACKET_get_quic_vlint pkt;
          if len > SIZE_MAX then None
          else do { (b, pkt) \<leftarrow> PACKET_get_bytes pkt (unat len); Some ((tid, b), pkt) } }"

definition ossl_quic_wire_decode_transport_param_int :: "packet \<Rightarrow> ((u64 \<times> u64) \<times> packet) option" where
  "ossl_quic_wire_decode_transport_param_int pkt =
     do { ((tid, body), pkt) \<leftarrow> ossl_quic_wire_decode_transport_param_bytes pkt;
          sub \<leftarrow> PACKET_buf_init body (length body);
          (val, sub) \<leftarrow> PACKET_get_quic_vlint sub;
          if PACKET_remaining sub > 0 then None else Some ((tid, val), pkt) }"

text \<open>The identifier's array keeps what it held after the copied bytes: \<open>old\<close> is its content before.\<close>

definition ossl_quic_wire_decode_transport_param_cid :: "packet \<Rightarrow> bytes \<Rightarrow> ((u64 \<times> quic_conn_id) \<times> packet) option" where
  "ossl_quic_wire_decode_transport_param_cid pkt old =
     do { ((tid, body), pkt) \<leftarrow> ossl_quic_wire_decode_transport_param_bytes pkt;
          if length body > QUIC_MAX_CONN_ID_LEN then None
          else Some ((tid, \<lparr>id_len = of_nat (length body), cid = body @ drop (length body) old\<rparr>), pkt) }"

definition ossl_quic_wire_decode_transport_param_preferred_addr ::
    "packet \<Rightarrow> bytes \<Rightarrow> (quic_preferred_addr \<times> packet) option" where
  "ossl_quic_wire_decode_transport_param_preferred_addr pkt old =
     do { ((tid, body), pkt) \<leftarrow> ossl_quic_wire_decode_transport_param_bytes pkt;
          if length body < QUIC_MIN_ENCODED_PREFERRED_ADDR_LEN \<or> length body > QUIC_MAX_ENCODED_PREFERRED_ADDR_LEN
             \<or> tid \<noteq> QUIC_TPARAM_PREFERRED_ADDR then None
          else do {
            pkt2 \<leftarrow> PACKET_buf_init body (length body);
            (v4, pkt2) \<leftarrow> PACKET_copy_bytes pkt2 4;
            (port4, pkt2) \<leftarrow> PACKET_get_net_2 pkt2;
            (v6, pkt2) \<leftarrow> PACKET_copy_bytes pkt2 16;
            (port6, pkt2) \<leftarrow> PACKET_get_net_2 pkt2;
            (cidl, pkt2) \<leftarrow> PACKET_get_1 pkt2;
            if unat cidl > QUIC_MAX_CONN_ID_LEN then None
            else do {
              (c, pkt2) \<leftarrow> PACKET_copy_bytes pkt2 (unat cidl);
              (token, _) \<leftarrow> PACKET_copy_bytes pkt2 QUIC_STATELESS_RESET_TOKEN_LEN;
              Some (\<lparr>ipv4_port = ucast port4, ipv6_port = ucast port6, ipv4 = v4, ipv6 = v6, pa_stateless_reset = token,
                     pa_cid = \<lparr>id_len = ucast cidl, cid = c @ drop (unat cidl) old\<rparr>\<rparr>, pkt) } } }"

end
