(* ===== verification/Quic_Frames.thy ===== *)
theory Quic_Frames
  imports Quic_Wire
begin

text \<open>
  The frames of \<^verbatim>\<open>ssl/quic/quic_wire.c\<close> as one format. \<open>frame_fmt\<close> gives the bytes of every frame as RFC 9000
  section 19 lays them out; each encoder writes just those, through the interface of \<^verbatim>\<open>WPACKET\<close>, and each decoder
  reads them back. \<open>encode_frame\<close> and \<open>decode_frame\<close> choose the function for a frame, the latter by the type it
  peeks at, the way \<^verbatim>\<open>depack_process_frames\<close> of \<^verbatim>\<open>ssl/quic/quic_rx_depack.c\<close> does.
\<close>

section \<open>The format\<close>

datatype quic_frame =
    Padding u64
  | Ping
  | Ack ossl_quic_frame_ack
  | Reset_Stream ossl_quic_frame_reset_stream
  | Stop_Sending ossl_quic_frame_stop_sending
  | Crypto ossl_quic_frame_crypto
  | New_Token bytes u64
  | Stream ossl_quic_frame_stream
  | Max_Data u64
  | Max_Stream_Data u64 u64
  | Max_Streams bool u64
  | Data_Blocked u64
  | Stream_Data_Blocked u64 u64
  | Streams_Blocked bool u64
  | New_Conn_Id ossl_quic_frame_new_conn_id
  | Retire_Conn_Id u64
  | Path_Challenge u64
  | Path_Response u64
  | Conn_Close ossl_quic_frame_conn_close
  | Handshake_Done

fun ints_fmt :: "u64 list \<Rightarrow> bytes option" where
  "ints_fmt [] = Some []"
| "ints_fmt (v # vs) = fmt_seq (vlint_fmt v) (ints_fmt vs)"

fun range_ints :: "ossl_quic_ack_range \<Rightarrow> ossl_quic_ack_range list \<Rightarrow> u64 list" where
  "range_ints prev [] = []"
| "range_ints prev (r # rs) = (ar_start prev - ar_end r - 2) # (ar_end r - ar_start r) # range_ints r rs"

definition ack_delay_field :: "u32 \<Rightarrow> ossl_time \<Rightarrow> u64" where
  "ack_delay_field e t = ossl_time2ticks (ossl_time_divide (ossl_time_divide t OSSL_TIME_US) (push_bit (unat e) 1))"

definition ack_ints :: "u32 \<Rightarrow> ossl_quic_frame_ack \<Rightarrow> u64 list" where
  "ack_ints e a =
     (let r = hd (ack_ranges a) in
      [if ecn_present a then OSSL_QUIC_FRAME_TYPE_ACK_WITH_ECN else OSSL_QUIC_FRAME_TYPE_ACK_WITHOUT_ECN,
       ar_end r, ack_delay_field e (delay_time a), of_nat (length (ack_ranges a)) - 1, ar_end r - ar_start r]
      @ range_ints r (tl (ack_ranges a)) @ (if ecn_present a then [ect0 a, ect1 a, ecnce a] else []))"

definition stream_hdr_ints :: "ossl_quic_frame_stream \<Rightarrow> u64 list" where
  "stream_hdr_ints f =
     [stream_frame_type f, fs_stream_id f] @ (if fs_offset f \<noteq> 0 then [fs_offset f] else [])
     @ (if has_explicit_len f then [fs_len f] else [])"

definition payload_fmt :: "bytes option \<Rightarrow> u64 \<Rightarrow> bytes option" where
  "payload_fmt data len = (if len = 0 then None else Some (take (unat len) (the data)))"

fun frame_fmt :: "u32 \<Rightarrow> quic_frame \<Rightarrow> bytes option" where
  "frame_fmt e (Padding n) = Some (replicate (unat n) 0)"
| "frame_fmt e Ping = ints_fmt [OSSL_QUIC_FRAME_TYPE_PING]"
| "frame_fmt e (Ack a) = (if ack_ranges a = [] then None else ints_fmt (ack_ints e a))"
| "frame_fmt e (Reset_Stream f) =
     ints_fmt [OSSL_QUIC_FRAME_TYPE_RESET_STREAM, rs_stream_id f, rs_app_error_code f, final_size f]"
| "frame_fmt e (Stop_Sending f) = ints_fmt [OSSL_QUIC_FRAME_TYPE_STOP_SENDING, ss_stream_id f, ss_app_error_code f]"
| "frame_fmt e (Crypto f) =
     fmt_seq (ints_fmt [OSSL_QUIC_FRAME_TYPE_CRYPTO, cf_offset f, cf_len f]) (payload_fmt (cf_data f) (cf_len f))"
| "frame_fmt e (New_Token tok n) = fmt_seq (ints_fmt [OSSL_QUIC_FRAME_TYPE_NEW_TOKEN, n]) (Some (take (unat n) tok))"
| "frame_fmt e (Stream f) = fmt_seq (ints_fmt (stream_hdr_ints f)) (payload_fmt (fs_data f) (fs_len f))"
| "frame_fmt e (Max_Data v) = ints_fmt [OSSL_QUIC_FRAME_TYPE_MAX_DATA, v]"
| "frame_fmt e (Max_Stream_Data s v) = ints_fmt [OSSL_QUIC_FRAME_TYPE_MAX_STREAM_DATA, s, v]"
| "frame_fmt e (Max_Streams uni v) =
     ints_fmt [if uni then OSSL_QUIC_FRAME_TYPE_MAX_STREAMS_UNI else OSSL_QUIC_FRAME_TYPE_MAX_STREAMS_BIDI, v]"
| "frame_fmt e (Data_Blocked v) = ints_fmt [OSSL_QUIC_FRAME_TYPE_DATA_BLOCKED, v]"
| "frame_fmt e (Stream_Data_Blocked s v) = ints_fmt [OSSL_QUIC_FRAME_TYPE_STREAM_DATA_BLOCKED, s, v]"
| "frame_fmt e (Streams_Blocked uni v) =
     ints_fmt [if uni then OSSL_QUIC_FRAME_TYPE_STREAMS_BLOCKED_UNI else OSSL_QUIC_FRAME_TYPE_STREAMS_BLOCKED_BIDI, v]"
| "frame_fmt e (New_Conn_Id f) =
     (let n = unat (id_len (conn_id f)) in
      if n < 1 \<or> n > QUIC_MAX_CONN_ID_LEN then None
      else fmt_seq (ints_fmt [OSSL_QUIC_FRAME_TYPE_NEW_CONN_ID, seq_num f, retire_prior_to f])
        (Some (be_bytes 1 (of_nat n) @ take n (cid (conn_id f)) @ take QUIC_STATELESS_RESET_TOKEN_LEN (stateless_reset f))))"
| "frame_fmt e (Retire_Conn_Id v) = ints_fmt [OSSL_QUIC_FRAME_TYPE_RETIRE_CONN_ID, v]"
| "frame_fmt e (Path_Challenge d) = fmt_seq (ints_fmt [OSSL_QUIC_FRAME_TYPE_PATH_CHALLENGE]) (Some (be_bytes 8 d))"
| "frame_fmt e (Path_Response d) = fmt_seq (ints_fmt [OSSL_QUIC_FRAME_TYPE_PATH_RESPONSE]) (Some (be_bytes 8 d))"
| "frame_fmt e (Conn_Close f) =
     fmt_seq (ints_fmt ([if is_app f then OSSL_QUIC_FRAME_TYPE_CONN_CLOSE_APP
                         else OSSL_QUIC_FRAME_TYPE_CONN_CLOSE_TRANSPORT, cc_error_code f]
                        @ (if is_app f then [] else [cc_frame_type f]) @ [reason_len f]))
       (Some (take (unat (reason_len f)) (reason f)))"
| "frame_fmt e Handshake_Done = ints_fmt [OSSL_QUIC_FRAME_TYPE_HANDSHAKE_DONE]"

section \<open>The encoders write the format\<close>

definition ptr_ok :: "c_fault + wpacket \<times> u64 option \<Rightarrow> wres" where
  "ptr_ok m = res_bind m (\<lambda>(p, ptr). Inr (p, ptr \<noteq> None))"

fun encode_frame :: "u32 \<Rightarrow> quic_frame \<Rightarrow> wpacket \<Rightarrow> wres" where
  "encode_frame e (Padding n) = (\<lambda>p. ossl_quic_wire_encode_padding p n)"
| "encode_frame e Ping = (\<lambda>p. ossl_quic_wire_encode_frame_ping p)"
| "encode_frame e (Ack a) = (\<lambda>p. ossl_quic_wire_encode_frame_ack p e a)"
| "encode_frame e (Reset_Stream f) = (\<lambda>p. ossl_quic_wire_encode_frame_reset_stream p f)"
| "encode_frame e (Stop_Sending f) = (\<lambda>p. ossl_quic_wire_encode_frame_stop_sending p f)"
| "encode_frame e (Crypto f) = (\<lambda>p. ptr_ok (ossl_quic_wire_encode_frame_crypto p f))"
| "encode_frame e (New_Token tok n) = (\<lambda>p. ossl_quic_wire_encode_frame_new_token p tok n)"
| "encode_frame e (Stream f) = (\<lambda>p. ptr_ok (ossl_quic_wire_encode_frame_stream p f))"
| "encode_frame e (Max_Data v) = (\<lambda>p. ossl_quic_wire_encode_frame_max_data p v)"
| "encode_frame e (Max_Stream_Data s v) = (\<lambda>p. ossl_quic_wire_encode_frame_max_stream_data p s v)"
| "encode_frame e (Max_Streams uni v) = (\<lambda>p. ossl_quic_wire_encode_frame_max_streams p uni v)"
| "encode_frame e (Data_Blocked v) = (\<lambda>p. ossl_quic_wire_encode_frame_data_blocked p v)"
| "encode_frame e (Stream_Data_Blocked s v) = (\<lambda>p. ossl_quic_wire_encode_frame_stream_data_blocked p s v)"
| "encode_frame e (Streams_Blocked uni v) = (\<lambda>p. ossl_quic_wire_encode_frame_streams_blocked p uni v)"
| "encode_frame e (New_Conn_Id f) = (\<lambda>p. ossl_quic_wire_encode_frame_new_conn_id p f)"
| "encode_frame e (Retire_Conn_Id v) = (\<lambda>p. ossl_quic_wire_encode_frame_retire_conn_id p v)"
| "encode_frame e (Path_Challenge d) = (\<lambda>p. ossl_quic_wire_encode_frame_path_challenge p d)"
| "encode_frame e (Path_Response d) = (\<lambda>p. ossl_quic_wire_encode_frame_path_response p d)"
| "encode_frame e (Conn_Close f) = (\<lambda>p. ossl_quic_wire_encode_frame_conn_close p f)"
| "encode_frame e Handshake_Done = (\<lambda>p. ossl_quic_wire_encode_frame_handshake_done p)"

text \<open>The memory a frame points to is as long as the frame says.\<close>

fun frame_mem :: "u32 \<Rightarrow> quic_frame \<Rightarrow> bool" where
  "frame_mem e (Ack a) = (unat e < 64)"
| "frame_mem e (Crypto f) = (\<exists>d. cf_data f = Some d \<and> unat (cf_len f) = length d)"
| "frame_mem e (New_Token tok n) = (unat n = length tok)"
| "frame_mem e (Stream f) = (\<exists>d. fs_data f = Some d \<and> unat (fs_len f) = length d)"
| "frame_mem e (New_Conn_Id f) =
     (length (cid (conn_id f)) = QUIC_MAX_CONN_ID_LEN \<and> length (stateless_reset f) = QUIC_STATELESS_RESET_TOKEN_LEN)"
| "frame_mem e (Conn_Close f) = (unat (reason_len f) = length (reason f))"
| "frame_mem e _ = True"

lemma fmt_seq_Nil [simp]: "fmt_seq a (Some []) = a" "fmt_seq (Some []) a = a"
  by (cases a; simp)+

lemma fmt_seq_assoc: "fmt_seq (fmt_seq a b) c = fmt_seq a (fmt_seq b c)"
  by (cases a; cases b; cases c) simp_all

lemma fmt_seq_None [simp]: "fmt_seq a None = None" "fmt_seq None a = None"
  by (cases a; simp)+

lemma ints_fmt_append: "ints_fmt (vs @ ws) = fmt_seq (ints_fmt vs) (ints_fmt ws)"
proof (induction vs)
  case Nil
  then show ?case
    by (cases "ints_fmt ws") simp_all
qed (simp add: fmt_seq_assoc)

lemma hdr_writes: "wps.writes (\<lambda>p. encode_frame_hdr p t) (vlint_fmt t)"
  by (simp add: encode_frame_hdr_def wps.vlint_writes)

lemma if_writes: "(c \<Longrightarrow> wps.writes f a) \<Longrightarrow> wps.writes (\<lambda>p. if c then f p else Inr (p, True)) (if c then a else Some [])"
  by (rule wps.writes_if) (auto intro: wps.writes_skip)

lemma ptr_ok_hdr:
  "ptr_ok (res_bind m (\<lambda>(p, ok). if \<not> ok \<or> n > SIZE_MAX then Inr (p, None) else g p)) = wp_then m (\<lambda>p. ptr_ok (g p))"
  by (cases m) (auto simp: ptr_ok_def wp_then_def)

lemma payload_writes:
  assumes "data = Some d" "unat n \<le> length d"
  shows "wps.writes (\<lambda>p. ptr_ok (copy_payload (WPACKET_allocate_bytes p n) data n)) (payload_fmt data n)"
proof (cases "n = 0")
  case True
  then have "ptr_ok (copy_payload (WPACKET_allocate_bytes p n) data n) = Inr (p, False)" for p
    by (simp add: ptr_ok_def copy_payload_def WPACKET_allocate_bytes_def WPACKET_reserve_bytes_def)
  with True show ?thesis
    using wps.writes_fail by (simp add: payload_fmt_def)
next
  case False
  then have "0 < unat n"
    by (simp add: word_neq_0_conv word_less_nat_alt)
  then have "wps.writes (\<lambda>p. ptr_ok (copy_payload (WPACKET_allocate_bytes p n) data n)) (if True then Some (take (unat n) d) else None)"
    by (intro store_writes [where g = "\<lambda>p i. ptr_ok (copy_payload (p, Some i) data n)"])
      (use assms in \<open>auto simp: ptr_ok_def copy_payload_def split: option.splits prod.splits sum.splits simp: res_bind_def\<close>)
  with False assms show ?thesis
    by (simp add: payload_fmt_def)
qed

lemma ack_ranges_writes: "wps.writes (\<lambda>p. encode_ack_ranges p prev rs) (ints_fmt (range_ints prev rs))"
proof (induction rs arbitrary: prev)
  case Nil
  show ?case
    by (simp add: wps.writes_skip)
next
  case (Cons r rs)
  then show ?case
    by (simp add: Let_def wps.field_writes)
qed

lemma ack_writes:
  assumes "unat e < 64"
  shows "wps.writes (\<lambda>p. ossl_quic_wire_encode_frame_ack p e a) (frame_fmt e (Ack a))"
proof (cases "ack_ranges a")
  case Nil
  then show ?thesis
    by (simp add: ossl_quic_wire_encode_frame_ack_def wps.writes_fail)
next
  case (Cons r rs)
  have ecn: "wps.writes (\<lambda>p. if ecn_present a then
        wp_then (WPACKET_quic_write_vlint p (ect0 a)) (\<lambda>p.
        wp_then (WPACKET_quic_write_vlint p (ect1 a)) (\<lambda>p. WPACKET_quic_write_vlint p (ecnce a)))
      else Inr (p, True)) (ints_fmt (if ecn_present a then [ect0 a, ect1 a, ecnce a] else []))"
    by (simp add: wps.field_writes wps.writes_skip)
  show ?thesis
    using Cons assms
    by (simp add: ossl_quic_wire_encode_frame_ack_def Let_def ack_ints_def ints_fmt_append ack_delay_field_def
        wps.field_writes hdr_writes ack_ranges_writes ecn)
qed

lemma stream_hdr_writes:
  "wps.writes (\<lambda>p. ossl_quic_wire_encode_frame_stream_hdr p f) (ints_fmt (stream_hdr_ints f))"
proof -
  have "ints_fmt (stream_hdr_ints f) = fmt_seq (vlint_fmt (stream_frame_type f)) (fmt_seq (vlint_fmt (fs_stream_id f))
      (fmt_seq (if fs_offset f \<noteq> 0 then vlint_fmt (fs_offset f) else Some [])
        (if has_explicit_len f then vlint_fmt (fs_len f) else Some [])))"
    by (simp add: stream_hdr_ints_def)
  then show ?thesis
    unfolding ossl_quic_wire_encode_frame_stream_hdr_def
    by (simp only:) (intro wps.writes_then hdr_writes wps.vlint_writes if_writes)
qed

lemma fixed_1: "fixed_fmt (unat (1 :: u64)) (ucast (b :: u8)) = Some (be_bytes 1 (of_nat (unat b)))"
proof -
  have "unat (ucast b :: u64) = unat b"
    by (simp add: unsigned_ucast_eq take_bit_nat_eq_self order_less_trans [OF unsigned_less])
  moreover have "unat b < 2 ^ 8"
    using unsigned_less [where 'a = nat and w = b] by simp
  ultimately show ?thesis
    by (simp add: fixed_fmt_def)
qed

lemma new_conn_id_writes:
  assumes "frame_mem e (New_Conn_Id f)"
  shows "wps.writes (\<lambda>p. ossl_quic_wire_encode_frame_new_conn_id p f) (frame_fmt e (New_Conn_Id f))"
proof -
  let ?n = "unat (id_len (conn_id f))"
  show ?thesis
  proof (cases "?n < 1 \<or> ?n > QUIC_MAX_CONN_ID_LEN")
    case True
    then show ?thesis
      by (simp add: ossl_quic_wire_encode_frame_new_conn_id_def wps.writes_fail Let_def)
  next
    case False
    have n: "unat (ucast (id_len (conn_id f)) :: u64) = ?n"
      by (simp add: unsigned_ucast_eq take_bit_nat_eq_self order_less_trans [OF unsigned_less])
    have tok: "unat (of_nat QUIC_STATELESS_RESET_TOKEN_LEN :: u64) = QUIC_STATELESS_RESET_TOKEN_LEN"
      by (simp add: QUIC_STATELESS_RESET_TOKEN_LEN_def)
    have "wps.writes (\<lambda>p. ossl_quic_wire_encode_frame_new_conn_id p f)
      (fmt_seq (vlint_fmt OSSL_QUIC_FRAME_TYPE_NEW_CONN_ID) (fmt_seq (vlint_fmt (seq_num f))
        (fmt_seq (vlint_fmt (retire_prior_to f)) (fmt_seq (Some (be_bytes 1 (of_nat ?n)))
        (fmt_seq (Some (take ?n (cid (conn_id f)))) (Some (take QUIC_STATELESS_RESET_TOKEN_LEN (stateless_reset f))))))))"
      using False assms wps.copy_writes [of "ucast (id_len (conn_id f))" "cid (conn_id f)"]
        wps.copy_writes [of "of_nat QUIC_STATELESS_RESET_TOKEN_LEN" "stateless_reset f"]
        wps.put_writes [of "ucast (id_len (conn_id f))" 1]
      unfolding ossl_quic_wire_encode_frame_new_conn_id_def if_not_P [OF False] fixed_1 n tok
      by (intro wps.writes_then hdr_writes wps.vlint_writes) simp_all
    with False show ?thesis
      by (simp add: Let_def fmt_seq_assoc)
  qed
qed

text \<open>Every encoder writes its format: it fails exactly when there is none or it does not fit.\<close>

lemma encode_frame_writes:
  assumes "frame_mem e f"
  shows "wps.writes (encode_frame e f) (frame_fmt e f)"
proof (cases f)
  case (Ack a)
  then show ?thesis
    using ack_writes [of e a] assms by simp
next
  case (Crypto c)
  then obtain d where d: "cf_data c = Some d" "unat (cf_len c) \<le> length d"
    using assms by auto
  have "wps.writes (\<lambda>p. ossl_quic_wire_encode_frame_crypto_hdr p c)
      (ints_fmt [OSSL_QUIC_FRAME_TYPE_CRYPTO, cf_offset c, cf_len c])"
    by (simp add: ossl_quic_wire_encode_frame_crypto_hdr_def hdr_writes wps.field_writes)
  with payload_writes [OF d] Crypto show ?thesis
    unfolding Crypto encode_frame.simps frame_fmt.simps ossl_quic_wire_encode_frame_crypto_def ptr_ok_hdr
    by (intro wps.writes_then) simp_all
next
  case (Stream s)
  then obtain d where d: "fs_data s = Some d" "unat (fs_len s) \<le> length d"
    using assms by auto
  with payload_writes [OF d] stream_hdr_writes [of s] show ?thesis
    unfolding Stream encode_frame.simps frame_fmt.simps ossl_quic_wire_encode_frame_stream_def ptr_ok_hdr
    by (intro wps.writes_then) simp_all
next
  case (New_Conn_Id n)
  then show ?thesis
    using new_conn_id_writes [of e n] assms by simp
next
  case (Conn_Close c)
  have "wps.writes (\<lambda>p. ossl_quic_wire_encode_frame_conn_close p c)
     (fmt_seq (vlint_fmt (if is_app c then OSSL_QUIC_FRAME_TYPE_CONN_CLOSE_APP else OSSL_QUIC_FRAME_TYPE_CONN_CLOSE_TRANSPORT))
       (fmt_seq (vlint_fmt (cc_error_code c)) (fmt_seq (if \<not> is_app c then vlint_fmt (cc_frame_type c) else Some [])
         (fmt_seq (vlint_fmt (reason_len c)) (Some (take (unat (reason_len c)) (reason c)))))))"
    unfolding ossl_quic_wire_encode_frame_conn_close_def using assms Conn_Close
    by (intro wps.writes_then hdr_writes wps.vlint_writes if_writes wps.copy_writes) simp_all
  then show ?thesis
    by (cases "is_app c") (simp_all add: Conn_Close fmt_seq_assoc ints_fmt_append)
next
  case (New_Token tok n)
  then show ?thesis
    using assms wps.copy_writes [of n tok]
    by (simp add: ossl_quic_wire_encode_frame_new_token_def fmt_seq_assoc hdr_writes wps.vlint_writes wps.writes_then)
next
  case (Path_Challenge d)
  have "wps.writes (\<lambda>p. WPACKET_put_bytes_u64 p d) (Some (be_bytes 8 d))"
    using wps.put_writes [of d 8] by (simp add: fixed_fmt_def)
  then show ?thesis
    by (simp add: Path_Challenge ossl_quic_wire_encode_frame_path_challenge_def hdr_writes wps.writes_then)
next
  case (Path_Response d)
  have "wps.writes (\<lambda>p. WPACKET_put_bytes_u64 p d) (Some (be_bytes 8 d))"
    using wps.put_writes [of d 8] by (simp add: fixed_fmt_def)
  then show ?thesis
    by (simp add: Path_Response ossl_quic_wire_encode_frame_path_response_def hdr_writes wps.writes_then)
qed (simp_all add: hdr_writes wps.field_writes ossl_quic_wire_encode_padding_def ossl_quic_wire_encode_frame_ping_def [abs_def]
    ossl_quic_wire_encode_frame_reset_stream_def ossl_quic_wire_encode_frame_stop_sending_def
    ossl_quic_wire_encode_frame_max_data_def ossl_quic_wire_encode_frame_max_stream_data_def
    ossl_quic_wire_encode_frame_max_streams_def ossl_quic_wire_encode_frame_data_blocked_def
    ossl_quic_wire_encode_frame_stream_data_blocked_def ossl_quic_wire_encode_frame_streams_blocked_def
    ossl_quic_wire_encode_frame_retire_conn_id_def ossl_quic_wire_encode_frame_handshake_done_def [abs_def])

section \<open>The decoders read the format\<close>

text \<open>
  A peer's frame is read by the function for its type. An ACK frame is read into an array of the size that was
  peeked for; the fields the frame does not have keep the values of \<open>ack0\<close>.
\<close>

definition ack0 :: "u64 \<Rightarrow> ossl_quic_frame_ack" where
  "ack0 n = \<lparr>ack_ranges = replicate (unat n) \<lparr>ar_start = 0, ar_end = 0\<rparr>, delay_time = ossl_time_zero, ect0 = 0, ect1 = 0,
     ecnce = 0, ecn_present = False\<rparr>"

definition decode_ack :: "u32 \<Rightarrow> packet \<Rightarrow> (quic_frame \<times> packet) option" where
  "decode_ack e pkt =
     do { n \<leftarrow> ossl_quic_wire_peek_frame_ack_num_ranges pkt;
          case ossl_quic_wire_decode_frame_ack pkt e (Some (ack0 n)) of
            Inr (Some (Some a, _, pkt)) \<Rightarrow> Some (Ack a, pkt)
          | _ \<Rightarrow> None }"

definition read_with :: "('a \<Rightarrow> 'b) \<Rightarrow> ('a \<times> packet) option \<Rightarrow> ('b \<times> packet) option" where
  "read_with f = map_option (map_prod f id)"

definition decode_frame :: "u32 \<Rightarrow> packet \<Rightarrow> (quic_frame \<times> packet) option" where
  "decode_frame e pkt =
     (case ossl_quic_wire_peek_frame_header pkt of
        None \<Rightarrow> None
      | Some (t, was_minimal) \<Rightarrow>
          if \<not> was_minimal then None
          else if t = OSSL_QUIC_FRAME_TYPE_PING then map_option (Pair Ping) (ossl_quic_wire_decode_frame_ping pkt)
          else if t = OSSL_QUIC_FRAME_TYPE_PADDING then Some (map_prod Padding id (ossl_quic_wire_decode_padding pkt))
          else if t = OSSL_QUIC_FRAME_TYPE_ACK_WITHOUT_ECN \<or> t = OSSL_QUIC_FRAME_TYPE_ACK_WITH_ECN then decode_ack e pkt
          else if t = OSSL_QUIC_FRAME_TYPE_RESET_STREAM
          then read_with Reset_Stream (ossl_quic_wire_decode_frame_reset_stream pkt)
          else if t = OSSL_QUIC_FRAME_TYPE_STOP_SENDING
          then read_with Stop_Sending (ossl_quic_wire_decode_frame_stop_sending pkt)
          else if t = OSSL_QUIC_FRAME_TYPE_CRYPTO then read_with Crypto (ossl_quic_wire_decode_frame_crypto pkt False)
          else if t = OSSL_QUIC_FRAME_TYPE_NEW_TOKEN
          then read_with (\<lambda>(tok, n). New_Token tok n) (ossl_quic_wire_decode_frame_new_token pkt)
          else if OSSL_QUIC_FRAME_TYPE_STREAM \<le> t \<and> t \<le> 0x0f
          then read_with Stream (ossl_quic_wire_decode_frame_stream pkt False)
          else if t = OSSL_QUIC_FRAME_TYPE_MAX_DATA then read_with Max_Data (ossl_quic_wire_decode_frame_max_data pkt)
          else if t = OSSL_QUIC_FRAME_TYPE_MAX_STREAM_DATA
          then read_with (\<lambda>(s, v). Max_Stream_Data s v) (ossl_quic_wire_decode_frame_max_stream_data pkt)
          else if t = OSSL_QUIC_FRAME_TYPE_MAX_STREAMS_BIDI \<or> t = OSSL_QUIC_FRAME_TYPE_MAX_STREAMS_UNI
          then read_with (Max_Streams (t = OSSL_QUIC_FRAME_TYPE_MAX_STREAMS_UNI)) (ossl_quic_wire_decode_frame_max_streams pkt)
          else if t = OSSL_QUIC_FRAME_TYPE_DATA_BLOCKED
          then read_with Data_Blocked (ossl_quic_wire_decode_frame_data_blocked pkt)
          else if t = OSSL_QUIC_FRAME_TYPE_STREAM_DATA_BLOCKED
          then read_with (\<lambda>(s, v). Stream_Data_Blocked s v) (ossl_quic_wire_decode_frame_stream_data_blocked pkt)
          else if t = OSSL_QUIC_FRAME_TYPE_STREAMS_BLOCKED_BIDI \<or> t = OSSL_QUIC_FRAME_TYPE_STREAMS_BLOCKED_UNI
          then read_with (Streams_Blocked (t = OSSL_QUIC_FRAME_TYPE_STREAMS_BLOCKED_UNI))
                 (ossl_quic_wire_decode_frame_streams_blocked pkt)
          else if t = OSSL_QUIC_FRAME_TYPE_NEW_CONN_ID
          then read_with New_Conn_Id (ossl_quic_wire_decode_frame_new_conn_id pkt)
          else if t = OSSL_QUIC_FRAME_TYPE_RETIRE_CONN_ID
          then read_with Retire_Conn_Id (ossl_quic_wire_decode_frame_retire_conn_id pkt)
          else if t = OSSL_QUIC_FRAME_TYPE_PATH_CHALLENGE
          then read_with Path_Challenge (ossl_quic_wire_decode_frame_path_challenge pkt)
          else if t = OSSL_QUIC_FRAME_TYPE_PATH_RESPONSE
          then read_with Path_Response (ossl_quic_wire_decode_frame_path_response pkt)
          else if t = OSSL_QUIC_FRAME_TYPE_CONN_CLOSE_TRANSPORT \<or> t = OSSL_QUIC_FRAME_TYPE_CONN_CLOSE_APP
          then read_with Conn_Close (ossl_quic_wire_decode_frame_conn_close pkt)
          else if t = OSSL_QUIC_FRAME_TYPE_HANDSHAKE_DONE
          then map_option (Pair Handshake_Done) (ossl_quic_wire_decode_frame_handshake_done pkt)
          else None)"

fun ranges_ok :: "ossl_quic_ack_range \<Rightarrow> ossl_quic_ack_range list \<Rightarrow> bool" where
  "ranges_ok prev [] = True"
| "ranges_ok prev (r # rs) =
     (ar_start r \<le> ar_end r \<and> unat (ar_end r) + 2 \<le> unat (ar_start prev) \<and> ranges_ok r rs)"

text \<open>
  What the decoders, and RFC 9000, ask of a frame: descending and separated ACK ranges, data that ends within the
  62-bit offsets, an explicit length (other frames may follow). The delay of an ACK frame is a multiple of the unit.
\<close>

fun frame_ok :: "u32 \<Rightarrow> quic_frame \<Rightarrow> bool" where
  "frame_ok e (Padding n) = (n \<noteq> 0)"
| "frame_ok e (Ack a) =
     (case ack_ranges a of
        [] \<Rightarrow> False
      | r # rs \<Rightarrow> ar_start r \<le> ar_end r \<and> ranges_ok r rs \<and> length rs < 2 ^ 62
          \<and> ack_delay_decode (ack_delay_field e (delay_time a)) e = delay_time a
          \<and> (ecn_present a \<or> ect0 a = 0 \<and> ect1 a = 0 \<and> ecnce a = 0))"
| "frame_ok e (Crypto f) = (unat (cf_offset f) + unat (cf_len f) < 2 ^ 62)"
| "frame_ok e (Stream f) = (has_explicit_len f \<and> unat (fs_offset f) + unat (fs_len f) < 2 ^ 62)"
| "frame_ok e (New_Conn_Id f) =
     (retire_prior_to f \<le> seq_num f
      \<and> drop (unat (id_len (conn_id f))) (cid (conn_id f)) = replicate (QUIC_MAX_CONN_ID_LEN - unat (id_len (conn_id f))) 0)"
| "frame_ok e (Conn_Close f) = (is_app f \<longrightarrow> cc_frame_type f = 0)"
| "frame_ok e _ = True"

lemma vlint_fmt_Some [simp]: "vlint_fmt v = Some b \<longleftrightarrow> v \<le> OSSL_QUIC_VLINT_MAX \<and> b = ossl_quic_vlint_encode v"
  by (auto simp: vlint_fmt_def)

lemma skip_header_reads [packet_read]:
  assumes "t \<le> OSSL_QUIC_VLINT_MAX"
  shows "ossl_quic_wire_peek_frame_header (ossl_quic_vlint_encode t @ r) = Some (t, True)"
    and "expect_frame_header (ossl_quic_vlint_encode t @ r) t = Some r"
    and "t AND NOT m = x \<Longrightarrow> expect_frame_header_mask (ossl_quic_vlint_encode t @ r) x m = Some (t, r)"
  using assms
  by (simp_all add: ossl_quic_wire_peek_frame_header_def expect_frame_header_def expect_frame_header_mask_def
      ossl_quic_wire_skip_frame_header_def packet_read)

text \<open>
  The peek goes over two integers per range from the field before them on, so it stops one integer short of the
  last range.
\<close>

lemma skip_ack_ranges_reads:
  assumes "ints_fmt vs = Some bs" and "2 * n \<le> length vs"
  shows "\<exists>r'. skip_ack_ranges (bs @ r) n = Some r'"
  using assms
proof (induction n arbitrary: vs bs)
  case (Suc n)
  then obtain v w vs' where vs: "vs = v # w # vs'"
    by (cases vs rule: remdups_adj.cases) auto
  with Suc.prems Suc.IH [of vs'] show ?case
    by (auto simp: packet_read)
qed simp

lemma length_range_ints [simp]: "length (range_ints prev rs) = 2 * length rs"
  by (induction rs arbitrary: prev) simp_all

lemma decode_ack_ranges_reads:
  assumes "ints_fmt (range_ints prev rs) = Some bs" and "ranges_ok prev rs" and "length junk = length rs"
    and "length done = i + 1"
  shows "decode_ack_ranges (bs @ r) (ar_start prev) i (length rs) (Some (done @ junk)) = Some (Some (done @ rs), r)"
  using assms
proof (induction rs arbitrary: prev bs junk "done" i)
  case (Cons s rs)
  let ?gap = "ar_start prev - ar_end s - 2" and ?len = "ar_end s - ar_start s"
  obtain bs' where bs: "ints_fmt (range_ints s rs) = Some bs'"
    "bs = ossl_quic_vlint_encode ?gap @ ossl_quic_vlint_encode ?len @ bs'" "?gap \<le> OSSL_QUIC_VLINT_MAX"
    "?len \<le> OSSL_QUIC_VLINT_MAX"
    using Cons.prems(1) by auto
  obtain j junk' where junk: "junk = j # junk'"
    using Cons.prems(3) by (cases junk) auto
  have le: "ar_end s \<le> ar_start prev" "ar_start s \<le> ar_end s"
    using Cons.prems(2) by (auto simp: word_le_nat_alt)
  have "?gap + 2 \<le> ar_start prev" "?len \<le> ar_end s"
    using le by (simp_all add: word_le_nat_alt unat_sub_no_underflow)
  moreover have "ar_start prev - ?gap - 2 = ar_end s" "ar_end s - ?len = ar_start s"
    by simp_all
  moreover have "(done @ junk)[i + 1 := \<lparr>ar_start = ar_start s, ar_end = ar_end s\<rparr>] = (done @ [s]) @ junk'"
    using Cons.prems(4) junk by (simp add: list_update_append)
  moreover have "decode_ack_ranges (bs' @ r) (ar_start s) (i + 1) (length rs) (Some ((done @ [s]) @ junk'))
      = Some (Some ((done @ [s]) @ rs), r)"
    using Cons.prems bs(1) junk by (intro Cons.IH) simp_all
  ultimately show ?case
    using bs Cons.prems(4) junk by (simp add: packet_read Let_def leD)
qed simp

lemma decode_ack_reads:
  assumes fmt: "frame_fmt e (Ack a) = Some bs" and ok: "frame_ok e (Ack a)" "frame_mem e (Ack a)"
  shows "decode_ack e (bs @ rest) = Some (Ack a, rest)"
proof -
  obtain r rs where r: "ack_ranges a = r # rs" "ar_start r \<le> ar_end r" "ranges_ok r rs" "length rs < 2 ^ 62"
    "ack_delay_decode (ack_delay_field e (delay_time a)) e = delay_time a"
    "ecn_present a \<or> ect0 a = 0 \<and> ect1 a = 0 \<and> ecnce a = 0"
    using ok by (auto split: list.splits)
  let ?t = "if ecn_present a then OSSL_QUIC_FRAME_TYPE_ACK_WITH_ECN else OSSL_QUIC_FRAME_TYPE_ACK_WITHOUT_ECN"
  let ?d = "ack_delay_field e (delay_time a)" and ?n = "of_nat (length rs) :: u64" and ?l = "ar_end r - ar_start r"
  let ?ecn = "if ecn_present a then [ect0 a, ect1 a, ecnce a] else []"
  obtain rb eb where b: "ints_fmt (range_ints r rs) = Some rb" "ints_fmt ?ecn = Some eb"
    "bs = ossl_quic_vlint_encode ?t @ ossl_quic_vlint_encode (ar_end r) @ ossl_quic_vlint_encode ?d
      @ ossl_quic_vlint_encode ?n @ ossl_quic_vlint_encode ?l @ rb @ eb"
    and v: "?t \<le> OSSL_QUIC_VLINT_MAX" "ar_end r \<le> OSSL_QUIC_VLINT_MAX" "?d \<le> OSSL_QUIC_VLINT_MAX"
      "?n \<le> OSSL_QUIC_VLINT_MAX" "?l \<le> OSSL_QUIC_VLINT_MAX"
    using fmt r(1) by (auto simp: ack_ints_def Let_def ints_fmt_append)
  have t: "?t AND NOT 1 = OSSL_QUIC_FRAME_TYPE_ACK_WITHOUT_ECN"
    by (simp add: frame_type_defs)
  have n: "unat ?n = length rs" "unat (?n + 1) = length rs + 1"
    using r(4) by (simp_all add: unat_of_nat unat_word_ariths)
  have peek: "ossl_quic_wire_peek_frame_ack_num_ranges (bs @ rest) = Some (?n + 1)"
  proof -
    have "ints_fmt (?l # range_ints r rs) = Some (ossl_quic_vlint_encode ?l @ rb)"
      using v b(1) by simp
    then obtain r' where "skip_ack_ranges ((ossl_quic_vlint_encode ?l @ rb) @ eb @ rest) (length rs) = Some r'"
      using skip_ack_ranges_reads [where n = "length rs"] by fastforce
    then show ?thesis
      using v t by (simp add: b(3) ossl_quic_wire_peek_frame_ack_num_ranges_def packet_read n)
  qed
  have start: "ar_end r - ?l = ar_start r" "\<not> ar_end r < ?l"
    using r(2) by (simp_all add: word_less_nat_alt unat_sub_no_underflow)
  have ranges: "decode_ack_ranges (rb @ eb @ rest) (ar_start r) 0 (length rs)
      (Some ([r] @ replicate (length rs) \<lparr>ar_start = 0, ar_end = 0\<rparr>)) = Some (Some ([r] @ rs), eb @ rest)"
    using b(1) r(3) by (intro decode_ack_ranges_reads) simp_all
  have upd: "(ack_ranges (ack0 (?n + 1)))[0 := \<lparr>ar_start = ar_start r, ar_end = ar_end r\<rparr>]
      = [r] @ replicate (length rs) \<lparr>ar_start = 0, ar_end = 0\<rparr>"
    using n by (simp add: ack0_def)
  let ?a = "(ack0 (?n + 1))\<lparr>delay_time := delay_time a, ack_ranges := r # rs\<rparr>"
  have ecn: "ack_set_ecn (eb @ rest) ?t (Some ?a) = Some (Some a, rest)"
    using b(2) r(1,6) by (auto simp: ack_set_ecn_def packet_read frame_type_defs ack0_def)
  have "ossl_quic_wire_decode_frame_ack (bs @ rest) e (Some (ack0 (?n + 1))) = Inr (Some (Some a, ?n + 1, rest))"
    using v t start ranges upd ecn n r(5) ok(2)
    by (simp add: b(3) ossl_quic_wire_decode_frame_ack_def decode_ack_header_def packet_read Let_def)
  with peek show ?thesis
    by (simp add: decode_ack_def)
qed

lemma offset_limit:
  fixes a b :: u64
  assumes "unat a + unat b < 2 ^ 62"
  shows "a + b \<le> push_bit 62 1 - 1"
proof -
  have "unat (a + b) = unat a + unat b"
    using assms by (intro unat_add_no_overflow) simp
  then show ?thesis
    using assms by (simp add: word_le_nat_alt push_bit_of_1)
qed

lemma stream_hdr_reads:
  assumes "ints_fmt (stream_hdr_ints s) = Some hb" and "has_explicit_len s" and "fs_data s = Some d"
    and "unat (fs_len s) = length d"
  shows "ossl_quic_wire_decode_frame_stream (hb @ d @ rest) False
      = (if fs_offset s + fs_len s > push_bit 62 1 - 1 then None else Some (s, rest))"
    and "ossl_quic_wire_peek_frame_header (hb @ d @ rest) = Some (stream_frame_type s, True)"
proof -
  show "ossl_quic_wire_decode_frame_stream (hb @ d @ rest) False
      = (if fs_offset s + fs_len s > push_bit 62 1 - 1 then None else Some (s, rest))"
    using assms
    by (cases "fs_offset s = 0"; cases "fs_is_fin s")
      (auto simp: frame_type_defs packet_read ossl_quic_wire_decode_frame_stream_def stream_frame_type_def
        stream_hdr_ints_def PACKET_data_def Let_def)
  show "ossl_quic_wire_peek_frame_header (hb @ d @ rest) = Some (stream_frame_type s, True)"
    using assms(1) by (auto simp: stream_hdr_ints_def packet_read)
qed

lemma decode_stream_reads:
  assumes fmt: "frame_fmt e (Stream s) = Some bs" and ok: "frame_ok e (Stream s)" "frame_mem e (Stream s)"
  shows "decode_frame e (bs @ rest) = Some (Stream s, rest)"
proof -
  have lim: "\<not> fs_offset s + fs_len s > push_bit 62 1 - 1"
    using ok(1) offset_limit [of "fs_offset s" "fs_len s"] by simp
  obtain d where d: "fs_data s = Some d" "unat (fs_len s) = length d" "has_explicit_len s"
    using ok by auto
  obtain hb where hb: "ints_fmt (stream_hdr_ints s) = Some hb" "bs = hb @ d"
    using fmt d by (auto simp: payload_fmt_def split: if_splits)
  have "8 \<le> stream_frame_type s" "stream_frame_type s \<le> 0x0f" "stream_frame_type s \<noteq> 1"
    by (simp_all add: stream_frame_type_def frame_type_defs)
  then show ?thesis
    using stream_hdr_reads [OF hb(1) d(3,1,2), of rest] lim hb(2)
    by (auto simp: decode_frame_def frame_type_defs read_with_def)
qed

lemma decode_new_conn_id_reads:
  assumes fmt: "frame_fmt e (New_Conn_Id f) = Some bs" and ok: "frame_ok e (New_Conn_Id f)" "frame_mem e (New_Conn_Id f)"
  shows "decode_frame e (bs @ rest) = Some (New_Conn_Id f, rest)"
proof -
  let ?n = "unat (id_len (conn_id f))"
  have n: "1 \<le> ?n" "?n \<le> QUIC_MAX_CONN_ID_LEN" "?n \<le> length (cid (conn_id f))"
    using fmt ok by (auto simp: Let_def split: if_splits)
  have small: "unat (of_nat ?n :: u64) = ?n" "?n < 2 ^ 8"
    using n by (simp_all add: QUIC_MAX_CONN_ID_LEN_def unsigned_ucast_eq take_bit_nat_eq_self)
  have "unat (of_nat ?n :: u64) < 2 ^ 32"
    unfolding small(1) using small(2) by simp
  note len = trans [OF unat_ucast_u32 [OF this] small(1)]
  have id: "ucast (ucast (of_nat ?n :: u64) :: u32) = id_len (conn_id f)"
    by (rule bit_word_eqI) (simp add: bit_simps)
  have full: "take ?n (cid (conn_id f)) @ replicate (QUIC_MAX_CONN_ID_LEN - ?n) 0 = cid (conn_id f)"
    using ok(1) by (metis append_take_drop_id frame_ok.simps(5))
  have v: "bs = ossl_quic_vlint_encode OSSL_QUIC_FRAME_TYPE_NEW_CONN_ID @ ossl_quic_vlint_encode (seq_num f)
      @ ossl_quic_vlint_encode (retire_prior_to f) @ be_bytes 1 (of_nat ?n) @ take ?n (cid (conn_id f)) @ stateless_reset f"
    "seq_num f \<le> OSSL_QUIC_VLINT_MAX" "retire_prior_to f \<le> OSSL_QUIC_VLINT_MAX" "retire_prior_to f \<le> seq_num f"
    "length (stateless_reset f) = QUIC_STATELESS_RESET_TOKEN_LEN"
    using fmt ok n by (auto simp: Let_def)
  have n1: "\<not> (?n < 1 \<or> ?n > QUIC_MAX_CONN_ID_LEN)"
    using n by auto
  have t: "OSSL_QUIC_FRAME_TYPE_NEW_CONN_ID \<le> OSSL_QUIC_VLINT_MAX"
    by (simp add: frame_type_defs OSSL_QUIC_VLINT_MAX_def push_bit_of_1)
  have "ossl_quic_wire_decode_frame_new_conn_id (bs @ rest) = Some (f, rest)"
    using v small len id n1 full n t
    unfolding ossl_quic_wire_decode_frame_new_conn_id_def
    by (simp add: packet_read leD del: One_nat_def)
  moreover have "ossl_quic_wire_peek_frame_header (bs @ rest) = Some (OSSL_QUIC_FRAME_TYPE_NEW_CONN_ID, True)"
    using v t by (simp add: packet_read)
  ultimately show ?thesis
    by (simp add: decode_frame_def frame_type_defs read_with_def)
qed

text \<open>A frame's bytes are read as the frame, whatever follows; padding must not be followed by more of it.\<close>

lemma decode_frame_reads:
  assumes fmt: "frame_fmt e f = Some bs" and ok: "frame_ok e f" "frame_mem e f"
    and pad: "\<And>n. f = Padding n \<Longrightarrow> rest = [] \<or> hd rest \<noteq> 0"
  shows "decode_frame e (bs @ rest) = Some (f, rest)"
proof (cases f)
  case (Padding n)
  with fmt ok have n: "bs = replicate (unat n) 0" "0 < unat n"
    by (auto simp: word_neq_0_conv word_less_nat_alt)
  then obtain m where m: "unat n = Suc m"
    by (cases "unat n") auto
  have "ossl_quic_vlint_encode 0 = [0]"
    by (simp add: ossl_quic_vlint_encode_def ossl_quic_vlint_encode_len_def ossl_quic_vlint_encode_n_def
        OSSL_QUIC_VLINT_2B_MIN_def byte_of_def)
  then have "bs @ rest = ossl_quic_vlint_encode 0 @ replicate m 0 @ rest"
    using n m by simp
  then have peek: "ossl_quic_wire_peek_frame_header (bs @ rest) = Some (0, True)"
    by (simp only: skip_header_reads(1) [of 0] word_zero_le)
  have "takeWhile (\<lambda>b. b = 0) (bs @ rest) = bs"
    using n pad [OF Padding] by (cases rest) (simp_all add: takeWhile_append)
  then show ?thesis
    using peek n by (simp add: Padding decode_frame_def frame_type_defs ossl_quic_wire_decode_padding_def PACKET_data_def
        packet_read)
next
  case (Ack a)
  then obtain r where "bs = ossl_quic_vlint_encode (if ecn_present a then OSSL_QUIC_FRAME_TYPE_ACK_WITH_ECN
      else OSSL_QUIC_FRAME_TYPE_ACK_WITHOUT_ECN) @ r"
    using fmt by (auto simp: ack_ints_def Let_def split: if_splits)
  then have "ossl_quic_wire_peek_frame_header (bs @ rest)
      = Some (if ecn_present a then OSSL_QUIC_FRAME_TYPE_ACK_WITH_ECN else OSSL_QUIC_FRAME_TYPE_ACK_WITHOUT_ECN, True)"
    by (simp add: packet_read frame_type_defs OSSL_QUIC_VLINT_MAX_def push_bit_of_1)
  then show ?thesis
    using decode_ack_reads [of e a bs rest] fmt ok Ack by (auto simp: decode_frame_def frame_type_defs)
next
  case (Stream s)
  show ?thesis
    unfolding Stream using fmt ok Stream by (auto intro: decode_stream_reads)
next
  case (New_Conn_Id c)
  show ?thesis
    unfolding New_Conn_Id using fmt ok New_Conn_Id by (auto intro: decode_new_conn_id_reads)
next
  case (Conn_Close c)
  with fmt ok show ?thesis
    by (auto simp: decode_frame_def frame_type_defs read_with_def packet_read ossl_quic_wire_decode_frame_conn_close_def
        ints_fmt_append split: if_splits)
next
  case (Crypto c)
  then have "\<not> cf_offset c + cf_len c > push_bit 62 1 - 1"
    using ok(1) offset_limit [of "cf_offset c" "cf_len c"] by simp
  with fmt ok Crypto show ?thesis
    by (auto simp: decode_frame_def frame_type_defs read_with_def packet_read ossl_quic_wire_decode_frame_crypto_def
        payload_fmt_def PACKET_remaining_def PACKET_data_def split: if_splits)
next
  case (New_Token tok n)
  with fmt ok show ?thesis
    by (auto simp: decode_frame_def frame_type_defs read_with_def packet_read ossl_quic_wire_decode_frame_new_token_def
        PACKET_data_def)
qed (use fmt in \<open>auto simp: decode_frame_def frame_type_defs read_with_def packet_read
    ossl_quic_wire_decode_frame_ping_def
    ossl_quic_wire_decode_frame_reset_stream_def ossl_quic_wire_decode_frame_stop_sending_def
    ossl_quic_wire_decode_frame_max_data_def ossl_quic_wire_decode_frame_max_stream_data_def
    ossl_quic_wire_decode_frame_max_streams_def ossl_quic_wire_decode_frame_data_blocked_def
    ossl_quic_wire_decode_frame_stream_data_blocked_def ossl_quic_wire_decode_frame_streams_blocked_def
    ossl_quic_wire_decode_frame_retire_conn_id_def ossl_quic_wire_decode_frame_handshake_done_def
    ossl_quic_wire_decode_frame_path_challenge_def ossl_quic_wire_decode_frame_path_response_def
    split: if_splits\<close>)

section \<open>Sequences of frames\<close>

fun encode_frames :: "u32 \<Rightarrow> quic_frame list \<Rightarrow> wpacket \<Rightarrow> wres" where
  "encode_frames e [] = (\<lambda>p. Inr (p, True))"
| "encode_frames e (f # fs) = (\<lambda>p. wp_then (encode_frame e f p) (encode_frames e fs))"

fun frames_fmt :: "u32 \<Rightarrow> quic_frame list \<Rightarrow> bytes option" where
  "frames_fmt e [] = Some []"
| "frames_fmt e (f # fs) = fmt_seq (frame_fmt e f) (frames_fmt e fs)"

fun decode_frames :: "u32 \<Rightarrow> nat \<Rightarrow> packet \<Rightarrow> quic_frame list option" where
  "decode_frames e 0 pkt = (if pkt = [] then Some [] else None)"
| "decode_frames e (Suc n) pkt =
     (if pkt = [] then Some []
      else do { (f, pkt) \<leftarrow> decode_frame e pkt; fs \<leftarrow> decode_frames e n pkt; Some (f # fs) })"

fun is_padding :: "quic_frame \<Rightarrow> bool" where
  "is_padding (Padding n) = True"
| "is_padding _ = False"

fun pads_apart :: "quic_frame list \<Rightarrow> bool" where
  "pads_apart (f # g # fs) = (\<not> (is_padding f \<and> is_padding g) \<and> pads_apart (g # fs))"
| "pads_apart _ = True"

lemma one_byte: "0 < t \<Longrightarrow> t < 64 \<Longrightarrow> ossl_quic_vlint_encode t = [byte_of t] \<and> byte_of t \<noteq> 0" for t :: u64
proof -
  assume t: "0 < t" "t < 64"
  then have "unat t < 64" "0 < unat t"
    by (simp_all add: word_less_nat_alt)
  then have "unat (byte_of t) = unat t"
    by (simp add: byte_of_def unsigned_ucast_eq take_bit_nat_eq_self)
  with t(1) have "byte_of t \<noteq> 0"
    by (auto simp: word_less_nat_alt)
  with t show ?thesis
    by (simp add: ossl_quic_vlint_encode_def ossl_quic_vlint_encode_len_def ossl_quic_vlint_encode_n_def
        OSSL_QUIC_VLINT_2B_MIN_def)
qed

lemma stream_type_bounds: "0 < stream_frame_type s \<and> stream_frame_type s < 64"
  by (simp add: stream_frame_type_def frame_type_defs)

fun nonzero_first :: "bytes option \<Rightarrow> bool" where
  "nonzero_first None = True"
| "nonzero_first (Some bs) = (bs \<noteq> [] \<and> hd bs \<noteq> 0)"

lemma nonzero_first_ints: "0 < t \<Longrightarrow> t < 64 \<Longrightarrow> nonzero_first (ints_fmt (t # vs))"
  using one_byte [of t] by (cases "ints_fmt vs") (auto simp: vlint_fmt_def)

lemma nonzero_first_seq: "nonzero_first a \<Longrightarrow> nonzero_first (fmt_seq a b)"
  by (cases a; cases b) auto

lemma frame_fmt_nonzero_first: "\<not> is_padding f \<Longrightarrow> nonzero_first (frame_fmt e f)"
  using stream_type_bounds
  by (cases f) (simp_all add: nonzero_first_ints nonzero_first_seq frame_type_defs ack_ints_def stream_hdr_ints_def Let_def
      del: ints_fmt.simps(2))

lemma frame_fmt_first:
  assumes "frame_fmt e f = Some bs" and "frame_ok e f"
  shows "bs \<noteq> []" and "\<not> is_padding f \<Longrightarrow> hd bs \<noteq> 0"
proof -
  have first: "\<not> is_padding f \<Longrightarrow> bs \<noteq> [] \<and> hd bs \<noteq> 0"
    using frame_fmt_nonzero_first [of f e] unfolding assms(1) by simp
  then show "\<not> is_padding f \<Longrightarrow> hd bs \<noteq> 0"
    by simp
  show "bs \<noteq> []"
  proof (cases "is_padding f")
    case True
    then show ?thesis
      using assms by (cases f rule: is_padding.cases) (auto simp: unat_eq_zero)
  next
    case False
    with first show ?thesis
      by simp
  qed
qed

lemma frames_fmt_first:
  assumes "frames_fmt e (f # fs) = Some bs" and "frame_ok e f" and "\<not> is_padding f"
  shows "hd bs \<noteq> 0"
  using assms frame_fmt_first [of e f] by (auto simp: hd_append)

lemma decode_frames_reads:
  assumes "frames_fmt e fs = Some bs" and "\<And>f. f \<in> set fs \<Longrightarrow> frame_ok e f \<and> frame_mem e f" and "pads_apart fs"
    and "length fs \<le> n"
  shows "decode_frames e n bs = Some fs"
  using assms
proof (induction fs arbitrary: bs n)
  case Nil
  then show ?case
    by (cases n) simp_all
next
  case (Cons f fs)
  then obtain m where m: "n = Suc m"
    by (cases n) auto
  obtain x y where xy: "frame_fmt e f = Some x" "frames_fmt e fs = Some y" "bs = x @ y"
    using Cons.prems(1) by auto
  have pad: "y = [] \<or> hd y \<noteq> 0" if "f = Padding k" for k
    using that xy(2) Cons.prems(2,3) frames_fmt_first [of e] by (cases fs) fastforce+
  have "decode_frame e (x @ y) = Some (f, y)"
    using xy(1) Cons.prems(2) pad by (intro decode_frame_reads) auto
  moreover have "decode_frames e m y = Some fs"
    using Cons xy(2) m by (intro Cons.IH) (auto elim: pads_apart.elims)
  ultimately show ?case
    using m xy frame_fmt_first(1) [OF xy(1)] Cons.prems(2) by auto
qed

lemma encode_frames_writes:
  "(\<And>f. f \<in> set fs \<Longrightarrow> frame_mem e f) \<Longrightarrow> wps.writes (encode_frames e fs) (frames_fmt e fs)"
  by (induction fs) (simp_all add: wps.writes_skip wps.writes_then encode_frame_writes)

lemma frames_fmt_length:
  assumes "frames_fmt e fs = Some bs" and "\<And>f. f \<in> set fs \<Longrightarrow> frame_ok e f"
  shows "length fs \<le> length bs"
  using assms
proof (induction fs arbitrary: bs)
  case (Cons f fs)
  then obtain x y where xy: "frame_fmt e f = Some x" "frames_fmt e fs = Some y" "bs = x @ y"
    by auto
  then show ?case
    using Cons.IH [OF xy(2)] Cons.prems(2) frame_fmt_first(1) [OF xy(1)] by (cases x) fastforce+
qed simp

text \<open>
  Property C4. Any sequence of well-formed frames is written to a packet by the encoders without a fault, successfully
  exactly when all of it has an encoding that fits in the packet, behind what the packet held; and the decoders, chosen
  by the frame types they meet, read the written bytes back as the same sequence.
\<close>

theorem quic_frames_round_trip:
  assumes "wp_ok p" and "\<forall>f \<in> set fs. frame_ok e f \<and> frame_mem e f" and "pads_apart fs"
  shows "\<exists>p' done. encode_frames e fs p = Inr (p', done) \<and> wp_ok p' \<and> prefix (wp_bytes p) (wp_bytes p')
    \<and> done = fmt_fits (wp_room p) (frames_fmt e fs)
    \<and> (done \<longrightarrow> decode_frames e (length (wp_bytes p')) (drop (length (wp_bytes p)) (wp_bytes p')) = Some fs)"
proof -
  have w: "wps.writes (encode_frames e fs) (frames_fmt e fs)"
    using assms(2) by (intro encode_frames_writes) auto
  show ?thesis
  proof (cases "fmt_fits (wp_room p) (frames_fmt e fs)")
    case True
    then obtain bs where bs: "frames_fmt e fs = Some bs"
      by (auto simp: fmt_fits_Some)
    from True show ?thesis
    proof (rule wps.writes_fits [OF w assms(1)])
      fix p' assume p': "encode_frames e fs p = Inr (p', True)" "wp_ok p'"
        "wp_bytes p' = wp_bytes p @ the (frames_fmt e fs)"
      have "decode_frames e (length (wp_bytes p')) bs = Some fs"
        using bs assms(2,3) frames_fmt_length [OF bs] p'(3)
        by (intro decode_frames_reads) (auto intro: trans_le_add2)
      with p' bs True show ?thesis
        by (intro exI [of _ p'] exI [of _ True]) (simp add: prefix_def)
    qed
  next
    case False
    then show ?thesis
      by (rule wps.writes_full [OF w assms(1)]) (use False in auto)
  qed
qed

theorem quic_frames_round_trip_witness:
  "\<exists>p' done. encode_frames 3 [Padding 2, Max_Data 70, Path_Challenge 9] wp_example = Inr (p', done) \<and> done
    \<and> decode_frames 3 (length (wp_bytes p')) (wp_bytes p') = Some [Padding 2, Max_Data 70, Path_Challenge 9]"
proof -
  have "fmt_fits 32 (frames_fmt 3 [Padding 2, Max_Data 70, Path_Challenge 9])"
    by (simp add: vlint_fmt_def frame_type_defs OSSL_QUIC_VLINT_MAX_def push_bit_of_1 ossl_quic_vlint_encode_def
        ossl_quic_vlint_encode_len_def ossl_quic_vlint_encode_n_def OSSL_QUIC_VLINT_2B_MIN_def OSSL_QUIC_VLINT_4B_MIN_def)
  then show ?thesis
    using quic_frames_round_trip [of wp_example "[Padding 2, Max_Data 70, Path_Challenge 9]" 3] wp_example_ok by auto
qed

section \<open>Any input\<close>

text \<open>What is left after a decoder is a proper tail of the packet, whatever the packet holds.\<close>

lemma get_vlint_tail:
  assumes "PACKET_get_quic_vlint pkt = Some (v, r)"
  shows "strict_suffix r pkt"
proof -
  obtain x where "pkt = x @ r" "0 < length x"
    using get_vlint_suffix(1) [OF assms] by blast
  then show ?thesis
    by (simp add: strict_suffix_def suffix_def)
qed

lemmas get_vlint_suffix' = suffix_order.less_imp_le [OF get_vlint_tail]

lemma expect_header_tail:
  "expect_frame_header pkt t = Some r \<Longrightarrow> strict_suffix r pkt"
  "expect_frame_header_mask pkt t m = Some (a, r) \<Longrightarrow> strict_suffix r pkt"
  by (auto simp: expect_frame_header_def expect_frame_header_mask_def ossl_quic_wire_skip_frame_header_def
      bind_eq_Some_conv get_vlint_tail split: if_splits)

lemma reader_suffix:
  "PACKET_forward pkt n = Some r \<Longrightarrow> suffix r pkt"
  "PACKET_copy_bytes pkt n = Some (d, r) \<Longrightarrow> suffix r pkt"
  "PACKET_get_bytes pkt n = Some (d, r) \<Longrightarrow> suffix r pkt"
  "PACKET_get_1 pkt = Some (v, r) \<Longrightarrow> suffix r pkt"
  "PACKET_get_net_8 pkt = Some (w, r) \<Longrightarrow> suffix r pkt"
  by (auto simp: PACKET_forward_def PACKET_copy_bytes_def PACKET_get_bytes_def PACKET_get_1_def PACKET_get_net_8_def
      packet_forward_def suffix_drop split: if_splits)

lemma decode_ack_ranges_suffix: "decode_ack_ranges pkt start i n rs = Some (rs', r) \<Longrightarrow> suffix r pkt"
proof (induction n arbitrary: pkt start i rs)
  case (Suc n)
  then show ?case
    by (auto simp: bind_eq_Some_conv Let_def split: if_splits option.splits
        dest!: get_vlint_suffix' Suc.IH intro: suffix_order.trans)
qed simp

lemma ack_set_ecn_suffix: "ack_set_ecn pkt t a = Some (b, r) \<Longrightarrow> suffix r pkt"
  by (auto simp: ack_set_ecn_def bind_eq_Some_conv split: if_splits dest!: get_vlint_suffix' intro: suffix_order.order_trans)

lemma decode_ack_header_tail: "decode_ack_header pkt = Some (h, r) \<Longrightarrow> strict_suffix r pkt"
  by (auto simp: decode_ack_header_def bind_eq_Some_conv split: if_splits dest!: expect_header_tail get_vlint_suffix'
      intro: suffix_order.le_less_trans)

lemma decode_ack_cases:
  assumes "ossl_quic_wire_decode_frame_ack pkt e a = Inr (Some (b, n, r))"
  obtains t l d c f p5 rs p6 where "decode_ack_header pkt = Some ((t, l, d, c, f), p5)"
    "decode_ack_ranges p5 (l - f) 0 (unat c) (map_option (\<lambda>a. (ack_ranges a)[0 := \<lparr>ar_start = l - f, ar_end = l\<rparr>]) a)
      = Some (rs, p6)"
    "ack_set_ecn p6 t (map_option (\<lambda>a. a\<lparr>delay_time := ack_delay_decode d e,
      ack_ranges := take (unat (c + 1)) (the rs)\<rparr>) a) = Some (b, r)" "n = c + 1"
proof (cases "decode_ack_header pkt")
  case None
  with assms show ?thesis
    by (simp add: ossl_quic_wire_decode_frame_ack_def)
next
  case (Some h)
  obtain t l d c f p5 where h: "h = ((t, l, d, c, f), p5)"
    by (cases h) auto
  show ?thesis
    using assms Some h
    by (simp add: ossl_quic_wire_decode_frame_ack_def Let_def bind_eq_Some_conv option.map_comp comp_def
        split: if_splits) (auto intro: that)
qed

lemma decode_ack_tail:
  assumes "ossl_quic_wire_decode_frame_ack pkt e a = Inr (Some (b, n, r))"
  shows "strict_suffix r pkt"
proof (rule decode_ack_cases [OF assms])
  fix t l d c f p5 rs p6 a' a''
  assume "decode_ack_header pkt = Some ((t, l, d, c, f), p5)" "decode_ack_ranges p5 (l - f) 0 (unat c) a' = Some (rs, p6)"
    "ack_set_ecn p6 t a'' = Some (b, r)"
  then have "strict_suffix p5 pkt" "suffix p6 p5" "suffix r p6"
    using decode_ack_header_tail decode_ack_ranges_suffix ack_set_ecn_suffix by blast+
  then show ?thesis
    by (meson suffix_order.le_less_trans)
qed

lemma decode_padding_tail:
  assumes "ossl_quic_wire_decode_padding pkt = (n, r)" and "pkt \<noteq> []" and "hd pkt = 0"
  shows "strict_suffix r pkt"
proof -
  have "length (takeWhile (\<lambda>b. b = 0) pkt) \<le> length pkt" "0 < length (takeWhile (\<lambda>b. b = 0) pkt)"
    using assms(2,3) by (cases pkt; simp add: length_takeWhile_le le_SucI)+
  moreover from this have "r = drop (length (takeWhile (\<lambda>b. b = 0) pkt)) pkt"
    using assms(1) by (auto simp: ossl_quic_wire_decode_padding_def PACKET_data_def PACKET_forward_def PACKET_remaining_def
        packet_forward_def Let_def)
  ultimately have "suffix r pkt" "length r < length pkt"
    using assms(2) by (simp_all add: suffix_drop)
  then show ?thesis
    by (auto simp: strict_suffix_def)
qed

lemma peek_padding: "ossl_quic_wire_peek_frame_header pkt = Some (0, True) \<Longrightarrow> pkt \<noteq> [] \<and> hd pkt = 0"
proof -
  assume peek: "ossl_quic_wire_peek_frame_header pkt = Some (0, True)"
  then obtain b bs where pkt: "pkt = b # bs"
    by (cases pkt) (auto simp: ossl_quic_wire_peek_frame_header_def PACKET_peek_quic_vlint_ex_def PACKET_remaining_def)
  have "ossl_quic_vlint_encode_len 0 = 1"
    by (simp add: ossl_quic_vlint_encode_len_def OSSL_QUIC_VLINT_2B_MIN_def)
  then have one: "ossl_quic_vlint_decode_len b = 1" and zero: "wide (b AND 0x3F) = 0"
    using peek pkt
    by (auto simp: ossl_quic_wire_peek_frame_header_def PACKET_peek_quic_vlint_ex_def PACKET_remaining_def Let_def
        ossl_quic_vlint_decode_unchecked_def split: if_splits)
  have high: "drop_bit 6 b = 0"
    using one by (cases rule: decode_len_cases [of b]) simp_all
  have "b = 0"
  proof (rule bit_word_eqI)
    fix n assume n: "n < LENGTH(8)"
    show "bit b n \<longleftrightarrow> bit 0 n"
    proof (cases "n < 6")
      case True
      then have "bit (wide (b AND 0x3F)) n = bit b n"
        using n by (simp add: wide_def vlint_bits)
      with zero show ?thesis
        by simp
    next
      case False
      then have "bit (drop_bit 6 b) (n - 6) = bit b n"
        by (simp add: bit_drop_bit_eq)
      with high show ?thesis
        by simp
    qed
  qed
  with pkt show ?thesis
    by simp
qed

lemma read_with_Some [simp]: "read_with g m = Some (y, r) \<longleftrightarrow> (\<exists>x. m = Some (x, r) \<and> y = g x)"
  by (auto simp: read_with_def)

lemma decoder_tail:
  "ossl_quic_wire_decode_frame_reset_stream pkt = Some (a1, r) \<Longrightarrow> strict_suffix r pkt"
  "ossl_quic_wire_decode_frame_stop_sending pkt = Some (a2, r) \<Longrightarrow> strict_suffix r pkt"
  "ossl_quic_wire_decode_frame_crypto pkt nodata = Some (a3, r) \<Longrightarrow> strict_suffix r pkt"
  "ossl_quic_wire_decode_frame_new_token pkt = Some (a4, r) \<Longrightarrow> strict_suffix r pkt"
  "ossl_quic_wire_decode_frame_stream pkt nodata = Some (a5, r) \<Longrightarrow> strict_suffix r pkt"
  "ossl_quic_wire_decode_frame_max_data pkt = Some (a6, r) \<Longrightarrow> strict_suffix r pkt"
  "ossl_quic_wire_decode_frame_max_stream_data pkt = Some (a7, r) \<Longrightarrow> strict_suffix r pkt"
  "ossl_quic_wire_decode_frame_max_streams pkt = Some (a6, r) \<Longrightarrow> strict_suffix r pkt"
  "ossl_quic_wire_decode_frame_data_blocked pkt = Some (a6, r) \<Longrightarrow> strict_suffix r pkt"
  "ossl_quic_wire_decode_frame_stream_data_blocked pkt = Some (a7, r) \<Longrightarrow> strict_suffix r pkt"
  "ossl_quic_wire_decode_frame_streams_blocked pkt = Some (a6, r) \<Longrightarrow> strict_suffix r pkt"
  "ossl_quic_wire_decode_frame_new_conn_id pkt = Some (a8, r) \<Longrightarrow> strict_suffix r pkt"
  "ossl_quic_wire_decode_frame_retire_conn_id pkt = Some (a6, r) \<Longrightarrow> strict_suffix r pkt"
  "ossl_quic_wire_decode_frame_path_challenge pkt = Some (a6, r) \<Longrightarrow> strict_suffix r pkt"
  "ossl_quic_wire_decode_frame_path_response pkt = Some (a6, r) \<Longrightarrow> strict_suffix r pkt"
  "ossl_quic_wire_decode_frame_conn_close pkt = Some (a9, r) \<Longrightarrow> strict_suffix r pkt"
  "ossl_quic_wire_decode_frame_ping pkt = Some r \<Longrightarrow> strict_suffix r pkt"
  "ossl_quic_wire_decode_frame_handshake_done pkt = Some r \<Longrightarrow> strict_suffix r pkt"
  by (auto simp: bind_eq_Some_conv Let_def
      ossl_quic_wire_decode_frame_reset_stream_def ossl_quic_wire_decode_frame_stop_sending_def
      ossl_quic_wire_decode_frame_crypto_def ossl_quic_wire_decode_frame_new_token_def
      ossl_quic_wire_decode_frame_stream_def ossl_quic_wire_decode_frame_max_data_def
      ossl_quic_wire_decode_frame_max_stream_data_def ossl_quic_wire_decode_frame_max_streams_def
      ossl_quic_wire_decode_frame_data_blocked_def ossl_quic_wire_decode_frame_stream_data_blocked_def
      ossl_quic_wire_decode_frame_streams_blocked_def ossl_quic_wire_decode_frame_new_conn_id_def
      ossl_quic_wire_decode_frame_retire_conn_id_def ossl_quic_wire_decode_frame_path_challenge_def
      ossl_quic_wire_decode_frame_path_response_def ossl_quic_wire_decode_frame_conn_close_def
      ossl_quic_wire_decode_frame_ping_def ossl_quic_wire_decode_frame_handshake_done_def
      split: if_splits dest!: expect_header_tail get_vlint_suffix' reader_suffix intro: suffix_order.le_less_trans)

lemma decode_ack_frame_tail:
  assumes "decode_ack e pkt = Some (f, r)"
  shows "strict_suffix r pkt"
proof -
  obtain n where n: "ossl_quic_wire_peek_frame_ack_num_ranges pkt = Some n"
    using assms by (auto simp: decode_ack_def bind_eq_Some_conv)
  show ?thesis
  proof (cases "ossl_quic_wire_decode_frame_ack pkt e (Some (ack0 n))")
    case (Inr x)
    with assms n obtain a m where "x = Some (Some a, m, r)"
      by (cases x) (auto simp: decode_ack_def split: option.split_asm prod.split_asm)
    with Inr show ?thesis
      by (auto intro: decode_ack_tail)
  qed (use assms n in \<open>simp add: decode_ack_def\<close>)
qed

lemma padding_frame_tail:
  assumes "ossl_quic_wire_peek_frame_header pkt = Some (0, True)"
    and "map_prod Padding id (ossl_quic_wire_decode_padding pkt) = (f, r)"
  shows "strict_suffix r pkt"
  using decode_padding_tail [of pkt _ r] peek_padding [OF assms(1)] assms(2)
  by (cases "ossl_quic_wire_decode_padding pkt") auto

text \<open>
  Property C37. On any bytes at all, decoding a frame either fails or consumes at least one byte and leaves a tail of
  the packet: the loop over the frames of a packet ends, and no decoder reads outside the packet.
\<close>

theorem quic_frame_decoders_progress:
  assumes "decode_frame e pkt = Some (f, rest)"
  shows "suffix rest pkt \<and> length rest < length pkt"
proof -
  obtain t where t: "ossl_quic_wire_peek_frame_header pkt = Some (t, True)"
    using assms by (auto simp: decode_frame_def split: option.splits if_splits)
  have "strict_suffix rest pkt"
    using assms t unfolding decode_frame_def
    by (auto split: if_splits dest: decoder_tail decode_ack_frame_tail padding_frame_tail
        simp: OSSL_QUIC_FRAME_TYPE_PADDING_def)
  then show ?thesis
    by (auto simp: strict_suffix_def dest: suffix_length_le intro: suffix_length_less)
qed

theorem quic_frame_decoders_progress_witness:
  "suffix [9] (ossl_quic_vlint_encode 1 @ [9]) \<and> length [9 :: u8] < length (ossl_quic_vlint_encode 1 @ [9])"
proof (rule quic_frame_decoders_progress)
  have "frame_fmt 0 Ping = Some (ossl_quic_vlint_encode 1)"
    by (simp add: frame_type_defs vlint_fmt_def OSSL_QUIC_VLINT_MAX_def push_bit_of_1)
  then show "decode_frame 0 (ossl_quic_vlint_encode 1 @ [9]) = Some (Ping, [9])"
    by (rule decode_frame_reads) simp_all
qed

subsection \<open>ACK ranges\<close>

lemma decode_ack_ranges_sound:
  assumes "decode_ack_ranges pkt (ar_start prev) i n (Some rs) = Some (rs', r)" and "i + 1 + n \<le> length rs"
  shows "\<exists>ys. length ys = n \<and> rs' = Some (take (i + 1) rs @ ys @ drop (i + 1 + n) rs) \<and> ranges_ok prev ys"
  using assms
proof (induction n arbitrary: pkt prev i rs)
  case 0
  then show ?case
    by simp
next
  case (Suc n)
  obtain gap p1 len p2 where g: "PACKET_get_quic_vlint pkt = Some (gap, p1)" "PACKET_get_quic_vlint p1 = Some (len, p2)"
    using Suc.prems(1) by (auto simp: bind_eq_Some_conv)
  define s where "s = \<lparr>ar_start = ar_start prev - gap - 2 - len, ar_end = ar_start prev - gap - 2\<rparr>"
  have chk: "\<not> ar_start prev < gap + 2" "\<not> len > ar_end s"
    and rec: "decode_ack_ranges p2 (ar_start s) (i + 1) n (Some (rs[i + 1 := s])) = Some (rs', r)"
    using Suc.prems g by (auto simp: Let_def s_def split: if_splits)
  have gap: "unat (gap + 2) = unat gap + 2"
    using get_vlint_suffix(2) [OF g(1)] by (subst unat_add_no_overflow) simp_all
  have "ar_end s = ar_start prev - (gap + 2)"
    by (simp add: s_def)
  then have ends: "unat (ar_end s) = unat (ar_start prev) - (unat gap + 2)" "unat gap + 2 \<le> unat (ar_start prev)"
    using chk(1) gap by (simp_all add: unat_sub_no_underflow not_less word_le_nat_alt)
  have "ar_start s = ar_end s - len"
    by (simp add: s_def)
  then have "ar_start s \<le> ar_end s"
    using chk(2) by (simp add: word_le_nat_alt unat_sub_no_underflow not_less)
  then have ok: "ranges_ok prev (s # ys)" if "ranges_ok s ys" for ys
    using that ends by simp
  from Suc.IH [OF rec] Suc.prems(2) obtain ys where ys: "length ys = n" "ranges_ok s ys"
    "rs' = Some (take (i + 2) (rs[i + 1 := s]) @ ys @ drop (i + 2 + n) (rs[i + 1 := s]))"
    by auto
  have "take (i + 2) (rs[i + 1 := s]) = take (i + 1) rs @ [s]"
    using Suc.prems(2) by (simp add: upd_conv_take_nth_drop min_def)
  moreover have "drop (i + 2 + n) (rs[i + 1 := s]) = drop (i + 1 + Suc n) rs"
    by simp
  ultimately show ?case
    using ys ok by (intro exI [of _ "s # ys"]) simp
qed

text \<open>
  Property C35. Whatever a peer sends, if the ACK decoder accepts it into an array that is large enough, the ranges it
  stores are as the type asks: as many as the frame has, each with its start not after its end, in descending order
  with a packet between any two that is not acknowledged.
\<close>

theorem quic_ack_decode_ranges_sound:
  assumes "ossl_quic_wire_decode_frame_ack pkt e (Some a0) = Inr (Some (Some a, total_ranges, rest))"
    and "unat total_ranges \<le> length (ack_ranges a0)"
  shows "\<exists>r rs. ack_ranges a = r # rs \<and> length (ack_ranges a) = unat total_ranges \<and> ar_start r \<le> ar_end r \<and> ranges_ok r rs"
proof (rule decode_ack_cases [OF assms(1)])
  fix t l d c f p5 rs p6
  let ?r = "\<lparr>ar_start = l - f, ar_end = l\<rparr>"
  assume h: "decode_ack_header pkt = Some ((t, l, d, c, f), p5)" "total_ranges = c + 1"
    and ranges: "decode_ack_ranges p5 (l - f) 0 (unat c) (map_option (\<lambda>a. (ack_ranges a)[0 := ?r]) (Some a0)) = Some (rs, p6)"
    and ecn: "ack_set_ecn p6 t (map_option (\<lambda>a. a\<lparr>delay_time := ack_delay_decode d e,
      ack_ranges := take (unat (c + 1)) (the rs)\<rparr>) (Some a0)) = Some (Some a, rest)"
  have fl: "f \<le> l" and "unat c < 2 ^ 62"
    using h(1) by (auto simp: decode_ack_header_def bind_eq_Some_conv not_less split: if_splits dest: get_vlint_suffix(2))
  then have c: "unat total_ranges = unat c + 1"
    unfolding h(2) by (subst unat_add_no_overflow) simp_all
  obtain x xs where x: "ack_ranges a0 = x # xs"
    using assms(2) c by (cases "ack_ranges a0") auto
  from ranges have "decode_ack_ranges p5 (ar_start ?r) 0 (unat c) (Some (?r # xs)) = Some (rs, p6)"
    by (simp add: x)
  from decode_ack_ranges_sound [OF this] assms(2) obtain ys where ys: "length ys = unat c" "ranges_ok ?r ys"
    "rs = Some (?r # ys @ drop (unat c) xs)"
    by (auto simp: x c)
  have "ack_ranges a = take (unat total_ranges) (the rs)"
    using ecn by (auto simp: ack_set_ecn_def h(2) bind_eq_Some_conv split: if_splits)
  then have "ack_ranges a = ?r # ys"
    using ys c by simp
  moreover have "l - f \<le> l"
    using fl by (simp add: word_le_nat_alt unat_sub_no_underflow)
  ultimately show ?thesis
    using ys c by simp
qed

definition ack_pair :: ossl_quic_frame_ack where
  "ack_pair = ack0 2"

theorem quic_ack_decode_ranges_sound_witness:
  "\<exists>a r rs. ossl_quic_wire_decode_frame_ack [2, 10, 0, 1, 2, 1, 0] 3 (Some ack_pair) = Inr (Some (Some a, 2, []))
    \<and> ack_ranges a = r # rs \<and> ranges_ok r rs"
proof -
  have dec: "ossl_quic_wire_decode_frame_ack [2, 10, 0, 1, 2, 1, 0] 3 (Some ack_pair)
    = Inr (Some (Some (ack_pair\<lparr>ack_ranges := [\<lparr>ar_start = 8, ar_end = 10\<rparr>, \<lparr>ar_start = 5, ar_end = 5\<rparr>]\<rparr>), 2, []))"
    by code_simp
  have "unat (2 :: u64) \<le> length (ack_ranges ack_pair)"
    by code_simp
  from quic_ack_decode_ranges_sound [OF dec this] dec show ?thesis
    by blast
qed

text \<open>
  Ranges that the array has no room for are checked against the start of the last range that was stored,
  not of the range before them: a frame whose third range would begin below packet number zero is refused when the array
  has room for it, and accepted when it has not, or when only the number of ranges is asked for.
\<close>

theorem quic_ack_decode_unchecked_tail:
  "ossl_quic_wire_decode_frame_ack [2, 10, 0, 2, 0, 3, 0, 7, 0] 3 (Some (ack0 3)) = Inr None
   \<and> ossl_quic_wire_decode_frame_ack [2, 10, 0, 2, 0, 3, 0, 7, 0] 3 None = Inr (Some (None, 3, []))
   \<and> (\<exists>a. ossl_quic_wire_decode_frame_ack [2, 10, 0, 2, 0, 3, 0, 7, 0] 3 (Some (ack0 1)) = Inr (Some (Some a, 3, [])))"
proof (intro conjI)
  show "ossl_quic_wire_decode_frame_ack [2, 10, 0, 2, 0, 3, 0, 7, 0] 3 (Some (ack0 3)) = Inr None"
    by code_simp
  show "ossl_quic_wire_decode_frame_ack [2, 10, 0, 2, 0, 3, 0, 7, 0] 3 None = Inr (Some (None, 3, []))"
    by code_simp
  have "ossl_quic_wire_decode_frame_ack [2, 10, 0, 2, 0, 3, 0, 7, 0] 3 (Some (ack0 1))
    = Inr (Some (Some ((ack0 1)\<lparr>ack_ranges := [\<lparr>ar_start = 10, ar_end = 10\<rparr>]\<rparr>), 3, []))"
    by code_simp
  then show "\<exists>a. ossl_quic_wire_decode_frame_ack [2, 10, 0, 2, 0, 3, 0, 7, 0] 3 (Some (ack0 1)) = Inr (Some (Some a, 3, []))"
    by blast
qed

section \<open>Header lengths\<close>

lemma encode_len_zero: "ossl_quic_vlint_encode_len v = 0 \<longleftrightarrow> \<not> v \<le> OSSL_QUIC_VLINT_MAX"
  using vlint_fits_encode_len [of v]
  by (auto simp: vlint_fits_def ossl_quic_vlint_encode_len_def OSSL_QUIC_VLINT_2B_MIN_def OSSL_QUIC_VLINT_4B_MIN_def
      OSSL_QUIC_VLINT_8B_MIN_def OSSL_QUIC_VLINT_MAX_def word_le_nat_alt word_less_nat_alt split: if_splits)

lemma ints_fmt_None: "ints_fmt vs = None \<longleftrightarrow> (\<exists>v \<in> set vs. ossl_quic_vlint_encode_len v = 0)"
proof (induction vs)
  case (Cons v vs)
  then show ?case
    by (cases "ints_fmt vs") (auto simp: vlint_fmt_def encode_len_zero split: if_splits)
qed simp

lemma ints_fmt_Some: "ints_fmt vs = Some bs \<Longrightarrow> length bs = sum_list (map ossl_quic_vlint_encode_len vs)"
  by (induction vs arbitrary: bs) (auto simp: length_encode)

lemma ints_fmt_length:
  "(case ints_fmt vs of None \<Rightarrow> 0 | Some bs \<Rightarrow> length bs)
    = (if \<exists>v \<in> set vs. ossl_quic_vlint_encode_len v = 0 then 0 else sum_list (map ossl_quic_vlint_encode_len vs))"
  using ints_fmt_None [of vs] ints_fmt_Some [of vs] by (cases "ints_fmt vs") auto

lemma stream_type_len: "ossl_quic_vlint_encode_len (stream_frame_type f) = ossl_quic_vlint_encode_len OSSL_QUIC_FRAME_TYPE_STREAM"
  by (simp add: ossl_quic_vlint_encode_len_def OSSL_QUIC_VLINT_2B_MIN_def stream_frame_type_def frame_type_defs)

text \<open>
  Property C38. The lengths predicted for the headers of STREAM and CRYPTO frames are those of the headers the encoders
  write: the prediction is 0 exactly when the header cannot be encoded, and otherwise the encoder succeeds exactly in a
  packet with that much room, and then writes that many bytes.
\<close>

theorem quic_header_length_exact:
  assumes "wp_ok p"
  shows "(\<exists>p' done. ossl_quic_wire_encode_frame_stream_hdr p f = Inr (p', done)
      \<and> (let n = ossl_quic_wire_get_encoded_frame_len_stream_hdr f
         in done = (n \<noteq> 0 \<and> n \<le> wp_room p) \<and> (done \<longrightarrow> length (wp_bytes p') = length (wp_bytes p) + n)))
    \<and> (\<exists>p' done. ossl_quic_wire_encode_frame_crypto_hdr p c = Inr (p', done)
      \<and> (let n = ossl_quic_wire_get_encoded_frame_len_crypto_hdr c
         in done = (n \<noteq> 0 \<and> n \<le> wp_room p) \<and> (done \<longrightarrow> length (wp_bytes p') = length (wp_bytes p) + n)))"
proof -
  have exact: "\<exists>p' done. h p = Inr (p', done)
      \<and> (let n = (case fmt of None \<Rightarrow> 0 | Some bs \<Rightarrow> length bs)
         in done = (n \<noteq> 0 \<and> n \<le> wp_room p) \<and> (done \<longrightarrow> length (wp_bytes p') = length (wp_bytes p) + n))"
    if w: "wps.writes h fmt" and ne: "fmt \<noteq> Some []" for h fmt
  proof (cases "fmt_fits (wp_room p) fmt")
    case True
    then obtain x where x: "fmt = Some x" "length x \<le> wp_room p" "x \<noteq> []"
      using ne by (auto simp: fmt_fits_Some)
    show ?thesis
      by (rule wps.writes_fits [OF w assms True]) (auto simp: x)
  next
    case False
    then show ?thesis
      by (rule wps.writes_full [OF w assms]) (use False in \<open>auto simp: fmt_fits_Some split: option.splits\<close>)
  qed
  have ne: "ints_fmt (stream_hdr_ints f) \<noteq> Some []" "ints_fmt [OSSL_QUIC_FRAME_TYPE_CRYPTO, cf_offset c, cf_len c] \<noteq> Some []"
    using one_byte [OF conjunct1 [OF stream_type_bounds] conjunct2 [OF stream_type_bounds], of f] one_byte [of OSSL_QUIC_FRAME_TYPE_CRYPTO]
    by (auto simp: stream_hdr_ints_def frame_type_defs)
  have "ossl_quic_wire_get_encoded_frame_len_stream_hdr f = (case ints_fmt (stream_hdr_ints f) of None \<Rightarrow> 0 | Some bs \<Rightarrow> length bs)"
    unfolding ints_fmt_length
    by (auto simp: ossl_quic_wire_get_encoded_frame_len_stream_hdr_def stream_hdr_ints_def stream_type_len word_gt_0 Let_def)
  moreover have "ossl_quic_wire_get_encoded_frame_len_crypto_hdr c
      = (case ints_fmt [OSSL_QUIC_FRAME_TYPE_CRYPTO, cf_offset c, cf_len c] of None \<Rightarrow> 0 | Some bs \<Rightarrow> length bs)"
    unfolding ints_fmt_length by (auto simp: ossl_quic_wire_get_encoded_frame_len_crypto_hdr_def Let_def)
  moreover have "wps.writes (\<lambda>p. ossl_quic_wire_encode_frame_crypto_hdr p c)
      (ints_fmt [OSSL_QUIC_FRAME_TYPE_CRYPTO, cf_offset c, cf_len c])"
    by (simp add: ossl_quic_wire_encode_frame_crypto_hdr_def hdr_writes wps.field_writes)
  ultimately show ?thesis
    using exact [OF stream_hdr_writes ne(1)] exact [OF _ ne(2)] by simp
qed

definition stream_example :: ossl_quic_frame_stream where
  "stream_example = \<lparr>fs_stream_id = 4, fs_offset = 300, fs_len = 0, fs_data = Some [], has_explicit_len = True, fs_is_fin = True\<rparr>"

theorem quic_header_length_exact_witness:
  "ossl_quic_wire_get_encoded_frame_len_stream_hdr stream_example = 5
   \<and> (\<exists>p'. ossl_quic_wire_encode_frame_stream_hdr wp_example stream_example = Inr (p', True) \<and> length (wp_bytes p') = 5)"
proof -
  have len: "ossl_quic_wire_get_encoded_frame_len_stream_hdr stream_example = 5"
    by code_simp
  with conjunct1 [OF quic_header_length_exact [OF wp_example_ok(1), of stream_example]] wp_example_ok show ?thesis
    by (auto simp: Let_def)
qed

text \<open>
  A STREAM frame without data, the one that ends a stream whose data is already sent, is accepted by the
  decoder, but the function that writes a whole STREAM frame never writes it: it asks for room of zero bytes,
  which is refused, and returns \<^verbatim>\<open>NULL\<close>.
\<close>

theorem quic_empty_stream_frame_not_encoded:
  assumes "wp_ok p" and "fs_len f = 0" and "fs_data f = Some []" and "has_explicit_len f"
    and "fs_stream_id f \<le> OSSL_QUIC_VLINT_MAX" and "fs_offset f \<le> OSSL_QUIC_VLINT_MAX"
  shows "\<exists>p' bs. ossl_quic_wire_encode_frame_stream p f = Inr (p', None)
    \<and> ints_fmt (stream_hdr_ints f) = Some bs \<and> ossl_quic_wire_decode_frame_stream (bs @ rest) False = Some (f, rest)"
proof -
  have "frame_fmt e (Stream f) = None" for e
    using assms(2) by (simp add: payload_fmt_def)
  moreover have "frame_mem e (Stream f)" for e
    using assms(2,3) by simp
  ultimately have w: "wps.writes (\<lambda>p. ptr_ok (ossl_quic_wire_encode_frame_stream p f)) None"
    using encode_frame_writes [of 0 "Stream f"] by simp
  obtain p' where p': "ossl_quic_wire_encode_frame_stream p f = Inr (p', None)"
  proof (rule wps.writes_full [OF w assms(1)])
    fix s' assume "ptr_ok (ossl_quic_wire_encode_frame_stream p f) = Inr (s', False)"
    then show thesis
      using that by (cases "ossl_quic_wire_encode_frame_stream p f") (auto simp: ptr_ok_def)
  qed simp
  have t: "stream_frame_type f \<le> OSSL_QUIC_VLINT_MAX"
    using stream_type_bounds [of f] by (simp add: OSSL_QUIC_VLINT_MAX_def push_bit_of_1 word_le_nat_alt word_less_nat_alt)
  have "ints_fmt (stream_hdr_ints f) \<noteq> None"
    using assms t by (auto simp: stream_hdr_ints_def ints_fmt_None encode_len_zero)
  then obtain bs where bs: "ints_fmt (stream_hdr_ints f) = Some bs"
    by blast
  have lim: "\<not> fs_offset f + fs_len f > push_bit 62 1 - 1"
    using assms(2,6) by (simp add: OSSL_QUIC_VLINT_MAX_def not_less)
  have "ossl_quic_wire_decode_frame_stream (bs @ rest) False = Some (f, rest)"
    using stream_hdr_reads(1) [OF bs assms(4,3), of rest] assms(2) lim by simp
  with p' bs show ?thesis
    by blast
qed

theorem quic_empty_stream_frame_not_encoded_witness:
  "\<exists>p'. ossl_quic_wire_encode_frame_stream wp_example stream_example = Inr (p', None)"
  using quic_empty_stream_frame_not_encoded [OF wp_example_ok(1), of stream_example "[]"]
  by (auto simp: stream_example_def OSSL_QUIC_VLINT_MAX_def push_bit_of_1)

section \<open>Transport parameters\<close>

lemma int_param_writes:
  assumes "v \<le> OSSL_QUIC_VLINT_MAX"
  shows "wps.writes (\<lambda>p. ossl_quic_wire_encode_transport_param_int p tid v)
    (ints_fmt [tid, of_nat (ossl_quic_vlint_encode_len v), v])"
  by (simp add: ossl_quic_wire_encode_transport_param_int_def wps.field_writes)

lemma bytes_param_writes:
  assumes "unat n \<le> length d"
  shows "wps.writes (\<lambda>p. ptr_ok (ossl_quic_wire_encode_transport_param_bytes p tid (Some d) n))
    (fmt_seq (ints_fmt [tid, n]) (Some (take (unat n) d)))"
proof -
  have eq: "ptr_ok (ossl_quic_wire_encode_transport_param_bytes p tid (Some d) n)
    = wp_then (wp_then (WPACKET_quic_write_vlint p tid) (\<lambda>p. WPACKET_quic_write_vlint p n))
        (\<lambda>p. ptr_ok (if n = 0 then Inr (p, WPACKET_get_curr p) else copy_payload (WPACKET_allocate_bytes p n) (Some d) n))" for p
    unfolding ossl_quic_wire_encode_transport_param_bytes_def
    by (cases "wp_then (WPACKET_quic_write_vlint p tid) (\<lambda>p. WPACKET_quic_write_vlint p n)")
      (auto simp: wp_then_def ptr_ok_def)
  have "wps.writes (\<lambda>p. ptr_ok (if n = 0 then Inr (p, WPACKET_get_curr p)
      else copy_payload (WPACKET_allocate_bytes p n) (Some d) n)) (Some (take (unat n) d))"
  proof (cases "n = 0")
    case True
    show ?thesis
    proof (rule wps.writesI)
      fix p assume "wp_ok p"
      then have "WPACKET_get_curr p \<noteq> None"
        unfolding wp_ok_GETBUF by (auto simp: WPACKET_get_curr_def)
      with True \<open>wp_ok p\<close> show "\<exists>p'. ptr_ok (if n = 0 then Inr (p, WPACKET_get_curr p)
          else copy_payload (WPACKET_allocate_bytes p n) (Some d) n) = Inr (p', True) \<and> wp_ok p' \<and> wp_meta p' = wp_meta p
          \<and> wp_bytes p' = wp_bytes p @ the (Some (take (unat n) d))"
        by (simp add: ptr_ok_def)
    qed (use True in simp)
  next
    case False
    with payload_writes [OF refl assms] show ?thesis
      by (simp add: payload_fmt_def)
  qed
  then show ?thesis
    unfolding eq by (intro wps.writes_then) (simp add: wps.field_writes)
qed

lemma decode_bytes_param:
  assumes "ints_fmt [tid, n] = Some x" and "unat n = length b"
  shows "ossl_quic_wire_decode_transport_param_bytes ((x @ b) @ rest) = Some ((tid, b), rest)"
  using assms by (auto simp: ossl_quic_wire_decode_transport_param_bytes_def packet_read)

lemma encode_len_le: "ossl_quic_vlint_encode_len w \<le> 8"
  by (simp add: ossl_quic_vlint_encode_len_def)

lemma vlint_small: "unat w < 64 \<Longrightarrow> w \<le> OSSL_QUIC_VLINT_MAX \<and> ossl_quic_vlint_encode_len w = 1"
  by (simp add: ossl_quic_vlint_encode_len_def OSSL_QUIC_VLINT_2B_MIN_def OSSL_QUIC_VLINT_MAX_def push_bit_of_1
      word_le_nat_alt word_less_nat_alt)

lemma int_param_round_trip:
  assumes "wp_ok p" and "29 \<le> wp_room p" and "tid \<le> OSSL_QUIC_VLINT_MAX" and "v \<le> OSSL_QUIC_VLINT_MAX"
  shows "\<exists>p' enc. ossl_quic_wire_encode_transport_param_int p tid v = Inr (p', True) \<and> wp_bytes p' = wp_bytes p @ enc
      \<and> ossl_quic_wire_decode_transport_param_int (enc @ rest) = Some ((tid, v), rest)"
proof -
  let ?n = "of_nat (ossl_quic_vlint_encode_len v) :: u64"
  have n: "unat ?n = ossl_quic_vlint_encode_len v" "unat ?n < 64"
    using encode_len_le [of v] by (simp_all add: unat_of_nat)
  have "ints_fmt [tid, ?n, v] = Some ((ossl_quic_vlint_encode tid @ ossl_quic_vlint_encode ?n) @ ossl_quic_vlint_encode v)"
    using assms(3,4) vlint_small [OF n(2)] by (simp add: vlint_fmt_def)
  moreover have "ossl_quic_wire_decode_transport_param_int
      (((ossl_quic_vlint_encode tid @ ossl_quic_vlint_encode ?n) @ ossl_quic_vlint_encode v) @ rest) = Some ((tid, v), rest)"
  proof -
    have "ossl_quic_wire_decode_transport_param_bytes
      (((ossl_quic_vlint_encode tid @ ossl_quic_vlint_encode ?n) @ ossl_quic_vlint_encode v) @ rest)
        = Some ((tid, ossl_quic_vlint_encode v), rest)"
      using assms(3,4) n(1) vlint_small [OF n(2)] by (intro decode_bytes_param [where n = ?n]) (simp_all add: vlint_fmt_def length_encode)
    moreover have "PACKET_buf_init (ossl_quic_vlint_encode v) (length (ossl_quic_vlint_encode v)) = Some (ossl_quic_vlint_encode v)"
      using encode_len_le [of v] length_encode [OF assms(4)] by (simp add: PACKET_buf_init_def unat_div)
    moreover have "PACKET_get_quic_vlint (ossl_quic_vlint_encode v) = Some (v, [])"
      using packet_read(4) [OF assms(4), of "[]"] by simp
    ultimately show ?thesis
      by (simp add: ossl_quic_wire_decode_transport_param_int_def PACKET_remaining_def)
  qed
  moreover have "fmt_fits (wp_room p) (ints_fmt [tid, ?n, v])"
    using assms(2-4) encode_len_le [of tid] encode_len_le [of v] vlint_small [OF n(2)] by (simp add: vlint_fmt_def length_encode)
  ultimately show ?thesis
    using wps.writes_fits [OF int_param_writes [OF assms(4)] assms(1)] by (metis option.sel)
qed

lemma cid_param_round_trip:
  assumes "wp_ok p" and "29 \<le> wp_room p" and "tid \<le> OSSL_QUIC_VLINT_MAX"
    and "unat (id_len c) \<le> QUIC_MAX_CONN_ID_LEN" and "length (cid c) = QUIC_MAX_CONN_ID_LEN"
  shows "\<exists>p' enc. ossl_quic_wire_encode_transport_param_cid p tid c = Inr (p', True) \<and> wp_bytes p' = wp_bytes p @ enc
      \<and> ossl_quic_wire_decode_transport_param_cid (enc @ rest) (cid c) = Some ((tid, c), rest)"
proof -
  let ?l = "ucast (id_len c) :: u64" and ?b = "take (unat (id_len c)) (cid c)"
  have l: "unat ?l = unat (id_len c)" "unat ?l < 64"
    using assms(4) by (simp_all add: unsigned_ucast_eq take_bit_nat_eq_self QUIC_MAX_CONN_ID_LEN_def)
  have le: "unat ?l \<le> length (cid c)"
    using assms(4,5) l by simp
  have x: "ints_fmt [tid, ?l] = Some (ossl_quic_vlint_encode tid @ ossl_quic_vlint_encode ?l)"
    using assms(3) vlint_small [OF l(2)] by (simp add: vlint_fmt_def)
  have lb: "unat ?l = length ?b"
    using le l by simp
  have dec: "ossl_quic_wire_decode_transport_param_cid
      (((ossl_quic_vlint_encode tid @ ossl_quic_vlint_encode ?l) @ ?b) @ rest) (cid c) = Some ((tid, c), rest)"
    using decode_bytes_param [OF x lb, of rest] assms(4,5) by (simp add: ossl_quic_wire_decode_transport_param_cid_def)
  have enc: "ossl_quic_wire_encode_transport_param_cid p tid c
      = ptr_ok (ossl_quic_wire_encode_transport_param_bytes p tid (Some (cid c)) ?l)"
    using assms(4) by (simp add: ossl_quic_wire_encode_transport_param_cid_def ptr_ok_def)
  have "fmt_fits (wp_room p) (fmt_seq (ints_fmt [tid, ?l]) (Some (take (unat ?l) (cid c))))"
    unfolding x using assms(2-5) encode_len_le [of tid] vlint_small [OF l(2)] l
    by (simp add: length_encode QUIC_MAX_CONN_ID_LEN_def)
  from wps.writes_fits [OF bytes_param_writes [OF le, of tid] assms(1) this] obtain p' where
    "ossl_quic_wire_encode_transport_param_cid p tid c = Inr (p', True)"
    "wp_bytes p' = wp_bytes p @ ((ossl_quic_vlint_encode tid @ ossl_quic_vlint_encode ?l) @ ?b)"
    unfolding enc x by (metis fmt_seq.simps(1) l(1) option.sel)
  with dec show ?thesis
    by blast
qed

text \<open>
  The transport parameters with an integer and with a connection identifier (also an empty one) are
  written to any packet that has room for them, and are read back with their identifier, whatever follows.
\<close>

theorem quic_transport_params_round_trip:
  assumes "wp_ok p" and "29 \<le> wp_room p" and "tid \<le> OSSL_QUIC_VLINT_MAX" and "v \<le> OSSL_QUIC_VLINT_MAX"
    and "unat (id_len c) \<le> QUIC_MAX_CONN_ID_LEN" and "length (cid c) = QUIC_MAX_CONN_ID_LEN"
  shows "(\<exists>p' enc. ossl_quic_wire_encode_transport_param_int p tid v = Inr (p', True) \<and> wp_bytes p' = wp_bytes p @ enc
      \<and> ossl_quic_wire_decode_transport_param_int (enc @ rest) = Some ((tid, v), rest))
    \<and> (\<exists>p' enc. ossl_quic_wire_encode_transport_param_cid p tid c = Inr (p', True) \<and> wp_bytes p' = wp_bytes p @ enc
      \<and> ossl_quic_wire_decode_transport_param_cid (enc @ rest) (cid c) = Some ((tid, c), rest))"
  using int_param_round_trip [OF assms(1-4)] cid_param_round_trip [OF assms(1-3,5,6)] by blast

definition cid_example :: quic_conn_id where
  "cid_example = \<lparr>id_len = 0, cid = replicate 20 0\<rparr>"

theorem quic_transport_params_round_trip_witness:
  "(\<exists>p' enc. ossl_quic_wire_encode_transport_param_int wp_example 14 300 = Inr (p', True) \<and> wp_bytes p' = enc
      \<and> ossl_quic_wire_decode_transport_param_int (enc @ [5]) = Some ((14, 300), [5]))
   \<and> (\<exists>p' enc. ossl_quic_wire_encode_transport_param_cid wp_example 14 cid_example = Inr (p', True) \<and> wp_bytes p' = enc
      \<and> ossl_quic_wire_decode_transport_param_cid (enc @ [5]) (cid cid_example) = Some ((14, cid_example), [5]))"
  using quic_transport_params_round_trip [OF wp_example_ok(1), of 14 300 cid_example "[5]"] wp_example_ok
  by (simp add: OSSL_QUIC_VLINT_MAX_def push_bit_of_1 cid_example_def QUIC_MAX_CONN_ID_LEN_def)

end
