(* ===== verification/Stream_Channel.thy ===== *)
theory Stream_Channel
  imports Sstream Rstream Quic_Frames "HOL-Library.Sublist"
begin

text \<open>
  One stream of a connection from end to end: a send stream (\<^verbatim>\<open>ssl/quic/quic_sstream.c\<close>), the STREAM frames
  (\<^verbatim>\<open>ssl/quic/quic_wire.c\<close>) written to packets (\<^verbatim>\<open>crypto/packet.c\<close>), and a receive stream
  (\<^verbatim>\<open>ssl/quic/quic_rstream.c\<close>) that is given the decoded frames. The network may lose, repeat and reorder what was sent,
  at any time. The packetiser writes a frame's header with \<^verbatim>\<open>ossl_quic_wire_encode_frame_stream_hdr\<close> and puts the
  bytes of the iovecs after it; \<open>send_stream_frame\<close> does the same with \<^verbatim>\<open>WPACKET_memcpy\<close>.
\<close>

section \<open>The channel\<close>

definition wire_frame :: "u64 \<Rightarrow> stream_frame_hdr \<Rightarrow> bytes list \<Rightarrow> ossl_quic_frame_stream" where
  "wire_frame sid hdr iov =
     \<lparr>fs_stream_id = sid, fs_offset = fr_offset hdr, fs_len = fr_len hdr, fs_data = Some (concat iov),
      has_explicit_len = True, fs_is_fin = fr_is_fin hdr\<rparr>"

definition send_stream_frame :: "wpacket \<Rightarrow> u64 \<Rightarrow> stream_frame_hdr \<Rightarrow> bytes list \<Rightarrow> wres" where
  "send_stream_frame p sid hdr iov =
     wp_then (ossl_quic_wire_encode_frame_stream_hdr p (wire_frame sid hdr iov)) (\<lambda>p.
       WPACKET_memcpy p (concat iov) (fr_len hdr))"

text \<open>
  \<open>S\<close> is what the application wrote to the send stream \<open>q\<close>, \<open>net\<close> what was sent, \<open>D\<close> what the application at the other
  end read from the receive stream \<open>rq\<close>. A packet may hold more after the frame (\<open>trail\<close>).
\<close>

inductive stream_channel ::
    "u64 \<Rightarrow> pkt_refs \<Rightarrow> quic_sstream \<Rightarrow> bytes \<Rightarrow> bytes set \<Rightarrow> quic_rstream \<Rightarrow> pkt_refs \<Rightarrow> bytes \<Rightarrow> bool" for sid base where
  start: "ossl_quic_sstream_new mem blk n = Inr (Some q) \<Longrightarrow> n < 2 ^ 63 \<Longrightarrow>
    (case blk of None \<Rightarrow> True | Some b \<Rightarrow> length b = unat n) \<Longrightarrow>
    ossl_quic_rstream_new mem' blk' rxfc statm m = Inr (Some rq) \<Longrightarrow> unat m < 2 ^ 63 \<Longrightarrow>
    (\<And>b. blk' = Some b \<Longrightarrow> length b = unat m) \<Longrightarrow>
    stream_channel sid base q [] {} rq base []"
| sender: "stream_channel sid base q S net rq refs D \<Longrightarrow> sstream_step q S q' S' \<Longrightarrow>
    stream_channel sid base q' S' net rq refs D"
| send: "stream_channel sid base q S net rq refs D \<Longrightarrow>
    ossl_quic_sstream_get_stream_frame q skip k = Inr (Some (hdr, iov)) \<Longrightarrow> wp_ok p \<Longrightarrow>
    send_stream_frame p sid hdr iov = Inr (p', True) \<Longrightarrow>
    stream_channel sid base q S (insert (drop (length (wp_bytes p)) (wp_bytes p')) net) rq refs D"
| receive: "stream_channel sid base q S net rq refs D \<Longrightarrow> bs \<in> net \<Longrightarrow>
    ossl_quic_wire_decode_frame_stream (bs @ trail) False = Some (f, rest) \<Longrightarrow>
    ossl_quic_rstream_queue_data mem refs rq pkt (fs_offset f) (fs_data f) (fs_len f) (fs_is_fin f) = (rq', refs', b) \<Longrightarrow>
    stream_channel sid base q S net rq' refs' D"
| read: "stream_channel sid base q S net rq refs D \<Longrightarrow>
    ossl_quic_rstream_read now h refs rq sz = Inr (rq', refs', h', Some (bs, fin), b) \<Longrightarrow>
    stream_channel sid base q S net rq' refs' (D @ bs)"
| move: "stream_channel sid base q S net rq refs D \<Longrightarrow> ossl_quic_rstream_move_to_rbuf refs rq = Inr (rq', refs', b) \<Longrightarrow>
    stream_channel sid base q S net rq' refs' D"

section \<open>What is sent\<close>

text \<open>A sent frame carries bytes of the stream; one with FIN carries its end, and the stream is finished.\<close>

definition sent_frame :: "u64 \<Rightarrow> quic_sstream \<Rightarrow> bytes \<Rightarrow> bytes \<Rightarrow> bool" where
  "sent_frame sid q S bs \<longleftrightarrow> (\<exists>f hb d. bs = hb @ d \<and> ints_fmt (stream_hdr_ints f) = Some hb \<and> has_explicit_len f
     \<and> fs_data f = Some d \<and> unat (fs_len f) = length d \<and> d = take (length d) (drop (unat (fs_offset f)) S)
     \<and> unat (fs_offset f) + length d \<le> length S
     \<and> (fs_is_fin f \<longrightarrow> have_final_size q \<and> unat (fs_offset f) + length d = length S))"

lemma send_writes:
  assumes "unat (fr_len hdr) = length (concat iov)"
  shows "wps.writes (\<lambda>p. send_stream_frame p sid hdr iov)
    (fmt_seq (ints_fmt (stream_hdr_ints (wire_frame sid hdr iov))) (Some (concat iov)))"
  unfolding send_stream_frame_def
  using wps.copy_writes [of "fr_len hdr" "concat iov"] assms by (intro wps.writes_then stream_hdr_writes) simp

lemma send_sent_frame:
  assumes ok: "sstream_ok q S" and get: "ossl_quic_sstream_get_stream_frame q skip k = Inr (Some (hdr, iov))"
    and p: "wp_ok p" and send: "send_stream_frame p sid hdr iov = Inr (p', True)"
  shows "sent_frame sid q S (drop (length (wp_bytes p)) (wp_bytes p'))"
proof -
  have "2 \<le> k"
    using get by (auto simp: ossl_quic_sstream_get_stream_frame_def split: if_splits)
  note fr = get_stream_frame_carries [OF ok this get]
  have len: "unat (fr_len hdr) = length (concat iov)"
    using fr by (auto simp: min_def)
  let ?fmt = "fmt_seq (ints_fmt (stream_hdr_ints (wire_frame sid hdr iov))) (Some (concat iov))"
  have w: "fmt_fits (wp_room p) ?fmt"
  proof (rule ccontr)
    assume "\<not> fmt_fits (wp_room p) ?fmt"
    then show False
      by (rule wps.writes_full [OF send_writes [OF len] p]) (use send in simp)
  qed
  then obtain hb where hb: "ints_fmt (stream_hdr_ints (wire_frame sid hdr iov)) = Some hb"
    by (auto simp: fmt_fits_Some)
  from w have "wp_bytes p' = wp_bytes p @ hb @ concat iov"
    by (rule wps.writes_fits [OF send_writes [OF len] p]) (use send hb in simp)
  then have "drop (length (wp_bytes p)) (wp_bytes p') = hb @ concat iov"
    by simp
  moreover have "fs_offset (wire_frame sid hdr iov) = fr_offset hdr" "fs_len (wire_frame sid hdr iov) = fr_len hdr"
    "fs_data (wire_frame sid hdr iov) = Some (concat iov)" "has_explicit_len (wire_frame sid hdr iov)"
    "fs_is_fin (wire_frame sid hdr iov) = fr_is_fin hdr"
    by (simp_all add: wire_frame_def)
  ultimately show ?thesis
    unfolding sent_frame_def using hb fr [unfolded len] len by metis
qed

lemma sent_frame_step:
  assumes "sent_frame sid q S bs" and "sstream_step q S q' S'"
  shows "sent_frame sid q' S' bs"
proof -
  from sstream_step_extends [OF assms(2)] obtain T where T: "S' = S @ T" "have_final_size q \<Longrightarrow> S' = S \<and> have_final_size q'"
    by blast
  from assms(1) obtain f hb d where f: "bs = hb @ d" "ints_fmt (stream_hdr_ints f) = Some hb" "has_explicit_len f"
    "fs_data f = Some d" "unat (fs_len f) = length d" "d = take (length d) (drop (unat (fs_offset f)) S)"
    "unat (fs_offset f) + length d \<le> length S"
    "fs_is_fin f \<longrightarrow> have_final_size q \<and> unat (fs_offset f) + length d = length S"
    unfolding sent_frame_def by blast
  have "take (length d) (drop (unat (fs_offset f)) S') = take (length d) (drop (unat (fs_offset f)) S)"
    using f(7) T(1) by simp
  with f T show ?thesis
    unfolding sent_frame_def by (intro exI [of _ f] exI [of _ hb] exI [of _ d]) auto
qed

lemma receive_sent_frame:
  assumes "sent_frame sid q S bs" and "ossl_quic_wire_decode_frame_stream (bs @ trail) False = Some (f, rest)"
    and F: "\<And>k. k < length S \<Longrightarrow> F k = S ! k" and S: "length S \<le> 2 ^ 62"
  shows "stream_data F (fs_offset f) (fs_data f) (fs_len f)"
    and "unat (fs_offset f) + unat (fs_len f) \<le> length S"
    and "fs_is_fin f \<Longrightarrow> have_final_size q \<and> unat (fs_offset f) + unat (fs_len f) = length S"
proof -
  from assms(1) obtain f' hb d where f: "bs = hb @ d" "ints_fmt (stream_hdr_ints f') = Some hb" "has_explicit_len f'"
    "fs_data f' = Some d" "unat (fs_len f') = length d" "d = take (length d) (drop (unat (fs_offset f')) S)"
    "unat (fs_offset f') + length d \<le> length S"
    "fs_is_fin f' \<longrightarrow> have_final_size q \<and> unat (fs_offset f') + length d = length S"
    unfolding sent_frame_def by blast
  have ff: "f = f'"
    using stream_hdr_reads(1) [OF f(2-5), of trail] assms(2) f(1) by (simp split: if_splits)
  have "d = map F [unat (fs_offset f')..<unat (fs_offset f') + length d]"
  proof (rule nth_equalityI)
    fix i assume i: "i < length d"
    then have "d ! i = S ! (unat (fs_offset f') + i)"
      by (subst f(6)) (use f(7) in simp)
    with i f(7) F show "d ! i = map F [unat (fs_offset f')..<unat (fs_offset f') + length d] ! i"
      by simp
  qed simp
  with f ff S show "stream_data F (fs_offset f) (fs_data f) (fs_len f)"
    "unat (fs_offset f) + unat (fs_len f) \<le> length S"
    "fs_is_fin f \<Longrightarrow> have_final_size q \<and> unat (fs_offset f) + unat (fs_len f) = length S"
    by (simp_all add: stream_data_def)
qed

section \<open>What is received\<close>

text \<open>How far the receive stream has come: it was read up to \<open>e\<close>, or holds a frame that ends there or later.\<close>

definition holds_end :: "nat \<Rightarrow> quic_rstream \<Rightarrow> bool" where
  "holds_end e rq \<longleftrightarrow> e \<le> rs_pos rq \<or> reaches (of_nat e) (frames (rs_fl rq))"

lemma queue_holds_end:
  assumes ok: "rstream_ok F base rq refs" and data: "stream_data F off data len" and e: "e \<le> 2 ^ 62"
    and res: "ossl_quic_rstream_queue_data mem refs rq pkt off data len fin = (rq', refs', b)"
  shows "holds_end e rq \<Longrightarrow> holds_end e rq'"
    and "fl_fin (rs_fl rq') \<Longrightarrow> fl_fin (rs_fl rq) \<or> fin \<and> holds_end (unat off + unat len) rq'"
proof -
  note spec = queue_data_spec [OF ok data res]
  let ?rg = "\<lparr>rstart = off, rend = off + len\<rparr>"
  have sum: "unat (off + len) = unat off + unat len"
    using data by (simp add: stream_data_def unat_add_no_overflow)
  have "(holds_end e rq \<longrightarrow> holds_end e rq')
    \<and> (fl_fin (rs_fl rq') \<longrightarrow> fl_fin (rs_fl rq) \<or> fin \<and> holds_end (unat off + unat len) rq')"
  proof (cases b)
    case False
    with spec show ?thesis
      by simp
  next
    case True
    then obtain fl' where ins: "ossl_sframe_list_insert mem refs (rs_fl rq) ?rg pkt data fin = (fl', refs', True)"
      and rq': "rq' = rq\<lparr>rs_fl := fl'\<rparr>"
      using res by (auto simp: ossl_quic_rstream_queue_data_def split: if_splits prod.splits)
    note r = insert_reaches [OF rstream_ok_sfl [OF ok] ins]
    have off: "fl_offset fl' = fl_offset (rs_fl rq)"
      using spec rq' by simp
    have "fl_fin fl' = (fin \<or> fl_fin (rs_fl rq))"
      using sframe_list_insert_post [OF rstream_ok_sfl [OF ok], of ?rg data mem pkt fin refs] data sum ins
      by (auto simp: sf_insert_post_def stream_data_def word_le_nat_alt split: option.splits)
    moreover have "holds_end (unat off + unat len) rq'"
      using r(2) off by (cases "fl_offset (rs_fl rq) < off + len")
        (simp_all add: holds_end_def rq' sum [symmetric] not_less word_le_nat_alt)
    moreover have "holds_end e rq \<longrightarrow> holds_end e rq'"
      using r(1) off by (auto simp: holds_end_def rq')
    ultimately show ?thesis
      by (simp add: rq')
  qed
  then show "holds_end e rq \<Longrightarrow> holds_end e rq'"
    and "fl_fin (rs_fl rq') \<Longrightarrow> fl_fin (rs_fl rq) \<or> fin \<and> holds_end (unat off + unat len) rq'"
    by blast+
qed

lemma dropWhile_last: "dropWhile P xs \<noteq> [] \<Longrightarrow> last (dropWhile P xs) = last xs"
  by (metis last_appendR takeWhile_dropWhile_id)

lemma read_holds_end:
  assumes ok: "rstream_ok F base rq refs" and e: "e \<le> 2 ^ 62"
    and res: "ossl_quic_rstream_read now h refs rq sz = Inr (rq', refs', h', Some (bs, fin), b)"
  shows "holds_end e rq \<Longrightarrow> holds_end e rq'" and "fl_fin (rs_fl rq') = fl_fin (rs_fl rq)"
proof -
  let ?drop = "dropWhile (\<lambda>sf. unat (sf_end sf) \<le> rs_pos rq') (frames (rs_fl rq))"
  have r: "rs_pos rq \<le> rs_pos rq'" "frames (rs_fl rq') = ?drop" "fl_fin (rs_fl rq') = fl_fin (rs_fl rq)"
    by (rule read_spec [OF ok, of now h sz]; use res in simp)+
  show "fl_fin (rs_fl rq') = fl_fin (rs_fl rq)"
    by (rule r(3))
  show "holds_end e rq'" if "holds_end e rq"
  proof (cases "?drop = []")
    case True
    then have "\<forall>sf \<in> set (frames (rs_fl rq)). unat (sf_end sf) \<le> rs_pos rq'"
      by (simp add: dropWhile_eq_Nil_conv)
    with that r(1) e show ?thesis
      by (auto simp: holds_end_def reaches_def word_le_nat_alt unat_of_nat dest!: bspec [OF _ last_in_set])
  next
    case False
    with that r show ?thesis
      using dropWhile_last [OF False] by (auto simp: holds_end_def reaches_def)
  qed
qed

lemma move_holds_end:
  assumes res: "ossl_quic_rstream_move_to_rbuf refs rq = Inr (rq', refs', b)"
  shows "holds_end e rq \<Longrightarrow> holds_end e rq'" and "fl_fin (rs_fl rq') = fl_fin (rs_fl rq)"
proof -
  have "fl_fin (rs_fl rq') = fl_fin (rs_fl rq) \<and> fl_offset (rs_fl rq') = fl_offset (rs_fl rq)
    \<and> (\<forall>e. reaches e (frames (rs_fl rq)) \<longrightarrow> reaches e (frames (rs_fl rq')))"
  proof (cases "ring_buf_avail (rs_rbuf rq) = 0 \<or> frames (rs_fl rq) = []")
    case True
    with res show ?thesis
      by (auto simp: ossl_quic_rstream_move_to_rbuf_def ossl_sframe_list_move_data_def split: if_splits)
  next
    case False
    then obtain f fs where fs: "frames (rs_fl rq) = f # fs"
      by (cases "frames (rs_fl rq)") auto
    with False res obtain fs' rb' where
      loop: "sframe_move_loop write_at_ring_buf_cb (rs_rbuf rq) refs (fl_offset (rs_fl rq)) False
          (if head_locked (rs_fl rq) then [f] else []) (if head_locked (rs_fl rq) then fs else f # fs) = Inr (fs', rb', refs', b)"
      and rq': "fl_fin (rs_fl rq') = fl_fin (rs_fl rq)" "fl_offset (rs_fl rq') = fl_offset (rs_fl rq)" "frames (rs_fl rq') = fs'"
      by (auto simp: ossl_quic_rstream_move_to_rbuf_def ossl_sframe_list_move_data_def res_bind_def
          split: sum.splits if_splits)
    have "fs' \<noteq> [] \<and> sf_end (last fs') = sf_end (last (f # fs))"
      using move_loop_reaches [OF loop] by (auto split: if_splits)
    with fs rq' show ?thesis
      by (auto simp: reaches_def)
  qed
  then show "holds_end e rq \<Longrightarrow> holds_end e rq'" and "fl_fin (rs_fl rq') = fl_fin (rs_fl rq)"
    by (auto simp: holds_end_def)
qed

section \<open>The channel's invariant\<close>

text \<open>
  The send stream holds \<open>S\<close>, everything on the network is a part of it, the receive stream received parts of it, whatever
  is written to the stream later (\<open>F\<close>), and a FIN came with its end.
\<close>

definition channel_inv ::
    "u64 \<Rightarrow> pkt_refs \<Rightarrow> quic_sstream \<Rightarrow> bytes \<Rightarrow> bytes set \<Rightarrow> quic_rstream \<Rightarrow> pkt_refs \<Rightarrow> bytes \<Rightarrow> bool" where
  "channel_inv sid base q S net rq refs D \<longleftrightarrow> sstream_ok q S \<and> (\<forall>bs \<in> net. sent_frame sid q S bs)
     \<and> (\<forall>F. (\<forall>k < length S. F k = S ! k) \<longrightarrow> (\<exists>R. rstream_reach F base rq refs R \<and> R \<subseteq> {..<length S}))
     \<and> rs_pos rq = length D \<and> prefix D S
     \<and> (fl_fin (rs_fl rq) \<longrightarrow> have_final_size q \<and> holds_end (length S) rq)"

definition later :: "bytes \<Rightarrow> nat \<Rightarrow> u8" where
  "later S k = (if k < length S then S ! k else 0)"

lemma channel_invD:
  assumes "channel_inv sid base q S net rq refs D"
  shows "sstream_ok q S" and "bs \<in> net \<Longrightarrow> sent_frame sid q S bs" and "rs_pos rq = length D" and "prefix D S"
    and "fl_fin (rs_fl rq) \<Longrightarrow> have_final_size q \<and> holds_end (length S) rq" and "length S \<le> 2 ^ 62"
proof -
  show ok: "sstream_ok q S"
    using assms by (simp add: channel_inv_def)
  show "length S \<le> 2 ^ 62"
    using sstream_okD(8,9) [OF ok] by (simp add: ring_ok_def)
qed (use assms in \<open>simp_all add: channel_inv_def\<close>)

lemma channel_inv_received:
  assumes "channel_inv sid base q S net rq refs D" and "\<forall>k < length S. F k = S ! k"
  obtains R where "rstream_reach F base rq refs R" "R \<subseteq> {..<length S}"
  using assms by (auto simp: channel_inv_def)

lemma channel_inv_later:
  assumes "channel_inv sid base q S net rq refs D"
  obtains R where "rstream_reach (later S) base rq refs R" "R \<subseteq> {..<length S}" "rstream_ok (later S) base rq refs"
  by (rule channel_inv_received [OF assms, of "later S"]) (use that rstream_reach_ok in \<open>auto simp: later_def\<close>)

lemma channel_inv_step:
  assumes inv: "channel_inv sid base q S net rq refs D"
    and step: "\<And>F R. \<forall>k < length S. F k = S ! k \<Longrightarrow> rstream_reach F base rq refs R \<Longrightarrow> R \<subseteq> {..<length S} \<Longrightarrow>
      \<exists>R'. rstream_reach F base rq' refs' R' \<and> R' \<subseteq> {..<length S}"
    and "rs_pos rq' = length D'" "prefix D' S"
    and "fl_fin (rs_fl rq') \<Longrightarrow> have_final_size q \<and> holds_end (length S) rq'"
  shows "channel_inv sid base q S net rq' refs' D'"
  using assms by (auto simp: channel_inv_def)

lemma start_inv:
  assumes snd: "ossl_quic_sstream_new mem blk n = Inr (Some q)" "n < 2 ^ 63"
      "case blk of None \<Rightarrow> True | Some b \<Rightarrow> length b = unat n"
    and rcv: "ossl_quic_rstream_new mem' blk' rxfc statm m = Inr (Some rq)" "unat m < 2 ^ 63"
      "\<And>b. blk' = Some b \<Longrightarrow> length b = unat m"
  shows "channel_inv sid base q [] {} rq base []"
proof -
  have "rs_fl rq = ossl_sframe_list_init"
    using rcv(1) by (auto simp: ossl_quic_rstream_new_def res_bind_def split: if_splits sum.splits)
  moreover have "rstream_reach F base rq base {}" for F
    by (rule rstream_reach.new [OF rcv])
  ultimately show ?thesis
    using sstream_new_ok [OF snd] by (auto simp: channel_inv_def ossl_sframe_list_init_def)
qed

lemma sender_inv:
  assumes inv: "channel_inv sid base q S net rq refs D" and step: "sstream_step q S q' S'"
  shows "channel_inv sid base q' S' net rq refs D"
proof -
  obtain T where T: "S' = S @ T" and fin: "have_final_size q \<longrightarrow> S' = S \<and> have_final_size q'"
    using sstream_step_extends [OF step] by blast
  have "\<exists>R. rstream_reach F base rq refs R \<and> R \<subseteq> {..<length S'}" if F: "\<forall>k < length S'. F k = S' ! k" for F
  proof -
    have "\<forall>k < length S. F k = S ! k"
      using F T by (simp add: nth_append)
    then obtain R where "rstream_reach F base rq refs R" "R \<subseteq> {..<length S}"
      by (rule channel_inv_received [OF inv])
    then show ?thesis
      using T by force
  qed
  with inv fin T show ?thesis
    using sstream_step_ok [OF step] sent_frame_step [OF _ step] by (auto simp: channel_inv_def)
qed

lemma receive_inv:
  assumes inv: "channel_inv sid base q S net rq refs D" and bs: "bs \<in> net"
    and dec: "ossl_quic_wire_decode_frame_stream (bs @ trail) False = Some (f, rest)"
    and queue: "ossl_quic_rstream_queue_data mem refs rq pkt (fs_offset f) (fs_data f) (fs_len f) (fs_is_fin f) = (rq', refs', b)"
  shows "channel_inv sid base q S net rq' refs' D"
proof -
  note invD = channel_invD [OF inv]
  note rcv = receive_sent_frame [OF invD(2) [OF bs] dec _ invD(6)]
  obtain R where ok: "rstream_ok (later S) base rq refs"
    by (rule channel_inv_later [OF inv])
  have data: "stream_data (later S) (fs_offset f) (fs_data f) (fs_len f)"
    and within: "unat (fs_offset f) + unat (fs_len f) \<le> length S"
    and fin: "fs_is_fin f \<Longrightarrow> have_final_size q \<and> unat (fs_offset f) + unat (fs_len f) = length S"
    by (rule rcv; simp add: later_def)+
  note ends = queue_holds_end [OF ok data invD(6) queue]
  show ?thesis
  proof (rule channel_inv_step [OF inv])
    fix F R assume F: "\<forall>k < length S. F k = S ! k" and R: "rstream_reach F base rq refs R" "R \<subseteq> {..<length S}"
    have "stream_data F (fs_offset f) (fs_data f) (fs_len f)"
      by (rule rcv(1)) (use F in simp)
    note rstream_reach.queue [OF R(1) this queue]
    moreover have "(if b then R \<union> {unat (fs_offset f)..<unat (fs_offset f) + unat (fs_len f)} else R) \<subseteq> {..<length S}"
      using R(2) within by auto
    ultimately show "\<exists>R'. rstream_reach F base rq' refs' R' \<and> R' \<subseteq> {..<length S}"
      by blast
  next
    assume "fl_fin (rs_fl rq')"
    then consider "fl_fin (rs_fl rq)" | "fs_is_fin f" "holds_end (unat (fs_offset f) + unat (fs_len f)) rq'"
      using ends(2) by blast
    then show "have_final_size q \<and> holds_end (length S) rq'"
      by cases (use invD(5) ends(1) fin in auto)
  qed (use invD(3,4) queue_data_spec [OF ok data queue] in simp_all)
qed

lemma read_from:
  assumes inv: "channel_inv sid base q S net rq refs D"
  shows "\<exists>rq' refs' h' bs fin ok. ossl_quic_rstream_read now h refs rq sz = Inr (rq', refs', h', Some (bs, fin), ok)
    \<and> prefix (D @ bs) S \<and> rs_pos rq' = length (D @ bs) \<and> (fin \<longrightarrow> have_final_size q \<and> D @ bs = S)"
proof -
  obtain R where R: "rstream_reach (later S) base rq refs R" "R \<subseteq> {..<length S}" and ok: "rstream_ok (later S) base rq refs"
    by (rule channel_inv_later [OF inv])
  obtain rq' refs' h' bs fin b where r: "ossl_quic_rstream_read now h refs rq sz = Inr (rq', refs', h', Some (bs, fin), b)"
    "bs = map (later S) [rs_pos rq..<rs_pos rq + length bs]" "rs_pos rq' = rs_pos rq + length bs"
    "{rs_pos rq..<rs_pos rq + length bs} \<subseteq> R" "fin \<longleftrightarrow> fl_fin (rs_fl rq) \<and> frames (rs_fl rq') = []"
    using read_delivers [OF R(1), of now h sz] by (elim exE conjE) blast
  note D = channel_invD(3,4,6) [OF inv]
  have len: "length D + length bs \<le> length S"
  proof (cases "bs = []")
    case True
    then show ?thesis
      using prefix_length_le [OF D(2)] by simp
  next
    case False
    then have "length D + length bs - 1 \<in> {rs_pos rq..<rs_pos rq + length bs}"
      using D(1) by (cases bs) auto
    then have "length D + length bs - 1 < length S"
      using r(4) R(2) by blast
    then show ?thesis
      by linarith
  qed
  have "bs = take (length bs) (drop (length D) S)"
  proof (rule nth_equalityI)
    fix i assume i: "i < length bs"
    then have "bs ! i = later S (length D + i)"
      using D(1) by (subst r(2)) simp
    with i len show "bs ! i = take (length bs) (drop (length D) S) ! i"
      by (simp add: later_def)
  qed (use len in simp)
  moreover have "D = take (length D) S"
    using D(2) by (metis append_eq_conv_conj prefix_def)
  ultimately have all: "D @ bs = take (length D + length bs) S"
    by (metis take_add)
  have "have_final_size q \<and> D @ bs = S" if fin
  proof -
    have "fl_fin (rs_fl rq)" "frames (rs_fl rq') = []"
      using that r(5) by simp_all
    then have "have_final_size q" "holds_end (length S) rq'"
      using channel_invD(5) [OF inv] read_holds_end(1) [OF ok D(3) r(1)] by blast+
    then show ?thesis
      using r(3) D(1) len all \<open>frames (rs_fl rq') = []\<close> by (simp add: holds_end_def reaches_def)
  qed
  moreover have "prefix (D @ bs) S"
    by (simp add: take_is_prefix all)
  moreover have "rs_pos rq' = length (D @ bs)"
    using r(3) D(1) by simp
  ultimately show ?thesis
    using r(1) by blast
qed

lemma read_inv:
  assumes inv: "channel_inv sid base q S net rq refs D"
    and read: "ossl_quic_rstream_read now h refs rq sz = Inr (rq', refs', h', Some (bs, fin), b)"
  shows "channel_inv sid base q S net rq' refs' (D @ bs)"
proof -
  obtain R where ok: "rstream_ok (later S) base rq refs"
    by (rule channel_inv_later [OF inv])
  note ends = read_holds_end [OF ok channel_invD(6) [OF inv] read]
  have "prefix (D @ bs) S" "rs_pos rq' = length (D @ bs)"
    using read_from [OF inv, of now h sz] read by simp_all
  then show ?thesis
    by (intro channel_inv_step [OF inv]) (use ends channel_invD(5) [OF inv] rstream_reach.read [OF _ read] in blast)+
qed

lemma move_inv:
  assumes inv: "channel_inv sid base q S net rq refs D" and move: "ossl_quic_rstream_move_to_rbuf refs rq = Inr (rq', refs', b)"
  shows "channel_inv sid base q S net rq' refs' D"
proof -
  obtain R where ok: "rstream_ok (later S) base rq refs"
    by (rule channel_inv_later [OF inv])
  have "fl_offset (rs_fl rq') = fl_offset (rs_fl rq)"
    by (rule move_to_rbuf_spec [OF ok]) (use move in auto)
  then have "rs_pos rq' = length D"
    using channel_invD(3) [OF inv] by simp
  then show ?thesis
    by (intro channel_inv_step [OF inv])
      (use move_holds_end [OF move] channel_invD(4,5) [OF inv] rstream_reach.move [OF _ move] in blast)+
qed

lemma stream_channel_inv: "stream_channel sid base q S net rq refs D \<Longrightarrow> channel_inv sid base q S net rq refs D"
proof (induction rule: stream_channel.induct)
  case start
  then show ?case by (rule start_inv)
next
  case sender
  then show ?case by (blast intro: sender_inv)
next
  case (send q S net rq refs D skip k hdr iov p p')
  then show ?case
    using send_sent_frame [OF channel_invD(1) [OF send.IH] send.hyps(2-4)] by (simp add: channel_inv_def)
next
  case receive
  then show ?case by (blast intro: receive_inv)
next
  case read
  then show ?case by (blast intro: read_inv)
next
  case move
  then show ?case by (blast intro: move_inv)
qed

section \<open>The application reads what was written\<close>

text \<open>
  Property C1. A stream delivers what was written to it. Whatever the network does with the packets (loss,
  repetition, reordering) and however writing, sending, acknowledging, receiving, moving data to the ring buffer and reading
  follow each other, what was read so far is a prefix of what was written; a read never fails, continues that prefix,
  and when it reports the end of the stream the writer has finished the stream and all of it was read.
\<close>

theorem stream_channel_delivers:
  assumes "stream_channel sid base q S net rq refs D"
  shows "prefix D S
    \<and> (\<exists>rq' refs' h' bs fin ok. ossl_quic_rstream_read now h refs rq sz = Inr (rq', refs', h', Some (bs, fin), ok)
      \<and> prefix (D @ bs) S \<and> (fin \<longrightarrow> have_final_size q \<and> D @ bs = S))"
  using channel_invD(4) [OF stream_channel_inv [OF assms]] read_from [OF stream_channel_inv [OF assms], of now h sz]
  by blast

text \<open>A writer writes three bytes and finishes the stream; a frame with all of it arrives.\<close>

definition ch_sender :: quic_sstream where
  "ch_sender = (sstream_state [1, 2, 3, 0] 4 3 0 [\<lparr>rstart = 0, rend = 2\<rparr>] [])\<lparr>have_final_size := True\<rparr>"

definition ch_hdr :: stream_frame_hdr where
  "ch_hdr = \<lparr>fr_offset = 0, fr_len = 3, fr_is_fin = True\<rparr>"

definition ch_frame :: ossl_quic_frame_stream where
  "ch_frame = wire_frame 4 ch_hdr [[1, 2, 3]]"

definition ch_receiver :: "sframe_list \<Rightarrow> quic_rstream" where
  "ch_receiver fl = \<lparr>rs_fl = fl, rs_rxfc = None, rs_statm = None, head_range = \<lparr>rstart = 0, rend = 0\<rparr>,
     rs_rbuf = \<lparr>rb_start = [0, 0, 0, 0], rb_alloc = 4, head_offset = 0, ctail_offset = 0\<rparr>\<rparr>"

definition ch_received :: sframe_list where
  "ch_received = ossl_sframe_list_init\<lparr>num_frames := 1, fl_fin := True,
     frames := [\<lparr>sf_range = \<lparr>rstart = 0, rend = 3\<rparr>, sf_pkt = None, sf_data = Some [1, 2, 3]\<rparr>]\<rparr>"

lemma channel_example_sender:
  "stream_channel 4 base ch_sender [1, 2, 3] {} (ch_receiver ossl_sframe_list_init) base []"
proof -
  have "ossl_quic_sstream_new True (Some [0, 0, 0, 0]) 4 = Inr (Some (sstream_state [0, 0, 0, 0] 4 0 0 [] []))"
    by code_simp
  moreover have "ossl_quic_rstream_new True (Some [0, 0, 0, 0]) None None 4 = Inr (Some (ch_receiver ossl_sframe_list_init))"
    by code_simp
  ultimately have "stream_channel 4 base (sstream_state [0, 0, 0, 0] 4 0 0 [] []) [] {} (ch_receiver ossl_sframe_list_init) base []"
    by (intro stream_channel.start) auto
  moreover have "ossl_quic_sstream_append True (sstream_state [0, 0, 0, 0] 4 0 0 [] []) [1, 2, 3]
    = Inr (sstream_state [1, 2, 3, 0] 4 3 0 [\<lparr>rstart = 0, rend = 2\<rparr>] [], 3, True)"
    by code_simp
  ultimately have "stream_channel 4 base (sstream_state [1, 2, 3, 0] 4 3 0 [\<lparr>rstart = 0, rend = 2\<rparr>] [])
      ([] @ take (unat (3 :: u64)) [1, 2, 3]) {} (ch_receiver ossl_sframe_list_init) base []"
    by (intro stream_channel.sender [OF _ sstream_step.append]) simp_all
  from stream_channel.sender [OF this sstream_step.fin] show ?thesis
    by (simp add: ch_sender_def ossl_quic_sstream_fin_def)
qed

lemma channel_example:
  "stream_channel 4 base ch_sender [1, 2, 3] {[11, 4, 3, 1, 2, 3]} (ch_receiver ch_received) base []"
proof -
  have get: "ossl_quic_sstream_get_stream_frame ch_sender 0 2 = Inr (Some (ch_hdr, [[1, 2, 3]]))"
    by code_simp
  let ?r = "send_stream_frame wp_example 4 ch_hdr [[1, 2, 3]]"
  have "\<not> isl ?r" "snd (projr ?r)" and bs: "wp_bytes (fst (projr ?r)) = [11, 4, 3, 1, 2, 3]"
    by code_simp+
  then have send: "?r = Inr (fst (projr ?r), True)"
    by (cases ?r) auto
  from stream_channel.send [OF channel_example_sender get wp_example_ok(1) send]
  have "stream_channel 4 base ch_sender [1, 2, 3] {[11, 4, 3, 1, 2, 3]} (ch_receiver ossl_sframe_list_init) base []"
    by (simp add: bs wp_example_ok(2))
  then show ?thesis
  proof (rule stream_channel.receive)
    show "ossl_quic_wire_decode_frame_stream ([11, 4, 3, 1, 2, 3] @ [0]) False = Some (ch_frame, [0])"
      by code_simp
    show "ossl_quic_rstream_queue_data True base (ch_receiver ossl_sframe_list_init) None (fs_offset ch_frame) (fs_data ch_frame)
      (fs_len ch_frame) (fs_is_fin ch_frame) = (ch_receiver ch_received, base, True)"
      by (simp add: ch_frame_def ch_hdr_def ch_receiver_def ch_received_def wire_frame_def ossl_quic_rstream_queue_data_def
          ossl_sframe_list_insert_def ossl_sframe_list_init_def stream_frame_new_def ossl_qrx_pkt_up_ref_def Let_def)
  qed simp
qed

lemma channel_example_read:
  "case ossl_quic_rstream_read ossl_time_zero (fst rs_flow_example) (\<lambda>_. 0) (ch_receiver ch_received) 8 of
     Inl _ \<Rightarrow> False | Inr (_, _, _, r, _) \<Rightarrow> r = Some ([1, 2, 3], True)"
  by code_simp

theorem stream_channel_delivers_witness:
  "\<exists>rq' refs' h' bs fin ok.
    ossl_quic_rstream_read ossl_time_zero (fst rs_flow_example) (\<lambda>_. 0) (ch_receiver ch_received) 8 = Inr (rq', refs', h', Some (bs, fin), ok)
    \<and> fin \<and> have_final_size ch_sender \<and> bs = [1, 2, 3]"
  using channel_example_read
    stream_channel_delivers [OF channel_example, of ossl_time_zero "fst rs_flow_example" "\<lambda>_. 0" 8] by auto

end
