(* ===== verification/Priority_Queue.thy ===== *)
theory Priority_Queue
  imports Safe_Math "HOL-Library.Multiset"
begin

text \<open>
  \<^verbatim>\<open>ssl/priority_queue.c\<close>: a binary heap of pointers. The array \<^verbatim>\<open>heap\<close> holds the entries in heap order, each
  with the number of its slot in the array \<^verbatim>\<open>elements\<close>, where the entry's place in the heap is kept; the number is the
  handle \<^verbatim>\<open>ossl_pqueue_remove\<close> takes. Free slots are chained through the same array. An access outside an array is a
  fault, and so is one past \<^verbatim>\<open>max_nodes\<close>, since no array has more entries. The bytes of a new or grown array are arbitrary
  (\<open>junk\<close>). The comparison is a callback that reads what the pointers point to, so it is an argument of the
  operations that call it. The build is a release build, without the debugging field \<^verbatim>\<open>used\<close>.
\<close>

section \<open>Operations\<close>

record 'a pq_heap =
  hp_data :: 'a
  hp_index :: u64

record pq_elem =
  posn :: u64

record 'a ossl_pqueue =
  heap :: "'a pq_heap list"
  elements :: "pq_elem list"
  htop :: u64
  hmax :: u64
  freelist :: u64

definition min_nodes :: u64 where
  "min_nodes = 8"

definition max_nodes :: u64 where
  "max_nodes = SIZE_MAX div 16"

definition h_get :: "'a ossl_pqueue \<Rightarrow> u64 \<Rightarrow> c_fault + 'a pq_heap" where
  "h_get pq i = (if unat i < length (heap pq) \<and> i < max_nodes then Inr (heap pq ! unat i) else Inl OutOfBounds)"

definition h_set :: "'a ossl_pqueue \<Rightarrow> u64 \<Rightarrow> 'a pq_heap \<Rightarrow> c_fault + 'a ossl_pqueue" where
  "h_set pq i x =
     (if unat i < length (heap pq) \<and> i < max_nodes then Inr (pq\<lparr>heap := (heap pq)[unat i := x]\<rparr>) else Inl OutOfBounds)"

definition e_posn :: "'a ossl_pqueue \<Rightarrow> u64 \<Rightarrow> c_fault + u64" where
  "e_posn pq i = (if unat i < length (elements pq) then Inr (posn (elements pq ! unat i)) else Inl OutOfBounds)"

definition e_set_posn :: "'a ossl_pqueue \<Rightarrow> u64 \<Rightarrow> u64 \<Rightarrow> c_fault + 'a ossl_pqueue" where
  "e_set_posn pq i v =
     (if unat i < length (elements pq) then Inr (pq\<lparr>elements := (elements pq)[unat i := \<lparr>posn = v\<rparr>]\<rparr>)
      else Inl OutOfBounds)"

text \<open>
  The results of the loops depend on the results of their bodies, which the function package needs to know.
\<close>

lemma res_bind_cong [fundef_cong]:
  "m = m' \<Longrightarrow> (\<And>x. m' = Inr x \<Longrightarrow> f x = f' x) \<Longrightarrow> res_bind m f = res_bind m' f'"
  by (cases m') simp_all

text \<open>A pass of the loop that leaves \<open>current\<close> as it is repeats for ever.\<close>

function compute_pqueue_growth :: "u64 \<Rightarrow> u64 \<Rightarrow> c_fault + u64" where
  "compute_pqueue_growth target current =
     (if current < target then
        if current \<ge> max_nodes then Inr 0
        else
          let (next', err) = safe_muldiv current 8 5 in
          if err then Inr 0
          else
            let next' = (if next' \<ge> max_nodes then max_nodes else next')
            in if next' = current then Inl NoReturn else compute_pqueue_growth target next'
      else Inr current)"
  by auto

lemma growth_step:
  assumes "current < max_nodes"
  shows "\<not> snd (safe_muldiv current 8 5)" and "unat (fst (safe_muldiv current 8 5)) = unat current * 8 div 5"
proof -
  have "unat current * unat (8 :: u64) < 2 ^ LENGTH(64)"
    using assms by (simp add: max_nodes_def SIZE_MAX_def word_less_nat_alt unat_div)
  then show *: "\<not> snd (safe_muldiv current 8 5)"
    by (intro safe_muldiv_no_error) simp_all
  then show "unat (fst (safe_muldiv current 8 5)) = unat current * 8 div 5"
    by (simp add: safe_muldiv_exact)
qed

lemma growth_increases:
  assumes "current < max_nodes" and "(next', err) = safe_muldiv current 8 5"
    and "(if max_nodes \<le> next' then max_nodes else next') \<noteq> current"
  shows "unat current < unat (if max_nodes \<le> next' then max_nodes else next')"
proof -
  have "unat next' = unat current * 8 div 5"
    using growth_step(2) [OF assms(1)] unfolding assms(2) [symmetric] by simp
  then have "unat current \<le> unat next'"
    by simp
  with assms(1,3) show ?thesis
    by (auto simp: word_le_nat_alt word_less_nat_alt word_unat_eq_iff)
qed

termination compute_pqueue_growth
  apply (relation "measure (\<lambda>(target, current). unat max_nodes - unat current)")
  apply simp
  subgoal for target current x next' err nxt
    using growth_increases [of current next' err] by (auto simp: word_le_nat_alt word_less_nat_alt)
  done

declare compute_pqueue_growth.simps [simp del]

definition pqueue_swap_elem :: "'a ossl_pqueue \<Rightarrow> u64 \<Rightarrow> u64 \<Rightarrow> c_fault + 'a ossl_pqueue" where
  "pqueue_swap_elem pq i j =
     res_bind (h_get pq i) (\<lambda>t_h.
     res_bind (h_get pq j) (\<lambda>hj.
     res_bind (h_set pq i hj) (\<lambda>pq.
     res_bind (h_set pq j t_h) (\<lambda>pq.
     res_bind (h_get pq i) (\<lambda>hi.
     res_bind (e_set_posn pq (hp_index hi) i) (\<lambda>pq.
     res_bind (h_get pq j) (\<lambda>hj.
     e_set_posn pq (hp_index hj) j)))))))"

definition pqueue_move_elem :: "'a ossl_pqueue \<Rightarrow> u64 \<Rightarrow> u64 \<Rightarrow> c_fault + 'a ossl_pqueue" where
  "pqueue_move_elem pq from to =
     res_bind (h_get pq from) (\<lambda>h.
     res_bind (h_set pq to h) (\<lambda>pq.
     e_set_posn pq (hp_index h) to))"

lemma half_decreases: "n > 0 \<Longrightarrow> unat ((n - 1) div 2) < unat n" for n :: u64
  using unat_pred [of 0 n] unat_gt_0 [of n] by (simp add: unat_div word_gt_0)

function pqueue_force_bottom :: "'a ossl_pqueue \<Rightarrow> u64 \<Rightarrow> c_fault + 'a ossl_pqueue" where
  "pqueue_force_bottom pq n =
     (if n > 0 then
        let p = (n - 1) div 2
        in res_bind (pqueue_swap_elem pq n p) (\<lambda>pq. pqueue_force_bottom pq p)
      else Inr pq)"
  by auto

termination pqueue_force_bottom
  by (relation "measure (\<lambda>(pq, n). unat n)") (simp_all add: half_decreases)

function pqueue_move_down :: "('a \<Rightarrow> 'a \<Rightarrow> int) \<Rightarrow> 'a ossl_pqueue \<Rightarrow> u64 \<Rightarrow> c_fault + 'a ossl_pqueue" where
  "pqueue_move_down compare pq n =
     (if n > 0 then
        let p = (n - 1) div 2
        in res_bind (h_get pq n) (\<lambda>hn.
           res_bind (h_get pq p) (\<lambda>hp.
             if compare (hp_data hn) (hp_data hp) \<ge> 0 then Inr pq
             else res_bind (pqueue_swap_elem pq n p) (\<lambda>pq. pqueue_move_down compare pq p)))
      else Inr pq)"
  by auto

termination pqueue_move_down
  by (relation "measure (\<lambda>(compare, pq, n). unat n)") (simp_all add: half_decreases)

declare pqueue_force_bottom.simps [simp del] pqueue_move_down.simps [simp del]

lemma sift_at_root [simp]: "pqueue_force_bottom pq 0 = Inr pq" "pqueue_move_down compare pq 0 = Inr pq"
  by (simp_all add: pqueue_force_bottom.simps pqueue_move_down.simps)

text \<open>The smaller child of an entry, as \<^verbatim>\<open>pqueue_move_up\<close> picks it before its loop and at the end of the loop's body.\<close>

definition pq_child :: "('a \<Rightarrow> 'a \<Rightarrow> int) \<Rightarrow> 'a ossl_pqueue \<Rightarrow> u64 \<Rightarrow> c_fault + u64" where
  "pq_child compare pq n =
     (let p = n * 2 + 1 in
      if htop pq > p + 1 then
        res_bind (h_get pq p) (\<lambda>hp.
        res_bind (h_get pq (p + 1)) (\<lambda>hq.
          Inr (if compare (hp_data hp) (hp_data hq) > 0 then p + 1 else p)))
      else Inr p)"

function pqueue_move_up :: "('a \<Rightarrow> 'a \<Rightarrow> int) \<Rightarrow> 'a ossl_pqueue \<Rightarrow> u64 \<Rightarrow> c_fault + 'a ossl_pqueue" where
  "pqueue_move_up compare pq n =
     res_bind (pq_child compare pq n) (\<lambda>p.
       if htop pq > p then
         res_bind (h_get pq p) (\<lambda>hp.
         res_bind (h_get pq n) (\<lambda>hn.
           if compare (hp_data hp) (hp_data hn) < 0
           then res_bind (pqueue_swap_elem pq n p) (\<lambda>pq. pqueue_move_up compare pq p)
           else Inr pq))
       else Inr pq)"
  by auto

lemma max_nodes_nat: "unat max_nodes = 2 ^ 60 - 1"
  by (simp add: max_nodes_def SIZE_MAX_def unat_div)

lemma h_get_bound: "h_get pq i = Inr x \<Longrightarrow> unat i < 2 ^ 60 - 1 \<and> unat i < length (heap pq) \<and> x = heap pq ! unat i"
  using max_nodes_nat by (auto simp: h_get_def word_less_nat_alt split: if_splits)

lemma pq_child_above:
  assumes "pq_child compare pq n = Inr p" and "unat n < 2 ^ 60"
  shows "unat p = 2 * unat n + 1 \<or> unat p = 2 * unat n + 2"
proof -
  have "unat (n * 2) = 2 * unat n"
    using assms(2) by (subst unat_mult_no_overflow) simp_all
  then have "unat (n * 2 + 1) = 2 * unat n + 1" "unat (2 + n * 2) = 2 * unat n + 2"
    using assms(2) by (subst unat_add_no_overflow, simp_all)+
  then show ?thesis
    using assms(1) by (auto simp: pq_child_def Let_def res_bind_Inr split: if_splits)
qed

lemma swap_htop: "pqueue_swap_elem pq i j = Inr pq' \<Longrightarrow> htop pq' = htop pq"
  by (auto simp: pqueue_swap_elem_def res_bind_Inr h_set_def e_set_posn_def split: if_splits)

termination pqueue_move_up
proof (relation "measure (\<lambda>(compare, pq, n). unat (htop pq) - unat n)", simp)
  fix compare :: "'a \<Rightarrow> 'a \<Rightarrow> int" and pq :: "'a ossl_pqueue" and n p hp hn pq'
  assume a: "pq_child compare pq n = Inr p" "p < htop pq" "h_get pq n = Inr hn" "pqueue_swap_elem pq n p = Inr pq'"
  then have "unat n < unat p" "unat p < unat (htop pq)"
    using pq_child_above [OF a(1)] h_get_bound [OF a(3)] by (auto simp: word_less_nat_alt)
  then show "((compare, pq', p), compare, pq, n) \<in> measure (\<lambda>(compare, pq, n). unat (htop pq) - unat n)"
    using swap_htop [OF a(4)] by simp
qed

declare pqueue_move_up.simps [simp del]

function pqueue_add_freelist_loop :: "'a ossl_pqueue \<Rightarrow> u64 \<Rightarrow> c_fault + 'a ossl_pqueue" where
  "pqueue_add_freelist_loop pq i =
     (if i < hmax pq then res_bind (e_set_posn pq i (i - 1)) (\<lambda>pq. pqueue_add_freelist_loop pq (i + 1))
      else Inr pq)"
  by auto

lemma e_set_posn_hmax: "e_set_posn pq i v = Inr pq' \<Longrightarrow> hmax pq' = hmax pq"
  by (auto simp: e_set_posn_def split: if_splits)

termination pqueue_add_freelist_loop
  by (relation "measure (\<lambda>(pq, i). unat (hmax pq) - unat i)")
    (auto dest: e_set_posn_hmax simp: unat_succ word_less_nat_alt)

declare pqueue_add_freelist_loop.simps [simp del]

definition pqueue_add_freelist :: "'a ossl_pqueue \<Rightarrow> u64 \<Rightarrow> c_fault + 'a ossl_pqueue" where
  "pqueue_add_freelist pq from =
     res_bind (e_set_posn pq from (freelist pq)) (\<lambda>pq.
     res_bind (pqueue_add_freelist_loop pq (from + 1)) (\<lambda>pq.
       Inr (pq\<lparr>freelist := hmax pq - 1\<rparr>)))"

text \<open>
  An array grown to \<open>n\<close> entries. Which of the two reallocations succeed is an argument (\<open>mem\<close>); when the second one fails
  the first array has grown already.
\<close>

definition realloc_array :: "(nat \<Rightarrow> 'b) \<Rightarrow> 'b list \<Rightarrow> u64 \<Rightarrow> 'b list" where
  "realloc_array junk xs n = take (unat n) xs @ map junk [length xs..<unat n]"

record 'a pq_junk =
  j_heap :: "nat \<Rightarrow> 'a pq_heap"
  j_elements :: "nat \<Rightarrow> pq_elem"

definition ossl_pqueue_reserve ::
    "bool \<times> bool \<Rightarrow> 'a pq_junk \<Rightarrow> 'a ossl_pqueue \<Rightarrow> u64 \<Rightarrow> c_fault + ('a ossl_pqueue \<times> bool)" where
  "ossl_pqueue_reserve mem junk pq n =
     (let cur_max = hmax pq in
      if htop pq + n < cur_max then Inr (pq, True)
      else
        res_bind (compute_pqueue_growth (n + cur_max) cur_max) (\<lambda>new_max.
          if new_max = 0 then Inr (pq, False)
          else if \<not> fst mem then Inr (pq, False)
          else
            let pq = pq\<lparr>heap := realloc_array (j_heap junk) (heap pq) new_max\<rparr> in
            if \<not> snd mem then Inr (pq, False)
            else
              let pq = pq\<lparr>elements := realloc_array (j_elements junk) (elements pq) new_max, hmax := new_max\<rparr>
              in res_bind (pqueue_add_freelist pq cur_max) (\<lambda>pq. Inr (pq, True))))"

text \<open>A push gives the handle of the new entry, or \<^term>\<open>None\<close> where it returns 0.\<close>

definition ossl_pqueue_push ::
    "bool \<times> bool \<Rightarrow> 'a pq_junk \<Rightarrow> ('a \<Rightarrow> 'a \<Rightarrow> int) \<Rightarrow> 'a ossl_pqueue \<Rightarrow> 'a \<Rightarrow> c_fault + ('a ossl_pqueue \<times> u64 option)" where
  "ossl_pqueue_push mem junk compare pq data =
     res_bind (ossl_pqueue_reserve mem junk pq 1) (\<lambda>(pq, ok).
       if \<not> ok then Inr (pq, None)
       else
         let n = htop pq; pq = pq\<lparr>htop := n + 1\<rparr>; m = freelist pq in
         res_bind (e_posn pq m) (\<lambda>next'.
         let pq = pq\<lparr>freelist := next'\<rparr> in
         res_bind (h_set pq n \<lparr>hp_data = data, hp_index = m\<rparr>) (\<lambda>pq.
         res_bind (e_set_posn pq m n) (\<lambda>pq.
         res_bind (pqueue_move_down compare pq n) (\<lambda>pq.
           Inr (pq, Some m))))))"

definition ossl_pqueue_peek :: "'a ossl_pqueue \<Rightarrow> c_fault + 'a option" where
  "ossl_pqueue_peek pq =
     (if htop pq > 0 then res_bind (h_get pq 0) (\<lambda>h. Inr (Some (hp_data h))) else Inr None)"

definition ossl_pqueue_pop :: "('a \<Rightarrow> 'a \<Rightarrow> int) \<Rightarrow> 'a ossl_pqueue \<Rightarrow> c_fault + ('a ossl_pqueue \<times> 'a option)" where
  "ossl_pqueue_pop compare pq =
     (if htop pq = 0 then Inr (pq, None)
      else
        res_bind (h_get pq 0) (\<lambda>h.
        let res = hp_data h; elem = hp_index h; pq = pq\<lparr>htop := htop pq - 1\<rparr> in
        res_bind
          (if htop pq \<noteq> 0
           then res_bind (pqueue_move_elem pq (htop pq) 0) (\<lambda>pq. pqueue_move_up compare pq 0)
           else Inr pq) (\<lambda>pq.
        res_bind (e_set_posn pq elem (freelist pq)) (\<lambda>pq.
          Inr (pq\<lparr>freelist := elem\<rparr>, Some res)))))"

definition ossl_pqueue_remove ::
    "('a \<Rightarrow> 'a \<Rightarrow> int) \<Rightarrow> 'a ossl_pqueue \<Rightarrow> u64 \<Rightarrow> c_fault + ('a ossl_pqueue \<times> 'a option)" where
  "ossl_pqueue_remove compare pq elem =
     (if elem \<ge> hmax pq \<or> htop pq = 0 then Inr (pq, None)
      else
        res_bind (e_posn pq elem) (\<lambda>n.
        if n = htop pq - 1 then
          res_bind (e_set_posn pq elem (freelist pq)) (\<lambda>pq.
          let pq = pq\<lparr>freelist := elem, htop := htop pq - 1\<rparr>
          in res_bind (h_get pq (htop pq)) (\<lambda>h. Inr (pq, Some (hp_data h))))
        else
          res_bind (if n > 0 then pqueue_force_bottom pq n else Inr pq) (\<lambda>pq.
          ossl_pqueue_pop compare pq)))"

text \<open>\<open>mem\<close>: which of the three allocations of \<^verbatim>\<open>ossl_pqueue_new\<close> succeed.\<close>

definition ossl_pqueue_new :: "bool \<times> bool \<times> bool \<Rightarrow> 'a pq_junk \<Rightarrow> c_fault + 'a ossl_pqueue option" where
  "ossl_pqueue_new mem junk =
     (case mem of (m, mh, me) \<Rightarrow>
        if \<not> m then Inr None
        else if \<not> mh \<or> \<not> me then Inr None
        else
          res_bind
            (pqueue_add_freelist
              \<lparr>heap = map (j_heap junk) [0..<unat min_nodes], elements = map (j_elements junk) [0..<unat min_nodes],
               htop = 0, hmax = min_nodes, freelist = 0\<rparr> 0)
            (\<lambda>pq. Inr (Some pq)))"

text \<open>The pointers the callback of \<^verbatim>\<open>ossl_pqueue_pop_free\<close> is given, in order.\<close>

definition ossl_pqueue_pop_free :: "'a ossl_pqueue \<Rightarrow> 'a list" where
  "ossl_pqueue_pop_free pq = map hp_data (take (unat (htop pq)) (heap pq))"

definition ossl_pqueue_num :: "'a ossl_pqueue \<Rightarrow> u64" where
  "ossl_pqueue_num pq = htop pq"

section \<open>The arrays\<close>

text \<open>
  \<open>pq_links\<close>: the entries in use and their slots point at each other. \<open>free_chain\<close>: the free slots, from the head of the
  free list on.
\<close>

abbreviation h_num :: "'a ossl_pqueue \<Rightarrow> nat" where
  "h_num pq \<equiv> unat (htop pq)"

definition key :: "'a ossl_pqueue \<Rightarrow> nat \<Rightarrow> 'a" where
  "key pq i = hp_data (heap pq ! i)"

definition slot :: "'a ossl_pqueue \<Rightarrow> nat \<Rightarrow> nat" where
  "slot pq i = unat (hp_index (heap pq ! i))"

definition pq_links :: "'a ossl_pqueue \<Rightarrow> bool" where
  "pq_links pq \<longleftrightarrow> h_num pq \<le> unat (hmax pq) \<and> unat (hmax pq) \<le> length (heap pq) \<and> length (elements pq) = unat (hmax pq)
     \<and> hmax pq \<le> max_nodes
     \<and> (\<forall>i < h_num pq. slot pq i < unat (hmax pq) \<and> unat (posn (elements pq ! slot pq i)) = i)"

text \<open>What is in the queue: which handle stands for which pointer.\<close>

definition pq_view :: "'a ossl_pqueue \<Rightarrow> u64 \<rightharpoonup> 'a" where
  "pq_view pq m =
     (let i = unat (posn (elements pq ! unat m))
      in if m < hmax pq \<and> i < h_num pq \<and> hp_index (heap pq ! i) = m then Some (key pq i) else None)"

fun free_chain :: "'a ossl_pqueue \<Rightarrow> u64 \<Rightarrow> u64 list \<Rightarrow> bool" where
  "free_chain pq s [] = True"
| "free_chain pq s (m # ms) \<longleftrightarrow> s = m \<and> m < hmax pq \<and> free_chain pq (posn (elements pq ! unat m)) ms"

definition pq_free_ok :: "'a ossl_pqueue \<Rightarrow> bool" where
  "pq_free_ok pq \<longleftrightarrow> (\<exists>ms. free_chain pq (freelist pq) ms \<and> distinct ms \<and> length ms = unat (hmax pq) - h_num pq
     \<and> (\<forall>m \<in> set ms. pq_view pq m = None))"

lemma pq_view_Some:
  assumes "pq_links pq"
  shows "pq_view pq m = Some x \<longleftrightarrow> (\<exists>i < h_num pq. hp_index (heap pq ! i) = m \<and> key pq i = x)"
proof
  assume "pq_view pq m = Some x"
  then show "\<exists>i < h_num pq. hp_index (heap pq ! i) = m \<and> key pq i = x"
    by (auto simp: pq_view_def Let_def split: if_splits)
next
  assume "\<exists>i < h_num pq. hp_index (heap pq ! i) = m \<and> key pq i = x"
  then obtain i where i: "i < h_num pq" "hp_index (heap pq ! i) = m" "key pq i = x"
    by blast
  then have "unat m < unat (hmax pq)" "unat (posn (elements pq ! unat m)) = i"
    using assms by (auto simp: pq_links_def slot_def)
  with i show "pq_view pq m = Some x"
    by (auto simp: pq_view_def Let_def word_less_nat_alt)
qed

lemma view_used: "pq_links pq \<Longrightarrow> i < h_num pq \<Longrightarrow> pq_view pq (hp_index (heap pq ! i)) = Some (key pq i)"
  by (auto simp: pq_view_Some)

lemma links_inj:
  assumes "pq_links pq" and "i < h_num pq" "j < h_num pq" "hp_index (heap pq ! i) = hp_index (heap pq ! j)"
  shows "i = j"
  using assms by (metis pq_links_def slot_def)

text \<open>The same entries with the same handles, in another order; the free slots are untouched.\<close>

definition rearranged :: "'a ossl_pqueue \<Rightarrow> 'a ossl_pqueue \<Rightarrow> bool" where
  "rearranged pq pq' \<longleftrightarrow> htop pq' = htop pq \<and> hmax pq' = hmax pq \<and> freelist pq' = freelist pq \<and> pq_links pq'
     \<and> pq_view pq' = pq_view pq \<and> (\<forall>m. pq_view pq m = None \<longrightarrow> elements pq' ! unat m = elements pq ! unat m)"

lemma rearranged_refl: "pq_links pq \<Longrightarrow> rearranged pq pq"
  by (simp add: rearranged_def)

lemma rearranged_trans: "rearranged p q \<Longrightarrow> rearranged q r \<Longrightarrow> rearranged p r"
  by (simp add: rearranged_def)

lemma h_get_ok:
  assumes "pq_links pq" and "unat i < h_num pq"
  shows "h_get pq i = Inr (heap pq ! unat i)"
  using assms by (auto simp: h_get_def pq_links_def word_less_nat_alt word_le_nat_alt)

lemma h_set_ok:
  assumes "pq_links pq" and "unat i < h_num pq"
  shows "h_set pq i x = Inr (pq\<lparr>heap := (heap pq)[unat i := x]\<rparr>)"
  using assms by (auto simp: h_set_def pq_links_def word_less_nat_alt word_le_nat_alt)

text \<open>An exchange of two entries.\<close>

lemma swap_elem_spec:
  assumes ok: "pq_links pq" and i: "unat i < h_num pq" and j: "unat j < h_num pq" and ne: "i \<noteq> j"
  obtains pq' where "pqueue_swap_elem pq i j = Inr pq'" "rearranged pq pq'"
    "heap pq' = (heap pq)[unat i := heap pq ! unat j, unat j := heap pq ! unat i]"
proof -
  let ?i = "unat i" and ?j = "unat j" and ?n = "h_num pq"
  let ?h = "(heap pq)[?i := heap pq ! ?j, ?j := heap pq ! ?i]"
  let ?si = "slot pq ?i" and ?sj = "slot pq ?j"
  let ?e = "(elements pq)[?sj := \<lparr>posn = i\<rparr>, ?si := \<lparr>posn = j\<rparr>]"
  define pq' where "pq' = pq\<lparr>heap := ?h, elements := ?e\<rparr>"
  have nij: "?i \<noteq> ?j"
    using ne by (simp add: word_unat_eq_iff)
  have len: "?i < length (heap pq)" "?j < length (heap pq)" "i < max_nodes" "j < max_nodes"
    using ok i j by (auto simp: pq_links_def word_less_nat_alt word_le_nat_alt)
  have slots: "slot pq k < length (elements pq)" "unat (posn (elements pq ! slot pq k)) = k" if "k < ?n" for k
    using ok that by (auto simp: pq_links_def)
  have inj: "slot pq k = slot pq l \<longleftrightarrow> k = l" if "k < ?n" "l < ?n" for k l
    using slots(2) that by metis
  have res: "pqueue_swap_elem pq i j = Inr pq'"
    using len nij slots [OF i] slots [OF j] by (simp add: pqueue_swap_elem_def h_get_def h_set_def e_set_posn_def pq'_def slot_def)
  have heap': "heap pq' ! k = (if k = ?i then heap pq ! ?j else if k = ?j then heap pq ! ?i else heap pq ! k)" for k
    using len nij by (simp add: pq'_def nth_list_update)
  have slot': "slot pq' k = (if k = ?i then ?sj else if k = ?j then ?si else slot pq k)" for k
    by (simp add: slot_def heap')
  have posn': "posn (elements pq' ! m) = (if m = ?si then j else if m = ?sj then i else posn (elements pq ! m))" for m
    using slots(1) [OF i] slots(1) [OF j] by (simp add: pq'_def nth_list_update)
  have "unat (posn (elements pq' ! slot pq' k)) = k" if "k < ?n" for k
    using that nij inj [OF i j] inj [OF that i] inj [OF that j] slots(2) [OF that] by (auto simp: slot' posn')
  moreover have "slot pq' k < unat (hmax pq)" if "k < ?n" for k
    using that i j slots(1) ok by (auto simp: slot' pq_links_def)
  ultimately have links: "pq_links pq'"
    using ok by (simp add: pq_links_def pq'_def)
  have view: "pq_view pq' m = pq_view pq m" for m
  proof (rule option.expand)
    have sw: "(\<exists>k < ?n. P (heap pq' ! k)) \<longleftrightarrow> (\<exists>k < ?n. P (heap pq ! k))" for P
      using i j by (metis heap')
    have "pq_view pq' m = Some x \<longleftrightarrow> pq_view pq m = Some x" for x
      unfolding pq_view_Some [OF links] pq_view_Some [OF ok] key_def
      using sw [of "\<lambda>h. hp_index h = m \<and> hp_data h = x"] by (simp add: pq'_def)
    then show "pq_view pq' m = None \<longleftrightarrow> pq_view pq m = None"
      "pq_view pq' m \<noteq> None \<Longrightarrow> pq_view pq m \<noteq> None \<Longrightarrow> the (pq_view pq' m) = the (pq_view pq m)"
      by (metis not_None_eq option.sel)+
  qed
  have "elements pq' ! unat m = elements pq ! unat m" if "pq_view pq m = None" for m
  proof -
    have "hp_index (heap pq ! k) \<noteq> m" if "k < ?n" for k
      using \<open>pq_view pq m = None\<close> that pq_view_Some [OF ok, of m "key pq k"] by auto
    then have "unat m \<noteq> ?si" "unat m \<noteq> ?sj"
      using i j by (metis slot_def word_unat_eq_iff)+
    then show ?thesis
      by (simp add: pq'_def)
  qed
  with links view have "rearranged pq pq'"
    by (simp add: rearranged_def pq'_def fun_eq_iff)
  with res show ?thesis
    by (rule that) (simp add: pq'_def)
qed

section \<open>The heap order\<close>

text \<open>
  What the comparison has to satisfy: a negative, zero or positive result orders the entries in one total preorder. The
  lemmas of this section are the sifting steps, over the entry \<open>k i\<close> at each place \<open>i < num\<close>.
\<close>

definition parent :: "nat \<Rightarrow> nat" where
  "parent i = (i - 1) div 2"

definition heap_on :: "('a \<Rightarrow> 'a \<Rightarrow> int) \<Rightarrow> (nat \<Rightarrow> 'a) \<Rightarrow> nat \<Rightarrow> bool" where
  "heap_on cmp k num \<longleftrightarrow> (\<forall>i. 0 < i \<and> i < num \<longrightarrow> cmp (k (parent i)) (k i) \<le> 0)"

text \<open>The order may be violated between \<open>n\<close> and its parent, its children, or both.\<close>

definition hole_below :: "('a \<Rightarrow> 'a \<Rightarrow> int) \<Rightarrow> (nat \<Rightarrow> 'a) \<Rightarrow> nat \<Rightarrow> nat \<Rightarrow> bool" where
  "hole_below cmp k num n \<longleftrightarrow> (\<forall>i. 0 < i \<and> i < num \<longrightarrow> (i \<noteq> n \<longrightarrow> cmp (k (parent i)) (k i) \<le> 0)
     \<and> (parent i = n \<and> 0 < n \<longrightarrow> cmp (k (parent n)) (k i) \<le> 0))"

definition hole_above :: "('a \<Rightarrow> 'a \<Rightarrow> int) \<Rightarrow> (nat \<Rightarrow> 'a) \<Rightarrow> nat \<Rightarrow> nat \<Rightarrow> bool" where
  "hole_above cmp k num n \<longleftrightarrow> (\<forall>i. 0 < i \<and> i < num \<longrightarrow> (parent i \<noteq> n \<longrightarrow> cmp (k (parent i)) (k i) \<le> 0)
     \<and> (parent i = n \<and> 0 < n \<longrightarrow> cmp (k (parent n)) (k i) \<le> 0))"

definition hole_at :: "('a \<Rightarrow> 'a \<Rightarrow> int) \<Rightarrow> (nat \<Rightarrow> 'a) \<Rightarrow> nat \<Rightarrow> nat \<Rightarrow> bool" where
  "hole_at cmp k num n \<longleftrightarrow> (\<forall>i. 0 < i \<and> i < num \<longrightarrow> (i \<noteq> n \<and> parent i \<noteq> n \<longrightarrow> cmp (k (parent i)) (k i) \<le> 0)
     \<and> (parent i = n \<and> 0 < n \<longrightarrow> cmp (k (parent n)) (k i) \<le> 0))"

abbreviation exchange :: "(nat \<Rightarrow> 'a) \<Rightarrow> nat \<Rightarrow> nat \<Rightarrow> nat \<Rightarrow> 'a" where
  "exchange k m n \<equiv> k(m := k n, n := k m)"

lemma parent_less [simp]: "0 < i \<Longrightarrow> parent i < i"
  by (simp add: parent_def)

lemma parent_of: "0 < i \<Longrightarrow> parent i = n \<longleftrightarrow> i = 2 * n + 1 \<or> i = 2 * n + 2"
  by (auto simp: parent_def)

lemma unat_parent: "n > 0 \<Longrightarrow> unat ((n - 1) div 2) = parent (unat n)" for n :: u64
  using unat_pred [of 0 n] by (simp add: parent_def unat_div)

locale pq_order =
  fixes cmp :: "'a \<Rightarrow> 'a \<Rightarrow> int"
  assumes cmp_flip: "cmp a b < 0 \<longleftrightarrow> 0 < cmp b a"
    and cmp_trans: "cmp a b \<le> 0 \<Longrightarrow> cmp b c \<le> 0 \<Longrightarrow> cmp a c \<le> 0"
begin

lemma cmp_refl: "cmp a a = 0"
  using cmp_flip [of a a] by linarith

lemma cmp_total: "\<not> cmp a b \<le> 0 \<Longrightarrow> cmp b a < 0"
  using cmp_flip [of b a] by linarith

lemma heap_root:
  assumes heap: "heap_on cmp k num" and "i < num"
  shows "cmp (k 0) (k i) \<le> 0"
  using assms(2)
proof (induction i rule: less_induct)
  case (less i)
  show ?case
  proof (cases "i = 0")
    case True
    then show ?thesis
      by (simp add: cmp_refl)
  next
    case False
    then have "cmp (k 0) (k (parent i)) \<le> 0" "cmp (k (parent i)) (k i) \<le> 0"
      using less heap by (auto simp: heap_on_def)
    then show ?thesis
      by (rule cmp_trans)
  qed
qed

lemma hole_below_done:
  assumes "hole_below cmp k num n" and "n = 0 \<or> cmp (k (parent n)) (k n) \<le> 0"
  shows "heap_on cmp k num"
  using assms by (auto simp: heap_on_def hole_below_def)

lemma hole_below_step:
  assumes hole: "hole_below cmp k num n" and n: "0 < n" "n < num" and lt: "cmp (k n) (k (parent n)) \<le> 0"
  shows "hole_below cmp (exchange k n (parent n)) num (parent n)"
  unfolding hole_below_def
proof (intro allI impI conjI; elim conjE)
  let ?k = "exchange k n (parent n)"
  have pn: "parent n \<noteq> n" "parent n < num"
    using n parent_less [OF n(1)] by linarith+
  have h1: "cmp (k (parent i)) (k i) \<le> 0" if "0 < i" "i < num" "i \<noteq> n" for i
    using hole that by (simp add: hole_below_def)
  have h2: "cmp (k (parent n)) (k i) \<le> 0" if "0 < i" "i < num" "parent i = n" for i
    using hole that n by (simp add: hole_below_def)
  have up: "cmp (k (parent (parent n))) (k (parent n)) \<le> 0" if "0 < parent n"
    by (rule h1) (use that pn in auto)
  fix i assume i: "0 < i" "i < num"
  show "cmp (?k (parent i)) (?k i) \<le> 0" if "i \<noteq> parent n"
  proof -
    consider "i = n" | "i \<noteq> n" "parent i = n" | "i \<noteq> n" "parent i \<noteq> n" "parent i = parent n"
      | "i \<noteq> n" "parent i \<noteq> n" "parent i \<noteq> parent n"
      by blast
    then show ?thesis
    proof cases
      case 1
      with lt pn show ?thesis by simp
    next
      case 2
      with h2 [OF i] that pn show ?thesis by simp
    next
      case 3
      with h1 [OF i] cmp_trans [OF lt] that pn show ?thesis by simp
    next
      case 4
      with h1 [OF i] that show ?thesis by simp
    qed
  qed
  show "cmp (?k (parent (parent n))) (?k i) \<le> 0" if p: "parent i = parent n" "0 < parent n"
  proof -
    have ne: "parent (parent n) \<noteq> n" "parent (parent n) \<noteq> parent n"
      using parent_less [OF p(2)] parent_less [OF n(1)] by linarith+
    have "i \<noteq> parent n"
      using p parent_less [OF p(2)] by auto
    moreover have "cmp (k (parent (parent n))) (k i) \<le> 0" if "i \<noteq> n"
      using cmp_trans [OF up [OF p(2)]] h1 [OF i that] p(1) by simp
    ultimately show ?thesis
      using up [OF p(2)] ne pn by auto
  qed
qed

lemma hole_above_done:
  assumes "hole_above cmp k num n" and "\<And>i. 0 < i \<Longrightarrow> i < num \<Longrightarrow> parent i = n \<Longrightarrow> cmp (k n) (k i) \<le> 0"
  shows "heap_on cmp k num"
  using assms by (auto simp: heap_on_def hole_above_def)

lemma hole_above_step:
  assumes hole: "hole_above cmp k num n" and c: "parent c = n" "0 < c" "c < num" and lt: "cmp (k c) (k n) \<le> 0"
    and least: "\<And>i. 0 < i \<Longrightarrow> i < num \<Longrightarrow> parent i = n \<Longrightarrow> cmp (k c) (k i) \<le> 0"
  shows "hole_above cmp (exchange k n c) num c"
  unfolding hole_above_def
proof (intro allI impI conjI; elim conjE)
  let ?k = "exchange k n c"
  have nc: "n \<noteq> c" "n < c"
    using c parent_less [OF c(2)] by auto
  have h1: "cmp (k (parent i)) (k i) \<le> 0" if "0 < i" "i < num" "parent i \<noteq> n" for i
    using hole that by (simp add: hole_above_def)
  fix i assume i: "0 < i" "i < num"
  have pi: "parent i \<noteq> i"
    using parent_less [OF i(1)] by linarith
  show "cmp (?k (parent i)) (?k i) \<le> 0" if "parent i \<noteq> c"
  proof -
    consider "i = c" | "i = n" | "i \<noteq> c" "i \<noteq> n" "parent i = n" | "i \<noteq> c" "i \<noteq> n" "parent i \<noteq> n"
      by blast
    then show ?thesis
    proof cases
      case 1
      with lt nc c(1) show ?thesis by simp
    next
      case 2
      then have "cmp (k (parent n)) (k c) \<le> 0"
        using hole c i by (simp add: hole_above_def)
      with 2 that pi nc show ?thesis by simp
    next
      case 3
      with least [OF i] nc show ?thesis by simp
    next
      case 4
      with h1 [OF i] that show ?thesis by simp
    qed
  qed
  show "cmp (?k (parent c)) (?k i) \<le> 0" if "parent i = c" "0 < c"
  proof -
    have "i \<noteq> n" "i \<noteq> c"
      using that nc parent_less [OF i(1)] by linarith+
    with h1 [OF i] that nc c(1) show ?thesis by simp
  qed
qed

lemma hole_at_start: "heap_on cmp k num \<Longrightarrow> hole_at cmp k num n"
  unfolding hole_at_def heap_on_def by (metis cmp_trans le_less_trans less_trans parent_less)

lemma hole_at_step:
  assumes hole: "hole_at cmp k num n" and n: "0 < n" "n < num"
  shows "hole_at cmp (exchange k n (parent n)) num (parent n)"
  unfolding hole_at_def
proof (intro allI impI conjI; elim conjE)
  let ?k = "exchange k n (parent n)"
  have pn: "parent n \<noteq> n" "parent n < num"
    using n parent_less [OF n(1)] by linarith+
  have h1: "cmp (k (parent i)) (k i) \<le> 0" if "0 < i" "i < num" "i \<noteq> n" "parent i \<noteq> n" for i
    using hole that by (simp add: hole_at_def)
  have h2: "cmp (k (parent n)) (k i) \<le> 0" if "0 < i" "i < num" "parent i = n" for i
    using hole that n by (simp add: hole_at_def)
  fix i assume i: "0 < i" "i < num"
  show "cmp (?k (parent i)) (?k i) \<le> 0" if "i \<noteq> parent n" "parent i \<noteq> parent n"
    using that h1 [OF i] h2 [OF i] pn by (cases "parent i = n") auto
  show "cmp (?k (parent (parent n))) (?k i) \<le> 0" if p: "parent i = parent n" "0 < parent n"
  proof -
    have ne: "parent (parent n) \<noteq> n" "parent (parent n) \<noteq> parent n" "parent n \<noteq> i"
      using parent_less [OF p(2)] parent_less [OF n(1)] parent_less [OF i(1)] p(1) by linarith+
    have up: "cmp (k (parent (parent n))) (k (parent n)) \<le> 0"
      by (rule h1) (use p pn ne in auto)
    then have "cmp (k (parent (parent n))) (k i) \<le> 0" if "i \<noteq> n"
      using cmp_trans [OF up] h1 [OF i that] p(1) pn by simp
    with up ne show ?thesis
      by auto
  qed
qed

lemma hole_at_root: "hole_at cmp k num 0 \<Longrightarrow> hole_above cmp k num 0"
  unfolding hole_above_def hole_at_def by auto

end

section \<open>Sifting\<close>

lemma swap_key:
  assumes "pq_links pq" and "unat i < h_num pq" "unat j < h_num pq" "i \<noteq> j"
  obtains pq' where "pqueue_swap_elem pq i j = Inr pq'" "rearranged pq pq'"
    "heap pq' = (heap pq)[unat i := heap pq ! unat j, unat j := heap pq ! unat i]"
    "key pq' = exchange (key pq) (unat i) (unat j)"
proof -
  have "unat i < length (heap pq)" "unat j < length (heap pq)"
    using assms by (auto simp: pq_links_def)
  then have "key (pq'\<lparr>heap := (heap pq)[unat i := heap pq ! unat j, unat j := heap pq ! unat i]\<rparr>)
      = exchange (key pq) (unat i) (unat j)" for pq'
    by (auto simp: key_def nth_list_update fun_eq_iff)
  moreover obtain pq' where "pqueue_swap_elem pq i j = Inr pq'" "rearranged pq pq'"
    "heap pq' = (heap pq)[unat i := heap pq ! unat j, unat j := heap pq ! unat i]"
    by (rule swap_elem_spec [OF assms])
  ultimately show ?thesis
    by (intro that [of pq']) (simp_all add: key_def fun_eq_iff)
qed

lemma rearranged_links: "rearranged pq pq' \<Longrightarrow> pq_links pq' \<and> h_num pq' = h_num pq"
  by (simp add: rearranged_def)

lemma force_bottom_heap:
  assumes "pq_links pq" and "unat n < h_num pq"
  shows "\<exists>pq'. pqueue_force_bottom pq n = Inr pq' \<and> rearranged pq pq' \<and> heap pq' ! 0 = heap pq ! unat n"
  using assms
proof (induction n arbitrary: pq rule: measure_induct_rule [of unat])
  case (less n)
  show ?case
  proof (cases "n = 0")
    case True
    with less.prems show ?thesis
      by (simp add: rearranged_refl)
  next
    case False
    let ?p = "(n - 1) div 2"
    have p: "unat ?p = parent (unat n)" "unat ?p < unat n" "unat ?p < h_num pq" "n \<noteq> ?p"
      using False unat_parent [of n] half_decreases [of n] less.prems(2) by (auto simp: word_gt_0)
    obtain pq1 where pq1: "pqueue_swap_elem pq n ?p = Inr pq1" "rearranged pq pq1"
      "heap pq1 = (heap pq)[unat n := heap pq ! unat ?p, unat ?p := heap pq ! unat n]"
      using swap_elem_spec [OF less.prems p(3,4)] by blast
    obtain pq' where pq': "pqueue_force_bottom pq1 ?p = Inr pq'" "rearranged pq1 pq'" "heap pq' ! 0 = heap pq1 ! unat ?p"
      using less.IH [OF p(2), of pq1] rearranged_links [OF pq1(2)] p(3) by auto
    have "heap pq1 ! unat ?p = heap pq ! unat n"
      using less.prems p(3) unfolding pq1(3) by (simp add: pq_links_def)
    with pq1 pq' False show ?thesis
      by (auto simp: pqueue_force_bottom.simps [of pq n] Let_def word_gt_0 intro: rearranged_trans)
  qed
qed

context pq_order
begin

lemma force_bottom_order:
  assumes "pq_links pq" and "unat n < h_num pq" and "hole_at cmp (key pq) (h_num pq) (unat n)"
    and "pqueue_force_bottom pq n = Inr pq'"
  shows "hole_above cmp (key pq') (h_num pq') 0"
  using assms
proof (induction n arbitrary: pq rule: measure_induct_rule [of unat])
  case (less n)
  show ?case
  proof (cases "n = 0")
    case True
    with less.prems show ?thesis
      by (simp add: hole_at_root)
  next
    case False
    let ?p = "(n - 1) div 2"
    have p: "unat ?p = parent (unat n)" "unat ?p < unat n" "unat ?p < h_num pq" "n \<noteq> ?p"
      using False unat_parent [of n] half_decreases [of n] less.prems(2) by (auto simp: word_gt_0)
    obtain pq1 where pq1: "pqueue_swap_elem pq n ?p = Inr pq1" "rearranged pq pq1"
      "key pq1 = exchange (key pq) (unat n) (unat ?p)"
      using swap_key [OF less.prems(1,2) p(3,4)] by blast
    show ?thesis
    proof (rule less.IH [OF p(2)])
      show "hole_at cmp (key pq1) (h_num pq1) (unat ?p)"
        using hole_at_step [OF less.prems(3) _ less.prems(2)] False rearranged_links [OF pq1(2)]
        by (simp add: pq1(3) p(1) unat_gt_0)
      show "pqueue_force_bottom pq1 ?p = Inr pq'"
        using less.prems(4) False pq1(1) by (simp add: pqueue_force_bottom.simps [of pq n] word_gt_0)
    qed (use rearranged_links [OF pq1(2)] p(3) in auto)
  qed
qed

lemma move_down_spec:
  assumes "pq_links pq" and "unat n < h_num pq" and "hole_below cmp (key pq) (h_num pq) (unat n)"
  shows "\<exists>pq'. pqueue_move_down cmp pq n = Inr pq' \<and> rearranged pq pq' \<and> heap_on cmp (key pq') (h_num pq')"
  using assms
proof (induction n arbitrary: pq rule: measure_induct_rule [of unat])
  case (less n)
  show ?case
  proof (cases "n = 0")
    case True
    with less.prems hole_below_done [OF less.prems(3)] show ?thesis
      by (auto simp: rearranged_refl)
  next
    case False
    let ?p = "(n - 1) div 2"
    have p: "unat ?p = parent (unat n)" "unat ?p < unat n" "unat ?p < h_num pq" "n \<noteq> ?p"
      using False unat_parent [of n] half_decreases [of n] less.prems(2) by (auto simp: word_gt_0)
    have unfold: "pqueue_move_down cmp pq n = (if cmp (key pq (unat n)) (key pq (parent (unat n))) \<ge> 0 then Inr pq
        else res_bind (pqueue_swap_elem pq n ?p) (\<lambda>pq. pqueue_move_down cmp pq ?p))"
      using False h_get_ok [OF less.prems(1,2)] h_get_ok [OF less.prems(1) p(3)]
      by (simp add: pqueue_move_down.simps [of _ pq n] Let_def word_gt_0 key_def p(1))
    show ?thesis
    proof (cases "cmp (key pq (unat n)) (key pq (parent (unat n))) \<ge> 0")
      case True
      then have "cmp (key pq (parent (unat n))) (key pq (unat n)) \<le> 0"
        using cmp_total by force
      with hole_below_done [OF less.prems(3)] less.prems(1) True show ?thesis
        by (simp add: unfold rearranged_refl)
    next
      case lt: False
      obtain pq1 where pq1: "pqueue_swap_elem pq n ?p = Inr pq1" "rearranged pq pq1"
        "key pq1 = exchange (key pq) (unat n) (unat ?p)"
        using swap_key [OF less.prems(1,2) p(3,4)] by blast
      have "hole_below cmp (key pq1) (h_num pq1) (unat ?p)"
        using hole_below_step [OF less.prems(3) _ less.prems(2)] lt False rearranged_links [OF pq1(2)]
        by (simp add: pq1(3) p(1) unat_gt_0)
      then obtain pq' where "pqueue_move_down cmp pq1 ?p = Inr pq'" "rearranged pq1 pq'" "heap_on cmp (key pq') (h_num pq')"
        using less.IH [OF p(2), of pq1] rearranged_links [OF pq1(2)] p(3) by auto
      with pq1 lt show ?thesis
        by (auto simp: unfold intro: rearranged_trans)
    qed
  qed
qed

lemma pq_child_spec:
  assumes links: "pq_links pq" and n: "unat n < h_num pq"
  obtains p where "pq_child cmp pq n = Inr p" "parent (unat p) = unat n" "0 < unat p"
    "p < htop pq \<longrightarrow> (\<forall>i. 0 < i \<and> i < h_num pq \<and> parent i = unat n \<longrightarrow> cmp (key pq (unat p)) (key pq i) \<le> 0)"
    "\<not> p < htop pq \<longrightarrow> (\<forall>i. 0 < i \<and> i < h_num pq \<longrightarrow> parent i \<noteq> unat n)"
proof -
  let ?l = "n * 2 + 1" and ?r = "n * 2 + 1 + 1"
  have "unat (htop pq) < 2 ^ 60"
    using links max_nodes_nat by (auto simp: pq_links_def word_le_nat_alt)
  then have n2: "unat (n * 2) = 2 * unat n"
    using n by (subst unat_mult_no_overflow) simp_all
  then have l: "unat ?l = 2 * unat n + 1"
    using n \<open>unat (htop pq) < 2 ^ 60\<close> by (subst unat_add_no_overflow) simp_all
  then have r: "unat ?r = 2 * unat n + 2"
    using n \<open>unat (htop pq) < 2 ^ 60\<close> by (subst unat_add_no_overflow) simp_all
  have kids: "parent i = unat n \<longleftrightarrow> i = unat ?l \<or> i = unat ?r" if "0 < i" for i
    using parent_of [OF that] l r by simp
  have lp: "parent (unat ?l) = unat n" "parent (unat ?r) = unat n"
    using kids [of "unat ?l"] kids [of "unat ?r"] l r by simp_all
  show ?thesis
  proof (cases "?r < htop pq")
    case True
    then have lr: "unat ?l < h_num pq" "unat ?r < h_num pq"
      using l r by (simp_all add: word_less_nat_alt)
    have child: "pq_child cmp pq n = Inr (if cmp (key pq (unat ?l)) (key pq (unat ?r)) > 0 then ?r else ?l)"
      using True h_get_ok [OF links lr(1)] h_get_ok [OF links lr(2)] by (simp add: pq_child_def Let_def key_def)
    show ?thesis
    proof (cases "cmp (key pq (unat ?l)) (key pq (unat ?r)) > 0")
      case True
      then have "cmp (key pq (unat ?r)) (key pq (unat ?l)) \<le> 0"
        using cmp_flip by (simp add: order_less_imp_le)
      with True child lp(2) r lr kids show ?thesis
        by (intro that [of ?r]) (auto simp: cmp_refl word_less_nat_alt)
    next
      case False
      with child lp(1) l lr kids show ?thesis
        by (intro that [of ?l]) (auto simp: cmp_refl word_less_nat_alt)
    qed
  next
    case False
    with lp(1) l r kids show ?thesis
      by (intro that [of ?l]) (auto simp: pq_child_def Let_def cmp_refl word_less_nat_alt)
  qed
qed

lemma move_up_spec:
  assumes "pq_links pq" and "unat n < h_num pq" and "hole_above cmp (key pq) (h_num pq) (unat n)"
  shows "\<exists>pq'. pqueue_move_up cmp pq n = Inr pq' \<and> rearranged pq pq' \<and> heap_on cmp (key pq') (h_num pq')"
  using assms
proof (induction "h_num pq - unat n" arbitrary: pq n rule: less_induct)
  case less
  obtain p where p: "pq_child cmp pq n = Inr p" "parent (unat p) = unat n" "0 < unat p"
    "p < htop pq \<longrightarrow> (\<forall>i. 0 < i \<and> i < h_num pq \<and> parent i = unat n \<longrightarrow> cmp (key pq (unat p)) (key pq i) \<le> 0)"
    "\<not> p < htop pq \<longrightarrow> (\<forall>i. 0 < i \<and> i < h_num pq \<longrightarrow> parent i \<noteq> unat n)"
    by (rule pq_child_spec [OF less.prems(1,2)])
  have np: "unat n < unat p"
    using parent_less [OF p(3)] p(2) by simp
  show ?case
  proof (cases "p < htop pq \<and> cmp (key pq (unat p)) (key pq (unat n)) < 0")
    case False
    have "heap_on cmp (key pq) (h_num pq)"
    proof (rule hole_above_done [OF less.prems(3)])
      fix i assume i: "0 < i" "i < h_num pq" "parent i = unat n"
      then have "p < htop pq" "cmp (key pq (unat p)) (key pq i) \<le> 0"
        using p(4,5) by blast+
      moreover from this(1) have "cmp (key pq (unat n)) (key pq (unat p)) \<le> 0"
        using False cmp_total by force
      ultimately show "cmp (key pq (unat n)) (key pq i) \<le> 0"
        using cmp_trans by blast
    qed
    moreover have "pqueue_move_up cmp pq n = Inr pq"
      using False p(1) h_get_ok [OF less.prems(1,2)] h_get_ok [OF less.prems(1), of p]
      by (auto simp: pqueue_move_up.simps [of _ pq n] key_def word_less_nat_alt)
    ultimately show ?thesis
      using less.prems(1) by (auto simp: rearranged_refl)
  next
    case True
    then have pn: "unat p < h_num pq" "n \<noteq> p"
      using np by (auto simp: word_less_nat_alt)
    obtain pq1 where pq1: "pqueue_swap_elem pq n p = Inr pq1" "rearranged pq pq1"
      "key pq1 = exchange (key pq) (unat n) (unat p)"
      using swap_key [OF less.prems(1,2) pn] by blast
    note r1 = rearranged_links [OF pq1(2)]
    have "hole_above cmp (exchange (key pq) (unat n) (unat p)) (h_num pq) (unat p)"
      by (rule hole_above_step [OF less.prems(3) p(2,3) pn(1)]) (use True p(4) in auto)
    then obtain pq' where "pqueue_move_up cmp pq1 p = Inr pq'" "rearranged pq1 pq'" "heap_on cmp (key pq') (h_num pq')"
      using less.hyps [of pq1 p] r1 pn(1) np pq1(3) diff_less_mono2 [OF np less.prems(2)] by auto
    moreover have "pqueue_move_up cmp pq n = res_bind (pqueue_swap_elem pq n p) (\<lambda>pq. pqueue_move_up cmp pq p)"
      using True p(1) h_get_ok [OF less.prems(1,2)] h_get_ok [OF less.prems(1) pn(1)]
      by (simp add: pqueue_move_up.simps [of _ pq n] key_def)
    ultimately show ?thesis
      using pq1 by (auto intro: rearranged_trans)
  qed
qed

end

section \<open>Growing\<close>

lemma growth_spec:
  assumes "2 \<le> current" and "current \<le> max_nodes"
  shows "\<exists>r. compute_pqueue_growth target current = Inr r
    \<and> (r = 0 \<and> max_nodes < target \<or> current \<le> r \<and> target \<le> r \<and> r \<le> max_nodes)"
  using assms
proof (induction target current rule: compute_pqueue_growth.induct)
  case (1 target current)
  show ?case
  proof (cases "current < target \<and> current < max_nodes")
    case False
    with "1.prems" show ?thesis
      by (auto simp: compute_pqueue_growth.simps [of target current])
  next
    case True
    let ?x = "fst (safe_muldiv current 8 5)"
    let ?y = "if ?x \<ge> max_nodes then max_nodes else ?x"
    note gs = growth_step [OF conjunct2 [OF True]]
    have "unat current < unat ?x"
      using gs(2) "1.prems"(1) by (simp add: word_le_nat_alt)
    then have y: "current < ?y" "?y \<noteq> current"
      using True by (auto simp: word_less_nat_alt word_le_nat_alt)
    have "\<exists>r. compute_pqueue_growth target ?y = Inr r
        \<and> (r = 0 \<and> max_nodes < target \<or> ?y \<le> r \<and> target \<le> r \<and> r \<le> max_nodes)"
      by (rule "1.IH") (use True gs(1) y "1.prems" in \<open>auto simp: prod_eq_iff\<close>)
    moreover have "compute_pqueue_growth target current = compute_pqueue_growth target ?y"
      using True gs(1) y by (auto simp: compute_pqueue_growth.simps [of target current] case_prod_unfold Let_def)
    ultimately show ?thesis
      using y(1) by (fastforce intro: order_trans)
  qed
qed

lemma add_freelist_loop_spec:
  assumes "unat (hmax pq) = length (elements pq)"
  shows "\<exists>e. pqueue_add_freelist_loop pq i = Inr (pq\<lparr>elements := e\<rparr>) \<and> length e = length (elements pq)
    \<and> (\<forall>j < length e. e ! j = (if unat i \<le> j then \<lparr>posn = of_nat j - 1\<rparr> else elements pq ! j))"
  using assms
proof (induction pq i rule: pqueue_add_freelist_loop.induct)
  case (1 pq i)
  show ?case
  proof (cases "i < hmax pq")
    case False
    with "1.prems" show ?thesis
      by (intro exI [of _ "elements pq"]) (simp add: pqueue_add_freelist_loop.simps [of pq i] word_less_nat_alt)
  next
    case True
    let ?pq = "pq\<lparr>elements := (elements pq)[unat i := \<lparr>posn = i - 1\<rparr>]\<rparr>"
    have set: "e_set_posn pq i (i - 1) = Inr ?pq"
      using True "1.prems" by (simp add: e_set_posn_def word_less_nat_alt)
    obtain e where e: "pqueue_add_freelist_loop ?pq (i + 1) = Inr (?pq\<lparr>elements := e\<rparr>)" "length e = length (elements pq)"
      "\<forall>j < length e. e ! j = (if unat (i + 1) \<le> j then \<lparr>posn = of_nat j - 1\<rparr> else elements ?pq ! j)"
      using "1.IH" [OF True set] "1.prems" by auto
    have "e ! j = (if unat i \<le> j then \<lparr>posn = of_nat j - 1\<rparr> else elements pq ! j)" if "j < length e" for j
      using e(3) that unat_succ [OF True] by (cases "j = unat i") (auto simp: nth_list_update e(2))
    with e True set show ?thesis
      by (intro exI [of _ e]) (simp add: pqueue_add_freelist_loop.simps [of pq i])
  qed
qed

lemma free_chain_cong:
  "free_chain pq s ms \<Longrightarrow> hmax pq \<le> hmax pq' \<Longrightarrow> \<forall>m \<in> set ms. elements pq' ! unat m = elements pq ! unat m \<Longrightarrow> free_chain pq' s ms"
  by (induction ms arbitrary: s) auto

lemma view_cong:
  assumes "pq_links pq" "pq_links pq'" "htop pq' = htop pq" "\<forall>i < h_num pq. heap pq' ! i = heap pq ! i"
  shows "pq_view pq' = pq_view pq"
proof
  fix m
  have "pq_view pq' m = Some x \<longleftrightarrow> pq_view pq m = Some x" for x
    using assms by (auto simp: pq_view_Some key_def)
  then show "pq_view pq' m = pq_view pq m"
    by (metis not_None_eq)
qed

text \<open>The new slots are chained downwards, in front of the old free list.\<close>

lemma new_chain:
  assumes "\<forall>j. unat cur < j \<and> j < num \<longrightarrow> posn (elements pq ! j) = of_nat j - 1" and "posn (elements pq ! unat cur) = old"
    and "num \<le> unat (hmax pq)" and "free_chain pq old ms" and "unat cur < num"
  shows "free_chain pq (of_nat num - 1) (map of_nat (rev [unat cur..<num]) @ ms)"
  using assms
proof (induction num)
  case (Suc num)
  have b: "num < unat (hmax pq)" "num < 18446744073709551616"
    using Suc.prems(3) unat_u64_bound [of "hmax pq"] by linarith+
  then have n: "unat (of_nat num :: u64) = num" "(of_nat num :: u64) < hmax pq"
    by (simp_all add: unat_of_nat word_less_nat_alt)
  show ?case
  proof (cases "num = unat cur")
    case True
    with Suc.prems n show ?thesis
      by simp
  next
    case False
    then have "free_chain pq (of_nat num - 1) (map of_nat (rev [unat cur..<num]) @ ms)"
      using Suc by simp
    with False Suc.prems n show ?thesis
      by simp
  qed
qed simp

lemma add_freelist_spec:
  assumes links: "pq_links pq" and chain: "free_chain pq (freelist pq) ms" "distinct ms" "length ms = unat cur - h_num pq"
    and ms: "\<forall>m \<in> set ms. pq_view pq m = None \<and> m < cur" and cur: "h_num pq \<le> unat cur" "cur < hmax pq"
    and used: "\<forall>i < h_num pq. slot pq i < unat cur"
  obtains pq' where "pqueue_add_freelist pq cur = Inr pq'" "pq_links pq'" "pq_free_ok pq'" "heap pq' = heap pq"
    "htop pq' = htop pq" "hmax pq' = hmax pq"
proof -
  have len: "unat (hmax pq) = length (elements pq)" "unat cur < length (elements pq)"
    using links cur(2) by (auto simp: pq_links_def word_less_nat_alt)
  let ?pq = "pq\<lparr>elements := (elements pq)[unat cur := \<lparr>posn = freelist pq\<rparr>]\<rparr>"
  have succ: "unat (cur + 1) = unat cur + 1"
    by (rule unat_succ [OF cur(2)])
  obtain e where e: "pqueue_add_freelist_loop ?pq (cur + 1) = Inr (?pq\<lparr>elements := e\<rparr>)" "length e = length (elements pq)"
    "\<forall>j < length e. e ! j = (if unat cur + 1 \<le> j then \<lparr>posn = of_nat j - 1\<rparr> else elements ?pq ! j)"
    using add_freelist_loop_spec [of ?pq "cur + 1"] len succ by auto
  define pq' where "pq' = pq\<lparr>elements := e, freelist := hmax pq - 1\<rparr>"
  have res: "pqueue_add_freelist pq cur = Inr pq'"
    using e(1) len(2) by (simp add: pqueue_add_freelist_def e_set_posn_def pq'_def)
  have old: "elements pq' ! j = elements pq ! j" if "j < unat cur" for j
    using e that len(2) by (simp add: pq'_def)
  have links': "pq_links pq'"
    using links used old e(2) by (auto simp: pq_links_def pq'_def slot_def)
  have view: "pq_view pq' = pq_view pq"
    by (rule view_cong [OF links links']) (simp_all add: pq'_def)
  have "free_chain pq' (freelist pq) ms"
    by (rule free_chain_cong [OF chain(1)]) (use ms old in \<open>auto simp: pq'_def word_less_nat_alt\<close>)
  then have "free_chain pq' (of_nat (unat (hmax pq)) - 1) (map of_nat (rev [unat cur..<unat (hmax pq)]) @ ms)"
    using e len cur(2) by (intro new_chain) (auto simp: pq'_def word_less_nat_alt)
  moreover have small: "unat (of_nat j :: u64) = j" if "j < unat (hmax pq)" for j
    using less_trans [OF that unat_u64_bound] by (simp add: unat_of_nat)
  have "distinct (map of_nat (rev [unat cur..<unat (hmax pq)]) @ ms :: u64 list)"
  proof -
    have "inj_on (of_nat :: nat \<Rightarrow> u64) {unat cur..<unat (hmax pq)}"
      using small by (metis atLeastLessThan_iff inj_onI)
    moreover have "set ms \<inter> of_nat ` {unat cur..<unat (hmax pq)} = {}"
      using ms small by (auto simp: word_less_nat_alt)
    ultimately show ?thesis
      using chain(2) by (auto simp: distinct_map)
  qed
  moreover have "pq_view pq' m = None" if "m \<in> of_nat ` {unat cur..<unat (hmax pq)}" for m
  proof -
    have "cur \<le> m"
      using that small by (auto simp: word_le_nat_alt)
    then have "pq_view pq m \<noteq> Some x" for x
      using used by (auto simp: pq_view_Some [OF links] slot_def word_le_nat_alt not_le)
    then show ?thesis
      by (auto simp: view)
  qed
  ultimately have "pq_free_ok pq'"
    unfolding pq_free_ok_def using ms chain(3) cur view
    by (intro exI [of _ "map of_nat (rev [unat cur..<unat (hmax pq)]) @ ms"]) (auto simp: pq'_def word_less_nat_alt)
  with res links' show ?thesis
    by (intro that [of pq']) (simp_all add: pq'_def)
qed

text \<open>The state of a queue between operations.\<close>

definition pq_room :: "'a ossl_pqueue \<Rightarrow> bool" where
  "pq_room pq \<longleftrightarrow> pq_links pq \<and> pq_free_ok pq \<and> htop pq < hmax pq \<and> min_nodes \<le> hmax pq"

definition pq_ok :: "('a \<Rightarrow> 'a \<Rightarrow> int) \<Rightarrow> 'a ossl_pqueue \<Rightarrow> bool" where
  "pq_ok cmp pq \<longleftrightarrow> pq_room pq \<and> heap_on cmp (key pq) (h_num pq)"

lemma free_below: "free_chain pq s ms \<Longrightarrow> m \<in> set ms \<Longrightarrow> m < hmax pq"
  by (induction ms arbitrary: s) auto

lemma pq_reserve_spec:
  assumes room: "pq_room pq" and n: "h_num pq + unat n < 2 ^ 64" "unat n + unat (hmax pq) < 2 ^ 64"
  obtains pq' b where "ossl_pqueue_reserve mem junk pq n = Inr (pq', b)" "pq_room pq'" "htop pq' = htop pq"
    "\<forall>i < h_num pq. heap pq' ! i = heap pq ! i" "pq_view pq' = pq_view pq"
    "b \<Longrightarrow> h_num pq + unat n < unat (hmax pq')" "b \<or> mem \<noteq> (True, True) \<or> unat max_nodes < unat n + unat (hmax pq)"
proof -
  note sums = unat_add_no_overflow [of "htop pq" n] unat_add_no_overflow [of n "hmax pq"]
  have links: "pq_links pq" and cur: "2 \<le> hmax pq" "hmax pq \<le> max_nodes" "htop pq < hmax pq"
    using room by (auto simp: pq_room_def pq_links_def min_nodes_def intro: order_trans [of "2 :: u64" 8])
  obtain r where r: "compute_pqueue_growth (n + hmax pq) (hmax pq) = Inr r"
    "r = 0 \<and> max_nodes < n + hmax pq \<or> hmax pq \<le> r \<and> n + hmax pq \<le> r \<and> r \<le> max_nodes"
    using growth_spec [OF cur(1,2)] by blast
  consider "htop pq + n < hmax pq" | "\<not> htop pq + n < hmax pq" "r = 0"
    | "\<not> htop pq + n < hmax pq" "r \<noteq> 0" "\<not> fst mem" | "\<not> htop pq + n < hmax pq" "r \<noteq> 0" "fst mem"
    by blast
  then show ?thesis
  proof cases
    case 1
    then show ?thesis
      using room sums n by (intro that [of pq True]) (simp_all add: ossl_pqueue_reserve_def word_less_nat_alt)
  next
    case 2
    then show ?thesis
      using room r cur sums n by (intro that [of pq False]) (auto simp: ossl_pqueue_reserve_def Let_def word_less_nat_alt)
  next
    case 3
    then show ?thesis
      using room r(1) by (intro that [of pq False]) (auto simp: ossl_pqueue_reserve_def Let_def)
  next
    case 4
    have "n \<noteq> 0"
      using 4(1) cur(3) by auto
    then have "0 < unat n"
      by (simp add: unat_gt_0)
    then have r': "unat n + unat (hmax pq) \<le> unat r" "hmax pq < r" "r \<le> max_nodes"
      using r(2) 4(2) sums n by (auto simp: word_le_nat_alt word_less_nat_alt)
    define h where "h = realloc_array (j_heap junk) (heap pq) r"
    have h: "length h = unat r" "\<forall>i < h_num pq. h ! i = heap pq ! i"
      using links r'(2) by (auto simp: h_def realloc_array_def pq_links_def nth_append word_less_nat_alt)
    let ?h = "pq\<lparr>heap := h\<rparr>"
    have lh: "pq_links ?h"
      using links h r'(2) by (auto simp: pq_links_def slot_def word_less_nat_alt)
    have vh: "pq_view ?h = pq_view pq"
      by (rule view_cong [OF links lh]) (use h in simp_all)
    obtain ms where ms: "free_chain pq (freelist pq) ms" "distinct ms" "length ms = unat (hmax pq) - h_num pq"
      "\<forall>m \<in> set ms. pq_view pq m = None"
      using room by (auto simp: pq_room_def pq_free_ok_def)
    have "free_chain ?h (freelist pq) ms"
      by (rule free_chain_cong [OF ms(1)]) simp_all
    then have "pq_room ?h"
      using room lh ms vh unfolding pq_room_def pq_free_ok_def by auto
    note room_h = this
    show ?thesis
    proof (cases "snd mem")
      case False
      with 4 r(1) room_h h vh show ?thesis
        by (intro that [of ?h False]) (auto simp: ossl_pqueue_reserve_def Let_def h_def)
    next
      case True
      define e where "e = realloc_array (j_elements junk) (elements pq) r"
      have e: "length e = unat r" "\<forall>j < unat (hmax pq). e ! j = elements pq ! j"
        using links r'(2) by (auto simp: e_def realloc_array_def pq_links_def nth_append word_less_nat_alt)
      let ?e = "?h\<lparr>elements := e, hmax := r\<rparr>"
      have le: "pq_links ?e"
        using lh e h r'(2,3) by (auto simp: pq_links_def slot_def word_less_nat_alt)
      have ve: "pq_view ?e = pq_view pq"
        by (rule view_cong [OF links le]) (use h in simp_all)
      have chain: "free_chain ?e (freelist ?e) ms"
        using free_chain_cong [OF ms(1), of ?e] e free_below [OF ms(1)] r'(2)
        by (auto simp: word_less_nat_alt word_le_nat_alt)
      have slots: "\<forall>i < h_num ?e. slot ?e i < unat (hmax pq)"
        using links h(2) by (auto simp: slot_def pq_links_def)
      obtain pq' where pq': "pqueue_add_freelist ?e (hmax pq) = Inr pq'" "pq_links pq'" "pq_free_ok pq'" "heap pq' = h"
        "htop pq' = htop pq" "hmax pq' = r"
        by (rule add_freelist_spec [OF le chain ms(2), of "hmax pq"])
          (use ms free_below [OF ms(1)] ve cur(3) r'(2) slots in \<open>auto simp: word_less_nat_alt\<close>)
      have "pq_view pq' = pq_view pq"
        by (rule view_cong [OF links pq'(2,5)]) (use h pq' in simp)
      moreover have "ossl_pqueue_reserve mem junk pq n = Inr (pq', True)"
        using 4 True r(1) pq'(1) by (simp add: ossl_pqueue_reserve_def Let_def h_def e_def)
      moreover have "min_nodes \<le> r" "htop pq < r"
        using room r'(2) by (auto simp: pq_room_def intro: order_trans order_less_trans order_less_imp_le)
      ultimately show ?thesis
        using pq' h r'(1) cur(3) by (intro that [of pq' True]) (auto simp: pq_room_def word_less_nat_alt)
    qed
  qed
qed

section \<open>The operations on what is in the queue\<close>

lemma rearranged_free: "rearranged pq pq' \<Longrightarrow> pq_free_ok pq \<Longrightarrow> pq_free_ok pq'"
  unfolding pq_free_ok_def rearranged_def by (metis free_chain_cong order_refl)

lemma rearranged_room: "rearranged pq pq' \<Longrightarrow> pq_room pq \<Longrightarrow> pq_room pq'"
  by (auto simp: pq_room_def rearranged_free) (simp_all add: rearranged_def)

lemma nth_update_word: "m \<noteq> k \<Longrightarrow> xs[unat m := x] ! unat k = xs ! unat k" for m k :: u64
  by (simp add: word_unat_eq_iff)

text \<open>A slot that no entry uses any more goes back to the free list.\<close>

lemma release_slot:
  assumes links: "pq_links pq" and chain: "free_chain pq (freelist pq) ms" "distinct ms" "length ms + 1 = unat (hmax pq) - h_num pq"
    and ms: "\<forall>m \<in> set ms. pq_view pq m = None" and elem: "elem < hmax pq" "elem \<notin> set ms" "pq_view pq elem = None"
  obtains pq' where "e_set_posn pq elem (freelist pq) = Inr pq'" "pq_links (pq'\<lparr>freelist := elem\<rparr>)"
    "pq_free_ok (pq'\<lparr>freelist := elem\<rparr>)" "pq_view (pq'\<lparr>freelist := elem\<rparr>) = pq_view pq" "heap pq' = heap pq"
    "htop pq' = htop pq" "hmax pq' = hmax pq"
proof -
  let ?pq = "pq\<lparr>elements := (elements pq)[unat elem := \<lparr>posn = freelist pq\<rparr>]\<rparr>"
  let ?r = "?pq\<lparr>freelist := elem\<rparr>"
  have len: "unat elem < length (elements pq)"
    using links elem(1) by (simp add: pq_links_def word_less_nat_alt)
  have "unat elem \<noteq> slot pq i" if "i < h_num pq" for i
    using that elem(3) pq_view_Some [OF links, of elem "key pq i"] by (auto simp: slot_def word_unat_eq_iff)
  moreover have "slot ?r i = slot pq i" for i
    by (simp add: slot_def)
  ultimately have lr: "pq_links ?r"
    using links len by (auto simp: pq_links_def)
  have vr: "pq_view ?r = pq_view pq"
    by (rule view_cong [OF links lr]) simp_all
  have "free_chain ?r (freelist pq) ms"
    using elem(2) by (intro free_chain_cong [OF chain(1)]) (auto intro!: nth_update_word)
  then have "pq_free_ok ?r"
    unfolding pq_free_ok_def using chain(2,3) ms elem len vr
    by (intro exI [of _ "elem # ms"]) auto
  with lr vr len show ?thesis
    by (intro that [of ?pq]) (simp_all add: e_set_posn_def)
qed

text \<open>A slot taken from the free list holds the new entry, still at the end of the heap.\<close>

lemma take_slot:
  assumes room: "pq_room pq" and top: "h_num pq + 1 < unat (hmax pq)"
  obtains pq' where "res_bind (e_posn (pq\<lparr>htop := htop pq + 1\<rparr>) (freelist pq)) (\<lambda>next'.
      res_bind (h_set (pq\<lparr>htop := htop pq + 1, freelist := next'\<rparr>) (htop pq) \<lparr>hp_data = x, hp_index = freelist pq\<rparr>) (\<lambda>pq'.
      e_set_posn pq' (freelist pq) (htop pq))) = Inr pq'"
    "pq_room pq'" "pq_view pq (freelist pq) = None" "pq_view pq' = (pq_view pq)(freelist pq \<mapsto> x)"
    "h_num pq' = h_num pq + 1" "\<forall>i < h_num pq. heap pq' ! i = heap pq ! i" "hmax pq' = hmax pq"
proof -
  let ?n = "h_num pq"
  have links: "pq_links pq"
    using room by (simp add: pq_room_def)
  obtain ms where ms: "free_chain pq (freelist pq) ms" "distinct ms" "length ms = unat (hmax pq) - ?n"
    "\<forall>m \<in> set ms. pq_view pq m = None"
    using room by (auto simp: pq_room_def pq_free_ok_def)
  with top obtain m ms' where m: "ms = m # ms'"
    by (cases ms) auto
  then have fl: "freelist pq = m" "m < hmax pq" "free_chain pq (posn (elements pq ! unat m)) ms'" "pq_view pq m = None"
    using ms(1,4) by auto
  define pq' where "pq' = pq\<lparr>htop := htop pq + 1, freelist := posn (elements pq ! unat m),
    heap := (heap pq)[?n := \<lparr>hp_data = x, hp_index = m\<rparr>], elements := (elements pq)[unat m := \<lparr>posn = htop pq\<rparr>]\<rparr>"
  have bounds: "?n < length (heap pq)" "htop pq < max_nodes" "unat m < length (elements pq)"
    using links top fl(2) by (auto simp: pq_links_def word_less_nat_alt word_le_nat_alt)
  have n': "h_num pq' = ?n + 1"
    using unat_succ [of "htop pq" "hmax pq"] top by (simp add: pq'_def word_less_nat_alt)
  have res: "res_bind (e_posn (pq\<lparr>htop := htop pq + 1\<rparr>) (freelist pq)) (\<lambda>next'.
      res_bind (h_set (pq\<lparr>htop := htop pq + 1, freelist := next'\<rparr>) (htop pq) \<lparr>hp_data = x, hp_index = freelist pq\<rparr>) (\<lambda>pq'.
      e_set_posn pq' (freelist pq) (htop pq))) = Inr pq'"
    using bounds fl(1) by (simp add: e_posn_def h_set_def e_set_posn_def pq'_def)
  have old: "slot pq i \<noteq> unat m" if "i < ?n" for i
    using that fl(4) pq_view_Some [OF links, of m "key pq i"] by (auto simp: slot_def word_unat_eq_iff)
  have heap': "heap pq' ! i = (if i = ?n then \<lparr>hp_data = x, hp_index = m\<rparr> else heap pq ! i)" for i
    using bounds by (auto simp: pq'_def)
  have "unat (posn (elements pq' ! slot pq' i)) = i \<and> slot pq' i < unat (hmax pq)" if "i < ?n + 1" for i
    using that links old [of i] bounds fl(2)
    by (cases "i = ?n") (auto simp: slot_def heap' pq_links_def word_less_nat_alt pq'_def nth_list_update)
  then have links': "pq_links pq'"
    using links top n' by (simp add: pq_links_def pq'_def)
  have ex: "(\<exists>i < Suc ?n. P (heap pq' ! i)) \<longleftrightarrow> P \<lparr>hp_data = x, hp_index = m\<rparr> \<or> (\<exists>i < ?n. P (heap pq ! i))" for P
    unfolding Ex_less_Suc by (simp add: heap' cong: conj_cong)
  have view: "pq_view pq' = (pq_view pq)(m \<mapsto> x)"
  proof
    fix k
    have "pq_view pq' k = Some y \<longleftrightarrow> k = m \<and> y = x \<or> pq_view pq k = Some y" for y
      using n' ex [of "\<lambda>h. hp_index h = k \<and> hp_data h = y"] by (auto simp: pq_view_Some [OF links'] pq_view_Some [OF links] key_def)
    then show "pq_view pq' k = ((pq_view pq)(m \<mapsto> x)) k"
      using fl(4) by (metis fun_upd_apply not_None_eq)
  qed
  have "free_chain pq' (posn (elements pq ! unat m)) ms'"
    using ms(2) m by (intro free_chain_cong [OF fl(3)]) (auto simp: pq'_def intro!: nth_update_word)
  then have "pq_free_ok pq'"
    unfolding pq_free_ok_def using ms m n' view by (intro exI [of _ ms']) (auto simp: pq'_def)
  moreover have "htop pq' < hmax pq'"
    using n' top by (simp add: word_less_nat_alt) (simp add: pq'_def)
  ultimately have "pq_room pq'"
    using links' room by (simp add: pq_room_def) (simp add: pq'_def)
  with res view fl n' heap' show ?thesis
    by (intro that [of pq']) (simp_all add: pq'_def)
qed

lemma heap_on_cong: "(\<And>i. i < num \<Longrightarrow> k' i = k i) \<Longrightarrow> heap_on cmp k' num = heap_on cmp k num"
  using parent_less less_trans unfolding heap_on_def by metis

lemma pq_new_spec:
  "ossl_pqueue_new (m, mh, me) junk = Inr None \<and> \<not> (m \<and> mh \<and> me)
   \<or> (\<exists>pq. ossl_pqueue_new (m, mh, me) junk = Inr (Some pq) \<and> pq_ok cmp pq \<and> pq_view pq = Map.empty \<and> hmax pq = min_nodes
       \<and> htop pq = 0)"
proof (cases "m \<and> mh \<and> me")
  case True
  let ?pq = "\<lparr>heap = map (j_heap junk) [0..<unat min_nodes], elements = map (j_elements junk) [0..<unat min_nodes],
               htop = 0, hmax = min_nodes, freelist = 0\<rparr>"
  have links: "pq_links ?pq"
    by (simp add: pq_links_def min_nodes_def max_nodes_def SIZE_MAX_def)
  obtain pq where pq: "pqueue_add_freelist ?pq 0 = Inr pq" "pq_links pq" "pq_free_ok pq" "htop pq = 0" "hmax pq = min_nodes"
    by (rule add_freelist_spec [OF links, of "[]" 0]) (auto simp: min_nodes_def)
  then have "pq_view pq x = None" for x
    by (simp add: pq_view_def Let_def)
  then have "pq_ok cmp pq \<and> pq_view pq = Map.empty"
    using pq by (auto simp: pq_ok_def pq_room_def heap_on_def min_nodes_def fun_eq_iff)
  with True pq show ?thesis
    by (auto simp: ossl_pqueue_new_def)
qed (auto simp: ossl_pqueue_new_def)

lemma pq_peek_spec:
  assumes "pq_links pq"
  shows "ossl_pqueue_peek pq = Inr (if h_num pq = 0 then None else Some (key pq 0))"
  using h_get_ok [OF assms, of 0] by (auto simp: ossl_pqueue_peek_def key_def word_gt_0 unat_gt_0 unat_eq_zero)

text \<open>The size of a view is the number of entries.\<close>

lemma view_dom:
  assumes "pq_links pq"
  shows "dom (pq_view pq) = (\<lambda>i. hp_index (heap pq ! i)) ` {..<h_num pq}" and "card (dom (pq_view pq)) = h_num pq"
proof -
  show d: "dom (pq_view pq) = (\<lambda>i. hp_index (heap pq ! i)) ` {..<h_num pq}"
    by (auto simp: dom_def pq_view_Some [OF assms])
  have "inj_on (\<lambda>i. hp_index (heap pq ! i)) {..<h_num pq}"
    using links_inj [OF assms] by (auto simp: inj_on_def)
  then show "card (dom (pq_view pq)) = h_num pq"
    by (simp add: d card_image)
qed

context pq_order
begin

lemma push_spec:
  assumes ok: "pq_ok cmp pq"
  obtains pq' r where "ossl_pqueue_push mem junk cmp pq x = Inr (pq', r)" "pq_ok cmp pq'"
    "case r of None \<Rightarrow> pq_view pq' = pq_view pq \<and> htop pq' = htop pq
     | Some m \<Rightarrow> pq_view pq m = None \<and> pq_view pq' = (pq_view pq)(m \<mapsto> x) \<and> h_num pq' = h_num pq + 1"
    "r = None \<Longrightarrow> mem \<noteq> (True, True) \<or> hmax pq = max_nodes"
proof -
  have room: "pq_room pq" and heap: "heap_on cmp (key pq) (h_num pq)"
    using ok by (auto simp: pq_ok_def)
  have hmax: "unat (hmax pq) \<le> 2 ^ 60 - 1" "h_num pq < unat (hmax pq)"
    using room max_nodes_nat by (auto simp: pq_room_def pq_links_def word_le_nat_alt word_less_nat_alt)
  obtain pq1 b where pq1: "ossl_pqueue_reserve mem junk pq 1 = Inr (pq1, b)" "pq_room pq1" "htop pq1 = htop pq"
    "\<forall>i < h_num pq. heap pq1 ! i = heap pq ! i" "pq_view pq1 = pq_view pq"
    "b \<Longrightarrow> h_num pq + unat (1 :: u64) < unat (hmax pq1)"
    "b \<or> mem \<noteq> (True, True) \<or> unat max_nodes < unat (1 :: u64) + unat (hmax pq)"
    by (rule pq_reserve_spec [OF room, of 1 mem junk]) (use hmax in auto)
  have "heap_on cmp (key pq1) (h_num pq1)"
    using heap pq1(3,4) heap_on_cong [of "h_num pq" "key pq1" "key pq"] by (simp add: key_def)
  note heap1 = this
  show ?thesis
  proof (cases b)
    case False
    have "mem \<noteq> (True, True) \<or> hmax pq = max_nodes"
      using pq1(7) False hmax(1) max_nodes_nat by (auto simp: word_unat_eq_iff)
    with False pq1 heap1 show ?thesis
      by (intro that [of pq1 None]) (auto simp: ossl_pqueue_push_def pq_ok_def)
  next
    case True
    then have top: "h_num pq1 + 1 < unat (hmax pq1)"
      using pq1(3,6) by simp
    obtain pq2 where pq2: "res_bind (e_posn (pq1\<lparr>htop := htop pq1 + 1\<rparr>) (freelist pq1)) (\<lambda>next'.
        res_bind (h_set (pq1\<lparr>htop := htop pq1 + 1, freelist := next'\<rparr>) (htop pq1) \<lparr>hp_data = x, hp_index = freelist pq1\<rparr>) (\<lambda>pq'.
        e_set_posn pq' (freelist pq1) (htop pq1))) = Inr pq2"
      "pq_room pq2" "pq_view pq1 (freelist pq1) = None" "pq_view pq2 = (pq_view pq1)(freelist pq1 \<mapsto> x)"
      "h_num pq2 = h_num pq1 + 1" "\<forall>i < h_num pq1. heap pq2 ! i = heap pq1 ! i"
      by (rule take_slot [OF pq1(2) top, of x])
    have "hole_below cmp (key pq2) (h_num pq2) (h_num pq1)"
      unfolding hole_below_def
    proof (intro allI impI conjI; elim conjE)
      fix i assume i: "0 < i" "i < h_num pq2"
      have p: "parent i < i"
        using i(1) by simp
      show "cmp (key pq2 (parent i)) (key pq2 i) \<le> 0" if "i \<noteq> h_num pq1"
        using that i p pq2(5,6) heap1 by (simp add: key_def heap_on_def)
      show "cmp (key pq2 (parent (h_num pq1))) (key pq2 i) \<le> 0" if "parent i = h_num pq1"
        using that i(2) p pq2(5) by simp
    qed
    then obtain pq3 where pq3: "pqueue_move_down cmp pq2 (htop pq1) = Inr pq3" "rearranged pq2 pq3" "heap_on cmp (key pq3) (h_num pq3)"
      using move_down_spec [of pq2 "htop pq1"] pq2(2,5) by (auto simp: pq_room_def)
    have "ossl_pqueue_push mem junk cmp pq x = Inr (pq3, Some (freelist pq1))"
      using True pq1(1) pq2(1) pq3(1) by (auto simp: ossl_pqueue_push_def Let_def res_bind_Inr)
    moreover have "pq_ok cmp pq3"
      using pq2(2) pq3(2,3) rearranged_room by (auto simp: pq_ok_def)
    ultimately show ?thesis
      using pq1(3,5) pq2(3-5) pq3(2) by (intro that [of pq3 "Some (freelist pq1)"]) (auto simp: rearranged_def)
  qed
qed

text \<open>A pop takes the entry at the root, whatever it is; below it the order holds.\<close>

lemma pop_root:
  assumes room: "pq_room pq" and heap: "hole_above cmp (key pq) (h_num pq) 0" and pos: "0 < h_num pq"
  obtains pq' where "ossl_pqueue_pop cmp pq = Inr (pq', Some (key pq 0))" "pq_ok cmp pq'"
    "pq_view pq' = (pq_view pq)(hp_index (heap pq ! 0) := None)" "h_num pq' = h_num pq - 1" "hmax pq' = hmax pq"
proof -
  let ?n = "h_num pq" and ?elem = "hp_index (heap pq ! 0)" and ?t = "htop pq - 1"
  have links: "pq_links pq" and free: "pq_free_ok pq"
    using room by (auto simp: pq_room_def)
  have top: "unat ?t = ?n - 1" "htop pq \<noteq> 0"
    using pos unat_pred [of 0 "htop pq"] by (auto simp: word_gt_0 unat_gt_0)
  obtain ms where ms: "free_chain pq (freelist pq) ms" "distinct ms" "length ms = unat (hmax pq) - ?n"
    "\<forall>m \<in> set ms. pq_view pq m = None"
    using free by (auto simp: pq_free_ok_def)
  have elem: "?elem < hmax pq" "pq_view pq ?elem = Some (key pq 0)"
    using links pos pq_view_Some [OF links, of ?elem "key pq 0"] by (auto simp: pq_links_def slot_def word_less_nat_alt)
  define pq1 where "pq1 = (if ?t \<noteq> 0 then pq\<lparr>htop := ?t, heap := (heap pq)[0 := heap pq ! unat ?t],
    elements := (elements pq)[slot pq (unat ?t) := \<lparr>posn = 0\<rparr>]\<rparr> else pq\<lparr>htop := ?t\<rparr>)"
  have n1: "h_num pq1 = ?n - 1" "hmax pq1 = hmax pq" "freelist pq1 = freelist pq"
    using top by (auto simp: pq1_def)
  have len: "?n \<le> length (heap pq)" "0 < length (heap pq)" "length (elements pq) = unat (hmax pq)"
    using links pos by (auto simp: pq_links_def)
  have slots: "slot pq i < unat (hmax pq)" "unat (posn (elements pq ! slot pq i)) = i" if "i < ?n" for i
    using links that by (auto simp: pq_links_def)
  have heap1: "heap pq1 ! i = (if i = 0 then heap pq ! (?n - 1) else heap pq ! i)" if "i < ?n - 1" for i
    using that len top pos by (cases "?t = 0") (auto simp: pq1_def nth_list_update unat_eq_zero)
  have el1: "elements pq1 ! j = (if ?t \<noteq> 0 \<and> j = slot pq (?n - 1) then \<lparr>posn = 0\<rparr> else elements pq ! j)" for j
    using slots(1) [of "?n - 1"] pos len top by (auto simp: pq1_def nth_list_update)
  have "slot pq1 i < unat (hmax pq1) \<and> unat (posn (elements pq1 ! slot pq1 i)) = i" if "i < ?n - 1" for i
  proof (cases "i = 0")
    case True
    have "?t \<noteq> 0"
      using that top by auto
    with True that heap1 [OF that] slots [of "?n - 1"] show ?thesis
      by (simp add: slot_def el1 n1)
  next
    case False
    have "slot pq i \<noteq> slot pq (?n - 1)"
      using that slots(2) [of i] slots(2) [of "?n - 1"] by fastforce
    with False that heap1 [OF that] slots [of i] show ?thesis
      by (simp add: slot_def el1 n1)
  qed
  moreover have "length (heap pq1) = length (heap pq)" "length (elements pq1) = length (elements pq)"
    by (simp_all add: pq1_def)
  ultimately have links1: "pq_links pq1"
    using links n1 by (auto simp: pq_links_def)
  have sub: "(\<exists>i < ?n - 1. P (heap pq1 ! i)) \<longleftrightarrow> (\<exists>i < ?n. i \<noteq> 0 \<and> P (heap pq ! i))" for P
  proof
    assume "\<exists>i < ?n - 1. P (heap pq1 ! i)"
    then obtain i where i: "i < ?n - 1" "P (heap pq1 ! i)"
      by blast
    define j where "j = (if i = 0 then ?n - 1 else i)"
    have "j < ?n \<and> j \<noteq> 0 \<and> P (heap pq ! j)"
      using i heap1 [OF i(1)] by (auto simp: j_def)
    then show "\<exists>i < ?n. i \<noteq> 0 \<and> P (heap pq ! i)"
      by blast
  next
    assume "\<exists>i < ?n. i \<noteq> 0 \<and> P (heap pq ! i)"
    then obtain i where i: "i < ?n" "i \<noteq> 0" "P (heap pq ! i)"
      by blast
    show "\<exists>i < ?n - 1. P (heap pq1 ! i)"
    proof (cases "i = ?n - 1")
      case True
      with i heap1 [of 0] show ?thesis
        by (intro exI [of _ 0]) auto
    next
      case False
      with i heap1 [of i] show ?thesis
        by (intro exI [of _ i]) auto
    qed
  qed
  have view1: "pq_view pq1 = (pq_view pq)(?elem := None)"
  proof
    fix m
    have "pq_view pq1 m = Some y \<longleftrightarrow> ((pq_view pq)(?elem := None)) m = Some y" for y
    proof -
      have "pq_view pq1 m = Some y \<longleftrightarrow> (\<exists>i < ?n. i \<noteq> 0 \<and> hp_index (heap pq ! i) = m \<and> key pq i = y)"
        using sub [of "\<lambda>h. hp_index h = m \<and> hp_data h = y"] by (simp add: pq_view_Some [OF links1] n1 key_def)
      also have "\<dots> \<longleftrightarrow> m \<noteq> ?elem \<and> pq_view pq m = Some y"
        using links_inj [OF links, of _ 0] pos unfolding pq_view_Some [OF links] by (metis gr0I neq0_conv)
      finally show ?thesis
        by auto
    qed
    then show "pq_view pq1 m = ((pq_view pq)(?elem := None)) m"
      by (metis not_None_eq)
  qed
  have hole1: "hole_above cmp (key pq1) (h_num pq1) 0"
    using heap heap1 parent_less unfolding hole_above_def n1(1) key_def
    by (metis (no_types, lifting) diff_le_self gr_implies_not0 less_le_trans less_trans)
  define pq2 where "pq2 = (if ?t \<noteq> 0 then pqueue_move_up cmp pq1 0 else Inr pq1)"
  obtain pq3 where pq3: "pq2 = Inr pq3" "rearranged pq1 pq3" "heap_on cmp (key pq3) (h_num pq3)"
  proof (cases "?t = 0")
    case True
    then have "h_num pq1 = 0"
      using top n1(1) by simp
    with True show ?thesis
      by (intro that [of pq1]) (simp_all add: pq2_def rearranged_refl [OF links1] heap_on_def)
  next
    case False
    then have "0 < h_num pq1"
      using top n1(1) by (simp add: unat_eq_zero [symmetric])
    then show ?thesis
      using move_up_spec [OF links1, of 0] hole1 False that by (auto simp: pq2_def)
  qed
  have move: "(if ?t \<noteq> 0 then res_bind (pqueue_move_elem (pq\<lparr>htop := ?t\<rparr>) ?t 0) (\<lambda>pq. pqueue_move_up cmp pq 0)
      else Inr (pq\<lparr>htop := ?t\<rparr>)) = pq2"
  proof (cases "?t = 0")
    case False
    have "pqueue_move_elem (pq\<lparr>htop := ?t\<rparr>) ?t 0 = Inr pq1"
      using False pos len slots(1) [of "?n - 1"] top links
      by (auto simp: pqueue_move_elem_def h_get_def h_set_def e_set_posn_def pq1_def slot_def pq_links_def
          word_less_nat_alt word_le_nat_alt)
    with False show ?thesis
      by (simp add: pq2_def)
  qed (simp add: pq2_def pq1_def)
  have chain3: "free_chain pq3 (freelist pq3) ms"
  proof -
    have "pq_view pq m \<noteq> None" if "unat m = slot pq (?n - 1)" for m
      using that pos view_used [OF links, of "?n - 1"] by (auto simp: slot_def word_unat_eq_iff [symmetric])
    then have "\<forall>m \<in> set ms. elements pq1 ! unat m = elements pq ! unat m"
      using ms(4) by (metis el1)
    then have "\<forall>m \<in> set ms. elements pq3 ! unat m = elements pq ! unat m"
      using pq3(2) ms(4) view1 by (auto simp: rearranged_def)
    then show ?thesis
      using pq3(2) n1 free_chain_cong [OF ms(1), of pq3] by (simp add: rearranged_def)
  qed
  have q3: "pq_view pq3 = (pq_view pq)(?elem := None)" "hmax pq3 = hmax pq" "h_num pq3 = ?n - 1" "pq_links pq3"
    using pq3(2) view1 n1 by (auto simp: rearranged_def)
  have elem': "?elem \<notin> set ms"
    using ms(4) elem(2) by auto
  have len3: "length ms + 1 = unat (hmax pq3) - h_num pq3"
    using ms(3) pos q3(2,3) links by (auto simp: pq_links_def Suc_diff_le)
  obtain pq4 where pq4: "e_set_posn pq3 ?elem (freelist pq3) = Inr pq4" "pq_links (pq4\<lparr>freelist := ?elem\<rparr>)"
    "pq_free_ok (pq4\<lparr>freelist := ?elem\<rparr>)" "pq_view (pq4\<lparr>freelist := ?elem\<rparr>) = (pq_view pq)(?elem := None)" "heap pq4 = heap pq3"
    "htop pq4 = htop pq3" "hmax pq4 = hmax pq"
    by (rule release_slot [OF q3(4) chain3 ms(2) len3 _ _ elem']) (use ms(4) elem(1) q3(1,2) in auto)
  have "ossl_pqueue_pop cmp pq = Inr (pq4\<lparr>freelist := ?elem\<rparr>, Some (key pq 0))"
    using top(2) h_get_ok [OF links, of 0] pos pq3(1) pq4(1) move
    by (cases "?t = 0") (auto simp: ossl_pqueue_pop_def Let_def key_def)
  moreover have "pq_ok cmp (pq4\<lparr>freelist := ?elem\<rparr>)"
    using pq4 pq3(3) room q3(3) by (auto simp: pq_ok_def pq_room_def word_less_nat_alt heap_on_def key_def)
  ultimately show ?thesis
    using pq4 q3(3) by (intro that [of "pq4\<lparr>freelist := ?elem\<rparr>"]) simp_all
qed

lemma root_least:
  assumes "pq_ok cmp pq" and "pq_view pq m = Some y"
  shows "0 < h_num pq" and "cmp (key pq 0) y \<le> 0"
proof -
  have "pq_links pq"
    using assms(1) by (simp add: pq_ok_def pq_room_def)
  then obtain i where "i < h_num pq" "y = key pq i"
    using assms(2) by (auto simp: pq_view_Some)
  then show "0 < h_num pq" and "cmp (key pq 0) y \<le> 0"
    using assms(1) heap_root by (auto simp: pq_ok_def)
qed

lemma pop_spec:
  assumes ok: "pq_ok cmp pq"
  obtains "pq_view pq = Map.empty" "ossl_pqueue_pop cmp pq = Inr (pq, None)" "ossl_pqueue_peek pq = Inr None"
  | pq' m x where "ossl_pqueue_pop cmp pq = Inr (pq', Some x)" "ossl_pqueue_peek pq = Inr (Some x)" "pq_ok cmp pq'"
    "pq_view pq m = Some x" "pq_view pq' = (pq_view pq)(m := None)" "h_num pq' = h_num pq - 1"
    "\<forall>k y. pq_view pq k = Some y \<longrightarrow> cmp x y \<le> 0"
proof (cases "h_num pq = 0")
  case True
  then have "pq_view pq = Map.empty"
    by (auto simp: pq_view_def Let_def)
  with True that(1) ok show ?thesis
    by (auto simp: ossl_pqueue_pop_def unat_eq_zero pq_peek_spec pq_ok_def pq_room_def)
next
  case False
  have links: "pq_links pq" and room: "pq_room pq"
    using ok by (auto simp: pq_ok_def pq_room_def)
  have "hole_above cmp (key pq) (h_num pq) 0"
    using ok by (simp add: pq_ok_def heap_on_def hole_above_def)
  then obtain pq' where pq': "ossl_pqueue_pop cmp pq = Inr (pq', Some (key pq 0))" "pq_ok cmp pq'"
    "pq_view pq' = (pq_view pq)(hp_index (heap pq ! 0) := None)" "h_num pq' = h_num pq - 1"
    using pop_root [OF room] False by blast
  show ?thesis
    by (rule that(2) [OF pq'(1) _ pq'(2) view_used pq'(3,4)])
      (use False links root_least [OF ok] in \<open>auto simp: pq_peek_spec\<close>)
qed

lemma drop_last:
  assumes links: "pq_links pq" and pos: "0 < h_num pq"
  defines "pq' \<equiv> pq\<lparr>htop := htop pq - 1\<rparr>"
  shows "pq_links pq'" and "pq_view pq' = (pq_view pq)(hp_index (heap pq ! (h_num pq - 1)) := None)"
    and "h_num pq' = h_num pq - 1"
proof -
  show n: "h_num pq' = h_num pq - 1"
    using pos unat_pred [of 0 "htop pq"] by (simp add: pq'_def word_gt_0 unat_gt_0)
  show links': "pq_links pq'"
    using links n by (auto simp: pq_links_def slot_def pq'_def)
  show "pq_view pq' = (pq_view pq)(hp_index (heap pq ! (h_num pq - 1)) := None)"
  proof
    fix m
    have "pq_view pq' m = Some y \<longleftrightarrow> m \<noteq> hp_index (heap pq ! (h_num pq - 1)) \<and> pq_view pq m = Some y" for y
    proof -
      have "pq_view pq' m = Some y \<longleftrightarrow> (\<exists>i < h_num pq - 1. hp_index (heap pq ! i) = m \<and> key pq i = y)"
        by (simp add: pq_view_Some [OF links'] n) (simp add: pq'_def key_def)
      also have "\<dots> \<longleftrightarrow> (\<exists>i < h_num pq. i \<noteq> h_num pq - 1 \<and> hp_index (heap pq ! i) = m \<and> key pq i = y)"
        by (metis Suc_pred' less_SucI less_antisym nat_less_le pos)
      also have "\<dots> \<longleftrightarrow> m \<noteq> hp_index (heap pq ! (h_num pq - 1)) \<and> pq_view pq m = Some y"
        using links_inj [OF links, of _ "h_num pq - 1"] pos unfolding pq_view_Some [OF links]
        by (metis diff_less zero_less_one)
      finally show ?thesis .
    qed
    then show "pq_view pq' m = ((pq_view pq)(hp_index (heap pq ! (h_num pq - 1)) := None)) m"
      by (metis fun_upd_apply not_None_eq)
  qed
qed

lemma remove_spec:
  assumes ok: "pq_ok cmp pq" and m: "pq_view pq m = Some x"
  obtains pq' where "ossl_pqueue_remove cmp pq m = Inr (pq', Some x)" "pq_ok cmp pq'" "pq_view pq' = (pq_view pq)(m := None)"
    "h_num pq' = h_num pq - 1"
proof -
  have links: "pq_links pq" and room: "pq_room pq" and heap: "heap_on cmp (key pq) (h_num pq)"
    using ok by (auto simp: pq_ok_def pq_room_def)
  obtain i where i: "i < h_num pq" "hp_index (heap pq ! i) = m" "key pq i = x"
    using m pq_view_Some [OF links] by blast
  define n where "n = posn (elements pq ! unat m)"
  have slot: "unat m < length (elements pq)" "unat n = i" "m < hmax pq"
    using links i by (auto simp: pq_links_def slot_def n_def word_less_nat_alt)
  have top: "htop pq \<noteq> 0" "unat (htop pq - 1) = h_num pq - 1"
    using i(1) unat_pred [of 0 "htop pq"] unat_gt_0 [of "htop pq"] by (auto simp: word_gt_0)
  have start: "ossl_pqueue_remove cmp pq m = (if n = htop pq - 1 then
      res_bind (e_set_posn pq m (freelist pq)) (\<lambda>pq.
        let pq = pq\<lparr>freelist := m, htop := htop pq - 1\<rparr>
        in res_bind (h_get pq (htop pq)) (\<lambda>h. Inr (pq, Some (hp_data h))))
      else res_bind (if n > 0 then pqueue_force_bottom pq n else Inr pq) (\<lambda>pq. ossl_pqueue_pop cmp pq))"
    using slot top slot(3) [folded not_le] by (simp add: ossl_pqueue_remove_def e_posn_def n_def Let_def)
  show ?thesis
  proof (cases "n = htop pq - 1")
    case True
    then have last: "i = h_num pq - 1"
      using slot(2) top(2) by simp
    let ?p = "pq\<lparr>htop := htop pq - 1\<rparr>"
    note dl = drop_last [OF links, unfolded i(2) [unfolded last]]
    have pos: "0 < h_num pq"
      using i(1) by simp
    obtain ms where ms: "free_chain pq (freelist pq) ms" "distinct ms" "length ms = unat (hmax pq) - h_num pq"
      "\<forall>m \<in> set ms. pq_view pq m = None"
      using room by (auto simp: pq_room_def pq_free_ok_def)
    have chain: "free_chain ?p (freelist ?p) ms"
      using free_chain_cong [OF ms(1), of ?p] by simp
    have m': "m \<notin> set ms"
      using ms(4) m by auto
    have len: "length ms + 1 = unat (hmax ?p) - h_num ?p"
      using ms(3) pos top(2) links by (auto simp: pq_links_def Suc_diff_le)
    obtain pq1 where pq1: "e_set_posn ?p m (freelist ?p) = Inr pq1" "pq_links (pq1\<lparr>freelist := m\<rparr>)"
      "pq_free_ok (pq1\<lparr>freelist := m\<rparr>)" "pq_view (pq1\<lparr>freelist := m\<rparr>) = pq_view ?p" "heap pq1 = heap ?p"
      "htop pq1 = htop ?p" "hmax pq1 = hmax ?p"
      by (rule release_slot [OF dl(1) [OF pos] chain ms(2) len _ _ m']) (use ms(4) slot(3) dl(2) [OF pos] in auto)
    define e where "e = elements pq1"
    have p1: "pq1 = ?p\<lparr>elements := e\<rparr>" and e: "e_set_posn pq m (freelist pq) = Inr (pq\<lparr>elements := e\<rparr>)"
      using pq1(1) slot(1) by (auto simp: e_set_posn_def e_def)
    have lt: "h_num pq - 1 < length (heap pq)" "htop pq - 1 < max_nodes"
      using links pos top(2) by (auto simp: pq_links_def word_less_nat_alt word_le_nat_alt)
    have "ossl_pqueue_remove cmp pq m = Inr (pq1\<lparr>freelist := m\<rparr>, Some x)"
      using True e lt top(2) i(3) last by (simp add: start Let_def h_get_def p1 key_def)
    moreover have "heap_on cmp (key (pq1\<lparr>freelist := m\<rparr>)) (h_num (pq1\<lparr>freelist := m\<rparr>))"
      using heap top(2) by (auto simp: p1 heap_on_def key_def)
    moreover have "htop pq - 1 < hmax pq"
      using top(2) pos room by (auto simp: pq_room_def word_less_nat_alt)
    ultimately show ?thesis
      using pq1 room top(2) dl(2) [OF pos]
      by (intro that [of "pq1\<lparr>freelist := m\<rparr>"]) (auto simp: pq_ok_def pq_room_def)
  next
    case False
    have "hole_at cmp (key pq) (h_num pq) (unat n)"
      by (rule hole_at_start [OF heap])
    then obtain pq1 where pq1: "(if n > 0 then pqueue_force_bottom pq n else Inr pq) = Inr pq1" "rearranged pq pq1"
      "heap pq1 ! 0 = heap pq ! unat n" "hole_above cmp (key pq1) (h_num pq1) 0"
    proof (cases "n > 0")
      case True
      obtain q where q: "pqueue_force_bottom pq n = Inr q" "rearranged pq q" "heap q ! 0 = heap pq ! unat n"
        using force_bottom_heap [OF links, of n] slot(2) i(1) by auto
      show ?thesis
        by (rule that [of q]) (use True q force_bottom_order [OF links _ hole_at_start [OF heap] q(1)] slot(2) i(1) in auto)
    next
      case False
      then have "n = 0"
        by (simp add: word_gt_0)
      then show ?thesis
        using rearranged_refl [OF links] hole_at_root [OF hole_at_start [OF heap]] by (intro that [of pq]) simp_all
    qed
    have n1: "h_num pq1 = h_num pq" "pq_view pq1 = pq_view pq"
      using pq1(2) by (simp_all add: rearranged_def)
    obtain pq' where pq': "ossl_pqueue_pop cmp pq1 = Inr (pq', Some (key pq1 0))" "pq_ok cmp pq'"
      "pq_view pq' = (pq_view pq1)(hp_index (heap pq1 ! 0) := None)" "h_num pq' = h_num pq1 - 1"
      using pop_root [OF rearranged_room [OF pq1(2) room] pq1(4)] n1(1) i(1) by auto
    show ?thesis
      by (rule that [of pq']) (use False pq' pq1 n1 i slot(2) in \<open>simp_all add: start key_def\<close>)
  qed
qed

end

section \<open>The interface\<close>

text \<open>
  What a user of the queue relies on: \<open>view\<close> is a map from handles to entries that a push extends at a fresh handle and
  that a removal or a pop shrinks, and the entry at the front is one of the least.
\<close>

locale prio_queue =
  fixes ok :: "'q \<Rightarrow> bool" and view :: "'q \<Rightarrow> u64 \<rightharpoonup> 'a" and le :: "'a \<Rightarrow> 'a \<Rightarrow> bool"
    and push :: "'q \<Rightarrow> 'a \<Rightarrow> c_fault + ('q \<times> u64 option)" and peek :: "'q \<Rightarrow> c_fault + 'a option"
    and pop :: "'q \<Rightarrow> c_fault + ('q \<times> 'a option)" and remove :: "'q \<Rightarrow> u64 \<Rightarrow> c_fault + ('q \<times> 'a option)"
  assumes push_law: "ok q \<Longrightarrow> \<exists>q' r. push q x = Inr (q', r) \<and> ok q'
      \<and> (case r of None \<Rightarrow> view q' = view q | Some m \<Rightarrow> view q m = None \<and> view q' = (view q)(m \<mapsto> x))"
    and peek_law: "ok q \<Longrightarrow> view q = Map.empty \<and> peek q = Inr None
      \<or> (\<exists>m x. peek q = Inr (Some x) \<and> view q m = Some x \<and> (\<forall>k y. view q k = Some y \<longrightarrow> le x y))"
    and pop_law: "ok q \<Longrightarrow> peek q = Inr None \<and> pop q = Inr (q, None)
      \<or> (\<exists>q' m x. peek q = Inr (Some x) \<and> pop q = Inr (q', Some x) \<and> ok q' \<and> view q m = Some x \<and> view q' = (view q)(m := None))"
    and remove_law: "ok q \<Longrightarrow> view q m = Some x \<Longrightarrow> \<exists>q'. remove q m = Inr (q', Some x) \<and> ok q' \<and> view q' = (view q)(m := None)"
begin

lemma peek_least: "ok q \<Longrightarrow> view q k = Some y \<Longrightarrow> \<exists>m x. peek q = Inr (Some x) \<and> view q m = Some x \<and> le x y"
  using peek_law by fastforce

lemma peek_in_view: "ok q \<Longrightarrow> peek q = Inr (Some x) \<Longrightarrow> \<exists>m. view q m = Some x \<and> (\<forall>k y. view q k = Some y \<longrightarrow> le x y)"
  using peek_law by fastforce

lemma peek_empty: "ok q \<Longrightarrow> peek q = Inr None \<Longrightarrow> view q = Map.empty"
  using peek_law by fastforce

lemma peek_no_fault: "ok q \<Longrightarrow> \<exists>r. peek q = Inr r"
  using peek_law by blast

lemma pop_removes_least:
  assumes "ok q" and "pop q = Inr (q', Some x)"
  shows "ok q' \<and> (\<exists>m. view q m = Some x \<and> view q' = (view q)(m := None)) \<and> (\<forall>k y. view q' k = Some y \<longrightarrow> le x y)"
  using pop_law [OF assms(1)] peek_law [OF assms(1)] assms(2) by (auto simp: fun_upd_apply split: if_splits)

lemma pops_ascend:
  assumes "ok q" and "pop q = Inr (q', Some x)" and "pop q' = Inr (q'', Some y)"
  shows "le x y"
  using pop_removes_least [OF assms(1,2)] pop_removes_least [of q' q'' y] assms(3) by blast

end

sublocale pq_order \<subseteq> q: prio_queue "pq_ok cmp" pq_view "\<lambda>x y. cmp x y \<le> 0" "ossl_pqueue_push mem junk cmp"
  ossl_pqueue_peek "ossl_pqueue_pop cmp" "ossl_pqueue_remove cmp" for mem junk
proof
  fix q x
  assume ok: "pq_ok cmp q"
  show "\<exists>q' r. ossl_pqueue_push mem junk cmp q x = Inr (q', r) \<and> pq_ok cmp q'
      \<and> (case r of None \<Rightarrow> pq_view q' = pq_view q | Some m \<Rightarrow> pq_view q m = None \<and> pq_view q' = (pq_view q)(m \<mapsto> x))"
    by (rule push_spec [OF ok, of mem junk x]) (auto split: option.splits)
next
  fix q
  assume ok: "pq_ok cmp q"
  show "pq_view q = Map.empty \<and> ossl_pqueue_peek q = Inr None
      \<or> (\<exists>m x. ossl_pqueue_peek q = Inr (Some x) \<and> pq_view q m = Some x \<and> (\<forall>k y. pq_view q k = Some y \<longrightarrow> cmp x y \<le> 0))"
    by (rule pop_spec [OF ok]) blast+
  show "ossl_pqueue_peek q = Inr None \<and> ossl_pqueue_pop cmp q = Inr (q, None)
      \<or> (\<exists>q' m x. ossl_pqueue_peek q = Inr (Some x) \<and> ossl_pqueue_pop cmp q = Inr (q', Some x) \<and> pq_ok cmp q'
        \<and> pq_view q m = Some x \<and> pq_view q' = (pq_view q)(m := None))"
    by (rule pop_spec [OF ok]) blast+
next
  fix q m x
  assume "pq_ok cmp q" "pq_view q m = Some x"
  then show "\<exists>q'. ossl_pqueue_remove cmp q m = Inr (q', Some x) \<and> pq_ok cmp q' \<and> pq_view q' = (pq_view q)(m := None)"
    by (rule remove_spec) blast
qed

section \<open>Reachable queues\<close>

text \<open>
  A queue as its users see it, with what is in it (\<open>v\<close>): handles that a push returned and that were neither popped
  nor removed.
\<close>

inductive pq_reach :: "('a \<Rightarrow> 'a \<Rightarrow> int) \<Rightarrow> 'a ossl_pqueue \<Rightarrow> (u64 \<rightharpoonup> 'a) \<Rightarrow> bool" for cmp where
  new: "ossl_pqueue_new mem junk = Inr (Some pq) \<Longrightarrow> pq_reach cmp pq Map.empty"
| push: "pq_reach cmp pq v \<Longrightarrow> ossl_pqueue_push mem junk cmp pq x = Inr (pq', r) \<Longrightarrow>
    pq_reach cmp pq' (case r of None \<Rightarrow> v | Some m \<Rightarrow> v(m \<mapsto> x))"
| pop: "pq_reach cmp pq v \<Longrightarrow> ossl_pqueue_pop cmp pq = Inr (pq', Some x) \<Longrightarrow> v m = Some x \<Longrightarrow> pq_view pq' m = None \<Longrightarrow>
    pq_reach cmp pq' (v(m := None))"
| remove: "pq_reach cmp pq v \<Longrightarrow> m \<in> dom v \<Longrightarrow> ossl_pqueue_remove cmp pq m = Inr (pq', r) \<Longrightarrow> pq_reach cmp pq' (v(m := None))"
| reserve: "pq_reach cmp pq v \<Longrightarrow> unat n < 2 ^ 63 \<Longrightarrow> ossl_pqueue_reserve mem junk pq n = Inr (pq', b) \<Longrightarrow> pq_reach cmp pq' v"

lemma pq_ok_bounds: "pq_ok cmp pq \<Longrightarrow> h_num pq < unat (hmax pq) \<and> unat (hmax pq) < 2 ^ 60"
  using max_nodes_nat by (auto simp: pq_ok_def pq_room_def pq_links_def word_le_nat_alt word_less_nat_alt)

lemma pq_reach_ok: "pq_order cmp \<Longrightarrow> pq_reach cmp pq v \<Longrightarrow> pq_ok cmp pq \<and> pq_view pq = v"
proof (rotate_tac 1, induction rule: pq_reach.induct)
  case (new mem junk pq)
  then show ?case
    using pq_new_spec [of "fst mem" "fst (snd mem)" "snd (snd mem)" junk cmp] by auto
next
  case (push pq v mem junk x pq' r)
  then have ok: "pq_ok cmp pq" "pq_view pq = v"
    by auto
  show ?case
    by (rule pq_order.push_spec [OF push.prems ok(1), of mem junk x]) (use push.hyps(2) ok(2) in \<open>auto split: option.splits\<close>)
next
  case (pop pq v pq' x m)
  then have ok: "pq_ok cmp pq" "pq_view pq = v"
    by auto
  show ?case
  proof (rule pq_order.pop_spec [OF pop.prems ok(1)])
    fix q k y assume q: "ossl_pqueue_pop cmp pq = Inr (q, Some y)" "pq_ok cmp q" "pq_view q = (pq_view pq)(k := None)"
    then have "m = k"
      using pop.hyps ok(2) by (auto split: if_splits)
    with q pop.hyps ok show ?thesis
      by simp
  qed (use pop.hyps(2) in simp)
next
  case (remove pq v m pq' r)
  then obtain x where x: "pq_ok cmp pq" "pq_view pq m = Some x" "pq_view pq = v"
    by auto
  show ?case
    by (rule pq_order.remove_spec [OF remove.prems x(1,2)]) (use remove.hyps(3) x(3) in simp)
next
  case (reserve pq v n mem junk pq' b)
  then have ok: "pq_ok cmp pq" "pq_view pq = v"
    by auto
  have room: "pq_room pq"
    using ok(1) by (simp add: pq_ok_def)
  obtain q b' where q: "ossl_pqueue_reserve mem junk pq n = Inr (q, b')" "pq_room q" "htop q = htop pq"
    "\<forall>i < h_num pq. heap q ! i = heap pq ! i" "pq_view q = pq_view pq"
    by (rule pq_reserve_spec [OF room, of n mem junk]) (use reserve.hyps(2) pq_ok_bounds [OF ok(1)] in auto)
  then have "heap_on cmp (key q) (h_num q)"
    using ok(1) heap_on_cong [of "h_num pq" "key q" "key pq"] by (simp add: pq_ok_def key_def)
  with q ok reserve.hyps(3) show ?case
    by (simp add: pq_ok_def)
qed

text \<open>
  Property C16. The array heap is a priority queue. For any comparison that is a total preorder, after any sequence of pushes,
  pops, removals and reservations, whichever allocations failed: no operation leaves its arrays; a push either fails, only for want of
  memory, and changes nothing, or puts the entry under a fresh handle; a pop takes a least entry, the one that a peek shows, and nothing
  else; a removal takes exactly the entry of its handle.
\<close>

theorem pqueue_refines_map:
  assumes "pq_order cmp" and "pq_reach cmp pq v"
  shows "(\<exists>pq' r. ossl_pqueue_push mem junk cmp pq x = Inr (pq', r)
      \<and> (case r of None \<Rightarrow> pq_view pq' = v \<and> (mem \<noteq> (True, True) \<or> hmax pq = max_nodes)
         | Some m \<Rightarrow> m \<notin> dom v \<and> pq_view pq' = v(m \<mapsto> x)))
    \<and> (if v = Map.empty then ossl_pqueue_pop cmp pq = Inr (pq, None) \<and> ossl_pqueue_peek pq = Inr None
       else \<exists>pq' m y. ossl_pqueue_pop cmp pq = Inr (pq', Some y) \<and> ossl_pqueue_peek pq = Inr (Some y)
         \<and> v m = Some y \<and> pq_view pq' = v(m := None) \<and> (\<forall>z \<in> ran v. cmp y z \<le> 0))
    \<and> (\<forall>m y. v m = Some y \<longrightarrow> (\<exists>pq'. ossl_pqueue_remove cmp pq m = Inr (pq', Some y) \<and> pq_view pq' = v(m := None)))
    \<and> unat (ossl_pqueue_num pq) = card (dom v)"
proof (intro conjI)
  have ok: "pq_ok cmp pq" and v: "pq_view pq = v"
    using pq_reach_ok [OF assms] by auto
  show "\<exists>pq' r. ossl_pqueue_push mem junk cmp pq x = Inr (pq', r)
      \<and> (case r of None \<Rightarrow> pq_view pq' = v \<and> (mem \<noteq> (True, True) \<or> hmax pq = max_nodes)
         | Some m \<Rightarrow> m \<notin> dom v \<and> pq_view pq' = v(m \<mapsto> x))"
    by (rule pq_order.push_spec [OF assms(1) ok, of mem junk x]) (use v in \<open>force split: option.splits\<close>)
  show "if v = Map.empty then ossl_pqueue_pop cmp pq = Inr (pq, None) \<and> ossl_pqueue_peek pq = Inr None
       else \<exists>pq' m y. ossl_pqueue_pop cmp pq = Inr (pq', Some y) \<and> ossl_pqueue_peek pq = Inr (Some y)
         \<and> v m = Some y \<and> pq_view pq' = v(m := None) \<and> (\<forall>z \<in> ran v. cmp y z \<le> 0)"
    by (rule pq_order.pop_spec [OF assms(1) ok]) (use v in \<open>auto simp: ran_def\<close>)
  show "\<forall>m y. v m = Some y \<longrightarrow> (\<exists>pq'. ossl_pqueue_remove cmp pq m = Inr (pq', Some y) \<and> pq_view pq' = v(m := None))"
    using pq_order.remove_spec [OF assms(1) ok] v by metis
  show "unat (ossl_pqueue_num pq) = card (dom v)"
    using view_dom(2) [of pq] ok v by (simp add: pq_ok_def pq_room_def ossl_pqueue_num_def)
qed

text \<open>Three pushes.\<close>

definition int_cmp :: "int \<Rightarrow> int \<Rightarrow> int" where
  "int_cmp a b = (if a < b then -1 else if b < a then 1 else 0)"

lemma int_cmp_order: "pq_order int_cmp"
  by unfold_locales (auto simp: int_cmp_def split: if_splits)

definition zero_junk :: "int pq_junk" where
  "zero_junk = \<lparr>j_heap = \<lambda>_. \<lparr>hp_data = 0, hp_index = 0\<rparr>, j_elements = \<lambda>_. \<lparr>posn = 0\<rparr>\<rparr>"

definition pq_example :: "int ossl_pqueue" where
  "pq_example =
     (let push = \<lambda>x pq. fst (projr (ossl_pqueue_push (True, True) zero_junk int_cmp pq x))
      in push 2 (push 5 (push 3 (the (projr (ossl_pqueue_new (True, True, True) zero_junk))))))"

lemma pq_example_reach: "pq_reach int_cmp pq_example [7 \<mapsto> 3, 6 \<mapsto> 5, 5 \<mapsto> 2]"
proof -
  have push: "pq_reach int_cmp (fst (projr (ossl_pqueue_push (True, True) zero_junk int_cmp pq x))) (v(m \<mapsto> x))"
    if "pq_reach int_cmp pq v" "(case ossl_pqueue_push (True, True) zero_junk int_cmp pq x of Inl _ \<Rightarrow> False | Inr (_, r) \<Rightarrow> r = Some m)"
    for pq x v m
    using that(2) pq_reach.push [OF that(1), of "(True, True)" zero_junk x] by (auto split: sum.splits option.splits prod.splits)
  let ?q0 = "the (projr (ossl_pqueue_new (True, True, True) zero_junk))"
  have "case ossl_pqueue_new (True, True, True) zero_junk of Inl _ \<Rightarrow> False | Inr r \<Rightarrow> r \<noteq> None"
    by code_simp
  then have "ossl_pqueue_new (True, True, True) zero_junk = Inr (Some ?q0)"
    by (auto split: sum.splits)
  note q0 = pq_reach.new [OF this, of int_cmp]
  have "case ossl_pqueue_push (True, True) zero_junk int_cmp ?q0 3 of Inl _ \<Rightarrow> False | Inr (_, r) \<Rightarrow> r = Some 7"
    by code_simp
  note q1 = push [OF q0 this]
  have "case ossl_pqueue_push (True, True) zero_junk int_cmp
      (fst (projr (ossl_pqueue_push (True, True) zero_junk int_cmp ?q0 3))) 5 of Inl _ \<Rightarrow> False | Inr (_, r) \<Rightarrow> r = Some 6"
    by code_simp
  note q2 = push [OF q1 this]
  have "case ossl_pqueue_push (True, True) zero_junk int_cmp
      (fst (projr (ossl_pqueue_push (True, True) zero_junk int_cmp
        (fst (projr (ossl_pqueue_push (True, True) zero_junk int_cmp ?q0 3))) 5))) 2 of Inl _ \<Rightarrow> False | Inr (_, r) \<Rightarrow> r = Some 5"
    by code_simp
  from push [OF q2 this] show ?thesis
    by (simp add: pq_example_def Let_def)
qed

theorem pqueue_refines_map_witness:
  "\<exists>pq'. ossl_pqueue_pop int_cmp pq_example = Inr (pq', Some 2) \<and> ossl_pqueue_peek pq_example = Inr (Some 2)
    \<and> (\<exists>pq'. ossl_pqueue_remove int_cmp pq_example 6 = Inr (pq', Some 5) \<and> pq_view pq' = [7 \<mapsto> 3, 5 \<mapsto> 2])"
proof -
  let ?v = "[7 \<mapsto> 3, 6 \<mapsto> 5, 5 \<mapsto> 2] :: u64 \<rightharpoonup> int"
  note all = pqueue_refines_map [OF int_cmp_order pq_example_reach, of "(True, True)" zero_junk 0]
  have "?v \<noteq> Map.empty"
    by (metis fun_upd_same option.distinct(1))
  then obtain pq' m y where y: "ossl_pqueue_pop int_cmp pq_example = Inr (pq', Some y)" "ossl_pqueue_peek pq_example = Inr (Some y)"
    "?v m = Some y" "\<forall>z \<in> ran ?v. int_cmp y z \<le> 0"
    using all by (simp only: if_False) blast
  have "2 \<in> ran ?v"
    by (rule ranI [of _ 5]) simp
  then have "int_cmp y 2 \<le> 0"
    using y(4) by blast
  then have "y = 2"
    using y(3) by (auto simp: int_cmp_def split: if_splits)
  moreover have "?v 6 = Some 5"
    by simp
  then obtain pq'' where "ossl_pqueue_remove int_cmp pq_example 6 = Inr (pq'', Some 5)" "pq_view pq'' = ?v(6 := None)"
    using all by blast
  moreover have "?v(6 := None) = [7 \<mapsto> 3, 5 \<mapsto> 2]"
    by (simp add: fun_eq_iff)
  ultimately show ?thesis
    using y(1,2) by auto
qed

text \<open>
  A reservation does not test whether the number of entries asked for overflows. In a new queue a request for
  \<^verbatim>\<open>SIZE_MAX\<close> entries writes past the end of the array of slots; with an entry in the queue it is reported as granted although
  nothing was reserved.
\<close>

theorem pqueue_reserve_overflows:
  "ossl_pqueue_reserve (True, True) zero_junk (the (projr (ossl_pqueue_new (True, True, True) zero_junk))) SIZE_MAX = Inl OutOfBounds
   \<and> ossl_pqueue_reserve (True, True) zero_junk pq_example SIZE_MAX = Inr (pq_example, True)
   \<and> hmax pq_example = 8 \<and> htop pq_example = 3"
proof (intro conjI)
  show "ossl_pqueue_reserve (True, True) zero_junk (the (projr (ossl_pqueue_new (True, True, True) zero_junk))) SIZE_MAX = Inl OutOfBounds"
    by code_simp
  show h: "hmax pq_example = 8" "htop pq_example = 3"
    by code_simp+
  show "ossl_pqueue_reserve (True, True) zero_junk pq_example SIZE_MAX = Inr (pq_example, True)"
    by (simp add: ossl_pqueue_reserve_def h SIZE_MAX_def)
qed

end
