(* ===== verification/Rcidm.thy ===== *)
theory Rcidm
  imports Priority_Queue Quic_Wire
begin

text \<open>
  \<^verbatim>\<open>ssl/quic/quic_rcidm.c\<close>: the remote connection IDs that a peer issued. Each numbered one is an object that is pending in a
  priority queue, current, or on the list of those to retire, in this order. The objects are mutable and shared between these
  places, so they live in a store (\<open>r_objs\<close>) under their address; the queue holds addresses and compares what they point to. What the
  allocators return (an address for the object, success for the queue's arrays) is an argument.
\<close>

section \<open>Data\<close>

datatype rcid_state = RCID_STATE_PENDING | RCID_STATE_CUR | RCID_STATE_RETIRING

datatype rcid_type = RCID_TYPE_INITIAL | RCID_TYPE_PREF_ADDR | RCID_TYPE_NCID

record rcid =
  r_cid :: quic_conn_id
  r_seq_num :: u64
  r_pq_idx :: u64
  r_state :: rcid_state
  r_type :: rcid_type

type_synonym rcid_addr = nat

record quic_rcidm =
  r_objs :: "rcid_addr \<Rightarrow> rcid"
  preferred_rcid :: quic_conn_id
  initial_odcid :: quic_conn_id
  retry_odcid :: quic_conn_id
  packets_sent :: u64
  num_changes :: u64
  rm_retire_prior_to :: u64
  rcids :: "rcid_addr ossl_pqueue"
  cur_rcid :: "rcid_addr option"
  retiring_list :: "rcid_addr list"
  num_retiring :: u64
  preferred_rcid_changed :: bool
  have_preferred_rcid :: bool
  handshake_complete :: bool
  added_initial_odcid :: bool
  added_retry_odcid :: bool
  added_initial_rcid :: bool
  roll_requested :: bool

definition PACKETS_PER_RCID :: u64 where "PACKETS_PER_RCID = 10000"
definition INITIAL_SEQ_NUM :: u64 where "INITIAL_SEQ_NUM = 0"
definition MAX_NUMBERED_RCIDS :: u64 where "MAX_NUMBERED_RCIDS = SIZE_MAX div 2"

definition ossl_quic_conn_id_eq :: "quic_conn_id \<Rightarrow> quic_conn_id \<Rightarrow> bool" where
  "ossl_quic_conn_id_eq a b \<longleftrightarrow>
     (if id_len a \<noteq> id_len b \<or> unat (id_len a) > QUIC_MAX_CONN_ID_LEN then False
      else take (unat (id_len a)) (cid a) = take (unat (id_len a)) (cid b))"

definition rcid_cmp :: "rcid \<Rightarrow> rcid \<Rightarrow> int" where
  "rcid_cmp a b = (if r_seq_num a < r_seq_num b then -1 else if r_seq_num a > r_seq_num b then 1 else 0)"

text \<open>The queue's comparison, on addresses.\<close>

definition rcid_ptr_cmp :: "(rcid_addr \<Rightarrow> rcid) \<Rightarrow> rcid_addr \<Rightarrow> rcid_addr \<Rightarrow> int" where
  "rcid_ptr_cmp objs p p' = rcid_cmp (objs p) (objs p')"

text \<open>What the allocators do: the address for the new object (\<^term>\<open>None\<close> when out of memory), and the queue's reallocations.\<close>

record rcid_alloc =
  al_addr :: "rcid_addr option"
  al_mem :: "bool \<times> bool"
  al_junk :: "rcid_addr pq_junk"

section \<open>Operations\<close>

definition rcidm_set_preferred_rcid :: "quic_rcidm \<Rightarrow> quic_conn_id option \<Rightarrow> quic_rcidm" where
  "rcidm_set_preferred_rcid m rcid =
     (case rcid of
        None \<Rightarrow> m\<lparr>preferred_rcid_changed := True, have_preferred_rcid := False\<rparr>
      | Some c \<Rightarrow>
          if ossl_quic_conn_id_eq (preferred_rcid m) c then m
          else m\<lparr>preferred_rcid := c, preferred_rcid_changed := True, have_preferred_rcid := True\<rparr>)"

definition rcidm_create_rcid ::
    "rcid_alloc \<Rightarrow> quic_rcidm \<Rightarrow> u64 \<Rightarrow> quic_conn_id \<Rightarrow> rcid_type \<Rightarrow> c_fault + (quic_rcidm \<times> rcid_addr option)" where
  "rcidm_create_rcid al m seq c type =
     (if unat (id_len c) < 1 \<or> unat (id_len c) > QUIC_MAX_CONN_ID_LEN \<or> seq > OSSL_QUIC_VLINT_MAX
         \<or> ossl_pqueue_num (rcids m) + num_retiring m > MAX_NUMBERED_RCIDS then Inr (m, None)
      else case al_addr al of
        None \<Rightarrow> Inr (m, None)
      | Some p \<Rightarrow>
          let rcid = \<lparr>r_cid = c, r_seq_num = seq, r_pq_idx = 0, r_state = RCID_STATE_PENDING, r_type = type\<rparr> in
          if seq \<ge> rm_retire_prior_to m then
            let m = m\<lparr>r_objs := (r_objs m)(p := rcid)\<rparr> in
            res_bind (ossl_pqueue_push (al_mem al) (al_junk al) (rcid_ptr_cmp (r_objs m)) (rcids m) p) (\<lambda>(pq, idx).
              let m = m\<lparr>rcids := pq\<rparr> in
              case idx of
                None \<Rightarrow> Inr (m, None)
              | Some i \<Rightarrow> Inr (m\<lparr>r_objs := (r_objs m)(p := rcid\<lparr>r_pq_idx := i\<rparr>)\<rparr>, Some p))
          else
            Inr (m\<lparr>r_objs := (r_objs m)(p := rcid\<lparr>r_state := RCID_STATE_RETIRING, r_pq_idx := SIZE_MAX\<rparr>),
                   retiring_list := retiring_list m @ [p], num_retiring := num_retiring m + 1\<rparr>, Some p))"

text \<open>
  Making an object current retires the one that is current. The model passes the step after that to itself, as the C
  function calls itself.
\<close>

function rcidm_transition_rcid :: "quic_rcidm \<Rightarrow> rcid_addr \<Rightarrow> rcid_state \<Rightarrow> c_fault + quic_rcidm" where
  "rcidm_transition_rcid m p state =
     (let old_state = r_state (r_objs m p) in
      if state = old_state then Inr m
      else
        res_bind
          (case cur_rcid m of
             Some c \<Rightarrow> if state = RCID_STATE_CUR then rcidm_transition_rcid m c RCID_STATE_RETIRING else Inr m
           | None \<Rightarrow> Inr m) (\<lambda>m.
        res_bind
          (if old_state = RCID_STATE_PENDING then
             res_bind (ossl_pqueue_remove (rcid_ptr_cmp (r_objs m)) (rcids m) (r_pq_idx (r_objs m p))) (\<lambda>(pq, r).
               Inr (m\<lparr>rcids := pq, r_objs := (r_objs m)(p := (r_objs m p)\<lparr>r_pq_idx := SIZE_MAX\<rparr>)\<rparr>))
           else Inr m) (\<lambda>m.
        let m = m\<lparr>r_objs := (r_objs m)(p := (r_objs m p)\<lparr>r_state := state\<rparr>)\<rparr> in
        Inr (if state = RCID_STATE_CUR then m\<lparr>cur_rcid := Some p\<rparr>
             else if state = RCID_STATE_RETIRING then
               (if old_state = RCID_STATE_CUR then m\<lparr>cur_rcid := None\<rparr> else m)
                 \<lparr>retiring_list := retiring_list m @ [p], num_retiring := num_retiring m + 1\<rparr>
             else m))))"
  by auto

termination rcidm_transition_rcid
  by (relation "measure (\<lambda>(m, p, state). if state = RCID_STATE_CUR then 1 else 0)") auto

declare rcidm_transition_rcid.simps [simp del]

definition rcidm_free_rcid :: "quic_rcidm \<Rightarrow> rcid_addr option \<Rightarrow> c_fault + quic_rcidm" where
  "rcidm_free_rcid m rcid =
     (case rcid of
        None \<Rightarrow> Inr m
      | Some p \<Rightarrow>
          (case r_state (r_objs m p) of
             RCID_STATE_PENDING \<Rightarrow>
               res_bind (ossl_pqueue_remove (rcid_ptr_cmp (r_objs m)) (rcids m) (r_pq_idx (r_objs m p))) (\<lambda>(pq, r).
                 Inr (m\<lparr>rcids := pq\<rparr>))
           | RCID_STATE_CUR \<Rightarrow> Inr (m\<lparr>cur_rcid := None\<rparr>)
           | RCID_STATE_RETIRING \<Rightarrow>
               Inr (m\<lparr>retiring_list := remove1 p (retiring_list m), num_retiring := num_retiring m - 1\<rparr>)))"

text \<open>
  The loop over the front of the queue. A pass that takes nothing off the queue leaves the front object retiring, so that the next
  passes do nothing: the loop does not end.
\<close>

function rcidm_retire_loop :: "quic_rcidm \<Rightarrow> u64 \<Rightarrow> c_fault + quic_rcidm" where
  "rcidm_retire_loop m retire_to =
     res_bind (ossl_pqueue_peek (rcids m)) (\<lambda>r.
       case r of
         None \<Rightarrow> Inr m
       | Some p \<Rightarrow>
           if r_seq_num (r_objs m p) < retire_to then
             res_bind (rcidm_transition_rcid m p RCID_STATE_RETIRING) (\<lambda>m'.
               if htop (rcids m') < htop (rcids m) then rcidm_retire_loop m' retire_to else Inl NoReturn)
           else Inr m)"
  by auto

termination rcidm_retire_loop
  by (relation "measure (\<lambda>(m, retire_to). unat (htop (rcids m)))") (auto simp: word_less_nat_alt)

declare rcidm_retire_loop.simps [simp del]

definition rcidm_handle_retire_prior_to :: "quic_rcidm \<Rightarrow> u64 \<Rightarrow> c_fault + quic_rcidm" where
  "rcidm_handle_retire_prior_to m retire_to =
     (if retire_to \<le> rm_retire_prior_to m then Inr m
      else
        res_bind
          (case cur_rcid m of
             Some c \<Rightarrow> if r_seq_num (r_objs m c) < retire_to then rcidm_transition_rcid m c RCID_STATE_RETIRING else Inr m
           | None \<Rightarrow> Inr m) (\<lambda>m.
        res_bind (rcidm_retire_loop m retire_to) (\<lambda>m.
          Inr (m\<lparr>rm_retire_prior_to := retire_to\<rparr>))))"

definition rcidm_roll :: "quic_rcidm \<Rightarrow> c_fault + quic_rcidm" where
  "rcidm_roll m =
     res_bind (ossl_pqueue_peek (rcids m)) (\<lambda>r.
       case r of
         None \<Rightarrow> Inr m
       | Some p \<Rightarrow>
           res_bind (rcidm_transition_rcid m p RCID_STATE_CUR) (\<lambda>m.
             Inr (m\<lparr>num_changes := num_changes m + 1, roll_requested := False,
                    packets_sent := (if packets_sent m \<ge> PACKETS_PER_RCID then packets_sent m mod PACKETS_PER_RCID else 0)\<rparr>)))"

definition rcidm_update :: "quic_rcidm \<Rightarrow> c_fault + quic_rcidm" where
  "rcidm_update m =
     res_bind
       (if cur_rcid m = None then
          res_bind (ossl_pqueue_peek (rcids m)) (\<lambda>r.
            case r of Some p \<Rightarrow> rcidm_transition_rcid m p RCID_STATE_CUR | None \<Rightarrow> Inr m)
        else Inr m) (\<lambda>m.
     Inr (case cur_rcid m of
       Some c \<Rightarrow> rcidm_set_preferred_rcid m (Some (r_cid (r_objs m c)))
     | None \<Rightarrow>
         if added_retry_odcid m \<and> \<not> handshake_complete m then rcidm_set_preferred_rcid m (Some (retry_odcid m))
         else if added_initial_odcid m \<and> \<not> handshake_complete m then rcidm_set_preferred_rcid m (Some (initial_odcid m))
         else rcidm_set_preferred_rcid m None))"

definition rcidm_should_roll :: "quic_rcidm \<Rightarrow> bool" where
  "rcidm_should_roll m \<longleftrightarrow> handshake_complete m
     \<and> (num_changes m = 0 \<or> packets_sent m \<ge> PACKETS_PER_RCID \<or> roll_requested m)"

definition rcidm_tick :: "quic_rcidm \<Rightarrow> c_fault + quic_rcidm" where
  "rcidm_tick m = res_bind (if rcidm_should_roll m then rcidm_roll m else Inr m) rcidm_update"

text \<open>\<open>zero_id\<close>: the zeroed connection ID of a zeroed manager.\<close>

definition zero_id :: quic_conn_id where
  "zero_id = \<lparr>id_len = 0, cid = replicate QUIC_MAX_CONN_ID_LEN 0\<rparr>"

definition ossl_quic_rcidm_new ::
    "bool \<Rightarrow> bool \<times> bool \<times> bool \<Rightarrow> rcid_addr pq_junk \<Rightarrow> (rcid_addr \<Rightarrow> rcid) \<Rightarrow> quic_conn_id option \<Rightarrow> c_fault + quic_rcidm option" where
  "ossl_quic_rcidm_new mem pq_mem junk objs odcid =
     (if \<not> mem then Inr None
      else res_bind (ossl_pqueue_new pq_mem junk) (\<lambda>pq.
        case pq of
          None \<Rightarrow> Inr None
        | Some pq \<Rightarrow>
            let m = \<lparr>r_objs = objs, preferred_rcid = zero_id, initial_odcid = zero_id, retry_odcid = zero_id, packets_sent = 0,
                     num_changes = 0, rm_retire_prior_to = 0, rcids = pq, cur_rcid = None, retiring_list = [], num_retiring = 0,
                     preferred_rcid_changed = False, have_preferred_rcid = False, handshake_complete = False,
                     added_initial_odcid = False, added_retry_odcid = False, added_initial_rcid = False, roll_requested = False\<rparr>;
                m = (case odcid of Some c \<Rightarrow> m\<lparr>initial_odcid := c, added_initial_odcid := True\<rparr> | None \<Rightarrow> m)
            in res_bind (rcidm_update m) (\<lambda>m. Inr (Some m))))"

definition ossl_quic_rcidm_on_handshake_complete :: "quic_rcidm \<Rightarrow> c_fault + quic_rcidm" where
  "ossl_quic_rcidm_on_handshake_complete m =
     (if handshake_complete m then Inr m else rcidm_tick (m\<lparr>handshake_complete := True\<rparr>))"

definition ossl_quic_rcidm_on_packet_sent :: "quic_rcidm \<Rightarrow> u64 \<Rightarrow> c_fault + quic_rcidm" where
  "ossl_quic_rcidm_on_packet_sent m num_packets =
     (if num_packets = 0 then Inr m else rcidm_tick (m\<lparr>packets_sent := packets_sent m + num_packets\<rparr>))"

definition ossl_quic_rcidm_request_roll :: "quic_rcidm \<Rightarrow> c_fault + quic_rcidm" where
  "ossl_quic_rcidm_request_roll m = rcidm_tick (m\<lparr>roll_requested := True\<rparr>)"

definition ossl_quic_rcidm_add_from_initial :: "rcid_alloc \<Rightarrow> quic_rcidm \<Rightarrow> quic_conn_id \<Rightarrow> c_fault + (quic_rcidm \<times> bool)" where
  "ossl_quic_rcidm_add_from_initial al m c =
     (if added_initial_rcid m \<or> handshake_complete m then Inr (m, False)
      else res_bind (rcidm_create_rcid al m INITIAL_SEQ_NUM c RCID_TYPE_INITIAL) (\<lambda>(m, r).
        if r = None then Inr (m, False)
        else res_bind (rcidm_tick (m\<lparr>added_initial_rcid := True\<rparr>)) (\<lambda>m. Inr (m, True))))"

definition ossl_quic_rcidm_add_from_server_retry :: "quic_rcidm \<Rightarrow> quic_conn_id \<Rightarrow> c_fault + (quic_rcidm \<times> bool)" where
  "ossl_quic_rcidm_add_from_server_retry m c =
     (if added_retry_odcid m \<or> handshake_complete m then Inr (m, False)
      else res_bind (rcidm_tick (m\<lparr>retry_odcid := c, added_retry_odcid := True\<rparr>)) (\<lambda>m. Inr (m, True)))"

definition ossl_quic_rcidm_add_from_ncid ::
    "rcid_alloc \<Rightarrow> quic_rcidm \<Rightarrow> ossl_quic_frame_new_conn_id \<Rightarrow> c_fault + (quic_rcidm \<times> bool)" where
  "ossl_quic_rcidm_add_from_ncid al m ncid =
     res_bind (rcidm_create_rcid al m (seq_num ncid) (conn_id ncid) RCID_TYPE_NCID) (\<lambda>(m, r).
       if r = None then Inr (m, False)
       else res_bind (rcidm_handle_retire_prior_to m (retire_prior_to ncid)) (\<lambda>m.
            res_bind (rcidm_tick m) (\<lambda>m. Inr (m, True))))"

definition rcidm_get_retire :: "quic_rcidm \<Rightarrow> bool \<Rightarrow> c_fault + (quic_rcidm \<times> u64 option)" where
  "rcidm_get_retire m peek =
     (case retiring_list m of
        [] \<Rightarrow> Inr (m, None)
      | p # ps \<Rightarrow>
          let seq = r_seq_num (r_objs m p)
          in if peek then Inr (m, Some seq)
             else res_bind (rcidm_free_rcid m (Some p)) (\<lambda>m. Inr (m, Some seq)))"

definition ossl_quic_rcidm_pop_retire_seq_num :: "quic_rcidm \<Rightarrow> c_fault + (quic_rcidm \<times> u64 option)" where
  "ossl_quic_rcidm_pop_retire_seq_num m = rcidm_get_retire m False"

definition ossl_quic_rcidm_peek_retire_seq_num :: "quic_rcidm \<Rightarrow> c_fault + (quic_rcidm \<times> u64 option)" where
  "ossl_quic_rcidm_peek_retire_seq_num m = rcidm_get_retire m True"

definition ossl_quic_rcidm_get_preferred_tx_dcid :: "quic_rcidm \<Rightarrow> quic_conn_id option" where
  "ossl_quic_rcidm_get_preferred_tx_dcid m = (if have_preferred_rcid m then Some (preferred_rcid m) else None)"

definition ossl_quic_rcidm_get_preferred_tx_dcid_changed :: "quic_rcidm \<Rightarrow> bool \<Rightarrow> quic_rcidm \<times> bool" where
  "ossl_quic_rcidm_get_preferred_tx_dcid_changed m clear =
     (if clear then m\<lparr>preferred_rcid_changed := False\<rparr> else m, preferred_rcid_changed m)"

definition ossl_quic_rcidm_get_num_retiring :: "quic_rcidm \<Rightarrow> u64" where
  "ossl_quic_rcidm_get_num_retiring m = num_retiring m"

definition ossl_quic_rcidm_get_num_active :: "quic_rcidm \<Rightarrow> u64" where
  "ossl_quic_rcidm_get_num_active m =
     ossl_pqueue_num (rcids m) + (if cur_rcid m \<noteq> None then 1 else 0) + ossl_quic_rcidm_get_num_retiring m"

text \<open>What \<^verbatim>\<open>ossl_quic_rcidm_free\<close> frees, in order: the current object, the queue's, the list's.\<close>

function rcidm_drain :: "quic_rcidm \<Rightarrow> c_fault + rcid_addr list" where
  "rcidm_drain m =
     res_bind (ossl_pqueue_pop (rcid_ptr_cmp (r_objs m)) (rcids m)) (\<lambda>(pq, r).
       case r of
         None \<Rightarrow> Inr []
       | Some p \<Rightarrow>
           if htop pq < htop (rcids m) then res_bind (rcidm_drain (m\<lparr>rcids := pq\<rparr>)) (\<lambda>ps. Inr (p # ps)) else Inl NoReturn)"
  by auto

termination rcidm_drain
  by (relation "measure (\<lambda>m. unat (htop (rcids m)))") (auto simp: word_less_nat_alt)

declare rcidm_drain.simps [simp del]

definition ossl_quic_rcidm_free :: "quic_rcidm option \<Rightarrow> c_fault + rcid_addr list" where
  "ossl_quic_rcidm_free rcidm =
     (case rcidm of
        None \<Rightarrow> Inr []
      | Some m \<Rightarrow>
          res_bind (rcidm_drain m) (\<lambda>ps.
            Inr ((case cur_rcid m of None \<Rightarrow> [] | Some c \<Rightarrow> [c]) @ ps @ retiring_list m)))"

section \<open>Invariant\<close>

interpretation rq: pq_order "rcid_ptr_cmp objs" for objs
  by unfold_locales (auto simp: rcid_ptr_cmp_def rcid_cmp_def split: if_splits)

definition pending :: "quic_rcidm \<Rightarrow> rcid_addr set" where
  "pending m = ran (pq_view (rcids m))"

definition live :: "quic_rcidm \<Rightarrow> rcid_addr set" where
  "live m = pending m \<union> set_option (cur_rcid m) \<union> set (retiring_list m)"

definition rcid_valid :: "rcid \<Rightarrow> bool" where
  "rcid_valid r \<longleftrightarrow> r_seq_num r \<le> OSSL_QUIC_VLINT_MAX \<and> 1 \<le> unat (id_len (r_cid r)) \<and> unat (id_len (r_cid r)) \<le> QUIC_MAX_CONN_ID_LEN
     \<and> (r_type r = RCID_TYPE_INITIAL \<longrightarrow> r_seq_num r = 0)"

text \<open>
  The state machine of the file's comments: an object is pending exactly when it is in the queue, where its index says, current exactly
  when it is the current one, and retiring exactly when it is on the list; and only retiring ones lie below the watermark.
\<close>

definition rcidm_inv :: "quic_rcidm \<Rightarrow> bool" where
  "rcidm_inv m \<longleftrightarrow> pq_ok (rcid_ptr_cmp (r_objs m)) (rcids m)
     \<and> (\<forall>i p. pq_view (rcids m) i = Some p \<longrightarrow> r_state (r_objs m p) = RCID_STATE_PENDING \<and> r_pq_idx (r_objs m p) = i
          \<and> rm_retire_prior_to m \<le> r_seq_num (r_objs m p))
     \<and> (\<forall>p. cur_rcid m = Some p \<longrightarrow> r_state (r_objs m p) = RCID_STATE_CUR \<and> r_pq_idx (r_objs m p) = SIZE_MAX
          \<and> rm_retire_prior_to m \<le> r_seq_num (r_objs m p))
     \<and> (\<forall>p \<in> set (retiring_list m). r_state (r_objs m p) = RCID_STATE_RETIRING \<and> r_pq_idx (r_objs m p) = SIZE_MAX)
     \<and> distinct (retiring_list m) \<and> (\<forall>p \<in> live m. rcid_valid (r_objs m p))
     \<and> unat (num_retiring m) = length (retiring_list m)
     \<and> h_num (rcids m) + length (retiring_list m) + (if cur_rcid m = None then 0 else 1) \<le> 2 ^ 63 + 1
     \<and> (num_changes m = 0 \<or> handshake_complete m)"

lemma rcidm_invD:
  assumes "rcidm_inv m"
  shows "pq_ok (rcid_ptr_cmp (r_objs m)) (rcids m)"
    and "pq_view (rcids m) i = Some p \<Longrightarrow> r_state (r_objs m p) = RCID_STATE_PENDING \<and> r_pq_idx (r_objs m p) = i
          \<and> rm_retire_prior_to m \<le> r_seq_num (r_objs m p)"
    and "cur_rcid m = Some p \<Longrightarrow> r_state (r_objs m p) = RCID_STATE_CUR \<and> r_pq_idx (r_objs m p) = SIZE_MAX
          \<and> rm_retire_prior_to m \<le> r_seq_num (r_objs m p)"
    and "p \<in> set (retiring_list m) \<Longrightarrow> r_state (r_objs m p) = RCID_STATE_RETIRING \<and> r_pq_idx (r_objs m p) = SIZE_MAX"
    and "distinct (retiring_list m)" and "p \<in> live m \<Longrightarrow> rcid_valid (r_objs m p)"
    and "unat (num_retiring m) = length (retiring_list m)"
    and "h_num (rcids m) + length (retiring_list m) + (if cur_rcid m = None then 0 else 1) \<le> 2 ^ 63 + 1"
    and "num_changes m = 0 \<or> handshake_complete m"
  using assms unfolding rcidm_inv_def by blast+

text \<open>The fields the invariant does not speak of.\<close>

lemma rcidm_inv_cong:
  assumes "rcidm_inv m" and "r_objs m' = r_objs m" "rcids m' = rcids m" "cur_rcid m' = cur_rcid m"
    "retiring_list m' = retiring_list m" "num_retiring m' = num_retiring m" "rm_retire_prior_to m' = rm_retire_prior_to m"
    "num_changes m' = 0 \<or> handshake_complete m'"
  shows "rcidm_inv m'" and "live m' = live m"
  using assms by (simp_all add: rcidm_inv_def live_def pending_def)

lemma ptr_cmp_cong: "(\<And>p. r_seq_num (objs' p) = r_seq_num (objs p)) \<Longrightarrow> rcid_ptr_cmp objs' = rcid_ptr_cmp objs"
  by (auto simp: rcid_ptr_cmp_def rcid_cmp_def fun_eq_iff)

lemma num_retiring_succ:
  assumes "unat n = k" and "k \<le> 2 ^ 63 + 1"
  shows "unat (n + 1 :: u64) = k + 1"
  using assms by (simp add: unat_add_no_overflow)

text \<open>Retiring the current object.\<close>

lemma retire_current:
  assumes inv: "rcidm_inv m" and c: "cur_rcid m = Some c"
  defines "m' \<equiv> m\<lparr>r_objs := (r_objs m)(c := (r_objs m c)\<lparr>r_state := RCID_STATE_RETIRING\<rparr>), cur_rcid := None,
    retiring_list := retiring_list m @ [c], num_retiring := num_retiring m + 1\<rparr>"
  shows "rcidm_transition_rcid m c RCID_STATE_RETIRING = Inr m'" and "rcidm_inv m'" and "live m' = live m"
proof -
  note I = rcidm_invD [OF inv]
  show "rcidm_transition_rcid m c RCID_STATE_RETIRING = Inr m'"
    using I(3) [OF c] c by (simp add: rcidm_transition_rcid.simps [of m c] Let_def m'_def)
  show lv: "live m' = live m"
    using c by (auto simp: live_def pending_def m'_def)
  have cmp: "rcid_ptr_cmp (r_objs m') = rcid_ptr_cmp (r_objs m)"
    by (rule ptr_cmp_cong) (simp add: m'_def)
  have new: "c \<notin> set (retiring_list m)" "pq_view (rcids m) i \<noteq> Some c" for i
    using I(2-4) c by fastforce+
  have num: "unat (num_retiring m + 1) = length (retiring_list m) + 1"
    by (rule num_retiring_succ [OF I(7)]) (use I(8) c in simp)
  show "rcidm_inv m'"
    unfolding rcidm_inv_def cmp lv
  proof (intro conjI)
    show "pq_ok (rcid_ptr_cmp (r_objs m)) (rcids m')"
      using I(1) by (simp add: m'_def)
    show "\<forall>i p. pq_view (rcids m') i = Some p \<longrightarrow> r_state (r_objs m' p) = RCID_STATE_PENDING \<and> r_pq_idx (r_objs m' p) = i
        \<and> rm_retire_prior_to m' \<le> r_seq_num (r_objs m' p)"
      using I(2) new(2) by (auto simp: m'_def)
    show "\<forall>p \<in> set (retiring_list m'). r_state (r_objs m' p) = RCID_STATE_RETIRING \<and> r_pq_idx (r_objs m' p) = SIZE_MAX"
      using I(3) [OF c] I(4) by (auto simp: m'_def)
    show "\<forall>p \<in> live m. rcid_valid (r_objs m' p)"
      using I(6) by (auto simp: m'_def rcid_valid_def)
  qed (use I(5,8,9) c new num in \<open>auto simp: m'_def\<close>)
qed

text \<open>Taking a pending object off the queue.\<close>

lemma dequeue:
  assumes inv: "rcidm_inv m" and p: "pq_view (rcids m) i = Some p"
  obtains pq where "ossl_pqueue_remove (rcid_ptr_cmp (r_objs m)) (rcids m) (r_pq_idx (r_objs m p)) = Inr (pq, Some p)"
    "pq_ok (rcid_ptr_cmp (r_objs m)) pq" "pq_view pq = (pq_view (rcids m))(i := None)"
    "h_num pq + 1 = h_num (rcids m)" "\<forall>j. pq_view pq j \<noteq> Some p" "insert p (ran (pq_view pq)) = pending m"
proof -
  note I = rcidm_invD [OF inv]
  have idx: "r_pq_idx (r_objs m p) = i"
    using I(2) [OF p] by simp
  have pos: "0 < h_num (rcids m)"
    by (rule rq.root_least(1) [OF I(1) p])
  obtain pq where pq: "ossl_pqueue_remove (rcid_ptr_cmp (r_objs m)) (rcids m) i = Inr (pq, Some p)" "pq_ok (rcid_ptr_cmp (r_objs m)) pq"
    "pq_view pq = (pq_view (rcids m))(i := None)" "h_num pq = h_num (rcids m) - 1"
    by (rule rq.remove_spec [OF I(1) p])
  have none: "pq_view pq j \<noteq> Some p" for j
    using I(2) [of j p] idx by (auto simp: pq(3))
  have "insert p (ran (pq_view pq)) = pending m"
    using p unfolding pq(3) ran_def pending_def by auto (metis option.inject)
  with pq idx pos none show ?thesis
    by (intro that) auto
qed

abbreviation enter_retiring :: "quic_rcidm \<Rightarrow> rcid_addr \<Rightarrow> rcid_addr ossl_pqueue \<Rightarrow> quic_rcidm" where
  "enter_retiring m p pq \<equiv> m\<lparr>rcids := pq,
     r_objs := (r_objs m)(p := (r_objs m p)\<lparr>r_pq_idx := SIZE_MAX, r_state := RCID_STATE_RETIRING\<rparr>),
     retiring_list := retiring_list m @ [p], num_retiring := num_retiring m + 1\<rparr>"

abbreviation enter_current :: "quic_rcidm \<Rightarrow> rcid_addr \<Rightarrow> rcid_addr ossl_pqueue \<Rightarrow> quic_rcidm" where
  "enter_current m p pq \<equiv> m\<lparr>rcids := pq,
     r_objs := (r_objs m)(p := (r_objs m p)\<lparr>r_pq_idx := SIZE_MAX, r_state := RCID_STATE_CUR\<rparr>), cur_rcid := Some p\<rparr>"

lemma retire_pending:
  assumes inv: "rcidm_inv m" and p: "pq_view (rcids m) i = Some p"
  obtains pq where "rcidm_transition_rcid m p RCID_STATE_RETIRING = Inr (enter_retiring m p pq)"
    "pq_view pq = (pq_view (rcids m))(i := None)" "h_num pq + 1 = h_num (rcids m)" "rcidm_inv (enter_retiring m p pq)" "live (enter_retiring m p pq) = live m"
proof -
  note I = rcidm_invD [OF inv]
  obtain pq where pq: "ossl_pqueue_remove (rcid_ptr_cmp (r_objs m)) (rcids m) (r_pq_idx (r_objs m p)) = Inr (pq, Some p)"
    "pq_ok (rcid_ptr_cmp (r_objs m)) pq" "pq_view pq = (pq_view (rcids m))(i := None)" "h_num pq + 1 = h_num (rcids m)"
    "\<forall>j. pq_view pq j \<noteq> Some p" "insert p (ran (pq_view pq)) = pending m"
    by (rule dequeue [OF inv p])
  define m' where "m' = enter_retiring m p pq"
  have res: "rcidm_transition_rcid m p RCID_STATE_RETIRING = Inr m'"
    using I(2) [OF p] pq(1) by (simp add: rcidm_transition_rcid.simps [of m p] Let_def m'_def split: option.splits)
  have lv: "live m' = live m"
    using pq(6) by (auto simp: live_def pending_def m'_def)
  have cmp: "rcid_ptr_cmp (r_objs m') = rcid_ptr_cmp (r_objs m)"
    by (rule ptr_cmp_cong) (simp add: m'_def)
  have new: "p \<notin> set (retiring_list m)" "cur_rcid m \<noteq> Some p"
    using I(2) [OF p] I(3,4) by fastforce+
  have num: "unat (num_retiring m + 1) = length (retiring_list m) + 1"
    by (rule num_retiring_succ [OF I(7)]) (use I(8) in simp)
  have "rcidm_inv m'"
    unfolding rcidm_inv_def cmp lv
  proof (intro conjI)
    show "pq_ok (rcid_ptr_cmp (r_objs m)) (rcids m')"
      using pq(2) by (simp add: m'_def)
    show "\<forall>i p. pq_view (rcids m') i = Some p \<longrightarrow> r_state (r_objs m' p) = RCID_STATE_PENDING \<and> r_pq_idx (r_objs m' p) = i
        \<and> rm_retire_prior_to m' \<le> r_seq_num (r_objs m' p)"
      using I(2) pq(3,5) by (fastforce simp: m'_def split: if_splits)
    show "\<forall>p. cur_rcid m' = Some p \<longrightarrow> r_state (r_objs m' p) = RCID_STATE_CUR \<and> r_pq_idx (r_objs m' p) = SIZE_MAX
        \<and> rm_retire_prior_to m' \<le> r_seq_num (r_objs m' p)"
      using I(3) new by (auto simp: m'_def)
    show "\<forall>p \<in> set (retiring_list m'). r_state (r_objs m' p) = RCID_STATE_RETIRING \<and> r_pq_idx (r_objs m' p) = SIZE_MAX"
      using I(4) by (auto simp: m'_def)
    show "\<forall>p \<in> live m. rcid_valid (r_objs m' p)"
      using I(6) by (auto simp: m'_def rcid_valid_def)
  qed (use I(5,8,9) pq(4) new num in \<open>auto simp: m'_def\<close>)
  with res lv pq show ?thesis
    by (intro that [of pq]) (simp_all add: m'_def)
qed

text \<open>Making a pending object current, when there is no current one.\<close>

lemma make_current:
  assumes inv: "rcidm_inv m" and p: "pq_view (rcids m) i = Some p" and c: "cur_rcid m = None"
  obtains pq where "rcidm_transition_rcid m p RCID_STATE_CUR = Inr (enter_current m p pq)"
    "pq_view pq = (pq_view (rcids m))(i := None)" "rcidm_inv (enter_current m p pq)" "live (enter_current m p pq) = live m"
proof -
  note I = rcidm_invD [OF inv]
  obtain pq where pq: "ossl_pqueue_remove (rcid_ptr_cmp (r_objs m)) (rcids m) (r_pq_idx (r_objs m p)) = Inr (pq, Some p)"
    "pq_ok (rcid_ptr_cmp (r_objs m)) pq" "pq_view pq = (pq_view (rcids m))(i := None)" "h_num pq + 1 = h_num (rcids m)"
    "\<forall>j. pq_view pq j \<noteq> Some p" "insert p (ran (pq_view pq)) = pending m"
    by (rule dequeue [OF inv p])
  define m' where "m' = enter_current m p pq"
  have res: "rcidm_transition_rcid m p RCID_STATE_CUR = Inr m'"
    using I(2) [OF p] pq(1) c by (simp add: rcidm_transition_rcid.simps [of m p] Let_def m'_def)
  have lv: "live m' = live m"
    using pq(6) c by (auto simp: live_def pending_def m'_def)
  have cmp: "rcid_ptr_cmp (r_objs m') = rcid_ptr_cmp (r_objs m)"
    by (rule ptr_cmp_cong) (simp add: m'_def)
  have new: "p \<notin> set (retiring_list m)"
    using I(2) [OF p] I(4) by fastforce
  have "rcidm_inv m'"
    unfolding rcidm_inv_def cmp lv
  proof (intro conjI)
    show "pq_ok (rcid_ptr_cmp (r_objs m)) (rcids m')"
      using pq(2) by (simp add: m'_def)
    show "\<forall>i p. pq_view (rcids m') i = Some p \<longrightarrow> r_state (r_objs m' p) = RCID_STATE_PENDING \<and> r_pq_idx (r_objs m' p) = i
        \<and> rm_retire_prior_to m' \<le> r_seq_num (r_objs m' p)"
      using I(2) pq(3,5) by (fastforce simp: m'_def split: if_splits)
    show "\<forall>p. cur_rcid m' = Some p \<longrightarrow> r_state (r_objs m' p) = RCID_STATE_CUR \<and> r_pq_idx (r_objs m' p) = SIZE_MAX
        \<and> rm_retire_prior_to m' \<le> r_seq_num (r_objs m' p)"
      using I(2) [OF p] by (auto simp: m'_def)
    show "\<forall>p \<in> set (retiring_list m'). r_state (r_objs m' p) = RCID_STATE_RETIRING \<and> r_pq_idx (r_objs m' p) = SIZE_MAX"
      using I(4) new by (auto simp: m'_def)
    show "\<forall>p \<in> live m. rcid_valid (r_objs m' p)"
      using I(6) by (auto simp: m'_def rcid_valid_def)
  qed (use I(5,7,8,9) pq(4) c in \<open>auto simp: m'_def\<close>)
  with res lv pq show ?thesis
    by (intro that [of pq]) (simp_all add: m'_def)
qed

section \<open>Steps\<close>

text \<open>\<open>rolled\<close>: the oldest pending object takes over from the current one, which is to be retired.\<close>

definition rolled :: "quic_rcidm \<Rightarrow> quic_rcidm \<Rightarrow> bool" where
  "rolled m m' \<longleftrightarrow> (\<exists>p \<in> pending m. (\<forall>q \<in> pending m. r_seq_num (r_objs m p) \<le> r_seq_num (r_objs m q)) \<and> cur_rcid m' = Some p
     \<and> pending m' = pending m - {p} \<and> retiring_list m' = retiring_list m @ (case cur_rcid m of None \<Rightarrow> [] | Some c \<Rightarrow> [c]))"

definition stayed :: "quic_rcidm \<Rightarrow> quic_rcidm \<Rightarrow> bool" where
  "stayed m m' \<longleftrightarrow> cur_rcid m' = cur_rcid m \<and> pending m' = pending m \<and> retiring_list m' = retiring_list m"

text \<open>
  The connection IDs a manager has, and what is fixed about each. \<open>moved\<close>: some of them changed places, and nothing else changed.
\<close>

definition same_ids :: "quic_rcidm \<Rightarrow> quic_rcidm \<Rightarrow> bool" where
  "same_ids m m' \<longleftrightarrow> live m' = live m
     \<and> (\<forall>a. r_seq_num (r_objs m' a) = r_seq_num (r_objs m a) \<and> r_cid (r_objs m' a) = r_cid (r_objs m a))"

definition moved :: "quic_rcidm \<Rightarrow> quic_rcidm \<Rightarrow> bool" where
  "moved m m' \<longleftrightarrow> same_ids m m' \<and> (\<exists>objs q c l n. m' = m\<lparr>r_objs := objs, rcids := q, cur_rcid := c, retiring_list := l, num_retiring := n\<rparr>)"

lemma same_ids_refl [simp]: "same_ids m m"
  by (simp add: same_ids_def)

lemma same_ids_trans: "same_ids m m' \<Longrightarrow> same_ids m' m'' \<Longrightarrow> same_ids m m''"
  by (simp add: same_ids_def)

lemma movedI:
  assumes "same_ids m m'" and "m' = m\<lparr>r_objs := r_objs m', rcids := rcids m', cur_rcid := cur_rcid m',
    retiring_list := retiring_list m', num_retiring := num_retiring m'\<rparr>"
  shows "moved m m'"
  unfolding moved_def by (intro conjI assms(1) exI) (rule assms(2))

lemma moved_refl [simp]: "moved m m"
  by (rule movedI) simp_all

lemma moved_trans:
  assumes "moved m m'" and "moved m' m''"
  shows "moved m m''"
proof -
  obtain o1 q1 c1 l1 n1 o2 q2 c2 l2 n2 where
    "m' = m\<lparr>r_objs := o1, rcids := q1, cur_rcid := c1, retiring_list := l1, num_retiring := n1\<rparr>"
    "m'' = m'\<lparr>r_objs := o2, rcids := q2, cur_rcid := c2, retiring_list := l2, num_retiring := n2\<rparr>"
    using assms unfolding moved_def by (elim conjE exE)
  then have "m'' = m\<lparr>r_objs := o2, rcids := q2, cur_rcid := c2, retiring_list := l2, num_retiring := n2\<rparr>"
    by simp
  then show ?thesis
    using assms same_ids_trans unfolding moved_def by (intro conjI exI) auto
qed

lemma moved_fields:
  assumes "moved m m'"
  shows "same_ids m m'" and "packets_sent m' = packets_sent m" and "num_changes m' = num_changes m"
    and "rm_retire_prior_to m' = rm_retire_prior_to m" and "handshake_complete m' = handshake_complete m"
    and "roll_requested m' = roll_requested m" and "preferred_rcid m' = preferred_rcid m"
    and "have_preferred_rcid m' = have_preferred_rcid m"
  using assms by (auto simp: moved_def)

lemma peek_cases:
  assumes "rcidm_inv m"
  obtains "pending m = {}" "ossl_pqueue_peek (rcids m) = Inr None"
  | i p where "ossl_pqueue_peek (rcids m) = Inr (Some p)" "pq_view (rcids m) i = Some p" "p \<in> pending m"
    "\<forall>q \<in> pending m. r_seq_num (r_objs m p) \<le> r_seq_num (r_objs m q)"
  using rq.q.peek_law [OF rcidm_invD(1) [OF assms]]
proof (elim disjE exE conjE)
  assume "pq_view (rcids m) = Map.empty" "ossl_pqueue_peek (rcids m) = Inr None"
  then show thesis
    by (intro that(1)) (simp_all add: pending_def)
next
  fix i p assume p: "ossl_pqueue_peek (rcids m) = Inr (Some p)" "pq_view (rcids m) i = Some p"
    "\<forall>k y. pq_view (rcids m) k = Some y \<longrightarrow> rcid_ptr_cmp (r_objs m) p y \<le> 0"
  show thesis
  proof (rule that(2) [OF p(1,2)])
    show "p \<in> pending m"
      using p(2) by (auto simp: pending_def ran_def)
    show "\<forall>q \<in> pending m. r_seq_num (r_objs m p) \<le> r_seq_num (r_objs m q)"
      using p(3) by (fastforce simp: pending_def ran_def rcid_ptr_cmp_def rcid_cmp_def split: if_splits)
  qed
qed

lemma pending_after:
  assumes "rcidm_inv m" and "pq_view (rcids m) i = Some p" and "pq_view pq = (pq_view (rcids m))(i := None)"
  shows "ran (pq_view pq) = pending m - {p}"
proof -
  have one: "j = i" if "pq_view (rcids m) j = Some p" for j
    using rcidm_invD(2) [OF assms(1)] assms(2) that by metis
  show ?thesis
  proof (intro set_eqI iffI)
    fix x assume "x \<in> ran (pq_view pq)"
    then obtain j where "j \<noteq> i" "pq_view (rcids m) j = Some x"
      by (auto simp: assms(3) ran_def split: if_splits)
    with one show "x \<in> pending m - {p}"
      by (auto simp: pending_def ran_def)
  next
    fix x assume "x \<in> pending m - {p}"
    then obtain j where "pq_view (rcids m) j = Some x" "x \<noteq> p"
      by (auto simp: pending_def ran_def)
    with assms(2) have "pq_view pq j = Some x"
      by (auto simp: assms(3))
    then show "x \<in> ran (pq_view pq)"
      by (rule ranI)
  qed
qed

text \<open>Making a pending object current, retiring the one that was.\<close>

lemma select_spec:
  assumes inv: "rcidm_inv m" and p: "pq_view (rcids m) i = Some p"
  obtains m' where "rcidm_transition_rcid m p RCID_STATE_CUR = Inr m'" "rcidm_inv m'" "moved m m'" "cur_rcid m' = Some p"
    "pending m' = pending m - {p}" "retiring_list m' = retiring_list m @ (case cur_rcid m of None \<Rightarrow> [] | Some c \<Rightarrow> [c])"
proof (cases "cur_rcid m")
  case None
  obtain pq where pq: "rcidm_transition_rcid m p RCID_STATE_CUR = Inr (enter_current m p pq)"
    "pq_view pq = (pq_view (rcids m))(i := None)" "rcidm_inv (enter_current m p pq)" "live (enter_current m p pq) = live m"
    by (rule make_current [OF inv p None])
  have "moved m (enter_current m p pq)"
    using pq(4) by (intro movedI) (simp_all add: same_ids_def)
  with pq None show ?thesis
    using pending_after [OF inv p pq(2)] by (intro that [OF pq(1)]) (simp_all add: pending_def)
next
  case (Some c)
  define m1 where "m1 = m\<lparr>r_objs := (r_objs m)(c := (r_objs m c)\<lparr>r_state := RCID_STATE_RETIRING\<rparr>), cur_rcid := None,
    retiring_list := retiring_list m @ [c], num_retiring := num_retiring m + 1\<rparr>"
  note rc = retire_current [OF inv Some, folded m1_def]
  have p1: "pq_view (rcids m1) i = Some p"
    using p by (simp add: m1_def)
  obtain pq where pq: "rcidm_transition_rcid m1 p RCID_STATE_CUR = Inr (enter_current m1 p pq)"
    "pq_view pq = (pq_view (rcids m1))(i := None)" "rcidm_inv (enter_current m1 p pq)" "live (enter_current m1 p pq) = live m1"
    by (rule make_current [OF rc(2) p1]) (simp_all add: m1_def)
  have pend: "r_state (r_objs m p) = RCID_STATE_PENDING" "r_state (r_objs m1 p) = RCID_STATE_PENDING" "cur_rcid m1 = None"
    using rcidm_invD(2) [OF inv p] rcidm_invD(2) [OF rc(2) p1] by (simp_all add: m1_def)
  have "rcidm_transition_rcid m p RCID_STATE_CUR = rcidm_transition_rcid m1 p RCID_STATE_CUR"
    unfolding rcidm_transition_rcid.simps [of m p] rcidm_transition_rcid.simps [of m1 p] using pend rc(1) Some by (simp add: Let_def)
  moreover have "moved m (enter_current m1 p pq)"
    using pq(4) rc(3) by (intro movedI) (simp_all add: same_ids_def m1_def)
  ultimately show ?thesis
    using pq Some pending_after [OF rc(2) p1 pq(2)]
    by (intro that [of "enter_current m1 p pq"]) (simp_all add: pending_def m1_def)
qed

lemma retire_loop_spec:
  assumes "rcidm_inv m"
  shows "\<exists>m'. rcidm_retire_loop m r = Inr m' \<and> rcidm_inv m' \<and> moved m m' \<and> cur_rcid m' = cur_rcid m
    \<and> (\<forall>p \<in> pending m'. r \<le> r_seq_num (r_objs m' p))"
  using assms
proof (induction "h_num (rcids m)" arbitrary: m rule: less_induct)
  case less
  show ?case
  proof (cases rule: peek_cases [OF less.prems])
    case 1
    then show ?thesis
      using less.prems by (intro exI [of _ m]) (simp add: rcidm_retire_loop.simps [of m])
  next
    case (2 i p)
    show ?thesis
    proof (cases "r_seq_num (r_objs m p) < r")
      case False
      with 2 less.prems show ?thesis
        by (intro exI [of _ m]) (auto simp: rcidm_retire_loop.simps [of m])
    next
      case True
      obtain pq where pq: "rcidm_transition_rcid m p RCID_STATE_RETIRING = Inr (enter_retiring m p pq)"
        "h_num pq + 1 = h_num (rcids m)" "rcidm_inv (enter_retiring m p pq)" "live (enter_retiring m p pq) = live m"
        by (rule retire_pending [OF less.prems 2(2)])
      have mv: "moved m (enter_retiring m p pq)"
        using pq(4) by (intro movedI) (simp_all add: same_ids_def)
      obtain m' where "rcidm_retire_loop (enter_retiring m p pq) r = Inr m'" "rcidm_inv m'" "moved (enter_retiring m p pq) m'"
        "cur_rcid m' = cur_rcid m" "\<forall>p \<in> pending m'. r \<le> r_seq_num (r_objs m' p)"
        using less.hyps [of "enter_retiring m p pq"] pq(2,3) by auto
      then show ?thesis
        using True 2(1) pq(1,2) moved_trans [OF mv]
        by (intro exI [of _ m']) (simp add: rcidm_retire_loop.simps [of m] word_less_nat_alt)
    qed
  qed
qed

lemma handle_retire_spec:
  assumes inv: "rcidm_inv m"
  obtains m' where "rcidm_handle_retire_prior_to m r = Inr m'" "rcidm_inv m'" "same_ids m m'"
    "rm_retire_prior_to m' = max (rm_retire_prior_to m) r" "handshake_complete m' = handshake_complete m"
proof (cases "r \<le> rm_retire_prior_to m")
  case True
  with inv show ?thesis
    by (intro that [of m]) (auto simp: rcidm_handle_retire_prior_to_def max_def)
next
  case False
  define step where "step = (case cur_rcid m of
    Some c \<Rightarrow> if r_seq_num (r_objs m c) < r then rcidm_transition_rcid m c RCID_STATE_RETIRING else Inr m | None \<Rightarrow> Inr m)"
  obtain m1 where m1: "step = Inr m1" "rcidm_inv m1" "moved m m1" "\<forall>c. cur_rcid m1 = Some c \<longrightarrow> r \<le> r_seq_num (r_objs m1 c)"
  proof (cases "\<exists>c. cur_rcid m = Some c \<and> r_seq_num (r_objs m c) < r")
    case False
    with inv show ?thesis
      by (intro that [of m]) (auto simp: step_def not_less split: option.splits)
  next
    case True
    then obtain c where c: "cur_rcid m = Some c" "r_seq_num (r_objs m c) < r"
      by blast
    define m' where "m' = m\<lparr>r_objs := (r_objs m)(c := (r_objs m c)\<lparr>r_state := RCID_STATE_RETIRING\<rparr>), cur_rcid := None,
      retiring_list := retiring_list m @ [c], num_retiring := num_retiring m + 1\<rparr>"
    note rc = retire_current [OF inv c(1), folded m'_def]
    have "moved m m'"
      using rc(3) by (intro movedI) (simp_all add: same_ids_def m'_def)
    with c rc show ?thesis
      by (intro that [of m']) (simp_all add: step_def m'_def)
  qed
  obtain m2 where m2: "rcidm_retire_loop m1 r = Inr m2" "rcidm_inv m2" "moved m1 m2" "cur_rcid m2 = cur_rcid m1"
    "\<forall>p \<in> pending m2. r \<le> r_seq_num (r_objs m2 p)"
    using retire_loop_spec [OF m1(2), of r] by blast
  have mv: "moved m m2"
    using moved_trans [OF m1(3) m2(3)] .
  let ?m = "m2\<lparr>rm_retire_prior_to := r\<rparr>"
  note I = rcidm_invD [OF m2(2)]
  have "r \<le> r_seq_num (r_objs m2 c)" if "cur_rcid m2 = Some c" for c
    using m1(4) m2(3,4) that by (simp add: moved_def same_ids_def)
  then have "rcidm_inv ?m"
    unfolding rcidm_inv_def using I m2(5)
    by (auto simp: live_def pending_def ran_def)
  moreover have "same_ids m ?m"
    using moved_fields(1) [OF mv] by (simp add: same_ids_def live_def pending_def)
  ultimately show ?thesis
    using False m1(1) m2(1) moved_fields [OF mv] less_imp_le [of "rm_retire_prior_to m" r]
    by (intro that [of ?m]) (simp_all add: rcidm_handle_retire_prior_to_def step_def max_def not_le)
qed

text \<open>The preferred ID is that of the current object, where there is one.\<close>

definition preferred_ok :: "quic_rcidm \<Rightarrow> bool" where
  "preferred_ok m \<longleftrightarrow> (have_preferred_rcid m \<longrightarrow> (case cur_rcid m of
     Some c \<Rightarrow> ossl_quic_conn_id_eq (preferred_rcid m) (r_cid (r_objs m c)) | None \<Rightarrow> \<not> handshake_complete m))"

lemma preferred_ok_cong:
  assumes "r_objs m' = r_objs m" "cur_rcid m' = cur_rcid m" "handshake_complete m' = handshake_complete m"
    "have_preferred_rcid m' = have_preferred_rcid m" "preferred_rcid m' = preferred_rcid m"
  shows "preferred_ok m' = preferred_ok m"
  unfolding preferred_ok_def assms ..

lemma set_preferred_simps [simp]:
  "r_objs (rcidm_set_preferred_rcid m c) = r_objs m" "rcids (rcidm_set_preferred_rcid m c) = rcids m"
  "cur_rcid (rcidm_set_preferred_rcid m c) = cur_rcid m" "retiring_list (rcidm_set_preferred_rcid m c) = retiring_list m"
  "num_retiring (rcidm_set_preferred_rcid m c) = num_retiring m" "num_changes (rcidm_set_preferred_rcid m c) = num_changes m"
  "rm_retire_prior_to (rcidm_set_preferred_rcid m c) = rm_retire_prior_to m"
  "handshake_complete (rcidm_set_preferred_rcid m c) = handshake_complete m"
  by (simp_all add: rcidm_set_preferred_rcid_def split: option.splits)

lemma set_preferred_eq:
  "unat (id_len c) \<le> QUIC_MAX_CONN_ID_LEN \<Longrightarrow> ossl_quic_conn_id_eq (preferred_rcid (rcidm_set_preferred_rcid m (Some c))) c"
  by (auto simp: rcidm_set_preferred_rcid_def ossl_quic_conn_id_eq_def)

lemma live_valid_len: "rcidm_inv m \<Longrightarrow> cur_rcid m = Some c \<Longrightarrow> unat (id_len (r_cid (r_objs m c))) \<le> QUIC_MAX_CONN_ID_LEN"
  using rcidm_invD(6) [of m c] by (simp add: live_def rcid_valid_def)

lemma live_split: "live m = pending m \<union> set_option (cur_rcid m) \<union> set (retiring_list m)"
  by (simp add: live_def)

lemma update_spec:
  assumes inv: "rcidm_inv m"
  obtains m' where "rcidm_update m = Inr m'" "rcidm_inv m'" "same_ids m m'" "preferred_ok m'"
    "handshake_complete m' = handshake_complete m" "rm_retire_prior_to m' = rm_retire_prior_to m"
    "if cur_rcid m = None \<and> pending m \<noteq> {} then rolled m m' else stayed m m'"
proof -
  define step where "step = (if cur_rcid m = None then
          res_bind (ossl_pqueue_peek (rcids m)) (\<lambda>r.
            case r of Some p \<Rightarrow> rcidm_transition_rcid m p RCID_STATE_CUR | None \<Rightarrow> Inr m)
        else Inr m)"
  obtain m1 where m1: "step = Inr m1" "rcidm_inv m1" "moved m m1"
    "if cur_rcid m = None \<and> pending m \<noteq> {} then rolled m m1 else stayed m m1"
  proof (cases "cur_rcid m = None")
    case False
    with inv show ?thesis
      by (intro that [of m]) (simp_all only: step_def moved_refl simp_thms if_False stayed_def)
  next
    case True
    show ?thesis
    proof (cases rule: peek_cases [OF inv])
      case 1
      with True inv show ?thesis
        by (intro that [of m]) (simp_all add: step_def stayed_def)
    next
      case (2 i p)
      obtain m' where "rcidm_transition_rcid m p RCID_STATE_CUR = Inr m'" "rcidm_inv m'" "moved m m'" "cur_rcid m' = Some p"
        "pending m' = pending m - {p}" "retiring_list m' = retiring_list m @ (case cur_rcid m of None \<Rightarrow> [] | Some c \<Rightarrow> [c])"
        by (rule select_spec [OF inv 2(2)])
      with True 2 show ?thesis
        by (intro that [of m']) (auto simp: step_def rolled_def)
    qed
  qed
  define m2 where "m2 = (case cur_rcid m1 of
       Some c \<Rightarrow> rcidm_set_preferred_rcid m1 (Some (r_cid (r_objs m1 c)))
     | None \<Rightarrow>
         if added_retry_odcid m1 \<and> \<not> handshake_complete m1 then rcidm_set_preferred_rcid m1 (Some (retry_odcid m1))
         else if added_initial_odcid m1 \<and> \<not> handshake_complete m1 then rcidm_set_preferred_rcid m1 (Some (initial_odcid m1))
         else rcidm_set_preferred_rcid m1 None)"
  have same: "r_objs m2 = r_objs m1 \<and> rcids m2 = rcids m1 \<and> cur_rcid m2 = cur_rcid m1 \<and> retiring_list m2 = retiring_list m1
      \<and> num_retiring m2 = num_retiring m1 \<and> rm_retire_prior_to m2 = rm_retire_prior_to m1 \<and> num_changes m2 = num_changes m1
      \<and> handshake_complete m2 = handshake_complete m1"
    by (auto simp: m2_def split: option.splits)
  then have pend: "pending m2 = pending m1"
    by (simp add: pending_def)
  have "rcidm_inv m2" "live m2 = live m1"
    by (rule rcidm_inv_cong [OF m1(2)]; use same rcidm_invD(9) [OF m1(2)] in simp)+
  moreover have "preferred_ok m2"
    using same set_preferred_eq [OF live_valid_len [OF m1(2)]]
    by (auto simp: preferred_ok_def m2_def rcidm_set_preferred_rcid_def [of m1 None] split: option.splits)
  moreover have "rcidm_update m = Inr m2"
    using m1(1) by (simp add: rcidm_update_def step_def m2_def)
  moreover have "if cur_rcid m = None \<and> pending m \<noteq> {} then rolled m m2 else stayed m m2"
  proof -
    have "rolled m m2 = rolled m m1" "stayed m m2 = stayed m m1"
      using same pend by (simp_all add: rolled_def stayed_def)
    with m1(4) show ?thesis
      by (simp only:)
  qed
  ultimately show ?thesis
    using m1(3) same moved_fields [OF m1(3)] by (intro that [of m2]) (simp_all add: same_ids_def)
qed

lemma roll_spec:
  assumes inv: "rcidm_inv m" and hs: "handshake_complete m"
  obtains m' where "rcidm_roll m = Inr m'" "rcidm_inv m'" "same_ids m m'" "handshake_complete m'"
    "rm_retire_prior_to m' = rm_retire_prior_to m" "if pending m \<noteq> {} then rolled m m' else stayed m m'"
proof (cases rule: peek_cases [OF inv])
  case 1
  with assms show ?thesis
    by (intro that [of m]) (simp_all add: rcidm_roll_def stayed_def)
next
  case (2 i p)
  obtain m1 where m1: "rcidm_transition_rcid m p RCID_STATE_CUR = Inr m1" "rcidm_inv m1" "moved m m1" "cur_rcid m1 = Some p"
    "pending m1 = pending m - {p}" "retiring_list m1 = retiring_list m @ (case cur_rcid m of None \<Rightarrow> [] | Some c \<Rightarrow> [c])"
    by (rule select_spec [OF inv 2(2)])
  let ?m = "m1\<lparr>num_changes := num_changes m1 + 1, roll_requested := False,
    packets_sent := (if packets_sent m1 \<ge> PACKETS_PER_RCID then packets_sent m1 mod PACKETS_PER_RCID else 0)\<rparr>"
  note mv = moved_fields [OF m1(3)]
  have lv: "rcidm_inv ?m" "live ?m = live m1" "pending ?m = pending m1"
    using mv(5) hs rcidm_inv_cong [OF m1(2), of ?m] by (simp_all add: pending_def)
  have "rolled m ?m"
    unfolding rolled_def lv(3) using 2 m1(4-6) by auto
  moreover have "same_ids m ?m"
    using mv(1) lv(2) by (simp add: same_ids_def)
  ultimately show ?thesis
    using 2 m1(1) mv hs lv(1) by (intro that [of ?m]) (auto simp: rcidm_roll_def)
qed

text \<open>
  A tick rolls once at most: when it is due, or when nothing is current. After it, something is current if there is anything to use.
\<close>

lemma tick_spec:
  assumes inv: "rcidm_inv m"
  obtains m' where "rcidm_tick m = Inr m'" "rcidm_inv m'" "same_ids m m'" "preferred_ok m'"
    "handshake_complete m' = handshake_complete m" "rm_retire_prior_to m' = rm_retire_prior_to m"
    "if pending m \<noteq> {} \<and> (rcidm_should_roll m \<or> cur_rcid m = None) then rolled m m' else stayed m m'"
    "cur_rcid m' = None \<longrightarrow> pending m' = {}"
proof (cases "rcidm_should_roll m")
  case False
  obtain m' where "rcidm_update m = Inr m'" "rcidm_inv m'" "same_ids m m'" "preferred_ok m'"
    "handshake_complete m' = handshake_complete m" "rm_retire_prior_to m' = rm_retire_prior_to m"
    "if cur_rcid m = None \<and> pending m \<noteq> {} then rolled m m' else stayed m m'"
    by (rule update_spec [OF inv])
  with False show ?thesis
    by (intro that [of m']) (auto simp: rcidm_tick_def rolled_def stayed_def split: if_splits)
next
  case True
  then have hs: "handshake_complete m"
    by (simp add: rcidm_should_roll_def)
  obtain m1 where m1: "rcidm_roll m = Inr m1" "rcidm_inv m1" "same_ids m m1" "handshake_complete m1"
    "rm_retire_prior_to m1 = rm_retire_prior_to m" "if pending m \<noteq> {} then rolled m m1 else stayed m m1"
    by (rule roll_spec [OF inv hs])
  obtain m2 where m2: "rcidm_update m1 = Inr m2" "rcidm_inv m2" "same_ids m1 m2" "preferred_ok m2"
    "handshake_complete m2 = handshake_complete m1" "rm_retire_prior_to m2 = rm_retire_prior_to m1"
    "if cur_rcid m1 = None \<and> pending m1 \<noteq> {} then rolled m1 m2 else stayed m1 m2"
    by (rule update_spec [OF m1(2)])
  have st: "stayed m1 m2"
    using m1(6) m2(7) by (auto simp: rolled_def stayed_def split: if_splits)
  show ?thesis
  proof (rule that [of m2])
    show "rcidm_tick m = Inr m2"
      using True m1(1) m2(1) by (simp add: rcidm_tick_def)
    show "same_ids m m2"
      by (rule same_ids_trans [OF m1(3) m2(3)])
    show "if pending m \<noteq> {} \<and> (rcidm_should_roll m \<or> cur_rcid m = None) then rolled m m2 else stayed m m2"
      using True m1(6) st by (simp add: rolled_def stayed_def split: if_splits)
    show "cur_rcid m2 = None \<longrightarrow> pending m2 = {}"
      using m1(6) st by (auto simp: rolled_def stayed_def split: if_splits)
  qed (use m1 m2 hs in simp_all)
qed

text \<open>\<open>keeps\<close>: the objects that are live stay what they are.\<close>

definition keeps :: "quic_rcidm \<Rightarrow> quic_rcidm \<Rightarrow> bool" where
  "keeps m m' \<longleftrightarrow> (\<forall>a \<in> live m. r_objs m' a = r_objs m a)"

lemma pq_ok_other_objs:
  assumes "pq_ok (rcid_ptr_cmp objs) pq" and "\<forall>a \<in> ran (pq_view pq). objs' a = objs a"
  shows "pq_ok (rcid_ptr_cmp objs') pq"
proof -
  have room: "pq_room pq" and heap: "heap_on (rcid_ptr_cmp objs) (key pq) (h_num pq)"
    using assms(1) by (auto simp: pq_ok_def)
  have "key pq i \<in> ran (pq_view pq)" if "i < h_num pq" for i
    using view_used [of pq i] room that by (auto simp: pq_room_def intro: ranI)
  then have same: "objs' (key pq i) = objs (key pq i)" if "i < h_num pq" for i
    using assms(2) that by blast
  have "heap_on (rcid_ptr_cmp objs') (key pq) (h_num pq)"
    unfolding heap_on_def
  proof (intro allI impI)
    fix i assume i: "0 < i \<and> i < h_num pq"
    then have "parent i < h_num pq"
      using parent_less [of i] by linarith
    with i same heap show "rcid_ptr_cmp objs' (key pq (parent i)) (key pq i) \<le> 0"
      by (simp add: heap_on_def rcid_ptr_cmp_def)
  qed
  with room show ?thesis
    by (simp add: pq_ok_def)
qed

lemma queue_size: "rcidm_inv m \<Longrightarrow> h_num (rcids m) < 2 ^ 60"
  using pq_ok_bounds [OF rcidm_invD(1)] by fastforce

text \<open>Storing something at an address that is not in use.\<close>

lemma write_fresh:
  assumes inv: "rcidm_inv m" and new: "p \<notin> live m"
  shows "rcidm_inv (m\<lparr>r_objs := (r_objs m)(p := r)\<rparr>)"
proof -
  note I = rcidm_invD [OF inv]
  let ?m = "m\<lparr>r_objs := (r_objs m)(p := r)\<rparr>"
  have "live ?m = live m"
    by (simp add: live_def pending_def)
  moreover have ps: "p \<notin> ran (pq_view (rcids m))" "cur_rcid m \<noteq> Some p" "p \<notin> set (retiring_list m)"
    using new by (auto simp: live_def pending_def)
  moreover have "pq_ok (rcid_ptr_cmp (r_objs ?m)) (rcids m)"
    by (rule pq_ok_other_objs [OF I(1)]) (use ps(1) in auto)
  moreover have "pq_view (rcids m) i \<noteq> Some p" for i
    using ps(1) by (auto simp: ran_def)
  ultimately show ?thesis
    unfolding rcidm_inv_def using I new by auto
qed

text \<open>The same manager with a queue that holds the same.\<close>

lemma same_view_inv:
  assumes inv: "rcidm_inv m" and pq: "pq_ok (rcid_ptr_cmp (r_objs m)) pq" "pq_view pq = pq_view (rcids m)" "htop pq = htop (rcids m)"
  shows "rcidm_inv (m\<lparr>rcids := pq\<rparr>)" and "live (m\<lparr>rcids := pq\<rparr>) = live m"
proof -
  show lv: "live (m\<lparr>rcids := pq\<rparr>) = live m"
    using pq(2) by (simp add: live_def pending_def)
  show "rcidm_inv (m\<lparr>rcids := pq\<rparr>)"
    using rcidm_invD [OF inv] pq unfolding rcidm_inv_def lv by simp
qed

lemma create_room:
  assumes inv: "rcidm_inv m" and room: "unat (ossl_pqueue_num (rcids m) + num_retiring m) < 2 ^ 63"
  shows "h_num (rcids m) + length (retiring_list m) < 2 ^ 63"
proof -
  note I = rcidm_invD [OF inv]
  have "h_num (rcids m) + unat (num_retiring m) < 2 ^ 64"
    using queue_size [OF inv] I(7,8) by (simp split: if_splits)
  then show ?thesis
    using room I(7) by (simp add: ossl_pqueue_num_def unat_add_no_overflow)
qed

lemma create_pending:
  assumes inv: "rcidm_inv m" and new: "p \<notin> live m" and valid: "rcid_valid r" "r_state r = RCID_STATE_PENDING"
    and seq: "rm_retire_prior_to m \<le> r_seq_num r" and room: "unat (ossl_pqueue_num (rcids m) + num_retiring m) < 2 ^ 63"
    and pq: "pq_ok (rcid_ptr_cmp ((r_objs m)(p := r))) pq" "pq_view (rcids m) i = None" "pq_view pq = (pq_view (rcids m))(i \<mapsto> p)"
      "h_num pq = h_num (rcids m) + 1"
  defines "m' \<equiv> m\<lparr>rcids := pq, r_objs := (r_objs m)(p := r\<lparr>r_pq_idx := i\<rparr>)\<rparr>"
  shows "rcidm_inv m'" and "pending m' = insert p (pending m)"
proof -
  note I = rcidm_invD [OF inv]
  show pend: "pending m' = insert p (pending m)"
    using pq(2,3) by (simp add: pending_def m'_def ran_map_upd)
  have ps: "pq_view (rcids m) j \<noteq> Some p" "cur_rcid m \<noteq> Some p" "p \<notin> set (retiring_list m)" for j
    using new by (auto simp: live_def pending_def ran_def)
  have num: "h_num (rcids m) + length (retiring_list m) < 2 ^ 63"
    by (rule create_room [OF inv room])
  have cmp: "rcid_ptr_cmp (r_objs m') = rcid_ptr_cmp ((r_objs m)(p := r))"
    by (rule ptr_cmp_cong) (simp add: m'_def)
  have "live m' = insert p (live m)"
    using pend by (simp add: live_def m'_def)
  then show "rcidm_inv m'"
    unfolding rcidm_inv_def cmp using I pq valid seq ps num by (auto simp: m'_def rcid_valid_def)
qed

lemma create_retiring:
  assumes inv: "rcidm_inv m" and new: "p \<notin> live m" and valid: "rcid_valid r" "r_state r = RCID_STATE_RETIRING" "r_pq_idx r = SIZE_MAX"
    and room: "unat (ossl_pqueue_num (rcids m) + num_retiring m) < 2 ^ 63"
  defines "m' \<equiv> m\<lparr>r_objs := (r_objs m)(p := r), retiring_list := retiring_list m @ [p], num_retiring := num_retiring m + 1\<rparr>"
  shows "rcidm_inv m'" and "live m' = insert p (live m)"
proof -
  note I = rcidm_invD [OF inv]
  note F = rcidm_invD [OF write_fresh [OF inv new, of r]]
  show lv: "live m' = insert p (live m)"
    by (auto simp: live_def pending_def m'_def)
  have ps: "pq_view (rcids m) j \<noteq> Some p" "cur_rcid m \<noteq> Some p" "p \<notin> set (retiring_list m)" for j
    using new by (auto simp: live_def pending_def ran_def)
  have num: "h_num (rcids m) + length (retiring_list m) < 2 ^ 63"
    by (rule create_room [OF inv room])
  have len: "unat (num_retiring m + 1) = length (retiring_list m) + 1"
    by (rule num_retiring_succ [OF I(7)]) (use num in simp)
  have ok: "pq_ok (rcid_ptr_cmp ((r_objs m)(p := r))) (rcids m)"
    using F(1) by simp
  show "rcidm_inv m'"
    unfolding rcidm_inv_def lv using I valid ps num len ok by (auto simp: m'_def)
qed

lemma create_spec:
  assumes inv: "rcidm_inv m" and new: "\<forall>p. al_addr al = Some p \<longrightarrow> p \<notin> live m" and ty: "ty = RCID_TYPE_INITIAL \<longrightarrow> seq = 0"
  obtains m' r where "rcidm_create_rcid al m seq c ty = Inr (m', r)" "rcidm_inv m'" "keeps m m'"
    "case r of None \<Rightarrow> live m' = live m \<and> pending m' = pending m
     | Some p \<Rightarrow> p \<notin> live m \<and> live m' = insert p (live m) \<and> r_seq_num (r_objs m' p) = seq \<and> r_cid (r_objs m' p) = c
         \<and> unat (id_len c) \<in> {1..QUIC_MAX_CONN_ID_LEN}
         \<and> (if rm_retire_prior_to m \<le> seq then pending m' = insert p (pending m) \<and> retiring_list m' = retiring_list m
            else pending m' = pending m \<and> retiring_list m' = retiring_list m @ [p])"
    "m' = m\<lparr>r_objs := r_objs m', rcids := rcids m', retiring_list := retiring_list m', num_retiring := num_retiring m'\<rparr>"
proof (cases "unat (id_len c) < 1 \<or> unat (id_len c) > QUIC_MAX_CONN_ID_LEN \<or> seq > OSSL_QUIC_VLINT_MAX
         \<or> ossl_pqueue_num (rcids m) + num_retiring m > MAX_NUMBERED_RCIDS \<or> al_addr al = None")
  case True
  then have "rcidm_create_rcid al m seq c ty = Inr (m, None)"
    by (auto simp: rcidm_create_rcid_def)
  with inv show ?thesis
    by (intro that [of m None]) (simp_all add: keeps_def)
next
  case False
  then obtain p where p: "al_addr al = Some p" "p \<notin> live m"
    using new by auto
  have room: "unat (ossl_pqueue_num (rcids m) + num_retiring m) < 2 ^ 63"
    using False by (simp add: MAX_NUMBERED_RCIDS_def SIZE_MAX_def not_less word_le_nat_alt)
  define R where "R = \<lparr>r_cid = c, r_seq_num = seq, r_pq_idx = 0, r_state = RCID_STATE_PENDING, r_type = ty\<rparr>"
  have valid: "rcid_valid R"
    using False ty by (auto simp: rcid_valid_def R_def)
  show ?thesis
  proof (cases "rm_retire_prior_to m \<le> seq")
    case retire: False
    let ?R = "R\<lparr>r_state := RCID_STATE_RETIRING, r_pq_idx := SIZE_MAX\<rparr>"
    have "rcid_valid ?R"
      using valid by (simp add: rcid_valid_def)
    note cr = create_retiring [OF inv p(2) this _ _ room]
    show ?thesis
      by (rule that [of "m\<lparr>r_objs := (r_objs m)(p := ?R), retiring_list := retiring_list m @ [p], num_retiring := num_retiring m + 1\<rparr>"
            "Some p"])
        (use False retire p cr in \<open>simp_all add: rcidm_create_rcid_def R_def keeps_def pending_def\<close>)
  next
    case True
    let ?m1 = "m\<lparr>r_objs := (r_objs m)(p := R)\<rparr>"
    note w = write_fresh [OF inv p(2), of R]
    have ok1: "pq_ok (rcid_ptr_cmp ((r_objs m)(p := R))) (rcids m)"
      using rcidm_invD(1) [OF w] by simp
    obtain pq r where pq: "ossl_pqueue_push (al_mem al) (al_junk al) (rcid_ptr_cmp ((r_objs m)(p := R))) (rcids m) p = Inr (pq, r)"
      "pq_ok (rcid_ptr_cmp ((r_objs m)(p := R))) pq"
      "case r of None \<Rightarrow> pq_view pq = pq_view (rcids m) \<and> htop pq = htop (rcids m)
       | Some i \<Rightarrow> pq_view (rcids m) i = None \<and> pq_view pq = (pq_view (rcids m))(i \<mapsto> p) \<and> h_num pq = h_num (rcids m) + 1"
      by (rule rq.push_spec [OF ok1])
    have step: "rcidm_create_rcid al m seq c ty = (case r of None \<Rightarrow> Inr (?m1\<lparr>rcids := pq\<rparr>, None)
      | Some i \<Rightarrow> Inr (m\<lparr>rcids := pq, r_objs := (r_objs m)(p := R\<lparr>r_pq_idx := i\<rparr>)\<rparr>, Some p))"
      using False True p(1) pq(1) by (auto simp: rcidm_create_rcid_def R_def Let_def split: option.splits)
    show ?thesis
    proof (cases r)
      case None
      then have "rcidm_inv (?m1\<lparr>rcids := pq\<rparr>)"
        using same_view_inv(1) [OF w, of pq] pq(2,3) by simp
      with None p(2) pq(3) show ?thesis
        by (intro that [OF step [unfolded None option.case]]) (auto simp: keeps_def live_def pending_def)
    next
      case (Some i)
      have "rm_retire_prior_to m \<le> r_seq_num R" "r_state R = RCID_STATE_PENDING"
        using True by (simp_all add: R_def)
      note cp = create_pending [OF inv p(2) valid this(2,1) room pq(2), of i]
      let ?m2 = "m\<lparr>rcids := pq, r_objs := (r_objs m)(p := R\<lparr>r_pq_idx := i\<rparr>)\<rparr>"
      have c2: "rcidm_inv ?m2" "pending ?m2 = insert p (pending m)"
        using cp pq(3) Some by simp_all
      then have "live ?m2 = insert p (live m)"
        by (simp add: live_def)
      with Some p(2) c2 False True show ?thesis
        by (intro that [OF step [unfolded Some option.case]]) (simp_all add: keeps_def R_def)
    qed
  qed
qed

text \<open>The sequence numbers of the objects the manager has.\<close>

definition rcid_ids :: "quic_rcidm \<Rightarrow> u64 multiset" where
  "rcid_ids m = image_mset (\<lambda>p. r_seq_num (r_objs m p)) (mset_set (live m))"

definition rcidm_ok :: "quic_rcidm \<Rightarrow> bool" where
  "rcidm_ok m \<longleftrightarrow> rcidm_inv m \<and> preferred_ok m \<and> (cur_rcid m = None \<longrightarrow> pending m = {})"

definition al_fresh :: "rcid_alloc \<Rightarrow> quic_rcidm \<Rightarrow> bool" where
  "al_fresh al m \<longleftrightarrow> (\<forall>p. al_addr al = Some p \<longrightarrow> p \<notin> live m)"

lemma finite_live [simp]: "finite (live m)"
proof -
  have "finite (dom (pq_view (rcids m)))" "pending m = the ` pq_view (rcids m) ` dom (pq_view (rcids m))"
    by (simp, force simp: pending_def ran_def)
  then show ?thesis
    by (cases "cur_rcid m") (simp_all add: live_def)
qed

lemma ids_same: "same_ids m m' \<Longrightarrow> rcid_ids m' = rcid_ids m"
  by (simp add: rcid_ids_def same_ids_def)

lemma ids_add:
  assumes "p \<notin> live m" and "live m' = insert p (live m)" and "keeps m m'"
  shows "rcid_ids m' = add_mset (r_seq_num (r_objs m' p)) (rcid_ids m)"
  using assms by (auto simp: rcid_ids_def keeps_def intro!: image_mset_cong)

lemma ids_keep: "live m' = live m \<Longrightarrow> keeps m m' \<Longrightarrow> rcid_ids m' = rcid_ids m"
  by (auto simp: rcid_ids_def keeps_def intro!: image_mset_cong)

lemma tick_ok:
  assumes "rcidm_inv m0" and "r_objs m = r_objs m0" "rcids m = rcids m0" "cur_rcid m = cur_rcid m0"
    "retiring_list m = retiring_list m0" "num_retiring m = num_retiring m0" "rm_retire_prior_to m = rm_retire_prior_to m0"
    "num_changes m = 0 \<or> handshake_complete m"
  obtains m' where "rcidm_tick m = Inr m'" "rcidm_ok m'" "rcid_ids m' = rcid_ids m0" "rm_retire_prior_to m' = rm_retire_prior_to m0"
proof -
  note inv = rcidm_inv_cong [OF assms]
  have ids: "rcid_ids m = rcid_ids m0"
    using inv(2) assms(2) by (simp add: rcid_ids_def)
  obtain m' where "rcidm_tick m = Inr m'" "rcidm_inv m'" "same_ids m m'" "preferred_ok m'"
    "handshake_complete m' = handshake_complete m" "rm_retire_prior_to m' = rm_retire_prior_to m"
    "if pending m \<noteq> {} \<and> (rcidm_should_roll m \<or> cur_rcid m = None) then rolled m m' else stayed m m'"
    "cur_rcid m' = None \<longrightarrow> pending m' = {}"
    by (rule tick_spec [OF inv(1)])
  with ids assms(7) show ?thesis
    by (intro that [of m']) (simp_all add: rcidm_ok_def ids_same)
qed

text \<open>The operations, on a manager that is in order.\<close>

lemma new_ok:
  "(\<exists>m. ossl_quic_rcidm_new mem pm junk objs odcid = Inr (Some m) \<and> rcidm_ok m \<and> rcid_ids m = {#})
   \<or> ossl_quic_rcidm_new mem pm junk objs odcid = Inr None \<and> \<not> (mem \<and> pm = (True, True, True))"
proof (cases "mem \<and> (\<exists>pq. ossl_pqueue_new pm junk = Inr (Some pq))")
  case False
  then show ?thesis
    using pq_new_spec [of "fst pm" "fst (snd pm)" "snd (snd pm)" junk "rcid_ptr_cmp objs"]
    by (cases pm) (auto simp: ossl_quic_rcidm_new_def)
next
  case True
  then obtain pq where pq: "ossl_pqueue_new pm junk = Inr (Some pq)" "pq_ok (rcid_ptr_cmp objs) pq" "pq_view pq = Map.empty"
    "htop pq = 0"
    using pq_new_spec [of "fst pm" "fst (snd pm)" "snd (snd pm)" junk "rcid_ptr_cmp objs"] by auto
  define m0 where "m0 = \<lparr>r_objs = objs, preferred_rcid = zero_id, initial_odcid = zero_id, retry_odcid = zero_id, packets_sent = 0,
                     num_changes = 0, rm_retire_prior_to = 0, rcids = pq, cur_rcid = None, retiring_list = [], num_retiring = 0,
                     preferred_rcid_changed = False, have_preferred_rcid = False, handshake_complete = False,
                     added_initial_odcid = False, added_retry_odcid = False, added_initial_rcid = False, roll_requested = False\<rparr>"
  define m where "m = (case odcid of Some c \<Rightarrow> m0\<lparr>initial_odcid := c, added_initial_odcid := True\<rparr> | None \<Rightarrow> m0)"
  have fields: "r_objs m = objs \<and> rcids m = pq \<and> cur_rcid m = None \<and> retiring_list m = [] \<and> num_retiring m = 0 \<and> num_changes m = 0"
    by (simp add: m_def m0_def split: option.splits)
  then have lv: "live m = {}" "pending m = {}"
    using pq(3) by (simp_all add: live_def pending_def)
  have "rcidm_inv m"
    unfolding rcidm_inv_def lv using fields pq by simp
  then obtain m' where m': "rcidm_update m = Inr m'" "rcidm_inv m'" "same_ids m m'" "preferred_ok m'"
    "handshake_complete m' = handshake_complete m" "rm_retire_prior_to m' = rm_retire_prior_to m"
    "if cur_rcid m = None \<and> pending m \<noteq> {} then rolled m m' else stayed m m'"
    by (rule update_spec)
  have "ossl_quic_rcidm_new mem pm junk objs odcid = Inr (Some m')"
    using True pq(1) m'(1) by (simp add: ossl_quic_rcidm_new_def m0_def [symmetric] m_def [symmetric])
  moreover have "rcidm_ok m'" "rcid_ids m' = {#}"
    using m' lv by (simp_all add: rcidm_ok_def stayed_def rcid_ids_def same_ids_def)
  ultimately show ?thesis
    by blast
qed

text \<open>An object that could not be made leaves all as it was.\<close>

lemma create_failed:
  assumes "rcidm_ok m" and "rcidm_inv m'" and "keeps m m'" "live m' = live m" "pending m' = pending m"
    and "m' = m\<lparr>r_objs := r_objs m', rcids := rcids m', retiring_list := retiring_list m', num_retiring := num_retiring m'\<rparr>"
  shows "rcidm_ok m'" and "rcid_ids m' = rcid_ids m" and "rm_retire_prior_to m' = rm_retire_prior_to m"
proof -
  have f: "cur_rcid m' = cur_rcid m" "have_preferred_rcid m' = have_preferred_rcid m" "preferred_rcid m' = preferred_rcid m"
    "handshake_complete m' = handshake_complete m" "rm_retire_prior_to m' = rm_retire_prior_to m"
    by (subst assms(6), simp)+
  show "rm_retire_prior_to m' = rm_retire_prior_to m"
    by (rule f(5))
  show "rcid_ids m' = rcid_ids m"
    by (rule ids_keep [OF assms(4,3)])
  have "r_objs m' c = r_objs m c" if "cur_rcid m = Some c" for c
    using assms(3) that by (simp add: keeps_def live_def)
  then show "rcidm_ok m'"
    using assms(1,2,5) by (auto simp: rcidm_ok_def preferred_ok_def f split: option.splits)
qed

lemma ncid_ok:
  assumes ok: "rcidm_ok m" and new: "al_fresh al m"
  obtains m' b where "ossl_quic_rcidm_add_from_ncid al m ncid = Inr (m', b)" "rcidm_ok m'"
    "rcid_ids m' = (if b then add_mset (seq_num ncid) (rcid_ids m) else rcid_ids m)"
    "rm_retire_prior_to m' = (if b then max (rm_retire_prior_to m) (retire_prior_to ncid) else rm_retire_prior_to m)"
proof -
  have inv: "rcidm_inv m"
    using ok by (simp add: rcidm_ok_def)
  obtain m1 r where m1: "rcidm_create_rcid al m (seq_num ncid) (conn_id ncid) RCID_TYPE_NCID = Inr (m1, r)" "rcidm_inv m1" "keeps m m1"
    "case r of None \<Rightarrow> live m1 = live m \<and> pending m1 = pending m
     | Some p \<Rightarrow> p \<notin> live m \<and> live m1 = insert p (live m) \<and> r_seq_num (r_objs m1 p) = seq_num ncid \<and> r_cid (r_objs m1 p) = conn_id ncid
         \<and> unat (id_len (conn_id ncid)) \<in> {1..QUIC_MAX_CONN_ID_LEN}
         \<and> (if rm_retire_prior_to m \<le> seq_num ncid then pending m1 = insert p (pending m) \<and> retiring_list m1 = retiring_list m
            else pending m1 = pending m \<and> retiring_list m1 = retiring_list m @ [p])"
    "m1 = m\<lparr>r_objs := r_objs m1, rcids := rcids m1, retiring_list := retiring_list m1, num_retiring := num_retiring m1\<rparr>"
    by (rule create_spec [OF inv, of al RCID_TYPE_NCID "seq_num ncid" "conn_id ncid"]) (use new in \<open>auto simp: al_fresh_def\<close>)
  show ?thesis
  proof (cases r)
    case None
    have "rcidm_ok m1" "rcid_ids m1 = rcid_ids m" "rm_retire_prior_to m1 = rm_retire_prior_to m"
      using create_failed [OF ok m1(2,3) _ _ m1(5)] m1(4) None by simp_all
    with None m1(1) show ?thesis
      by (intro that [of m1 False]) (simp_all add: ossl_quic_rcidm_add_from_ncid_def)
  next
    case (Some p)
    have ids: "rcid_ids m1 = add_mset (seq_num ncid) (rcid_ids m)"
      using ids_add [OF _ _ m1(3), of p] m1(4) Some by simp
    have wm: "rm_retire_prior_to m1 = rm_retire_prior_to m"
      by (subst m1(5)) simp
    obtain m2 where m2: "rcidm_handle_retire_prior_to m1 (retire_prior_to ncid) = Inr m2" "rcidm_inv m2" "same_ids m1 m2"
      "rm_retire_prior_to m2 = max (rm_retire_prior_to m1) (retire_prior_to ncid)" "handshake_complete m2 = handshake_complete m1"
      by (rule handle_retire_spec [OF m1(2)])
    obtain m3 where "rcidm_tick m2 = Inr m3" "rcidm_ok m3" "rcid_ids m3 = rcid_ids m2" "rm_retire_prior_to m3 = rm_retire_prior_to m2"
      by (rule tick_ok [OF m2(2) refl refl refl refl refl refl rcidm_invD(9) [OF m2(2)]])
    with Some m1(1) m2(1,4) ids wm ids_same [OF m2(3)] show ?thesis
      by (intro that [of m3 True]) (simp_all add: ossl_quic_rcidm_add_from_ncid_def)
  qed
qed

lemma initial_ok:
  assumes ok: "rcidm_ok m" and new: "al_fresh al m"
  obtains m' b where "ossl_quic_rcidm_add_from_initial al m c = Inr (m', b)" "rcidm_ok m'"
    "rcid_ids m' = (if b then add_mset 0 (rcid_ids m) else rcid_ids m)"
    "rm_retire_prior_to m' = rm_retire_prior_to m"
proof (cases "added_initial_rcid m \<or> handshake_complete m")
  case True
  with ok show ?thesis
    by (intro that [of m False]) (simp_all add: ossl_quic_rcidm_add_from_initial_def)
next
  case False
  have inv: "rcidm_inv m"
    using ok by (simp add: rcidm_ok_def)
  obtain m1 r where m1: "rcidm_create_rcid al m 0 c RCID_TYPE_INITIAL = Inr (m1, r)" "rcidm_inv m1" "keeps m m1"
    "case r of None \<Rightarrow> live m1 = live m \<and> pending m1 = pending m
     | Some p \<Rightarrow> p \<notin> live m \<and> live m1 = insert p (live m) \<and> r_seq_num (r_objs m1 p) = 0 \<and> r_cid (r_objs m1 p) = c
         \<and> unat (id_len c) \<in> {1..QUIC_MAX_CONN_ID_LEN}
         \<and> (if rm_retire_prior_to m \<le> 0 then pending m1 = insert p (pending m) \<and> retiring_list m1 = retiring_list m
            else pending m1 = pending m \<and> retiring_list m1 = retiring_list m @ [p])"
    "m1 = m\<lparr>r_objs := r_objs m1, rcids := rcids m1, retiring_list := retiring_list m1, num_retiring := num_retiring m1\<rparr>"
    by (rule create_spec [OF inv, of al RCID_TYPE_INITIAL 0 c]) (use new in \<open>auto simp: al_fresh_def\<close>)
  show ?thesis
  proof (cases r)
    case None
    have "rcidm_ok m1" "rcid_ids m1 = rcid_ids m" "rm_retire_prior_to m1 = rm_retire_prior_to m"
      using create_failed [OF ok m1(2,3) _ _ m1(5)] m1(4) None by simp_all
    with False None m1(1) show ?thesis
      by (intro that [of m1 False]) (simp_all add: ossl_quic_rcidm_add_from_initial_def INITIAL_SEQ_NUM_def)
  next
    case (Some p)
    have ids: "rcid_ids m1 = add_mset 0 (rcid_ids m)"
      using ids_add [OF _ _ m1(3), of p] m1(4) Some by simp
    have wm: "rm_retire_prior_to m1 = rm_retire_prior_to m"
      by (subst m1(5)) simp
    obtain m3 where "rcidm_tick (m1\<lparr>added_initial_rcid := True\<rparr>) = Inr m3" "rcidm_ok m3" "rcid_ids m3 = rcid_ids m1"
      "rm_retire_prior_to m3 = rm_retire_prior_to m1"
      by (rule tick_ok [OF m1(2), of "m1\<lparr>added_initial_rcid := True\<rparr>"]) (use rcidm_invD(9) [OF m1(2)] in simp_all)
    with False Some m1(1) ids wm show ?thesis
      by (intro that [of m3 True]) (simp_all add: ossl_quic_rcidm_add_from_initial_def INITIAL_SEQ_NUM_def)
  qed
qed

lemma retry_ok:
  assumes ok: "rcidm_ok m"
  obtains m' b where "ossl_quic_rcidm_add_from_server_retry m c = Inr (m', b)" "rcidm_ok m'" "rcid_ids m' = rcid_ids m"
    "rm_retire_prior_to m' = rm_retire_prior_to m"
proof (cases "added_retry_odcid m \<or> handshake_complete m")
  case True
  with ok show ?thesis
    by (intro that [of m False]) (simp_all add: ossl_quic_rcidm_add_from_server_retry_def)
next
  case False
  have inv: "rcidm_inv m"
    using ok by (simp add: rcidm_ok_def)
  obtain m' where "rcidm_tick (m\<lparr>retry_odcid := c, added_retry_odcid := True\<rparr>) = Inr m'" "rcidm_ok m'" "rcid_ids m' = rcid_ids m"
    "rm_retire_prior_to m' = rm_retire_prior_to m"
    by (rule tick_ok [OF inv, of "m\<lparr>retry_odcid := c, added_retry_odcid := True\<rparr>"]) (use rcidm_invD(9) [OF inv] in simp_all)
  with False show ?thesis
    by (intro that [of m' True]) (simp_all add: ossl_quic_rcidm_add_from_server_retry_def)
qed

lemma event_ok:
  assumes ok: "rcidm_ok m"
  shows "\<exists>m'. ossl_quic_rcidm_on_handshake_complete m = Inr m' \<and> rcidm_ok m' \<and> rcid_ids m' = rcid_ids m
      \<and> rm_retire_prior_to m' = rm_retire_prior_to m"
    and "\<exists>m'. ossl_quic_rcidm_on_packet_sent m n = Inr m' \<and> rcidm_ok m' \<and> rcid_ids m' = rcid_ids m
      \<and> rm_retire_prior_to m' = rm_retire_prior_to m"
    and "\<exists>m'. ossl_quic_rcidm_request_roll m = Inr m' \<and> rcidm_ok m' \<and> rcid_ids m' = rcid_ids m
      \<and> rm_retire_prior_to m' = rm_retire_prior_to m"
proof -
  have inv: "rcidm_inv m"
    using ok by (simp add: rcidm_ok_def)
  note t = tick_ok [OF inv]
  have "\<exists>m'. rcidm_tick (m\<lparr>handshake_complete := True\<rparr>) = Inr m' \<and> rcidm_ok m' \<and> rcid_ids m' = rcid_ids m
      \<and> rm_retire_prior_to m' = rm_retire_prior_to m"
    by (rule t [of "m\<lparr>handshake_complete := True\<rparr>"]) simp_all
  with ok show "\<exists>m'. ossl_quic_rcidm_on_handshake_complete m = Inr m' \<and> rcidm_ok m' \<and> rcid_ids m' = rcid_ids m
      \<and> rm_retire_prior_to m' = rm_retire_prior_to m"
    by (auto simp: ossl_quic_rcidm_on_handshake_complete_def)
  have "\<exists>m'. rcidm_tick (m\<lparr>packets_sent := packets_sent m + n\<rparr>) = Inr m' \<and> rcidm_ok m' \<and> rcid_ids m' = rcid_ids m
      \<and> rm_retire_prior_to m' = rm_retire_prior_to m"
    by (rule t [of "m\<lparr>packets_sent := packets_sent m + n\<rparr>"]) (use rcidm_invD(9) [OF inv] in simp_all)
  with ok show "\<exists>m'. ossl_quic_rcidm_on_packet_sent m n = Inr m' \<and> rcidm_ok m' \<and> rcid_ids m' = rcid_ids m
      \<and> rm_retire_prior_to m' = rm_retire_prior_to m"
    by (auto simp: ossl_quic_rcidm_on_packet_sent_def)
  have "\<exists>m'. rcidm_tick (m\<lparr>roll_requested := True\<rparr>) = Inr m' \<and> rcidm_ok m' \<and> rcid_ids m' = rcid_ids m
      \<and> rm_retire_prior_to m' = rm_retire_prior_to m"
    by (rule t [of "m\<lparr>roll_requested := True\<rparr>"]) (use rcidm_invD(9) [OF inv] in simp_all)
  then show "\<exists>m'. ossl_quic_rcidm_request_roll m = Inr m' \<and> rcidm_ok m' \<and> rcid_ids m' = rcid_ids m
      \<and> rm_retire_prior_to m' = rm_retire_prior_to m"
    by (simp add: ossl_quic_rcidm_request_roll_def)
qed

text \<open>No object is in two places.\<close>

lemma places_disjoint:
  assumes inv: "rcidm_inv m"
  shows "pending m \<inter> set (retiring_list m) = {}" and "cur_rcid m = Some c \<Longrightarrow> c \<notin> pending m \<and> c \<notin> set (retiring_list m)"
    and "card (pending m) = h_num (rcids m)"
proof -
  note I = rcidm_invD [OF inv]
  have pend: "r_state (r_objs m p) = RCID_STATE_PENDING" if "p \<in> pending m" for p
    using that I(2) by (auto simp: pending_def ran_def)
  show "pending m \<inter> set (retiring_list m) = {}" "cur_rcid m = Some c \<Longrightarrow> c \<notin> pending m \<and> c \<notin> set (retiring_list m)"
    using pend I(3,4) by fastforce+
  have "inj_on (the \<circ> pq_view (rcids m)) (dom (pq_view (rcids m)))"
  proof (rule inj_onI)
    fix i j assume d: "i \<in> dom (pq_view (rcids m))" "j \<in> dom (pq_view (rcids m))"
      and e: "(the \<circ> pq_view (rcids m)) i = (the \<circ> pq_view (rcids m)) j"
    then obtain p where "pq_view (rcids m) i = Some p" "pq_view (rcids m) j = Some p"
      by auto
    then show "i = j"
      using I(2) by metis
  qed
  moreover have "pending m = (the \<circ> pq_view (rcids m)) ` dom (pq_view (rcids m))"
    by (force simp: pending_def ran_def)
  ultimately have "card (pending m) = card (dom (pq_view (rcids m)))"
    by (metis card_image)
  then show "card (pending m) = h_num (rcids m)"
    using view_dom(2) [of "rcids m"] I(1) by (simp add: pq_ok_def pq_room_def)
qed

lemma live_mset:
  assumes inv: "rcidm_inv m"
  shows "mset_set (live m) = mset_set (pending m) + mset (retiring_list m) + (case cur_rcid m of None \<Rightarrow> {#} | Some c \<Rightarrow> {#c#})"
proof -
  note D = places_disjoint [OF inv]
  have fin: "finite (pending m)"
    using finite_live [of m] by (simp add: live_def)
  have base: "mset_set (pending m \<union> set (retiring_list m)) = mset_set (pending m) + mset (retiring_list m)"
    using D(1) fin rcidm_invD(5) [OF inv] by (simp add: mset_set_Union mset_set_set)
  show ?thesis
  proof (cases "cur_rcid m")
    case None
    then show ?thesis
      using base by (simp add: live_def)
  next
    case (Some c)
    then have "live m = insert c (pending m \<union> set (retiring_list m))"
      by (auto simp: live_def)
    then show ?thesis
      using Some D(2) [OF Some] fin base by simp
  qed
qed

lemma ids_size:
  assumes inv: "rcidm_inv m"
  shows "unat (ossl_quic_rcidm_get_num_active m) = size (rcid_ids m)"
proof -
  note I = rcidm_invD [OF inv]
  have "size (rcid_ids m) = h_num (rcids m) + length (retiring_list m) + (if cur_rcid m = None then 0 else 1)"
    using live_mset [OF inv] places_disjoint(3) [OF inv] by (simp add: rcid_ids_def split: option.splits)
  moreover have "unat (htop (rcids m) + (if cur_rcid m \<noteq> None then 1 else 0) + num_retiring m)
      = h_num (rcids m) + (if cur_rcid m = None then 0 else 1) + length (retiring_list m)"
    using I(7,8) queue_size [OF inv] by (simp add: unat_add_no_overflow split: if_splits)
  ultimately show ?thesis
    by (simp add: ossl_quic_rcidm_get_num_active_def ossl_quic_rcidm_get_num_retiring_def ossl_pqueue_num_def)
qed

lemma pop_ok:
  assumes ok: "rcidm_ok m"
  obtains m' r where "ossl_quic_rcidm_pop_retire_seq_num m = Inr (m', r)" "rcidm_ok m'"
    "rcid_ids m = (case r of None \<Rightarrow> {#} | Some n \<Rightarrow> {#n#}) + rcid_ids m'" "rm_retire_prior_to m' = rm_retire_prior_to m"
    "r = (case retiring_list m of [] \<Rightarrow> None | p # ps \<Rightarrow> Some (r_seq_num (r_objs m p)))"
proof (cases "retiring_list m")
  case Nil
  with ok show ?thesis
    by (intro that [of m None]) (simp_all add: ossl_quic_rcidm_pop_retire_seq_num_def rcidm_get_retire_def)
next
  case (Cons p ps)
  have inv: "rcidm_inv m"
    using ok by (simp add: rcidm_ok_def)
  note I = rcidm_invD [OF inv]
  define m' where "m' = m\<lparr>retiring_list := ps, num_retiring := num_retiring m - 1\<rparr>"
  have res: "ossl_quic_rcidm_pop_retire_seq_num m = Inr (m', Some (r_seq_num (r_objs m p)))"
    using Cons I(4) [of p] by (simp add: ossl_quic_rcidm_pop_retire_seq_num_def rcidm_get_retire_def rcidm_free_rcid_def m'_def)
  have num: "unat (num_retiring m - 1) = length ps"
    using I(7) Cons by (simp add: unat_minus_one unat_gt_0 [symmetric])
  have pend: "pending m' = pending m"
    by (simp add: pending_def m'_def)
  have lv: "live m = insert p (live m')"
    using Cons by (auto simp: live_def pending_def m'_def)
  have inv': "rcidm_inv m'"
    unfolding rcidm_inv_def using I Cons num lv by (auto simp: m'_def)
  have ids: "rcid_ids m = {#r_seq_num (r_objs m p)#} + rcid_ids m'"
    unfolding rcid_ids_def live_mset [OF inv] live_mset [OF inv'] pend using Cons by (simp add: m'_def split: option.splits)
  have "rcidm_ok m'"
    using ok inv' pend preferred_ok_cong [of m' m] by (simp add: rcidm_ok_def m'_def)
  with res ids Cons show ?thesis
    by (intro that [OF res]) (simp_all add: m'_def)
qed

lemma drain_spec:
  assumes "pq_ok (rcid_ptr_cmp (r_objs m)) (rcids m)"
    and "\<forall>i j p. pq_view (rcids m) i = Some p \<longrightarrow> pq_view (rcids m) j = Some p \<longrightarrow> i = j"
  shows "\<exists>ps. rcidm_drain m = Inr ps \<and> distinct ps \<and> set ps = pending m"
  using assms
proof (induction "h_num (rcids m)" arbitrary: m rule: less_induct)
  case less
  show ?case
  proof (cases rule: rq.pop_spec [OF less.prems(1)])
    case 1
    then show ?thesis
      by (simp add: rcidm_drain.simps [of m] pending_def)
  next
    case (2 pq i p)
    let ?m = "m\<lparr>rcids := pq\<rparr>"
    have pos: "h_num pq < h_num (rcids m)"
      using 2(6) rq.root_least(1) [OF less.prems(1) 2(4)] by linarith
    have sub: "pq_view pq j = Some x \<Longrightarrow> pq_view (rcids m) j = Some x \<and> j \<noteq> i" for j x
      using 2(5) by (auto split: if_splits)
    have un: "\<forall>i j p. pq_view pq i = Some p \<longrightarrow> pq_view pq j = Some p \<longrightarrow> i = j"
      using sub less.prems(2) by blast
    obtain ps where ps: "rcidm_drain ?m = Inr ps" "distinct ps" "set ps = pending ?m"
      using less.hyps [of ?m] pos 2(3) un by auto
    have "p \<notin> pending ?m"
      using sub less.prems(2) 2(4) by (fastforce simp: pending_def ran_def)
    moreover have "pending m = insert p (pending ?m)"
    proof (rule set_eqI)
      fix x
      show "x \<in> pending m \<longleftrightarrow> x \<in> insert p (pending ?m)"
        using 2(4,5) sub by (auto simp: pending_def ran_def) (metis option.inject)
    qed
    ultimately show ?thesis
      using 2(1) pos ps by (simp add: rcidm_drain.simps [of m] word_less_nat_alt)
  qed
qed

lemma free_spec:
  assumes inv: "rcidm_inv m"
  obtains ps where "ossl_quic_rcidm_free (Some m) = Inr ps" "distinct ps" "set ps = live m"
proof -
  note I = rcidm_invD [OF inv]
  obtain ps where ps: "rcidm_drain m = Inr ps" "distinct ps" "set ps = pending m"
    using drain_spec [OF I(1)] I(2) by metis
  let ?ps = "(case cur_rcid m of None \<Rightarrow> [] | Some c \<Rightarrow> [c]) @ ps @ retiring_list m"
  have "distinct ?ps"
    using ps places_disjoint [OF inv] I(5) by (auto split: option.splits)
  moreover have "set ?ps = live m"
    using ps(3) by (auto simp: live_def split: option.splits)
  ultimately show ?thesis
    using ps(1) by (intro that [of ?ps]) (simp_all add: ossl_quic_rcidm_free_def)
qed

section \<open>Histories\<close>

text \<open>
  The managers that the operations lead to, with the sequence numbers of the connection IDs that were accepted and those that were
  popped, in order. The allocator hands out addresses that are not in use.
\<close>

inductive rcidm_reach :: "quic_rcidm \<Rightarrow> u64 multiset \<Rightarrow> u64 list \<Rightarrow> bool" where
  reach_new: "ossl_quic_rcidm_new mem pm junk objs odcid = Inr (Some m) \<Longrightarrow> rcidm_reach m {#} []"
| reach_handshake: "rcidm_reach m A P \<Longrightarrow> ossl_quic_rcidm_on_handshake_complete m = Inr m' \<Longrightarrow> rcidm_reach m' A P"
| reach_sent: "rcidm_reach m A P \<Longrightarrow> ossl_quic_rcidm_on_packet_sent m n = Inr m' \<Longrightarrow> rcidm_reach m' A P"
| reach_roll: "rcidm_reach m A P \<Longrightarrow> ossl_quic_rcidm_request_roll m = Inr m' \<Longrightarrow> rcidm_reach m' A P"
| reach_retry: "rcidm_reach m A P \<Longrightarrow> ossl_quic_rcidm_add_from_server_retry m c = Inr (m', b) \<Longrightarrow> rcidm_reach m' A P"
| reach_initial: "rcidm_reach m A P \<Longrightarrow> al_fresh al m \<Longrightarrow> ossl_quic_rcidm_add_from_initial al m c = Inr (m', b)
    \<Longrightarrow> rcidm_reach m' (if b then add_mset 0 A else A) P"
| reach_ncid: "rcidm_reach m A P \<Longrightarrow> al_fresh al m \<Longrightarrow> ossl_quic_rcidm_add_from_ncid al m ncid = Inr (m', b)
    \<Longrightarrow> rcidm_reach m' (if b then add_mset (seq_num ncid) A else A) P"
| reach_pop: "rcidm_reach m A P \<Longrightarrow> ossl_quic_rcidm_pop_retire_seq_num m = Inr (m', r)
    \<Longrightarrow> rcidm_reach m' A (P @ (case r of None \<Rightarrow> [] | Some n \<Rightarrow> [n]))"
| reach_clear: "rcidm_reach m A P \<Longrightarrow> rcidm_reach (fst (ossl_quic_rcidm_get_preferred_tx_dcid_changed m clear)) A P"

lemma rcidm_reach_ok: "rcidm_reach m A P \<Longrightarrow> rcidm_ok m \<and> A = mset P + rcid_ids m"
proof (induction rule: rcidm_reach.induct)
  case (reach_new mem pm junk objs odcid m)
  then show ?case
    using new_ok [of mem pm junk objs odcid] by auto
next
  case (reach_handshake m A P m')
  then show ?case
    using event_ok(1) [of m] by auto
next
  case (reach_sent m A P n m')
  then show ?case
    using event_ok(2) [of m n] by auto
next
  case (reach_roll m A P m')
  then show ?case
    using event_ok(3) [of m] by auto
next
  case (reach_retry m A P c m' b)
  then show ?case
    by (auto elim: retry_ok [of m c])
next
  case (reach_initial m A P al c m' b)
  show ?case
    by (rule initial_ok [of m al c]) (use reach_initial in auto)
next
  case (reach_ncid m A P al ncid m' b)
  show ?case
    by (rule ncid_ok [of m al ncid]) (use reach_ncid in auto)
next
  case (reach_pop m A P m' r)
  show ?case
    by (rule pop_ok [of m]) (use reach_pop in \<open>auto split: option.splits\<close>)
next
  case (reach_clear m A P clear)
  let ?m = "fst (ossl_quic_rcidm_get_preferred_tx_dcid_changed m clear)"
  have f: "r_objs ?m = r_objs m \<and> rcids ?m = rcids m \<and> cur_rcid ?m = cur_rcid m \<and> retiring_list ?m = retiring_list m
      \<and> num_retiring ?m = num_retiring m \<and> rm_retire_prior_to ?m = rm_retire_prior_to m \<and> num_changes ?m = num_changes m
      \<and> handshake_complete ?m = handshake_complete m \<and> have_preferred_rcid ?m = have_preferred_rcid m
      \<and> preferred_rcid ?m = preferred_rcid m"
    by (simp add: ossl_quic_rcidm_get_preferred_tx_dcid_changed_def)
  have inv: "rcidm_inv m"
    using reach_clear.IH by (simp add: rcidm_ok_def)
  have "rcidm_inv ?m" "live ?m = live m"
    by (rule rcidm_inv_cong [OF inv]; use f rcidm_invD(9) [OF inv] in simp)+
  with f reach_clear.IH preferred_ok_cong [of ?m m] show ?case
    by (simp add: rcidm_ok_def rcid_ids_def pending_def)
qed

lemma rcidm_reachD:
  assumes "rcidm_reach m A P"
  shows "rcidm_ok m" and "rcidm_inv m" and "A = mset P + rcid_ids m"
  using rcidm_reach_ok [OF assms] by (simp_all add: rcidm_ok_def)

text \<open>
  The same histories, with the NEW_CONNECTION_ID frames that were accepted, the last first. What they ask to retire is at or below
  the watermark, for ever.
\<close>

inductive rcidm_told :: "quic_rcidm \<Rightarrow> ossl_quic_frame_new_conn_id list \<Rightarrow> bool" where
  told_new: "ossl_quic_rcidm_new mem pm junk objs odcid = Inr (Some m) \<Longrightarrow> rcidm_told m []"
| told_handshake: "rcidm_told m F \<Longrightarrow> ossl_quic_rcidm_on_handshake_complete m = Inr m' \<Longrightarrow> rcidm_told m' F"
| told_sent: "rcidm_told m F \<Longrightarrow> ossl_quic_rcidm_on_packet_sent m n = Inr m' \<Longrightarrow> rcidm_told m' F"
| told_roll: "rcidm_told m F \<Longrightarrow> ossl_quic_rcidm_request_roll m = Inr m' \<Longrightarrow> rcidm_told m' F"
| told_retry: "rcidm_told m F \<Longrightarrow> ossl_quic_rcidm_add_from_server_retry m c = Inr (m', b) \<Longrightarrow> rcidm_told m' F"
| told_initial: "rcidm_told m F \<Longrightarrow> al_fresh al m \<Longrightarrow> ossl_quic_rcidm_add_from_initial al m c = Inr (m', b) \<Longrightarrow> rcidm_told m' F"
| told_ncid: "rcidm_told m F \<Longrightarrow> al_fresh al m \<Longrightarrow> ossl_quic_rcidm_add_from_ncid al m ncid = Inr (m', b)
    \<Longrightarrow> rcidm_told m' (if b then ncid # F else F)"
| told_pop: "rcidm_told m F \<Longrightarrow> ossl_quic_rcidm_pop_retire_seq_num m = Inr (m', r) \<Longrightarrow> rcidm_told m' F"
| told_clear: "rcidm_told m F \<Longrightarrow> rcidm_told (fst (ossl_quic_rcidm_get_preferred_tx_dcid_changed m clear)) F"

lemma rcidm_told_reach: "rcidm_told m F \<Longrightarrow> \<exists>A P. rcidm_reach m A P"
  by (induction rule: rcidm_told.induct) (blast intro: rcidm_reach.intros)+

lemma rcidm_told_watermark:
  "rcidm_told m F \<Longrightarrow> rcidm_ok m \<and> (\<forall>f \<in> set F. retire_prior_to f \<le> rm_retire_prior_to m)"
proof (induction rule: rcidm_told.induct)
  case (told_new mem pm junk objs odcid m)
  then show ?case
    using new_ok [of mem pm junk objs odcid] by auto
next
  case (told_handshake m F m')
  then show ?case
    using event_ok(1) [of m] by auto
next
  case (told_sent m F n m')
  then show ?case
    using event_ok(2) [of m n] by auto
next
  case (told_roll m F m')
  then show ?case
    using event_ok(3) [of m] by auto
next
  case (told_retry m F c m' b)
  then show ?case
    by (auto elim: retry_ok [of m c])
next
  case (told_initial m F al c m' b)
  show ?case
    by (rule initial_ok [of m al c]) (use told_initial in auto)
next
  case (told_ncid m F al ncid m' b)
  show ?case
    by (rule ncid_ok [of m al ncid]) (use told_ncid in \<open>auto simp: max_def intro: order_trans split: if_splits\<close>)
next
  case (told_pop m F m' r)
  show ?case
    by (rule pop_ok [of m]) (use told_pop in auto)
next
  case (told_clear m F clear)
  obtain A P where "rcidm_reach m A P"
    using rcidm_told_reach [OF told_clear.hyps] by blast
  from rcidm_reachD(1) [OF reach_clear [OF this, of clear]] told_clear.IH show ?case
    by (auto simp: ossl_quic_rcidm_get_preferred_tx_dcid_changed_def)
qed

section \<open>Properties\<close>

text \<open>
  Property C25. The state machine of remote connection IDs. In every reachable manager an object is in the queue exactly at the index it
  records and only in state PENDING, the current one is in state CUR and one, those on the list are in state RETIRING, no object is in
  two of the places, and whenever there is a pending one there is a current one. No operation of the interface then faults: all of the
  queue's accesses stay inside its arrays and the retirement loop ends.
\<close>
theorem rcidm_state_machine:
  assumes "rcidm_reach m A P" and "al_fresh al m"
  shows "(\<forall>i p. pq_view (rcids m) i = Some p \<longrightarrow> r_state (r_objs m p) = RCID_STATE_PENDING \<and> r_pq_idx (r_objs m p) = i)
    \<and> (\<forall>p. cur_rcid m = Some p \<longrightarrow> r_state (r_objs m p) = RCID_STATE_CUR)
    \<and> (\<forall>p \<in> set (retiring_list m). r_state (r_objs m p) = RCID_STATE_RETIRING) \<and> distinct (retiring_list m)
    \<and> (cur_rcid m = None \<longrightarrow> ossl_pqueue_num (rcids m) = 0)
    \<and> (\<exists>m'. ossl_quic_rcidm_on_handshake_complete m = Inr m') \<and> (\<exists>m'. ossl_quic_rcidm_on_packet_sent m n = Inr m')
    \<and> (\<exists>m'. ossl_quic_rcidm_request_roll m = Inr m') \<and> (\<exists>m' b. ossl_quic_rcidm_add_from_server_retry m c = Inr (m', b))
    \<and> (\<exists>m' b. ossl_quic_rcidm_add_from_initial al m c = Inr (m', b)) \<and> (\<exists>m' b. ossl_quic_rcidm_add_from_ncid al m ncid = Inr (m', b))
    \<and> (\<exists>m' r. ossl_quic_rcidm_pop_retire_seq_num m = Inr (m', r)) \<and> (\<exists>ps. ossl_quic_rcidm_free (Some m) = Inr ps)"
proof -
  note ok = rcidm_reachD(1) [OF assms(1)] and inv = rcidm_reachD(2) [OF assms(1)]
  note I = rcidm_invD [OF inv]
  have "cur_rcid m = None \<longrightarrow> h_num (rcids m) = 0"
    using ok places_disjoint(3) [OF inv] by (auto simp: rcidm_ok_def)
  then have a: "cur_rcid m = None \<longrightarrow> ossl_pqueue_num (rcids m) = 0"
    by (simp add: ossl_pqueue_num_def unat_eq_zero)
  have b: "\<exists>m' b. ossl_quic_rcidm_add_from_server_retry m c = Inr (m', b)"
    by (rule retry_ok [OF ok, of c]) blast
  have c: "\<exists>m' b. ossl_quic_rcidm_add_from_initial al m c = Inr (m', b)"
    by (rule initial_ok [OF ok assms(2), of c]) blast
  have d: "\<exists>m' b. ossl_quic_rcidm_add_from_ncid al m ncid = Inr (m', b)"
    by (rule ncid_ok [OF ok assms(2), of ncid]) blast
  have e: "\<exists>m' r. ossl_quic_rcidm_pop_retire_seq_num m = Inr (m', r)"
    by (rule pop_ok [OF ok]) blast
  have f: "\<exists>ps. ossl_quic_rcidm_free (Some m) = Inr ps"
    by (rule free_spec [OF inv]) blast
  show ?thesis
    using I(2-5) event_ok [OF ok] a b c d e f by blast
qed

text \<open>
  Property C30. No connection ID is lost, duplicated or retired twice: the sequence numbers the manager has popped and those of the objects
  it has (which \<open>ossl_quic_rcidm_free\<close> releases, each once) are exactly those of the connection IDs it accepted, and the number of
  active ones it reports is how many it accepted and has not popped.
\<close>
theorem rcidm_conserves_ids:
  assumes "rcidm_reach m A P"
  shows "\<exists>ps. ossl_quic_rcidm_free (Some m) = Inr ps \<and> distinct ps
    \<and> A = mset P + mset (map (\<lambda>p. r_seq_num (r_objs m p)) ps)
    \<and> unat (ossl_quic_rcidm_get_num_active m) + length P = size A"
proof -
  note inv = rcidm_reachD(2) [OF assms] and A = rcidm_reachD(3) [OF assms]
  obtain ps where ps: "ossl_quic_rcidm_free (Some m) = Inr ps" "distinct ps" "set ps = live m"
    by (rule free_spec [OF inv])
  have "mset (map (\<lambda>p. r_seq_num (r_objs m p)) ps) = rcid_ids m"
    using ps(2,3) by (simp add: rcid_ids_def mset_set_set [symmetric])
  then show ?thesis
    using ps A ids_size [OF inv] by (intro exI [of _ ps]) simp
qed

text \<open>
  Property C31. When packets are sent, the manager rolls exactly when a roll is due (after the handshake: at the first packet, after ten
  thousand, or on request) and there is a pending ID: then the pending ID of least sequence number is current, and the one that was is
  last on the list of those to retire; otherwise nothing moves. The ID the manager hands out, if it hands out one, is the current one.
\<close>
theorem rcidm_rolls_in_order:
  assumes "rcidm_reach m A P" and "ossl_quic_rcidm_on_packet_sent m n = Inr m'" and "n \<noteq> 0"
  shows "(if handshake_complete m \<and> (num_changes m = 0 \<or> 10000 \<le> packets_sent m + n \<or> roll_requested m)
        \<and> ran (pq_view (rcids m)) \<noteq> {}
      then \<exists>p \<in> ran (pq_view (rcids m)). (\<forall>q \<in> ran (pq_view (rcids m)). r_seq_num (r_objs m p) \<le> r_seq_num (r_objs m q))
        \<and> cur_rcid m' = Some p \<and> ran (pq_view (rcids m')) = ran (pq_view (rcids m)) - {p}
        \<and> retiring_list m' = retiring_list m @ (case cur_rcid m of None \<Rightarrow> [] | Some c \<Rightarrow> [c])
      else cur_rcid m' = cur_rcid m \<and> ran (pq_view (rcids m')) = ran (pq_view (rcids m)) \<and> retiring_list m' = retiring_list m)
    \<and> (\<forall>c d. cur_rcid m' = Some c \<longrightarrow> ossl_quic_rcidm_get_preferred_tx_dcid m' = Some d
        \<longrightarrow> ossl_quic_conn_id_eq d (r_cid (r_objs m' c)))"
proof -
  note ok = rcidm_reachD(1) [OF assms(1)] and inv = rcidm_reachD(2) [OF assms(1)]
  let ?m = "m\<lparr>packets_sent := packets_sent m + n\<rparr>"
  have "rcidm_inv ?m"
    using rcidm_inv_cong(1) [OF inv, of ?m] rcidm_invD(9) [OF inv] by simp
  then obtain m'' where m'': "rcidm_tick ?m = Inr m''" "rcidm_inv m''" "same_ids ?m m''" "preferred_ok m''"
    "handshake_complete m'' = handshake_complete ?m" "rm_retire_prior_to m'' = rm_retire_prior_to ?m"
    "if pending ?m \<noteq> {} \<and> (rcidm_should_roll ?m \<or> cur_rcid ?m = None) then rolled ?m m'' else stayed ?m m''"
    "cur_rcid m'' = None \<longrightarrow> pending m'' = {}"
    by (rule tick_spec)
  have eq: "m'' = m'"
    using m''(1) assms(2,3) by (simp add: ossl_quic_rcidm_on_packet_sent_def)
  have due: "pending ?m \<noteq> {} \<and> (rcidm_should_roll ?m \<or> cur_rcid ?m = None)
      \<longleftrightarrow> handshake_complete m \<and> (num_changes m = 0 \<or> 10000 \<le> packets_sent m + n \<or> roll_requested m)
        \<and> ran (pq_view (rcids m)) \<noteq> {}"
    using ok by (auto simp: rcidm_should_roll_def PACKETS_PER_RCID_def rcidm_ok_def pending_def)
  have "\<forall>c d. cur_rcid m' = Some c \<longrightarrow> ossl_quic_rcidm_get_preferred_tx_dcid m' = Some d
      \<longrightarrow> ossl_quic_conn_id_eq d (r_cid (r_objs m' c))"
    using m''(4) unfolding eq by (auto simp: preferred_ok_def ossl_quic_rcidm_get_preferred_tx_dcid_def split: if_splits)
  moreover have r: "rolled ?m m' = rolled m m'" "stayed ?m m' = stayed m m'"
    by (simp_all add: rolled_def stayed_def pending_def)
  note m''(7) [unfolded due eq r]
  ultimately show ?thesis
    unfolding rolled_def stayed_def pending_def by (intro conjI)
qed

text \<open>
  Property C36. A NEW_CONNECTION_ID frame that is accepted is obeyed from then on: after any sequence of operations, no ID that is
  current or can still become so has a sequence number below the Retire Prior To of any frame accepted so far, the last one or an
  earlier one. What the manager still holds of the IDs below is on the list of those to retire.
\<close>
theorem rcidm_retires_prior_to:
  assumes "rcidm_told m F" and "f \<in> set F"
  shows "(\<forall>p \<in> ran (pq_view (rcids m)) \<union> set_option (cur_rcid m). retire_prior_to f \<le> r_seq_num (r_objs m p))
    \<and> (\<exists>ps. ossl_quic_rcidm_free (Some m) = Inr ps
        \<and> (\<forall>p \<in> set ps. r_seq_num (r_objs m p) < retire_prior_to f \<longrightarrow> p \<in> set (retiring_list m)))"
proof -
  have inv: "rcidm_inv m" and wm: "retire_prior_to f \<le> rm_retire_prior_to m"
    using rcidm_told_watermark [OF assms(1)] assms(2) by (auto simp: rcidm_ok_def)
  have above: "retire_prior_to f \<le> r_seq_num (r_objs m p)" if "p \<in> pending m \<union> set_option (cur_rcid m)" for p
    using that rcidm_invD(2,3) [OF inv] wm by (fastforce simp: pending_def ran_def)
  obtain ps where ps: "ossl_quic_rcidm_free (Some m) = Inr ps" "set ps = live m"
    by (rule free_spec [OF inv])
  have "p \<in> set (retiring_list m)" if "p \<in> set ps" "r_seq_num (r_objs m p) < retire_prior_to f" for p
    using that above [of p] ps(2) by (auto simp: live_def)
  with above ps(1) show ?thesis
    by (auto simp: pending_def)
qed

section \<open>Examples\<close>

text \<open>A client that accepts two connection IDs of the peer, the second below the first, and completes the handshake.\<close>

definition example_id :: "8 word \<Rightarrow> quic_conn_id" where
  "example_id b = \<lparr>id_len = 1, cid = b # replicate (QUIC_MAX_CONN_ID_LEN - 1) 0\<rparr>"

definition example_objs :: "rcid_addr \<Rightarrow> rcid" where
  "example_objs a = \<lparr>r_cid = zero_id, r_seq_num = 0, r_pq_idx = 0, r_state = RCID_STATE_PENDING, r_type = RCID_TYPE_NCID\<rparr>"

definition example_junk :: "rcid_addr pq_junk" where
  "example_junk = \<lparr>j_heap = (\<lambda>_. \<lparr>hp_data = 0, hp_index = 0\<rparr>), j_elements = (\<lambda>_. \<lparr>posn = 0\<rparr>)\<rparr>"

definition example_al :: "rcid_addr \<Rightarrow> rcid_alloc" where
  "example_al p = \<lparr>al_addr = Some p, al_mem = (True, True), al_junk = example_junk\<rparr>"

definition example_ncid :: "u64 \<Rightarrow> u64 \<Rightarrow> 8 word \<Rightarrow> ossl_quic_frame_new_conn_id" where
  "example_ncid seq ret b = \<lparr>seq_num = seq, retire_prior_to = ret, conn_id = example_id b, stateless_reset = replicate 16 0\<rparr>"

definition ex_new :: "quic_conn_id option \<Rightarrow> quic_rcidm" where
  "ex_new odcid = the (projr (ossl_quic_rcidm_new True (True, True, True) example_junk example_objs odcid))"

definition ex_handshake :: "quic_rcidm \<Rightarrow> quic_rcidm" where
  "ex_handshake m = projr (ossl_quic_rcidm_on_handshake_complete m)"

definition ex_ncid :: "rcid_addr \<Rightarrow> quic_rcidm \<Rightarrow> ossl_quic_frame_new_conn_id \<Rightarrow> quic_rcidm" where
  "ex_ncid p m ncid = fst (projr (ossl_quic_rcidm_add_from_ncid (example_al p) m ncid))"

definition ex_one :: quic_rcidm where
  "ex_one = ex_ncid 1 (ex_handshake (ex_new None)) (example_ncid 5 0 7)"

definition ex_two :: quic_rcidm where
  "ex_two = ex_ncid 2 ex_one (example_ncid 3 0 8)"

lemma ex_new_reach: "rcidm_reach (ex_new odcid) {#} []"
  using new_ok [of True "(True, True, True)" example_junk example_objs odcid] reach_new [of True "(True, True, True)" example_junk example_objs odcid]
  by (auto simp: ex_new_def)

lemma ex_handshake_reach: "rcidm_reach m A P \<Longrightarrow> rcidm_reach (ex_handshake m) A P"
  using event_ok(1) [OF rcidm_reachD(1)] reach_handshake by (fastforce simp: ex_handshake_def)

lemma ex_fresh:
  assumes "rcidm_reach m A P" and "ossl_quic_rcidm_free (Some m) = Inr ps" and "p \<notin> set ps"
  shows "al_fresh (example_al p) m"
  by (rule free_spec [OF rcidm_reachD(2) [OF assms(1)]]) (use assms(2,3) in \<open>auto simp: al_fresh_def example_al_def\<close>)

lemma ex_ncid_reach:
  assumes "rcidm_reach m A P" and "ossl_quic_rcidm_free (Some m) = Inr ps" and "p \<notin> set ps"
    and "snd (projr (ossl_quic_rcidm_add_from_ncid (example_al p) m ncid))"
  shows "ossl_quic_rcidm_add_from_ncid (example_al p) m ncid = Inr (ex_ncid p m ncid, True)"
    and "rcidm_reach (ex_ncid p m ncid) (add_mset (seq_num ncid) A) P"
proof -
  note fresh = ex_fresh [OF assms(1-3)]
  show eq: "ossl_quic_rcidm_add_from_ncid (example_al p) m ncid = Inr (ex_ncid p m ncid, True)"
    by (rule ncid_ok [OF rcidm_reachD(1) [OF assms(1)] fresh, of ncid]) (use assms(4) in \<open>auto simp: ex_ncid_def\<close>)
  show "rcidm_reach (ex_ncid p m ncid) (add_mset (seq_num ncid) A) P"
    using reach_ncid [OF assms(1) fresh eq] by simp
qed

lemma ex_start_reach: "rcidm_reach (ex_handshake (ex_new None)) {#} []"
  by (rule ex_handshake_reach [OF ex_new_reach])

lemma ex_start_free: "ossl_quic_rcidm_free (Some (ex_handshake (ex_new None))) = Inr []"
  by code_simp

lemma ex_one_reach: "rcidm_reach ex_one {#5#} []"
proof -
  have "snd (projr (ossl_quic_rcidm_add_from_ncid (example_al 1) (ex_handshake (ex_new None)) (example_ncid 5 0 7)))"
    by code_simp
  from ex_ncid_reach(2) [OF ex_start_reach ex_start_free _ this] show ?thesis
    by (simp add: ex_one_def example_ncid_def)
qed

lemma ex_one_free: "ossl_quic_rcidm_free (Some ex_one) = Inr [1]"
  by code_simp

lemma ex_two_accepted: "snd (projr (ossl_quic_rcidm_add_from_ncid (example_al 2) ex_one (example_ncid 3 0 8)))"
  by code_simp

lemma ex_two_reach: "rcidm_reach ex_two {#3, 5#} []"
proof -
  have "(2 :: rcid_addr) \<notin> set [1]"
    by simp
  from ex_ncid_reach(2) [OF ex_one_reach ex_one_free this ex_two_accepted] show ?thesis
    by (simp add: ex_two_def example_ncid_def)
qed

lemma ex_two_free: "ossl_quic_rcidm_free (Some ex_two) = Inr [1, 2]"
  by code_simp

theorem rcidm_state_machine_witness:
  "cur_rcid ex_two = Some 1 \<and> r_state (r_objs ex_two 1) = RCID_STATE_CUR
    \<and> (\<exists>m'. ossl_quic_rcidm_on_packet_sent ex_two 10000 = Inr m')"
proof -
  have "al_fresh (example_al 3) ex_two"
    by (rule ex_fresh [OF ex_two_reach ex_two_free]) simp
  note all = rcidm_state_machine [OF ex_two_reach this, of 10000 zero_id "example_ncid 4 0 9"]
  moreover have "cur_rcid ex_two = Some 1"
    by code_simp
  ultimately show ?thesis
    by simp
qed

theorem rcidm_conserves_ids_witness:
  "\<exists>ps. ossl_quic_rcidm_free (Some ex_two) = Inr ps \<and> distinct ps \<and> {#3, 5#} = mset (map (\<lambda>p. r_seq_num (r_objs ex_two p)) ps)
    \<and> unat (ossl_quic_rcidm_get_num_active ex_two) = 2"
  using rcidm_conserves_ids [OF ex_two_reach] by auto

theorem rcidm_rolls_in_order_witness:
  "\<exists>m'. ossl_quic_rcidm_on_packet_sent ex_two 10000 = Inr m' \<and> (\<exists>p. cur_rcid m' = Some p) \<and> retiring_list m' = [1]"
proof -
  obtain m' where m': "ossl_quic_rcidm_on_packet_sent ex_two 10000 = Inr m'"
    using event_ok(2) [OF rcidm_reachD(1) [OF ex_two_reach]] by blast
  have c: "handshake_complete ex_two" "10000 \<le> packets_sent ex_two + 10000" "retiring_list ex_two = []" "cur_rcid ex_two = Some 1"
    "pq_view (rcids ex_two) 7 = Some 2"
    by code_simp+
  have "ran (pq_view (rcids ex_two)) \<noteq> {}"
    using c(5) by (auto simp: ran_def)
  then show ?thesis
    using rcidm_rolls_in_order [OF ex_two_reach m'] m' c(1-4) by auto
qed

text \<open>The client then accepts an ID whose frame retires those below 4, and after it one whose frame retires nothing more.\<close>

definition ex_three :: quic_rcidm where
  "ex_three = ex_ncid 3 ex_two (example_ncid 6 4 9)"

definition ex_four :: quic_rcidm where
  "ex_four = ex_ncid 4 ex_three (example_ncid 7 0 10)"

lemma ex_ncid_told:
  assumes "rcidm_told m F" and "ossl_quic_rcidm_free (Some m) = Inr ps" and "p \<notin> set ps"
    and "snd (projr (ossl_quic_rcidm_add_from_ncid (example_al p) m ncid))"
  shows "rcidm_told (ex_ncid p m ncid) (ncid # F)"
proof -
  obtain A P where r: "rcidm_reach m A P"
    using rcidm_told_reach [OF assms(1)] by blast
  show ?thesis
    using told_ncid [OF assms(1) ex_fresh [OF r assms(2,3)] ex_ncid_reach(1) [OF r assms(2-4)]] by simp
qed

lemma ex_four_told:
  "rcidm_told ex_four [example_ncid 7 0 10, example_ncid 6 4 9, example_ncid 3 0 8, example_ncid 5 0 7]"
proof -
  have "rcidm_told (ex_new None) []"
    using new_ok [of True "(True, True, True)" example_junk example_objs None] told_new [of True "(True, True, True)" example_junk example_objs None]
    by (auto simp: ex_new_def)
  then have start: "rcidm_told (ex_handshake (ex_new None)) []"
    using event_ok(1) [OF rcidm_reachD(1) [OF ex_new_reach [of None]]] told_handshake by (fastforce simp: ex_handshake_def)
  have free: "ossl_quic_rcidm_free (Some ex_three) = Inr [1, 3, 2]"
    by code_simp
  have acc: "snd (projr (ossl_quic_rcidm_add_from_ncid (example_al 1) (ex_handshake (ex_new None)) (example_ncid 5 0 7)))"
    "snd (projr (ossl_quic_rcidm_add_from_ncid (example_al 3) ex_two (example_ncid 6 4 9)))"
    "snd (projr (ossl_quic_rcidm_add_from_ncid (example_al 4) ex_three (example_ncid 7 0 10)))"
    by code_simp+
  have "rcidm_told ex_one [example_ncid 5 0 7]"
    using ex_ncid_told [OF start ex_start_free _ acc(1)] by (simp add: ex_one_def)
  from ex_ncid_told [OF this ex_one_free _ ex_two_accepted]
  have two: "rcidm_told ex_two [example_ncid 3 0 8, example_ncid 5 0 7]"
    by (simp add: ex_two_def)
  from ex_ncid_told [OF this ex_two_free _ acc(2)]
  have "rcidm_told ex_three [example_ncid 6 4 9, example_ncid 3 0 8, example_ncid 5 0 7]"
    by (simp add: ex_three_def)
  from ex_ncid_told [OF this free _ acc(3)] show ?thesis
    by (simp add: ex_four_def)
qed

theorem rcidm_retires_prior_to_witness:
  "\<exists>p. cur_rcid ex_four = Some p \<and> 4 \<le> r_seq_num (r_objs ex_four p) \<and> r_seq_num (r_objs ex_four 2) = 3
    \<and> retiring_list ex_four = [2]"
proof -
  have "example_ncid 6 4 9 \<in> set [example_ncid 7 0 10, example_ncid 6 4 9, example_ncid 3 0 8, example_ncid 5 0 7]"
    by simp
  from rcidm_retires_prior_to [OF ex_four_told this]
  have "cur_rcid ex_four = Some p \<Longrightarrow> 4 \<le> r_seq_num (r_objs ex_four p)" for p
    by (simp add: example_ncid_def)
  moreover have "cur_rcid ex_four = Some 1" "r_seq_num (r_objs ex_four 2) = 3" "retiring_list ex_four = [2]"
    by code_simp+
  ultimately show ?thesis
    by simp
qed

text \<open>
  A manager can have a current connection ID and hand out none: when no ID is left after the handshake, the preferred one is
  marked absent but its bytes stay, and an ID of the same bytes that becomes current later is taken for no change. Here the peer issues,
  after the handshake, the ID that the client had sent its first packets to.
\<close>
theorem rcidm_loses_preferred:
  "let m = ex_ncid 1 (ex_handshake (ex_new (Some (example_id 7)))) (example_ncid 5 0 7)
   in cur_rcid m = Some 1 \<and> r_cid (r_objs m 1) = example_id 7 \<and> ossl_quic_rcidm_get_preferred_tx_dcid m = None
      \<and> (\<exists>m'. ossl_quic_rcidm_on_packet_sent m 1 = Inr m' \<and> ossl_quic_rcidm_get_preferred_tx_dcid m' = None)"
proof -
  let ?m = "ex_ncid 1 (ex_handshake (ex_new (Some (example_id 7)))) (example_ncid 5 0 7)"
  have "cur_rcid ?m = Some 1" "r_cid (r_objs ?m 1) = example_id 7" "ossl_quic_rcidm_get_preferred_tx_dcid ?m = None"
    by code_simp+
  moreover have "ossl_quic_rcidm_free (Some (ex_handshake (ex_new (Some (example_id 7))))) = Inr []"
    "snd (projr (ossl_quic_rcidm_add_from_ncid (example_al 1) (ex_handshake (ex_new (Some (example_id 7)))) (example_ncid 5 0 7)))"
    by code_simp+
  then have "rcidm_reach ?m {#5#} []"
    using ex_ncid_reach(2) [OF ex_handshake_reach [OF ex_new_reach]] by (fastforce simp: example_ncid_def)
  then obtain m' where "ossl_quic_rcidm_on_packet_sent ?m 1 = Inr m'"
    using event_ok(2) [OF rcidm_reachD(1)] by blast
  moreover have "ossl_quic_rcidm_get_preferred_tx_dcid (projr (ossl_quic_rcidm_on_packet_sent ?m 1)) = None"
    by code_simp
  ultimately show ?thesis
    by (simp add: Let_def)
qed

end
