(* ===== verification/Newreno.thy ===== *)
theory Newreno
  imports Ossl_Time "HOL-Library.Multiset"
begin

text \<open>
  \<^verbatim>\<open>ssl/quic/cc_newreno.c\<close>: the NewReno congestion controller behind \<^verbatim>\<open>OSSL_CC_METHOD\<close>. The time its
  \<^verbatim>\<open>now_cb\<close> callback returns is an argument of the operations that call it. A diagnostic pointer is an
  option: \<^term>\<open>None\<close> while it is not bound, otherwise the value at the bound location. The parameter
  arrays (\<^verbatim>\<open>crypto/params.c\<close>) are seen through \<^verbatim>\<open>OSSL_PARAM_locate_const\<close>, a function from names to
  parameters.
\<close>

section \<open>State and operations\<close>

record newreno =
  k_init_wnd :: u64
  k_min_wnd :: u64
  k_loss_reduction_factor_num :: u32
  k_loss_reduction_factor_den :: u32
  persistent_cong_thresh :: u32
  max_dgram_size :: u64
  bytes_in_flight :: u64
  cong_wnd :: u64
  slow_start_thresh :: u64
  bytes_acked :: u64
  cong_recovery_start_time :: ossl_time
  processing_loss :: bool
  tx_time_of_last_loss :: ossl_time
  in_congestion_recovery :: bool
  diag_max_dgram_payload_len :: "u64 option"
  diag_cur_cwnd_size :: "u64 option"
  diag_min_cwnd_size :: "u64 option"
  diag_cur_bytes_in_flight :: "u64 option"
  diag_cur_state :: "char option"

record ossl_param =
  is_unsigned_integer :: bool
  data_size :: nat
  has_data :: bool
  get_size_t :: "u64 option"

type_synonym param_locate = "string \<Rightarrow> ossl_param option"

definition MIN_MAX_INIT_WND_SIZE :: u64 where "MIN_MAX_INIT_WND_SIZE = 14720"
definition QUIC_MIN_INITIAL_DGRAM_LEN :: u64 where "QUIC_MIN_INITIAL_DGRAM_LEN = 1200"
definition OSSL_CC_LOST_FLAG_PERSISTENT_CONGESTION :: u32 where "OSSL_CC_LOST_FLAG_PERSISTENT_CONGESTION = 1"

definition newreno_update_diag :: "newreno \<Rightarrow> newreno" where
  "newreno_update_diag nr =
     nr\<lparr>diag_max_dgram_payload_len := map_option (\<lambda>_. max_dgram_size nr) (diag_max_dgram_payload_len nr),
        diag_cur_cwnd_size := map_option (\<lambda>_. cong_wnd nr) (diag_cur_cwnd_size nr),
        diag_min_cwnd_size := map_option (\<lambda>_. k_min_wnd nr) (diag_min_cwnd_size nr),
        diag_cur_bytes_in_flight := map_option (\<lambda>_. bytes_in_flight nr) (diag_cur_bytes_in_flight nr),
        diag_cur_state := map_option
          (\<lambda>_. if in_congestion_recovery nr then CHR ''R''
               else if cong_wnd nr < slow_start_thresh nr then CHR ''S'' else CHR ''A'') (diag_cur_state nr)\<rparr>"

definition newreno_set_max_dgram_size :: "newreno \<Rightarrow> u64 \<Rightarrow> newreno" where
  "newreno_set_max_dgram_size nr dgram =
     (let is_reduced = (dgram < max_dgram_size nr);
          max_init_wnd = 2 * dgram;
          max_init_wnd = (if max_init_wnd < MIN_MAX_INIT_WND_SIZE then MIN_MAX_INIT_WND_SIZE else max_init_wnd);
          init_wnd = 10 * dgram;
          init_wnd = (if init_wnd > max_init_wnd then max_init_wnd else init_wnd);
          nr = nr\<lparr>max_dgram_size := dgram, k_init_wnd := init_wnd, k_min_wnd := 2 * dgram\<rparr>;
          nr = (if is_reduced then nr\<lparr>cong_wnd := init_wnd\<rparr> else nr)
      in newreno_update_diag nr)"

definition newreno_reset :: "newreno \<Rightarrow> newreno" where
  "newreno_reset nr =
     nr\<lparr>k_loss_reduction_factor_num := 1, k_loss_reduction_factor_den := 2, persistent_cong_thresh := 3,
        cong_wnd := k_init_wnd nr, bytes_in_flight := 0, bytes_acked := 0, slow_start_thresh := NOT 0,
        cong_recovery_start_time := ossl_time_zero, processing_loss := False,
        tx_time_of_last_loss := ossl_time_zero, in_congestion_recovery := False\<rparr>"

definition newreno_new :: "bool \<Rightarrow> newreno option" where
  "newreno_new mem =
     (if \<not> mem then None
      else
        let zeroed = \<lparr>k_init_wnd = 0, k_min_wnd = 0, k_loss_reduction_factor_num = 0,
              k_loss_reduction_factor_den = 0, persistent_cong_thresh = 0, max_dgram_size = 0,
              bytes_in_flight = 0, cong_wnd = 0, slow_start_thresh = 0, bytes_acked = 0,
              cong_recovery_start_time = Ticks 0, processing_loss = False, tx_time_of_last_loss = Ticks 0,
              in_congestion_recovery = False, diag_max_dgram_payload_len = None, diag_cur_cwnd_size = None,
              diag_min_cwnd_size = None, diag_cur_bytes_in_flight = None, diag_cur_state = None\<rparr>
        in Some (newreno_reset (newreno_set_max_dgram_size zeroed QUIC_MIN_INITIAL_DGRAM_LEN)))"

definition newreno_set_input_params :: "newreno \<Rightarrow> param_locate \<Rightarrow> newreno \<times> bool" where
  "newreno_set_input_params nr params =
     (case params ''max_dgram_payload_len'' of
        None \<Rightarrow> (nr, True)
      | Some p \<Rightarrow>
          (case get_size_t p of
             None \<Rightarrow> (nr, False)
           | Some val \<Rightarrow>
               if val < QUIC_MIN_INITIAL_DGRAM_LEN then (nr, False)
               else (newreno_set_max_dgram_size nr val, True)))"

text \<open>\<^verbatim>\<open>bind_diag\<close>: \<^term>\<open>None\<close> is its failure, \<open>Some b\<close> tells whether the pointer it stores is one (\<open>has_data\<close>: \<^verbatim>\<open>p->data\<close> is not \<^verbatim>\<open>NULL\<close>).\<close>

definition bind_diag :: "param_locate \<Rightarrow> string \<Rightarrow> nat \<Rightarrow> bool option" where
  "bind_diag params param_name len =
     (case params param_name of
        None \<Rightarrow> Some False
      | Some p \<Rightarrow> if \<not> is_unsigned_integer p \<or> data_size p \<noteq> len then None else Some (has_data p))"

definition newreno_bind_diagnostic :: "newreno \<Rightarrow> param_locate \<Rightarrow> newreno \<times> bool" where
  "newreno_bind_diagnostic nr params =
     (case (bind_diag params ''max_dgram_payload_len'' 8, bind_diag params ''cur_cwnd_size'' 8,
            bind_diag params ''min_cwnd_size'' 8, bind_diag params ''bytes_in_flight'' 8,
            bind_diag params ''cur_state'' 4) of
        (Some b1, Some b2, Some b3, Some b4, Some b5) \<Rightarrow>
          let nr = (if b1 then nr\<lparr>diag_max_dgram_payload_len := Some 0\<rparr> else nr);
              nr = (if b2 then nr\<lparr>diag_cur_cwnd_size := Some 0\<rparr> else nr);
              nr = (if b3 then nr\<lparr>diag_min_cwnd_size := Some 0\<rparr> else nr);
              nr = (if b4 then nr\<lparr>diag_cur_bytes_in_flight := Some 0\<rparr> else nr);
              nr = (if b5 then nr\<lparr>diag_cur_state := Some (CHR 0x00)\<rparr> else nr)
          in (newreno_update_diag nr, True)
      | _ \<Rightarrow> (nr, False))"

definition unbind_diag :: "param_locate \<Rightarrow> string \<Rightarrow> 'a option \<Rightarrow> 'a option" where
  "unbind_diag params param_name pp = (if params param_name \<noteq> None then None else pp)"

definition newreno_unbind_diagnostic :: "newreno \<Rightarrow> param_locate \<Rightarrow> newreno \<times> bool" where
  "newreno_unbind_diagnostic nr params =
     (nr\<lparr>diag_max_dgram_payload_len := unbind_diag params ''max_dgram_payload_len'' (diag_max_dgram_payload_len nr),
         diag_cur_cwnd_size := unbind_diag params ''cur_cwnd_size'' (diag_cur_cwnd_size nr),
         diag_min_cwnd_size := unbind_diag params ''min_cwnd_size'' (diag_min_cwnd_size nr),
         diag_cur_bytes_in_flight := unbind_diag params ''bytes_in_flight'' (diag_cur_bytes_in_flight nr),
         diag_cur_state := unbind_diag params ''cur_state'' (diag_cur_state nr)\<rparr>, True)"

definition newreno_in_cong_recovery :: "newreno \<Rightarrow> ossl_time \<Rightarrow> bool" where
  "newreno_in_cong_recovery nr tx_time \<longleftrightarrow> ossl_time_compare tx_time (cong_recovery_start_time nr) \<le> 0"

definition newreno_cong :: "ossl_time \<Rightarrow> newreno \<Rightarrow> ossl_time \<Rightarrow> newreno" where
  "newreno_cong now nr tx_time =
     (if newreno_in_cong_recovery nr tx_time then nr
      else
        let (thresh, err) = safe_muldiv (cong_wnd nr)
              (ucast (k_loss_reduction_factor_num nr)) (ucast (k_loss_reduction_factor_den nr));
            thresh = (if err then NOT 0 else thresh)
        in nr\<lparr>in_congestion_recovery := True, cong_recovery_start_time := now, slow_start_thresh := thresh,
              cong_wnd := (if thresh < k_min_wnd nr then k_min_wnd nr else thresh)\<rparr>)"

definition newreno_flush :: "ossl_time \<Rightarrow> newreno \<Rightarrow> u32 \<Rightarrow> newreno" where
  "newreno_flush now nr flags =
     (if \<not> processing_loss nr then nr
      else
        let nr = newreno_cong now nr (tx_time_of_last_loss nr);
            nr = (if flags AND OSSL_CC_LOST_FLAG_PERSISTENT_CONGESTION \<noteq> 0
                  then nr\<lparr>cong_wnd := k_min_wnd nr, cong_recovery_start_time := ossl_time_zero\<rparr> else nr)
        in newreno_update_diag (nr\<lparr>processing_loss := False\<rparr>))"

definition newreno_get_tx_allowance :: "newreno \<Rightarrow> u64" where
  "newreno_get_tx_allowance nr =
     (if bytes_in_flight nr \<ge> cong_wnd nr then 0 else cong_wnd nr - bytes_in_flight nr)"

definition newreno_get_wakeup_deadline :: "newreno \<Rightarrow> ossl_time" where
  "newreno_get_wakeup_deadline nr =
     (if newreno_get_tx_allowance nr > 0 then ossl_time_zero else ossl_time_infinite)"

definition newreno_on_data_sent :: "newreno \<Rightarrow> u64 \<Rightarrow> newreno \<times> bool" where
  "newreno_on_data_sent nr num_bytes =
     (newreno_update_diag (nr\<lparr>bytes_in_flight := bytes_in_flight nr + num_bytes\<rparr>), True)"

definition newreno_is_cong_limited :: "newreno \<Rightarrow> bool" where
  "newreno_is_cong_limited nr =
     (if bytes_in_flight nr \<ge> cong_wnd nr then True
      else
        let wnd_rem = cong_wnd nr - bytes_in_flight nr
        in cong_wnd nr < slow_start_thresh nr \<and> wnd_rem \<le> cong_wnd nr div 2
           \<or> wnd_rem \<le> 3 * max_dgram_size nr)"

definition newreno_on_data_acked :: "newreno \<Rightarrow> ossl_time \<Rightarrow> u64 \<Rightarrow> newreno \<times> bool" where
  "newreno_on_data_acked nr tx_time tx_size =
     (let nr = nr\<lparr>bytes_in_flight := bytes_in_flight nr - tx_size\<rparr>;
          nr =
            (if \<not> newreno_is_cong_limited nr then nr
             else if newreno_in_cong_recovery nr tx_time then nr
             else if cong_wnd nr < slow_start_thresh nr then
               nr\<lparr>cong_wnd := cong_wnd nr + tx_size, in_congestion_recovery := False\<rparr>
             else
               let nr = nr\<lparr>bytes_acked := bytes_acked nr + tx_size\<rparr>;
                   nr = (if bytes_acked nr \<ge> cong_wnd nr
                         then nr\<lparr>bytes_acked := bytes_acked nr - cong_wnd nr, cong_wnd := cong_wnd nr + max_dgram_size nr\<rparr>
                         else nr)
               in nr\<lparr>in_congestion_recovery := False\<rparr>)
      in (newreno_update_diag nr, True))"

definition newreno_on_data_lost :: "newreno \<Rightarrow> ossl_time \<Rightarrow> u64 \<Rightarrow> newreno \<times> bool" where
  "newreno_on_data_lost nr tx_time tx_size =
     (if tx_size > bytes_in_flight nr then (nr, False)
      else
        let nr = nr\<lparr>bytes_in_flight := bytes_in_flight nr - tx_size\<rparr> in
        if \<not> processing_loss nr \<and> ossl_time_compare tx_time (tx_time_of_last_loss nr) \<le> 0
        then (newreno_update_diag nr, True)
        else
          let nr = (if \<not> processing_loss nr then nr\<lparr>processing_loss := True, bytes_acked := 0\<rparr> else nr)
          in (newreno_update_diag
                (nr\<lparr>tx_time_of_last_loss := ossl_time_max (tx_time_of_last_loss nr) tx_time\<rparr>), True))"

definition newreno_on_data_lost_finished :: "ossl_time \<Rightarrow> newreno \<Rightarrow> u32 \<Rightarrow> newreno \<times> bool" where
  "newreno_on_data_lost_finished now nr flags = (newreno_flush now nr flags, True)"

definition newreno_on_data_invalidated :: "newreno \<Rightarrow> u64 \<Rightarrow> newreno \<times> bool" where
  "newreno_on_data_invalidated nr num_bytes =
     (newreno_update_diag (nr\<lparr>bytes_in_flight := bytes_in_flight nr - num_bytes\<rparr>), True)"

definition newreno_on_ecn :: "ossl_time \<Rightarrow> newreno \<Rightarrow> ossl_time \<Rightarrow> newreno \<times> bool" where
  "newreno_on_ecn now nr largest_acked_time =
     (newreno_flush now (nr\<lparr>processing_loss := True, bytes_acked := 0, tx_time_of_last_loss := largest_acked_time\<rparr>) 0,
      True)"

section \<open>Accounting of bytes in flight\<close>

text \<open>
  What the packet-loss machinery relies on in any congestion controller: the count of bytes in flight
  follows what is sent, acknowledged, lost and invalidated.
\<close>

locale congestion_accounting =
  fixes flight :: "'s \<Rightarrow> nat" and sent :: "'s \<Rightarrow> u64 \<Rightarrow> 's \<times> bool"
    and acked lost :: "'s \<Rightarrow> ossl_time \<Rightarrow> u64 \<Rightarrow> 's \<times> bool" and invalidated :: "'s \<Rightarrow> u64 \<Rightarrow> 's \<times> bool"
  assumes sent_flight: "flight s + unat n < 2 ^ 64 \<Longrightarrow> flight (fst (sent s n)) = flight s + unat n"
    and acked_flight: "unat n \<le> flight s \<Longrightarrow> flight (fst (acked s t n)) = flight s - unat n"
    and lost_flight: "unat n \<le> flight s \<Longrightarrow> flight (fst (lost s t n)) = flight s - unat n"
    and invalidated_flight: "unat n \<le> flight s \<Longrightarrow> flight (fst (invalidated s n)) = flight s - unat n"
begin

text \<open>\<open>M\<close>: the sizes of the packets in flight.\<close>

definition accounts :: "'s \<Rightarrow> u64 multiset \<Rightarrow> bool" where
  "accounts s M \<longleftrightarrow> flight s = \<Sum>\<^sub># (image_mset unat M)"

lemma sent_accounts:
  "accounts s M \<Longrightarrow> \<Sum>\<^sub># (image_mset unat M) + unat n < 2 ^ 64 \<Longrightarrow> accounts (fst (sent s n)) (add_mset n M)"
  by (simp add: accounts_def sent_flight)

lemma outstanding_le: "n \<in># M \<Longrightarrow> unat n \<le> \<Sum>\<^sub># (image_mset unat M)" for n :: u64
  by (metis le_add1 multi_member_split image_mset_add_mset sum_mset.insert)

lemma outstanding_remove:
  "n \<in># M \<Longrightarrow> \<Sum>\<^sub># (image_mset unat (M - {#n#})) = \<Sum>\<^sub># (image_mset unat M) - unat n" for n :: u64
  by (simp add: image_mset_Diff sum_mset_diff)

lemma removed_accounts:
  assumes "accounts s M" and "n \<in># M"
  shows "accounts (fst (acked s t n)) (M - {#n#})" "accounts (fst (lost s t n)) (M - {#n#})"
    "accounts (fst (invalidated s n)) (M - {#n#})"
  using assms outstanding_le [OF assms(2)]
  by (simp_all add: accounts_def outstanding_remove acked_flight lost_flight invalidated_flight)

end

lemma update_diag_simps [simp]:
  "k_init_wnd (newreno_update_diag nr) = k_init_wnd nr" "k_min_wnd (newreno_update_diag nr) = k_min_wnd nr"
  "k_loss_reduction_factor_num (newreno_update_diag nr) = k_loss_reduction_factor_num nr"
  "k_loss_reduction_factor_den (newreno_update_diag nr) = k_loss_reduction_factor_den nr"
  "max_dgram_size (newreno_update_diag nr) = max_dgram_size nr"
  "bytes_in_flight (newreno_update_diag nr) = bytes_in_flight nr" "cong_wnd (newreno_update_diag nr) = cong_wnd nr"
  "slow_start_thresh (newreno_update_diag nr) = slow_start_thresh nr" "bytes_acked (newreno_update_diag nr) = bytes_acked nr"
  "cong_recovery_start_time (newreno_update_diag nr) = cong_recovery_start_time nr"
  "processing_loss (newreno_update_diag nr) = processing_loss nr"
  "tx_time_of_last_loss (newreno_update_diag nr) = tx_time_of_last_loss nr"
  "in_congestion_recovery (newreno_update_diag nr) = in_congestion_recovery nr"
  by (simp_all add: newreno_update_diag_def)

lemma flight_simps [simp]:
  "bytes_in_flight (newreno_cong now nr t) = bytes_in_flight nr"
  "bytes_in_flight (newreno_flush now nr flags) = bytes_in_flight nr"
  "bytes_in_flight (fst (newreno_on_data_acked nr t n)) = bytes_in_flight nr - n"
  "bytes_in_flight (fst (newreno_set_input_params nr params)) = bytes_in_flight nr"
  "bytes_in_flight (fst (newreno_bind_diagnostic nr params)) = bytes_in_flight nr"
  "bytes_in_flight (fst (newreno_unbind_diagnostic nr params)) = bytes_in_flight nr"
  by (simp_all add: newreno_cong_def newreno_flush_def newreno_on_data_acked_def newreno_set_input_params_def
      newreno_set_max_dgram_size_def newreno_bind_diagnostic_def newreno_unbind_diagnostic_def
      case_prod_unfold Let_def split: option.splits)

interpretation nr: congestion_accounting "\<lambda>nr. unat (bytes_in_flight nr)" newreno_on_data_sent
  newreno_on_data_acked newreno_on_data_lost newreno_on_data_invalidated
proof (unfold_locales, goal_cases)
  case (1 nr n)
  then show ?case
    by (simp add: newreno_on_data_sent_def unat_add_no_overflow)
next
  case (2 n nr t)
  then show ?case
    by (simp add: unat_sub_no_underflow word_le_nat_alt)
next
  case (3 n nr t)
  then show ?case
    by (auto simp: newreno_on_data_lost_def Let_def unat_sub_no_underflow word_le_nat_alt word_less_nat_alt)
next
  case (4 n nr)
  then show ?case
    by (simp add: newreno_on_data_invalidated_def unat_sub_no_underflow word_le_nat_alt)
qed

section \<open>The congestion window\<close>

text \<open>
  \<open>newreno_ok\<close>: datagrams are at least QUIC's minimum (and below 2^59 bytes, so that the window
  arithmetic does not wrap), the minimum window is two datagrams, the loss factor is one half, and
  the window is at least two minimum datagrams.
\<close>

definition newreno_ok :: "newreno \<Rightarrow> bool" where
  "newreno_ok nr \<longleftrightarrow> 1200 \<le> unat (max_dgram_size nr) \<and> unat (max_dgram_size nr) < 2 ^ 59
     \<and> k_min_wnd nr = 2 * max_dgram_size nr \<and> 2400 \<le> unat (k_init_wnd nr)
     \<and> k_loss_reduction_factor_num nr = 1 \<and> k_loss_reduction_factor_den nr = 2
     \<and> 2400 \<le> unat (cong_wnd nr)"

lemma min_wnd_nat: "newreno_ok nr \<Longrightarrow> unat (k_min_wnd nr) = 2 * unat (max_dgram_size nr)"
  by (simp add: newreno_ok_def unat_mult_no_overflow)

lemma set_max_dgram_ok:
  assumes "newreno_ok nr \<or> cong_wnd nr = 0 \<and> max_dgram_size nr = 0" and "1200 \<le> unat d" and "unat d < 2 ^ 59"
  defines "nr' \<equiv> newreno_set_max_dgram_size nr d"
  shows "max_dgram_size nr' = d" and "k_min_wnd nr' = 2 * d" and "2400 \<le> unat (k_init_wnd nr')"
    and "newreno_ok nr \<Longrightarrow> newreno_ok nr'" and "bytes_in_flight nr' = bytes_in_flight nr"
proof -
  have m: "unat (2 * d) = 2 * unat d" "unat (10 * d) = 10 * unat d"
    using assms(3) by (simp_all add: unat_mult_no_overflow)
  show d: "max_dgram_size nr' = d" and k: "k_min_wnd nr' = 2 * d" and "bytes_in_flight nr' = bytes_in_flight nr"
    by (simp_all add: nr'_def newreno_set_max_dgram_size_def Let_def)
  show init: "2400 \<le> unat (k_init_wnd nr')"
    using assms(2) m by (simp add: nr'_def newreno_set_max_dgram_size_def Let_def MIN_MAX_INIT_WND_SIZE_def)
  assume ok: "newreno_ok nr"
  have "cong_wnd nr' = (if d < max_dgram_size nr then k_init_wnd nr' else cong_wnd nr)"
    "k_loss_reduction_factor_num nr' = k_loss_reduction_factor_num nr"
    "k_loss_reduction_factor_den nr' = k_loss_reduction_factor_den nr"
    by (simp_all add: nr'_def newreno_set_max_dgram_size_def Let_def)
  with ok d k init assms(2,3) show "newreno_ok nr'"
    by (simp add: newreno_ok_def)
qed

lemma newreno_new_ok: "newreno_new True = Some nr \<Longrightarrow> newreno_ok nr \<and> bytes_in_flight nr = 0"
  by (auto simp: newreno_new_def newreno_reset_def newreno_set_max_dgram_size_def newreno_ok_def Let_def
      QUIC_MIN_INITIAL_DGRAM_LEN_def MIN_MAX_INIT_WND_SIZE_def)

lemma newreno_half: "newreno_ok nr \<Longrightarrow>
  safe_muldiv (cong_wnd nr) (ucast (k_loss_reduction_factor_num nr)) (ucast (k_loss_reduction_factor_den nr))
    = (cong_wnd nr div 2, False)"
proof -
  assume ok: "newreno_ok nr"
  then have c: "k_loss_reduction_factor_num nr = 1" "k_loss_reduction_factor_den nr = 2"
    by (simp_all add: newreno_ok_def)
  have "\<not> snd (safe_muldiv (cong_wnd nr) 1 2)"
    by (intro safe_muldiv_no_error) simp_all
  moreover have "fst (safe_muldiv (cong_wnd nr) 1 2) = cong_wnd nr div 2"
    using safe_muldiv_exact [OF calculation] by (simp add: word_unat_eq_iff unat_div)
  ultimately show ?thesis
    using c by (simp add: prod_eq_iff)
qed

lemma newreno_cong_eq:
  assumes "newreno_ok nr"
  shows "newreno_cong now nr t =
    (if t \<le> cong_recovery_start_time nr then nr
     else nr\<lparr>in_congestion_recovery := True, cong_recovery_start_time := now,
       slow_start_thresh := cong_wnd nr div 2, cong_wnd := max (cong_wnd nr div 2) (k_min_wnd nr)\<rparr>)"
  unfolding newreno_cong_def newreno_half [OF assms]
  by (auto simp: newreno_in_cong_recovery_def ossl_time_simps max_def Let_def)

lemma newreno_cong_ok:
  assumes "newreno_ok nr"
  shows "newreno_ok (newreno_cong now nr t)"
proof -
  have "2400 \<le> unat (k_min_wnd nr)"
    using min_wnd_nat [OF assms] assms by (simp add: newreno_ok_def)
  then show ?thesis
    using assms unfolding newreno_cong_eq [OF assms]
    by (auto simp: newreno_ok_def max_def word_le_nat_alt)
qed

lemma newreno_flush_ok:
  assumes "newreno_ok nr"
  shows "newreno_ok (newreno_flush now nr flags)"
  using newreno_cong_ok [OF assms, of now "tx_time_of_last_loss nr"]
    min_wnd_nat [OF newreno_cong_ok [OF assms, of now "tx_time_of_last_loss nr"]] assms
  by (auto simp: newreno_flush_def newreno_ok_def Let_def)

lemma newreno_acked_ok:
  assumes ok: "newreno_ok nr" and "unat (cong_wnd nr) + max (unat n) (unat (max_dgram_size nr)) < 2 ^ 64"
  shows "newreno_ok (fst (newreno_on_data_acked nr t n))"
proof -
  have "unat (cong_wnd nr + n) = unat (cong_wnd nr) + unat n"
    "unat (cong_wnd nr + max_dgram_size nr) = unat (cong_wnd nr) + unat (max_dgram_size nr)"
    using assms(2) by (simp_all add: unat_add_no_overflow)
  with ok show ?thesis
    by (simp add: newreno_on_data_acked_def newreno_ok_def Let_def)
qed

text \<open>The life of a controller; \<open>M\<close> are the sizes of the packets in flight.\<close>

inductive newreno_run :: "newreno \<Rightarrow> u64 multiset \<Rightarrow> bool" where
  new: "newreno_new True = Some nr \<Longrightarrow> newreno_run nr {#}"
| sent: "newreno_run nr M \<Longrightarrow> \<Sum>\<^sub># (image_mset unat M) + unat n < 2 ^ 64 \<Longrightarrow>
    newreno_run (fst (newreno_on_data_sent nr n)) (add_mset n M)"
| acked: "newreno_run nr M \<Longrightarrow> n \<in># M \<Longrightarrow> unat (cong_wnd nr) + max (unat n) (unat (max_dgram_size nr)) < 2 ^ 64 \<Longrightarrow>
    newreno_run (fst (newreno_on_data_acked nr t n)) (M - {#n#})"
| lost: "newreno_run nr M \<Longrightarrow> n \<in># M \<Longrightarrow> newreno_run (fst (newreno_on_data_lost nr t n)) (M - {#n#})"
| lost_finished: "newreno_run nr M \<Longrightarrow> newreno_run (fst (newreno_on_data_lost_finished now nr flags)) M"
| invalidated: "newreno_run nr M \<Longrightarrow> n \<in># M \<Longrightarrow> newreno_run (fst (newreno_on_data_invalidated nr n)) (M - {#n#})"
| ecn: "newreno_run nr M \<Longrightarrow> newreno_run (fst (newreno_on_ecn now nr t)) M"
| set_params: "newreno_run nr M \<Longrightarrow>
    (\<forall>p v. params ''max_dgram_payload_len'' = Some p \<longrightarrow> get_size_t p = Some v \<longrightarrow> unat v < 2 ^ 59) \<Longrightarrow>
    newreno_run (fst (newreno_set_input_params nr params)) M"
| bind: "newreno_run nr M \<Longrightarrow> newreno_run (fst (newreno_bind_diagnostic nr params)) M"
| unbind: "newreno_run nr M \<Longrightarrow> newreno_run (fst (newreno_unbind_diagnostic nr params)) M"

lemma newreno_run_accounts: "newreno_run nr M \<Longrightarrow> nr.accounts nr M"
proof (induction rule: newreno_run.induct)
  case (new nr)
  then show ?case
    using newreno_new_ok by (simp add: nr.accounts_def)
next
  case (sent nr M n)
  then show ?case
    by (simp add: nr.sent_accounts)
qed (simp_all add: nr.removed_accounts, simp_all add: nr.accounts_def newreno_on_data_lost_finished_def newreno_on_ecn_def)

lemma newreno_run_ok: "newreno_run nr M \<Longrightarrow> newreno_ok nr"
proof (induction rule: newreno_run.induct)
  case (new nr)
  then show ?case
    using newreno_new_ok by blast
next
  case (acked nr M n t)
  then show ?case
    by (simp add: newreno_acked_ok)
next
  case (lost_finished nr M now flags)
  then show ?case
    by (simp add: newreno_on_data_lost_finished_def newreno_flush_ok)
next
  case (ecn nr M now t)
  then have "newreno_ok (nr\<lparr>processing_loss := True, bytes_acked := 0, tx_time_of_last_loss := t\<rparr>)"
    by (simp add: newreno_ok_def)
  then show ?case
    by (simp add: newreno_on_ecn_def newreno_flush_ok)
next
  case (set_params nr M params)
  then show ?case
    using set_max_dgram_ok(4) [of nr]
    by (auto simp: newreno_set_input_params_def QUIC_MIN_INITIAL_DGRAM_LEN_def word_less_nat_alt not_less
        split: option.splits)
qed (auto simp: newreno_ok_def newreno_on_data_sent_def newreno_on_data_lost_def newreno_on_data_invalidated_def
    newreno_bind_diagnostic_def newreno_unbind_diagnostic_def Let_def split: option.splits)

text \<open>
  Property C19. Whatever the order of events, the controller's count of bytes in flight is exactly the
  total size of the packets sent and not yet acknowledged, lost or invalidated; the congestion
  window never falls below two minimum-size datagrams; and sending no more than the reported
  allowance keeps the bytes in flight within the window.
\<close>

theorem newreno_in_flight_exact:
  assumes "newreno_run nr M"
  shows "unat (bytes_in_flight nr) = \<Sum>\<^sub># (image_mset unat M) \<and> 2400 \<le> unat (cong_wnd nr)
    \<and> (0 < n \<and> n \<le> newreno_get_tx_allowance nr \<longrightarrow>
        unat (bytes_in_flight (fst (newreno_on_data_sent nr n))) = \<Sum>\<^sub># (image_mset unat M) + unat n
        \<and> bytes_in_flight (fst (newreno_on_data_sent nr n)) \<le> cong_wnd nr)"
proof -
  have M: "unat (bytes_in_flight nr) = \<Sum>\<^sub># (image_mset unat M)"
    using newreno_run_accounts [OF assms] by (simp add: nr.accounts_def)
  moreover have "2400 \<le> unat (cong_wnd nr)"
    using newreno_run_ok [OF assms] by (simp add: newreno_ok_def)
  moreover have "unat (bytes_in_flight nr + n) = unat (bytes_in_flight nr) + unat n
      \<and> unat (bytes_in_flight nr) + unat n \<le> unat (cong_wnd nr)" if "0 < n" "n \<le> newreno_get_tx_allowance nr"
  proof -
    have "unat (bytes_in_flight nr) + unat n \<le> unat (cong_wnd nr)"
      using that by (auto simp: newreno_get_tx_allowance_def word_le_nat_alt word_less_nat_alt unat_sub_no_underflow
          split: if_splits)
    then show ?thesis
      using unat_u64_bound [of "cong_wnd nr"] by (auto intro!: unat_add_no_overflow simp del: unat_u64_bound)
  qed
  ultimately show ?thesis
    by (simp add: newreno_on_data_sent_def word_le_nat_alt)
qed

lemma newreno_run_example:
  obtains nr where "newreno_new True = Some nr" "newreno_run (fst (newreno_on_data_sent nr 1200)) {#1200#}"
    "newreno_get_tx_allowance (fst (newreno_on_data_sent nr 1200)) = 10800"
proof -
  obtain nr where nr: "newreno_new True = Some nr"
    by (simp add: newreno_new_def)
  then have "newreno_run (fst (newreno_on_data_sent nr 1200)) {#1200#}"
    using newreno_run.sent [OF newreno_run.new [OF nr], of 1200] by simp
  moreover have "newreno_get_tx_allowance (fst (newreno_on_data_sent nr 1200)) = 10800"
    using nr by (auto simp: newreno_new_def newreno_reset_def newreno_set_max_dgram_size_def newreno_on_data_sent_def
        newreno_get_tx_allowance_def QUIC_MIN_INITIAL_DGRAM_LEN_def MIN_MAX_INIT_WND_SIZE_def Let_def)
  ultimately show ?thesis
    using nr that by blast
qed

theorem newreno_in_flight_exact_witness:
  "\<exists>nr. newreno_run nr {#1200#} \<and> unat (bytes_in_flight nr) = 1200
     \<and> unat (bytes_in_flight (fst (newreno_on_data_sent nr 800))) = 2000"
proof -
  obtain nr where nr: "newreno_run (fst (newreno_on_data_sent nr 1200)) {#1200#}"
    "newreno_get_tx_allowance (fst (newreno_on_data_sent nr 1200)) = 10800"
    by (rule newreno_run_example)
  then show ?thesis
    using newreno_in_flight_exact [OF nr(1), of 800] by (intro exI [of _ "fst (newreno_on_data_sent nr 1200)"]) simp
qed

text \<open>
  The response to a batch of losses: nothing changes unless a loss was recorded since the
  last flush; a loss of a packet sent before the current recovery period began leaves the window as it
  is; otherwise the window is halved, but not below the minimum window, and a recovery period begins
  now. Persistent congestion sets the window to the minimum.
\<close>

theorem newreno_loss_response:
  fixes now :: ossl_time and flags :: u32
  assumes "newreno_run nr M"
  defines "nr' \<equiv> fst (newreno_on_data_lost_finished now nr flags)"
  shows "cong_wnd nr' =
      (if \<not> processing_loss nr then cong_wnd nr
       else if flags AND OSSL_CC_LOST_FLAG_PERSISTENT_CONGESTION \<noteq> 0 then k_min_wnd nr
       else if tx_time_of_last_loss nr \<le> cong_recovery_start_time nr then cong_wnd nr
       else max (cong_wnd nr div 2) (k_min_wnd nr))
    \<and> bytes_in_flight nr' = bytes_in_flight nr \<and> \<not> processing_loss nr'
    \<and> (processing_loss nr \<and> cong_recovery_start_time nr < tx_time_of_last_loss nr \<longrightarrow>
        in_congestion_recovery nr' \<and> slow_start_thresh nr' = cong_wnd nr div 2
        \<and> (flags AND OSSL_CC_LOST_FLAG_PERSISTENT_CONGESTION = 0 \<longrightarrow> cong_recovery_start_time nr' = now))"
  using newreno_run_ok [OF assms(1)] unfolding nr'_def newreno_on_data_lost_finished_def newreno_flush_def fst_conv
  by (cases "tx_time_of_last_loss nr \<le> cong_recovery_start_time nr") (simp_all add: newreno_cong_eq Let_def not_less [symmetric])

theorem newreno_loss_response_witness:
  "\<exists>nr nr'. newreno_run nr {#1200#} \<and> nr' = fst (newreno_on_data_lost_finished (Ticks 5) nr 0) \<and> cong_wnd nr' = cong_wnd nr"
proof -
  obtain nr where nr: "newreno_new True = Some nr" "newreno_run (fst (newreno_on_data_sent nr 1200)) {#1200#}"
    by (rule newreno_run_example)
  then have "\<not> processing_loss (fst (newreno_on_data_sent nr 1200))"
    by (auto simp: newreno_new_def newreno_reset_def newreno_on_data_sent_def Let_def)
  with newreno_loss_response [OF nr(2), of "Ticks 5" 0] nr(2) show ?thesis
    by metis
qed

text \<open>
  The effect of an acknowledgement on the window: none when the window is not being used
  fully or the packet was sent before the current recovery period; in slow start it grows by the
  acknowledged bytes; in congestion avoidance by one datagram for every full window of bytes
  acknowledged.
\<close>

theorem newreno_ack_growth:
  "cong_wnd (fst (newreno_on_data_acked nr t n)) =
      (if newreno_is_cong_limited (nr\<lparr>bytes_in_flight := bytes_in_flight nr - n\<rparr>) \<and> cong_recovery_start_time nr < t
       then if cong_wnd nr < slow_start_thresh nr then cong_wnd nr + n
            else if cong_wnd nr \<le> bytes_acked nr + n then cong_wnd nr + max_dgram_size nr
            else cong_wnd nr
       else cong_wnd nr)"
  by (auto simp: newreno_on_data_acked_def newreno_in_cong_recovery_def ossl_time_simps Let_def not_le)

end
