(* ===== verification/Ackm.thy ===== *)
theory Ackm
  imports Statm Newreno Uint_Set Quic_Frames
begin

text \<open>
  \<^verbatim>\<open>ssl/quic/quic_ackm.c\<close>: the acknowledgement manager. Its sending side keeps the packets that were sent and not yet acknowledged, lost or
  discarded, detects losses and sets the loss detection timer (RFC 9002); its receiving side keeps the packet numbers that were
  received and generates ACK frames. The congestion controller is reached through its method table, a record of functions; each
  reading of the clock is an argument. Callbacks of packets and of the deadlines are recorded in order.
\<close>

section \<open>Data\<close>

datatype pn_space = QUIC_PN_SPACE_INITIAL | QUIC_PN_SPACE_HANDSHAKE | QUIC_PN_SPACE_APP

text \<open>The loops over the packet number spaces.\<close>

abbreviation pn_spaces :: "pn_space list" where
  "pn_spaces \<equiv> [QUIC_PN_SPACE_INITIAL, QUIC_PN_SPACE_HANDSHAKE, QUIC_PN_SPACE_APP]"

definition QUIC_PN_INVALID :: u64 where "QUIC_PN_INVALID = - 1"
definition QUIC_DEFAULT_MAX_ACK_DELAY :: u64 where "QUIC_DEFAULT_MAX_ACK_DELAY = 25"
definition K_GRANULARITY :: u64 where "K_GRANULARITY = 1 * OSSL_TIME_MS"
definition K_PKT_THRESHOLD :: u64 where "K_PKT_THRESHOLD = 3"
definition K_TIME_THRESHOLD_NUM :: u64 where "K_TIME_THRESHOLD_NUM = 9"
definition K_TIME_THRESHOLD_DEN :: u64 where "K_TIME_THRESHOLD_DEN = 8"
definition MAX_PTO_COUNT :: u32 where "MAX_PTO_COUNT = 16"
definition MAX_RX_ACK_RANGES :: nat where "MAX_RX_ACK_RANGES = 32"
definition PKTS_BEFORE_ACK :: u32 where "PKTS_BEFORE_ACK = 2"
definition DEFAULT_TX_MAX_ACK_DELAY :: ossl_time where "DEFAULT_TX_MAX_ACK_DELAY = ossl_ms2time QUIC_DEFAULT_MAX_ACK_DELAY"

definition ossl_quic_pn_max :: "u64 \<Rightarrow> u64 \<Rightarrow> u64" where
  "ossl_quic_pn_max a b = (if a > b then a else b)"

definition min_u32 :: "u32 \<Rightarrow> u32 \<Rightarrow> u32" where
  "min_u32 x y = (if x < y then x else y)"

text \<open>
  A transmitted packet. Of its callbacks the model keeps the argument they are called with and whether \<^verbatim>\<open>on_acked\<close> frees the packet. The links of
  the lists a packet can be in are the lists.
\<close>

record ackm_tx_pkt =
  tp_pkt_num :: u64
  tp_num_bytes :: u64
  tp_time :: ossl_time
  tp_largest_acked :: u64
  tp_pkt_space :: pn_space
  tp_is_inflight :: bool
  tp_is_ack_eliciting :: bool
  tp_is_pto_probe :: bool
  tp_is_mtu_probe :: bool
  tp_cb_arg :: nat
  tp_on_acked_frees :: bool

datatype ackm_ecn = OSSL_ACKM_ECN_NONE | OSSL_ACKM_ECN_ECT1 | OSSL_ACKM_ECN_ECT0 | OSSL_ACKM_ECN_ECNCE

record ackm_rx_pkt =
  rp_pkt_num :: u64
  rp_time :: ossl_time
  rp_pkt_space :: pn_space
  rp_is_ack_eliciting :: bool
  rp_ecn :: ackm_ecn

text \<open>The hash table is a map from packet numbers (\<^term>\<open>None\<close>: the null pointer it becomes when the history is destroyed).\<close>

record tx_pkt_history =
  tx_packets :: "ackm_tx_pkt list"
  tx_map :: "(u64 \<rightharpoonup> ackm_tx_pkt) option"
  tx_watermark :: u64
  tx_highest_sent :: u64

record rx_pkt_history =
  rx_set :: uint_set
  rx_watermark :: u64

record ackm_probe_info =
  anti_deadlock_initial :: u32
  anti_deadlock_handshake :: u32
  probe_pto :: "pn_space \<Rightarrow> u32"

text \<open>The methods of a congestion controller that the manager calls (\<^verbatim>\<open>OSSL_CC_METHOD\<close>, \<^verbatim>\<open>include/internal/quic_cc.h\<close>).\<close>

record 'cc cc_method =
  on_data_sent :: "'cc \<Rightarrow> u64 \<Rightarrow> 'cc \<times> bool"
  on_data_acked :: "'cc \<Rightarrow> ossl_time \<Rightarrow> u64 \<Rightarrow> 'cc \<times> bool"
  on_data_lost :: "'cc \<Rightarrow> ossl_time \<Rightarrow> u64 \<Rightarrow> 'cc \<times> bool"
  on_data_lost_finished :: "'cc \<Rightarrow> u32 \<Rightarrow> 'cc \<times> bool"
  on_data_invalidated :: "'cc \<Rightarrow> u64 \<Rightarrow> 'cc \<times> bool"
  on_ecn :: "'cc \<Rightarrow> ossl_time \<Rightarrow> 'cc \<times> bool"

datatype ackm_event =
  On_Lost ackm_tx_pkt | On_Acked ackm_tx_pkt | On_Discarded ackm_tx_pkt
  | Loss_Detection_Deadline ossl_time | Ack_Deadline ossl_time pn_space

record 'cc ackm =
  tx_history :: "pn_space \<Rightarrow> tx_pkt_history"
  rx_history :: "pn_space \<Rightarrow> rx_pkt_history"
  ackm_statm :: statm
  cc_data :: 'cc
  pto_count :: u32
  largest_acked_pkt :: "pn_space \<Rightarrow> u64"
  time_of_last_ack_eliciting_pkt :: "pn_space \<Rightarrow> ossl_time"
  loss_time :: "pn_space \<Rightarrow> ossl_time"
  loss_detection_deadline :: ossl_time
  first_rtt_sample :: ossl_time
  ackm_bytes_in_flight :: u64
  ack_eliciting_bytes_in_flight :: "pn_space \<Rightarrow> u64"
  peer_ecnce :: "pn_space \<Rightarrow> u64"
  handshake_confirmed :: bool
  is_server :: bool
  peer_completed_addr_validation :: bool
  discarded :: "pn_space \<Rightarrow> bool"
  rx_ack_desired :: "pn_space \<Rightarrow> bool"
  rx_ack_generated :: "pn_space \<Rightarrow> bool"
  pending_probe :: ackm_probe_info
  ackm_ack :: "pn_space \<Rightarrow> ossl_quic_frame_ack"
  rx_largest_pn :: "pn_space \<Rightarrow> u64"
  rx_largest_time :: "pn_space \<Rightarrow> ossl_time"
  rx_ect0 :: "pn_space \<Rightarrow> u64"
  rx_ect1 :: "pn_space \<Rightarrow> u64"
  rx_ecnce :: "pn_space \<Rightarrow> u64"
  rx_ack_eliciting_pkts_since_last_ack :: "pn_space \<Rightarrow> u32"
  rx_ack_flush_deadline :: "pn_space \<Rightarrow> ossl_time"
  rx_max_ack_delay :: ossl_time
  tx_max_ack_delay :: ossl_time
  loss_detection_deadline_cb :: bool
  ack_deadline_cb :: bool
  ackm_events :: "ackm_event list"

section \<open>Packet history of the sending side\<close>

text \<open>
  \<open>mem\<close>: the hash table has memory for the entry. The result of its insertion is not looked at. \<^verbatim>\<open>tx_pkt_history_add_actual\<close> also asserts that the packet is in no
  list yet; packets are values here, so that a packet in a list is one that the hash table finds, which the function checks first.
\<close>

definition tx_pkt_history_by_pkt_num :: "tx_pkt_history \<Rightarrow> u64 \<Rightarrow> c_fault + ackm_tx_pkt option" where
  "tx_pkt_history_by_pkt_num h pkt_num = (case tx_map h of None \<Rightarrow> Inl NullDeref | Some m \<Rightarrow> Inr (m pkt_num))"

definition tx_pkt_history_init :: "bool \<Rightarrow> tx_pkt_history option" where
  "tx_pkt_history_init mem =
     (if mem then Some \<lparr>tx_packets = [], tx_map = Some Map.empty, tx_watermark = 0, tx_highest_sent = 0\<rparr> else None)"

definition tx_pkt_history_destroy :: "tx_pkt_history \<Rightarrow> tx_pkt_history" where
  "tx_pkt_history_destroy h = h\<lparr>tx_map := None, tx_packets := []\<rparr>"

definition tx_pkt_history_add_actual :: "bool \<Rightarrow> tx_pkt_history \<Rightarrow> ackm_tx_pkt \<Rightarrow> c_fault + (tx_pkt_history \<times> bool)" where
  "tx_pkt_history_add_actual mem h pkt =
     res_bind (tx_pkt_history_by_pkt_num h (tp_pkt_num pkt)) (\<lambda>existing.
       if existing \<noteq> None then Inr (h, False)
       else Inr (h\<lparr>tx_map := (if mem then map_option (\<lambda>m. m(tp_pkt_num pkt \<mapsto> pkt)) (tx_map h) else tx_map h),
                   tx_packets := tx_packets h @ [pkt]\<rparr>, True))"

definition tx_pkt_history_add :: "bool \<Rightarrow> tx_pkt_history \<Rightarrow> ackm_tx_pkt \<Rightarrow> c_fault + (tx_pkt_history \<times> bool)" where
  "tx_pkt_history_add mem h pkt =
     (if \<not> tp_pkt_num pkt \<ge> tx_watermark h then Inr (h, False)
      else res_bind (tx_pkt_history_add_actual mem h pkt) (\<lambda>(h, ok).
        if \<not> ok then Inr (h, False)
        else Inr (h\<lparr>tx_watermark := tp_pkt_num pkt + 1, tx_highest_sent := tp_pkt_num pkt\<rparr>, True)))"

definition tx_pkt_history_remove :: "tx_pkt_history \<Rightarrow> u64 \<Rightarrow> c_fault + (tx_pkt_history \<times> bool)" where
  "tx_pkt_history_remove h pkt_num =
     res_bind (tx_pkt_history_by_pkt_num h pkt_num) (\<lambda>r.
       case r of
         None \<Rightarrow> Inr (h, False)
       | Some pkt \<Rightarrow> Inr (h\<lparr>tx_packets := remove1 pkt (tx_packets h),
                            tx_map := map_option (\<lambda>m. m(pkt_num := None)) (tx_map h)\<rparr>, True))"

section \<open>Packet numbers received\<close>

text \<open>
  \<^verbatim>\<open>rx_pkt_history_destroy\<close> frees the ranges and leaves the head of the list pointing at them; in the model the set is empty afterwards. A destroyed history is
  that of a discarded space, and the properties speak of the histories of the other spaces only.
\<close>

definition rx_pkt_history_init :: rx_pkt_history where
  "rx_pkt_history_init = \<lparr>rx_set = ossl_uint_set_init, rx_watermark = 0\<rparr>"

definition rx_pkt_history_destroy :: "rx_pkt_history \<Rightarrow> rx_pkt_history" where
  "rx_pkt_history_destroy h = h\<lparr>rx_set := []\<rparr>"

definition rx_pkt_history_bump_watermark :: "bool \<Rightarrow> rx_pkt_history \<Rightarrow> u64 \<Rightarrow> c_fault + (rx_pkt_history \<times> bool)" where
  "rx_pkt_history_bump_watermark mem h watermark =
     (if watermark \<le> rx_watermark h then Inr (h, True)
      else res_bind (ossl_uint_set_remove mem (rx_set h) \<lparr>rstart = 0, rend = watermark - 1\<rparr>) (\<lambda>(s, ok).
        if \<not> ok then Inr (h\<lparr>rx_set := s\<rparr>, False)
        else Inr (h\<lparr>rx_set := s, rx_watermark := watermark\<rparr>, True)))"

text \<open>
  The loop that removes the lowest ranges. A removal that takes none away would be repeated for ever; on the sets that occur every one
  takes the lowest range away.
\<close>

function rx_trim_loop :: "bool \<Rightarrow> uint_set \<Rightarrow> u64 \<Rightarrow> c_fault + (uint_set \<times> u64)" where
  "rx_trim_loop mem s highest =
     (if length s > MAX_RX_ACK_RANGES then
        let r = hd s;
            highest = (if highest = QUIC_PN_INVALID then rend r else ossl_quic_pn_max highest (rend r))
        in res_bind (ossl_uint_set_remove mem s r) (\<lambda>(s', ok).
             if length s' < length s then rx_trim_loop mem s' highest else Inl NoReturn)
      else Inr (s, highest))"
  by auto

termination rx_trim_loop
  by (relation "measure (\<lambda>(mem, s, highest). length s)") auto

declare rx_trim_loop.simps [simp del]

definition rx_pkt_history_trim_range_count :: "bool \<Rightarrow> rx_pkt_history \<Rightarrow> c_fault + rx_pkt_history" where
  "rx_pkt_history_trim_range_count mem h =
     res_bind (rx_trim_loop mem (rx_set h) QUIC_PN_INVALID) (\<lambda>(s, highest).
       let h = h\<lparr>rx_set := s\<rparr> in
       if highest \<noteq> QUIC_PN_INVALID
       then res_bind (rx_pkt_history_bump_watermark mem h (highest + 1)) (\<lambda>(h, ok). Inr h)
       else Inr h)"

definition rx_pkt_history_add_pn :: "bool \<Rightarrow> rx_pkt_history \<Rightarrow> u64 \<Rightarrow> c_fault + (rx_pkt_history \<times> bool)" where
  "rx_pkt_history_add_pn mem h pn =
     (if pn < rx_watermark h then Inr (h, True)
      else
        let (s, ok) = ossl_uint_set_insert mem (rx_set h) \<lparr>rstart = pn, rend = pn\<rparr> in
        if \<not> ok then Inr (h\<lparr>rx_set := s\<rparr>, False)
        else res_bind (rx_pkt_history_trim_range_count mem (h\<lparr>rx_set := s\<rparr>)) (\<lambda>h. Inr (h, True)))"

section \<open>Detection of acknowledged and lost packets\<close>

definition range_contains :: "ossl_quic_ack_range \<Rightarrow> u64 \<Rightarrow> bool" where
  "range_contains rg pn \<longleftrightarrow> pn \<ge> ar_start rg \<and> pn \<le> ar_end rg"

definition ack_includes_ack_eliciting :: "ackm_tx_pkt list \<Rightarrow> bool" where
  "ack_includes_ack_eliciting pkts = list_ex tp_is_ack_eliciting pkts"

definition ackm_ack_eliciting_bytes_in_flight :: "'cc ackm \<Rightarrow> u64" where
  "ackm_ack_eliciting_bytes_in_flight a = foldl (\<lambda>total i. total + ack_eliciting_bytes_in_flight a i) 0 pn_spaces"

text \<open>The walk from a packet towards the front of the list, and along the ranges.\<close>

fun newly_acked_walk ::
    "tx_pkt_history \<Rightarrow> ackm_tx_pkt list \<Rightarrow> ossl_quic_ack_range list \<Rightarrow> c_fault + (tx_pkt_history \<times> ackm_tx_pkt list)" where
  "newly_acked_walk h [] rs = Inr (h, [])"
| "newly_acked_walk h (pkt # pprevs) [] = Inr (h, [])"
| "newly_acked_walk h (pkt # pprevs) (r # rs) =
     (if range_contains r (tp_pkt_num pkt) then
        res_bind (tx_pkt_history_remove h (tp_pkt_num pkt)) (\<lambda>(h, _).
        res_bind (newly_acked_walk h pprevs (r # rs)) (\<lambda>(h, acked).
          Inr (h, pkt # acked)))
      else if tp_pkt_num pkt > ar_end r then newly_acked_walk h pprevs (r # rs)
      else newly_acked_walk h (pkt # pprevs) rs)"

definition ackm_detect_and_remove_newly_acked_pkts ::
    "'cc ackm \<Rightarrow> ossl_quic_frame_ack \<Rightarrow> pn_space \<Rightarrow> c_fault + ('cc ackm \<times> ackm_tx_pkt list)" where
  "ackm_detect_and_remove_newly_acked_pkts a ack pkt_space =
     (case ack_ranges ack of
        [] \<Rightarrow> Inl OutOfBounds
      | r0 # _ \<Rightarrow>
          let h = tx_history a pkt_space in
          res_bind (tx_pkt_history_by_pkt_num h (ar_end r0)) (\<lambda>found.
          let walk = (case found of
                Some pkt \<Rightarrow> pkt # rev (takeWhile (\<lambda>q. q \<noteq> pkt) (tx_packets h))
              | None \<Rightarrow> rev (tx_packets h)) in
          res_bind (newly_acked_walk h walk (ack_ranges ack)) (\<lambda>(h, acked_pkts).
            Inr (a\<lparr>tx_history := (tx_history a)(pkt_space := h)\<rparr>, acked_pkts))))"

fun lost_walk ::
    "u64 \<Rightarrow> ossl_time \<Rightarrow> ossl_time \<Rightarrow> tx_pkt_history \<Rightarrow> ackm_tx_pkt list \<Rightarrow> ossl_time
     \<Rightarrow> c_fault + (tx_pkt_history \<times> ossl_time \<times> ackm_tx_pkt list)" where
  "lost_walk largest lost_send_time loss_delay h [] lt = Inr (h, lt, [])"
| "lost_walk largest lost_send_time loss_delay h (pkt # pnexts) lt =
     (if tp_pkt_num pkt > largest then lost_walk largest lost_send_time loss_delay h pnexts lt
      else if ossl_time_compare (tp_time pkt) lost_send_time \<le> 0 \<or> largest \<ge> tp_pkt_num pkt + K_PKT_THRESHOLD then
        res_bind (tx_pkt_history_remove h (tp_pkt_num pkt)) (\<lambda>(h, _).
        res_bind (lost_walk largest lost_send_time loss_delay h pnexts lt) (\<lambda>(h, lt, lost).
          Inr (h, lt, pkt # lost)))
      else
        lost_walk largest lost_send_time loss_delay h pnexts
          (if ossl_time_is_zero lt then ossl_time_add (tp_time pkt) loss_delay
           else ossl_time_min lt (ossl_time_add (tp_time pkt) loss_delay)))"

definition ackm_loss_delay :: "rtt_info \<Rightarrow> ossl_time" where
  "ackm_loss_delay rtt =
     (let loss_delay = ossl_time_multiply (ossl_time_max (ri_latest_rtt rtt) (ri_smoothed_rtt rtt)) K_TIME_THRESHOLD_NUM;
          loss_delay = ossl_time_divide loss_delay K_TIME_THRESHOLD_DEN
      in ossl_time_max loss_delay (ossl_ticks2time K_GRANULARITY))"

definition ackm_detect_and_remove_lost_pkts ::
    "ossl_time \<Rightarrow> 'cc ackm \<Rightarrow> pn_space \<Rightarrow> c_fault + ('cc ackm \<times> ackm_tx_pkt list)" where
  "ackm_detect_and_remove_lost_pkts now a pkt_space =
     (let rtt = ossl_statm_get_rtt_info (ackm_statm a);
          loss_delay = ackm_loss_delay rtt;
          lost_send_time = ossl_time_subtract now loss_delay;
          h = tx_history a pkt_space
      in res_bind (lost_walk (largest_acked_pkt a pkt_space) lost_send_time loss_delay h (tx_packets h) ossl_time_zero) (\<lambda>(h, lt, lost).
           Inr (a\<lparr>loss_time := (loss_time a)(pkt_space := lt), tx_history := (tx_history a)(pkt_space := h)\<rparr>, lost)))"

section \<open>The loss detection timer\<close>

definition ackm_get_loss_time_and_space :: "'cc ackm \<Rightarrow> ossl_time \<times> pn_space" where
  "ackm_get_loss_time_and_space a =
     foldl (\<lambda>(time, space) i.
         if ossl_time_is_zero time \<or> ossl_time_compare (loss_time a i) time = - 1 then (loss_time a i, i) else (time, space))
       (loss_time a QUIC_PN_SPACE_INITIAL, QUIC_PN_SPACE_INITIAL) (tl pn_spaces)"

fun pto_loop :: "'cc ackm \<Rightarrow> pn_space list \<Rightarrow> ossl_time \<Rightarrow> ossl_time \<Rightarrow> pn_space \<Rightarrow> ossl_time \<times> pn_space" where
  "pto_loop a [] duration pto_timeout pto_space = (pto_timeout, pto_space)"
| "pto_loop a (i # is) duration pto_timeout pto_space =
     (if ack_eliciting_bytes_in_flight a i = 0 \<and> (handshake_confirmed a \<or> is_server a)
      then pto_loop a is duration pto_timeout pto_space
      else if i = QUIC_PN_SPACE_APP \<and> \<not> handshake_confirmed a then (pto_timeout, pto_space)
      else
        let duration =
              (if i = QUIC_PN_SPACE_APP \<and> \<not> ossl_time_is_infinite (rx_max_ack_delay a)
               then ossl_time_add duration
                      (ossl_time_multiply (rx_max_ack_delay a) (push_bit (unat (min_u32 (pto_count a) MAX_PTO_COUNT)) 1))
               else duration);
            t = ossl_time_add (time_of_last_ack_eliciting_pkt a i) duration
        in if \<not> ossl_time_is_zero (time_of_last_ack_eliciting_pkt a i) \<and> ossl_time_compare t pto_timeout < 0
           then pto_loop a is duration t i
           else pto_loop a is duration pto_timeout pto_space)"

definition ackm_get_pto_time_and_space :: "ossl_time \<Rightarrow> 'cc ackm \<Rightarrow> ossl_time \<times> pn_space" where
  "ackm_get_pto_time_and_space now a =
     (let rtt = ossl_statm_get_rtt_info (ackm_statm a);
          duration = ossl_time_add (ri_smoothed_rtt rtt)
            (ossl_time_max (ossl_time_multiply (ri_rtt_variance rtt) 4) (ossl_ticks2time K_GRANULARITY));
          duration = ossl_time_multiply duration (push_bit (unat (min_u32 (pto_count a) MAX_PTO_COUNT)) 1)
      in if ackm_ack_eliciting_bytes_in_flight a = 0
         then (ossl_time_add now duration,
               if discarded a QUIC_PN_SPACE_INITIAL then QUIC_PN_SPACE_HANDSHAKE else QUIC_PN_SPACE_INITIAL)
         else pto_loop a pn_spaces duration ossl_time_infinite QUIC_PN_SPACE_INITIAL)"

definition ackm_set_loss_detection_timer_actual :: "'cc ackm \<Rightarrow> ossl_time \<Rightarrow> 'cc ackm" where
  "ackm_set_loss_detection_timer_actual a deadline =
     (let a = a\<lparr>loss_detection_deadline := deadline\<rparr>
      in if loss_detection_deadline_cb a then a\<lparr>ackm_events := ackm_events a @ [Loss_Detection_Deadline deadline]\<rparr> else a)"

definition ackm_set_loss_detection_timer :: "ossl_time \<Rightarrow> 'cc ackm \<Rightarrow> 'cc ackm" where
  "ackm_set_loss_detection_timer now a =
     (let (earliest_loss_time, space) = ackm_get_loss_time_and_space a in
      if \<not> ossl_time_is_zero earliest_loss_time then ackm_set_loss_detection_timer_actual a earliest_loss_time
      else if ackm_ack_eliciting_bytes_in_flight a = 0 \<and> peer_completed_addr_validation a
      then ackm_set_loss_detection_timer_actual a ossl_time_zero
      else ackm_set_loss_detection_timer_actual a (fst (ackm_get_pto_time_and_space now a)))"

section \<open>What happens to packets\<close>

definition ackm_in_persistent_congestion :: "'cc ackm \<Rightarrow> ackm_tx_pkt list \<Rightarrow> bool" where
  "ackm_in_persistent_congestion a lpkts = False"

text \<open>\<open>flight_out\<close>: the counts without a packet that is in flight.\<close>

definition flight_out :: "'cc ackm \<Rightarrow> ackm_tx_pkt \<Rightarrow> 'cc ackm" where
  "flight_out a p =
     (let a = a\<lparr>ackm_bytes_in_flight := ackm_bytes_in_flight a - tp_num_bytes p\<rparr>
      in if tp_is_ack_eliciting p
         then a\<lparr>ack_eliciting_bytes_in_flight := (ack_eliciting_bytes_in_flight a)
                (tp_pkt_space p := ack_eliciting_bytes_in_flight a (tp_pkt_space p) - tp_num_bytes p)\<rparr>
         else a)"

definition ackm_event :: "'cc ackm \<Rightarrow> ackm_event \<Rightarrow> 'cc ackm" where
  "ackm_event a e = a\<lparr>ackm_events := ackm_events a @ [e]\<rparr>"

definition pkt_lost :: "'cc cc_method \<Rightarrow> bool \<Rightarrow> 'cc ackm \<Rightarrow> ackm_tx_pkt \<Rightarrow> 'cc ackm" where
  "pkt_lost M pseudo a p =
     (let a = (if tp_is_inflight p then
                 let a = flight_out a p
                 in if \<not> pseudo then a\<lparr>cc_data := fst (on_data_lost M (cc_data a) (tp_time p) (tp_num_bytes p))\<rparr> else a
               else a)
      in ackm_event a (On_Lost p))"

definition ackm_on_pkts_lost :: "'cc cc_method \<Rightarrow> 'cc ackm \<Rightarrow> pn_space \<Rightarrow> ackm_tx_pkt list \<Rightarrow> bool \<Rightarrow> 'cc ackm" where
  "ackm_on_pkts_lost M a pkt_space lpkts pseudo =
     (let a = foldl (pkt_lost M pseudo) a lpkts;
          flags = (if \<not> ossl_time_is_zero (first_rtt_sample a) \<and> ackm_in_persistent_congestion a lpkts
                   then OSSL_CC_LOST_FLAG_PERSISTENT_CONGESTION else 0)
      in a\<lparr>cc_data := fst (on_data_lost_finished M (cc_data a) flags)\<rparr>)"

text \<open>The packet is read again after its callback.\<close>

fun ackm_on_pkts_acked :: "'cc cc_method \<Rightarrow> bool \<Rightarrow> 'cc ackm \<Rightarrow> ackm_tx_pkt list \<Rightarrow> c_fault + 'cc ackm" where
  "ackm_on_pkts_acked M mem a [] = Inr a"
| "ackm_on_pkts_acked M mem a (apkt # anexts) =
     res_bind
       (if tp_is_inflight apkt then
          let a = flight_out a apkt in
          if tp_largest_acked apkt \<noteq> QUIC_PN_INVALID then
            res_bind (rx_pkt_history_bump_watermark mem (rx_history a (tp_pkt_space apkt)) (tp_largest_acked apkt + 1)) (\<lambda>(h, ok).
              Inr (a\<lparr>rx_history := (rx_history a)(tp_pkt_space apkt := h)\<rparr>))
          else Inr a
        else Inr a) (\<lambda>a.
     let a = ackm_event a (On_Acked apkt) in
     if tp_on_acked_frees apkt then Inl UseAfterFree
     else
       let a = (if tp_is_inflight apkt
                then a\<lparr>cc_data := fst (on_data_acked M (cc_data a) (tp_time apkt) (tp_num_bytes apkt))\<rparr> else a)
       in ackm_on_pkts_acked M mem a anexts)"

section \<open>Interface: sending side\<close>

definition ossl_ackm_new :: "bool \<times> bool \<times> bool \<times> bool \<Rightarrow> statm \<Rightarrow> 'cc \<Rightarrow> bool \<Rightarrow> 'cc ackm option" where
  "ossl_ackm_new mem statm cc server =
     (case mem of (m, mi, mh, ma) \<Rightarrow>
        if \<not> m then None
        else
          case (tx_pkt_history_init mi, tx_pkt_history_init mh, tx_pkt_history_init ma) of
            (Some hi, Some hh, Some ha) \<Rightarrow>
              Some \<lparr>tx_history = (\<lambda>i. case i of QUIC_PN_SPACE_INITIAL \<Rightarrow> hi | QUIC_PN_SPACE_HANDSHAKE \<Rightarrow> hh | QUIC_PN_SPACE_APP \<Rightarrow> ha),
                    rx_history = (\<lambda>_. rx_pkt_history_init), ackm_statm = statm, cc_data = cc, pto_count = 0,
                    largest_acked_pkt = (\<lambda>_. QUIC_PN_INVALID), time_of_last_ack_eliciting_pkt = (\<lambda>_. Ticks 0), loss_time = (\<lambda>_. Ticks 0),
                    loss_detection_deadline = Ticks 0, first_rtt_sample = Ticks 0, ackm_bytes_in_flight = 0,
                    ack_eliciting_bytes_in_flight = (\<lambda>_. 0), peer_ecnce = (\<lambda>_. 0), handshake_confirmed = False, is_server = server,
                    peer_completed_addr_validation = False, discarded = (\<lambda>_. False), rx_ack_desired = (\<lambda>_. False),
                    rx_ack_generated = (\<lambda>_. False),
                    pending_probe = \<lparr>anti_deadlock_initial = 0, anti_deadlock_handshake = 0, probe_pto = (\<lambda>_. 0)\<rparr>,
                    ackm_ack = (\<lambda>_. \<lparr>ack_ranges = [], delay_time = Ticks 0, ect0 = 0, ect1 = 0, ecnce = 0, ecn_present = False\<rparr>),
                    rx_largest_pn = (\<lambda>_. 0), rx_largest_time = (\<lambda>_. Ticks 0), rx_ect0 = (\<lambda>_. 0), rx_ect1 = (\<lambda>_. 0), rx_ecnce = (\<lambda>_. 0),
                    rx_ack_eliciting_pkts_since_last_ack = (\<lambda>_. 0), rx_ack_flush_deadline = (\<lambda>_. ossl_time_infinite),
                    rx_max_ack_delay = ossl_ms2time QUIC_DEFAULT_MAX_ACK_DELAY, tx_max_ack_delay = DEFAULT_TX_MAX_ACK_DELAY,
                    loss_detection_deadline_cb = False, ack_deadline_cb = False, ackm_events = []\<rparr>
          | _ \<Rightarrow> None)"

definition ossl_ackm_on_tx_packet ::
    "'cc cc_method \<Rightarrow> bool \<Rightarrow> ossl_time \<Rightarrow> 'cc ackm \<Rightarrow> ackm_tx_pkt \<Rightarrow> c_fault + ('cc ackm \<times> bool)" where
  "ossl_ackm_on_tx_packet M mem now a pkt =
     (let space = tp_pkt_space pkt; h = tx_history a space in
      if ossl_time_is_zero (tp_time pkt) \<or> ossl_time_compare (time_of_last_ack_eliciting_pkt a space) (tp_time pkt) > 0
      then Inr (a, False)
      else if tp_num_bytes pkt = 0 then Inr (a, False)
      else if \<not> tp_is_inflight pkt \<and> tp_is_ack_eliciting pkt then Inr (a, False)
      else res_bind (tx_pkt_history_add mem h pkt) (\<lambda>(h, ok).
        let a = a\<lparr>tx_history := (tx_history a)(space := h)\<rparr> in
        if \<not> ok then Inr (a, False)
        else
          Inr (if tp_is_inflight pkt then
                 let a = (if tp_is_ack_eliciting pkt
                          then a\<lparr>time_of_last_ack_eliciting_pkt := (time_of_last_ack_eliciting_pkt a)(space := tp_time pkt),
                                 ack_eliciting_bytes_in_flight := (ack_eliciting_bytes_in_flight a)
                                   (space := ack_eliciting_bytes_in_flight a space + tp_num_bytes pkt)\<rparr>
                          else a);
                     a = a\<lparr>ackm_bytes_in_flight := ackm_bytes_in_flight a + tp_num_bytes pkt\<rparr>;
                     a = ackm_set_loss_detection_timer now a
                 in a\<lparr>cc_data := fst (on_data_sent M (cc_data a) (tp_num_bytes pkt))\<rparr>
               else a, True)))"

definition ossl_ackm_on_rx_datagram :: "'cc ackm \<Rightarrow> u64 \<Rightarrow> 'cc ackm \<times> bool" where
  "ossl_ackm_on_rx_datagram a num_bytes = (a, True)"

definition ackm_process_ecn :: "'cc cc_method \<Rightarrow> 'cc ackm \<Rightarrow> ossl_quic_frame_ack \<Rightarrow> pn_space \<Rightarrow> c_fault + 'cc ackm" where
  "ackm_process_ecn M a ack pkt_space =
     (if ecnce ack > peer_ecnce a pkt_space then
        let a = a\<lparr>peer_ecnce := (peer_ecnce a)(pkt_space := ecnce ack)\<rparr> in
        case ack_ranges ack of
          [] \<Rightarrow> Inl OutOfBounds
        | r0 # _ \<Rightarrow>
            res_bind (tx_pkt_history_by_pkt_num (tx_history a pkt_space) (ar_end r0)) (\<lambda>pkt.
              case pkt of
                None \<Rightarrow> Inr a
              | Some p \<Rightarrow> Inr (a\<lparr>cc_data := fst (on_ecn M (cc_data a) (tp_time p))\<rparr>))
      else Inr a)"

definition ossl_ackm_on_rx_ack_frame ::
    "'cc cc_method \<Rightarrow> bool \<Rightarrow> ossl_time \<times> ossl_time \<times> ossl_time \<Rightarrow> 'cc ackm \<Rightarrow> ossl_quic_frame_ack \<Rightarrow> pn_space \<Rightarrow> ossl_time
     \<Rightarrow> c_fault + ('cc ackm \<times> bool)" where
  "ossl_ackm_on_rx_ack_frame M mem now a ack pkt_space rx_time =
     (case (now, ack_ranges ack) of
        (_, []) \<Rightarrow> Inl OutOfBounds
      | ((now_rtt, now_loss, now_timer), r0 # _) \<Rightarrow>
          let a = a\<lparr>largest_acked_pkt := (largest_acked_pkt a)
                (pkt_space := (if largest_acked_pkt a pkt_space = QUIC_PN_INVALID then ar_end r0
                               else ossl_quic_pn_max (largest_acked_pkt a pkt_space) (ar_end r0)))\<rparr>;
              must_set_timer = (\<not> peer_completed_addr_validation a \<and> pkt_space = QUIC_PN_SPACE_HANDSHAKE);
              a = (if must_set_timer then a\<lparr>peer_completed_addr_validation := True\<rparr> else a)
          in res_bind (ackm_detect_and_remove_newly_acked_pkts a ack pkt_space) (\<lambda>(a, na_pkts).
          case na_pkts of
            [] \<Rightarrow> Inr (if must_set_timer then ackm_set_loss_detection_timer now_timer a else a, True)
          | na # _ \<Rightarrow>
              let a = (if tp_pkt_num na = ar_end r0 \<and> ack_includes_ack_eliciting na_pkts then
                    let a = (if ossl_time_is_zero (first_rtt_sample a) then a\<lparr>first_rtt_sample := now_rtt\<rparr> else a);
                        ack_delay = (if handshake_confirmed a then ossl_time_min (delay_time ack) (rx_max_ack_delay a)
                                     else delay_time ack)
                    in a\<lparr>ackm_statm := ossl_statm_update_rtt (ackm_statm a) ack_delay (ossl_time_subtract now_rtt (tp_time na))\<rparr>
                  else a)
              in
              res_bind (if ecn_present ack then ackm_process_ecn M a ack pkt_space else Inr a) (\<lambda>a.
              res_bind (ackm_detect_and_remove_lost_pkts now_loss a pkt_space) (\<lambda>(a, lost_pkts).
              let a = (if lost_pkts \<noteq> [] then ackm_on_pkts_lost M a pkt_space lost_pkts False else a) in
              res_bind (ackm_on_pkts_acked M mem a na_pkts) (\<lambda>a.
              let a = (if peer_completed_addr_validation a then a\<lparr>pto_count := 0\<rparr> else a)
              in Inr (ackm_set_loss_detection_timer now_timer a, True))))))"

definition pkt_discarded :: "'cc ackm \<times> u64 \<Rightarrow> ackm_tx_pkt \<Rightarrow> 'cc ackm \<times> u64" where
  "pkt_discarded an p =
     (case an of (a, num_bytes_invalidated) \<Rightarrow>
       if tp_is_inflight p
       then (ackm_event (a\<lparr>ackm_bytes_in_flight := ackm_bytes_in_flight a - tp_num_bytes p\<rparr>) (On_Discarded p),
             num_bytes_invalidated + tp_num_bytes p)
       else (ackm_event a (On_Discarded p), num_bytes_invalidated))"

definition ossl_ackm_on_pkt_space_discarded :: "'cc cc_method \<Rightarrow> ossl_time \<Rightarrow> 'cc ackm \<Rightarrow> pn_space \<Rightarrow> 'cc ackm \<times> bool" where
  "ossl_ackm_on_pkt_space_discarded M now a pkt_space =
     (if discarded a pkt_space then (a, False)
      else
        let a = (if pkt_space = QUIC_PN_SPACE_HANDSHAKE then a\<lparr>peer_completed_addr_validation := True\<rparr> else a);
            (a, num_bytes_invalidated) = foldl pkt_discarded (a, 0) (tx_packets (tx_history a pkt_space));
            a = a\<lparr>tx_history := (tx_history a)(pkt_space := tx_pkt_history_destroy (tx_history a pkt_space)),
                  rx_history := (rx_history a)(pkt_space := rx_pkt_history_destroy (rx_history a pkt_space))\<rparr>;
            a = (if num_bytes_invalidated > 0
                 then a\<lparr>cc_data := fst (on_data_invalidated M (cc_data a) num_bytes_invalidated)\<rparr> else a);
            a = a\<lparr>time_of_last_ack_eliciting_pkt := (time_of_last_ack_eliciting_pkt a)(pkt_space := ossl_time_zero),
                  loss_time := (loss_time a)(pkt_space := ossl_time_zero),
                  pto_count := 0,
                  discarded := (discarded a)(pkt_space := True),
                  ack_eliciting_bytes_in_flight := (ack_eliciting_bytes_in_flight a)(pkt_space := 0)\<rparr>
        in (ackm_set_loss_detection_timer now a, True))"

definition ossl_ackm_on_handshake_confirmed :: "ossl_time \<Rightarrow> 'cc ackm \<Rightarrow> 'cc ackm \<times> bool" where
  "ossl_ackm_on_handshake_confirmed now a =
     (ackm_set_loss_detection_timer now (a\<lparr>handshake_confirmed := True, peer_completed_addr_validation := True\<rparr>), True)"

definition ackm_queue_probe_anti_deadlock_handshake :: "'cc ackm \<Rightarrow> 'cc ackm" where
  "ackm_queue_probe_anti_deadlock_handshake a =
     a\<lparr>pending_probe := (pending_probe a)\<lparr>anti_deadlock_handshake := anti_deadlock_handshake (pending_probe a) + 1\<rparr>\<rparr>"

definition ackm_queue_probe_anti_deadlock_initial :: "'cc ackm \<Rightarrow> 'cc ackm" where
  "ackm_queue_probe_anti_deadlock_initial a =
     a\<lparr>pending_probe := (pending_probe a)\<lparr>anti_deadlock_initial := anti_deadlock_initial (pending_probe a) + 1\<rparr>\<rparr>"

definition ackm_queue_probe :: "'cc ackm \<Rightarrow> pn_space \<Rightarrow> 'cc ackm" where
  "ackm_queue_probe a pkt_space =
     a\<lparr>pending_probe := (pending_probe a)\<lparr>probe_pto := (probe_pto (pending_probe a))
          (pkt_space := probe_pto (pending_probe a) pkt_space + 1)\<rparr>\<rparr>"

definition ossl_ackm_on_timeout :: "'cc cc_method \<Rightarrow> ossl_time \<times> ossl_time \<Rightarrow> 'cc ackm \<Rightarrow> c_fault + ('cc ackm \<times> bool)" where
  "ossl_ackm_on_timeout M now a =
     (case now of (now1, now_timer) \<Rightarrow>
      case ackm_get_loss_time_and_space a of (earliest_loss_time, pkt_space) \<Rightarrow>
        if \<not> ossl_time_is_zero earliest_loss_time then
          res_bind (ackm_detect_and_remove_lost_pkts now1 a pkt_space) (\<lambda>(a, lost_pkts).
            let a = (if lost_pkts \<noteq> [] then ackm_on_pkts_lost M a pkt_space lost_pkts False else a)
            in Inr (ackm_set_loss_detection_timer now_timer a, True))
        else
          let a = (if ackm_ack_eliciting_bytes_in_flight a = 0 then
                     (if discarded a QUIC_PN_SPACE_INITIAL then ackm_queue_probe_anti_deadlock_handshake a
                      else ackm_queue_probe_anti_deadlock_initial a)
                   else ackm_queue_probe a (snd (ackm_get_pto_time_and_space now1 a)));
              a = a\<lparr>pto_count := pto_count a + 1\<rparr>
          in Inr (ackm_set_loss_detection_timer now_timer a, True))"

definition ossl_ackm_get_loss_detection_deadline :: "'cc ackm \<Rightarrow> ossl_time" where
  "ossl_ackm_get_loss_detection_deadline a = loss_detection_deadline a"

definition ossl_ackm_get0_probe_request :: "'cc ackm \<Rightarrow> ackm_probe_info" where
  "ossl_ackm_get0_probe_request a = pending_probe a"

definition ossl_ackm_get_largest_unacked :: "'cc ackm \<Rightarrow> pn_space \<Rightarrow> u64 option" where
  "ossl_ackm_get_largest_unacked a pkt_space =
     (case tx_packets (tx_history a pkt_space) of [] \<Rightarrow> None | p # ps \<Rightarrow> Some (tp_pkt_num (last (p # ps))))"

definition ossl_ackm_mark_packet_pseudo_lost ::
    "'cc cc_method \<Rightarrow> 'cc ackm \<Rightarrow> pn_space \<Rightarrow> u64 \<Rightarrow> c_fault + ('cc ackm \<times> bool)" where
  "ossl_ackm_mark_packet_pseudo_lost M a pkt_space pn =
     (let h = tx_history a pkt_space in
      res_bind (tx_pkt_history_by_pkt_num h pn) (\<lambda>r.
        case r of
          None \<Rightarrow> Inr (a, False)
        | Some pkt \<Rightarrow>
            res_bind (tx_pkt_history_remove h (tp_pkt_num pkt)) (\<lambda>(h, _).
              Inr (ackm_on_pkts_lost M (a\<lparr>tx_history := (tx_history a)(pkt_space := h)\<rparr>) pkt_space [pkt] True, True))))"

definition ossl_ackm_get_pto_duration :: "'cc ackm \<Rightarrow> ossl_time" where
  "ossl_ackm_get_pto_duration a =
     (let rtt = ossl_statm_get_rtt_info (ackm_statm a);
          duration = ossl_time_add (ri_smoothed_rtt rtt)
            (ossl_time_max (ossl_time_multiply (ri_rtt_variance rtt) 4) (ossl_ticks2time K_GRANULARITY))
      in if \<not> ossl_time_is_infinite (rx_max_ack_delay a) then ossl_time_add duration (rx_max_ack_delay a) else duration)"

definition ossl_ackm_get_largest_acked :: "'cc ackm \<Rightarrow> pn_space \<Rightarrow> u64" where
  "ossl_ackm_get_largest_acked a pkt_space = largest_acked_pkt a pkt_space"

definition ossl_ackm_set_rx_max_ack_delay :: "'cc ackm \<Rightarrow> ossl_time \<Rightarrow> 'cc ackm" where
  "ossl_ackm_set_rx_max_ack_delay a delay = a\<lparr>rx_max_ack_delay := delay\<rparr>"

definition ossl_ackm_set_tx_max_ack_delay :: "'cc ackm \<Rightarrow> ossl_time \<Rightarrow> 'cc ackm" where
  "ossl_ackm_set_tx_max_ack_delay a delay = a\<lparr>tx_max_ack_delay := delay\<rparr>"

definition ossl_ackm_set_loss_detection_deadline_callback :: "'cc ackm \<Rightarrow> bool \<Rightarrow> 'cc ackm" where
  "ossl_ackm_set_loss_detection_deadline_callback a fn = a\<lparr>loss_detection_deadline_cb := fn\<rparr>"

definition ossl_ackm_set_ack_deadline_callback :: "'cc ackm \<Rightarrow> bool \<Rightarrow> 'cc ackm" where
  "ossl_ackm_set_ack_deadline_callback a fn = a\<lparr>ack_deadline_cb := fn\<rparr>"

section \<open>Interface: receiving side\<close>

definition ossl_ackm_is_ack_desired :: "ossl_time \<Rightarrow> 'cc ackm \<Rightarrow> pn_space \<Rightarrow> bool" where
  "ossl_ackm_is_ack_desired now a pkt_space \<longleftrightarrow> rx_ack_desired a pkt_space
     \<or> \<not> ossl_time_is_infinite (rx_ack_flush_deadline a pkt_space)
       \<and> ossl_time_compare now (rx_ack_flush_deadline a pkt_space) \<ge> 0"

definition ack_contains :: "ossl_quic_frame_ack \<Rightarrow> u64 \<Rightarrow> bool" where
  "ack_contains ack pkt_num = list_ex (\<lambda>r. range_contains r pkt_num) (ack_ranges ack)"

definition ackm_is_missing :: "'cc ackm \<Rightarrow> pn_space \<Rightarrow> u64 \<Rightarrow> bool" where
  "ackm_is_missing a pkt_space pkt_num \<longleftrightarrow>
     (case ack_ranges (ackm_ack a pkt_space) of
        [] \<Rightarrow> False
      | r0 # _ \<Rightarrow> pkt_num \<le> ar_end r0 \<and> \<not> ack_contains (ackm_ack a pkt_space) pkt_num)"

definition ackm_has_newly_missing :: "'cc ackm \<Rightarrow> pn_space \<Rightarrow> bool" where
  "ackm_has_newly_missing a pkt_space \<longleftrightarrow>
     (let s = rx_set (rx_history a pkt_space) in
      if s = [] then False
      else case ack_ranges (ackm_ack a pkt_space) of
             [] \<Rightarrow> False
           | r0 # _ \<Rightarrow> rstart (last s) = rend (last s) \<and> rstart (last s) > ar_end r0 + 1)"

definition ossl_ackm_get_ack_deadline :: "'cc ackm \<Rightarrow> pn_space \<Rightarrow> ossl_time" where
  "ossl_ackm_get_ack_deadline a pkt_space =
     (if rx_ack_desired a pkt_space then ossl_time_zero else rx_ack_flush_deadline a pkt_space)"

definition ackm_set_flush_deadline :: "'cc ackm \<Rightarrow> pn_space \<Rightarrow> ossl_time \<Rightarrow> 'cc ackm" where
  "ackm_set_flush_deadline a pkt_space deadline =
     (let a = a\<lparr>rx_ack_flush_deadline := (rx_ack_flush_deadline a)(pkt_space := deadline)\<rparr>
      in if ack_deadline_cb a then ackm_event a (Ack_Deadline (ossl_ackm_get_ack_deadline a pkt_space) pkt_space) else a)"

definition ackm_queue_ack :: "'cc ackm \<Rightarrow> pn_space \<Rightarrow> 'cc ackm" where
  "ackm_queue_ack a pkt_space =
     ackm_set_flush_deadline (a\<lparr>rx_ack_desired := (rx_ack_desired a)(pkt_space := True)\<rparr>) pkt_space ossl_time_infinite"

definition ackm_on_rx_ack_eliciting :: "'cc ackm \<Rightarrow> ossl_time \<Rightarrow> pn_space \<Rightarrow> bool \<Rightarrow> 'cc ackm" where
  "ackm_on_rx_ack_eliciting a rx_time pkt_space was_missing =
     (if rx_ack_desired a pkt_space then a
      else
        let a = a\<lparr>rx_ack_eliciting_pkts_since_last_ack := (rx_ack_eliciting_pkts_since_last_ack a)
              (pkt_space := rx_ack_eliciting_pkts_since_last_ack a pkt_space + 1)\<rparr> in
        if \<not> rx_ack_generated a pkt_space \<or> was_missing
            \<or> rx_ack_eliciting_pkts_since_last_ack a pkt_space \<ge> PKTS_BEFORE_ACK
            \<or> ackm_has_newly_missing a pkt_space
        then ackm_queue_ack a pkt_space
        else
          let delay = (if pkt_space = QUIC_PN_SPACE_INITIAL \<or> pkt_space = QUIC_PN_SPACE_HANDSHAKE
                       then ossl_time_zero else tx_max_ack_delay a)
          in if ossl_time_is_infinite (rx_ack_flush_deadline a pkt_space)
             then ackm_set_flush_deadline a pkt_space (ossl_time_add rx_time delay)
             else ackm_set_flush_deadline a pkt_space
                    (ossl_time_min (rx_ack_flush_deadline a pkt_space) (ossl_time_add rx_time delay)))"

definition ossl_ackm_is_rx_pn_processable :: "'cc ackm \<Rightarrow> u64 \<Rightarrow> pn_space \<Rightarrow> bool" where
  "ossl_ackm_is_rx_pn_processable a pn pkt_space \<longleftrightarrow>
     pn \<ge> rx_watermark (rx_history a pkt_space) \<and> \<not> ossl_uint_set_query (rx_set (rx_history a pkt_space)) pn"

definition ossl_ackm_on_rx_packet :: "bool \<Rightarrow> 'cc ackm \<Rightarrow> ackm_rx_pkt \<Rightarrow> c_fault + ('cc ackm \<times> bool)" where
  "ossl_ackm_on_rx_packet mem a pkt =
     (let space = rp_pkt_space pkt; pn = rp_pkt_num pkt in
      if \<not> ossl_ackm_is_rx_pn_processable a pn space then Inr (a, True)
      else
        let a = (if pn > rx_largest_pn a space
                 then a\<lparr>rx_largest_pn := (rx_largest_pn a)(space := pn), rx_largest_time := (rx_largest_time a)(space := rp_time pkt)\<rparr>
                 else a);
            was_missing = ackm_is_missing a space pn
        in res_bind (rx_pkt_history_add_pn mem (rx_history a space) pn) (\<lambda>(h, ok).
          let a = a\<lparr>rx_history := (rx_history a)(space := h)\<rparr> in
          if \<not> ok then Inr (a, False)
          else
            let a = (if rp_is_ack_eliciting pkt then ackm_on_rx_ack_eliciting a (rp_time pkt) space was_missing else a)
            in Inr (case rp_ecn pkt of
                 OSSL_ACKM_ECN_ECT0 \<Rightarrow> a\<lparr>rx_ect0 := (rx_ect0 a)(space := rx_ect0 a space + 1)\<rparr>
               | OSSL_ACKM_ECN_ECT1 \<Rightarrow> a\<lparr>rx_ect1 := (rx_ect1 a)(space := rx_ect1 a space + 1)\<rparr>
               | OSSL_ACKM_ECN_ECNCE \<Rightarrow> a\<lparr>rx_ecnce := (rx_ecnce a)(space := rx_ecnce a space + 1)\<rparr>
               | OSSL_ACKM_ECN_NONE \<Rightarrow> a, True)))"

text \<open>
  The bound of the copying loop is \<^verbatim>\<open>OSSL_NELEM(ackm->ack_ranges)\<close>, the length of the outer array: one row for each packet number space.
\<close>

definition ackm_fill_rx_ack_ranges :: "'cc ackm \<Rightarrow> pn_space \<Rightarrow> ossl_quic_ack_range list" where
  "ackm_fill_rx_ack_ranges a pkt_space =
     map (\<lambda>r. \<lparr>ar_start = rstart r, ar_end = rend r\<rparr>)
       (take (length pn_spaces) (rev (rx_set (rx_history a pkt_space))))"

definition ossl_ackm_get_ack_frame :: "ossl_time \<Rightarrow> 'cc ackm \<Rightarrow> pn_space \<Rightarrow> 'cc ackm \<times> ossl_quic_frame_ack" where
  "ossl_ackm_get_ack_frame now a pkt_space =
     (let ack = \<lparr>ack_ranges = ackm_fill_rx_ack_ranges a pkt_space,
                 delay_time =
                   (if \<not> ossl_time_is_zero (rx_largest_time a pkt_space) \<and> ossl_time_compare now (rx_largest_time a pkt_space) > 0
                       \<and> pkt_space = QUIC_PN_SPACE_APP
                    then ossl_time_subtract now (rx_largest_time a pkt_space) else ossl_time_zero),
                 ect0 = rx_ect0 a pkt_space, ect1 = rx_ect1 a pkt_space, ecnce = rx_ecnce a pkt_space, ecn_present = True\<rparr>;
          a = a\<lparr>ackm_ack := (ackm_ack a)(pkt_space := ack),
                rx_ack_eliciting_pkts_since_last_ack := (rx_ack_eliciting_pkts_since_last_ack a)(pkt_space := 0),
                rx_ack_generated := (rx_ack_generated a)(pkt_space := True),
                rx_ack_desired := (rx_ack_desired a)(pkt_space := False)\<rparr>
      in (ackm_set_flush_deadline a pkt_space ossl_time_infinite, ack))"

end
