(* ===== verification/Ackm_Tx.thy ===== *)
theory Ackm_Tx
  imports Ackm
begin

text \<open>
  The sending side of \<^verbatim>\<open>ssl/quic/quic_ackm.c\<close>: what the walks over the packet history find, what happens to each packet, and the counts of
  bytes in flight, the manager's and the congestion controller's.
\<close>

section \<open>Packet histories\<close>

definition pkt_ok :: "ackm_tx_pkt \<Rightarrow> bool" where
  "pkt_ok p \<longleftrightarrow> tp_num_bytes p \<noteq> 0 \<and> (tp_is_ack_eliciting p \<longrightarrow> tp_is_inflight p) \<and> tp_time p \<noteq> ossl_time_zero
     \<and> tp_pkt_num p < 2 ^ 62 \<and> \<not> tp_on_acked_frees p"

text \<open>The list ascends, and the map is the list by number.\<close>

definition hist_ok :: "pn_space \<Rightarrow> tx_pkt_history \<Rightarrow> bool" where
  "hist_ok s h \<longleftrightarrow> sorted_wrt (\<lambda>p q. tp_pkt_num p < tp_pkt_num q) (tx_packets h)
     \<and> (\<exists>m. tx_map h = Some m \<and> (\<forall>n p. m n = Some p \<longleftrightarrow> p \<in> set (tx_packets h) \<and> tp_pkt_num p = n))
     \<and> (\<forall>p \<in> set (tx_packets h). tp_pkt_num p < tx_watermark h \<and> tp_pkt_space p = s \<and> pkt_ok p)"

lemma ascending_distinct: "sorted_wrt (\<lambda>p q. tp_pkt_num p < tp_pkt_num q) ps \<Longrightarrow> distinct ps"
  by (induction ps) auto

lemma ascending_inj:
  assumes "sorted_wrt (\<lambda>p q. tp_pkt_num p < tp_pkt_num q) ps" and "p \<in> set ps" "q \<in> set ps" "tp_pkt_num p = tp_pkt_num q"
  shows "p = q"
  using assms by (induction ps) auto

lemma hist_ok_lookup:
  assumes "hist_ok s h"
  obtains (found) p where "tx_pkt_history_by_pkt_num h n = Inr (Some p)" "p \<in> set (tx_packets h)" "tp_pkt_num p = n"
  | (none) "tx_pkt_history_by_pkt_num h n = Inr None" "\<forall>p \<in> set (tx_packets h). tp_pkt_num p \<noteq> n"
proof -
  obtain m where m: "tx_map h = Some m" "\<forall>n p. m n = Some p \<longleftrightarrow> p \<in> set (tx_packets h) \<and> tp_pkt_num p = n"
    using assms by (auto simp: hist_ok_def)
  show ?thesis
  proof (cases "m n")
    case None
    with m(2) have "\<forall>p \<in> set (tx_packets h). tp_pkt_num p \<noteq> n"
      by (metis option.distinct(1))
    with None m(1) show ?thesis
      by (intro none) (simp_all add: tx_pkt_history_by_pkt_num_def)
  next
    case (Some p)
    with m show ?thesis
      by (intro found [of p]) (auto simp: tx_pkt_history_by_pkt_num_def)
  qed
qed

lemma hist_ok_remove:
  assumes ok: "hist_ok s h" and p: "p \<in> set (tx_packets h)"
  obtains h' where "tx_pkt_history_remove h (tp_pkt_num p) = Inr (h', True)" "hist_ok s h'"
    "tx_packets h' = filter (\<lambda>q. q \<noteq> p) (tx_packets h)" "tx_watermark h' = tx_watermark h"
proof -
  obtain m where m: "tx_map h = Some m" "\<forall>n p. m n = Some p \<longleftrightarrow> p \<in> set (tx_packets h) \<and> tp_pkt_num p = n"
    using ok by (auto simp: hist_ok_def)
  have sorted: "sorted_wrt (\<lambda>p q. tp_pkt_num p < tp_pkt_num q) (tx_packets h)"
    using ok by (simp add: hist_ok_def)
  let ?h = "h\<lparr>tx_packets := remove1 p (tx_packets h), tx_map := map_option (\<lambda>m. m(tp_pkt_num p := None)) (tx_map h)\<rparr>"
  have rm: "remove1 p (tx_packets h) = filter (\<lambda>q. q \<noteq> p) (tx_packets h)"
    using ascending_distinct [OF sorted] by (simp add: distinct_remove1_removeAll removeAll_filter_not_eq eq_commute)
  have "m (tp_pkt_num p) = Some p"
    using m(2) p by simp
  then have "tx_pkt_history_remove h (tp_pkt_num p) = Inr (?h, True)"
    by (simp add: tx_pkt_history_remove_def tx_pkt_history_by_pkt_num_def m(1))
  moreover have "hist_ok s ?h"
    unfolding hist_ok_def
  proof (intro conjI exI)
    show "sorted_wrt (\<lambda>p q. tp_pkt_num p < tp_pkt_num q) (tx_packets ?h)"
      using sorted by (simp add: rm sorted_wrt_filter)
    show "tx_map ?h = Some (m(tp_pkt_num p := None))"
      by (simp add: m(1))
    show "\<forall>n q. (m(tp_pkt_num p := None)) n = Some q \<longleftrightarrow> q \<in> set (tx_packets ?h) \<and> tp_pkt_num q = n"
      using m(2) ascending_inj [OF sorted _ p] by (auto simp: rm)
    show "\<forall>q \<in> set (tx_packets ?h). tp_pkt_num q < tx_watermark ?h \<and> tp_pkt_space q = s \<and> pkt_ok q"
      using ok by (auto simp: rm hist_ok_def)
  qed
  ultimately show ?thesis
    by (intro that [of ?h]) (simp_all add: rm)
qed

lemma hist_ok_add:
  assumes ok: "hist_ok s h" and p: "pkt_ok p" "tp_pkt_space p = s"
  obtains (added) h' where "tx_pkt_history_add True h p = Inr (h', True)" "hist_ok s h'" "tx_packets h' = tx_packets h @ [p]"
  | (refused) "tx_pkt_history_add True h p = Inr (h, False)"
proof (cases "tx_watermark h \<le> tp_pkt_num p")
  case False
  then show ?thesis
    by (intro refused) (simp add: tx_pkt_history_add_def)
next
  case True
  obtain m where m: "tx_map h = Some m" "\<forall>n p. m n = Some p \<longleftrightarrow> p \<in> set (tx_packets h) \<and> tp_pkt_num p = n"
    using ok by (auto simp: hist_ok_def)
  have below: "tp_pkt_num q < tp_pkt_num p" if "q \<in> set (tx_packets h)" for q
    using ok that True by (auto simp: hist_ok_def)
  then have "m (tp_pkt_num p) = None"
    using m(2) by (metis less_irrefl not_None_eq)
  let ?h = "h\<lparr>tx_map := Some (m(tp_pkt_num p \<mapsto> p)), tx_packets := tx_packets h @ [p], tx_watermark := tp_pkt_num p + 1,
    tx_highest_sent := tp_pkt_num p\<rparr>"
  have res: "tx_pkt_history_add True h p = Inr (?h, True)"
    using True \<open>m (tp_pkt_num p) = None\<close>
    by (simp add: tx_pkt_history_add_def tx_pkt_history_add_actual_def tx_pkt_history_by_pkt_num_def m(1))
  have succ: "tp_pkt_num p < tp_pkt_num p + 1"
    using p(1) by (intro less_succ [of _ "2 ^ 62"]) (simp add: pkt_ok_def)
  have "hist_ok s ?h"
    unfolding hist_ok_def
  proof (intro conjI exI)
    show "sorted_wrt (\<lambda>p q. tp_pkt_num p < tp_pkt_num q) (tx_packets ?h)"
      using ok below by (simp add: hist_ok_def sorted_wrt_append)
    show "tx_map ?h = Some (m(tp_pkt_num p \<mapsto> p))"
      by simp
    show "\<forall>n q. (m(tp_pkt_num p \<mapsto> p)) n = Some q \<longleftrightarrow> q \<in> set (tx_packets ?h) \<and> tp_pkt_num q = n"
      using m(2) by (auto dest: below)
    show "\<forall>q \<in> set (tx_packets ?h). tp_pkt_num q < tx_watermark ?h \<and> tp_pkt_space q = s \<and> pkt_ok q"
      using ok p below less_trans [OF _ succ] succ by (auto simp: hist_ok_def)
  qed
  with res show ?thesis
    by (intro added [of ?h]) simp_all
qed

section \<open>The walk over the acknowledged packets\<close>

definition acked_by :: "ossl_quic_ack_range list \<Rightarrow> ackm_tx_pkt \<Rightarrow> bool" where
  "acked_by rs p \<longleftrightarrow> (\<exists>r \<in> set rs. range_contains r (tp_pkt_num p))"

text \<open>What the ACK decoder guarantees of the ranges.\<close>

definition ack_wf :: "ossl_quic_frame_ack \<Rightarrow> bool" where
  "ack_wf ack \<longleftrightarrow> (case ack_ranges ack of [] \<Rightarrow> False | r # rs \<Rightarrow> ar_start r \<le> ar_end r \<and> ranges_ok r rs)"

abbreviation descending :: "ossl_quic_ack_range list \<Rightarrow> bool" where
  "descending \<equiv> sorted_wrt (\<lambda>a b. ar_end b < ar_start a)"

lemma ranges_ok_descending: "ranges_ok r rs \<Longrightarrow> descending (r # rs) \<and> (\<forall>x \<in> set rs. ar_start x \<le> ar_end x)"
proof (induction rs arbitrary: r)
  case (Cons x xs)
  then have x: "ar_end x < ar_start r" "ar_start x \<le> ar_end x" "descending (x # xs)" "\<forall>x \<in> set xs. ar_start x \<le> ar_end x"
    by (auto simp: word_less_nat_alt)
  then have "\<forall>y \<in> set xs. ar_end y < ar_start r"
    by (auto dest: less_le_trans less_trans)
  with x show ?case
    by simp
qed simp

lemma newly_acked_walk_spec:
  assumes "hist_ok s h" and "sorted_wrt (\<lambda>p q. tp_pkt_num q < tp_pkt_num p) ps" and "set ps \<subseteq> set (tx_packets h)"
    and "descending rs" and "\<forall>r \<in> set rs. ar_start r \<le> ar_end r"
  shows "\<exists>h'. newly_acked_walk h ps rs = Inr (h', filter (acked_by rs) ps) \<and> hist_ok s h'
    \<and> tx_packets h' = filter (\<lambda>p. \<not> (p \<in> set ps \<and> acked_by rs p)) (tx_packets h) \<and> tx_watermark h' = tx_watermark h"
  using assms
proof (induction h ps rs rule: newly_acked_walk.induct)
  case (1 h rs)
  then show ?case
    by simp
next
  case (2 h p ps)
  then show ?case
    by (simp add: acked_by_def)
next
  case (3 h p ps r rs)
  show ?case
  proof (cases "range_contains r (tp_pkt_num p)")
    case True
    obtain h1 where h1: "tx_pkt_history_remove h (tp_pkt_num p) = Inr (h1, True)" "hist_ok s h1"
      "tx_packets h1 = filter (\<lambda>q. q \<noteq> p) (tx_packets h)" "tx_watermark h1 = tx_watermark h"
      by (rule hist_ok_remove [OF "3.prems"(1), of p]) (use "3.prems"(3) in auto)
    have "set ps \<subseteq> set (tx_packets h1)"
      using "3.prems"(2,3) by (auto simp: h1(3))
    then obtain h' where h': "newly_acked_walk h1 ps (r # rs) = Inr (h', filter (acked_by (r # rs)) ps)" "hist_ok s h'"
      "tx_packets h' = filter (\<lambda>q. \<not> (q \<in> set ps \<and> acked_by (r # rs) q)) (tx_packets h1)" "tx_watermark h' = tx_watermark h1"
      using "3.IH"(1) [OF True h1(2) _ _ "3.prems"(4,5)] "3.prems"(2) by auto
    have "acked_by (r # rs) p"
      using True by (simp add: acked_by_def)
    with True h1 h' show ?thesis
      by (auto intro!: filter_cong)
  next
    case out: False
    show ?thesis
    proof (cases "ar_end r < tp_pkt_num p")
      case True
      have "\<not> acked_by (r # rs) p"
        using True "3.prems"(4,5) out by (fastforce simp: acked_by_def range_contains_def not_le)
      moreover obtain h' where "newly_acked_walk h ps (r # rs) = Inr (h', filter (acked_by (r # rs)) ps)" "hist_ok s h'"
        "tx_packets h' = filter (\<lambda>q. \<not> (q \<in> set ps \<and> acked_by (r # rs) q)) (tx_packets h)" "tx_watermark h' = tx_watermark h"
        using "3.IH"(2) [OF out True] "3.prems" by auto
      ultimately show ?thesis
        using out True by (auto intro!: filter_cong)
    next
      case False
      have "\<not> range_contains r (tp_pkt_num q)" if "q \<in> set (p # ps)" for q
        using that False out "3.prems"(2) by (fastforce simp: range_contains_def not_le)
      then have "acked_by (r # rs) q = acked_by rs q" if "q \<in> set (p # ps)" for q
        using that by (simp add: acked_by_def)
      then have eq: "filter (acked_by (r # rs)) (p # ps) = filter (acked_by rs) (p # ps)"
        "filter (\<lambda>q. \<not> (q \<in> set (p # ps) \<and> acked_by (r # rs) q)) (tx_packets h)
         = filter (\<lambda>q. \<not> (q \<in> set (p # ps) \<and> acked_by rs q)) (tx_packets h)"
        by (intro filter_cong refl; blast)+
      have step: "newly_acked_walk h (p # ps) (r # rs) = newly_acked_walk h (p # ps) rs"
        using out False by simp
      show ?thesis
        unfolding step eq using "3.IH"(3) [OF out False] "3.prems" by simp
    qed
  qed
qed

lemma acked_below_first:
  assumes "ack_wf ack" and "ack_ranges ack = r # rs" and "acked_by (r # rs) p"
  shows "tp_pkt_num p \<le> ar_end r"
proof -
  have d: "descending (r # rs)" "ar_start r \<le> ar_end r"
    using assms(1,2) ranges_ok_descending [of r rs] by (simp_all add: ack_wf_def)
  obtain x where x: "x \<in> set (r # rs)" "range_contains x (tp_pkt_num p)"
    using assms(3) by (auto simp: acked_by_def)
  show ?thesis
  proof (cases "x = r")
    case True
    with x(2) show ?thesis
      by (simp add: range_contains_def)
  next
    case False
    then have "ar_end x < ar_start r"
      using d(1) x(1) by simp
    with x(2) d(2) show ?thesis
      unfolding range_contains_def by (meson le_less_trans less_imp_le less_le_trans)
  qed
qed

text \<open>The packet that the hash table gives to start from only skips packets that are not acknowledged.\<close>

lemma detect_newly_acked_spec:
  assumes hist: "hist_ok s (tx_history a s)" and wf: "ack_wf ack"
  obtains h' where "ackm_detect_and_remove_newly_acked_pkts a ack s
      = Inr (a\<lparr>tx_history := (tx_history a)(s := h')\<rparr>, rev (filter (acked_by (ack_ranges ack)) (tx_packets (tx_history a s))))"
    "hist_ok s h'" "tx_packets h' = filter (\<lambda>p. \<not> acked_by (ack_ranges ack) p) (tx_packets (tx_history a s))"
    "tx_watermark h' = tx_watermark (tx_history a s)"
proof -
  obtain r rs where r: "ack_ranges ack = r # rs" "ar_start r \<le> ar_end r" "ranges_ok r rs"
    using wf by (auto simp: ack_wf_def split: list.splits)
  let ?ps = "tx_packets (tx_history a s)" and ?A = "acked_by (r # rs)"
  have sorted: "sorted_wrt (\<lambda>p q. tp_pkt_num p < tp_pkt_num q) ?ps"
    using hist by (simp add: hist_ok_def)
  obtain found where found: "tx_pkt_history_by_pkt_num (tx_history a s) (ar_end r) = Inr found"
    "\<forall>p. found = Some p \<longrightarrow> p \<in> set ?ps \<and> tp_pkt_num p = ar_end r"
    by (rule hist_ok_lookup [OF hist, of "ar_end r"]) auto
  define walk where "walk = (case found of Some pkt \<Rightarrow> pkt # rev (takeWhile (\<lambda>q. q \<noteq> pkt) ?ps) | None \<Rightarrow> rev ?ps)"
  have "\<exists>post. ?ps = rev walk @ post \<and> (\<forall>q \<in> set post. \<not> ?A q)"
  proof (cases found)
    case None
    then show ?thesis
      by (simp add: walk_def)
  next
    case (Some p)
    have "dropWhile (\<lambda>q. q \<noteq> p) ?ps \<noteq> []"
      using found(2) Some by (simp add: dropWhile_eq_Nil_conv)
    then obtain post where post: "dropWhile (\<lambda>q. q \<noteq> p) ?ps = p # post"
      using hd_dropWhile [of "\<lambda>q. q \<noteq> p" ?ps] by (cases "dropWhile (\<lambda>q. q \<noteq> p) ?ps") auto
    then have split: "?ps = takeWhile (\<lambda>q. q \<noteq> p) ?ps @ p # post"
      by (metis takeWhile_dropWhile_id)
    have "tp_pkt_num p < tp_pkt_num q" if "q \<in> set post" for q
      using sorted that by (subst (asm) split) (simp add: sorted_wrt_append)
    then have "\<forall>q \<in> set post. \<not> ?A q"
      using acked_below_first [OF wf r(1)] found(2) Some by (metis leD)
    with split Some show ?thesis
      by (auto simp: walk_def)
  qed
  then obtain post where post: "?ps = rev walk @ post" "\<forall>q \<in> set post. \<not> ?A q"
    by blast
  have "sorted_wrt (\<lambda>p q. tp_pkt_num p < tp_pkt_num q) (rev walk)"
    using sorted by (simp add: post(1) sorted_wrt_append)
  then have dw: "sorted_wrt (\<lambda>p q. tp_pkt_num q < tp_pkt_num p) walk" "set walk \<subseteq> set ?ps"
    using arg_cong [OF post(1), of set] by (auto simp: sorted_wrt_rev)
  have d: "descending (r # rs)" "\<forall>x \<in> set (r # rs). ar_start x \<le> ar_end x"
    using ranges_ok_descending [OF r(3)] r(2) by simp_all
  obtain h' where h': "newly_acked_walk (tx_history a s) walk (r # rs) = Inr (h', filter ?A walk)" "hist_ok s h'"
    "tx_packets h' = filter (\<lambda>p. \<not> (p \<in> set walk \<and> ?A p)) ?ps" "tx_watermark h' = tx_watermark (tx_history a s)"
    using newly_acked_walk_spec [OF hist dw d] by blast
  have ac: "filter ?A walk = rev (filter ?A ?ps)"
    using post(2) arg_cong [OF post(1), of "\<lambda>xs. rev (filter ?A xs)"] by (simp add: rev_filter)
  have rest: "filter (\<lambda>p. \<not> (p \<in> set walk \<and> ?A p)) ?ps = filter (\<lambda>p. \<not> ?A p) ?ps"
    using post arg_cong [OF post(1), of set] by (intro filter_cong) auto
  show ?thesis
    using h'(1,2,4) h'(3) [unfolded rest] by (intro that [of h'])
      (simp_all add: ackm_detect_and_remove_newly_acked_pkts_def r(1) Let_def found(1) walk_def [symmetric] ac)
qed

section \<open>The walk over the lost packets\<close>

text \<open>Lost now, or at the time \<open>lost_at\<close> if not acknowledged before it.\<close>

definition lost_now :: "u64 \<Rightarrow> ossl_time \<Rightarrow> ackm_tx_pkt \<Rightarrow> bool" where
  "lost_now largest sent_by p \<longleftrightarrow> tp_pkt_num p \<le> largest \<and> (tp_time p \<le> sent_by \<or> unat (tp_pkt_num p) + 3 \<le> unat largest)"

definition lost_later :: "u64 \<Rightarrow> ossl_time \<Rightarrow> ackm_tx_pkt \<Rightarrow> bool" where
  "lost_later largest sent_by p \<longleftrightarrow> tp_pkt_num p \<le> largest \<and> \<not> lost_now largest sent_by p"

definition earliest_loss :: "ossl_time \<Rightarrow> ossl_time \<Rightarrow> ackm_tx_pkt list \<Rightarrow> ossl_time" where
  "earliest_loss delay lt ps = foldl (\<lambda>lt p. if ossl_time_is_zero lt then ossl_time_add (tp_time p) delay
     else ossl_time_min lt (ossl_time_add (tp_time p) delay)) lt ps"

lemma lost_walk_spec:
  assumes "hist_ok s h" and "distinct ps" and "set ps \<subseteq> set (tx_packets h)"
  shows "\<exists>h'. lost_walk largest sent_by delay h ps lt
      = Inr (h', earliest_loss delay lt (filter (lost_later largest sent_by) ps), filter (lost_now largest sent_by) ps)
    \<and> hist_ok s h' \<and> tx_packets h' = filter (\<lambda>p. \<not> (p \<in> set ps \<and> lost_now largest sent_by p)) (tx_packets h)
    \<and> tx_watermark h' = tx_watermark h"
  using assms
proof (induction ps arbitrary: h lt)
  case Nil
  then show ?case
    by (simp add: earliest_loss_def)
next
  case (Cons p ps)
  let ?L = "lost_now largest sent_by"
  have small: "tp_pkt_num p < 2 ^ 62"
    using Cons.prems(1,3) by (auto simp: hist_ok_def pkt_ok_def)
  then have sum: "unat (tp_pkt_num p + K_PKT_THRESHOLD) = unat (tp_pkt_num p) + 3"
    unfolding K_PKT_THRESHOLD_def by (subst unat_add_no_overflow) (simp_all add: word_less_nat_alt)
  have now: "?L p \<longleftrightarrow> tp_pkt_num p \<le> largest
      \<and> (ossl_time_compare (tp_time p) sent_by \<le> 0 \<or> largest \<ge> tp_pkt_num p + K_PKT_THRESHOLD)"
    by (simp add: lost_now_def ossl_time_simps word_le_nat_alt [of "_ + _"] sum)
  show ?case
  proof (cases "?L p")
    case True
    obtain h1 where h1: "tx_pkt_history_remove h (tp_pkt_num p) = Inr (h1, True)" "hist_ok s h1"
      "tx_packets h1 = filter (\<lambda>q. q \<noteq> p) (tx_packets h)" "tx_watermark h1 = tx_watermark h"
      by (rule hist_ok_remove [OF Cons.prems(1), of p]) (use Cons.prems(3) in auto)
    obtain h' where h': "lost_walk largest sent_by delay h1 ps lt
        = Inr (h', earliest_loss delay lt (filter (lost_later largest sent_by) ps), filter ?L ps)" "hist_ok s h'"
      "tx_packets h' = filter (\<lambda>p. \<not> (p \<in> set ps \<and> ?L p)) (tx_packets h1)" "tx_watermark h' = tx_watermark h1"
      using Cons.IH [OF h1(2), of lt] Cons.prems(2,3) by (auto simp: h1(3))
    have "lost_walk largest sent_by delay h (p # ps) lt
        = Inr (h', earliest_loss delay lt (filter (lost_later largest sent_by) ps), p # filter ?L ps)"
      using True h1(1) h'(1) unfolding now by (auto simp: not_less [symmetric])
    moreover have "tx_packets h' = filter (\<lambda>q. \<not> (q \<in> set (p # ps) \<and> ?L q)) (tx_packets h)"
      using True by (auto simp: h'(3) h1(3) intro!: filter_cong)
    moreover have "\<not> lost_later largest sent_by p"
      using True by (simp add: lost_later_def)
    ultimately show ?thesis
      using True h'(2,4) h1(4) by simp
  next
    case False
    define lt' where "lt' = (if lost_later largest sent_by p then
        (if ossl_time_is_zero lt then ossl_time_add (tp_time p) delay else ossl_time_min lt (ossl_time_add (tp_time p) delay))
      else lt)"
    obtain h' where h': "lost_walk largest sent_by delay h ps lt'
        = Inr (h', earliest_loss delay lt' (filter (lost_later largest sent_by) ps), filter ?L ps)" "hist_ok s h'"
      "tx_packets h' = filter (\<lambda>p. \<not> (p \<in> set ps \<and> ?L p)) (tx_packets h)" "tx_watermark h' = tx_watermark h"
      using Cons.IH [OF Cons.prems(1), of lt'] Cons.prems(2,3) by auto
    have "lost_walk largest sent_by delay h (p # ps) lt = lost_walk largest sent_by delay h ps lt'"
      using False by (auto simp: now lost_later_def lt'_def not_le)
    moreover have "earliest_loss delay lt (filter (lost_later largest sent_by) (p # ps))
        = earliest_loss delay lt' (filter (lost_later largest sent_by) ps)"
      by (simp add: earliest_loss_def lt'_def)
    moreover have "tx_packets h' = filter (\<lambda>q. \<not> (q \<in> set (p # ps) \<and> ?L q)) (tx_packets h)"
      using False by (auto simp: h'(3) intro!: filter_cong)
    ultimately show ?thesis
      using False h' by simp
  qed
qed

lemma detect_lost_spec:
  fixes now :: ossl_time
  assumes hist: "hist_ok s (tx_history a s)"
  defines "delay \<equiv> ackm_loss_delay (ossl_statm_get_rtt_info (ackm_statm a))"
  defines "L \<equiv> lost_now (largest_acked_pkt a s) (ossl_time_subtract now delay)"
  obtains h' where "ackm_detect_and_remove_lost_pkts now a s
      = Inr (a\<lparr>loss_time := (loss_time a)(s := earliest_loss delay ossl_time_zero
          (filter (lost_later (largest_acked_pkt a s) (ossl_time_subtract now delay)) (tx_packets (tx_history a s)))),
        tx_history := (tx_history a)(s := h')\<rparr>, filter L (tx_packets (tx_history a s)))"
    "hist_ok s h'" "tx_packets h' = filter (\<lambda>p. \<not> L p) (tx_packets (tx_history a s))" "tx_watermark h' = tx_watermark (tx_history a s)"
proof -
  let ?ps = "tx_packets (tx_history a s)"
  have "distinct ?ps"
    using hist by (intro ascending_distinct) (simp add: hist_ok_def)
  then obtain h' where h': "lost_walk (largest_acked_pkt a s) (ossl_time_subtract now delay) delay (tx_history a s) ?ps ossl_time_zero
      = Inr (h', earliest_loss delay ossl_time_zero (filter (lost_later (largest_acked_pkt a s) (ossl_time_subtract now delay)) ?ps),
          filter L ?ps)" "hist_ok s h'" "tx_packets h' = filter (\<lambda>p. \<not> (p \<in> set ?ps \<and> L p)) ?ps"
    "tx_watermark h' = tx_watermark (tx_history a s)"
    unfolding L_def using lost_walk_spec [OF hist _ order_refl] by blast
  have "filter (\<lambda>p. \<not> (p \<in> set ?ps \<and> L p)) ?ps = filter (\<lambda>p. \<not> L p) ?ps"
    by (rule filter_cong) auto
  note h3 = h'(3) [unfolded this]
  with h'(1,2,4) show ?thesis
    by (intro that [of h']) (simp_all add: ackm_detect_and_remove_lost_pkts_def delay_def [symmetric] Let_def)
qed

section \<open>What the steps change\<close>

text \<open>The packets of the events, and the events that concern packets.\<close>

fun event_pkts :: "ackm_event \<Rightarrow> ackm_tx_pkt list" where
  "event_pkts (On_Lost p) = [p]"
| "event_pkts (On_Acked p) = [p]"
| "event_pkts (On_Discarded p) = [p]"
| "event_pkts _ = []"

definition pkt_events :: "'cc ackm \<Rightarrow> ackm_event list" where
  "pkt_events a = filter (\<lambda>e. event_pkts e \<noteq> []) (ackm_events a)"

definition settled :: "'cc ackm \<Rightarrow> ackm_tx_pkt multiset" where
  "settled a = mset (concat (map event_pkts (ackm_events a)))"

lemma settled_pkt_events: "settled a = mset (concat (map event_pkts (pkt_events a)))"
proof -
  have "concat (map event_pkts es) = concat (map event_pkts (filter (\<lambda>e. event_pkts e \<noteq> []) es))" for es
    by (induction es) auto
  then show ?thesis
    by (simp add: settled_def pkt_events_def)
qed

lemma pkts_lost_eq:
  "\<exists>b e c. ackm_on_pkts_lost M a s ps pseudo = a\<lparr>ackm_bytes_in_flight := b, ack_eliciting_bytes_in_flight := e, cc_data := c,
     ackm_events := ackm_events a @ map On_Lost ps\<rparr>"
proof -
  have "\<exists>b e c. foldl (pkt_lost M pseudo) a ps = a\<lparr>ackm_bytes_in_flight := b, ack_eliciting_bytes_in_flight := e, cc_data := c,
     ackm_events := ackm_events a @ map On_Lost ps\<rparr>"
  proof (induction ps arbitrary: a)
    case Nil
    show ?case
      by (intro exI [of _ "ackm_bytes_in_flight a"] exI [of _ "ack_eliciting_bytes_in_flight a"] exI [of _ "cc_data a"]) simp
  next
    case (Cons p ps)
    have "\<exists>b e c. pkt_lost M pseudo a p = a\<lparr>ackm_bytes_in_flight := b, ack_eliciting_bytes_in_flight := e, cc_data := c,
        ackm_events := ackm_events a @ [On_Lost p]\<rparr>"
      by (intro exI [of _ "ackm_bytes_in_flight (pkt_lost M pseudo a p)"] exI [of _ "ack_eliciting_bytes_in_flight (pkt_lost M pseudo a p)"]
          exI [of _ "cc_data (pkt_lost M pseudo a p)"]) (simp add: pkt_lost_def flight_out_def ackm_event_def Let_def)
    then obtain b e c where 1: "pkt_lost M pseudo a p = a\<lparr>ackm_bytes_in_flight := b, ack_eliciting_bytes_in_flight := e, cc_data := c,
        ackm_events := ackm_events a @ [On_Lost p]\<rparr>"
      by blast
    from Cons.IH [of "pkt_lost M pseudo a p"] show ?case
      by (elim exE) (simp add: 1, blast)
  qed
  then obtain b e c where "foldl (pkt_lost M pseudo) a ps = a\<lparr>ackm_bytes_in_flight := b, ack_eliciting_bytes_in_flight := e,
      cc_data := c, ackm_events := ackm_events a @ map On_Lost ps\<rparr>"
    by blast
  then show ?thesis
    by (intro exI [of _ b] exI [of _ e] exI [of _ "cc_data (ackm_on_pkts_lost M a s ps pseudo)"])
      (simp add: ackm_on_pkts_lost_def Let_def)
qed

lemma remove_low_no_fault: "\<exists>s'. ossl_uint_set_remove mem s \<lparr>rstart = 0, rend = e\<rparr> = Inr (s', True)"
proof -
  have "\<exists>s'. uint_set_remove_walk mem \<lparr>rstart = 0, rend = e\<rparr> ls rights = Inr s'" for ls rights
    by (induction mem "\<lparr>rstart = 0, rend = e\<rparr> :: uint_range" ls rights rule: uint_set_remove_walk.induct) auto
  then show ?thesis
    by (auto simp: ossl_uint_set_remove_def split: sum.split) (metis old.sum.exhaust sum.simps(4))
qed

lemma bump_no_fault: "\<exists>h'. rx_pkt_history_bump_watermark mem h w = Inr (h', True)"
  using remove_low_no_fault [of mem "rx_set h" "w - 1"] by (auto simp: rx_pkt_history_bump_watermark_def)

lemma timer_eq:
  "\<exists>d es. ackm_set_loss_detection_timer now a = a\<lparr>loss_detection_deadline := d, ackm_events := ackm_events a @ es\<rparr>
    \<and> (\<forall>e \<in> set es. event_pkts e = [])"
proof -
  have "\<exists>es. ackm_set_loss_detection_timer_actual a d = a\<lparr>loss_detection_deadline := d, ackm_events := ackm_events a @ es\<rparr>
    \<and> (\<forall>e \<in> set es. event_pkts e = [])" for d
    by (cases "loss_detection_deadline_cb a")
      (auto simp: ackm_set_loss_detection_timer_actual_def Let_def
        intro: exI [of _ "[Loss_Detection_Deadline d]"] exI [of _ "[] :: ackm_event list"])
  then show ?thesis
    unfolding ackm_set_loss_detection_timer_def by (cases "ackm_get_loss_time_and_space a") (simp, blast)
qed

lemma pkts_acked_eq:
  assumes "\<forall>p \<in> set ps. \<not> tp_on_acked_frees p"
  shows "\<exists>b e c r. ackm_on_pkts_acked M mem a ps = Inr (a\<lparr>ackm_bytes_in_flight := b, ack_eliciting_bytes_in_flight := e, cc_data := c,
     rx_history := r, ackm_events := ackm_events a @ map On_Acked ps\<rparr>)"
  using assms
proof (induction ps arbitrary: a)
  case Nil
  show ?case
    by (intro exI [of _ "ackm_bytes_in_flight a"] exI [of _ "ack_eliciting_bytes_in_flight a"] exI [of _ "cc_data a"]
        exI [of _ "rx_history a"]) simp
next
  case (Cons p ps)
  obtain h' where h': "rx_pkt_history_bump_watermark mem (rx_history a (tp_pkt_space p)) (tp_largest_acked p + 1) = Inr (h', True)"
    using bump_no_fault by blast
  define a1 where "a1 = (if tp_is_inflight p then
      (if tp_largest_acked p \<noteq> QUIC_PN_INVALID then (flight_out a p)\<lparr>rx_history := (rx_history a)(tp_pkt_space p := h')\<rparr> else flight_out a p)
    else a)"
  define a2 where "a2 = (if tp_is_inflight p
    then (ackm_event a1 (On_Acked p))\<lparr>cc_data := fst (on_data_acked M (cc_data a1) (tp_time p) (tp_num_bytes p))\<rparr>
    else ackm_event a1 (On_Acked p))"
  have rx: "rx_history (flight_out a p) = rx_history a"
    by (simp add: flight_out_def Let_def)
  have step: "ackm_on_pkts_acked M mem a (p # ps) = ackm_on_pkts_acked M mem a2 ps"
    using Cons.prems h' by (auto simp: a1_def a2_def rx Let_def ackm_event_def)
  have "a2 = a\<lparr>ackm_bytes_in_flight := ackm_bytes_in_flight a2, ack_eliciting_bytes_in_flight := ack_eliciting_bytes_in_flight a2,
      cc_data := cc_data a2, rx_history := rx_history a2, ackm_events := ackm_events a @ [On_Acked p]\<rparr>"
    by (simp add: a1_def a2_def flight_out_def Let_def ackm_event_def)
  then obtain b e c r where 1: "a2 = a\<lparr>ackm_bytes_in_flight := b, ack_eliciting_bytes_in_flight := e,
      cc_data := c, rx_history := r, ackm_events := ackm_events a @ [On_Acked p]\<rparr>"
    by blast
  have "\<exists>b e c r. ackm_on_pkts_acked M mem a2 ps = Inr (a2\<lparr>ackm_bytes_in_flight := b, ack_eliciting_bytes_in_flight := e, cc_data := c,
      rx_history := r, ackm_events := ackm_events a2 @ map On_Acked ps\<rparr>)"
    using Cons by simp
  then show ?case
    unfolding step by (elim exE) (simp add: 1, blast)
qed

section \<open>Counting\<close>

definition flight_sum :: "ackm_tx_pkt multiset \<Rightarrow> nat" where
  "flight_sum Q = (\<Sum>p \<in># Q. if tp_is_inflight p then unat (tp_num_bytes p) else 0)"

definition eliciting_sum :: "pn_space \<Rightarrow> ackm_tx_pkt multiset \<Rightarrow> nat" where
  "eliciting_sum s Q = (\<Sum>p \<in># Q. if tp_is_ack_eliciting p \<and> tp_pkt_space p = s then unat (tp_num_bytes p) else 0)"

lemma sums_simps [simp]:
  "flight_sum {#} = 0" "flight_sum (add_mset p Q) = (if tp_is_inflight p then unat (tp_num_bytes p) else 0) + flight_sum Q"
  "flight_sum (A + B) = flight_sum A + flight_sum B"
  "eliciting_sum s {#} = 0"
  "eliciting_sum s (add_mset p Q) = (if tp_is_ack_eliciting p \<and> tp_pkt_space p = s then unat (tp_num_bytes p) else 0) + eliciting_sum s Q"
  "eliciting_sum s (A + B) = eliciting_sum s A + eliciting_sum s B"
  by (simp_all add: flight_sum_def eliciting_sum_def)

text \<open>The packets in the histories.\<close>

definition held :: "'cc ackm \<Rightarrow> ackm_tx_pkt multiset" where
  "held a = mset (tx_packets (tx_history a QUIC_PN_SPACE_INITIAL)) + mset (tx_packets (tx_history a QUIC_PN_SPACE_HANDSHAKE))
     + mset (tx_packets (tx_history a QUIC_PN_SPACE_APP))"

lemma held_upd:
  "held (a\<lparr>tx_history := (tx_history a)(s := h)\<rparr>) + mset (tx_packets (tx_history a s)) = held a + mset (tx_packets h)"
  by (cases s) (simp_all add: held_def ac_simps)

lemma held_cong: "tx_history a' = tx_history a \<Longrightarrow> held a' = held a"
  by (simp add: held_def)

text \<open>
  \<open>Q\<close>: packets that were taken out of the histories and are still to be dealt with. \<open>pl\<close>: bytes the congestion controller was not told about. \<open>S\<close>: all
  packets sent.
\<close>

definition tx_inv :: "('cc \<Rightarrow> nat) \<Rightarrow> 'cc ackm \<Rightarrow> ackm_tx_pkt multiset \<Rightarrow> nat \<Rightarrow> ackm_tx_pkt multiset \<Rightarrow> bool" where
  "tx_inv flight a Q pl S \<longleftrightarrow>
     (\<forall>s. if discarded a s then tx_packets (tx_history a s) = [] else hist_ok s (tx_history a s))
     \<and> (\<forall>p \<in># Q. pkt_ok p) \<and> S = held a + Q + settled a
     \<and> unat (ackm_bytes_in_flight a) = flight_sum (held a + Q)
     \<and> (\<forall>s. unat (ack_eliciting_bytes_in_flight a s) = eliciting_sum s (held a + Q))
     \<and> flight (cc_data a) = flight_sum (held a + Q) + pl"

lemma tx_invD:
  assumes "tx_inv flight a Q pl S"
  shows "\<not> discarded a s \<Longrightarrow> hist_ok s (tx_history a s)" and "discarded a s \<Longrightarrow> tx_packets (tx_history a s) = []"
    and "p \<in># Q \<Longrightarrow> pkt_ok p" and "S = held a + Q + settled a"
    and "unat (ackm_bytes_in_flight a) = flight_sum (held a + Q)"
    and "unat (ack_eliciting_bytes_in_flight a s) = eliciting_sum s (held a + Q)"
    and "flight (cc_data a) = flight_sum (held a + Q) + pl"
  using assms by (auto simp: tx_inv_def split: if_splits)

lemma tx_inv_cong:
  assumes "tx_inv flight a Q pl S" and "tx_history a' = tx_history a" "discarded a' = discarded a"
    "ackm_bytes_in_flight a' = ackm_bytes_in_flight a" "ack_eliciting_bytes_in_flight a' = ack_eliciting_bytes_in_flight a"
    "flight (cc_data a') = flight (cc_data a)" "settled a' = settled a"
  shows "tx_inv flight a' Q pl S"
  using assms held_cong [OF assms(2)] by (simp add: tx_inv_def)

text \<open>Packets leave a history.\<close>

lemma tx_inv_take:
  assumes inv: "tx_inv flight a Q pl S" and live: "\<not> discarded a s" and h': "hist_ok s h'"
    and split: "mset (tx_packets (tx_history a s)) = mset (tx_packets h') + T"
  shows "tx_inv flight (a\<lparr>tx_history := (tx_history a)(s := h')\<rparr>) (Q + T) pl S"
proof -
  let ?a = "a\<lparr>tx_history := (tx_history a)(s := h')\<rparr>"
  note I = tx_invD [OF inv]
  have held: "held a = held ?a + T"
    using held_upd [of a s h'] by (simp add: split ac_simps)
  have "settled ?a = settled a"
    by (simp add: settled_def)
  moreover have "\<forall>p \<in># T. pkt_ok p"
  proof
    fix p assume "p \<in># T"
    then have "p \<in> set (tx_packets (tx_history a s))"
      using split by (metis set_mset_mset union_iff)
    then show "pkt_ok p"
      using I(1) [OF live] by (simp add: hist_ok_def)
  qed
  ultimately show ?thesis
    unfolding tx_inv_def using I held h' live by (auto simp: ac_simps)
qed

section \<open>The congestion controller\<close>

locale ackm_congestion = congestion_accounting flight "on_data_sent M" "on_data_acked M" "on_data_lost M" "on_data_invalidated M"
  for flight :: "'cc \<Rightarrow> nat" and M :: "'cc cc_method" +
  assumes finished_flight: "flight (fst (on_data_lost_finished M c flags)) = flight c"
begin

lemma flight_out_inv:
  assumes inv: "tx_inv flight a (add_mset p Q) pl S" and infl: "tp_is_inflight p"
  shows "unat (ackm_bytes_in_flight (flight_out a p)) = flight_sum (held a + Q)"
    and "unat (ack_eliciting_bytes_in_flight (flight_out a p) s) = eliciting_sum s (held a + Q)"
    and "unat (tp_num_bytes p) \<le> flight (cc_data a)"
proof -
  note I = tx_invD [OF inv]
  have "unat (ackm_bytes_in_flight a) = unat (tp_num_bytes p) + flight_sum (held a + Q)"
    using I(5) infl by simp
  then show "unat (ackm_bytes_in_flight (flight_out a p)) = flight_sum (held a + Q)"
    by (simp add: flight_out_def Let_def unat_sub_no_underflow word_le_nat_alt)
  show "unat (tp_num_bytes p) \<le> flight (cc_data a)"
    using I(7) infl by simp
  have "unat (ack_eliciting_bytes_in_flight a s) = (if tp_is_ack_eliciting p \<and> tp_pkt_space p = s then unat (tp_num_bytes p) else 0)
      + eliciting_sum s (held a + Q)"
    using I(6) [of s] by simp
  then show "unat (ack_eliciting_bytes_in_flight (flight_out a p) s) = eliciting_sum s (held a + Q)"
    by (auto simp: flight_out_def Let_def unat_sub_no_underflow word_le_nat_alt split: if_splits)
qed

lemma pkt_lost_inv:
  assumes inv: "tx_inv flight a (add_mset p Q) pl S"
  shows "tx_inv flight (pkt_lost M pseudo a p) Q (if pseudo \<and> tp_is_inflight p then pl + unat (tp_num_bytes p) else pl) S"
proof -
  note I = tx_invD [OF inv]
  let ?a = "pkt_lost M pseudo a p"
  have f: "tx_history ?a = tx_history a" "discarded ?a = discarded a" "settled ?a = add_mset p (settled a)"
    by (simp_all add: pkt_lost_def flight_out_def ackm_event_def settled_def Let_def)
  have held: "held ?a = held a"
    by (rule held_cong [OF f(1)])
  have cc: "cc_data (flight_out a p) = cc_data a"
    by (simp add: flight_out_def Let_def)
  have b: "unat (ackm_bytes_in_flight ?a) = flight_sum (held a + Q) \<and> (\<forall>s. unat (ack_eliciting_bytes_in_flight ?a s) = eliciting_sum s (held a + Q))
      \<and> flight (cc_data ?a) = flight_sum (held a + Q) + (if pseudo \<and> tp_is_inflight p then pl + unat (tp_num_bytes p) else pl)"
  proof (cases "tp_is_inflight p")
    case True
    note fo = flight_out_inv [OF inv True]
    show ?thesis
      using True fo I(7) lost_flight [OF fo(3)] by (simp add: pkt_lost_def ackm_event_def Let_def cc)
  next
    case False
    moreover have "\<not> tp_is_ack_eliciting p"
      using I(3) [of p] False by (simp add: pkt_ok_def)
    ultimately show ?thesis
      using I(5-7) by (simp add: pkt_lost_def ackm_event_def Let_def)
  qed
  show ?thesis
    unfolding tx_inv_def held f using I b by auto
qed

lemma pkts_lost_inv:
  assumes "tx_inv flight a (mset ps + Q) pl S"
  shows "tx_inv flight (ackm_on_pkts_lost M a s ps False) Q pl S"
proof -
  have "tx_inv flight (foldl (pkt_lost M False) a ps) Q pl S"
    using assms
  proof (induction ps arbitrary: a)
    case (Cons p ps)
    then show ?case
      using pkt_lost_inv [of a p "mset ps + Q" pl S False] by simp
  qed simp
  then show ?thesis
    by (rule tx_inv_cong) (simp_all add: ackm_on_pkts_lost_def Let_def finished_flight settled_def)
qed

lemma pkt_pseudo_lost_inv:
  assumes "tx_inv flight a {#p#} pl S"
  shows "tx_inv flight (ackm_on_pkts_lost M a s [p] True) {#} (if tp_is_inflight p then pl + unat (tp_num_bytes p) else pl) S"
proof -
  have "tx_inv flight (pkt_lost M True a p) {#} (if tp_is_inflight p then pl + unat (tp_num_bytes p) else pl) S"
    using pkt_lost_inv [OF assms, of True] by simp
  then show ?thesis
    by (rule tx_inv_cong) (simp_all add: ackm_on_pkts_lost_def Let_def finished_flight settled_def)
qed

lemma pkts_acked_inv:
  assumes "tx_inv flight a (mset ps + Q) pl S" and "ackm_on_pkts_acked M mem a ps = Inr a'"
  shows "tx_inv flight a' Q pl S"
  using assms
proof (induction ps arbitrary: a)
  case Nil
  then show ?case
    by simp
next
  case (Cons p ps)
  let ?Q = "mset ps + Q"
  have inv: "tx_inv flight a (add_mset p ?Q) pl S"
    using Cons.prems(1) by simp
  note I = tx_invD [OF inv]
  obtain h' where h': "rx_pkt_history_bump_watermark mem (rx_history a (tp_pkt_space p)) (tp_largest_acked p + 1) = Inr (h', True)"
    using bump_no_fault by blast
  define a1 where "a1 = (if tp_is_inflight p then
      (if tp_largest_acked p \<noteq> QUIC_PN_INVALID then (flight_out a p)\<lparr>rx_history := (rx_history a)(tp_pkt_space p := h')\<rparr> else flight_out a p)
    else a)"
  define a2 where "a2 = (if tp_is_inflight p
    then (ackm_event a1 (On_Acked p))\<lparr>cc_data := fst (on_data_acked M (cc_data a1) (tp_time p) (tp_num_bytes p))\<rparr>
    else ackm_event a1 (On_Acked p))"
  have rx: "rx_history (flight_out a p) = rx_history a" and cc: "cc_data (flight_out a p) = cc_data a"
    by (simp_all add: flight_out_def Let_def)
  have "\<not> tp_on_acked_frees p"
    using I(3) [of p] by (simp add: pkt_ok_def)
  then have step: "ackm_on_pkts_acked M mem a (p # ps) = ackm_on_pkts_acked M mem a2 ps"
    using h' by (auto simp: a1_def a2_def rx Let_def ackm_event_def)
  have f: "tx_history a2 = tx_history a" "discarded a2 = discarded a" "settled a2 = add_mset p (settled a)"
    by (simp_all add: a1_def a2_def flight_out_def ackm_event_def settled_def Let_def)
  have held: "held a2 = held a"
    by (rule held_cong [OF f(1)])
  have b: "unat (ackm_bytes_in_flight a2) = flight_sum (held a + ?Q) \<and> (\<forall>s. unat (ack_eliciting_bytes_in_flight a2 s) = eliciting_sum s (held a + ?Q))
      \<and> flight (cc_data a2) = flight_sum (held a + ?Q) + pl"
  proof (cases "tp_is_inflight p")
    case True
    note fo = flight_out_inv [OF inv True]
    show ?thesis
      using True fo I(7) acked_flight [OF fo(3)] by (simp add: a2_def a1_def ackm_event_def cc)
  next
    case False
    moreover have "\<not> tp_is_ack_eliciting p"
      using I(3) [of p] False by (simp add: pkt_ok_def)
    ultimately show ?thesis
      using I(5-7) by (simp add: a2_def a1_def ackm_event_def)
  qed
  have "tx_inv flight a2 ?Q pl S"
    unfolding tx_inv_def held f using I b by auto
  then show ?case
    using Cons.IH Cons.prems(2) unfolding step by blast
qed

end

section \<open>Operations\<close>

lemma settled_app: "settled (a\<lparr>ackm_events := ackm_events a @ es\<rparr>) = settled a + mset (concat (map event_pkts es))"
  by (simp add: settled_def)

lemma timer_fields:
  "tx_history (ackm_set_loss_detection_timer now a) = tx_history a" "discarded (ackm_set_loss_detection_timer now a) = discarded a"
  "cc_data (ackm_set_loss_detection_timer now a) = cc_data a" "loss_time (ackm_set_loss_detection_timer now a) = loss_time a"
  "largest_acked_pkt (ackm_set_loss_detection_timer now a) = largest_acked_pkt a"
  "ackm_statm (ackm_set_loss_detection_timer now a) = ackm_statm a" "rx_history (ackm_set_loss_detection_timer now a) = rx_history a"
  "pkt_events (ackm_set_loss_detection_timer now a) = pkt_events a"
  "ackm_bytes_in_flight (ackm_set_loss_detection_timer now a) = ackm_bytes_in_flight a"
  "ack_eliciting_bytes_in_flight (ackm_set_loss_detection_timer now a) = ack_eliciting_bytes_in_flight a"
  using timer_eq [of now a] by (auto simp: pkt_events_def filter_empty_conv)

lemma timer_inv: "tx_inv flight (ackm_set_loss_detection_timer now a) Q pl S \<longleftrightarrow> tx_inv flight a Q pl S"
  by (simp add: tx_inv_def held_def timer_fields settled_pkt_events)

text \<open>The packets of the largest acknowledged number are gone when the ECN counts are looked at.\<close>

lemma process_ecn_spec:
  assumes hist: "hist_ok s (tx_history a s)" and "ack_ranges ack = r # rs"
    and gone: "\<forall>p \<in> set (tx_packets (tx_history a s)). tp_pkt_num p \<noteq> ar_end r"
  shows "ackm_process_ecn M a ack s
    = Inr (if ecnce ack > peer_ecnce a s then a\<lparr>peer_ecnce := (peer_ecnce a)(s := ecnce ack)\<rparr> else a)"
proof -
  have "tx_pkt_history_by_pkt_num (tx_history a s) (ar_end r) = Inr None"
    by (rule hist_ok_lookup [OF hist, of "ar_end r"]) (use gone in auto)
  then show ?thesis
    by (simp add: ackm_process_ecn_def assms(2))
qed

text \<open>What the handler of ACK frames does before it looks for losses.\<close>

definition ack_started :: "'cc ackm \<Rightarrow> ossl_quic_ack_range \<Rightarrow> pn_space \<Rightarrow> 'cc ackm" where
  "ack_started a r0 s =
     (let a = a\<lparr>largest_acked_pkt := (largest_acked_pkt a)
           (s := (if largest_acked_pkt a s = QUIC_PN_INVALID then ar_end r0 else ossl_quic_pn_max (largest_acked_pkt a s) (ar_end r0)))\<rparr>
      in if \<not> peer_completed_addr_validation a \<and> s = QUIC_PN_SPACE_HANDSHAKE then a\<lparr>peer_completed_addr_validation := True\<rparr> else a)"

definition ack_rtt :: "ossl_time \<Rightarrow> 'cc ackm \<Rightarrow> ossl_quic_frame_ack \<Rightarrow> ossl_quic_ack_range \<Rightarrow> ackm_tx_pkt list \<Rightarrow> 'cc ackm" where
  "ack_rtt now a ack r0 na_pkts =
     (if tp_pkt_num (hd na_pkts) = ar_end r0 \<and> ack_includes_ack_eliciting na_pkts then
        let a = (if ossl_time_is_zero (first_rtt_sample a) then a\<lparr>first_rtt_sample := now\<rparr> else a);
            ack_delay = (if handshake_confirmed a then ossl_time_min (delay_time ack) (rx_max_ack_delay a) else delay_time ack)
        in a\<lparr>ackm_statm := ossl_statm_update_rtt (ackm_statm a) ack_delay (ossl_time_subtract now (tp_time (hd na_pkts)))\<rparr>
      else a)"

lemma ack_frame_unfold:
  assumes "ack_ranges ack = r0 # rs"
  shows "ossl_ackm_on_rx_ack_frame M mem (now_rtt, now_loss, now_timer) a ack s rx_time =
    res_bind (ackm_detect_and_remove_newly_acked_pkts (ack_started a r0 s) ack s) (\<lambda>(a1, na_pkts).
      if na_pkts = [] then
        Inr (if \<not> peer_completed_addr_validation a \<and> s = QUIC_PN_SPACE_HANDSHAKE
             then ackm_set_loss_detection_timer now_timer a1 else a1, True)
      else
        res_bind (if ecn_present ack then ackm_process_ecn M (ack_rtt now_rtt a1 ack r0 na_pkts) ack s
                  else Inr (ack_rtt now_rtt a1 ack r0 na_pkts)) (\<lambda>a2.
        res_bind (ackm_detect_and_remove_lost_pkts now_loss a2 s) (\<lambda>(a3, lost).
        res_bind (ackm_on_pkts_acked M mem (if lost \<noteq> [] then ackm_on_pkts_lost M a3 s lost False else a3) na_pkts) (\<lambda>a4.
          Inr (ackm_set_loss_detection_timer now_timer
            (if peer_completed_addr_validation a4 then a4\<lparr>pto_count := 0\<rparr> else a4), True)))))"
proof -
  have cases_hd: "(case na of [] \<Rightarrow> x | y # _ \<Rightarrow> f y) = (if na = [] then x else f (hd na))" for na x and f :: "ackm_tx_pkt \<Rightarrow> 'b"
    by (cases na) simp_all
  have addr: "peer_completed_addr_validation (a\<lparr>largest_acked_pkt := x\<rparr>) = peer_completed_addr_validation a" for x
    by simp
  show ?thesis
    by (simp only: ossl_ackm_on_rx_ack_frame_def assms prod.case list.case cases_hd addr ack_started_def ack_rtt_def Let_def)
qed

lemma ack_started_fields:
  "tx_history (ack_started a r0 s) = tx_history a" "discarded (ack_started a r0 s) = discarded a" "cc_data (ack_started a r0 s) = cc_data a"
  "ackm_bytes_in_flight (ack_started a r0 s) = ackm_bytes_in_flight a" "rx_history (ack_started a r0 s) = rx_history a"
  "ack_eliciting_bytes_in_flight (ack_started a r0 s) = ack_eliciting_bytes_in_flight a" "ackm_events (ack_started a r0 s) = ackm_events a"
  "largest_acked_pkt (ack_started a r0 s) = (largest_acked_pkt a)
    (s := (if largest_acked_pkt a s = QUIC_PN_INVALID then ar_end r0 else ossl_quic_pn_max (largest_acked_pkt a s) (ar_end r0)))"
  by (simp_all add: ack_started_def Let_def)

lemma ack_rtt_fields:
  "tx_history (ack_rtt now a ack r0 na) = tx_history a" "discarded (ack_rtt now a ack r0 na) = discarded a"
  "cc_data (ack_rtt now a ack r0 na) = cc_data a"  "rx_history (ack_rtt now a ack r0 na) = rx_history a"
  "ackm_bytes_in_flight (ack_rtt now a ack r0 na) = ackm_bytes_in_flight a"
  "ack_eliciting_bytes_in_flight (ack_rtt now a ack r0 na) = ack_eliciting_bytes_in_flight a"
  "ackm_events (ack_rtt now a ack r0 na) = ackm_events a" "largest_acked_pkt (ack_rtt now a ack r0 na) = largest_acked_pkt a"
  by (simp_all add: ack_rtt_def Let_def)

lemma mset_filter_parts: "mset ps = mset (filter (\<lambda>p. \<not> P p) ps) + mset (filter P ps)"
  by (induction ps) auto

text \<open>The packets in a history after an ACK frame, and what was told about those that left it.\<close>

definition ack_outcome ::
    "ossl_time \<Rightarrow> 'cc ackm \<Rightarrow> 'cc ackm \<Rightarrow> ossl_quic_ack_range list \<Rightarrow> pn_space \<Rightarrow> bool" where
  "ack_outcome now a a' rs s \<longleftrightarrow>
     (let ps = tx_packets (tx_history a s);
          delay = ackm_loss_delay (ossl_statm_get_rtt_info (ackm_statm a'));
          largest = largest_acked_pkt a' s;
          sent_by = ossl_time_subtract now delay
      in if filter (acked_by rs) ps = [] then tx_packets (tx_history a' s) = ps \<and> pkt_events a' = pkt_events a
         else tx_packets (tx_history a' s) = filter (\<lambda>p. \<not> acked_by rs p \<and> \<not> lost_now largest sent_by p) ps
           \<and> pkt_events a' = pkt_events a @ map On_Lost (filter (\<lambda>p. \<not> acked_by rs p \<and> lost_now largest sent_by p) ps)
               @ map On_Acked (rev (filter (acked_by rs) ps))
           \<and> loss_time a' s = earliest_loss delay ossl_time_zero
               (filter (\<lambda>p. \<not> acked_by rs p \<and> lost_later largest sent_by p) ps))"

context ackm_congestion
begin

lemma ack_frame_spec:
  assumes inv: "tx_inv flight a {#} pl S" and live: "\<not> discarded a s" and wf: "ack_wf ack"
  obtains a' where "ossl_ackm_on_rx_ack_frame M mem (now_rtt, now_loss, now_timer) a ack s rx_time = Inr (a', True)"
    "tx_inv flight a' {#} pl S" "ack_outcome now_loss a a' (ack_ranges ack) s"
    "discarded a' = discarded a" "\<forall>s'. s' \<noteq> s \<longrightarrow> tx_history a' s' = tx_history a s'"
    "largest_acked_pkt a' = (largest_acked_pkt a)(s := (if largest_acked_pkt a s = QUIC_PN_INVALID then ar_end (hd (ack_ranges ack))
      else ossl_quic_pn_max (largest_acked_pkt a s) (ar_end (hd (ack_ranges ack)))))"
proof -
  obtain r rs where r: "ack_ranges ack = r # rs" "ar_start r \<le> ar_end r"
    using wf by (auto simp: ack_wf_def split: list.splits)
  let ?ps = "tx_packets (tx_history a s)" and ?A = "acked_by (r # rs)"
  let ?a0 = "ack_started a r s"
  note F = ack_started_fields [of a r s]
  note R = ack_rtt_fields [of now_rtt _ ack r]
  have inv0: "tx_inv flight ?a0 {#} pl S"
    by (rule tx_inv_cong [OF inv]) (simp_all add: F settled_def)
  have hist0: "hist_ok s (tx_history ?a0 s)"
    using tx_invD(1) [OF inv] live by (simp add: F)
  obtain h1 where d: "ackm_detect_and_remove_newly_acked_pkts ?a0 ack s
      = Inr (?a0\<lparr>tx_history := (tx_history a)(s := h1)\<rparr>, rev (filter ?A ?ps))"
    "hist_ok s h1" "tx_packets h1 = filter (\<lambda>p. \<not> ?A p) ?ps"
    by (rule detect_newly_acked_spec [OF hist0 wf]) (simp add: F r(1))
  define a1 where "a1 = ?a0\<lparr>tx_history := (tx_history a)(s := h1)\<rparr>"
  have "mset (tx_packets (tx_history ?a0 s)) = mset (tx_packets h1) + mset (filter ?A ?ps)"
    unfolding F d(3) by (rule mset_filter_parts)
  from tx_inv_take [OF inv0 _ d(2) this] live
  have inv1: "tx_inv flight a1 (mset (rev (filter ?A ?ps))) pl S"
    by (simp add: a1_def F)
  note unfold = ack_frame_unfold [OF r(1), of M mem now_rtt now_loss now_timer a s rx_time, unfolded d(1) a1_def [symmetric]]
  show ?thesis
  proof (cases "filter ?A ?ps = []")
    case True
    define a' where "a' = (if \<not> peer_completed_addr_validation a \<and> s = QUIC_PN_SPACE_HANDSHAKE
      then ackm_set_loss_detection_timer now_timer a1 else a1)"
    have res: "ossl_ackm_on_rx_ack_frame M mem (now_rtt, now_loss, now_timer) a ack s rx_time = Inr (a', True)"
      unfolding unfold True by (simp add: a'_def)
    have ps1: "tx_packets h1 = ?ps"
      using True by (auto simp: d(3) filter_empty_conv intro!: filter_True)
    have f: "tx_history a' = tx_history a1" "discarded a' = discarded a1" "pkt_events a' = pkt_events a1"
      "largest_acked_pkt a' = largest_acked_pkt a1"
      by (simp_all add: a'_def timer_fields)
    have "pkt_events a1 = pkt_events a"
      by (simp add: pkt_events_def a1_def F)
    with f(3) have ev: "pkt_events a' = pkt_events a"
      by simp
    show ?thesis
    proof (rule that [OF res])
      show "tx_inv flight a' {#} pl S"
        using inv1 by (simp add: True a'_def timer_inv)
      show "ack_outcome now_loss a a' (ack_ranges ack) s"
        by (simp add: ack_outcome_def r(1) True f(1) ev a1_def ps1)
    qed (use f in \<open>simp_all add: a1_def F r(1)\<close>)
  next
    case False
    let ?na = "rev (filter ?A ?ps)"
    define a2 where "a2 = ack_rtt now_rtt a1 ack r ?na"
    have f2: "tx_history a2 = (tx_history a)(s := h1)" "discarded a2 = discarded a" "ackm_events a2 = ackm_events a"
      "largest_acked_pkt a2 = largest_acked_pkt ?a0"
      by (simp_all add: a2_def R a1_def F)
    have inv2: "tx_inv flight a2 (mset ?na) pl S"
      by (rule tx_inv_cong [OF inv1]) (simp_all add: a2_def R settled_def)
    have gone: "\<forall>p \<in> set (tx_packets (tx_history a2 s)). tp_pkt_num p \<noteq> ar_end r"
      using r(2) by (auto simp: f2(1) d(3) acked_by_def range_contains_def)
    have hist2: "hist_ok s (tx_history a2 s)"
      using d(2) by (simp add: f2(1))
    define a3 where "a3 = (if ecn_present ack \<and> ecnce ack > peer_ecnce a2 s
      then a2\<lparr>peer_ecnce := (peer_ecnce a2)(s := ecnce ack)\<rparr> else a2)"
    have ecn: "(if ecn_present ack then ackm_process_ecn M a2 ack s else Inr a2) = Inr a3"
      using process_ecn_spec [OF hist2 r(1) gone, of M] by (simp add: a3_def)
    have f3: "tx_history a3 = (tx_history a)(s := h1)" "discarded a3 = discarded a" "ackm_events a3 = ackm_events a"
      "largest_acked_pkt a3 = largest_acked_pkt ?a0"
      by (simp_all add: a3_def f2)
    have inv3: "tx_inv flight a3 (mset ?na) pl S"
      by (rule tx_inv_cong [OF inv2]) (simp_all add: a3_def settled_def)
    let ?delay = "ackm_loss_delay (ossl_statm_get_rtt_info (ackm_statm a3))"
    let ?L = "lost_now (largest_acked_pkt a3 s) (ossl_time_subtract now_loss ?delay)"
    let ?later = "lost_later (largest_acked_pkt a3 s) (ossl_time_subtract now_loss ?delay)"
    let ?lt = "earliest_loss ?delay ossl_time_zero (filter ?later (tx_packets h1))"
    have hist3: "hist_ok s (tx_history a3 s)"
      using d(2) by (simp add: f3(1))
    obtain h4 where l: "ackm_detect_and_remove_lost_pkts now_loss a3 s
        = Inr (a3\<lparr>loss_time := (loss_time a3)(s := ?lt), tx_history := (tx_history a)(s := h4)\<rparr>, filter ?L (tx_packets h1))"
      "hist_ok s h4" "tx_packets h4 = filter (\<lambda>p. \<not> ?L p) (tx_packets h1)"
      by (rule detect_lost_spec [OF hist3, of now_loss]) (simp add: f3(1))
    define a4 where "a4 = a3\<lparr>loss_time := (loss_time a3)(s := ?lt), tx_history := (tx_history a)(s := h4)\<rparr>"
    let ?lost = "filter ?L (tx_packets h1)"
    have live3: "\<not> discarded a3 s"
      using live by (simp add: f3)
    have "tx_inv flight (a3\<lparr>tx_history := (tx_history a3)(s := h4)\<rparr>) (mset ?na + mset ?lost) pl S"
      using inv3 live3 l(2) by (rule tx_inv_take) (simp add: f3 l(3) mset_filter_parts [symmetric])
    then have inv4: "tx_inv flight a4 (mset ?lost + mset ?na) pl S"
      unfolding add.commute [of "mset ?lost"] by (rule tx_inv_cong) (simp_all add: a4_def f3(1) settled_def)
    define a5 where "a5 = (if ?lost \<noteq> [] then ackm_on_pkts_lost M a4 s ?lost False else a4)"
    have inv5: "tx_inv flight a5 (mset ?na) pl S"
    proof (cases "?lost = []")
      case True
      then show ?thesis
        using inv4 by (simp only: a5_def mset.simps(1) add_0 simp_thms if_False)
    next
      case False
      then show ?thesis
        using pkts_lost_inv [OF inv4, of s] by (simp only: a5_def if_True not_False_eq_True)
    qed
    have f5: "tx_history a5 = tx_history a4 \<and> discarded a5 = discarded a4 \<and> ackm_events a5 = ackm_events a4 @ map On_Lost ?lost
      \<and> largest_acked_pkt a5 = largest_acked_pkt a4 \<and> ackm_statm a5 = ackm_statm a4 \<and> loss_time a5 = loss_time a4"
      using pkts_lost_eq [of M a4 s ?lost False] by (auto simp: a5_def)
    have "\<forall>p \<in> set ?na. \<not> tp_on_acked_frees p"
      using tx_invD(3) [OF inv5] by (auto simp: pkt_ok_def)
    from pkts_acked_eq [OF this, of M mem a5] obtain a6 where a6: "ackm_on_pkts_acked M mem a5 ?na = Inr a6"
      and f6: "tx_history a6 = tx_history a5 \<and> discarded a6 = discarded a5 \<and> ackm_events a6 = ackm_events a5 @ map On_Acked ?na
      \<and> largest_acked_pkt a6 = largest_acked_pkt a5 \<and> ackm_statm a6 = ackm_statm a5 \<and> loss_time a6 = loss_time a5"
      by fastforce
    have inv6: "tx_inv flight a6 {#} pl S"
      by (rule pkts_acked_inv [OF _ a6]) (use inv5 in simp)
    define a7 where "a7 = (if peer_completed_addr_validation a6 then a6\<lparr>pto_count := 0\<rparr> else a6)"
    have inv7: "tx_inv flight a7 {#} pl S"
      by (rule tx_inv_cong [OF inv6]) (simp_all add: a7_def settled_def)
    have f7: "tx_history a7 = tx_history a6" "discarded a7 = discarded a6" "ackm_events a7 = ackm_events a6"
      "largest_acked_pkt a7 = largest_acked_pkt a6" "ackm_statm a7 = ackm_statm a6" "loss_time a7 = loss_time a6"
      by (simp_all add: a7_def)
    let ?a' = "ackm_set_loss_detection_timer now_timer a7"
    have res: "ossl_ackm_on_rx_ack_frame M mem (now_rtt, now_loss, now_timer) a ack s rx_time = Inr (?a', True)"
      unfolding unfold
      by (simp only: res_bind_simps prod.case rev_is_Nil_conv False if_False a2_def [symmetric] ecn l(1) [folded a4_def]
          a5_def [symmetric] a6 a7_def [symmetric])
    have g: "tx_history ?a' = (tx_history a)(s := h4)" "discarded ?a' = discarded a"
      "largest_acked_pkt ?a' = largest_acked_pkt a3" "ackm_statm ?a' = ackm_statm a3" "loss_time ?a' s = ?lt"
      using f5 f6 by (simp_all add: timer_fields f7 a4_def f3)
    have "pkt_events a7 = pkt_events a @ map On_Lost ?lost @ map On_Acked ?na"
      using f5 f6 by (simp add: pkt_events_def f7 a4_def f3 filter_map comp_def)
    then have ev: "pkt_events ?a' = pkt_events a @ map On_Lost ?lost @ map On_Acked ?na"
      by (simp only: timer_fields)
    have "filter ?L (tx_packets h1) = filter (\<lambda>p. \<not> ?A p \<and> ?L p) ?ps" "filter (\<lambda>p. \<not> ?L p) (tx_packets h1) = filter (\<lambda>p. \<not> ?A p \<and> \<not> ?L p) ?ps"
      "filter ?later (tx_packets h1) = filter (\<lambda>p. \<not> ?A p \<and> ?later p) ?ps"
      unfolding d(3) filter_filter by (rule filter_cong; blast)+
    then have "ack_outcome now_loss a ?a' (ack_ranges ack) s"
      using False g ev l(3) by (simp add: ack_outcome_def r(1) Let_def)
    with res inv7 g show ?thesis
      by (intro that [of ?a']) (simp_all add: timer_inv f3 F r(1))
  qed
qed

end

context ackm_congestion
begin

lemma filter_eq_single: "distinct ps \<Longrightarrow> p \<in> set ps \<Longrightarrow> filter ((=) p) ps = [p]"
  by (induction ps) (auto simp: filter_empty_conv)

lemma tx_packet_spec:
  assumes inv: "tx_inv flight a {#} pl S" and live: "\<not> discarded a (tp_pkt_space p)"
    and p: "tp_pkt_num p < 2 ^ 62" "\<not> tp_on_acked_frees p"
    and room: "flight_sum (held a) + pl + unat (tp_num_bytes p) < 2 ^ 64"
  obtains a' b where "ossl_ackm_on_tx_packet M True now a p = Inr (a', b)"
    "tx_inv flight a' {#} pl (if b then add_mset p S else S)" "discarded a' = discarded a"
    "b \<longrightarrow> tx_packets (tx_history a' (tp_pkt_space p)) = tx_packets (tx_history a (tp_pkt_space p)) @ [p]"
    "rx_history a' = rx_history a"
proof -
  let ?s = "tp_pkt_space p"
  note I = tx_invD [OF inv]
  let ?checks = "ossl_time_is_zero (tp_time p) \<or> ossl_time_compare (time_of_last_ack_eliciting_pkt a ?s) (tp_time p) > 0
    \<or> tp_num_bytes p = 0 \<or> \<not> tp_is_inflight p \<and> tp_is_ack_eliciting p"
  show ?thesis
  proof (cases ?checks)
    case True
    then have "ossl_ackm_on_tx_packet M True now a p = Inr (a, False)"
      by (auto simp: ossl_ackm_on_tx_packet_def Let_def)
    with inv show ?thesis
      by (intro that [of a False]) simp_all
  next
    case False
    then have ok: "pkt_ok p"
      using p by (auto simp: pkt_ok_def ossl_time_simps)
    have unfold: "ossl_ackm_on_tx_packet M True now a p = res_bind (tx_pkt_history_add True (tx_history a ?s) p) (\<lambda>(h, ok).
        let a = a\<lparr>tx_history := (tx_history a)(?s := h)\<rparr> in
        if \<not> ok then Inr (a, False)
        else
          Inr (if tp_is_inflight p then
                 let a = (if tp_is_ack_eliciting p
                          then a\<lparr>time_of_last_ack_eliciting_pkt := (time_of_last_ack_eliciting_pkt a)(?s := tp_time p),
                                 ack_eliciting_bytes_in_flight := (ack_eliciting_bytes_in_flight a)
                                   (?s := ack_eliciting_bytes_in_flight a ?s + tp_num_bytes p)\<rparr>
                          else a);
                     a = a\<lparr>ackm_bytes_in_flight := ackm_bytes_in_flight a + tp_num_bytes p\<rparr>;
                     a = ackm_set_loss_detection_timer now a
                 in a\<lparr>cc_data := fst (on_data_sent M (cc_data a) (tp_num_bytes p))\<rparr>
               else a, True))"
      using False by (simp only: ossl_ackm_on_tx_packet_def Let_def de_Morgan_disj if_False simp_thms)
    show ?thesis
    proof (cases rule: hist_ok_add [OF I(1) [OF live] ok refl])
      case (2)
      have "a\<lparr>tx_history := (tx_history a)(?s := tx_history a ?s)\<rparr> = a"
        by simp
      then have "ossl_ackm_on_tx_packet M True now a p = Inr (a, False)"
        unfolding unfold 2 by (simp add: Let_def)
      with inv show ?thesis
        by (intro that [of a False]) simp_all
    next
      case (1 h)
      define a1 where "a1 = a\<lparr>tx_history := (tx_history a)(?s := h)\<rparr>"
      define a2 where "a2 = (if tp_is_ack_eliciting p
        then a1\<lparr>time_of_last_ack_eliciting_pkt := (time_of_last_ack_eliciting_pkt a1)(?s := tp_time p),
          ack_eliciting_bytes_in_flight := (ack_eliciting_bytes_in_flight a1)(?s := ack_eliciting_bytes_in_flight a1 ?s + tp_num_bytes p)\<rparr>
        else a1)"
      define a3 where "a3 = ackm_set_loss_detection_timer now (a2\<lparr>ackm_bytes_in_flight := ackm_bytes_in_flight a2 + tp_num_bytes p\<rparr>)"
      define a' where "a' = (if tp_is_inflight p then a3\<lparr>cc_data := fst (on_data_sent M (cc_data a3) (tp_num_bytes p))\<rparr> else a1)"
      have res: "ossl_ackm_on_tx_packet M True now a p = Inr (a', True)"
        unfolding unfold 1(1) by (simp add: Let_def a'_def a3_def a2_def a1_def)
      have f: "tx_history a' = (tx_history a)(?s := h)" "discarded a' = discarded a" "rx_history a' = rx_history a"
        by (simp_all add: a'_def a3_def a2_def a1_def timer_fields)
      have ev: "settled a' = settled a"
      proof -
        have "pkt_events a' = pkt_events a1"
          using timer_fields(8) [of now "a2\<lparr>ackm_bytes_in_flight := ackm_bytes_in_flight a2 + tp_num_bytes p\<rparr>"]
          by (simp add: a'_def a3_def a2_def pkt_events_def)
        then show ?thesis
          by (simp add: settled_pkt_events a1_def pkt_events_def)
      qed
      have held: "held a' = add_mset p (held a)"
      proof -
        have "held a1 + mset (tx_packets (tx_history a ?s)) = add_mset p (held a) + mset (tx_packets (tx_history a ?s))"
          unfolding a1_def held_upd 1(3) by simp
        then have "held a1 = add_mset p (held a)"
          by simp
        then show ?thesis
          using held_cong [of a' a1] by (simp add: f(1) a1_def)
      qed
      have nae: "\<not> tp_is_inflight p \<longrightarrow> \<not> tp_is_ack_eliciting p"
        using ok by (auto simp: pkt_ok_def)
      have le: "eliciting_sum s Q \<le> flight_sum Q" if "\<forall>p \<in># Q. pkt_ok p" for s Q
        using that by (induction Q) (auto simp: pkt_ok_def)
      have oks: "\<forall>p \<in># held a. pkt_ok p"
        using I(1,2) by (auto simp: held_def hist_ok_def) (metis empty_iff list.set(1))+
      have b: "unat (ackm_bytes_in_flight a') = flight_sum (held a')"
        unfolding held using I(5) room nae by (auto simp: a'_def a3_def a2_def a1_def timer_fields unat_add_no_overflow)
      have c: "flight (cc_data a') = flight_sum (held a') + pl"
        unfolding held using I(7) room sent_flight [of "cc_data a" "tp_num_bytes p"]
        by (auto simp: a'_def a3_def a2_def a1_def timer_fields)
      have e: "unat (ack_eliciting_bytes_in_flight a' s) = eliciting_sum s (held a')" for s
        unfolding held using I(6) [of s] room nae le [OF oks, of s]
        by (auto simp: a'_def a3_def a2_def a1_def timer_fields unat_add_no_overflow)
      have "\<forall>s. if discarded a' s then tx_packets (tx_history a' s) = [] else hist_ok s (tx_history a' s)"
        using I(1,2) 1(2) live by (auto simp: f)
      then have "tx_inv flight a' {#} pl (add_mset p S)"
        unfolding tx_inv_def using b c e I(4) by (simp add: held ev)
      with res f 1(3) show ?thesis
        by (intro that [of a' True]) simp_all
    qed
  qed
qed

lemma pseudo_lost_spec:
  assumes inv: "tx_inv flight a {#} pl S" and live: "\<not> discarded a s"
  obtains a' b pl' where "ossl_ackm_mark_packet_pseudo_lost M a s pn = Inr (a', b)" "tx_inv flight a' {#} pl' S"
    "discarded a' = discarded a" "rx_history a' = rx_history a"
    "pl' = pl + (if b then flight_sum (mset (filter (\<lambda>p. tp_pkt_num p = pn) (tx_packets (tx_history a s)))) else 0)"
proof -
  note hist = tx_invD(1) [OF inv live]
  have sorted: "sorted_wrt (\<lambda>p q. tp_pkt_num p < tp_pkt_num q) (tx_packets (tx_history a s))"
    using hist by (simp add: hist_ok_def)
  show ?thesis
  proof (cases rule: hist_ok_lookup [OF hist, of pn])
    case 2
    with inv show ?thesis
      by (intro that [of a False pl]) (simp_all add: ossl_ackm_mark_packet_pseudo_lost_def)
  next
    case (1 p)
    obtain h' where h': "tx_pkt_history_remove (tx_history a s) (tp_pkt_num p) = Inr (h', True)" "hist_ok s h'"
      "tx_packets h' = filter (\<lambda>q. q \<noteq> p) (tx_packets (tx_history a s))"
      by (rule hist_ok_remove [OF hist 1(2)])
    let ?ps = "tx_packets (tx_history a s)"
    have one: "filter (\<lambda>q. tp_pkt_num q = pn) ?ps = [p]"
    proof -
      have "filter (\<lambda>q. tp_pkt_num q = pn) ?ps = filter ((=) p) ?ps"
        using ascending_inj [OF sorted _ 1(2)] 1(3) by (intro filter_cong) auto
      also have "\<dots> = [p]"
        by (rule filter_eq_single [OF ascending_distinct [OF sorted] 1(2)])
      finally show ?thesis .
    qed
    have "filter (\<lambda>q. q = p) ?ps = [p]"
      using ascending_inj [OF sorted _ 1(2)] 1(3) unfolding one [symmetric] by (intro filter_cong) auto
    then have "mset ?ps = mset (tx_packets h') + {#p#}"
      unfolding h'(3) using mset_filter_parts [of ?ps "\<lambda>q. q = p"] by simp
    from tx_inv_take [OF inv live h'(2) this]
    have "tx_inv flight (a\<lparr>tx_history := (tx_history a)(s := h')\<rparr>) {#p#} pl S"
      by simp
    from pkt_pseudo_lost_inv [OF this, of s]
    have i: "tx_inv flight (ackm_on_pkts_lost M (a\<lparr>tx_history := (tx_history a)(s := h')\<rparr>) s [p] True) {#}
        (pl + flight_sum (mset [p])) S"
      by (cases "tp_is_inflight p") simp_all
    have f: "discarded (ackm_on_pkts_lost M (a\<lparr>tx_history := (tx_history a)(s := h')\<rparr>) s [p] True) = discarded a"
      "rx_history (ackm_on_pkts_lost M (a\<lparr>tx_history := (tx_history a)(s := h')\<rparr>) s [p] True) = rx_history a"
      using pkts_lost_eq [of M "a\<lparr>tx_history := (tx_history a)(s := h')\<rparr>" s "[p]" True] by auto
    from i f one show ?thesis
      by (intro that [of "ackm_on_pkts_lost M (a\<lparr>tx_history := (tx_history a)(s := h')\<rparr>) s [p] True" True "pl + flight_sum (mset [p])"])
        (simp_all add: ossl_ackm_mark_packet_pseudo_lost_def Let_def 1(1) h'(1))
  qed
qed

end

context ackm_congestion
begin

lemma timeout_spec:
  assumes inv: "tx_inv flight a {#} pl S" and lt: "\<forall>s. discarded a s \<longrightarrow> loss_time a s = ossl_time_zero"
  obtains a' where "ossl_ackm_on_timeout M (now1, now2) a = Inr (a', True)" "tx_inv flight a' {#} pl S" "discarded a' = discarded a"
    "rx_history a' = rx_history a"
proof -
  obtain t s where ts: "ackm_get_loss_time_and_space a = (t, s)"
    by (cases "ackm_get_loss_time_and_space a") auto
  have t: "t = loss_time a s"
    using ts by (auto simp: ackm_get_loss_time_and_space_def split: if_splits)
  show ?thesis
  proof (cases "ossl_time_is_zero t")
    case True
    define a1 where "a1 = (if ackm_ack_eliciting_bytes_in_flight a = 0 then
                     (if discarded a QUIC_PN_SPACE_INITIAL then ackm_queue_probe_anti_deadlock_handshake a
                      else ackm_queue_probe_anti_deadlock_initial a)
                   else ackm_queue_probe a (snd (ackm_get_pto_time_and_space now1 a)))"
    have "\<exists>pr. a1 = a\<lparr>pending_probe := pr\<rparr>"
      by (auto simp: a1_def ackm_queue_probe_anti_deadlock_handshake_def ackm_queue_probe_anti_deadlock_initial_def ackm_queue_probe_def)
    then obtain pr where pr: "a1 = a\<lparr>pending_probe := pr\<rparr>"
      by blast
    let ?a = "ackm_set_loss_detection_timer now2 (a1\<lparr>pto_count := pto_count a1 + 1\<rparr>)"
    have "ossl_ackm_on_timeout M (now1, now2) a = Inr (?a, True)"
      using True ts by (simp add: ossl_ackm_on_timeout_def a1_def Let_def)
    moreover have "tx_inv flight (a1\<lparr>pto_count := pto_count a1 + 1\<rparr>) {#} pl S"
      by (rule tx_inv_cong [OF inv]) (simp_all add: pr settled_def)
    ultimately show ?thesis
      by (intro that [of ?a]) (simp_all add: timer_inv timer_fields pr)
  next
    case False
    then have live: "\<not> discarded a s"
      using lt t by (auto simp: ossl_time_simps)
    note hist = tx_invD(1) [OF inv live]
    let ?ps = "tx_packets (tx_history a s)"
    obtain h lt' L where l: "ackm_detect_and_remove_lost_pkts now1 a s
        = Inr (a\<lparr>loss_time := (loss_time a)(s := lt'), tx_history := (tx_history a)(s := h)\<rparr>, filter L ?ps)"
      "hist_ok s h" "tx_packets h = filter (\<lambda>p. \<not> L p) ?ps"
      by (rule detect_lost_spec [OF hist, of now1]) blast
    define a1 where "a1 = a\<lparr>loss_time := (loss_time a)(s := lt'), tx_history := (tx_history a)(s := h)\<rparr>"
    have "tx_inv flight (a\<lparr>tx_history := (tx_history a)(s := h)\<rparr>) ({#} + mset (filter L ?ps)) pl S"
      by (rule tx_inv_take [OF inv live l(2)]) (simp only: l(3) mset_filter_parts [symmetric])
    then have inv1: "tx_inv flight a1 (mset (filter L ?ps) + {#}) pl S"
      unfolding add.commute [of "{#}"] by (rule tx_inv_cong) (simp_all add: a1_def settled_def)
    define a2 where "a2 = (if filter L ?ps \<noteq> [] then ackm_on_pkts_lost M a1 s (filter L ?ps) False else a1)"
    have "tx_inv flight a2 {#} pl S"
    proof (cases "filter L ?ps = []")
      case True
      then show ?thesis
        using inv1 by (simp only: a2_def mset.simps(1) add_0 simp_thms if_False)
    next
      case False
      then show ?thesis
        using pkts_lost_inv [OF inv1, of s] by (simp only: a2_def if_True not_False_eq_True)
    qed
    moreover have "discarded a2 = discarded a \<and> rx_history a2 = rx_history a"
      using pkts_lost_eq [of M a1 s "filter L ?ps" False] by (auto simp: a2_def a1_def)
    moreover have "ossl_ackm_on_timeout M (now1, now2) a = Inr (ackm_set_loss_detection_timer now2 a2, True)"
      using False ts by (simp add: ossl_ackm_on_timeout_def l(1) a1_def [symmetric] a2_def [symmetric] Let_def)
    ultimately show ?thesis
      by (intro that [of "ackm_set_loss_detection_timer now2 a2"]) (simp_all add: timer_inv timer_fields)
  qed
qed

lemma discard_fold:
  "foldl pkt_discarded (a, n) ps = (a\<lparr>ackm_bytes_in_flight := ackm_bytes_in_flight a - sum_list (map tp_num_bytes (filter tp_is_inflight ps)),
     ackm_events := ackm_events a @ map On_Discarded ps\<rparr>, n + sum_list (map tp_num_bytes (filter tp_is_inflight ps)))"
  by (induction ps arbitrary: a n) (simp_all add: pkt_discarded_def ackm_event_def diff_diff_eq)

lemma inflight_sum_word:
  "flight_sum (mset ps) < 2 ^ 64 \<Longrightarrow> unat (sum_list (map tp_num_bytes (filter tp_is_inflight ps))) = flight_sum (mset ps)"
  by (induction ps) (auto simp: unat_add_no_overflow)

lemma held_split: "\<exists>R. held a = mset (tx_packets (tx_history a s)) + R \<and> (\<forall>p \<in># R. \<exists>s'. s' \<noteq> s \<and> p \<in> set (tx_packets (tx_history a s')))"
proof (intro exI conjI)
  show "held a = mset (tx_packets (tx_history a s)) + (held a - mset (tx_packets (tx_history a s)))"
    by (cases s) (simp_all add: held_def)
  show "\<forall>p \<in># held a - mset (tx_packets (tx_history a s)). \<exists>s'. s' \<noteq> s \<and> p \<in> set (tx_packets (tx_history a s'))"
    by (cases s) (auto simp: held_def)
qed

lemma discarded_spec:
  assumes inv: "tx_inv flight a {#} pl S"
  obtains a' b where "ossl_ackm_on_pkt_space_discarded M now a s = (a', b)" "tx_inv flight a' {#} pl S"
    "discarded a' = (discarded a)(s := True)" "\<forall>s'. s' \<noteq> s \<longrightarrow> rx_history a' s' = rx_history a s'"
    "\<forall>s'. loss_time a' s' = (if b \<and> s' = s then ossl_time_zero else loss_time a s')" "b = (\<not> discarded a s)"
    "b \<Longrightarrow> pkt_events a' = pkt_events a @ map On_Discarded (tx_packets (tx_history a s))"
proof (cases "discarded a s")
  case True
  then have "(discarded a)(s := True) = discarded a"
    by (simp add: fun_upd_idem)
  with True inv show ?thesis
    by (intro that [of a False]) (simp_all add: ossl_ackm_on_pkt_space_discarded_def)
next
  case live: False
  note I = tx_invD [OF inv]
  let ?ps = "tx_packets (tx_history a s)"
  obtain R where R: "held a = mset ?ps + R" "\<forall>p \<in># R. \<exists>s'. s' \<noteq> s \<and> p \<in> set (tx_packets (tx_history a s'))"
    using held_split [of a s] by blast
  let ?n = "sum_list (map tp_num_bytes (filter tp_is_inflight ?ps))"
  have fl: "flight_sum (mset ?ps) + flight_sum R = unat (ackm_bytes_in_flight a)"
    using I(5) R(1) by simp
  then have "flight_sum (mset ?ps) < 2 ^ 64"
    using unat_u64_bound [of "ackm_bytes_in_flight a"] by (simp del: unat_u64_bound)
  from inflight_sum_word [OF this] have n: "unat ?n = flight_sum (mset ?ps)" .
  define a1 where "a1 = (if s = QUIC_PN_SPACE_HANDSHAKE then a\<lparr>peer_completed_addr_validation := True\<rparr> else a)"
  define a2 where "a2 = a1\<lparr>ackm_bytes_in_flight := ackm_bytes_in_flight a1 - ?n, ackm_events := ackm_events a1 @ map On_Discarded ?ps,
    tx_history := (tx_history a)(s := tx_pkt_history_destroy (tx_history a s)),
    rx_history := (rx_history a)(s := rx_pkt_history_destroy (rx_history a s))\<rparr>"
  define a3 where "a3 = (if ?n > 0 then a2\<lparr>cc_data := fst (on_data_invalidated M (cc_data a2) ?n)\<rparr> else a2)"
  define a4 where "a4 = a3\<lparr>time_of_last_ack_eliciting_pkt := (time_of_last_ack_eliciting_pkt a3)(s := ossl_time_zero),
                  loss_time := (loss_time a3)(s := ossl_time_zero),
                  pto_count := 0,
                  discarded := (discarded a3)(s := True),
                  ack_eliciting_bytes_in_flight := (ack_eliciting_bytes_in_flight a3)(s := 0)\<rparr>"
  have res: "ossl_ackm_on_pkt_space_discarded M now a s = (ackm_set_loss_detection_timer now a4, True)"
  proof -
    have sel: "tx_history a1 = tx_history a" "tx_history (a1\<lparr>ackm_bytes_in_flight := x, ackm_events := y\<rparr>) = tx_history a"
      "rx_history (a1\<lparr>ackm_bytes_in_flight := x, ackm_events := y\<rparr>) = rx_history a" for x y
      by (simp_all add: a1_def)
    show ?thesis
      by (simp only: ossl_ackm_on_pkt_space_discarded_def live if_False Let_def a1_def [symmetric] sel discard_fold prod.case add_0
          a2_def [symmetric] a3_def [symmetric] a4_def [symmetric])
  qed
  have f: "tx_history a4 = (tx_history a)(s := tx_pkt_history_destroy (tx_history a s))" "discarded a4 = (discarded a)(s := True)"
    "ackm_events a4 = ackm_events a @ map On_Discarded ?ps" "ackm_bytes_in_flight a4 = ackm_bytes_in_flight a - ?n"
    "ack_eliciting_bytes_in_flight a4 = (ack_eliciting_bytes_in_flight a)(s := 0)" "loss_time a4 = (loss_time a)(s := ossl_time_zero)"
    "rx_history a4 = (rx_history a)(s := rx_pkt_history_destroy (rx_history a s))"
    by (simp_all add: a1_def a2_def a3_def a4_def)
  have held: "held a4 = R"
  proof -
    have "held a4 + mset ?ps = held a"
      using held_upd [of a s "tx_pkt_history_destroy (tx_history a s)"] held_cong [of a4 "a\<lparr>tx_history := (tx_history a)(s := tx_pkt_history_destroy (tx_history a s))\<rparr>"]
      by (simp add: f tx_pkt_history_destroy_def)
    then show ?thesis
      using R(1) by (simp add: add.commute)
  qed
  have ev: "settled a4 = settled a + mset ?ps"
    by (simp add: settled_def f comp_def)
  have spaces: "tp_pkt_space p = s'" if "p \<in> set (tx_packets (tx_history a s'))" for p s'
    using that I(1,2) [of s'] by (cases "discarded a s'") (auto simp: hist_ok_def)
  have zero: "eliciting_sum s' Q = 0" if "\<forall>p \<in># Q. tp_pkt_space p \<noteq> s'" for s' Q
    using that by (induction Q) auto
  have "eliciting_sum s R = 0"
    using R(2) spaces by (intro zero) blast
  moreover have "eliciting_sum s' (mset ?ps) = 0" if "s' \<noteq> s" for s'
    using spaces that by (intro zero) auto
  ultimately have e: "unat (ack_eliciting_bytes_in_flight a4 s') = eliciting_sum s' R" for s'
    using I(6) [of s'] R(1) by (simp add: f)
  have b: "unat (ackm_bytes_in_flight a4) = flight_sum R"
    using fl n by (simp add: f unat_sub_no_underflow word_le_nat_alt)
  have c: "flight (cc_data a4) = flight_sum R + pl"
  proof -
    have "flight (cc_data a) = flight_sum (mset ?ps) + flight_sum R + pl"
      using I(7) R(1) by simp
    note fc = this
    have cc: "cc_data a4 = (if ?n = 0 then cc_data a else fst (on_data_invalidated M (cc_data a) ?n))"
      by (simp add: a1_def a2_def a3_def a4_def word_gt_0)
    show ?thesis
    proof (cases "?n = 0")
      case True
      with n have "flight_sum (mset ?ps) = 0"
        by simp
      with True fc show ?thesis
        by (simp add: cc)
    next
      case False
      have "unat ?n \<le> flight (cc_data a)"
        using fc n by linarith
      from invalidated_flight [OF this] False fc n show ?thesis
        by (simp only: cc if_False)
    qed
  qed
  have "\<forall>s'. if discarded a4 s' then tx_packets (tx_history a4 s') = [] else hist_ok s' (tx_history a4 s')"
    using I(1,2) by (auto simp: f tx_pkt_history_destroy_def)
  then have "tx_inv flight a4 {#} pl S"
    unfolding tx_inv_def using b c e I(4) R(1) by (simp add: held ev ac_simps)
  moreover have "pkt_events a4 = pkt_events a @ map On_Discarded ?ps"
    by (simp add: pkt_events_def f filter_map comp_def)
  ultimately show ?thesis
    using res live by (intro that [of "ackm_set_loss_detection_timer now a4" True]) (simp_all add: timer_inv timer_fields f)
qed

end

section \<open>The ECN method is never called\<close>

lemma pkts_lost_ecn: "ackm_on_pkts_lost (M\<lparr>on_ecn := f\<rparr>) = ackm_on_pkts_lost M"
proof -
  have "pkt_lost (M\<lparr>on_ecn := f\<rparr>) = pkt_lost M"
    by (simp add: fun_eq_iff pkt_lost_def Let_def)
  then show ?thesis
    by (intro ext) (simp add: ackm_on_pkts_lost_def)
qed

lemma pkts_acked_ecn: "ackm_on_pkts_acked (M\<lparr>on_ecn := f\<rparr>) mem a ps = ackm_on_pkts_acked M mem a ps"
  by (induction ps arbitrary: a) (auto simp: Let_def intro!: arg_cong2 [of _ _ _ _ res_bind])

lemma ack_frame_ignores_ecn:
  assumes hist: "hist_ok s (tx_history a s)" and wf: "ack_wf ack"
  shows "ossl_ackm_on_rx_ack_frame (M\<lparr>on_ecn := f\<rparr>) mem now a ack s rx_time = ossl_ackm_on_rx_ack_frame M mem now a ack s rx_time"
proof -
  obtain now_rtt now_loss now_timer where now: "now = (now_rtt, now_loss, now_timer)"
    by (cases now)
  obtain r rs where r: "ack_ranges ack = r # rs" "ar_start r \<le> ar_end r"
    using wf by (auto simp: ack_wf_def split: list.splits)
  note F = ack_started_fields [of a r s]
  have hist0: "hist_ok s (tx_history (ack_started a r s) s)"
    using hist by (simp add: F)
  obtain h1 where d: "ackm_detect_and_remove_newly_acked_pkts (ack_started a r s) ack s
      = Inr ((ack_started a r s)\<lparr>tx_history := (tx_history a)(s := h1)\<rparr>, rev (filter (acked_by (r # rs)) (tx_packets (tx_history a s))))"
    "hist_ok s h1" "tx_packets h1 = filter (\<lambda>p. \<not> acked_by (r # rs) p) (tx_packets (tx_history a s))"
    by (rule detect_newly_acked_spec [OF hist0 wf]) (simp add: F r(1))
  define a2 where "a2 = ack_rtt now_rtt ((ack_started a r s)\<lparr>tx_history := (tx_history a)(s := h1)\<rparr>) ack r
    (rev (filter (acked_by (r # rs)) (tx_packets (tx_history a s))))"
  have "tx_history a2 s = h1"
    by (simp add: a2_def ack_rtt_fields)
  then have "hist_ok s (tx_history a2 s)" "\<forall>p \<in> set (tx_packets (tx_history a2 s)). tp_pkt_num p \<noteq> ar_end r"
    using d(2,3) r(2) by (auto simp: acked_by_def range_contains_def)
  note e = process_ecn_spec [OF this(1) r(1) this(2)]
  then have "ackm_process_ecn (M\<lparr>on_ecn := f\<rparr>) a2 ack s = ackm_process_ecn M a2 ack s"
    by simp
  then show ?thesis
    unfolding now ack_frame_unfold [OF r(1)] d(1) res_bind_simps prod.case a2_def [symmetric]
    by (simp only: pkts_lost_ecn pkts_acked_ecn)
qed

section \<open>NewReno as the congestion controller\<close>

text \<open>The method table \<^verbatim>\<open>ossl_cc_newreno_method\<close>; \<open>now\<close> is what its clock reads.\<close>

definition ossl_cc_newreno_method :: "ossl_time \<Rightarrow> newreno cc_method" where
  "ossl_cc_newreno_method now =
     \<lparr>on_data_sent = newreno_on_data_sent, on_data_acked = newreno_on_data_acked, on_data_lost = newreno_on_data_lost,
      on_data_lost_finished = newreno_on_data_lost_finished now, on_data_invalidated = newreno_on_data_invalidated,
      on_ecn = newreno_on_ecn now\<rparr>"

abbreviation newreno_flight :: "newreno \<Rightarrow> nat" where
  "newreno_flight nr \<equiv> unat (bytes_in_flight nr)"

interpretation nra: ackm_congestion newreno_flight "ossl_cc_newreno_method now" for now
  by unfold_locales
    (simp_all add: ossl_cc_newreno_method_def newreno_on_data_lost_finished_def
      nr.sent_flight nr.lost_flight nr.invalidated_flight unat_sub_no_underflow word_le_nat_alt)

end
