(* ===== verification/Ackm_Rx.thy ===== *)
theory Ackm_Rx
  imports Ackm
begin

text \<open>
  The receiving side of \<^verbatim>\<open>ssl/quic/quic_ackm.c\<close>: the set of packet numbers and its watermark, which together keep a packet from being processed
  twice, and the ACK frames generated from it.
\<close>

section \<open>Removing the lowest numbers\<close>

definition low_cut :: "u64 \<Rightarrow> uint_set \<Rightarrow> uint_set" where
  "low_cut e s = map (\<lambda>z. if rstart z \<le> e then z\<lparr>rstart := e + 1\<rparr> else z) (filter (\<lambda>z. e < rend z) s)"

lemma remove_low: "ossl_uint_set_remove mem s \<lparr>rstart = 0, rend = e\<rparr> = Inr (low_cut e s, True)"
proof -
  have "uint_set_remove_walk mem \<lparr>rstart = 0, rend = e\<rparr> ls rights = Inr (low_cut e (rev ls) @ rights)" for ls rights
    by (induction mem "\<lparr>rstart = 0, rend = e\<rparr> :: uint_range" ls rights rule: uint_set_remove_walk.induct)
      (auto simp: low_cut_def rev_filter rev_map not_le not_less)
  then show ?thesis
    by (simp add: ossl_uint_set_remove_def)
qed

lemma low_cut_merged:
  assumes "uint_set_merged s"
  shows "uint_set_merged (low_cut e s)" and "length (low_cut e s) \<le> length s"
    and "uint_set_ints (low_cut e s) = uint_set_ints s - {0..e}"
proof -
  show "length (low_cut e s) \<le> length s"
    by (simp add: low_cut_def)
  show "uint_set_ints (low_cut e s) = uint_set_ints s - {0..e}"
    using uset.rem_ok [OF uint_set_merged_ok [OF assms], of "\<lparr>rstart = 0, rend = e\<rparr>"] by (simp add: remove_low)
  show "uint_set_merged (low_cut e s)"
    using assms
  proof (induction s)
    case (Cons r s)
    have "unat (rend r) + 1 < unat (rstart y)" if y: "y \<in> set (low_cut e s)" for y
    proof -
      obtain z where z: "z \<in> set s" "e < rend z" "y = z \<or> rstart z \<le> e \<and> y = z\<lparr>rstart := e + 1\<rparr>"
        using y by (auto simp: low_cut_def split: if_splits)
      then have "rstart z \<le> rstart y"
        using less_succ [of e "rend z"] by auto
      with z(1) Cons.prems have "rstart z \<le> rstart y" "unat (rend r) + 1 < unat (rstart z)"
        by simp_all
      then show ?thesis
        by (simp add: word_le_nat_alt)
    qed
    with Cons show ?case
      by (auto simp: low_cut_def succ_le_iff)
  qed (simp add: low_cut_def)
qed

lemma remove_head:
  assumes "uint_set_merged (r # s)"
  shows "ossl_uint_set_remove mem (r # s) r = Inr (s, True)"
proof -
  have walk: "uint_set_remove_walk mem r (ls @ [r]) rights = Inr (rev ls @ rights)" if "\<forall>z \<in> set ls. rend r < rstart z \<and> rstart z \<le> rend z" for ls rights
    using that
  proof (induction ls arbitrary: rights)
    case Nil
    then show ?case
      using assms by (simp add: not_less)
  next
    case (Cons z ls)
    have "rstart r \<le> rend r"
      using assms by simp
    then have "\<not> rend z < rstart r" "\<not> rend z \<le> rend r" "\<not> rstart z \<le> rend r" "\<not> rstart z < rstart r"
      using Cons.prems by auto
    with Cons show ?case
      by simp
  qed
  have "\<forall>z \<in> set (rev s). rend r < rstart z \<and> rstart z \<le> rend z"
    using assms by (auto simp: uint_set_merged_def word_less_nat_alt)
  from walk [OF this, of "[]"] show ?thesis
    using assms by (simp add: ossl_uint_set_remove_def)
qed

section \<open>The number of ranges\<close>

lemma earliest_overlapping_length: "length (snd (earliest_overlapping rg z ls)) \<le> length ls"
  by (induction rg z ls rule: earliest_overlapping.induct) auto

lemma merge_adjacent_length: "length (fst (uint_set_merge_adjacent ls z)) \<le> length ls"
  by (simp add: uint_set_merge_adjacent_def split: list.splits)

lemma insert_walk_length: "length (fst (uint_set_insert_walk mem rg lefts z rights)) \<le> length lefts + length rights + 2"
proof (induction mem rg lefts z rights rule: uint_set_insert_walk.induct)
  case (1 mem rg lefts z rights)
  note unfold = uint_set_insert_walk.simps [of mem rg lefts z rights]
  have m: "length (fst (uint_set_merge_adjacent ((hd lefts)\<lparr>rend := rend rg\<rparr> # tl lefts) z)) \<le> length lefts" if "lefts \<noteq> []"
    using merge_adjacent_length [of "(hd lefts)\<lparr>rend := rend rg\<rparr> # tl lefts" z] that by simp
  show ?case
    using "1.IH" earliest_overlapping_length [of rg z lefts] merge_adjacent_length [of lefts "z\<lparr>rstart := rstart rg\<rparr>"] m
    unfolding unfold by (auto simp: Let_def case_prod_unfold create_set_item_def split: list.split)
qed

lemma insert_length: "length (fst (ossl_uint_set_insert mem s rg)) \<le> length s + 1"
proof (cases "s = []")
  case True
  then show ?thesis
    by (simp add: ossl_uint_set_insert_def create_set_item_def Let_def)
next
  case False
  then show ?thesis
    using insert_walk_length [of mem rg "[]" "hd s" "tl s"] insert_walk_length [of mem rg "rev (butlast s)" "last s" "[]"]
    by (auto simp: ossl_uint_set_insert_def create_set_item_def Let_def)
qed


section \<open>The numbers accepted and the history\<close>

text \<open>
  \<open>R\<close>: the packet numbers accepted so far. The set holds only accepted numbers, and every accepted one that is not below the watermark.
\<close>

definition rx_ok :: "u64 set \<Rightarrow> rx_pkt_history \<Rightarrow> bool" where
  "rx_ok R h \<longleftrightarrow> uint_set_merged (rx_set h) \<and> length (rx_set h) \<le> MAX_RX_ACK_RANGES \<and> R \<subseteq> {..<2 ^ 62}
     \<and> uint_set_ints (rx_set h) = R \<inter> {rx_watermark h..}"

lemma rx_ok_init: "rx_ok {} rx_pkt_history_init"
  by (simp add: rx_ok_def rx_pkt_history_init_def ossl_uint_set_init_def)

lemma processable_iff:
  assumes "rx_ok R (rx_history a s)"
  shows "ossl_ackm_is_rx_pn_processable a pn s \<longleftrightarrow> pn \<ge> rx_watermark (rx_history a s) \<and> pn \<notin> R"
  using assms by (auto simp: ossl_ackm_is_rx_pn_processable_def uset.query_iff [OF uint_set_merged_ok] rx_ok_def)

lemma bump_ok:
  assumes "uint_set_merged (rx_set h)" "uint_set_ints (rx_set h) = R \<inter> {rx_watermark h..}" "R \<subseteq> {..<2 ^ 62}"
    "length (rx_set h) \<le> MAX_RX_ACK_RANGES"
    and "rx_pkt_history_bump_watermark mem h w = Inr (h', ok)"
  shows "rx_ok R h'"
proof (cases "w \<le> rx_watermark h")
  case True
  with assms show ?thesis
    by (auto simp: rx_pkt_history_bump_watermark_def rx_ok_def)
next
  case False
  then have h': "h' = h\<lparr>rx_set := low_cut (w - 1) (rx_set h), rx_watermark := w\<rparr>"
    using assms(5) by (simp add: rx_pkt_history_bump_watermark_def remove_low)
  have "w \<noteq> 0"
    using False by auto
  then have "v \<le> w - 1 \<longleftrightarrow> v < w" for v
    by (auto simp: word_le_nat_alt word_less_nat_alt unat_minus_one unat_gt_0 [symmetric] simp del: unat_gt_0)
  with False assms low_cut_merged [OF assms(1), of "w - 1"] show ?thesis
    unfolding h' rx_ok_def by auto
qed

definition rx_keeps :: "rx_pkt_history \<Rightarrow> rx_pkt_history \<Rightarrow> bool" where
  "rx_keeps h h' \<longleftrightarrow> (\<forall>R. rx_ok R h \<longrightarrow> rx_ok R h')"

lemma rx_keeps_refl [simp]: "rx_keeps h h"
  by (simp add: rx_keeps_def)

lemma rx_keeps_trans: "rx_keeps h h' \<Longrightarrow> rx_keeps h' h'' \<Longrightarrow> rx_keeps h h''"
  by (auto simp: rx_keeps_def)

lemma bump_keeps: "rx_pkt_history_bump_watermark mem h w = Inr (h', ok) \<Longrightarrow> rx_keeps h h'"
  unfolding rx_keeps_def by (intro allI impI, rule bump_ok) (auto simp: rx_ok_def)

lemma trim_ok:
  assumes merged: "uint_set_merged (rx_set h)" and ints: "uint_set_ints (rx_set h) = R \<inter> {rx_watermark h..}"
    and R: "R \<subseteq> {..<2 ^ 62}" and len: "length (rx_set h) \<le> MAX_RX_ACK_RANGES + 1"
  shows "\<exists>h'. rx_pkt_history_trim_range_count mem h = Inr h' \<and> rx_ok R h'"
proof (cases "length (rx_set h) \<le> MAX_RX_ACK_RANGES")
  case True
  then have "rx_pkt_history_trim_range_count mem h = Inr h"
    by (simp add: rx_pkt_history_trim_range_count_def rx_trim_loop.simps [of mem "rx_set h"] Let_def)
  with True merged ints R show ?thesis
    by (simp add: rx_ok_def)
next
  case False
  then obtain r s where s: "rx_set h = r # s" "length s = MAX_RX_ACK_RANGES"
    using len by (cases "rx_set h") auto
  have mem: "rend r \<in> uint_set_ints (rx_set h)"
    using merged s(1) by simp
  then have small: "rend r < 2 ^ 62"
    using ints R by auto
  then have ne: "rend r \<noteq> QUIC_PN_INVALID"
    by (auto simp: QUIC_PN_INVALID_def)
  have loop: "rx_trim_loop mem (rx_set h) QUIC_PN_INVALID = Inr (s, rend r)"
    using s remove_head [OF merged [unfolded s(1)], of mem]
    by (simp add: rx_trim_loop.simps [of mem "r # s"] rx_trim_loop.simps [of mem s] Let_def)
  obtain h' where h': "rx_pkt_history_bump_watermark mem (h\<lparr>rx_set := s\<rparr>) (rend r + 1) = Inr (h', True)"
    using remove_low [of mem s "rend r"] by (cases "rend r + 1 \<le> rx_watermark h") (auto simp: rx_pkt_history_bump_watermark_def)
  have "rx_watermark h \<le> rend r"
    using mem ints by auto
  moreover have lt: "rend r < rend r + 1"
    by (rule less_succ [OF small])
  ultimately have "\<not> rend r + 1 \<le> rx_watermark h"
    by order
  then have h'': "h' = h\<lparr>rx_set := low_cut (rend r) s, rx_watermark := rend r + 1\<rparr>"
    using h' by (simp add: rx_pkt_history_bump_watermark_def remove_low)
  have m: "uint_set_merged s" "\<forall>y \<in> set s. rend r < rstart y"
    using merged s(1) by (auto simp: word_less_nat_alt)
  have "uint_set_ints s = R \<inter> {rend r + 1..}"
  proof -
    have "v \<in> uint_set_ints s \<longleftrightarrow> v \<in> R \<and> rend r < v" for v
    proof -
      have "v \<in> uint_set_ints s \<longrightarrow> rend r < v"
        using m(2) by (auto simp: uint_set_ints_def intro: less_le_trans)
      moreover have "v \<in> R \<and> rx_watermark h \<le> v \<longleftrightarrow> v \<in> {rstart r..rend r} \<or> v \<in> uint_set_ints s"
        using ints [unfolded s(1) uint_set_ints_simps] by (metis IntD1 IntD2 IntI UnE UnI1 UnI2 atLeast_iff)
      moreover have "rend r < v \<longrightarrow> rx_watermark h \<le> v"
        using \<open>rx_watermark h \<le> rend r\<close> by (meson less_imp_le order_trans)
      moreover have "v \<in> {rstart r..rend r} \<longrightarrow> \<not> rend r < v"
        by (simp add: not_less)
      ultimately show ?thesis
        by blast
    qed
    moreover have "rend r < v \<longleftrightarrow> rend r + 1 \<le> v" for v
      using succ_le_iff [OF lt] by simp
    ultimately show ?thesis
      by auto
  qed
  then have "rx_ok R h'"
    using low_cut_merged [OF m(1), of "rend r"] s(2) R lt unfolding h'' rx_ok_def by (auto dest: order.strict_trans2)
  then show ?thesis
    using ne loop h' by (simp add: rx_pkt_history_trim_range_count_def Let_def)
qed

lemma add_pn_ok:
  assumes ok: "rx_ok R h" and pn: "pn < 2 ^ 62"
  shows "\<exists>h' b. rx_pkt_history_add_pn mem h pn = Inr (h', b) \<and> (if b then rx_ok (insert pn R) h' else h' = h \<and> \<not> mem)"
proof (cases "pn < rx_watermark h")
  case True
  with ok pn show ?thesis
    by (auto simp: rx_pkt_history_add_pn_def rx_ok_def)
next
  case False
  let ?r = "\<lparr>rstart = pn, rend = pn\<rparr>"
  obtain s b where ins: "ossl_uint_set_insert mem (rx_set h) ?r = (s, b)"
    by (cases "ossl_uint_set_insert mem (rx_set h) ?r") auto
  have merged: "uint_set_merged (rx_set h)"
    using ok by (simp add: rx_ok_def)
  show ?thesis
  proof (cases b)
    case False
    note f = uset.ins_fail [OF uint_set_merged_ok [OF merged], of ?r mem]
    have "s = rx_set h \<and> \<not> mem"
      using False f ins by auto
    with \<open>\<not> pn < rx_watermark h\<close> ins False show ?thesis
      by (intro exI [of _ h] exI [of _ False]) (simp add: rx_pkt_history_add_pn_def)
  next
    case True
    note i = uset.ins_ok [OF uint_set_merged_ok [OF merged], of ?r mem]
    have ints: "uint_set_ints s = insert pn (uint_set_ints (rx_set h))"
      using True i ins by auto
    have "uint_set_merged s"
      using insert_keeps_merged [OF merged, of ?r mem] ins by (auto simp: no_partial_overlap_def overlaps_iff)
    moreover have "length s \<le> MAX_RX_ACK_RANGES + 1"
      using insert_length [of mem "rx_set h" ?r] ins ok by (simp add: rx_ok_def)
    moreover have "uint_set_ints s = insert pn R \<inter> {rx_watermark h..}"
      using ints ok \<open>\<not> pn < rx_watermark h\<close> by (auto simp: rx_ok_def)
    moreover have "insert pn R \<subseteq> {..<2 ^ 62}"
      using ok pn by (simp add: rx_ok_def)
    ultimately obtain h' where "rx_pkt_history_trim_range_count mem (h\<lparr>rx_set := s\<rparr>) = Inr h'" "rx_ok (insert pn R) h'"
      using trim_ok [of "h\<lparr>rx_set := s\<rparr>" "insert pn R" mem] by auto
    with \<open>\<not> pn < rx_watermark h\<close> ins True show ?thesis
      by (intro exI [of _ h'] exI [of _ True]) (simp add: rx_pkt_history_add_pn_def)
  qed
qed


section \<open>Received packets\<close>

text \<open>The effect of a packet besides its number: queued ACKs, deadlines and counts.\<close>

lemma flush_eq:
  "\<exists>d es. ackm_set_flush_deadline a s t = a\<lparr>rx_ack_flush_deadline := d, ackm_events := ackm_events a @ es\<rparr> \<and> d = (rx_ack_flush_deadline a)(s := t)
    \<and> (\<forall>e \<in> set es. \<exists>t s. e = Ack_Deadline t s)"
  by (cases "ack_deadline_cb a") (auto simp: ackm_set_flush_deadline_def ackm_event_def Let_def
      intro: exI [of _ "[Ack_Deadline _ s]"] exI [of _ "[] :: ackm_event list"])

lemma on_rx_ack_eliciting_eq:
  "\<exists>n q d es. ackm_on_rx_ack_eliciting a t s m = a\<lparr>rx_ack_eliciting_pkts_since_last_ack := n, rx_ack_desired := q, rx_ack_flush_deadline := d,
     ackm_events := ackm_events a @ es\<rparr> \<and> (\<forall>e \<in> set es. \<exists>t s. e = Ack_Deadline t s)"
proof -
  have 1: "\<exists>n q d es. ackm_set_flush_deadline (a\<lparr>rx_ack_eliciting_pkts_since_last_ack := n', rx_ack_desired := q'\<rparr>) s t'
    = a\<lparr>rx_ack_eliciting_pkts_since_last_ack := n, rx_ack_desired := q, rx_ack_flush_deadline := d,
     ackm_events := ackm_events a @ es\<rparr> \<and> (\<forall>e \<in> set es. \<exists>t s. e = Ack_Deadline t s)" for n' q' t'
    using flush_eq [of "a\<lparr>rx_ack_eliciting_pkts_since_last_ack := n', rx_ack_desired := q'\<rparr>" s t']
    by (elim exE conjE) (rule exI [of _ n'], rule exI [of _ q'], force)
  let ?n = "(rx_ack_eliciting_pkts_since_last_ack a)(s := rx_ack_eliciting_pkts_since_last_ack a s + 1)"
  let ?a = "a\<lparr>rx_ack_eliciting_pkts_since_last_ack := ?n\<rparr>"
  have "?a = a\<lparr>rx_ack_eliciting_pkts_since_last_ack := ?n, rx_ack_desired := rx_ack_desired a\<rparr>"
    by simp
  note 2 = 1 [of "rx_ack_desired a" ?n, folded this]
  have 0: "\<exists>n q d es. a = a\<lparr>rx_ack_eliciting_pkts_since_last_ack := n, rx_ack_desired := q, rx_ack_flush_deadline := d,
     ackm_events := ackm_events a @ es\<rparr> \<and> (\<forall>e \<in> set es. \<exists>t s. e = Ack_Deadline t s)"
    by (intro exI [of _ "rx_ack_eliciting_pkts_since_last_ack a"] exI [of _ "rx_ack_desired a"] exI [of _ "rx_ack_flush_deadline a"]
        exI [of _ "[]"]) simp
  show ?thesis
    unfolding ackm_on_rx_ack_eliciting_def ackm_queue_ack_def Let_def
    using 0 2 1 [of "(rx_ack_desired ?a)(s := True)" ?n] by (simp only: split: if_split) simp
qed

end
