(* ===== verification/Ackm_Run.thy ===== *)
theory Ackm_Run
  imports Ackm_Tx Ackm_Rx
begin

text \<open>
  Runs of the ACK manager (\<^verbatim>\<open>ssl/quic/quic_ackm.c\<close>): its operations in any order, what is then true of the packets sent, the bytes in flight and
  the packet numbers accepted, and two managers that acknowledge each other's packets.
\<close>

section \<open>What the receiving side leaves alone\<close>

definition tx_same :: "'cc ackm \<Rightarrow> 'cc ackm \<Rightarrow> bool" where
  "tx_same a a' \<longleftrightarrow> tx_history a' = tx_history a \<and> discarded a' = discarded a \<and> cc_data a' = cc_data a \<and> loss_time a' = loss_time a
     \<and> ackm_bytes_in_flight a' = ackm_bytes_in_flight a \<and> ack_eliciting_bytes_in_flight a' = ack_eliciting_bytes_in_flight a
     \<and> pkt_events a' = pkt_events a"

lemma tx_same_inv: "tx_same a a' \<Longrightarrow> tx_inv flight a' Q pl S = tx_inv flight a Q pl S"
  by (simp add: tx_same_def tx_inv_def held_def settled_pkt_events)

lemma deadline_events: "\<forall>e \<in> set es. \<exists>t s. e = Ack_Deadline t s \<Longrightarrow> filter (\<lambda>e. event_pkts e \<noteq> []) es = []"
  by (auto simp: filter_empty_conv)

lemma on_rx_ack_eliciting_same: "tx_same a (ackm_on_rx_ack_eliciting a t s m) \<and> rx_history (ackm_on_rx_ack_eliciting a t s m) = rx_history a"
  using on_rx_ack_eliciting_eq [of a t s m] by (auto simp: tx_same_def pkt_events_def deadline_events)

lemma tx_same_trans: "tx_same a b \<Longrightarrow> tx_same b c \<Longrightarrow> tx_same a c"
  by (simp add: tx_same_def)

lemma rx_packet_spec:
  assumes ok: "rx_ok R (rx_history a (rp_pkt_space p))" and pn: "rp_pkt_num p < 2 ^ 62"
  obtains (accepted) a' where "ossl_ackm_is_rx_pn_processable a (rp_pkt_num p) (rp_pkt_space p)" "ossl_ackm_on_rx_packet mem a p = Inr (a', True)"
      "tx_same a a'" "rx_ok (insert (rp_pkt_num p) R) (rx_history a' (rp_pkt_space p))"
      "\<forall>s. s \<noteq> rp_pkt_space p \<longrightarrow> rx_history a' s = rx_history a s"
      "rx_pkt_history_add_pn mem (rx_history a (rp_pkt_space p)) (rp_pkt_num p) = Inr (rx_history a' (rp_pkt_space p), True)"
  | (ignored) "\<not> ossl_ackm_is_rx_pn_processable a (rp_pkt_num p) (rp_pkt_space p)" "ossl_ackm_on_rx_packet mem a p = Inr (a, True)"
  | (failed) a' where "\<not> mem" "ossl_ackm_on_rx_packet mem a p = Inr (a', False)" "tx_same a a'" "rx_history a' = rx_history a"
proof (cases "ossl_ackm_is_rx_pn_processable a (rp_pkt_num p) (rp_pkt_space p)")
  case False
  then show ?thesis
    by (intro ignored) (simp_all add: ossl_ackm_on_rx_packet_def Let_def)
next
  case True
  let ?s = "rp_pkt_space p" and ?n = "rp_pkt_num p"
  define a1 where "a1 = (if ?n > rx_largest_pn a ?s
    then a\<lparr>rx_largest_pn := (rx_largest_pn a)(?s := ?n), rx_largest_time := (rx_largest_time a)(?s := rp_time p)\<rparr> else a)"
  have same1: "tx_same a a1" "rx_history a1 = rx_history a"
    by (simp_all add: tx_same_def pkt_events_def a1_def)
  obtain h b where h: "rx_pkt_history_add_pn mem (rx_history a ?s) ?n = Inr (h, b)"
    "if b then rx_ok (insert ?n R) h else h = rx_history a ?s \<and> \<not> mem"
    using add_pn_ok [OF ok pn, of mem] by blast
  define a2 where "a2 = a1\<lparr>rx_history := (rx_history a1)(?s := h)\<rparr>"
  have same2: "tx_same a a2" "rx_history a2 = (rx_history a)(?s := h)"
    using same1 by (simp_all add: tx_same_def pkt_events_def a2_def)
  show ?thesis
  proof (cases b)
    case False
    then have "ossl_ackm_on_rx_packet mem a p = Inr (a2, False)"
      using True h(1) same1(2) by (simp add: ossl_ackm_on_rx_packet_def Let_def a1_def [symmetric] a2_def)
    with False h(2) same2 show ?thesis
      by (intro failed [of a2]) simp_all
  next
    case b: True
    define a3 where "a3 = (if rp_is_ack_eliciting p then ackm_on_rx_ack_eliciting a2 (rp_time p) ?s (ackm_is_missing a1 ?s ?n) else a2)"
    define a4 where "a4 = (case rp_ecn p of
                 OSSL_ACKM_ECN_ECT0 \<Rightarrow> a3\<lparr>rx_ect0 := (rx_ect0 a3)(?s := rx_ect0 a3 ?s + 1)\<rparr>
               | OSSL_ACKM_ECN_ECT1 \<Rightarrow> a3\<lparr>rx_ect1 := (rx_ect1 a3)(?s := rx_ect1 a3 ?s + 1)\<rparr>
               | OSSL_ACKM_ECN_ECNCE \<Rightarrow> a3\<lparr>rx_ecnce := (rx_ecnce a3)(?s := rx_ecnce a3 ?s + 1)\<rparr>
               | OSSL_ACKM_ECN_NONE \<Rightarrow> a3)"
    have res: "ossl_ackm_on_rx_packet mem a p = Inr (a4, True)"
      using True h(1) b same1(2)
      by (simp only: ossl_ackm_on_rx_packet_def Let_def a1_def [symmetric] same1(2) h(1) res_bind_simps prod.case not_True_eq_False if_False
          a2_def [unfolded same1(2), symmetric] a3_def [symmetric] a4_def [symmetric])
    have "tx_same a3 a4" "rx_history a4 = rx_history a3"
      by (simp_all add: a4_def tx_same_def pkt_events_def split: ackm_ecn.split)
    moreover have "tx_same a2 a3 \<and> rx_history a3 = rx_history a2"
      using on_rx_ack_eliciting_same [of a2] by (simp add: a3_def tx_same_def)
    ultimately have "tx_same a a4" "rx_history a4 = (rx_history a)(?s := h)"
      using same2 by (auto intro: tx_same_trans)
    with res True h b show ?thesis
      by (intro accepted [of a4]) simp_all
  qed
qed

section \<open>ACK frames\<close>

lemma get_ack_frame_same:
  assumes "ossl_ackm_get_ack_frame now a s = (a', ack)"
  shows "tx_same a a'" and "rx_history a' = rx_history a" and "ack_ranges ack = ackm_fill_rx_ack_ranges a s"
proof -
  obtain d es where "a' = a\<lparr>ackm_ack := (ackm_ack a)(s := ack),
                rx_ack_eliciting_pkts_since_last_ack := (rx_ack_eliciting_pkts_since_last_ack a)(s := 0),
                rx_ack_generated := (rx_ack_generated a)(s := True),
                rx_ack_desired := (rx_ack_desired a)(s := False), rx_ack_flush_deadline := d, ackm_events := ackm_events a @ es\<rparr>"
      "\<forall>e \<in> set es. \<exists>t s. e = Ack_Deadline t s"
    using assms flush_eq [of "a\<lparr>ackm_ack := (ackm_ack a)(s := ack),
                rx_ack_eliciting_pkts_since_last_ack := (rx_ack_eliciting_pkts_since_last_ack a)(s := 0),
                rx_ack_generated := (rx_ack_generated a)(s := True),
                rx_ack_desired := (rx_ack_desired a)(s := False)\<rparr>" s ossl_time_infinite]
    by (auto simp: ossl_ackm_get_ack_frame_def Let_def)
  then show "tx_same a a'" "rx_history a' = rx_history a"
    by (auto simp: tx_same_def pkt_events_def deadline_events)
  show "ack_ranges ack = ackm_fill_rx_ack_ranges a s"
    using assms by (auto simp: ossl_ackm_get_ack_frame_def Let_def)
qed

lemma merged_ranges_ok:
  "uint_set_merged (rev (r # rs)) \<Longrightarrow> ranges_ok \<lparr>ar_start = rstart r, ar_end = rend r\<rparr> (map (\<lambda>r. \<lparr>ar_start = rstart r, ar_end = rend r\<rparr>) rs)"
proof (induction rs arbitrary: r)
  case (Cons x xs)
  then show ?case
    by fastforce
qed simp

lemma fill_ranges_empty:
  assumes "rx_ok R (rx_history a s)" and "\<And>n. n \<in> R \<Longrightarrow> n < rx_watermark (rx_history a s)"
  shows "ackm_fill_rx_ack_ranges a s = []"
proof -
  let ?u = "rx_set (rx_history a s)"
  have "uint_set_ints ?u = {}" "\<forall>r \<in> set ?u. rstart r \<le> rend r"
    using assms by (fastforce simp: rx_ok_def uint_set_merged_def not_le [symmetric])+
  then have "?u = []"
    by (cases ?u) (auto simp: uint_set_ints_def)
  then show ?thesis
    by (simp add: ackm_fill_rx_ack_ranges_def)
qed

lemma fill_ranges:
  assumes "rx_ok R (rx_history a s)"
  shows "length (ackm_fill_rx_ack_ranges a s) \<le> 3"
    and "r \<in> set (ackm_fill_rx_ack_ranges a s) \<Longrightarrow> range_contains r n \<Longrightarrow> n \<in> R"
    and "n \<in> R \<Longrightarrow> rx_watermark (rx_history a s) \<le> n \<Longrightarrow>
      \<exists>r rs. ackm_fill_rx_ack_ranges a s = r # rs \<and> ar_start r \<le> ar_end r \<and> ranges_ok r rs \<and> n \<le> ar_end r \<and> ar_end r \<in> R"
proof -
  let ?u = "rx_set (rx_history a s)"
  have u: "uint_set_merged ?u" "uint_set_ints ?u = R \<inter> {rx_watermark (rx_history a s)..}"
    using assms by (simp_all add: rx_ok_def)
  show "length (ackm_fill_rx_ack_ranges a s) \<le> 3"
    by (simp add: ackm_fill_rx_ack_ranges_def)
  show "n \<in> R" if r: "r \<in> set (ackm_fill_rx_ack_ranges a s)" "range_contains r n"
  proof -
    obtain x where "x \<in> set ?u" "rstart x \<le> n" "n \<le> rend x"
      using r by (auto simp: ackm_fill_rx_ack_ranges_def range_contains_def dest: in_set_takeD)
    then have "n \<in> uint_set_ints ?u"
      by (auto simp: uint_set_ints_def)
    with u(2) show ?thesis
      by blast
  qed
  assume n: "n \<in> R" "rx_watermark (rx_history a s) \<le> n"
  then have "n \<in> uint_set_ints ?u"
    by (simp add: u(2))
  then have ne: "?u \<noteq> []"
    by auto
  then obtain x xs where x: "rev ?u = x # xs"
    by (cases "rev ?u") auto
  then have eq: "?u = rev (x # xs)"
    by (metis rev_rev_ident)
  have m: "uint_set_merged (rev (x # take 2 xs))"
  proof -
    have "?u = rev (drop 2 xs) @ rev (x # take 2 xs)"
      unfolding eq by (simp add: rev_append [symmetric] del: rev_append)
    with u(1) show ?thesis
      by (metis uint_set_merged_simps(3))
  qed
  have fill: "ackm_fill_rx_ack_ranges a s = \<lparr>ar_start = rstart x, ar_end = rend x\<rparr>
      # map (\<lambda>r. \<lparr>ar_start = rstart r, ar_end = rend r\<rparr>) (take 2 xs)"
    using x by (simp add: ackm_fill_rx_ack_ranges_def numeral_3_eq_3 numeral_2_eq_2)
  have xle: "rstart x \<le> rend x"
    using u(1) eq by simp
  have top: "v \<le> rend x" if v: "v \<in> uint_set_ints ?u" for v
  proof -
    obtain y where y: "y \<in> set ?u" "v \<le> rend y"
      using v by (auto simp: uint_set_ints_def)
    then show ?thesis
      using u(1) xle unfolding eq by (auto simp: word_le_nat_alt)
  qed
  have "rend x \<in> uint_set_ints ?u"
    unfolding eq using xle by simp
  then have "rend x \<in> R"
    using u(2) by blast
  with top [OF \<open>n \<in> uint_set_ints ?u\<close>] xle merged_ranges_ok [OF m]
  show "\<exists>r rs. ackm_fill_rx_ack_ranges a s = r # rs \<and> ar_start r \<le> ar_end r \<and> ranges_ok r rs \<and> n \<le> ar_end r \<and> ar_end r \<in> R"
    unfolding fill by auto
qed


section \<open>ACK frames received\<close>

lemma pkts_acked_rx:
  "ackm_on_pkts_acked M mem a ps = Inr a' \<Longrightarrow> rx_keeps (rx_history a s) (rx_history a' s) \<and> loss_time a' = loss_time a"
proof (induction ps arbitrary: a)
  case (Cons p ps)
  obtain h where h: "rx_pkt_history_bump_watermark mem (rx_history a (tp_pkt_space p)) (tp_largest_acked p + 1) = Inr (h, True)"
    using bump_no_fault by blast
  note keeps = bump_keeps [OF h]
  have f: "rx_history (flight_out a p) = rx_history a" "loss_time (flight_out a p) = loss_time a"
    by (simp_all add: flight_out_def Let_def)
  obtain a1 where a1: "ackm_on_pkts_acked M mem a1 ps = Inr a'" "loss_time a1 = loss_time a"
      "rx_history a1 = rx_history a \<or> rx_history a1 = (rx_history a)(tp_pkt_space p := h)"
    using Cons.prems h f by (cases "tp_is_inflight p"; cases "tp_largest_acked p = QUIC_PN_INVALID"; cases "tp_on_acked_frees p")
      (auto simp: ackm_event_def Let_def)
  have "rx_keeps (rx_history a s) (rx_history a1 s)"
    using a1(3) keeps by auto
  with Cons.IH [OF a1(1)] a1(2) show ?case
    by (auto intro: rx_keeps_trans)
qed simp

lemma ack_frame_steps:
  assumes "ossl_ackm_on_rx_ack_frame M mem (now_rtt, now_loss, now_timer) a ack s rx_time = Inr (a', ok)"
  obtains r rs h where "ack_ranges ack = r # rs"
      "a' = (ack_started a r s)\<lparr>tx_history := h\<rparr> \<or> a' = ackm_set_loss_detection_timer now_timer ((ack_started a r s)\<lparr>tx_history := h\<rparr>)"
  | r rs h na a2 a3 lost a4 where "ack_ranges ack = r # rs" "na \<noteq> []"
      "(if ecn_present ack then ackm_process_ecn M (ack_rtt now_rtt ((ack_started a r s)\<lparr>tx_history := h\<rparr>) ack r na) ack s
        else Inr (ack_rtt now_rtt ((ack_started a r s)\<lparr>tx_history := h\<rparr>) ack r na)) = Inr a2"
      "ackm_detect_and_remove_lost_pkts now_loss a2 s = Inr (a3, lost)"
      "ackm_on_pkts_acked M mem (if lost \<noteq> [] then ackm_on_pkts_lost M a3 s lost False else a3) na = Inr a4"
      "a' = ackm_set_loss_detection_timer now_timer (if peer_completed_addr_validation a4 then a4\<lparr>pto_count := 0\<rparr> else a4)"
proof -
  obtain r rs where r: "ack_ranges ack = r # rs"
    using assms by (cases "ack_ranges ack") (auto simp: ossl_ackm_on_rx_ack_frame_def split: prod.splits)
  obtain a1 na where d: "ackm_detect_and_remove_newly_acked_pkts (ack_started a r s) ack s = Inr (a1, na)"
    using assms by (auto simp: ack_frame_unfold [OF r] res_bind_Inr)
  then obtain h where h: "a1 = (ack_started a r s)\<lparr>tx_history := h\<rparr>"
    by (auto simp: ackm_detect_and_remove_newly_acked_pkts_def r res_bind_Inr Let_def)
  show ?thesis
  proof (cases "na = []")
    case True
    with assms d h show ?thesis
      by (intro that(1) [OF r, of h]) (auto simp: ack_frame_unfold [OF r] split: if_splits)
  next
    case False
    obtain a2 a3 lost a4 where
      "(if ecn_present ack then ackm_process_ecn M (ack_rtt now_rtt a1 ack r na) ack s else Inr (ack_rtt now_rtt a1 ack r na)) = Inr a2"
      "ackm_detect_and_remove_lost_pkts now_loss a2 s = Inr (a3, lost)"
      "ackm_on_pkts_acked M mem (if lost \<noteq> [] then ackm_on_pkts_lost M a3 s lost False else a3) na = Inr a4"
      "a' = ackm_set_loss_detection_timer now_timer (if peer_completed_addr_validation a4 then a4\<lparr>pto_count := 0\<rparr> else a4)"
      using assms False by (auto simp: ack_frame_unfold [OF r] d res_bind_Inr)
    then show ?thesis
      by (intro that(2) [OF r False]) (simp_all only: h)
  qed
qed

lemma process_ecn_eq:
  "(if b then ackm_process_ecn M a ack s else Inr a) = Inr a' \<Longrightarrow> \<exists>e c. a' = a\<lparr>peer_ecnce := e, cc_data := c\<rparr>"
  by (intro exI [of _ "peer_ecnce a'"] exI [of _ "cc_data a'"])
    (auto simp: ackm_process_ecn_def res_bind_Inr Let_def split: if_splits option.splits list.splits)

lemma ack_frame_rx:
  assumes "ossl_ackm_on_rx_ack_frame M mem (now_rtt, now_loss, now_timer) a ack s rx_time = Inr (a', ok)"
  shows "rx_keeps (rx_history a s') (rx_history a' s') \<and> (s' \<noteq> s \<longrightarrow> loss_time a' s' = loss_time a s')"
  using assms
proof (cases rule: ack_frame_steps)
  case (1 r rs h)
  then show ?thesis
    by (auto simp: timer_fields ack_started_def Let_def)
next
  case (2 r rs h na a2 a3 lost a4)
  have "rx_history a2 = rx_history a \<and> loss_time a2 = loss_time a"
    using process_ecn_eq [OF 2(3)] by (auto simp: ack_rtt_def ack_started_def Let_def)
  then have f3: "rx_history a3 = rx_history a" "s' \<noteq> s \<longrightarrow> loss_time a3 s' = loss_time a s'"
    using 2(4) by (auto simp: ackm_detect_and_remove_lost_pkts_def Let_def res_bind_Inr)
  have "rx_history (if lost \<noteq> [] then ackm_on_pkts_lost M a3 s lost False else a3) = rx_history a3
    \<and> loss_time (if lost \<noteq> [] then ackm_on_pkts_lost M a3 s lost False else a3) = loss_time a3"
    using pkts_lost_eq [of M a3 s lost False] by auto
  with pkts_acked_rx [OF 2(5), of s'] f3 show ?thesis
    by (auto simp: 2(6) timer_fields)
qed

section \<open>The callbacks of acknowledged packets\<close>

definition acked_pkts :: "'cc ackm \<Rightarrow> ackm_tx_pkt set" where
  "acked_pkts a = {p. On_Acked p \<in> set (ackm_events a)}"

lemma acked_pkt_events: "acked_pkts a = {p. On_Acked p \<in> set (pkt_events a)}"
  by (auto simp: acked_pkts_def pkt_events_def)

lemma timer_acked: "acked_pkts (ackm_set_loss_detection_timer now a) = acked_pkts a"
  by (simp add: acked_pkt_events timer_fields)

lemma pkts_lost_acked: "acked_pkts (ackm_on_pkts_lost M a s ps pseudo) = acked_pkts a"
  using pkts_lost_eq [of M a s ps pseudo] by (auto simp: acked_pkts_def)

lemma timer_on_acked: "On_Acked p \<in> set (ackm_events (ackm_set_loss_detection_timer now a)) \<longleftrightarrow> On_Acked p \<in> set (ackm_events a)"
  using timer_acked [of now a] by (auto simp: acked_pkts_def)

lemma tx_packet_acked:
  assumes "ossl_ackm_on_tx_packet M mem now a p = Inr (a', b)"
  shows "acked_pkts a' = acked_pkts a" and "loss_time a' = loss_time a"
  using assms by (auto simp: ossl_ackm_on_tx_packet_def Let_def res_bind_Inr acked_pkts_def timer_on_acked timer_fields split: if_splits)

lemma pseudo_acked:
  assumes "ossl_ackm_mark_packet_pseudo_lost M a s pn = Inr (a', b)"
  shows "acked_pkts a' = acked_pkts a" and "loss_time a' = loss_time a"
proof -
  have "loss_time (ackm_on_pkts_lost M a s ps True) = loss_time a" for a :: "'a ackm" and ps
    using pkts_lost_eq [of M a s ps True] by auto
  with assms show "acked_pkts a' = acked_pkts a" and "loss_time a' = loss_time a"
    by (auto simp: ossl_ackm_mark_packet_pseudo_lost_def Let_def res_bind_Inr pkts_lost_acked split: option.splits) (simp_all add: acked_pkts_def)
qed

lemma detect_lost_acked:
  assumes "ackm_detect_and_remove_lost_pkts now a s = Inr (a', lost)"
  shows "acked_pkts a' = acked_pkts a" and "s' \<noteq> s \<Longrightarrow> loss_time a' s' = loss_time a s'"
  using assms by (auto simp: ackm_detect_and_remove_lost_pkts_def Let_def res_bind_Inr acked_pkts_def)

lemma timeout_acked:
  assumes "ossl_ackm_on_timeout M (now1, now2) a = Inr (a', b)"
  shows "acked_pkts a' = acked_pkts a"
    and "loss_time a' s' = loss_time a s' \<or> loss_time a s' \<noteq> ossl_time_zero"
proof -
  obtain t s where ts: "ackm_get_loss_time_and_space a = (t, s)"
    by (cases "ackm_get_loss_time_and_space a") auto
  have t: "t = loss_time a s"
    using ts by (auto simp: ackm_get_loss_time_and_space_def split: if_splits)
  have "acked_pkts a' = acked_pkts a \<and> (loss_time a' s' = loss_time a s' \<or> loss_time a s' \<noteq> ossl_time_zero)"
  proof (cases "ossl_time_is_zero t")
    case True
    then show ?thesis
      using assms ts by (auto simp: ossl_ackm_on_timeout_def Let_def timer_acked timer_fields ackm_queue_probe_def
          ackm_queue_probe_anti_deadlock_handshake_def ackm_queue_probe_anti_deadlock_initial_def acked_pkts_def [of "if _ then _ else _"] split: if_splits) (simp_all add: acked_pkts_def)
  next
    case False
    obtain a1 lost where l: "ackm_detect_and_remove_lost_pkts now1 a s = Inr (a1, lost)"
      "a' = ackm_set_loss_detection_timer now2 (if lost \<noteq> [] then ackm_on_pkts_lost M a1 s lost False else a1)"
      using assms ts False by (auto simp: ossl_ackm_on_timeout_def Let_def res_bind_Inr)
    have "loss_time (if lost \<noteq> [] then ackm_on_pkts_lost M a1 s lost False else a1) = loss_time a1"
      using pkts_lost_eq [of M a1 s lost False] by auto
    with l(2) have "loss_time a' = loss_time a1"
      by (simp add: timer_fields)
    moreover have "acked_pkts a' = acked_pkts a1"
      by (simp add: l(2) timer_acked pkts_lost_acked)
    ultimately show ?thesis
      using detect_lost_acked [OF l(1)] False t by (cases "s' = s") (auto simp: ossl_time_simps)
  qed
  then show "acked_pkts a' = acked_pkts a" and "loss_time a' s' = loss_time a s' \<or> loss_time a s' \<noteq> ossl_time_zero"
    by auto
qed


section \<open>The acknowledgement schedule\<close>

definition schedule :: "'cc ackm \<Rightarrow> (pn_space \<Rightarrow> bool) \<times> (pn_space \<Rightarrow> ossl_time) \<times> ossl_time" where
  "schedule a = (rx_ack_desired a, rx_ack_flush_deadline a, tx_max_ack_delay a)"

lemma timer_schedule: "schedule (ackm_set_loss_detection_timer now a) = schedule a"
  using timer_eq [of now a] by (auto simp: schedule_def)

lemma timer_schedule_fields:
  "rx_ack_desired (ackm_set_loss_detection_timer now a) = rx_ack_desired a"
  "rx_ack_flush_deadline (ackm_set_loss_detection_timer now a) = rx_ack_flush_deadline a"
  "tx_max_ack_delay (ackm_set_loss_detection_timer now a) = tx_max_ack_delay a"
  using timer_schedule [of now a] by (simp_all add: schedule_def)

lemma pkts_lost_schedule: "schedule (ackm_on_pkts_lost M a s ps pseudo) = schedule a"
  using pkts_lost_eq [of M a s ps pseudo] by (auto simp: schedule_def)

lemma tx_packet_schedule: "ossl_ackm_on_tx_packet M mem now a p = Inr (a', b) \<Longrightarrow> schedule a' = schedule a"
  by (auto simp: ossl_ackm_on_tx_packet_def Let_def res_bind_Inr schedule_def timer_schedule_fields split: if_splits)

lemma pseudo_schedule: "ossl_ackm_mark_packet_pseudo_lost M a s pn = Inr (a', b) \<Longrightarrow> schedule a' = schedule a"
  by (auto simp: ossl_ackm_mark_packet_pseudo_lost_def Let_def res_bind_Inr pkts_lost_schedule split: option.splits) (simp_all add: schedule_def)

lemma detect_lost_schedule: "ackm_detect_and_remove_lost_pkts now a s = Inr (a', lost) \<Longrightarrow> schedule a' = schedule a"
  by (auto simp: ackm_detect_and_remove_lost_pkts_def Let_def res_bind_Inr schedule_def)

lemma pkts_acked_schedule: "ackm_on_pkts_acked M mem a ps = Inr a' \<Longrightarrow> schedule a' = schedule a"
proof (induction ps arbitrary: a)
  case (Cons p ps)
  have "schedule (flight_out a p) = schedule a"
    by (simp add: schedule_def flight_out_def Let_def)
  with Cons show ?case
    by (cases "tp_is_inflight p"; cases "tp_largest_acked p = QUIC_PN_INVALID"; cases "tp_on_acked_frees p")
      (fastforce simp: ackm_event_def Let_def res_bind_Inr schedule_def)+
qed simp

lemma timeout_schedule: "ossl_ackm_on_timeout M (now1, now2) a = Inr (a', b) \<Longrightarrow> schedule a' = schedule a"
  by (auto simp: ossl_ackm_on_timeout_def Let_def res_bind_Inr timer_schedule pkts_lost_schedule dest!: detect_lost_schedule
      split: prod.splits if_splits) (simp_all add: schedule_def ackm_queue_probe_def
      ackm_queue_probe_anti_deadlock_handshake_def ackm_queue_probe_anti_deadlock_initial_def)

lemma discard_schedule: "schedule (fst (ossl_ackm_on_pkt_space_discarded M now a s)) = schedule a"
proof -
  have "schedule (fst (foldl pkt_discarded (a, n) ps)) = schedule a" for a :: "'a ackm" and n ps
    by (induction ps arbitrary: a n) (simp_all add: pkt_discarded_def schedule_def ackm_event_def)
  from this [of "if s = QUIC_PN_SPACE_HANDSHAKE then a\<lparr>peer_completed_addr_validation := True\<rparr> else a" 0
      "tx_packets (tx_history (if s = QUIC_PN_SPACE_HANDSHAKE then a\<lparr>peer_completed_addr_validation := True\<rparr> else a) s)"]
  show ?thesis
    by (auto simp: ossl_ackm_on_pkt_space_discarded_def Let_def timer_schedule split: prod.splits) (simp_all add: schedule_def)
qed

lemma ack_frame_schedule:
  assumes "ossl_ackm_on_rx_ack_frame M mem (now_rtt, now_loss, now_timer) a ack s rx_time = Inr (a', ok)"
  shows "schedule a' = schedule a"
  using assms
proof (cases rule: ack_frame_steps)
  case (1 r rs h)
  then show ?thesis
    by (auto simp: timer_schedule) (simp_all add: schedule_def ack_started_def Let_def)
next
  case (2 r rs h na a2 a3 lost a4)
  have "schedule a2 = schedule a"
    using process_ecn_eq [OF 2(3)] by (auto simp: ack_rtt_def ack_started_def Let_def schedule_def)
  moreover have "schedule a3 = schedule a2" "schedule a4 = schedule a3"
    using detect_lost_schedule [OF 2(4)] pkts_acked_schedule [OF 2(5)] by (auto simp: pkts_lost_schedule split: if_splits)
  moreover have "schedule (if peer_completed_addr_validation a4 then a4\<lparr>pto_count := 0\<rparr> else a4) = schedule a4"
    by (simp add: schedule_def)
  ultimately show ?thesis
    by (simp add: 2(6) timer_schedule)
qed


definition ack_due :: "'cc ackm \<Rightarrow> pn_space \<Rightarrow> ossl_time \<Rightarrow> bool" where
  "ack_due a s t \<longleftrightarrow> rx_ack_desired a s \<or> rx_ack_flush_deadline a s \<le> t"

lemma ack_due_cong: "schedule a' = schedule a \<Longrightarrow> ack_due a' s t = ack_due a s t"
  by (simp add: schedule_def ack_due_def)

lemma ack_due_mono: "ack_due a s t \<Longrightarrow> t \<le> t' \<Longrightarrow> ack_due a s t'"
  by (auto simp: ack_due_def)

lemma ack_due_desired:
  assumes "ack_due a s t" and "t < ossl_time_infinite" and "t \<le> now"
  shows "ossl_ackm_is_ack_desired now a s"
  using assms by (auto simp: ack_due_def ossl_ackm_is_ack_desired_def ossl_time_is_infinite_def ossl_time_simps)

lemma flush_fields:
  "rx_ack_desired (ackm_set_flush_deadline a s t) = rx_ack_desired a"
  "rx_ack_flush_deadline (ackm_set_flush_deadline a s t) = (rx_ack_flush_deadline a)(s := t)"
  "tx_max_ack_delay (ackm_set_flush_deadline a s t) = tx_max_ack_delay a"
  by (simp_all add: ackm_set_flush_deadline_def ackm_event_def Let_def)

lemma time_add_le: "d \<le> d' \<Longrightarrow> ossl_time_add t d \<le> ossl_time_add t d'"
  by (simp add: time_le_nat time_nat_add)

lemma time_zero_le [simp]: "ossl_time_zero \<le> t"
  by (simp add: time_le_nat)

lemma on_rx_ack_eliciting_due:
  shows "ack_due a s' D \<Longrightarrow> ack_due (ackm_on_rx_ack_eliciting a t s m) s' D"
    and "ack_due (ackm_on_rx_ack_eliciting a t s m) s (ossl_time_add t (tx_max_ack_delay a))"
    and "tx_max_ack_delay (ackm_on_rx_ack_eliciting a t s m) = tx_max_ack_delay a"
proof -
  have inf: "x \<le> D" if "ossl_time_infinite \<le> D" for x
    using that unat_u64_bound [of "ossl_time2ticks x"] by (simp add: time_le_nat del: unat_u64_bound)
  have le: "ossl_time_add t ossl_time_zero \<le> ossl_time_add t (tx_max_ack_delay a)"
    by (rule time_add_le) simp
  show "ack_due (ackm_on_rx_ack_eliciting a t s m) s' D" if "ack_due a s' D"
    using that by (auto simp: ackm_on_rx_ack_eliciting_def ackm_queue_ack_def ack_due_def flush_fields Let_def ossl_time_simps
        ossl_time_is_infinite_def min_le_iff_disj inf)
  show "ack_due (ackm_on_rx_ack_eliciting a t s m) s (ossl_time_add t (tx_max_ack_delay a))"
    using le by (auto simp: ackm_on_rx_ack_eliciting_def ackm_queue_ack_def ack_due_def flush_fields Let_def ossl_time_simps
        min_le_iff_disj)
  show "tx_max_ack_delay (ackm_on_rx_ack_eliciting a t s m) = tx_max_ack_delay a"
    by (simp add: ackm_on_rx_ack_eliciting_def ackm_queue_ack_def flush_fields Let_def)
qed


lemma rx_packet_due:
  assumes "ossl_ackm_on_rx_packet mem a p = Inr (a', ok)"
  shows "ack_due a s D \<Longrightarrow> ack_due a' s D" and "tx_max_ack_delay a' = tx_max_ack_delay a"
    and "ossl_ackm_is_rx_pn_processable a (rp_pkt_num p) (rp_pkt_space p) \<Longrightarrow> ok \<Longrightarrow> rp_is_ack_eliciting p \<Longrightarrow>
      ack_due a' (rp_pkt_space p) (ossl_time_add (rp_time p) (tx_max_ack_delay a))"
proof -
  let ?s = "rp_pkt_space p" and ?n = "rp_pkt_num p"
  define a1 where "a1 = (if ?n > rx_largest_pn a ?s
    then a\<lparr>rx_largest_pn := (rx_largest_pn a)(?s := ?n), rx_largest_time := (rx_largest_time a)(?s := rp_time p)\<rparr> else a)"
  have sch1: "schedule (a1\<lparr>rx_history := h\<rparr>) = schedule a" for h
    by (simp add: schedule_def a1_def)
  have "(\<forall>s D. ack_due a s D \<longrightarrow> ack_due a' s D) \<and> tx_max_ack_delay a' = tx_max_ack_delay a
    \<and> (ossl_ackm_is_rx_pn_processable a ?n ?s \<and> ok \<and> rp_is_ack_eliciting p \<longrightarrow> ack_due a' ?s (ossl_time_add (rp_time p) (tx_max_ack_delay a)))"
  proof (cases "ossl_ackm_is_rx_pn_processable a ?n ?s")
    case False
    then show ?thesis
      using assms by (simp add: ossl_ackm_on_rx_packet_def Let_def)
  next
    case True
    obtain h b where h: "rx_pkt_history_add_pn mem (rx_history a1 ?s) ?n = Inr (h, b)"
      using assms True by (auto simp: ossl_ackm_on_rx_packet_def Let_def res_bind_Inr a1_def [symmetric])
    define a2 where "a2 = a1\<lparr>rx_history := (rx_history a1)(?s := h)\<rparr>"
    have sch2: "schedule a2 = schedule a"
      by (simp add: a2_def sch1)
    define a3 where "a3 = (if rp_is_ack_eliciting p then ackm_on_rx_ack_eliciting a2 (rp_time p) ?s (ackm_is_missing a1 ?s ?n) else a2)"
    define a4 where "a4 = (case rp_ecn p of
                 OSSL_ACKM_ECN_ECT0 \<Rightarrow> a3\<lparr>rx_ect0 := (rx_ect0 a3)(?s := rx_ect0 a3 ?s + 1)\<rparr>
               | OSSL_ACKM_ECN_ECT1 \<Rightarrow> a3\<lparr>rx_ect1 := (rx_ect1 a3)(?s := rx_ect1 a3 ?s + 1)\<rparr>
               | OSSL_ACKM_ECN_ECNCE \<Rightarrow> a3\<lparr>rx_ecnce := (rx_ecnce a3)(?s := rx_ecnce a3 ?s + 1)\<rparr>
               | OSSL_ACKM_ECN_NONE \<Rightarrow> a3)"
    have sch4: "schedule a4 = schedule a3"
      by (simp add: a4_def schedule_def split: ackm_ecn.split)
    have tm: "tx_max_ack_delay a2 = tx_max_ack_delay a"
      using sch2 by (simp add: schedule_def)
    have "ossl_ackm_on_rx_packet mem a p = Inr (if b then a4 else a2, b)"
      using True by (simp only: ossl_ackm_on_rx_packet_def Let_def a1_def [symmetric] h res_bind_simps prod.case not_True_eq_False if_False
          a2_def [symmetric] a3_def [symmetric] a4_def [symmetric]) simp
    then have res: "ok = b" "a' = (if b then a4 else a2)"
      using assms by simp_all
    have "ack_due a s D \<Longrightarrow> ack_due a3 s D" for s D
      using on_rx_ack_eliciting_due(1) [of a2 s D] by (simp add: a3_def ack_due_cong [OF sch2])
    moreover have "tx_max_ack_delay a3 = tx_max_ack_delay a"
      using on_rx_ack_eliciting_due(3) [of a2] tm by (simp add: a3_def)
    moreover have "rp_is_ack_eliciting p \<longrightarrow> ack_due a3 ?s (ossl_time_add (rp_time p) (tx_max_ack_delay a))"
      using on_rx_ack_eliciting_due(2) [of a2 "rp_time p" ?s] by (simp add: a3_def tm)
    moreover have "tx_max_ack_delay a4 = tx_max_ack_delay a3"
      using sch4 by (simp add: schedule_def)
    ultimately show ?thesis
      using res tm by (simp add: ack_due_cong [OF sch4] ack_due_cong [OF sch2])
  qed
  then show "ack_due a s D \<Longrightarrow> ack_due a' s D" "tx_max_ack_delay a' = tx_max_ack_delay a"
    "ossl_ackm_is_rx_pn_processable a ?n ?s \<Longrightarrow> ok \<Longrightarrow> rp_is_ack_eliciting p \<Longrightarrow> ack_due a' ?s (ossl_time_add (rp_time p) (tx_max_ack_delay a))"
    by blast+
qed

lemma get_ack_frame_due:
  assumes "ossl_ackm_get_ack_frame now a s = (a', ack)"
  shows "s' \<noteq> s \<Longrightarrow> ack_due a' s' D = ack_due a s' D" and "tx_max_ack_delay a' = tx_max_ack_delay a"
  using assms by (auto simp: ossl_ackm_get_ack_frame_def Let_def ack_due_def flush_fields)

section \<open>Runs\<close>

datatype ackm_label =
  Sent ackm_tx_pkt | Rx_Ack pn_space ossl_quic_frame_ack | Pseudo_Lost pn_space u64
  | Accepted ackm_rx_pkt | Gen_Ack pn_space ossl_quic_frame_ack | Tx_Delay ossl_time

text \<open>
  The operations of a manager whose congestion controller is NewReno, as the channel calls them: on packet number spaces that are not
  discarded, with numbers of 62 bits, ACK frames that passed the decoder, room in the 64-bit count, memory for the entries of the
  hash table and callbacks that leave the packet alone. The label list says what happened, in order.
\<close>

inductive ackm_run :: "newreno ackm \<Rightarrow> ackm_label list \<Rightarrow> bool" where
  run_new: "ossl_ackm_new (True, True, True, True) statm cc server = Some a \<Longrightarrow> bytes_in_flight cc = 0 \<Longrightarrow> ackm_run a []"
| run_tx: "ackm_run a tr \<Longrightarrow> \<not> discarded a (tp_pkt_space p) \<Longrightarrow> tp_pkt_num p < 2 ^ 62 \<Longrightarrow> \<not> tp_on_acked_frees p \<Longrightarrow>
    unat (bytes_in_flight (cc_data a)) + unat (tp_num_bytes p) < 2 ^ 64 \<Longrightarrow>
    ossl_ackm_on_tx_packet (ossl_cc_newreno_method cc_now) True now a p = Inr (a', ok) \<Longrightarrow>
    ackm_run a' (tr @ (if ok then [Sent p] else []))"
| run_rx_ack: "ackm_run a tr \<Longrightarrow> \<not> discarded a s \<Longrightarrow> ack_wf ack \<Longrightarrow>
    ossl_ackm_on_rx_ack_frame (ossl_cc_newreno_method cc_now) mem now a ack s rx_time = Inr (a', ok) \<Longrightarrow>
    ackm_run a' (tr @ [Rx_Ack s ack])"
| run_pseudo: "ackm_run a tr \<Longrightarrow> \<not> discarded a s \<Longrightarrow>
    ossl_ackm_mark_packet_pseudo_lost (ossl_cc_newreno_method cc_now) a s pn = Inr (a', ok) \<Longrightarrow>
    ackm_run a' (tr @ [Pseudo_Lost s pn])"
| run_timeout: "ackm_run a tr \<Longrightarrow> ossl_ackm_on_timeout (ossl_cc_newreno_method cc_now) now a = Inr (a', ok) \<Longrightarrow> ackm_run a' tr"
| run_discard: "ackm_run a tr \<Longrightarrow> ackm_run (fst (ossl_ackm_on_pkt_space_discarded (ossl_cc_newreno_method cc_now) now a s)) tr"
| run_confirm: "ackm_run a tr \<Longrightarrow> ackm_run (fst (ossl_ackm_on_handshake_confirmed now a)) tr"
| run_rx: "ackm_run a tr \<Longrightarrow> \<not> discarded a (rp_pkt_space p) \<Longrightarrow> rp_pkt_num p < 2 ^ 62 \<Longrightarrow>
    ossl_ackm_on_rx_packet mem a p = Inr (a', ok) \<Longrightarrow>
    ackm_run a' (tr @ (if ok \<and> ossl_ackm_is_rx_pn_processable a (rp_pkt_num p) (rp_pkt_space p) then [Accepted p] else []))"
| run_gen_ack: "ackm_run a tr \<Longrightarrow> \<not> discarded a s \<Longrightarrow> ossl_ackm_get_ack_frame now a s = (a', ack) \<Longrightarrow>
    ackm_run a' (tr @ [Gen_Ack s ack])"
| run_rx_delay: "ackm_run a tr \<Longrightarrow> ackm_run (ossl_ackm_set_rx_max_ack_delay a d) tr"
| run_tx_delay: "ackm_run a tr \<Longrightarrow> ackm_run (ossl_ackm_set_tx_max_ack_delay a d) (tr @ [Tx_Delay d])"
| run_loss_cb: "ackm_run a tr \<Longrightarrow> ackm_run (ossl_ackm_set_loss_detection_deadline_callback a fn) tr"
| run_ack_cb: "ackm_run a tr \<Longrightarrow> ackm_run (ossl_ackm_set_ack_deadline_callback a fn) tr"

text \<open>What a label list says of a space.\<close>

fun sent_pkt :: "ackm_label \<Rightarrow> ackm_tx_pkt list" where
  "sent_pkt (Sent p) = [p]"
| "sent_pkt _ = []"

fun accepted_pkt :: "ackm_label \<Rightarrow> ackm_rx_pkt list" where
  "accepted_pkt (Accepted p) = [p]"
| "accepted_pkt _ = []"

definition sent :: "ackm_label list \<Rightarrow> ackm_tx_pkt list" where
  "sent tr = concat (map sent_pkt tr)"

definition accepted :: "ackm_label list \<Rightarrow> ackm_rx_pkt list" where
  "accepted tr = concat (map accepted_pkt tr)"

definition accepted_nums :: "ackm_label list \<Rightarrow> pn_space \<Rightarrow> u64 set" where
  "accepted_nums tr s = {rp_pkt_num p |p. p \<in> set (accepted tr) \<and> rp_pkt_space p = s}"

text \<open>The packets that ask for an ACK and were accepted after the last ACK frame of the space.\<close>

definition unreported :: "ackm_label list \<Rightarrow> pn_space \<Rightarrow> ackm_rx_pkt set" where
  "unreported tr s = {p \<in> set (accepted (takeWhile (\<lambda>l. \<nexists>ack. l = Gen_Ack s ack) (rev tr))). rp_pkt_space p = s \<and> rp_is_ack_eliciting p}"

definition delay_bound :: "ackm_label list \<Rightarrow> ossl_time \<Rightarrow> bool" where
  "delay_bound tr D \<longleftrightarrow> DEFAULT_TX_MAX_ACK_DELAY \<le> D \<and> (\<forall>d. Tx_Delay d \<in> set tr \<longrightarrow> d \<le> D)"

lemma trace_simps [simp]:
  "sent [] = []" "sent (l # tr) = sent_pkt l @ sent tr" "sent (tr @ tr') = sent tr @ sent tr'"
  "accepted [] = []" "accepted (l # tr) = accepted_pkt l @ accepted tr" "accepted (tr @ tr') = accepted tr @ accepted tr'"
  by (simp_all add: sent_def accepted_def)

lemma accepted_nums_simps [simp]:
  "accepted_nums [] s = {}" "accepted_nums (tr @ tr') s = accepted_nums tr s \<union> accepted_nums tr' s"
  "accepted_nums [Accepted p] s = (if rp_pkt_space p = s then {rp_pkt_num p} else {})"
  "accepted_nums [Rx_Ack s' ack] s = {}" "accepted_nums [Sent q] s = {}" "accepted_nums [Gen_Ack s' ack] s = {}"
  "accepted_nums [Pseudo_Lost s' n] s = {}" "accepted_nums [Tx_Delay d] s = {}"
  by (auto simp: accepted_nums_def)

lemma unreported_simps [simp]:
  "unreported [] s = {}"
  "unreported (tr @ [Accepted p]) s = (if rp_pkt_space p = s \<and> rp_is_ack_eliciting p then insert p (unreported tr s) else unreported tr s)"
  "unreported (tr @ [Gen_Ack s' ack]) s = (if s' = s then {} else unreported tr s)"
  "unreported (tr @ [Rx_Ack s' ack]) s = unreported tr s" "unreported (tr @ [Sent q]) s = unreported tr s"
  "unreported (tr @ [Pseudo_Lost s' n]) s = unreported tr s" "unreported (tr @ [Tx_Delay d]) s = unreported tr s"
  by (auto simp: unreported_def)


section \<open>What holds in every run\<close>

definition run_ok :: "newreno ackm \<Rightarrow> ackm_label list \<Rightarrow> bool" where
  "run_ok a tr \<longleftrightarrow>
     (\<exists>pl. tx_inv newreno_flight a {#} pl (mset (sent tr)) \<and> ((\<forall>s n. Pseudo_Lost s n \<notin> set tr) \<longrightarrow> pl = 0))
     \<and> (\<forall>s. discarded a s \<longrightarrow> loss_time a s = ossl_time_zero)
     \<and> (\<forall>s. \<not> discarded a s \<longrightarrow> rx_ok (accepted_nums tr s) (rx_history a s))
     \<and> distinct (map (\<lambda>p. (rp_pkt_space p, rp_pkt_num p)) (accepted tr))"

lemma run_okD:
  assumes "run_ok a tr"
  obtains pl where "tx_inv newreno_flight a {#} pl (mset (sent tr))" "(\<forall>s n. Pseudo_Lost s n \<notin> set tr) \<longrightarrow> pl = 0"
    "\<forall>s. discarded a s \<longrightarrow> loss_time a s = ossl_time_zero" "\<forall>s. \<not> discarded a s \<longrightarrow> rx_ok (accepted_nums tr s) (rx_history a s)"
    "distinct (map (\<lambda>p. (rp_pkt_space p, rp_pkt_num p)) (accepted tr))"
  using assms by (auto simp: run_ok_def)

lemma run_ok_cong:
  assumes "run_ok a tr" and "tx_same a a'" and "rx_history a' = rx_history a"
  shows "run_ok a' tr"
proof -
  have "discarded a' = discarded a" "loss_time a' = loss_time a"
    using assms(2) by (simp_all add: tx_same_def)
  with assms(1,3) show ?thesis
    by (simp add: run_ok_def tx_same_inv [OF assms(2)])
qed

lemma run_ok_quiet:
  assumes "run_ok a tr" and "sent_pkt l = []" and "accepted_pkt l = []" and "\<forall>s n. l \<noteq> Pseudo_Lost s n"
  shows "run_ok a (tr @ [l])"
  using assms by (auto simp: run_ok_def accepted_nums_def)

lemma run_ok_new:
  assumes "ossl_ackm_new (True, True, True, True) statm cc server = Some a" and "bytes_in_flight cc = 0"
  shows "run_ok a []" and "acked_pkts a = {}" and "ack_due a s D \<longleftrightarrow> ossl_time_infinite \<le> D" and "tx_max_ack_delay a = DEFAULT_TX_MAX_ACK_DELAY"
proof -
  define h where "h = \<lparr>tx_packets = [], tx_map = Some Map.empty, tx_watermark = 0, tx_highest_sent = 0\<rparr>"
  have hok: "hist_ok s h" for s
    by (simp add: h_def hist_ok_def)
  have "tx_history a = (\<lambda>_. h)"
    using assms(1) by (auto simp: ossl_ackm_new_def tx_pkt_history_init_def h_def split: pn_space.split)
  then have f: "tx_history a s = h" "discarded a s = False" "ackm_events a = []" "ackm_bytes_in_flight a = 0" "ack_eliciting_bytes_in_flight a s = 0"
    "cc_data a = cc" "rx_history a s = rx_pkt_history_init" "\<not> rx_ack_desired a s" "rx_ack_flush_deadline a s = ossl_time_infinite"
    "tx_max_ack_delay a = DEFAULT_TX_MAX_ACK_DELAY" for s
    using assms(1) by (auto simp: ossl_ackm_new_def tx_pkt_history_init_def)
  have "held a = {#}"
    by (simp add: held_def f h_def)
  then have "tx_inv newreno_flight a {#} 0 {#}"
    by (simp add: tx_inv_def f hok settled_def assms(2))
  then show "run_ok a []"
    unfolding run_ok_def by (auto simp: f rx_ok_init intro: exI [of _ 0])
  show "acked_pkts a = {}" and "ack_due a s D \<longleftrightarrow> ossl_time_infinite \<le> D" and "tx_max_ack_delay a = DEFAULT_TX_MAX_ACK_DELAY"
    by (simp_all add: acked_pkts_def ack_due_def f)
qed

lemma run_ok_tx:
  assumes ok: "run_ok a tr" and live: "\<not> discarded a (tp_pkt_space p)" and p: "tp_pkt_num p < 2 ^ 62" "\<not> tp_on_acked_frees p"
    and room: "unat (bytes_in_flight (cc_data a)) + unat (tp_num_bytes p) < 2 ^ 64"
  obtains a' b where "ossl_ackm_on_tx_packet (ossl_cc_newreno_method cc_now) True now a p = Inr (a', b)"
    "run_ok a' (tr @ (if b then [Sent p] else []))" "discarded a' = discarded a"
proof -
  obtain pl where inv: "tx_inv newreno_flight a {#} pl (mset (sent tr))" "(\<forall>s n. Pseudo_Lost s n \<notin> set tr) \<longrightarrow> pl = 0"
    and rest: "\<forall>s. discarded a s \<longrightarrow> loss_time a s = ossl_time_zero" "\<forall>s. \<not> discarded a s \<longrightarrow> rx_ok (accepted_nums tr s) (rx_history a s)"
    "distinct (map (\<lambda>p. (rp_pkt_space p, rp_pkt_num p)) (accepted tr))"
    by (rule run_okD [OF ok])
  have "flight_sum (held a) + pl + unat (tp_num_bytes p) < 2 ^ 64"
    using room tx_invD(7) [OF inv(1)] by simp
  from nra.tx_packet_spec [OF inv(1) live p this, of cc_now now] obtain a' b where
    a': "ossl_ackm_on_tx_packet (ossl_cc_newreno_method cc_now) True now a p = Inr (a', b)"
    "tx_inv newreno_flight a' {#} pl (if b then add_mset p (mset (sent tr)) else mset (sent tr))" "discarded a' = discarded a"
    "rx_history a' = rx_history a"
    by metis
  have "run_ok a' (tr @ (if b then [Sent p] else []))"
    unfolding run_ok_def using a'(2-4) inv(2) rest tx_packet_acked(2) [OF a'(1)]
    by (cases b) (auto intro!: exI [of _ pl])
  with a' show ?thesis
    by (intro that [of a' b]) simp_all
qed

lemma run_ok_rx_ack:
  assumes ok: "run_ok a tr" and live: "\<not> discarded a s" and wf: "ack_wf ack"
  obtains a' where "ossl_ackm_on_rx_ack_frame (ossl_cc_newreno_method cc_now) mem now a ack s rx_time = Inr (a', True)"
    "run_ok a' (tr @ [Rx_Ack s ack])" "ack_outcome (fst (snd now)) a a' (ack_ranges ack) s" "discarded a' = discarded a"
proof -
  obtain now_rtt now_loss now_timer where now: "now = (now_rtt, now_loss, now_timer)"
    by (cases now)
  obtain pl where inv: "tx_inv newreno_flight a {#} pl (mset (sent tr))" "(\<forall>s n. Pseudo_Lost s n \<notin> set tr) \<longrightarrow> pl = 0"
    and rest: "\<forall>s. discarded a s \<longrightarrow> loss_time a s = ossl_time_zero" "\<forall>s. \<not> discarded a s \<longrightarrow> rx_ok (accepted_nums tr s) (rx_history a s)"
    "distinct (map (\<lambda>p. (rp_pkt_space p, rp_pkt_num p)) (accepted tr))"
    by (rule run_okD [OF ok])
  from nra.ack_frame_spec [OF inv(1) live wf, of cc_now mem now_rtt now_loss now_timer rx_time] obtain a' where
    a': "ossl_ackm_on_rx_ack_frame (ossl_cc_newreno_method cc_now) mem (now_rtt, now_loss, now_timer) a ack s rx_time = Inr (a', True)"
    "tx_inv newreno_flight a' {#} pl (mset (sent tr))" "ack_outcome now_loss a a' (ack_ranges ack) s" "discarded a' = discarded a"
    by metis
  note rx = ack_frame_rx [OF a'(1)]
  have "\<forall>s'. discarded a s' \<longrightarrow> loss_time a' s' = ossl_time_zero"
    using rest(1) live rx by metis
  moreover have "\<forall>s'. \<not> discarded a s' \<longrightarrow> rx_ok (accepted_nums tr s') (rx_history a' s')"
    using rest(2) rx by (auto simp: rx_keeps_def)
  ultimately have "run_ok a' (tr @ [Rx_Ack s ack])"
    unfolding run_ok_def using a'(2,4) inv(2) rest(3) by (auto intro!: exI [of _ pl])
  with a' show ?thesis
    by (intro that [of a']) (simp_all add: now)
qed

lemma run_ok_pseudo:
  assumes ok: "run_ok a tr" and live: "\<not> discarded a s"
  obtains a' b where "ossl_ackm_mark_packet_pseudo_lost (ossl_cc_newreno_method cc_now) a s pn = Inr (a', b)"
    "run_ok a' (tr @ [Pseudo_Lost s pn])" "discarded a' = discarded a"
proof -
  obtain pl where inv: "tx_inv newreno_flight a {#} pl (mset (sent tr))"
    and rest: "\<forall>s. discarded a s \<longrightarrow> loss_time a s = ossl_time_zero" "\<forall>s. \<not> discarded a s \<longrightarrow> rx_ok (accepted_nums tr s) (rx_history a s)"
    "distinct (map (\<lambda>p. (rp_pkt_space p, rp_pkt_num p)) (accepted tr))"
    by (rule run_okD [OF ok])
  from nra.pseudo_lost_spec [OF inv(1) live, of cc_now pn] obtain a' b pl' where
    a': "ossl_ackm_mark_packet_pseudo_lost (ossl_cc_newreno_method cc_now) a s pn = Inr (a', b)"
    "tx_inv newreno_flight a' {#} pl' (mset (sent tr))" "discarded a' = discarded a" "rx_history a' = rx_history a"
    by metis
  have "run_ok a' (tr @ [Pseudo_Lost s pn])"
    unfolding run_ok_def using a'(2-4) rest pseudo_acked(2) [OF a'(1)] by (auto intro!: exI [of _ pl'])
  with a' show ?thesis
    by (intro that [of a' b]) simp_all
qed

lemma run_ok_timeout:
  assumes ok: "run_ok a tr"
  obtains a' where "ossl_ackm_on_timeout (ossl_cc_newreno_method cc_now) now a = Inr (a', True)" "run_ok a' tr" "discarded a' = discarded a"
proof -
  obtain now1 now2 where now: "now = (now1, now2)"
    by (cases now)
  obtain pl where inv: "tx_inv newreno_flight a {#} pl (mset (sent tr))" "(\<forall>s n. Pseudo_Lost s n \<notin> set tr) \<longrightarrow> pl = 0"
    and rest: "\<forall>s. discarded a s \<longrightarrow> loss_time a s = ossl_time_zero" "\<forall>s. \<not> discarded a s \<longrightarrow> rx_ok (accepted_nums tr s) (rx_history a s)"
    "distinct (map (\<lambda>p. (rp_pkt_space p, rp_pkt_num p)) (accepted tr))"
    by (rule run_okD [OF ok])
  from nra.timeout_spec [OF inv(1) rest(1), of cc_now now1 now2] obtain a' where
    a': "ossl_ackm_on_timeout (ossl_cc_newreno_method cc_now) (now1, now2) a = Inr (a', True)"
    "tx_inv newreno_flight a' {#} pl (mset (sent tr))" "discarded a' = discarded a" "rx_history a' = rx_history a"
    by metis
  have "\<forall>s. discarded a s \<longrightarrow> loss_time a' s = ossl_time_zero"
    using rest(1) timeout_acked(2) [OF a'(1)] by metis
  then have "run_ok a' tr"
    unfolding run_ok_def using a'(2-4) inv(2) rest by (auto intro!: exI [of _ pl])
  with a' show ?thesis
    by (intro that [of a']) (simp_all add: now)
qed

lemma run_ok_discard:
  assumes ok: "run_ok a tr"
  shows "run_ok (fst (ossl_ackm_on_pkt_space_discarded (ossl_cc_newreno_method cc_now) now a s)) tr"
    and "acked_pkts (fst (ossl_ackm_on_pkt_space_discarded (ossl_cc_newreno_method cc_now) now a s)) = acked_pkts a"
    and "discarded (fst (ossl_ackm_on_pkt_space_discarded (ossl_cc_newreno_method cc_now) now a s)) = (discarded a)(s := True)"
proof -
  obtain pl where inv: "tx_inv newreno_flight a {#} pl (mset (sent tr))" "(\<forall>s n. Pseudo_Lost s n \<notin> set tr) \<longrightarrow> pl = 0"
    and rest: "\<forall>s. discarded a s \<longrightarrow> loss_time a s = ossl_time_zero" "\<forall>s. \<not> discarded a s \<longrightarrow> rx_ok (accepted_nums tr s) (rx_history a s)"
    "distinct (map (\<lambda>p. (rp_pkt_space p, rp_pkt_num p)) (accepted tr))"
    by (rule run_okD [OF ok])
  from nra.discarded_spec [OF inv(1), of cc_now now s] obtain a' b where
    a': "ossl_ackm_on_pkt_space_discarded (ossl_cc_newreno_method cc_now) now a s = (a', b)"
    "tx_inv newreno_flight a' {#} pl (mset (sent tr))" "discarded a' = (discarded a)(s := True)"
    "\<forall>s'. s' \<noteq> s \<longrightarrow> rx_history a' s' = rx_history a s'"
    "\<forall>s'. loss_time a' s' = (if b \<and> s' = s then ossl_time_zero else loss_time a s')" "b = (\<not> discarded a s)"
    "b \<Longrightarrow> pkt_events a' = pkt_events a @ map On_Discarded (tx_packets (tx_history a s))"
    by metis
  show "run_ok (fst (ossl_ackm_on_pkt_space_discarded (ossl_cc_newreno_method cc_now) now a s)) tr"
    unfolding run_ok_def using a'(1-6) inv(2) rest by (auto intro!: exI [of _ pl])
  show "discarded (fst (ossl_ackm_on_pkt_space_discarded (ossl_cc_newreno_method cc_now) now a s)) = (discarded a)(s := True)"
    by (simp add: a')
  show "acked_pkts (fst (ossl_ackm_on_pkt_space_discarded (ossl_cc_newreno_method cc_now) now a s)) = acked_pkts a"
  proof (cases b)
    case True
    with a'(1,7) show ?thesis
      by (auto simp: acked_pkt_events)
  next
    case False
    with a'(1,6) show ?thesis
      by (simp add: ossl_ackm_on_pkt_space_discarded_def)
  qed
qed

lemma run_ok_rx:
  assumes ok: "run_ok a tr" and live: "\<not> discarded a (rp_pkt_space p)" and pn: "rp_pkt_num p < 2 ^ 62"
  obtains a' b where "ossl_ackm_on_rx_packet mem a p = Inr (a', b)" "tx_same a a'"
    "run_ok a' (tr @ (if b \<and> ossl_ackm_is_rx_pn_processable a (rp_pkt_num p) (rp_pkt_space p) then [Accepted p] else []))"
proof -
  obtain pl where inv: "tx_inv newreno_flight a {#} pl (mset (sent tr))" "(\<forall>s n. Pseudo_Lost s n \<notin> set tr) \<longrightarrow> pl = 0"
    and rest: "\<forall>s. discarded a s \<longrightarrow> loss_time a s = ossl_time_zero" "\<forall>s. \<not> discarded a s \<longrightarrow> rx_ok (accepted_nums tr s) (rx_history a s)"
    "distinct (map (\<lambda>p. (rp_pkt_space p, rp_pkt_num p)) (accepted tr))"
    by (rule run_okD [OF ok])
  have rx: "rx_ok (accepted_nums tr (rp_pkt_space p)) (rx_history a (rp_pkt_space p))"
    using rest(2) live by blast
  from rx pn show ?thesis
  proof (cases rule: rx_packet_spec [where mem = mem])
    case (accepted a')
    have "rp_pkt_num p \<notin> accepted_nums tr (rp_pkt_space p)"
      using accepted(1) processable_iff [OF rx] by blast
    then have "(rp_pkt_space p, rp_pkt_num p) \<notin> set (map (\<lambda>p. (rp_pkt_space p, rp_pkt_num p)) (Ackm_Run.accepted tr))"
      by (force simp: accepted_nums_def)
    then have "run_ok a' (tr @ [Accepted p])"
      unfolding run_ok_def using accepted(3-5) inv rest tx_same_inv [OF accepted(3)]
      by (auto simp: tx_same_def intro!: exI [of _ pl])
    with accepted show ?thesis
      by (intro that [of a' True]) simp_all
  next
    case ignored
    then show ?thesis
      using ok by (intro that [of a True]) (simp_all add: tx_same_def)
  next
    case (failed a')
    then show ?thesis
      using run_ok_cong [OF ok failed(3,4)] by (intro that [of a' False]) simp_all
  qed
qed


lemma confirm_same: "tx_same a (fst (ossl_ackm_on_handshake_confirmed now a))" "rx_history (fst (ossl_ackm_on_handshake_confirmed now a)) = rx_history a"
  "schedule (fst (ossl_ackm_on_handshake_confirmed now a)) = schedule a"
  by (simp_all add: ossl_ackm_on_handshake_confirmed_def tx_same_def timer_fields timer_schedule) (simp_all add: pkt_events_def schedule_def)

lemma setters_same:
  "tx_same a (ossl_ackm_set_rx_max_ack_delay a d)" "tx_same a (ossl_ackm_set_tx_max_ack_delay a d)"
  "tx_same a (ossl_ackm_set_loss_detection_deadline_callback a fn)" "tx_same a (ossl_ackm_set_ack_deadline_callback a fn)"
  "rx_history (ossl_ackm_set_rx_max_ack_delay a d) = rx_history a" "rx_history (ossl_ackm_set_tx_max_ack_delay a d) = rx_history a"
  "rx_history (ossl_ackm_set_loss_detection_deadline_callback a fn) = rx_history a"
  "rx_history (ossl_ackm_set_ack_deadline_callback a fn) = rx_history a"
  "schedule (ossl_ackm_set_rx_max_ack_delay a d) = schedule a" "schedule (ossl_ackm_set_loss_detection_deadline_callback a fn) = schedule a"
  "schedule (ossl_ackm_set_ack_deadline_callback a fn) = schedule a"
  "ack_due (ossl_ackm_set_tx_max_ack_delay a d) s t = ack_due a s t" "tx_max_ack_delay (ossl_ackm_set_tx_max_ack_delay a d) = d"
  by (simp_all add: tx_same_def pkt_events_def schedule_def ack_due_def ossl_ackm_set_rx_max_ack_delay_def ossl_ackm_set_tx_max_ack_delay_def
      ossl_ackm_set_loss_detection_deadline_callback_def ossl_ackm_set_ack_deadline_callback_def)

lemma run_inv: "ackm_run a tr \<Longrightarrow> run_ok a tr"
proof (induction rule: ackm_run.induct)
  case (run_new statm cc server a)
  then show ?case
    by (rule run_ok_new)
next
  case (run_tx a tr p cc_now now a' ok)
  show ?case
    by (rule run_ok_tx [OF run_tx.IH run_tx.hyps(2-5), of cc_now now]) (use run_tx.hyps(6) in simp)
next
  case (run_rx_ack a tr s ack cc_now mem now rx_time a' ok)
  show ?case
    by (rule run_ok_rx_ack [OF run_rx_ack.IH run_rx_ack.hyps(2,3), of cc_now mem now rx_time]) (use run_rx_ack.hyps(4) in simp)
next
  case (run_pseudo a tr s cc_now pn a' ok)
  show ?case
    by (rule run_ok_pseudo [OF run_pseudo.IH run_pseudo.hyps(2), of cc_now pn]) (use run_pseudo.hyps(3) in simp)
next
  case (run_timeout a tr cc_now now a' ok)
  show ?case
    by (rule run_ok_timeout [OF run_timeout.IH, of cc_now now]) (use run_timeout.hyps(2) in simp)
next
  case (run_discard a tr cc_now now s)
  show ?case
    by (rule run_ok_discard [OF run_discard.IH])
next
  case (run_confirm a tr now)
  show ?case
    by (rule run_ok_cong [OF run_confirm.IH confirm_same(1,2)])
next
  case (run_rx a tr p mem a' ok)
  show ?case
    by (rule run_ok_rx [OF run_rx.IH run_rx.hyps(2,3), of mem]) (use run_rx.hyps(4) in simp)
next
  case (run_gen_ack a tr s now a' ack)
  note run_ok_cong [OF run_gen_ack.IH get_ack_frame_same(1,2) [OF run_gen_ack.hyps(3)]]
  then show ?case
    by (rule run_ok_quiet) simp_all
next
  case (run_tx_delay a tr d)
  note run_ok_cong [OF run_tx_delay.IH setters_same(2,6)]
  then show ?case
    by (rule run_ok_quiet) simp_all
qed (auto intro: run_ok_cong setters_same)

lemma tx_same_acked: "tx_same a a' \<Longrightarrow> acked_pkts a' = acked_pkts a"
  by (simp add: tx_same_def acked_pkt_events)

lemmas setters_acked = setters_same(1-4) [THEN tx_same_acked]

lemma run_acked: "ackm_run a tr \<Longrightarrow> p \<in> acked_pkts a \<Longrightarrow> \<exists>ack. Rx_Ack (tp_pkt_space p) ack \<in> set tr \<and> acked_by (ack_ranges ack) p"
proof (induction rule: ackm_run.induct)
  case (run_new statm cc server a)
  then show ?case
    by (simp add: run_ok_new)
next
  case (run_tx a tr q cc_now now a' ok)
  then show ?case
    using tx_packet_acked(1) [OF run_tx.hyps(6)] by auto
next
  case (run_rx_ack a tr s ack cc_now mem now rx_time a' ok)
  note inv = run_inv [OF run_rx_ack.hyps(1)]
  have out: "ack_outcome (fst (snd now)) a a' (ack_ranges ack) s"
    by (rule run_ok_rx_ack [OF inv run_rx_ack.hyps(2,3), of cc_now mem now rx_time]) (use run_rx_ack.hyps(4) in simp)
  have space: "tp_pkt_space q = s" if "q \<in> set (tx_packets (tx_history a s))" for q
    using inv that run_rx_ack.hyps(2) by (auto elim!: run_okD dest!: tx_invD(1) simp: hist_ok_def)
  show ?case
  proof (cases "p \<in> acked_pkts a")
    case True
    with run_rx_ack.IH show ?thesis
      by auto
  next
    case False
    with out run_rx_ack.prems have "p \<in> set (tx_packets (tx_history a s)) \<and> acked_by (ack_ranges ack) p"
      by (auto simp: acked_pkt_events ack_outcome_def Let_def split: if_splits)
    then show ?thesis
      using space by auto
  qed
next
  case (run_pseudo a tr s cc_now pn a' ok)
  then show ?case
    using pseudo_acked(1) [OF run_pseudo.hyps(3)] by auto
next
  case (run_timeout a tr cc_now now a' ok)
  then show ?case
    using timeout_acked(1) [of _ "fst now" "snd now" a a' ok] by auto
next
  case (run_discard a tr cc_now now s)
  then show ?case
    using run_ok_discard(2) [OF run_inv [OF run_discard.hyps(1)]] by simp
next
  case (run_confirm a tr now)
  then show ?case
    using tx_same_acked [OF confirm_same(1)] by blast
next
  case (run_rx a tr q mem a' ok)
  have "tx_same a a'"
    by (rule run_ok_rx [OF run_inv [OF run_rx.hyps(1)] run_rx.hyps(2,3), of mem]) (use run_rx.hyps(4) in simp)
  with run_rx show ?case
    using tx_same_acked by auto
next
  case (run_gen_ack a tr s now a' ack)
  then show ?case
    using tx_same_acked [OF get_ack_frame_same(1) [OF run_gen_ack.hyps(3)]] by auto
qed (auto simp: setters_acked)

lemma accepted_nums_mono: "n \<in> accepted_nums tr s \<Longrightarrow> n \<in> accepted_nums (tr @ tr') s"
  by simp

lemma run_gen: "ackm_run a tr \<Longrightarrow> Gen_Ack s ack \<in> set tr \<Longrightarrow> r \<in> set (ack_ranges ack) \<Longrightarrow> range_contains r n \<Longrightarrow> n \<in> accepted_nums tr s"
proof (induction rule: ackm_run.induct)
  case (run_gen_ack a tr s' now a' ack')
  show ?case
  proof (cases "Gen_Ack s ack \<in> set tr")
    case True
    with run_gen_ack show ?thesis
      by (simp add: accepted_nums_mono)
  next
    case False
    with run_gen_ack.prems have eq: "s' = s" "ack' = ack"
      by auto
    have "rx_ok (accepted_nums tr s) (rx_history a s)"
      using run_inv [OF run_gen_ack.hyps(1)] run_gen_ack.hyps(2) by (auto simp: eq elim: run_okD)
    from fill_ranges(2) [OF this, of r n] run_gen_ack.prems get_ack_frame_same(3) [OF run_gen_ack.hyps(3)] show ?thesis
      by (simp add: eq)
  qed
qed (auto split: if_splits)

lemma time_add_bound: "x \<le> D \<Longrightarrow> ack_due a s (ossl_time_add t x) \<Longrightarrow> ack_due a s (ossl_time_add t D)"
  by (rule ack_due_mono [OF _ time_add_le])

lemma run_due:
  "ackm_run a tr \<Longrightarrow> delay_bound tr D \<Longrightarrow> tx_max_ack_delay a \<le> D \<and> (\<forall>s. \<forall>p \<in> unreported tr s. ack_due a s (ossl_time_add (rp_time p) D))"
proof (induction rule: ackm_run.induct)
  case (run_new statm cc server a)
  then show ?case
    by (simp add: run_ok_new delay_bound_def)
next
  case (run_tx a tr q cc_now now a' ok)
  note sch = tx_packet_schedule [OF run_tx.hyps(6)]
  show ?case
    using run_tx.IH run_tx.prems sch by (auto simp: delay_bound_def ack_due_cong [OF sch] schedule_def split: if_splits)
next
  case (run_rx_ack a tr s ack cc_now mem now rx_time a' ok)
  have sch: "schedule a' = schedule a"
    using ack_frame_schedule run_rx_ack.hyps(4) by (cases now) blast
  show ?case
    using run_rx_ack.IH run_rx_ack.prems sch by (auto simp: delay_bound_def ack_due_cong [OF sch] schedule_def)
next
  case (run_pseudo a tr s cc_now pn a' ok)
  note sch = pseudo_schedule [OF run_pseudo.hyps(3)]
  show ?case
    using run_pseudo.IH run_pseudo.prems sch by (auto simp: delay_bound_def ack_due_cong [OF sch] schedule_def)
next
  case (run_timeout a tr cc_now now a' ok)
  have sch: "schedule a' = schedule a"
    using timeout_schedule run_timeout.hyps(2) by (cases now) blast
  show ?case
    using run_timeout.IH run_timeout.prems sch by (auto simp: ack_due_cong [OF sch] schedule_def)
next
  case (run_discard a tr cc_now now s)
  note sch = discard_schedule [of "ossl_cc_newreno_method cc_now" now a s]
  show ?case
    using run_discard.IH run_discard.prems sch by (auto simp: ack_due_cong [OF sch] schedule_def)
next
  case (run_confirm a tr now)
  note sch = confirm_same(3) [of now a]
  show ?case
    using run_confirm.IH run_confirm.prems sch by (auto simp: ack_due_cong [OF sch] schedule_def)
next
  case (run_rx a tr q mem a' ok)
  note due = rx_packet_due [OF run_rx.hyps(4)]
  have IH: "tx_max_ack_delay a \<le> D" "\<forall>s. \<forall>p \<in> unreported tr s. ack_due a s (ossl_time_add (rp_time p) D)"
    using run_rx.IH run_rx.prems by (auto simp: delay_bound_def split: if_splits)
  note late = time_add_bound [OF IH(1) due(3)]
  show ?case
    using IH due(1,2) late by auto
next
  case (run_gen_ack a tr s now a' ack)
  note due = get_ack_frame_due [OF run_gen_ack.hyps(3)]
  show ?case
    using run_gen_ack.IH run_gen_ack.prems due by (auto simp: delay_bound_def)
next
  case (run_rx_delay a tr d)
  note sch = setters_same(9) [of a d]
  show ?case
    using run_rx_delay.IH run_rx_delay.prems sch by (auto simp: ack_due_cong [OF sch] schedule_def)
next
  case (run_tx_delay a tr d)
  then show ?case
    by (auto simp: delay_bound_def setters_same)
next
  case (run_loss_cb a tr fn)
  note sch = setters_same(10) [of a fn]
  show ?case
    using run_loss_cb.IH run_loss_cb.prems sch by (auto simp: ack_due_cong [OF sch] schedule_def)
next
  case (run_ack_cb a tr fn)
  note sch = setters_same(11) [of a fn]
  show ?case
    using run_ack_cb.IH run_ack_cb.prems sch by (auto simp: ack_due_cong [OF sch] schedule_def)
qed


section \<open>A small run\<close>

text \<open>Two packets are sent and the second is acknowledged; the peer accepts it and reports it.\<close>

definition demo_pkt :: "u64 \<Rightarrow> ackm_tx_pkt" where
  "demo_pkt n = \<lparr>tp_pkt_num = n, tp_num_bytes = 1200, tp_time = Ticks (1000 + n), tp_largest_acked = QUIC_PN_INVALID,
     tp_pkt_space = QUIC_PN_SPACE_INITIAL, tp_is_inflight = True, tp_is_ack_eliciting = True, tp_is_pto_probe = False, tp_is_mtu_probe = False,
     tp_cb_arg = 0, tp_on_acked_frees = False\<rparr>"

definition demo_rx :: ackm_rx_pkt where
  "demo_rx = \<lparr>rp_pkt_num = 1, rp_time = Ticks 1500, rp_pkt_space = QUIC_PN_SPACE_INITIAL, rp_is_ack_eliciting = True, rp_ecn = OSSL_ACKM_ECN_NONE\<rparr>"

definition demo_ack :: ossl_quic_frame_ack where
  "demo_ack = \<lparr>ack_ranges = [\<lparr>ar_start = 1, ar_end = 1\<rparr>], delay_time = Ticks 0, ect0 = 0, ect1 = 0, ecnce = 0, ecn_present = True\<rparr>"

lemma demo_new: "\<exists>a. ackm_run a [] \<and> discarded a = (\<lambda>_. False) \<and> bytes_in_flight (cc_data a) = 0
    \<and> tx_history a QUIC_PN_SPACE_INITIAL = \<lparr>tx_packets = [], tx_map = Some Map.empty, tx_watermark = 0, tx_highest_sent = 0\<rparr>
    \<and> time_of_last_ack_eliciting_pkt a QUIC_PN_SPACE_INITIAL = Ticks 0 \<and> rx_history a QUIC_PN_SPACE_INITIAL = rx_pkt_history_init"
proof -
  have cc: "bytes_in_flight (the (newreno_new True)) = 0"
    by code_simp
  let ?a = "the (ossl_ackm_new (True, True, True, True) ossl_statm_init (the (newreno_new True)) False)"
  have "ossl_ackm_new (True, True, True, True) ossl_statm_init (the (newreno_new True)) False = Some ?a"
    by (simp add: ossl_ackm_new_def tx_pkt_history_init_def)
  from run_new [OF this cc] cc show ?thesis
    by (intro exI [of _ ?a]) (simp add: ossl_ackm_new_def tx_pkt_history_init_def)
qed

lemma demo_tx:
  assumes "ackm_run a tr" and "discarded a = (\<lambda>_. False)" and "unat (bytes_in_flight (cc_data a)) \<le> 1000000" and "n < 1000"
    and "tx_history a QUIC_PN_SPACE_INITIAL = \<lparr>tx_packets = ps, tx_map = Some m, tx_watermark = n, tx_highest_sent = hs\<rparr>" and "m n = None"
    and "time_of_last_ack_eliciting_pkt a QUIC_PN_SPACE_INITIAL \<le> Ticks (1000 + n)"
  shows "\<exists>a'. ackm_run a' (tr @ [Sent (demo_pkt n)]) \<and> discarded a' = (\<lambda>_. False)
    \<and> unat (bytes_in_flight (cc_data a')) = unat (bytes_in_flight (cc_data a)) + 1200
    \<and> tx_history a' QUIC_PN_SPACE_INITIAL
        = \<lparr>tx_packets = ps @ [demo_pkt n], tx_map = Some (m(n \<mapsto> demo_pkt n)), tx_watermark = n + 1, tx_highest_sent = n\<rparr>
    \<and> time_of_last_ack_eliciting_pkt a' QUIC_PN_SPACE_INITIAL = Ticks (1000 + n)"
proof -
  let ?r = "ossl_ackm_on_tx_packet (ossl_cc_newreno_method (Ticks 0)) True (Ticks 0) a (demo_pkt n)"
  have "1000 + n \<noteq> 0"
    using assms(4) unat_add_no_overflow [of 1000 n] by (auto simp: word_less_nat_alt unat_eq_0 [symmetric] simp del: unat_eq_0)
  then have pos: "Ticks (1000 + n) \<noteq> ossl_time_zero"
    by (simp add: ossl_time_zero_def ossl_ticks2time_def)
  have cmp: "\<not> 0 < ossl_time_compare (time_of_last_ack_eliciting_pkt a QUIC_PN_SPACE_INITIAL) (Ticks (1000 + n))"
    using assms(7) by (simp add: not_less ossl_time_simps)
  have tl: "time_of_last_ack_eliciting_pkt (ackm_set_loss_detection_timer now b) = time_of_last_ack_eliciting_pkt b" for now and b :: "newreno ackm"
    using timer_eq [of now b] by auto
  have sent: "bytes_in_flight (fst (newreno_on_data_sent cc k)) = bytes_in_flight cc + k" for cc k
    by (simp add: newreno_on_data_sent_def)
  obtain a' where a': "?r = Inr (a', True)" "discarded a' = (\<lambda>_. False)"
    "bytes_in_flight (cc_data a') = bytes_in_flight (cc_data a) + 1200"
    "tx_history a' QUIC_PN_SPACE_INITIAL
        = \<lparr>tx_packets = ps @ [demo_pkt n], tx_map = Some (m(n \<mapsto> demo_pkt n)), tx_watermark = n + 1, tx_highest_sent = n\<rparr>"
    "time_of_last_ack_eliciting_pkt a' QUIC_PN_SPACE_INITIAL = Ticks (1000 + n)"
    using assms(2,5,6) pos cmp unfolding ossl_ackm_on_tx_packet_def Let_def
    by (simp add: ossl_time_simps tx_pkt_history_add_def tx_pkt_history_add_actual_def tx_pkt_history_by_pkt_num_def
        timer_fields tl sent ossl_cc_newreno_method_def demo_pkt_def)
  have "unat (bytes_in_flight (cc_data a) + 1200) = unat (bytes_in_flight (cc_data a)) + 1200"
    using assms(3) by (subst unat_add_no_overflow) simp_all
  moreover have "ackm_run a' (tr @ [Sent (demo_pkt n)])"
    using run_tx [OF assms(1) _ _ _ _ a'(1)] assms(2-4) less_trans [OF assms(4), of "2 ^ 62"] by (simp add: demo_pkt_def)
  ultimately show ?thesis
    using a' by auto
qed

lemma demo_sent:
  "\<exists>a. ackm_run a [Sent (demo_pkt 0), Sent (demo_pkt 1)] \<and> discarded a = (\<lambda>_. False)
    \<and> tx_packets (tx_history a QUIC_PN_SPACE_INITIAL) = [demo_pkt 0, demo_pkt 1]"
proof -
  obtain a where a: "ackm_run a []" "discarded a = (\<lambda>_. False)" "bytes_in_flight (cc_data a) = 0"
    "tx_history a QUIC_PN_SPACE_INITIAL = \<lparr>tx_packets = [], tx_map = Some Map.empty, tx_watermark = 0, tx_highest_sent = 0\<rparr>"
    "time_of_last_ack_eliciting_pkt a QUIC_PN_SPACE_INITIAL = Ticks 0"
    using demo_new by blast
  obtain a1 where a1: "ackm_run a1 [Sent (demo_pkt 0)]" "discarded a1 = (\<lambda>_. False)" "unat (bytes_in_flight (cc_data a1)) = 1200"
    "tx_history a1 QUIC_PN_SPACE_INITIAL = \<lparr>tx_packets = [demo_pkt 0], tx_map = Some [0 \<mapsto> demo_pkt 0], tx_watermark = 1, tx_highest_sent = 0\<rparr>"
    "time_of_last_ack_eliciting_pkt a1 QUIC_PN_SPACE_INITIAL = Ticks 1000"
    using demo_tx [OF a(1,2) _ _ a(4)] a(3,5) by (auto simp: less_eq_ossl_time_def)
  show ?thesis
    using demo_tx [OF a1(1,2) _ _ a1(4)] a1(3,5) by (auto simp: less_eq_ossl_time_def)
qed

lemma demo_acked:
  "\<exists>a. ackm_run a [Sent (demo_pkt 0), Sent (demo_pkt 1), Rx_Ack QUIC_PN_SPACE_INITIAL demo_ack] \<and> On_Acked (demo_pkt 1) \<in> set (ackm_events a)"
proof -
  obtain a where a: "ackm_run a [Sent (demo_pkt 0), Sent (demo_pkt 1)]" "discarded a = (\<lambda>_. False)"
    "tx_packets (tx_history a QUIC_PN_SPACE_INITIAL) = [demo_pkt 0, demo_pkt 1]"
    using demo_sent by blast
  have wf: "ack_wf demo_ack"
    by (simp add: ack_wf_def demo_ack_def)
  obtain a' where a': "ossl_ackm_on_rx_ack_frame (ossl_cc_newreno_method (Ticks 0)) True (Ticks 0, Ticks 0, Ticks 0) a demo_ack QUIC_PN_SPACE_INITIAL (Ticks 0)
      = Inr (a', True)" "ack_outcome (Ticks 0) a a' (ack_ranges demo_ack) QUIC_PN_SPACE_INITIAL"
    by (rule run_ok_rx_ack [OF run_inv [OF a(1)] _ wf, of QUIC_PN_SPACE_INITIAL "Ticks 0" True "(Ticks 0, Ticks 0, Ticks 0)" "Ticks 0"]) (use a(2) in auto)
  have "acked_by (ack_ranges demo_ack) (demo_pkt 1)"
    by (simp add: acked_by_def demo_ack_def demo_pkt_def range_contains_def)
  with a'(2) a(3) have "On_Acked (demo_pkt 1) \<in> set (pkt_events a')"
    by (auto simp: ack_outcome_def Let_def split: if_splits)
  then have "On_Acked (demo_pkt 1) \<in> set (ackm_events a')"
    by (simp add: pkt_events_def)
  with run_rx_ack [OF a(1) _ wf a'(1)] a(2) show ?thesis
    by auto
qed

lemma demo_got:
  "\<exists>a. ackm_run a [Accepted demo_rx] \<and> discarded a = (\<lambda>_. False)
    \<and> rx_history a QUIC_PN_SPACE_INITIAL = \<lparr>rx_set = [\<lparr>rstart = 1, rend = 1\<rparr>], rx_watermark = 0\<rparr>"
proof -
  obtain a where a: "ackm_run a []" "discarded a = (\<lambda>_. False)" "rx_history a QUIC_PN_SPACE_INITIAL = rx_pkt_history_init"
    using demo_new by blast
  have pr: "ossl_ackm_is_rx_pn_processable a (rp_pkt_num demo_rx) (rp_pkt_space demo_rx)"
    by (simp add: ossl_ackm_is_rx_pn_processable_def a(3) demo_rx_def rx_pkt_history_init_def ossl_uint_set_init_def ossl_uint_set_query_def)
  have add: "rx_pkt_history_add_pn True rx_pkt_history_init 1 = Inr (\<lparr>rx_set = [\<lparr>rstart = 1, rend = 1\<rparr>], rx_watermark = 0\<rparr>, True)"
    by code_simp
  have rx: "rx_ok {} (rx_history a (rp_pkt_space demo_rx))" and pn: "rp_pkt_num demo_rx < 2 ^ 62"
    using rx_ok_init by (simp_all add: demo_rx_def a(3))
  obtain a' where a': "ossl_ackm_on_rx_packet True a demo_rx = Inr (a', True)" "tx_same a a'"
    "rx_history a' QUIC_PN_SPACE_INITIAL = \<lparr>rx_set = [\<lparr>rstart = 1, rend = 1\<rparr>], rx_watermark = 0\<rparr>"
    by (rule rx_packet_spec [OF rx pn, where mem = True]) (use pr add in \<open>simp_all add: demo_rx_def a(3)\<close>)
  with run_rx [OF a(1) _ pn a'(1)] pr a(2) show ?thesis
    by (auto simp: tx_same_def)
qed

lemma demo_reported:
  "\<exists>a ack. ackm_run a [Accepted demo_rx, Gen_Ack QUIC_PN_SPACE_INITIAL ack] \<and> ack_ranges ack = ack_ranges demo_ack"
proof -
  obtain a where a: "ackm_run a [Accepted demo_rx]" "discarded a = (\<lambda>_. False)"
    "rx_history a QUIC_PN_SPACE_INITIAL = \<lparr>rx_set = [\<lparr>rstart = 1, rend = 1\<rparr>], rx_watermark = 0\<rparr>"
    using demo_got by blast
  obtain a' ack where g: "ossl_ackm_get_ack_frame (Ticks 0) a QUIC_PN_SPACE_INITIAL = (a', ack)"
    by (cases "ossl_ackm_get_ack_frame (Ticks 0) a QUIC_PN_SPACE_INITIAL")
  have "ack_ranges ack = ack_ranges demo_ack"
    using get_ack_frame_same(3) [OF g] by (simp add: ackm_fill_rx_ack_ranges_def a(3) demo_ack_def)
  with run_gen_ack [OF a(1) _ g] a(2) show ?thesis
    by auto
qed


section \<open>Properties\<close>

text \<open>
  Property C8. In every run of the ACK manager with NewReno (any order of packets sent and received, ACK frames received and generated,
  timeouts, pseudo-losses and discarded spaces) the 64-bit count \<^verbatim>\<open>bytes_in_flight\<close> is exactly the sum of the sizes of the in-flight
  packets in the three histories, each \<^verbatim>\<open>ack_eliciting_bytes_in_flight[i]\<close> the sum over the ACK-eliciting ones of its space, with no
  wrap-around; and as long as no packet was marked pseudo-lost, NewReno's own count is the manager's.
\<close>

theorem ackm_accounts_bytes_in_flight:
  assumes "ackm_run a tr"
  shows "unat (ackm_bytes_in_flight a) = flight_sum (held a)
    \<and> (\<forall>s. unat (ack_eliciting_bytes_in_flight a s) = eliciting_sum s (held a))
    \<and> ((\<forall>s n. Pseudo_Lost s n \<notin> set tr) \<longrightarrow> bytes_in_flight (cc_data a) = ackm_bytes_in_flight a)"
proof -
  obtain pl where inv: "tx_inv newreno_flight a {#} pl (mset (sent tr))" "(\<forall>s n. Pseudo_Lost s n \<notin> set tr) \<longrightarrow> pl = 0"
    by (rule run_okD [OF run_inv [OF assms]])
  show ?thesis
    using tx_invD(5-7) [OF inv(1)] inv(2) by (auto simp: word_unat_eq_iff)
qed

theorem ackm_accounts_bytes_in_flight_witness:
  "\<exists>a. ackm_run a [Sent (demo_pkt 0), Sent (demo_pkt 1)] \<and> bytes_in_flight (cc_data a) = ackm_bytes_in_flight a
    \<and> unat (ackm_bytes_in_flight a) = flight_sum (held a)"
proof -
  obtain a where a: "ackm_run a [Sent (demo_pkt 0), Sent (demo_pkt 1)]"
    using demo_sent by blast
  from ackm_accounts_bytes_in_flight [OF this] a show ?thesis
    by (intro exI [of _ a]) simp
qed

text \<open>
  Property C5. Every packet the manager accepted for sending is, in every run, either still in the history of its space or has had
  exactly one of its callbacks \<^verbatim>\<open>on_lost\<close>, \<^verbatim>\<open>on_acked\<close> and \<^verbatim>\<open>on_discarded\<close>, exactly once; and the histories and the callbacks hold no other
  packets.
\<close>

theorem ackm_settles_packets_once:
  assumes "ackm_run a tr"
  shows "mset (sent tr) = held a + settled a"
  using run_okD [OF run_inv [OF assms]] by (metis tx_invD(4) add.right_neutral)

theorem ackm_settles_packets_once_witness:
  "\<exists>a :: newreno ackm. On_Acked (demo_pkt 1) \<in> set (ackm_events a) \<and> {#demo_pkt 0, demo_pkt 1#} = held a + settled a"
proof -
  obtain a where a: "ackm_run a [Sent (demo_pkt 0), Sent (demo_pkt 1), Rx_Ack QUIC_PN_SPACE_INITIAL demo_ack]"
    "On_Acked (demo_pkt 1) \<in> set (ackm_events a)"
    using demo_acked by blast
  from ackm_settles_packets_once [OF a(1)] a(2) show ?thesis
    by (intro exI [of _ a]) simp
qed

text \<open>
  Property C3. No false acknowledgement between two ACK managers: if the ranges of every ACK frame that one of them received are those of a frame
  the other generated for that space, then every packet for which \<^verbatim>\<open>on_acked\<close> was called carries a number that the other one accepted in that
  space.
\<close>

theorem ackm_no_false_acks:
  assumes "ackm_run a tr" and "ackm_run b tr'"
    and "\<forall>s ack. Rx_Ack s ack \<in> set tr \<longrightarrow> (\<exists>ack'. Gen_Ack s ack' \<in> set tr' \<and> ack_ranges ack' = ack_ranges ack)"
    and "On_Acked p \<in> set (ackm_events a)"
  shows "\<exists>q \<in> set (accepted tr'). rp_pkt_space q = tp_pkt_space p \<and> rp_pkt_num q = tp_pkt_num p"
proof -
  obtain ack where ack: "Rx_Ack (tp_pkt_space p) ack \<in> set tr" "acked_by (ack_ranges ack) p"
    using run_acked [OF assms(1), of p] assms(4) by (auto simp: acked_pkts_def)
  then obtain ack' where ack': "Gen_Ack (tp_pkt_space p) ack' \<in> set tr'" "acked_by (ack_ranges ack') p"
    using assms(3) by metis
  then have "tp_pkt_num p \<in> accepted_nums tr' (tp_pkt_space p)"
    using run_gen [OF assms(2)] by (auto simp: acked_by_def)
  then show ?thesis
    by (auto simp: accepted_nums_def)
qed

theorem ackm_no_false_acks_witness:
  "\<exists>q \<in> set (accepted [Accepted demo_rx]). rp_pkt_space q = tp_pkt_space (demo_pkt 1) \<and> rp_pkt_num q = tp_pkt_num (demo_pkt 1)"
proof -
  obtain a where a: "ackm_run a [Sent (demo_pkt 0), Sent (demo_pkt 1), Rx_Ack QUIC_PN_SPACE_INITIAL demo_ack]"
    "On_Acked (demo_pkt 1) \<in> set (ackm_events a)"
    using demo_acked by blast
  obtain b ack where b: "ackm_run b [Accepted demo_rx, Gen_Ack QUIC_PN_SPACE_INITIAL ack]" "ack_ranges ack = ack_ranges demo_ack"
    using demo_reported by blast
  from ackm_no_false_acks [OF a(1) b(1) _ a(2)] b(2) show ?thesis
    by simp
qed

text \<open>
  Property C17. No packet number is accepted twice in a space that is not discarded, whatever ranges were trimmed from the set of received
  numbers and however far acknowledged ACK frames moved the watermark: the accepted packets of a run are pairwise distinct in (space,
  number), and an accepted number is no longer processable.
\<close>

theorem ackm_accepts_each_number_once:
  assumes "ackm_run a tr"
  shows "distinct (map (\<lambda>p. (rp_pkt_space p, rp_pkt_num p)) (accepted tr))
    \<and> (\<forall>p \<in> set (accepted tr). discarded a (rp_pkt_space p) \<or> \<not> ossl_ackm_is_rx_pn_processable a (rp_pkt_num p) (rp_pkt_space p))"
proof -
  have ok: "\<forall>s. \<not> discarded a s \<longrightarrow> rx_ok (accepted_nums tr s) (rx_history a s)"
    "distinct (map (\<lambda>p. (rp_pkt_space p, rp_pkt_num p)) (accepted tr))"
    using run_inv [OF assms] by (auto elim: run_okD)
  have "\<not> ossl_ackm_is_rx_pn_processable a (rp_pkt_num p) (rp_pkt_space p)" if "p \<in> set (accepted tr)" "\<not> discarded a (rp_pkt_space p)" for p
    using processable_iff [of "accepted_nums tr (rp_pkt_space p)" a "rp_pkt_space p" "rp_pkt_num p"] ok(1) that by (auto simp: accepted_nums_def)
  with ok(2) show ?thesis
    by blast
qed

theorem ackm_accepts_each_number_once_witness:
  "\<exists>a. ackm_run a [Accepted demo_rx] \<and> \<not> ossl_ackm_is_rx_pn_processable a 1 QUIC_PN_SPACE_INITIAL"
proof -
  obtain a where a: "ackm_run a [Accepted demo_rx]" "discarded a = (\<lambda>_. False)"
    using demo_got by blast
  from ackm_accepts_each_number_once [OF a(1)] a show ?thesis
    by (intro exI [of _ a]) (simp add: demo_rx_def)
qed

text \<open>
  Property C23. The ACK frame generated in any state of a run, for a space that is not discarded, acknowledges only packet numbers that were accepted;
  as long as an accepted number is not below the watermark, its ranges are non-empty, descend and leave gaps as the wire format needs them (what the
  decoder accepts), and the first ends in the largest such number; when there is none, the frame has no range (and is not one the wire format allows).
  It has at most three ranges: the bound of the loop that fills them is the number of packet number spaces, not the 32 ranges the set keeps.
\<close>

theorem ackm_ack_frames_sound:
  assumes "ackm_run a tr" and "\<not> discarded a s"
  shows "(\<forall>r \<in> set (ackm_fill_rx_ack_ranges a s). \<forall>n. range_contains r n \<longrightarrow> n \<in> accepted_nums tr s)
    \<and> length (ackm_fill_rx_ack_ranges a s) \<le> 3
    \<and> ack_ranges (snd (ossl_ackm_get_ack_frame now a s)) = ackm_fill_rx_ack_ranges a s
    \<and> (\<forall>n \<in> accepted_nums tr s. rx_watermark (rx_history a s) \<le> n \<longrightarrow>
        ack_wf (snd (ossl_ackm_get_ack_frame now a s))
        \<and> n \<le> ar_end (hd (ack_ranges (snd (ossl_ackm_get_ack_frame now a s))))
        \<and> ar_end (hd (ack_ranges (snd (ossl_ackm_get_ack_frame now a s)))) \<in> accepted_nums tr s)
    \<and> ((\<forall>n \<in> accepted_nums tr s. n < rx_watermark (rx_history a s)) \<longrightarrow> ackm_fill_rx_ack_ranges a s = [])"
proof -
  have ok: "rx_ok (accepted_nums tr s) (rx_history a s)"
    using run_inv [OF assms(1)] assms(2) by (auto elim: run_okD)
  have rs: "ack_ranges (snd (ossl_ackm_get_ack_frame now a s)) = ackm_fill_rx_ack_ranges a s"
    by (simp add: ossl_ackm_get_ack_frame_def Let_def)
  have "ack_wf (snd (ossl_ackm_get_ack_frame now a s)) \<and> n \<le> ar_end (hd (ackm_fill_rx_ack_ranges a s))
      \<and> ar_end (hd (ackm_fill_rx_ack_ranges a s)) \<in> accepted_nums tr s"
    if "n \<in> accepted_nums tr s" "rx_watermark (rx_history a s) \<le> n" for n
    using fill_ranges(3) [OF ok that] by (auto simp: ack_wf_def rs)
  moreover have "ackm_fill_rx_ack_ranges a s = []" if "\<forall>n \<in> accepted_nums tr s. n < rx_watermark (rx_history a s)"
    by (rule fill_ranges_empty [OF ok]) (use that in auto)
  ultimately show ?thesis
    using fill_ranges(1,2) [OF ok] unfolding rs by blast
qed

theorem ackm_ack_frames_sound_witness:
  "\<exists>a. ackm_run a [Accepted demo_rx] \<and> ack_wf (snd (ossl_ackm_get_ack_frame (Ticks 0) a QUIC_PN_SPACE_INITIAL))"
proof -
  obtain a where a: "ackm_run a [Accepted demo_rx]" "discarded a = (\<lambda>_. False)"
    "rx_history a QUIC_PN_SPACE_INITIAL = \<lparr>rx_set = [\<lparr>rstart = 1, rend = 1\<rparr>], rx_watermark = 0\<rparr>"
    using demo_got by blast
  from ackm_ack_frames_sound [OF a(1), of QUIC_PN_SPACE_INITIAL "Ticks 0"] a show ?thesis
    by (intro exI [of _ a]) (simp add: demo_rx_def)
qed

text \<open>
  Property C10. In any state of a run, a well-formed ACK frame for a space that is not discarded is processed without a fault, and its outcome is the reference one: the
  packets acknowledged are exactly those of the history whose number a range of the frame contains, in descending order; if there are any, the packets
  declared lost are exactly the remaining ones not above the largest acknowledged number that were sent at least the loss delay ago or are three or
  more numbers below it; all others stay, and the loss time of the space becomes the earliest time at which one of them is lost. \<^verbatim>\<open>on_lost\<close> is called for the lost
  packets first, then \<^verbatim>\<open>on_acked\<close> for the acknowledged ones.
\<close>

theorem ackm_ack_frame_outcome:
  assumes "ackm_run a tr" and "\<not> discarded a s" and "ack_wf ack"
  shows "\<exists>a'. ossl_ackm_on_rx_ack_frame (ossl_cc_newreno_method cc_now) mem (now_rtt, now_loss, now_timer) a ack s rx_time = Inr (a', True)
    \<and> ack_outcome now_loss a a' (ack_ranges ack) s"
  using run_ok_rx_ack [OF run_inv [OF assms(1)] assms(2,3), of cc_now mem "(now_rtt, now_loss, now_timer)" rx_time]
  by (metis fst_conv snd_conv)

theorem ackm_ack_frame_outcome_witness:
  "\<exists>a a'. ossl_ackm_on_rx_ack_frame (ossl_cc_newreno_method (Ticks 5)) True (Ticks 5, Ticks 5, Ticks 5) a demo_ack QUIC_PN_SPACE_INITIAL (Ticks 5)
      = Inr (a', True)
    \<and> ack_outcome (Ticks 5) a a' [\<lparr>ar_start = 1, ar_end = 1\<rparr>] QUIC_PN_SPACE_INITIAL
    \<and> tx_packets (tx_history a QUIC_PN_SPACE_INITIAL) = [demo_pkt 0, demo_pkt 1]"
proof -
  obtain a where a: "ackm_run a [Sent (demo_pkt 0), Sent (demo_pkt 1)]" "discarded a = (\<lambda>_. False)"
    "tx_packets (tx_history a QUIC_PN_SPACE_INITIAL) = [demo_pkt 0, demo_pkt 1]"
    using demo_sent by blast
  have "ack_wf demo_ack"
    by (simp add: ack_wf_def demo_ack_def)
  from ackm_ack_frame_outcome [OF a(1) _ this, of QUIC_PN_SPACE_INITIAL "Ticks 5" True "Ticks 5" "Ticks 5" "Ticks 5" "Ticks 5"] a
  show ?thesis
    by (auto simp: demo_ack_def)
qed

text \<open>
  Property C24. ACKs are not delayed too long: if an ACK-eliciting packet was accepted and no ACK frame of its space was generated since, then
  from the time it was received plus the maximal delay (the default one, or any larger bound of the delays set) an ACK is desired at every reading
  of the clock.
\<close>

theorem ackm_acks_in_time:
  assumes "ackm_run a tr" and "delay_bound tr D" and "p \<in> unreported tr s"
    and "ossl_time_add (rp_time p) D < ossl_time_infinite" and "ossl_time_add (rp_time p) D \<le> now"
  shows "ossl_ackm_is_ack_desired now a s"
  using run_due [OF assms(1,2)] assms(3) ack_due_desired [OF _ assms(4,5)] by blast

theorem ackm_acks_in_time_witness:
  "\<exists>a. ackm_run a [Accepted demo_rx] \<and> ossl_ackm_is_ack_desired (Ticks 25001500) a QUIC_PN_SPACE_INITIAL"
proof -
  obtain a where a: "ackm_run a [Accepted demo_rx]"
    using demo_got by blast
  have "delay_bound [Accepted demo_rx] DEFAULT_TX_MAX_ACK_DELAY" "demo_rx \<in> unreported ([] @ [Accepted demo_rx]) QUIC_PN_SPACE_INITIAL"
    unfolding unreported_simps by (simp_all add: delay_bound_def demo_rx_def)
  moreover have "ossl_time_add (rp_time demo_rx) DEFAULT_TX_MAX_ACK_DELAY = Ticks 25001500"
    by code_simp
  ultimately show ?thesis
    using ackm_acks_in_time [OF a, of DEFAULT_TX_MAX_ACK_DELAY demo_rx QUIC_PN_SPACE_INITIAL "Ticks 25001500"] a
    by (auto simp: less_ossl_time_def ossl_time_infinite_def ossl_ticks2time_def)
qed

text \<open>
  A congestion signal of the peer never reaches the congestion controller: in any state of a run, what a well-formed ACK frame does is the same whatever
  the controller's \<^verbatim>\<open>on_ecn\<close> method is. \<^verbatim>\<open>ackm_process_ecn\<close> looks the largest acknowledged packet up in the history after the acknowledged
  packets were removed from it, and finds nothing.
\<close>

theorem ackm_ecn_never_reported:
  assumes "ackm_run a tr" and "\<not> discarded a s" and "ack_wf ack"
  shows "ossl_ackm_on_rx_ack_frame ((ossl_cc_newreno_method cc_now)\<lparr>on_ecn := f\<rparr>) mem now a ack s rx_time
    = ossl_ackm_on_rx_ack_frame (ossl_cc_newreno_method cc_now) mem now a ack s rx_time"
proof -
  obtain pl where "tx_inv newreno_flight a {#} pl (mset (sent tr))"
    by (rule run_okD [OF run_inv [OF assms(1)]])
  from tx_invD(1) [OF this assms(2)] show ?thesis
    by (rule ack_frame_ignores_ecn) (rule assms(3))
qed

theorem ackm_ecn_never_reported_witness:
  "\<exists>a. tx_packets (tx_history a QUIC_PN_SPACE_INITIAL) = [demo_pkt 0, demo_pkt 1]
    \<and> ossl_ackm_on_rx_ack_frame ((ossl_cc_newreno_method (Ticks 5))\<lparr>on_ecn := \<lambda>nr t. (newreno_reset nr, False)\<rparr>) True (Ticks 5, Ticks 5, Ticks 5) a
        (demo_ack\<lparr>ecnce := 7\<rparr>) QUIC_PN_SPACE_INITIAL (Ticks 5)
      = ossl_ackm_on_rx_ack_frame (ossl_cc_newreno_method (Ticks 5)) True (Ticks 5, Ticks 5, Ticks 5) a
        (demo_ack\<lparr>ecnce := 7\<rparr>) QUIC_PN_SPACE_INITIAL (Ticks 5)"
proof -
  obtain a where a: "ackm_run a [Sent (demo_pkt 0), Sent (demo_pkt 1)]" "discarded a = (\<lambda>_. False)"
    "tx_packets (tx_history a QUIC_PN_SPACE_INITIAL) = [demo_pkt 0, demo_pkt 1]"
    using demo_sent by blast
  have "ack_wf (demo_ack\<lparr>ecnce := 7\<rparr>)"
    by (simp add: ack_wf_def demo_ack_def)
  from ackm_ecn_never_reported [OF a(1) _ this] a show ?thesis
    by (intro exI [of _ a]) simp
qed

text \<open>
  A loss time of the Initial space alone is overlooked: \<^verbatim>\<open>ackm_get_loss_time_and_space\<close> replaces a time by a zero of a later
  space, as zero compares below it, and so returns zero, the value for "no loss time", for every loss time of the Initial space when the other two spaces
  have none. The loss detection timer is then set as if no packet could be lost by time.
\<close>

theorem ackm_overlooks_initial_loss_time:
  "ackm_get_loss_time_and_space (a\<lparr>loss_time := (\<lambda>_. ossl_time_zero)(QUIC_PN_SPACE_INITIAL := t)\<rparr>) = (ossl_time_zero, QUIC_PN_SPACE_APP)"
proof -
  have cmp: "ossl_time_compare ossl_time_zero t = - 1 \<longleftrightarrow> t \<noteq> ossl_time_zero"
    using time_zero_le [of t] ossl_time_compare_simps(2,4) [of t ossl_time_zero]
    by (auto simp: ossl_time_compare_def less_eq_ossl_time_def ossl_time.expand)
  show ?thesis
    by (simp add: ackm_get_loss_time_and_space_def cmp ossl_time_simps)
qed

text \<open>
  A packet marked pseudo-lost (the channel does it with the first Initial packet after a Retry) leaves the manager's count of bytes in flight, but not NewReno's.
\<close>

theorem ackm_pseudo_lost_bytes_stay:
  assumes "tx_pkt_history_by_pkt_num (tx_history a s) pn = Inr (Some p)" and "tp_pkt_num p = pn" and "tp_is_inflight p"
    and "ossl_ackm_mark_packet_pseudo_lost (ossl_cc_newreno_method cc_now) a s pn = Inr (a', True)"
  shows "bytes_in_flight (cc_data a') = bytes_in_flight (cc_data a) \<and> ackm_bytes_in_flight a' = ackm_bytes_in_flight a - tp_num_bytes p"
proof -
  have fin: "bytes_in_flight (fst (newreno_on_data_lost_finished cc_now cc flags)) = bytes_in_flight cc" for cc flags
    using nra.finished_flight [of cc_now cc flags] by (simp add: ossl_cc_newreno_method_def word_unat_eq_iff)
  show ?thesis
    using assms by (auto simp: ossl_ackm_mark_packet_pseudo_lost_def Let_def res_bind_Inr ackm_on_pkts_lost_def pkt_lost_def flight_out_def
        ackm_event_def ossl_cc_newreno_method_def fin)
qed

text \<open>
  When the hash table has no memory for a packet, the packet is in the list only, and every ACK frame that covers it acknowledges it again: the history stays as it is.
\<close>

theorem tx_history_insertion_failure:
  "tx_pkt_history_add False \<lparr>tx_packets = [], tx_map = Some Map.empty, tx_watermark = 0, tx_highest_sent = 0\<rparr> (demo_pkt 0)
     = Inr (\<lparr>tx_packets = [demo_pkt 0], tx_map = Some Map.empty, tx_watermark = 1, tx_highest_sent = 0\<rparr>, True)
   \<and> newly_acked_walk \<lparr>tx_packets = [demo_pkt 0], tx_map = Some Map.empty, tx_watermark = 1, tx_highest_sent = 0\<rparr> [demo_pkt 0]
       [\<lparr>ar_start = 0, ar_end = 0\<rparr>]
     = Inr (\<lparr>tx_packets = [demo_pkt 0], tx_map = Some Map.empty, tx_watermark = 1, tx_highest_sent = 0\<rparr>, [demo_pkt 0])"
  by (simp add: tx_pkt_history_add_def tx_pkt_history_add_actual_def tx_pkt_history_by_pkt_num_def tx_pkt_history_remove_def
      demo_pkt_def range_contains_def)

end
