(* ===== verification/Cfq.thy ===== *)
theory Cfq
  imports Quic_Prelude "HOL-Library.Multiset"
begin

text \<open>
  \<^verbatim>\<open>ssl/quic/quic_cfq.c\<close>: the control frame queue. Its items (\<^verbatim>\<open>QUIC_CFQ_ITEM_EX\<close>) live in a store under their address, since the packets in flight
  point to them as well; the three lists hold addresses. The buffer of an item is what its pointer points to; the calls of the \<^verbatim>\<open>free_cb\<close>
  callbacks are recorded in order.
\<close>

section \<open>Data\<close>

type_synonym cfq_addr = nat

text \<open>\<open>it_free_cb\<close>: the callback and its argument, as one value.\<close>

record cfq_item =
  it_encoded :: "bytes option"
  it_free_cb :: "nat option"
  it_frame_type :: u64
  it_encoded_len :: u64
  it_priority :: u32
  it_pn_space :: u32
  it_flags :: u32
  it_state :: int

definition QUIC_CFQ_STATE_NEW :: int where "QUIC_CFQ_STATE_NEW = 0"
definition QUIC_CFQ_STATE_TX :: int where "QUIC_CFQ_STATE_TX = 1"
definition QUIC_CFQ_ITEM_FLAG_UNRELIABLE :: u32 where "QUIC_CFQ_ITEM_FLAG_UNRELIABLE = push_bit 0 1"
definition UINT32_MAX :: u32 where "UINT32_MAX = - 1"

type_synonym cfq_store = "cfq_addr \<Rightarrow> cfq_item option"

record quic_cfq =
  cfq_items :: cfq_store
  new_list :: "cfq_addr list"
  tx_list :: "cfq_addr list"
  free_list :: "cfq_addr list"
  cfq_freed :: "(bytes option \<times> u64 \<times> nat) list"

text \<open>Following a pointer to an item.\<close>

definition cfq_at :: "quic_cfq \<Rightarrow> cfq_addr \<Rightarrow> c_fault + cfq_item" where
  "cfq_at q p = (case cfq_items q p of None \<Rightarrow> Inl UseAfterFree | Some it \<Rightarrow> Inr it)"

definition cfq_put :: "quic_cfq \<Rightarrow> cfq_addr \<Rightarrow> cfq_item \<Rightarrow> quic_cfq" where
  "cfq_put q p it = q\<lparr>cfq_items := (cfq_items q)(p \<mapsto> it)\<rparr>"

section \<open>Items\<close>

definition ossl_quic_cfq_item_get_frame_type :: "cfq_item \<Rightarrow> u64" where
  "ossl_quic_cfq_item_get_frame_type it = it_frame_type it"

definition ossl_quic_cfq_item_get_encoded :: "cfq_item \<Rightarrow> bytes option" where
  "ossl_quic_cfq_item_get_encoded it = it_encoded it"

definition ossl_quic_cfq_item_get_encoded_len :: "cfq_item \<Rightarrow> u64" where
  "ossl_quic_cfq_item_get_encoded_len it = it_encoded_len it"

definition ossl_quic_cfq_item_get_state :: "cfq_item \<Rightarrow> int" where
  "ossl_quic_cfq_item_get_state it = it_state it"

definition ossl_quic_cfq_item_get_pn_space :: "cfq_item \<Rightarrow> u32" where
  "ossl_quic_cfq_item_get_pn_space it = it_pn_space it"

definition ossl_quic_cfq_item_is_unreliable :: "cfq_item \<Rightarrow> bool" where
  "ossl_quic_cfq_item_is_unreliable it \<longleftrightarrow> it_flags it AND QUIC_CFQ_ITEM_FLAG_UNRELIABLE \<noteq> 0"

definition cfq_compare :: "cfq_item \<Rightarrow> cfq_item \<Rightarrow> int" where
  "cfq_compare a b =
     (if it_pn_space a < it_pn_space b then - 1
      else if it_pn_space a > it_pn_space b then 1
      else if it_priority a > it_priority b then - 1
      else if it_priority a < it_priority b then 1
      else 0)"

section \<open>Lists\<close>

definition cfq_list_remove :: "cfq_addr list \<Rightarrow> cfq_addr \<Rightarrow> cfq_addr list" where
  "cfq_list_remove l n = remove1 n l"

definition cfq_list_insert_head :: "cfq_addr list \<Rightarrow> cfq_addr \<Rightarrow> cfq_addr list" where
  "cfq_list_insert_head l n = n # l"

definition cfq_list_insert_tail :: "cfq_addr list \<Rightarrow> cfq_addr \<Rightarrow> cfq_addr list" where
  "cfq_list_insert_tail l n = l @ [n]"

fun cfq_list_insert_after :: "cfq_addr list \<Rightarrow> cfq_addr \<Rightarrow> cfq_addr \<Rightarrow> cfq_addr list" where
  "cfq_list_insert_after [] ref n = []"
| "cfq_list_insert_after (p # ps) ref n = (if p = ref then p # n # ps else p # cfq_list_insert_after ps ref n)"

text \<open>The walk to the first item that does not come before \<open>n\<close>; \<open>pprev\<close> trails it. The result is (\<open>p\<close>, \<open>pprev\<close>).\<close>

fun cfq_sorted_walk ::
    "quic_cfq \<Rightarrow> cfq_item \<Rightarrow> cfq_addr list \<Rightarrow> cfq_addr option \<Rightarrow> c_fault + (cfq_addr option \<times> cfq_addr option)" where
  "cfq_sorted_walk q n [] pprev = Inr (None, pprev)"
| "cfq_sorted_walk q n (p # ps) pprev =
     res_bind (cfq_at q p) (\<lambda>it.
       if cfq_compare it n < 0 then cfq_sorted_walk q n ps (Some p) else Inr (Some p, pprev))"

definition cfq_list_insert_sorted :: "quic_cfq \<Rightarrow> cfq_addr list \<Rightarrow> cfq_addr \<Rightarrow> c_fault + cfq_addr list" where
  "cfq_list_insert_sorted q l n =
     res_bind (cfq_at q n) (\<lambda>it.
       if l = [] then Inr [n]
       else res_bind (cfq_sorted_walk q it l None) (\<lambda>(p, pprev).
         Inr (case (p, pprev) of
             (None, _) \<Rightarrow> cfq_list_insert_tail l n
           | (Some _, None) \<Rightarrow> cfq_list_insert_head l n
           | (Some _, Some r) \<Rightarrow> cfq_list_insert_after l r n)))"

section \<open>The queue\<close>

definition ossl_quic_cfq_new :: "bool \<Rightarrow> quic_cfq option" where
  "ossl_quic_cfq_new mem =
     (if mem then Some \<lparr>cfq_items = Map.empty, new_list = [], tx_list = [], free_list = [], cfq_freed = []\<rparr> else None)"

definition clear_item :: "quic_cfq \<Rightarrow> cfq_addr \<Rightarrow> c_fault + quic_cfq" where
  "clear_item q p =
     res_bind (cfq_at q p) (\<lambda>it.
       case it_free_cb it of
         Some cb \<Rightarrow> Inr (cfq_put (q\<lparr>cfq_freed := cfq_freed q @ [(it_encoded it, it_encoded_len it, cb)]\<rparr>) p
                       (it\<lparr>it_free_cb := None, it_encoded := None, it_encoded_len := 0, it_state := - 1\<rparr>))
       | None \<Rightarrow> Inr (cfq_put q p (it\<lparr>it_state := - 1\<rparr>)))"

fun free_list_items :: "quic_cfq \<Rightarrow> cfq_addr list \<Rightarrow> c_fault + quic_cfq" where
  "free_list_items q [] = Inr q"
| "free_list_items q (p # pnexts) =
     res_bind (clear_item q p) (\<lambda>q. free_list_items (q\<lparr>cfq_items := (cfq_items q)(p := None)\<rparr>) pnexts)"

definition ossl_quic_cfq_free :: "quic_cfq \<Rightarrow> c_fault + quic_cfq" where
  "ossl_quic_cfq_free q =
     res_bind (free_list_items q (new_list q)) (\<lambda>q.
     res_bind (free_list_items q (tx_list q)) (\<lambda>q.
     free_list_items q (free_list q)))"

text \<open>\<open>alloc\<close>: what \<^verbatim>\<open>OPENSSL_zalloc\<close> returns if it is called.\<close>

definition cfq_get_free :: "cfq_addr option \<Rightarrow> quic_cfq \<Rightarrow> quic_cfq \<times> cfq_addr option" where
  "cfq_get_free alloc q =
     (case free_list q of
        item # _ \<Rightarrow> (q, Some item)
      | [] \<Rightarrow>
          (case alloc of
             None \<Rightarrow> (q, None)
           | Some item \<Rightarrow>
               let q = cfq_put q item \<lparr>it_encoded = None, it_free_cb = None, it_frame_type = 0, it_encoded_len = 0, it_priority = 0,
                                       it_pn_space = 0, it_flags = 0, it_state = - 1\<rparr>
               in (q\<lparr>free_list := cfq_list_insert_tail (free_list q) item\<rparr>, Some item)))"

definition ossl_quic_cfq_add_frame ::
    "cfq_addr option \<Rightarrow> quic_cfq \<Rightarrow> u32 \<Rightarrow> u32 \<Rightarrow> u64 \<Rightarrow> u32 \<Rightarrow> bytes option \<Rightarrow> u64 \<Rightarrow> nat option
     \<Rightarrow> c_fault + (quic_cfq \<times> cfq_addr option)" where
  "ossl_quic_cfq_add_frame alloc q priority pn_space frame_type flags encoded encoded_len free_cb =
     (case cfq_get_free alloc q of
        (q, None) \<Rightarrow> Inr (q, None)
      | (q, Some item) \<Rightarrow>
          res_bind (cfq_at q item) (\<lambda>it.
          let q = cfq_put q item (it\<lparr>it_priority := priority, it_frame_type := frame_type, it_pn_space := pn_space, it_encoded := encoded,
                    it_encoded_len := encoded_len, it_free_cb := free_cb, it_state := QUIC_CFQ_STATE_NEW, it_flags := flags\<rparr>);
              q = q\<lparr>free_list := cfq_list_remove (free_list q) item\<rparr>
          in res_bind (cfq_list_insert_sorted q (new_list q) item) (\<lambda>l. Inr (q\<lparr>new_list := l\<rparr>, Some item))))"

definition ossl_quic_cfq_mark_tx :: "quic_cfq \<Rightarrow> cfq_addr \<Rightarrow> c_fault + quic_cfq" where
  "ossl_quic_cfq_mark_tx q item =
     res_bind (cfq_at q item) (\<lambda>ex.
       if it_state ex = QUIC_CFQ_STATE_NEW then
         Inr (cfq_put (q\<lparr>new_list := cfq_list_remove (new_list q) item, tx_list := cfq_list_insert_tail (tx_list q) item\<rparr>) item
               (ex\<lparr>it_state := QUIC_CFQ_STATE_TX\<rparr>))
       else Inr q)"

definition ossl_quic_cfq_release :: "quic_cfq \<Rightarrow> cfq_addr \<Rightarrow> c_fault + quic_cfq" where
  "ossl_quic_cfq_release q item =
     res_bind (cfq_at q item) (\<lambda>ex.
       if it_state ex = QUIC_CFQ_STATE_NEW then
         clear_item (q\<lparr>new_list := cfq_list_remove (new_list q) item, free_list := cfq_list_insert_tail (free_list q) item\<rparr>) item
       else if it_state ex = QUIC_CFQ_STATE_TX then
         clear_item (q\<lparr>tx_list := cfq_list_remove (tx_list q) item, free_list := cfq_list_insert_tail (free_list q) item\<rparr>) item
       else Inr q)"

definition ossl_quic_cfq_mark_lost :: "quic_cfq \<Rightarrow> cfq_addr \<Rightarrow> u32 \<Rightarrow> c_fault + quic_cfq" where
  "ossl_quic_cfq_mark_lost q item priority =
     res_bind (cfq_at q item) (\<lambda>ex.
       if ossl_quic_cfq_item_is_unreliable ex then ossl_quic_cfq_release q item
       else if it_state ex = QUIC_CFQ_STATE_NEW then
         (if priority \<noteq> UINT32_MAX \<and> priority \<noteq> it_priority ex then
            let q = cfq_put (q\<lparr>new_list := cfq_list_remove (new_list q) item\<rparr>) item (ex\<lparr>it_priority := priority\<rparr>)
            in res_bind (cfq_list_insert_sorted q (new_list q) item) (\<lambda>l. Inr (q\<lparr>new_list := l\<rparr>))
          else Inr q)
       else if it_state ex = QUIC_CFQ_STATE_TX then
         let ex = (if priority \<noteq> UINT32_MAX then ex\<lparr>it_priority := priority\<rparr> else ex);
             q = cfq_put (q\<lparr>tx_list := cfq_list_remove (tx_list q) item\<rparr>) item ex
         in res_bind (cfq_list_insert_sorted q (new_list q) item) (\<lambda>l.
              Inr (cfq_put (q\<lparr>new_list := l\<rparr>) item (ex\<lparr>it_state := QUIC_CFQ_STATE_NEW\<rparr>)))
       else Inr q)"

text \<open>The walk along \<^verbatim>\<open>next\<close> to the first item of the space.\<close>

fun cfq_find_space :: "quic_cfq \<Rightarrow> u32 \<Rightarrow> cfq_addr list \<Rightarrow> c_fault + cfq_addr option" where
  "cfq_find_space q pn_space [] = Inr None"
| "cfq_find_space q pn_space (p # ps) =
     res_bind (cfq_at q p) (\<lambda>it. if it_pn_space it \<noteq> pn_space then cfq_find_space q pn_space ps else Inr (Some p))"

definition ossl_quic_cfq_get_priority_head :: "quic_cfq \<Rightarrow> u32 \<Rightarrow> c_fault + cfq_addr option" where
  "ossl_quic_cfq_get_priority_head q pn_space = cfq_find_space q pn_space (new_list q)"

text \<open>What follows an item: it is in the list of its state.\<close>

definition cfq_nexts :: "quic_cfq \<Rightarrow> cfq_addr \<Rightarrow> cfq_item \<Rightarrow> cfq_addr list" where
  "cfq_nexts q item ex =
     tl (dropWhile (\<lambda>p. p \<noteq> item)
       (if it_state ex = QUIC_CFQ_STATE_NEW then new_list q else if it_state ex = QUIC_CFQ_STATE_TX then tx_list q else free_list q))"

definition ossl_quic_cfq_item_get_priority_next :: "quic_cfq \<Rightarrow> cfq_addr option \<Rightarrow> u32 \<Rightarrow> c_fault + cfq_addr option" where
  "ossl_quic_cfq_item_get_priority_next q item pn_space =
     (case item of
        None \<Rightarrow> Inr None
      | Some p \<Rightarrow> res_bind (cfq_at q p) (\<lambda>ex. cfq_find_space q pn_space (cfq_nexts q p ex)))"


section \<open>The order of the queue\<close>

definition cfq_le :: "cfq_item \<Rightarrow> cfq_item \<Rightarrow> bool" where
  "cfq_le a b \<longleftrightarrow> it_pn_space a < it_pn_space b \<or> it_pn_space a = it_pn_space b \<and> it_priority b \<le> it_priority a"

lemma cfq_compare_iff: "cfq_compare a b < 0 \<longleftrightarrow> \<not> cfq_le b a"
  by (auto simp: cfq_compare_def cfq_le_def)

lemma cfq_le_trans: "cfq_le a b \<Longrightarrow> cfq_le b c \<Longrightarrow> cfq_le a c"
  by (auto simp: cfq_le_def)

lemma cfq_le_total: "cfq_le a b \<or> cfq_le b a"
  by (auto simp: cfq_le_def)

abbreviation it_of :: "quic_cfq \<Rightarrow> cfq_addr \<Rightarrow> cfq_item" where
  "it_of q p \<equiv> the (cfq_items q p)"

lemma cfq_at_dom: "p \<in> dom (cfq_items q) \<Longrightarrow> cfq_at q p = Inr (it_of q p)"
  by (auto simp: cfq_at_def)

abbreviation cfq_goes_first :: "quic_cfq \<Rightarrow> cfq_addr \<Rightarrow> cfq_addr \<Rightarrow> bool" where
  "cfq_goes_first q n p \<equiv> \<not> cfq_le (it_of q n) (it_of q p)"

lemma sorted_walk_spec:
  "set l \<subseteq> dom (cfq_items q) \<Longrightarrow> cfq_sorted_walk q it l pprev
    = Inr (case dropWhile (\<lambda>p. \<not> cfq_le it (it_of q p)) l of [] \<Rightarrow> None | p # _ \<Rightarrow> Some p,
           if takeWhile (\<lambda>p. \<not> cfq_le it (it_of q p)) l = [] then pprev else Some (last (takeWhile (\<lambda>p. \<not> cfq_le it (it_of q p)) l)))"
  by (induction l arbitrary: pprev) (auto simp: cfq_at_dom cfq_compare_iff)

lemma insert_after_spec: "r \<notin> set a \<Longrightarrow> cfq_list_insert_after (a @ r # b) r n = a @ r # n # b"
  by (induction a) auto

lemma insert_sorted_spec:
  assumes "set l \<subseteq> dom (cfq_items q)" and "n \<in> dom (cfq_items q)" and "distinct l"
  shows "cfq_list_insert_sorted q l n = Inr (takeWhile (cfq_goes_first q n) l @ n # dropWhile (cfq_goes_first q n) l)"
proof -
  let ?t = "takeWhile (cfq_goes_first q n) l" and ?d = "dropWhile (cfq_goes_first q n) l"
  have l: "l = ?t @ ?d"
    by simp
  show ?thesis
  proof (cases "?d = []")
    case True
    then have "l = ?t"
      by (metis append_Nil2 takeWhile_dropWhile_id)
    then show ?thesis
      by (cases "l = []") (simp_all add: True cfq_list_insert_sorted_def cfq_at_dom assms(2) sorted_walk_spec [OF assms(1)] cfq_list_insert_tail_def)
  next
    case d: False
    then obtain p ps where p: "?d = p # ps"
      by (cases ?d) auto
    show ?thesis
    proof (cases "?t = []")
      case True
      then have "l = p # ps"
        using p by (metis append_Nil takeWhile_dropWhile_id)
      then have "l \<noteq> []" "cfq_list_insert_head l n = n # p # ps"
        by (simp_all add: cfq_list_insert_head_def)
      then show ?thesis
        by (simp add: True p cfq_list_insert_sorted_def cfq_at_dom assms(2) sorted_walk_spec [OF assms(1)])
    next
      case False
      note parts = append_butlast_last_id [OF False]
      have "distinct (butlast ?t @ [last ?t] @ ?d)"
        using assms(3) parts l by (metis append_assoc)
      then have "cfq_list_insert_after (butlast ?t @ last ?t # ?d) (last ?t) n = butlast ?t @ last ?t # n # ?d"
        by (intro insert_after_spec) auto
      then have "cfq_list_insert_after l (last ?t) n = ?t @ n # ?d"
        using parts l by (metis append.assoc append_Cons append_Nil)
      with False p show ?thesis
        by (auto simp: cfq_list_insert_sorted_def cfq_at_dom assms(2) sorted_walk_spec [OF assms(1)])
    qed
  qed
qed

lemma set_split_insert: "set (takeWhile P l @ n # dropWhile P l) = insert n (set l)"
proof -
  have "set l = set (takeWhile P l) \<union> set (dropWhile P l)"
    by (metis set_append takeWhile_dropWhile_id)
  then show ?thesis
    by simp
qed

lemma insert_sorted_sorted:
  assumes "sorted_wrt (\<lambda>a b. cfq_le (it_of q a) (it_of q b)) l"
  shows "sorted_wrt (\<lambda>a b. cfq_le (it_of q a) (it_of q b)) (takeWhile (cfq_goes_first q n) l @ n # dropWhile (cfq_goes_first q n) l)"
  using assms
proof (induction l)
  case (Cons p ps)
  show ?case
  proof (cases "cfq_goes_first q n p")
    case True
    then have "cfq_le (it_of q p) (it_of q n)"
      using cfq_le_total by blast
    with Cons True show ?thesis
      by (auto dest: set_takeWhileD set_dropWhileD)
  next
    case False
    with Cons.prems show ?thesis
      by (auto intro: cfq_le_trans)
  qed
qed simp

section \<open>The invariant\<close>

text \<open>
  The invariants \<^verbatim>\<open>quic_cfq.c\<close> states (an item is in exactly one list, the one its state names), the order of the list of new items, and that
  free items hold no callback.
\<close>

definition cfq_ok :: "quic_cfq \<Rightarrow> bool" where
  "cfq_ok q \<longleftrightarrow> distinct (new_list q @ tx_list q @ free_list q) \<and> set (new_list q @ tx_list q @ free_list q) = dom (cfq_items q)
     \<and> (\<forall>p \<in> set (new_list q). it_state (it_of q p) = QUIC_CFQ_STATE_NEW) \<and> (\<forall>p \<in> set (tx_list q). it_state (it_of q p) = QUIC_CFQ_STATE_TX)
     \<and> (\<forall>p \<in> set (free_list q). it_state (it_of q p) = - 1 \<and> it_free_cb (it_of q p) = None)
     \<and> sorted_wrt (\<lambda>a b. cfq_le (it_of q a) (it_of q b)) (new_list q)"

lemma cfq_okD:
  assumes "cfq_ok q"
  shows "distinct (new_list q)" "distinct (tx_list q)" "distinct (free_list q)"
    "set (new_list q) \<inter> set (tx_list q) = {}" "set (new_list q) \<inter> set (free_list q) = {}" "set (tx_list q) \<inter> set (free_list q) = {}"
    "dom (cfq_items q) = set (new_list q) \<union> set (tx_list q) \<union> set (free_list q)"
    "p \<in> set (new_list q) \<Longrightarrow> it_state (it_of q p) = QUIC_CFQ_STATE_NEW" "p \<in> set (tx_list q) \<Longrightarrow> it_state (it_of q p) = QUIC_CFQ_STATE_TX"
    "p \<in> set (free_list q) \<Longrightarrow> it_state (it_of q p) = - 1" "p \<in> set (free_list q) \<Longrightarrow> it_free_cb (it_of q p) = None"
    "sorted_wrt (\<lambda>a b. cfq_le (it_of q a) (it_of q b)) (new_list q)"
  using assms by (auto simp: cfq_ok_def)

lemmas cfq_states = QUIC_CFQ_STATE_NEW_def QUIC_CFQ_STATE_TX_def

text \<open>The items that stand for frames.\<close>

definition cfq_view :: "quic_cfq \<Rightarrow> cfq_addr \<Rightarrow> cfq_item option" where
  "cfq_view q p = (case cfq_items q p of Some it \<Rightarrow> if it_state it = - 1 then None else Some it | None \<Rightarrow> None)"

lemma cfq_view_dom: "cfq_ok q \<Longrightarrow> dom (cfq_view q) = set (new_list q) \<union> set (tx_list q)"
proof -
  assume ok: "cfq_ok q"
  note I = cfq_okD [OF ok]
  have "p \<in> dom (cfq_view q) \<longleftrightarrow> p \<in> dom (cfq_items q) \<and> it_state (it_of q p) \<noteq> - 1" for p
    by (auto simp: cfq_view_def split: option.splits)
  note iff = this [unfolded I(7)]
  show ?thesis
  proof (rule set_eqI)
    fix p
    show "p \<in> dom (cfq_view q) \<longleftrightarrow> p \<in> set (new_list q) \<union> set (tx_list q)"
      unfolding iff using I(5,6) I(8) [of p] I(9) [of p] I(10) [of p] by (auto simp: cfq_states simp del: domIff)
  qed
qed

lemma cfq_view_cases:
  assumes ok: "cfq_ok q" and p: "cfq_view q p = Some it"
  shows "cfq_items q p = Some it" and "p \<in> set (new_list q) \<and> it_state it = QUIC_CFQ_STATE_NEW \<or> p \<in> set (tx_list q) \<and> it_state it = QUIC_CFQ_STATE_TX"
proof -
  show items: "cfq_items q p = Some it"
    using p by (auto simp: cfq_view_def split: option.splits if_splits)
  have "p \<in> set (new_list q) \<union> set (tx_list q)"
    using cfq_view_dom [OF ok] p by blast
  then show "p \<in> set (new_list q) \<and> it_state it = QUIC_CFQ_STATE_NEW \<or> p \<in> set (tx_list q) \<and> it_state it = QUIC_CFQ_STATE_TX"
    using cfq_okD(8,9) [OF ok, of p] items by auto
qed

lemma cfq_view_put: "it_state it \<noteq> - 1 \<Longrightarrow> cfq_view (cfq_put q p it) = (cfq_view q)(p \<mapsto> it)"
  by (auto simp: cfq_view_def cfq_put_def fun_eq_iff)

lemma cfq_view_clear: "it_state it = - 1 \<Longrightarrow> cfq_view (cfq_put q p it) = (cfq_view q)(p := None)"
  by (auto simp: cfq_view_def cfq_put_def fun_eq_iff)

lemma cfq_view_lists [simp]:
  "cfq_view (q\<lparr>new_list := n\<rparr>) = cfq_view q" "cfq_view (q\<lparr>tx_list := t\<rparr>) = cfq_view q" "cfq_view (q\<lparr>free_list := f\<rparr>) = cfq_view q"
  "cfq_view (q\<lparr>cfq_freed := l\<rparr>) = cfq_view q"
  by (auto simp: cfq_view_def)

text \<open>An item moves to the list of new items.\<close>

lemma cfq_enqueue:
  assumes ok: "cfq_ok q" and p: "p \<in> dom (cfq_items q)" and it: "it_state it = QUIC_CFQ_STATE_NEW"
    and q1: "cfq_items q1 = (cfq_items q)(p \<mapsto> it')" "it_priority it' = it_priority it" "it_pn_space it' = it_pn_space it"
    and n1: "new_list q1 = remove1 p (new_list q)" 
  obtains l where "cfq_list_insert_sorted q1 (new_list q1) p = Inr l"
    "cfq_ok (q\<lparr>cfq_items := (cfq_items q)(p \<mapsto> it), new_list := l, tx_list := remove1 p (tx_list q), free_list := remove1 p (free_list q),
       cfq_freed := fr\<rparr>)"
proof -
  note I = cfq_okD [OF ok]
  define l where "l = takeWhile (cfq_goes_first q1 p) (new_list q1) @ p # dropWhile (cfq_goes_first q1 p) (new_list q1)"
  let ?q = "q\<lparr>cfq_items := (cfq_items q)(p \<mapsto> it), new_list := l, tx_list := remove1 p (tx_list q), free_list := remove1 p (free_list q),
       cfq_freed := fr\<rparr>"
  have sub: "set (new_list q1) \<subseteq> dom (cfq_items q1)" "p \<in> dom (cfq_items q1)" "distinct (new_list q1)"
    using I(1,7) by (auto simp: q1 n1 dest: notin_set_remove1)
  have set: "set l = insert p (set (new_list q))"
    unfolding l_def set_split_insert n1 using I(1) by auto
  have dist: "distinct l"
  proof -
    have "mset l = add_mset p (mset (new_list q1))"
      unfolding l_def by (metis add_mset_add_single mset.simps(2) mset_append takeWhile_dropWhile_id union_mset_add_mset_right)
    moreover have "p \<notin> set (new_list q1)"
      using I(1) by (simp add: n1)
    ultimately show ?thesis
      using sub(3) by (metis distinct.simps(2) mset.simps(2) mset_eq_imp_distinct_iff)
  qed
  have le: "cfq_le (it_of q1 a) (it_of q1 b) = cfq_le (it_of ?q a) (it_of ?q b)" for a b
    by (simp add: q1 cfq_le_def)
  have sorted1: "sorted_wrt (\<lambda>a b. cfq_le (it_of q1 a) (it_of q1 b)) (new_list q1)"
  proof (rule sorted_wrt_mono_rel [of _ "\<lambda>a b. cfq_le (it_of q a) (it_of q b)"])
    show "sorted_wrt (\<lambda>a b. cfq_le (it_of q a) (it_of q b)) (new_list q1)"
      unfolding n1 using I(1,12) by (simp add: distinct_remove1_removeAll removeAll_filter_not_eq sorted_wrt_filter)
    show "cfq_le (it_of q1 a) (it_of q1 b)" if "a \<in> set (new_list q1)" "b \<in> set (new_list q1)" "cfq_le (it_of q a) (it_of q b)" for a b
      using that I(1) by (auto simp: q1 n1)
  qed
  have "sorted_wrt (\<lambda>a b. cfq_le (it_of q1 a) (it_of q1 b)) l"
    unfolding l_def by (rule insert_sorted_sorted [OF sorted1])
  then have sorted: "sorted_wrt (\<lambda>a b. cfq_le (it_of ?q a) (it_of ?q b)) l"
    unfolding le .
  have "cfq_ok ?q"
    unfolding cfq_ok_def
  proof (intro conjI)
    show "distinct (new_list ?q @ tx_list ?q @ free_list ?q)"
      using dist set I(1-6) by auto
    show "set (new_list ?q @ tx_list ?q @ free_list ?q) = dom (cfq_items ?q)"
      using set I(1-7) p by (auto simp: insert_absorb)
    show "sorted_wrt (\<lambda>a b. cfq_le (it_of ?q a) (it_of ?q b)) (new_list ?q)"
      using sorted by simp
  qed (use set it I(1-11) in auto)
  with insert_sorted_spec [OF sub, folded l_def] show ?thesis
    by (rule that)
qed


section \<open>The operations on the view\<close>

definition callback_of :: "cfq_item \<Rightarrow> (bytes option \<times> u64 \<times> nat) list" where
  "callback_of it = (case it_free_cb it of None \<Rightarrow> [] | Some cb \<Rightarrow> [(it_encoded it, it_encoded_len it, cb)])"

lemma mark_tx_spec:
  assumes ok: "cfq_ok q" and p: "cfq_view q p = Some it"
  obtains q' where "ossl_quic_cfq_mark_tx q p = Inr q'" "cfq_ok q'" "cfq_view q' = (cfq_view q)(p \<mapsto> it\<lparr>it_state := QUIC_CFQ_STATE_TX\<rparr>)"
    "cfq_freed q' = cfq_freed q" "dom (cfq_items q') = dom (cfq_items q)"
proof -
  note I = cfq_okD [OF ok]
  note C = cfq_view_cases [OF ok p]
  show ?thesis
  proof (cases "it_state it = QUIC_CFQ_STATE_NEW")
    case True
    then have new: "p \<in> set (new_list q)"
      using C(2) by (auto simp: cfq_states)
    let ?it = "it\<lparr>it_state := QUIC_CFQ_STATE_TX\<rparr>"
    let ?q = "cfq_put (q\<lparr>new_list := remove1 p (new_list q), tx_list := tx_list q @ [p]\<rparr>) p ?it"
    have "ossl_quic_cfq_mark_tx q p = Inr ?q"
      using True C(1) by (simp add: ossl_quic_cfq_mark_tx_def cfq_at_def cfq_list_remove_def cfq_list_insert_tail_def)
    moreover have "cfq_ok ?q"
      unfolding cfq_ok_def
    proof (intro conjI)
      show "distinct (new_list ?q @ tx_list ?q @ free_list ?q)" "set (new_list ?q @ tx_list ?q @ free_list ?q) = dom (cfq_items ?q)"
        using I(1-7) new by (auto simp: cfq_put_def)
      have "sorted_wrt (\<lambda>a b. cfq_le (it_of q a) (it_of q b)) (remove1 p (new_list q))"
        using I(1,12) by (simp add: distinct_remove1_removeAll removeAll_filter_not_eq sorted_wrt_filter)
      then show "sorted_wrt (\<lambda>a b. cfq_le (it_of ?q a) (it_of ?q b)) (new_list ?q)"
        using I(1) by (auto simp: cfq_put_def elim!: sorted_wrt_mono_rel [rotated])
    qed (use new I in \<open>auto simp: cfq_put_def\<close>)
    ultimately show ?thesis
      using C(1) by (intro that [of ?q]) (auto simp: cfq_view_put cfq_put_def cfq_view_def fun_eq_iff cfq_states)
  next
    case False
    then have "it_state it = QUIC_CFQ_STATE_TX"
      using C(2) by blast
    then have "it\<lparr>it_state := QUIC_CFQ_STATE_TX\<rparr> = it"
      by simp
    with False p have "ossl_quic_cfq_mark_tx q p = Inr q" "(cfq_view q)(p \<mapsto> it\<lparr>it_state := QUIC_CFQ_STATE_TX\<rparr>) = cfq_view q"
      using C(1) by (auto simp: ossl_quic_cfq_mark_tx_def cfq_at_def)
    with ok show ?thesis
      by (intro that [of q]) simp_all
  qed
qed

lemma release_spec:
  assumes ok: "cfq_ok q" and p: "cfq_view q p = Some it"
  obtains q' where "ossl_quic_cfq_release q p = Inr q'" "cfq_ok q'" "cfq_view q' = (cfq_view q)(p := None)"
    "cfq_freed q' = cfq_freed q @ callback_of it" "dom (cfq_items q') = dom (cfq_items q)"
proof -
  note I = cfq_okD [OF ok]
  note C = cfq_view_cases [OF ok p]
  define cleared where "cleared = (case it_free_cb it of Some cb \<Rightarrow> it\<lparr>it_free_cb := None, it_encoded := None, it_encoded_len := 0, it_state := - 1\<rparr>
    | None \<Rightarrow> it\<lparr>it_state := - 1\<rparr>)"
  define q' where "q' = q\<lparr>cfq_items := (cfq_items q)(p \<mapsto> cleared), new_list := remove1 p (new_list q), tx_list := remove1 p (tx_list q),
    free_list := free_list q @ [p], cfq_freed := cfq_freed q @ callback_of it\<rparr>"
  have cleared: "it_state cleared = - 1" "it_free_cb cleared = None"
    by (simp_all add: cleared_def split: option.splits)
  have notfree: "p \<notin> set (free_list q)"
    using C(2) I(5,6) by auto
  have res: "ossl_quic_cfq_release q p = Inr q'"
    using C(2)
  proof
    assume new: "p \<in> set (new_list q) \<and> it_state it = QUIC_CFQ_STATE_NEW"
    then have "remove1 p (tx_list q) = tx_list q"
      using I(4) by (intro remove1_idem) auto
    with new C(1) show ?thesis
      by (cases "it_free_cb it") (simp_all add: ossl_quic_cfq_release_def cfq_at_def clear_item_def cfq_list_remove_def cfq_list_insert_tail_def
          q'_def cfq_put_def cleared_def callback_of_def)
  next
    assume tx: "p \<in> set (tx_list q) \<and> it_state it = QUIC_CFQ_STATE_TX"
    then have "remove1 p (new_list q) = new_list q"
      using I(4) by (intro remove1_idem) auto
    with tx C(1) show ?thesis
      by (cases "it_free_cb it") (simp_all add: ossl_quic_cfq_release_def cfq_at_def clear_item_def cfq_list_remove_def cfq_list_insert_tail_def
          q'_def cfq_put_def cleared_def callback_of_def cfq_states)
  qed
  have "cfq_ok q'"
    unfolding cfq_ok_def
  proof (intro conjI)
    show "distinct (new_list q' @ tx_list q' @ free_list q')" "set (new_list q' @ tx_list q' @ free_list q') = dom (cfq_items q')"
      using I(1-7) C(2) notfree by (auto simp: q'_def)
    have "sorted_wrt (\<lambda>a b. cfq_le (it_of q a) (it_of q b)) (remove1 p (new_list q))"
      using I(1,12) by (simp add: distinct_remove1_removeAll removeAll_filter_not_eq sorted_wrt_filter)
    then show "sorted_wrt (\<lambda>a b. cfq_le (it_of q' a) (it_of q' b)) (new_list q')"
      using I(1) by (auto simp: q'_def elim!: sorted_wrt_mono_rel [rotated])
  qed (use I cleared notfree in \<open>auto simp: q'_def\<close>)
  moreover have "cfq_view q' = (cfq_view q)(p := None)"
    using cleared(1) by (auto simp: q'_def cfq_view_def fun_eq_iff)
  ultimately show ?thesis
    using res C(1) by (intro that [of q']) (auto simp: q'_def)
qed

definition relost :: "u32 \<Rightarrow> cfq_item \<Rightarrow> cfq_item" where
  "relost priority it = it\<lparr>it_priority := (if priority = UINT32_MAX then it_priority it else priority), it_state := QUIC_CFQ_STATE_NEW\<rparr>"

lemma mark_lost_spec:
  assumes ok: "cfq_ok q" and p: "cfq_view q p = Some it"
  obtains q' where "ossl_quic_cfq_mark_lost q p prio = Inr q'" "cfq_ok q'"
    "cfq_view q' = (cfq_view q)(p := if ossl_quic_cfq_item_is_unreliable it then None else Some (relost prio it))"
    "cfq_freed q' = cfq_freed q @ (if ossl_quic_cfq_item_is_unreliable it then callback_of it else [])" "dom (cfq_items q') = dom (cfq_items q)"
proof -
  note I = cfq_okD [OF ok]
  note C = cfq_view_cases [OF ok p]
  have dom: "p \<in> dom (cfq_items q)" and notfree: "p \<notin> set (free_list q)"
    using C I(5,6) by auto
  show ?thesis
  proof (cases "ossl_quic_cfq_item_is_unreliable it")
    case True
    from release_spec [OF ok p] obtain q' where "ossl_quic_cfq_release q p = Inr q'" "cfq_ok q'" "cfq_view q' = (cfq_view q)(p := None)"
      "cfq_freed q' = cfq_freed q @ callback_of it" "dom (cfq_items q') = dom (cfq_items q)" .
    with True C(1) show ?thesis
      by (intro that [of q']) (simp_all add: ossl_quic_cfq_mark_lost_def cfq_at_def)
  next
    case False
    define it' where "it' = relost prio it"
    have it': "it_state it' = QUIC_CFQ_STATE_NEW"
      by (simp add: it'_def relost_def)
    note res = that
    have unfold: "ossl_quic_cfq_mark_lost q p prio =
       (if it_state it = QUIC_CFQ_STATE_NEW then
         (if prio \<noteq> UINT32_MAX \<and> prio \<noteq> it_priority it then
            let q = cfq_put (q\<lparr>new_list := remove1 p (new_list q)\<rparr>) p (it\<lparr>it_priority := prio\<rparr>)
            in res_bind (cfq_list_insert_sorted q (new_list q) p) (\<lambda>l. Inr (q\<lparr>new_list := l\<rparr>))
          else Inr q)
       else if it_state it = QUIC_CFQ_STATE_TX then
         let ex = (if prio \<noteq> UINT32_MAX then it\<lparr>it_priority := prio\<rparr> else it);
             q = cfq_put (q\<lparr>tx_list := remove1 p (tx_list q)\<rparr>) p ex
         in res_bind (cfq_list_insert_sorted q (new_list q) p) (\<lambda>l.
              Inr (cfq_put (q\<lparr>new_list := l\<rparr>) p (ex\<lparr>it_state := QUIC_CFQ_STATE_NEW\<rparr>)))
       else Inr q)"
      using False C(1) by (simp add: ossl_quic_cfq_mark_lost_def cfq_at_def cfq_list_remove_def)
    define fin where "fin l = q\<lparr>cfq_items := (cfq_items q)(p \<mapsto> it'), new_list := l, tx_list := remove1 p (tx_list q),
      free_list := remove1 p (free_list q), cfq_freed := cfq_freed q\<rparr>" for l
    have fin: ?thesis if "ossl_quic_cfq_mark_lost q p prio = Inr (fin l)" "cfq_ok (fin l)" for l
      using that(1,2) False by (intro res [of "fin l"]) (use C(1) notfree in \<open>auto simp: fin_def it'_def relost_def cfq_view_def fun_eq_iff cfq_states\<close>)
    consider (changed) "it_state it = QUIC_CFQ_STATE_NEW" "prio \<noteq> UINT32_MAX" "prio \<noteq> it_priority it"
      | (same) "it_state it = QUIC_CFQ_STATE_NEW" "it' = it" "prio = UINT32_MAX \<or> prio = it_priority it"
      | (tx) "it_state it = QUIC_CFQ_STATE_TX" "p \<in> set (tx_list q)"
      using C(2) by (cases "prio = UINT32_MAX \<or> prio = it_priority it") (auto simp: it'_def relost_def)
    then show ?thesis
    proof cases
      case changed
      then have lists: "remove1 p (tx_list q) = tx_list q" "remove1 p (free_list q) = free_list q"
        using C(2) I(4) notfree by (auto simp: cfq_states intro!: remove1_idem)
      let ?q1 = "cfq_put (q\<lparr>new_list := remove1 p (new_list q)\<rparr>) p (it\<lparr>it_priority := prio\<rparr>)"
      obtain l where l: "cfq_list_insert_sorted ?q1 (new_list ?q1) p = Inr l" "cfq_ok (fin l)"
        unfolding fin_def by (rule cfq_enqueue [where fr = "cfq_freed q", OF ok dom it', of ?q1 "it\<lparr>it_priority := prio\<rparr>"])
          (use changed in \<open>auto simp: cfq_put_def it'_def relost_def\<close>)
      have "it\<lparr>it_priority := prio\<rparr> = it'"
        using changed by (simp add: it'_def relost_def)
      then have "?q1\<lparr>new_list := l\<rparr> = fin l"
        by (simp add: fin_def lists cfq_put_def)
      with l changed show ?thesis
        by (intro fin [of l]) (simp_all add: unfold)
    next
      case same
      with p have "(cfq_view q)(p \<mapsto> it') = cfq_view q"
        by auto
      with same ok False show ?thesis
        by (intro that [of q]) (auto simp: unfold it'_def)
    next
      case tx
      then have lists: "remove1 p (new_list q) = new_list q" "remove1 p (free_list q) = free_list q"
        using I(4) notfree by (auto intro!: remove1_idem)
      define ex where "ex = (if prio \<noteq> UINT32_MAX then it\<lparr>it_priority := prio\<rparr> else it)"
      let ?q1 = "cfq_put (q\<lparr>tx_list := remove1 p (tx_list q)\<rparr>) p ex"
      obtain l where l: "cfq_list_insert_sorted ?q1 (new_list ?q1) p = Inr l" "cfq_ok (fin l)"
        unfolding fin_def by (rule cfq_enqueue [where fr = "cfq_freed q", OF ok dom it', of ?q1 ex])
          (auto simp: cfq_put_def it'_def relost_def ex_def lists)
      have "ex\<lparr>it_state := QUIC_CFQ_STATE_NEW\<rparr> = it'"
        by (simp add: ex_def it'_def relost_def)
      then have "cfq_put (?q1\<lparr>new_list := l\<rparr>) p (ex\<lparr>it_state := QUIC_CFQ_STATE_NEW\<rparr>) = fin l"
        by (simp add: fin_def lists cfq_put_def)
      with l tx show ?thesis
        by (intro fin [of l]) (simp_all add: unfold ex_def [symmetric] Let_def cfq_states)
    qed
  qed
qed

lemma get_free_spec:
  assumes ok: "cfq_ok q" and fresh: "\<forall>a. alloc = Some a \<longrightarrow> a \<notin> dom (cfq_items q)"
  obtains (got) q' p where "cfq_get_free alloc q = (q', Some p)" "cfq_ok q'" "p \<in> set (free_list q')" "cfq_view q' = cfq_view q"
      "cfq_freed q' = cfq_freed q" "dom (cfq_items q') = insert p (dom (cfq_items q))" "free_list q = p # tl (free_list q) \<or> alloc = Some p"
  | (failed) "cfq_get_free alloc q = (q, None)" "alloc = None"
proof -
  note I = cfq_okD [OF ok]
  show ?thesis
  proof (cases "free_list q")
    case (Cons p f)
    with ok I(7) show ?thesis
      by (intro got [of q p]) (auto simp: cfq_get_free_def)
  next
    case Nil
    show ?thesis
    proof (cases alloc)
      case None
      with Nil show ?thesis
        by (intro failed) (simp_all add: cfq_get_free_def)
    next
      case (Some p)
      then have p: "p \<notin> dom (cfq_items q)"
        using fresh by blast
      define it where "it = \<lparr>it_encoded = None, it_free_cb = None, it_frame_type = 0, it_encoded_len = 0, it_priority = 0,
                                       it_pn_space = 0, it_flags = 0, it_state = - 1\<rparr>"
      define q' where "q' = q\<lparr>cfq_items := (cfq_items q)(p \<mapsto> it), free_list := [p]\<rparr>"
      have res: "cfq_get_free alloc q = (q', Some p)"
        by (simp add: cfq_get_free_def Nil Some it_def q'_def cfq_put_def cfq_list_insert_tail_def Let_def)
      have "cfq_ok q'"
        unfolding cfq_ok_def
      proof (intro conjI)
        show "sorted_wrt (\<lambda>a b. cfq_le (it_of q' a) (it_of q' b)) (new_list q')"
          using I(7,12) p by (auto simp: q'_def elim!: sorted_wrt_mono_rel [rotated])
      qed (use I p Nil in \<open>auto simp: q'_def it_def\<close>)
      moreover have "cfq_view q' = cfq_view q"
        using p by (auto simp: q'_def cfq_view_def fun_eq_iff it_def split: option.splits)
      ultimately show ?thesis
        using res Some by (intro got [of q' p]) (auto simp: q'_def)
    qed
  qed
qed

lemma add_frame_spec:
  assumes ok: "cfq_ok q" and fresh: "\<forall>a. alloc = Some a \<longrightarrow> a \<notin> dom (cfq_items q)"
  obtains (added) q' p where "ossl_quic_cfq_add_frame alloc q prio pn_space frame_type flags enc len cb = Inr (q', Some p)" "cfq_ok q'"
      "p \<notin> dom (cfq_view q)" "cfq_view q' = (cfq_view q)(p \<mapsto> \<lparr>it_encoded = enc, it_free_cb = cb, it_frame_type = frame_type, it_encoded_len = len,
        it_priority = prio, it_pn_space = pn_space, it_flags = flags, it_state = QUIC_CFQ_STATE_NEW\<rparr>)" "cfq_freed q' = cfq_freed q"
      "dom (cfq_items q') = insert p (dom (cfq_items q))"
  | (failed) "ossl_quic_cfq_add_frame alloc q prio pn_space frame_type flags enc len cb = Inr (q, None)" "alloc = None"
proof -
  show ?thesis
  proof (cases rule: get_free_spec [OF ok fresh])
    case 2
    then show ?thesis
      by (intro failed) (simp_all add: ossl_quic_cfq_add_frame_def)
  next
    case (1 q0 p)
    note I = cfq_okD [OF 1(2)]
    define it where "it = \<lparr>it_encoded = enc, it_free_cb = cb, it_frame_type = frame_type, it_encoded_len = len,
        it_priority = prio, it_pn_space = pn_space, it_flags = flags, it_state = QUIC_CFQ_STATE_NEW\<rparr>"
    have dom: "p \<in> dom (cfq_items q0)" and p: "p \<notin> set (new_list q0)" "p \<notin> set (tx_list q0)"
      using 1(3) I(5-7) by auto
    let ?q1 = "(cfq_put q0 p it)\<lparr>free_list := remove1 p (free_list q0)\<rparr>"
    have it: "it_state it = QUIC_CFQ_STATE_NEW"
      by (simp add: it_def)
    obtain l where l: "cfq_list_insert_sorted ?q1 (new_list ?q1) p = Inr l"
      "cfq_ok (q0\<lparr>cfq_items := (cfq_items q0)(p \<mapsto> it), new_list := l, tx_list := remove1 p (tx_list q0), free_list := remove1 p (free_list q0),
         cfq_freed := cfq_freed q0\<rparr>)"
      by (rule cfq_enqueue [where fr = "cfq_freed q0", OF 1(2) dom it, of ?q1 it]) (use p in \<open>auto simp: cfq_put_def remove1_idem\<close>)
    have "q0\<lparr>cfq_items := (cfq_items q0)(p \<mapsto> it), new_list := l, tx_list := remove1 p (tx_list q0), free_list := remove1 p (free_list q0),
         cfq_freed := cfq_freed q0\<rparr> = ?q1\<lparr>new_list := l\<rparr>"
      using p(2) by (simp add: cfq_put_def remove1_idem)
    note okq = l(2) [unfolded this]
    obtain old where old: "cfq_items q0 p = Some old"
      using dom by blast
    have upd: "old\<lparr>it_priority := prio, it_frame_type := frame_type, it_pn_space := pn_space, it_encoded := enc,
                    it_encoded_len := len, it_free_cb := cb, it_state := QUIC_CFQ_STATE_NEW, it_flags := flags\<rparr> = it"
      by (cases old) (simp add: it_def)
    have "ossl_quic_cfq_add_frame alloc q prio pn_space frame_type flags enc len cb = Inr (?q1\<lparr>new_list := l\<rparr>, Some p)"
      using l(1) by (simp add: ossl_quic_cfq_add_frame_def 1(1) cfq_at_def old Let_def cfq_list_remove_def upd cfq_put_def)
    moreover have "cfq_view (?q1\<lparr>new_list := l\<rparr>) = (cfq_view q)(p \<mapsto> it)"
      using 1(4) by (simp add: cfq_view_put it_def cfq_states)
    moreover have "p \<notin> dom (cfq_view q)"
      using cfq_view_dom [OF 1(2)] p 1(4) by simp
    ultimately show ?thesis
      using okq 1(5,6) by (intro added [of "?q1\<lparr>new_list := l\<rparr>" p]) (auto simp: it_def cfq_put_def)
  qed
qed

section \<open>The order in which frames are handed out\<close>

definition cfq_pending :: "quic_cfq \<Rightarrow> u32 \<Rightarrow> cfq_addr list" where
  "cfq_pending q s = filter (\<lambda>p. it_pn_space (it_of q p) = s) (new_list q)"

lemma find_space_spec:
  "set l \<subseteq> dom (cfq_items q) \<Longrightarrow> cfq_find_space q s l
    = Inr (case filter (\<lambda>p. it_pn_space (it_of q p) = s) l of [] \<Rightarrow> None | p # _ \<Rightarrow> Some p)"
  by (induction l) (auto simp: cfq_at_dom)

lemma priority_head_spec:
  "cfq_ok q \<Longrightarrow> ossl_quic_cfq_get_priority_head q s = Inr (case cfq_pending q s of [] \<Rightarrow> None | p # _ \<Rightarrow> Some p)"
  unfolding ossl_quic_cfq_get_priority_head_def cfq_pending_def by (rule find_space_spec) (auto simp: cfq_okD(7))

lemma priority_next_spec:
  assumes ok: "cfq_ok q" and p: "cfq_pending q s = a @ p # b"
  shows "ossl_quic_cfq_item_get_priority_next q (Some p) s = Inr (case b of [] \<Rightarrow> None | n # _ \<Rightarrow> Some n)"
proof -
  note I = cfq_okD [OF ok]
  have "p \<in> set (cfq_pending q s)"
    by (simp add: p)
  then have new: "p \<in> set (new_list q)" "it_pn_space (it_of q p) = s"
    by (auto simp: cfq_pending_def)
  then obtain xs ys where split: "new_list q = xs @ p # ys" "p \<notin> set xs"
    by (meson split_list_first)
  let ?f = "filter (\<lambda>p. it_pn_space (it_of q p) = s)"
  have "?f xs @ p # ?f ys = a @ p # b"
    using p new(2) by (simp add: cfq_pending_def split(1))
  moreover have "distinct (?f xs @ p # ?f ys)"
    using distinct_filter [OF I(1), of "\<lambda>p. it_pn_space (it_of q p) = s"] new(2) by (simp add: split(1))
  ultimately have b: "?f ys = b"
    by (metis append_Cons_eq_iff distinct_append distinct.simps(2) disjoint_iff list.set_intros(1) not_distinct_conv_prefix)
  have "dropWhile (\<lambda>x. x \<noteq> p) (new_list q) = p # ys"
    using split(2) unfolding split(1) by (subst dropWhile_append2) auto
  then have nexts: "cfq_nexts q p (it_of q p) = ys"
    by (simp add: cfq_nexts_def I(8) [OF new(1)])
  have "set ys \<subseteq> dom (cfq_items q)" "p \<in> dom (cfq_items q)"
    using I(7) new(1) split(1) by auto
  with find_space_spec [OF this(1), of s] show ?thesis
    by (simp add: ossl_quic_cfq_item_get_priority_next_def cfq_at_dom nexts b)
qed

lemma pending_sorted:
  assumes ok: "cfq_ok q"
  shows "sorted_wrt (\<lambda>a b. it_priority (it_of q b) \<le> it_priority (it_of q a)) (cfq_pending q s)"
    and "distinct (cfq_pending q s)"
    and "set (cfq_pending q s) = {p. \<exists>it. cfq_view q p = Some it \<and> it_state it = QUIC_CFQ_STATE_NEW \<and> it_pn_space it = s}"
proof -
  note I = cfq_okD [OF ok]
  have "sorted_wrt (\<lambda>a b. cfq_le (it_of q a) (it_of q b)) (cfq_pending q s)"
    unfolding cfq_pending_def by (intro sorted_wrt_filter I(12))
  then show "sorted_wrt (\<lambda>a b. it_priority (it_of q b) \<le> it_priority (it_of q a)) (cfq_pending q s)"
    by (rule sorted_wrt_mono_rel [rotated]) (auto simp: cfq_le_def cfq_pending_def)
  show "distinct (cfq_pending q s)"
    unfolding cfq_pending_def by (intro distinct_filter I(1))
  show "set (cfq_pending q s) = {p. \<exists>it. cfq_view q p = Some it \<and> it_state it = QUIC_CFQ_STATE_NEW \<and> it_pn_space it = s}"
  proof (rule set_eqI)
    fix p
    have "p \<in> set (new_list q) \<longleftrightarrow> (\<exists>it. cfq_view q p = Some it \<and> it_state it = QUIC_CFQ_STATE_NEW)"
    proof
      assume new: "p \<in> set (new_list q)"
      then obtain it where "cfq_view q p = Some it"
        using cfq_view_dom [OF ok] by blast
      with I(8) [OF new] cfq_view_cases(1) [OF ok this] show "\<exists>it. cfq_view q p = Some it \<and> it_state it = QUIC_CFQ_STATE_NEW"
        by auto
    next
      assume "\<exists>it. cfq_view q p = Some it \<and> it_state it = QUIC_CFQ_STATE_NEW"
      then show "p \<in> set (new_list q)"
        using cfq_view_cases(2) [OF ok] by (force simp: cfq_states)
    qed
    then show "p \<in> set (cfq_pending q s) \<longleftrightarrow> p \<in> {p. \<exists>it. cfq_view q p = Some it \<and> it_state it = QUIC_CFQ_STATE_NEW \<and> it_pn_space it = s}"
      using cfq_view_cases(1) [OF ok, of p] by (auto simp: cfq_pending_def)
  qed
qed


section \<open>Runs\<close>

text \<open>
  The operations of the queue, on items it holds. \<open>added\<close>: the callbacks that came with the frames added.
\<close>

datatype cfq_op =
  Add_Frame "cfq_addr option" u32 u32 u64 u32 "bytes option" u64 "nat option"
  | Mark_Tx cfq_addr | Mark_Lost cfq_addr u32 | Release cfq_addr

fun cfq_exec :: "quic_cfq \<Rightarrow> cfq_op \<Rightarrow> c_fault + quic_cfq" where
  "cfq_exec q (Add_Frame alloc prio s t flags enc len cb) =
     res_bind (ossl_quic_cfq_add_frame alloc q prio s t flags enc len cb) (\<lambda>(q, p). Inr q)"
| "cfq_exec q (Mark_Tx p) = ossl_quic_cfq_mark_tx q p"
| "cfq_exec q (Mark_Lost p prio) = ossl_quic_cfq_mark_lost q p prio"
| "cfq_exec q (Release p) = ossl_quic_cfq_release q p"

fun cfq_allowed :: "quic_cfq \<Rightarrow> cfq_op \<Rightarrow> bool" where
  "cfq_allowed q (Add_Frame alloc prio s t flags enc len cb) \<longleftrightarrow> (case alloc of None \<Rightarrow> True | Some a \<Rightarrow> cfq_items q a = None)"
| "cfq_allowed q (Mark_Tx p) \<longleftrightarrow> cfq_view q p \<noteq> None"
| "cfq_allowed q (Mark_Lost p prio) \<longleftrightarrow> cfq_view q p \<noteq> None"
| "cfq_allowed q (Release p) \<longleftrightarrow> cfq_view q p \<noteq> None"

text \<open>The same on a finite map of items.\<close>

definition cfq_spec_free :: "cfq_store \<Rightarrow> cfq_addr \<Rightarrow> (bytes option \<times> u64 \<times> nat) list" where
  "cfq_spec_free v p = (case v p of None \<Rightarrow> [] | Some it \<Rightarrow> callback_of it)"

inductive cfq_spec_step :: "cfq_store \<Rightarrow> cfq_op \<Rightarrow> cfq_store \<Rightarrow> (bytes option \<times> u64 \<times> nat) list \<Rightarrow> bool" where
  "p \<notin> dom v \<Longrightarrow> cfq_spec_step v (Add_Frame alloc prio s t flags enc len cb)
     (v(p \<mapsto> \<lparr>it_encoded = enc, it_free_cb = cb, it_frame_type = t, it_encoded_len = len, it_priority = prio, it_pn_space = s,
        it_flags = flags, it_state = QUIC_CFQ_STATE_NEW\<rparr>)) []"
| "cfq_spec_step v (Add_Frame None prio s t flags enc len cb) v []"
| "v p = Some it \<Longrightarrow> cfq_spec_step v (Mark_Tx p) (v(p \<mapsto> it\<lparr>it_state := QUIC_CFQ_STATE_TX\<rparr>)) []"
| "v p = Some it \<Longrightarrow> \<not> ossl_quic_cfq_item_is_unreliable it \<Longrightarrow> cfq_spec_step v (Mark_Lost p prio) (v(p \<mapsto> relost prio it)) []"
| "v p = Some it \<Longrightarrow> ossl_quic_cfq_item_is_unreliable it \<Longrightarrow> cfq_spec_step v (Mark_Lost p prio) (v(p := None)) (callback_of it)"
| "v p = Some it \<Longrightarrow> cfq_spec_step v (Release p) (v(p := None)) (callback_of it)"

lemma cfq_exec_refines:
  assumes ok: "cfq_ok q" and allowed: "cfq_allowed q op"
  obtains q' l where "cfq_exec q op = Inr q'" "cfq_ok q'" "cfq_spec_step (cfq_view q) op (cfq_view q') l" "cfq_freed q' = cfq_freed q @ l"
proof (cases op)
  case (Add_Frame alloc prio s t flags enc len cb)
  have fresh: "\<forall>a. alloc = Some a \<longrightarrow> a \<notin> dom (cfq_items q)"
    using allowed Add_Frame by (auto split: option.splits)
  show ?thesis
  proof (cases rule: add_frame_spec [OF ok fresh, of prio s t flags enc len cb])
    case (1 q' p)
    then show ?thesis
      using cfq_spec_step.intros(1) [OF 1(3), of alloc prio s t flags enc len cb] by (intro that [of q' "[]"]) (simp_all add: Add_Frame)
  next
    case 2
    then show ?thesis
      using ok cfq_spec_step.intros(2) by (intro that [of q "[]"]) (simp_all add: Add_Frame)
  qed
next
  case (Mark_Tx p)
  then obtain it where p: "cfq_view q p = Some it"
    using allowed by auto
  then show ?thesis
    by (rule mark_tx_spec [OF ok]) (use that cfq_spec_step.intros(3) [where v = "cfq_view q", OF p] Mark_Tx in auto)
next
  case (Mark_Lost p prio)
  then obtain it where p: "cfq_view q p = Some it"
    using allowed by auto
  then obtain q' where q': "ossl_quic_cfq_mark_lost q p prio = Inr q'" "cfq_ok q'"
    "cfq_view q' = (cfq_view q)(p := if ossl_quic_cfq_item_is_unreliable it then None else Some (relost prio it))"
    "cfq_freed q' = cfq_freed q @ (if ossl_quic_cfq_item_is_unreliable it then callback_of it else [])"
    by (rule mark_lost_spec [OF ok])
  show ?thesis
    using q' cfq_spec_step.intros(4,5) [where v = "cfq_view q", OF p, of prio] Mark_Lost
    by (intro that [of q' "if ossl_quic_cfq_item_is_unreliable it then callback_of it else []"]) auto
next
  case (Release p)
  then obtain it where p: "cfq_view q p = Some it"
    using allowed by auto
  then show ?thesis
    by (rule release_spec [OF ok]) (use that cfq_spec_step.intros(6) [where v = "cfq_view q", OF p] Release in auto)
qed

text \<open>\<open>A\<close>: the callbacks that came with the frames added, with their buffers.\<close>

inductive cfq_reach :: "quic_cfq \<Rightarrow> (bytes option \<times> u64 \<times> nat) list \<Rightarrow> bool" where
  cfq_reach_new: "ossl_quic_cfq_new True = Some q \<Longrightarrow> cfq_reach q []"
| cfq_reach_add: "cfq_reach q A \<Longrightarrow> cfq_allowed q (Add_Frame alloc prio s t flags enc len cb) \<Longrightarrow>
    ossl_quic_cfq_add_frame alloc q prio s t flags enc len cb = Inr (q', r) \<Longrightarrow>
    cfq_reach q' (A @ (case (r, cb) of (Some p, Some c) \<Rightarrow> [(enc, len, c)] | _ \<Rightarrow> []))"
| cfq_reach_tx: "cfq_reach q A \<Longrightarrow> cfq_allowed q (Mark_Tx p) \<Longrightarrow> ossl_quic_cfq_mark_tx q p = Inr q' \<Longrightarrow> cfq_reach q' A"
| cfq_reach_lost: "cfq_reach q A \<Longrightarrow> cfq_allowed q (Mark_Lost p prio) \<Longrightarrow> ossl_quic_cfq_mark_lost q p prio = Inr q' \<Longrightarrow> cfq_reach q' A"
| cfq_reach_release: "cfq_reach q A \<Longrightarrow> cfq_allowed q (Release p) \<Longrightarrow> ossl_quic_cfq_release q p = Inr q' \<Longrightarrow> cfq_reach q' A"

definition held_callbacks :: "cfq_store \<Rightarrow> (bytes option \<times> u64 \<times> nat) multiset" where
  "held_callbacks v = (\<Sum>p \<in> dom v. mset (callback_of (the (v p))))"

lemma held_insert: "finite (dom v) \<Longrightarrow> p \<notin> dom v \<Longrightarrow> held_callbacks (v(p \<mapsto> it)) = held_callbacks v + mset (callback_of it)"
proof -
  assume v: "finite (dom v)" "p \<notin> dom v"
  have "held_callbacks (v(p \<mapsto> it)) = mset (callback_of it) + (\<Sum>x \<in> dom v. mset (callback_of (the ((v(p \<mapsto> it)) x))))"
    unfolding held_callbacks_def using v by simp
  also have "(\<Sum>x \<in> dom v. mset (callback_of (the ((v(p \<mapsto> it)) x)))) = held_callbacks v"
    unfolding held_callbacks_def using v(2) by (intro sum.cong) auto
  finally show ?thesis
    by (simp only: add.commute)
qed

lemma held_remove: "finite (dom v) \<Longrightarrow> v p = Some it \<Longrightarrow> held_callbacks v = held_callbacks (v(p := None)) + mset (callback_of it)"
  using held_insert [of "v(p := None)" p it] by (simp add: fun_upd_idem)

lemma held_update:
  "finite (dom v) \<Longrightarrow> v p = Some it \<Longrightarrow> callback_of it' = callback_of it \<Longrightarrow> held_callbacks (v(p \<mapsto> it')) = held_callbacks v"
  using held_remove [of v p it] held_insert [of "v(p := None)" p it'] by simp

lemma cfq_view_finite: "cfq_ok q \<Longrightarrow> finite (dom (cfq_view q))"
  by (simp add: cfq_view_dom)

lemma callback_same [simp]: "callback_of (it\<lparr>it_state := x\<rparr>) = callback_of it" "callback_of (relost prio it) = callback_of it"
  by (simp_all add: callback_of_def relost_def split: option.split)

lemma cfq_reach_inv: "cfq_reach q A \<Longrightarrow> cfq_ok q \<and> mset A = mset (cfq_freed q) + held_callbacks (cfq_view q)"
proof (induction rule: cfq_reach.induct)
  case (cfq_reach_new q)
  then have "cfq_ok q" "cfq_view q = Map.empty" "cfq_freed q = []"
    by (auto simp: ossl_quic_cfq_new_def cfq_ok_def cfq_view_def)
  then show ?case
    by (simp add: held_callbacks_def)
next
  case (cfq_reach_add q A alloc prio s t flags enc len cb q' r)
  have fresh: "\<forall>a. alloc = Some a \<longrightarrow> a \<notin> dom (cfq_items q)"
    using cfq_reach_add.hyps(2) by (auto split: option.splits)
  have ok: "cfq_ok q"
    using cfq_reach_add.IH by blast
  show ?case
  proof (cases rule: add_frame_spec [OF ok fresh, of prio s t flags enc len cb])
    case (1 q1 p)
    with cfq_reach_add.hyps(3) have "q' = q1" "r = Some p"
      by auto
    moreover have "held_callbacks (cfq_view q1) = held_callbacks (cfq_view q) + mset (case cb of None \<Rightarrow> [] | Some c \<Rightarrow> [(enc, len, c)])"
      unfolding 1(4) by (subst held_insert [OF cfq_view_finite [OF ok] 1(3)]) (simp add: callback_of_def cong: option.case_cong)
    ultimately show ?thesis
      using 1(2,5) cfq_reach_add.IH by (cases cb) simp_all
  next
    case 2
    with cfq_reach_add.hyps(3) cfq_reach_add.IH show ?thesis
      by (cases cb) auto
  qed
next
  case (cfq_reach_tx q A p q')
  then obtain it where p: "cfq_view q p = Some it" and ok: "cfq_ok q"
    by auto
  obtain q1 where q1: "ossl_quic_cfq_mark_tx q p = Inr q1" "cfq_ok q1" "cfq_view q1 = (cfq_view q)(p \<mapsto> it\<lparr>it_state := QUIC_CFQ_STATE_TX\<rparr>)"
    "cfq_freed q1 = cfq_freed q"
    by (rule mark_tx_spec [OF ok p])
  then have "q' = q1" "held_callbacks (cfq_view q1) = held_callbacks (cfq_view q)"
    using cfq_reach_tx held_update [OF cfq_view_finite [OF ok] p] by auto
  with q1 cfq_reach_tx show ?case
    by (simp only: simp_thms)
next
  case (cfq_reach_lost q A p prio q')
  then obtain it where p: "cfq_view q p = Some it" and ok: "cfq_ok q"
    by auto
  let ?u = "ossl_quic_cfq_item_is_unreliable it"
  obtain q1 where q1: "ossl_quic_cfq_mark_lost q p prio = Inr q1" "cfq_ok q1"
    "cfq_view q1 = (cfq_view q)(p := if ?u then None else Some (relost prio it))" "cfq_freed q1 = cfq_freed q @ (if ?u then callback_of it else [])"
    by (rule mark_lost_spec [OF ok p])
  then have "q' = q1"
    using cfq_reach_lost by simp
  moreover have "held_callbacks (cfq_view q) = held_callbacks (cfq_view q1) + mset (if ?u then callback_of it else [])"
    unfolding q1(3) using held_remove [OF cfq_view_finite [OF ok] p] held_update [OF cfq_view_finite [OF ok] p, of "relost prio it"] by (cases ?u) simp_all
  ultimately show ?case
    using q1(2,4) cfq_reach_lost by (simp add: ac_simps)
next
  case (cfq_reach_release q A p q')
  then obtain it where p: "cfq_view q p = Some it" and ok: "cfq_ok q"
    by auto
  obtain q1 where q1: "ossl_quic_cfq_release q p = Inr q1" "cfq_ok q1" "cfq_view q1 = (cfq_view q)(p := None)" "cfq_freed q1 = cfq_freed q @ callback_of it"
    by (rule release_spec [OF ok p])
  then have "q' = q1"
    using cfq_reach_release by simp
  with q1(2,4) held_remove [OF cfq_view_finite [OF ok] p, folded q1(3)] cfq_reach_release show ?case
    by (simp add: ac_simps)
qed

lemma free_list_items_spec:
  assumes "distinct l" and "set l \<subseteq> dom (cfq_items q)"
  shows "free_list_items q l = Inr (q\<lparr>cfq_items := (cfq_items q) |` (- set l), cfq_freed := cfq_freed q @ concat (map (\<lambda>p. callback_of (it_of q p)) l)\<rparr>)"
  using assms
proof (induction l arbitrary: q)
  case (Cons p l)
  then obtain it where it: "cfq_items q p = Some it"
    by auto
  let ?q = "q\<lparr>cfq_freed := cfq_freed q @ callback_of it, cfq_items := (cfq_items q)(p := None)\<rparr>"
  have "free_list_items q (p # l) = free_list_items ?q l"
    using it by (cases "it_free_cb it") (simp_all add: clear_item_def cfq_at_def cfq_put_def callback_of_def)
  also have "\<dots> = Inr (?q\<lparr>cfq_items := (cfq_items ?q) |` (- set l), cfq_freed := cfq_freed ?q @ concat (map (\<lambda>p. callback_of (it_of ?q p)) l)\<rparr>)"
    using Cons.prems by (intro Cons.IH) auto
  also have "map (\<lambda>p. callback_of (it_of ?q p)) l = map (\<lambda>p. callback_of (it_of q p)) l"
    using Cons.prems(1) by auto
  also have "(cfq_items ?q) |` (- set l) = (cfq_items q) |` (- set (p # l))"
    by (auto simp: restrict_map_def fun_eq_iff)
  finally show ?case
    by (simp add: it)
next
  case Nil
  have "cfq_items q |` UNIV = cfq_items q"
    by (simp add: restrict_map_def)
  then show ?case
    by simp
qed

lemma cfq_free_spec:
  assumes ok: "cfq_ok q"
  shows "\<exists>q'. ossl_quic_cfq_free q = Inr q' \<and> cfq_items q' = Map.empty
    \<and> mset (cfq_freed q') = mset (cfq_freed q) + held_callbacks (cfq_view q)"
proof -
  note I = cfq_okD [OF ok]
  let ?cb = "\<lambda>p. callback_of (it_of q p)"
  define q1 where "q1 = q\<lparr>cfq_items := (cfq_items q) |` (- set (new_list q)), cfq_freed := cfq_freed q @ concat (map ?cb (new_list q))\<rparr>"
  define q2 where "q2 = q1\<lparr>cfq_items := (cfq_items q1) |` (- set (tx_list q)), cfq_freed := cfq_freed q1 @ concat (map (\<lambda>p. callback_of (it_of q1 p)) (tx_list q))\<rparr>"
  define q3 where "q3 = q2\<lparr>cfq_items := (cfq_items q2) |` (- set (free_list q)),
    cfq_freed := cfq_freed q2 @ concat (map (\<lambda>p. callback_of (it_of q2 p)) (free_list q))\<rparr>"
  have f1: "free_list_items q (new_list q) = Inr q1"
    unfolding q1_def using I(1,7) by (intro free_list_items_spec) auto
  have f2: "free_list_items q1 (tx_list q) = Inr q2"
    unfolding q2_def using I(2,4,7) by (intro free_list_items_spec) (auto simp: q1_def)
  have f3: "free_list_items q2 (free_list q) = Inr q3"
    unfolding q3_def using I(3,5-7) by (intro free_list_items_spec) (auto simp: q1_def q2_def)
  have l: "tx_list q1 = tx_list q" "free_list q2 = free_list q"
    by (simp_all add: q1_def q2_def)
  have res: "ossl_quic_cfq_free q = Inr q3"
    by (simp add: ossl_quic_cfq_free_def f1 l f2 f3)
  have items: "cfq_items q3 = Map.empty"
    using I(7) by (auto simp: q3_def q2_def q1_def restrict_map_def fun_eq_iff domIff)
  have tx: "map (\<lambda>p. callback_of (it_of q1 p)) (tx_list q) = map ?cb (tx_list q)"
    using I(4) unfolding q1_def by (intro map_cong) (auto simp: restrict_map_def)
  have "callback_of (it_of q2 p) = []" if p: "p \<in> set (free_list q)" for p
  proof -
    have "p \<notin> set (new_list q)" "p \<notin> set (tx_list q)"
      using p I(5,6) by auto
    with I(11) [OF p] show ?thesis
      by (simp add: q1_def q2_def callback_of_def)
  qed
  then have fr: "concat (map (\<lambda>p. callback_of (it_of q2 p)) (free_list q)) = []"
    by simp
  have "cfq_freed q3 = cfq_freed q2"
    by (simp only: q3_def fr append_Nil2) simp
  also have "\<dots> = cfq_freed q1 @ concat (map ?cb (tx_list q))"
    by (simp only: q2_def tx) simp
  finally have freed: "cfq_freed q3 = cfq_freed q @ concat (map ?cb (new_list q @ tx_list q))"
    by (simp add: q1_def)
  have "it_of q p = the (cfq_view q p)" if "p \<in> dom (cfq_view q)" for p
    using that cfq_view_cases(1) [OF ok] by auto
  then have "held_callbacks (cfq_view q) = (\<Sum>p \<in> set (new_list q @ tx_list q). mset (?cb p))"
    unfolding held_callbacks_def by (intro sum.cong) (simp_all add: cfq_view_dom [OF ok])
  also have "\<dots> = (\<Sum>p \<leftarrow> new_list q @ tx_list q. mset (?cb p))"
    using I(1,2,4) by (intro sum.distinct_set_conv_list) auto
  also have "\<dots> = mset (concat (map ?cb (new_list q @ tx_list q)))"
    by (simp add: mset_concat comp_def)
  finally show ?thesis
    using res items freed by (intro exI [of _ q3]) simp
qed

section \<open>Properties\<close>

text \<open>
  Property C29. In every state of the control frame queue that any sequence of added, sent, lost and released frames leads to, the head and its
  successors (\<^verbatim>\<open>ossl_quic_cfq_get_priority_head\<close>, \<^verbatim>\<open>ossl_quic_cfq_item_get_priority_next\<close>) enumerate exactly the frames of the packet number space that
  await transmission, each once, in descending numerical priority, without a fault.
\<close>

theorem cfq_hands_out_by_priority:
  assumes "cfq_reach q A"
  shows "\<exists>ps. distinct ps
    \<and> set ps = {p. \<exists>it. cfq_view q p = Some it \<and> it_state it = QUIC_CFQ_STATE_NEW \<and> it_pn_space it = s}
    \<and> sorted_wrt (\<lambda>a b. it_priority (the (cfq_view q b)) \<le> it_priority (the (cfq_view q a))) ps
    \<and> ossl_quic_cfq_get_priority_head q s = Inr (if ps = [] then None else Some (hd ps))
    \<and> (\<forall>i < length ps. ossl_quic_cfq_item_get_priority_next q (Some (ps ! i)) s
          = Inr (if i + 1 < length ps then Some (ps ! (i + 1)) else None))"
proof (intro exI conjI allI impI)
  have ok: "cfq_ok q"
    using cfq_reach_inv [OF assms] by blast
  let ?ps = "cfq_pending q s"
  show "distinct ?ps" "set ?ps = {p. \<exists>it. cfq_view q p = Some it \<and> it_state it = QUIC_CFQ_STATE_NEW \<and> it_pn_space it = s}"
    using pending_sorted(2,3) [OF ok] by blast+
  have "the (cfq_view q p) = it_of q p" if "p \<in> set ?ps" for p
    using that pending_sorted(3) [OF ok, of s] cfq_view_cases(1) [OF ok, of p] by auto
  then show "sorted_wrt (\<lambda>a b. it_priority (the (cfq_view q b)) \<le> it_priority (the (cfq_view q a))) ?ps"
    using pending_sorted(1) [OF ok, of s] by (auto elim!: sorted_wrt_mono_rel [rotated])
  show "ossl_quic_cfq_get_priority_head q s = Inr (if ?ps = [] then None else Some (hd ?ps))"
    by (simp add: priority_head_spec [OF ok] split: list.split)
  fix i assume i: "i < length ?ps"
  have "?ps = take i ?ps @ ?ps ! i # drop (i + 1) ?ps"
    using id_take_nth_drop [OF i] by simp
  from priority_next_spec [OF ok this] show "ossl_quic_cfq_item_get_priority_next q (Some (?ps ! i)) s
      = Inr (if i + 1 < length ?ps then Some (?ps ! (i + 1)) else None)"
    by (simp add: Cons_nth_drop_Suc [symmetric] split: list.split)
qed

text \<open>
  Property C15. The control frame queue acts as a finite map from handles to frames: every operation on a handle it gave out, from every reachable
  state and with or without memory, returns without a fault and changes the map, and the buffers given back, as the specification step of
  that operation does: sent frames are kept, lost ones wait again unless they are unreliable, released and unreliable lost ones leave and their buffers are given back.
\<close>

theorem cfq_refines_frame_map:
  assumes "cfq_reach q A" and "cfq_allowed q op"
  shows "\<exists>q' l. cfq_exec q op = Inr q' \<and> cfq_spec_step (cfq_view q) op (cfq_view q') l \<and> cfq_freed q' = cfq_freed q @ l"
proof -
  obtain q' l where "cfq_exec q op = Inr q'" "cfq_ok q'" "cfq_spec_step (cfq_view q) op (cfq_view q') l" "cfq_freed q' = cfq_freed q @ l"
    using cfq_exec_refines [OF _ assms(2)] cfq_reach_inv [OF assms(1)] by blast
  then show ?thesis
    by blast
qed

text \<open>
  Property C34. Every buffer given to the control frame queue with a callback is given back exactly once: in every reachable state those given
  back so far and those of the frames it still holds are the ones it was given, and \<^verbatim>\<open>ossl_quic_cfq_free\<close> gives the rest back and leaves no item.
\<close>

theorem cfq_gives_buffers_back_once:
  assumes "cfq_reach q A"
  shows "mset A = mset (cfq_freed q) + held_callbacks (cfq_view q)
    \<and> (\<exists>q'. ossl_quic_cfq_free q = Inr q' \<and> mset (cfq_freed q') = mset A \<and> cfq_items q' = Map.empty)"
  using cfq_reach_inv [OF assms] cfq_free_spec [of q] by auto

text \<open>A queue with two frames of one space, the second of the higher priority number, and one frame of another space.\<close>

definition cfq_demo :: "quic_cfq" where
  "cfq_demo = fst (projr (ossl_quic_cfq_add_frame (Some 2) (fst (projr (ossl_quic_cfq_add_frame (Some 1) (the (ossl_quic_cfq_new True))
     1 2 6 0 (Some [1]) 1 (Some 10)))) 5 2 6 0 (Some [2]) 1 (Some 20)))"

lemma cfq_demo_reach: "cfq_reach cfq_demo [(Some [1], 1, 10), (Some [2], 1, 20)]"
proof -
  let ?q0 = "the (ossl_quic_cfq_new True)"
  let ?r1 = "ossl_quic_cfq_add_frame (Some 1) ?q0 1 2 6 0 (Some [1]) 1 (Some 10)"
  let ?r2 = "ossl_quic_cfq_add_frame (Some 2) (fst (projr ?r1)) 5 2 6 0 (Some [2]) 1 (Some 20)"
  have r: "?r1 = Inr (fst (projr ?r1), Some 1)" "?r2 = Inr (cfq_demo, Some 2)" "cfq_items (fst (projr ?r1)) 2 = None"
    by (simp_all add: cfq_demo_def ossl_quic_cfq_new_def ossl_quic_cfq_add_frame_def cfq_get_free_def cfq_put_def cfq_at_def
        cfq_list_insert_tail_def cfq_list_insert_head_def cfq_list_remove_def cfq_list_insert_sorted_def cfq_compare_def Let_def)
  have "cfq_reach ?q0 []"
    by (rule cfq_reach_new) (simp add: ossl_quic_cfq_new_def)
  from cfq_reach_add [OF this _ r(1)] have 1: "cfq_reach (fst (projr ?r1)) [(Some [1], 1, 10)]"
    by (simp add: ossl_quic_cfq_new_def)
  from cfq_reach_add [OF 1 _ r(2)] r(3) show ?thesis
    by simp
qed

lemma cfq_demo_eq: "new_list cfq_demo = [2, 1]" "tx_list cfq_demo = []" "free_list cfq_demo = []"
  "cfq_view cfq_demo 1 \<noteq> None" "cfq_view cfq_demo 2 \<noteq> None"
  by (simp_all add: cfq_demo_def ossl_quic_cfq_new_def ossl_quic_cfq_add_frame_def cfq_get_free_def cfq_put_def cfq_at_def cfq_view_def
        cfq_list_insert_tail_def cfq_list_insert_head_def cfq_list_remove_def cfq_list_insert_sorted_def cfq_compare_def Let_def cfq_states)

theorem cfq_hands_out_by_priority_witness:
  "\<exists>ps. set ps = {p. \<exists>it. cfq_view cfq_demo p = Some it \<and> it_state it = QUIC_CFQ_STATE_NEW \<and> it_pn_space it = 2}
    \<and> ossl_quic_cfq_get_priority_head cfq_demo 2 = Inr (if ps = [] then None else Some (hd ps)) \<and> new_list cfq_demo = [2, 1]"
  using cfq_hands_out_by_priority [OF cfq_demo_reach, of 2] cfq_demo_eq by (elim exE) (rule exI, blast)

theorem cfq_refines_frame_map_witness:
  "\<exists>q' l. cfq_exec cfq_demo (Mark_Tx 2) = Inr q' \<and> cfq_spec_step (cfq_view cfq_demo) (Mark_Tx 2) (cfq_view q') l"
  using cfq_refines_frame_map [OF cfq_demo_reach, of "Mark_Tx 2"] cfq_demo_eq by auto

theorem cfq_gives_buffers_back_once_witness:
  "\<exists>q'. ossl_quic_cfq_free cfq_demo = Inr q' \<and> mset (cfq_freed q') = {#(Some [1], 1, 10), (Some [2], 1, 20)#}"
  using cfq_gives_buffers_back_once [OF cfq_demo_reach] by auto

end
