(* ===== verification/Stream_Map.thy ===== *)
theory Stream_Map
  imports Sstream Rstream
begin

text \<open>
  \<^verbatim>\<open>ssl/quic/quic_stream_map.c\<close> with the inline functions of \<^verbatim>\<open>include/internal/quic_stream_map.h\<close>: the streams of a connection, the state machines
  of their send and receive parts, and the queues of streams with something to send, to be accepted and to be collected. \<^verbatim>\<open>ssl/quic/quic_channel.c\<close>: the functions that
  create streams.

  A pointer to a stream is its id, which no other stream of the connection has; a freed stream is an id that is not in the map. The circular lists of streams are lists
  of ids. The flow controllers of a stream are records of the stores of \<^verbatim>\<open>quic_fc.c\<close> under addresses of their own. The fields of \<^verbatim>\<open>QUIC_STREAM\<close> named
  \<^verbatim>\<open>txp_\<close>, which hold temporary values of the packetiser, are left out.
\<close>

section \<open>Data\<close>

datatype quic_sstream_state = QUIC_SSTREAM_STATE_NONE | QUIC_SSTREAM_STATE_READY | QUIC_SSTREAM_STATE_SEND | QUIC_SSTREAM_STATE_DATA_SENT
  | QUIC_SSTREAM_STATE_DATA_RECVD | QUIC_SSTREAM_STATE_RESET_SENT | QUIC_SSTREAM_STATE_RESET_RECVD

datatype quic_rstream_state = QUIC_RSTREAM_STATE_NONE | QUIC_RSTREAM_STATE_RECV | QUIC_RSTREAM_STATE_SIZE_KNOWN | QUIC_RSTREAM_STATE_DATA_RECVD
  | QUIC_RSTREAM_STATE_DATA_READ | QUIC_RSTREAM_STATE_RESET_RECVD | QUIC_RSTREAM_STATE_RESET_READ

record quic_stream =
  qs_id :: u64
  qs_stop_sending_aec :: u64
  qs_reset_stream_aec :: u64
  qs_peer_stop_sending_aec :: u64
  qs_peer_reset_stream_aec :: u64
  qs_send_final_size :: u64
  qs_sstream :: "quic_sstream option"
  qs_rstream :: "quic_rstream option"
  qs_txfc :: addr
  qs_rxfc :: addr
  qs_type :: u64
  qs_send_state :: quic_sstream_state
  qs_recv_state :: quic_rstream_state
  qs_active :: bool
  qs_as_server :: bool
  qs_stop_sending :: bool
  qs_peer_stop_sending :: bool
  qs_want_max_stream_data :: bool
  qs_want_stop_sending :: bool
  qs_want_reset_stream :: bool
  qs_acked_stop_sending :: bool
  qs_deleted :: bool
  qs_ready_for_gc :: bool
  qs_shutdown_flush :: bool

text \<open>
  \<open>qsm_is_server\<close>: what \<^verbatim>\<open>ossl_quic_channel_is_server\<close> says of the channel. \<open>qsm_flush_done\<close> counts the calls of
  \<^verbatim>\<open>ossl_quic_channel_notify_flush_done\<close>. \<open>qsm_refs\<close>: the references to received packets.
\<close>

record quic_stream_map =
  qsm_map :: "u64 \<Rightarrow> quic_stream option"
  qsm_is_server :: bool
  active_list :: "u64 list"
  accept_list :: "u64 list"
  ready_for_gc_list :: "u64 list"
  rr_stepping :: u64
  rr_counter :: u64
  num_accept_bidi :: u64
  num_accept_uni :: u64
  num_shutdown_flush :: u64
  rr_cur :: "u64 option"
  get_stream_limit_cb :: "(bool \<Rightarrow> u64) option"
  max_streams_bidi_rxfc :: "addr option"
  max_streams_uni_rxfc :: "addr option"
  qsm_txfcs :: txfc_store
  qsm_rxfcs :: rxfc_store
  qsm_refs :: pkt_refs
  qsm_flush_done :: nat

definition QUIC_STREAM_INITIATOR_CLIENT :: u64 where "QUIC_STREAM_INITIATOR_CLIENT = 0"
definition QUIC_STREAM_INITIATOR_SERVER :: u64 where "QUIC_STREAM_INITIATOR_SERVER = 1"
definition QUIC_STREAM_INITIATOR_MASK :: u64 where "QUIC_STREAM_INITIATOR_MASK = 1"
definition QUIC_STREAM_DIR_BIDI :: u64 where "QUIC_STREAM_DIR_BIDI = 0"
definition QUIC_STREAM_DIR_UNI :: u64 where "QUIC_STREAM_DIR_UNI = 2"
definition QUIC_STREAM_DIR_MASK :: u64 where "QUIC_STREAM_DIR_MASK = 2"

section \<open>Streams\<close>

definition ossl_quic_stream_is_server_init :: "quic_stream \<Rightarrow> bool" where
  "ossl_quic_stream_is_server_init s \<longleftrightarrow> qs_type s AND QUIC_STREAM_INITIATOR_MASK = QUIC_STREAM_INITIATOR_SERVER"

definition ossl_quic_stream_is_bidi :: "quic_stream \<Rightarrow> bool" where
  "ossl_quic_stream_is_bidi s \<longleftrightarrow> qs_type s AND QUIC_STREAM_DIR_MASK = QUIC_STREAM_DIR_BIDI"

definition ossl_quic_stream_is_local_init :: "quic_stream \<Rightarrow> bool" where
  "ossl_quic_stream_is_local_init s \<longleftrightarrow> ossl_quic_stream_is_server_init s = qs_as_server s"

definition ossl_quic_stream_has_send :: "quic_stream \<Rightarrow> bool" where
  "ossl_quic_stream_has_send s \<longleftrightarrow> qs_send_state s \<noteq> QUIC_SSTREAM_STATE_NONE"

definition ossl_quic_stream_has_recv :: "quic_stream \<Rightarrow> bool" where
  "ossl_quic_stream_has_recv s \<longleftrightarrow> qs_recv_state s \<noteq> QUIC_RSTREAM_STATE_NONE"

definition ossl_quic_stream_has_send_buffer :: "quic_stream \<Rightarrow> bool" where
  "ossl_quic_stream_has_send_buffer s =
     (case qs_send_state s of
        QUIC_SSTREAM_STATE_READY \<Rightarrow> True | QUIC_SSTREAM_STATE_SEND \<Rightarrow> True | QUIC_SSTREAM_STATE_DATA_SENT \<Rightarrow> True | _ \<Rightarrow> False)"

definition ossl_quic_stream_send_is_reset :: "quic_stream \<Rightarrow> bool" where
  "ossl_quic_stream_send_is_reset s \<longleftrightarrow>
     qs_send_state s = QUIC_SSTREAM_STATE_RESET_SENT \<or> qs_send_state s = QUIC_SSTREAM_STATE_RESET_RECVD"

definition ossl_quic_stream_has_recv_buffer :: "quic_stream \<Rightarrow> bool" where
  "ossl_quic_stream_has_recv_buffer s =
     (case qs_recv_state s of
        QUIC_RSTREAM_STATE_RECV \<Rightarrow> True | QUIC_RSTREAM_STATE_SIZE_KNOWN \<Rightarrow> True | QUIC_RSTREAM_STATE_DATA_RECVD \<Rightarrow> True | _ \<Rightarrow> False)"

definition ossl_quic_stream_recv_is_reset :: "quic_stream \<Rightarrow> bool" where
  "ossl_quic_stream_recv_is_reset s \<longleftrightarrow>
     qs_recv_state s = QUIC_RSTREAM_STATE_RESET_RECVD \<or> qs_recv_state s = QUIC_RSTREAM_STATE_RESET_READ"

text \<open>The send buffer, through its pointer.\<close>

definition qs_sstream_at :: "quic_stream \<Rightarrow> c_fault + quic_sstream" where
  "qs_sstream_at s = (case qs_sstream s of None \<Rightarrow> Inl NullDeref | Some q \<Rightarrow> Inr q)"

definition ossl_quic_stream_send_get_final_size :: "quic_stream \<Rightarrow> c_fault + u64 option" where
  "ossl_quic_stream_send_get_final_size s =
     (case qs_send_state s of
        QUIC_SSTREAM_STATE_SEND \<Rightarrow> res_bind (qs_sstream_at s) (\<lambda>q. Inr (ossl_quic_sstream_get_final_size q))
      | QUIC_SSTREAM_STATE_DATA_SENT \<Rightarrow> Inr (Some (qs_send_final_size s))
      | QUIC_SSTREAM_STATE_DATA_RECVD \<Rightarrow> Inr (Some (qs_send_final_size s))
      | QUIC_SSTREAM_STATE_RESET_SENT \<Rightarrow> Inr (Some (qs_send_final_size s))
      | QUIC_SSTREAM_STATE_RESET_RECVD \<Rightarrow> Inr (Some (qs_send_final_size s))
      | _ \<Rightarrow> Inr None)"

definition ossl_quic_stream_recv_get_final_size :: "quic_stream_map \<Rightarrow> quic_stream \<Rightarrow> u64 option" where
  "ossl_quic_stream_recv_get_final_size m s =
     (if qs_recv_state s = QUIC_RSTREAM_STATE_NONE \<or> qs_recv_state s = QUIC_RSTREAM_STATE_RECV then None
      else ossl_quic_rxfc_get_final_size (qsm_rxfcs m) (qs_rxfc s))"

definition ossl_quic_stream_recv_pending :: "quic_stream \<Rightarrow> bool \<Rightarrow> c_fault + u64" where
  "ossl_quic_stream_recv_pending s include_fin =
     (case qs_recv_state s of
        QUIC_RSTREAM_STATE_NONE \<Rightarrow> Inr 0
      | QUIC_RSTREAM_STATE_RESET_RECVD \<Rightarrow> Inr (if include_fin then 1 else 0)
      | QUIC_RSTREAM_STATE_DATA_READ \<Rightarrow> Inr 0
      | QUIC_RSTREAM_STATE_RESET_READ \<Rightarrow> Inr 0
      | _ \<Rightarrow>
          (case qs_rstream s of
             None \<Rightarrow> Inl NullDeref
           | Some r \<Rightarrow>
               let (avail, fin) = ossl_quic_rstream_available r
               in Inr (if avail = 0 \<and> include_fin \<and> fin then 1 else avail)))"

section \<open>Lists and the map\<close>

text \<open>
  \<open>l\<close> lists the nodes behind the head in order. A node is unlinked when its pointers are null. \<open>qsm_list_next\<close> wraps around: after the last node comes the first.
  \<open>None\<close> as the node is the head of the list.
\<close>

definition qsm_list_insert_tail :: "u64 list \<Rightarrow> u64 \<Rightarrow> u64 list" where
  "qsm_list_insert_tail l n = l @ [n]"

definition qsm_list_remove :: "u64 list \<Rightarrow> u64 \<Rightarrow> c_fault + u64 list" where
  "qsm_list_remove l n = (if n \<in> set l then Inr (remove1 n l) else Inl NullDeref)"

definition qsm_list_next :: "u64 list \<Rightarrow> u64 option \<Rightarrow> c_fault + u64 option" where
  "qsm_list_next l n =
     (case n of
        None \<Rightarrow> Inr (case l of [] \<Rightarrow> None | x # _ \<Rightarrow> Some x)
      | Some n \<Rightarrow>
          if n \<notin> set l then Inl UseAfterFree
          else Inr (case tl (dropWhile (\<lambda>x. x \<noteq> n) l) of
                [] \<Rightarrow> (case l of [] \<Rightarrow> None | x # _ \<Rightarrow> Some x)
              | x # _ \<Rightarrow> Some x))"

definition qsm_at :: "quic_stream_map \<Rightarrow> u64 \<Rightarrow> c_fault + quic_stream" where
  "qsm_at m i = (case qsm_map m i of None \<Rightarrow> Inl UseAfterFree | Some s \<Rightarrow> Inr s)"

definition qsm_put :: "quic_stream_map \<Rightarrow> u64 \<Rightarrow> quic_stream \<Rightarrow> quic_stream_map" where
  "qsm_put m i s = m\<lparr>qsm_map := (qsm_map m)(i \<mapsto> s)\<rparr>"

definition ossl_quic_stream_map_init ::
    "(bool \<Rightarrow> u64) option \<Rightarrow> addr option \<Rightarrow> addr option \<Rightarrow> bool \<Rightarrow> txfc_store \<Rightarrow> rxfc_store \<Rightarrow> pkt_refs \<Rightarrow> quic_stream_map" where
  "ossl_quic_stream_map_init limit_cb bidi_rxfc uni_rxfc is_server txfcs rxfcs refs =
     \<lparr>qsm_map = Map.empty, qsm_is_server = is_server, active_list = [], accept_list = [], ready_for_gc_list = [], rr_stepping = 1, rr_counter = 0,
      num_accept_bidi = 0, num_accept_uni = 0, num_shutdown_flush = 0, rr_cur = None, get_stream_limit_cb = limit_cb,
      max_streams_bidi_rxfc = bidi_rxfc, max_streams_uni_rxfc = uni_rxfc, qsm_txfcs = txfcs, qsm_rxfcs = rxfcs, qsm_refs = refs, qsm_flush_done = 0\<rparr>"

definition ossl_quic_stream_map_get_by_id :: "quic_stream_map \<Rightarrow> u64 \<Rightarrow> quic_stream option" where
  "ossl_quic_stream_map_get_by_id m stream_id = qsm_map m stream_id"

text \<open>
  \<open>alloc\<close>: the addresses of the flow controllers of the new stream, when there is memory for it. \<^verbatim>\<open>OPENSSL_zalloc\<close> zeroes them as well.
\<close>

definition zero_txfc :: txfc where
  "zero_txfc = \<lparr>tx_swm = 0, tx_cwm = 0, tx_parent = None, has_become_blocked = False\<rparr>"

definition zero_rxfc :: rxfc where
  "zero_rxfc = \<lparr>rx_cwm = 0, rx_swm = 0, rx_rwm = 0, rx_esrwm = 0, rx_hwm = 0, cur_window_size = 0, max_window_size = 0, epoch_start = ossl_time_zero,
     rx_parent = None, error_code = 0, has_cwm_changed = False, rx_is_fin = False, standalone = False\<rparr>"

definition zero_stream :: "addr \<Rightarrow> addr \<Rightarrow> quic_stream" where
  "zero_stream txfc rxfc =
     \<lparr>qs_id = 0, qs_stop_sending_aec = 0, qs_reset_stream_aec = 0, qs_peer_stop_sending_aec = 0, qs_peer_reset_stream_aec = 0, qs_send_final_size = 0,
      qs_sstream = None, qs_rstream = None, qs_txfc = txfc, qs_rxfc = rxfc, qs_type = 0, qs_send_state = QUIC_SSTREAM_STATE_NONE,
      qs_recv_state = QUIC_RSTREAM_STATE_NONE, qs_active = False, qs_as_server = False, qs_stop_sending = False, qs_peer_stop_sending = False,
      qs_want_max_stream_data = False, qs_want_stop_sending = False, qs_want_reset_stream = False, qs_acked_stop_sending = False, qs_deleted = False,
      qs_ready_for_gc = False, qs_shutdown_flush = False\<rparr>"

definition ossl_quic_stream_map_alloc :: "(addr \<times> addr) option \<Rightarrow> quic_stream_map \<Rightarrow> u64 \<Rightarrow> u64 \<Rightarrow> quic_stream_map \<times> bool" where
  "ossl_quic_stream_map_alloc alloc m stream_id type =
     (case qsm_map m stream_id of
        Some _ \<Rightarrow> (m, False)
      | None \<Rightarrow>
          case alloc of
            None \<Rightarrow> (m, False)
          | Some (txfc, rxfc) \<Rightarrow>
              let s = (zero_stream txfc rxfc)\<lparr>qs_id := stream_id, qs_type := type, qs_as_server := qsm_is_server m\<rparr>;
                  s = s\<lparr>qs_send_state := (if ossl_quic_stream_is_local_init s \<or> ossl_quic_stream_is_bidi s
                                          then QUIC_SSTREAM_STATE_READY else QUIC_SSTREAM_STATE_NONE)\<rparr>;
                  s = s\<lparr>qs_recv_state := (if \<not> ossl_quic_stream_is_local_init s \<or> ossl_quic_stream_is_bidi s
                                          then QUIC_RSTREAM_STATE_RECV else QUIC_RSTREAM_STATE_NONE)\<rparr>;
                  s = s\<lparr>qs_send_final_size := - 1\<rparr>
              in (qsm_put (m\<lparr>qsm_txfcs := (qsm_txfcs m)(txfc := zero_txfc), qsm_rxfcs := (qsm_rxfcs m)(rxfc := zero_rxfc)\<rparr>) stream_id s, True))"

text \<open>A node is on a list exactly when its pointers are not null.\<close>

definition unlink :: "u64 list \<Rightarrow> u64 \<Rightarrow> c_fault + u64 list" where
  "unlink l n = (if n \<in> set l then qsm_list_remove l n else Inr l)"

definition ossl_quic_stream_map_release :: "quic_stream_map \<Rightarrow> u64 \<Rightarrow> c_fault + quic_stream_map" where
  "ossl_quic_stream_map_release m i =
     res_bind (qsm_at m i) (\<lambda>s.
     res_bind (unlink (active_list m) i) (\<lambda>la.
     res_bind (unlink (accept_list m) i) (\<lambda>lc.
     res_bind (unlink (ready_for_gc_list m) i) (\<lambda>lg.
     Inr (m\<lparr>active_list := la, accept_list := lc, ready_for_gc_list := lg, qsm_refs := ossl_quic_rstream_free (qsm_refs m) (qs_rstream s),
            qsm_map := (qsm_map m)(i := None)\<rparr>)))))"

text \<open>\<open>order\<close>: the order in which the hash table visits its entries.\<close>

fun ossl_quic_stream_map_visit :: "(quic_stream_map \<Rightarrow> u64 \<Rightarrow> c_fault + quic_stream_map) \<Rightarrow> u64 list \<Rightarrow> quic_stream_map \<Rightarrow> c_fault + quic_stream_map" where
  "ossl_quic_stream_map_visit visit_cb [] m = Inr m"
| "ossl_quic_stream_map_visit visit_cb (i # order) m = res_bind (visit_cb m i) (\<lambda>m. ossl_quic_stream_map_visit visit_cb order m)"

definition release_each :: "quic_stream_map \<Rightarrow> u64 \<Rightarrow> c_fault + quic_stream_map" where
  "release_each m i = ossl_quic_stream_map_release m i"

definition ossl_quic_stream_map_cleanup :: "u64 list \<Rightarrow> quic_stream_map \<Rightarrow> c_fault + quic_stream_map" where
  "ossl_quic_stream_map_cleanup order m = ossl_quic_stream_map_visit release_each order m"


section \<open>Active streams\<close>

definition stream_map_mark_active :: "quic_stream_map \<Rightarrow> u64 \<Rightarrow> c_fault + quic_stream_map" where
  "stream_map_mark_active m i =
     res_bind (qsm_at m i) (\<lambda>s.
     if qs_active s then Inr m
     else
       let m = m\<lparr>active_list := qsm_list_insert_tail (active_list m) i\<rparr>;
           m = (if rr_cur m = None then m\<lparr>rr_cur := Some i\<rparr> else m)
       in Inr (qsm_put m i (s\<lparr>qs_active := True\<rparr>)))"

definition stream_map_mark_inactive :: "quic_stream_map \<Rightarrow> u64 \<Rightarrow> c_fault + quic_stream_map" where
  "stream_map_mark_inactive m i =
     res_bind (qsm_at m i) (\<lambda>s.
     if \<not> qs_active s then Inr m
     else
       res_bind (if rr_cur m = Some i then qsm_list_next (active_list m) (Some i) else Inr (rr_cur m)) (\<lambda>c.
       let m = m\<lparr>rr_cur := (if c = Some i then None else c)\<rparr> in
       res_bind (qsm_list_remove (active_list m) i) (\<lambda>l.
       Inr (qsm_put (m\<lparr>active_list := l\<rparr>) i (s\<lparr>qs_active := False\<rparr>)))))"

definition ossl_quic_stream_map_set_rr_stepping :: "quic_stream_map \<Rightarrow> u64 \<Rightarrow> quic_stream_map" where
  "ossl_quic_stream_map_set_rr_stepping m stepping = m\<lparr>rr_stepping := stepping, rr_counter := 0\<rparr>"

definition stream_has_data_to_send :: "quic_stream_map \<Rightarrow> quic_stream \<Rightarrow> c_fault + bool" where
  "stream_has_data_to_send m s =
     (if ossl_quic_stream_has_send_buffer s then
        res_bind (qs_sstream_at s) (\<lambda>q.
        res_bind (ossl_quic_sstream_get_stream_frame q 0 2) (\<lambda>r.
        case r of
          None \<Rightarrow> Inr False
        | Some (shdr, iov) \<Rightarrow>
            let fc_credit = ossl_quic_txfc_get_credit (qsm_txfcs m) (qs_txfc s) 0;
                fc_swm = ossl_quic_txfc_get_swm (qsm_txfcs m) (qs_txfc s);
                fc_limit = fc_swm + fc_credit
            in Inr (fr_is_fin shdr \<and> fr_len shdr = 0 \<or> fr_offset shdr < fc_limit)))
      else Inr False)"

definition qsm_ready_for_gc :: "quic_stream \<Rightarrow> bool" where
  "qsm_ready_for_gc s \<longleftrightarrow>
     qs_deleted s
     \<and> (\<not> ossl_quic_stream_has_recv s \<or> qs_acked_stop_sending s)
     \<and> (\<not> ossl_quic_stream_has_send s \<or> qs_send_state s = QUIC_SSTREAM_STATE_DATA_RECVD
        \<or> qs_send_state s = QUIC_SSTREAM_STATE_RESET_RECVD)"

definition ossl_quic_stream_map_is_local_allowed_by_stream_limit :: "quic_stream_map \<Rightarrow> u64 \<Rightarrow> bool \<Rightarrow> bool" where
  "ossl_quic_stream_map_is_local_allowed_by_stream_limit m stream_ordinal is_uni =
     (case get_stream_limit_cb m of None \<Rightarrow> True | Some cb \<Rightarrow> stream_ordinal < cb is_uni)"

definition shutdown_flush_done :: "quic_stream_map \<Rightarrow> u64 \<Rightarrow> c_fault + quic_stream_map" where
  "shutdown_flush_done m i =
     res_bind (qsm_at m i) (\<lambda>s.
     if \<not> qs_shutdown_flush s then Inr m
     else
       let m = (qsm_put m i (s\<lparr>qs_shutdown_flush := False\<rparr>))\<lparr>num_shutdown_flush := num_shutdown_flush m - 1\<rparr>
       in Inr (if num_shutdown_flush m = 0 then m\<lparr>qsm_flush_done := qsm_flush_done m + 1\<rparr> else m))"

definition ossl_quic_stream_map_notify_totally_acked :: "quic_stream_map \<Rightarrow> u64 \<Rightarrow> c_fault + (quic_stream_map \<times> bool)" where
  "ossl_quic_stream_map_notify_totally_acked m i =
     res_bind (qsm_at m i) (\<lambda>s.
     case qs_send_state s of
       QUIC_SSTREAM_STATE_DATA_SENT \<Rightarrow>
         res_bind (shutdown_flush_done (qsm_put m i (s\<lparr>qs_send_state := QUIC_SSTREAM_STATE_DATA_RECVD, qs_sstream := None\<rparr>)) i) (\<lambda>m. Inr (m, True))
     | _ \<Rightarrow> Inr (m, False))"

text \<open>The first part of \<^verbatim>\<open>ossl_quic_stream_map_update_state\<close>: a send part that is totally acknowledged. Then the streams that can be collected.\<close>

definition update_totally_acked :: "quic_stream_map \<Rightarrow> u64 \<Rightarrow> c_fault + quic_stream_map" where
  "update_totally_acked m i =
     res_bind (qsm_at m i) (\<lambda>s.
     let acked = res_bind (qs_sstream_at s) (\<lambda>q. Inr (ossl_quic_sstream_is_totally_acked q)) in
     res_bind (if qs_send_state s = QUIC_SSTREAM_STATE_DATA_SENT then acked else Inr False) (\<lambda>b.
     if b then res_bind (ossl_quic_stream_map_notify_totally_acked m i) (\<lambda>(m, _). Inr m)
     else res_bind (if qs_shutdown_flush s \<and> qs_send_state s = QUIC_SSTREAM_STATE_SEND then acked else Inr False) (\<lambda>b.
       if b then shutdown_flush_done m i else Inr m)))"

definition update_ready_for_gc :: "quic_stream_map \<Rightarrow> u64 \<Rightarrow> c_fault + quic_stream_map" where
  "update_ready_for_gc m i =
     res_bind (qsm_at m i) (\<lambda>s.
     if qs_ready_for_gc s then Inr m
     else
       let ready = qsm_ready_for_gc s;
           m = qsm_put m i (s\<lparr>qs_ready_for_gc := ready\<rparr>)
       in Inr (if ready then m\<lparr>ready_for_gc_list := qsm_list_insert_tail (ready_for_gc_list m) i\<rparr> else m))"

definition should_be_active :: "quic_stream_map \<Rightarrow> bool \<Rightarrow> quic_stream \<Rightarrow> c_fault + bool" where
  "should_be_active m allowed_by_stream_limit s =
     (if \<not> allowed_by_stream_limit \<or> qs_ready_for_gc s then Inr False
      else if ossl_quic_stream_has_recv s \<and> \<not> ossl_quic_stream_recv_is_reset s
              \<and> qs_recv_state s = QUIC_RSTREAM_STATE_RECV
              \<and> (qs_want_max_stream_data s \<or> snd (ossl_quic_rxfc_has_cwm_changed (qsm_rxfcs m) (qs_rxfc s) False))
           then Inr True
      else if qs_want_stop_sending s \<or> qs_want_reset_stream s then Inr True
      else if qs_peer_stop_sending s then Inr False
      else stream_has_data_to_send m s)"

definition ossl_quic_stream_map_update_state :: "quic_stream_map \<Rightarrow> u64 \<Rightarrow> c_fault + quic_stream_map" where
  "ossl_quic_stream_map_update_state m i =
     res_bind (qsm_at m i) (\<lambda>s.
     let allowed_by_stream_limit =
           (if ossl_quic_stream_is_server_init s = qsm_is_server m
            then ossl_quic_stream_map_is_local_allowed_by_stream_limit m (drop_bit 2 (qs_id s)) (\<not> ossl_quic_stream_is_bidi s)
            else True)
     in
     res_bind (update_totally_acked m i) (\<lambda>m.
     res_bind (update_ready_for_gc m i) (\<lambda>m.
     res_bind (qsm_at m i) (\<lambda>s.
     res_bind (should_be_active m allowed_by_stream_limit s) (\<lambda>b.
     if b then stream_map_mark_active m i else stream_map_mark_inactive m i)))))"

section \<open>The send part\<close>

definition ossl_quic_stream_map_ensure_send_part_id :: "quic_stream_map \<Rightarrow> u64 \<Rightarrow> c_fault + (quic_stream_map \<times> bool)" where
  "ossl_quic_stream_map_ensure_send_part_id m i =
     res_bind (qsm_at m i) (\<lambda>s.
     case qs_send_state s of
       QUIC_SSTREAM_STATE_NONE \<Rightarrow> Inr (m, False)
     | QUIC_SSTREAM_STATE_READY \<Rightarrow> Inr (qsm_put m i (s\<lparr>qs_send_state := QUIC_SSTREAM_STATE_SEND\<rparr>), True)
     | _ \<Rightarrow> Inr (m, True))"

definition ossl_quic_stream_map_notify_all_data_sent :: "quic_stream_map \<Rightarrow> u64 \<Rightarrow> c_fault + (quic_stream_map \<times> bool)" where
  "ossl_quic_stream_map_notify_all_data_sent m i =
     res_bind (qsm_at m i) (\<lambda>s.
     case qs_send_state s of
       QUIC_SSTREAM_STATE_SEND \<Rightarrow>
         res_bind (qs_sstream_at s) (\<lambda>q.
         case ossl_quic_sstream_get_final_size q of
           None \<Rightarrow> Inr (m, False)
         | Some n \<Rightarrow> Inr (qsm_put m i (s\<lparr>qs_send_final_size := n, qs_send_state := QUIC_SSTREAM_STATE_DATA_SENT\<rparr>), True))
     | _ \<Rightarrow> Inr (m, False))"

text \<open>The code of the last case of \<^verbatim>\<open>ossl_quic_stream_map_reset_stream_send_part\<close>, which the cases before it fall into.\<close>

definition reset_send_part :: "quic_stream_map \<Rightarrow> u64 \<Rightarrow> u64 \<Rightarrow> c_fault + (quic_stream_map \<times> bool)" where
  "reset_send_part m i aec =
     res_bind (qsm_at m i) (\<lambda>s.
     res_bind (shutdown_flush_done (qsm_put m i (s\<lparr>qs_reset_stream_aec := aec, qs_want_reset_stream := True,
       qs_send_state := QUIC_SSTREAM_STATE_RESET_SENT, qs_sstream := None\<rparr>)) i) (\<lambda>m.
     res_bind (ossl_quic_stream_map_update_state m i) (\<lambda>m. Inr (m, True))))"

definition reset_from_send :: "quic_stream_map \<Rightarrow> u64 \<Rightarrow> u64 \<Rightarrow> c_fault + (quic_stream_map \<times> bool)" where
  "reset_from_send m i aec =
     res_bind (qsm_at m i) (\<lambda>s.
     reset_send_part (qsm_put m i (s\<lparr>qs_send_final_size := ossl_quic_txfc_get_swm (qsm_txfcs m) (qs_txfc s)\<rparr>)) i aec)"

definition ossl_quic_stream_map_reset_stream_send_part :: "quic_stream_map \<Rightarrow> u64 \<Rightarrow> u64 \<Rightarrow> c_fault + (quic_stream_map \<times> bool)" where
  "ossl_quic_stream_map_reset_stream_send_part m i aec =
     res_bind (qsm_at m i) (\<lambda>s.
     case qs_send_state s of
       QUIC_SSTREAM_STATE_READY \<Rightarrow>
         res_bind (ossl_quic_stream_map_ensure_send_part_id m i) (\<lambda>(m, ok).
         if \<not> ok then Inr (m, False) else reset_from_send m i aec)
     | QUIC_SSTREAM_STATE_SEND \<Rightarrow> reset_from_send m i aec
     | QUIC_SSTREAM_STATE_DATA_SENT \<Rightarrow> reset_send_part m i aec
     | QUIC_SSTREAM_STATE_RESET_SENT \<Rightarrow> Inr (m, True)
     | QUIC_SSTREAM_STATE_RESET_RECVD \<Rightarrow> Inr (m, True)
     | QUIC_SSTREAM_STATE_DATA_RECVD \<Rightarrow> Inr (m, False)
     | QUIC_SSTREAM_STATE_NONE \<Rightarrow> Inr (m, False))"

definition ossl_quic_stream_map_notify_reset_stream_acked :: "quic_stream_map \<Rightarrow> u64 \<Rightarrow> c_fault + (quic_stream_map \<times> bool)" where
  "ossl_quic_stream_map_notify_reset_stream_acked m i =
     res_bind (qsm_at m i) (\<lambda>s.
     case qs_send_state s of
       QUIC_SSTREAM_STATE_RESET_SENT \<Rightarrow> Inr (qsm_put m i (s\<lparr>qs_send_state := QUIC_SSTREAM_STATE_RESET_RECVD\<rparr>), True)
     | QUIC_SSTREAM_STATE_RESET_RECVD \<Rightarrow> Inr (m, True)
     | _ \<Rightarrow> Inr (m, False))"

section \<open>The receive part\<close>

definition ossl_quic_stream_map_notify_size_known_recv_part :: "quic_stream_map \<Rightarrow> u64 \<Rightarrow> u64 \<Rightarrow> c_fault + (quic_stream_map \<times> bool)" where
  "ossl_quic_stream_map_notify_size_known_recv_part m i final_size =
     res_bind (qsm_at m i) (\<lambda>s.
     case qs_recv_state s of
       QUIC_RSTREAM_STATE_RECV \<Rightarrow> Inr (qsm_put m i (s\<lparr>qs_recv_state := QUIC_RSTREAM_STATE_SIZE_KNOWN\<rparr>), True)
     | _ \<Rightarrow> Inr (m, False))"

definition ossl_quic_stream_map_notify_totally_received :: "quic_stream_map \<Rightarrow> u64 \<Rightarrow> c_fault + (quic_stream_map \<times> bool)" where
  "ossl_quic_stream_map_notify_totally_received m i =
     res_bind (qsm_at m i) (\<lambda>s.
     case qs_recv_state s of
       QUIC_RSTREAM_STATE_SIZE_KNOWN \<Rightarrow>
         Inr (qsm_put m i (s\<lparr>qs_recv_state := QUIC_RSTREAM_STATE_DATA_RECVD, qs_want_stop_sending := False\<rparr>), True)
     | _ \<Rightarrow> Inr (m, False))"

definition ossl_quic_stream_map_notify_totally_read :: "quic_stream_map \<Rightarrow> u64 \<Rightarrow> c_fault + (quic_stream_map \<times> bool)" where
  "ossl_quic_stream_map_notify_totally_read m i =
     res_bind (qsm_at m i) (\<lambda>s.
     case qs_recv_state s of
       QUIC_RSTREAM_STATE_DATA_RECVD \<Rightarrow>
         Inr ((qsm_put m i (s\<lparr>qs_recv_state := QUIC_RSTREAM_STATE_DATA_READ, qs_rstream := None\<rparr>))
           \<lparr>qsm_refs := ossl_quic_rstream_free (qsm_refs m) (qs_rstream s)\<rparr>, True)
     | _ \<Rightarrow> Inr (m, False))"

definition ossl_quic_stream_map_notify_reset_recv_part :: "quic_stream_map \<Rightarrow> u64 \<Rightarrow> u64 \<Rightarrow> u64 \<Rightarrow> c_fault + (quic_stream_map \<times> bool)" where
  "ossl_quic_stream_map_notify_reset_recv_part m i app_error_code final_size =
     res_bind (qsm_at m i) (\<lambda>s.
     if ossl_quic_stream_has_recv_buffer s then
       if (case ossl_quic_stream_recv_get_final_size m s of None \<Rightarrow> False | Some prev_final_size \<Rightarrow> prev_final_size \<noteq> final_size)
       then Inr (m, False)
       else
         let m' = (qsm_put m i (s\<lparr>qs_recv_state := QUIC_RSTREAM_STATE_RESET_RECVD, qs_peer_reset_stream_aec := app_error_code,
                     qs_want_stop_sending := False, qs_rstream := None\<rparr>))\<lparr>qsm_refs := ossl_quic_rstream_free (qsm_refs m) (qs_rstream s)\<rparr>
         in res_bind (ossl_quic_stream_map_update_state m' i) (\<lambda>m. Inr (m, True))
     else Inr (m, ossl_quic_stream_has_recv s))"

definition ossl_quic_stream_map_notify_app_read_reset_recv_part :: "quic_stream_map \<Rightarrow> u64 \<Rightarrow> c_fault + (quic_stream_map \<times> bool)" where
  "ossl_quic_stream_map_notify_app_read_reset_recv_part m i =
     res_bind (qsm_at m i) (\<lambda>s.
     case qs_recv_state s of
       QUIC_RSTREAM_STATE_RESET_RECVD \<Rightarrow> Inr (qsm_put m i (s\<lparr>qs_recv_state := QUIC_RSTREAM_STATE_RESET_READ\<rparr>), True)
     | _ \<Rightarrow> Inr (m, False))"

definition ossl_quic_stream_map_schedule_stop_sending :: "quic_stream_map \<Rightarrow> u64 \<Rightarrow> c_fault + (quic_stream_map \<times> bool)" where
  "ossl_quic_stream_map_schedule_stop_sending m i =
     res_bind (qsm_at m i) (\<lambda>s.
     if \<not> qs_stop_sending s then Inr (m, False)
     else if qs_want_stop_sending s then Inr (m, True)
     else if qs_recv_state s \<noteq> QUIC_RSTREAM_STATE_RECV \<and> qs_recv_state s \<noteq> QUIC_RSTREAM_STATE_SIZE_KNOWN then Inr (m, True)
     else res_bind (ossl_quic_stream_map_update_state (qsm_put m i (s\<lparr>qs_want_stop_sending := True\<rparr>)) i) (\<lambda>m. Inr (m, True)))"

definition ossl_quic_stream_map_stop_sending_recv_part :: "quic_stream_map \<Rightarrow> u64 \<Rightarrow> u64 \<Rightarrow> c_fault + (quic_stream_map \<times> bool)" where
  "ossl_quic_stream_map_stop_sending_recv_part m i aec =
     res_bind (qsm_at m i) (\<lambda>s.
     if qs_stop_sending s then Inr (m, False)
     else if qs_recv_state s \<noteq> QUIC_RSTREAM_STATE_RECV \<and> qs_recv_state s \<noteq> QUIC_RSTREAM_STATE_SIZE_KNOWN then Inr (m, False)
     else ossl_quic_stream_map_schedule_stop_sending (qsm_put m i (s\<lparr>qs_stop_sending := True, qs_stop_sending_aec := aec\<rparr>)) i)"

section \<open>The accept queue\<close>

definition ossl_quic_stream_map_get_accept_queue_len :: "quic_stream_map \<Rightarrow> bool \<Rightarrow> u64" where
  "ossl_quic_stream_map_get_accept_queue_len m is_uni = (if is_uni then num_accept_uni m else num_accept_bidi m)"

definition ossl_quic_stream_map_get_total_accept_queue_len :: "quic_stream_map \<Rightarrow> u64" where
  "ossl_quic_stream_map_get_total_accept_queue_len m =
     ossl_quic_stream_map_get_accept_queue_len m False + ossl_quic_stream_map_get_accept_queue_len m True"

definition ossl_quic_stream_map_peek_accept_queue :: "quic_stream_map \<Rightarrow> u64 option" where
  "ossl_quic_stream_map_peek_accept_queue m = (case accept_list m of [] \<Rightarrow> None | i # _ \<Rightarrow> Some i)"

text \<open>The walk over the accept queue, which is circular: it ends at a stream of the wanted kind or never. \<open>None\<close>: it does not return.\<close>

partial_function (option) find_accept_walk :: "quic_stream_map \<Rightarrow> bool \<Rightarrow> u64 option \<Rightarrow> (c_fault + u64 option) option" where
  "find_accept_walk m is_uni qs =
     (case qs of
        None \<Rightarrow> Some (Inr None)
      | Some i \<Rightarrow>
          case qsm_at m i of
            Inl e \<Rightarrow> Some (Inl e)
          | Inr s \<Rightarrow>
              if is_uni \<and> \<not> ossl_quic_stream_is_bidi s \<or> \<not> is_uni \<and> ossl_quic_stream_is_bidi s then Some (Inr (Some i))
              else
                case qsm_list_next (accept_list m) (Some i) of
                  Inl e \<Rightarrow> Some (Inl e)
                | Inr n \<Rightarrow> find_accept_walk m is_uni n)"

definition ossl_quic_stream_map_find_in_accept_queue :: "quic_stream_map \<Rightarrow> bool \<Rightarrow> (c_fault + u64 option) option" where
  "ossl_quic_stream_map_find_in_accept_queue m is_uni =
     (if ossl_quic_stream_map_get_accept_queue_len m is_uni = 0 then Some (Inr None)
      else find_accept_walk m is_uni (ossl_quic_stream_map_peek_accept_queue m))"

definition ossl_quic_stream_map_push_accept_queue :: "quic_stream_map \<Rightarrow> u64 \<Rightarrow> c_fault + quic_stream_map" where
  "ossl_quic_stream_map_push_accept_queue m i =
     res_bind (qsm_at m i) (\<lambda>s.
     let m = m\<lparr>accept_list := qsm_list_insert_tail (accept_list m) i\<rparr>
     in Inr (if ossl_quic_stream_is_bidi s then m\<lparr>num_accept_bidi := num_accept_bidi m + 1\<rparr> else m\<lparr>num_accept_uni := num_accept_uni m + 1\<rparr>))"

definition qsm_get_max_streams_rxfc :: "quic_stream_map \<Rightarrow> quic_stream \<Rightarrow> addr option" where
  "qsm_get_max_streams_rxfc m s = (if ossl_quic_stream_is_bidi s then max_streams_bidi_rxfc m else max_streams_uni_rxfc m)"

definition ossl_quic_stream_map_remove_from_accept_queue ::
    "ossl_time \<Rightarrow> quic_stream_map \<Rightarrow> u64 \<Rightarrow> ossl_time \<Rightarrow> c_fault + quic_stream_map" where
  "ossl_quic_stream_map_remove_from_accept_queue now m i rtt =
     res_bind (qsm_at m i) (\<lambda>s.
     res_bind (qsm_list_remove (accept_list m) i) (\<lambda>l.
     let m = m\<lparr>accept_list := l\<rparr>;
         m = (if ossl_quic_stream_is_bidi s then m\<lparr>num_accept_bidi := num_accept_bidi m - 1\<rparr> else m\<lparr>num_accept_uni := num_accept_uni m - 1\<rparr>)
     in case qsm_get_max_streams_rxfc m s of
          None \<Rightarrow> Inr m
        | Some max_streams_rxfc \<Rightarrow>
            res_bind (ossl_quic_rxfc_on_retire now (qsm_rxfcs m) max_streams_rxfc 1 rtt) (\<lambda>(h, _). Inr (m\<lparr>qsm_rxfcs := h\<rparr>))))"

section \<open>Collection and shutdown\<close>

text \<open>The loop of \<^verbatim>\<open>ossl_quic_stream_map_gc\<close>; \<open>None\<close> when it does not return.\<close>

partial_function (option) gc_loop :: "quic_stream_map \<Rightarrow> u64 option \<Rightarrow> u64 option \<Rightarrow> (c_fault + quic_stream_map) option" where
  "gc_loop m qs qs_head =
     (if qs \<noteq> None \<and> qs \<noteq> qs_head then
        case res_bind (qsm_list_next (ready_for_gc_list m) qs) (\<lambda>qsn.
             res_bind (ossl_quic_stream_map_release m (the qs)) (\<lambda>m. Inr (qsn, m))) of
          Inl e \<Rightarrow> Some (Inl e)
        | Inr (qsn, m) \<Rightarrow> gc_loop m qsn qs_head
      else Some (Inr m))"

definition ossl_quic_stream_map_gc :: "quic_stream_map \<Rightarrow> (c_fault + quic_stream_map) option" where
  "ossl_quic_stream_map_gc m =
     (case qsm_list_next (ready_for_gc_list m) None of
        Inl e \<Rightarrow> Some (Inl e)
      | Inr head \<Rightarrow> gc_loop m head head)"

definition eligible_for_shutdown_flush :: "quic_stream \<Rightarrow> c_fault + bool" where
  "eligible_for_shutdown_flush s =
     (case qs_send_state s of
        QUIC_SSTREAM_STATE_SEND \<Rightarrow> res_bind (qs_sstream_at s) (\<lambda>q. Inr (\<not> ossl_quic_sstream_is_totally_acked q))
      | QUIC_SSTREAM_STATE_DATA_SENT \<Rightarrow> res_bind (qs_sstream_at s) (\<lambda>q. Inr (\<not> ossl_quic_sstream_is_totally_acked q))
      | _ \<Rightarrow> Inr False)"

definition begin_shutdown_flush_each :: "quic_stream_map \<Rightarrow> u64 \<Rightarrow> c_fault + quic_stream_map" where
  "begin_shutdown_flush_each m i =
     res_bind (qsm_at m i) (\<lambda>s.
     res_bind (eligible_for_shutdown_flush s) (\<lambda>b.
     if \<not> b \<or> qs_shutdown_flush s then Inr m
     else Inr ((qsm_put m i (s\<lparr>qs_shutdown_flush := True\<rparr>))\<lparr>num_shutdown_flush := num_shutdown_flush m + 1\<rparr>)))"

definition ossl_quic_stream_map_begin_shutdown_flush :: "u64 list \<Rightarrow> quic_stream_map \<Rightarrow> c_fault + quic_stream_map" where
  "ossl_quic_stream_map_begin_shutdown_flush order m =
     ossl_quic_stream_map_visit begin_shutdown_flush_each order (m\<lparr>num_shutdown_flush := 0\<rparr>)"

definition ossl_quic_stream_map_is_shutdown_flush_finished :: "quic_stream_map \<Rightarrow> bool" where
  "ossl_quic_stream_map_is_shutdown_flush_finished m \<longleftrightarrow> num_shutdown_flush m = 0"

section \<open>Iteration\<close>

record quic_stream_iter =
  iter_first_stream :: "u64 option"
  iter_stream :: "u64 option"

definition ossl_quic_stream_iter_init :: "quic_stream_map \<Rightarrow> bool \<Rightarrow> c_fault + (quic_stream_map \<times> quic_stream_iter)" where
  "ossl_quic_stream_iter_init m advance_rr =
     (let it = \<lparr>iter_first_stream = rr_cur m, iter_stream = rr_cur m\<rparr> in
      if advance_rr \<and> rr_cur m \<noteq> None then
        let m = m\<lparr>rr_counter := rr_counter m + 1\<rparr> in
        if rr_counter m \<ge> rr_stepping m then
          res_bind (qsm_list_next (active_list m) (rr_cur m)) (\<lambda>c. Inr (m\<lparr>rr_counter := 0, rr_cur := c\<rparr>, it))
        else Inr (m, it)
      else Inr (m, it))"

definition ossl_quic_stream_iter_next :: "quic_stream_map \<Rightarrow> quic_stream_iter \<Rightarrow> c_fault + quic_stream_iter" where
  "ossl_quic_stream_iter_next m it =
     (case iter_stream it of
        None \<Rightarrow> Inr it
      | Some i \<Rightarrow>
          res_bind (qsm_list_next (active_list m) (Some i)) (\<lambda>n.
          Inr (it\<lparr>iter_stream := (if n = iter_first_stream it then None else n)\<rparr>)))"


section \<open>Well-formed stream maps\<close>

text \<open>The buffers exist in the states that have them, and only streams with something to flush are counted as such.\<close>

definition stream_ok :: "quic_stream \<Rightarrow> bool" where
  "stream_ok s \<longleftrightarrow>
     (case qs_sstream s of None \<Rightarrow> \<not> ossl_quic_stream_has_send_buffer s | Some q \<Rightarrow> ossl_quic_stream_has_send_buffer s \<and> (\<exists>S. sstream_ok q S))
     \<and> (qs_rstream s \<noteq> None \<longleftrightarrow> ossl_quic_stream_has_recv_buffer s)
     \<and> (qs_shutdown_flush s \<longrightarrow> qs_send_state s = QUIC_SSTREAM_STATE_SEND \<or> qs_send_state s = QUIC_SSTREAM_STATE_DATA_SENT)"

text \<open>A send part whose data and FIN are all acknowledged leaves the state DATA_SENT.\<close>

definition stream_settled :: "quic_stream \<Rightarrow> bool" where
  "stream_settled s \<longleftrightarrow>
     (qs_send_state s = QUIC_SSTREAM_STATE_DATA_SENT \<longrightarrow> (\<exists>q. qs_sstream s = Some q \<and> \<not> ossl_quic_sstream_is_totally_acked q))"

text \<open>The lists hold the streams whose flags say so, each once; the counts count them; the round-robin position is an active stream.\<close>

definition flagged :: "(quic_stream \<Rightarrow> bool) \<Rightarrow> quic_stream_map \<Rightarrow> u64 set" where
  "flagged f m = {i. \<exists>s. qsm_map m i = Some s \<and> f s}"

definition accept_of_kind :: "quic_stream_map \<Rightarrow> bool \<Rightarrow> u64 list" where
  "accept_of_kind m bidi = filter (\<lambda>i. ossl_quic_stream_is_bidi (the (qsm_map m i)) = bidi) (accept_list m)"

definition lists_ok :: "quic_stream_map \<Rightarrow> bool" where
  "lists_ok m \<longleftrightarrow>
     (\<forall>i s. qsm_map m i = Some s \<longrightarrow> qs_id s = i \<and> qs_as_server s = qsm_is_server m)
     \<and> distinct (active_list m) \<and> set (active_list m) = flagged qs_active m
     \<and> distinct (ready_for_gc_list m) \<and> set (ready_for_gc_list m) = flagged qs_ready_for_gc m
     \<and> distinct (accept_list m) \<and> set (accept_list m) \<subseteq> dom (qsm_map m)
     \<and> num_accept_bidi m = of_nat (length (accept_of_kind m True)) \<and> num_accept_uni m = of_nat (length (accept_of_kind m False))
     \<and> num_shutdown_flush m = of_nat (card (flagged qs_shutdown_flush m))
     \<and> (rr_cur m = None \<longleftrightarrow> active_list m = []) \<and> (\<forall>c. rr_cur m = Some c \<longrightarrow> c \<in> set (active_list m))"

definition qsm_ok :: "quic_stream_map \<Rightarrow> bool" where
  "qsm_ok m \<longleftrightarrow> lists_ok m \<and> (\<forall>i s. qsm_map m i = Some s \<longrightarrow> stream_ok s)"

definition qsm_settled :: "quic_stream_map \<Rightarrow> bool" where
  "qsm_settled m \<longleftrightarrow> (\<forall>i s. qsm_map m i = Some s \<longrightarrow> stream_settled s)"

lemma lists_okD:
  assumes "lists_ok m"
  shows "qsm_map m i = Some s \<Longrightarrow> qs_id s = i" and "qsm_map m i = Some s \<Longrightarrow> qs_as_server s = qsm_is_server m"
    and "distinct (active_list m)" and "i \<in> set (active_list m) \<longleftrightarrow> i \<in> flagged qs_active m"
    and "distinct (ready_for_gc_list m)" and "i \<in> set (ready_for_gc_list m) \<longleftrightarrow> i \<in> flagged qs_ready_for_gc m"
    and "distinct (accept_list m)" and "i \<in> set (accept_list m) \<Longrightarrow> \<exists>s. qsm_map m i = Some s"
    and "num_accept_bidi m = of_nat (length (accept_of_kind m True))" and "num_accept_uni m = of_nat (length (accept_of_kind m False))"
    and "num_shutdown_flush m = of_nat (card (flagged qs_shutdown_flush m))"
    and "rr_cur m = None \<longleftrightarrow> active_list m = []" and "rr_cur m = Some c \<Longrightarrow> c \<in> set (active_list m)"
  using assms by (auto simp: lists_ok_def)

lemma qsm_put_simps [simp]:
  "qsm_map (qsm_put m i s) = (qsm_map m)(i \<mapsto> s)" "active_list (qsm_put m i s) = active_list m" "accept_list (qsm_put m i s) = accept_list m"
  "ready_for_gc_list (qsm_put m i s) = ready_for_gc_list m" "num_accept_bidi (qsm_put m i s) = num_accept_bidi m"
  "num_accept_uni (qsm_put m i s) = num_accept_uni m" "num_shutdown_flush (qsm_put m i s) = num_shutdown_flush m" "rr_cur (qsm_put m i s) = rr_cur m"
  "qsm_is_server (qsm_put m i s) = qsm_is_server m" "get_stream_limit_cb (qsm_put m i s) = get_stream_limit_cb m"
  "qsm_txfcs (qsm_put m i s) = qsm_txfcs m" "qsm_rxfcs (qsm_put m i s) = qsm_rxfcs m" "rr_stepping (qsm_put m i s) = rr_stepping m"
  "rr_counter (qsm_put m i s) = rr_counter m" "qsm_flush_done (qsm_put m i s) = qsm_flush_done m"
  "max_streams_bidi_rxfc (qsm_put m i s) = max_streams_bidi_rxfc m" "max_streams_uni_rxfc (qsm_put m i s) = max_streams_uni_rxfc m"
  by (simp_all add: qsm_put_def)

lemma qsm_at_Some [simp]: "qsm_map m i = Some s \<Longrightarrow> qsm_at m i = Inr s"
  by (simp add: qsm_at_def)

lemma flagged_upd: "qsm_map m' = (qsm_map m)(i \<mapsto> s) \<Longrightarrow> flagged f m' = (if f s then insert i (flagged f m) else flagged f m - {i})"
  by (auto simp: flagged_def)

lemma flagged_put:
  assumes "qsm_map m i = Some s" and "qsm_map m' = (qsm_map m)(i \<mapsto> s')"
  shows "flagged f m' = (if f s' = f s then flagged f m else if f s' then insert i (flagged f m) else flagged f m - {i})"
  unfolding flagged_upd [OF assms(2)] using assms(1) by (auto simp: flagged_def)

lemma flagged_at: "qsm_map m i = Some s \<Longrightarrow> i \<in> flagged f m \<longleftrightarrow> f s"
  by (auto simp: flagged_def)

lemma accept_of_kind_cong:
  assumes "accept_list m' = accept_list m" and "\<forall>i \<in> set (accept_list m). qs_type (the (qsm_map m' i)) = qs_type (the (qsm_map m i))"
  shows "accept_of_kind m' b = accept_of_kind m b"
  unfolding accept_of_kind_def assms(1) using assms(2) by (intro filter_cong) (simp_all add: ossl_quic_stream_is_bidi_def)

text \<open>Changing fields of a stream that no list depends on.\<close>

lemma lists_ok_put:
  assumes ok: "lists_ok m" and s: "qsm_map m i = Some s" and same: "qs_id s' = qs_id s" "qs_as_server s' = qs_as_server s" "qs_type s' = qs_type s"
    "qs_active s' = qs_active s" "qs_ready_for_gc s' = qs_ready_for_gc s" "qs_shutdown_flush s' = qs_shutdown_flush s"
    and m': "qsm_map m' = (qsm_map m)(i \<mapsto> s')" "active_list m' = active_list m" "accept_list m' = accept_list m"
    "ready_for_gc_list m' = ready_for_gc_list m" "num_accept_bidi m' = num_accept_bidi m" "num_accept_uni m' = num_accept_uni m"
    "num_shutdown_flush m' = num_shutdown_flush m" "rr_cur m' = rr_cur m" "qsm_is_server m' = qsm_is_server m"
  shows "lists_ok m'"
proof -
  have f: "flagged qs_active m' = flagged qs_active m" "flagged qs_ready_for_gc m' = flagged qs_ready_for_gc m"
    "flagged qs_shutdown_flush m' = flagged qs_shutdown_flush m"
    by (simp_all add: flagged_put [OF s m'(1)] same)
  have a: "accept_of_kind m' b = accept_of_kind m b" for b
    using same(3) s by (intro accept_of_kind_cong [OF m'(3)]) (simp add: m'(1))
  show ?thesis
    using ok s same(1,2) unfolding lists_ok_def f a m' by auto
qed

section \<open>Marking streams\<close>

lemma mark_active_spec:
  assumes ok: "lists_ok m" and s: "qsm_map m i = Some s"
  obtains m' where "stream_map_mark_active m i = Inr m'" "lists_ok m'" "qsm_map m' = (qsm_map m)(i \<mapsto> s\<lparr>qs_active := True\<rparr>)"
proof (cases "qs_active s")
  case True
  then have "s\<lparr>qs_active := True\<rparr> = s"
    by simp
  with True s ok show ?thesis
    by (intro that [of m]) (simp_all add: stream_map_mark_active_def fun_upd_idem)
next
  case False
  note D = lists_okD [OF ok]
  let ?s = "s\<lparr>qs_active := True\<rparr>"
  define m' where "m' = (let m = m\<lparr>active_list := qsm_list_insert_tail (active_list m) i\<rparr>; m = (if rr_cur m = None then m\<lparr>rr_cur := Some i\<rparr> else m)
       in qsm_put m i ?s)"
  have m': "qsm_map m' = (qsm_map m)(i \<mapsto> ?s)" "active_list m' = active_list m @ [i]" "accept_list m' = accept_list m"
    "ready_for_gc_list m' = ready_for_gc_list m" "num_accept_bidi m' = num_accept_bidi m" "num_accept_uni m' = num_accept_uni m"
    "num_shutdown_flush m' = num_shutdown_flush m" "rr_cur m' = (if rr_cur m = None then Some i else rr_cur m)" "qsm_is_server m' = qsm_is_server m"
    by (simp_all add: m'_def Let_def qsm_list_insert_tail_def)
  have "i \<notin> set (active_list m)"
    using False D(4) [of i] flagged_at [OF s] by simp
  moreover have f: "flagged qs_active m' = insert i (flagged qs_active m)" "flagged qs_ready_for_gc m' = flagged qs_ready_for_gc m"
    "flagged qs_shutdown_flush m' = flagged qs_shutdown_flush m"
    using False by (simp_all add: flagged_put [OF s m'(1)])
  moreover have a: "accept_of_kind m' b = accept_of_kind m b" for b
    using s by (intro accept_of_kind_cong [OF m'(3)]) (simp add: m'(1))
  ultimately have "lists_ok m'"
    using ok s unfolding lists_ok_def f a m' by auto
  moreover have "stream_map_mark_active m i = Inr m'"
    using False s by (simp add: stream_map_mark_active_def m'_def Let_def)
  ultimately show ?thesis
    using m'(1) that by blast
qed

lemma list_next_spec:
  assumes "i \<in> set l" and "distinct l"
  obtains n where "qsm_list_next l (Some i) = Inr (Some n)" "n \<in> set l" "n = i \<longleftrightarrow> l = [i]"
proof -
  obtain xs ys where l: "l = xs @ i # ys" "i \<notin> set xs"
    using assms(1) by (metis in_set_conv_decomp_first)
  have d: "dropWhile (\<lambda>x. x \<noteq> i) l = i # ys"
    using l(2) unfolding l(1) by (induction xs) auto
  show ?thesis
  proof (cases ys)
    case Nil
    then show ?thesis
      using l d assms(2) by (cases xs) (auto intro: that simp: qsm_list_next_def)
  next
    case (Cons y zs)
    then show ?thesis
      using l d assms(2) by (intro that [of y]) (auto simp: qsm_list_next_def)
  qed
qed

lemma mark_inactive_spec:
  assumes ok: "lists_ok m" and s: "qsm_map m i = Some s"
  obtains m' where "stream_map_mark_inactive m i = Inr m'" "lists_ok m'" "qsm_map m' = (qsm_map m)(i \<mapsto> s\<lparr>qs_active := False\<rparr>)"
proof (cases "qs_active s")
  case False
  then have "s\<lparr>qs_active := False\<rparr> = s"
    by simp
  with False s ok show ?thesis
    by (intro that [of m]) (simp_all add: stream_map_mark_inactive_def fun_upd_idem)
next
  case True
  note D = lists_okD [OF ok]
  let ?s = "s\<lparr>qs_active := False\<rparr>"
  have i: "i \<in> set (active_list m)"
    using True D(4) [of i] flagged_at [OF s] by simp
  obtain n where n: "qsm_list_next (active_list m) (Some i) = Inr (Some n)" "n \<in> set (active_list m)" "n = i \<longleftrightarrow> active_list m = [i]"
    by (rule list_next_spec [OF i D(3)])
  define c where "c = (if rr_cur m = Some i then Some n else rr_cur m)"
  define m' where "m' = qsm_put (m\<lparr>rr_cur := (if c = Some i then None else c), active_list := remove1 i (active_list m)\<rparr>) i ?s"
  have m': "qsm_map m' = (qsm_map m)(i \<mapsto> ?s)" "active_list m' = remove1 i (active_list m)" "accept_list m' = accept_list m"
    "ready_for_gc_list m' = ready_for_gc_list m" "num_accept_bidi m' = num_accept_bidi m" "num_accept_uni m' = num_accept_uni m"
    "num_shutdown_flush m' = num_shutdown_flush m" "rr_cur m' = (if c = Some i then None else c)" "qsm_is_server m' = qsm_is_server m"
    by (simp_all add: m'_def)
  have f: "flagged qs_active m' = flagged qs_active m - {i}" "flagged qs_ready_for_gc m' = flagged qs_ready_for_gc m"
    "flagged qs_shutdown_flush m' = flagged qs_shutdown_flush m"
    using True by (simp_all add: flagged_put [OF s m'(1)])
  have a: "accept_of_kind m' b = accept_of_kind m b" for b
    using s by (intro accept_of_kind_cong [OF m'(3)]) (simp add: m'(1))
  have r: "set (remove1 i (active_list m)) = set (active_list m) - {i}" "distinct (remove1 i (active_list m))"
    using D(3) by simp_all
  have "(if c = Some i then None else c) = None \<longleftrightarrow> remove1 i (active_list m) = []"
  proof (cases "active_list m = [i]")
    case True
    moreover obtain d where "rr_cur m = Some d"
      using D(12) True by (cases "rr_cur m") auto
    ultimately have "c = Some i"
      using n(3) D(13) by (auto simp: c_def)
    with True show ?thesis
      by simp
  next
    case False
    then have "remove1 i (active_list m) \<noteq> []"
      using D(3) i by (cases "active_list m"; cases "tl (active_list m)") auto
    moreover have "c \<noteq> None" "c \<noteq> Some i"
      using False n(3) D(12) i by (auto simp: c_def)
    ultimately show ?thesis
      by simp
  qed
  moreover have "d \<in> set (active_list m) - {i}" if "(if c = Some i then None else c) = Some d" for d
    using that n(2) D(13) [of d] by (auto simp: c_def split: if_splits)
  ultimately have "lists_ok m'"
    using ok s r unfolding lists_ok_def f a m' by auto
  moreover have "stream_map_mark_inactive m i = Inr m'"
    using True s n(1) i by (simp add: stream_map_mark_inactive_def m'_def c_def qsm_list_remove_def)
  ultimately show ?thesis
    using m'(1) that by blast
qed


section \<open>Updating the state of a stream\<close>

text \<open>The parts of the map that the bookkeeping of a stream leaves alone.\<close>

definition same_env :: "quic_stream_map \<Rightarrow> quic_stream_map \<Rightarrow> bool" where
  "same_env m m' \<longleftrightarrow> qsm_txfcs m' = qsm_txfcs m \<and> qsm_rxfcs m' = qsm_rxfcs m \<and> qsm_refs m' = qsm_refs m \<and> qsm_is_server m' = qsm_is_server m
     \<and> get_stream_limit_cb m' = get_stream_limit_cb m \<and> accept_list m' = accept_list m"

lemma same_env_trans: "same_env a b \<Longrightarrow> same_env b c \<Longrightarrow> same_env a c"
  by (simp add: same_env_def)

lemma flush_done_spec:
  assumes ok: "lists_ok m" and s: "qsm_map m i = Some s"
  obtains m' where "shutdown_flush_done m i = Inr m'" "lists_ok m'" "qsm_map m' = (qsm_map m)(i \<mapsto> s\<lparr>qs_shutdown_flush := False\<rparr>)" "same_env m m'"
    "qsm_flush_done m' = qsm_flush_done m + (if flagged qs_shutdown_flush m = {i} then 1 else 0)"
proof (cases "qs_shutdown_flush s")
  case False
  then have "s\<lparr>qs_shutdown_flush := False\<rparr> = s" "flagged qs_shutdown_flush m \<noteq> {i}"
    using flagged_at [OF s, of qs_shutdown_flush] by auto
  with False s ok show ?thesis
    by (intro that [of m]) (simp_all add: shutdown_flush_done_def fun_upd_idem same_env_def)
next
  case True
  note D = lists_okD [OF ok]
  let ?s = "s\<lparr>qs_shutdown_flush := False\<rparr>"
  define n where "n = num_shutdown_flush m - 1"
  define m1 where "m1 = (qsm_put m i ?s)\<lparr>num_shutdown_flush := n\<rparr>"
  define m' where "m' = (if n = 0 then m1\<lparr>qsm_flush_done := qsm_flush_done m1 + 1\<rparr> else m1)"
  have m': "qsm_map m' = (qsm_map m)(i \<mapsto> ?s)" "active_list m' = active_list m" "accept_list m' = accept_list m"
    "ready_for_gc_list m' = ready_for_gc_list m" "num_accept_bidi m' = num_accept_bidi m" "num_accept_uni m' = num_accept_uni m"
    "num_shutdown_flush m' = n" "rr_cur m' = rr_cur m" "qsm_is_server m' = qsm_is_server m"
    by (simp_all add: m'_def m1_def)
  have f: "flagged qs_active m' = flagged qs_active m" "flagged qs_ready_for_gc m' = flagged qs_ready_for_gc m"
    "flagged qs_shutdown_flush m' = flagged qs_shutdown_flush m - {i}"
    using True by (simp_all add: flagged_put [OF s m'(1)])
  have a: "accept_of_kind m' b = accept_of_kind m b" for b
    using s by (intro accept_of_kind_cong [OF m'(3)]) (simp add: m'(1))
  have i: "i \<in> flagged qs_shutdown_flush m"
    using True flagged_at [OF s, of qs_shutdown_flush] by simp
  then have card: "card (flagged qs_shutdown_flush m) = Suc (card (flagged qs_shutdown_flush m - {i}))"
    by (metis card_Suc_Diff1 finite)
  then have n: "n = of_nat (card (flagged qs_shutdown_flush m - {i}))"
    unfolding n_def D(11) by simp
  have "lists_ok m'"
    using ok s unfolding lists_ok_def f a m' n by auto
  moreover have "shutdown_flush_done m i = Inr m'"
    using True s by (simp add: shutdown_flush_done_def m'_def m1_def n_def Let_def)
  moreover have "n = 0 \<longleftrightarrow> flagged qs_shutdown_flush m = {i}"
  proof -
    have "card (flagged qs_shutdown_flush m - {i}) < 2 ^ 64"
    proof -
      have "card (flagged qs_shutdown_flush m) \<le> CARD(u64)"
        by (rule card_mono) auto
      with card show ?thesis
        by (simp add: card_word)
    qed
    then have "n = 0 \<longleftrightarrow> card (flagged qs_shutdown_flush m - {i}) = 0"
      unfolding n by (simp add: of_nat_eq_0_iff word_unat_eq_iff unat_of_nat)
    also have "\<dots> \<longleftrightarrow> flagged qs_shutdown_flush m - {i} = {}"
      by (simp only: card_0_eq [OF finite])
    finally show ?thesis
      using i by blast
  qed
  then have "qsm_flush_done m' = qsm_flush_done m + (if flagged qs_shutdown_flush m = {i} then 1 else 0)"
    by (simp add: m'_def m1_def)
  moreover have "same_env m m'"
    by (simp add: same_env_def m'_def m1_def qsm_put_def)
  ultimately show ?thesis
    using m'(1) that by blast
qed

definition acked_send :: "quic_stream \<Rightarrow> bool" where
  "acked_send s = (case qs_sstream s of None \<Rightarrow> False | Some q \<Rightarrow> ossl_quic_sstream_is_totally_acked q)"

definition after_acks :: "quic_stream \<Rightarrow> quic_stream" where
  "after_acks s =
     (if qs_send_state s = QUIC_SSTREAM_STATE_DATA_SENT \<and> acked_send s
      then s\<lparr>qs_send_state := QUIC_SSTREAM_STATE_DATA_RECVD, qs_sstream := None, qs_shutdown_flush := False\<rparr>
      else if qs_send_state s = QUIC_SSTREAM_STATE_SEND \<and> acked_send s then s\<lparr>qs_shutdown_flush := False\<rparr> else s)"

definition after_gc :: "quic_stream \<Rightarrow> quic_stream" where
  "after_gc s = s\<lparr>qs_ready_for_gc := (qs_ready_for_gc s \<or> qsm_ready_for_gc s)\<rparr>"

definition stream_updated :: "bool \<Rightarrow> quic_stream \<Rightarrow> quic_stream" where
  "stream_updated b s = (after_gc (after_acks s))\<lparr>qs_active := b\<rparr>"

lemma has_send_buffer_iff: "ossl_quic_stream_has_send_buffer s \<longleftrightarrow> qs_send_state s \<in> {QUIC_SSTREAM_STATE_READY, QUIC_SSTREAM_STATE_SEND, QUIC_SSTREAM_STATE_DATA_SENT}"
  by (cases "qs_send_state s") (simp_all add: ossl_quic_stream_has_send_buffer_def)

lemma has_recv_buffer_iff: "ossl_quic_stream_has_recv_buffer s \<longleftrightarrow>
    qs_recv_state s \<in> {QUIC_RSTREAM_STATE_RECV, QUIC_RSTREAM_STATE_SIZE_KNOWN, QUIC_RSTREAM_STATE_DATA_RECVD}"
  by (cases "qs_recv_state s") (simp_all add: ossl_quic_stream_has_recv_buffer_def)

lemma stream_ok_buffer: "stream_ok s \<Longrightarrow> ossl_quic_stream_has_send_buffer s \<Longrightarrow> \<exists>q S. qs_sstream s = Some q \<and> sstream_ok q S"
  by (auto simp: stream_ok_def split: option.splits)

lemma update_totally_acked_spec:
  assumes ok: "lists_ok m" and s: "qsm_map m i = Some s" and sok: "stream_ok s"
  obtains m' where "update_totally_acked m i = Inr m'" "lists_ok m'" "qsm_map m' = (qsm_map m)(i \<mapsto> after_acks s)" "same_env m m'"
proof -
  have acked: "res_bind (qs_sstream_at s) (\<lambda>q. Inr (ossl_quic_sstream_is_totally_acked q)) = Inr (acked_send s)"
    if "ossl_quic_stream_has_send_buffer s"
    using stream_ok_buffer [OF sok that] by (auto simp: qs_sstream_at_def acked_send_def)
  consider (recvd) "qs_send_state s = QUIC_SSTREAM_STATE_DATA_SENT" "acked_send s" | (flush) "qs_send_state s = QUIC_SSTREAM_STATE_SEND" "acked_send s" "qs_shutdown_flush s"
    | (none) "\<not> (qs_send_state s = QUIC_SSTREAM_STATE_DATA_SENT \<and> acked_send s)"
      "\<not> (qs_shutdown_flush s \<and> qs_send_state s = QUIC_SSTREAM_STATE_SEND \<and> acked_send s)"
    by blast
  then show ?thesis
  proof cases
    case recvd
    let ?s = "s\<lparr>qs_send_state := QUIC_SSTREAM_STATE_DATA_RECVD, qs_sstream := None\<rparr>"
    have ok1: "lists_ok (qsm_put m i ?s)"
      by (rule lists_ok_put [OF ok s]) simp_all
    obtain m' where m': "shutdown_flush_done (qsm_put m i ?s) i = Inr m'" "lists_ok m'"
      "qsm_map m' = (qsm_map (qsm_put m i ?s))(i \<mapsto> ?s\<lparr>qs_shutdown_flush := False\<rparr>)" "same_env (qsm_put m i ?s) m'"
      by (rule flush_done_spec [OF ok1, of i ?s]) simp_all
    have "update_totally_acked m i = Inr m'"
      using recvd s acked m'(1) by (simp add: update_totally_acked_def has_send_buffer_iff ossl_quic_stream_map_notify_totally_acked_def)
    with m' recvd show ?thesis
      by (intro that [of m']) (simp_all add: after_acks_def same_env_def qsm_put_def)
  next
    case flush
    obtain m' where m': "shutdown_flush_done m i = Inr m'" "lists_ok m'"
      "qsm_map m' = (qsm_map m)(i \<mapsto> s\<lparr>qs_shutdown_flush := False\<rparr>)" "same_env m m'"
      by (rule flush_done_spec [OF ok s])
    have "update_totally_acked m i = Inr m'"
      using flush s acked m'(1) by (simp add: update_totally_acked_def has_send_buffer_iff)
    with m' flush show ?thesis
      by (intro that [of m']) (simp_all add: after_acks_def)
  next
    case none
    moreover have "s\<lparr>qs_shutdown_flush := False\<rparr> = s" if "\<not> qs_shutdown_flush s"
      using that by simp
    ultimately have same: "after_acks s = s"
      unfolding after_acks_def by meson
    define A where "A = res_bind (qs_sstream_at s) (\<lambda>q. Inr (ossl_quic_sstream_is_totally_acked q))"
    have A: "(if qs_send_state s = QUIC_SSTREAM_STATE_DATA_SENT then A else Inr False) = Inr False"
      "(if qs_shutdown_flush s \<and> qs_send_state s = QUIC_SSTREAM_STATE_SEND then A else Inr False) = Inr False"
      using none acked by (auto simp: A_def has_send_buffer_iff)
    have "update_totally_acked m i = Inr m"
      by (simp only: update_totally_acked_def qsm_at_Some [OF s] res_bind_simps Let_def A_def [symmetric] A if_False)
    with same ok s show ?thesis
      by (intro that [of m]) (simp_all add: same_env_def fun_upd_idem)
  qed
qed

lemma update_ready_for_gc_spec:
  assumes ok: "lists_ok m" and s: "qsm_map m i = Some s"
  obtains m' where "update_ready_for_gc m i = Inr m'" "lists_ok m'" "qsm_map m' = (qsm_map m)(i \<mapsto> after_gc s)" "same_env m m'"
proof (cases "qs_ready_for_gc s")
  case True
  then have "after_gc s = s"
    by (simp add: after_gc_def)
  with True ok s show ?thesis
    by (intro that [of m]) (simp_all add: update_ready_for_gc_def same_env_def fun_upd_idem)
next
  case False
  let ?s = "after_gc s"
  have s': "?s = s\<lparr>qs_ready_for_gc := qsm_ready_for_gc s\<rparr>"
    using False by (simp add: after_gc_def)
  show ?thesis
  proof (cases "qsm_ready_for_gc s")
    case no: False
    have "lists_ok (qsm_put m i ?s)"
      by (rule lists_ok_put [OF ok s]) (use False no in \<open>simp_all add: s'\<close>)
    with False no s show ?thesis
      by (intro that [of "qsm_put m i ?s"]) (simp_all add: update_ready_for_gc_def s' same_env_def qsm_put_def)
  next
    case yes: True
    note D = lists_okD [OF ok]
    define m' where "m' = (qsm_put m i ?s)\<lparr>ready_for_gc_list := ready_for_gc_list m @ [i]\<rparr>"
    have m': "qsm_map m' = (qsm_map m)(i \<mapsto> ?s)" "active_list m' = active_list m" "accept_list m' = accept_list m"
      "ready_for_gc_list m' = ready_for_gc_list m @ [i]" "num_accept_bidi m' = num_accept_bidi m" "num_accept_uni m' = num_accept_uni m"
      "num_shutdown_flush m' = num_shutdown_flush m" "rr_cur m' = rr_cur m" "qsm_is_server m' = qsm_is_server m"
      by (simp_all add: m'_def)
    have f: "flagged qs_active m' = flagged qs_active m" "flagged qs_ready_for_gc m' = insert i (flagged qs_ready_for_gc m)"
      "flagged qs_shutdown_flush m' = flagged qs_shutdown_flush m"
      using False yes by (simp_all add: flagged_put [OF s m'(1)] s')
    have a: "accept_of_kind m' b = accept_of_kind m b" for b
      using s by (intro accept_of_kind_cong [OF m'(3)]) (simp add: m'(1) s')
    have "i \<notin> set (ready_for_gc_list m)"
      using False D(6) [of i] flagged_at [OF s] by simp
    moreover have "qs_id ?s = i" "qs_as_server ?s = qsm_is_server m"
      using D(1,2) [OF s] by (simp_all add: s')
    ultimately have "lists_ok m'"
      using ok unfolding lists_ok_def f a m' by auto
    moreover have "update_ready_for_gc m i = Inr m'"
      using False yes s by (simp add: update_ready_for_gc_def m'_def s' Let_def qsm_list_insert_tail_def)
    ultimately show ?thesis
      by (intro that [of m']) (simp_all add: m'(1) same_env_def m'_def qsm_put_def)
  qed
qed

lemma get_stream_frame_total:
  assumes "sstream_ok q S"
  shows "\<exists>r. ossl_quic_sstream_get_stream_frame q 0 2 = Inr r"
proof (cases "new_set q")
  case Nil
  then show ?thesis
    by (simp add: ossl_quic_sstream_get_stream_frame_def)
next
  case (Cons rg rgs)
  then have "rg \<in> set (new_set q)"
    by simp
  then obtain iov where "sstream_frame_loop (ss_ring q) (rstart rg) (rend rg - rstart rg + 1) 2 0 [] = Inr (Some (rend rg - rstart rg + 1, iov))"
    by (rule frame_of_range [OF assms _ order_refl])
  with Cons show ?thesis
    by (simp add: ossl_quic_sstream_get_stream_frame_def Let_def)
qed

lemma has_data_total:
  assumes "stream_ok s"
  shows "\<exists>b. stream_has_data_to_send m s = Inr b"
proof (cases "ossl_quic_stream_has_send_buffer s")
  case True
  from stream_ok_buffer [OF assms True] obtain q S where "qs_sstream s = Some q" "sstream_ok q S"
    by blast
  with get_stream_frame_total [of q S] show ?thesis
    by (auto simp: stream_has_data_to_send_def qs_sstream_at_def Let_def split: option.splits)
qed (auto simp: stream_has_data_to_send_def intro: exI [of _ False])

lemma should_be_active_total: "stream_ok s \<Longrightarrow> \<exists>b. should_be_active m allowed s = Inr b"
  using has_data_total [of s m] by (auto simp: should_be_active_def)

lemma stream_updated_ok:
  assumes "stream_ok s"
  shows "stream_ok (stream_updated b s)" and "stream_settled (stream_updated b s)" and "stream_ok (after_gc (after_acks s))"
proof -
  have b: "ossl_quic_stream_has_send_buffer s \<Longrightarrow> \<exists>q. qs_sstream s = Some q"
    using stream_ok_buffer [OF assms] by blast
  have ok: "stream_ok (after_acks s)"
    using assms by (auto simp: stream_ok_def after_acks_def has_send_buffer_iff has_recv_buffer_iff split: option.splits)
  then show "stream_ok (after_gc (after_acks s))"
    by (simp add: stream_ok_def after_gc_def has_send_buffer_iff has_recv_buffer_iff cong: option.case_cong)
  with ok show "stream_ok (stream_updated b s)"
    by (simp add: stream_ok_def stream_updated_def after_gc_def has_send_buffer_iff has_recv_buffer_iff cong: option.case_cong)
  show "stream_settled (stream_updated b s)"
    using b by (auto simp: stream_settled_def stream_updated_def after_gc_def after_acks_def acked_send_def has_send_buffer_iff)
qed

definition limit_allows :: "quic_stream_map \<Rightarrow> quic_stream \<Rightarrow> bool" where
  "limit_allows m s \<longleftrightarrow> (ossl_quic_stream_is_server_init s = qsm_is_server m \<longrightarrow>
     ossl_quic_stream_map_is_local_allowed_by_stream_limit m (drop_bit 2 (qs_id s)) (\<not> ossl_quic_stream_is_bidi s))"

lemma limit_allows_if: "limit_allows m s = (if ossl_quic_stream_is_server_init s = qsm_is_server m
    then ossl_quic_stream_map_is_local_allowed_by_stream_limit m (drop_bit 2 (qs_id s)) (\<not> ossl_quic_stream_is_bidi s) else True)"
  by (simp add: limit_allows_def)

lemma should_be_active_cong: "same_env m m' \<Longrightarrow> should_be_active m' a s = should_be_active m a s"
proof -
  assume "same_env m m'"
  then have "qsm_txfcs m' = qsm_txfcs m" "qsm_rxfcs m' = qsm_rxfcs m"
    by (simp_all add: same_env_def)
  then show ?thesis
    unfolding should_be_active_def stream_has_data_to_send_def by (simp only:)
qed

lemma update_state_spec:
  assumes ok: "lists_ok m" and s: "qsm_map m i = Some s" and sok: "stream_ok s"
  obtains m' b where "ossl_quic_stream_map_update_state m i = Inr m'" "lists_ok m'" "qsm_map m' = (qsm_map m)(i \<mapsto> stream_updated b s)"
    "same_env m m'" "should_be_active m (limit_allows m s) (after_gc (after_acks s)) = Inr b"
proof -
  obtain m1 where m1: "update_totally_acked m i = Inr m1" "lists_ok m1" "qsm_map m1 = (qsm_map m)(i \<mapsto> after_acks s)" "same_env m m1"
    by (rule update_totally_acked_spec [OF ok s sok])
  then have s1: "qsm_map m1 i = Some (after_acks s)"
    by simp
  obtain m2 where m2: "update_ready_for_gc m1 i = Inr m2" "lists_ok m2" "qsm_map m2 = (qsm_map m1)(i \<mapsto> after_gc (after_acks s))" "same_env m1 m2"
    by (rule update_ready_for_gc_spec [OF m1(2) s1])
  then have s2: "qsm_map m2 i = Some (after_gc (after_acks s))"
    by simp
  obtain b where b: "should_be_active m (limit_allows m s) (after_gc (after_acks s)) = Inr b"
    using should_be_active_total [OF stream_updated_ok(3) [OF sok]] by blast
  then have b2: "should_be_active m2 (limit_allows m s) (after_gc (after_acks s)) = Inr b"
    using should_be_active_cong [OF same_env_trans [OF m1(4) m2(4)]] by simp
  obtain m' where m': "(if b then stream_map_mark_active m2 i else stream_map_mark_inactive m2 i) = Inr m'" "lists_ok m'"
    "qsm_map m' = (qsm_map m2)(i \<mapsto> (after_gc (after_acks s))\<lparr>qs_active := b\<rparr>)"
  proof (cases b)
    case True
    with that show ?thesis
      using mark_active_spec [OF m2(2) s2] by (metis (full_types))
  next
    case False
    with that show ?thesis
      using mark_inactive_spec [OF m2(2) s2] by (metis (full_types))
  qed
  have env: "same_env m2 m'"
    using m'(1) s2 by (cases b) (auto simp: stream_map_mark_active_def stream_map_mark_inactive_def Let_def res_bind_Inr same_env_def qsm_put_def split: if_splits)
  have "ossl_quic_stream_map_update_state m i = Inr m'"
    by (simp only: ossl_quic_stream_map_update_state_def qsm_at_Some [OF s] qsm_at_Some [OF s2] Let_def limit_allows_if [symmetric] res_bind_simps m1(1) m2(1) b2 m'(1))
  moreover have "qsm_map m' = (qsm_map m)(i \<mapsto> stream_updated b s)"
    by (simp add: m'(3) m2(3) m1(3) stream_updated_def)
  ultimately show ?thesis
    using m'(2) b same_env_trans [OF same_env_trans [OF m1(4) m2(4)] env] that by blast
qed


section \<open>Calls on a stream\<close>

text \<open>The transitions of RFC 9000, figures 2 and 3.\<close>

definition send_moves :: "quic_sstream_state \<Rightarrow> quic_sstream_state \<Rightarrow> bool" where
  "send_moves a b \<longleftrightarrow> a = b \<or> (a, b) \<in>
     {(QUIC_SSTREAM_STATE_READY, QUIC_SSTREAM_STATE_SEND), (QUIC_SSTREAM_STATE_SEND, QUIC_SSTREAM_STATE_DATA_SENT),
      (QUIC_SSTREAM_STATE_DATA_SENT, QUIC_SSTREAM_STATE_DATA_RECVD), (QUIC_SSTREAM_STATE_READY, QUIC_SSTREAM_STATE_RESET_SENT),
      (QUIC_SSTREAM_STATE_SEND, QUIC_SSTREAM_STATE_RESET_SENT), (QUIC_SSTREAM_STATE_DATA_SENT, QUIC_SSTREAM_STATE_RESET_SENT),
      (QUIC_SSTREAM_STATE_RESET_SENT, QUIC_SSTREAM_STATE_RESET_RECVD)}"

definition recv_moves :: "quic_rstream_state \<Rightarrow> quic_rstream_state \<Rightarrow> bool" where
  "recv_moves a b \<longleftrightarrow> a = b \<or> (a, b) \<in>
     {(QUIC_RSTREAM_STATE_RECV, QUIC_RSTREAM_STATE_SIZE_KNOWN), (QUIC_RSTREAM_STATE_SIZE_KNOWN, QUIC_RSTREAM_STATE_DATA_RECVD),
      (QUIC_RSTREAM_STATE_DATA_RECVD, QUIC_RSTREAM_STATE_DATA_READ), (QUIC_RSTREAM_STATE_RECV, QUIC_RSTREAM_STATE_RESET_RECVD),
      (QUIC_RSTREAM_STATE_SIZE_KNOWN, QUIC_RSTREAM_STATE_RESET_RECVD), (QUIC_RSTREAM_STATE_DATA_RECVD, QUIC_RSTREAM_STATE_RESET_RECVD),
      (QUIC_RSTREAM_STATE_RESET_RECVD, QUIC_RSTREAM_STATE_RESET_READ)}"

text \<open>What one call does to its stream.\<close>

definition stream_evolves :: "quic_stream \<Rightarrow> quic_stream \<Rightarrow> bool" where
  "stream_evolves s s' \<longleftrightarrow> qs_id s' = qs_id s \<and> qs_type s' = qs_type s \<and> qs_as_server s' = qs_as_server s \<and> qs_txfc s' = qs_txfc s \<and> qs_rxfc s' = qs_rxfc s
     \<and> send_moves (qs_send_state s) (qs_send_state s') \<and> recv_moves (qs_recv_state s) (qs_recv_state s')
     \<and> (qs_sstream s' = qs_sstream s \<or> qs_sstream s' = None) \<and> (qs_rstream s' = qs_rstream s \<or> qs_rstream s' = None)
     \<and> (qs_ready_for_gc s \<longrightarrow> qs_ready_for_gc s')"

datatype stream_call = Ensure_Send_Part_Id | Notify_All_Data_Sent | Notify_Totally_Acked | Reset_Stream_Send_Part u64 | Notify_Reset_Stream_Acked
  | Notify_Size_Known_Recv_Part u64 | Notify_Totally_Received | Notify_Totally_Read | Notify_Reset_Recv_Part u64 u64 | Notify_App_Read_Reset_Recv_Part
  | Stop_Sending_Recv_Part u64 | Schedule_Stop_Sending | Update_State

fun stream_map_call :: "stream_call \<Rightarrow> quic_stream_map \<Rightarrow> u64 \<Rightarrow> c_fault + (quic_stream_map \<times> bool)" where
  "stream_map_call Ensure_Send_Part_Id m i = ossl_quic_stream_map_ensure_send_part_id m i"
| "stream_map_call Notify_All_Data_Sent m i = ossl_quic_stream_map_notify_all_data_sent m i"
| "stream_map_call Notify_Totally_Acked m i = ossl_quic_stream_map_notify_totally_acked m i"
| "stream_map_call (Reset_Stream_Send_Part aec) m i = ossl_quic_stream_map_reset_stream_send_part m i aec"
| "stream_map_call Notify_Reset_Stream_Acked m i = ossl_quic_stream_map_notify_reset_stream_acked m i"
| "stream_map_call (Notify_Size_Known_Recv_Part n) m i = ossl_quic_stream_map_notify_size_known_recv_part m i n"
| "stream_map_call Notify_Totally_Received m i = ossl_quic_stream_map_notify_totally_received m i"
| "stream_map_call Notify_Totally_Read m i = ossl_quic_stream_map_notify_totally_read m i"
| "stream_map_call (Notify_Reset_Recv_Part aec n) m i = ossl_quic_stream_map_notify_reset_recv_part m i aec n"
| "stream_map_call Notify_App_Read_Reset_Recv_Part m i = ossl_quic_stream_map_notify_app_read_reset_recv_part m i"
| "stream_map_call (Stop_Sending_Recv_Part aec) m i = ossl_quic_stream_map_stop_sending_recv_part m i aec"
| "stream_map_call Schedule_Stop_Sending m i = ossl_quic_stream_map_schedule_stop_sending m i"
| "stream_map_call Update_State m i = res_bind (ossl_quic_stream_map_update_state m i) (\<lambda>m. Inr (m, True))"

definition listed_same :: "quic_stream \<Rightarrow> quic_stream \<Rightarrow> bool" where
  "listed_same s s' \<longleftrightarrow> qs_id s' = qs_id s \<and> qs_as_server s' = qs_as_server s \<and> qs_type s' = qs_type s
     \<and> qs_active s' = qs_active s \<and> qs_ready_for_gc s' = qs_ready_for_gc s \<and> qs_shutdown_flush s' = qs_shutdown_flush s"

text \<open>The lists and counts of two maps agree.\<close>

definition lists_same :: "quic_stream_map \<Rightarrow> quic_stream_map \<Rightarrow> bool" where
  "lists_same m m' \<longleftrightarrow> active_list m' = active_list m \<and> accept_list m' = accept_list m \<and> ready_for_gc_list m' = ready_for_gc_list m
     \<and> num_accept_bidi m' = num_accept_bidi m \<and> num_accept_uni m' = num_accept_uni m \<and> num_shutdown_flush m' = num_shutdown_flush m
     \<and> rr_cur m' = rr_cur m \<and> qsm_is_server m' = qsm_is_server m"

lemma qsm_okD: "qsm_ok m \<Longrightarrow> lists_ok m" "qsm_ok m \<Longrightarrow> qsm_map m i = Some s \<Longrightarrow> stream_ok s"
  by (auto simp: qsm_ok_def)

lemma put_keeps:
  assumes ok: "qsm_ok m" and s: "qsm_map m i = Some s" and m': "qsm_map m' = (qsm_map m)(i \<mapsto> s')" "lists_same m m'" "listed_same s s'"
  shows "lists_ok m'" and "stream_ok s' \<Longrightarrow> qsm_ok m'"
proof -
  show l: "lists_ok m'"
    using m' by (intro lists_ok_put [OF qsm_okD(1) [OF ok] s, of s']) (simp_all add: lists_same_def listed_same_def)
  show "qsm_ok m'" if "stream_ok s'"
    using l that qsm_okD(2) [OF ok] by (auto simp: qsm_ok_def m'(1))
qed

lemma update_keeps:
  assumes ok: "qsm_ok m" and s: "qsm_map m i = Some s" and m': "qsm_map m' = (qsm_map m)(i \<mapsto> s')" "lists_ok m'" and sok: "stream_ok s'"
  obtains m'' b where "ossl_quic_stream_map_update_state m' i = Inr m''" "qsm_ok m''" "qsm_map m'' = (qsm_map m)(i \<mapsto> stream_updated b s')" "same_env m' m''"
proof -
  have s': "qsm_map m' i = Some s'"
    by (simp add: m')
  obtain m'' b where u: "ossl_quic_stream_map_update_state m' i = Inr m''" "lists_ok m''" "qsm_map m'' = (qsm_map m')(i \<mapsto> stream_updated b s')" "same_env m' m''"
    by (rule update_state_spec [OF m'(2) s' sok])
  have map: "qsm_map m'' = (qsm_map m)(i \<mapsto> stream_updated b s')"
    by (simp add: u(3) m'(1))
  moreover have "qsm_ok m''"
    using u(2) stream_updated_ok(1) [OF sok] qsm_okD(2) [OF ok] by (auto simp: qsm_ok_def map)
  ultimately show ?thesis
    using u(1,4) that by blast
qed

lemma evolves_refl: "stream_evolves s s"
  by (simp add: stream_evolves_def send_moves_def recv_moves_def)

lemma updated_fields:
  "qs_id (stream_updated b s) = qs_id s" "qs_type (stream_updated b s) = qs_type s" "qs_as_server (stream_updated b s) = qs_as_server s"
  "qs_txfc (stream_updated b s) = qs_txfc s" "qs_rxfc (stream_updated b s) = qs_rxfc s" "qs_recv_state (stream_updated b s) = qs_recv_state s"
  "qs_rstream (stream_updated b s) = qs_rstream s" "qs_ready_for_gc s \<Longrightarrow> qs_ready_for_gc (stream_updated b s)"
  "qs_send_state (stream_updated b s) =
     (if qs_send_state s = QUIC_SSTREAM_STATE_DATA_SENT \<and> acked_send s then QUIC_SSTREAM_STATE_DATA_RECVD else qs_send_state s)"
  "qs_sstream (stream_updated b s) = (if qs_send_state s = QUIC_SSTREAM_STATE_DATA_SENT \<and> acked_send s then None else qs_sstream s)"
  by (simp_all add: stream_updated_def after_gc_def after_acks_def)

lemma evolves_update:
  assumes "stream_evolves s s'" and "qs_send_state s' = qs_send_state s \<or> qs_send_state s' \<noteq> QUIC_SSTREAM_STATE_DATA_SENT"
  shows "stream_evolves s (stream_updated b s')"
  using assms by (auto simp: stream_evolves_def updated_fields send_moves_def)

text \<open>The result of a call: no fault, a well-formed map, and only the stream of the call changed.\<close>

definition call_ok :: "quic_stream_map \<Rightarrow> u64 \<Rightarrow> quic_stream \<Rightarrow> c_fault + (quic_stream_map \<times> bool) \<Rightarrow> bool" where
  "call_ok m i s r \<longleftrightarrow> (\<exists>m' ok s'. r = Inr (m', ok) \<and> qsm_ok m' \<and> qsm_map m' = (qsm_map m)(i \<mapsto> s') \<and> stream_evolves s s'
     \<and> qsm_txfcs m' = qsm_txfcs m \<and> qsm_rxfcs m' = qsm_rxfcs m \<and> qsm_is_server m' = qsm_is_server m \<and> accept_list m' = accept_list m)"

lemma call_ok_same: "qsm_ok m \<Longrightarrow> qsm_map m i = Some s \<Longrightarrow> call_ok m i s (Inr (m, b))"
  unfolding call_ok_def by (intro exI [of _ m] exI [of _ b] exI [of _ s]) (simp add: evolves_refl fun_upd_idem)

lemma call_ok_put:
  assumes "qsm_ok m" and "qsm_map m i = Some s" and "listed_same s s'" and "stream_ok s'" and "stream_evolves s s'"
  shows "call_ok m i s (Inr (qsm_put m i s', b))" and "call_ok m i s (Inr ((qsm_put m i s')\<lparr>qsm_refs := r\<rparr>, b))"
proof -
  have "qsm_ok (qsm_put m i s')" "qsm_ok ((qsm_put m i s')\<lparr>qsm_refs := r\<rparr>)"
    by (rule put_keeps(2) [OF assms(1,2) _ _ assms(3,4)]; simp add: lists_same_def)+
  with assms(5) show "call_ok m i s (Inr (qsm_put m i s', b))" "call_ok m i s (Inr ((qsm_put m i s')\<lparr>qsm_refs := r\<rparr>, b))"
    unfolding call_ok_def by (auto simp: qsm_put_def)
qed

lemma call_ok_update:
  assumes ok: "qsm_ok m" and s: "qsm_map m i = Some s" and m': "qsm_map m' = (qsm_map m)(i \<mapsto> s')" "lists_ok m'" and sok: "stream_ok s'"
    and ev: "stream_evolves s s'" "qs_send_state s' = qs_send_state s \<or> qs_send_state s' \<noteq> QUIC_SSTREAM_STATE_DATA_SENT"
    and env: "qsm_txfcs m' = qsm_txfcs m" "qsm_rxfcs m' = qsm_rxfcs m" "qsm_is_server m' = qsm_is_server m" "accept_list m' = accept_list m"
  shows "call_ok m i s (res_bind (ossl_quic_stream_map_update_state m' i) (\<lambda>m. Inr (m, b)))"
proof -
  obtain m'' d where u: "ossl_quic_stream_map_update_state m' i = Inr m''" "qsm_ok m''" "qsm_map m'' = (qsm_map m)(i \<mapsto> stream_updated d s')" "same_env m' m''"
    by (rule update_keeps [OF ok s m' sok])
  show ?thesis
    unfolding call_ok_def
    by (intro exI [of _ m''] exI [of _ b] exI [of _ "stream_updated d s'"])
      (use u env evolves_update [OF ev] in \<open>simp add: same_env_def\<close>)
qed

lemma call_ok_put_update:
  assumes "qsm_ok m" and "qsm_map m i = Some s" and "listed_same s s'" and "stream_ok s'"
    and "stream_evolves s s'" and "qs_send_state s' = qs_send_state s \<or> qs_send_state s' \<noteq> QUIC_SSTREAM_STATE_DATA_SENT"
  shows "call_ok m i s (res_bind (ossl_quic_stream_map_update_state (qsm_put m i s') i) (\<lambda>m. Inr (m, b)))"
    and "call_ok m i s (res_bind (ossl_quic_stream_map_update_state ((qsm_put m i s')\<lparr>qsm_refs := r\<rparr>) i) (\<lambda>m. Inr (m, b)))"
proof -
  have l: "lists_ok (qsm_put m i s')" "lists_ok ((qsm_put m i s')\<lparr>qsm_refs := r\<rparr>)"
    by (rule put_keeps(1) [OF assms(1,2) _ _ assms(3)]; simp add: lists_same_def)+
  show "call_ok m i s (res_bind (ossl_quic_stream_map_update_state (qsm_put m i s') i) (\<lambda>m. Inr (m, b)))"
    "call_ok m i s (res_bind (ossl_quic_stream_map_update_state ((qsm_put m i s')\<lparr>qsm_refs := r\<rparr>) i) (\<lambda>m. Inr (m, b)))"
    by (rule call_ok_update [OF assms(1,2) _ _ assms(4-6)]; simp add: l)+
qed

lemma reset_send_part_ok:
  assumes ok: "qsm_ok m" and s: "qsm_map m i = Some s" and st: "qs_send_state s \<in> {QUIC_SSTREAM_STATE_READY, QUIC_SSTREAM_STATE_SEND, QUIC_SSTREAM_STATE_DATA_SENT}"
    and m1: "qsm_map m1 = (qsm_map m)(i \<mapsto> s1)" "lists_same m m1" "qsm_txfcs m1 = qsm_txfcs m" "qsm_rxfcs m1 = qsm_rxfcs m"
    and s1: "\<exists>st n. s1 = s\<lparr>qs_send_state := st, qs_send_final_size := n\<rparr>"
  shows "call_ok m i s (reset_send_part m1 i aec)"
proof -
  define s2 where "s2 = s1\<lparr>qs_reset_stream_aec := aec, qs_want_reset_stream := True, qs_send_state := QUIC_SSTREAM_STATE_RESET_SENT, qs_sstream := None\<rparr>"
  have l2: "lists_ok (qsm_put m1 i s2)"
    by (rule put_keeps(1) [OF ok s, of _ s2]) (use m1 s1 in \<open>auto simp: lists_same_def listed_same_def s2_def\<close>)
  obtain m3 where m3: "shutdown_flush_done (qsm_put m1 i s2) i = Inr m3" "lists_ok m3" "qsm_map m3 = (qsm_map (qsm_put m1 i s2))(i \<mapsto> s2\<lparr>qs_shutdown_flush := False\<rparr>)"
    "same_env (qsm_put m1 i s2) m3"
    by (rule flush_done_spec [OF l2, of i s2]) simp_all
  have sok: "stream_ok (s2\<lparr>qs_shutdown_flush := False\<rparr>)"
    using qsm_okD(2) [OF ok s] s1 by (auto simp: stream_ok_def s2_def has_send_buffer_iff has_recv_buffer_iff)
  have "stream_evolves s (s2\<lparr>qs_shutdown_flush := False\<rparr>)"
    using s1 st by (auto simp: stream_evolves_def s2_def send_moves_def recv_moves_def)
  moreover have "qsm_map m3 = (qsm_map m)(i \<mapsto> s2\<lparr>qs_shutdown_flush := False\<rparr>)"
    by (simp add: m3(3) m1(1))
  moreover have "qs_send_state (s2\<lparr>qs_shutdown_flush := False\<rparr>) \<noteq> QUIC_SSTREAM_STATE_DATA_SENT"
    by (simp add: s2_def)
  moreover have "qsm_txfcs m3 = qsm_txfcs m" "qsm_rxfcs m3 = qsm_rxfcs m" "qsm_is_server m3 = qsm_is_server m" "accept_list m3 = accept_list m"
    using m3(4) m1(2-4) by (simp_all add: same_env_def lists_same_def)
  ultimately have "call_ok m i s (res_bind (ossl_quic_stream_map_update_state m3 i) (\<lambda>m. Inr (m, True)))"
    using m3(2) sok by (intro call_ok_update [OF ok s]) auto
  moreover have "reset_send_part m1 i aec = res_bind (ossl_quic_stream_map_update_state m3 i) (\<lambda>m. Inr (m, True))"
    using m3(1) by (simp add: reset_send_part_def m1(1) s2_def)
  ultimately show ?thesis
    by simp
qed

lemma schedule_ok:
  assumes ok: "qsm_ok m" and s: "qsm_map m i = Some s"
  shows "call_ok m i s (ossl_quic_stream_map_schedule_stop_sending m i)"
proof -
  let ?s = "s\<lparr>qs_want_stop_sending := True\<rparr>"
  have "stream_ok ?s"
    using qsm_okD(2) [OF ok s] by (simp add: stream_ok_def has_send_buffer_iff has_recv_buffer_iff cong: option.case_cong)
  then have "call_ok m i s (res_bind (ossl_quic_stream_map_update_state (qsm_put m i ?s) i) (\<lambda>m. Inr (m, True)))"
    by (intro call_ok_put_update(1) [OF ok s]) (simp_all add: listed_same_def stream_evolves_def send_moves_def recv_moves_def)
  then show ?thesis
    using call_ok_same [OF ok s] s by (simp add: ossl_quic_stream_map_schedule_stop_sending_def)
qed

lemma call_ok_trans:
  assumes "qsm_map m1 = (qsm_map m)(i \<mapsto> s1)" and "call_ok m1 i s1 r" and "\<And>s2. stream_evolves s1 s2 \<Longrightarrow> stream_evolves s s2"
    and "qsm_txfcs m1 = qsm_txfcs m" "qsm_rxfcs m1 = qsm_rxfcs m" "qsm_is_server m1 = qsm_is_server m" "accept_list m1 = accept_list m"
  shows "call_ok m i s r"
  using assms unfolding call_ok_def by fastforce


lemma stream_ok_field:
  assumes "stream_ok s" and "qs_sstream s' = qs_sstream s" and "qs_rstream s' = qs_rstream s" and "qs_shutdown_flush s' = qs_shutdown_flush s"
    and "ossl_quic_stream_has_send_buffer s' = ossl_quic_stream_has_send_buffer s" and "ossl_quic_stream_has_recv_buffer s' = ossl_quic_stream_has_recv_buffer s"
    and "qs_shutdown_flush s \<Longrightarrow> qs_send_state s' = QUIC_SSTREAM_STATE_SEND \<or> qs_send_state s' = QUIC_SSTREAM_STATE_DATA_SENT"
  shows "stream_ok s'"
  using assms unfolding stream_ok_def by (simp cong: option.case_cong)

lemma reset_ok:
  assumes ok: "qsm_ok m" and s: "qsm_map m i = Some s"
  shows "call_ok m i s (ossl_quic_stream_map_reset_stream_send_part m i aec)"
proof -
  have from_send: "call_ok m i s (reset_from_send m1 i aec)"
    if "qs_send_state s \<in> {QUIC_SSTREAM_STATE_READY, QUIC_SSTREAM_STATE_SEND}" "m1 = qsm_put m i (s\<lparr>qs_send_state := st\<rparr>)" for m1 st
  proof -
    let ?n = "ossl_quic_txfc_get_swm (qsm_txfcs m1) (qs_txfc s)"
    have "call_ok m i s (reset_send_part (qsm_put m1 i (s\<lparr>qs_send_state := st, qs_send_final_size := ?n\<rparr>)) i aec)"
      by (rule reset_send_part_ok [OF ok s, of _ "s\<lparr>qs_send_state := st, qs_send_final_size := ?n\<rparr>"]) (use that in \<open>auto simp: lists_same_def\<close>)
    then show ?thesis
      by (simp add: reset_from_send_def that(2))
  qed
  show ?thesis
  proof (cases "qs_send_state s")
    case QUIC_SSTREAM_STATE_READY
    with from_send [OF _ refl] s show ?thesis
      by (simp add: ossl_quic_stream_map_reset_stream_send_part_def ossl_quic_stream_map_ensure_send_part_id_def)
  next
    case QUIC_SSTREAM_STATE_SEND
    moreover from this have "s\<lparr>qs_send_state := QUIC_SSTREAM_STATE_SEND\<rparr> = s"
      by simp
    then have "m = qsm_put m i (s\<lparr>qs_send_state := QUIC_SSTREAM_STATE_SEND\<rparr>)"
      using s by (simp add: qsm_put_def fun_upd_idem)
    ultimately show ?thesis
      using from_send [of m QUIC_SSTREAM_STATE_SEND] s by (simp add: ossl_quic_stream_map_reset_stream_send_part_def)
  next
    case QUIC_SSTREAM_STATE_DATA_SENT
    have "\<exists>st n. s = s\<lparr>qs_send_state := st, qs_send_final_size := n\<rparr>"
      by (intro exI [of _ "qs_send_state s"] exI [of _ "qs_send_final_size s"]) simp
    then have "call_ok m i s (reset_send_part m i aec)"
      using QUIC_SSTREAM_STATE_DATA_SENT s by (intro reset_send_part_ok [OF ok s, of m s]) (simp_all add: lists_same_def fun_upd_idem)
    with QUIC_SSTREAM_STATE_DATA_SENT s show ?thesis
      by (simp add: ossl_quic_stream_map_reset_stream_send_part_def)
  qed (use s call_ok_same [OF ok s] in \<open>simp_all add: ossl_quic_stream_map_reset_stream_send_part_def\<close>)
qed

lemma reset_recv_ok:
  assumes ok: "qsm_ok m" and s: "qsm_map m i = Some s"
  shows "call_ok m i s (ossl_quic_stream_map_notify_reset_recv_part m i aec n)"
proof (cases "ossl_quic_stream_has_recv_buffer s \<and> \<not> (case ossl_quic_stream_recv_get_final_size m s of None \<Rightarrow> False | Some p \<Rightarrow> p \<noteq> n)")
  case False
  then show ?thesis
    using s call_ok_same [OF ok s] by (cases "ossl_quic_stream_has_recv_buffer s") (auto simp: ossl_quic_stream_map_notify_reset_recv_part_def)
next
  case True
  let ?s = "s\<lparr>qs_recv_state := QUIC_RSTREAM_STATE_RESET_RECVD, qs_peer_reset_stream_aec := aec, qs_want_stop_sending := False, qs_rstream := None\<rparr>"
  have "stream_ok ?s"
    using qsm_okD(2) [OF ok s] by (simp add: stream_ok_def has_send_buffer_iff has_recv_buffer_iff cong: option.case_cong)
  moreover have "stream_evolves s ?s"
    using True by (auto simp: stream_evolves_def send_moves_def recv_moves_def has_recv_buffer_iff)
  ultimately have "call_ok m i s (res_bind (ossl_quic_stream_map_update_state ((qsm_put m i ?s)\<lparr>qsm_refs := ossl_quic_rstream_free (qsm_refs m) (qs_rstream s)\<rparr>) i)
      (\<lambda>m. Inr (m, True)))"
    by (intro call_ok_put_update(2) [OF ok s]) (simp_all add: listed_same_def)
  moreover have "ossl_quic_stream_map_notify_reset_recv_part m i aec n =
      res_bind (ossl_quic_stream_map_update_state ((qsm_put m i ?s)\<lparr>qsm_refs := ossl_quic_rstream_free (qsm_refs m) (qs_rstream s)\<rparr>) i) (\<lambda>m. Inr (m, True))"
    using True s by (simp add: ossl_quic_stream_map_notify_reset_recv_part_def Let_def)
  ultimately show ?thesis
    by simp
qed

lemma stop_sending_ok:
  assumes ok: "qsm_ok m" and s: "qsm_map m i = Some s"
  shows "call_ok m i s (ossl_quic_stream_map_stop_sending_recv_part m i aec)"
proof -
  let ?s = "s\<lparr>qs_stop_sending := True, qs_stop_sending_aec := aec\<rparr>"
  have "stream_ok ?s"
    by (rule stream_ok_field [OF qsm_okD(2) [OF ok s]]) (use qsm_okD(2) [OF ok s] in \<open>auto simp: has_send_buffer_iff has_recv_buffer_iff stream_ok_def\<close>)
  then have ok1: "qsm_ok (qsm_put m i ?s)"
    by (intro put_keeps(2) [OF ok s, of _ ?s]) (simp_all add: lists_same_def listed_same_def)
  have "call_ok (qsm_put m i ?s) i ?s (ossl_quic_stream_map_schedule_stop_sending (qsm_put m i ?s) i)"
    by (rule schedule_ok [OF ok1]) simp
  then have "call_ok m i s (ossl_quic_stream_map_schedule_stop_sending (qsm_put m i ?s) i)"
    by (rule call_ok_trans [rotated]) (simp_all add: stream_evolves_def)
  with s call_ok_same [OF ok s] show ?thesis
    by (simp add: ossl_quic_stream_map_stop_sending_recv_part_def)
qed

lemma plain_call_ok:
  assumes ok: "qsm_ok m" and s: "qsm_map m i = Some s"
  shows "call_ok m i s (ossl_quic_stream_map_ensure_send_part_id m i)" and "call_ok m i s (ossl_quic_stream_map_notify_all_data_sent m i)"
    and "call_ok m i s (ossl_quic_stream_map_notify_reset_stream_acked m i)" and "call_ok m i s (ossl_quic_stream_map_notify_size_known_recv_part m i n)"
    and "call_ok m i s (ossl_quic_stream_map_notify_totally_received m i)" and "call_ok m i s (ossl_quic_stream_map_notify_totally_read m i)"
    and "call_ok m i s (ossl_quic_stream_map_notify_app_read_reset_recv_part m i)"
proof -
  note sok = qsm_okD(2) [OF ok s] and same = call_ok_same [OF ok s] and put = call_ok_put [OF ok s]
  have flush: "qs_shutdown_flush s \<Longrightarrow> qs_send_state s = QUIC_SSTREAM_STATE_SEND \<or> qs_send_state s = QUIC_SSTREAM_STATE_DATA_SENT"
    using sok by (simp add: stream_ok_def)
  note go = put(1) [OF _ stream_ok_field [OF sok]]
  show "call_ok m i s (ossl_quic_stream_map_ensure_send_part_id m i)"
    using s same by (cases "qs_send_state s") (auto simp: ossl_quic_stream_map_ensure_send_part_id_def listed_same_def stream_evolves_def send_moves_def recv_moves_def
        has_send_buffer_iff has_recv_buffer_iff intro!: go)
  show "call_ok m i s (ossl_quic_stream_map_notify_all_data_sent m i)"
  proof (cases "qs_send_state s = QUIC_SSTREAM_STATE_SEND")
    case True
    then obtain q where q: "qs_sstream s = Some q"
      using stream_ok_buffer [OF sok] by (auto simp: has_send_buffer_iff)
    show ?thesis
    proof (cases "ossl_quic_sstream_get_final_size q")
      case None
      with True q s same show ?thesis
        by (simp add: ossl_quic_stream_map_notify_all_data_sent_def qs_sstream_at_def)
    next
      case (Some n)
      have "call_ok m i s (Inr (qsm_put m i (s\<lparr>qs_send_final_size := n, qs_send_state := QUIC_SSTREAM_STATE_DATA_SENT\<rparr>), True))"
        by (rule go) (use True in \<open>simp_all add: listed_same_def stream_evolves_def send_moves_def recv_moves_def has_send_buffer_iff has_recv_buffer_iff\<close>)
      with True q s Some show ?thesis
        by (simp add: ossl_quic_stream_map_notify_all_data_sent_def qs_sstream_at_def)
    qed
  next
    case False
    with s same show ?thesis
      by (cases "qs_send_state s") (simp_all add: ossl_quic_stream_map_notify_all_data_sent_def)
  qed
  show "call_ok m i s (ossl_quic_stream_map_notify_reset_stream_acked m i)"
    using s same flush by (cases "qs_send_state s") (auto simp: ossl_quic_stream_map_notify_reset_stream_acked_def listed_same_def stream_evolves_def send_moves_def recv_moves_def
        has_send_buffer_iff has_recv_buffer_iff intro!: go)
  show "call_ok m i s (ossl_quic_stream_map_notify_size_known_recv_part m i n)"
    using s same flush by (cases "qs_recv_state s") (auto simp: ossl_quic_stream_map_notify_size_known_recv_part_def listed_same_def stream_evolves_def send_moves_def recv_moves_def
        has_send_buffer_iff has_recv_buffer_iff intro!: go)
  show "call_ok m i s (ossl_quic_stream_map_notify_totally_received m i)"
    using s same flush by (cases "qs_recv_state s") (auto simp: ossl_quic_stream_map_notify_totally_received_def listed_same_def stream_evolves_def send_moves_def recv_moves_def
        has_send_buffer_iff has_recv_buffer_iff intro!: go)
  show "call_ok m i s (ossl_quic_stream_map_notify_app_read_reset_recv_part m i)"
    using s same flush by (cases "qs_recv_state s") (auto simp: ossl_quic_stream_map_notify_app_read_reset_recv_part_def listed_same_def stream_evolves_def send_moves_def recv_moves_def
        has_send_buffer_iff has_recv_buffer_iff intro!: go)
  show "call_ok m i s (ossl_quic_stream_map_notify_totally_read m i)"
  proof (cases "qs_recv_state s = QUIC_RSTREAM_STATE_DATA_RECVD")
    case True
    let ?s = "s\<lparr>qs_recv_state := QUIC_RSTREAM_STATE_DATA_READ, qs_rstream := None\<rparr>"
    have "stream_ok ?s"
      using sok by (simp add: stream_ok_def has_send_buffer_iff has_recv_buffer_iff cong: option.case_cong)
    then have "call_ok m i s (Inr ((qsm_put m i ?s)\<lparr>qsm_refs := ossl_quic_rstream_free (qsm_refs m) (qs_rstream s)\<rparr>, True))"
      using True by (intro put(2)) (simp_all add: listed_same_def stream_evolves_def send_moves_def recv_moves_def)
    with True s show ?thesis
      by (simp add: ossl_quic_stream_map_notify_totally_read_def)
  next
    case False
    with s same show ?thesis
      by (cases "qs_recv_state s") (simp_all add: ossl_quic_stream_map_notify_totally_read_def)
  qed
qed

lemma totally_acked_call_ok:
  assumes ok: "qsm_ok m" and s: "qsm_map m i = Some s"
  shows "call_ok m i s (ossl_quic_stream_map_notify_totally_acked m i)"
proof (cases "qs_send_state s = QUIC_SSTREAM_STATE_DATA_SENT")
  case True
  let ?s = "s\<lparr>qs_send_state := QUIC_SSTREAM_STATE_DATA_RECVD, qs_sstream := None\<rparr>"
  have l: "lists_ok (qsm_put m i ?s)"
    by (rule put_keeps(1) [OF ok s, of _ ?s]) (simp_all add: lists_same_def listed_same_def)
  obtain m' where m': "shutdown_flush_done (qsm_put m i ?s) i = Inr m'" "lists_ok m'"
    "qsm_map m' = (qsm_map (qsm_put m i ?s))(i \<mapsto> ?s\<lparr>qs_shutdown_flush := False\<rparr>)" "same_env (qsm_put m i ?s) m'"
    by (rule flush_done_spec [OF l, of i ?s]) simp_all
  have sok: "stream_ok (?s\<lparr>qs_shutdown_flush := False\<rparr>)"
    using qsm_okD(2) [OF ok s] by (simp add: stream_ok_def has_send_buffer_iff has_recv_buffer_iff)
  have map: "qsm_map m' = (qsm_map m)(i \<mapsto> ?s\<lparr>qs_shutdown_flush := False\<rparr>)"
    by (simp add: m'(3))
  have "qsm_ok m'"
    using m'(2) sok qsm_okD(2) [OF ok] by (auto simp: qsm_ok_def map)
  moreover have "stream_evolves s (?s\<lparr>qs_shutdown_flush := False\<rparr>)"
    using True by (simp add: stream_evolves_def send_moves_def recv_moves_def)
  ultimately show ?thesis
    using True s m'(1,4) map unfolding call_ok_def
    by (intro exI [of _ m'] exI [of _ True] exI [of _ "?s\<lparr>qs_shutdown_flush := False\<rparr>"]) (simp add: ossl_quic_stream_map_notify_totally_acked_def same_env_def)
next
  case False
  with s call_ok_same [OF ok s] show ?thesis
    by (cases "qs_send_state s") (simp_all add: ossl_quic_stream_map_notify_totally_acked_def)
qed

lemma stream_call_ok:
  assumes ok: "qsm_ok m" and s: "qsm_map m i = Some s"
  shows "call_ok m i s (stream_map_call c m i)"
proof (cases c)
  case Update_State
  have "call_ok m i s (res_bind (ossl_quic_stream_map_update_state m i) (\<lambda>m. Inr (m, True)))"
    by (rule call_ok_update [OF ok s _ qsm_okD(1) [OF ok] qsm_okD(2) [OF ok s] evolves_refl]) (use s in \<open>simp_all add: fun_upd_idem\<close>)
  with Update_State show ?thesis
    by simp
qed (simp_all add: plain_call_ok [OF ok s] totally_acked_call_ok [OF ok s] reset_ok [OF ok s] reset_recv_ok [OF ok s] stop_sending_ok [OF ok s] schedule_ok [OF ok s])

end
