(* ===== verification/Stream_Open.thy ===== *)
theory Stream_Open
  imports Stream_Map
begin

text \<open>
  The functions of \<^verbatim>\<open>ssl/quic/quic_channel.c\<close> that create and reject streams, the runs of a stream map (\<^verbatim>\<open>ssl/quic/quic_stream_map.c\<close>) and its properties.
\<close>

section \<open>Creating streams\<close>

text \<open>
  \<^verbatim>\<open>ssl/quic/quic_channel.c\<close>: the fields of the channel that its functions on streams use. \<open>mems\<close>: memory for the send buffer and for the receive buffer.
\<close>

record quic_channel_streams =
  ch_qsm :: quic_stream_map
  ch_conn_txfc :: addr
  ch_conn_rxfc :: addr
  ch_got_remote_transport_params :: bool
  ch_rx_init_max_stream_data_uni :: u64
  ch_rx_init_max_stream_data_bidi_local :: u64
  ch_rx_init_max_stream_data_bidi_remote :: u64
  ch_tx_init_max_stream_data_uni :: u64
  ch_tx_init_max_stream_data_bidi_local :: u64
  ch_tx_init_max_stream_data_bidi_remote :: u64
  ch_next_local_stream_ordinal_uni :: u64
  ch_next_local_stream_ordinal_bidi :: u64
  ch_max_local_streams_uni :: u64
  ch_max_local_streams_bidi :: u64
  ch_max_streams_uni_rxfc :: addr
  ch_max_streams_bidi_rxfc :: addr
  ch_incoming_stream_auto_reject :: bool
  ch_incoming_stream_auto_reject_aec :: u64

definition INIT_APP_BUF_LEN :: u64 where "INIT_APP_BUF_LEN = 8192"
definition DEFAULT_STREAM_RXFC_MAX_WND_MUL :: u64 where "DEFAULT_STREAM_RXFC_MAX_WND_MUL = 12"

type_synonym stream_mems = "(bool \<times> bytes option) \<times> (bool \<times> bytes option)"

definition ch_init_err :: "quic_channel_streams \<Rightarrow> u64 \<Rightarrow> quic_stream \<Rightarrow> c_fault + (quic_channel_streams \<times> bool)" where
  "ch_init_err ch i s =
     (let m = ch_qsm ch
      in Inr (ch\<lparr>ch_qsm := (qsm_put m i (s\<lparr>qs_sstream := None, qs_rstream := None\<rparr>))
                 \<lparr>qsm_refs := ossl_quic_rstream_free (qsm_refs m) (qs_rstream s)\<rparr>\<rparr>, False))"

text \<open>The flow controllers of a new stream.\<close>

definition ch_init_stream_fc ::
    "quic_channel_streams \<Rightarrow> u64 \<Rightarrow> quic_stream \<Rightarrow> bool \<Rightarrow> bool \<Rightarrow> bool \<Rightarrow> bool \<Rightarrow> c_fault + (quic_channel_streams \<times> bool)" where
  "ch_init_stream_fc ch i s is_uni local_init can_send can_recv =
     (let m = ch_qsm ch; (h, ok) = ossl_quic_txfc_init (qsm_txfcs m) (qs_txfc s) (Some (ch_conn_txfc ch)) in
      if \<not> ok then ch_init_err ch i s
      else
        let h = (if ch_got_remote_transport_params ch \<and> can_send then
                   let cwm = (if is_uni then ch_rx_init_max_stream_data_uni ch
                              else if local_init then ch_rx_init_max_stream_data_bidi_local ch
                              else ch_rx_init_max_stream_data_bidi_remote ch)
                   in fst (ossl_quic_txfc_bump_cwm h (qs_txfc s) cwm)
                 else h);
            ch = ch\<lparr>ch_qsm := m\<lparr>qsm_txfcs := h\<rparr>\<rparr>;
            rxfc_wnd = (if \<not> can_recv then 0
                        else if is_uni then ch_tx_init_max_stream_data_uni ch
                        else if local_init then ch_tx_init_max_stream_data_bidi_local ch
                        else ch_tx_init_max_stream_data_bidi_remote ch);
            (h, ok) = ossl_quic_rxfc_init (qsm_rxfcs m) (qs_rxfc s) (Some (ch_conn_rxfc ch)) rxfc_wnd (DEFAULT_STREAM_RXFC_MAX_WND_MUL * rxfc_wnd)
        in
        if \<not> ok then ch_init_err ch i s
        else Inr (ch\<lparr>ch_qsm := (qsm_put (ch_qsm ch) i s)\<lparr>qsm_rxfcs := h\<rparr>\<rparr>, True))"

definition ch_init_new_stream :: "stream_mems \<Rightarrow> quic_channel_streams \<Rightarrow> u64 \<Rightarrow> bool \<Rightarrow> bool \<Rightarrow> c_fault + (quic_channel_streams \<times> bool)" where
  "ch_init_new_stream mems ch i can_send can_recv =
     (let ((mem_s, blk_s), (mem_r, blk_r)) = mems in
      res_bind (qsm_at (ch_qsm ch) i) (\<lambda>s.
      let server_init = ossl_quic_stream_is_server_init s;
          local_init = (qsm_is_server (ch_qsm ch) = server_init);
          is_uni = (\<not> ossl_quic_stream_is_bidi s)
      in
      res_bind (if can_send then ossl_quic_sstream_new mem_s blk_s INIT_APP_BUF_LEN else Inr (qs_sstream s)) (\<lambda>q.
      let s = s\<lparr>qs_sstream := q\<rparr> in
      if can_send \<and> q = None then ch_init_err ch i s
      else
        res_bind (if can_recv then ossl_quic_rstream_new mem_r blk_r None None 0 else Inr (qs_rstream s)) (\<lambda>r.
        let s = s\<lparr>qs_rstream := r\<rparr> in
        if can_recv \<and> r = None then ch_init_err ch i s
        else ch_init_stream_fc ch i s is_uni local_init can_send can_recv))))"

definition ch_get_local_stream_next_ordinal :: "quic_channel_streams \<Rightarrow> bool \<Rightarrow> u64" where
  "ch_get_local_stream_next_ordinal ch is_uni = (if is_uni then ch_next_local_stream_ordinal_uni ch else ch_next_local_stream_ordinal_bidi ch)"

definition ch_set_local_stream_next_ordinal :: "quic_channel_streams \<Rightarrow> bool \<Rightarrow> u64 \<Rightarrow> quic_channel_streams" where
  "ch_set_local_stream_next_ordinal ch is_uni n =
     (if is_uni then ch\<lparr>ch_next_local_stream_ordinal_uni := n\<rparr> else ch\<lparr>ch_next_local_stream_ordinal_bidi := n\<rparr>)"

definition ch_get_local_stream_max :: "quic_channel_streams \<Rightarrow> bool \<Rightarrow> u64" where
  "ch_get_local_stream_max ch is_uni = (if is_uni then ch_max_local_streams_uni ch else ch_max_local_streams_bidi ch)"

definition ch_get_remote_stream_count_rxfc :: "quic_channel_streams \<Rightarrow> bool \<Rightarrow> addr" where
  "ch_get_remote_stream_count_rxfc ch is_uni = (if is_uni then ch_max_streams_uni_rxfc ch else ch_max_streams_bidi_rxfc ch)"

definition ossl_quic_channel_is_new_local_stream_admissible :: "quic_channel_streams \<Rightarrow> bool \<Rightarrow> bool" where
  "ossl_quic_channel_is_new_local_stream_admissible ch is_uni =
     ossl_quic_stream_map_is_local_allowed_by_stream_limit (ch_qsm ch) (ch_get_local_stream_next_ordinal ch is_uni) is_uni"

definition ossl_quic_channel_get_local_stream_count_avail :: "quic_channel_streams \<Rightarrow> bool \<Rightarrow> u64" where
  "ossl_quic_channel_get_local_stream_count_avail ch is_uni = ch_get_local_stream_max ch is_uni - ch_get_local_stream_next_ordinal ch is_uni"

definition ossl_quic_channel_get_remote_stream_count_avail :: "quic_channel_streams \<Rightarrow> bool \<Rightarrow> u64" where
  "ossl_quic_channel_get_remote_stream_count_avail ch is_uni = ossl_quic_rxfc_get_credit (qsm_rxfcs (ch_qsm ch)) (ch_get_remote_stream_count_rxfc ch is_uni)"

text \<open>A new stream is its id.\<close>

definition ch_release :: "quic_channel_streams \<Rightarrow> u64 \<Rightarrow> c_fault + (quic_channel_streams \<times> u64 option)" where
  "ch_release ch i = res_bind (ossl_quic_stream_map_release (ch_qsm ch) i) (\<lambda>m. Inr (ch\<lparr>ch_qsm := m\<rparr>, None))"

definition ossl_quic_channel_new_stream_local ::
    "stream_mems \<Rightarrow> (addr \<times> addr) option \<Rightarrow> quic_channel_streams \<Rightarrow> bool \<Rightarrow> c_fault + (quic_channel_streams \<times> u64 option)" where
  "ossl_quic_channel_new_stream_local mems alloc ch is_uni =
     (let type = (if qsm_is_server (ch_qsm ch) then QUIC_STREAM_INITIATOR_SERVER else QUIC_STREAM_INITIATOR_CLIENT);
          ordinal = ch_get_local_stream_next_ordinal ch is_uni;
          type = type OR (if is_uni then QUIC_STREAM_DIR_UNI else QUIC_STREAM_DIR_BIDI)
      in
      if ordinal \<ge> push_bit 62 1 then Inr (ch, None)
      else
        let stream_id = push_bit 2 ordinal OR type; (m, ok) = ossl_quic_stream_map_alloc alloc (ch_qsm ch) stream_id type in
        if \<not> ok then Inr (ch, None)
        else
          res_bind (ch_init_new_stream mems (ch\<lparr>ch_qsm := m\<rparr>) stream_id True (\<not> is_uni)) (\<lambda>(ch, ok).
          if \<not> ok then ch_release ch stream_id
          else Inr (ch_set_local_stream_next_ordinal ch is_uni (ordinal + 1), Some stream_id)))"

definition ossl_quic_channel_set_incoming_stream_auto_reject :: "quic_channel_streams \<Rightarrow> bool \<Rightarrow> u64 \<Rightarrow> quic_channel_streams" where
  "ossl_quic_channel_set_incoming_stream_auto_reject ch enable aec =
     ch\<lparr>ch_incoming_stream_auto_reject := enable, ch_incoming_stream_auto_reject_aec := aec\<rparr>"

definition ossl_quic_channel_reject_stream :: "quic_channel_streams \<Rightarrow> u64 \<Rightarrow> c_fault + quic_channel_streams" where
  "ossl_quic_channel_reject_stream ch i =
     res_bind (ossl_quic_stream_map_stop_sending_recv_part (ch_qsm ch) i (ch_incoming_stream_auto_reject_aec ch)) (\<lambda>(m, _).
     res_bind (ossl_quic_stream_map_reset_stream_send_part m i (ch_incoming_stream_auto_reject_aec ch)) (\<lambda>(m, _).
     res_bind (qsm_at m i) (\<lambda>s.
     res_bind (ossl_quic_stream_map_update_state (qsm_put m i (s\<lparr>qs_deleted := True\<rparr>)) i) (\<lambda>m.
     Inr (ch\<lparr>ch_qsm := m\<rparr>)))))"

definition ossl_quic_channel_new_stream_remote ::
    "stream_mems \<Rightarrow> (addr \<times> addr) option \<Rightarrow> quic_channel_streams \<Rightarrow> u64 \<Rightarrow> c_fault + (quic_channel_streams \<times> u64 option)" where
  "ossl_quic_channel_new_stream_remote mems alloc ch stream_id =
     (let peer_role = (if qsm_is_server (ch_qsm ch) then QUIC_STREAM_INITIATOR_CLIENT else QUIC_STREAM_INITIATOR_SERVER) in
      if stream_id AND QUIC_STREAM_INITIATOR_MASK \<noteq> peer_role then Inr (ch, None)
      else
        let is_uni = (stream_id AND QUIC_STREAM_DIR_MASK = QUIC_STREAM_DIR_UNI);
            (m, ok) = ossl_quic_stream_map_alloc alloc (ch_qsm ch) stream_id
                        (stream_id AND (QUIC_STREAM_INITIATOR_MASK OR QUIC_STREAM_DIR_MASK))
        in
        if \<not> ok then Inr (ch, None)
        else
          res_bind (ch_init_new_stream mems (ch\<lparr>ch_qsm := m\<rparr>) stream_id (\<not> is_uni) True) (\<lambda>(ch, ok).
          if \<not> ok then ch_release ch stream_id
          else
            res_bind (if ch_incoming_stream_auto_reject ch then ossl_quic_channel_reject_stream ch stream_id
                      else res_bind (ossl_quic_stream_map_push_accept_queue (ch_qsm ch) stream_id) (\<lambda>m. Inr (ch\<lparr>ch_qsm := m\<rparr>))) (\<lambda>ch.
            Inr (ch, Some stream_id))))"


section \<open>Creating and releasing streams keeps the map well-formed\<close>

definition mems_ok :: "stream_mems \<Rightarrow> bool" where
  "mems_ok mems \<longleftrightarrow> (\<forall>b. snd (fst mems) = Some b \<longrightarrow> length b = unat INIT_APP_BUF_LEN)"

lemma sstream_new_total:
  assumes "\<And>b. blk = Some b \<Longrightarrow> length b = unat INIT_APP_BUF_LEN"
  shows "\<exists>q. ossl_quic_sstream_new mem blk INIT_APP_BUF_LEN = Inr q \<and> (\<forall>x. q = Some x \<longrightarrow> sstream_ok x [])"
proof -
  have blk: "case blk of None \<Rightarrow> True | Some b \<Rightarrow> length b = unat INIT_APP_BUF_LEN"
    using assms by (simp split: option.split)
  have n: "INIT_APP_BUF_LEN < 2 ^ 63" "unat INIT_APP_BUF_LEN < 2 ^ 63"
    by (simp_all add: INIT_APP_BUF_LEN_def)
  have "ring_ok ring_buf_init"
    by (simp add: ring_buf_init_def ring_ok_def)
  then obtain r ok where "ring_buf_resize blk ring_buf_init INIT_APP_BUF_LEN False = Inr (r, ok)"
    by (rule ring_buf_resize_spec [OF _ n(2) assms]) auto
  then obtain q where "ossl_quic_sstream_new mem blk INIT_APP_BUF_LEN = Inr q"
    by (cases mem; cases ok) (auto simp: ossl_quic_sstream_new_def)
  with sstream_new_ok [OF _ n(1) blk] show ?thesis
    by blast
qed

lemma rstream_new_total: "ossl_quic_rstream_new mem blk None None 0 = Inr q \<Longrightarrow> q \<noteq> None \<longleftrightarrow> mem" "\<exists>q. ossl_quic_rstream_new mem blk None None 0 = Inr q"
  by (cases mem; auto simp: ossl_quic_rstream_new_def ring_buf_resize_def ring_buf_init_def)+

text \<open>A stream that no list holds.\<close>

definition unlisted :: "quic_stream_map \<Rightarrow> u64 \<Rightarrow> quic_stream \<Rightarrow> bool" where
  "unlisted m i s \<longleftrightarrow> \<not> qs_active s \<and> \<not> qs_ready_for_gc s \<and> \<not> qs_shutdown_flush s \<and> i \<notin> set (accept_list m)"

lemma lists_ok_insert:
  assumes ok: "lists_ok m" and new: "qsm_map m i = None" and s: "unlisted m i s" "qs_id s = i" "qs_as_server s = qsm_is_server m"
    and m': "qsm_map m' = (qsm_map m)(i \<mapsto> s)" "lists_same m m'"
  shows "lists_ok m'"
proof -
  have f: "flagged f m' = flagged f m" if "\<not> f s" for f
    using new that by (auto simp: flagged_def m'(1))
  have F: "flagged qs_active m' = flagged qs_active m" "flagged qs_ready_for_gc m' = flagged qs_ready_for_gc m"
    "flagged qs_shutdown_flush m' = flagged qs_shutdown_flush m"
    by (rule f, use s in \<open>simp add: unlisted_def\<close>)+
  have L: "active_list m' = active_list m" "accept_list m' = accept_list m" "ready_for_gc_list m' = ready_for_gc_list m"
    "num_accept_bidi m' = num_accept_bidi m" "num_accept_uni m' = num_accept_uni m" "num_shutdown_flush m' = num_shutdown_flush m"
    "rr_cur m' = rr_cur m" "qsm_is_server m' = qsm_is_server m"
    using m'(2) by (simp_all add: lists_same_def)
  have a: "accept_of_kind m' b = accept_of_kind m b" for b
    using s(1) by (intro accept_of_kind_cong [OF L(2)]) (auto simp: m'(1) unlisted_def)
  show ?thesis
    using ok s(2,3) unfolding lists_ok_def F a L m'(1) by auto
qed

lemma lists_ok_delete:
  assumes ok: "lists_ok m" and s: "qsm_map m i = Some s" "unlisted m i s"
    and m': "qsm_map m' = (qsm_map m)(i := None)" "lists_same m m'"
  shows "lists_ok m'"
proof -
  have f: "flagged f m' = flagged f m" if "\<not> f s" for f
    using s that by (auto simp: flagged_def m'(1))
  have F: "flagged qs_active m' = flagged qs_active m" "flagged qs_ready_for_gc m' = flagged qs_ready_for_gc m"
    "flagged qs_shutdown_flush m' = flagged qs_shutdown_flush m"
    by (rule f, use s in \<open>simp add: unlisted_def\<close>)+
  have L: "active_list m' = active_list m" "accept_list m' = accept_list m" "ready_for_gc_list m' = ready_for_gc_list m"
    "num_accept_bidi m' = num_accept_bidi m" "num_accept_uni m' = num_accept_uni m" "num_shutdown_flush m' = num_shutdown_flush m"
    "rr_cur m' = rr_cur m" "qsm_is_server m' = qsm_is_server m"
    using m'(2) by (simp_all add: lists_same_def)
  have i: "i \<notin> set (accept_list m)"
    using s(2) by (simp add: unlisted_def)
  then have a: "accept_of_kind m' b = accept_of_kind m b" for b
    by (intro accept_of_kind_cong [OF L(2)]) (auto simp: m'(1))
  show ?thesis
    using ok i unfolding lists_ok_def F a L m'(1) by auto
qed

lemma stream_release_spec:
  assumes ok: "lists_ok m" and s: "qsm_map m i = Some s" "unlisted m i s"
  obtains m' where "ossl_quic_stream_map_release m i = Inr m'" "lists_ok m'" "qsm_map m' = (qsm_map m)(i := None)" "lists_same m m'"
proof -
  define m' where "m' = m\<lparr>qsm_refs := ossl_quic_rstream_free (qsm_refs m) (qs_rstream s), qsm_map := (qsm_map m)(i := None)\<rparr>"
  have m': "qsm_map m' = (qsm_map m)(i := None)" "lists_same m m'"
    by (simp_all add: m'_def lists_same_def)
  have "i \<notin> set (active_list m)" "i \<notin> set (ready_for_gc_list m)" "i \<notin> set (accept_list m)"
    using s flagged_at [OF s(1)] lists_okD(4,6) [OF ok, of i] by (simp_all add: unlisted_def)
  then have "ossl_quic_stream_map_release m i = Inr m'"
    using s(1) by (simp add: ossl_quic_stream_map_release_def unlink_def m'_def)
  with m' lists_ok_delete [OF ok s m'] show ?thesis
    using that by blast
qed

text \<open>The kinds of stream that the channel creates.\<close>

lemma type_bits:
  fixes t :: u64
  assumes "t \<in> {0, 1, 2, 3}"
  shows "(t AND 1 = 1) = (t = 1 \<or> t = 3)" and "(t AND 2 = 0) = (t = 0 \<or> t = 1)"
  using assms by auto

definition fresh_stream :: "quic_stream_map \<Rightarrow> u64 \<Rightarrow> u64 \<Rightarrow> quic_stream \<Rightarrow> bool" where
  "fresh_stream m i type s \<longleftrightarrow> unlisted m i s \<and> qs_id s = i \<and> qs_type s = type \<and> qs_as_server s = qsm_is_server m
     \<and> (ossl_quic_stream_has_send s \<longleftrightarrow> (type AND 1 = 1) = qsm_is_server m \<or> type AND 2 = 0) \<and> qs_send_state s \<in> {QUIC_SSTREAM_STATE_NONE, QUIC_SSTREAM_STATE_READY}
     \<and> (ossl_quic_stream_has_recv s \<longleftrightarrow> (type AND 1 = 1) \<noteq> qsm_is_server m \<or> type AND 2 = 0) \<and> qs_recv_state s \<in> {QUIC_RSTREAM_STATE_NONE, QUIC_RSTREAM_STATE_RECV}
     \<and> \<not> qs_deleted s"

lemma stream_alloc_spec:
  assumes ok: "qsm_ok m"
  obtains (got) m' s where "ossl_quic_stream_map_alloc alloc m i type = (m', True)" "qsm_map m i = None" "alloc \<noteq> None" "lists_ok m'" "lists_same m m'"
      "qsm_map m' = (qsm_map m)(i \<mapsto> s)" "fresh_stream m i type s" "qs_sstream s = None" "qs_rstream s = None"
  | (failed) "ossl_quic_stream_map_alloc alloc m i type = (m, False)" "qsm_map m i \<noteq> None \<or> alloc = None"
proof (cases "qsm_map m i = None \<and> alloc \<noteq> None")
  case False
  then show ?thesis
    by (intro failed) (auto simp: ossl_quic_stream_map_alloc_def split: option.split)
next
  case True
  then obtain t r where tr: "alloc = Some (t, r)"
    by auto
  have new: "i \<notin> set (accept_list m)"
    using True lists_okD(8) [OF qsm_okD(1) [OF ok], of i] by auto
  define s where "s = (zero_stream t r)\<lparr>qs_id := i, qs_type := type, qs_as_server := qsm_is_server m,
    qs_send_state := (if (type AND 1 = 1) = qsm_is_server m \<or> type AND 2 = 0 then QUIC_SSTREAM_STATE_READY else QUIC_SSTREAM_STATE_NONE),
    qs_recv_state := (if (type AND 1 = 1) \<noteq> qsm_is_server m \<or> type AND 2 = 0 then QUIC_RSTREAM_STATE_RECV else QUIC_RSTREAM_STATE_NONE),
    qs_send_final_size := - 1\<rparr>"
  define m' where "m' = qsm_put (m\<lparr>qsm_txfcs := (qsm_txfcs m)(t := zero_txfc), qsm_rxfcs := (qsm_rxfcs m)(r := zero_rxfc)\<rparr>) i s"
  have res: "ossl_quic_stream_map_alloc alloc m i type = (m', True)"
    using True tr by (simp add: ossl_quic_stream_map_alloc_def m'_def s_def Let_def ossl_quic_stream_is_local_init_def ossl_quic_stream_is_server_init_def
        ossl_quic_stream_is_bidi_def QUIC_STREAM_INITIATOR_MASK_def QUIC_STREAM_INITIATOR_SERVER_def QUIC_STREAM_DIR_MASK_def QUIC_STREAM_DIR_BIDI_def)
  have fresh: "fresh_stream m i type s" "qs_sstream s = None" "qs_rstream s = None"
    using new by (simp_all add: fresh_stream_def s_def zero_stream_def unlisted_def ossl_quic_stream_has_send_def ossl_quic_stream_has_recv_def)
  have m': "qsm_map m' = (qsm_map m)(i \<mapsto> s)" "lists_same m m'"
    by (simp_all add: m'_def lists_same_def)
  have "lists_ok m'"
    by (rule lists_ok_insert [OF qsm_okD(1) [OF ok] _ _ _ _ m']) (use True fresh in \<open>simp_all add: fresh_stream_def\<close>)
  with res True m' fresh show ?thesis
    by (intro got [of m' s]) simp_all
qed

definition ch_same :: "quic_channel_streams \<Rightarrow> quic_channel_streams \<Rightarrow> bool" where
  "ch_same ch ch' \<longleftrightarrow> (\<exists>m. ch' = ch\<lparr>ch_qsm := m\<rparr>)"

lemma ch_same_simps [simp]: "ch_same ch ch" "ch_same ch (ch\<lparr>ch_qsm := m\<rparr>)"
  by (auto simp: ch_same_def intro: exI [of _ "ch_qsm ch"])

lemma ch_same_upd: "ch_same ch ch' \<Longrightarrow> ch_same ch (ch'\<lparr>ch_qsm := m\<rparr>)" "ch_same (ch\<lparr>ch_qsm := m\<rparr>) ch' \<Longrightarrow> ch_same ch ch'"
  "ch_same ch ch' \<Longrightarrow> ch' = ch\<lparr>ch_qsm := ch_qsm ch'\<rparr>"
  by (auto simp: ch_same_def)

lemma init_fc_cases:
  obtains ht where "ch_init_stream_fc ch i s is_uni local_init can_send can_recv = ch_init_err (ch\<lparr>ch_qsm := (ch_qsm ch)\<lparr>qsm_txfcs := ht\<rparr>\<rparr>) i s"
  | ht hr where "ch_init_stream_fc ch i s is_uni local_init can_send can_recv =
      Inr (ch\<lparr>ch_qsm := (qsm_put ((ch_qsm ch)\<lparr>qsm_txfcs := ht\<rparr>) i s)\<lparr>qsm_rxfcs := hr\<rparr>\<rparr>, True)"
proof -
  obtain h k where h: "ossl_quic_txfc_init (qsm_txfcs (ch_qsm ch)) (qs_txfc s) (Some (ch_conn_txfc ch)) = (h, k)"
    by fastforce
  have same: "ch = ch\<lparr>ch_qsm := (ch_qsm ch)\<lparr>qsm_txfcs := qsm_txfcs (ch_qsm ch)\<rparr>\<rparr>"
    by simp
  show ?thesis
  proof (cases k)
    case False
    with h have "ch_init_stream_fc ch i s is_uni local_init can_send can_recv = ch_init_err ch i s"
      by (simp add: ch_init_stream_fc_def)
    with same that(1) [of "qsm_txfcs (ch_qsm ch)"] show ?thesis
      by simp
  next
    case True
    define h' where "h' = (if ch_got_remote_transport_params ch \<and> can_send then
        fst (ossl_quic_txfc_bump_cwm h (qs_txfc s) (if is_uni then ch_rx_init_max_stream_data_uni ch
          else if local_init then ch_rx_init_max_stream_data_bidi_local ch else ch_rx_init_max_stream_data_bidi_remote ch)) else h)"
    define c where "c = ch\<lparr>ch_qsm := (ch_qsm ch)\<lparr>qsm_txfcs := h'\<rparr>\<rparr>"
    have c: "ch_conn_rxfc c = ch_conn_rxfc ch"
      by (simp add: c_def)
    define wnd where "wnd = (if \<not> can_recv then 0 else if is_uni then ch_tx_init_max_stream_data_uni c
        else if local_init then ch_tx_init_max_stream_data_bidi_local c else ch_tx_init_max_stream_data_bidi_remote c)"
    obtain h2 k2 where h2: "ossl_quic_rxfc_init (qsm_rxfcs (ch_qsm ch)) (qs_rxfc s) (Some (ch_conn_rxfc ch)) wnd (DEFAULT_STREAM_RXFC_MAX_WND_MUL * wnd) = (h2, k2)"
      by fastforce
    have "ch_init_stream_fc ch i s is_uni local_init can_send can_recv =
       (if \<not> k2 then ch_init_err (ch\<lparr>ch_qsm := (ch_qsm ch)\<lparr>qsm_txfcs := h'\<rparr>\<rparr>) i s
        else Inr (ch\<lparr>ch_qsm := (qsm_put ((ch_qsm ch)\<lparr>qsm_txfcs := h'\<rparr>) i s)\<lparr>qsm_rxfcs := h2\<rparr>\<rparr>, True))"
      unfolding ch_init_stream_fc_def h Let_def prod.case h'_def [unfolded Let_def, symmetric] c_def [symmetric] wnd_def [symmetric]
      by (simp add: True c h2 split del: if_split) (simp add: c_def)
    with that show ?thesis
      by (metis (full_types))
  qed
qed

lemma init_stream_spec:
  assumes ok: "lists_ok m" and s: "qsm_map m i = Some s" "fresh_stream m0 i type s" "qs_sstream s = None" "qs_rstream s = None" and same: "lists_same m0 m"
    and send: "can_send = ossl_quic_stream_has_send s" and recv: "can_recv = ossl_quic_stream_has_recv s" and mems: "mems_ok mems" and ch: "ch_qsm ch = m"
  obtains ch' ok s' where "ch_init_new_stream mems ch i can_send can_recv = Inr (ch', ok)" "ch_same ch ch'" "lists_ok (ch_qsm ch')"
    "qsm_map (ch_qsm ch') = (qsm_map m)(i \<mapsto> s')" "lists_same m (ch_qsm ch')" "\<exists>q r. s' = s\<lparr>qs_sstream := q, qs_rstream := r\<rparr>"
    "ok \<Longrightarrow> stream_ok s'" "\<not> ok \<Longrightarrow> s' = s" "ok \<Longrightarrow> \<forall>q. qs_sstream s' = Some q \<longrightarrow> sstream_ok q []"
proof -
  note result = that
  obtain mem_s blk_s mem_r blk_r where M: "mems = ((mem_s, blk_s), (mem_r, blk_r))"
    by (metis prod.collapse)
  have keep: "lists_ok m'" if "qsm_map m' = (qsm_map m)(i \<mapsto> s\<lparr>qs_sstream := q, qs_rstream := r\<rparr>)" "lists_same m m'" for m' q r
    using that by (intro lists_ok_put [OF ok s(1), of "s\<lparr>qs_sstream := q, qs_rstream := r\<rparr>"]) (simp_all add: lists_same_def)
  have err: ?thesis if R: "ch_init_new_stream mems ch i can_send can_recv = ch_init_err ch1 i (s\<lparr>qs_sstream := q, qs_rstream := r\<rparr>)"
    and c1: "ch1 = ch\<lparr>ch_qsm := m1\<rparr>" "\<exists>h. m1 = m\<lparr>qsm_txfcs := h\<rparr>" for q r ch1 m1
  proof -
    define m2 where "m2 = (qsm_put m1 i s)\<lparr>qsm_refs := ossl_quic_rstream_free (qsm_refs m1) r\<rparr>"
    have s': "s\<lparr>qs_sstream := None, qs_rstream := None\<rparr> = s"
      using s(3,4) by simp
    have m: "qsm_map m2 = (qsm_map m)(i \<mapsto> s\<lparr>qs_sstream := None, qs_rstream := None\<rparr>)" "lists_same m m2"
      using c1(2) unfolding s' by (auto simp: lists_same_def m2_def)
    have "ch_init_new_stream mems ch i can_send can_recv = Inr (ch\<lparr>ch_qsm := m2\<rparr>, False)"
      unfolding R by (simp add: ch_init_err_def c1(1) Let_def s' m2_def)
    moreover have "\<exists>q r. s = s\<lparr>qs_sstream := q, qs_rstream := r\<rparr>"
      using s' by metis
    ultimately show ?thesis
      using keep [OF m] m unfolding s' by (intro result [of "ch\<lparr>ch_qsm := m2\<rparr>" False s]) simp_all
  qed
  obtain q0 where q0: "ossl_quic_sstream_new mem_s blk_s INIT_APP_BUF_LEN = Inr q0" "\<And>x. q0 = Some x \<Longrightarrow> sstream_ok x []"
    using sstream_new_total [of blk_s mem_s] mems by (auto simp: mems_ok_def M)
  obtain r0 where r0: "ossl_quic_rstream_new mem_r blk_r None None 0 = Inr r0"
    using rstream_new_total(2) by blast
  define q where "q = (if can_send then q0 else None)"
  define r where "r = (if can_recv then r0 else None)"
  have q: "(if can_send then ossl_quic_sstream_new mem_s blk_s INIT_APP_BUF_LEN else Inr (qs_sstream s)) = Inr q"
    using q0(1) s(3) by (simp add: q_def)
  have r: "(if can_recv then ossl_quic_rstream_new mem_r blk_r None None 0 else Inr (qs_rstream (s\<lparr>qs_sstream := q\<rparr>))) = Inr r"
    using r0 s(4) by (simp add: r_def)
  have at: "qsm_at (ch_qsm ch) i = Inr s"
    using s(1) ch by simp
  have rs: "s\<lparr>qs_sstream := q\<rparr> = s\<lparr>qs_sstream := q, qs_rstream := None\<rparr>"
    using s(4) by simp
  note unf = ch_init_new_stream_def M prod.case Let_def at res_bind_simps q r
  show ?thesis
  proof (cases "can_send \<and> q = None")
    case True
    then have "ch_init_new_stream mems ch i can_send can_recv = ch_init_err ch i (s\<lparr>qs_sstream := q\<rparr>)"
      unfolding unf by simp
    also have "\<dots> = ch_init_err ch i (s\<lparr>qs_sstream := q, qs_rstream := None\<rparr>)"
      by (rule arg_cong [OF rs])
    finally show ?thesis
      by (rule err [of ch _ _ m]) (use ch in \<open>auto intro: exI [of _ "qsm_txfcs m"]\<close>)
  next
    case q_ok: False
    show ?thesis
    proof (cases "can_recv \<and> r = None")
      case True
      have "ch_init_new_stream mems ch i can_send can_recv = ch_init_err ch i (s\<lparr>qs_sstream := q, qs_rstream := r\<rparr>)"
        unfolding unf if_not_P [OF q_ok] if_P [OF True] by (rule refl)
      then show ?thesis
        by (rule err [of ch _ _ m]) (use ch in \<open>auto intro: exI [of _ "qsm_txfcs m"]\<close>)
    next
      case r_ok: False
      let ?s = "s\<lparr>qs_sstream := q, qs_rstream := r\<rparr>"
      have "ch_init_new_stream mems ch i can_send can_recv =
          ch_init_stream_fc ch i ?s (\<not> ossl_quic_stream_is_bidi s) (qsm_is_server (ch_qsm ch) = ossl_quic_stream_is_server_init s) can_send can_recv"
        unfolding unf if_not_P [OF q_ok] if_not_P [OF r_ok] by (rule refl)
      with init_fc_cases [of ch i ?s "\<not> ossl_quic_stream_is_bidi s" "qsm_is_server (ch_qsm ch) = ossl_quic_stream_is_server_init s" can_send can_recv]
      obtain ht hr where R: "ch_init_new_stream mems ch i can_send can_recv = ch_init_err (ch\<lparr>ch_qsm := (ch_qsm ch)\<lparr>qsm_txfcs := ht\<rparr>\<rparr>) i ?s
        \<or> ch_init_new_stream mems ch i can_send can_recv = Inr (ch\<lparr>ch_qsm := (qsm_put ((ch_qsm ch)\<lparr>qsm_txfcs := ht\<rparr>) i ?s)\<lparr>qsm_rxfcs := hr\<rparr>\<rparr>, True)"
        by metis
      then show ?thesis
      proof
        assume "ch_init_new_stream mems ch i can_send can_recv = ch_init_err (ch\<lparr>ch_qsm := (ch_qsm ch)\<lparr>qsm_txfcs := ht\<rparr>\<rparr>) i ?s"
        then show ?thesis
          by (rule err [OF _ refl]) (use ch in auto)
      next
        let ?m = "(qsm_put (m\<lparr>qsm_txfcs := ht\<rparr>) i ?s)\<lparr>qsm_rxfcs := hr\<rparr>"
        assume I: "ch_init_new_stream mems ch i can_send can_recv = Inr (ch\<lparr>ch_qsm := (qsm_put ((ch_qsm ch)\<lparr>qsm_txfcs := ht\<rparr>) i ?s)\<lparr>qsm_rxfcs := hr\<rparr>\<rparr>, True)"
        have m: "qsm_map ?m = (qsm_map m)(i \<mapsto> ?s)" "lists_same m ?m"
          by (simp_all add: lists_same_def)
        have "stream_ok ?s"
          using s(2) q_ok r_ok q0(2) send recv unfolding fresh_stream_def unlisted_def stream_ok_def has_send_buffer_iff has_recv_buffer_iff
          by (cases q) (auto simp: q_def r_def ossl_quic_stream_has_send_def ossl_quic_stream_has_recv_def split: if_splits)
        moreover have "\<forall>x. q = Some x \<longrightarrow> sstream_ok x []"
          using q0(2) by (simp add: q_def)
        ultimately show ?thesis
          using keep [OF m] m I by (intro result [of "ch\<lparr>ch_qsm := ?m\<rparr>" True ?s]) (auto simp: ch)
      qed
    qed
  qed
qed


lemma unlisted_same: "lists_same m0 m \<Longrightarrow> unlisted m i s = unlisted m0 i s"
  by (simp add: unlisted_def lists_same_def)

lemma unlisted_buffers: "unlisted m i (s\<lparr>qs_sstream := q, qs_rstream := r\<rparr>) = unlisted m i s"
  by (simp add: unlisted_def)

lemma fresh_buffers: "fresh_stream m i t (s\<lparr>qs_sstream := q, qs_rstream := r\<rparr>) = fresh_stream m i t s"
  by (simp add: fresh_stream_def unlisted_def ossl_quic_stream_has_send_def ossl_quic_stream_has_recv_def)

lemma lists_same_trans: "lists_same a b \<Longrightarrow> lists_same b c \<Longrightarrow> lists_same a c"
  by (simp add: lists_same_def)

text \<open>Allocating a stream, setting it up and releasing it again when that fails.\<close>

lemma open_spec:
  assumes ok: "qsm_ok (ch_qsm ch)" and mems: "mems_ok mems" and alloc: "ossl_quic_stream_map_alloc alloc (ch_qsm ch) i type = (m, True)"
    and send: "can_send \<longleftrightarrow> (type AND 1 = 1) = qsm_is_server (ch_qsm ch) \<or> type AND 2 = 0" and recv: "can_recv \<longleftrightarrow> (type AND 1 = 1) \<noteq> qsm_is_server (ch_qsm ch) \<or> type AND 2 = 0"
  obtains (opened) ch' s where "ch_init_new_stream mems (ch\<lparr>ch_qsm := m\<rparr>) i can_send can_recv = Inr (ch', True)" "ch_same ch ch'" "qsm_ok (ch_qsm ch')"
      "lists_same (ch_qsm ch) (ch_qsm ch')" "qsm_map (ch_qsm ch) i = None" "qsm_map (ch_qsm ch') = (qsm_map (ch_qsm ch))(i \<mapsto> s)"
      "fresh_stream (ch_qsm ch) i type s" "stream_ok s" "\<forall>q. qs_sstream s = Some q \<longrightarrow> sstream_ok q []"
  | (failed) ch' ch'' where "ch_init_new_stream mems (ch\<lparr>ch_qsm := m\<rparr>) i can_send can_recv = Inr (ch', False)" "ch_release ch' i = Inr (ch'', None)" "ch_same ch ch''"
      "qsm_ok (ch_qsm ch'')" "lists_same (ch_qsm ch) (ch_qsm ch'')" "qsm_map (ch_qsm ch'') = qsm_map (ch_qsm ch)"
proof -
  obtain s where s: "qsm_map (ch_qsm ch) i = None" "lists_ok m" "lists_same (ch_qsm ch) m" "qsm_map m = (qsm_map (ch_qsm ch))(i \<mapsto> s)"
    "fresh_stream (ch_qsm ch) i type s" "qs_sstream s = None" "qs_rstream s = None"
    by (rule stream_alloc_spec [OF ok, of alloc i type]) (use alloc in auto)
  then have at: "qsm_map m i = Some s"
    by simp
  have S: "can_send = ossl_quic_stream_has_send s" and R: "can_recv = ossl_quic_stream_has_recv s"
    using s(5) send recv by (simp_all add: fresh_stream_def)
  obtain ch' k s' where I: "ch_init_new_stream mems (ch\<lparr>ch_qsm := m\<rparr>) i can_send can_recv = Inr (ch', k)" "ch_same (ch\<lparr>ch_qsm := m\<rparr>) ch'" "lists_ok (ch_qsm ch')"
    "qsm_map (ch_qsm ch') = (qsm_map m)(i \<mapsto> s')" "lists_same m (ch_qsm ch')" "\<exists>q r. s' = s\<lparr>qs_sstream := q, qs_rstream := r\<rparr>"
    "k \<Longrightarrow> stream_ok s'" "\<not> k \<Longrightarrow> s' = s" "k \<Longrightarrow> \<forall>q. qs_sstream s' = Some q \<longrightarrow> sstream_ok q []"
    by (rule init_stream_spec [OF s(2) at s(5-7) s(3) S R mems, of "ch\<lparr>ch_qsm := m\<rparr>"]) simp_all
  have same: "ch_same ch ch'" "lists_same (ch_qsm ch) (ch_qsm ch')"
    using I(2,5) s(3) by (auto intro: lists_same_trans ch_same_upd(2))
  have map: "qsm_map (ch_qsm ch') = (qsm_map (ch_qsm ch))(i \<mapsto> s')"
    by (simp add: I(4) s(4))
  have fresh: "fresh_stream (ch_qsm ch) i type s'"
    using I(6) s(5) by (auto simp: fresh_buffers)
  show ?thesis
  proof (cases k)
    case True
    then have "qsm_ok (ch_qsm ch')"
      using I(3,7) qsm_okD(2) [OF ok] by (auto simp: qsm_ok_def map)
    with True show ?thesis
      using I(1,7,9) same map fresh s(1) by (intro opened) simp_all
  next
    case False
    have u: "unlisted (ch_qsm ch') i s'"
      using fresh unlisted_same [OF same(2)] by (simp add: fresh_stream_def)
    obtain m' where m': "ossl_quic_stream_map_release (ch_qsm ch') i = Inr m'" "lists_ok m'" "qsm_map m' = (qsm_map (ch_qsm ch'))(i := None)" "lists_same (ch_qsm ch') m'"
      by (rule stream_release_spec [OF I(3) _ u]) (simp add: map)
    have map': "qsm_map m' = qsm_map (ch_qsm ch)"
      using s(1) by (auto simp: m'(3) map)
    have "qsm_ok m'"
      using m'(2) qsm_okD(2) [OF ok] by (auto simp: qsm_ok_def map')
    moreover have "ch_release ch' i = Inr (ch'\<lparr>ch_qsm := m'\<rparr>, None)"
      by (simp add: ch_release_def m'(1))
    moreover have "ch_same ch (ch'\<lparr>ch_qsm := m'\<rparr>)"
      by (rule ch_same_upd(1) [OF same(1)])
    ultimately show ?thesis
      using I(1) False map' lists_same_trans [OF same(2) m'(4)] by (intro failed [of ch' "ch'\<lparr>ch_qsm := m'\<rparr>"]) simp_all
  qed
qed

definition local_type :: "quic_channel_streams \<Rightarrow> bool \<Rightarrow> u64" where
  "local_type ch is_uni = (if qsm_is_server (ch_qsm ch) then 1 else 0) + (if is_uni then 2 else 0)"

lemma local_type_bits:
  "local_type ch is_uni \<in> {0, 1, 2, 3}" "(local_type ch is_uni AND 1 = 1) = qsm_is_server (ch_qsm ch)" "(local_type ch is_uni AND 2 = 0) = (\<not> is_uni)"
  "(if qsm_is_server (ch_qsm ch) then QUIC_STREAM_INITIATOR_SERVER else QUIC_STREAM_INITIATOR_CLIENT) OR (if is_uni then QUIC_STREAM_DIR_UNI else QUIC_STREAM_DIR_BIDI)
    = local_type ch is_uni"
  by (auto simp: local_type_def QUIC_STREAM_INITIATOR_SERVER_def QUIC_STREAM_INITIATOR_CLIENT_def QUIC_STREAM_DIR_UNI_def QUIC_STREAM_DIR_BIDI_def)

text \<open>A local stream id: its ordinal and its type can be read off.\<close>

lemma local_id_parts:
  fixes n t :: u64
  assumes "n < push_bit 62 1" and "t \<in> {0, 1, 2, 3}"
  shows "drop_bit 2 (push_bit 2 n OR t) = n" and "(push_bit 2 n OR t) AND 3 = t"
proof -
  have n: "unat n < 2 ^ 62"
    using assms(1) by (simp add: word_less_nat_alt)
  have p: "drop_bit 2 (push_bit 2 n) = n"
  proof (rule word_unat_eq_iff [THEN iffD2])
    have "unat (push_bit 2 n) = unat n * 4"
      using n by (simp add: push_bit_eq_mult unat_mult_no_overflow)
    then show "unat (drop_bit 2 (push_bit 2 n)) = unat n"
      by (simp add: drop_bit_eq_div unat_div)
  qed
  have "drop_bit 2 t = 0"
    using assms(2) by (auto simp: drop_bit_eq_div)
  then show "drop_bit 2 (push_bit 2 n OR t) = n"
    by (simp add: p)
  have three: "(3 :: u64) = mask 2"
    by (simp add: mask_eq_exp_minus_1)
  have "push_bit 2 n AND 3 = 0"
    unfolding three by (rule bit_word_eqI) (auto simp: bit_simps)
  moreover have "t AND 3 = t"
    using assms(2) by auto
  ultimately show "(push_bit 2 n OR t) AND 3 = t"
    by (simp only: bit.conj_disj_distrib2 or.left_neutral)
qed

lemma set_ordinal_qsm [simp]: "ch_qsm (ch_set_local_stream_next_ordinal ch u n) = ch_qsm ch"
  by (simp add: ch_set_local_stream_next_ordinal_def)

lemma new_local_spec:
  assumes ok: "qsm_ok (ch_qsm ch)" and mems: "mems_ok mems"
  obtains (opened) ch' i s where "ossl_quic_channel_new_stream_local mems alloc ch is_uni = Inr (ch', Some i)" "qsm_ok (ch_qsm ch')"
      "i = push_bit 2 (ch_get_local_stream_next_ordinal ch is_uni) OR local_type ch is_uni" "ch_get_local_stream_next_ordinal ch is_uni < push_bit 62 1"
      "qsm_map (ch_qsm ch) i = None" "qsm_map (ch_qsm ch') = (qsm_map (ch_qsm ch))(i \<mapsto> s)" "fresh_stream (ch_qsm ch) i (local_type ch is_uni) s"
      "lists_same (ch_qsm ch) (ch_qsm ch')"
      "ch' = ch_set_local_stream_next_ordinal (ch\<lparr>ch_qsm := ch_qsm ch'\<rparr>) is_uni (ch_get_local_stream_next_ordinal ch is_uni + 1)"
      "\<forall>q. qs_sstream s = Some q \<longrightarrow> sstream_ok q []"
  | (refused) ch' where "ossl_quic_channel_new_stream_local mems alloc ch is_uni = Inr (ch', None)" "qsm_ok (ch_qsm ch')" "qsm_map (ch_qsm ch') = qsm_map (ch_qsm ch)"
      "lists_same (ch_qsm ch) (ch_qsm ch')" "ch_same ch ch'"
proof -
  let ?n = "ch_get_local_stream_next_ordinal ch is_uni" and ?t = "local_type ch is_uni"
  let ?i = "push_bit 2 ?n OR ?t"
  have unf: "ossl_quic_channel_new_stream_local mems alloc ch is_uni =
     (if ?n \<ge> push_bit 62 1 then Inr (ch, None)
      else case ossl_quic_stream_map_alloc alloc (ch_qsm ch) ?i ?t of (m, ok) \<Rightarrow>
        if \<not> ok then Inr (ch, None)
        else res_bind (ch_init_new_stream mems (ch\<lparr>ch_qsm := m\<rparr>) ?i True (\<not> is_uni)) (\<lambda>(ch, ok).
          if \<not> ok then ch_release ch ?i else Inr (ch_set_local_stream_next_ordinal ch is_uni (?n + 1), Some ?i)))"
    unfolding ossl_quic_channel_new_stream_local_def Let_def local_type_bits(4) by (rule refl)
  have none: ?thesis if "ossl_quic_channel_new_stream_local mems alloc ch is_uni = Inr (ch, None)"
    using ok by (intro refused [OF that]) (simp_all add: lists_same_def)
  show ?thesis
  proof (cases "?n \<ge> push_bit 62 1")
    case True
    then have "ossl_quic_channel_new_stream_local mems alloc ch is_uni = Inr (ch, None)"
      unfolding unf by (rule if_P)
    then show ?thesis
      by (rule none)
  next
    case False
    obtain m k where a: "ossl_quic_stream_map_alloc alloc (ch_qsm ch) ?i ?t = (m, k)"
      by fastforce
    note unf = unf [unfolded if_not_P [OF False] a prod.case]
    show ?thesis
    proof (cases k)
      case no: False
      with unf none show ?thesis
        by simp
    next
      case True
      then have a: "ossl_quic_stream_map_alloc alloc (ch_qsm ch) ?i ?t = (m, True)"
        using a by simp
      have unf: "ossl_quic_channel_new_stream_local mems alloc ch is_uni = res_bind (ch_init_new_stream mems (ch\<lparr>ch_qsm := m\<rparr>) ?i True (\<not> is_uni)) (\<lambda>(ch, ok).
          if \<not> ok then ch_release ch ?i else Inr (ch_set_local_stream_next_ordinal ch is_uni (?n + 1), Some ?i))"
        using unf True by simp
      have S: "True \<longleftrightarrow> (?t AND 1 = 1) = qsm_is_server (ch_qsm ch) \<or> ?t AND 2 = 0" and R: "(\<not> is_uni) \<longleftrightarrow> (?t AND 1 = 1) \<noteq> qsm_is_server (ch_qsm ch) \<or> ?t AND 2 = 0"
        by (simp_all add: local_type_bits(2,3))
      show ?thesis
      proof (cases rule: open_spec [OF ok mems a S R, case_names opened failed])
        case (opened ch' s)
        have ch': "ch_set_local_stream_next_ordinal ch' is_uni (?n + 1) = ch_set_local_stream_next_ordinal (ch\<lparr>ch_qsm := ch_qsm ch'\<rparr>) is_uni (?n + 1)"
          using ch_same_upd(3) [OF opened(2)] by simp
        have "ossl_quic_channel_new_stream_local mems alloc ch is_uni = Inr (ch_set_local_stream_next_ordinal ch' is_uni (?n + 1), Some ?i)"
          unfolding unf opened(1) by simp
        then show ?thesis
          by (rule that(1)) (use opened False ch' in \<open>simp_all add: not_le\<close>)
      next
        case (failed ch' ch'')
        have "ossl_quic_channel_new_stream_local mems alloc ch is_uni = Inr (ch'', None)"
          unfolding unf failed(1) using failed(2) by simp
        then show ?thesis
          using failed by (intro that(2)) simp_all
      qed
    qed
  qed
qed


section \<open>The accept queue\<close>

lemma push_accept_spec:
  assumes ok: "qsm_ok m" and s: "qsm_map m i = Some s" and new: "i \<notin> set (accept_list m)"
  obtains m' where "ossl_quic_stream_map_push_accept_queue m i = Inr m'" "qsm_ok m'" "qsm_map m' = qsm_map m" "accept_list m' = accept_list m @ [i]"
    "qsm_is_server m' = qsm_is_server m"
proof -
  define b where "b = ossl_quic_stream_is_bidi s"
  define m' where "m' = (let m = m\<lparr>accept_list := accept_list m @ [i]\<rparr>
     in if b then m\<lparr>num_accept_bidi := num_accept_bidi m + 1\<rparr> else m\<lparr>num_accept_uni := num_accept_uni m + 1\<rparr>)"
  have f: "active_list m' = active_list m" "accept_list m' = accept_list m @ [i]" "ready_for_gc_list m' = ready_for_gc_list m"
    "num_shutdown_flush m' = num_shutdown_flush m" "rr_cur m' = rr_cur m" "qsm_is_server m' = qsm_is_server m" "qsm_map m' = qsm_map m"
    "num_accept_bidi m' = num_accept_bidi m + (if b then 1 else 0)" "num_accept_uni m' = num_accept_uni m + (if b then 0 else 1)"
    by (simp_all add: m'_def Let_def)
  have fl: "flagged g m' = flagged g m" for g
    by (simp add: flagged_def f(7))
  have a: "accept_of_kind m' k = accept_of_kind m k @ (if b = k then [i] else [])" for k
    by (simp add: accept_of_kind_def f(2,7) s b_def)
  have "lists_ok m'"
    using qsm_okD(1) [OF ok] s new unfolding lists_ok_def fl a f by auto
  then have "qsm_ok m'"
    using qsm_okD(2) [OF ok] by (simp add: qsm_ok_def f(7))
  moreover have "ossl_quic_stream_map_push_accept_queue m i = Inr m'"
    using s by (simp add: ossl_quic_stream_map_push_accept_queue_def m'_def b_def qsm_list_insert_tail_def Let_def)
  ultimately show ?thesis
    using f(2,6,7) that by blast
qed

lemma retire_total: "\<exists>h' b. ossl_quic_rxfc_on_retire now h p n rtt = Inr (h', b)"
  by (auto simp: ossl_quic_rxfc_on_retire_def Let_def split: option.split)

lemma remove_accept_spec:
  assumes ok: "qsm_ok m" and i: "i \<in> set (accept_list m)"
  obtains m' where "ossl_quic_stream_map_remove_from_accept_queue now m i rtt = Inr m'" "qsm_ok m'" "qsm_map m' = qsm_map m"
    "accept_list m' = remove1 i (accept_list m)" "qsm_is_server m' = qsm_is_server m"
proof -
  note D = lists_okD [OF qsm_okD(1) [OF ok]]
  obtain s where s: "qsm_map m i = Some s"
    using D(8) [OF i] by blast
  define b where "b = ossl_quic_stream_is_bidi s"
  define m1 where "m1 = (let m = m\<lparr>accept_list := remove1 i (accept_list m)\<rparr>
     in if b then m\<lparr>num_accept_bidi := num_accept_bidi m - 1\<rparr> else m\<lparr>num_accept_uni := num_accept_uni m - 1\<rparr>)"
  obtain h where res: "ossl_quic_stream_map_remove_from_accept_queue now m i rtt = Inr (m1\<lparr>qsm_rxfcs := h\<rparr>)"
  proof (cases "qsm_get_max_streams_rxfc m1 s")
    case None
    then have "ossl_quic_stream_map_remove_from_accept_queue now m i rtt = Inr m1"
      using s i by (simp add: ossl_quic_stream_map_remove_from_accept_queue_def qsm_list_remove_def m1_def b_def Let_def)
    then show ?thesis
      using that [of "qsm_rxfcs m1"] by simp
  next
    case (Some p)
    obtain h' k where "ossl_quic_rxfc_on_retire now (qsm_rxfcs m1) p 1 rtt = Inr (h', k)"
      using retire_total by blast
    with Some have "ossl_quic_stream_map_remove_from_accept_queue now m i rtt = Inr (m1\<lparr>qsm_rxfcs := h'\<rparr>)"
      using s i by (simp add: ossl_quic_stream_map_remove_from_accept_queue_def qsm_list_remove_def m1_def b_def Let_def)
    then show ?thesis
      by (rule that)
  qed
  define m' where "m' = m1\<lparr>qsm_rxfcs := h\<rparr>"
  have f: "active_list m' = active_list m" "accept_list m' = remove1 i (accept_list m)" "ready_for_gc_list m' = ready_for_gc_list m"
    "num_shutdown_flush m' = num_shutdown_flush m" "rr_cur m' = rr_cur m" "qsm_is_server m' = qsm_is_server m" "qsm_map m' = qsm_map m"
    "num_accept_bidi m' = num_accept_bidi m - (if b then 1 else 0)" "num_accept_uni m' = num_accept_uni m - (if b then 0 else 1)"
    by (simp_all add: m'_def m1_def Let_def)
  have fl: "flagged g m' = flagged g m" for g
    by (simp add: flagged_def f(7))
  have a: "accept_of_kind m' k = (if b = k then remove1 i (accept_of_kind m k) else accept_of_kind m k)" for k
  proof -
    have "filter P (remove1 i l) = (if P i then remove1 i (filter P l) else filter P l)" for P and l :: "u64 list"
      by (induction l) auto
    then show ?thesis
      by (simp add: accept_of_kind_def f(2,7) s b_def)
  qed
  have "i \<in> set (accept_of_kind m b)"
    using i s by (simp add: accept_of_kind_def b_def)
  then have "length (accept_of_kind m b) = Suc (length (remove1 i (accept_of_kind m b)))"
    by (metis One_nat_def Suc_pred length_pos_if_in_set length_remove1)
  then have n: "(of_nat (length (accept_of_kind m k)) :: u64) = of_nat (length (accept_of_kind m' k)) + (if b = k then 1 else 0)" for k
    by (cases "b = k") (auto simp: a)
  have "num_accept_bidi m' = of_nat (length (accept_of_kind m' True))" "num_accept_uni m' = of_nat (length (accept_of_kind m' False))"
    using n [of True] n [of False] unfolding f(8,9) D(9,10) by auto
  moreover have "set (remove1 i (accept_list m)) \<subseteq> dom (qsm_map m)" "distinct (remove1 i (accept_list m))"
    using D(7,8) by (auto dest: notin_set_remove1 in_set_remove1 [THEN iffD1] set_remove1_subset [THEN subsetD])
  ultimately have "lists_ok m'"
    using qsm_okD(1) [OF ok] unfolding lists_ok_def fl f by auto
  then have "qsm_ok m'"
    using qsm_okD(2) [OF ok] by (simp add: qsm_ok_def f(7))
  with res f(2,6,7) show ?thesis
    using that unfolding m'_def by blast
qed

section \<open>Opening streams for the peer\<close>

lemma call_okD:
  assumes "call_ok m i s r"
  obtains m' k s' where "r = Inr (m', k)" "qsm_ok m'" "qsm_map m' = (qsm_map m)(i \<mapsto> s')" "stream_evolves s s'" "accept_list m' = accept_list m"
    "qsm_is_server m' = qsm_is_server m"
  using assms by (auto simp: call_ok_def)

lemma reject_spec:
  assumes ok: "qsm_ok (ch_qsm ch)" and s: "qsm_map (ch_qsm ch) i = Some s"
  obtains ch' s' where "ossl_quic_channel_reject_stream ch i = Inr ch'" "ch_same ch ch'" "qsm_ok (ch_qsm ch')" "qsm_map (ch_qsm ch') = (qsm_map (ch_qsm ch))(i \<mapsto> s')"
    "qs_deleted s'" "qs_type s' = qs_type s" "qs_id s' = qs_id s" "qs_sstream s' = qs_sstream s \<or> qs_sstream s' = None" "accept_list (ch_qsm ch') = accept_list (ch_qsm ch)"
    "qsm_is_server (ch_qsm ch') = qsm_is_server (ch_qsm ch)"
proof -
  let ?aec = "ch_incoming_stream_auto_reject_aec ch"
  obtain m1 k1 s1 where 1: "ossl_quic_stream_map_stop_sending_recv_part (ch_qsm ch) i ?aec = Inr (m1, k1)" "qsm_ok m1" "qsm_map m1 = (qsm_map (ch_qsm ch))(i \<mapsto> s1)"
    "stream_evolves s s1" "accept_list m1 = accept_list (ch_qsm ch)" "qsm_is_server m1 = qsm_is_server (ch_qsm ch)"
    using stop_sending_ok [OF ok s] by (rule call_okD)
  then have s1: "qsm_map m1 i = Some s1"
    by simp
  obtain m2 k2 s2 where 2: "ossl_quic_stream_map_reset_stream_send_part m1 i ?aec = Inr (m2, k2)" "qsm_ok m2" "qsm_map m2 = (qsm_map m1)(i \<mapsto> s2)"
    "stream_evolves s1 s2" "accept_list m2 = accept_list m1" "qsm_is_server m2 = qsm_is_server m1"
    using reset_ok [OF 1(2) s1] by (rule call_okD)
  then have s2: "qsm_map m2 i = Some s2"
    by simp
  let ?s = "s2\<lparr>qs_deleted := True\<rparr>"
  have sok: "stream_ok ?s"
    by (rule stream_ok_field [OF qsm_okD(2) [OF 2(2) s2]]) (use qsm_okD(2) [OF 2(2) s2] in \<open>auto simp: has_send_buffer_iff has_recv_buffer_iff stream_ok_def\<close>)
  have l: "lists_ok (qsm_put m2 i ?s)"
    by (rule put_keeps(1) [OF 2(2) s2, of _ ?s]) (simp_all add: lists_same_def listed_same_def)
  obtain m3 b where 3: "ossl_quic_stream_map_update_state (qsm_put m2 i ?s) i = Inr m3" "qsm_ok m3" "qsm_map m3 = (qsm_map m2)(i \<mapsto> stream_updated b ?s)"
    "same_env (qsm_put m2 i ?s) m3"
    by (rule update_keeps [OF 2(2) s2 _ l sok]) simp_all
  have "ossl_quic_channel_reject_stream ch i = Inr (ch\<lparr>ch_qsm := m3\<rparr>)"
    by (simp add: ossl_quic_channel_reject_stream_def 1(1) 2(1) s2 3(1))
  moreover have "qsm_map m3 = (qsm_map (ch_qsm ch))(i \<mapsto> stream_updated b ?s)"
    by (simp add: 3(3) 2(3) 1(3))
  moreover have "qs_deleted (stream_updated b ?s)"
    by (simp add: stream_updated_def after_gc_def after_acks_def)
  ultimately show ?thesis
    using 3(2,4) 1(4-6) 2(4-6) by (intro that [of "ch\<lparr>ch_qsm := m3\<rparr>" "stream_updated b ?s"])
      (auto simp: updated_fields stream_evolves_def same_env_def)
qed

lemma accept_fresh: "qsm_ok m \<Longrightarrow> qsm_map m i = None \<Longrightarrow> i \<notin> set (accept_list m)"
  using lists_okD(8) [OF qsm_okD(1), of m i] by auto

lemma remote_type_bits:
  fixes i :: u64
  shows "(i AND (QUIC_STREAM_INITIATOR_MASK OR QUIC_STREAM_DIR_MASK)) AND 1 = i AND 1" "(i AND (QUIC_STREAM_INITIATOR_MASK OR QUIC_STREAM_DIR_MASK)) AND 2 = i AND 2"
    "i AND 1 = 0 \<or> i AND 1 = 1" "i AND 2 = 0 \<or> i AND 2 = 2"
proof -
  have "(i AND 3) AND 1 = i AND (3 AND 1)" "(i AND 3) AND 2 = i AND (3 AND 2)"
    by (simp_all only: and.assoc)
  then show "(i AND (QUIC_STREAM_INITIATOR_MASK OR QUIC_STREAM_DIR_MASK)) AND 1 = i AND 1" "(i AND (QUIC_STREAM_INITIATOR_MASK OR QUIC_STREAM_DIR_MASK)) AND 2 = i AND 2"
    by (simp_all add: QUIC_STREAM_INITIATOR_MASK_def QUIC_STREAM_DIR_MASK_def)
  show "i AND 1 = 0 \<or> i AND 1 = 1"
    by (simp add: and_one_eq mod2_eq_if)
  have "i AND 2 = (if bit i 1 then 2 else 0)"
    by (rule bit_word_eqI) (auto simp: bit_simps)
  then show "i AND 2 = 0 \<or> i AND 2 = 2"
    by simp
qed

lemma new_remote_spec:
  assumes ok: "qsm_ok (ch_qsm ch)" and mems: "mems_ok mems"
  obtains (opened) ch' s where "ossl_quic_channel_new_stream_remote mems alloc ch i = Inr (ch', Some i)" "ch_same ch ch'" "qsm_ok (ch_qsm ch')"
      "(i AND 1 = 1) \<noteq> qsm_is_server (ch_qsm ch)"
      "qsm_map (ch_qsm ch) i = None" "qsm_map (ch_qsm ch') = (qsm_map (ch_qsm ch))(i \<mapsto> s)"
      "accept_list (ch_qsm ch') = (if ch_incoming_stream_auto_reject ch then accept_list (ch_qsm ch) else accept_list (ch_qsm ch) @ [i])"
      "\<forall>q. qs_sstream s = Some q \<longrightarrow> sstream_ok q []" "qsm_is_server (ch_qsm ch') = qsm_is_server (ch_qsm ch)"
  | (refused) ch' where "ossl_quic_channel_new_stream_remote mems alloc ch i = Inr (ch', None)" "ch_same ch ch'" "qsm_ok (ch_qsm ch')"
      "qsm_map (ch_qsm ch') = qsm_map (ch_qsm ch)" "lists_same (ch_qsm ch) (ch_qsm ch')"
proof -
  let ?t = "i AND (QUIC_STREAM_INITIATOR_MASK OR QUIC_STREAM_DIR_MASK)" and ?role = "if qsm_is_server (ch_qsm ch) then QUIC_STREAM_INITIATOR_CLIENT else QUIC_STREAM_INITIATOR_SERVER"
  let ?uni = "i AND QUIC_STREAM_DIR_MASK = QUIC_STREAM_DIR_UNI"
  define finish where "finish = (\<lambda>ch. res_bind (if ch_incoming_stream_auto_reject ch then ossl_quic_channel_reject_stream ch i
                      else res_bind (ossl_quic_stream_map_push_accept_queue (ch_qsm ch) i) (\<lambda>m. Inr (ch\<lparr>ch_qsm := m\<rparr>))) (\<lambda>ch.
            Inr (ch, Some i)))"
  have unf: "ossl_quic_channel_new_stream_remote mems alloc ch i =
     (if i AND QUIC_STREAM_INITIATOR_MASK \<noteq> ?role then Inr (ch, None)
      else case ossl_quic_stream_map_alloc alloc (ch_qsm ch) i ?t of (m, ok) \<Rightarrow>
        if \<not> ok then Inr (ch, None)
        else res_bind (ch_init_new_stream mems (ch\<lparr>ch_qsm := m\<rparr>) i (\<not> ?uni) True) (\<lambda>(ch, ok). if \<not> ok then ch_release ch i else finish ch))"
    unfolding ossl_quic_channel_new_stream_remote_def Let_def finish_def by (rule refl)
  have none: ?thesis if "ossl_quic_channel_new_stream_remote mems alloc ch i = Inr (ch, None)"
    using ok by (intro refused [OF that]) (simp_all add: lists_same_def)
  show ?thesis
  proof (cases "i AND QUIC_STREAM_INITIATOR_MASK \<noteq> ?role")
    case True
    then have "ossl_quic_channel_new_stream_remote mems alloc ch i = Inr (ch, None)"
      unfolding unf by (rule if_P)
    then show ?thesis
      by (rule none)
  next
    case False
    then have role: "(i AND 1 = 1) \<noteq> qsm_is_server (ch_qsm ch)"
      by (simp add: QUIC_STREAM_INITIATOR_MASK_def QUIC_STREAM_INITIATOR_CLIENT_def QUIC_STREAM_INITIATOR_SERVER_def split: if_splits)
    have uni: "?uni \<longleftrightarrow> i AND 2 \<noteq> 0"
      using remote_type_bits(4) [of i] by (auto simp: QUIC_STREAM_DIR_MASK_def QUIC_STREAM_DIR_UNI_def)
    obtain m k where a: "ossl_quic_stream_map_alloc alloc (ch_qsm ch) i ?t = (m, k)"
      by fastforce
    note unf = unf [unfolded if_not_P [OF False] a prod.case]
    show ?thesis
    proof (cases k)
      case no: False
      with unf none show ?thesis
        by simp
    next
      case True
      then have a: "ossl_quic_stream_map_alloc alloc (ch_qsm ch) i ?t = (m, True)"
        using a by simp
      have unf: "ossl_quic_channel_new_stream_remote mems alloc ch i =
          res_bind (ch_init_new_stream mems (ch\<lparr>ch_qsm := m\<rparr>) i (\<not> ?uni) True) (\<lambda>(ch, ok). if \<not> ok then ch_release ch i else finish ch)"
        using unf True by simp
      have S: "(\<not> ?uni) \<longleftrightarrow> (?t AND 1 = 1) = qsm_is_server (ch_qsm ch) \<or> ?t AND 2 = 0" and R: "True \<longleftrightarrow> (?t AND 1 = 1) \<noteq> qsm_is_server (ch_qsm ch) \<or> ?t AND 2 = 0"
        using role uni by (simp_all add: remote_type_bits(1,2))
      show ?thesis
      proof (cases rule: open_spec [OF ok mems a S R, case_names opened failed])
        case (failed ch' ch'')
        have "ossl_quic_channel_new_stream_remote mems alloc ch i = Inr (ch'', None)"
          unfolding unf failed(1) using failed(2) by simp
        then show ?thesis
          using failed by (intro that(2)) simp_all
      next
        case (opened ch' s)
        have fin: "ossl_quic_channel_new_stream_remote mems alloc ch i = finish ch'"
          unfolding unf opened(1) by simp
        have auto: "ch_incoming_stream_auto_reject ch' = ch_incoming_stream_auto_reject ch"
          using opened(2) by (auto simp: ch_same_def)
        have at: "qsm_map (ch_qsm ch') i = Some s"
          by (simp add: opened(6))
        have acc: "accept_list (ch_qsm ch') = accept_list (ch_qsm ch)" "qsm_is_server (ch_qsm ch') = qsm_is_server (ch_qsm ch)"
          using opened(4) by (auto simp: lists_same_def)
        show ?thesis
        proof (cases "ch_incoming_stream_auto_reject ch")
          case True
          obtain ch2 s' where r: "ossl_quic_channel_reject_stream ch' i = Inr ch2" "ch_same ch' ch2" "qsm_ok (ch_qsm ch2)"
            "qsm_map (ch_qsm ch2) = (qsm_map (ch_qsm ch'))(i \<mapsto> s')" "qs_sstream s' = qs_sstream s \<or> qs_sstream s' = None" "accept_list (ch_qsm ch2) = accept_list (ch_qsm ch')"
            "qsm_is_server (ch_qsm ch2) = qsm_is_server (ch_qsm ch')"
            by (rule reject_spec [OF opened(3) at])
          have "ossl_quic_channel_new_stream_remote mems alloc ch i = Inr (ch2, Some i)"
            using True auto r(1) by (simp add: fin finish_def)
          moreover have "ch_same ch ch2"
            using opened(2) r(2) by (auto simp: ch_same_def)
          ultimately show ?thesis
            using r(3-7) role opened(5,6,9) acc True by (intro that(1) [of ch2 s']) auto
        next
          case False
          obtain m2 where p: "ossl_quic_stream_map_push_accept_queue (ch_qsm ch') i = Inr m2" "qsm_ok m2" "qsm_map m2 = qsm_map (ch_qsm ch')"
            "accept_list m2 = accept_list (ch_qsm ch') @ [i]" "qsm_is_server m2 = qsm_is_server (ch_qsm ch')"
            by (rule push_accept_spec [OF opened(3) at]) (use accept_fresh [OF ok opened(5)] acc(1) in simp)
          have "ossl_quic_channel_new_stream_remote mems alloc ch i = Inr (ch'\<lparr>ch_qsm := m2\<rparr>, Some i)"
            using False auto p(1) by (simp add: fin finish_def)
          then show ?thesis
            using p(2-5) role opened(5,6,9) acc False ch_same_upd(1) [OF opened(2)] by (intro that(1) [of "ch'\<lparr>ch_qsm := m2\<rparr>" s]) auto
        qed
      qed
    qed
  qed
qed


section \<open>Searching the accept queue\<close>

abbreviation accept_kind :: "quic_stream_map \<Rightarrow> bool \<Rightarrow> u64 \<Rightarrow> bool" where
  "accept_kind m is_uni i \<equiv> ossl_quic_stream_is_bidi (the (qsm_map m i)) \<noteq> is_uni"

lemma list_next_middle: "distinct (xs @ i # j # ys) \<Longrightarrow> qsm_list_next (xs @ i # j # ys) (Some i) = Inr (Some j)"
proof -
  assume "distinct (xs @ i # j # ys)"
  then have "i \<notin> set xs"
    by auto
  then have "dropWhile (\<lambda>x. x \<noteq> i) (xs @ i # j # ys) = i # j # ys"
    by (induction xs) auto
  then show ?thesis
    by (simp add: qsm_list_next_def)
qed

lemma accept_walk:
  assumes "accept_list m = xs @ i # ys" and "distinct (accept_list m)" and "set (accept_list m) \<subseteq> dom (qsm_map m)"
    and "\<exists>j \<in> set (i # ys). accept_kind m is_uni j"
  shows "find_accept_walk m is_uni (Some i) = Some (Inr (Some (hd (filter (accept_kind m is_uni) (i # ys)))))"
  using assms
proof (induction ys arbitrary: xs i)
  case Nil
  then obtain s where "qsm_map m i = Some s"
    by auto
  with Nil show ?case
    by (subst find_accept_walk.simps) auto
next
  case (Cons j ys)
  then obtain s where s: "qsm_map m i = Some s"
    by auto
  show ?case
  proof (cases "accept_kind m is_uni i")
    case True
    with s show ?thesis
      by (subst find_accept_walk.simps) auto
  next
    case False
    have "find_accept_walk m is_uni (Some j) = Some (Inr (Some (hd (filter (accept_kind m is_uni) (j # ys)))))"
      by (rule Cons.IH [of "xs @ [i]"]) (use Cons.prems False in auto)
    moreover have "qsm_list_next (accept_list m) (Some i) = Inr (Some j)"
      using Cons.prems(1,2) list_next_middle by simp
    ultimately have "find_accept_walk m is_uni (Some i) = Some (Inr (Some (hd (filter (accept_kind m is_uni) (j # ys)))))"
      using False s by (subst find_accept_walk.simps) auto
    with False show ?thesis
      by simp
  qed
qed

section \<open>Iterating over the active streams\<close>

text \<open>The streams a loop over the iterator sees; at most \<open>n\<close> of them.\<close>

fun iter_run :: "nat \<Rightarrow> quic_stream_map \<Rightarrow> quic_stream_iter \<Rightarrow> c_fault + u64 list" where
  "iter_run 0 m it = (if iter_stream it = None then Inr [] else Inl NoReturn)"
| "iter_run (Suc n) m it =
     (case iter_stream it of
        None \<Rightarrow> Inr []
      | Some i \<Rightarrow> res_bind (ossl_quic_stream_iter_next m it) (\<lambda>it. res_bind (iter_run n m it) (\<lambda>is. Inr (i # is))))"

text \<open>\<open>c # bs @ as\<close>: the list \<open>as @ c # bs\<close>, read from \<open>c\<close> around.\<close>

lemma drop_until: "i \<notin> set us \<Longrightarrow> dropWhile (\<lambda>x. x \<noteq> i) (us @ i # ws) = i # ws"
  by (induction us) auto

lemma list_next_around:
  assumes d: "distinct (as @ c # bs)" and at: "(c # bs) @ as = us @ i # ws"
  shows "qsm_list_next (as @ c # bs) (Some i) = Inr (Some (case ws of [] \<Rightarrow> c | j # _ \<Rightarrow> j))"
proof -
  consider t where "us = (c # bs) @ t" "as = t @ i # ws" | t where "c # bs = us @ i # t" "ws = t @ as"
    using at by (auto simp: append_eq_append_conv2 append_eq_Cons_conv Cons_eq_append_conv)
  then show ?thesis
  proof cases
    case 1
    have "dropWhile (\<lambda>x. x \<noteq> i) (t @ i # ws @ c # bs) = i # ws @ c # bs"
      by (rule drop_until) (use d 1 in auto)
    then show ?thesis
      unfolding 1(2) by (cases ws) (simp_all add: qsm_list_next_def)
  next
    case 2
    have "dropWhile (\<lambda>x. x \<noteq> i) ((as @ us) @ i # t) = i # t"
      by (rule drop_until) (use d 2(1) in auto)
    then have "qsm_list_next ((as @ us) @ i # t) (Some i) = Inr (Some (case t of [] \<Rightarrow> hd ((as @ us) @ i # t) | j # _ \<Rightarrow> j))"
      unfolding qsm_list_next_def by (cases t; cases "as @ us") auto
    moreover have "hd (us @ i # t) = c"
      unfolding 2(1) [symmetric] by simp
    ultimately show ?thesis
      unfolding 2 by (cases t; cases as) simp_all
  qed
qed

lemma iter_around:
  assumes "active_list m = as @ c # bs" and "distinct (active_list m)" and "(c # bs) @ as = us @ i # ws" and "iter_first_stream it = Some c"
    and "iter_stream it = Some i" and "length (i # ws) \<le> n"
  shows "iter_run n m it = Inr (i # ws)"
  using assms
proof (induction ws arbitrary: us i it n)
  case Nil
  then obtain n' where n: "n = Suc n'"
    by (cases n) auto
  have "qsm_list_next (active_list m) (Some i) = Inr (Some c)"
    using list_next_around [of as c bs us i "[]"] Nil.prems(1-3) by simp
  with Nil.prems(4,5) n show ?case
    by (cases n') (simp_all add: ossl_quic_stream_iter_next_def)
next
  case (Cons j ws)
  then obtain n' where n: "n = Suc n'"
    by (cases n) auto
  have nxt: "qsm_list_next (active_list m) (Some i) = Inr (Some j)"
    using list_next_around [of as c bs us i "j # ws"] Cons.prems(1-3) by simp
  have "distinct (us @ i # j # ws)"
    using Cons.prems(1,2) unfolding Cons.prems(3) [symmetric] by auto
  moreover have "c = hd (us @ [i])"
    using arg_cong [OF Cons.prems(3), of hd] by (cases us) simp_all
  ultimately have "j \<noteq> c"
    by (cases us) auto
  with nxt Cons.prems(4,5) have it: "ossl_quic_stream_iter_next m it = Inr (it\<lparr>iter_stream := Some j\<rparr>)"
    by (simp add: ossl_quic_stream_iter_next_def)
  have "iter_run n' m (it\<lparr>iter_stream := Some j\<rparr>) = Inr (j # ws)"
    by (rule Cons.IH [of "us @ [i]"]) (use Cons.prems n in auto)
  with it Cons.prems(5) n show ?case
    by simp
qed

lemma lists_ok_env:
  assumes ok: "lists_ok m" and m': "qsm_map m' = qsm_map m" "lists_same m m'"
  shows "lists_ok m'"
proof -
  have fl: "flagged g m' = flagged g m" for g
    by (simp add: flagged_def m'(1))
  have L: "active_list m' = active_list m" "accept_list m' = accept_list m" "ready_for_gc_list m' = ready_for_gc_list m"
    "num_accept_bidi m' = num_accept_bidi m" "num_accept_uni m' = num_accept_uni m" "num_shutdown_flush m' = num_shutdown_flush m"
    "rr_cur m' = rr_cur m" "qsm_is_server m' = qsm_is_server m"
    using m'(2) by (simp_all add: lists_same_def)
  have a: "accept_of_kind m' b = accept_of_kind m b" for b
    by (simp add: accept_of_kind_def L m'(1))
  show ?thesis
    using ok unfolding lists_ok_def fl a L m'(1) .
qed

lemma iter_init_spec:
  assumes ok: "lists_ok m"
  obtains m' where "ossl_quic_stream_iter_init m adv = Inr (m', \<lparr>iter_first_stream = rr_cur m, iter_stream = rr_cur m\<rparr>)" "lists_ok m'"
    "qsm_map m' = qsm_map m" "active_list m' = active_list m" "qsm_is_server m' = qsm_is_server m"
proof (cases "adv \<and> rr_cur m \<noteq> None \<and> rr_counter m + 1 \<ge> rr_stepping m")
  case False
  define m' where "m' = (if adv \<and> rr_cur m \<noteq> None then m\<lparr>rr_counter := rr_counter m + 1\<rparr> else m)"
  have f: "qsm_map m' = qsm_map m" "lists_same m m'"
    by (simp_all add: m'_def lists_same_def)
  then have "lists_ok m'"
    by (rule lists_ok_env [OF ok])
  with False f show ?thesis
    by (intro that [of m']) (auto simp: lists_same_def ossl_quic_stream_iter_init_def m'_def Let_def)
next
  case True
  then obtain c where c: "rr_cur m = Some c"
    by auto
  have i: "c \<in> set (active_list m)" "distinct (active_list m)"
    using lists_okD(13) [OF ok c] lists_okD(3) [OF ok] by simp_all
  obtain n where n: "qsm_list_next (active_list m) (Some c) = Inr (Some n)" "n \<in> set (active_list m)"
    by (rule list_next_spec [OF i])
  define m' where "m' = m\<lparr>rr_counter := 0, rr_cur := Some n\<rparr>"
  have "lists_ok m'"
    using ok n(2) c unfolding lists_ok_def flagged_def accept_of_kind_def m'_def by auto
  moreover have "ossl_quic_stream_iter_init m adv = Inr (m', \<lparr>iter_first_stream = rr_cur m, iter_stream = rr_cur m\<rparr>)"
    using True c n(1) by (simp add: ossl_quic_stream_iter_init_def m'_def Let_def)
  ultimately show ?thesis
    by (intro that [of m']) (simp_all add: m'_def)
qed

section \<open>Flushing at shutdown\<close>

definition must_flush :: "quic_stream \<Rightarrow> bool" where
  "must_flush s \<longleftrightarrow> (qs_send_state s = QUIC_SSTREAM_STATE_SEND \<or> qs_send_state s = QUIC_SSTREAM_STATE_DATA_SENT) \<and> \<not> acked_send s"

lemma eligible_spec:
  assumes "stream_ok s"
  shows "eligible_for_shutdown_flush s = Inr (must_flush s)"
proof (cases "ossl_quic_stream_has_send_buffer s")
  case True
  then obtain q where "qs_sstream s = Some q"
    using stream_ok_buffer [OF assms] by blast
  then show ?thesis
    by (cases "qs_send_state s") (simp_all add: eligible_for_shutdown_flush_def must_flush_def acked_send_def qs_sstream_at_def)
next
  case False
  then show ?thesis
    by (cases "qs_send_state s") (simp_all add: has_send_buffer_iff eligible_for_shutdown_flush_def must_flush_def)
qed

lemma flush_each_spec:
  assumes ok: "qsm_ok m" and s: "qsm_map m i = Some s"
  obtains m' where "begin_shutdown_flush_each m i = Inr m'" "qsm_ok m'"
    "qsm_map m' = (qsm_map m)(i \<mapsto> s\<lparr>qs_shutdown_flush := (qs_shutdown_flush s \<or> must_flush s)\<rparr>)" "qsm_is_server m' = qsm_is_server m"
proof (cases "must_flush s \<and> \<not> qs_shutdown_flush s")
  case False
  moreover have "s\<lparr>qs_shutdown_flush := (qs_shutdown_flush s \<or> must_flush s)\<rparr> = s"
    using False by auto
  ultimately show ?thesis
    using s ok eligible_spec [OF qsm_okD(2) [OF ok s]] by (intro that [of m]) (auto simp: begin_shutdown_flush_each_def fun_upd_idem)
next
  case True
  let ?s = "s\<lparr>qs_shutdown_flush := True\<rparr>"
  define m' where "m' = (qsm_put m i ?s)\<lparr>num_shutdown_flush := num_shutdown_flush m + 1\<rparr>"
  have f: "active_list m' = active_list m" "accept_list m' = accept_list m" "ready_for_gc_list m' = ready_for_gc_list m"
    "rr_cur m' = rr_cur m" "qsm_is_server m' = qsm_is_server m" "qsm_map m' = (qsm_map m)(i \<mapsto> ?s)"
    "num_accept_bidi m' = num_accept_bidi m" "num_accept_uni m' = num_accept_uni m" "num_shutdown_flush m' = num_shutdown_flush m + 1"
    by (simp_all add: m'_def)
  have F: "flagged qs_active m' = flagged qs_active m" "flagged qs_ready_for_gc m' = flagged qs_ready_for_gc m"
    "flagged qs_shutdown_flush m' = insert i (flagged qs_shutdown_flush m)"
    using True by (simp_all add: flagged_put [OF s f(6)])
  have a: "accept_of_kind m' b = accept_of_kind m b" for b
    using s by (intro accept_of_kind_cong [OF f(2)]) (simp add: f(6))
  have "i \<notin> flagged qs_shutdown_flush m"
    using True flagged_at [OF s, of qs_shutdown_flush] by simp
  then have card: "card (insert i (flagged qs_shutdown_flush m)) = Suc (card (flagged qs_shutdown_flush m))"
    by simp
  have "num_shutdown_flush m + 1 = of_nat (card (insert i (flagged qs_shutdown_flush m)))"
    using lists_okD(11) [OF qsm_okD(1) [OF ok]] unfolding card by simp
  then have "lists_ok m'"
    using qsm_okD(1) [OF ok] s unfolding lists_ok_def F a f by auto
  moreover have b: "ossl_quic_stream_has_send_buffer ?s = ossl_quic_stream_has_send_buffer s" "ossl_quic_stream_has_recv_buffer ?s = ossl_quic_stream_has_recv_buffer s"
    by (simp_all add: has_send_buffer_iff has_recv_buffer_iff)
  have "stream_ok ?s"
    using qsm_okD(2) [OF ok s] True unfolding stream_ok_def must_flush_def b by simp
  ultimately have "qsm_ok m'"
    using qsm_okD(2) [OF ok] by (auto simp: qsm_ok_def f(6))
  moreover have "begin_shutdown_flush_each m i = Inr m'"
    using True s eligible_spec [OF qsm_okD(2) [OF ok s]] by (simp add: begin_shutdown_flush_each_def m'_def)
  ultimately show ?thesis
    using True f(5,6) by (intro that [of m']) simp_all
qed

lemma flush_visit_spec:
  assumes "qsm_ok m" and "set order \<subseteq> dom (qsm_map m)"
  shows "\<exists>m'. ossl_quic_stream_map_visit begin_shutdown_flush_each order m = Inr m' \<and> qsm_ok m' \<and> qsm_is_server m' = qsm_is_server m
    \<and> (\<forall>i. qsm_map m' i = map_option (\<lambda>s. if i \<in> set order then s\<lparr>qs_shutdown_flush := (qs_shutdown_flush s \<or> must_flush s)\<rparr> else s) (qsm_map m i))"
  using assms
proof (induction order arbitrary: m)
  case Nil
  then show ?case
    by (simp add: option.map_ident)
next
  case (Cons i order)
  then obtain s where s: "qsm_map m i = Some s"
    by auto
  obtain m1 where m1: "begin_shutdown_flush_each m i = Inr m1" "qsm_ok m1"
    "qsm_map m1 = (qsm_map m)(i \<mapsto> s\<lparr>qs_shutdown_flush := (qs_shutdown_flush s \<or> must_flush s)\<rparr>)" "qsm_is_server m1 = qsm_is_server m"
    by (rule flush_each_spec [OF Cons.prems(1) s])
  have "set order \<subseteq> dom (qsm_map m1)"
    using Cons.prems(2) by (auto simp: m1(3))
  from Cons.IH [OF m1(2) this] obtain m' where m': "ossl_quic_stream_map_visit begin_shutdown_flush_each order m1 = Inr m'" "qsm_ok m'" "qsm_is_server m' = qsm_is_server m1"
    "\<forall>i. qsm_map m' i = map_option (\<lambda>s. if i \<in> set order then s\<lparr>qs_shutdown_flush := (qs_shutdown_flush s \<or> must_flush s)\<rparr> else s) (qsm_map m1 i)"
    by blast
  have mf: "must_flush (s\<lparr>qs_shutdown_flush := b\<rparr>) = must_flush s" for b
    by (simp add: must_flush_def acked_send_def)
  have "qsm_map m' j = map_option (\<lambda>s. if j \<in> set (i # order) then s\<lparr>qs_shutdown_flush := (qs_shutdown_flush s \<or> must_flush s)\<rparr> else s) (qsm_map m j)" for j
    using m'(4) s by (auto simp: m1(3) mf)
  with m' m1(1,4) show ?case
    by auto
qed


section \<open>Runs\<close>

text \<open>What the rest of the connection does to a stream through its pointer: it uses the buffers and sets the flags of frames to send and frames seen.\<close>

definition stream_touch :: "quic_stream \<Rightarrow> quic_stream \<Rightarrow> bool" where
  "stream_touch s s' \<longleftrightarrow> (\<exists>q r ps a wm ws wr ack d. s' = s\<lparr>qs_sstream := q, qs_rstream := r, qs_peer_stop_sending := ps, qs_peer_stop_sending_aec := a,
       qs_want_max_stream_data := wm, qs_want_stop_sending := ws, qs_want_reset_stream := wr, qs_acked_stop_sending := ack, qs_deleted := d\<rparr>
     \<and> (q = None \<longleftrightarrow> qs_sstream s = None) \<and> (\<forall>x. q = Some x \<longrightarrow> (\<exists>S. sstream_ok x S)) \<and> (r = None \<longleftrightarrow> qs_rstream s = None))"

inductive chan_step :: "quic_channel_streams \<Rightarrow> quic_channel_streams \<Rightarrow> bool" where
  chan_call: "qsm_map (ch_qsm ch) i \<noteq> None \<Longrightarrow> stream_map_call c (ch_qsm ch) i = Inr (m, b) \<Longrightarrow> chan_step ch (ch\<lparr>ch_qsm := m\<rparr>)"
| chan_touch: "qsm_map (ch_qsm ch) i = Some s \<Longrightarrow> stream_touch s s' \<Longrightarrow> chan_step ch (ch\<lparr>ch_qsm := qsm_put (ch_qsm ch) i s'\<rparr>)"
| chan_env: "ch_qsm ch' = (ch_qsm ch)\<lparr>qsm_txfcs := h, qsm_rxfcs := g, qsm_refs := r, get_stream_limit_cb := l, max_streams_bidi_rxfc := b, max_streams_uni_rxfc := u\<rparr> \<Longrightarrow>
    ch_next_local_stream_ordinal_uni ch' = ch_next_local_stream_ordinal_uni ch \<Longrightarrow>
    ch_next_local_stream_ordinal_bidi ch' = ch_next_local_stream_ordinal_bidi ch \<Longrightarrow> chan_step ch ch'"
| chan_local: "mems_ok mems \<Longrightarrow> ossl_quic_channel_new_stream_local mems alloc ch is_uni = Inr (ch', r) \<Longrightarrow> chan_step ch ch'"
| chan_remote: "mems_ok mems \<Longrightarrow> ossl_quic_channel_new_stream_remote mems alloc ch i = Inr (ch', r) \<Longrightarrow> chan_step ch ch'"
| chan_reject: "qsm_map (ch_qsm ch) i \<noteq> None \<Longrightarrow> ossl_quic_channel_reject_stream ch i = Inr ch' \<Longrightarrow> chan_step ch ch'"
| chan_accept: "i \<in> set (accept_list (ch_qsm ch)) \<Longrightarrow> ossl_quic_stream_map_remove_from_accept_queue now (ch_qsm ch) i rtt = Inr m \<Longrightarrow>
    chan_step ch (ch\<lparr>ch_qsm := m\<rparr>)"
| chan_release: "qsm_map (ch_qsm ch) i = Some s \<Longrightarrow> unlisted (ch_qsm ch) i s \<Longrightarrow> ossl_quic_stream_map_release (ch_qsm ch) i = Inr m \<Longrightarrow>
    chan_step ch (ch\<lparr>ch_qsm := m\<rparr>)"
| chan_flush: "flagged qs_shutdown_flush (ch_qsm ch) = {} \<Longrightarrow> set order = dom (qsm_map (ch_qsm ch)) \<Longrightarrow>
    ossl_quic_stream_map_begin_shutdown_flush order (ch_qsm ch) = Inr m \<Longrightarrow> chan_step ch (ch\<lparr>ch_qsm := m\<rparr>)"
| chan_iter: "ossl_quic_stream_iter_init (ch_qsm ch) adv = Inr (m, it) \<Longrightarrow> chan_step ch (ch\<lparr>ch_qsm := m\<rparr>)"
| chan_stepping: "chan_step ch (ch\<lparr>ch_qsm := ossl_quic_stream_map_set_rr_stepping (ch_qsm ch) n\<rparr>)"
| chan_gc: "ossl_quic_stream_map_gc (ch_qsm ch) = Some (Inr m) \<Longrightarrow> chan_step ch (ch\<lparr>ch_qsm := m\<rparr>)"

inductive chan_reach :: "quic_channel_streams \<Rightarrow> bool" where
  chan_init: "ch_qsm ch = ossl_quic_stream_map_init l b u server h g r \<Longrightarrow> ch_next_local_stream_ordinal_uni ch = 0 \<Longrightarrow>
    ch_next_local_stream_ordinal_bidi ch = 0 \<Longrightarrow> chan_reach ch"
| chan_next: "chan_reach ch \<Longrightarrow> chan_step ch ch' \<Longrightarrow> chan_reach ch'"

text \<open>The ordinals of the streams opened here are below the next ordinal of their kind.\<close>

definition ordinals_ok :: "quic_channel_streams \<Rightarrow> bool" where
  "ordinals_ok ch \<longleftrightarrow> (\<forall>i u. i \<in> dom (qsm_map (ch_qsm ch)) \<longrightarrow> i AND 3 = local_type ch u \<longrightarrow> drop_bit 2 i < ch_get_local_stream_next_ordinal ch u)
     \<and> (\<forall>u. ch_get_local_stream_next_ordinal ch u \<le> push_bit 62 1)"

text \<open>A step keeps that, and no next ordinal goes back.\<close>

definition ordinals_step :: "quic_channel_streams \<Rightarrow> quic_channel_streams \<Rightarrow> bool" where
  "ordinals_step ch ch' \<longleftrightarrow> ordinals_ok ch' \<and> qsm_is_server (ch_qsm ch') = qsm_is_server (ch_qsm ch)
     \<and> (\<forall>u. ch_get_local_stream_next_ordinal ch u \<le> ch_get_local_stream_next_ordinal ch' u)"

lemma ordinals_step_same:
  assumes ord: "ordinals_ok ch" and dom: "\<And>i. qsm_map (ch_qsm ch') i \<noteq> None \<Longrightarrow> qsm_map (ch_qsm ch) i \<noteq> None"
    and server: "qsm_is_server (ch_qsm ch') = qsm_is_server (ch_qsm ch)"
    and next_uni: "ch_next_local_stream_ordinal_uni ch' = ch_next_local_stream_ordinal_uni ch"
    and next_bidi: "ch_next_local_stream_ordinal_bidi ch' = ch_next_local_stream_ordinal_bidi ch"
  shows "ordinals_step ch ch'"
proof -
  have n: "ch_get_local_stream_next_ordinal ch' u = ch_get_local_stream_next_ordinal ch u" for u
    by (simp only: ch_get_local_stream_next_ordinal_def next_uni next_bidi)
  have t: "local_type ch' u = local_type ch u" for u
    by (simp only: local_type_def server)
  show ?thesis
    using ord dom unfolding ordinals_step_def ordinals_ok_def n t server by blast
qed

lemma gc_nothing: "ossl_quic_stream_map_gc m = Some (Inr m)"
  by (simp add: ossl_quic_stream_map_gc_def qsm_list_next_def gc_loop.simps)

lemma touch_ok: "stream_ok s \<Longrightarrow> stream_touch s s' \<Longrightarrow> stream_ok s' \<and> listed_same s s'"
proof -
  assume s: "stream_ok s" and "stream_touch s s'"
  then obtain q r ps a wm ws wr ack d where s': "s' = s\<lparr>qs_sstream := q, qs_rstream := r, qs_peer_stop_sending := ps, qs_peer_stop_sending_aec := a,
       qs_want_max_stream_data := wm, qs_want_stop_sending := ws, qs_want_reset_stream := wr, qs_acked_stop_sending := ack, qs_deleted := d\<rparr>"
    and q: "q = None \<longleftrightarrow> qs_sstream s = None" "\<forall>x. q = Some x \<longrightarrow> (\<exists>S. sstream_ok x S)" "r = None \<longleftrightarrow> qs_rstream s = None"
    unfolding stream_touch_def by (elim exE conjE) rule
  have b: "ossl_quic_stream_has_send_buffer s' = ossl_quic_stream_has_send_buffer s" "ossl_quic_stream_has_recv_buffer s' = ossl_quic_stream_has_recv_buffer s"
    by (simp_all add: has_send_buffer_iff has_recv_buffer_iff s')
  have f: "qs_sstream s' = q" "qs_rstream s' = r" "qs_shutdown_flush s' = qs_shutdown_flush s" "qs_send_state s' = qs_send_state s"
    by (simp_all add: s')
  have "stream_ok s'"
    using s q unfolding stream_ok_def b f by (cases q; cases "qs_sstream s") auto
  then show ?thesis
    by (simp add: listed_same_def s')
qed

lemma local_type_cong: "qsm_is_server (ch_qsm ch') = qsm_is_server (ch_qsm ch) \<Longrightarrow> local_type ch' u = local_type ch u"
  by (simp add: local_type_def)

lemma chan_step_ok:
  assumes "chan_step ch ch'" and ok: "qsm_ok (ch_qsm ch)" and ord: "ordinals_ok ch"
  shows "qsm_ok (ch_qsm ch') \<and> ordinals_step ch ch'"
  using assms(1)
proof cases
  case (chan_call i c m b)
  then obtain s where s: "qsm_map (ch_qsm ch) i = Some s"
    by auto
  from stream_call_ok [OF ok s, of c] chan_call(3) have "qsm_ok m" "\<exists>s'. qsm_map m = (qsm_map (ch_qsm ch))(i \<mapsto> s')" "qsm_is_server m = qsm_is_server (ch_qsm ch)"
    by (auto simp: call_ok_def)
  with s show ?thesis
    unfolding chan_call(1) by (auto split: if_splits intro!: ordinals_step_same [OF ord])
next
  case (chan_touch i s s')
  from touch_ok [OF qsm_okD(2) [OF ok chan_touch(2)] chan_touch(3)] have t: "stream_ok s'" "listed_same s s'"
    by simp_all
  have "qsm_ok (qsm_put (ch_qsm ch) i s')"
    by (rule put_keeps(2) [OF ok chan_touch(2) _ _ t(2,1)]) (simp_all add: lists_same_def)
  then show ?thesis
    unfolding chan_touch(1) using chan_touch(2) by (auto split: if_splits intro!: ordinals_step_same [OF ord])
next
  case (chan_env h g r l b u)
  have "lists_ok (ch_qsm ch')"
    by (rule lists_ok_env [OF qsm_okD(1) [OF ok]]) (simp_all add: chan_env(1) lists_same_def)
  then have "qsm_ok (ch_qsm ch')"
    using ok by (simp add: qsm_ok_def chan_env(1))
  moreover have "ordinals_step ch ch'"
    by (rule ordinals_step_same [OF ord]) (simp_all add: chan_env)
  ultimately show ?thesis
    by simp
next
  case (chan_local mems alloc is_uni r)
  show ?thesis
  proof (cases rule: new_local_spec [OF ok chan_local(1), of alloc is_uni, case_names opened refused])
    case (opened ch1 i s)
    then have ch1: "ch1 = ch'"
      using chan_local(2) by simp
    note O = opened [unfolded ch1]
    let ?n = "ch_get_local_stream_next_ordinal ch is_uni"
    have server: "qsm_is_server (ch_qsm ch') = qsm_is_server (ch_qsm ch)"
      using O(8) by (simp add: lists_same_def)
    have n': "ch_get_local_stream_next_ordinal ch' u = (if u = is_uni then ?n + 1 else ch_get_local_stream_next_ordinal ch u)" for u
      by (subst O(9)) (simp add: ch_get_local_stream_next_ordinal_def ch_set_local_stream_next_ordinal_def)
    have n: "unat ?n < 2 ^ 62"
      using O(4) by (simp add: word_less_nat_alt)
    then have n1: "unat (?n + 1) = unat ?n + 1"
      by (simp add: unat_add_no_overflow)
    have parts: "drop_bit 2 i = ?n" "i AND 3 = local_type ch is_uni"
      unfolding O(3) using local_id_parts [OF O(4) local_type_bits(1)] by simp_all
    have inj: "local_type ch u = local_type ch is_uni \<longleftrightarrow> u = is_uni" for u
      by (simp add: local_type_def)
    have "ordinals_ok ch'"
      unfolding ordinals_ok_def
    proof (intro conjI allI impI)
      fix j u assume j: "j \<in> dom (qsm_map (ch_qsm ch'))" "j AND 3 = local_type ch' u"
      show "drop_bit 2 j < ch_get_local_stream_next_ordinal ch' u"
      proof (cases "j = i")
        case True
        then have "u = is_uni"
          using j(2) parts(2) inj [of u] by (simp add: local_type_cong [OF server])
        then show ?thesis
          using True parts(1) n1 by (simp add: n' word_less_nat_alt)
      next
        case False
        then have "drop_bit 2 j < ch_get_local_stream_next_ordinal ch u"
          using j ord O(6) unfolding ordinals_ok_def local_type_cong [OF server] by auto
        then show ?thesis
          using n1 by (auto simp: n' word_less_nat_alt)
      qed
    next
      fix u
      have "ch_get_local_stream_next_ordinal ch u \<le> push_bit 62 1"
        using ord by (simp add: ordinals_ok_def)
      then show "ch_get_local_stream_next_ordinal ch' u \<le> push_bit 62 1"
        using n n1 by (auto simp: n' word_le_nat_alt)
    qed
    moreover have "ch_get_local_stream_next_ordinal ch u \<le> ch_get_local_stream_next_ordinal ch' u" for u
      using n1 by (simp add: n' word_le_nat_alt)
    ultimately show ?thesis
      using O(2) server by (simp add: ordinals_step_def)
  next
    case (refused ch1)
    then have "ch1 = ch'"
      using chan_local(2) by simp
    with refused show ?thesis
      by (auto simp: ch_same_def lists_same_def intro!: ordinals_step_same [OF ord])
  qed
next
  case (chan_remote mems alloc i r)
  show ?thesis
  proof (cases rule: new_remote_spec [OF ok chan_remote(1), of alloc i, case_names opened refused])
    case (opened ch1 s)
    then have ch1: "ch1 = ch'"
      using chan_remote(2) by simp
    note O = opened [unfolded ch1]
    note server = O(9)
    have same: "ch_get_local_stream_next_ordinal ch' u = ch_get_local_stream_next_ordinal ch u" for u
      using O(2) by (auto simp: ch_same_def ch_get_local_stream_next_ordinal_def)
    have "i AND 3 \<noteq> local_type ch u" for u
    proof
      assume "i AND 3 = local_type ch u"
      then have "(i AND 3) AND 1 = local_type ch u AND 1"
        by simp
      moreover have "(i AND 3) AND 1 = i AND 1"
        using remote_type_bits(1) [of i] by (simp add: QUIC_STREAM_INITIATOR_MASK_def QUIC_STREAM_DIR_MASK_def)
      ultimately have "(i AND 1 = 1) = qsm_is_server (ch_qsm ch)"
        using local_type_bits(2) [of ch u] by simp
      with O(4) show False
        by simp
    qed
    then have "ordinals_ok ch'"
      using ord unfolding ordinals_ok_def same local_type_cong [OF server] O(6) by auto
    with O(3) server same show ?thesis
      by (simp add: ordinals_step_def)
  next
    case (refused ch1)
    then have "ch1 = ch'"
      using chan_remote(2) by simp
    with refused show ?thesis
      by (auto simp: ch_same_def lists_same_def intro!: ordinals_step_same [OF ord])
  qed
next
  case (chan_reject i)
  then obtain s where s: "qsm_map (ch_qsm ch) i = Some s"
    by auto
  obtain ch1 s' where r: "ossl_quic_channel_reject_stream ch i = Inr ch1" "ch_same ch ch1" "qsm_ok (ch_qsm ch1)"
    "qsm_map (ch_qsm ch1) = (qsm_map (ch_qsm ch))(i \<mapsto> s')" "qsm_is_server (ch_qsm ch1) = qsm_is_server (ch_qsm ch)"
    by (rule reject_spec [OF ok s])
  then have "ch1 = ch'"
    using chan_reject(2) by simp
  with r s show ?thesis
    by (auto simp: ch_same_def split: if_splits intro!: ordinals_step_same [OF ord])
next
  case (chan_accept i now rtt m)
  obtain m' where "ossl_quic_stream_map_remove_from_accept_queue now (ch_qsm ch) i rtt = Inr m'" "qsm_ok m'" "qsm_map m' = qsm_map (ch_qsm ch)"
    "qsm_is_server m' = qsm_is_server (ch_qsm ch)"
    by (rule remove_accept_spec [OF ok chan_accept(2)])
  with chan_accept(1,3) show ?thesis
    by (auto intro!: ordinals_step_same [OF ord])
next
  case (chan_release i s m)
  obtain m' where r: "ossl_quic_stream_map_release (ch_qsm ch) i = Inr m'" "lists_ok m'" "qsm_map m' = (qsm_map (ch_qsm ch))(i := None)" "lists_same (ch_qsm ch) m'"
    by (rule stream_release_spec [OF qsm_okD(1) [OF ok] chan_release(2,3)])
  have "qsm_ok m'"
    using r(2) qsm_okD(2) [OF ok] by (simp add: qsm_ok_def r(3))
  with r chan_release(1,4) show ?thesis
    by (auto simp: lists_same_def split: if_splits intro!: ordinals_step_same [OF ord])
next
  case (chan_flush order m)
  let ?m = "(ch_qsm ch)\<lparr>num_shutdown_flush := 0\<rparr>"
  have "num_shutdown_flush (ch_qsm ch) = 0"
    using lists_okD(11) [OF qsm_okD(1) [OF ok]] chan_flush(2) by simp
  then have m: "?m = ch_qsm ch"
    by simp
  from flush_visit_spec [OF ok, of order] chan_flush(3) obtain m' where
    "ossl_quic_stream_map_visit begin_shutdown_flush_each order (ch_qsm ch) = Inr m'" "qsm_ok m'" "qsm_is_server m' = qsm_is_server (ch_qsm ch)"
    "\<And>i. qsm_map m' i \<noteq> None \<Longrightarrow> qsm_map (ch_qsm ch) i \<noteq> None"
    by auto
  with chan_flush(1,4) show ?thesis
    unfolding ossl_quic_stream_map_begin_shutdown_flush_def m by (auto intro!: ordinals_step_same [OF ord])
next
  case (chan_iter adv m it)
  obtain m' where i: "ossl_quic_stream_iter_init (ch_qsm ch) adv = Inr (m', \<lparr>iter_first_stream = rr_cur (ch_qsm ch), iter_stream = rr_cur (ch_qsm ch)\<rparr>)" "lists_ok m'"
    "qsm_map m' = qsm_map (ch_qsm ch)" "qsm_is_server m' = qsm_is_server (ch_qsm ch)"
    by (rule iter_init_spec [OF qsm_okD(1) [OF ok]])
  then have "qsm_ok m'"
    using qsm_okD(2) [OF ok] by (simp add: qsm_ok_def)
  with i chan_iter show ?thesis
    by (auto intro!: ordinals_step_same [OF ord])
next
  case (chan_stepping n)
  let ?m = "ossl_quic_stream_map_set_rr_stepping (ch_qsm ch) n"
  have f: "qsm_map ?m = qsm_map (ch_qsm ch)" "lists_same (ch_qsm ch) ?m"
    by (simp_all add: ossl_quic_stream_map_set_rr_stepping_def lists_same_def)
  have "qsm_ok ?m"
    using lists_ok_env [OF qsm_okD(1) [OF ok] f] qsm_okD(2) [OF ok] by (simp add: qsm_ok_def f(1))
  with f show ?thesis
    unfolding chan_stepping by (auto simp: lists_same_def intro!: ordinals_step_same [OF ord])
next
  case (chan_gc m)
  then show ?thesis
    using ok ord by (auto simp: gc_nothing intro!: ordinals_step_same [OF ord])
qed

lemma chan_reach_ok: "chan_reach ch \<Longrightarrow> qsm_ok (ch_qsm ch) \<and> ordinals_ok ch"
proof (induction rule: chan_reach.induct)
  case (chan_init ch l b u server h g r)
  then show ?case
    by (simp add: ordinals_ok_def ch_get_local_stream_next_ordinal_def qsm_ok_def lists_ok_def flagged_def accept_of_kind_def ossl_quic_stream_map_init_def)
next
  case (chan_next ch ch')
  then show ?case
    using chan_step_ok by (auto simp: ordinals_step_def)
qed

lemma chan_steps_grow:
  assumes "chan_step\<^sup>*\<^sup>* ch ch'" and "chan_reach ch"
  shows "chan_reach ch' \<and> qsm_is_server (ch_qsm ch') = qsm_is_server (ch_qsm ch)
     \<and> ch_get_local_stream_next_ordinal ch u \<le> ch_get_local_stream_next_ordinal ch' u"
  using assms
proof (induction rule: rtranclp_induct)
  case (step ch1 ch2)
  then have "chan_reach ch2" "ordinals_step ch1 ch2"
    using chan_next chan_step_ok chan_reach_ok by blast+
  with step show ?case
    by (auto simp: ordinals_step_def intro: order.trans)
qed simp

section \<open>Properties\<close>

definition example_channel :: quic_channel_streams where
  "example_channel =
     \<lparr>ch_qsm = ossl_quic_stream_map_init None None None False (\<lambda>_. zero_txfc) (\<lambda>_. zero_rxfc) (\<lambda>_. 0), ch_conn_txfc = 8, ch_conn_rxfc = 9,
      ch_got_remote_transport_params = False, ch_rx_init_max_stream_data_uni = 0, ch_rx_init_max_stream_data_bidi_local = 0,
      ch_rx_init_max_stream_data_bidi_remote = 0, ch_tx_init_max_stream_data_uni = 100, ch_tx_init_max_stream_data_bidi_local = 100,
      ch_tx_init_max_stream_data_bidi_remote = 100, ch_next_local_stream_ordinal_uni = 0, ch_next_local_stream_ordinal_bidi = 0,
      ch_max_local_streams_uni = 5, ch_max_local_streams_bidi = 5, ch_max_streams_uni_rxfc = 10, ch_max_streams_bidi_rxfc = 11,
      ch_incoming_stream_auto_reject = False, ch_incoming_stream_auto_reject_aec = 0\<rparr>"

definition example_mems :: stream_mems where
  "example_mems = ((True, Some (replicate 8192 0)), (True, None))"

lemma example_channel_reach: "chan_reach example_channel" "mems_ok example_mems"
  by (rule chan_init [where l = None and b = None and u = None and server = False and h = "\<lambda>_. zero_txfc" and g = "\<lambda>_. zero_rxfc" and r = "\<lambda>_. 0"])
    (simp_all add: example_channel_def example_mems_def mems_ok_def INIT_APP_BUF_LEN_def)

text \<open>Its first stream.\<close>

lemma example_open:
  obtains ch s where "ossl_quic_channel_new_stream_local example_mems (Some (0, 1)) example_channel False = Inr (ch, Some 0)" "chan_reach ch"
    "qsm_map (ch_qsm ch) = [0 \<mapsto> s]" "active_list (ch_qsm ch) = []" "qs_send_state s = QUIC_SSTREAM_STATE_READY"
    "\<exists>ch'. ossl_quic_channel_new_stream_local example_mems (Some (2, 3)) ch False = Inr (ch', Some 4)"
    "get_stream_limit_cb (ch_qsm ch) = None" "\<not> qs_deleted s" "\<not> qs_ready_for_gc s" "\<not> qs_shutdown_flush s"
proof -
  have c: "ring_buf_copy_loop ring_buf_init \<lparr>rb_start = blk, rb_alloc = 8192, head_offset = 0, ctail_offset = 0\<rparr> 0
     = Inr (Some \<lparr>rb_start = blk, rb_alloc = 8192, head_offset = 0, ctail_offset = 0\<rparr>)" for blk
    by (subst ring_buf_copy_loop.simps) (simp add: ring_buf_get_buf_at_def ring_buf_init_def)
  have q: "\<exists>q. ossl_quic_sstream_new True (Some (replicate 8192 0)) 8192 = Inr (Some q)"
    by (simp add: ossl_quic_sstream_new_def ring_buf_resize_def ring_buf_used_def ring_buf_init_def c [unfolded ring_buf_init_def])
  have r: "\<exists>r. ossl_quic_rstream_new True None None None 0 = Inr (Some r)"
    by (simp add: ossl_quic_rstream_new_def ring_buf_resize_def ring_buf_init_def)
  note defs = ossl_quic_channel_new_stream_local_def ch_init_new_stream_def ch_init_stream_fc_def ossl_quic_stream_map_alloc_def ossl_quic_txfc_init_def
    ossl_quic_rxfc_init_def example_channel_def example_mems_def ossl_quic_stream_map_init_def ch_get_local_stream_next_ordinal_def
    ossl_quic_stream_is_local_init_def ossl_quic_stream_is_server_init_def ossl_quic_stream_is_bidi_def QUIC_STREAM_INITIATOR_MASK_def
    QUIC_STREAM_INITIATOR_SERVER_def QUIC_STREAM_INITIATOR_CLIENT_def QUIC_STREAM_DIR_MASK_def QUIC_STREAM_DIR_BIDI_def QUIC_STREAM_DIR_UNI_def
    INIT_APP_BUF_LEN_def DEFAULT_STREAM_RXFC_MAX_WND_MUL_def ch_set_local_stream_next_ordinal_def zero_stream_def zero_txfc_def zero_rxfc_def
    qsm_at_def qsm_put_def
  have big: "\<not> (4611686018427387904 :: u64) \<le> 1"
    by (simp add: word_le_nat_alt)
  obtain q0 r0 where q0: "ossl_quic_sstream_new True (Some (replicate 8192 0)) 8192 = Inr (Some q0)" and r0: "ossl_quic_rstream_new True None None None 0 = Inr (Some r0)"
    using q r by blast
  have "\<exists>ch s. ossl_quic_channel_new_stream_local example_mems (Some (0, 1)) example_channel False = Inr (ch, Some 0)
     \<and> (\<exists>ch'. ossl_quic_channel_new_stream_local example_mems (Some (2, 3)) ch False = Inr (ch', Some 4))
     \<and> active_list (ch_qsm ch) = [] \<and> qsm_map (ch_qsm ch) = [0 \<mapsto> s] \<and> qs_send_state s = QUIC_SSTREAM_STATE_READY
     \<and> get_stream_limit_cb (ch_qsm ch) = None \<and> \<not> qs_deleted s \<and> \<not> qs_ready_for_gc s \<and> \<not> qs_shutdown_flush s"
    by (simp add: defs q0 r0 Let_def big, rule exI, rule conjI, rule refl, simp)
  then obtain ch s where ch: "ossl_quic_channel_new_stream_local example_mems (Some (0, 1)) example_channel False = Inr (ch, Some 0)"
    "qsm_map (ch_qsm ch) = [0 \<mapsto> s]" "active_list (ch_qsm ch) = []" "qs_send_state s = QUIC_SSTREAM_STATE_READY"
    "\<exists>ch'. ossl_quic_channel_new_stream_local example_mems (Some (2, 3)) ch False = Inr (ch', Some 4)"
    "get_stream_limit_cb (ch_qsm ch) = None" "\<not> qs_deleted s" "\<not> qs_ready_for_gc s" "\<not> qs_shutdown_flush s"
    by blast
  have "chan_reach ch"
    by (rule chan_next [OF example_channel_reach(1) chan_local [OF example_channel_reach(2) ch(1)]])
  then show ?thesis
    by (rule that [OF ch(1) _ ch(2-9)])
qed

text \<open>The stream after the application has reset it: it is the active one.\<close>

lemma example_reset:
  obtains ch s where "chan_reach ch" "qsm_map (ch_qsm ch) = [0 \<mapsto> s]" "active_list (ch_qsm ch) = [0]"
    "qs_want_reset_stream s" "qs_send_state s = QUIC_SSTREAM_STATE_RESET_SENT" "\<not> qs_deleted s" "\<not> qs_ready_for_gc s" "get_stream_limit_cb (ch_qsm ch) = None"
proof -
  obtain ch s where ch: "chan_reach ch" "qsm_map (ch_qsm ch) = [0 \<mapsto> s]" "qs_send_state s = QUIC_SSTREAM_STATE_READY"
    "get_stream_limit_cb (ch_qsm ch) = None" "\<not> qs_deleted s" "\<not> qs_ready_for_gc s" "\<not> qs_shutdown_flush s"
    by (rule example_open)
  let ?m = "ch_qsm ch"
  define s2 where "s2 = s\<lparr>qs_send_final_size := ossl_quic_txfc_get_swm (qsm_txfcs ?m) (qs_txfc s), qs_reset_stream_aec := 7,
    qs_want_reset_stream := True, qs_send_state := QUIC_SSTREAM_STATE_RESET_SENT, qs_sstream := None\<rparr>"
  have ok: "qsm_ok ?m" and s: "qsm_map ?m 0 = Some s"
    using chan_reach_ok [OF ch(1)] ch(2) by simp_all
  have l: "lists_ok (qsm_put ?m 0 s2)"
    by (rule put_keeps(1) [OF ok s, of _ s2]) (simp_all add: lists_same_def listed_same_def s2_def)
  have sok: "stream_ok s2"
    using qsm_okD(2) [OF ok s] ch(7) by (auto simp: stream_ok_def s2_def has_send_buffer_iff has_recv_buffer_iff)
  have s2: "qsm_map (qsm_put ?m 0 s2) 0 = Some s2"
    by simp
  obtain m b where m: "ossl_quic_stream_map_update_state (qsm_put ?m 0 s2) 0 = Inr m" "lists_ok m" "qsm_map m = (qsm_map (qsm_put ?m 0 s2))(0 \<mapsto> stream_updated b s2)"
    "same_env (qsm_put ?m 0 s2) m" "should_be_active (qsm_put ?m 0 s2) (limit_allows (qsm_put ?m 0 s2) s2) (after_gc (after_acks s2)) = Inr b"
    by (rule update_state_spec [OF l s2 sok])
  have up: "after_gc (after_acks s2) = s2"
    using ch(5,6) by (simp add: after_gc_def after_acks_def s2_def qsm_ready_for_gc_def)
  have "limit_allows (qsm_put ?m 0 s2) s2"
    using ch(4) by (simp add: limit_allows_def ossl_quic_stream_map_is_local_allowed_by_stream_limit_def qsm_put_def)
  then have b: "b"
    using m(5) ch(6) unfolding up by (auto simp: should_be_active_def s2_def split: if_splits)
  have map: "qsm_map m = [0 \<mapsto> s2\<lparr>qs_active := True\<rparr>]"
    using m(3) b up ch(2) by (simp add: stream_updated_def)
  have "set (active_list m) = {0}" "distinct (active_list m)"
    using lists_okD(3,4) [OF m(2)] by (auto simp: flagged_def map split: if_splits)
  then have "active_list m = [0]"
    by (cases "active_list m") (auto simp: insert_eq_iff subset_singleton_iff)
  moreover have call: "stream_map_call (Reset_Stream_Send_Part 7) ?m 0 = Inr (m, True)"
    using m(1) ch(3,7) s
    by (simp add: ossl_quic_stream_map_reset_stream_send_part_def ossl_quic_stream_map_ensure_send_part_id_def reset_from_send_def
        reset_send_part_def shutdown_flush_done_def qsm_put_def s2_def)
  have "chan_reach (ch\<lparr>ch_qsm := m\<rparr>)"
    by (rule chan_next [OF ch(1) chan_call [OF _ call]]) (use s in simp)
  moreover have "get_stream_limit_cb m = None"
    using m(4) ch(4) by (simp add: same_env_def qsm_put_def)
  ultimately show ?thesis
    using map ch(5,6) by (intro that [of "ch\<lparr>ch_qsm := m\<rparr>" "s2\<lparr>qs_active := True\<rparr>"]) (simp_all add: s2_def)
qed

text \<open>
  Property C14. In every run of the channel's stream functions, the active list holds exactly the streams marked active, each once; the list of streams to collect
  exactly those marked so; the accept queue only streams of the map, each once, with the two counts the numbers of bidirectional and of unidirectional ones;
  the flush count is the number of streams still to be flushed; the round-robin position is an active stream whenever there is one; each stream
  has a send buffer, and a receive buffer, exactly in the states that have one.
\<close>

theorem stream_map_lists_exact:
  assumes "chan_reach ch" and "m = ch_qsm ch"
  shows "set (active_list m) = {i. \<exists>s. qsm_map m i = Some s \<and> qs_active s} \<and> distinct (active_list m)
    \<and> set (ready_for_gc_list m) = {i. \<exists>s. qsm_map m i = Some s \<and> qs_ready_for_gc s} \<and> distinct (ready_for_gc_list m)
    \<and> set (accept_list m) \<subseteq> dom (qsm_map m) \<and> distinct (accept_list m)
    \<and> num_accept_bidi m = of_nat (length (filter (\<lambda>i. ossl_quic_stream_is_bidi (the (qsm_map m i))) (accept_list m)))
    \<and> num_accept_uni m = of_nat (length (filter (\<lambda>i. \<not> ossl_quic_stream_is_bidi (the (qsm_map m i))) (accept_list m)))
    \<and> num_shutdown_flush m = of_nat (card {i. \<exists>s. qsm_map m i = Some s \<and> qs_shutdown_flush s})
    \<and> (rr_cur m = None \<longleftrightarrow> active_list m = []) \<and> (\<forall>c. rr_cur m = Some c \<longrightarrow> c \<in> set (active_list m))
    \<and> (\<forall>i s. qsm_map m i = Some s \<longrightarrow> qs_id s = i \<and> (qs_sstream s \<noteq> None \<longleftrightarrow> ossl_quic_stream_has_send_buffer s)
         \<and> (qs_rstream s \<noteq> None \<longleftrightarrow> ossl_quic_stream_has_recv_buffer s))"
proof -
  have ok: "qsm_ok m"
    using chan_reach_ok assms by simp
  have "qs_sstream s \<noteq> None \<longleftrightarrow> ossl_quic_stream_has_send_buffer s" "qs_rstream s \<noteq> None \<longleftrightarrow> ossl_quic_stream_has_recv_buffer s"
    if "qsm_map m i = Some s" for i s
    using qsm_okD(2) [OF ok that] by (auto simp: stream_ok_def split: option.splits)
  then show ?thesis
    using qsm_okD(1) [OF ok] unfolding lists_ok_def flagged_def accept_of_kind_def by (simp; blast)
qed

theorem stream_map_lists_exact_witness:
  "\<exists>(ch :: quic_channel_streams) s. qsm_map (ch_qsm ch) 0 = Some s \<and> qs_active s \<and> active_list (ch_qsm ch) = [0] \<and> rr_cur (ch_qsm ch) = Some 0"
proof -
  obtain ch s where ch: "chan_reach ch" "qsm_map (ch_qsm ch) = [0 \<mapsto> s]" "active_list (ch_qsm ch) = [0]"
    by (rule example_reset)
  note exact = stream_map_lists_exact [OF ch(1) refl]
  have "{0} = {i. \<exists>s. qsm_map (ch_qsm ch) i = Some s \<and> qs_active s}"
    using exact ch(3) by simp
  then have "qs_active s"
    unfolding ch(2) by (auto split: if_splits)
  moreover have "rr_cur (ch_qsm ch) = Some 0"
    using exact ch(3) by (cases "rr_cur (ch_qsm ch)") simp_all
  ultimately show ?thesis
    using ch(2,3) by (intro exI [of _ ch] exI [of _ s]) simp
qed

text \<open>What opening a stream says of its id.\<close>

lemma new_local_id:
  assumes reach: "chan_reach ch" and mems: "mems_ok mems" and new: "ossl_quic_channel_new_stream_local mems alloc ch is_uni = Inr (ch', Some i)"
  shows "drop_bit 2 i = ch_get_local_stream_next_ordinal ch is_uni" and "i AND 3 = local_type ch is_uni" and "qsm_map (ch_qsm ch) i = None"
    and "i \<in> dom (qsm_map (ch_qsm ch'))" and "qsm_is_server (ch_qsm ch') = qsm_is_server (ch_qsm ch)" and "chan_reach ch'"
proof -
  obtain A: "i = push_bit 2 (ch_get_local_stream_next_ordinal ch is_uni) OR local_type ch is_uni" "ch_get_local_stream_next_ordinal ch is_uni < push_bit 62 1"
    "qsm_map (ch_qsm ch) i = None" "i \<in> dom (qsm_map (ch_qsm ch'))" "qsm_is_server (ch_qsm ch') = qsm_is_server (ch_qsm ch)"
  proof (cases rule: new_local_spec [OF conjunct1 [OF chan_reach_ok [OF reach]] mems, of alloc is_uni, case_names opened refused])
    case (opened ch1 i1 s)
    then have "ch1 = ch'" "i1 = i"
      using new by simp_all
    with opened show ?thesis
      by (intro that) (auto simp: lists_same_def)
  qed (use new in simp)
  show "drop_bit 2 i = ch_get_local_stream_next_ordinal ch is_uni" "i AND 3 = local_type ch is_uni"
    unfolding A(1) using local_id_parts [OF A(2) local_type_bits(1)] by simp_all
  show "qsm_map (ch_qsm ch) i = None" "i \<in> dom (qsm_map (ch_qsm ch'))" "qsm_is_server (ch_qsm ch') = qsm_is_server (ch_qsm ch)"
    by (rule A)+
  show "chan_reach ch'"
    by (rule chan_next [OF reach chan_local [OF mems new]])
qed

text \<open>
  Property C27. A stream opened locally has an id no stream ever had: of two streams of a kind opened in a run, whatever happens to the channel between, and
  also when the first one is released, the later one has the greater ordinal.
\<close>

theorem stream_ids_never_reused:
  assumes "chan_reach ch" and "mems_ok mems" and "mems_ok mems'"
    and "ossl_quic_channel_new_stream_local mems alloc ch is_uni = Inr (ch1, Some i)" and "chan_step\<^sup>*\<^sup>* ch1 ch2"
    and "ossl_quic_channel_new_stream_local mems' alloc' ch2 is_uni' = Inr (ch3, Some j)"
  shows "i \<noteq> j \<and> (is_uni' = is_uni \<longrightarrow> drop_bit 2 i < drop_bit 2 j) \<and> qsm_map (ch_qsm ch2) j = None"
proof -
  note first = new_local_id [OF assms(1,2,4)]
  note grow = chan_steps_grow [OF assms(5) first(6)]
  note second = new_local_id [OF conjunct1 [OF grow] assms(3,6)]
  have server: "qsm_is_server (ch_qsm ch2) = qsm_is_server (ch_qsm ch)"
    using grow first(5) by simp
  have less: "drop_bit 2 i < drop_bit 2 j" if "is_uni' = is_uni"
  proof -
    have "i AND 3 = local_type ch1 is_uni"
      using first(2) local_type_cong [OF first(5)] by simp
    then have "drop_bit 2 i < ch_get_local_stream_next_ordinal ch1 is_uni"
      using chan_reach_ok [OF first(6)] first(4) by (simp add: ordinals_ok_def)
    also have "\<dots> \<le> ch_get_local_stream_next_ordinal ch2 is_uni"
      using grow by simp
    finally show ?thesis
      using second(1) that by simp
  qed
  have "is_uni' = is_uni" if "i = j"
    using first(2) second(2) that by (simp add: local_type_def server split: if_splits)
  with less second(3) show ?thesis
    by auto
qed

theorem stream_ids_never_reused_witness:
  "\<exists>ch ch' j. ossl_quic_channel_new_stream_local example_mems (Some (0, 1)) example_channel False = Inr (ch, Some 0)
     \<and> ossl_quic_channel_new_stream_local example_mems (Some (2, 3)) ch False = Inr (ch', Some j) \<and> drop_bit 2 (0 :: u64) < drop_bit 2 j"
proof -
  obtain ch ch' where ch: "ossl_quic_channel_new_stream_local example_mems (Some (0, 1)) example_channel False = Inr (ch, Some 0)"
    "ossl_quic_channel_new_stream_local example_mems (Some (2, 3)) ch False = Inr (ch', Some 4)"
    by (rule example_open) auto
  with stream_ids_never_reused [OF example_channel_reach(1,2,2) ch(1) rtranclp.rtrancl_refl ch(2)] show ?thesis
    by blast
qed

text \<open>
  Property C9. In every run, every call on a stream of the map completes without a fault, leaves the map well-formed and every other stream as it was, keeps the
  stream's id and type, and moves its send part and its receive part only along the transitions of RFC 9000 (figures 2 and 3); the buffers are kept or freed.
\<close>

theorem stream_calls_follow_states:
  assumes "chan_reach ch" and "qsm_map (ch_qsm ch) i = Some s"
  shows "\<exists>m ok s'. stream_map_call c (ch_qsm ch) i = Inr (m, ok) \<and> qsm_map m = (qsm_map (ch_qsm ch))(i \<mapsto> s') \<and> chan_reach (ch\<lparr>ch_qsm := m\<rparr>)
    \<and> qs_id s' = qs_id s \<and> qs_type s' = qs_type s
    \<and> (qs_send_state s' = qs_send_state s \<or> (qs_send_state s, qs_send_state s') \<in>
     {(QUIC_SSTREAM_STATE_READY, QUIC_SSTREAM_STATE_SEND), (QUIC_SSTREAM_STATE_SEND, QUIC_SSTREAM_STATE_DATA_SENT),
      (QUIC_SSTREAM_STATE_DATA_SENT, QUIC_SSTREAM_STATE_DATA_RECVD), (QUIC_SSTREAM_STATE_READY, QUIC_SSTREAM_STATE_RESET_SENT),
      (QUIC_SSTREAM_STATE_SEND, QUIC_SSTREAM_STATE_RESET_SENT), (QUIC_SSTREAM_STATE_DATA_SENT, QUIC_SSTREAM_STATE_RESET_SENT),
      (QUIC_SSTREAM_STATE_RESET_SENT, QUIC_SSTREAM_STATE_RESET_RECVD)})
    \<and> (qs_recv_state s' = qs_recv_state s \<or> (qs_recv_state s, qs_recv_state s') \<in>
     {(QUIC_RSTREAM_STATE_RECV, QUIC_RSTREAM_STATE_SIZE_KNOWN), (QUIC_RSTREAM_STATE_SIZE_KNOWN, QUIC_RSTREAM_STATE_DATA_RECVD),
      (QUIC_RSTREAM_STATE_DATA_RECVD, QUIC_RSTREAM_STATE_DATA_READ), (QUIC_RSTREAM_STATE_RECV, QUIC_RSTREAM_STATE_RESET_RECVD),
      (QUIC_RSTREAM_STATE_SIZE_KNOWN, QUIC_RSTREAM_STATE_RESET_RECVD), (QUIC_RSTREAM_STATE_DATA_RECVD, QUIC_RSTREAM_STATE_RESET_RECVD),
      (QUIC_RSTREAM_STATE_RESET_RECVD, QUIC_RSTREAM_STATE_RESET_READ)})
    \<and> (qs_sstream s' = qs_sstream s \<or> qs_sstream s' = None) \<and> (qs_rstream s' = qs_rstream s \<or> qs_rstream s' = None)"
proof -
  obtain m ok s' where r: "stream_map_call c (ch_qsm ch) i = Inr (m, ok)" "qsm_map m = (qsm_map (ch_qsm ch))(i \<mapsto> s')" "stream_evolves s s'"
    using stream_call_ok [OF conjunct1 [OF chan_reach_ok [OF assms(1)]] assms(2), of c] unfolding call_ok_def by blast
  have "chan_reach (ch\<lparr>ch_qsm := m\<rparr>)"
    by (rule chan_next [OF assms(1) chan_call [OF _ r(1)]]) (use assms(2) in simp)
  moreover have "qs_send_state s' = qs_send_state s \<longleftrightarrow> qs_send_state s = qs_send_state s'" "qs_recv_state s' = qs_recv_state s \<longleftrightarrow> qs_recv_state s = qs_recv_state s'"
    by auto
  ultimately show ?thesis
    using r unfolding stream_evolves_def send_moves_def recv_moves_def by (intro exI [of _ m] exI [of _ ok] exI [of _ s']) (simp only: simp_thms)
qed

theorem stream_calls_follow_states_witness:
  "\<exists>(ch :: quic_channel_streams) m ok s'. qsm_map (ch_qsm ch) 0 \<noteq> None \<and> stream_map_call (Reset_Stream_Send_Part 7) (ch_qsm ch) 0 = Inr (m, ok)
     \<and> qsm_map m 0 = Some s' \<and> qs_send_state s' \<noteq> QUIC_SSTREAM_STATE_DATA_RECVD"
proof -
  obtain ch s where "chan_reach ch" "qsm_map (ch_qsm ch) = [0 \<mapsto> s]" "qs_send_state s = QUIC_SSTREAM_STATE_READY"
    by (rule example_open)
  moreover from this stream_calls_follow_states [of ch 0 s "Reset_Stream_Send_Part 7"] obtain m ok s' where
    "stream_map_call (Reset_Stream_Send_Part 7) (ch_qsm ch) 0 = Inr (m, ok)" "qsm_map m = (qsm_map (ch_qsm ch))(0 \<mapsto> s')" "qs_send_state s' \<noteq> QUIC_SSTREAM_STATE_DATA_RECVD"
    by auto
  ultimately show ?thesis
    by (intro exI [of _ ch] exI [of _ m] exI [of _ ok] exI [of _ s']) simp
qed

text \<open>What a send buffer has to send: its least new byte if the limit admits it, and otherwise, when nothing is new, a FIN.\<close>

definition pending_within :: "u64 \<Rightarrow> quic_sstream \<Rightarrow> bool" where
  "pending_within limit q \<longleftrightarrow>
     (if uint_set_ints (new_set q) = {} then have_final_size q \<and> \<not> sent_final_size q
      else \<exists>v \<in> uint_set_ints (new_set q). v < limit)"

lemma uint_set_least:
  assumes "uint_set_ok (r # rs)" and "v \<in> uint_set_ints (r # rs)"
  shows "rstart r \<le> v"
  using assms by (fastforce simp: uint_set_ok_def uint_set_ints_def)

lemma frame_within_limit:
  assumes ok: "sstream_ok q S" and get: "ossl_quic_sstream_get_stream_frame q 0 2 = Inr r"
  shows "(case r of None \<Rightarrow> False | Some (shdr, iov) \<Rightarrow> fr_is_fin shdr \<and> fr_len shdr = 0 \<or> fr_offset shdr < limit)
    \<longleftrightarrow> pending_within limit q"
proof (cases "new_set q")
  case Nil
  with get show ?thesis
    by (auto simp: ossl_quic_sstream_get_stream_frame_def pending_within_def uint_set_ints_def split: if_splits)
next
  case (Cons rg rgs)
  then have rg: "rg \<in> set (new_set q)"
    by simp
  note set_ok = sstream_okD(2) [OF ok]
  obtain iov where f: "sstream_frame_loop (ss_ring q) (rstart rg) (rend rg - rstart rg + 1) 2 0 [] = Inr (Some (rend rg - rstart rg + 1, iov))"
    "frame_of_stream q S \<lparr>fr_offset = rstart rg, fr_len = rend rg - rstart rg + 1,
       fr_is_fin = (have_final_size q \<and> rstart rg + (rend rg - rstart rg + 1) = head_offset (ss_ring q))\<rparr> iov"
    by (rule frame_of_range [OF ok rg order_refl])
  have "unat (rend rg) < 2 ^ 62"
    using sstream_okD(4,8,9) [OF ok] range_in_ints [OF rg set_ok] by (fastforce simp: ring_ok_def)
  with uint_set_ok_nonempty [OF set_ok rg] have "unat (rend rg - rstart rg + 1) = unat (rend rg) - unat (rstart rg) + 1"
    by (simp add: unat_add_no_overflow unat_sub_no_underflow)
  then have len: "rend rg - rstart rg + 1 \<noteq> 0"
    by auto
  have least: "rstart rg \<in> uint_set_ints (new_set q)" "\<And>v. v \<in> uint_set_ints (new_set q) \<Longrightarrow> rstart rg \<le> v"
    using range_in_ints [OF rg set_ok] uint_set_least set_ok unfolding Cons by blast+
  then have "pending_within limit q \<longleftrightarrow> rstart rg < limit"
    by (auto simp: pending_within_def intro: le_less_trans)
  with get f(1) len Cons show ?thesis
    by (auto simp: ossl_quic_sstream_get_stream_frame_def Let_def)
qed

lemma has_data_iff:
  assumes ok: "stream_ok s" and get: "stream_has_data_to_send m s = Inr b"
  shows "b \<longleftrightarrow> (\<exists>q. qs_sstream s = Some q
    \<and> pending_within (ossl_quic_txfc_get_swm (qsm_txfcs m) (qs_txfc s) + ossl_quic_txfc_get_credit (qsm_txfcs m) (qs_txfc s) 0) q)"
proof (cases "ossl_quic_stream_has_send_buffer s")
  case True
  from stream_ok_buffer [OF ok True] obtain q S where q: "qs_sstream s = Some q" "sstream_ok q S"
    by blast
  obtain r where r: "ossl_quic_sstream_get_stream_frame q 0 2 = Inr r"
    using get_stream_frame_total [OF q(2)] by blast
  show ?thesis
    using frame_within_limit [OF q(2) r] get True q(1) r
    by (auto simp: stream_has_data_to_send_def qs_sstream_at_def Let_def split: option.splits)
next
  case False
  with ok get show ?thesis
    by (auto simp: stream_has_data_to_send_def stream_ok_def split: option.splits)
qed

lemma credit_limit:
  "ossl_quic_txfc_get_swm h t + ossl_quic_txfc_get_credit h t 0 = tx_swm (h t)
     + (case tx_parent (h t) of None \<Rightarrow> tx_cwm (h t) - tx_swm (h t)
        | Some c \<Rightarrow> min (tx_cwm (h t) - tx_swm (h t)) (tx_cwm (h c) - tx_swm (h c)))"
  by (cases "tx_parent (h t)")
    (auto simp: ossl_quic_txfc_get_swm_def ossl_quic_txfc_get_credit_def ossl_quic_txfc_get_credit_local_def Let_def min_def)

text \<open>
  Property C20. \<^verbatim>\<open>ossl_quic_stream_map_update_state\<close> puts a stream on the active list exactly when the stream limit of the peer admits its id, it is not to be
  collected, and it has something to send. It is to be collected when it was marked so before, or when the application has deleted it, the peer has acknowledged
  its STOP_SENDING if it has a receive part, and the send part, if it has one, is done: data and FIN or the reset are acknowledged. Something to send is a flow
  control update for a receive part in the state RECV, a STOP_SENDING or RESET_STREAM frame, or, unless the peer has asked to stop, the content of a send buffer
  that is not wholly acknowledged: a byte still to be sent that lies below the stream's flow control limit (the bytes sent so far plus the credit that the
  stream's window and the connection's both leave), or, when no byte is to be sent, a FIN that is.
\<close>

theorem stream_map_activates_exactly:
  assumes "chan_reach ch" and "qsm_map (ch_qsm ch) i = Some s"
  shows "\<exists>m s'. ossl_quic_stream_map_update_state (ch_qsm ch) i = Inr m \<and> qsm_map m = (qsm_map (ch_qsm ch))(i \<mapsto> s')
    \<and> (i \<in> set (active_list m) \<longleftrightarrow>
        (ossl_quic_stream_is_local_init s \<longrightarrow> (\<forall>limit. get_stream_limit_cb (ch_qsm ch) = Some limit \<longrightarrow> drop_bit 2 i < limit (\<not> ossl_quic_stream_is_bidi s)))
        \<and> \<not> (qs_ready_for_gc s
             \<or> qs_deleted s \<and> (qs_recv_state s = QUIC_RSTREAM_STATE_NONE \<or> qs_acked_stop_sending s)
               \<and> (qs_send_state s \<in> {QUIC_SSTREAM_STATE_NONE, QUIC_SSTREAM_STATE_DATA_RECVD, QUIC_SSTREAM_STATE_RESET_RECVD}
                  \<or> qs_send_state s = QUIC_SSTREAM_STATE_DATA_SENT \<and> (\<exists>q. qs_sstream s = Some q \<and> ossl_quic_sstream_is_totally_acked q)))
        \<and> (qs_recv_state s = QUIC_RSTREAM_STATE_RECV \<and> (qs_want_max_stream_data s \<or> has_cwm_changed (qsm_rxfcs (ch_qsm ch) (qs_rxfc s)))
           \<or> qs_want_stop_sending s \<or> qs_want_reset_stream s
           \<or> \<not> qs_peer_stop_sending s
             \<and> (\<exists>q limit. qs_sstream s = Some q \<and> \<not> (qs_send_state s = QUIC_SSTREAM_STATE_DATA_SENT \<and> ossl_quic_sstream_is_totally_acked q)
                \<and> limit = (let h = qsm_txfcs (ch_qsm ch); t = h (qs_txfc s) in tx_swm t
                    + (case tx_parent t of None \<Rightarrow> tx_cwm t - tx_swm t | Some c \<Rightarrow> min (tx_cwm t - tx_swm t) (tx_cwm (h c) - tx_swm (h c))))
                \<and> (if uint_set_ints (new_set q) = {} then have_final_size q \<and> \<not> sent_final_size q
                   else \<exists>v \<in> uint_set_ints (new_set q). v < limit))))"
proof -
  let ?m = "ch_qsm ch"
  have ok: "qsm_ok ?m"
    using chan_reach_ok [OF assms(1)] by simp
  note l = qsm_okD(1) [OF ok]
  have sok: "stream_ok s"
    by (rule qsm_okD(2) [OF ok assms(2)])
  obtain m b where m: "ossl_quic_stream_map_update_state ?m i = Inr m" "lists_ok m" "qsm_map m = (qsm_map ?m)(i \<mapsto> stream_updated b s)"
    "same_env ?m m" "should_be_active ?m (limit_allows ?m s) (after_gc (after_acks s)) = Inr b"
    by (rule update_state_spec [OF l assms(2) sok])
  define a where "a = after_gc (after_acks s)"
  have aok: "stream_ok a"
    using stream_updated_ok(3) [OF sok] by (simp add: a_def)
  have id: "qs_id s = i" "qs_as_server s = qsm_is_server ?m"
    using lists_okD(1,2) [OF l assms(2)] by simp_all
  let ?acked = "qs_send_state s = QUIC_SSTREAM_STATE_DATA_SENT \<and> acked_send s"
  have f: "qs_recv_state a = qs_recv_state s" "qs_want_max_stream_data a = qs_want_max_stream_data s" "qs_rxfc a = qs_rxfc s"
    "qs_want_stop_sending a = qs_want_stop_sending s" "qs_want_reset_stream a = qs_want_reset_stream s" "qs_peer_stop_sending a = qs_peer_stop_sending s"
    "qs_txfc a = qs_txfc s" "qs_sstream a = (if ?acked then None else qs_sstream s)"
    by (simp_all add: a_def after_gc_def after_acks_def)
  have gc: "qs_ready_for_gc a \<longleftrightarrow> qs_ready_for_gc s \<or> qs_deleted s \<and> (qs_recv_state s = QUIC_RSTREAM_STATE_NONE \<or> qs_acked_stop_sending s)
      \<and> (qs_send_state s \<in> {QUIC_SSTREAM_STATE_NONE, QUIC_SSTREAM_STATE_DATA_RECVD, QUIC_SSTREAM_STATE_RESET_RECVD} \<or> ?acked)"
    by (auto simp: a_def after_gc_def after_acks_def qsm_ready_for_gc_def ossl_quic_stream_has_recv_def ossl_quic_stream_has_send_def)
  have acked: "acked_send s \<longleftrightarrow> (\<exists>q. qs_sstream s = Some q \<and> ossl_quic_sstream_is_totally_acked q)"
    by (auto simp: acked_send_def split: option.split)
  define limit where "limit = (let h = qsm_txfcs ?m; t = h (qs_txfc s) in tx_swm t
    + (case tx_parent t of None \<Rightarrow> tx_cwm t - tx_swm t | Some c \<Rightarrow> min (tx_cwm t - tx_swm t) (tx_cwm (h c) - tx_swm (h c))))"
  obtain d where d: "stream_has_data_to_send ?m a = Inr d"
    using has_data_total [OF aok] by blast
  have "d \<longleftrightarrow> (\<exists>q. qs_sstream a = Some q \<and> pending_within limit q)"
    using has_data_iff [OF aok d] unfolding credit_limit f(7) by (simp add: limit_def Let_def)
  then have data: "d \<longleftrightarrow> (\<exists>q. qs_sstream s = Some q \<and> \<not> (qs_send_state s = QUIC_SSTREAM_STATE_DATA_SENT \<and> ossl_quic_sstream_is_totally_acked q)
      \<and> pending_within limit q)"
    unfolding f(8) acked by (auto split: if_splits)
  have b: "b \<longleftrightarrow> limit_allows ?m s \<and> \<not> qs_ready_for_gc a
     \<and> (qs_recv_state s = QUIC_RSTREAM_STATE_RECV \<and> (qs_want_max_stream_data s \<or> has_cwm_changed (qsm_rxfcs ?m (qs_rxfc s)))
        \<or> qs_want_stop_sending s \<or> qs_want_reset_stream s \<or> \<not> qs_peer_stop_sending s \<and> d)"
    using m(5) d unfolding a_def [symmetric] should_be_active_def f
    by (auto simp: ossl_quic_stream_has_recv_def ossl_quic_stream_recv_is_reset_def ossl_quic_rxfc_has_cwm_changed_def f split: if_splits)
  have limits: "limit_allows ?m s \<longleftrightarrow> (ossl_quic_stream_is_local_init s \<longrightarrow>
      (\<forall>limit. get_stream_limit_cb ?m = Some limit \<longrightarrow> drop_bit 2 i < limit (\<not> ossl_quic_stream_is_bidi s)))"
    by (simp add: limit_allows_def ossl_quic_stream_is_local_init_def ossl_quic_stream_map_is_local_allowed_by_stream_limit_def id split: option.split)
  have "i \<in> set (active_list m) \<longleftrightarrow> b"
    using lists_okD(4) [OF m(2), of i] by (simp add: flagged_def m(3) stream_updated_def)
  then show ?thesis
    unfolding limit_def [symmetric] pending_within_def [symmetric]
    by (intro exI [of _ m] exI [of _ "stream_updated b s"] conjI m(1,3)) (simp add: b gc limits acked data)
qed

theorem stream_map_activates_exactly_witness:
  "\<exists>(ch :: quic_channel_streams) m. qsm_map (ch_qsm ch) 0 \<noteq> None \<and> ossl_quic_stream_map_update_state (ch_qsm ch) 0 = Inr m \<and> 0 \<in> set (active_list m)"
proof -
  obtain ch s where "chan_reach ch" "qsm_map (ch_qsm ch) = [0 \<mapsto> s]" "qs_want_reset_stream s" "qs_send_state s = QUIC_SSTREAM_STATE_RESET_SENT"
    "\<not> qs_deleted s" "\<not> qs_ready_for_gc s" "get_stream_limit_cb (ch_qsm ch) = None"
    by (rule example_reset)
  moreover from this stream_map_activates_exactly [of ch 0 s] obtain m where
    "ossl_quic_stream_map_update_state (ch_qsm ch) 0 = Inr m" "0 \<in> set (active_list m)"
    by auto
  ultimately show ?thesis
    by (intro exI [of _ ch] exI [of _ m]) simp
qed

text \<open>
  Property C32. A loop over the active streams with \<^verbatim>\<open>ossl_quic_stream_iter_init\<close> and \<^verbatim>\<open>ossl_quic_stream_iter_next\<close> ends after as many turns as there are active
  streams and sees each of them exactly once, in the order of the active list, beginning at the round-robin position.
\<close>

theorem stream_iter_visits_each_active_once:
  assumes "chan_reach ch"
  shows "\<exists>m it is. ossl_quic_stream_iter_init (ch_qsm ch) advance_rr = Inr (m, it) \<and> qsm_map m = qsm_map (ch_qsm ch)
    \<and> iter_run (length (active_list (ch_qsm ch))) m it = Inr is \<and> distinct is \<and> set is = {i. \<exists>s. qsm_map (ch_qsm ch) i = Some s \<and> qs_active s}
    \<and> (\<exists>n. is = rotate n (active_list (ch_qsm ch))) \<and> (\<forall>c. rr_cur (ch_qsm ch) = Some c \<longrightarrow> hd is = c)"
proof -
  let ?m = "ch_qsm ch"
  have l: "lists_ok ?m"
    using chan_reach_ok [OF assms] by (simp add: qsm_ok_def)
  note act = lists_okD(3,4) [OF l]
  obtain m where m: "ossl_quic_stream_iter_init ?m advance_rr = Inr (m, \<lparr>iter_first_stream = rr_cur ?m, iter_stream = rr_cur ?m\<rparr>)" "lists_ok m"
    "qsm_map m = qsm_map ?m" "active_list m = active_list ?m"
    by (rule iter_init_spec [OF l])
  show ?thesis
  proof (cases "rr_cur ?m")
    case None
    then have e: "active_list ?m = []"
      using l by (simp add: lists_ok_def)
    with m None act(2) show ?thesis
      by (intro exI [of _ m] exI [of _ "\<lparr>iter_first_stream = rr_cur ?m, iter_stream = rr_cur ?m\<rparr>"] exI [of _ "[]"]) (auto simp: flagged_def)
  next
    case (Some c)
    then have "c \<in> set (active_list ?m)"
      by (rule lists_okD(13) [OF l])
    then obtain as bs where split: "active_list ?m = as @ c # bs"
      by (auto simp: in_set_conv_decomp)
    let ?it = "\<lparr>iter_first_stream = rr_cur ?m, iter_stream = rr_cur ?m\<rparr>"
    have "iter_run (length (active_list ?m)) m ?it = Inr (c # bs @ as)"
      by (rule iter_around [of m as c bs "[]"]) (use m(4) act(1) split Some in simp_all)
    moreover have "c # bs @ as = rotate (length as) (active_list ?m)"
      by (simp add: split rotate_append)
    moreover have "distinct (c # bs @ as)" "set (c # bs @ as) = {i. \<exists>s. qsm_map ?m i = Some s \<and> qs_active s}"
      using act by (auto simp: split flagged_def)
    ultimately show ?thesis
      using m(1,3) Some by (intro exI [of _ m] exI [of _ ?it] exI [of _ "c # bs @ as"]) auto
  qed
qed

theorem stream_iter_visits_each_active_once_witness:
  "\<exists>(ch :: quic_channel_streams) m it. active_list (ch_qsm ch) = [0] \<and> ossl_quic_stream_iter_init (ch_qsm ch) True = Inr (m, it) \<and> iter_run 1 m it = Inr [0]"
proof -
  obtain ch s where ch: "chan_reach ch" "active_list (ch_qsm ch) = [0]"
    by (rule example_reset)
  from stream_iter_visits_each_active_once [OF ch(1), of True] obtain m it n where
    "ossl_quic_stream_iter_init (ch_qsm ch) True = Inr (m, it)" "iter_run 1 m it = Inr (rotate n [0])"
    unfolding ch(2) by auto
  moreover have "rotate n [0 :: u64] = [0]"
    by (metis length_0_conv length_rotate length_Suc_conv set_rotate empty_set list.set(2) singletonD list.set_intros(1))
  ultimately show ?thesis
    using ch(2) by (intro exI [of _ ch] exI [of _ m] exI [of _ it]) simp
qed

text \<open>
  The search of the accept queue ends: it finds the oldest stream of the kind asked for, and nothing exactly when there is none.
\<close>

theorem accept_queue_search_ends:
  assumes "chan_reach ch" and "length (accept_list (ch_qsm ch)) < 2 ^ 64"
  shows "ossl_quic_stream_map_find_in_accept_queue (ch_qsm ch) is_uni =
    Some (Inr (case filter (\<lambda>i. ossl_quic_stream_is_bidi (the (qsm_map (ch_qsm ch) i)) \<noteq> is_uni) (accept_list (ch_qsm ch)) of [] \<Rightarrow> None | i # _ \<Rightarrow> Some i))"
proof -
  let ?m = "ch_qsm ch" and ?l = "filter (accept_kind (ch_qsm ch) is_uni) (accept_list (ch_qsm ch))"
  have l: "lists_ok ?m"
    using chan_reach_ok [OF assms(1)] by (simp add: qsm_ok_def)
  have "length (accept_of_kind ?m b) < 2 ^ 64" for b
    using assms(2) order.strict_trans1 [OF length_filter_le] by (simp add: accept_of_kind_def)
  then have "(of_nat (length (accept_of_kind ?m b)) :: u64) = 0 \<longleftrightarrow> accept_of_kind ?m b = []" for b
    by (auto simp: word_of_nat_eq_0_iff dest: nat_dvd_not_less [rotated])
  then have "num_accept_bidi ?m = 0 \<longleftrightarrow> accept_of_kind ?m True = []" "num_accept_uni ?m = 0 \<longleftrightarrow> accept_of_kind ?m False = []"
    using l unfolding lists_ok_def by (elim conjE, simp only:)+
  moreover have "?l = accept_of_kind ?m (\<not> is_uni)"
    unfolding accept_of_kind_def by (rule filter_cong) auto
  ultimately have zero: "ossl_quic_stream_map_get_accept_queue_len ?m is_uni = 0 \<longleftrightarrow> ?l = []"
    by (simp add: ossl_quic_stream_map_get_accept_queue_len_def)
  show ?thesis
  proof (cases ?l)
    case Nil
    then show ?thesis
      using zero by (simp add: ossl_quic_stream_map_find_in_accept_queue_def)
  next
    case (Cons j js)
    then obtain i rest where q: "accept_list ?m = i # rest"
      by (cases "accept_list ?m") auto
    have "j \<in> set ?l"
      unfolding Cons by simp
    then have "find_accept_walk ?m is_uni (Some i) = Some (Inr (Some (hd (filter (accept_kind ?m is_uni) (i # rest)))))"
      by (intro accept_walk [of ?m "[]"]) (use l q in \<open>auto simp: lists_ok_def\<close>)
    moreover have "ossl_quic_stream_map_peek_accept_queue ?m = Some i"
      using q by (simp add: ossl_quic_stream_map_peek_accept_queue_def qsm_list_next_def)
    ultimately show ?thesis
      using zero Cons q by (simp add: ossl_quic_stream_map_find_in_accept_queue_def)
  qed
qed

theorem accept_queue_search_ends_witness: "ossl_quic_stream_map_find_in_accept_queue (ch_qsm example_channel) True = Some (Inr None)"
  using accept_queue_search_ends [OF example_channel_reach(1), of True] by (simp add: example_channel_def ossl_quic_stream_map_init_def)

text \<open>
  \<^verbatim>\<open>ossl_quic_stream_map_gc\<close> collects nothing: the condition of its loop compares the first stream with the first stream and is false at once, so
  the streams that are ready to be collected stay in the map and on the list.
\<close>

theorem stream_map_gc_collects_nothing: "ossl_quic_stream_map_gc m = Some (Inr m)"
  by (rule gc_nothing)

end
