(* ===== verification/Txpim.thy ===== *)
theory Txpim
  imports Ackm Cfq
begin

text \<open>
  \<^verbatim>\<open>ssl/quic/quic_txpim.c\<close>: what is in the packets that were sent. The packets live in a store under their address, since the acknowledgement
  manager's callbacks carry it; released packets wait in the free list. The list of control frames of a packet (\<^verbatim>\<open>retx_head\<close>, linked by \<^verbatim>\<open>pkt_next\<close>)
  is a list of the addresses of the items; the array of chunks is a list of its \<^verbatim>\<open>num_chunks\<close> entries in use. There is one dispatcher, so the pointer
  to it is left out.
\<close>

section \<open>Data\<close>

type_synonym txpim_addr = nat

record txpim_chunk =
  ch_stream_id :: u64
  ch_start :: u64
  ch_end :: u64
  ch_has_fin :: bool
  ch_has_stop_sending :: bool
  ch_has_reset_stream :: bool

record txpim_pkt =
  px_ackm_pkt :: ackm_tx_pkt
  px_retx :: "cfq_addr list"
  px_pkt_type :: u8
  had_handshake_done_frame :: bool
  had_max_data_frame :: bool
  had_max_streams_bidi_frame :: bool
  had_max_streams_uni_frame :: bool
  had_ack_frame :: bool
  had_conn_close :: bool
  px_chunks :: "txpim_chunk list"
  px_alloc_chunks :: u64
  px_need_sort :: bool

record quic_txpim =
  txpim_pkts :: "txpim_addr \<Rightarrow> txpim_pkt option"
  txpim_free_list :: "txpim_addr list"
  in_use :: u64

definition MAX_ALLOC_CHUNKS :: u64 where "MAX_ALLOC_CHUNKS = 512"

definition txpim_at :: "quic_txpim \<Rightarrow> txpim_addr \<Rightarrow> c_fault + txpim_pkt" where
  "txpim_at m p = (case txpim_pkts m p of None \<Rightarrow> Inl UseAfterFree | Some x \<Rightarrow> Inr x)"

definition txpim_put :: "quic_txpim \<Rightarrow> txpim_addr \<Rightarrow> txpim_pkt \<Rightarrow> quic_txpim" where
  "txpim_put m p x = m\<lparr>txpim_pkts := (txpim_pkts m)(p \<mapsto> x)\<rparr>"

section \<open>The pool\<close>

definition ossl_quic_txpim_new :: "bool \<Rightarrow> quic_txpim option" where
  "ossl_quic_txpim_new mem = (if mem then Some \<lparr>txpim_pkts = Map.empty, txpim_free_list = [], in_use = 0\<rparr> else None)"

definition txpim_free_list_free :: "quic_txpim \<Rightarrow> quic_txpim" where
  "txpim_free_list_free m = m\<lparr>txpim_pkts := (txpim_pkts m) |` (- set (txpim_free_list m)), txpim_free_list := []\<rparr>"

definition ossl_quic_txpim_free :: "quic_txpim \<Rightarrow> quic_txpim" where
  "ossl_quic_txpim_free m = txpim_free_list_free m"

definition txpim_list_remove :: "txpim_addr list \<Rightarrow> txpim_addr \<Rightarrow> txpim_addr list" where
  "txpim_list_remove l n = remove1 n l"

definition txpim_list_insert_tail :: "txpim_addr list \<Rightarrow> txpim_addr \<Rightarrow> txpim_addr list" where
  "txpim_list_insert_tail l n = l @ [n]"

text \<open>A packet record of zeros; \<^term>\<open>QUIC_PN_SPACE_INITIAL\<close> is zero.\<close>

definition zero_ackm_pkt :: ackm_tx_pkt where
  "zero_ackm_pkt = \<lparr>tp_pkt_num = 0, tp_num_bytes = 0, tp_time = ossl_time_zero, tp_largest_acked = 0, tp_pkt_space = QUIC_PN_SPACE_INITIAL,
     tp_is_inflight = False, tp_is_ack_eliciting = False, tp_is_pto_probe = False, tp_is_mtu_probe = False, tp_cb_arg = 0, tp_on_acked_frees = False\<rparr>"

definition zero_txpim_pkt :: txpim_pkt where
  "zero_txpim_pkt = \<lparr>px_ackm_pkt = zero_ackm_pkt, px_retx = [], px_pkt_type = 0, had_handshake_done_frame = False, had_max_data_frame = False,
     had_max_streams_bidi_frame = False, had_max_streams_uni_frame = False, had_ack_frame = False, had_conn_close = False,
     px_chunks = [], px_alloc_chunks = 0, px_need_sort = False\<rparr>"

definition txpim_get_free :: "txpim_addr option \<Rightarrow> quic_txpim \<Rightarrow> quic_txpim \<times> txpim_addr option" where
  "txpim_get_free alloc m =
     (case txpim_free_list m of
        ex # _ \<Rightarrow> (m, Some ex)
      | [] \<Rightarrow>
          (case alloc of
             None \<Rightarrow> (m, None)
           | Some ex \<Rightarrow> ((txpim_put m ex zero_txpim_pkt)\<lparr>txpim_free_list := txpim_list_insert_tail (txpim_free_list m) ex\<rparr>, Some ex)))"

definition ossl_quic_txpim_pkt_clear_chunks :: "txpim_pkt \<Rightarrow> txpim_pkt" where
  "ossl_quic_txpim_pkt_clear_chunks x = x\<lparr>px_chunks := []\<rparr>"

definition txpim_clear :: "txpim_pkt \<Rightarrow> txpim_pkt" where
  "txpim_clear x =
     (let x = ossl_quic_txpim_pkt_clear_chunks (x\<lparr>px_ackm_pkt := zero_ackm_pkt\<rparr>)
      in x\<lparr>px_retx := [], had_handshake_done_frame := False, had_max_data_frame := False, had_max_streams_bidi_frame := False,
           had_max_streams_uni_frame := False, had_ack_frame := False, had_conn_close := False\<rparr>)"

definition ossl_quic_txpim_pkt_alloc :: "txpim_addr option \<Rightarrow> quic_txpim \<Rightarrow> c_fault + (quic_txpim \<times> txpim_addr option)" where
  "ossl_quic_txpim_pkt_alloc alloc m =
     (case txpim_get_free alloc m of
        (m, None) \<Rightarrow> Inr (m, None)
      | (m, Some p) \<Rightarrow>
          res_bind (txpim_at m p) (\<lambda>x.
          let m = txpim_put m p (txpim_clear x);
              m = m\<lparr>txpim_free_list := txpim_list_remove (txpim_free_list m) p\<rparr>
          in Inr (m\<lparr>in_use := in_use m + 1\<rparr>, Some p)))"

definition ossl_quic_txpim_pkt_release :: "quic_txpim \<Rightarrow> txpim_addr \<Rightarrow> c_fault + quic_txpim" where
  "ossl_quic_txpim_pkt_release m p =
     res_bind (txpim_at m p) (\<lambda>_.
       Inr (m\<lparr>in_use := in_use m - 1, txpim_free_list := txpim_list_insert_tail (txpim_free_list m) p\<rparr>))"

definition ossl_quic_txpim_get_in_use :: "quic_txpim \<Rightarrow> u64" where
  "ossl_quic_txpim_get_in_use m = in_use m"

section \<open>Packets\<close>

definition ossl_quic_txpim_pkt_add_cfq_item :: "txpim_pkt \<Rightarrow> cfq_addr \<Rightarrow> txpim_pkt" where
  "ossl_quic_txpim_pkt_add_cfq_item x item = x\<lparr>px_retx := item # px_retx x\<rparr>"

text \<open>\<open>mem\<close>: \<^verbatim>\<open>OPENSSL_realloc\<close> has memory, when it is called.\<close>

definition ossl_quic_txpim_pkt_append_chunk :: "bool \<Rightarrow> txpim_pkt \<Rightarrow> txpim_chunk \<Rightarrow> txpim_pkt \<times> bool" where
  "ossl_quic_txpim_pkt_append_chunk mem x chunk =
     (let num = of_nat (length (px_chunks x));
          new_alloc = (if px_alloc_chunks x = 0 then 4 else px_alloc_chunks x * 8 div 5);
          new_alloc = (if new_alloc > MAX_ALLOC_CHUNKS then MAX_ALLOC_CHUNKS else new_alloc)
      in if num = px_alloc_chunks x \<and> num = new_alloc then (x, False)
         else if num = px_alloc_chunks x \<and> \<not> mem then (x, False)
         else
           let x = (if num = px_alloc_chunks x then x\<lparr>px_alloc_chunks := new_alloc\<rparr> else x)
           in (x\<lparr>px_chunks := px_chunks x @ [chunk], px_need_sort := True\<rparr>, True))"

definition txpim_compare :: "txpim_chunk \<Rightarrow> txpim_chunk \<Rightarrow> int" where
  "txpim_compare ac bc =
     (if ch_stream_id ac < ch_stream_id bc then - 1
      else if ch_stream_id ac > ch_stream_id bc then 1
      else if ch_start ac < ch_start bc then - 1
      else if ch_start ac > ch_start bc then 1
      else 0)"

text \<open>\<^verbatim>\<open>qsort\<close>, of which only the order of unequal chunks is specified: an insertion sort.\<close>

fun chunk_insort :: "txpim_chunk \<Rightarrow> txpim_chunk list \<Rightarrow> txpim_chunk list" where
  "chunk_insort c [] = [c]"
| "chunk_insort c (d # ds) = (if txpim_compare c d \<le> 0 then c # d # ds else d # chunk_insort c ds)"

definition ossl_quic_txpim_pkt_get_chunks :: "txpim_pkt \<Rightarrow> txpim_pkt \<times> txpim_chunk list" where
  "ossl_quic_txpim_pkt_get_chunks x =
     (let x = (if px_need_sort x then x\<lparr>px_chunks := foldr chunk_insort (px_chunks x) [], px_need_sort := False\<rparr> else x)
      in (x, px_chunks x))"

definition ossl_quic_txpim_pkt_get_num_chunks :: "txpim_pkt \<Rightarrow> u64" where
  "ossl_quic_txpim_pkt_get_num_chunks x = of_nat (length (px_chunks x))"

section \<open>The pool\<close>

text \<open>
  The packets handed out and not released are those of the store outside the free list. (The count is 64 bits wide, so the store is taken to be smaller.)
\<close>

definition txpim_live :: "quic_txpim \<Rightarrow> txpim_addr set" where
  "txpim_live m = dom (txpim_pkts m) - set (txpim_free_list m)"

definition pool_ok :: "quic_txpim \<Rightarrow> bool" where
  "pool_ok m \<longleftrightarrow> finite (dom (txpim_pkts m)) \<and> distinct (txpim_free_list m) \<and> set (txpim_free_list m) \<subseteq> dom (txpim_pkts m)
     \<and> in_use m = of_nat (card (txpim_live m))"

lemma pool_new: "ossl_quic_txpim_new True = Some m \<Longrightarrow> pool_ok m \<and> txpim_live m = {} \<and> txpim_pkts m = Map.empty"
  by (auto simp: ossl_quic_txpim_new_def pool_ok_def txpim_live_def)

lemma pool_put:
  assumes "pool_ok m" and "p \<in> dom (txpim_pkts m)"
  shows "pool_ok (txpim_put m p x)" and "txpim_live (txpim_put m p x) = txpim_live m"
  using assms by (auto simp: pool_ok_def txpim_live_def txpim_put_def insert_absorb)

lemma pool_alloc:
  assumes ok: "pool_ok m" and fresh: "\<forall>a. alloc = Some a \<longrightarrow> a \<notin> dom (txpim_pkts m)"
  obtains (got) m' p x where "ossl_quic_txpim_pkt_alloc alloc m = Inr (m', Some p)" "pool_ok m'" "p \<notin> txpim_live m" "txpim_live m' = insert p (txpim_live m)"
      "txpim_pkts m' = (txpim_pkts m)(p \<mapsto> x)" "px_chunks x = []" "px_retx x = []" "txpim_free_list m = p # txpim_free_list m' \<or> txpim_free_list m = []"
  | (failed) "ossl_quic_txpim_pkt_alloc alloc m = Inr (m, None)" "alloc = None"
proof (cases "txpim_free_list m")
  case (Cons p f)
  then obtain x where x: "txpim_pkts m p = Some x"
    using ok by (auto simp: pool_ok_def)
  let ?m = "(txpim_put m p (txpim_clear x))\<lparr>txpim_free_list := f, in_use := in_use m + 1\<rparr>"
  have live: "p \<notin> txpim_live m" "txpim_live ?m = insert p (txpim_live m)"
    using ok Cons x by (auto simp: txpim_live_def txpim_put_def pool_ok_def)
  have fin: "finite (txpim_live m)"
    using ok by (simp add: pool_ok_def txpim_live_def)
  have "ossl_quic_txpim_pkt_alloc alloc m = Inr (?m, Some p)"
    using Cons x by (simp add: ossl_quic_txpim_pkt_alloc_def txpim_get_free_def txpim_at_def txpim_list_remove_def Let_def txpim_put_def)
  moreover have "pool_ok ?m"
    unfolding pool_ok_def live using ok Cons x live(1) fin by (auto simp: pool_ok_def txpim_put_def)
  ultimately show ?thesis
    using live Cons by (intro got [of ?m p "txpim_clear x"])
      (auto simp: txpim_put_def txpim_clear_def ossl_quic_txpim_pkt_clear_chunks_def Let_def)
next
  case Nil
  show ?thesis
  proof (cases alloc)
    case None
    with Nil show ?thesis
      by (intro failed) (simp_all add: ossl_quic_txpim_pkt_alloc_def txpim_get_free_def)
  next
    case (Some p)
    then have p: "p \<notin> dom (txpim_pkts m)"
      using fresh by blast
    let ?m = "(txpim_put (txpim_put m p zero_txpim_pkt) p (txpim_clear zero_txpim_pkt))\<lparr>txpim_free_list := [], in_use := in_use m + 1\<rparr>"
    have live: "p \<notin> txpim_live m" "txpim_live ?m = insert p (txpim_live m)"
      using p Nil by (auto simp: txpim_live_def txpim_put_def)
    have fin: "finite (txpim_live m)"
      using ok by (simp add: pool_ok_def txpim_live_def)
    have "ossl_quic_txpim_pkt_alloc alloc m = Inr (?m, Some p)"
      using Nil Some by (simp add: ossl_quic_txpim_pkt_alloc_def txpim_get_free_def txpim_at_def txpim_list_remove_def txpim_list_insert_tail_def Let_def txpim_put_def)
    moreover have "pool_ok ?m"
      unfolding pool_ok_def live using ok Nil live(1) fin by (auto simp: pool_ok_def txpim_put_def)
    ultimately show ?thesis
      using live Nil by (intro got [of ?m p "txpim_clear zero_txpim_pkt"])
        (auto simp: txpim_put_def txpim_clear_def ossl_quic_txpim_pkt_clear_chunks_def Let_def zero_txpim_pkt_def)
  qed
qed

lemma pool_release:
  assumes ok: "pool_ok m" and p: "p \<in> txpim_live m"
  obtains m' where "ossl_quic_txpim_pkt_release m p = Inr m'" "pool_ok m'" "txpim_live m' = txpim_live m - {p}" "txpim_pkts m' = txpim_pkts m"
proof -
  define m' where "m' = m\<lparr>in_use := in_use m - 1, txpim_free_list := txpim_free_list m @ [p]\<rparr>"
  have m': "in_use m' = in_use m - 1" "txpim_free_list m' = txpim_free_list m @ [p]" "txpim_pkts m' = txpim_pkts m"
    by (simp_all add: m'_def)
  have live: "txpim_live m' = txpim_live m - {p}" and fin: "finite (txpim_live m)"
    using ok by (auto simp: txpim_live_def pool_ok_def m')
  have "card (txpim_live m) = Suc (card (txpim_live m - {p}))"
    using card_Suc_Diff1 [OF fin p] by (rule sym)
  then have "(of_nat (card (txpim_live m)) :: u64) - 1 = of_nat (card (txpim_live m - {p}))"
    by (simp only: of_nat_Suc add_diff_cancel_left')
  moreover have "in_use m = of_nat (card (txpim_live m))"
    using ok by (simp add: pool_ok_def)
  ultimately have "in_use m' = of_nat (card (txpim_live m'))"
    by (simp only: live m')
  moreover have "finite (dom (txpim_pkts m))" "distinct (txpim_free_list m @ [p])" "set (txpim_free_list m @ [p]) \<subseteq> dom (txpim_pkts m)"
    using ok p by (auto simp: pool_ok_def txpim_live_def)
  ultimately have "pool_ok m'"
    unfolding pool_ok_def m' by blast
  moreover have "ossl_quic_txpim_pkt_release m p = Inr m'"
    using p by (auto simp: ossl_quic_txpim_pkt_release_def txpim_at_def txpim_list_insert_tail_def txpim_live_def m'_def)
  ultimately show ?thesis
    using live m'(3) that by blast
qed

section \<open>Chunks\<close>

lemma chunk_insort_mset: "mset (chunk_insort c ds) = add_mset c (mset ds)"
  by (induction ds) auto

lemma chunk_sort_mset: "mset (foldr chunk_insort cs []) = mset cs"
  by (induction cs) (simp_all add: chunk_insort_mset)

lemma txpim_compare_le: "txpim_compare a b \<le> 0 \<longleftrightarrow> ch_stream_id a < ch_stream_id b \<or> ch_stream_id a = ch_stream_id b \<and> ch_start a \<le> ch_start b"
  by (auto simp: txpim_compare_def)

lemma chunk_insort_sorted:
  "sorted_wrt (\<lambda>a b. txpim_compare a b \<le> 0) ds \<Longrightarrow> sorted_wrt (\<lambda>a b. txpim_compare a b \<le> 0) (chunk_insort c ds)"
proof (induction ds)
  case (Cons d ds)
  have "set (chunk_insort c ds) = insert c (set ds)"
    using chunk_insort_mset [of c ds] by (metis set_mset_mset set_mset_add_mset_insert)
  with Cons show ?case
    by (auto simp: txpim_compare_le)
qed simp

lemma get_chunks_spec:
  assumes "ossl_quic_txpim_pkt_get_chunks x = (x', chunks)"
  shows "mset chunks = mset (px_chunks x)" and "x' = x\<lparr>px_chunks := chunks, px_need_sort := False\<rparr>"
  using assms by (auto simp: ossl_quic_txpim_pkt_get_chunks_def Let_def chunk_sort_mset split: if_splits)

text \<open>Every array of chunks is sorted unless it is marked for sorting.\<close>

definition chunks_ok :: "txpim_pkt \<Rightarrow> bool" where
  "chunks_ok x \<longleftrightarrow> length (px_chunks x) \<le> unat (px_alloc_chunks x) \<and> unat (px_alloc_chunks x) \<le> 512
     \<and> (px_alloc_chunks x = 0 \<or> 4 \<le> unat (px_alloc_chunks x)) \<and> (\<not> px_need_sort x \<longrightarrow> sorted_wrt (\<lambda>a b. txpim_compare a b \<le> 0) (px_chunks x))"

lemma next_capacity:
  fixes n :: u64
  assumes "unat n \<le> 512"
  defines "n' \<equiv> (if (if n = 0 then 4 else n * 8 div 5) > MAX_ALLOC_CHUNKS then MAX_ALLOC_CHUNKS else (if n = 0 then 4 else n * 8 div 5))"
  shows "unat n' = (if n = 0 then 4 else min 512 (unat n * 8 div 5))"
proof -
  have "unat (n * 8) = unat n * 8"
    using assms(1) by (simp add: unat_mult_no_overflow)
  then have d: "unat (n * 8 div 5) = unat n * 8 div 5"
    by (simp add: unat_div)
  show ?thesis
    unfolding n'_def using d by (auto simp: MAX_ALLOC_CHUNKS_def word_less_nat_alt)
qed

lemma append_chunk_spec:
  assumes ok: "chunks_ok x"
  obtains x' where "ossl_quic_txpim_pkt_append_chunk mem x c = (x', True)" "chunks_ok x'" "px_chunks x' = px_chunks x @ [c]"
      "length (px_chunks x) < 512" "length (px_chunks x) = unat (px_alloc_chunks x) \<longrightarrow> mem"
  | "ossl_quic_txpim_pkt_append_chunk mem x c = (x, False)" "length (px_chunks x) = 512 \<or> length (px_chunks x) = unat (px_alloc_chunks x) \<and> \<not> mem"
proof -
  define n where "n = px_alloc_chunks x"
  define n' where "n' = (if (if n = 0 then 4 else n * 8 div 5) > MAX_ALLOC_CHUNKS then MAX_ALLOC_CHUNKS else (if n = 0 then 4 else n * 8 div 5))"
  have len: "length (px_chunks x) \<le> unat n" "unat n \<le> 512"
    using ok by (simp_all add: chunks_ok_def n_def)
  have n': "unat n' = (if n = 0 then 4 else min 512 (unat n * 8 div 5))"
    unfolding n'_def using next_capacity [OF len(2)] by simp
  have eq: "(of_nat (length (px_chunks x)) :: u64) = m \<longleftrightarrow> length (px_chunks x) = unat m" for m :: u64
    using len by (auto simp: word_unat_eq_iff unat_of_nat)
  have "n = 0 \<or> 4 \<le> unat n"
    using ok by (simp add: chunks_ok_def n_def)
  then have grows: "unat n < unat n' \<or> unat n = 512" "4 \<le> unat n'"
    unfolding n' using len(2) by auto
  have unfold: "ossl_quic_txpim_pkt_append_chunk mem x c =
     (if length (px_chunks x) = unat n \<and> length (px_chunks x) = unat n' then (x, False)
      else if length (px_chunks x) = unat n \<and> \<not> mem then (x, False)
      else ((if length (px_chunks x) = unat n then x\<lparr>px_alloc_chunks := n'\<rparr> else x)\<lparr>px_chunks := px_chunks x @ [c], px_need_sort := True\<rparr>, True))"
    unfolding ossl_quic_txpim_pkt_append_chunk_def Let_def n_def [symmetric] n'_def [symmetric] eq by simp
  consider (refused) "length (px_chunks x) = unat n" "unat n = 512 \<or> \<not> mem" | (grown) "length (px_chunks x) = unat n" "unat n < 512" mem
    | (room) "length (px_chunks x) < unat n"
    using len by linarith
  then show ?thesis
  proof cases
    case refused
    then show ?thesis
      using n' by (intro that(2)) (auto simp: unfold n_def)
  next
    case grown
    with grows(1) have "length (px_chunks x) < unat n'"
      by simp
    moreover have "unat n' \<le> 512"
      unfolding n' by simp
    moreover have "ossl_quic_txpim_pkt_append_chunk mem x c = (x\<lparr>px_alloc_chunks := n', px_chunks := px_chunks x @ [c], px_need_sort := True\<rparr>, True)"
      unfolding unfold using grown grows by simp
    ultimately show ?thesis
      using grown grows(2) by (intro that(1) [of "x\<lparr>px_alloc_chunks := n', px_chunks := px_chunks x @ [c], px_need_sort := True\<rparr>"])
        (simp_all add: chunks_ok_def)
  next
    case room
    then have "ossl_quic_txpim_pkt_append_chunk mem x c = (x\<lparr>px_chunks := px_chunks x @ [c], px_need_sort := True\<rparr>, True)"
      by (simp add: unfold)
    moreover have "chunks_ok (x\<lparr>px_chunks := px_chunks x @ [c], px_need_sort := True\<rparr>)"
      using ok room unfolding chunks_ok_def n_def by simp
    moreover have "length (px_chunks x) < 512" "length (px_chunks x) \<noteq> unat (px_alloc_chunks x)"
      using room len(2) by (simp_all add: n_def)
    ultimately show ?thesis
      by (intro that(1) [of "x\<lparr>px_chunks := px_chunks x @ [c], px_need_sort := True\<rparr>"]) simp_all
  qed
qed

section \<open>The chunks of a packet\<close>

text \<open>What the packetiser and the dispatcher do to the chunks of a packet; \<open>cs\<close>: the chunks appended since the packet was handed out.\<close>

inductive txpim_built :: "txpim_pkt \<Rightarrow> txpim_chunk list \<Rightarrow> bool" where
  built_new: "txpim_built (txpim_clear zero_txpim_pkt) []"
| built_append: "txpim_built x cs \<Longrightarrow> ossl_quic_txpim_pkt_append_chunk mem x c = (x', True) \<Longrightarrow> txpim_built x' (cs @ [c])"
| built_refused: "txpim_built x cs \<Longrightarrow> ossl_quic_txpim_pkt_append_chunk mem x c = (x', False) \<Longrightarrow> txpim_built x' cs"
| built_read: "txpim_built x cs \<Longrightarrow> ossl_quic_txpim_pkt_get_chunks x = (x', ds) \<Longrightarrow> txpim_built x' cs"
| built_reused: "txpim_built x cs \<Longrightarrow> txpim_built (txpim_clear x) []"
| built_frame: "txpim_built x cs \<Longrightarrow> txpim_built (ossl_quic_txpim_pkt_add_cfq_item x item) cs"

lemma chunk_sort_sorted: "sorted_wrt (\<lambda>a b. txpim_compare a b \<le> 0) (foldr chunk_insort cs [])"
  by (induction cs) (simp_all add: chunk_insort_sorted)

lemma get_chunks_sorted:
  assumes "chunks_ok x" and "ossl_quic_txpim_pkt_get_chunks x = (x', ds)"
  shows "chunks_ok x'" and "sorted_wrt (\<lambda>a b. txpim_compare a b \<le> 0) ds"
proof -
  have "length ds = length (px_chunks x)"
    using get_chunks_spec(1) [OF assms(2)] by (metis size_mset)
  moreover show "sorted_wrt (\<lambda>a b. txpim_compare a b \<le> 0) ds"
    using assms by (auto simp: ossl_quic_txpim_pkt_get_chunks_def Let_def chunks_ok_def chunk_sort_sorted split: if_splits)
  ultimately show "chunks_ok x'"
    using assms(1) get_chunks_spec(2) [OF assms(2)] by (simp add: chunks_ok_def)
qed

lemma built_ok: "txpim_built x cs \<Longrightarrow> chunks_ok x \<and> mset (px_chunks x) = mset cs"
proof (induction rule: txpim_built.induct)
  case (built_append x cs mem c x')
  show ?case
    by (rule append_chunk_spec [of x mem c]) (use built_append in auto)
next
  case (built_refused x cs mem c x')
  show ?case
    by (rule append_chunk_spec [of x mem c]) (use built_refused in auto)
next
  case (built_read x cs x' ds)
  then show ?case
    using get_chunks_sorted(1) [of x x' ds] get_chunks_spec [OF built_read.hyps(2)] by simp
qed (auto simp: chunks_ok_def txpim_clear_def ossl_quic_txpim_pkt_clear_chunks_def zero_txpim_pkt_def ossl_quic_txpim_pkt_add_cfq_item_def)

text \<open>
  Property C33. A packet of the pool gives its chunks back: however often they were read or refused in between, reading them returns exactly the chunks appended since the
  packet was handed out, sorted by stream id and then by first byte; there are at most 512 of them, and while there is memory an append succeeds exactly until then.
\<close>

theorem txpim_keeps_chunks_sorted:
  assumes "txpim_built x cs"
  shows "mset (snd (ossl_quic_txpim_pkt_get_chunks x)) = mset cs
    \<and> sorted_wrt (\<lambda>a b. ch_stream_id a < ch_stream_id b \<or> ch_stream_id a = ch_stream_id b \<and> ch_start a \<le> ch_start b) (snd (ossl_quic_txpim_pkt_get_chunks x))
    \<and> length cs \<le> 512 \<and> ossl_quic_txpim_pkt_get_num_chunks x = of_nat (length cs)
    \<and> (snd (ossl_quic_txpim_pkt_append_chunk True x c) \<longleftrightarrow> length cs < 512)"
proof -
  from built_ok [OF assms] have ok: "chunks_ok x" and m: "mset (px_chunks x) = mset cs"
    by simp_all
  obtain x' ds where g: "ossl_quic_txpim_pkt_get_chunks x = (x', ds)"
    by fastforce
  have len: "length (px_chunks x) = length cs"
    using m by (metis size_mset)
  have "snd (ossl_quic_txpim_pkt_append_chunk True x c) \<longleftrightarrow> length cs < 512"
    by (rule append_chunk_spec [OF ok, of True c]) (use len in auto)
  moreover have "length cs \<le> 512"
    using ok len by (auto simp: chunks_ok_def)
  ultimately show ?thesis
    using get_chunks_spec(1) [OF g] get_chunks_sorted(2) [OF ok g] m len
    unfolding g txpim_compare_le by (simp add: ossl_quic_txpim_pkt_get_num_chunks_def)
qed

theorem txpim_keeps_chunks_sorted_witness:
  "map ch_stream_id (snd (ossl_quic_txpim_pkt_get_chunks
     (fst (ossl_quic_txpim_pkt_append_chunk True (fst (ossl_quic_txpim_pkt_append_chunk True (txpim_clear zero_txpim_pkt)
       \<lparr>ch_stream_id = 4, ch_start = 0, ch_end = 9, ch_has_fin = False, ch_has_stop_sending = False, ch_has_reset_stream = False\<rparr>))
       \<lparr>ch_stream_id = 0, ch_start = 3, ch_end = 5, ch_has_fin = True, ch_has_stop_sending = False, ch_has_reset_stream = False\<rparr>)))) = [0, 4]
   \<and> (\<exists>x cs. length (cs :: txpim_chunk list) = 2 \<and> ossl_quic_txpim_pkt_get_num_chunks x = of_nat (length cs))"
proof -
  define c1 c2 where c: "c1 = \<lparr>ch_stream_id = 4, ch_start = 0, ch_end = 9, ch_has_fin = False, ch_has_stop_sending = False, ch_has_reset_stream = False\<rparr>"
    "c2 = \<lparr>ch_stream_id = 0, ch_start = 3, ch_end = 5, ch_has_fin = True, ch_has_stop_sending = False, ch_has_reset_stream = False\<rparr>"
  obtain x1 where x1: "ossl_quic_txpim_pkt_append_chunk True (txpim_clear zero_txpim_pkt) c1 = (x1, True)"
    by (simp add: ossl_quic_txpim_pkt_append_chunk_def txpim_clear_def ossl_quic_txpim_pkt_clear_chunks_def zero_txpim_pkt_def MAX_ALLOC_CHUNKS_def)
  note b1 = built_append [OF built_new x1]
  from txpim_keeps_chunks_sorted [OF b1, of c2] obtain x2 where x2: "ossl_quic_txpim_pkt_append_chunk True x1 c2 = (x2, True)"
    by (cases "ossl_quic_txpim_pkt_append_chunk True x1 c2") auto
  note s = txpim_keeps_chunks_sorted [OF built_append [OF b1 x2], of c1]
  obtain a b where ab: "snd (ossl_quic_txpim_pkt_get_chunks x2) = [a, b]"
    using s by (metis (no_types) append_Cons append_Nil length_0_conv length_Suc_conv size_mset)
  with s have "{#a, b#} = {#c1, c2#}"
    by simp
  then have "a = c1 \<and> b = c2 \<or> a = c2 \<and> b = c1"
    by (auto simp: add_eq_conv_ex)
  with s ab have "a = c2 \<and> b = c1"
    by (auto simp: c)
  with ab s x1 x2 show ?thesis
    by (auto simp: c intro!: exI [of _ x2] exI [of _ "[c1, c2]"])
qed

end
