(* ===== verification/Fifd.thy ===== *)
theory Fifd
  imports Ackm_Run Txpim Sstream
begin

text \<open>
  \<^verbatim>\<open>ssl/quic/quic_fifd.c\<close>: the frame-in-flight dispatcher. It tells the send streams and the control frame queue what became of the packets that
  carried their data. The rest of the connection is a world \<open>'w\<close> that the dispatcher reaches through its callbacks (\<open>fifd_callbacks\<close>): a send stream is
  read through \<open>get_sstream_by_id\<close> and written back by \<open>put_sstream\<close>, which is what writing through the pointer does. Logging (qlog) is not modelled.
\<close>

section \<open>Data\<close>

record 'w fifd_callbacks =
  cb_get_sstream_by_id :: "u64 \<Rightarrow> pn_space \<Rightarrow> 'w \<Rightarrow> quic_sstream option"
  cb_put_sstream :: "u64 \<Rightarrow> pn_space \<Rightarrow> quic_sstream \<Rightarrow> 'w \<Rightarrow> 'w"
  cb_regen_frame :: "u64 \<Rightarrow> u64 \<Rightarrow> txpim_pkt \<Rightarrow> 'w \<Rightarrow> c_fault + 'w"
  cb_confirm_frame :: "u64 \<Rightarrow> u64 \<Rightarrow> txpim_pkt \<Rightarrow> 'w \<Rightarrow> c_fault + 'w"
  cb_sstream_updated :: "u64 \<Rightarrow> 'w \<Rightarrow> c_fault + 'w"

record ('cc, 'w) quic_fifd =
  fd_cfq :: quic_cfq
  fd_ackm :: "'cc ackm"
  fd_txpim :: quic_txpim
  fd_world :: 'w

text \<open>The stream id that stands for the crypto stream of a packet number space, and for "no stream".\<close>

abbreviation UINT64_MAX :: u64 where "UINT64_MAX \<equiv> - 1"

section \<open>Acknowledged packets\<close>

text \<open>
  \<open>sstream_do\<close>: an operation on a stream through its pointer, which is gone when a callback freed the stream meanwhile. \<open>mem\<close>: memory for the
  operations on the integer sets of the chunk.
\<close>

definition sstream_do :: "'w fifd_callbacks \<Rightarrow> u64 \<Rightarrow> pn_space \<Rightarrow> (quic_sstream \<Rightarrow> c_fault + (quic_sstream \<times> bool)) \<Rightarrow> 'w \<Rightarrow> c_fault + ('w \<times> bool)" where
  "sstream_do cb sid sp f w =
     (case cb_get_sstream_by_id cb sid sp w of
        None \<Rightarrow> Inl UseAfterFree
      | Some q \<Rightarrow> res_bind (f q) (\<lambda>(q, ok). Inr (cb_put_sstream cb sid sp q w, ok)))"

definition acked_chunk :: "'w fifd_callbacks \<Rightarrow> bool \<Rightarrow> txpim_pkt \<Rightarrow> 'w \<Rightarrow> txpim_chunk \<Rightarrow> c_fault + 'w" where
  "acked_chunk cb mem pkt w c =
     (let sid = ch_stream_id c; sp = tp_pkt_space (px_ackm_pkt pkt) in
      case cb_get_sstream_by_id cb sid sp w of
        None \<Rightarrow> Inr w
      | Some _ \<Rightarrow>
          res_bind (if ch_end c \<ge> ch_start c
                    then sstream_do cb sid sp (\<lambda>q. ossl_quic_sstream_mark_acked mem q (ch_start c) (ch_end c)) w
                    else Inr (w, True)) (\<lambda>(w, _).
          res_bind (if ch_has_fin c \<and> sid \<noteq> UINT64_MAX then sstream_do cb sid sp (\<lambda>q. Inr (ossl_quic_sstream_mark_acked_fin q)) w
                    else Inr (w, True)) (\<lambda>(w, _).
          res_bind (if ch_has_stop_sending c \<and> sid \<noteq> UINT64_MAX
                    then cb_confirm_frame cb OSSL_QUIC_FRAME_TYPE_STOP_SENDING sid pkt w else Inr w) (\<lambda>w.
          res_bind (if ch_has_reset_stream c \<and> sid \<noteq> UINT64_MAX
                    then cb_confirm_frame cb OSSL_QUIC_FRAME_TYPE_RESET_STREAM sid pkt w else Inr w) (\<lambda>w.
          res_bind (sstream_do cb sid sp (\<lambda>q. Inr (q, ossl_quic_sstream_is_totally_acked q)) w) (\<lambda>(w, totally_acked).
          if totally_acked then cb_sstream_updated cb sid w else Inr w))))))"

fun acked_chunks :: "'w fifd_callbacks \<Rightarrow> bool list \<Rightarrow> txpim_pkt \<Rightarrow> 'w \<Rightarrow> txpim_chunk list \<Rightarrow> c_fault + 'w" where
  "acked_chunks cb mem pkt w [] = Inr w"
| "acked_chunks cb mem pkt w (c # cs) =
     res_bind (acked_chunk cb (mem = [] \<or> hd mem) pkt w c) (\<lambda>w. acked_chunks cb (tl mem) pkt w cs)"

text \<open>\<open>cfq_items\<close>: the list of control frames of the packet; the next item is read before the item is released.\<close>

fun release_items :: "quic_cfq \<Rightarrow> cfq_addr list \<Rightarrow> c_fault + quic_cfq" where
  "release_items q [] = Inr q"
| "release_items q (p # ps) = res_bind (ossl_quic_cfq_release q p) (\<lambda>q. release_items q ps)"

definition fetch_chunks :: "quic_txpim \<Rightarrow> txpim_addr \<Rightarrow> c_fault + (quic_txpim \<times> txpim_pkt \<times> txpim_chunk list)" where
  "fetch_chunks m p = res_bind (txpim_at m p) (\<lambda>x. let (x, chunks) = ossl_quic_txpim_pkt_get_chunks x in Inr (txpim_put m p x, x, chunks))"

definition on_acked :: "'w fifd_callbacks \<Rightarrow> bool list \<Rightarrow> ('cc, 'w) quic_fifd \<Rightarrow> txpim_addr \<Rightarrow> c_fault + ('cc, 'w) quic_fifd" where
  "on_acked cb mem fd p =
     res_bind (fetch_chunks (fd_txpim fd) p) (\<lambda>(m, pkt, chunks).
     res_bind (acked_chunks cb mem pkt (fd_world fd) chunks) (\<lambda>w.
     res_bind (release_items (fd_cfq fd) (px_retx pkt)) (\<lambda>q.
     res_bind (ossl_quic_txpim_pkt_release m p) (\<lambda>m.
     Inr (fd\<lparr>fd_cfq := q, fd_txpim := m, fd_world := w\<rparr>)))))"

section \<open>Lost packets\<close>

definition lost_chunk :: "'w fifd_callbacks \<Rightarrow> bool \<Rightarrow> txpim_pkt \<Rightarrow> 'w \<Rightarrow> txpim_chunk \<Rightarrow> c_fault + 'w" where
  "lost_chunk cb mem pkt w c =
     (let sid = ch_stream_id c; sp = tp_pkt_space (px_ackm_pkt pkt) in
      case cb_get_sstream_by_id cb sid sp w of
        None \<Rightarrow> Inr w
      | Some _ \<Rightarrow>
          res_bind (if ch_end c \<ge> ch_start c
                    then sstream_do cb sid sp (\<lambda>q. Inr (ossl_quic_sstream_mark_lost mem q (ch_start c) (ch_end c))) w
                    else Inr (w, True)) (\<lambda>(w, _).
          res_bind (if ch_has_fin c \<and> sid \<noteq> UINT64_MAX then sstream_do cb sid sp (\<lambda>q. Inr (ossl_quic_sstream_mark_lost_fin q)) w
                    else Inr (w, True)) (\<lambda>(w, _).
          let sstream_updated = (ch_end c \<ge> ch_start c \<or> ch_has_fin c \<and> sid \<noteq> UINT64_MAX) in
          res_bind (if ch_has_stop_sending c \<and> sid \<noteq> UINT64_MAX
                    then cb_regen_frame cb OSSL_QUIC_FRAME_TYPE_STOP_SENDING sid pkt w else Inr w) (\<lambda>w.
          res_bind (if ch_has_reset_stream c \<and> sid \<noteq> UINT64_MAX
                    then cb_regen_frame cb OSSL_QUIC_FRAME_TYPE_RESET_STREAM sid pkt w else Inr w) (\<lambda>w.
          res_bind (cb_regen_frame cb OSSL_QUIC_FRAME_TYPE_MAX_STREAM_DATA sid pkt w) (\<lambda>w.
          if sstream_updated \<and> sid \<noteq> UINT64_MAX then cb_sstream_updated cb sid w else Inr w))))))"

fun lost_chunks :: "'w fifd_callbacks \<Rightarrow> bool list \<Rightarrow> txpim_pkt \<Rightarrow> 'w \<Rightarrow> txpim_chunk list \<Rightarrow> c_fault + 'w" where
  "lost_chunks cb mem pkt w [] = Inr w"
| "lost_chunks cb mem pkt w (c # cs) =
     res_bind (lost_chunk cb (mem = [] \<or> hd mem) pkt w c) (\<lambda>w. lost_chunks cb (tl mem) pkt w cs)"

fun lost_items :: "quic_cfq \<Rightarrow> cfq_addr list \<Rightarrow> c_fault + quic_cfq" where
  "lost_items q [] = Inr q"
| "lost_items q (p # ps) = res_bind (ossl_quic_cfq_mark_lost q p UINT32_MAX) (\<lambda>q. lost_items q ps)"

definition regen_if :: "'w fifd_callbacks \<Rightarrow> bool \<Rightarrow> u64 \<Rightarrow> txpim_pkt \<Rightarrow> 'w \<Rightarrow> c_fault + 'w" where
  "regen_if cb b t pkt w = (if b then cb_regen_frame cb t UINT64_MAX pkt w else Inr w)"

definition on_lost :: "'w fifd_callbacks \<Rightarrow> bool list \<Rightarrow> ('cc, 'w) quic_fifd \<Rightarrow> txpim_addr \<Rightarrow> c_fault + ('cc, 'w) quic_fifd" where
  "on_lost cb mem fd p =
     res_bind (fetch_chunks (fd_txpim fd) p) (\<lambda>(m, pkt, chunks).
     res_bind (lost_chunks cb mem pkt (fd_world fd) chunks) (\<lambda>w.
     res_bind (lost_items (fd_cfq fd) (px_retx pkt)) (\<lambda>q.
     res_bind (regen_if cb (had_handshake_done_frame pkt) OSSL_QUIC_FRAME_TYPE_HANDSHAKE_DONE pkt w) (\<lambda>w.
     res_bind (regen_if cb (had_max_data_frame pkt) OSSL_QUIC_FRAME_TYPE_MAX_DATA pkt w) (\<lambda>w.
     res_bind (regen_if cb (had_max_streams_bidi_frame pkt) OSSL_QUIC_FRAME_TYPE_MAX_STREAMS_BIDI pkt w) (\<lambda>w.
     res_bind (regen_if cb (had_max_streams_uni_frame pkt) OSSL_QUIC_FRAME_TYPE_MAX_STREAMS_UNI pkt w) (\<lambda>w.
     res_bind (regen_if cb (had_ack_frame pkt) OSSL_QUIC_FRAME_TYPE_ACK_WITH_ECN pkt w) (\<lambda>w.
     res_bind (ossl_quic_txpim_pkt_release m p) (\<lambda>m.
     Inr (fd\<lparr>fd_cfq := q, fd_txpim := m, fd_world := w\<rparr>))))))))))"

section \<open>Discarded packets\<close>

definition on_discarded :: "('cc, 'w) quic_fifd \<Rightarrow> txpim_addr \<Rightarrow> c_fault + ('cc, 'w) quic_fifd" where
  "on_discarded fd p =
     res_bind (txpim_at (fd_txpim fd) p) (\<lambda>pkt.
     res_bind (release_items (fd_cfq fd) (px_retx pkt)) (\<lambda>q.
     res_bind (ossl_quic_txpim_pkt_release (fd_txpim fd) p) (\<lambda>m.
     Inr (fd\<lparr>fd_cfq := q, fd_txpim := m\<rparr>))))"

section \<open>Packets that are sent\<close>

fun mark_tx_items :: "quic_cfq \<Rightarrow> cfq_addr list \<Rightarrow> c_fault + quic_cfq" where
  "mark_tx_items q [] = Inr q"
| "mark_tx_items q (p # ps) = res_bind (ossl_quic_cfq_mark_tx q p) (\<lambda>q. mark_tx_items q ps)"

definition sent_chunk :: "'w fifd_callbacks \<Rightarrow> bool \<Rightarrow> txpim_pkt \<Rightarrow> 'w \<Rightarrow> txpim_chunk \<Rightarrow> c_fault + ('w \<times> bool)" where
  "sent_chunk cb mem pkt w c =
     (let sid = ch_stream_id c; sp = tp_pkt_space (px_ackm_pkt pkt) in
      case cb_get_sstream_by_id cb sid sp w of
        None \<Rightarrow> Inr (w, True)
      | Some _ \<Rightarrow>
          res_bind (if ch_end c \<ge> ch_start c
                    then sstream_do cb sid sp (\<lambda>q. ossl_quic_sstream_mark_transmitted mem q (ch_start c) (ch_end c)) w
                    else Inr (w, True)) (\<lambda>(w, ok).
          if \<not> ok then Inr (w, False)
          else if ch_has_fin c then sstream_do cb sid sp (\<lambda>q. Inr (ossl_quic_sstream_mark_transmitted_fin q (ch_end c + 1))) w
          else Inr (w, True)))"

fun sent_chunks :: "'w fifd_callbacks \<Rightarrow> bool list \<Rightarrow> txpim_pkt \<Rightarrow> 'w \<Rightarrow> txpim_chunk list \<Rightarrow> c_fault + ('w \<times> bool)" where
  "sent_chunks cb mem pkt w [] = Inr (w, True)"
| "sent_chunks cb mem pkt w (c # cs) =
     res_bind (sent_chunk cb (mem = [] \<or> hd mem) pkt w c) (\<lambda>(w, ok).
       if \<not> ok then Inr (w, False) else sent_chunks cb (tl mem) pkt w cs)"

text \<open>
  The record the acknowledgement manager keeps is \<^verbatim>\<open>pkt->ackm_pkt\<close> with the callbacks of this file, of which the model keeps the argument; none of them
  frees the packet. \<open>mem_map\<close>: memory for the manager's hash table.
\<close>

definition ossl_quic_fifd_pkt_commit ::
    "'cc cc_method \<Rightarrow> 'w fifd_callbacks \<Rightarrow> bool list \<Rightarrow> bool \<Rightarrow> ossl_time \<Rightarrow> ('cc, 'w) quic_fifd \<Rightarrow> txpim_addr
     \<Rightarrow> c_fault + (('cc, 'w) quic_fifd \<times> bool)" where
  "ossl_quic_fifd_pkt_commit M cb mem mem_map now fd p =
     res_bind (txpim_at (fd_txpim fd) p) (\<lambda>x.
     let x = x\<lparr>px_ackm_pkt := (px_ackm_pkt x)\<lparr>tp_cb_arg := p, tp_on_acked_frees := False\<rparr>\<rparr>;
         fd = fd\<lparr>fd_txpim := txpim_put (fd_txpim fd) p x\<rparr>
     in
     res_bind (mark_tx_items (fd_cfq fd) (px_retx x)) (\<lambda>q.
     res_bind (fetch_chunks (fd_txpim fd) p) (\<lambda>(m, pkt, chunks).
     let fd = fd\<lparr>fd_cfq := q, fd_txpim := m\<rparr> in
     res_bind (sent_chunks cb mem pkt (fd_world fd) chunks) (\<lambda>(w, ok).
     let fd = fd\<lparr>fd_world := w\<rparr> in
     if \<not> ok then Inr (fd, False)
     else res_bind (ossl_ackm_on_tx_packet M mem_map now (fd_ackm fd) (px_ackm_pkt pkt)) (\<lambda>(a, ok).
       Inr (fd\<lparr>fd_ackm := a\<rparr>, ok))))))"

text \<open>
  \<^verbatim>\<open>ossl_quic_fifd_init\<close> checks its arguments. The events the acknowledgement manager recorded are calls of the callbacks that \<^verbatim>\<open>ossl_quic_fifd_pkt_commit\<close> installed:
  none of them reaches the manager, so they are dispatched in order when the operation of the manager is done.
\<close>

definition ossl_quic_fifd_init ::
    "quic_cfq option \<Rightarrow> 'cc ackm option \<Rightarrow> quic_txpim option \<Rightarrow> 'w \<Rightarrow> ('cc, 'w) quic_fifd option" where
  "ossl_quic_fifd_init cfq ackm txpim w =
     (case (cfq, ackm, txpim) of
        (Some q, Some a, Some m) \<Rightarrow> Some \<lparr>fd_cfq = q, fd_ackm = a, fd_txpim = m, fd_world = w\<rparr>
      | _ \<Rightarrow> None)"

fun fifd_event :: "'w fifd_callbacks \<Rightarrow> bool list \<Rightarrow> ('cc, 'w) quic_fifd \<Rightarrow> ackm_event \<Rightarrow> c_fault + ('cc, 'w) quic_fifd" where
  "fifd_event cb mem fd (On_Acked p) = on_acked cb mem fd (tp_cb_arg p)"
| "fifd_event cb mem fd (On_Lost p) = on_lost cb mem fd (tp_cb_arg p)"
| "fifd_event cb mem fd (On_Discarded p) = on_discarded fd (tp_cb_arg p)"
| "fifd_event cb mem fd _ = Inr fd"


section \<open>Bytes in flight\<close>

text \<open>
  The chunks in flight, each with the packet number space of its packet: a multiset. \<open>cover C i s v\<close>: how many of them hold the byte \<open>v\<close> of a stream. A
  stream is tracked when its bytes that are neither new nor acknowledged are each in exactly one chunk in flight, and a FIN that was sent and not
  acknowledged is in one as well.
\<close>

type_synonym flying_chunk = "pn_space \<times> txpim_chunk"

definition same_stream :: "u64 \<Rightarrow> pn_space \<Rightarrow> u64 \<Rightarrow> pn_space \<Rightarrow> bool" where
  "same_stream i s i' s' \<longleftrightarrow> i = i' \<and> (i = UINT64_MAX \<longrightarrow> s = s')"

definition chunk_on :: "u64 \<Rightarrow> pn_space \<Rightarrow> flying_chunk \<Rightarrow> bool" where
  "chunk_on i s x \<longleftrightarrow> same_stream i s (ch_stream_id (snd x)) (fst x)"

definition chunk_has :: "u64 \<Rightarrow> pn_space \<Rightarrow> u64 \<Rightarrow> flying_chunk \<Rightarrow> bool" where
  "chunk_has i s v x \<longleftrightarrow> chunk_on i s x \<and> ch_start (snd x) \<le> v \<and> v \<le> ch_end (snd x)"

definition cover :: "flying_chunk multiset \<Rightarrow> u64 \<Rightarrow> pn_space \<Rightarrow> u64 \<Rightarrow> nat" where
  "cover C i s v = size (filter_mset (chunk_has i s v) C)"

lemma cover_simps [simp]:
  "cover {#} i s v = 0" "cover (add_mset x C) i s v = (if chunk_has i s v x then 1 else 0) + cover C i s v"
  "cover (A + B) i s v = cover A i s v + cover B i s v"
  by (simp_all add: cover_def)

definition sstream_flying :: "quic_sstream \<Rightarrow> u64 set" where
  "sstream_flying q = {v. unat v < rb_head (ss_ring q)} - uint_set_ints (new_set q) - uint_set_ints (acked_set q)"

definition stream_tracked :: "flying_chunk multiset \<Rightarrow> quic_sstream \<Rightarrow> u64 \<Rightarrow> pn_space \<Rightarrow> bool" where
  "stream_tracked C q i s \<longleftrightarrow>
     (\<exists>S. sstream_ok q S) \<and> (\<forall>v. cover C i s v = (if v \<in> sstream_flying q then 1 else 0))
     \<and> (sent_final_size q \<longrightarrow> have_final_size q)
     \<and> (sent_final_size q \<and> \<not> acked_final_size q \<longrightarrow> i = UINT64_MAX \<or> (\<exists>x \<in># C. chunk_on i s x \<and> ch_has_fin (snd x)))"

text \<open>What the handlers do to the stream of a chunk.\<close>

definition acked_q :: "quic_sstream \<Rightarrow> txpim_chunk \<Rightarrow> c_fault + quic_sstream" where
  "acked_q q c =
     res_bind (if ch_end c \<ge> ch_start c then ossl_quic_sstream_mark_acked True q (ch_start c) (ch_end c) else Inr (q, True)) (\<lambda>(q, _).
       Inr (if ch_has_fin c \<and> ch_stream_id c \<noteq> UINT64_MAX then fst (ossl_quic_sstream_mark_acked_fin q) else q))"

definition lost_q :: "quic_sstream \<Rightarrow> txpim_chunk \<Rightarrow> quic_sstream" where
  "lost_q q c =
     (let q = (if ch_end c \<ge> ch_start c then fst (ossl_quic_sstream_mark_lost True q (ch_start c) (ch_end c)) else q)
      in if ch_has_fin c \<and> ch_stream_id c \<noteq> UINT64_MAX then fst (ossl_quic_sstream_mark_lost_fin q) else q)"

definition sent_q :: "quic_sstream \<Rightarrow> txpim_chunk \<Rightarrow> c_fault + (quic_sstream \<times> bool)" where
  "sent_q q c =
     res_bind (if ch_end c \<ge> ch_start c then ossl_quic_sstream_mark_transmitted True q (ch_start c) (ch_end c) else Inr (q, True)) (\<lambda>(q, ok).
       if \<not> ok then Inr (q, False) else if ch_has_fin c then Inr (ossl_quic_sstream_mark_transmitted_fin q (ch_end c + 1)) else Inr (q, True))"

lemma fin_sets:
  "new_set (fst (ossl_quic_sstream_mark_acked_fin q)) = new_set q" "acked_set (fst (ossl_quic_sstream_mark_acked_fin q)) = acked_set q"
  "ss_ring (fst (ossl_quic_sstream_mark_acked_fin q)) = ss_ring q" "sent_final_size (fst (ossl_quic_sstream_mark_acked_fin q)) = sent_final_size q"
  "have_final_size (fst (ossl_quic_sstream_mark_acked_fin q)) = have_final_size q"
  "acked_final_size (fst (ossl_quic_sstream_mark_acked_fin q)) = (have_final_size q \<or> acked_final_size q)"
  "new_set (fst (ossl_quic_sstream_mark_lost_fin q)) = new_set q" "acked_set (fst (ossl_quic_sstream_mark_lost_fin q)) = acked_set q"
  "ss_ring (fst (ossl_quic_sstream_mark_lost_fin q)) = ss_ring q"
  "sent_final_size (fst (ossl_quic_sstream_mark_lost_fin q)) = (acked_final_size q \<and> sent_final_size q)"
  "have_final_size (fst (ossl_quic_sstream_mark_lost_fin q)) = have_final_size q" "acked_final_size (fst (ossl_quic_sstream_mark_lost_fin q)) = acked_final_size q"
  by (simp_all add: ossl_quic_sstream_mark_acked_fin_def ossl_quic_sstream_mark_lost_fin_def)

lemma sstream_ok_fields:
  "ss_ring q' = ss_ring q \<Longrightarrow> new_set q' = new_set q \<Longrightarrow> acked_set q' = acked_set q \<Longrightarrow> sstream_ok q' S = sstream_ok q S"
  by (simp add: sstream_ok_def)

lemma mark_acked_fields:
  assumes "ossl_quic_sstream_mark_acked mem q a e = Inr (q', b)"
  shows "new_set q' = new_set q" "sent_final_size q' = sent_final_size q" "have_final_size q' = have_final_size q" "acked_final_size q' = acked_final_size q"
  using assms by (auto simp: ossl_quic_sstream_mark_acked_def qss_cull_def Let_def res_bind_Inr split: prod.splits if_splits list.splits)

lemma mark_acked_exact:
  assumes ok: "sstream_ok q S" and range: "\<forall>v \<in> {a..e}. unat v < length S" and disj: "{a..e} \<inter> uint_set_ints (new_set q) = {}" and le: "a \<le> e"
  obtains q' where "ossl_quic_sstream_mark_acked True q a e = Inr (q', True)" "sstream_ok q' S"
    "uint_set_ints (acked_set q') = uint_set_ints (acked_set q) \<union> {a..e}"
proof (rule sstream_acked_ok [OF ok range disj, of True])
  fix q' b
  assume a: "ossl_quic_sstream_mark_acked True q a e = Inr (q', b)" "sstream_ok q' S" "b \<Longrightarrow> uint_set_ints (acked_set q') = uint_set_ints (acked_set q) \<union> {a..e}"
  obtain s where "ossl_uint_set_insert True (acked_set q) \<lparr>rstart = a, rend = e\<rparr> = (s, True)"
    using uset.ins_with_memory [OF sstream_okD(3) [OF ok], of "\<lparr>rstart = a, rend = e\<rparr>"] le by auto
  with a(1) have b
    by (auto simp: ossl_quic_sstream_mark_acked_def res_bind_Inr)
  with a show ?thesis
    by (intro that [of q']) auto
qed

lemma mark_lost_exact:
  assumes ok: "sstream_ok q S" and range: "\<forall>v \<in> {a..e}. unat v < length S" and disj: "{a..e} \<inter> uint_set_ints (acked_set q) = {}" and le: "a \<le> e"
  obtains s where "ossl_quic_sstream_mark_lost True q a e = (q\<lparr>new_set := s\<rparr>, True)" "sstream_ok (q\<lparr>new_set := s\<rparr>) S"
    "uint_set_ints s = uint_set_ints (new_set q) \<union> {a..e}"
proof -
  obtain s where s: "ossl_uint_set_insert True (new_set q) \<lparr>rstart = a, rend = e\<rparr> = (s, True)" "uint_set_ints s = uint_set_ints (new_set q) \<union> {a..e}"
    using uset.ins_with_memory [OF sstream_okD(2) [OF ok], of "\<lparr>rstart = a, rend = e\<rparr>"] le by auto
  then have res: "ossl_quic_sstream_mark_lost True q a e = (q\<lparr>new_set := s\<rparr>, True)"
    by (simp add: ossl_quic_sstream_mark_lost_def)
  from that [OF res sstream_lost_ok [OF ok res range disj] s(2)] show ?thesis .
qed

lemma mark_transmitted_exact:
  assumes ok: "sstream_ok q S" and le: "a \<le> e"
  obtains s where "ossl_quic_sstream_mark_transmitted True q a e = Inr (q\<lparr>new_set := s\<rparr>, True)" "sstream_ok (q\<lparr>new_set := s\<rparr>) S"
    "uint_set_ints s = uint_set_ints (new_set q) - {a..e}"
proof -
  obtain s where s: "ossl_uint_set_remove True (new_set q) \<lparr>rstart = a, rend = e\<rparr> = Inr (s, True)" "uint_set_ints s = uint_set_ints (new_set q) - {a..e}"
    using uset.rem_with_memory [OF sstream_okD(2) [OF ok], of "\<lparr>rstart = a, rend = e\<rparr>"] le by auto
  then have res: "ossl_quic_sstream_mark_transmitted True q a e = Inr (q\<lparr>new_set := s\<rparr>, True)"
    by (simp add: ossl_quic_sstream_mark_transmitted_def)
  from that [OF res sstream_transmitted_ok [OF ok res] s(2)] show ?thesis .
qed

text \<open>The bytes of a chunk in flight are in flight, and in no other chunk.\<close>

lemma tracked_chunk:
  assumes t: "stream_tracked (add_mset x C) q i s" and on: "chunk_on i s x" and S: "sstream_ok q S"
  shows "{ch_start (snd x)..ch_end (snd x)} \<subseteq> sstream_flying q"
    and "v \<in> {ch_start (snd x)..ch_end (snd x)} \<Longrightarrow> cover C i s v = 0"
    and "\<forall>v \<in> {ch_start (snd x)..ch_end (snd x)}. unat v < length S"
proof -
  have c: "cover (add_mset x C) i s v = (if v \<in> sstream_flying q then 1 else 0)" for v
    using t by (simp add: stream_tracked_def)
  have "v \<in> sstream_flying q \<and> cover C i s v = 0" if "v \<in> {ch_start (snd x)..ch_end (snd x)}" for v
    using c [of v] that on by (auto simp: chunk_has_def split: if_splits)
  then show "{ch_start (snd x)..ch_end (snd x)} \<subseteq> sstream_flying q" "v \<in> {ch_start (snd x)..ch_end (snd x)} \<Longrightarrow> cover C i s v = 0"
    by blast+
  then show "\<forall>v \<in> {ch_start (snd x)..ch_end (snd x)}. unat v < length S"
    using sstream_okD(9) [OF S] by (auto simp: sstream_flying_def)
qed

lemma tracked_other: "\<not> chunk_on i s x \<Longrightarrow> stream_tracked (add_mset x C) q i s = stream_tracked C q i s"
  by (auto simp: stream_tracked_def chunk_has_def)

lemma acked_tracked:
  assumes t: "stream_tracked (add_mset x C) q i s" and on: "chunk_on i s x"
  obtains q' where "acked_q q (snd x) = Inr q'" "stream_tracked C q' i s" "have_final_size q' = have_final_size q"
proof -
  let ?c = "snd x" and ?R = "{ch_start (snd x)..ch_end (snd x)}"
  from t obtain S where S: "sstream_ok q S" and fin: "sent_final_size q \<longrightarrow> have_final_size q"
    and flying: "\<And>v. cover (add_mset x C) i s v = (if v \<in> sstream_flying q then 1 else 0)"
    and pending: "sent_final_size q \<and> \<not> acked_final_size q \<longrightarrow> i = UINT64_MAX \<or> (\<exists>y \<in># add_mset x C. chunk_on i s y \<and> ch_has_fin (snd y))"
    by (auto simp: stream_tracked_def)
  note R = tracked_chunk [OF t on S]
  obtain q1 b where q1: "(if ch_end ?c \<ge> ch_start ?c then ossl_quic_sstream_mark_acked True q (ch_start ?c) (ch_end ?c) else Inr (q, True)) = Inr (q1, b)"
    "sstream_ok q1 S" "uint_set_ints (acked_set q1) = uint_set_ints (acked_set q) \<union> ?R" "new_set q1 = new_set q"
    "sent_final_size q1 = sent_final_size q" "have_final_size q1 = have_final_size q" "acked_final_size q1 = acked_final_size q"
  proof (cases "ch_start ?c \<le> ch_end ?c")
    case True
    have "?R \<inter> uint_set_ints (new_set q) = {}"
      using R(1) by (auto simp: sstream_flying_def)
    from mark_acked_exact [OF S R(3) this True] obtain q1 where q1: "ossl_quic_sstream_mark_acked True q (ch_start ?c) (ch_end ?c) = Inr (q1, True)"
      "sstream_ok q1 S" "uint_set_ints (acked_set q1) = uint_set_ints (acked_set q) \<union> ?R" .
    with True that [of q1 True] mark_acked_fields [OF q1(1)] show ?thesis
      by simp
  next
    case False
    with that [of q True] S show ?thesis
      by simp
  qed
  define q2 where "q2 = (if ch_has_fin ?c \<and> ch_stream_id ?c \<noteq> UINT64_MAX then fst (ossl_quic_sstream_mark_acked_fin q1) else q1)"
  have q2: "sstream_ok q2 S" "uint_set_ints (acked_set q2) = uint_set_ints (acked_set q) \<union> ?R" "new_set q2 = new_set q"
    "sent_final_size q2 = sent_final_size q" "have_final_size q2 = have_final_size q"
    "acked_final_size q2 \<longleftrightarrow> acked_final_size q \<or> ch_has_fin ?c \<and> ch_stream_id ?c \<noteq> UINT64_MAX \<and> have_final_size q"
    using q1 by (auto simp: q2_def fin_sets sstream_ok_fields [of "fst (ossl_quic_sstream_mark_acked_fin q1)" q1])
  have "rb_head (ss_ring q2) = rb_head (ss_ring q)"
    using sstream_okD(9) [OF S] sstream_okD(9) [OF q2(1)] by simp
  then have fl: "sstream_flying q2 = sstream_flying q - ?R"
    by (auto simp: sstream_flying_def q2(2,3))
  have "cover C i s v = (if v \<in> sstream_flying q2 then 1 else 0)" for v
    using flying [of v] on R(2) [of v] by (auto simp: fl chunk_has_def split: if_splits)
  moreover have "i = UINT64_MAX \<or> (\<exists>y \<in># C. chunk_on i s y \<and> ch_has_fin (snd y))" if "sent_final_size q2 \<and> \<not> acked_final_size q2"
    using that pending fin on q2(4-6) by (auto simp: chunk_on_def same_stream_def)
  ultimately have "stream_tracked C q2 i s"
    using q2(1,4,5) fin by (auto simp: stream_tracked_def)
  moreover have "acked_q q ?c = Inr q2"
    unfolding acked_q_def q1(1) by (simp add: q2_def)
  ultimately show ?thesis
    using q2(5) that by blast
qed


lemma totally_acked_cong:
  assumes "have_final_size q' = have_final_size q" and "acked_final_size q' = acked_final_size q"
    and ring: "ss_ring q' = ss_ring q" and "acked_set q' = acked_set q"
  shows "ossl_quic_sstream_is_totally_acked q' = ossl_quic_sstream_is_totally_acked q"
  unfolding ossl_quic_sstream_is_totally_acked_def ossl_quic_sstream_get_cur_size_def assms by (rule refl)

lemma lost_fields:
  "have_final_size (lost_q q c) = have_final_size q"
  "ossl_quic_sstream_is_totally_acked (lost_q q c) = ossl_quic_sstream_is_totally_acked q"
proof -
  have f: "have_final_size (fst (ossl_quic_sstream_mark_lost True q (ch_start c) (ch_end c))) = have_final_size q"
    "acked_final_size (fst (ossl_quic_sstream_mark_lost True q (ch_start c) (ch_end c))) = acked_final_size q"
    "ss_ring (fst (ossl_quic_sstream_mark_lost True q (ch_start c) (ch_end c))) = ss_ring q"
    "acked_set (fst (ossl_quic_sstream_mark_lost True q (ch_start c) (ch_end c))) = acked_set q"
    by (simp_all add: ossl_quic_sstream_mark_lost_def split: prod.split)
  show "have_final_size (lost_q q c) = have_final_size q"
    by (simp add: lost_q_def Let_def fin_sets f)
  show "ossl_quic_sstream_is_totally_acked (lost_q q c) = ossl_quic_sstream_is_totally_acked q"
    by (rule totally_acked_cong) (simp_all add: lost_q_def Let_def fin_sets f)
qed

lemma lost_tracked:
  assumes t: "stream_tracked (add_mset x C) q i s" and on: "chunk_on i s x"
  shows "stream_tracked C (lost_q q (snd x)) i s"
proof -
  let ?c = "snd x" and ?R = "{ch_start (snd x)..ch_end (snd x)}"
  from t obtain S where S: "sstream_ok q S" and fin: "sent_final_size q \<longrightarrow> have_final_size q"
    and flying: "\<And>v. cover (add_mset x C) i s v = (if v \<in> sstream_flying q then 1 else 0)"
    and pending: "sent_final_size q \<and> \<not> acked_final_size q \<longrightarrow> i = UINT64_MAX \<or> (\<exists>y \<in># add_mset x C. chunk_on i s y \<and> ch_has_fin (snd y))"
    by (auto simp: stream_tracked_def)
  note R = tracked_chunk [OF t on S]
  define q1 where "q1 = (if ch_end ?c \<ge> ch_start ?c then fst (ossl_quic_sstream_mark_lost True q (ch_start ?c) (ch_end ?c)) else q)"
  have "sstream_ok q1 S \<and> uint_set_ints (new_set q1) = uint_set_ints (new_set q) \<union> ?R \<and> acked_set q1 = acked_set q \<and> ss_ring q1 = ss_ring q
        \<and> sent_final_size q1 = sent_final_size q \<and> have_final_size q1 = have_final_size q \<and> acked_final_size q1 = acked_final_size q"
  proof (cases "ch_start ?c \<le> ch_end ?c")
    case True
    have "?R \<inter> uint_set_ints (acked_set q) = {}"
      using R(1) by (auto simp: sstream_flying_def)
    from mark_lost_exact [OF S R(3) this True] obtain u where "ossl_quic_sstream_mark_lost True q (ch_start ?c) (ch_end ?c) = (q\<lparr>new_set := u\<rparr>, True)"
      "sstream_ok (q\<lparr>new_set := u\<rparr>) S" "uint_set_ints u = uint_set_ints (new_set q) \<union> ?R" .
    with True show ?thesis
      by (simp add: q1_def)
  qed (use S in \<open>simp add: q1_def\<close>)
  then have q1: "sstream_ok q1 S" "uint_set_ints (new_set q1) = uint_set_ints (new_set q) \<union> ?R" "acked_set q1 = acked_set q" "ss_ring q1 = ss_ring q"
    "sent_final_size q1 = sent_final_size q" "have_final_size q1 = have_final_size q" "acked_final_size q1 = acked_final_size q"
    by blast+
  have lost: "lost_q q ?c = (if ch_has_fin ?c \<and> ch_stream_id ?c \<noteq> UINT64_MAX then fst (ossl_quic_sstream_mark_lost_fin q1) else q1)"
    by (simp add: lost_q_def Let_def q1_def)
  have q2: "sstream_ok (lost_q q ?c) S" "uint_set_ints (new_set (lost_q q ?c)) = uint_set_ints (new_set q) \<union> ?R" "acked_set (lost_q q ?c) = acked_set q"
    "ss_ring (lost_q q ?c) = ss_ring q" "acked_final_size (lost_q q ?c) = acked_final_size q"
    "sent_final_size (lost_q q ?c) \<longleftrightarrow> sent_final_size q \<and> (ch_has_fin ?c \<and> ch_stream_id ?c \<noteq> UINT64_MAX \<longrightarrow> acked_final_size q)"
    using q1 by (auto simp: lost fin_sets sstream_ok_fields [of "fst (ossl_quic_sstream_mark_lost_fin q1)" q1])
  have fl: "sstream_flying (lost_q q ?c) = sstream_flying q - ?R"
    by (auto simp: sstream_flying_def q2(2-4))
  have "cover C i s v = (if v \<in> sstream_flying (lost_q q ?c) then 1 else 0)" for v
    using flying [of v] on R(2) [of v] by (auto simp: fl chunk_has_def split: if_splits)
  moreover have "i = UINT64_MAX \<or> (\<exists>y \<in># C. chunk_on i s y \<and> ch_has_fin (snd y))"
    if "sent_final_size (lost_q q ?c) \<and> \<not> acked_final_size (lost_q q ?c)"
    using that pending on q2(5,6) by (auto simp: chunk_on_def same_stream_def)
  ultimately show ?thesis
    using q2(1,6) fin lost_fields(1) [of q ?c] by (auto simp: stream_tracked_def)
qed

lemma sent_tracked:
  assumes t: "stream_tracked C q i s" and on: "chunk_on i s x" and new: "{ch_start (snd x)..ch_end (snd x)} \<subseteq> uint_set_ints (new_set q)"
    and res: "sent_q q (snd x) = Inr (q', True)"
  shows "stream_tracked (add_mset x C) q' i s" and "have_final_size q' = have_final_size q"
    and "ossl_quic_sstream_is_totally_acked q' = ossl_quic_sstream_is_totally_acked q"
    and "uint_set_ints (new_set q') = uint_set_ints (new_set q) - {ch_start (snd x)..ch_end (snd x)}"
proof -
  let ?c = "snd x" and ?R = "{ch_start (snd x)..ch_end (snd x)}"
  from t obtain S where S: "sstream_ok q S" and fin: "sent_final_size q \<longrightarrow> have_final_size q"
    and flying: "\<And>v. cover C i s v = (if v \<in> sstream_flying q then 1 else 0)"
    and pending: "sent_final_size q \<and> \<not> acked_final_size q \<longrightarrow> i = UINT64_MAX \<or> (\<exists>y \<in># C. chunk_on i s y \<and> ch_has_fin (snd y))"
    by (auto simp: stream_tracked_def)
  obtain u where u: "(if ch_end ?c \<ge> ch_start ?c then ossl_quic_sstream_mark_transmitted True q (ch_start ?c) (ch_end ?c) else Inr (q, True))
      = Inr (q\<lparr>new_set := u\<rparr>, True)" "sstream_ok (q\<lparr>new_set := u\<rparr>) S" "uint_set_ints u = uint_set_ints (new_set q) - ?R"
  proof (cases "ch_start ?c \<le> ch_end ?c")
    case True
    with mark_transmitted_exact [OF S True] that show ?thesis
      by auto
  next
    case False
    with that [of "new_set q"] S show ?thesis
      by simp
  qed
  define q1 where "q1 = q\<lparr>new_set := u\<rparr>"
  have q'_eq: "q' = (if ch_has_fin ?c then fst (ossl_quic_sstream_mark_transmitted_fin q1 (ch_end ?c + 1)) else q1)"
    and fin_ok: "ch_has_fin ?c \<Longrightarrow> snd (ossl_quic_sstream_mark_transmitted_fin q1 (ch_end ?c + 1))"
    using res unfolding sent_q_def u(1) by (auto simp: q1_def split: if_splits)
  have q': "q' = q1\<lparr>sent_final_size := (ch_has_fin ?c \<or> sent_final_size q)\<rparr>" and hf: "ch_has_fin ?c \<Longrightarrow> have_final_size q"
    using q'_eq fin_ok by (auto simp: ossl_quic_sstream_mark_transmitted_fin_def q1_def split: if_splits)
  show "have_final_size q' = have_final_size q" "uint_set_ints (new_set q') = uint_set_ints (new_set q) - ?R"
    by (simp_all add: q' q1_def u(3))
  show "ossl_quic_sstream_is_totally_acked q' = ossl_quic_sstream_is_totally_acked q"
    by (rule totally_acked_cong) (simp_all add: q' q1_def)
  have ok': "sstream_ok q' S"
    using u(2) by (simp add: q' q1_def sstream_ok_def)
  have acked: "uint_set_ints (new_set q) \<inter> uint_set_ints (acked_set q) = {}"
    using sstream_okD(6) [OF S] .
  have fl: "sstream_flying q' = sstream_flying q \<union> ?R"
    using new acked sstream_okD(4) [OF S] sstream_okD(9) [OF S] by (auto simp: sstream_flying_def q' q1_def u(3))
  have "?R \<inter> sstream_flying q = {}"
    using new by (auto simp: sstream_flying_def)
  then have "cover (add_mset x C) i s v = (if v \<in> sstream_flying q' then 1 else 0)" for v
    using flying [of v] on by (auto simp: fl chunk_has_def split: if_splits)
  moreover have "i = UINT64_MAX \<or> (\<exists>y \<in># add_mset x C. chunk_on i s y \<and> ch_has_fin (snd y))" if "sent_final_size q' \<and> \<not> acked_final_size q'"
    using that pending on by (auto simp: q' q1_def)
  moreover have "sent_final_size q' \<longrightarrow> have_final_size q'"
    using fin hf by (auto simp: q' q1_def)
  ultimately show "stream_tracked (add_mset x C) q' i s"
    using ok' by (auto simp: stream_tracked_def)
qed


section \<open>The callbacks\<close>

text \<open>
  What the dispatcher relies on. \<open>wok\<close>: the world is consistent between two calls. A stream that was changed may have become totally acknowledged, which the
  world must be told by \<^verbatim>\<open>sstream_updated\<close>; that call may free streams, the other two must not.
\<close>

definition keeps_streams :: "'w fifd_callbacks \<Rightarrow> 'w \<Rightarrow> 'w \<Rightarrow> bool" where
  "keeps_streams cb w w' \<longleftrightarrow> (\<forall>i s. cb_get_sstream_by_id cb i s w' = cb_get_sstream_by_id cb i s w)"

definition drops_streams :: "'w fifd_callbacks \<Rightarrow> 'w \<Rightarrow> 'w \<Rightarrow> bool" where
  "drops_streams cb w w' \<longleftrightarrow>
     (\<forall>i s. cb_get_sstream_by_id cb i s w' = cb_get_sstream_by_id cb i s w \<or> cb_get_sstream_by_id cb i s w' = None)"

definition stream_frame_types :: "u64 set" where
  "stream_frame_types = {OSSL_QUIC_FRAME_TYPE_STOP_SENDING, OSSL_QUIC_FRAME_TYPE_RESET_STREAM}"

definition regen_frame_types :: "u64 set" where
  "regen_frame_types = stream_frame_types \<union> {OSSL_QUIC_FRAME_TYPE_MAX_STREAM_DATA, OSSL_QUIC_FRAME_TYPE_HANDSHAKE_DONE,
     OSSL_QUIC_FRAME_TYPE_MAX_DATA, OSSL_QUIC_FRAME_TYPE_MAX_STREAMS_BIDI, OSSL_QUIC_FRAME_TYPE_MAX_STREAMS_UNI, OSSL_QUIC_FRAME_TYPE_ACK_WITH_ECN}"

definition streams_ok :: "'w fifd_callbacks \<Rightarrow> flying_chunk multiset \<Rightarrow> 'w \<Rightarrow> bool" where
  "streams_ok cb C w \<longleftrightarrow> (\<forall>i s q. cb_get_sstream_by_id cb i s w = Some q \<longrightarrow> stream_tracked C q i s)"

text \<open>A chunk that says a stream abort was sent carries no data and no FIN.\<close>

definition chunk_wf :: "txpim_chunk \<Rightarrow> bool" where
  "chunk_wf c \<longleftrightarrow> (ch_has_stop_sending c \<or> ch_has_reset_stream c \<longrightarrow> ch_end c < ch_start c \<and> \<not> ch_has_fin c)"

text \<open>\<open>sendable cb D w\<close>: the chunks \<open>D\<close> hold bytes their streams have not sent (again) yet, each byte once.\<close>

definition sendable :: "'w fifd_callbacks \<Rightarrow> flying_chunk multiset \<Rightarrow> 'w \<Rightarrow> bool" where
  "sendable cb D w \<longleftrightarrow> (\<forall>i s q v. cb_get_sstream_by_id cb i s w = Some q \<longrightarrow>
     cover D i s v \<le> (if v \<in> uint_set_ints (new_set q) then 1 else 0))"

text \<open>No stream of a packet number space or id appears by a dropping step or by writing a stream that is there.\<close>

definition none_new :: "'w fifd_callbacks \<Rightarrow> 'w \<Rightarrow> 'w \<Rightarrow> bool" where
  "none_new cb w w' \<longleftrightarrow> (\<forall>i s. cb_get_sstream_by_id cb i s w = None \<longrightarrow> cb_get_sstream_by_id cb i s w' = None)"

locale fifd_client =
  fixes cb :: "'w fifd_callbacks" and wok :: "'w \<Rightarrow> bool"
  assumes get_put: "cb_get_sstream_by_id cb i s w = Some q0 \<Longrightarrow>
      cb_get_sstream_by_id cb i' s' (cb_put_sstream cb i s q w) = (if same_stream i s i' s' then Some q else cb_get_sstream_by_id cb i' s' w)"
    and put_put: "cb_put_sstream cb i s q (cb_put_sstream cb i s q' w) = cb_put_sstream cb i s q w"
    and put_self: "cb_get_sstream_by_id cb i s w = Some q \<Longrightarrow> cb_put_sstream cb i s q w = w"
    and put_ok: "wok w \<Longrightarrow> cb_get_sstream_by_id cb i s w = Some q0 \<Longrightarrow> sstream_ok q S \<Longrightarrow> have_final_size q = have_final_size q0 \<Longrightarrow>
      ossl_quic_sstream_is_totally_acked q \<longrightarrow> ossl_quic_sstream_is_totally_acked q0 \<Longrightarrow> wok (cb_put_sstream cb i s q w)"
    and updated: "wok w \<Longrightarrow> cb_get_sstream_by_id cb i s w = Some q0 \<Longrightarrow> sstream_ok q S \<Longrightarrow> have_final_size q = have_final_size q0 \<Longrightarrow>
      \<exists>w'. cb_sstream_updated cb i (cb_put_sstream cb i s q w) = Inr w' \<and> wok w' \<and> drops_streams cb (cb_put_sstream cb i s q w) w'"
    and regen: "wok w \<Longrightarrow> t \<in> regen_frame_types \<Longrightarrow> \<exists>w'. cb_regen_frame cb t i pkt w = Inr w' \<and> wok w' \<and> keeps_streams cb w w'"
    and confirm: "wok w \<Longrightarrow> t \<in> stream_frame_types \<Longrightarrow> \<exists>w'. cb_confirm_frame cb t i pkt w = Inr w' \<and> wok w' \<and> keeps_streams cb w w'"
begin

lemma get_same: "cb_get_sstream_by_id cb i s w = Some q \<Longrightarrow> same_stream i s i' s' \<Longrightarrow> cb_get_sstream_by_id cb i' s' w = Some q"
  using get_put [of i s w q i' s' q] put_self [of i s w q] by simp

lemma sstream_do_eq:
  "cb_get_sstream_by_id cb i s w = Some q \<Longrightarrow>
    sstream_do cb i s f w = (case f q of Inl e \<Rightarrow> Inl e | Inr (q', ok) \<Rightarrow> Inr (cb_put_sstream cb i s q' w, ok))"
  by (auto simp: sstream_do_def res_bind_def split: sum.split)

lemma get_put_same: "cb_get_sstream_by_id cb i s w = Some q0 \<Longrightarrow> cb_get_sstream_by_id cb i s (cb_put_sstream cb i s q w) = Some q"
  using get_put [of i s w q0 i s q] by (simp add: same_stream_def)

lemma streams_ok_keeps: "streams_ok cb C w \<Longrightarrow> keeps_streams cb w w' \<Longrightarrow> streams_ok cb C w'"
  by (simp add: streams_ok_def keeps_streams_def)

lemma streams_ok_drops: "streams_ok cb C w \<Longrightarrow> drops_streams cb w w' \<Longrightarrow> streams_ok cb C w'"
  unfolding streams_ok_def drops_streams_def by (metis option.distinct(1))

lemma tracked_same:
  assumes "same_stream i s i' s'"
  shows "stream_tracked C q i s = stream_tracked C q i' s'"
proof -
  have on: "chunk_on i s = chunk_on i' s'"
    using assms by (auto simp: chunk_on_def same_stream_def fun_eq_iff)
  then have "cover C i s = cover C i' s'"
    by (intro ext) (simp add: cover_def chunk_has_def [abs_def])
  with on assms show ?thesis
    by (simp add: stream_tracked_def same_stream_def)
qed

text \<open>Writing a stream after its chunk was settled.\<close>

lemma streams_ok_put:
  assumes ok: "streams_ok cb (add_mset x C) w" and get: "cb_get_sstream_by_id cb (ch_stream_id (snd x)) (fst x) w = Some q0"
    and t: "stream_tracked C q (ch_stream_id (snd x)) (fst x)"
  shows "streams_ok cb C (cb_put_sstream cb (ch_stream_id (snd x)) (fst x) q w)"
  unfolding streams_ok_def
proof (intro allI impI)
  fix i s q'
  assume g: "cb_get_sstream_by_id cb i s (cb_put_sstream cb (ch_stream_id (snd x)) (fst x) q w) = Some q'"
  show "stream_tracked C q' i s"
  proof (cases "same_stream (ch_stream_id (snd x)) (fst x) i s")
    case True
    with g t show ?thesis
      by (simp add: get_put [OF get] tracked_same)
  next
    case False
    with g ok have "stream_tracked (add_mset x C) q' i s"
      by (simp add: get_put [OF get] streams_ok_def)
    with False show ?thesis
      by (subst (asm) tracked_other) (auto simp: chunk_on_def same_stream_def)
  qed
qed

lemma streams_ok_dead:
  assumes ok: "streams_ok cb (add_mset x C) w" and get: "cb_get_sstream_by_id cb (ch_stream_id (snd x)) (fst x) w = None"
  shows "streams_ok cb C w"
  unfolding streams_ok_def
proof (intro allI impI)
  fix i s q
  assume g: "cb_get_sstream_by_id cb i s w = Some q"
  with get get_same [OF g, of "ch_stream_id (snd x)" "fst x"] have "\<not> chunk_on i s x"
    by (auto simp: chunk_on_def same_stream_def)
  moreover have "stream_tracked (add_mset x C) q i s"
    using ok g unfolding streams_ok_def by blast
  ultimately show "stream_tracked C q i s"
    by (simp add: tracked_other)
qed

lemma confirm_if:
  "wok w \<Longrightarrow> t \<in> stream_frame_types \<Longrightarrow>
    \<exists>w'. (if b then cb_confirm_frame cb t i pkt w else Inr w) = Inr w' \<and> wok w' \<and> keeps_streams cb w w'"
  using confirm [of w t i pkt] by (cases b) (auto simp: keeps_streams_def)

lemma regen_opt:
  "wok w \<Longrightarrow> t \<in> regen_frame_types \<Longrightarrow>
    \<exists>w'. (if b then cb_regen_frame cb t i pkt w else Inr w) = Inr w' \<and> wok w' \<and> keeps_streams cb w w'"
  using regen [of w t i pkt] by (cases b) (auto simp: keeps_streams_def)

lemma keeps_trans: "keeps_streams cb a b \<Longrightarrow> keeps_streams cb b c \<Longrightarrow> keeps_streams cb a c"
  by (simp add: keeps_streams_def)

lemma drops_trans: "drops_streams cb a b \<Longrightarrow> drops_streams cb b c \<Longrightarrow> drops_streams cb a c"
  unfolding drops_streams_def by metis

lemma keeps_drops: "keeps_streams cb a b \<Longrightarrow> drops_streams cb a b"
  by (simp add: keeps_streams_def drops_streams_def)

lemma none_new_refl: "none_new cb w w"
  by (simp add: none_new_def)

lemma none_new_trans: "none_new cb a b \<Longrightarrow> none_new cb b c \<Longrightarrow> none_new cb a c"
  by (simp add: none_new_def)

lemma drops_none_new: "drops_streams cb a b \<Longrightarrow> none_new cb a b"
  unfolding drops_streams_def none_new_def by metis

lemma put_none_new: "cb_get_sstream_by_id cb i s w = Some q0 \<Longrightarrow> none_new cb w (cb_put_sstream cb i s q w)"
  unfolding none_new_def using get_put [of i s w q0] get_same [of i s w q0] by fastforce

lemma put_after:
  "cb_get_sstream_by_id cb i s w = Some q \<Longrightarrow> cb_put_sstream cb i s q' (cb_put_sstream cb i s q'' w) = cb_put_sstream cb i s q' w"
  by (simp add: put_put)

lemma check_totally_acked:
  "cb_get_sstream_by_id cb i s w = Some q \<Longrightarrow>
    sstream_do cb i s (\<lambda>q. Inr (q, ossl_quic_sstream_is_totally_acked q)) w = Inr (w, ossl_quic_sstream_is_totally_acked q)"
  by (simp add: sstream_do_eq put_self)

lemma acked_chunk_inv:
  assumes wok: "wok w" and ok: "streams_ok cb (add_mset (tp_pkt_space (px_ackm_pkt pkt), c) C) w" and wf: "chunk_wf c"
  shows "\<exists>w'. acked_chunk cb True pkt w c = Inr w' \<and> wok w' \<and> streams_ok cb C w' \<and> none_new cb w w'"
proof -
  define i s where "i = ch_stream_id c" and "s = tp_pkt_space (px_ackm_pkt pkt)"
  let ?get = "\<lambda>w. cb_get_sstream_by_id cb i s w" and ?put = "cb_put_sstream cb i s"
  show ?thesis
  proof (cases "?get w")
    case None
    with ok wok show ?thesis
      using streams_ok_dead [of "(s, c)" C w] none_new_refl by (auto simp: acked_chunk_def i_def s_def)
  next
    case q: (Some q)
    have t: "stream_tracked (add_mset (s, c) C) q i s"
      using ok q by (simp add: streams_ok_def s_def)
    have on: "chunk_on i s (s, c)"
      by (simp add: chunk_on_def same_stream_def i_def)
    from acked_tracked [OF t on] obtain q' where q': "acked_q q c = Inr q'" "stream_tracked C q' i s" "have_final_size q' = have_final_size q"
      by auto
    obtain q1 b1 where q1: "(if ch_end c \<ge> ch_start c then ossl_quic_sstream_mark_acked True q (ch_start c) (ch_end c) else Inr (q, True)) = Inr (q1, b1)"
      "q' = (if ch_has_fin c \<and> i \<noteq> UINT64_MAX then fst (ossl_quic_sstream_mark_acked_fin q1) else q1)"
      using q'(1) by (auto simp: acked_q_def res_bind_Inr i_def)
    have A: "(if ch_end c \<ge> ch_start c
         then sstream_do cb i s (\<lambda>q. ossl_quic_sstream_mark_acked True q (ch_start c) (ch_end c)) w else Inr (w, True)) = Inr (?put q1 w, b1)"
      using q1(1) put_self [OF q] by (auto simp: sstream_do_eq [OF q] split: if_splits)
    have B: "\<exists>b. (if ch_has_fin c \<and> i \<noteq> UINT64_MAX then sstream_do cb i s (\<lambda>q. Inr (ossl_quic_sstream_mark_acked_fin q)) (?put q1 w)
         else Inr (?put q1 w, True)) = Inr (?put q' w, b)"
      using q1(2) by (auto simp: sstream_do_eq [OF get_put_same [OF q]] put_put split: prod.split)
    define rest where "rest w = res_bind (if ch_has_stop_sending c \<and> i \<noteq> UINT64_MAX
                    then cb_confirm_frame cb OSSL_QUIC_FRAME_TYPE_STOP_SENDING i pkt w else Inr w) (\<lambda>w.
          res_bind (if ch_has_reset_stream c \<and> i \<noteq> UINT64_MAX
                    then cb_confirm_frame cb OSSL_QUIC_FRAME_TYPE_RESET_STREAM i pkt w else Inr w) (\<lambda>w.
          res_bind (sstream_do cb i s (\<lambda>q. Inr (q, ossl_quic_sstream_is_totally_acked q)) w) (\<lambda>(w, totally_acked).
          if totally_acked then cb_sstream_updated cb i w else Inr w)))" for w
    obtain b where "(if ch_has_fin c \<and> i \<noteq> UINT64_MAX then sstream_do cb i s (\<lambda>q. Inr (ossl_quic_sstream_mark_acked_fin q)) (?put q1 w)
         else Inr (?put q1 w, True)) = Inr (?put q' w, b)"
      using B by blast
    then have eq: "acked_chunk cb True pkt w c = rest (?put q' w)"
      using q A by (simp only: acked_chunk_def Let_def i_def [symmetric] s_def [symmetric] option.case res_bind_simps prod.case rest_def)
    have streams: "streams_ok cb C (?put q' w)"
      using streams_ok_put [of "(s, c)" C w q q'] ok q q'(2) by (simp add: i_def s_def)
    obtain S where S: "sstream_ok q' S"
      using q'(2) by (auto simp: stream_tracked_def)
    have nn: "none_new cb w (?put q' w)"
      by (rule put_none_new [OF q])
    show ?thesis
    proof (cases "ch_has_stop_sending c \<or> ch_has_reset_stream c")
      case False
      then have rest: "rest (?put q' w) = (if ossl_quic_sstream_is_totally_acked q' then cb_sstream_updated cb i (?put q' w) else Inr (?put q' w))"
        by (simp add: rest_def check_totally_acked [OF get_put_same [OF q]])
      show ?thesis
      proof (cases "ossl_quic_sstream_is_totally_acked q'")
        case True
        with updated [OF wok q S q'(3)] rest eq streams nn show ?thesis
          by (auto intro: streams_ok_drops none_new_trans drops_none_new)
      next
        case False
        with put_ok [OF wok q S q'(3)] rest eq streams nn show ?thesis
          by auto
      qed
    next
      case True
      with wf have "ch_end c < ch_start c" "\<not> ch_has_fin c"
        by (auto simp: chunk_wf_def)
      then have "q' = q"
        using q1 by (simp add: not_le [symmetric])
      then have put: "?put q' w = w"
        by (simp add: put_self [OF q])
      from confirm_if [OF wok, of OSSL_QUIC_FRAME_TYPE_STOP_SENDING "ch_has_stop_sending c \<and> i \<noteq> UINT64_MAX" i pkt] obtain w2 where w2:
        "(if ch_has_stop_sending c \<and> i \<noteq> UINT64_MAX then cb_confirm_frame cb OSSL_QUIC_FRAME_TYPE_STOP_SENDING i pkt w else Inr w) = Inr w2"
        "wok w2" "keeps_streams cb w w2"
        by (auto simp: stream_frame_types_def)
      from confirm_if [OF w2(2), of OSSL_QUIC_FRAME_TYPE_RESET_STREAM "ch_has_reset_stream c \<and> i \<noteq> UINT64_MAX" i pkt] obtain w3 where w3:
        "(if ch_has_reset_stream c \<and> i \<noteq> UINT64_MAX then cb_confirm_frame cb OSSL_QUIC_FRAME_TYPE_RESET_STREAM i pkt w2 else Inr w2) = Inr w3"
        "wok w3" "keeps_streams cb w2 w3"
        by (auto simp: stream_frame_types_def)
      have keeps: "keeps_streams cb w w3"
        using w2(3) w3(3) by (rule keeps_trans)
      then have get3: "?get w3 = Some q"
        using q by (simp add: keeps_streams_def)
      have rest: "rest w = (if ossl_quic_sstream_is_totally_acked q then cb_sstream_updated cb i w3 else Inr w3)"
        unfolding rest_def w2(1) res_bind_simps w3(1) check_totally_acked [OF get3] by simp
      have "streams_ok cb C w3"
        using streams streams_ok_keeps keeps by (simp add: put)
      moreover have "none_new cb w w3"
        by (rule drops_none_new [OF keeps_drops [OF keeps]])
      moreover from updated [OF w3(2) get3, of q S] S have
        "\<exists>w'. cb_sstream_updated cb i w3 = Inr w' \<and> wok w' \<and> drops_streams cb w3 w'"
        by (simp add: put_self [OF get3] \<open>q' = q\<close>)
      ultimately show ?thesis
        using rest eq w3(2) by (auto simp: put intro: streams_ok_drops none_new_trans drops_none_new)
    qed
  qed
qed

lemma lost_chunk_inv:
  assumes wok: "wok w" and ok: "streams_ok cb (add_mset (tp_pkt_space (px_ackm_pkt pkt), c) C) w"
  shows "\<exists>w'. lost_chunk cb True pkt w c = Inr w' \<and> wok w' \<and> streams_ok cb C w' \<and> none_new cb w w'"
proof -
  define i s where "i = ch_stream_id c" and "s = tp_pkt_space (px_ackm_pkt pkt)"
  let ?get = "\<lambda>w. cb_get_sstream_by_id cb i s w" and ?put = "cb_put_sstream cb i s"
  show ?thesis
  proof (cases "?get w")
    case None
    with ok wok show ?thesis
      using streams_ok_dead [of "(s, c)" C w] none_new_refl by (auto simp: lost_chunk_def i_def s_def)
  next
    case q: (Some q)
    have t: "stream_tracked (add_mset (s, c) C) q i s"
      using ok q by (simp add: streams_ok_def s_def)
    have on: "chunk_on i s (s, c)"
      by (simp add: chunk_on_def same_stream_def i_def)
    define q1 where "q1 = (if ch_end c \<ge> ch_start c then fst (ossl_quic_sstream_mark_lost True q (ch_start c) (ch_end c)) else q)"
    define q' where "q' = lost_q q c"
    have q'_eq: "q' = (if ch_has_fin c \<and> i \<noteq> UINT64_MAX then fst (ossl_quic_sstream_mark_lost_fin q1) else q1)"
      by (simp add: q'_def lost_q_def q1_def i_def Let_def)
    have t': "stream_tracked C q' i s"
      using lost_tracked [OF t on] by (simp add: q'_def)
    have A: "\<exists>b. (if ch_end c \<ge> ch_start c
         then sstream_do cb i s (\<lambda>q. Inr (ossl_quic_sstream_mark_lost True q (ch_start c) (ch_end c))) w else Inr (w, True)) = Inr (?put q1 w, b)"
      by (auto simp: sstream_do_eq [OF q] put_self [OF q] q1_def split: prod.split)
    then obtain b where A': "(if ch_end c \<ge> ch_start c
         then sstream_do cb i s (\<lambda>q. Inr (ossl_quic_sstream_mark_lost True q (ch_start c) (ch_end c))) w else Inr (w, True)) = Inr (?put q1 w, b)"
      by blast
    have B: "\<exists>b. (if ch_has_fin c \<and> i \<noteq> UINT64_MAX then sstream_do cb i s (\<lambda>q. Inr (ossl_quic_sstream_mark_lost_fin q)) (?put q1 w)
         else Inr (?put q1 w, True)) = Inr (?put q' w, b)"
      by (auto simp: q'_eq sstream_do_eq [OF get_put_same [OF q]] put_put split: prod.split)
    then obtain b' where B': "(if ch_has_fin c \<and> i \<noteq> UINT64_MAX then sstream_do cb i s (\<lambda>q. Inr (ossl_quic_sstream_mark_lost_fin q)) (?put q1 w)
         else Inr (?put q1 w, True)) = Inr (?put q' w, b')"
      by blast
    let ?u = "ch_end c \<ge> ch_start c \<or> ch_has_fin c \<and> i \<noteq> UINT64_MAX"
    have eq: "lost_chunk cb True pkt w c =
          res_bind (if ch_has_stop_sending c \<and> i \<noteq> UINT64_MAX
                    then cb_regen_frame cb OSSL_QUIC_FRAME_TYPE_STOP_SENDING i pkt (?put q' w) else Inr (?put q' w)) (\<lambda>w.
          res_bind (if ch_has_reset_stream c \<and> i \<noteq> UINT64_MAX
                    then cb_regen_frame cb OSSL_QUIC_FRAME_TYPE_RESET_STREAM i pkt w else Inr w) (\<lambda>w.
          res_bind (cb_regen_frame cb OSSL_QUIC_FRAME_TYPE_MAX_STREAM_DATA i pkt w) (\<lambda>w.
          if ?u \<and> i \<noteq> UINT64_MAX then cb_sstream_updated cb i w else Inr w)))"
      unfolding lost_chunk_def Let_def i_def [symmetric] s_def [symmetric] q option.case A' B' res_bind_simps prod.case by (rule refl)
    obtain S where S: "sstream_ok q' S"
      using t' by (auto simp: stream_tracked_def)
    have wok1: "wok (?put q' w)"
      by (rule put_ok [OF wok q S]) (simp_all add: q'_def lost_fields)
    have streams: "streams_ok cb C (?put q' w)"
      using streams_ok_put [of "(s, c)" C w q q'] ok q t' by (simp add: i_def s_def)
    from regen_opt [OF wok1, of OSSL_QUIC_FRAME_TYPE_STOP_SENDING "ch_has_stop_sending c \<and> i \<noteq> UINT64_MAX" i pkt] obtain w2 where w2:
      "(if ch_has_stop_sending c \<and> i \<noteq> UINT64_MAX then cb_regen_frame cb OSSL_QUIC_FRAME_TYPE_STOP_SENDING i pkt (?put q' w) else Inr (?put q' w)) = Inr w2"
      "wok w2" "keeps_streams cb (?put q' w) w2"
      by (auto simp: regen_frame_types_def stream_frame_types_def)
    from regen_opt [OF w2(2), of OSSL_QUIC_FRAME_TYPE_RESET_STREAM "ch_has_reset_stream c \<and> i \<noteq> UINT64_MAX" i pkt] obtain w3 where w3:
      "(if ch_has_reset_stream c \<and> i \<noteq> UINT64_MAX then cb_regen_frame cb OSSL_QUIC_FRAME_TYPE_RESET_STREAM i pkt w2 else Inr w2) = Inr w3"
      "wok w3" "keeps_streams cb w2 w3"
      by (auto simp: regen_frame_types_def stream_frame_types_def)
    from regen [OF w3(2), of OSSL_QUIC_FRAME_TYPE_MAX_STREAM_DATA i pkt] obtain w4 where w4:
      "cb_regen_frame cb OSSL_QUIC_FRAME_TYPE_MAX_STREAM_DATA i pkt w3 = Inr w4" "wok w4" "keeps_streams cb w3 w4"
      by (auto simp: regen_frame_types_def)
    have keeps: "keeps_streams cb (?put q' w) w4"
      using w2(3) w3(3) w4(3) keeps_trans by blast
    then have get4: "?get w4 = Some q'"
      using get_put_same [OF q, of q'] by (simp add: keeps_streams_def)
    have streams4: "streams_ok cb C w4"
      by (rule streams_ok_keeps [OF streams keeps])
    have nn: "none_new cb w w4"
      by (rule none_new_trans [OF put_none_new [OF q] drops_none_new [OF keeps_drops [OF keeps]]])
    have res: "lost_chunk cb True pkt w c = (if ?u \<and> i \<noteq> UINT64_MAX then cb_sstream_updated cb i w4 else Inr w4)"
      unfolding eq w2(1) w3(1) w4(1) res_bind_simps by (rule refl)
    from updated [OF w4(2) get4 S] have "\<exists>w'. cb_sstream_updated cb i w4 = Inr w' \<and> wok w' \<and> drops_streams cb w4 w'"
      by (simp add: put_self [OF get4])
    then show ?thesis
      using res w4(2) streams4 nn by (auto intro: streams_ok_drops none_new_trans drops_none_new)
  qed
qed

lemma acked_chunks_inv:
  assumes "wok w" and "streams_ok cb (image_mset (Pair (tp_pkt_space (px_ackm_pkt pkt))) (mset cs) + C) w" and "\<forall>c \<in> set cs. chunk_wf c"
  shows "\<exists>w'. acked_chunks cb [] pkt w cs = Inr w' \<and> wok w' \<and> streams_ok cb C w' \<and> none_new cb w w'"
  using assms
proof (induction cs arbitrary: w)
  case (Cons c cs)
  from acked_chunk_inv [OF Cons.prems(1), of pkt c "image_mset (Pair (tp_pkt_space (px_ackm_pkt pkt))) (mset cs) + C"] Cons.prems(2,3) obtain w1 where
    w1: "acked_chunk cb True pkt w c = Inr w1" "wok w1" "streams_ok cb (image_mset (Pair (tp_pkt_space (px_ackm_pkt pkt))) (mset cs) + C) w1" "none_new cb w w1"
    by auto
  from Cons.IH [OF w1(2,3)] Cons.prems(3) w1 show ?case
    by (auto intro: none_new_trans)
qed (simp add: none_new_refl)

lemma lost_chunks_inv:
  assumes "wok w" and "streams_ok cb (image_mset (Pair (tp_pkt_space (px_ackm_pkt pkt))) (mset cs) + C) w"
  shows "\<exists>w'. lost_chunks cb [] pkt w cs = Inr w' \<and> wok w' \<and> streams_ok cb C w' \<and> none_new cb w w'"
  using assms
proof (induction cs arbitrary: w)
  case (Cons c cs)
  from lost_chunk_inv [OF Cons.prems(1), of pkt c "image_mset (Pair (tp_pkt_space (px_ackm_pkt pkt))) (mset cs) + C"] Cons.prems(2) obtain w1 where
    w1: "lost_chunk cb True pkt w c = Inr w1" "wok w1" "streams_ok cb (image_mset (Pair (tp_pkt_space (px_ackm_pkt pkt))) (mset cs) + C) w1" "none_new cb w w1"
    by auto
  from Cons.IH [OF w1(2,3)] w1 show ?case
    by (auto intro: none_new_trans)
qed (simp add: none_new_refl)

end


section \<open>Chunks that are sent\<close>

context fifd_client
begin

lemma sendable_less: "sendable cb (add_mset x D) w \<Longrightarrow> sendable cb D w"
  unfolding sendable_def by (force split: if_splits)

lemma sent_chunk_inv:
  assumes wok: "wok w" and ok: "streams_ok cb C w" and s: "sendable cb (add_mset (tp_pkt_space (px_ackm_pkt pkt), c) D) w"
  shows "\<exists>w' b. sent_chunk cb True pkt w c = Inr (w', b)
    \<and> (b \<longrightarrow> wok w' \<and> streams_ok cb (add_mset (tp_pkt_space (px_ackm_pkt pkt), c) C) w' \<and> sendable cb D w' \<and> none_new cb w w')"
proof -
  define i sp where "i = ch_stream_id c" and "sp = tp_pkt_space (px_ackm_pkt pkt)"
  let ?get = "\<lambda>w. cb_get_sstream_by_id cb i sp w" and ?put = "cb_put_sstream cb i sp" and ?x = "(sp, c)"
  have on: "chunk_on i' s' ?x \<longleftrightarrow> same_stream i sp i' s'" for i' s'
    by (auto simp: chunk_on_def same_stream_def i_def)
  show ?thesis
  proof (cases "?get w")
    case None
    have "streams_ok cb (add_mset ?x C) w"
      unfolding streams_ok_def
    proof (intro allI impI)
      fix i' s' q assume g: "cb_get_sstream_by_id cb i' s' w = Some q"
      then have "\<not> chunk_on i' s' ?x"
        using None get_same [OF g, of i sp] by (auto simp: on same_stream_def)
      then show "stream_tracked (add_mset ?x C) q i' s'"
        using ok g by (simp add: tracked_other streams_ok_def)
    qed
    with None wok sendable_less [OF s] none_new_refl show ?thesis
      by (intro exI [of _ w] exI [of _ True]) (simp add: sent_chunk_def i_def sp_def)
  next
    case q: (Some q)
    have t: "stream_tracked C q i sp"
      using ok q by (simp add: streams_ok_def)
    then obtain S where S: "sstream_ok q S"
      by (auto simp: stream_tracked_def)
    have cov: "cover (add_mset ?x D) i sp v \<le> (if v \<in> uint_set_ints (new_set q) then 1 else 0)" for v
      using s q unfolding sendable_def sp_def by blast
    have "v \<in> uint_set_ints (new_set q)" if "v \<in> {ch_start c..ch_end c}" for v
      using cov [of v] that by (auto simp: chunk_has_def on same_stream_def split: if_splits)
    then have new: "{ch_start (snd ?x)..ch_end (snd ?x)} \<subseteq> uint_set_ints (new_set q)"
      by auto
    obtain q1 b1 where q1: "(if ch_end c \<ge> ch_start c then ossl_quic_sstream_mark_transmitted True q (ch_start c) (ch_end c) else Inr (q, True)) = Inr (q1, b1)"
    proof (cases "ch_start c \<le> ch_end c")
      case True
      with mark_transmitted_exact [OF S True] that show ?thesis
        by auto
    qed (use that [of q True] in simp)
    have A: "(if ch_end c \<ge> ch_start c
         then sstream_do cb i sp (\<lambda>q. ossl_quic_sstream_mark_transmitted True q (ch_start c) (ch_end c)) w else Inr (w, True)) = Inr (?put q1 w, b1)"
      using q1 put_self [OF q] by (auto simp: sstream_do_eq [OF q] split: if_splits)
    obtain q' b where q': "sent_q q c = Inr (q', b)" and
      B: "(if \<not> b1 then Inr (?put q1 w, False)
          else if ch_has_fin c then sstream_do cb i sp (\<lambda>q. Inr (ossl_quic_sstream_mark_transmitted_fin q (ch_end c + 1))) (?put q1 w)
          else Inr (?put q1 w, True)) = Inr (?put q' w, b)"
      unfolding sent_q_def q1
      by (cases b1; cases "ch_has_fin c"; cases "ossl_quic_sstream_mark_transmitted_fin q1 (ch_end c + 1)")
        (auto simp: sstream_do_eq [OF get_put_same [OF q]] put_put)
    have res: "sent_chunk cb True pkt w c = Inr (?put q' w, b)"
      unfolding sent_chunk_def Let_def i_def [symmetric] sp_def [symmetric] q option.case A res_bind_simps prod.case B by (rule refl)
    show ?thesis
    proof (cases b)
      case False
      with res show ?thesis
        by (intro exI [of _ "?put q' w"] exI [of _ False]) simp
    next
      case True
      have T: "stream_tracked (add_mset ?x C) q' i sp" "have_final_size q' = have_final_size q"
        "ossl_quic_sstream_is_totally_acked q' = ossl_quic_sstream_is_totally_acked q"
        "uint_set_ints (new_set q') = uint_set_ints (new_set q) - {ch_start c..ch_end c}"
        using sent_tracked [OF t _ new, of q'] q' True by (simp_all add: on same_stream_def)
      then obtain S' where S': "sstream_ok q' S'"
        by (auto simp: stream_tracked_def)
      have "streams_ok cb (add_mset ?x C) (?put q' w)"
        unfolding streams_ok_def
      proof (intro allI impI)
        fix i' s' r assume g: "cb_get_sstream_by_id cb i' s' (?put q' w) = Some r"
        show "stream_tracked (add_mset ?x C) r i' s'"
        proof (cases "same_stream i sp i' s'")
          case True
          with g T(1) show ?thesis
            by (simp add: get_put [OF q] tracked_same)
        next
          case False
          with g ok show ?thesis
            by (simp add: get_put [OF q] tracked_other on streams_ok_def)
        qed
      qed
      moreover have "sendable cb D (?put q' w)"
        unfolding sendable_def
      proof (intro allI impI)
        fix i' s' r v assume g: "cb_get_sstream_by_id cb i' s' (?put q' w) = Some r"
        show "cover D i' s' v \<le> (if v \<in> uint_set_ints (new_set r) then 1 else 0)"
        proof (cases "same_stream i sp i' s'")
          case same: True
          then have "cover (add_mset ?x D) i' s' v \<le> (if v \<in> uint_set_ints (new_set q) then 1 else 0)"
            using s get_same [OF q same] unfolding sendable_def sp_def by blast
          moreover have "r = q'"
            using g same by (simp add: get_put [OF q])
          ultimately show ?thesis
            using same by (auto simp: T(4) chunk_has_def on split: if_splits)
        next
          case False
          then have "cb_get_sstream_by_id cb i' s' w = Some r"
            using g by (simp add: get_put [OF q])
          with sendable_less [OF s] show ?thesis
            unfolding sendable_def by blast
        qed
      qed
      moreover have "wok (?put q' w)"
        by (rule put_ok [OF wok q S']) (simp_all add: T)
      ultimately show ?thesis
        using res put_none_new [OF q] by (auto simp: sp_def)
    qed
  qed
qed

lemma sent_chunks_inv:
  assumes "wok w" and "streams_ok cb C w" and "sendable cb (image_mset (Pair (tp_pkt_space (px_ackm_pkt pkt))) (mset cs)) w"
  shows "\<exists>w' b. sent_chunks cb [] pkt w cs = Inr (w', b)
    \<and> (b \<longrightarrow> wok w' \<and> streams_ok cb (image_mset (Pair (tp_pkt_space (px_ackm_pkt pkt))) (mset cs) + C) w' \<and> none_new cb w w')"
  using assms
proof (induction cs arbitrary: w C)
  case (Cons c cs)
  from sent_chunk_inv [OF Cons.prems(1,2), of pkt c "image_mset (Pair (tp_pkt_space (px_ackm_pkt pkt))) (mset cs)"] Cons.prems(3) obtain w1 b where
    w1: "sent_chunk cb True pkt w c = Inr (w1, b)" "b \<longrightarrow> wok w1 \<and> streams_ok cb (add_mset (tp_pkt_space (px_ackm_pkt pkt), c) C) w1
       \<and> sendable cb (image_mset (Pair (tp_pkt_space (px_ackm_pkt pkt))) (mset cs)) w1 \<and> none_new cb w w1"
    by auto
  show ?case
  proof (cases b)
    case True
    then have "wok w1" "streams_ok cb (add_mset (tp_pkt_space (px_ackm_pkt pkt), c) C) w1"
      "sendable cb (image_mset (Pair (tp_pkt_space (px_ackm_pkt pkt))) (mset cs)) w1" "none_new cb w w1"
      using w1(2) by auto
    from Cons.IH [OF this(1-3)] this(4) w1(1) True show ?thesis
      by (auto intro: none_new_trans)
  next
    case False
    with w1(1) show ?thesis
      by (intro exI [of _ w1] exI [of _ False]) simp
  qed
next
  case Nil
  then show ?case
    by (intro exI [of _ w] exI [of _ True]) (simp add: none_new_refl)
qed

end


section \<open>Control frames in flight\<close>

definition cfq_in_tx :: "quic_cfq \<Rightarrow> cfq_addr \<Rightarrow> bool" where
  "cfq_in_tx q p \<longleftrightarrow> (\<exists>it. cfq_view q p = Some it \<and> it_state it = QUIC_CFQ_STATE_TX)"

definition cfq_is_new :: "quic_cfq \<Rightarrow> cfq_addr \<Rightarrow> bool" where
  "cfq_is_new q p \<longleftrightarrow> (\<exists>it. cfq_view q p = Some it \<and> it_state it = QUIC_CFQ_STATE_NEW)"

text \<open>\<open>T\<close>: the items of the packets in flight. Each is held by one packet, and they are the items in the TX state.\<close>

definition items_tracked :: "cfq_addr multiset \<Rightarrow> quic_cfq \<Rightarrow> bool" where
  "items_tracked T q \<longleftrightarrow> cfq_ok q \<and> (\<forall>p. count T p = (if cfq_in_tx q p then 1 else 0))"

lemma in_tx_upd:
  "cfq_view q' = (cfq_view q)(p := x) \<Longrightarrow>
    cfq_in_tx q' p' = (if p' = p then (case x of None \<Rightarrow> False | Some it \<Rightarrow> it_state it = QUIC_CFQ_STATE_TX) else cfq_in_tx q p')"
  by (auto simp: cfq_in_tx_def split: option.split)

lemma is_new_upd:
  "cfq_view q' = (cfq_view q)(p := x) \<Longrightarrow> p' \<noteq> p \<Longrightarrow> cfq_is_new q' p' = cfq_is_new q p'"
  by (auto simp: cfq_is_new_def)

lemma tracked_settle:
  assumes t: "items_tracked (add_mset p T) q" and "cfq_ok q'" and v: "cfq_view q' = (cfq_view q)(p := x)"
    and x: "\<And>it. x = Some it \<Longrightarrow> it_state it \<noteq> QUIC_CFQ_STATE_TX"
  shows "items_tracked T q'"
proof -
  have c: "count (add_mset p T) p' = (if cfq_in_tx q p' then 1 else 0)" for p'
    using t by (simp add: items_tracked_def)
  have "count T p' = (if cfq_in_tx q' p' then 1 else 0)" for p'
    using c [of p'] x by (auto simp: in_tx_upd [OF v] split: if_splits option.splits)
  with assms(2) show ?thesis
    by (simp add: items_tracked_def)
qed

lemma tracked_item: "items_tracked (add_mset p T) q \<Longrightarrow> \<exists>it. cfq_view q p = Some it"
proof -
  assume t: "items_tracked (add_mset p T) q"
  then have "count (add_mset p T) p = (if cfq_in_tx q p then 1 else 0)"
    unfolding items_tracked_def by blast
  then show ?thesis
    by (auto simp: cfq_in_tx_def split: if_splits)
qed

lemma release_items_tracked:
  "items_tracked (mset ps + T) q \<Longrightarrow> \<exists>q'. release_items q ps = Inr q' \<and> items_tracked T q'"
proof (induction ps arbitrary: q)
  case (Cons p ps)
  then have t: "items_tracked (add_mset p (mset ps + T)) q"
    by simp
  then have ok: "cfq_ok q"
    by (simp add: items_tracked_def)
  obtain it where it: "cfq_view q p = Some it"
    using tracked_item [OF t] by blast
  obtain q1 where q1: "ossl_quic_cfq_release q p = Inr q1" "cfq_ok q1" "cfq_view q1 = (cfq_view q)(p := None)"
    by (rule release_spec [OF ok it])
  from Cons.IH [OF tracked_settle [OF t q1(2,3)]] q1(1) show ?case
    by auto
qed simp

lemma lost_items_tracked:
  "items_tracked (mset ps + T) q \<Longrightarrow> \<exists>q'. lost_items q ps = Inr q' \<and> items_tracked T q'"
proof (induction ps arbitrary: q)
  case (Cons p ps)
  then have t: "items_tracked (add_mset p (mset ps + T)) q"
    by simp
  then have ok: "cfq_ok q"
    by (simp add: items_tracked_def)
  obtain it where it: "cfq_view q p = Some it"
    using tracked_item [OF t] by blast
  obtain q1 where q1: "ossl_quic_cfq_mark_lost q p UINT32_MAX = Inr q1" "cfq_ok q1"
    "cfq_view q1 = (cfq_view q)(p := if ossl_quic_cfq_item_is_unreliable it then None else Some (relost UINT32_MAX it))"
    by (rule mark_lost_spec [OF ok it, of UINT32_MAX])
  have "items_tracked (mset ps + T) q1"
    by (rule tracked_settle [OF t q1(2,3)]) (auto simp: relost_def cfq_states split: if_splits)
  from Cons.IH [OF this] q1(1) show ?case
    by auto
qed simp

lemma mark_tx_items_tracked:
  "items_tracked T q \<Longrightarrow> distinct ps \<Longrightarrow> \<forall>p \<in> set ps. cfq_is_new q p \<Longrightarrow>
    \<exists>q'. mark_tx_items q ps = Inr q' \<and> items_tracked (mset ps + T) q'"
proof (induction ps arbitrary: q T)
  case (Cons p ps)
  then have ok: "cfq_ok q"
    by (simp add: items_tracked_def)
  obtain it where it: "cfq_view q p = Some it" "it_state it = QUIC_CFQ_STATE_NEW"
    using Cons.prems(3) by (auto simp: cfq_is_new_def)
  obtain q1 where q1: "ossl_quic_cfq_mark_tx q p = Inr q1" "cfq_ok q1" "cfq_view q1 = (cfq_view q)(p \<mapsto> it\<lparr>it_state := QUIC_CFQ_STATE_TX\<rparr>)"
    by (rule mark_tx_spec [OF ok it(1)])
  have "\<not> cfq_in_tx q p"
    using it by (auto simp: cfq_in_tx_def cfq_states)
  then have "items_tracked (add_mset p T) q1"
    using Cons.prems(1) q1(2) by (auto simp: items_tracked_def in_tx_upd [OF q1(3)])
  moreover have "\<forall>p' \<in> set ps. cfq_is_new q1 p'"
    using Cons.prems(2,3) is_new_upd [OF q1(3)] by (metis distinct.simps(2) list.set_intros(2))
  ultimately obtain q' where "mark_tx_items q1 ps = Inr q'" "items_tracked (mset ps + add_mset p T) q'"
    using Cons.IH [of "add_mset p T" q1] Cons.prems(2) by auto
  with q1(1) show ?case
    by auto
qed simp

end
