(* ===== verification/Fifd_Run.thy ===== *)
theory Fifd_Run
  imports Fifd
begin

text \<open>
  Runs of the frame-in-flight dispatcher (\<^verbatim>\<open>ssl/quic/quic_fifd.c\<close>) with the acknowledgement manager, the control frame queue and the pool of sent
  packets: packets are built, sent and then acknowledged, lost or discarded, in any order, while the application writes to the streams.
\<close>

section \<open>What the application does to a stream\<close>

inductive sstream_app_step :: "quic_sstream \<Rightarrow> quic_sstream \<Rightarrow> bool" where
  app_none: "sstream_app_step q q"
| app_append: "length buf < 2 ^ 64 \<Longrightarrow> ossl_quic_sstream_append mem q buf = Inr (q', n, b) \<Longrightarrow> sstream_app_step q q'"
| app_fin: "sstream_app_step q (ossl_quic_sstream_fin q)"
| app_resize: "n < 2 ^ 63 \<Longrightarrow> (case blk of None \<Rightarrow> True | Some b \<Rightarrow> length b = unat n) \<Longrightarrow>
    ossl_quic_sstream_set_buffer_size blk q n = Inr (q', b) \<Longrightarrow> sstream_app_step q q'"
| app_cleanse: "sstream_app_step q (ossl_quic_sstream_set_cleanse q c)"

lemma append_exact:
  assumes ok: "sstream_ok q S" and len: "length buf < 2 ^ 64" and res: "ossl_quic_sstream_append mem q buf = Inr (q', n, b)"
  shows "sstream_ok q' (S @ take (unat n) buf)" and "acked_set q' = acked_set q"
    and "uint_set_ints (new_set q') = uint_set_ints (new_set q) \<union> {v. length S \<le> unat v \<and> unat v < length S + unat n}"
    and "length (S @ take (unat n) buf) = length S + unat n"
    and "have_final_size q' = have_final_size q" and "sent_final_size q' = sent_final_size q" and "acked_final_size q' = acked_final_size q"
proof -
  have app: "sstream_ok q' (S @ take (unat n) buf)" "unat n \<le> length buf"
    using sstream_append_ok [OF ok len, of mem] res by force+
  then show ok': "sstream_ok q' (S @ take (unat n) buf)" and len': "length (S @ take (unat n) buf) = length S + unat n"
    by simp_all
  have bound: "length S + unat n \<le> 2 ^ 62"
    using sstream_okD(8,9) [OF ok'] len' by (simp add: ring_ok_def)
  have fields: "acked_set q' = acked_set q \<and> have_final_size q' = have_final_size q \<and> sent_final_size q' = sent_final_size q
      \<and> acked_final_size q' = acked_final_size q
      \<and> uint_set_ints (new_set q') = uint_set_ints (new_set q) \<union> {v. length S \<le> unat v \<and> unat v < length S + unat n}"
  proof (cases "have_final_size q")
    case True
    with res show ?thesis
      by (auto simp: ossl_quic_sstream_append_def Let_def)
  next
    case False
    obtain r c where r: "sstream_append_loop (ss_ring q) buf 0 = Inr (r, c)"
      using res False by (cases "sstream_append_loop (ss_ring q) buf 0") (auto simp: ossl_quic_sstream_append_def Let_def)
    let ?rg = "\<lparr>rstart = head_offset (ss_ring q), rend = head_offset (ss_ring q) + c - 1\<rparr>"
    obtain s k where s: "ossl_uint_set_insert mem (new_set q) ?rg = (s, k)"
      by fastforce
    show ?thesis
    proof (cases "0 < c \<and> k")
      case True
      then have q': "q' = q\<lparr>new_set := s, ss_ring := r\<rparr>" "n = c"
        using res False r s by (simp_all add: ossl_quic_sstream_append_def Let_def)
      have c: "0 < unat c"
        using True by (simp add: word_less_nat_alt)
      have head: "unat (head_offset (ss_ring q)) = length S"
        using sstream_okD(9) [OF ok] .
      have "unat (head_offset (ss_ring q) + c) = length S + unat c"
        using head bound by (simp add: unat_add_no_overflow q'(2) [symmetric])
      then have e: "unat (rend ?rg) = length S + unat c - 1"
        using c unat_minus_one [of "head_offset (ss_ring q) + c"] by (auto simp: word_unat_eq_iff)
      have range: "{rstart ?rg..rend ?rg} = {v. length S \<le> unat v \<and> unat v < length S + unat c}"
        using head e c by (auto simp: word_le_nat_alt)
      have "rstart ?rg \<le> rend ?rg"
        using head e c by (simp add: word_le_nat_alt)
      then have "uint_set_ints s = uint_set_ints (new_set q) \<union> {rstart ?rg..rend ?rg}"
        using uset.ins_ok [OF sstream_okD(2) [OF ok], of ?rg mem s] s True by simp
      then have "uint_set_ints s = uint_set_ints (new_set q) \<union> {v. length S \<le> unat v \<and> unat v < length S + unat c}"
        unfolding range .
      then show ?thesis
        by (simp add: q')
    next
      case no: False
      then have F: "n = 0 \<and> acked_set q' = acked_set q \<and> have_final_size q' = have_final_size q \<and> sent_final_size q' = sent_final_size q
          \<and> acked_final_size q' = acked_final_size q \<and> (new_set q' = new_set q \<or> 0 < c \<and> \<not> k \<and> new_set q' = s)"
        using res False r s by (auto simp: ossl_quic_sstream_append_def Let_def word_gt_0 split: if_splits)
      moreover have "uint_set_ints s = uint_set_ints (new_set q)" if "\<not> k"
        using that s uset.ins_fail [OF sstream_okD(2) [OF ok], of ?rg mem s] uset.ins_invalid [of ?rg mem "new_set q"]
        by (cases "rstart ?rg \<le> rend ?rg") auto
      ultimately have "uint_set_ints (new_set q') = uint_set_ints (new_set q)"
        by (metis (no_types))
      moreover have "{v :: u64. length S \<le> unat v \<and> unat v < length S} = {}"
        by auto
      moreover have "length S + unat n = length S"
        using F by simp
      ultimately show ?thesis
        using F by (simp only: Un_empty_right simp_thms)
    qed
  qed
  then show "acked_set q' = acked_set q" "have_final_size q' = have_final_size q" "sent_final_size q' = sent_final_size q"
    "acked_final_size q' = acked_final_size q"
    "uint_set_ints (new_set q') = uint_set_ints (new_set q) \<union> {v. length S \<le> unat v \<and> unat v < length S + unat n}"
    by (simp_all only:)
qed

lemma tracked_cong:
  assumes "stream_tracked C q i s" and "sstream_ok q' S'" and "sstream_flying q' = sstream_flying q" and "sent_final_size q' = sent_final_size q"
    and "acked_final_size q' = acked_final_size q" and "have_final_size q \<longrightarrow> have_final_size q'"
  shows "stream_tracked C q' i s"
  using assms by (auto simp: stream_tracked_def)

lemma app_step_tracked:
  assumes "sstream_app_step q q'" and t: "stream_tracked C q i s"
  shows "stream_tracked C q' i s"
  using assms
proof cases
  case (app_append buf mem n b)
  from t obtain S where S: "sstream_ok q S"
    by (auto simp: stream_tracked_def)
  note a = append_exact [OF S app_append]
  have "rb_head (ss_ring q') = length S + unat n" "rb_head (ss_ring q) = length S"
    using sstream_okD(9) [OF a(1)] sstream_okD(9) [OF S] a(4) by simp_all
  moreover have "unat v < length S" if "v \<in> uint_set_ints (acked_set q)" for v
    using sstream_okD(5) [OF S that] .
  ultimately have "sstream_flying q' = sstream_flying q"
    by (auto simp: sstream_flying_def a(2,3))
  with t a show ?thesis
    by (intro tracked_cong [OF t a(1)]) auto
next
  case (app_resize n blk b)
  from t obtain S where S: "sstream_ok q S"
    by (auto simp: stream_tracked_def)
  have ok': "sstream_ok q' S"
    by (rule sstream_resize_ok [OF S app_resize(3,1,2)])
  obtain r where "q' = q\<lparr>ss_ring := r\<rparr>"
    using app_resize(3) by (auto simp: ossl_quic_sstream_set_buffer_size_def res_bind_Inr)
  moreover have "rb_head (ss_ring q') = rb_head (ss_ring q)"
    using sstream_okD(9) [OF ok'] sstream_okD(9) [OF S] by simp
  ultimately have "sstream_flying q' = sstream_flying q" "sent_final_size q' = sent_final_size q" "acked_final_size q' = acked_final_size q"
    "have_final_size q' = have_final_size q"
    by (simp_all add: sstream_flying_def)
  then show ?thesis
    by (intro tracked_cong [OF t ok']) auto
qed (use t in \<open>auto simp: stream_tracked_def sstream_flying_def ossl_quic_sstream_fin_def ossl_quic_sstream_set_cleanse_def
    sstream_ok_def\<close>)

lemma new_stream_tracked:
  assumes "ossl_quic_sstream_new mem blk n = Inr (Some q)" and "n < 2 ^ 63" and "case blk of None \<Rightarrow> True | Some b \<Rightarrow> length b = unat n"
    and none: "\<forall>x \<in># C. \<not> chunk_on i s x"
  shows "stream_tracked C q i s"
proof -
  have ok: "sstream_ok q []"
    by (rule sstream_new_ok [OF assms(1-3)])
  have "sstream_flying q = {}"
    using sstream_okD(9) [OF ok] by (auto simp: sstream_flying_def)
  moreover have "cover C i s v = 0" for v
    using none by (auto simp: cover_def chunk_has_def filter_mset_eq_conv)
  moreover have "\<not> sent_final_size q"
    using assms(1) by (cases "ring_buf_resize blk ring_buf_init n False") (auto simp: ossl_quic_sstream_new_def split: if_splits prod.splits)
  ultimately show ?thesis
    using ok by (auto simp: stream_tracked_def)
qed

text \<open>
  A step of the rest of the connection: it leaves every stream alone, lets the application act on it, frees it, or creates one of which no chunk is in flight.
\<close>

definition world_step :: "'w fifd_callbacks \<Rightarrow> flying_chunk multiset \<Rightarrow> 'w \<Rightarrow> 'w \<Rightarrow> bool" where
  "world_step cb C w w' \<longleftrightarrow> (\<forall>i s q'. cb_get_sstream_by_id cb i s w' = Some q' \<longrightarrow>
     (\<exists>q. cb_get_sstream_by_id cb i s w = Some q \<and> sstream_app_step q q')
     \<or> (\<exists>mem blk n. ossl_quic_sstream_new mem blk n = Inr (Some q') \<and> n < 2 ^ 63 \<and> (case blk of None \<Rightarrow> True | Some b \<Rightarrow> length b = unat n)
        \<and> (\<forall>x \<in># C. \<not> chunk_on i s x)))"

lemma world_step_streams: "streams_ok cb C w \<Longrightarrow> world_step cb C w w' \<Longrightarrow> streams_ok cb C w'"
proof (unfold streams_ok_def, intro allI impI)
  fix i s q'
  assume ok: "\<forall>i s q. cb_get_sstream_by_id cb i s w = Some q \<longrightarrow> stream_tracked C q i s" and "world_step cb C w w'"
    and "cb_get_sstream_by_id cb i s w' = Some q'"
  then consider q where "cb_get_sstream_by_id cb i s w = Some q" "sstream_app_step q q'"
    | mem blk n where "ossl_quic_sstream_new mem blk n = Inr (Some q')" "n < 2 ^ 63" "case blk of None \<Rightarrow> True | Some b \<Rightarrow> length b = unat n"
      "\<forall>x \<in># C. \<not> chunk_on i s x"
    unfolding world_step_def by blast
  then show "stream_tracked C q' i s"
  proof cases
    case 1
    with ok show ?thesis
      by (auto intro: app_step_tracked)
  next
    case 2
    then show ?thesis
      by (rule new_stream_tracked)
  qed
qed


section \<open>Packets in flight\<close>

text \<open>\<open>H\<close>: the packets the acknowledgement manager holds, each with the address of its contents.\<close>

definition chunks_of :: "quic_txpim \<Rightarrow> ackm_tx_pkt \<Rightarrow> flying_chunk multiset" where
  "chunks_of m h = (case txpim_pkts m (tp_cb_arg h) of None \<Rightarrow> {#} | Some x \<Rightarrow> image_mset (Pair (tp_pkt_space (px_ackm_pkt x))) (mset (px_chunks x)))"

definition items_of :: "quic_txpim \<Rightarrow> ackm_tx_pkt \<Rightarrow> cfq_addr multiset" where
  "items_of m h = (case txpim_pkts m (tp_cb_arg h) of None \<Rightarrow> {#} | Some x \<Rightarrow> mset (px_retx x))"

definition flight_chunks :: "quic_txpim \<Rightarrow> ackm_tx_pkt multiset \<Rightarrow> flying_chunk multiset" where
  "flight_chunks m H = (\<Sum>h \<in># H. chunks_of m h)"

definition flight_items :: "quic_txpim \<Rightarrow> ackm_tx_pkt multiset \<Rightarrow> cfq_addr multiset" where
  "flight_items m H = (\<Sum>h \<in># H. items_of m h)"

definition pkts_ok :: "quic_txpim \<Rightarrow> ackm_tx_pkt multiset \<Rightarrow> bool" where
  "pkts_ok m H \<longleftrightarrow> pool_ok m
     \<and> (\<forall>h \<in># H. tp_cb_arg h \<in> txpim_live m \<and> (\<exists>x. txpim_pkts m (tp_cb_arg h) = Some x \<and> px_ackm_pkt x = h \<and> (\<forall>c \<in> set (px_chunks x). chunk_wf c)))
     \<and> (\<forall>p. count (image_mset tp_cb_arg H) p \<le> 1)"

definition fifd_inv :: "'w fifd_callbacks \<Rightarrow> ('w \<Rightarrow> bool) \<Rightarrow> ackm_tx_pkt multiset \<Rightarrow> ('cc, 'w) quic_fifd \<Rightarrow> bool" where
  "fifd_inv cb wok H fd \<longleftrightarrow> wok (fd_world fd) \<and> pkts_ok (fd_txpim fd) H
     \<and> streams_ok cb (flight_chunks (fd_txpim fd) H) (fd_world fd) \<and> items_tracked (flight_items (fd_txpim fd) H) (fd_cfq fd)"

lemma flight_chunk_simps [simp]:
  "flight_chunks m {#} = {#}" "flight_chunks m (add_mset h H) = chunks_of m h + flight_chunks m H"
  "flight_items m {#} = {#}" "flight_items m (add_mset h H) = items_of m h + flight_items m H"
  by (simp_all add: flight_chunks_def flight_items_def)

lemma flight_cong:
  assumes "\<forall>h \<in># H. txpim_pkts m' (tp_cb_arg h) = txpim_pkts m (tp_cb_arg h)"
  shows "flight_chunks m' H = flight_chunks m H" and "flight_items m' H = flight_items m H"
proof -
  have "chunks_of m' h = chunks_of m h" "items_of m' h = items_of m h" if "h \<in># H" for h
    using assms that by (simp_all add: chunks_of_def items_of_def)
  then show "flight_chunks m' H = flight_chunks m H" "flight_items m' H = flight_items m H"
    unfolding flight_chunks_def flight_items_def by (metis (no_types, lifting) image_mset_cong)+
qed

lemma pkts_ok_not_in: "pkts_ok m (add_mset h H) \<Longrightarrow> h' \<in># H \<Longrightarrow> tp_cb_arg h' \<noteq> tp_cb_arg h"
proof
  assume ok: "pkts_ok m (add_mset h H)" and h: "h' \<in># H" "tp_cb_arg h' = tp_cb_arg h"
  have "count (image_mset tp_cb_arg (add_mset h H)) (tp_cb_arg h) \<le> 1"
    using ok unfolding pkts_ok_def by blast
  moreover have "tp_cb_arg h \<in># image_mset tp_cb_arg H"
    using h by (metis imageI set_image_mset)
  ultimately show False
    by (simp add: count_eq_zero_iff)
qed

lemma pkts_ok_pkt:
  assumes "pkts_ok m (add_mset h H)"
  obtains x where "txpim_pkts m (tp_cb_arg h) = Some x" "px_ackm_pkt x = h" "\<forall>c \<in> set (px_chunks x). chunk_wf c" "tp_cb_arg h \<in> txpim_live m"
  using assms unfolding pkts_ok_def by auto

lemma fetch_chunks_spec:
  assumes "txpim_pkts m p = Some x"
  obtains x' chunks where "fetch_chunks m p = Inr (txpim_put m p x', x', chunks)" "mset chunks = mset (px_chunks x)" "px_chunks x' = chunks"
    "px_ackm_pkt x' = px_ackm_pkt x" "px_retx x' = px_retx x"
proof -
  obtain x' chunks where g: "ossl_quic_txpim_pkt_get_chunks x = (x', chunks)"
    by fastforce
  note s = get_chunks_spec [OF g]
  have "fetch_chunks m p = Inr (txpim_put m p x', x', chunks)"
    using assms g by (simp add: fetch_chunks_def txpim_at_def)
  with s show ?thesis
    by (intro that [of x' chunks]) simp_all
qed

text \<open>A packet that leaves flight.\<close>

lemma pkts_ok_release:
  assumes ok: "pkts_ok m (add_mset h H)" and put: "m1 = m \<or> m1 = txpim_put m (tp_cb_arg h) x'"
    and rel: "ossl_quic_txpim_pkt_release m1 (tp_cb_arg h) = Inr m2" "pool_ok m2" "txpim_live m2 = txpim_live m1 - {tp_cb_arg h}" "txpim_pkts m2 = txpim_pkts m1"
  shows "pkts_ok m2 H" and "flight_chunks m2 H = flight_chunks m H" and "flight_items m2 H = flight_items m H"
proof -
  have live: "tp_cb_arg h \<in> dom (txpim_pkts m)" "pool_ok m"
    using ok by (auto simp: pkts_ok_def)
  have other: "txpim_pkts m2 (tp_cb_arg h') = txpim_pkts m (tp_cb_arg h')" "tp_cb_arg h' \<noteq> tp_cb_arg h" if "h' \<in># H" for h'
    using pkts_ok_not_in [OF ok that] put by (auto simp: rel(4) txpim_put_def)
  have "txpim_live m1 = txpim_live m"
    using put pool_put(2) [OF live(2,1)] by auto
  moreover have "count (image_mset tp_cb_arg H) p \<le> 1" for p
  proof -
    have "count (image_mset tp_cb_arg (add_mset h H)) p \<le> 1"
      using ok unfolding pkts_ok_def by blast
    then show ?thesis
      by (simp split: if_splits)
  qed
  ultimately show "pkts_ok m2 H"
    using ok other rel(2,3) unfolding pkts_ok_def by fastforce
  show "flight_chunks m2 H = flight_chunks m H" "flight_items m2 H = flight_items m H"
    using flight_cong [of H m2 m] other(1) by simp_all
qed

context fifd_client
begin

lemma on_acked_inv:
  assumes inv: "fifd_inv cb wok (add_mset h H) fd"
  shows "\<exists>fd'. on_acked cb [] fd (tp_cb_arg h) = Inr fd' \<and> fifd_inv cb wok H fd' \<and> fd_ackm fd' = fd_ackm fd
    \<and> none_new cb (fd_world fd) (fd_world fd') \<and> (\<forall>h' \<in># H. chunks_of (fd_txpim fd') h' = chunks_of (fd_txpim fd) h')
    \<and> txpim_live (fd_txpim fd') = txpim_live (fd_txpim fd) - {tp_cb_arg h}"
proof -
  let ?m = "fd_txpim fd" and ?p = "tp_cb_arg h"
  have I: "wok (fd_world fd)" "pkts_ok ?m (add_mset h H)" "streams_ok cb (flight_chunks ?m (add_mset h H)) (fd_world fd)"
    "items_tracked (flight_items ?m (add_mset h H)) (fd_cfq fd)"
    using inv by (simp_all add: fifd_inv_def)
  obtain x where x: "txpim_pkts ?m ?p = Some x" "px_ackm_pkt x = h" "\<forall>c \<in> set (px_chunks x). chunk_wf c" "?p \<in> txpim_live ?m"
    by (rule pkts_ok_pkt [OF I(2)])
  obtain x' cs where f: "fetch_chunks ?m ?p = Inr (txpim_put ?m ?p x', x', cs)" "mset cs = mset (px_chunks x)" "px_chunks x' = cs"
    "px_ackm_pkt x' = px_ackm_pkt x" "px_retx x' = px_retx x"
    by (rule fetch_chunks_spec [OF x(1)])
  have "chunks_of ?m h = image_mset (Pair (tp_pkt_space (px_ackm_pkt x'))) (mset cs)" "items_of ?m h = mset (px_retx x')"
    by (simp_all add: chunks_of_def items_of_def x(1) f(2,4,5))
  with I(3,4) have s: "streams_ok cb (image_mset (Pair (tp_pkt_space (px_ackm_pkt x'))) (mset cs) + flight_chunks ?m H) (fd_world fd)"
    and t: "items_tracked (mset (px_retx x') + flight_items ?m H) (fd_cfq fd)"
    by simp_all
  have wf: "\<forall>c \<in> set cs. chunk_wf c"
    using x(3) mset_eq_setD [OF f(2)] by simp
  from acked_chunks_inv [OF I(1) s wf] obtain w where w: "acked_chunks cb [] x' (fd_world fd) cs = Inr w" "wok w"
    "streams_ok cb (flight_chunks ?m H) w" "none_new cb (fd_world fd) w"
    by blast
  from release_items_tracked [OF t] obtain q where q: "release_items (fd_cfq fd) (px_retx x') = Inr q" "items_tracked (flight_items ?m H) q"
    by blast
  have pool: "pool_ok ?m" "?p \<in> dom (txpim_pkts ?m)"
    using I(2) x(1) by (auto simp: pkts_ok_def)
  obtain m2 where m2: "ossl_quic_txpim_pkt_release (txpim_put ?m ?p x') ?p = Inr m2" "pool_ok m2"
    "txpim_live m2 = txpim_live (txpim_put ?m ?p x') - {?p}" "txpim_pkts m2 = txpim_pkts (txpim_put ?m ?p x')"
    by (rule pool_release [of "txpim_put ?m ?p x'" ?p]) (use pool_put [OF pool] x(4) in auto)
  note P = pkts_ok_release [OF I(2) disjI2 [OF refl] m2]
  have live: "txpim_live m2 = txpim_live ?m - {?p}"
    using m2(3) pool_put(2) [OF pool] by simp
  have "on_acked cb [] fd ?p = Inr (fd\<lparr>fd_cfq := q, fd_txpim := m2, fd_world := w\<rparr>)"
    by (simp add: on_acked_def f(1) w(1) q(1) m2(1))
  moreover have "chunks_of m2 h' = chunks_of ?m h'" if "h' \<in># H" for h'
    using pkts_ok_not_in [OF I(2) that] by (simp add: chunks_of_def m2(4) txpim_put_def)
  ultimately show ?thesis
    using w q P live by (auto simp: fifd_inv_def)
qed

lemma regen_if_inv:
  "wok w \<Longrightarrow> t \<in> regen_frame_types \<Longrightarrow> \<exists>w'. regen_if cb b t pkt w = Inr w' \<and> wok w' \<and> keeps_streams cb w w'"
  unfolding regen_if_def by (rule regen_opt)

lemma on_lost_inv:
  assumes inv: "fifd_inv cb wok (add_mset h H) fd"
  shows "\<exists>fd'. on_lost cb [] fd (tp_cb_arg h) = Inr fd' \<and> fifd_inv cb wok H fd' \<and> fd_ackm fd' = fd_ackm fd
    \<and> none_new cb (fd_world fd) (fd_world fd') \<and> (\<forall>h' \<in># H. chunks_of (fd_txpim fd') h' = chunks_of (fd_txpim fd) h')
    \<and> txpim_live (fd_txpim fd') = txpim_live (fd_txpim fd) - {tp_cb_arg h}"
proof -
  let ?m = "fd_txpim fd" and ?p = "tp_cb_arg h"
  have I: "wok (fd_world fd)" "pkts_ok ?m (add_mset h H)" "streams_ok cb (flight_chunks ?m (add_mset h H)) (fd_world fd)"
    "items_tracked (flight_items ?m (add_mset h H)) (fd_cfq fd)"
    using inv by (simp_all add: fifd_inv_def)
  obtain x where x: "txpim_pkts ?m ?p = Some x" "px_ackm_pkt x = h" "\<forall>c \<in> set (px_chunks x). chunk_wf c" "?p \<in> txpim_live ?m"
    by (rule pkts_ok_pkt [OF I(2)])
  obtain x' cs where f: "fetch_chunks ?m ?p = Inr (txpim_put ?m ?p x', x', cs)" "mset cs = mset (px_chunks x)" "px_chunks x' = cs"
    "px_ackm_pkt x' = px_ackm_pkt x" "px_retx x' = px_retx x"
    by (rule fetch_chunks_spec [OF x(1)])
  have "chunks_of ?m h = image_mset (Pair (tp_pkt_space (px_ackm_pkt x'))) (mset cs)" "items_of ?m h = mset (px_retx x')"
    by (simp_all add: chunks_of_def items_of_def x(1) f(2,4,5))
  with I(3,4) have s: "streams_ok cb (image_mset (Pair (tp_pkt_space (px_ackm_pkt x'))) (mset cs) + flight_chunks ?m H) (fd_world fd)"
    and t: "items_tracked (mset (px_retx x') + flight_items ?m H) (fd_cfq fd)"
    by simp_all
  from lost_chunks_inv [OF I(1) s] obtain w where w: "lost_chunks cb [] x' (fd_world fd) cs = Inr w" "wok w"
    "streams_ok cb (flight_chunks ?m H) w" "none_new cb (fd_world fd) w"
    by blast
  from lost_items_tracked [OF t] obtain q where q: "lost_items (fd_cfq fd) (px_retx x') = Inr q" "items_tracked (flight_items ?m H) q"
    by blast
  from regen_if_inv [OF w(2), of OSSL_QUIC_FRAME_TYPE_HANDSHAKE_DONE "had_handshake_done_frame x'" x'] obtain w1 where
    w1: "regen_if cb (had_handshake_done_frame x') OSSL_QUIC_FRAME_TYPE_HANDSHAKE_DONE x' w = Inr w1" "wok w1" "keeps_streams cb w w1"
    by (auto simp: regen_frame_types_def)
  from regen_if_inv [OF w1(2), of OSSL_QUIC_FRAME_TYPE_MAX_DATA "had_max_data_frame x'" x'] obtain w2 where
    w2: "regen_if cb (had_max_data_frame x') OSSL_QUIC_FRAME_TYPE_MAX_DATA x' w1 = Inr w2" "wok w2" "keeps_streams cb w1 w2"
    by (auto simp: regen_frame_types_def)
  from regen_if_inv [OF w2(2), of OSSL_QUIC_FRAME_TYPE_MAX_STREAMS_BIDI "had_max_streams_bidi_frame x'" x'] obtain w3 where
    w3: "regen_if cb (had_max_streams_bidi_frame x') OSSL_QUIC_FRAME_TYPE_MAX_STREAMS_BIDI x' w2 = Inr w3" "wok w3" "keeps_streams cb w2 w3"
    by (auto simp: regen_frame_types_def)
  from regen_if_inv [OF w3(2), of OSSL_QUIC_FRAME_TYPE_MAX_STREAMS_UNI "had_max_streams_uni_frame x'" x'] obtain w4 where
    w4: "regen_if cb (had_max_streams_uni_frame x') OSSL_QUIC_FRAME_TYPE_MAX_STREAMS_UNI x' w3 = Inr w4" "wok w4" "keeps_streams cb w3 w4"
    by (auto simp: regen_frame_types_def)
  from regen_if_inv [OF w4(2), of OSSL_QUIC_FRAME_TYPE_ACK_WITH_ECN "had_ack_frame x'" x'] obtain w5 where
    w5: "regen_if cb (had_ack_frame x') OSSL_QUIC_FRAME_TYPE_ACK_WITH_ECN x' w4 = Inr w5" "wok w5" "keeps_streams cb w4 w5"
    by (auto simp: regen_frame_types_def)
  have keeps: "keeps_streams cb w w5"
    using w1(3) w2(3) w3(3) w4(3) w5(3) by (blast intro: keeps_trans)
  have pool: "pool_ok ?m" "?p \<in> dom (txpim_pkts ?m)"
    using I(2) x(1) by (auto simp: pkts_ok_def)
  obtain m2 where m2: "ossl_quic_txpim_pkt_release (txpim_put ?m ?p x') ?p = Inr m2" "pool_ok m2"
    "txpim_live m2 = txpim_live (txpim_put ?m ?p x') - {?p}" "txpim_pkts m2 = txpim_pkts (txpim_put ?m ?p x')"
    by (rule pool_release [of "txpim_put ?m ?p x'" ?p]) (use pool_put [OF pool] x(4) in auto)
  note P = pkts_ok_release [OF I(2) disjI2 [OF refl] m2]
  have live: "txpim_live m2 = txpim_live ?m - {?p}"
    using m2(3) pool_put(2) [OF pool] by simp
  have "on_lost cb [] fd ?p = Inr (fd\<lparr>fd_cfq := q, fd_txpim := m2, fd_world := w5\<rparr>)"
    by (simp add: on_lost_def f(1) w(1) q(1) w1(1) w2(1) w3(1) w4(1) w5(1) m2(1))
  moreover have "chunks_of m2 h' = chunks_of ?m h'" if "h' \<in># H" for h'
    using pkts_ok_not_in [OF I(2) that] by (simp add: chunks_of_def m2(4) txpim_put_def)
  moreover have "none_new cb (fd_world fd) w5"
    by (rule none_new_trans [OF w(4) drops_none_new [OF keeps_drops [OF keeps]]])
  ultimately show ?thesis
    using q P live w5(2) streams_ok_keeps [OF w(3) keeps] by (auto simp: fifd_inv_def)
qed

lemma streams_ok_dead_chunks:
  "streams_ok cb (D + C) w \<Longrightarrow> \<forall>x \<in># D. cb_get_sstream_by_id cb (ch_stream_id (snd x)) (fst x) w = None \<Longrightarrow> streams_ok cb C w"
proof (induction D)
  case (add x D)
  then have "streams_ok cb (D + C) w"
    using streams_ok_dead [of x "D + C" w] by simp
  with add show ?case
    by simp
qed simp

lemma on_discarded_inv:
  assumes inv: "fifd_inv cb wok (add_mset h H) fd"
    and dead: "\<forall>x \<in># chunks_of (fd_txpim fd) h. cb_get_sstream_by_id cb (ch_stream_id (snd x)) (fst x) (fd_world fd) = None"
  shows "\<exists>fd'. on_discarded fd (tp_cb_arg h) = Inr fd' \<and> fifd_inv cb wok H fd' \<and> fd_ackm fd' = fd_ackm fd
    \<and> none_new cb (fd_world fd) (fd_world fd') \<and> (\<forall>h' \<in># H. chunks_of (fd_txpim fd') h' = chunks_of (fd_txpim fd) h')
    \<and> txpim_live (fd_txpim fd') = txpim_live (fd_txpim fd) - {tp_cb_arg h}"
proof -
  let ?m = "fd_txpim fd" and ?p = "tp_cb_arg h"
  have I: "wok (fd_world fd)" "pkts_ok ?m (add_mset h H)" "streams_ok cb (chunks_of ?m h + flight_chunks ?m H) (fd_world fd)"
    "items_tracked (items_of ?m h + flight_items ?m H) (fd_cfq fd)"
    using inv by (simp_all add: fifd_inv_def)
  obtain x where x: "txpim_pkts ?m ?p = Some x" "px_ackm_pkt x = h" "\<forall>c \<in> set (px_chunks x). chunk_wf c" "?p \<in> txpim_live ?m"
    by (rule pkts_ok_pkt [OF I(2)])
  have s: "streams_ok cb (flight_chunks ?m H) (fd_world fd)"
    by (rule streams_ok_dead_chunks [OF I(3) dead])
  have "items_tracked (mset (px_retx x) + flight_items ?m H) (fd_cfq fd)"
    using I(4) x(1) by (simp add: items_of_def)
  from release_items_tracked [OF this] obtain q where q: "release_items (fd_cfq fd) (px_retx x) = Inr q" "items_tracked (flight_items ?m H) q"
    by blast
  have "pool_ok ?m"
    using I(2) by (simp add: pkts_ok_def)
  then obtain m2 where m2: "ossl_quic_txpim_pkt_release ?m ?p = Inr m2" "pool_ok m2"
    "txpim_live m2 = txpim_live ?m - {?p}" "txpim_pkts m2 = txpim_pkts ?m"
    using x(4) by (rule pool_release)
  note P = pkts_ok_release [OF I(2) disjI1 [OF refl] m2]
  have "on_discarded fd ?p = Inr (fd\<lparr>fd_cfq := q, fd_txpim := m2\<rparr>)"
    by (simp add: on_discarded_def txpim_at_def x(1) q(1) m2(1))
  moreover have "chunks_of m2 h' = chunks_of ?m h'" for h'
    by (simp add: chunks_of_def m2(4))
  ultimately show ?thesis
    using I(1) s q P m2(3) by (auto simp: fifd_inv_def none_new_refl)
qed

end


section \<open>Steps of the acknowledgement manager\<close>

text \<open>The operations of \<^const>\<open>ackm_run\<close> that neither create a manager, send a packet nor discard a space, with their labels.\<close>

inductive ackm_step :: "newreno ackm \<Rightarrow> newreno ackm \<Rightarrow> ackm_label list \<Rightarrow> bool" where
  step_rx_ack: "\<not> discarded a s \<Longrightarrow> ack_wf ack \<Longrightarrow>
    ossl_ackm_on_rx_ack_frame (ossl_cc_newreno_method cc_now) mem now a ack s rx_time = Inr (a', ok) \<Longrightarrow> ackm_step a a' [Rx_Ack s ack]"
| step_pseudo: "\<not> discarded a s \<Longrightarrow> ossl_ackm_mark_packet_pseudo_lost (ossl_cc_newreno_method cc_now) a s pn = Inr (a', ok) \<Longrightarrow>
    ackm_step a a' [Pseudo_Lost s pn]"
| step_timeout: "ossl_ackm_on_timeout (ossl_cc_newreno_method cc_now) now a = Inr (a', ok) \<Longrightarrow> ackm_step a a' []"
| step_confirm: "ackm_step a (fst (ossl_ackm_on_handshake_confirmed now a)) []"
| step_rx: "\<not> discarded a (rp_pkt_space p) \<Longrightarrow> rp_pkt_num p < 2 ^ 62 \<Longrightarrow> ossl_ackm_on_rx_packet mem a p = Inr (a', ok) \<Longrightarrow>
    ackm_step a a' (if ok \<and> ossl_ackm_is_rx_pn_processable a (rp_pkt_num p) (rp_pkt_space p) then [Accepted p] else [])"
| step_gen_ack: "\<not> discarded a s \<Longrightarrow> ossl_ackm_get_ack_frame now a s = (a', ack) \<Longrightarrow> ackm_step a a' [Gen_Ack s ack]"

lemma ackm_step_run: "ackm_step a a' ls \<Longrightarrow> ackm_run a tr \<Longrightarrow> ackm_run a' (tr @ ls)"
proof (induction rule: ackm_step.induct)
  case (step_timeout cc_now now a a' ok)
  then show ?case
    using run_timeout by simp
next
  case (step_confirm a now)
  then show ?case
    using run_confirm by simp
qed (blast intro: ackm_run.intros)+

lemma ackm_step_quiet: "ackm_step a a' ls \<Longrightarrow> sent ls = []"
  by (induction rule: ackm_step.induct) auto

text \<open>The events a step adds.\<close>

definition ackm_grows :: "(ackm_tx_pkt \<Rightarrow> bool) \<Rightarrow> 'cc ackm \<Rightarrow> 'cc ackm \<Rightarrow> bool" where
  "ackm_grows D a a' \<longleftrightarrow> (\<exists>es. ackm_events a' = ackm_events a @ es \<and> (\<forall>p. On_Discarded p \<in> set es \<longrightarrow> D p))"

lemma grows_same: "ackm_events a' = ackm_events a \<Longrightarrow> ackm_grows D a a'"
  by (simp add: ackm_grows_def)

lemma grows_trans [trans]: "ackm_grows D a b \<Longrightarrow> ackm_grows D b c \<Longrightarrow> ackm_grows D a c"
  unfolding ackm_grows_def by (metis append_assoc Un_iff set_append)

lemma grows_timer: "ackm_grows D a (ackm_set_loss_detection_timer now a)"
  using timer_eq [of now a] unfolding ackm_grows_def by fastforce

lemma grows_lost: "ackm_grows D a (ackm_on_pkts_lost M a s ps pseudo)"
  using pkts_lost_eq [of M a s ps pseudo] by (auto simp: ackm_grows_def)

lemma grows_acked: "ackm_on_pkts_acked M mem a ps = Inr a' \<Longrightarrow> ackm_grows D a a'"
proof (induction M mem a ps rule: ackm_on_pkts_acked.induct)
  case (2 M mem a p ps)
  obtain a1 where a1: "(if tp_is_inflight p then
          let a = flight_out a p in
          if tp_largest_acked p \<noteq> QUIC_PN_INVALID then
            res_bind (rx_pkt_history_bump_watermark mem (rx_history a (tp_pkt_space p)) (tp_largest_acked p + 1)) (\<lambda>(h, ok).
              Inr (a\<lparr>rx_history := (rx_history a)(tp_pkt_space p := h)\<rparr>))
          else Inr a
        else Inr a) = Inr a1"
    using "2.prems" by (auto simp: res_bind_Inr)
  have "ackm_events a1 = ackm_events a"
    using a1 by (auto simp: flight_out_def Let_def res_bind_Inr split: if_splits prod.splits)
  moreover from "2.prems" a1 have "\<not> tp_on_acked_frees p"
    and rest: "ackm_on_pkts_acked M mem (if tp_is_inflight p
                then (ackm_event a1 (On_Acked p))\<lparr>cc_data := fst (on_data_acked M (cc_data (ackm_event a1 (On_Acked p))) (tp_time p) (tp_num_bytes p))\<rparr>
                else ackm_event a1 (On_Acked p)) ps = Inr a'"
    by (auto simp: Let_def split: if_splits)
  moreover have "ackm_grows D (if tp_is_inflight p
                then (ackm_event a1 (On_Acked p))\<lparr>cc_data := fst (on_data_acked M (cc_data (ackm_event a1 (On_Acked p))) (tp_time p) (tp_num_bytes p))\<rparr>
                else ackm_event a1 (On_Acked p)) a'"
    using "2.IH" [OF refl _ refl rest] \<open>\<not> tp_on_acked_frees p\<close> by simp
  ultimately show ?case
    by (auto simp: ackm_grows_def ackm_event_def split: if_splits)
qed (simp add: ackm_grows_def)

lemma newly_acked_events: "ackm_detect_and_remove_newly_acked_pkts a ack s = Inr (a', ps) \<Longrightarrow> ackm_events a' = ackm_events a"
  by (auto simp: ackm_detect_and_remove_newly_acked_pkts_def Let_def res_bind_Inr split: list.splits)

lemma lost_events: "ackm_detect_and_remove_lost_pkts now a s = Inr (a', ps) \<Longrightarrow> ackm_events a' = ackm_events a"
  by (auto simp: ackm_detect_and_remove_lost_pkts_def Let_def res_bind_Inr)

lemma ecn_events: "ackm_process_ecn M a ack s = Inr a' \<Longrightarrow> ackm_events a' = ackm_events a"
  by (auto simp: ackm_process_ecn_def Let_def res_bind_Inr split: if_splits list.splits option.splits)

lemma rx_ack_grows:
  assumes "ossl_ackm_on_rx_ack_frame M mem now a ack s rx_time = Inr (a', ok)"
  shows "ackm_grows D a a'"
proof -
  obtain r0 rs where r: "ack_ranges ack = r0 # rs"
    using assms by (cases "ack_ranges ack") (auto simp: ossl_ackm_on_rx_ack_frame_def split: prod.splits)
  obtain n1 n2 n3 where now: "now = (n1, n2, n3)"
    by (cases now)
  note u = assms [unfolded now ack_frame_unfold [OF r]]
  from u obtain a1 ps where a1: "ackm_detect_and_remove_newly_acked_pkts (ack_started a r0 s) ack s = Inr (a1, ps)"
    by (auto simp: res_bind_Inr)
  have g1: "ackm_grows D a a1"
    using newly_acked_events [OF a1] by (intro grows_same) (simp add: ack_started_fields)
  show ?thesis
  proof (cases "ps = []")
    case True
    with u a1 have "a' = (if \<not> peer_completed_addr_validation a \<and> s = QUIC_PN_SPACE_HANDSHAKE then ackm_set_loss_detection_timer n3 a1 else a1)"
      by simp
    with g1 grows_trans [OF g1 grows_timer] show ?thesis
      by simp
  next
    case False
    with u a1 obtain a2 a3 lost a4 where
      2: "(if ecn_present ack then ackm_process_ecn M (ack_rtt n1 a1 ack r0 ps) ack s else Inr (ack_rtt n1 a1 ack r0 ps)) = Inr a2"
      and 3: "ackm_detect_and_remove_lost_pkts n2 a2 s = Inr (a3, lost)"
      and 4: "ackm_on_pkts_acked M mem (if lost \<noteq> [] then ackm_on_pkts_lost M a3 s lost False else a3) ps = Inr a4"
      and 5: "a' = ackm_set_loss_detection_timer n3 (if peer_completed_addr_validation a4 then a4\<lparr>pto_count := 0\<rparr> else a4)"
      by (auto simp: res_bind_Inr)
    have "ackm_events a2 = ackm_events a1"
      using 2 ecn_events [of M "ack_rtt n1 a1 ack r0 ps" ack s a2] by (auto simp: ack_rtt_fields split: if_splits)
    with lost_events [OF 3] have "ackm_grows D a1 a3"
      by (intro grows_same) simp
    also have "ackm_grows D a3 (if lost \<noteq> [] then ackm_on_pkts_lost M a3 s lost False else a3)"
      using grows_lost [of D a3 M s lost False] grows_same by auto
    also have "ackm_grows D (if lost \<noteq> [] then ackm_on_pkts_lost M a3 s lost False else a3) a4"
      by (rule grows_acked [OF 4])
    also have "ackm_grows D a4 (if peer_completed_addr_validation a4 then a4\<lparr>pto_count := 0\<rparr> else a4)"
      by (rule grows_same) simp
    also have "ackm_grows D (if peer_completed_addr_validation a4 then a4\<lparr>pto_count := 0\<rparr> else a4) a'"
      unfolding 5 by (rule grows_timer)
    finally show ?thesis
      by (rule grows_trans [OF g1])
  qed
qed

lemma pseudo_grows: "ossl_ackm_mark_packet_pseudo_lost M a s pn = Inr (a', ok) \<Longrightarrow> ackm_grows D a a'"
proof -
  assume r: "ossl_ackm_mark_packet_pseudo_lost M a s pn = Inr (a', ok)"
  then consider "a' = a" | h p where "a' = ackm_on_pkts_lost M (a\<lparr>tx_history := (tx_history a)(s := h)\<rparr>) s [p] True"
    by (auto simp: ossl_ackm_mark_packet_pseudo_lost_def Let_def res_bind_Inr split: option.splits)
  then show ?thesis
  proof cases
    case (2 h p)
    have "ackm_grows D a (a\<lparr>tx_history := (tx_history a)(s := h)\<rparr>)"
      by (rule grows_same) simp
    from grows_trans [OF this grows_lost] 2 show ?thesis
      by simp
  qed (simp add: grows_same)
qed

lemma timeout_grows: "ossl_ackm_on_timeout M now a = Inr (a', ok) \<Longrightarrow> ackm_grows D a a'"
proof -
  assume r: "ossl_ackm_on_timeout M now a = Inr (a', ok)"
  obtain n1 n2 where now: "now = (n1, n2)"
    by (cases now)
  obtain t s where ts: "ackm_get_loss_time_and_space a = (t, s)"
    by fastforce
  show ?thesis
  proof (cases "ossl_time_is_zero t")
    case False
    with r obtain a1 lost where a1: "ackm_detect_and_remove_lost_pkts n1 a s = Inr (a1, lost)"
      "a' = ackm_set_loss_detection_timer n2 (if lost \<noteq> [] then ackm_on_pkts_lost M a1 s lost False else a1)"
      by (auto simp: ossl_ackm_on_timeout_def now ts Let_def res_bind_Inr)
    have "ackm_grows D a a1"
      by (rule grows_same [OF lost_events [OF a1(1)]])
    also have "ackm_grows D a1 (if lost \<noteq> [] then ackm_on_pkts_lost M a1 s lost False else a1)"
      using grows_lost [of D a1 M s lost False] grows_same by auto
    also have "ackm_grows D (if lost \<noteq> [] then ackm_on_pkts_lost M a1 s lost False else a1) a'"
      unfolding a1(2) by (rule grows_timer)
    finally show ?thesis .
  next
    case True
    define b where "b = (if ackm_ack_eliciting_bytes_in_flight a = 0 then
                     (if discarded a QUIC_PN_SPACE_INITIAL then ackm_queue_probe_anti_deadlock_handshake a
                      else ackm_queue_probe_anti_deadlock_initial a)
                   else ackm_queue_probe a (snd (ackm_get_pto_time_and_space n1 a)))"
    have "a' = ackm_set_loss_detection_timer n2 (b\<lparr>pto_count := pto_count b + 1\<rparr>)"
      using True r by (simp add: ossl_ackm_on_timeout_def now ts Let_def b_def)
    moreover have "ackm_grows D a (b\<lparr>pto_count := pto_count b + 1\<rparr>)"
      by (rule grows_same) (simp add: b_def ackm_queue_probe_anti_deadlock_handshake_def ackm_queue_probe_anti_deadlock_initial_def ackm_queue_probe_def)
    ultimately show ?thesis
      using grows_trans [OF _ grows_timer] by blast
  qed
qed

lemma deadlines_grow: "ackm_events a' = ackm_events a @ es \<Longrightarrow> \<forall>e \<in> set es. \<exists>t s. e = Ack_Deadline t s \<Longrightarrow> ackm_grows D a a'"
  unfolding ackm_grows_def by fastforce

lemma rx_packet_grows: "ossl_ackm_on_rx_packet mem a p = Inr (a', ok) \<Longrightarrow> ackm_grows D a a'"
proof -
  assume r: "ossl_ackm_on_rx_packet mem a p = Inr (a', ok)"
  have eliciting: "ackm_grows D b (ackm_on_rx_ack_eliciting b t s m)" for b :: "'a ackm" and t s m
    using on_rx_ack_eliciting_eq [of b t s m] by (elim exE conjE) (rule deadlines_grow, auto)
  have ecn: "ackm_grows D b (case e of
                 OSSL_ACKM_ECN_ECT0 \<Rightarrow> b\<lparr>rx_ect0 := f0\<rparr> | OSSL_ACKM_ECN_ECT1 \<Rightarrow> b\<lparr>rx_ect1 := f1\<rparr>
               | OSSL_ACKM_ECN_ECNCE \<Rightarrow> b\<lparr>rx_ecnce := f2\<rparr> | OSSL_ACKM_ECN_NONE \<Rightarrow> b)" for b :: "'a ackm" and e f0 f1 f2
    by (rule grows_same) (simp split: ackm_ecn.split)
  let ?s = "rp_pkt_space p" and ?n = "rp_pkt_num p"
  define a1 where "a1 = (if ?n > rx_largest_pn a ?s
    then a\<lparr>rx_largest_pn := (rx_largest_pn a)(?s := ?n), rx_largest_time := (rx_largest_time a)(?s := rp_time p)\<rparr> else a)"
  have g1: "ackm_grows D a a1"
    by (rule grows_same) (simp add: a1_def)
  show ?thesis
  proof (cases "ossl_ackm_is_rx_pn_processable a ?n ?s")
    case False
    with r show ?thesis
      by (auto simp: ossl_ackm_on_rx_packet_def Let_def intro: grows_same)
  next
    case True
    with r obtain h k where h: "rx_pkt_history_add_pn mem (rx_history a1 ?s) ?n = Inr (h, k)"
      by (auto simp: ossl_ackm_on_rx_packet_def Let_def a1_def [symmetric] res_bind_Inr)
    define a2 where "a2 = a1\<lparr>rx_history := (rx_history a1)(?s := h)\<rparr>"
    have g2: "ackm_grows D a a2"
      by (rule grows_trans [OF g1 grows_same]) (simp add: a2_def)
    show ?thesis
    proof (cases k)
      case False
      with r True h have "a' = a2"
        by (simp add: ossl_ackm_on_rx_packet_def Let_def a1_def [symmetric] a2_def)
      with g2 show ?thesis
        by simp
    next
      case k: True
      define a3 where "a3 = (if rp_is_ack_eliciting p then ackm_on_rx_ack_eliciting a2 (rp_time p) ?s (ackm_is_missing a1 ?s ?n) else a2)"
      have g3: "ackm_grows D a a3"
        using grows_trans [OF g2 eliciting] g2 by (simp add: a3_def)
      from True h k r have "a' = (case rp_ecn p of
                 OSSL_ACKM_ECN_ECT0 \<Rightarrow> a3\<lparr>rx_ect0 := (rx_ect0 a3)(?s := rx_ect0 a3 ?s + 1)\<rparr>
               | OSSL_ACKM_ECN_ECT1 \<Rightarrow> a3\<lparr>rx_ect1 := (rx_ect1 a3)(?s := rx_ect1 a3 ?s + 1)\<rparr>
               | OSSL_ACKM_ECN_ECNCE \<Rightarrow> a3\<lparr>rx_ecnce := (rx_ecnce a3)(?s := rx_ecnce a3 ?s + 1)\<rparr>
               | OSSL_ACKM_ECN_NONE \<Rightarrow> a3)"
        by (simp only: ossl_ackm_on_rx_packet_def Let_def a1_def [symmetric] h res_bind_simps prod.case not_True_eq_False if_False
          a2_def [symmetric] a3_def [symmetric] sum.inject prod.inject)
      with grows_trans [OF g3 ecn] show ?thesis
        by simp
    qed
  qed
qed

lemma gen_ack_grows: "ossl_ackm_get_ack_frame now a s = (a', ack) \<Longrightarrow> ackm_grows D a a'"
proof -
  assume r: "ossl_ackm_get_ack_frame now a s = (a', ack)"
  let ?b = "a\<lparr>ackm_ack := (ackm_ack a)(s := ack),
                rx_ack_eliciting_pkts_since_last_ack := (rx_ack_eliciting_pkts_since_last_ack a)(s := 0),
                rx_ack_generated := (rx_ack_generated a)(s := True),
                rx_ack_desired := (rx_ack_desired a)(s := False)\<rparr>"
  obtain d es where "a' = ?b\<lparr>rx_ack_flush_deadline := d, ackm_events := ackm_events ?b @ es\<rparr>" "\<forall>e \<in> set es. \<exists>t s. e = Ack_Deadline t s"
    using r flush_eq [of ?b s ossl_time_infinite] by (auto simp: ossl_ackm_get_ack_frame_def Let_def)
  then show ?thesis
    by (intro deadlines_grow [where es = es]) simp_all
qed

lemma ackm_step_grows: "ackm_step a a' ls \<Longrightarrow> ackm_grows D a a'"
proof (induction rule: ackm_step.induct)
  case (step_confirm a now)
  have "ackm_grows D a (a\<lparr>handshake_confirmed := True, peer_completed_addr_validation := True\<rparr>)"
    by (rule grows_same) simp
  from grows_trans [OF this grows_timer] show ?case
    by (simp add: ossl_ackm_on_handshake_confirmed_def)
qed (auto intro: rx_ack_grows pseudo_grows timeout_grows rx_packet_grows gen_ack_grows)


section \<open>Runs\<close>

fun fifd_events :: "'w fifd_callbacks \<Rightarrow> ('cc, 'w) quic_fifd \<Rightarrow> ackm_event list \<Rightarrow> c_fault + ('cc, 'w) quic_fifd" where
  "fifd_events cb fd [] = Inr fd"
| "fifd_events cb fd (e # es) = res_bind (fifd_event cb [] fd e) (\<lambda>fd. fifd_events cb fd es)"

text \<open>The callbacks the manager's step calls, in order.\<close>

definition dispatch :: "'w fifd_callbacks \<Rightarrow> ('cc, 'w) quic_fifd \<Rightarrow> 'cc ackm \<Rightarrow> c_fault + ('cc, 'w) quic_fifd" where
  "dispatch cb fd a' = fifd_events cb (fd\<lparr>fd_ackm := a'\<rparr>) (drop (length (ackm_events (fd_ackm fd))) (ackm_events a'))"

text \<open>
  A packet that can be sent: it is handed out and not in flight, its control frames wait in the queue, and its chunks hold bytes that its streams want to send.
  The manager's conditions are those of \<^const>\<open>ackm_run\<close>.
\<close>

definition can_commit :: "'w fifd_callbacks \<Rightarrow> (newreno, 'w) quic_fifd \<Rightarrow> txpim_addr \<Rightarrow> txpim_pkt \<Rightarrow> bool" where
  "can_commit cb fd p x \<longleftrightarrow> p \<in> txpim_live (fd_txpim fd) \<and> txpim_pkts (fd_txpim fd) p = Some x \<and> p \<notin># image_mset tp_cb_arg (held (fd_ackm fd))
     \<and> distinct (px_retx x) \<and> (\<forall>i \<in> set (px_retx x). cfq_is_new (fd_cfq fd) i) \<and> (\<forall>c \<in> set (px_chunks x). chunk_wf c)
     \<and> sendable cb (image_mset (Pair (tp_pkt_space (px_ackm_pkt x))) (mset (px_chunks x))) (fd_world fd)
     \<and> \<not> discarded (fd_ackm fd) (tp_pkt_space (px_ackm_pkt x)) \<and> tp_pkt_num (px_ackm_pkt x) < 2 ^ 62
     \<and> unat (bytes_in_flight (cc_data (fd_ackm fd))) + unat (tp_num_bytes (px_ackm_pkt x)) < 2 ^ 64"

text \<open>
  \<open>w0\<close> and \<open>wok\<close>: the worlds the connection starts in and the consistent ones. Packets are filled in by the packetiser in any way while they are not in flight
  (\<open>run_fill\<close>); a space is discarded once its streams are gone. \<open>mem\<close> and \<open>mem_map\<close> are true: there is memory for the integer sets and the hash table.
\<close>

inductive fifd_run :: "'w fifd_callbacks \<Rightarrow> ('w \<Rightarrow> bool) \<Rightarrow> ('w \<Rightarrow> bool) \<Rightarrow> (newreno, 'w) quic_fifd \<Rightarrow> ackm_label list \<Rightarrow> bool"
  for cb :: "'w fifd_callbacks" and w0 wok :: "'w \<Rightarrow> bool" where
  run_init: "w0 w \<Longrightarrow> ossl_ackm_new (True, True, True, True) statm cc server = Some a \<Longrightarrow> bytes_in_flight cc = 0 \<Longrightarrow>
    ossl_quic_fifd_init (ossl_quic_cfq_new True) (Some a) (ossl_quic_txpim_new True) w = Some fd \<Longrightarrow> fifd_run cb w0 wok fd []"
| run_world: "fifd_run cb w0 wok fd tr \<Longrightarrow> wok w \<Longrightarrow> world_step cb (flight_chunks (fd_txpim fd) (held (fd_ackm fd))) (fd_world fd) w \<Longrightarrow>
    fifd_run cb w0 wok (fd\<lparr>fd_world := w\<rparr>) tr"
| run_add_frame: "fifd_run cb w0 wok fd tr \<Longrightarrow> (case alloc of None \<Rightarrow> True | Some i \<Rightarrow> cfq_items (fd_cfq fd) i = None) \<Longrightarrow>
    ossl_quic_cfq_add_frame alloc (fd_cfq fd) prio s t flags enc len fcb = Inr (q, r) \<Longrightarrow> fifd_run cb w0 wok (fd\<lparr>fd_cfq := q\<rparr>) tr"
| run_alloc: "fifd_run cb w0 wok fd tr \<Longrightarrow> (case alloc of None \<Rightarrow> True | Some p \<Rightarrow> txpim_pkts (fd_txpim fd) p = None) \<Longrightarrow>
    ossl_quic_txpim_pkt_alloc alloc (fd_txpim fd) = Inr (m, r) \<Longrightarrow> fifd_run cb w0 wok (fd\<lparr>fd_txpim := m\<rparr>) tr"
| run_fill: "fifd_run cb w0 wok fd tr \<Longrightarrow> p \<in> txpim_live (fd_txpim fd) \<Longrightarrow> p \<notin># image_mset tp_cb_arg (held (fd_ackm fd)) \<Longrightarrow>
    fifd_run cb w0 wok (fd\<lparr>fd_txpim := txpim_put (fd_txpim fd) p x\<rparr>) tr"
| run_abandon: "fifd_run cb w0 wok fd tr \<Longrightarrow> p \<in> txpim_live (fd_txpim fd) \<Longrightarrow> p \<notin># image_mset tp_cb_arg (held (fd_ackm fd)) \<Longrightarrow>
    ossl_quic_txpim_pkt_release (fd_txpim fd) p = Inr m \<Longrightarrow> fifd_run cb w0 wok (fd\<lparr>fd_txpim := m\<rparr>) tr"
| run_commit: "fifd_run cb w0 wok fd tr \<Longrightarrow> can_commit cb fd p x \<Longrightarrow>
    ossl_quic_fifd_pkt_commit (ossl_cc_newreno_method cc_now) cb [] True now fd p = Inr (fd', True) \<Longrightarrow>
    fifd_run cb w0 wok fd' (tr @ [Sent ((px_ackm_pkt x)\<lparr>tp_cb_arg := p, tp_on_acked_frees := False\<rparr>)])"
| run_step: "fifd_run cb w0 wok fd tr \<Longrightarrow> ackm_step (fd_ackm fd) a' ls \<Longrightarrow> dispatch cb fd a' = Inr fd' \<Longrightarrow> fifd_run cb w0 wok fd' (tr @ ls)"
| run_discard_space: "fifd_run cb w0 wok fd tr \<Longrightarrow>
    (\<forall>h \<in># held (fd_ackm fd). tp_pkt_space h = s \<longrightarrow> (\<forall>x \<in># chunks_of (fd_txpim fd) h. cb_get_sstream_by_id cb (ch_stream_id (snd x)) (fst x) (fd_world fd) = None)) \<Longrightarrow>
    ossl_ackm_on_pkt_space_discarded (ossl_cc_newreno_method cc_now) now (fd_ackm fd) s = (a', b) \<Longrightarrow> dispatch cb fd a' = Inr fd' \<Longrightarrow> fifd_run cb w0 wok fd' tr"

definition fifd_run_ok :: "'w fifd_callbacks \<Rightarrow> ('w \<Rightarrow> bool) \<Rightarrow> (newreno, 'w) quic_fifd \<Rightarrow> ackm_label list \<Rightarrow> bool" where
  "fifd_run_ok cb wok fd tr \<longleftrightarrow> ackm_run (fd_ackm fd) tr \<and> fifd_inv cb wok (held (fd_ackm fd)) fd"

lemma ackm_run_settles: "ackm_run a tr \<Longrightarrow> mset (sent tr) = held a + settled a"
  using run_okD [OF run_inv] by (metis tx_invD(4) add.right_neutral)

lemma events_settle:
  assumes "ackm_run a tr" and "ackm_run a' tr'" and "sent tr' = sent tr" and "ackm_events a' = ackm_events a @ es"
  shows "held a = mset (concat (map event_pkts es)) + held a'"
proof -
  have "settled a' = settled a + mset (concat (map event_pkts es))"
    using assms(4) by (simp add: settled_def)
  then have "held a + settled a = held a' + (settled a + mset (concat (map event_pkts es)))"
    using ackm_run_settles [OF assms(1)] ackm_run_settles [OF assms(2)] assms(3) by simp
  then show ?thesis
    by (simp add: ac_simps)
qed

context fifd_client
begin

lemma events_inv:
  assumes "fifd_inv cb wok (mset (concat (map event_pkts es)) + H) fd"
    and "\<forall>h. On_Discarded h \<in> set es \<longrightarrow>
      (\<forall>x \<in># chunks_of (fd_txpim fd) h. cb_get_sstream_by_id cb (ch_stream_id (snd x)) (fst x) (fd_world fd) = None)"
  shows "\<exists>fd'. fifd_events cb fd es = Inr fd' \<and> fifd_inv cb wok H fd' \<and> fd_ackm fd' = fd_ackm fd
    \<and> txpim_live (fd_txpim fd') = txpim_live (fd_txpim fd) - tp_cb_arg ` set (concat (map event_pkts es))"
  using assms
proof (induction es arbitrary: fd)
  case (Cons e es)
  let ?H = "mset (concat (map event_pkts es)) + H"
  have fin: ?case if step: "fifd_event cb [] fd e = Inr fd1" "fifd_inv cb wok ?H fd1" "fd_ackm fd1 = fd_ackm fd"
    "none_new cb (fd_world fd) (fd_world fd1)" "\<forall>h' \<in># ?H. chunks_of (fd_txpim fd1) h' = chunks_of (fd_txpim fd) h'"
    "txpim_live (fd_txpim fd1) = txpim_live (fd_txpim fd) - tp_cb_arg ` set (event_pkts e)" for fd1
  proof -
    have "\<forall>h. On_Discarded h \<in> set es \<longrightarrow>
      (\<forall>x \<in># chunks_of (fd_txpim fd1) h. cb_get_sstream_by_id cb (ch_stream_id (snd x)) (fst x) (fd_world fd1) = None)"
    proof (intro allI impI ballI)
      fix h x assume h: "On_Discarded h \<in> set es" and x: "x \<in># chunks_of (fd_txpim fd1) h"
      have "h \<in># mset (concat (map event_pkts es))"
        using h by (auto intro!: bexI [of _ "On_Discarded h"])
      then have "chunks_of (fd_txpim fd1) h = chunks_of (fd_txpim fd) h"
        using step(5) by simp
      with Cons.prems(2) h x step(4) show "cb_get_sstream_by_id cb (ch_stream_id (snd x)) (fst x) (fd_world fd1) = None"
        by (auto simp: none_new_def)
    qed
    from Cons.IH [OF step(2) this] step(1,3,6) show ?case
      by (auto simp: Diff_Diff_Int image_Un)
  qed
  show ?case
  proof (cases e)
    case (On_Lost h)
    with Cons.prems(1) have "fifd_inv cb wok (add_mset h ?H) fd"
      by simp
    from on_lost_inv [OF this] On_Lost show ?thesis
      using fin by auto
  next
    case (On_Acked h)
    with Cons.prems(1) have "fifd_inv cb wok (add_mset h ?H) fd"
      by simp
    from on_acked_inv [OF this] On_Acked show ?thesis
      using fin by auto
  next
    case (On_Discarded h)
    with Cons.prems(1) have "fifd_inv cb wok (add_mset h ?H) fd"
      by simp
    from on_discarded_inv [OF this] On_Discarded Cons.prems(2) show ?thesis
      using fin by auto
  next
    case (Loss_Detection_Deadline t)
    then show ?thesis
      using fin [of fd] Cons.prems(1) by (simp add: none_new_refl)
  next
    case (Ack_Deadline t s)
    then show ?thesis
      using fin [of fd] Cons.prems(1) by (simp add: none_new_refl)
  qed
qed auto

lemma fifd_inv_ackm: "fifd_inv cb wok H (fd\<lparr>fd_ackm := a\<rparr>) = fifd_inv cb wok H fd"
  by (simp add: fifd_inv_def)

lemma dispatch_inv:
  assumes ok: "fifd_run_ok cb wok fd tr" and run: "ackm_run a' tr'" and sent: "sent tr' = sent tr"
    and grows: "ackm_grows (\<lambda>h. \<forall>x \<in># chunks_of (fd_txpim fd) h. cb_get_sstream_by_id cb (ch_stream_id (snd x)) (fst x) (fd_world fd) = None) (fd_ackm fd) a'"
  shows "\<exists>fd'. dispatch cb fd a' = Inr fd' \<and> fifd_run_ok cb wok fd' tr'
    \<and> txpim_live (fd_txpim fd') = txpim_live (fd_txpim fd) - tp_cb_arg ` set_mset (held (fd_ackm fd) - held a')"
proof -
  from grows obtain es where es: "ackm_events a' = ackm_events (fd_ackm fd) @ es"
    and dead: "\<forall>h. On_Discarded h \<in> set es \<longrightarrow>
      (\<forall>x \<in># chunks_of (fd_txpim fd) h. cb_get_sstream_by_id cb (ch_stream_id (snd x)) (fst x) (fd_world fd) = None)"
    by (auto simp: ackm_grows_def)
  have settle: "held (fd_ackm fd) = mset (concat (map event_pkts es)) + held a'"
    using ok events_settle [OF _ run sent es] by (simp add: fifd_run_ok_def)
  with ok have "fifd_inv cb wok (mset (concat (map event_pkts es)) + held a') (fd\<lparr>fd_ackm := a'\<rparr>)"
    by (simp add: fifd_run_ok_def fifd_inv_ackm)
  from events_inv [OF this] dead obtain fd' where "fifd_events cb (fd\<lparr>fd_ackm := a'\<rparr>) es = Inr fd'" "fifd_inv cb wok (held a') fd'"
    "fd_ackm fd' = a'" "txpim_live (fd_txpim fd') = txpim_live (fd_txpim fd) - tp_cb_arg ` set (concat (map event_pkts es))"
    by auto
  moreover have "set_mset (held (fd_ackm fd) - held a') = set (concat (map event_pkts es))"
    unfolding settle add_diff_cancel_right' set_mset_mset ..
  ultimately show ?thesis
    using run by (auto simp: dispatch_def es fifd_run_ok_def)
qed

end


section \<open>Every run keeps the invariant\<close>

lemma tx_held:
  assumes "ackm_run a tr" and "ackm_run a' (tr @ [Sent p])" and tx: "ossl_ackm_on_tx_packet M mem now a p = Inr (a', True)"
  shows "held a' = add_mset p (held a)"
proof -
  have "\<exists>es. ackm_events a' = ackm_events a @ es \<and> (\<forall>e \<in> set es. event_pkts e = [])"
  proof (cases "tp_is_inflight p")
    case False
    with tx show ?thesis
      by (auto simp: ossl_ackm_on_tx_packet_def Let_def res_bind_Inr split: if_splits)
  next
    case True
    from tx obtain h where h: "tx_pkt_history_add mem (tx_history a (tp_pkt_space p)) p = Inr (h, True)"
      by (auto simp: ossl_ackm_on_tx_packet_def Let_def res_bind_Inr split: if_splits)
    define b where "b = (let a = a\<lparr>tx_history := (tx_history a)(tp_pkt_space p := h)\<rparr>;
       a = (if tp_is_ack_eliciting p
                          then a\<lparr>time_of_last_ack_eliciting_pkt := (time_of_last_ack_eliciting_pkt a)(tp_pkt_space p := tp_time p),
                                 ack_eliciting_bytes_in_flight := (ack_eliciting_bytes_in_flight a)
                                   (tp_pkt_space p := ack_eliciting_bytes_in_flight a (tp_pkt_space p) + tp_num_bytes p)\<rparr>
                          else a)
       in a\<lparr>ackm_bytes_in_flight := ackm_bytes_in_flight a + tp_num_bytes p\<rparr>)"
    have "a' = (let a = ackm_set_loss_detection_timer now b in a\<lparr>cc_data := fst (on_data_sent M (cc_data a) (tp_num_bytes p))\<rparr>)"
      using tx True h unfolding ossl_ackm_on_tx_packet_def b_def Let_def
      by (simp only: if_True if_False res_bind_simps prod.case not_True_eq_False sum.inject prod.inject split: if_splits) simp_all
    moreover have "ackm_events b = ackm_events a"
      by (simp add: b_def Let_def)
    ultimately show ?thesis
      using timer_eq [of now b] by (auto simp: Let_def)
  qed
  then have "settled a' = settled a"
    by (auto simp: settled_def)
  with ackm_run_settles [OF assms(1)] ackm_run_settles [OF assms(2)] show ?thesis
    by (simp add: sent_def)
qed

lemma pkts_ok_free:
  assumes "pkts_ok m H" and "pool_ok m'" and "\<forall>p. p \<in> txpim_live m \<longrightarrow> p \<in> image tp_cb_arg (set_mset H) \<longrightarrow> p \<in> txpim_live m' \<and> txpim_pkts m' p = txpim_pkts m p"
  shows "pkts_ok m' H" and "flight_chunks m' H = flight_chunks m H" and "flight_items m' H = flight_items m H"
proof -
  have same: "tp_cb_arg h \<in> txpim_live m' \<and> txpim_pkts m' (tp_cb_arg h) = txpim_pkts m (tp_cb_arg h)" if "h \<in># H" for h
    using assms(1,3) that unfolding pkts_ok_def by blast
  with assms(1,2) show "pkts_ok m' H"
    unfolding pkts_ok_def by simp
  show "flight_chunks m' H = flight_chunks m H" "flight_items m' H = flight_items m H"
    using flight_cong [of H m' m] same by simp_all
qed

lemma pkts_ok_sent:
  assumes ok: "pkts_ok m H" and p: "p \<in> txpim_live m" "p \<notin> tp_cb_arg ` set_mset H" and wf: "\<forall>c \<in> set (px_chunks x). chunk_wf c"
    and h: "px_ackm_pkt x = h" "tp_cb_arg h = p" and m': "m' = txpim_put m p x"
  shows "pkts_ok m' (add_mset h H)" and "flight_chunks m' (add_mset h H) = image_mset (Pair (tp_pkt_space h)) (mset (px_chunks x)) + flight_chunks m H"
    and "flight_items m' (add_mset h H) = mset (px_retx x) + flight_items m H"
proof -
  have pool: "pool_ok m" "p \<in> dom (txpim_pkts m)"
    using ok p by (auto simp: pkts_ok_def txpim_live_def)
  note P = pool_put [OF pool, of x]
  have other: "txpim_pkts m' q = txpim_pkts m q" if "q \<noteq> p" for q
    using that by (simp add: m' txpim_put_def)
  have self: "txpim_pkts m' p = Some x"
    by (simp add: m' txpim_put_def)
  have F: "pkts_ok m' H" "flight_chunks m' H = flight_chunks m H" "flight_items m' H = flight_items m H"
    using pkts_ok_free [OF ok P(1)] P(2) p(2) other unfolding m' by metis+
  have "count (image_mset tp_cb_arg H) p = 0"
    using p(2) by (simp add: count_eq_zero_iff)
  then have "count (image_mset tp_cb_arg (add_mset h H)) q \<le> 1" for q
    using F(1) h(2) by (auto simp: pkts_ok_def)
  then show "pkts_ok m' (add_mset h H)"
    using F(1) p(1) wf h self P(2) unfolding pkts_ok_def m' by auto
  show "flight_chunks m' (add_mset h H) = image_mset (Pair (tp_pkt_space h)) (mset (px_chunks x)) + flight_chunks m H"
    "flight_items m' (add_mset h H) = mset (px_retx x) + flight_items m H"
    using F h self by (simp_all add: chunks_of_def items_of_def)
qed

lemma items_tracked_add:
  assumes t: "items_tracked T q" and fresh: "case alloc of None \<Rightarrow> True | Some i \<Rightarrow> cfq_items q i = None"
    and add: "ossl_quic_cfq_add_frame alloc q prio s t flags enc len fcb = Inr (q', r)"
  shows "items_tracked T q'"
proof -
  have ok: "cfq_ok q"
    using t by (simp add: items_tracked_def)
  have new: "\<forall>a. alloc = Some a \<longrightarrow> a \<notin> dom (cfq_items q)"
    using fresh by (auto split: option.splits)
  show ?thesis
  proof (cases rule: add_frame_spec [OF ok new, of prio s t flags enc len fcb, case_names added failed])
    case (added q'' p)
    then have q': "q'' = q'" "\<not> cfq_in_tx q p"
      using add added by (auto simp: cfq_in_tx_def)
    have "cfq_in_tx q' p' = cfq_in_tx q p'" for p'
      using in_tx_upd [OF added(4), of p'] q' by (auto simp: cfq_states split: if_splits)
    with t added(2) q' show ?thesis
      by (simp add: items_tracked_def)
  next
    case failed
    with add t show ?thesis
      by simp
  qed
qed

context fifd_client
begin

lemma commit_inv:
  assumes ok: "fifd_run_ok cb wok fd tr" and can: "can_commit cb fd p x"
    and commit: "ossl_quic_fifd_pkt_commit (ossl_cc_newreno_method cc_now) cb [] True now fd p = Inr (fd', True)"
  shows "fifd_run_ok cb wok fd' (tr @ [Sent ((px_ackm_pkt x)\<lparr>tp_cb_arg := p, tp_on_acked_frees := False\<rparr>)])"
proof -
  define h x1 where "h = (px_ackm_pkt x)\<lparr>tp_cb_arg := p, tp_on_acked_frees := False\<rparr>" and "x1 = x\<lparr>px_ackm_pkt := h\<rparr>"
  let ?H = "held (fd_ackm fd)" and ?m = "fd_txpim fd"
  note C = can [unfolded can_commit_def]
  have run: "ackm_run (fd_ackm fd) tr" and I: "wok (fd_world fd)" "pkts_ok ?m ?H" "streams_ok cb (flight_chunks ?m ?H) (fd_world fd)"
    "items_tracked (flight_items ?m ?H) (fd_cfq fd)"
    using ok by (simp_all add: fifd_run_ok_def fifd_inv_def)
  have x: "txpim_at ?m p = Inr x"
    using C by (simp add: txpim_at_def)
  obtain q where q: "mark_tx_items (fd_cfq fd) (px_retx x) = Inr q" "items_tracked (mset (px_retx x) + flight_items ?m ?H) q"
    using mark_tx_items_tracked [OF I(4)] C by blast
  have put: "txpim_pkts (txpim_put ?m p x1) p = Some x1"
    by (simp add: txpim_put_def)
  obtain x2 cs where f: "fetch_chunks (txpim_put ?m p x1) p = Inr (txpim_put (txpim_put ?m p x1) p x2, x2, cs)" "mset cs = mset (px_chunks x1)" "px_chunks x2 = cs"
    "px_ackm_pkt x2 = px_ackm_pkt x1" "px_retx x2 = px_retx x1"
    by (rule fetch_chunks_spec [OF put])
  have twice: "txpim_put (txpim_put ?m p x1) p x2 = txpim_put ?m p x2"
    by (simp add: txpim_put_def)
  have h: "px_ackm_pkt x2 = h" "px_retx x2 = px_retx x" "mset cs = mset (px_chunks x)" "tp_pkt_space h = tp_pkt_space (px_ackm_pkt x)" "tp_cb_arg h = p"
    "tp_pkt_num h = tp_pkt_num (px_ackm_pkt x)" "tp_num_bytes h = tp_num_bytes (px_ackm_pkt x)" "\<not> tp_on_acked_frees h"
    using f by (simp_all add: x1_def h_def)
  have "sendable cb (image_mset (Pair (tp_pkt_space (px_ackm_pkt x2))) (mset cs)) (fd_world fd)"
    using C h by simp
  from sent_chunks_inv [OF I(1,3) this] obtain w b where w: "sent_chunks cb [] x2 (fd_world fd) cs = Inr (w, b)"
    "b \<longrightarrow> wok w \<and> streams_ok cb (image_mset (Pair (tp_pkt_space (px_ackm_pkt x2))) (mset cs) + flight_chunks ?m ?H) w \<and> none_new cb (fd_world fd) w"
    by blast
  have x1: "px_retx x1 = px_retx x"
    by (simp add: x1_def)
  have commit': "ossl_quic_fifd_pkt_commit (ossl_cc_newreno_method cc_now) cb [] True now fd p =
     (if \<not> b then Inr (fd\<lparr>fd_txpim := txpim_put ?m p x2, fd_cfq := q, fd_world := w\<rparr>, False)
     else res_bind (ossl_ackm_on_tx_packet (ossl_cc_newreno_method cc_now) True now (fd_ackm fd) h) (\<lambda>(a, ok).
       Inr (fd\<lparr>fd_cfq := q, fd_txpim := txpim_put ?m p x2, fd_world := w, fd_ackm := a\<rparr>, ok)))"
    unfolding ossl_quic_fifd_pkt_commit_def x res_bind_simps Let_def h_def [symmetric] x1_def [symmetric]
    by (simp add: x1 f(1) twice q(1) w(1) h(1) cong: if_cong)
  obtain a where a: "b" "ossl_ackm_on_tx_packet (ossl_cc_newreno_method cc_now) True now (fd_ackm fd) h = Inr (a, True)"
    "fd' = fd\<lparr>fd_cfq := q, fd_txpim := txpim_put ?m p x2, fd_world := w, fd_ackm := a\<rparr>"
    using commit unfolding commit' by (auto simp: res_bind_Inr split: if_splits)
  have run': "ackm_run a (tr @ [Sent h])"
    using run_tx [OF run _ _ h(8) _ a(2)] C h by simp
  have held: "held a = add_mset h ?H"
    by (rule tx_held [OF run run' a(2)])
  have wf: "\<forall>c \<in> set (px_chunks x2). chunk_wf c"
    using C mset_eq_setD [OF h(3)] f(3) by simp
  have "p \<notin> tp_cb_arg ` set_mset ?H"
    using C by simp
  note P = pkts_ok_sent [OF I(2) _ this wf h(1,5) refl]
  have "pkts_ok (txpim_put ?m p x2) (add_mset h ?H)"
    "streams_ok cb (flight_chunks (txpim_put ?m p x2) (add_mset h ?H)) w" "items_tracked (flight_items (txpim_put ?m p x2) (add_mset h ?H)) q" "wok w"
    using P C w(2) a(1) q(2) h f(3) by simp_all
  with run' show ?thesis
    unfolding h_def [symmetric] by (simp add: fifd_run_ok_def fifd_inv_def a(3) held)
qed

end


lemma held_space:
  assumes "ackm_run a tr" and "h \<in> set (tx_packets (tx_history a s))"
  shows "h \<in># held a" and "tp_pkt_space h = s"
proof -
  show "h \<in># held a"
    using assms(2) by (cases s) (simp_all add: held_def)
  show "tp_pkt_space h = s"
    using run_inv [OF assms(1)] assms(2) by (cases "discarded a s") (auto elim!: run_okD dest: tx_invD(1,2) simp: hist_ok_def)
qed

lemma discard_grows:
  assumes "ossl_ackm_on_pkt_space_discarded (ossl_cc_newreno_method cc_now) now a s = (a', b)"
  shows "ackm_grows (\<lambda>h. h \<in> set (tx_packets (tx_history a s))) a a'"
proof (cases "discarded a s")
  case True
  with assms show ?thesis
    by (auto simp: ossl_ackm_on_pkt_space_discarded_def intro: grows_same)
next
  case False
  let ?ps = "tx_packets (tx_history a s)"
  define a1 where "a1 = (if s = QUIC_PN_SPACE_HANDSHAKE then a\<lparr>peer_completed_addr_validation := True\<rparr> else a)"
  have a1: "tx_history a1 = tx_history a" "ackm_events a1 = ackm_events a"
    by (simp_all add: a1_def)
  obtain c where c: "a' = ackm_set_loss_detection_timer now c" "ackm_events c = ackm_events a @ map On_Discarded ?ps"
    using assms False unfolding ossl_ackm_on_pkt_space_discarded_def Let_def a1_def [symmetric]
    by (auto simp: nra.discard_fold a1 split: if_splits)
  have "ackm_grows (\<lambda>h. h \<in> set ?ps) a c"
    by (auto simp: ackm_grows_def c(2))
  also have "ackm_grows (\<lambda>h. h \<in> set ?ps) c a'"
    unfolding c(1) by (rule grows_timer)
  finally show ?thesis .
qed

context fifd_client
begin

lemma step_inv:
  assumes "fifd_run_ok cb wok fd tr" and "ackm_step (fd_ackm fd) a' ls"
  shows "\<exists>fd'. dispatch cb fd a' = Inr fd' \<and> fifd_run_ok cb wok fd' (tr @ ls)
    \<and> txpim_live (fd_txpim fd') = txpim_live (fd_txpim fd) - tp_cb_arg ` set_mset (held (fd_ackm fd) - held a')"
proof (rule dispatch_inv [OF assms(1)])
  show "ackm_run a' (tr @ ls)"
    using assms by (auto simp: fifd_run_ok_def intro: ackm_step_run)
  show "sent (tr @ ls) = sent tr"
    using ackm_step_quiet [OF assms(2)] by (simp add: sent_def)
qed (rule ackm_step_grows [OF assms(2)])

lemma discard_inv:
  assumes ok: "fifd_run_ok cb wok fd tr"
    and dead: "\<forall>h \<in># held (fd_ackm fd). tp_pkt_space h = s \<longrightarrow>
      (\<forall>x \<in># chunks_of (fd_txpim fd) h. cb_get_sstream_by_id cb (ch_stream_id (snd x)) (fst x) (fd_world fd) = None)"
    and disc: "ossl_ackm_on_pkt_space_discarded (ossl_cc_newreno_method cc_now) now (fd_ackm fd) s = (a', b)"
  shows "\<exists>fd'. dispatch cb fd a' = Inr fd' \<and> fifd_run_ok cb wok fd' tr
    \<and> txpim_live (fd_txpim fd') = txpim_live (fd_txpim fd) - tp_cb_arg ` set_mset (held (fd_ackm fd) - held a')"
proof (rule dispatch_inv [OF ok _ refl])
  have run: "ackm_run (fd_ackm fd) tr"
    using ok by (simp add: fifd_run_ok_def)
  then show "ackm_run a' tr"
    using run_discard [OF run, of cc_now now s] by (simp add: disc)
  have "\<forall>x \<in># chunks_of (fd_txpim fd) h. cb_get_sstream_by_id cb (ch_stream_id (snd x)) (fst x) (fd_world fd) = None"
    if "h \<in> set (tx_packets (tx_history (fd_ackm fd) s))" for h
    using dead held_space [OF run that] by blast
  with discard_grows [OF disc] show "ackm_grows (\<lambda>h. \<forall>x \<in># chunks_of (fd_txpim fd) h.
      cb_get_sstream_by_id cb (ch_stream_id (snd x)) (fst x) (fd_world fd) = None) (fd_ackm fd) a'"
    unfolding ackm_grows_def by blast
qed

lemma run_invariant:
  assumes start: "\<And>w. w0 w \<Longrightarrow> wok w \<and> streams_ok cb {#} w"
  shows "fifd_run cb w0 wok fd tr \<Longrightarrow> fifd_run_ok cb wok fd tr"
proof (induction rule: fifd_run.induct)
  case (run_init w statm cc server a fd)
  have run: "ackm_run a []"
    by (rule run_new [OF run_init.hyps(2,3)])
  have "held a = {#}"
    using ackm_run_settles [OF run] by (simp add: sent_def)
  moreover obtain q m where qm: "ossl_quic_cfq_new True = Some q" "ossl_quic_txpim_new True = Some m" "fd = \<lparr>fd_cfq = q, fd_ackm = a, fd_txpim = m, fd_world = w\<rparr>"
    using run_init.hyps(4) by (auto simp: ossl_quic_fifd_init_def split: option.splits)
  moreover have "items_tracked {#} q"
    using qm(1) by (auto simp: items_tracked_def ossl_quic_cfq_new_def cfq_ok_def cfq_view_def cfq_in_tx_def)
  moreover have "pkts_ok m {#}"
    using pool_new [OF qm(2)] by (simp add: pkts_ok_def)
  ultimately show ?case
    using run start [OF run_init.hyps(1)] by (simp add: fifd_run_ok_def fifd_inv_def)
next
  case (run_world fd tr w)
  then show ?case
    using world_step_streams [OF _ run_world.hyps(3)] by (simp add: fifd_run_ok_def fifd_inv_def)
next
  case (run_add_frame fd tr alloc prio s t flags enc len fcb q r)
  then show ?case
    using items_tracked_add [OF _ run_add_frame.hyps(2,3)] by (simp add: fifd_run_ok_def fifd_inv_def)
next
  case (run_alloc fd tr alloc m r)
  have ok: "pkts_ok (fd_txpim fd) (held (fd_ackm fd))"
    using run_alloc.IH by (simp add: fifd_run_ok_def fifd_inv_def)
  then have pool: "pool_ok (fd_txpim fd)"
    by (simp add: pkts_ok_def)
  have new: "\<forall>a. alloc = Some a \<longrightarrow> a \<notin> dom (txpim_pkts (fd_txpim fd))"
    using run_alloc.hyps(2) by (auto split: option.splits)
  have "pkts_ok m (held (fd_ackm fd)) \<and> flight_chunks m (held (fd_ackm fd)) = flight_chunks (fd_txpim fd) (held (fd_ackm fd))
      \<and> flight_items m (held (fd_ackm fd)) = flight_items (fd_txpim fd) (held (fd_ackm fd))"
  proof (cases rule: pool_alloc [OF pool new, case_names got failed])
    case (got m' p x)
    then have "m' = m"
      using run_alloc.hyps(3) by simp
    with got pkts_ok_free [OF ok, of m] show ?thesis
      by auto
  next
    case failed
    with run_alloc.hyps(3) ok show ?thesis
      by simp
  qed
  with run_alloc.IH show ?case
    by (simp add: fifd_run_ok_def fifd_inv_def)
next
  case (run_fill fd tr p x)
  have ok: "pkts_ok (fd_txpim fd) (held (fd_ackm fd))"
    using run_fill.IH by (simp add: fifd_run_ok_def fifd_inv_def)
  then have pool: "pool_ok (fd_txpim fd)" "p \<in> dom (txpim_pkts (fd_txpim fd))"
    using run_fill.hyps(2) by (simp_all add: pkts_ok_def txpim_live_def)
  note P = pool_put [OF pool, of x]
  have "\<forall>q. q \<in> txpim_live (fd_txpim fd) \<longrightarrow> q \<in> tp_cb_arg ` set_mset (held (fd_ackm fd)) \<longrightarrow>
      q \<in> txpim_live (txpim_put (fd_txpim fd) p x) \<and> txpim_pkts (txpim_put (fd_txpim fd) p x) q = txpim_pkts (fd_txpim fd) q"
    using run_fill.hyps(3) P(2) by (auto simp: txpim_put_def)
  note pkts_ok_free [OF ok P(1) this]
  with run_fill.IH show ?case
    by (simp add: fifd_run_ok_def fifd_inv_def)
next
  case (run_abandon fd tr p m)
  have ok: "pkts_ok (fd_txpim fd) (held (fd_ackm fd))"
    using run_abandon.IH by (simp add: fifd_run_ok_def fifd_inv_def)
  then have pool: "pool_ok (fd_txpim fd)"
    by (simp add: pkts_ok_def)
  from pool_release [OF pool run_abandon.hyps(2)] run_abandon.hyps(4) have m: "pool_ok m" "txpim_live m = txpim_live (fd_txpim fd) - {p}"
    "txpim_pkts m = txpim_pkts (fd_txpim fd)"
    by auto
  have "\<forall>q. q \<in> txpim_live (fd_txpim fd) \<longrightarrow> q \<in> tp_cb_arg ` set_mset (held (fd_ackm fd)) \<longrightarrow>
      q \<in> txpim_live m \<and> txpim_pkts m q = txpim_pkts (fd_txpim fd) q"
    using run_abandon.hyps(3) m by auto
  note pkts_ok_free [OF ok m(1) this]
  with run_abandon.IH show ?case
    by (simp add: fifd_run_ok_def fifd_inv_def)
next
  case (run_commit fd tr p x cc_now now fd')
  then show ?case
    using commit_inv by blast
next
  case (run_step fd tr a' ls fd')
  then show ?case
    using step_inv [OF run_step.IH run_step.hyps(2)] by auto
next
  case (run_discard_space fd tr s cc_now now a' b fd')
  then show ?case
    using discard_inv [OF run_discard_space.IH run_discard_space.hyps(2,3)] by auto
qed

end

end
