(* ===== verification/Txp_Notify.thy ===== *)
theory Txp_Notify
  imports Stream_Map Fifd_Run
begin

text \<open>
  The callbacks that the packetiser (\<^verbatim>\<open>ssl/quic/quic_txp.c\<close>) gives to the frame-in-flight dispatcher, on the stream map and the crypto streams: the model's
  provider of the contract of \<open>Fifd\<close>. With it, the runs of the dispatcher are runs of the send streams, the stream map, the control frame queue, the packet pool and
  the acknowledgement manager together. The channel's function that discards an encryption level, which calls packetiser and acknowledgement manager, is here too.
\<close>

unbundle bit_operations_syntax

section \<open>The packetiser's callbacks\<close>

text \<open>The fields of \<^verbatim>\<open>struct ossl_quic_tx_packetiser_st\<close> and of its arguments that the callbacks use.\<close>

record txp_world =
  txp_qsm :: quic_stream_map
  txp_crypto :: "pn_space \<Rightarrow> quic_sstream option"
  want_handshake_done :: bool
  want_max_data :: bool
  want_max_streams_bidi :: bool
  want_max_streams_uni :: bool
  want_ack :: "pn_space \<Rightarrow> bool"

definition get_sstream_by_id :: "u64 \<Rightarrow> pn_space \<Rightarrow> txp_world \<Rightarrow> quic_sstream option" where
  "get_sstream_by_id stream_id pn_space w =
     (if stream_id = UINT64_MAX then txp_crypto w pn_space
      else case ossl_quic_stream_map_get_by_id (txp_qsm w) stream_id of None \<Rightarrow> None | Some s \<Rightarrow> qs_sstream s)"

text \<open>Writing through the pointer that \<^const>\<open>get_sstream_by_id\<close> returned.\<close>

definition put_sstream_by_id :: "u64 \<Rightarrow> pn_space \<Rightarrow> quic_sstream \<Rightarrow> txp_world \<Rightarrow> txp_world" where
  "put_sstream_by_id stream_id pn_space q w =
     (if stream_id = UINT64_MAX then w\<lparr>txp_crypto := (txp_crypto w)(pn_space := Some q)\<rparr>
      else case qsm_map (txp_qsm w) stream_id of
        None \<Rightarrow> w
      | Some s \<Rightarrow> w\<lparr>txp_qsm := qsm_put (txp_qsm w) stream_id (s\<lparr>qs_sstream := Some q\<rparr>)\<rparr>)"

text \<open>A handler that does something to a stream, if there is one of that id. A failed assertion is the fault \<^const>\<open>NoReturn\<close>.\<close>

definition on_stream :: "u64 \<Rightarrow> (quic_stream_map \<Rightarrow> quic_stream \<Rightarrow> c_fault + quic_stream_map) \<Rightarrow> txp_world \<Rightarrow> c_fault + txp_world" where
  "on_stream stream_id f w =
     (case ossl_quic_stream_map_get_by_id (txp_qsm w) stream_id of
        None \<Rightarrow> Inr w
      | Some s \<Rightarrow> res_bind (f (txp_qsm w) s) (\<lambda>m. Inr (w\<lparr>txp_qsm := m\<rparr>)))"

definition on_regen_notify :: "u64 \<Rightarrow> u64 \<Rightarrow> txpim_pkt \<Rightarrow> txp_world \<Rightarrow> c_fault + txp_world" where
  "on_regen_notify frame_type stream_id pkt w =
     (if frame_type = OSSL_QUIC_FRAME_TYPE_HANDSHAKE_DONE then Inr (w\<lparr>want_handshake_done := True\<rparr>)
      else if frame_type = OSSL_QUIC_FRAME_TYPE_MAX_DATA then Inr (w\<lparr>want_max_data := True\<rparr>)
      else if frame_type = OSSL_QUIC_FRAME_TYPE_MAX_STREAMS_BIDI then Inr (w\<lparr>want_max_streams_bidi := True\<rparr>)
      else if frame_type = OSSL_QUIC_FRAME_TYPE_MAX_STREAMS_UNI then Inr (w\<lparr>want_max_streams_uni := True\<rparr>)
      else if frame_type = OSSL_QUIC_FRAME_TYPE_ACK_WITH_ECN then Inr (w\<lparr>want_ack := (want_ack w)(tp_pkt_space (px_ackm_pkt pkt) := True)\<rparr>)
      else if frame_type = OSSL_QUIC_FRAME_TYPE_MAX_STREAM_DATA then
        on_stream stream_id (\<lambda>m s. ossl_quic_stream_map_update_state (qsm_put m stream_id (s\<lparr>qs_want_max_stream_data := True\<rparr>)) stream_id) w
      else if frame_type = OSSL_QUIC_FRAME_TYPE_STOP_SENDING then
        on_stream stream_id (\<lambda>m s. res_bind (ossl_quic_stream_map_schedule_stop_sending m stream_id) (\<lambda>(m, _). Inr m)) w
      else if frame_type = OSSL_QUIC_FRAME_TYPE_RESET_STREAM then
        on_stream stream_id (\<lambda>m s. ossl_quic_stream_map_update_state (qsm_put m stream_id (s\<lparr>qs_want_reset_stream := True\<rparr>)) stream_id) w
      else Inl NoReturn)"

definition on_confirm_notify :: "u64 \<Rightarrow> u64 \<Rightarrow> txpim_pkt \<Rightarrow> txp_world \<Rightarrow> c_fault + txp_world" where
  "on_confirm_notify frame_type stream_id pkt w =
     (if frame_type = OSSL_QUIC_FRAME_TYPE_STOP_SENDING then
        on_stream stream_id (\<lambda>m s. ossl_quic_stream_map_update_state (qsm_put m stream_id (s\<lparr>qs_acked_stop_sending := True\<rparr>)) stream_id) w
      else if frame_type = OSSL_QUIC_FRAME_TYPE_RESET_STREAM then
        on_stream stream_id (\<lambda>m s. res_bind (ossl_quic_stream_map_notify_reset_stream_acked m stream_id) (\<lambda>(m, _).
          ossl_quic_stream_map_update_state m stream_id)) w
      else Inl NoReturn)"

definition on_sstream_updated :: "u64 \<Rightarrow> txp_world \<Rightarrow> c_fault + txp_world" where
  "on_sstream_updated stream_id w = on_stream stream_id (\<lambda>m s. ossl_quic_stream_map_update_state m stream_id) w"

definition txp_callbacks :: "txp_world fifd_callbacks" where
  "txp_callbacks = \<lparr>cb_get_sstream_by_id = get_sstream_by_id, cb_put_sstream = put_sstream_by_id, cb_regen_frame = on_regen_notify,
     cb_confirm_frame = on_confirm_notify, cb_sstream_updated = on_sstream_updated\<rparr>"

definition QUIC_ENC_LEVEL_INITIAL :: u32 where "QUIC_ENC_LEVEL_INITIAL = 0"
definition QUIC_ENC_LEVEL_HANDSHAKE :: u32 where "QUIC_ENC_LEVEL_HANDSHAKE = 2"
definition QUIC_ENC_LEVEL_0RTT :: u32 where "QUIC_ENC_LEVEL_0RTT = 1"
definition QUIC_ENC_LEVEL_1RTT :: u32 where "QUIC_ENC_LEVEL_1RTT = 3"
definition QUIC_ENC_LEVEL_NUM :: u32 where "QUIC_ENC_LEVEL_NUM = 4"

definition ossl_quic_enc_level_to_pn_space :: "u32 \<Rightarrow> c_fault + pn_space" where
  "ossl_quic_enc_level_to_pn_space enc_level =
     (if enc_level = QUIC_ENC_LEVEL_INITIAL then Inr QUIC_PN_SPACE_INITIAL
      else if enc_level = QUIC_ENC_LEVEL_HANDSHAKE then Inr QUIC_PN_SPACE_HANDSHAKE
      else if enc_level = QUIC_ENC_LEVEL_0RTT \<or> enc_level = QUIC_ENC_LEVEL_1RTT then Inr QUIC_PN_SPACE_APP
      else Inl NoReturn)"

definition ossl_quic_tx_packetiser_discard_enc_level :: "txp_world \<Rightarrow> u32 \<Rightarrow> c_fault + (txp_world \<times> bool)" where
  "ossl_quic_tx_packetiser_discard_enc_level w enc_level =
     (if enc_level \<ge> QUIC_ENC_LEVEL_NUM then Inr (w, False)
      else if enc_level \<noteq> QUIC_ENC_LEVEL_0RTT then
        res_bind (ossl_quic_enc_level_to_pn_space enc_level) (\<lambda>s. Inr (w\<lparr>txp_crypto := (txp_crypto w)(s := None)\<rparr>, True))
      else Inr (w, True))"

definition ossl_quic_tx_packetiser_schedule_handshake_done :: "txp_world \<Rightarrow> txp_world" where
  "ossl_quic_tx_packetiser_schedule_handshake_done w = w\<lparr>want_handshake_done := True\<rparr>"

definition ossl_quic_tx_packetiser_schedule_ack :: "txp_world \<Rightarrow> pn_space \<Rightarrow> txp_world" where
  "ossl_quic_tx_packetiser_schedule_ack w pn_space = w\<lparr>want_ack := (want_ack w)(pn_space := True)\<rparr>"

text \<open>
  \<^verbatim>\<open>ch_discard_el\<close> of \<^verbatim>\<open>ssl/quic/quic_channel.c\<close>, on the channel's fields that it uses: the mask of the discarded levels, and whether there still are a
  crypto send and a crypto receive stream of a space. The keys that the record layers drop are not part of the model. The callbacks that
  \<^verbatim>\<open>ossl_ackm_on_pkt_space_discarded\<close> calls are those of the dispatcher.
\<close>

record ch_enc_levels =
  ch_el_discarded :: u32
  ch_crypto_send :: "pn_space \<Rightarrow> bool"
  ch_crypto_recv :: "pn_space \<Rightarrow> bool"

definition ch_discard_el ::
    "ossl_time \<Rightarrow> ossl_time \<Rightarrow> ch_enc_levels \<Rightarrow> (newreno, txp_world) quic_fifd \<Rightarrow> u32 \<Rightarrow> c_fault + (ch_enc_levels \<times> (newreno, txp_world) quic_fifd \<times> bool)" where
  "ch_discard_el cc_now now c fd enc_level =
     (if \<not> enc_level < QUIC_ENC_LEVEL_1RTT then Inr (c, fd, False)
      else
        let el_bit = push_bit (unat enc_level) 1 in
        if ch_el_discarded c AND el_bit \<noteq> 0 then Inr (c, fd, True)
        else
          res_bind (ossl_quic_tx_packetiser_discard_enc_level (fd_world fd) enc_level) (\<lambda>(w, _).
          let fd = fd\<lparr>fd_world := w\<rparr> in
          if enc_level \<noteq> QUIC_ENC_LEVEL_0RTT then
            res_bind (ossl_quic_enc_level_to_pn_space enc_level) (\<lambda>s.
            let (a, _) = ossl_ackm_on_pkt_space_discarded (ossl_cc_newreno_method cc_now) now (fd_ackm fd) s in
            res_bind (dispatch txp_callbacks fd a) (\<lambda>fd.
            if \<not> ch_crypto_send c s \<or> \<not> ch_crypto_recv c s then Inr (c, fd, False)
            else Inr (c\<lparr>ch_crypto_send := (ch_crypto_send c)(s := False), ch_crypto_recv := (ch_crypto_recv c)(s := False),
                       ch_el_discarded := ch_el_discarded c OR el_bit\<rparr>, fd, True)))
          else Inr (c\<lparr>ch_el_discarded := ch_el_discarded c OR el_bit\<rparr>, fd, True)))"

section \<open>The contract\<close>

definition txp_ok :: "txp_world \<Rightarrow> bool" where
  "txp_ok w \<longleftrightarrow> qsm_ok (txp_qsm w) \<and> qsm_settled (txp_qsm w)"

lemma cb_simps [simp]:
  "cb_get_sstream_by_id txp_callbacks = get_sstream_by_id" "cb_put_sstream txp_callbacks = put_sstream_by_id"
  "cb_regen_frame txp_callbacks = on_regen_notify" "cb_confirm_frame txp_callbacks = on_confirm_notify"
  "cb_sstream_updated txp_callbacks = on_sstream_updated"
  by (simp_all add: txp_callbacks_def)

lemma get_put_sstream:
  assumes "get_sstream_by_id i s w = Some q0"
  shows "get_sstream_by_id i' s' (put_sstream_by_id i s q w) = (if same_stream i s i' s' then Some q else get_sstream_by_id i' s' w)"
  using assms
  by (auto simp: get_sstream_by_id_def put_sstream_by_id_def same_stream_def ossl_quic_stream_map_get_by_id_def split: option.splits)

lemma put_put_sstream: "put_sstream_by_id i s q (put_sstream_by_id i s q' w) = put_sstream_by_id i s q w"
  by (auto simp: put_sstream_by_id_def qsm_put_def split: option.split)

lemma put_self_sstream: "get_sstream_by_id i s w = Some q \<Longrightarrow> put_sstream_by_id i s q w = w"
  by (auto simp: get_sstream_by_id_def put_sstream_by_id_def qsm_put_def ossl_quic_stream_map_get_by_id_def fun_upd_idem split: option.splits)

text \<open>A stream whose buffer was written.\<close>

lemma stream_ok_put:
  assumes "stream_ok s" and "qs_sstream s = Some q0" and "sstream_ok q S"
  shows "stream_ok (s\<lparr>qs_sstream := Some q\<rparr>)" and "listed_same s (s\<lparr>qs_sstream := Some q\<rparr>)"
  using assms by (auto simp: stream_ok_def listed_same_def has_send_buffer_iff has_recv_buffer_iff)

lemma qsm_ok_put_sstream:
  assumes "qsm_ok m" and "qsm_map m i = Some s" and "qs_sstream s = Some q0" and "sstream_ok q S"
  shows "qsm_ok (qsm_put m i (s\<lparr>qs_sstream := Some q\<rparr>))"
  by (rule put_keeps(2) [OF assms(1,2) _ _ stream_ok_put(2,1) [OF qsm_okD(2) [OF assms(1,2)] assms(3,4)]]) (simp_all add: lists_same_def)

lemma settled_put: "qsm_settled m \<Longrightarrow> stream_settled s \<Longrightarrow> qsm_map m' = (qsm_map m)(i \<mapsto> s) \<Longrightarrow> qsm_settled m'"
  by (auto simp: qsm_settled_def)

lemma put_sstream_ok:
  assumes ok: "txp_ok w" and get: "get_sstream_by_id i sp w = Some q0" and q: "sstream_ok q S"
    and acked: "ossl_quic_sstream_is_totally_acked q \<longrightarrow> ossl_quic_sstream_is_totally_acked q0"
  shows "txp_ok (put_sstream_by_id i sp q w)"
proof (cases "i = UINT64_MAX")
  case True
  with ok show ?thesis
    by (simp add: txp_ok_def put_sstream_by_id_def)
next
  case False
  with get obtain s where s: "qsm_map (txp_qsm w) i = Some s" "qs_sstream s = Some q0"
    by (auto simp: get_sstream_by_id_def ossl_quic_stream_map_get_by_id_def split: option.splits)
  have settled: "stream_settled s"
    using ok s(1) by (simp add: txp_ok_def qsm_settled_def)
  have "stream_settled (s\<lparr>qs_sstream := Some q\<rparr>)"
    using acked s(2) settled by (auto simp: stream_settled_def)
  then have "qsm_settled (qsm_put (txp_qsm w) i (s\<lparr>qs_sstream := Some q\<rparr>))"
    using ok settled_put [of "txp_qsm w" "s\<lparr>qs_sstream := Some q\<rparr>" "qsm_put (txp_qsm w) i (s\<lparr>qs_sstream := Some q\<rparr>)" i] by (simp add: txp_ok_def)
  with qsm_ok_put_sstream [OF _ s q] ok False s(1) show ?thesis
    by (simp add: txp_ok_def put_sstream_by_id_def)
qed

text \<open>Updating the state of a stream after a change keeps the map in order, and its buffer unless it is acknowledged entirely.\<close>

lemma update_after:
  assumes ok: "qsm_ok m" and set: "qsm_settled m" and s: "qsm_map m i = Some s" and m1: "qsm_map m1 = (qsm_map m)(i \<mapsto> s1)" "lists_ok m1" and s1: "stream_ok s1"
  obtains m' s' where "ossl_quic_stream_map_update_state m1 i = Inr m'" "qsm_ok m'" "qsm_settled m'" "qsm_map m' = (qsm_map m)(i \<mapsto> s')"
    "qs_sstream s' = qs_sstream s1 \<or> qs_sstream s' = None" "stream_settled s1 \<Longrightarrow> qs_sstream s' = qs_sstream s1"
proof -
  obtain m' b where u: "ossl_quic_stream_map_update_state m1 i = Inr m'" "qsm_ok m'" "qsm_map m' = (qsm_map m)(i \<mapsto> stream_updated b s1)"
    by (rule update_keeps [OF ok s m1 s1])
  have "qsm_settled m'"
    by (rule settled_put [OF set stream_updated_ok(2) [OF s1] u(3)])
  moreover have "qs_sstream (stream_updated b s1) = qs_sstream s1" if "stream_settled s1"
    using that by (auto simp: updated_fields stream_settled_def acked_send_def)
  ultimately show ?thesis
    using that [of m' "stream_updated b s1"] u by (simp add: updated_fields(10))
qed

lemma on_stream_after:
  assumes ok: "txp_ok w"
    and f: "\<And>s. qsm_map (txp_qsm w) i = Some s \<Longrightarrow> \<exists>m' s'. f (txp_qsm w) s = Inr m' \<and> qsm_ok m' \<and> qsm_settled m' \<and> qsm_map m' = (qsm_map (txp_qsm w))(i \<mapsto> s')
      \<and> qs_sstream s' = qs_sstream s"
  shows "\<exists>w'. on_stream i f w = Inr w' \<and> txp_ok w' \<and> keeps_streams txp_callbacks w w'"
proof (cases "qsm_map (txp_qsm w) i")
  case None
  with ok show ?thesis
    by (simp add: on_stream_def ossl_quic_stream_map_get_by_id_def keeps_streams_def)
next
  case (Some s)
  from f [OF this] obtain m' s' where m': "f (txp_qsm w) s = Inr m'" "qsm_ok m'" "qsm_settled m'" "qsm_map m' = (qsm_map (txp_qsm w))(i \<mapsto> s')" "qs_sstream s' = qs_sstream s"
    by blast
  have "keeps_streams txp_callbacks w (w\<lparr>txp_qsm := m'\<rparr>)"
    using m'(5) Some by (auto simp: keeps_streams_def get_sstream_by_id_def ossl_quic_stream_map_get_by_id_def m'(4))
  with m' Some show ?thesis
    by (simp add: on_stream_def ossl_quic_stream_map_get_by_id_def txp_ok_def)
qed

text \<open>Setting a flag that the state update reads.\<close>

lemma flag_and_update:
  assumes ok: "txp_ok w" and s: "qsm_map (txp_qsm w) i = Some s" and same: "listed_same s s1" "stream_ok s1" "qs_sstream s1 = qs_sstream s" "stream_settled s1"
  shows "\<exists>m' s'. ossl_quic_stream_map_update_state (qsm_put (txp_qsm w) i s1) i = Inr m' \<and> qsm_ok m' \<and> qsm_settled m'
    \<and> qsm_map m' = (qsm_map (txp_qsm w))(i \<mapsto> s') \<and> qs_sstream s' = qs_sstream s"
proof -
  have w: "qsm_ok (txp_qsm w)" "qsm_settled (txp_qsm w)"
    using ok by (simp_all add: txp_ok_def)
  have l: "lists_ok (qsm_put (txp_qsm w) i s1)"
    by (rule put_keeps(1) [OF w(1) s _ _ same(1)]) (simp_all add: lists_same_def)
  obtain m' s' where "ossl_quic_stream_map_update_state (qsm_put (txp_qsm w) i s1) i = Inr m'" "qsm_ok m'" "qsm_settled m'"
    "qsm_map m' = (qsm_map (txp_qsm w))(i \<mapsto> s')" "stream_settled s1 \<Longrightarrow> qs_sstream s' = qs_sstream s1"
    by (rule update_after [OF w s _ l same(2)]) simp_all
  with same show ?thesis
    by auto
qed

lemma flags_fine:
  assumes "qsm_ok m" and "qsm_settled m" and "qsm_map m i = Some s"
    and "s1 \<in> {s, s\<lparr>qs_want_max_stream_data := b\<rparr>, s\<lparr>qs_want_reset_stream := b\<rparr>, s\<lparr>qs_acked_stop_sending := b\<rparr>, s\<lparr>qs_want_stop_sending := b\<rparr>}"
  shows "listed_same s s1" and "stream_ok s1" and "qs_sstream s1 = qs_sstream s" and "stream_settled s1"
proof -
  have s: "stream_ok s" "stream_settled s"
    using assms(1-3) qsm_okD(2) by (auto simp: qsm_settled_def)
  show "listed_same s s1" "qs_sstream s1 = qs_sstream s" "stream_settled s1"
    using assms(4) s(2) by (auto simp: listed_same_def stream_settled_def)
  show "stream_ok s1"
    using assms(4) s(1) by (auto simp: stream_ok_def has_send_buffer_iff has_recv_buffer_iff cong: option.case_cong)
qed

lemma regen_ok:
  assumes ok: "txp_ok w" and t: "t \<in> regen_frame_types"
  shows "\<exists>w'. on_regen_notify t i pkt w = Inr w' \<and> txp_ok w' \<and> keeps_streams txp_callbacks w w'"
proof -
  have w: "qsm_ok (txp_qsm w)" "qsm_settled (txp_qsm w)"
    using ok by (simp_all add: txp_ok_def)
  note fine = flags_fine [OF w]
  have flag: "\<exists>w'. on_stream i (\<lambda>m s. ossl_quic_stream_map_update_state (qsm_put m i (g s)) i) w = Inr w' \<and> txp_ok w' \<and> keeps_streams txp_callbacks w w'"
    if g: "\<And>s. g s \<in> {s, s\<lparr>qs_want_max_stream_data := True\<rparr>, s\<lparr>qs_want_reset_stream := True\<rparr>, s\<lparr>qs_acked_stop_sending := True\<rparr>, s\<lparr>qs_want_stop_sending := True\<rparr>}" for g
    by (rule on_stream_after [OF ok]) (rule flag_and_update [OF ok], assumption, (rule fine, assumption, rule g)+)
  have stop: "\<exists>w'. on_stream i (\<lambda>m s. res_bind (ossl_quic_stream_map_schedule_stop_sending m i) (\<lambda>(m, _). Inr m)) w = Inr w' \<and> txp_ok w' \<and> keeps_streams txp_callbacks w w'"
  proof (rule on_stream_after [OF ok])
    fix s assume s: "qsm_map (txp_qsm w) i = Some s"
    have f: "s\<lparr>qs_want_stop_sending := True\<rparr> \<in> {s, s\<lparr>qs_want_max_stream_data := True\<rparr>, s\<lparr>qs_want_reset_stream := True\<rparr>, s\<lparr>qs_acked_stop_sending := True\<rparr>, s\<lparr>qs_want_stop_sending := True\<rparr>}"
      by simp
    from flag_and_update [OF ok s fine [OF s f]] w s
    show "\<exists>m' s'. res_bind (ossl_quic_stream_map_schedule_stop_sending (txp_qsm w) i) (\<lambda>(m, _). Inr m) = Inr m' \<and> qsm_ok m' \<and> qsm_settled m'
      \<and> qsm_map m' = (qsm_map (txp_qsm w))(i \<mapsto> s') \<and> qs_sstream s' = qs_sstream s"
      by (auto simp: ossl_quic_stream_map_schedule_stop_sending_def fun_upd_idem intro: exI [of _ s])
  qed
  have plain: "keeps_streams txp_callbacks w w'" "txp_ok w'" if "txp_qsm w' = txp_qsm w" "txp_crypto w' = txp_crypto w" for w'
    using ok that by (simp_all add: keeps_streams_def get_sstream_by_id_def txp_ok_def)
  show ?thesis
    using t flag [of "\<lambda>s. s\<lparr>qs_want_max_stream_data := True\<rparr>"] flag [of "\<lambda>s. s\<lparr>qs_want_reset_stream := True\<rparr>"] stop
    unfolding regen_frame_types_def stream_frame_types_def on_regen_notify_def
    by (auto simp: plain)
qed

lemma confirm_ok:
  assumes ok: "txp_ok w" and t: "t \<in> stream_frame_types"
  shows "\<exists>w'. on_confirm_notify t i pkt w = Inr w' \<and> txp_ok w' \<and> keeps_streams txp_callbacks w w'"
proof -
  have w: "qsm_ok (txp_qsm w)" "qsm_settled (txp_qsm w)"
    using ok by (simp_all add: txp_ok_def)
  have stop: "\<exists>w'. on_stream i (\<lambda>m s. ossl_quic_stream_map_update_state (qsm_put m i (s\<lparr>qs_acked_stop_sending := True\<rparr>)) i) w = Inr w' \<and> txp_ok w'
      \<and> keeps_streams txp_callbacks w w'"
    by (rule on_stream_after [OF ok]) (rule flag_and_update [OF ok], assumption, (rule flags_fine [OF w, where b = True], assumption, simp)+)
  have reset: "\<exists>w'. on_stream i (\<lambda>m s. res_bind (ossl_quic_stream_map_notify_reset_stream_acked m i) (\<lambda>(m, _). ossl_quic_stream_map_update_state m i)) w = Inr w'
      \<and> txp_ok w' \<and> keeps_streams txp_callbacks w w'"
  proof (rule on_stream_after [OF ok])
    fix s assume s: "qsm_map (txp_qsm w) i = Some s"
    define s1 where "s1 = (if qs_send_state s = QUIC_SSTREAM_STATE_RESET_SENT then s\<lparr>qs_send_state := QUIC_SSTREAM_STATE_RESET_RECVD\<rparr> else s)"
    have sok: "stream_ok s" "stream_settled s"
      using w s qsm_okD(2) by (auto simp: qsm_settled_def)
    have fine: "listed_same s s1" "stream_ok s1" "qs_sstream s1 = qs_sstream s" "stream_settled s1"
      using sok by (auto simp: s1_def listed_same_def stream_settled_def stream_ok_def has_send_buffer_iff has_recv_buffer_iff cong: option.case_cong)
    have "ossl_quic_stream_map_notify_reset_stream_acked (txp_qsm w) i = Inr (qsm_put (txp_qsm w) i s1, ossl_quic_stream_send_is_reset s)"
      using s by (cases "qs_send_state s")
        (simp_all add: ossl_quic_stream_map_notify_reset_stream_acked_def s1_def qsm_put_def fun_upd_idem ossl_quic_stream_send_is_reset_def)
    with flag_and_update [OF ok s fine]
    show "\<exists>m' s'. res_bind (ossl_quic_stream_map_notify_reset_stream_acked (txp_qsm w) i) (\<lambda>(m, _). ossl_quic_stream_map_update_state m i) = Inr m' \<and> qsm_ok m'
      \<and> qsm_settled m' \<and> qsm_map m' = (qsm_map (txp_qsm w))(i \<mapsto> s') \<and> qs_sstream s' = qs_sstream s"
      by auto
  qed
  show ?thesis
    using t stop reset unfolding stream_frame_types_def on_confirm_notify_def by auto
qed

lemma updated_ok:
  assumes ok: "txp_ok w" and get: "get_sstream_by_id i sp w = Some q0" and q: "sstream_ok q S"
  shows "\<exists>w'. on_sstream_updated i (put_sstream_by_id i sp q w) = Inr w' \<and> txp_ok w' \<and> drops_streams txp_callbacks (put_sstream_by_id i sp q w) w'"
proof -
  define w1 where "w1 = put_sstream_by_id i sp q w"
  have w: "qsm_ok (txp_qsm w)" "qsm_settled (txp_qsm w)"
    using ok by (simp_all add: txp_ok_def)
  show ?thesis
  proof (cases "qsm_map (txp_qsm w1) i")
    case None
    have "i = UINT64_MAX"
      using None get by (auto simp: w1_def put_sstream_by_id_def get_sstream_by_id_def ossl_quic_stream_map_get_by_id_def split: option.splits if_splits)
    then have "txp_ok w1"
      using ok by (simp add: w1_def put_sstream_by_id_def txp_ok_def)
    with None show ?thesis
      by (simp add: w1_def [symmetric] on_sstream_updated_def on_stream_def ossl_quic_stream_map_get_by_id_def drops_streams_def)
  next
    case (Some s1)
    obtain s where s: "qsm_map (txp_qsm w) i = Some s" "qsm_map (txp_qsm w1) = (qsm_map (txp_qsm w))(i \<mapsto> s1)" "qsm_ok (txp_qsm w1)"
    proof (cases "i = UINT64_MAX")
      case True
      with Some that [of s1] w(1) show ?thesis
        by (simp add: w1_def put_sstream_by_id_def fun_upd_idem)
    next
      case False
      with get obtain s where s: "qsm_map (txp_qsm w) i = Some s" "qs_sstream s = Some q0"
        by (auto simp: get_sstream_by_id_def ossl_quic_stream_map_get_by_id_def split: option.splits)
      with qsm_ok_put_sstream [OF w(1) s q] False Some that [of s] show ?thesis
        by (simp add: w1_def put_sstream_by_id_def)
    qed
    obtain m' s' where m': "ossl_quic_stream_map_update_state (txp_qsm w1) i = Inr m'" "qsm_ok m'" "qsm_settled m'" "qsm_map m' = (qsm_map (txp_qsm w))(i \<mapsto> s')"
      "qs_sstream s' = qs_sstream s1 \<or> qs_sstream s' = None"
      by (rule update_after [OF w s(1,2) qsm_okD(1) [OF s(3)] qsm_okD(2) [OF s(3) Some]])
    have "on_sstream_updated i w1 = Inr (w1\<lparr>txp_qsm := m'\<rparr>)"
      using Some m'(1) by (simp add: on_sstream_updated_def on_stream_def ossl_quic_stream_map_get_by_id_def)
    moreover have "drops_streams txp_callbacks w1 (w1\<lparr>txp_qsm := m'\<rparr>)"
      using m'(5) s(2) by (auto simp: drops_streams_def get_sstream_by_id_def ossl_quic_stream_map_get_by_id_def m'(4))
    moreover have "txp_ok (w1\<lparr>txp_qsm := m'\<rparr>)"
      using m' by (simp add: txp_ok_def)
    ultimately show ?thesis
      unfolding w1_def [symmetric] by blast
  qed
qed

interpretation txp: fifd_client txp_callbacks txp_ok
proof
  show "cb_get_sstream_by_id txp_callbacks i' s' (cb_put_sstream txp_callbacks i s q w) = (if same_stream i s i' s' then Some q else cb_get_sstream_by_id txp_callbacks i' s' w)"
    if "cb_get_sstream_by_id txp_callbacks i s w = Some q0" for i s w q0 i' s' q
    using get_put_sstream that by simp
qed (simp_all add: put_put_sstream put_self_sstream put_sstream_ok updated_ok regen_ok confirm_ok)

section \<open>Properties\<close>

text \<open>The connection starts without streams; they are created as it goes.\<close>

definition txp_start :: "txp_world \<Rightarrow> bool" where
  "txp_start w \<longleftrightarrow> (\<exists>l b u server h g r. txp_qsm w = ossl_quic_stream_map_init l b u server h g r) \<and> txp_crypto w = (\<lambda>_. None)"

lemma txp_start_ok: "txp_start w \<Longrightarrow> txp_ok w \<and> streams_ok txp_callbacks {#} w"
proof -
  assume "txp_start w"
  then have "txp_ok w" "get_sstream_by_id i s w = None" for i s
    by (auto simp: txp_start_def txp_ok_def qsm_ok_def lists_ok_def qsm_settled_def flagged_def accept_of_kind_def ossl_quic_stream_map_init_def
        get_sstream_by_id_def ossl_quic_stream_map_get_by_id_def)
  then show ?thesis
    by (simp add: streams_ok_def)
qed

abbreviation txp_run :: "(newreno, txp_world) quic_fifd \<Rightarrow> ackm_label list \<Rightarrow> bool" where
  "txp_run \<equiv> fifd_run txp_callbacks txp_start txp_ok"

lemma txp_run_ok: "txp_run fd tr \<Longrightarrow> fifd_run_ok txp_callbacks txp_ok fd tr"
  by (rule txp.run_invariant [OF txp_start_ok])

definition demo_world :: "quic_sstream option \<Rightarrow> txp_world" where
  "demo_world q = \<lparr>txp_qsm = ossl_quic_stream_map_init None None None False (\<lambda>_. zero_txfc) (\<lambda>_. zero_rxfc) (\<lambda>_. 0),
     txp_crypto = (\<lambda>s. if s = QUIC_PN_SPACE_INITIAL then q else None), want_handshake_done = False, want_max_data = False,
     want_max_streams_bidi = False, want_max_streams_uni = False, want_ack = (\<lambda>_. False)\<rparr>"

lemma demo_world_ok: "txp_start (demo_world None)" "txp_ok (demo_world q)"
  by (auto simp: demo_world_def txp_start_def txp_ok_def qsm_ok_def lists_ok_def qsm_settled_def flagged_def accept_of_kind_def ossl_quic_stream_map_init_def)

text \<open>
  A run with a crypto stream for the Initial packets: three bytes are written to it, and an Initial packet that carries them is sent.
\<close>

abbreviation demo_ackm :: "newreno ackm" where
  "demo_ackm \<equiv> the (ossl_ackm_new (True, True, True, True) ossl_statm_init (the (newreno_new True)) False)"

abbreviation demo_stream :: "bytes \<Rightarrow> u64 \<Rightarrow> uint_set \<Rightarrow> quic_sstream" where
  "demo_stream bs n new \<equiv> sstream_state (bs @ replicate (8 - length bs) 0) 8 n 0 new []"

abbreviation demo_written :: quic_sstream where
  "demo_written \<equiv> demo_stream [1, 2, 3] 3 [\<lparr>rstart = 0, rend = 2\<rparr>]"

definition demo_crypto_pkt :: txpim_pkt where
  "demo_crypto_pkt = zero_txpim_pkt\<lparr>px_ackm_pkt := demo_pkt 0,
     px_chunks := [\<lparr>ch_stream_id = UINT64_MAX, ch_start = 0, ch_end = 2, ch_has_fin = False, ch_has_stop_sending = False, ch_has_reset_stream = False\<rparr>],
     px_alloc_chunks := 4\<rparr>"

definition demo_fifd :: "(newreno, txp_world) quic_fifd" where
  "demo_fifd = \<lparr>fd_cfq = the (ossl_quic_cfq_new True), fd_ackm = demo_ackm,
     fd_txpim = txpim_put (fst (projr (ossl_quic_txpim_pkt_alloc (Some 1) (the (ossl_quic_txpim_new True))))) 1 demo_crypto_pkt,
     fd_world = demo_world (Some demo_written)\<rparr>"

definition demo_sent_fifd :: "(newreno, txp_world) quic_fifd" where
  "demo_sent_fifd = fst (projr (ossl_quic_fifd_pkt_commit (ossl_cc_newreno_method (Ticks 0)) txp_callbacks [] True (Ticks 0) demo_fifd 1))"

lemma demo_get: "get_sstream_by_id i s (demo_world q) = (if i = UINT64_MAX \<and> s = QUIC_PN_SPACE_INITIAL then q else None)"
  by (simp add: get_sstream_by_id_def demo_world_def ossl_quic_stream_map_get_by_id_def ossl_quic_stream_map_init_def)

lemma demo_streams:
  "ossl_quic_sstream_new True (Some (replicate 8 0)) 8 = Inr (Some (demo_stream [] 0 []))"
  "ossl_quic_sstream_append True (demo_stream [] 0 []) [1, 2, 3] = Inr (demo_written, 3, True)"
proof -
  show "ossl_quic_sstream_new True (Some (replicate 8 0)) 8 = Inr (Some (demo_stream [] 0 []))"
    by code_simp
  show "ossl_quic_sstream_append True (demo_stream [] 0 []) [1, 2, 3] = Inr (demo_written, 3, True)"
    by code_simp
qed

lemma demo_fifd_run: "txp_run demo_fifd []" and demo_fifd_held: "held (fd_ackm demo_fifd) = {#}"
proof -
  have cc: "bytes_in_flight (the (newreno_new True)) = 0"
    by code_simp
  have a: "ossl_ackm_new (True, True, True, True) ossl_statm_init (the (newreno_new True)) False = Some demo_ackm"
    by (simp add: ossl_ackm_new_def tx_pkt_history_init_def)
  have held: "held demo_ackm = {#}"
    by (simp add: ossl_ackm_new_def tx_pkt_history_init_def held_def)
  define fd :: "txp_world \<Rightarrow> quic_txpim \<Rightarrow> (newreno, txp_world) quic_fifd" where "fd w m = \<lparr>fd_cfq = the (ossl_quic_cfq_new True), fd_ackm = demo_ackm, fd_txpim = m, fd_world = w\<rparr>" for w m
  let ?m0 = "the (ossl_quic_txpim_new True)"
  let ?m1 = "fst (projr (ossl_quic_txpim_pkt_alloc (Some 1) ?m0))"
  have "ossl_quic_fifd_init (ossl_quic_cfq_new True) (Some demo_ackm) (ossl_quic_txpim_new True) (demo_world None) = Some (fd (demo_world None) ?m0)"
    by (simp add: ossl_quic_fifd_init_def ossl_quic_cfq_new_def ossl_quic_txpim_new_def fd_def)
  from run_init [of txp_start, OF demo_world_ok(1) a cc this] have run: "txp_run (fd (demo_world None) ?m0) []" .
  have "world_step txp_callbacks (flight_chunks (fd_txpim (fd (demo_world None) ?m0)) (held (fd_ackm (fd (demo_world None) ?m0))))
      (fd_world (fd (demo_world None) ?m0)) (demo_world (Some (demo_stream [] 0 [])))"
    unfolding world_step_def using demo_streams(1)
    by (auto simp: demo_get fd_def held split: if_splits intro!: exI [of _ True] exI [of _ "Some (replicate 8 0)"] exI [of _ 8])
  from run_world [OF run demo_world_ok(2) this] have run: "txp_run (fd (demo_world (Some (demo_stream [] 0 []))) ?m0) []"
    by (simp add: fd_def)
  have "world_step txp_callbacks (flight_chunks (fd_txpim (fd (demo_world (Some (demo_stream [] 0 []))) ?m0)) (held (fd_ackm (fd (demo_world (Some (demo_stream [] 0 []))) ?m0))))
      (fd_world (fd (demo_world (Some (demo_stream [] 0 []))) ?m0)) (demo_world (Some demo_written))"
    unfolding world_step_def using app_append [OF _ demo_streams(2)]
    by (auto simp: demo_get fd_def held split: if_splits)
  from run_world [OF run demo_world_ok(2) this] have run: "txp_run (fd (demo_world (Some demo_written)) ?m0) []"
    by (simp add: fd_def)
  have al: "ossl_quic_txpim_pkt_alloc (Some 1) ?m0 = Inr (?m1, Some 1)" "1 \<in> txpim_live ?m1"
    by (simp_all add: ossl_quic_txpim_pkt_alloc_def ossl_quic_txpim_new_def txpim_get_free_def txpim_at_def txpim_put_def txpim_live_def
        txpim_list_insert_tail_def txpim_list_remove_def Let_def)
  have "txpim_pkts ?m0 1 = None"
    by (simp add: ossl_quic_txpim_new_def)
  with run_alloc [OF run, of "Some 1" ?m1 "Some 1"] al(1) have run: "txp_run (fd (demo_world (Some demo_written)) ?m1) []"
    by (simp add: fd_def)
  from run_fill [OF this, of 1 demo_crypto_pkt] al(2) held show "txp_run demo_fifd []"
    by (simp add: fd_def demo_fifd_def)
  show "held (fd_ackm demo_fifd) = {#}"
    using held by (simp add: demo_fifd_def)
qed

lemma demo_can_commit: "can_commit txp_callbacks demo_fifd 1 demo_crypto_pkt"
proof -
  have m: "fd_txpim demo_fifd = txpim_put (fst (projr (ossl_quic_txpim_pkt_alloc (Some 1) (the (ossl_quic_txpim_new True))))) 1 demo_crypto_pkt"
    by (simp add: demo_fifd_def)
  have pool: "1 \<in> txpim_live (fd_txpim demo_fifd)" "txpim_pkts (fd_txpim demo_fifd) 1 = Some demo_crypto_pkt"
    unfolding m by (simp_all add: ossl_quic_txpim_pkt_alloc_def ossl_quic_txpim_new_def txpim_get_free_def txpim_at_def txpim_put_def txpim_live_def
        txpim_list_insert_tail_def txpim_list_remove_def Let_def)
  have cc: "bytes_in_flight (cc_data demo_ackm) = 0" "discarded demo_ackm = (\<lambda>_. False)"
    by (simp_all add: ossl_ackm_new_def tx_pkt_history_init_def) code_simp
  have new: "v \<in> uint_set_ints [\<lparr>rstart = 0, rend = 2\<rparr>] \<longleftrightarrow> v \<le> 2" for v :: u64
    by (simp add: uint_set_ints_def)
  show ?thesis
    unfolding can_commit_def using pool demo_fifd_held cc
    by (auto simp: demo_crypto_pkt_def zero_txpim_pkt_def chunk_wf_def sendable_def demo_fifd_def demo_get cover_def chunk_has_def new demo_pkt_def
        same_stream_def split: if_splits)
qed

abbreviation demo_flight_pkt :: ackm_tx_pkt where
  "demo_flight_pkt \<equiv> (demo_pkt 0)\<lparr>tp_cb_arg := 1\<rparr>"

lemma demo_commit:
  "case ossl_quic_fifd_pkt_commit (ossl_cc_newreno_method (Ticks 0)) txp_callbacks [] True (Ticks 0) demo_fifd 1 of
     Inl _ \<Rightarrow> False
   | Inr (fd, ok) \<Rightarrow> ok
       \<and> tx_packets (tx_history (fd_ackm fd) QUIC_PN_SPACE_INITIAL) = [demo_flight_pkt]
       \<and> tx_packets (tx_history (fd_ackm fd) QUIC_PN_SPACE_HANDSHAKE) = [] \<and> tx_packets (tx_history (fd_ackm fd) QUIC_PN_SPACE_APP) = []
       \<and> map_option px_chunks (txpim_pkts (fd_txpim fd) 1) = Some (px_chunks demo_crypto_pkt)
       \<and> get_sstream_by_id UINT64_MAX QUIC_PN_SPACE_INITIAL (fd_world fd) = Some (demo_stream [1, 2, 3] 3 [])"
  by code_simp

text \<open>The run after the packet is sent, and what is in flight.\<close>

lemma demo_sent_run:
  shows "txp_run demo_sent_fifd [Sent demo_flight_pkt]" and "held (fd_ackm demo_sent_fifd) = {#demo_flight_pkt#}"
    and "get_sstream_by_id UINT64_MAX QUIC_PN_SPACE_INITIAL (fd_world demo_sent_fifd) = Some (demo_stream [1, 2, 3] 3 [])"
    and "1 \<in> txpim_live (fd_txpim demo_sent_fifd)" and "\<forall>x \<in># chunks_of (fd_txpim demo_sent_fifd) demo_flight_pkt. ch_stream_id (snd x) = UINT64_MAX"
proof -
  have commit: "ossl_quic_fifd_pkt_commit (ossl_cc_newreno_method (Ticks 0)) txp_callbacks [] True (Ticks 0) demo_fifd 1 = Inr (demo_sent_fifd, True)"
    using demo_commit by (auto simp: demo_sent_fifd_def split: sum.splits)
  from demo_commit show held: "held (fd_ackm demo_sent_fifd) = {#demo_flight_pkt#}"
    and "get_sstream_by_id UINT64_MAX QUIC_PN_SPACE_INITIAL (fd_world demo_sent_fifd) = Some (demo_stream [1, 2, 3] 3 [])"
    unfolding commit by (simp_all add: held_def)
  have "demo_flight_pkt = (px_ackm_pkt demo_crypto_pkt)\<lparr>tp_cb_arg := 1, tp_on_acked_frees := False\<rparr>"
    by (simp add: demo_crypto_pkt_def demo_pkt_def)
  with run_commit [OF demo_fifd_run demo_can_commit commit] show run: "txp_run demo_sent_fifd [Sent demo_flight_pkt]"
    by simp
  have "pkts_ok (fd_txpim demo_sent_fifd) {#demo_flight_pkt#}"
    using txp_run_ok [OF run] by (simp add: fifd_run_ok_def fifd_inv_def held)
  then show "1 \<in> txpim_live (fd_txpim demo_sent_fifd)"
    by (simp add: pkts_ok_def)
  show "\<forall>x \<in># chunks_of (fd_txpim demo_sent_fifd) demo_flight_pkt. ch_stream_id (snd x) = UINT64_MAX"
    using demo_commit unfolding commit by (auto simp: chunks_of_def demo_crypto_pkt_def)
qed

lemma event_ackm: "fifd_event cb mem fd e = Inr fd' \<Longrightarrow> fd_ackm fd' = fd_ackm fd"
  by (cases e) (auto simp: on_acked_def on_lost_def on_discarded_def res_bind_Inr split: prod.splits)

lemma events_ackm: "fifd_events cb fd es = Inr fd' \<Longrightarrow> fd_ackm fd' = fd_ackm fd"
  by (induction es arbitrary: fd) (auto simp: res_bind_Inr dest: event_ackm)

text \<open>
  Property C2. Nothing a send stream was given is forgotten: in every run of the packetiser's streams with the dispatcher, the acknowledgement manager, the packet pool
  and the control frame queue, every byte appended to a live stream (a crypto stream or a stream of the map) either waits to be sent, or was acknowledged, or is in
  exactly one chunk of the packets in flight; no other byte is in any chunk; and a FIN that was sent is acknowledged or is in a packet in flight.
\<close>

theorem stream_bytes_are_tracked:
  assumes "txp_run fd tr" and "get_sstream_by_id i s (fd_world fd) = Some q" and "C = flight_chunks (fd_txpim fd) (held (fd_ackm fd))"
  shows "(\<forall>v. cover C i s v = (if unat v < rb_head (ss_ring q) \<and> v \<notin> uint_set_ints (new_set q) \<and> v \<notin> uint_set_ints (acked_set q) then 1 else 0))
    \<and> (sent_final_size q \<and> \<not> acked_final_size q \<and> i \<noteq> UINT64_MAX \<longrightarrow> (\<exists>x \<in># C. chunk_on i s x \<and> ch_has_fin (snd x)))
    \<and> uint_set_ints (new_set q) \<inter> uint_set_ints (acked_set q) = {}"
proof -
  have t: "stream_tracked C q i s"
    using txp_run_ok [OF assms(1)] assms(2,3) by (auto simp: fifd_run_ok_def fifd_inv_def streams_ok_def)
  then obtain S where "sstream_ok q S"
    by (auto simp: stream_tracked_def)
  from sstream_okD(6) [OF this] t show ?thesis
    by (auto simp: stream_tracked_def sstream_flying_def)
qed

theorem stream_bytes_are_tracked_witness:
  "get_sstream_by_id UINT64_MAX QUIC_PN_SPACE_INITIAL (fd_world demo_sent_fifd) = Some (demo_stream [1, 2, 3] 3 [])
     \<and> cover (flight_chunks (fd_txpim demo_sent_fifd) (held (fd_ackm demo_sent_fifd))) UINT64_MAX QUIC_PN_SPACE_INITIAL 2 = 1
     \<and> cover (flight_chunks (fd_txpim demo_sent_fifd) (held (fd_ackm demo_sent_fifd))) UINT64_MAX QUIC_PN_SPACE_INITIAL 3 = 0"
  using stream_bytes_are_tracked [OF demo_sent_run(1,3) refl] demo_sent_run(3) by (simp add: uint_set_ints_def)

text \<open>Discarding a space of the acknowledgement manager, once the packetiser has given up its crypto stream.\<close>

lemma held_in_space:
  assumes "ackm_run a tr" and "h \<in># held a"
  shows "h \<in> set (tx_packets (tx_history a (tp_pkt_space h)))"
proof -
  obtain s where "h \<in> set (tx_packets (tx_history a s))"
    using assms(2) by (auto simp: held_def)
  with held_space(2) [OF assms(1) this] show ?thesis
    by simp
qed

lemma discard_crypto:
  assumes run: "txp_run fd tr"
    and crypto: "\<forall>h \<in># held (fd_ackm fd). tp_pkt_space h = s \<longrightarrow> (\<forall>x \<in># chunks_of (fd_txpim fd) h. ch_stream_id (snd x) = UINT64_MAX)"
    and w: "w = (fd_world fd)\<lparr>txp_crypto := (txp_crypto (fd_world fd))(s := None)\<rparr>"
    and a': "a' = fst (ossl_ackm_on_pkt_space_discarded (ossl_cc_newreno_method cc_now) now (fd_ackm fd) s)"
  obtains fd' where "dispatch txp_callbacks (fd\<lparr>fd_world := w\<rparr>) a' = Inr fd'" "fd_ackm fd' = a'" "txp_run fd' tr"
    "\<forall>h \<in># held a'. tp_pkt_space h \<noteq> s"
    "txpim_live (fd_txpim fd') = txpim_live (fd_txpim fd) - tp_cb_arg ` set_mset (held (fd_ackm fd) - held a')"
proof -
  let ?fd = "fd\<lparr>fd_world := w\<rparr>"
  have I: "ackm_run (fd_ackm fd) tr" "fifd_inv txp_callbacks txp_ok (held (fd_ackm fd)) fd"
    using txp_run_ok [OF run] by (simp_all add: fifd_run_ok_def)
  have get: "get_sstream_by_id i s' w = (if i = UINT64_MAX \<and> s' = s then None else get_sstream_by_id i s' (fd_world fd))" for i s'
    by (simp add: get_sstream_by_id_def w)
  have "txp_ok w"
    using I(2) by (simp add: fifd_inv_def txp_ok_def w)
  moreover have "world_step txp_callbacks (flight_chunks (fd_txpim fd) (held (fd_ackm fd))) (fd_world fd) w"
    using app_none by (auto simp: world_step_def get split: if_splits)
  ultimately have run': "txp_run ?fd tr"
    by (rule run_world [OF run])
  have dead: "\<forall>h \<in># held (fd_ackm ?fd). tp_pkt_space h = s \<longrightarrow>
      (\<forall>x \<in># chunks_of (fd_txpim ?fd) h. cb_get_sstream_by_id txp_callbacks (ch_stream_id (snd x)) (fst x) (fd_world ?fd) = None)"
  proof (intro ballI impI)
    fix h x assume h: "h \<in># held (fd_ackm ?fd)" "tp_pkt_space h = s" and x: "x \<in># chunks_of (fd_txpim ?fd) h"
    have "\<exists>y. txpim_pkts (fd_txpim fd) (tp_cb_arg h) = Some y \<and> px_ackm_pkt y = h"
      using I(2) h(1) by (auto simp: fifd_inv_def pkts_ok_def)
    then have "fst x = s"
      using x h(2) by (auto simp: chunks_of_def)
    moreover have "ch_stream_id (snd x) = UINT64_MAX"
      using crypto h x by simp
    ultimately show "cb_get_sstream_by_id txp_callbacks (ch_stream_id (snd x)) (fst x) (fd_world ?fd) = None"
      by (simp add: get)
  qed
  obtain b where disc: "ossl_ackm_on_pkt_space_discarded (ossl_cc_newreno_method cc_now) now (fd_ackm ?fd) s = (a', b)"
    using a' by (cases "ossl_ackm_on_pkt_space_discarded (ossl_cc_newreno_method cc_now) now (fd_ackm fd) s") simp
  obtain fd' where fd': "dispatch txp_callbacks ?fd a' = Inr fd'" "fifd_run_ok txp_callbacks txp_ok fd' tr"
    "txpim_live (fd_txpim fd') = txpim_live (fd_txpim ?fd) - tp_cb_arg ` set_mset (held (fd_ackm ?fd) - held a')"
    using txp.discard_inv [OF txp_run_ok [OF run'] dead disc] by blast
  have ackm: "fd_ackm fd' = a'"
    using events_ackm [OF fd'(1) [unfolded dispatch_def]] by simp
  then have ra: "ackm_run a' tr"
    using fd'(2) by (simp add: fifd_run_ok_def)
  have "discarded a' s"
    using run_ok_discard(3) [OF run_inv [OF I(1)], of cc_now now s] by (simp add: a')
  then have "tx_packets (tx_history a' s) = []"
    using run_inv [OF ra] by (auto elim!: run_okD dest: tx_invD(2))
  then have "\<forall>h \<in># held a'. tp_pkt_space h \<noteq> s"
    using held_in_space [OF ra] by fastforce
  with fd' ackm run_discard_space [OF run' dead disc fd'(1)] show ?thesis
    by (intro that [of fd']) simp_all
qed

lemma step_dispatched:
  assumes run: "txp_run fd tr" and step: "ackm_step (fd_ackm fd) a' ls"
  shows "\<exists>fd'. dispatch txp_callbacks fd a' = Inr fd' \<and> fd_ackm fd' = a' \<and> txp_run fd' (tr @ ls)
    \<and> txpim_live (fd_txpim fd') = txpim_live (fd_txpim fd) - tp_cb_arg ` set_mset (held (fd_ackm fd) - held a')"
proof -
  obtain fd' where fd': "dispatch txp_callbacks fd a' = Inr fd'"
    "txpim_live (fd_txpim fd') = txpim_live (fd_txpim fd) - tp_cb_arg ` set_mset (held (fd_ackm fd) - held a')"
    using txp.step_inv [OF txp_run_ok [OF run] step] by blast
  moreover have "fd_ackm fd' = a'"
    using events_ackm [OF fd'(1) [unfolded dispatch_def]] by simp
  ultimately show ?thesis
    using run_step [OF run step fd'(1)] by blast
qed

lemma level_discarded:
  assumes run: "txp_run fd tr"
    and el: "(el, s) \<in> {(QUIC_ENC_LEVEL_INITIAL, QUIC_PN_SPACE_INITIAL), (QUIC_ENC_LEVEL_HANDSHAKE, QUIC_PN_SPACE_HANDSHAKE)}"
    and bit: "ch_el_discarded c AND push_bit (unat el) 1 = 0"
    and crypto: "\<forall>h \<in># held (fd_ackm fd). tp_pkt_space h = s \<longrightarrow> (\<forall>x \<in># chunks_of (fd_txpim fd) h. ch_stream_id (snd x) = UINT64_MAX)"
  shows "\<exists>c' fd'. ch_discard_el cc_now now c fd el = Inr (c', fd', ch_crypto_send c s \<and> ch_crypto_recv c s)
    \<and> fd_ackm fd' = fst (ossl_ackm_on_pkt_space_discarded (ossl_cc_newreno_method cc_now) now (fd_ackm fd) s)
    \<and> txp_run fd' tr \<and> (\<forall>h \<in># held (fd_ackm fd'). tp_pkt_space h \<noteq> s)
    \<and> txpim_live (fd_txpim fd') = txpim_live (fd_txpim fd) - tp_cb_arg ` set_mset (held (fd_ackm fd) - held (fd_ackm fd'))"
proof -
  let ?w = "(fd_world fd)\<lparr>txp_crypto := (txp_crypto (fd_world fd))(s := None)\<rparr>"
    and ?a = "fst (ossl_ackm_on_pkt_space_discarded (ossl_cc_newreno_method cc_now) now (fd_ackm fd) s)"
  obtain fd' where fd': "dispatch txp_callbacks (fd\<lparr>fd_world := ?w\<rparr>) ?a = Inr fd'" "fd_ackm fd' = ?a" "txp_run fd' tr"
    "\<forall>h \<in># held ?a. tp_pkt_space h \<noteq> s"
    "txpim_live (fd_txpim fd') = txpim_live (fd_txpim fd) - tp_cb_arg ` set_mset (held (fd_ackm fd) - held ?a)"
    by (rule discard_crypto [OF run crypto refl refl])
  have level: "el < QUIC_ENC_LEVEL_1RTT" "\<not> QUIC_ENC_LEVEL_NUM \<le> el" "el \<noteq> QUIC_ENC_LEVEL_0RTT" "ossl_quic_enc_level_to_pn_space el = Inr s"
    using el by (auto simp: QUIC_ENC_LEVEL_INITIAL_def QUIC_ENC_LEVEL_HANDSHAKE_def QUIC_ENC_LEVEL_0RTT_def QUIC_ENC_LEVEL_1RTT_def
        QUIC_ENC_LEVEL_NUM_def ossl_quic_enc_level_to_pn_space_def)
  have "ch_discard_el cc_now now c fd el =
    (if ch_crypto_send c s \<and> ch_crypto_recv c s
     then Inr (c\<lparr>ch_crypto_send := (ch_crypto_send c)(s := False), ch_crypto_recv := (ch_crypto_recv c)(s := False),
            ch_el_discarded := ch_el_discarded c OR push_bit (unat el) 1\<rparr>, fd', True)
     else Inr (c, fd', False))"
    using level bit fd'(1) by (simp add: ch_discard_el_def ossl_quic_tx_packetiser_discard_enc_level_def Let_def split_beta)
  with fd' show ?thesis
    by (cases "ch_crypto_send c s \<and> ch_crypto_recv c s") auto
qed

text \<open>
  Property C11. Whatever the acknowledgement manager finds out, its callbacks are carried out. After every operation of the manager in a run, telling the streams, the
  control frame queue and the packet pool of the packets acknowledged and lost completes without a fault and leads to a state of the run, and exactly
  the packets that are no longer in flight are given back to the pool. The same holds for the packets of a discarded space, when the channel discards the
  encryption level Initial or Handshake (whose packets carry no stream data but that of the crypto stream): the packetiser gives up the level's crypto stream,
  all packets of the space are given back, and none of it is in flight any more.
\<close>

theorem fifd_dispatches_every_event:
  assumes "txp_run fd tr"
  shows "(\<forall>a' ls. ackm_step (fd_ackm fd) a' ls \<longrightarrow>
      (\<exists>fd'. dispatch txp_callbacks fd a' = Inr fd' \<and> fd_ackm fd' = a' \<and> txp_run fd' (tr @ ls)
        \<and> txpim_live (fd_txpim fd') = txpim_live (fd_txpim fd) - tp_cb_arg ` set_mset (held (fd_ackm fd) - held a')))
    \<and> (\<forall>(el, s) \<in> {(QUIC_ENC_LEVEL_INITIAL, QUIC_PN_SPACE_INITIAL), (QUIC_ENC_LEVEL_HANDSHAKE, QUIC_PN_SPACE_HANDSHAKE)}.
        ch_el_discarded c AND push_bit (unat el) 1 = 0
        \<and> (\<forall>h \<in># held (fd_ackm fd). tp_pkt_space h = s \<longrightarrow> (\<forall>x \<in># chunks_of (fd_txpim fd) h. ch_stream_id (snd x) = UINT64_MAX)) \<longrightarrow>
      (\<exists>c' fd'. ch_discard_el cc_now now c fd el = Inr (c', fd', ch_crypto_send c s \<and> ch_crypto_recv c s)
        \<and> fd_ackm fd' = fst (ossl_ackm_on_pkt_space_discarded (ossl_cc_newreno_method cc_now) now (fd_ackm fd) s)
        \<and> txp_run fd' tr \<and> (\<forall>h \<in># held (fd_ackm fd'). tp_pkt_space h \<noteq> s)
        \<and> txpim_live (fd_txpim fd') = txpim_live (fd_txpim fd) - tp_cb_arg ` set_mset (held (fd_ackm fd) - held (fd_ackm fd'))))"
  by (intro conjI allI impI ballI; clarify?; rule step_dispatched [OF assms] level_discarded [OF assms]; assumption)

text \<open>The packet of the example is discarded with the Initial level.\<close>

theorem fifd_dispatches_every_event_witness:
  "\<exists>c' fd'. held (fd_ackm demo_sent_fifd) = {#demo_flight_pkt#} \<and> 1 \<in> txpim_live (fd_txpim demo_sent_fifd)
     \<and> ch_discard_el (Ticks 9) (Ticks 9) \<lparr>ch_el_discarded = 0, ch_crypto_send = (\<lambda>_. True), ch_crypto_recv = (\<lambda>_. True)\<rparr> demo_sent_fifd QUIC_ENC_LEVEL_INITIAL
         = Inr (c', fd', True)
     \<and> demo_flight_pkt \<notin># held (fd_ackm fd') \<and> 1 \<notin> txpim_live (fd_txpim fd')"
proof -
  let ?c = "\<lparr>ch_el_discarded = 0, ch_crypto_send = (\<lambda>_. True), ch_crypto_recv = (\<lambda>_. True)\<rparr>"
  note all = fifd_dispatches_every_event [OF demo_sent_run(1), of ?c "Ticks 9" "Ticks 9"]
  obtain c' fd' where d: "ch_discard_el (Ticks 9) (Ticks 9) ?c demo_sent_fifd QUIC_ENC_LEVEL_INITIAL = Inr (c', fd', True)"
    "\<forall>h \<in># held (fd_ackm fd'). tp_pkt_space h \<noteq> QUIC_PN_SPACE_INITIAL"
    "txpim_live (fd_txpim fd') = txpim_live (fd_txpim demo_sent_fifd) - tp_cb_arg ` set_mset (held (fd_ackm demo_sent_fifd) - held (fd_ackm fd'))"
    using all demo_sent_run(2,5) by auto
  have "tp_pkt_space demo_flight_pkt = QUIC_PN_SPACE_INITIAL"
    by (simp add: demo_pkt_def)
  then have none: "demo_flight_pkt \<notin># held (fd_ackm fd')"
    using d(2) by auto
  then have "{#demo_flight_pkt#} - held (fd_ackm fd') = {#demo_flight_pkt#}"
    by simp
  then have "1 \<notin> txpim_live (fd_txpim fd')"
    using d(3) demo_sent_run(2) by simp
  with d(1) none demo_sent_run(2,4) show ?thesis
    by blast
qed

text \<open>
  Property C28. A control frame is on the list of sent frames of the queue exactly when a packet in flight carries it, and then just one does; the packets in flight are
  packets of the pool, each with the record the acknowledgement manager keeps, and each once.
\<close>

theorem control_frames_are_tracked:
  assumes "txp_run fd tr" and "H = held (fd_ackm fd)"
  shows "(\<forall>p. count (flight_items (fd_txpim fd) H) p = (if \<exists>it. cfq_view (fd_cfq fd) p = Some it \<and> it_state it = QUIC_CFQ_STATE_TX then 1 else 0))
    \<and> (\<forall>h \<in># H. tp_cb_arg h \<in> txpim_live (fd_txpim fd) \<and> (\<exists>x. txpim_pkts (fd_txpim fd) (tp_cb_arg h) = Some x \<and> px_ackm_pkt x = h))
    \<and> (\<forall>p. count (image_mset tp_cb_arg H) p \<le> 1)"
  using txp_run_ok [OF assms(1)] assms(2) by (auto simp: fifd_run_ok_def fifd_inv_def items_tracked_def pkts_ok_def cfq_in_tx_def)

theorem control_frames_are_tracked_witness:
  "demo_flight_pkt \<in># held (fd_ackm demo_sent_fifd) \<and> 1 \<in> txpim_live (fd_txpim demo_sent_fifd)
     \<and> (\<exists>x. txpim_pkts (fd_txpim demo_sent_fifd) 1 = Some x \<and> px_ackm_pkt x = demo_flight_pkt)"
  using control_frames_are_tracked [OF demo_sent_run(1) refl] demo_sent_run(2) by simp

text \<open>
  Property C40. A RESET_STREAM that was sent is forgotten: once the send part of a stream is reset its buffer is freed, and then neither the acknowledgement nor the loss of
  the packet with its RESET_STREAM frame reaches the stream, so the reset is never confirmed and never sent again.
\<close>

theorem fifd_forgets_stream_resets:
  assumes "txp_ok w" and "qsm_map (txp_qsm w) (ch_stream_id c) = Some s" and "qs_send_state s = QUIC_SSTREAM_STATE_RESET_SENT"
    and "ch_has_reset_stream c" and "ch_stream_id c \<noteq> UINT64_MAX"
  shows "acked_chunk txp_callbacks mem pkt w c = Inr w \<and> lost_chunk txp_callbacks mem pkt w c = Inr w"
proof -
  have "stream_ok s"
    using assms(1,2) by (auto simp: txp_ok_def qsm_ok_def)
  then have "qs_sstream s = None"
    using assms(3) by (auto simp: stream_ok_def has_send_buffer_iff split: option.splits)
  with assms(2,5) show ?thesis
    by (simp add: acked_chunk_def lost_chunk_def get_sstream_by_id_def ossl_quic_stream_map_get_by_id_def)
qed

text \<open>A stream whose send part was reset.\<close>

definition demo_reset_stream :: quic_stream where
  "demo_reset_stream = (zero_stream 0 1)\<lparr>qs_id := 2, qs_type := 2, qs_send_state := QUIC_SSTREAM_STATE_RESET_SENT\<rparr>"

definition demo_reset_world :: txp_world where
  "demo_reset_world = (demo_world None)\<lparr>txp_qsm := qsm_put (txp_qsm (demo_world None)) 2 demo_reset_stream\<rparr>"

definition demo_reset_chunk :: txpim_chunk where
  "demo_reset_chunk = \<lparr>ch_stream_id = 2, ch_start = - 1, ch_end = 0, ch_has_fin = False, ch_has_stop_sending = False, ch_has_reset_stream = True\<rparr>"

theorem fifd_forgets_stream_resets_witness: "lost_chunk txp_callbacks True zero_txpim_pkt demo_reset_world demo_reset_chunk = Inr demo_reset_world"
proof -
  have s: "stream_ok demo_reset_stream" "stream_settled demo_reset_stream"
    by (simp_all add: demo_reset_stream_def zero_stream_def stream_ok_def stream_settled_def ossl_quic_stream_has_send_buffer_def ossl_quic_stream_has_recv_buffer_def)
  have "txp_ok demo_reset_world"
    using s by (auto simp: demo_reset_world_def demo_world_def txp_ok_def qsm_ok_def lists_ok_def qsm_settled_def flagged_def accept_of_kind_def
        ossl_quic_stream_map_init_def qsm_put_def demo_reset_stream_def zero_stream_def)
  from fifd_forgets_stream_resets [OF this, of demo_reset_chunk demo_reset_stream True zero_txpim_pkt] show ?thesis
    by (simp add: demo_reset_world_def demo_reset_chunk_def demo_reset_stream_def)
qed

end
