(* ===== verification/Spec2Isabelle.thy ===== *)
theory Spec2Isabelle
  imports Stream_Channel Rcidm Ackm_Run Cfq Stream_Open Txp_Notify
begin

text \<open>
  The transport core of the QUIC implementation in OpenSSL (\<^verbatim>\<open>src/task5/openssl/\<close>; paths below are relative to it).

  \<^bold>\<open>The program.\<close> A QUIC connection writes an application's bytes to a send stream, which keeps them in a ring buffer until the
  peer acknowledged them and hands out pieces as STREAM frames. Frames are written to packets. Arriving frames are decoded
  and queued at a receive stream, which puts the pieces in order. Flow control limits what either side may send, the
  statistics manager estimates the round-trip time from acknowledgements, and the congestion controller turns
  acknowledgements and losses into a window. The stream map keeps the streams and the states of their two parts and says which have something to
  send; the control frame queue keeps other frames; what a packet carried is remembered in a pool, and a dispatcher tells streams and queue when the acknowledgement
  manager finds a packet acknowledged, lost or discarded. The development models these parts as the C code has them: one definition per
  function, with the function's name, on records with the structs' fields.

  \<^bold>\<open>The theories\<close>, each on the ones before it that it calls:

    \<^item> \<open>Quic_Prelude\<close>: word types, lemmas on unsigned words, C faults, memory blocks.
    \<^item> \<open>Safe_Math\<close>: \<^verbatim>\<open>include/internal/safe_math.h\<close>, overflow-checked arithmetic.
    \<^item> \<open>Ossl_Time\<close>: \<^verbatim>\<open>include/internal/time.h\<close>, saturating time arithmetic.
    \<^item> \<open>Quic_Vlint\<close>: \<^verbatim>\<open>crypto/quic_vlint.c\<close> and \<^verbatim>\<open>include/internal/quic_vlint.h\<close>, variable-length integers.
    \<^item> \<open>Uint_Set\<close>: \<^verbatim>\<open>ssl/quic/uint_set.c\<close>, sets of 64-bit integers as lists of ranges.
    \<^item> \<open>Ring_Buf\<close>: \<^verbatim>\<open>include/internal/ring_buf.h\<close>, the byte ring buffer.
    \<^item> \<open>Sstream\<close>: \<^verbatim>\<open>ssl/quic/quic_sstream.c\<close>, send streams, on the ring buffer and two integer sets.
    \<^item> \<open>Flow_Control\<close>: \<^verbatim>\<open>ssl/quic/quic_fc.c\<close>, send and receive flow control, in a store since streams share their connection's
      controller.
    \<^item> \<open>Statm\<close>: \<^verbatim>\<open>ssl/quic/quic_statm.c\<close>, round-trip time estimation.
    \<^item> \<open>Newreno\<close>: \<^verbatim>\<open>ssl/quic/cc_newreno.c\<close>, the congestion controller.
    \<^item> \<open>Sframe_List\<close>: \<^verbatim>\<open>ssl/quic/quic_sf_list.c\<close>, received frames in order, with the reference counts of their packets.
    \<^item> \<open>Rstream\<close>: \<^verbatim>\<open>ssl/quic/quic_rstream.c\<close>, receive streams, on the frame list, the ring buffer, flow control and statistics.
    \<^item> \<open>Packet_Reader\<close> and \<open>Wpacket\<close>: \<^verbatim>\<open>include/internal/packet.h\<close>, \<^verbatim>\<open>crypto/packet.c\<close> and the growing buffer of
      \<^verbatim>\<open>crypto/buffer/buffer.c\<close>, reading and writing packets.
    \<^item> \<open>Quic_Wire\<close> and \<open>Quic_Frames\<close>: \<^verbatim>\<open>ssl/quic/quic_wire.c\<close>, the encoders and decoders of all frames and transport parameters;
      their properties, over a description of each frame's layout, are in the second theory.
    \<^item> \<open>Priority_Queue\<close>: \<^verbatim>\<open>ssl/priority_queue.c\<close>, the array heap whose entries can be removed by handle.
    \<^item> \<open>Rcidm\<close>: \<^verbatim>\<open>ssl/quic/quic_rcidm.c\<close>, the connection IDs that the peer issued, pending in a priority queue, current or to be retired.
    \<^item> \<open>Ackm\<close>, \<open>Ackm_Tx\<close>, \<open>Ackm_Rx\<close>, \<open>Ackm_Run\<close>: \<^verbatim>\<open>ssl/quic/quic_ackm.c\<close>, the acknowledgement manager: its definitions, the lemmas on its sending
      and its receiving side, and its runs with their properties. It calls the integer sets, the statistics and, through a record of
      functions, the congestion controller.
    \<^item> \<open>Cfq\<close> and \<open>Txpim\<close>: \<^verbatim>\<open>ssl/quic/quic_cfq.c\<close>, the queue of control frames, and \<^verbatim>\<open>ssl/quic/quic_txpim.c\<close>, the pool of sent packets with the chunks
      of streams they carried.
    \<^item> \<open>Fifd\<close> and \<open>Fifd_Run\<close>: \<^verbatim>\<open>ssl/quic/quic_fifd.c\<close>, the frame-in-flight dispatcher, and its runs together with the acknowledgement manager, the pool, the queue
      and the send streams.
    \<^item> \<open>Stream_Map\<close> and \<open>Stream_Open\<close>: \<^verbatim>\<open>ssl/quic/quic_stream_map.c\<close>, the streams of a connection with their states, lists and iterators, and the functions of
      \<^verbatim>\<open>ssl/quic/quic_channel.c\<close> that create and reject streams; its runs and properties are in the second theory.
    \<^item> \<open>Txp_Notify\<close>: the callbacks of the packetiser (\<^verbatim>\<open>ssl/quic/quic_txp.c\<close>) that connect the dispatcher with the stream map, and the channel's discarding of
      an encryption level (\<^verbatim>\<open>ch_discard_el\<close> of \<^verbatim>\<open>ssl/quic/quic_channel.c\<close>).
    \<^item> \<open>Stream_Channel\<close>: the composition of send stream, frames, packets and receive stream over a network that loses, repeats
      and reorders.

  \<^bold>\<open>Conventions.\<close> A function on a pointer to a struct takes the struct and returns it updated. Undefined behaviour (a null
  dereference, an access outside a block of memory, a use after free, a division by zero) or a loop that does not end is a value of \<^typ>\<open>c_fault\<close>, and an operation that
  could reach it returns a sum with the fault on the left; so a theorem that an operation gives \<^term>\<open>Inr\<close> says that it is free
  of it. Whether an allocation succeeds is an argument. Integers have their C width. Objects that several owners share (flow
  controllers, packets, connection IDs) live in an explicit store. \<^verbatim>\<open>assert\<close> is absent from release builds and from the model, \<^verbatim>\<open>ossl_assert\<close> is
  the test it is in such builds; only the unreachable default of a switch (\<^verbatim>\<open>assert(0)\<close>) is a fault. Doubly linked lists are lists in list order.

  \<^bold>\<open>The theorems.\<close> Each component has an invariant (such as \<^const>\<open>ring_ok\<close>, \<^const>\<open>sstream_ok\<close>, \<^const>\<open>rstream_ok\<close>, \<^const>\<open>wp_ok\<close>, \<^const>\<open>pq_ok\<close>)
  that its operations keep, from creation on, over every interleaving of its operations (\<^const>\<open>sstream_reach\<close>,
  \<^const>\<open>rstream_reach\<close>, \<^const>\<open>pq_reach\<close>, \<^const>\<open>rcidm_reach\<close>, \<^const>\<open>rcidm_told\<close>, \<^const>\<open>ackm_run\<close>, \<^const>\<open>cfq_reach\<close>, \<^const>\<open>chan_reach\<close>,
  \<^const>\<open>fifd_run\<close> are step relations) and for every outcome of the allocations, and in whose states the operations are shown to
  do what they are for. The main ones:

    \<^item> end to end, what is read from a stream is what was written to it (\<open>Stream_Channel\<close>);
    \<^item> any sequence of frames is decoded as it was encoded, the decoders end on any input and accept only ACK ranges that
      are well-formed (\<open>Quic_Frames\<close>);
    \<^item> the send stream's frames carry the stream, acknowledging keeps it so, and its buffer is released when all was acknowledged
      (\<open>Sstream\<close>); the receive stream delivers the stream however it arrives (\<open>Rstream\<close>, \<open>Sframe_List\<close>);
    \<^item> the range lists are the sets they stand for (\<open>Uint_Set\<close>), the ring buffer the window of a byte sequence it stands for
      (\<open>Ring_Buf\<close>);
    \<^item> no flow-control limit is exceeded, per stream and per connection, and windows stay open (\<open>Flow_Control\<close>);
    \<^item> bytes in flight are those of the outstanding packets and the window has a floor (\<open>Newreno\<close>); the estimates lie
      within the samples (\<open>Statm\<close>);
    \<^item> the array heap is a map from handles to entries from which a least one is popped (\<open>Priority_Queue\<close>); no connection ID is lost or
      retired twice, the oldest takes over when the current one is retired, and what any accepted frame asked to retire is never used again (\<open>Rcidm\<close>);
    \<^item> in every run of the acknowledgement manager each packet is settled once, the bytes in flight are exact, an ACK frame settles the packets
      the reference criteria name, no packet number is accepted twice, the frames generated are sound and in time, and two managers
      never acknowledge a packet that was not received (\<open>Ackm_Run\<close>);
    \<^item> the control frame queue is a map from handles to frames, hands them out by priority and gives each buffer back once (\<open>Cfq\<close>); a packet's chunks come back
      sorted (\<open>Txpim\<close>);
    \<^item> the lists, counts and buffers of the stream map are those the streams' states say, every call moves a stream along the state graph of RFC 9000, a stream is
      active exactly when it has something to send that stream limit and flow control admit, iterators see each active stream once, ids are never used again (\<open>Stream_Open\<close>);
    \<^item> across streams, dispatcher, acknowledgement manager, pool and queue, no byte given to a stream and no control frame is forgotten: it waits, is acknowledged, or
      is in exactly one packet in flight; and every event, those of a discarded space included, is dispatched without a fault and gives exactly
      the settled packets back to the pool (\<open>Txp_Notify\<close>).

  Where the code differs from what it or its documentation promises, a theorem states what it does: a bordering insertion breaks
  the documented form of the integer sets, and with it the test for a fully acknowledged stream; a new frame can free the locked head
  of a frame list; releasing a record tells flow control an offset for a length; some ACK ranges are not validated; an empty STREAM
  frame cannot be encoded; a reservation in the priority queue can overflow; the connection ID manager can have a current ID and hand out none;
  the acknowledgement manager never reports ECN marks to the congestion controller, reports at most three ranges and overlooks the loss time of
  the Initial space; a RESET_STREAM is neither confirmed nor sent again, and streams ready to be collected never are.

  \<^bold>\<open>Interfaces.\<close> The packet writers are used through the locales \<open>sink_state\<close> and \<open>byte_sink\<close> of \<open>Wpacket\<close>: a writer either appends its bytes
  within the room left, or fails; \<open>wps\<close> interprets them on the writers of \<^verbatim>\<open>crypto/packet.c\<close>, and every encoder is shown to be such a
  writer by composition. The priority queue is used through \<open>prio_queue\<close>, what a client may rely on of the queue's view, which any comparison with the
  laws of \<open>pq_order\<close> gives; \<open>rq\<close> interprets them on the comparison of connection IDs by what their addresses hold. A congestion controller promises with
  \<open>congestion_accounting\<close> (\<open>Newreno\<close>) how each of its methods changes its bytes in flight; \<open>ackm_congestion\<close> extends it to the method table the
  acknowledgement manager calls, whose accounting is proved inside it, and \<open>nra\<close> interprets it on NewReno's table. The integer sets are used through
  \<open>int_range_set\<close>, which \<open>uset\<close> interprets. What the dispatcher needs of its callbacks is \<open>fifd_client\<close> (\<open>Fifd\<close>): reading and writing a stream through its pointer, and which
  callback may free one; its invariant over runs is proved inside it, and \<open>txp\<close> (\<open>Txp_Notify\<close>) interprets it on the packetiser's callbacks over the stream map.

  \<^bold>\<open>Bounds.\<close> Stream offsets stay below \<open>2 ^ 62\<close>, QUIC's limit, which the code relies on (the send stream refuses to pass it, the decoders
  can only yield such offsets). A ring buffer holds less than \<open>2 ^ 63\<close> bytes. Growing packet buffers are bounded by what \<^verbatim>\<open>BUF_MEM_grow\<close>
  accepts. The loop over the frames of a packet is bounded by the length of the packet, which is enough because each decoder takes at
  least one byte. The searches of the circular accept queue and of the list of streams to
  collect are \<open>partial_function\<close>s, for which an option result of \<^term>\<open>Some\<close> is proved. All other loops are structural or have a termination proof. In the runs of the dispatcher there is memory for the
  integer sets and the hash table, and a chunk sent lies within the bytes its stream has not sent yet; so a packet with only the FIN of an empty stream, whose chunk
  the packetiser gives the range 0 to \<open>2 ^ 64 - 1\<close>, is outside them.

  \<^bold>\<open>Not modelled.\<close> Freeing has no effect beyond the reference counts that are modelled. Of the QUIC directory: packet headers and protection (which are calls to
  libcrypto), building packets in the packetiser, the depacketiser, the connection state machine of the channel, the port and engine, and the application interface. Outside it: the TLS state machines, the
  libcrypto algorithms and providers, the command-line applications, tests.
\<close>

end
